(* ===== verification/Prelude.thy ===== *)
theory Prelude
  imports Main "HOL-Library.Word" "HOL-Library.Char_ord" "HOL-Library.List_Lexorder"
begin

unbundle bit_operations_syntax

section \<open>Shared types, constants and lemmas\<close>

text \<open>
  The vocabulary every component uses: the fixed-width integers of the C++ sources, bytes and
  their correspondence with the characters of \<open>std::string\<close>, the little-endian split of a word
  into bytes, and the list lemmas (slices, overwriting a slice) that the buffer and the ring
  proofs share. \<open>std::string\<close> is \<open>string\<close>: a list of 8-bit characters, ordered
  lexicographically by unsigned code as \<open>std::char_traits\<close> compares them.
\<close>

type_synonym byte = "8 word"
type_synonym u16 = "16 word"
type_synonym u32 = "32 word"
type_synonym u64 = "64 word"
type_synonym bytes = "byte list"

named_theorems wire_simps "evaluation of the wire primitives"
named_theorems omap_simps "lookups and enumerations of ordered maps"

text \<open>\<open>std::numeric_limits<size_t>::max()\<close> and \<open>std::numeric_limits<uint32_t>::max()\<close>.\<close>

definition SIZE_MAX :: nat where
  "SIZE_MAX = 2 ^ 64 - 1"

definition UINT32_MAX :: nat where
  "UINT32_MAX = 2 ^ 32 - 1"

subsection \<open>Bytes and characters\<close>

definition byte_of_char :: "char \<Rightarrow> byte" where
  "byte_of_char c = word_of_nat (of_char c)"

definition char_of_byte :: "byte \<Rightarrow> char" where
  "char_of_byte b = char_of (unat b)"

definition bytes_of_string :: "string \<Rightarrow> bytes" where
  "bytes_of_string s = map byte_of_char s"

definition string_of_bytes :: "bytes \<Rightarrow> string" where
  "string_of_bytes bs = map char_of_byte bs"

lemma char_of_byte_of_char [simp]: "char_of_byte (byte_of_char c) = c"
proof -
  have "(of_char c :: nat) < 256" by (rule nat_of_char_less_256)
  then show ?thesis
    by (simp add: char_of_byte_def byte_of_char_def unat_of_nat)
qed

lemma byte_of_char_of_byte [simp]: "byte_of_char (char_of_byte b) = b"
proof -
  have "unat b < 2 ^ LENGTH(8)" by (rule unsigned_less)
  then have "unat b mod 256 = unat b" by simp
  then show ?thesis by (simp add: char_of_byte_def byte_of_char_def)
qed

lemma string_of_bytes_of_string [simp]: "string_of_bytes (bytes_of_string s) = s"
  by (induction s) (auto simp: string_of_bytes_def bytes_of_string_def)

lemma bytes_of_string_of_bytes [simp]: "bytes_of_string (string_of_bytes b) = b"
  by (induction b) (auto simp: string_of_bytes_def bytes_of_string_def)

lemma length_bytes_of_string [simp]: "length (bytes_of_string s) = length s"
  by (simp add: bytes_of_string_def)

lemma length_string_of_bytes [simp]: "length (string_of_bytes b) = length b"
  by (simp add: string_of_bytes_def)

lemma bytes_of_string_Nil [simp]: "bytes_of_string [] = []"
  by (simp add: bytes_of_string_def)

lemma string_of_bytes_Nil [simp]: "string_of_bytes [] = []"
  by (simp add: string_of_bytes_def)

subsection \<open>Little-endian words\<close>

text \<open>\<open>value & 0xFF\<close>, \<open>(value >> 8) & 0xFF\<close>, and so on, least significant byte first.\<close>

definition le16 :: "u16 \<Rightarrow> bytes" where
  "le16 v = [ucast (v AND 0xFF), ucast (drop_bit 8 v AND 0xFF)]"

definition le32 :: "u32 \<Rightarrow> bytes" where
  "le32 v = [ucast (v AND 0xFF), ucast (drop_bit 8 v AND 0xFF),
             ucast (drop_bit 16 v AND 0xFF), ucast (drop_bit 24 v AND 0xFF)]"

definition le64 :: "u64 \<Rightarrow> bytes" where
  "le64 v = map (\<lambda>i. ucast (drop_bit (i * 8) v AND 0xFF)) [0..<8]"

definition of_le16 :: "byte \<Rightarrow> byte \<Rightarrow> u16" where
  "of_le16 b0 b1 = ucast b0 OR push_bit 8 (ucast b1)"

definition of_le32 :: "byte \<Rightarrow> byte \<Rightarrow> byte \<Rightarrow> byte \<Rightarrow> u32" where
  "of_le32 b0 b1 b2 b3 =
     ucast b0 OR push_bit 8 (ucast b1) OR push_bit 16 (ucast b2) OR push_bit 24 (ucast b3)"

text \<open>The loop \<open>for (i = 0; i < 8; ++i) out |= data[pos + i] << (i * 8)\<close>.\<close>

definition of_le64 :: "bytes \<Rightarrow> u64" where
  "of_le64 bs = foldl (\<lambda>out i. out OR push_bit (i * 8) (ucast (bs ! i))) 0 [0..<8]"

lemma length_le16 [simp]: "length (le16 v) = 2" by (simp add: le16_def)
lemma length_le32 [simp]: "length (le32 v) = 4" by (simp add: le32_def)
lemma length_le64 [simp]: "length (le64 v) = 8" by (simp add: le64_def)

lemma mask8: "(0xFF :: 'a::len word) = mask 8"
  by (simp add: mask_eq_exp_minus_1)

lemma of_le16_le16: "of_le16 (le16 v ! 0) (le16 v ! 1) = v"
  unfolding of_le16_def le16_def mask8
  by (rule bit_word_eqI) (auto simp: bit_simps)

text \<open>Bit \<open>n\<close> of a 32-bit word is found in the byte \<open>n div 8\<close>: one case per byte.\<close>

lemma of_le32_le32: "of_le32 (le32 v ! 0) (le32 v ! 1) (le32 v ! 2) (le32 v ! 3) = v"
proof (rule bit_word_eqI)
  fix n assume "n < LENGTH(32)"
  then consider "n < 8" | "8 \<le> n" "n < 16" | "16 \<le> n" "n < 24" | "24 \<le> n" "n < 32"
    by force
  then show "bit (of_le32 (le32 v ! 0) (le32 v ! 1) (le32 v ! 2) (le32 v ! 3)) n = bit v n"
    unfolding of_le32_def le32_def mask8
    by cases (simp_all add: bit_simps less_diff_conv2)
qed

lemma bit_le_fold:
  "bit (foldl (\<lambda>out i. out OR push_bit (i * 8) (ucast (f i :: byte))) (a :: u64) [0..<k]) n \<longleftrightarrow>
     bit a n \<or> (n < 64 \<and> n div 8 < k \<and> bit (f (n div 8)) (n mod 8))"
proof (induction k)
  case 0
  then show ?case by simp
next
  case (Suc k)
  have *: "bit (push_bit (k * 8) (ucast (f k :: byte)) :: u64) n \<longleftrightarrow>
      n < 64 \<and> n div 8 = k \<and> bit (f k) (n mod 8)"
  proof (cases "n div 8 = k")
    case True
    then have "k * 8 \<le> n" "n - k * 8 = n mod 8" by presburger+
    with True show ?thesis
      by (auto simp: bit_push_bit_iff bit_unsigned_iff)
  next
    case False
    have "8 \<le> n - k * 8" if le: "k * 8 \<le> n"
    proof -
      have "k \<le> n div 8" using div_le_mono [OF le, of 8] by simp
      with False have "Suc k \<le> n div 8" by simp
      then have "Suc k * 8 \<le> n"
        using div_times_less_eq_dividend [of n 8] mult_le_mono1 [of "Suc k" "n div 8" 8] le_trans
        by blast
      then show ?thesis by simp
    qed
    with False show ?thesis
      by (auto simp: bit_push_bit_iff bit_unsigned_iff dest!: bit_imp_le_length)
  qed
  show ?case by (auto simp: Suc bit_or_iff * less_Suc_eq)
qed

lemma of_le64_le64: "of_le64 (le64 v) = v"
proof (rule bit_word_eqI)
  fix n assume "n < LENGTH(64)"
  then have n: "n < 64" "n div 8 < 8" by auto
  have m: "n mod 8 < 8" "n mod 8 < 64" by (simp, rule le_less_trans [of _ 7], presburger, simp)
  have "le64 v ! (n div 8) = ucast (drop_bit (n div 8 * 8) v AND mask 8)"
    using n(2) by (simp add: le64_def mask8)
  then have "bit (le64 v ! (n div 8)) (n mod 8) = bit v n"
    using m by (simp add: bit_unsigned_iff bit_and_iff bit_mask_iff bit_drop_bit_eq)
  with n show "bit (of_le64 (le64 v)) n = bit v n"
    unfolding of_le64_def by (subst bit_le_fold) simp
qed

subsection \<open>Memory blocks\<close>

text \<open>
  \<open>memcpy(dst + pos, src, n)\<close> and \<open>memmove\<close> on a block of memory held as a byte list: the block
  keeps its length and only the bytes at \<open>pos ..< pos + n\<close> change.
\<close>

definition mem_put :: "'a list \<Rightarrow> nat \<Rightarrow> 'a list \<Rightarrow> 'a list" where
  "mem_put dst pos src = take pos dst @ src @ drop (pos + length src) dst"

definition mem_get :: "'a list \<Rightarrow> nat \<Rightarrow> nat \<Rightarrow> 'a list" where
  "mem_get src pos n = take n (drop pos src)"

lemma length_mem_put [simp]:
  "pos + length src \<le> length dst \<Longrightarrow> length (mem_put dst pos src) = length dst"
  by (simp add: mem_put_def)

lemma length_mem_get [simp]: "pos + n \<le> length src \<Longrightarrow> length (mem_get src pos n) = n"
  by (simp add: mem_get_def)

lemma mem_put_Nil [simp]: "mem_put dst pos [] = dst"
  by (simp add: mem_put_def)

lemma mem_get_0 [simp]: "mem_get src pos 0 = []"
  by (simp add: mem_get_def)

lemma take_mem_put:
  "pos \<le> length dst \<Longrightarrow> take (pos + length src) (mem_put dst pos src) = take pos dst @ src"
  by (simp add: mem_put_def)

lemma take_mem_put_before:
  "n \<le> pos \<Longrightarrow> pos \<le> length dst \<Longrightarrow> take n (mem_put dst pos src) = take n dst"
  by (simp add: mem_put_def)

lemma mem_get_append:
  "mem_get (pre @ mid @ post) (length pre) (length mid) = mid"
  by (simp add: mem_get_def)

lemma mem_put_append:
  "mem_put (mem_put dst pos a) (pos + length a) b = mem_put dst pos (a @ b)"
  if "pos + length a + length b \<le> length dst"
  using that by (simp add: mem_put_def ac_simps)

lemma nth_mem_put:
  "pos + length src \<le> length dst \<Longrightarrow> i < length dst \<Longrightarrow>
   mem_put dst pos src ! i = (if pos \<le> i \<and> i < pos + length src then src ! (i - pos) else dst ! i)"
  by (auto simp: mem_put_def nth_append min_def)

subsection \<open>Simulation\<close>

text \<open>
  A component whose operations keep an invariant and follow an abstract transition function under
  an abstraction function: any sequence of operations does.
\<close>

locale simulation =
  fixes inv :: "'c \<Rightarrow> bool" and abs :: "'c \<Rightarrow> 'a"
    and cstep :: "'op \<Rightarrow> 'c \<Rightarrow> 'c" and astep :: "'op \<Rightarrow> 'a \<Rightarrow> 'a"
  assumes inv_step: "inv c \<Longrightarrow> inv (cstep op c)"
    and abs_step: "inv c \<Longrightarrow> abs (cstep op c) = astep op (abs c)"
begin

lemma inv_run: "inv c \<Longrightarrow> inv (fold cstep ops c)"
  by (induction ops arbitrary: c) (simp_all add: inv_step)

lemma abs_run: "inv c \<Longrightarrow> abs (fold cstep ops c) = fold astep ops (abs c)"
  by (induction ops arbitrary: c) (simp_all add: inv_step abs_step)

end

subsection \<open>Sweeps\<close>

text \<open>
  A loop over keys whose body removes, at each key, what is to go from the part of a view that belongs
  to the key, and reports whether it removed anything:
  \<open>bool any = false; for (k : keys) if (body(k)) any = true;\<close>.
\<close>

definition any_loop :: "('k \<Rightarrow> 's \<Rightarrow> bool \<times> 's) \<Rightarrow> 'k list \<Rightarrow> 's \<Rightarrow> bool \<times> 's" where
  "any_loop body ks s = fold (\<lambda>k (any, s). case body k s of (r, s') \<Rightarrow> (any \<or> r, s')) ks (False, s)"

definition drop_if :: "('v \<Rightarrow> bool) \<Rightarrow> 'v option \<Rightarrow> 'v option" where
  "drop_if gone v = (case v of None \<Rightarrow> None | Some w \<Rightarrow> if gone w then None else Some w)"

lemma drop_if_simps [simp]:
  "drop_if gone None = None" "drop_if gone (Some w) = (if gone w then None else Some w)"
  by (simp_all add: drop_if_def)

lemma drop_if_Some: "drop_if gone v = Some w \<longleftrightarrow> v = Some w \<and> \<not> gone w"
  by (cases v) auto

locale sweep =
  fixes inv :: "'s \<Rightarrow> bool" and view :: "'s \<Rightarrow> 'x \<Rightarrow> 'v option" and key :: "'x \<Rightarrow> 'k"
    and gone :: "'x \<Rightarrow> 'v \<Rightarrow> bool" and body :: "'k \<Rightarrow> 's \<Rightarrow> bool \<times> 's"
  assumes body_spec: "inv s \<Longrightarrow> body k s = (r, s') \<Longrightarrow>
      inv s' \<and> (\<forall>x. view s' x = (if key x = k then drop_if (gone x) (view s x) else view s x)) \<and>
      (r \<longleftrightarrow> (\<exists>x v. key x = k \<and> view s x = Some v \<and> gone x v))"
begin

lemma fold_sweep:
  "inv s \<Longrightarrow> fold (\<lambda>k (any, s). case body k s of (r, s') \<Rightarrow> (any \<or> r, s')) ks (b, s) = (any, s') \<Longrightarrow>
   inv s' \<and> (\<forall>x. view s' x = (if key x \<in> set ks then drop_if (gone x) (view s x) else view s x)) \<and>
   (any \<longleftrightarrow> b \<or> (\<exists>x v. key x \<in> set ks \<and> view s x = Some v \<and> gone x v))"
proof (induction ks arbitrary: b s)
  case (Cons k ks)
  obtain r s1 where 1: "body k s = (r, s1)" by force
  note s1 = body_spec [OF Cons.prems(1) 1]
  have "fold (\<lambda>k (any, s). case body k s of (r, s') \<Rightarrow> (any \<or> r, s')) ks (b \<or> r, s1) = (any, s')"
    using Cons.prems(2) 1 by simp
  with Cons.IH [of s1 "b \<or> r"] s1
  have s': "inv s'" "\<forall>x. view s' x = (if key x \<in> set ks then drop_if (gone x) (view s1 x) else view s1 x)"
    "any \<longleftrightarrow> (b \<or> r) \<or> (\<exists>x v. key x \<in> set ks \<and> view s1 x = Some v \<and> gone x v)" by blast+
  have "drop_if (gone x) (drop_if (gone x) v) = drop_if (gone x) v" for x v by (cases v) auto
  with s'(2) s1 have "\<forall>x. view s' x = (if key x \<in> set (k # ks) then drop_if (gone x) (view s x) else view s x)"
    by auto
  moreover have "any \<longleftrightarrow> b \<or> (\<exists>x v. key x \<in> set (k # ks) \<and> view s x = Some v \<and> gone x v)"
  proof -
    have "view s1 x = Some v \<and> gone x v \<longleftrightarrow> key x \<noteq> k \<and> view s x = Some v \<and> gone x v" for x v
      using s1 by (auto simp: drop_if_Some)
    with s'(3) s1 show ?thesis by auto
  qed
  ultimately show ?case using s'(1) by blast
qed simp

lemma any_loop_sweep:
  assumes "inv s" "any_loop body ks s = (any, s')"
  shows "inv s'" "view s' x = (if key x \<in> set ks then drop_if (gone x) (view s x) else view s x)"
    "any \<longleftrightarrow> (\<exists>x v. key x \<in> set ks \<and> view s x = Some v \<and> gone x v)"
  using fold_sweep [OF assms(1), of ks False any s'] assms(2) by (auto simp: any_loop_def)

end

text \<open>The same with a list that collects a label of each part that lost something.\<close>

locale collecting_sweep =
  fixes inv :: "'s \<Rightarrow> bool" and view :: "'s \<Rightarrow> 'x \<Rightarrow> 'v option" and key :: "'x \<Rightarrow> 'k"
    and gone :: "'x \<Rightarrow> 'v \<Rightarrow> bool" and label :: "'x \<Rightarrow> 'l" and list_ok :: "'l list \<Rightarrow> bool"
    and body :: "'k \<Rightarrow> 'l list \<times> 's \<Rightarrow> 'l list \<times> 's"
  assumes body_spec: "inv s \<Longrightarrow> body k (ls, s) = (ls', s') \<Longrightarrow>
      inv s' \<and> (\<forall>x. view s' x = (if key x = k then drop_if (gone x) (view s x) else view s x)) \<and>
      set ls' = set ls \<union> {label x | x v. key x = k \<and> view s x = Some v \<and> gone x v} \<and>
      (list_ok ls \<longrightarrow> list_ok ls')"
begin

lemma fold_collect:
  "inv s \<Longrightarrow> fold body ks (ls, s) = (ls', s') \<Longrightarrow>
   inv s' \<and> (\<forall>x. view s' x = (if key x \<in> set ks then drop_if (gone x) (view s x) else view s x)) \<and>
   set ls' = set ls \<union> {label x | x v. key x \<in> set ks \<and> view s x = Some v \<and> gone x v} \<and>
   (list_ok ls \<longrightarrow> list_ok ls')"
proof (induction ks arbitrary: ls s)
  case (Cons k ks)
  obtain l1 s1 where 1: "body k (ls, s) = (l1, s1)" by force
  have s1: "inv s1" "view s1 x = (if key x = k then drop_if (gone x) (view s x) else view s x)"
    "set l1 = set ls \<union> {label x | x v. key x = k \<and> view s x = Some v \<and> gone x v}"
    "list_ok ls \<Longrightarrow> list_ok l1" for x
    using body_spec [OF Cons.prems(1) 1] by simp_all
  have 2: "fold body ks (l1, s1) = (ls', s')" using Cons.prems(2) 1 by simp
  have s': "inv s'" "view s' x = (if key x \<in> set ks then drop_if (gone x) (view s1 x) else view s1 x)"
    "set ls' = set l1 \<union> {label x | x v. key x \<in> set ks \<and> view s1 x = Some v \<and> gone x v}"
    "list_ok l1 \<Longrightarrow> list_ok ls'" for x
    using Cons.IH [OF s1(1) 2] by simp_all
  have "drop_if (gone x) (drop_if (gone x) v) = drop_if (gone x) v" for x v by (cases v) auto
  then have "view s' x = (if key x \<in> set (k # ks) then drop_if (gone x) (view s x) else view s x)" for x
    by (simp add: s'(2) s1(2))
  moreover have "set ls' = set ls \<union> {label x | x v. key x \<in> set (k # ks) \<and> view s x = Some v \<and> gone x v}"
  proof -
    have "view s1 x = Some v \<and> gone x v \<longleftrightarrow> key x \<noteq> k \<and> view s x = Some v \<and> gone x v" for x v
      by (auto simp: s1(2) drop_if_Some)
    then have "{label x | x v. key x \<in> set ks \<and> view s1 x = Some v \<and> gone x v} =
        {label x | x v. key x \<in> set ks \<and> key x \<noteq> k \<and> view s x = Some v \<and> gone x v}" by simp
    then show ?thesis unfolding s'(3) s1(3) by auto
  qed
  ultimately show ?case using s'(1,4) s1(4) by blast
qed simp

end

end
