(* ===== verification/OrdMap.thy ===== *)
theory OrdMap
  imports Prelude
begin

section \<open>Ordered associative containers\<close>

text \<open>
  \<open>std::map<K, V>\<close> and \<open>std::set<K>\<close> as the program uses them: lookup, \<open>m[k] = v\<close>, \<open>erase\<close>, and
  iteration in key order, which is observable (the first instance of a service, the order of
  notifications). A map is a list of pairs with strictly increasing keys, made into a type, so that
  sortedness and uniqueness of keys hold by construction and two maps with the same lookups are
  equal. \<open>om_list\<close> is the iteration order. The last part models the two-level index
  \<open>std::map<K, std::set<X> >\<close> with the idiom ``erase, and drop the bucket when it is empty''.
\<close>

subsection \<open>Sorted association lists\<close>

fun al_upd :: "'k::linorder \<Rightarrow> 'v \<Rightarrow> ('k \<times> 'v) list \<Rightarrow> ('k \<times> 'v) list" where
  "al_upd k v [] = [(k, v)]"
| "al_upd k v ((k', v') # ps) =
     (if k < k' then (k, v) # (k', v') # ps
      else if k = k' then (k, v) # ps
      else (k', v') # al_upd k v ps)"

definition al_del :: "'k \<Rightarrow> ('k \<times> 'v) list \<Rightarrow> ('k \<times> 'v) list" where
  "al_del k ps = filter (\<lambda>p. fst p \<noteq> k) ps"

abbreviation sorted_keys :: "('k::linorder \<times> 'v) list \<Rightarrow> bool" where
  "sorted_keys ps \<equiv> sorted_wrt (<) (map fst ps)"

lemma keys_al_upd: "fst ` set (al_upd k v ps) = insert k (fst ` set ps)"
  by (induction k v ps rule: al_upd.induct) (simp_all add: insert_commute)

lemma al_upd_ge:
  assumes "(a, b) \<in> set (al_upd k v ps)" "\<forall>p \<in> set ps. x < fst p" "\<not> k < x" "k \<noteq> x"
  shows "x < a"
proof -
  have "a \<in> insert k (fst ` set ps)"
    using assms(1) keys_al_upd [of k v ps] by (metis fst_conv imageI)
  then show ?thesis using assms(2-4) by auto
qed

lemma sorted_al_upd: "sorted_keys ps \<Longrightarrow> sorted_keys (al_upd k v ps)"
  by (induction k v ps rule: al_upd.induct) (auto dest: al_upd_ge)

lemma sorted_al_del: "sorted_keys ps \<Longrightarrow> sorted_keys (al_del k ps)"
  by (simp add: al_del_def sorted_wrt_map sorted_wrt_filter)

lemma map_of_al_upd: "map_of (al_upd k v ps) = (map_of ps)(k \<mapsto> v)"
  by (induction k v ps rule: al_upd.induct) (auto simp: fun_eq_iff)

lemma map_of_al_del: "map_of (al_del k ps) = (map_of ps)(k := None)"
  by (induction ps) (auto simp: al_del_def fun_eq_iff)

lemma distinct_keys_rebuild:
  "distinct (map fst ps) \<Longrightarrow> map (\<lambda>k. (k, the (map_of ps k))) (map fst ps) = ps"
  by (simp add: comp_def) (rule map_idI, auto)

lemma sorted_keys_ext:
  assumes "sorted_keys xs" "sorted_keys ys" "map_of xs = map_of ys"
  shows "xs = ys"
proof -
  have dist: "distinct (map fst xs)" "distinct (map fst ys)"
    using assms(1,2) by (auto simp: strict_sorted_iff)
  have "set (map fst xs) = set (map fst ys)"
    using assms(3) by (metis dom_map_of_conv_image_fst list.set_map)
  then have "map fst xs = map fst ys"
    using assms(1,2) by (metis strict_sorted_equal)
  then show ?thesis
    using distinct_keys_rebuild [OF dist(1)] distinct_keys_rebuild [OF dist(2)] assms(3) by simp
qed

subsection \<open>The type of ordered maps\<close>

typedef (overloaded) ('k::linorder, 'v) omap = "{ps :: ('k \<times> 'v) list. sorted_keys ps}"
  morphisms om_list OMap
  by (rule exI [of _ "[]"]) simp

setup_lifting type_definition_omap

lift_definition om_empty :: "('k::linorder, 'v) omap" is "[]" by simp

lift_definition om_lookup :: "('k::linorder, 'v) omap \<Rightarrow> 'k \<Rightarrow> 'v option" is map_of .

lift_definition om_update :: "'k::linorder \<Rightarrow> 'v \<Rightarrow> ('k, 'v) omap \<Rightarrow> ('k, 'v) omap" is al_upd
  by (rule sorted_al_upd)

lift_definition om_erase :: "'k::linorder \<Rightarrow> ('k, 'v) omap \<Rightarrow> ('k, 'v) omap" is al_del
  by (rule sorted_al_del)

lift_definition om_filter :: "('k::linorder \<Rightarrow> 'v \<Rightarrow> bool) \<Rightarrow> ('k, 'v) omap \<Rightarrow> ('k, 'v) omap"
  is "\<lambda>P. filter (\<lambda>(k, v). P k v)"
  by (auto simp: sorted_wrt_map intro: sorted_wrt_filter)

definition om_keys :: "('k::linorder, 'v) omap \<Rightarrow> 'k list" where
  "om_keys m = map fst (om_list m)"

definition om_values :: "('k::linorder, 'v) omap \<Rightarrow> 'v list" where
  "om_values m = map snd (om_list m)"

definition om_size :: "('k::linorder, 'v) omap \<Rightarrow> nat" where
  "om_size m = length (om_list m)"

definition om_is_empty :: "('k::linorder, 'v) omap \<Rightarrow> bool" where
  "om_is_empty m \<longleftrightarrow> om_list m = []"

subsection \<open>Lookup\<close>

lemma om_lookup_empty [simp, omap_simps]: "om_lookup om_empty k = None"
  by transfer simp

lemma om_lookup_update [omap_simps]:
  "om_lookup (om_update k v m) k' = (if k' = k then Some v else om_lookup m k')"
  by transfer (simp add: map_of_al_upd)

lemma om_lookup_erase [omap_simps]:
  "om_lookup (om_erase k m) k' = (if k' = k then None else om_lookup m k')"
  by transfer (simp add: map_of_al_del)

lemma om_lookup_update_same [simp]: "om_lookup (om_update k v m) k = Some v"
  by (simp add: om_lookup_update)

lemma om_lookup_erase_same [simp]: "om_lookup (om_erase k m) k = None"
  by (simp add: om_lookup_erase)

lemma om_ext: "(\<And>k. om_lookup m k = om_lookup m' k) \<Longrightarrow> m = m'"
  by transfer (auto intro: sorted_keys_ext)

lemma om_erase_absent: "om_lookup m k = None \<Longrightarrow> om_erase k m = m"
  by (rule om_ext) (auto simp: om_lookup_erase)

lemma om_update_update [simp]: "om_update k v (om_update k w m) = om_update k v m"
  by (rule om_ext) (simp add: om_lookup_update)

lemma om_erase_update [simp]: "om_erase k (om_update k v m) = om_erase k m"
  by (rule om_ext) (simp add: om_lookup_update om_lookup_erase)

lemma om_update_erase [simp]: "om_update k v (om_erase k m) = om_update k v m"
  by (rule om_ext) (simp add: om_lookup_update om_lookup_erase)

lemma om_update_idem: "om_lookup m k = Some v \<Longrightarrow> om_update k v m = m"
  by (rule om_ext) (auto simp: om_lookup_update)

subsection \<open>Enumeration\<close>

lemma om_list_empty [simp]: "om_list om_empty = []"
  by transfer simp

lemma om_list_update: "om_list (om_update k v m) = al_upd k v (om_list m)"
  by transfer simp

lemma om_list_erase: "om_list (om_erase k m) = al_del k (om_list m)"
  by transfer simp

lemma sorted_om_list [simp]: "sorted_keys (om_list m)"
  by transfer simp

lemma distinct_om_keys [simp]: "distinct (map fst (om_list m))"
  using sorted_om_list strict_sorted_iff by blast

lemma in_om_list_iff: "(k, v) \<in> set (om_list m) \<longleftrightarrow> om_lookup m k = Some v"
  using distinct_om_keys [of m] by (metis map_of_eq_Some_iff om_lookup.rep_eq)

lemma in_om_listD: "p \<in> set (om_list m) \<Longrightarrow> om_lookup m (fst p) = Some (snd p)"
  by (cases p) (simp add: in_om_list_iff)

lemma in_om_keys_iff: "k \<in> set (om_keys m) \<longleftrightarrow> om_lookup m k \<noteq> None"
proof -
  have "k \<in> set (om_keys m) \<longleftrightarrow> (\<exists>v. (k, v) \<in> set (om_list m))"
    by (force simp: om_keys_def)
  then show ?thesis by (auto simp: in_om_list_iff)
qed

lemma sorted_om_keys [simp]: "sorted_wrt (<) (om_keys m)"
  by (simp add: om_keys_def)

lemma in_om_values_iff: "v \<in> set (om_values m) \<longleftrightarrow> (\<exists>k. om_lookup m k = Some v)"
proof -
  have "v \<in> set (om_values m) \<longleftrightarrow> (\<exists>k. (k, v) \<in> set (om_list m))"
    by (force simp: om_values_def)
  then show ?thesis by (simp add: in_om_list_iff)
qed

lemma om_is_empty_iff: "om_is_empty m \<longleftrightarrow> (\<forall>k. om_lookup m k = None)"
proof
  assume "\<forall>k. om_lookup m k = None"
  then have "m = om_empty" by (intro om_ext) simp
  then show "om_is_empty m" by (simp add: om_is_empty_def)
qed (simp add: om_is_empty_def om_lookup.rep_eq)

lemma om_is_empty_eq: "om_is_empty m \<longleftrightarrow> m = om_empty"
  by (metis om_empty.rep_eq om_is_empty_def om_list_inject)

lemma om_lookup_filter:
  "om_lookup (om_filter P m) k =
     (case om_lookup m k of None \<Rightarrow> None | Some v \<Rightarrow> if P k v then Some v else None)"
proof (cases "om_lookup (om_filter P m) k")
  case None
  then have "\<forall>v. (k, v) \<notin> set (om_list (om_filter P m))" by (simp add: in_om_list_iff)
  then have "\<forall>v. om_lookup m k = Some v \<longrightarrow> \<not> P k v"
    by (simp add: om_filter.rep_eq in_om_list_iff)
  with None show ?thesis by (auto split: option.splits)
next
  case (Some v)
  then have "(k, v) \<in> set (om_list (om_filter P m))" by (simp add: in_om_list_iff)
  then have "om_lookup m k = Some v \<and> P k v" by (simp add: om_filter.rep_eq in_om_list_iff)
  with Some show ?thesis by simp
qed

subsection \<open>Sizes and sums\<close>

definition om_sum :: "('k::linorder \<Rightarrow> 'v \<Rightarrow> nat) \<Rightarrow> ('k, 'v) omap \<Rightarrow> nat" where
  "om_sum f m = sum_list (map (\<lambda>(k, v). f k v) (om_list m))"

lemma om_sum_empty [simp]: "om_sum f om_empty = 0"
  by (simp add: om_sum_def)

lemma sum_list_al_del:
  "sorted_keys ps \<Longrightarrow> sum_list (map (\<lambda>(k, v). f k v) ps) =
     (case map_of ps k of None \<Rightarrow> 0 | Some v \<Rightarrow> f k v)
       + (sum_list (map (\<lambda>(k, v). f k v) (al_del k ps)) :: nat)"
proof (induction ps)
  case (Cons p ps)
  obtain k' v' where p: "p = (k', v')" by force
  have "al_del k' ps = ps"
    using Cons.prems by (auto simp: al_del_def p filter_id_conv)
  with Cons show ?case by (cases "k = k'") (auto simp: p al_del_def)
qed (simp add: al_del_def)

text \<open>Taking one key out splits the sum: the other equations for sums and sizes follow.\<close>

lemma om_sum_split:
  "om_sum f m = (case om_lookup m k of None \<Rightarrow> 0 | Some v \<Rightarrow> f k v) + om_sum f (om_erase k m)"
  unfolding om_sum_def om_list_erase om_lookup.rep_eq by (rule sum_list_al_del) simp

lemma om_sum_update: "om_sum f (om_update k v m) = f k v + om_sum f (om_erase k m)"
  by (subst om_sum_split [of f _ k]) simp

lemma om_sum_cong: "(\<And>k v. om_lookup m k = Some v \<Longrightarrow> f k v = g k v) \<Longrightarrow> om_sum f m = om_sum g m"
  by (auto simp: om_sum_def in_om_list_iff intro!: arg_cong [where f = sum_list])

lemma om_sum_le: "om_lookup m k = Some v \<Longrightarrow> f k v \<le> om_sum f m"
  by (subst om_sum_split [of f m k]) simp

lemma om_sum_0_iff: "om_sum f m = 0 \<longleftrightarrow> (\<forall>k v. om_lookup m k = Some v \<longrightarrow> f k v = 0)"
proof
  assume "om_sum f m = 0"
  then show "\<forall>k v. om_lookup m k = Some v \<longrightarrow> f k v = 0"
    using om_sum_le [of m _ _ f] by (metis le_zero_eq)
qed (auto simp: om_sum_def in_om_list_iff)

lemma om_size_sum: "om_size m = om_sum (\<lambda>_ _. 1) m"
  by (simp add: om_size_def om_sum_def case_prod_unfold sum_list_triv)

lemma om_size_empty [simp]: "om_size om_empty = 0"
  by (simp add: om_size_def)

lemma om_size_0_iff: "om_size m = 0 \<longleftrightarrow> om_is_empty m"
  by (simp add: om_size_def om_is_empty_def)

lemma om_size_update:
  "om_size (om_update k v m) = (if om_lookup m k = None then Suc (om_size m) else om_size m)"
  using om_sum_split [of "\<lambda>_ _. 1" m k]
  by (auto simp: om_size_sum om_sum_update split: option.splits)

lemma om_size_erase:
  "om_size (om_erase k m) = (if om_lookup m k = None then om_size m else om_size m - 1)"
  using om_sum_split [of "\<lambda>_ _. 1" m k] by (auto simp: om_size_sum split: option.splits)

lemma om_size_card: "om_size m = card {k. om_lookup m k \<noteq> None}" "finite {k. om_lookup m k \<noteq> None}"
proof -
  have "om_size m = length (om_keys m)" by (simp add: om_size_def om_keys_def)
  moreover have "{k. om_lookup m k \<noteq> None} = set (om_keys m)" by (auto simp: in_om_keys_iff)
  moreover have "distinct (om_keys m)" by (simp add: om_keys_def)
  ultimately show "om_size m = card {k. om_lookup m k \<noteq> None}" "finite {k. om_lookup m k \<noteq> None}"
    by (simp_all add: distinct_card)
qed

lemma om_size_mono:
  assumes "\<And>k. om_lookup m' k \<noteq> None \<Longrightarrow> om_lookup m k \<noteq> None"
  shows "om_size m' \<le> om_size m"
  unfolding om_size_card(1) by (rule card_mono [OF om_size_card(2)]) (use assms in blast)

text \<open>Equality and size of maps, for evaluation and for termination measures.\<close>

instantiation omap :: (linorder, equal) equal
begin

definition equal_omap :: "('a, 'b) omap \<Rightarrow> ('a, 'b) omap \<Rightarrow> bool" where
  "equal_omap m m' \<longleftrightarrow> om_list m = om_list m'"

instance
  by standard (simp add: equal_omap_def om_list_inject)

end

subsection \<open>The interface of a keyed store\<close>

text \<open>
  What the components rely on: a lookup after an update or an erase. The facts about a loop that
  updates or erases many keys are proved once from it.
\<close>

locale keyed_store =
  fixes lookup :: "'m \<Rightarrow> 'k \<Rightarrow> 'v option"
    and update :: "'k \<Rightarrow> 'v \<Rightarrow> 'm \<Rightarrow> 'm"
    and erase :: "'k \<Rightarrow> 'm \<Rightarrow> 'm"
  assumes lookup_update: "lookup (update k v m) k' = (if k' = k then Some v else lookup m k')"
    and lookup_erase: "lookup (erase k m) k' = (if k' = k then None else lookup m k')"
begin

lemma lookup_fold_erase:
  "lookup (fold erase ks m) k = (if k \<in> set ks then None else lookup m k)"
  by (induction ks arbitrary: m) (auto simp: lookup_erase)

lemma lookup_fold_update:
  "lookup (fold (\<lambda>(k, v). update k v) kvs m) k =
     (case map_of (rev kvs) k of None \<Rightarrow> lookup m k | Some v \<Rightarrow> Some v)"
  by (induction kvs arbitrary: m)
     (auto simp: lookup_update map_add_def split: option.splits)

end

interpretation omap: keyed_store om_lookup om_update om_erase
  by unfold_locales (simp_all add: om_lookup_update om_lookup_erase)

subsection \<open>Sets and two-level indexes\<close>

type_synonym 'k oset = "('k, unit) omap"

definition os_insert :: "'k::linorder \<Rightarrow> 'k oset \<Rightarrow> 'k oset" where
  "os_insert x s = om_update x () s"

definition os_member :: "'k::linorder oset \<Rightarrow> 'k \<Rightarrow> bool" where
  "os_member s x \<longleftrightarrow> om_lookup s x \<noteq> None"

lemma os_member_empty [simp]: "\<not> os_member om_empty x"
  by (simp add: os_member_def)

lemma os_member_insert [simp]: "os_member (os_insert x s) y \<longleftrightarrow> y = x \<or> os_member s y"
  by (auto simp: os_member_def os_insert_def om_lookup_update)

lemma os_member_erase [simp]: "os_member (om_erase x s) y \<longleftrightarrow> y \<noteq> x \<and> os_member s y"
  by (auto simp: os_member_def om_lookup_erase)

lemma os_member_keys: "os_member s x \<longleftrightarrow> x \<in> set (om_keys s)"
  by (simp add: os_member_def in_om_keys_iff)

lemma os_is_empty_iff: "om_is_empty s \<longleftrightarrow> (\<forall>x. \<not> os_member s x)"
  unfolding om_is_empty_iff os_member_def not_not by (rule refl)

text \<open>\<open>m[k].insert(x)\<close>, and \<open>m[k].erase(x)\<close> followed by dropping an empty bucket.\<close>

definition bucket_insert ::
  "'k::linorder \<Rightarrow> 'x::linorder \<Rightarrow> ('k, 'x oset) omap \<Rightarrow> ('k, 'x oset) omap" where
  "bucket_insert k x m =
     om_update k (os_insert x (case om_lookup m k of None \<Rightarrow> om_empty | Some s \<Rightarrow> s)) m"

definition bucket_erase ::
  "'k::linorder \<Rightarrow> 'x::linorder \<Rightarrow> ('k, 'x oset) omap \<Rightarrow> ('k, 'x oset) omap" where
  "bucket_erase k x m =
     (case om_lookup m k of
        None \<Rightarrow> m
      | Some s \<Rightarrow> let s' = om_erase x s in
          if om_is_empty s' then om_erase k m else om_update k s' m)"

text \<open>The set of elements in a bucket, empty for a key that has no bucket.\<close>

definition bucket :: "('k::linorder, 'x::linorder oset) omap \<Rightarrow> 'k \<Rightarrow> 'x set" where
  "bucket m k = (case om_lookup m k of None \<Rightarrow> {} | Some s \<Rightarrow> {x. os_member s x})"

definition no_empty_bucket :: "('k::linorder, 'x::linorder oset) omap \<Rightarrow> bool" where
  "no_empty_bucket m \<longleftrightarrow> (\<forall>k s. om_lookup m k = Some s \<longrightarrow> \<not> om_is_empty s)"

lemma bucket_empty [simp]: "bucket om_empty k = {}"
  by (simp add: bucket_def)

lemma bucket_bucket_insert [simp]:
  "bucket (bucket_insert k x m) k' = (if k' = k then insert x (bucket m k) else bucket m k')"
  by (auto simp: bucket_def bucket_insert_def om_lookup_update split: option.splits)

lemma bucket_bucket_erase [simp]:
  "bucket (bucket_erase k x m) k' = (if k' = k then bucket m k - {x} else bucket m k')"
  by (auto simp: bucket_def bucket_erase_def Let_def om_lookup_update om_lookup_erase os_is_empty_iff
      split: option.splits)

lemma bucket_om_erase [simp]:
  "bucket (om_erase k m) k' = (if k' = k then {} else bucket m k')"
  by (simp add: bucket_def om_lookup_erase)

lemma no_empty_bucket_empty [simp]: "no_empty_bucket om_empty"
  by (simp add: no_empty_bucket_def)

lemma no_empty_bucket_insert [simp]: "no_empty_bucket m \<Longrightarrow> no_empty_bucket (bucket_insert k x m)"
  by (auto simp: no_empty_bucket_def bucket_insert_def om_lookup_update os_is_empty_iff)

lemma no_empty_bucket_erase [simp]: "no_empty_bucket m \<Longrightarrow> no_empty_bucket (bucket_erase k x m)"
  by (auto simp: no_empty_bucket_def bucket_erase_def Let_def om_lookup_update om_lookup_erase
      split: option.splits if_splits)

lemma no_empty_bucket_om_erase [simp]: "no_empty_bucket m \<Longrightarrow> no_empty_bucket (om_erase k m)"
  by (auto simp: no_empty_bucket_def om_lookup_erase)

lemma no_empty_bucket_lookup:
  "no_empty_bucket m \<Longrightarrow> om_lookup m k = None \<longleftrightarrow> bucket m k = {}"
  by (auto simp: no_empty_bucket_def bucket_def os_is_empty_iff split: option.splits)

lemma finite_bucket [simp]: "finite (bucket m k)"
  by (auto simp: bucket_def os_member_keys split: option.splits)

lemma set_bucket_keys: "set (case om_lookup m k of None \<Rightarrow> [] | Some s \<Rightarrow> om_keys s) = bucket m k"
  by (auto simp: bucket_def os_member_def in_om_keys_iff split: option.splits)

end
