(* ===== verification/WireBuffer.thy ===== *)
theory WireBuffer
  imports OrdMap
begin

unbundle bit_operations_syntax

section \<open>The serialisation buffer\<close>

text \<open>
  \<open>Buffer\<close> (include/omnibinder/buffer.h, src/core/buffer.cpp), \<open>BufferView\<close>
  (include/omnibinder/buffer_view.h, src/core/buffer_view.cpp) and the shared read primitives
  \<open>buffer_read\<close> (src/core/buffer_read_utils.h).

  A buffer owns a block of memory, held as a byte list of length \<open>capacity_\<close>; \<open>size_t\<close> values are
  natural numbers and every overflow test of the source against \<open>SIZE_MAX\<close> is written out. The
  heap allocator (\<open>operator new(n, std::nothrow)\<close>) is a parameter \<open>alloc\<close>: \<open>None\<close> is the null
  pointer, \<open>Some block\<close> a block whose initial contents are whatever the allocator left there.
  \<open>std::string\<close> and \<open>std::vector\<close> allocations of the readers are taken to succeed. Signed integers
  are the words of the same width and floats are their bit patterns, which is what the casts and
  the \<open>memcpy\<close> of the source do.
\<close>

type_synonym allocator = "nat \<Rightarrow> bytes option"

record Buffer =
  b_data :: bytes
  b_capacity :: nat
  b_write_pos :: nat
  b_read_pos :: nat
  b_write_failed :: bool

definition DEFAULT_BUFFER_SIZE :: nat where
  "DEFAULT_BUFFER_SIZE = 4096"

definition Buffer_empty :: Buffer where
  "Buffer_empty = \<lparr>b_data = [], b_capacity = 0, b_write_pos = 0, b_read_pos = 0,
                   b_write_failed = False\<rparr>"

subsection \<open>Growing\<close>

text \<open>
  The doubling loop of \<open>grow\<close>; \<open>None\<close> is the overflow exit. The loop is entered with a positive
  capacity only (\<open>DEFAULT_BUFFER_SIZE\<close> or twice a positive capacity); the test \<open>0 < n\<close> records it.
\<close>

function grow_capacity :: "nat \<Rightarrow> nat \<Rightarrow> nat option" where
  "grow_capacity n min_capacity =
     (if n < min_capacity \<and> 0 < n then
        if SIZE_MAX div 2 < n then None else grow_capacity (n * 2) min_capacity
      else Some n)"
  by pat_completeness auto
termination
  by (relation "measure (\<lambda>(n, m). m - n)") auto

declare grow_capacity.simps [simp del]

definition Buffer_fail :: "Buffer \<Rightarrow> Buffer" where
  "Buffer_fail b = b\<lparr>b_write_failed := True\<rparr>"

definition Buffer_grow :: "allocator \<Rightarrow> nat \<Rightarrow> Buffer \<Rightarrow> Buffer" where
  "Buffer_grow alloc min_capacity b =
     (if SIZE_MAX div 2 < b_capacity b then Buffer_fail b
      else
        let new_capacity = (if b_capacity b = 0 then DEFAULT_BUFFER_SIZE else b_capacity b * 2) in
        case grow_capacity new_capacity min_capacity of
          None \<Rightarrow> Buffer_fail b
        | Some n \<Rightarrow>
            (case alloc n of
               None \<Rightarrow> Buffer_fail b
             | Some new_data \<Rightarrow>
                 b\<lparr>b_data := mem_put new_data 0 (take (b_write_pos b) (b_data b)),
                   b_capacity := n\<rparr>))"

definition Buffer_ensureCapacity :: "allocator \<Rightarrow> nat \<Rightarrow> Buffer \<Rightarrow> bool \<times> Buffer" where
  "Buffer_ensureCapacity alloc additional b =
     (if b_write_failed b then (False, b)
      else if SIZE_MAX - b_write_pos b < additional then (False, Buffer_fail b)
      else
        let required = b_write_pos b + additional;
            b' = (if b_capacity b < required then Buffer_grow alloc required b else b)
        in (\<not> b_write_failed b', b'))"

definition Buffer_reserve :: "allocator \<Rightarrow> nat \<Rightarrow> Buffer \<Rightarrow> Buffer" where
  "Buffer_reserve alloc new_capacity b =
     (if b_capacity b < new_capacity then Buffer_grow alloc new_capacity b else b)"

definition Buffer_resize :: "allocator \<Rightarrow> nat \<Rightarrow> Buffer \<Rightarrow> Buffer" where
  "Buffer_resize alloc new_size b =
     (if new_size < b_read_pos b then b
      else if b_capacity b < new_size then
        let b' = Buffer_reserve alloc new_size b in
        if b_write_failed b' then b' else b'\<lparr>b_write_pos := new_size\<rparr>
      else b\<lparr>b_write_pos := new_size\<rparr>)"

subsection \<open>Cursor management\<close>

definition Buffer_size :: "Buffer \<Rightarrow> nat" where
  "Buffer_size b = b_write_pos b"

definition Buffer_reset :: "Buffer \<Rightarrow> Buffer" where
  "Buffer_reset b = b\<lparr>b_read_pos := 0, b_write_failed := False\<rparr>"

definition Buffer_clear :: "Buffer \<Rightarrow> Buffer" where
  "Buffer_clear b = b\<lparr>b_write_pos := 0, b_read_pos := 0, b_write_failed := False\<rparr>"

definition Buffer_trySetReadPosition :: "nat \<Rightarrow> Buffer \<Rightarrow> bool \<times> Buffer" where
  "Buffer_trySetReadPosition pos b =
     (if b_write_pos b < pos then (False, b) else (True, b\<lparr>b_read_pos := pos\<rparr>))"

definition Buffer_setWritePosition :: "allocator \<Rightarrow> nat \<Rightarrow> Buffer \<Rightarrow> Buffer" where
  "Buffer_setWritePosition alloc pos b =
     (if pos < b_read_pos b then b
      else if b_capacity b < pos then
        let b' = Buffer_reserve alloc pos b in
        if b_write_failed b' then b' else b'\<lparr>b_write_pos := pos\<rparr>
      else b\<lparr>b_write_pos := pos\<rparr>)"

definition Buffer_hasRemaining :: "Buffer \<Rightarrow> bool" where
  "Buffer_hasRemaining b \<longleftrightarrow> b_read_pos b < b_write_pos b"

definition Buffer_remaining :: "Buffer \<Rightarrow> nat" where
  "Buffer_remaining b = b_write_pos b - b_read_pos b"

definition Buffer_assign :: "allocator \<Rightarrow> bytes \<Rightarrow> Buffer \<Rightarrow> Buffer" where
  "Buffer_assign alloc src b =
     (let b = Buffer_clear b in
      if length src = 0 then b
      else
        let b = Buffer_reserve alloc (length src) b in
        if b_write_failed b then b
        else b\<lparr>b_data := mem_put (b_data b) 0 src, b_write_pos := length src\<rparr>)"

definition Buffer_writeOk :: "Buffer \<Rightarrow> bool" where
  "Buffer_writeOk b \<longleftrightarrow> \<not> b_write_failed b"

definition Buffer_compact :: "Buffer \<Rightarrow> Buffer" where
  "Buffer_compact b =
     (let remaining = b_write_pos b - b_read_pos b;
          data = (if 0 < remaining \<and> 0 < b_read_pos b
                  then mem_put (b_data b) 0 (mem_get (b_data b) (b_read_pos b) remaining)
                  else b_data b)
      in b\<lparr>b_data := data, b_write_pos := remaining, b_read_pos := 0\<rparr>)"

text \<open>\<open>writableTail\<close>: the number of writable bytes, \<open>None\<close> for the null pointer.\<close>

definition Buffer_writableTail :: "allocator \<Rightarrow> Buffer \<Rightarrow> nat option \<times> Buffer" where
  "Buffer_writableTail alloc b =
     (if b_write_failed b then (None, b)
      else
        let b' = (if b_write_pos b = b_capacity b then Buffer_reserve alloc ((b_write_pos b + 1) mod (SIZE_MAX + 1)) b
                  else b) in
        if b_write_failed b' then (None, b')
        else (Some (b_capacity b' - b_write_pos b'), b'))"

definition Buffer_commitWritten :: "nat \<Rightarrow> Buffer \<Rightarrow> bool \<times> Buffer" where
  "Buffer_commitWritten n b =
     (if b_write_failed b \<or> b_capacity b - b_write_pos b < n then (False, b)
      else (True, b\<lparr>b_write_pos := b_write_pos b + n\<rparr>))"

text \<open>
  The caller's store through the pointer \<open>writableTail\<close> returned (a \<open>recv\<close> into the tail), and the
  constructors \<open>Buffer(capacity)\<close> and \<open>Buffer(data, length)\<close>.
\<close>

definition Buffer_fillTail :: "bytes \<Rightarrow> Buffer \<Rightarrow> Buffer" where
  "Buffer_fillTail src b = b\<lparr>b_data := mem_put (b_data b) (b_write_pos b) src\<rparr>"

definition Buffer_new :: "allocator \<Rightarrow> nat \<Rightarrow> Buffer" where
  "Buffer_new alloc initial_capacity =
     (if 0 < initial_capacity then Buffer_reserve alloc initial_capacity Buffer_empty
      else Buffer_empty)"

definition Buffer_from :: "allocator \<Rightarrow> bytes \<Rightarrow> Buffer" where
  "Buffer_from alloc src =
     (if 0 < length src then Buffer_assign alloc src Buffer_empty else Buffer_empty)"

subsection \<open>Writers\<close>

type_synonym writer = "allocator \<Rightarrow> Buffer \<Rightarrow> bool \<times> Buffer"

text \<open>\<open>data_[write_pos_++] = x\<close>.\<close>

definition Buffer_store :: "byte \<Rightarrow> Buffer \<Rightarrow> Buffer" where
  "Buffer_store x b = b\<lparr>b_data := (b_data b)[b_write_pos b := x], b_write_pos := b_write_pos b + 1\<rparr>"

text \<open>\<open>if (!ensureCapacity(n)) return false;\<close> followed by the stores.\<close>

definition Buffer_stores :: "bytes \<Rightarrow> writer" where
  "Buffer_stores bs alloc b =
     (case Buffer_ensureCapacity alloc (length bs) b of
        (False, b') \<Rightarrow> (False, b')
      | (True, b') \<Rightarrow> (True, fold Buffer_store bs b'))"

definition writeUint8 :: "byte \<Rightarrow> writer" where
  "writeUint8 value = Buffer_stores [value]"

definition writeInt8 :: "byte \<Rightarrow> writer" where
  "writeInt8 value = Buffer_stores [value]"

definition writeBool :: "bool \<Rightarrow> writer" where
  "writeBool value = writeUint8 (if value then 1 else 0)"

definition writeUint16 :: "u16 \<Rightarrow> writer" where
  "writeUint16 value = Buffer_stores (le16 value)"

definition writeInt16 :: "u16 \<Rightarrow> writer" where
  "writeInt16 value = writeUint16 value"

definition writeUint32 :: "u32 \<Rightarrow> writer" where
  "writeUint32 value = Buffer_stores (le32 value)"

definition writeInt32 :: "u32 \<Rightarrow> writer" where
  "writeInt32 value = writeUint32 value"

definition writeUint64 :: "u64 \<Rightarrow> writer" where
  "writeUint64 value = Buffer_stores (le64 value)"

definition writeInt64 :: "u64 \<Rightarrow> writer" where
  "writeInt64 value = writeUint64 value"

definition writeFloat32 :: "u32 \<Rightarrow> writer" where
  "writeFloat32 bits = writeUint32 bits"

definition writeFloat64 :: "u64 \<Rightarrow> writer" where
  "writeFloat64 bits = writeUint64 bits"

definition writeRaw :: "bytes \<Rightarrow> writer" where
  "writeRaw src alloc b =
     (if 0 < length src then
        case Buffer_ensureCapacity alloc (length src) b of
          (False, b') \<Rightarrow> (False, b')
        | (True, b') \<Rightarrow>
            (True, b'\<lparr>b_data := mem_put (b_data b') (b_write_pos b') src,
                      b_write_pos := b_write_pos b' + length src\<rparr>)
      else (True, b))"

text \<open>\<open>if (!w1) return false; return w2;\<close> and the \<open>a && b && c\<close> chains of the encoders.\<close>

definition wthen :: "writer \<Rightarrow> writer \<Rightarrow> writer" where
  "wthen w1 w2 alloc b =
     (case w1 alloc b of (False, b') \<Rightarrow> (False, b') | (True, b') \<Rightarrow> w2 alloc b')"

definition wskip :: writer where
  "wskip alloc b = (True, b)"

definition wreject :: writer where
  "wreject alloc b = (False, b)"

fun wseq :: "writer list \<Rightarrow> writer" where
  "wseq [] = wskip"
| "wseq (w # ws) = wthen w (wseq ws)"

definition writeBytes :: "bytes \<Rightarrow> writer" where
  "writeBytes src alloc b =
     (if UINT32_MAX - 4 < length src then (False, Buffer_fail b)
      else
        let len = (of_nat (length src) :: u32) in
        case Buffer_ensureCapacity alloc (unat (4 + len)) b of
          (False, b') \<Rightarrow> (False, b')
        | (True, b') \<Rightarrow> wthen (writeUint32 len) (if 0 < len then writeRaw src else wskip) alloc b')"

definition writeString :: "string \<Rightarrow> writer" where
  "writeString value = writeBytes (bytes_of_string value)"

subsection \<open>Readers\<close>

text \<open>
  The read primitives take the memory, the limit and the cursor, and return the value read
  (\<open>None\<close> for \<open>false\<close>) with the new cursor.
\<close>

definition canRead :: "nat \<Rightarrow> nat \<Rightarrow> nat \<Rightarrow> bool" where
  "canRead limit pos n \<longleftrightarrow> pos \<le> limit \<and> n \<le> limit - pos"

type_synonym 'a primitive = "bytes \<Rightarrow> nat \<Rightarrow> nat \<Rightarrow> 'a option \<times> nat"

definition readUint8 :: "byte primitive" where
  "readUint8 data limit pos =
     (if \<not> canRead limit pos 1 then (None, pos) else (Some (data ! pos), pos + 1))"

definition readBool :: "bool primitive" where
  "readBool data limit pos =
     (case readUint8 data limit pos of
        (None, pos') \<Rightarrow> (None, pos')
      | (Some b, pos') \<Rightarrow> (Some (b \<noteq> 0), pos'))"

definition readInt8 :: "byte primitive" where
  "readInt8 data limit pos =
     (case readUint8 data limit pos of
        (None, pos') \<Rightarrow> (None, pos')
      | (Some b, pos') \<Rightarrow> (Some b, pos'))"

definition readUint16 :: "u16 primitive" where
  "readUint16 data limit pos =
     (if \<not> canRead limit pos 2 then (None, pos)
      else (Some (of_le16 (data ! pos) (data ! (pos + 1))), pos + 2))"

definition readInt16 :: "u16 primitive" where
  "readInt16 = readUint16"

definition readUint32 :: "u32 primitive" where
  "readUint32 data limit pos =
     (if \<not> canRead limit pos 4 then (None, pos)
      else (Some (of_le32 (data ! pos) (data ! (pos + 1)) (data ! (pos + 2)) (data ! (pos + 3))),
            pos + 4))"

definition readInt32 :: "u32 primitive" where
  "readInt32 = readUint32"

definition readUint64 :: "u64 primitive" where
  "readUint64 data limit pos =
     (if \<not> canRead limit pos 8 then (None, pos)
      else (Some (of_le64 (mem_get data pos 8)), pos + 8))"

definition readInt64 :: "u64 primitive" where
  "readInt64 = readUint64"

definition readFloat32 :: "u32 primitive" where
  "readFloat32 = readUint32"

definition readFloat64 :: "u64 primitive" where
  "readFloat64 = readUint64"

definition readBytes :: "bytes primitive" where
  "readBytes data limit pos =
     (case readUint32 data limit pos of
        (None, pos') \<Rightarrow> (None, pos')
      | (Some len, pos') \<Rightarrow>
          if len = 0 then (Some [], pos')
          else if \<not> canRead limit pos' (unat len) then (None, pos')
          else (Some (mem_get data pos' (unat len)), pos' + unat len))"

definition readString :: "string primitive" where
  "readString data limit pos =
     (case readUint32 data limit pos of
        (None, pos') \<Rightarrow> (None, pos')
      | (Some len, pos') \<Rightarrow>
          if len = 0 then (Some [], pos')
          else if \<not> canRead limit pos' (unat len) then (None, pos')
          else (Some (string_of_bytes (mem_get data pos' (unat len))), pos' + unat len))"

subsection \<open>Well-formed buffers\<close>

definition Buffer_wf :: "Buffer \<Rightarrow> bool" where
  "Buffer_wf b \<longleftrightarrow> length (b_data b) = b_capacity b \<and> b_write_pos b \<le> b_capacity b \<and>
     b_read_pos b \<le> b_write_pos b \<and> b_capacity b \<le> SIZE_MAX"

definition Buffer_content :: "Buffer \<Rightarrow> bytes" where
  "Buffer_content b = take (b_write_pos b) (b_data b)"

text \<open>The allocator returns blocks of the requested size; it may refuse.\<close>

definition alloc_ok :: "allocator \<Rightarrow> bool" where
  "alloc_ok alloc \<longleftrightarrow> (\<forall>n block. alloc n = Some block \<longrightarrow> length block = n)"

text \<open>It never refuses a size a \<open>size_t\<close> can express.\<close>

definition alloc_total :: "allocator \<Rightarrow> bool" where
  "alloc_total alloc \<longleftrightarrow> alloc_ok alloc \<and> (\<forall>n \<le> SIZE_MAX. alloc n \<noteq> None)"

lemma length_Buffer_content [simp]: "Buffer_wf b \<Longrightarrow> length (Buffer_content b) = b_write_pos b"
  by (simp add: Buffer_wf_def Buffer_content_def)

lemma Buffer_wf_empty [simp]: "Buffer_wf Buffer_empty"
  by (simp add: Buffer_wf_def Buffer_empty_def)

lemma Buffer_empty_cursors [simp]:
  "b_write_pos Buffer_empty = 0" "b_read_pos Buffer_empty = 0" "\<not> b_write_failed Buffer_empty"
  by (simp_all add: Buffer_empty_def)

lemma Buffer_content_empty [simp]: "Buffer_content Buffer_empty = []"
  by (simp add: Buffer_content_def Buffer_empty_def)

lemma grow_capacity_Some:
  "grow_capacity n m = Some r \<Longrightarrow> 0 < n \<Longrightarrow> m \<le> r \<and> n \<le> r \<and> (n \<le> SIZE_MAX \<longrightarrow> r \<le> SIZE_MAX)"
proof (induction n m rule: grow_capacity.induct)
  case (1 n m)
  show ?case
  proof (cases "n < m")
    case True
    with "1.prems" have lim: "n \<le> SIZE_MAX div 2" and r: "grow_capacity (n * 2) m = Some r"
      by (auto simp: grow_capacity.simps [of n m] split: if_splits)
    have "m \<le> r \<and> n * 2 \<le> r \<and> (n * 2 \<le> SIZE_MAX \<longrightarrow> r \<le> SIZE_MAX)"
      using "1.IH" True "1.prems"(2) lim r by simp
    with lim show ?thesis by linarith
  next
    case False
    with "1.prems" show ?thesis by (auto simp: grow_capacity.simps [of n m])
  qed
qed

lemma grow_capacity_total: "0 < n \<Longrightarrow> m \<le> 2 ^ 63 \<Longrightarrow> \<exists>r. grow_capacity n m = Some r"
proof (induction n m rule: grow_capacity.induct)
  case (1 n m)
  have "\<not> SIZE_MAX div 2 < n" if "n < m"
    using that "1.prems"(2) by (simp add: SIZE_MAX_def)
  with 1 show ?case by (auto simp: grow_capacity.simps [of n m])
qed

lemma Buffer_fail_simps [simp]:
  "b_data (Buffer_fail b) = b_data b" "b_capacity (Buffer_fail b) = b_capacity b"
  "b_write_pos (Buffer_fail b) = b_write_pos b" "b_read_pos (Buffer_fail b) = b_read_pos b"
  "b_write_failed (Buffer_fail b)" "Buffer_wf (Buffer_fail b) = Buffer_wf b"
  "Buffer_content (Buffer_fail b) = Buffer_content b"
  by (simp_all add: Buffer_fail_def Buffer_wf_def Buffer_content_def)

text \<open>Growing keeps the contents and the cursors, and either fails or reaches the size asked for.\<close>

lemma Buffer_grow_cases:
  assumes "alloc_ok alloc" "Buffer_wf b"
  obtains (fail) "Buffer_grow alloc m b = Buffer_fail b"
  | (grown) n new_data where "m \<le> n" "b_capacity b \<le> n" "n \<le> SIZE_MAX" "length new_data = n"
      "Buffer_grow alloc m b =
         b\<lparr>b_data := mem_put new_data 0 (take (b_write_pos b) (b_data b)), b_capacity := n\<rparr>"
proof -
  let ?n0 = "if b_capacity b = 0 then DEFAULT_BUFFER_SIZE else b_capacity b * 2"
  show thesis
  proof (cases "SIZE_MAX div 2 < b_capacity b \<or> grow_capacity ?n0 m = None
                \<or> alloc (the (grow_capacity ?n0 m)) = None")
    case True
    then have "Buffer_grow alloc m b = Buffer_fail b"
      by (auto simp: Buffer_grow_def Let_def split: option.splits)
    then show thesis by (rule fail)
  next
    case False
    then obtain n blk where n: "grow_capacity ?n0 m = Some n" and blk: "alloc n = Some blk"
      and small: "b_capacity b \<le> SIZE_MAX div 2"
      by (auto simp: not_less)
    have "0 < ?n0" "?n0 \<le> SIZE_MAX" "b_capacity b \<le> ?n0"
      using small by (auto simp: DEFAULT_BUFFER_SIZE_def SIZE_MAX_def)
    then have "m \<le> n" "b_capacity b \<le> n" "n \<le> SIZE_MAX"
      using grow_capacity_Some [OF n] by auto
    moreover have "length blk = n" using blk assms(1) by (auto simp: alloc_ok_def)
    moreover have "Buffer_grow alloc m b =
        b\<lparr>b_data := mem_put blk 0 (take (b_write_pos b) (b_data b)), b_capacity := n\<rparr>"
      using n blk small by (simp add: Buffer_grow_def Let_def)
    ultimately show thesis by (rule grown)
  qed
qed

text \<open>The frame of the operations that may reallocate.\<close>

definition realloc_of :: "nat \<Rightarrow> Buffer \<Rightarrow> Buffer \<Rightarrow> bool" where
  "realloc_of m b b' \<longleftrightarrow> Buffer_wf b' \<and> Buffer_content b' = Buffer_content b \<and>
     b_write_pos b' = b_write_pos b \<and> b_read_pos b' = b_read_pos b \<and>
     b_capacity b \<le> b_capacity b' \<and> (b_write_failed b \<longrightarrow> b_write_failed b') \<and>
     (b_write_failed b' \<or> m \<le> b_capacity b')"

lemma Buffer_grow_realloc:
  assumes "alloc_ok alloc" "Buffer_wf b"
  shows "realloc_of m b (Buffer_grow alloc m b)"
  using assms
proof (cases rule: Buffer_grow_cases [of alloc b m, consumes 2, case_names fail grown])
  case fail
  with assms show ?thesis by (simp add: realloc_of_def)
next
  case (grown n new_data)
  then have "take (b_write_pos b) (mem_put new_data 0 (take (b_write_pos b) (b_data b)))
           = take (b_write_pos b) (b_data b)"
    using assms(2) by (simp add: mem_put_def Buffer_wf_def)
  with grown assms show ?thesis
    by (simp add: realloc_of_def Buffer_wf_def Buffer_content_def)
qed

lemma Buffer_reserve_realloc:
  assumes "alloc_ok alloc" "Buffer_wf b"
  shows "realloc_of m b (Buffer_reserve alloc m b)"
  using Buffer_grow_realloc [OF assms, of m] assms(2)
  by (auto simp: Buffer_reserve_def realloc_of_def)

lemma Buffer_ensureCapacity_realloc:
  assumes "alloc_ok alloc" "Buffer_wf b" "Buffer_ensureCapacity alloc n b = (ok, b')"
  shows "realloc_of (b_write_pos b + n) b b'" "ok \<longleftrightarrow> \<not> b_write_failed b'"
    "b_write_failed b \<Longrightarrow> b' = b"
proof -
  have "realloc_of (b_write_pos b + n) b b' \<and> (ok \<longleftrightarrow> \<not> b_write_failed b')"
    using assms Buffer_grow_realloc [OF assms(1,2), of "b_write_pos b + n"]
    by (auto simp: Buffer_ensureCapacity_def realloc_of_def Let_def split: if_splits)
  then show "realloc_of (b_write_pos b + n) b b'" "ok \<longleftrightarrow> \<not> b_write_failed b'" by auto
  show "b_write_failed b \<Longrightarrow> b' = b" using assms(3) by (simp add: Buffer_ensureCapacity_def)
qed

text \<open>With a total allocator, growing up to half the address space succeeds.\<close>

lemma Buffer_grow_total:
  assumes "alloc_total alloc" "Buffer_wf b" "\<not> b_write_failed b" "b_capacity b < m" "m \<le> 2 ^ 63"
  shows "\<not> b_write_failed (Buffer_grow alloc m b)"
proof -
  let ?n0 = "if b_capacity b = 0 then DEFAULT_BUFFER_SIZE else b_capacity b * 2"
  have small: "\<not> SIZE_MAX div 2 < b_capacity b" using assms(4,5) by (simp add: SIZE_MAX_def)
  have pos: "0 < ?n0" "?n0 \<le> SIZE_MAX" using small by (auto simp: DEFAULT_BUFFER_SIZE_def SIZE_MAX_def)
  then obtain n where n: "grow_capacity ?n0 m = Some n" using grow_capacity_total assms(5) by blast
  then have "n \<le> SIZE_MAX" using grow_capacity_Some pos by blast
  then obtain blk where "alloc n = Some blk" using assms(1) by (auto simp: alloc_total_def)
  with n small assms(3) show ?thesis by (simp add: Buffer_grow_def Let_def)
qed

lemma Buffer_ensureCapacity_total:
  assumes "alloc_total alloc" "Buffer_wf b" "\<not> b_write_failed b" "b_write_pos b + n \<le> 2 ^ 63"
  shows "fst (Buffer_ensureCapacity alloc n b)"
proof -
  have "\<not> SIZE_MAX - b_write_pos b < n" using assms(4) by (simp add: SIZE_MAX_def)
  with assms Buffer_grow_total [OF assms(1-3), of "b_write_pos b + n"] show ?thesis
    by (auto simp: Buffer_ensureCapacity_def Let_def)
qed

subsection \<open>Every management operation keeps the buffer well-formed\<close>

lemma realloc_ofD:
  assumes "realloc_of m b b'"
  shows "Buffer_wf b'" "Buffer_content b' = Buffer_content b" "b_write_pos b' = b_write_pos b"
    "b_read_pos b' = b_read_pos b" "b_capacity b \<le> b_capacity b'"
    "b_write_failed b \<Longrightarrow> b_write_failed b'" "\<not> b_write_failed b' \<Longrightarrow> m \<le> b_capacity b'"
  using assms by (auto simp: realloc_of_def)

lemma Buffer_setWritePosition_wf:
  assumes "alloc_ok alloc" "Buffer_wf b"
  shows "Buffer_wf (Buffer_setWritePosition alloc pos b)"
  using assms realloc_ofD [OF Buffer_reserve_realloc [OF assms, of pos]]
  by (auto simp: Buffer_setWritePosition_def Let_def Buffer_wf_def)

lemma Buffer_resize_wf:
  "alloc_ok alloc \<Longrightarrow> Buffer_wf b \<Longrightarrow> Buffer_wf (Buffer_resize alloc n b)"
  using Buffer_setWritePosition_wf [of alloc b n]
  by (simp add: Buffer_resize_def Buffer_setWritePosition_def)

lemma Buffer_clear_simps [simp]:
  "Buffer_wf b \<Longrightarrow> Buffer_wf (Buffer_clear b)" "Buffer_content (Buffer_clear b) = []"
  "b_read_pos (Buffer_clear b) = 0" "b_write_pos (Buffer_clear b) = 0"
  "b_data (Buffer_clear b) = b_data b"
  "b_capacity (Buffer_clear b) = b_capacity b" "\<not> b_write_failed (Buffer_clear b)"
  by (simp_all add: Buffer_clear_def Buffer_wf_def Buffer_content_def)

lemma Buffer_assign_wf:
  assumes "alloc_ok alloc" "Buffer_wf b"
  shows "Buffer_wf (Buffer_assign alloc src b)"
    and "Buffer_writeOk (Buffer_assign alloc src b) \<Longrightarrow>
         Buffer_content (Buffer_assign alloc src b) = src \<and> b_read_pos (Buffer_assign alloc src b) = 0"
proof -
  let ?r = "Buffer_reserve alloc (length src) (Buffer_clear b)"
  note r = realloc_ofD [OF Buffer_reserve_realloc [OF assms(1) Buffer_clear_simps(1) [OF assms(2)],
                          of "length src"]]
  show "Buffer_wf (Buffer_assign alloc src b)"
    using assms r by (auto simp: Buffer_assign_def Let_def Buffer_wf_def)
  show "Buffer_content (Buffer_assign alloc src b) = src \<and> b_read_pos (Buffer_assign alloc src b) = 0"
    if "Buffer_writeOk (Buffer_assign alloc src b)"
    using that assms r
    by (auto simp: Buffer_assign_def Let_def Buffer_writeOk_def Buffer_content_def mem_put_def
        split: if_splits)
qed

lemma Buffer_assign_total:
  assumes "alloc_total alloc" "Buffer_wf b" "length src \<le> 2 ^ 63"
  shows "Buffer_writeOk (Buffer_assign alloc src b)"
  using Buffer_grow_total [of alloc "Buffer_clear b" "length src"] assms
  by (auto simp: Buffer_assign_def Buffer_reserve_def Buffer_writeOk_def Let_def)

text \<open>Compaction drops what was read and keeps the unread bytes, at the start of the block.\<close>

lemma Buffer_compact_content:
  assumes "Buffer_wf b"
  shows "Buffer_wf (Buffer_compact b)"
    and "Buffer_content (Buffer_compact b) = drop (b_read_pos b) (Buffer_content b)"
    and "b_read_pos (Buffer_compact b) = 0"
    and "b_write_failed (Buffer_compact b) = b_write_failed b"
  using assms
  by (auto simp: Buffer_compact_def Buffer_wf_def Buffer_content_def Let_def mem_put_def mem_get_def
      drop_take)

lemma Buffer_trySetReadPosition_wf:
  "Buffer_wf b \<Longrightarrow> Buffer_wf (snd (Buffer_trySetReadPosition pos b))"
  by (auto simp: Buffer_trySetReadPosition_def Buffer_wf_def)

lemma Buffer_writableTail_spec:
  assumes "alloc_ok alloc" "Buffer_wf b" "Buffer_writableTail alloc b = (r, b')"
  shows "Buffer_wf b'" "Buffer_content b' = Buffer_content b" "b_read_pos b' = b_read_pos b"
    "r = Some n \<Longrightarrow> n = b_capacity b' - b_write_pos b' \<and> \<not> b_write_failed b'"
    "r = Some n \<Longrightarrow> b_write_pos b < SIZE_MAX \<Longrightarrow> 0 < n"
proof -
  note r = realloc_ofD [OF Buffer_reserve_realloc [OF assms(1,2),
                          of "(b_write_pos b + 1) mod (SIZE_MAX + 1)"]]
  show "Buffer_wf b'" "Buffer_content b' = Buffer_content b" "b_read_pos b' = b_read_pos b"
    "r = Some n \<Longrightarrow> n = b_capacity b' - b_write_pos b' \<and> \<not> b_write_failed b'"
    using assms r by (auto simp: Buffer_writableTail_def Let_def split: if_splits)
  assume n: "r = Some n" and lim: "b_write_pos b < SIZE_MAX"
  have "b_write_pos b' < b_capacity b'"
  proof (cases "b_write_pos b = b_capacity b")
    case True
    then show ?thesis using assms(3) r n lim
      by (auto simp: Buffer_writableTail_def Let_def split: if_splits)
  next
    case False
    then show ?thesis using assms(2,3) n
      by (auto simp: Buffer_writableTail_def Let_def Buffer_wf_def split: if_splits)
  qed
  then show "0 < n" using assms(3) n by (auto simp: Buffer_writableTail_def Let_def split: if_splits)
qed

text \<open>Receiving \<open>src\<close> into the tail and committing it appends \<open>src\<close> to the contents.\<close>

lemma Buffer_commit_fill:
  assumes "Buffer_wf b" "\<not> b_write_failed b" "length src \<le> b_capacity b - b_write_pos b"
  shows "\<exists>b'. Buffer_commitWritten (length src) (Buffer_fillTail src b) = (True, b') \<and>
           Buffer_wf b' \<and> Buffer_content b' = Buffer_content b @ src \<and>
           b_read_pos b' = b_read_pos b \<and> \<not> b_write_failed b'"
  using assms
  by (auto simp: Buffer_commitWritten_def Buffer_fillTail_def Buffer_wf_def Buffer_content_def
      take_mem_put)

subsection \<open>What a writer does\<close>

text \<open>
  \<open>appends w bs\<close>: whatever the allocator does, the writer keeps the buffer well-formed and the read
  cursor in place; when it returns true it has appended exactly \<open>bs\<close>, when it returns false some
  prefix of \<open>bs\<close>. \<open>completes w n\<close>: with memory available and at most half the address space
  in use, a writer of \<open>n\<close> bytes returns true. \<open>emits\<close> is both.
\<close>

definition appends :: "writer \<Rightarrow> bytes \<Rightarrow> bool" where
  "appends w bs \<longleftrightarrow> (\<forall>alloc b ok b'. alloc_ok alloc \<longrightarrow> Buffer_wf b \<longrightarrow> w alloc b = (ok, b') \<longrightarrow>
     Buffer_wf b' \<and> b_read_pos b' = b_read_pos b \<and> (b_write_failed b \<longrightarrow> b_write_failed b') \<and>
     (if ok then Buffer_content b' = Buffer_content b @ bs \<and> b_write_failed b' = b_write_failed b
      else \<exists>p q. bs = p @ q \<and> Buffer_content b' = Buffer_content b @ p))"

definition completes :: "writer \<Rightarrow> nat \<Rightarrow> bool" where
  "completes w n \<longleftrightarrow> (\<forall>alloc b. alloc_total alloc \<longrightarrow> Buffer_wf b \<longrightarrow> \<not> b_write_failed b \<longrightarrow>
     b_write_pos b + n \<le> 2 ^ 63 \<longrightarrow> fst (w alloc b))"

definition emits :: "writer \<Rightarrow> bytes \<Rightarrow> bool" where
  "emits w bs \<longleftrightarrow> appends w bs \<and> completes w (length bs)"

lemma appendsD:
  assumes "appends w bs" "alloc_ok alloc" "Buffer_wf b" "w alloc b = (ok, b')"
  shows "Buffer_wf b'" "b_read_pos b' = b_read_pos b" "b_write_failed b \<Longrightarrow> b_write_failed b'"
    "ok \<Longrightarrow> Buffer_content b' = Buffer_content b @ bs"
    "ok \<Longrightarrow> b_write_failed b' = b_write_failed b"
    "\<not> ok \<Longrightarrow> \<exists>p q. bs = p @ q \<and> Buffer_content b' = Buffer_content b @ p"
  using assms(1) [unfolded appends_def, rule_format, OF assms(2-4)] by (auto split: if_splits)

lemma completesD:
  "completes w n \<Longrightarrow> alloc_total alloc \<Longrightarrow> Buffer_wf b \<Longrightarrow> \<not> b_write_failed b \<Longrightarrow>
   b_write_pos b + n \<le> 2 ^ 63 \<Longrightarrow> fst (w alloc b)"
  unfolding completes_def by blast

lemma appends_wskip [simp, intro]: "appends wskip []"
  by (auto simp: appends_def wskip_def)

lemma appends_wreject [simp, intro]: "appends wreject bs"
  by (auto simp: appends_def wreject_def)

lemma appends_wthen:
  assumes w1: "appends w1 bs1" and w2: "appends w2 bs2"
  shows "appends (wthen w1 w2) (bs1 @ bs2)"
  unfolding appends_def
proof (intro allI impI)
  fix alloc b ok b'
  assume a: "alloc_ok alloc" "Buffer_wf b" "wthen w1 w2 alloc b = (ok, b')"
  obtain ok1 b1 where 1: "w1 alloc b = (ok1, b1)" by force
  note d1 = appendsD [OF w1 a(1,2) 1]
  show "Buffer_wf b' \<and> b_read_pos b' = b_read_pos b \<and> (b_write_failed b \<longrightarrow> b_write_failed b') \<and>
     (if ok then Buffer_content b' = Buffer_content b @ bs1 @ bs2 \<and> b_write_failed b' = b_write_failed b
      else \<exists>p q. bs1 @ bs2 = p @ q \<and> Buffer_content b' = Buffer_content b @ p)"
  proof (cases ok1)
    case True
    then have 2: "w2 alloc b1 = (ok, b')" using a(3) 1 by (simp add: wthen_def)
    note d2 = appendsD [OF w2 a(1) d1(1) 2]
    show ?thesis
    proof (cases ok)
      case True
      with d1 d2 \<open>ok1\<close> show ?thesis by simp
    next
      case False
      then obtain p q where "bs2 = p @ q" "Buffer_content b' = Buffer_content b1 @ p" using d2(6) by blast
      then have "bs1 @ bs2 = (bs1 @ p) @ q \<and> Buffer_content b' = Buffer_content b @ (bs1 @ p)"
        using d1(4) \<open>ok1\<close> by simp
      with d1 d2 False show ?thesis by auto
    qed
  next
    case False
    then have eq: "\<not> ok" "b' = b1" using a(3) 1 by (auto simp: wthen_def)
    obtain p q where "bs1 = p @ q" "Buffer_content b1 = Buffer_content b @ p" using d1(6) False by blast
    then have "bs1 @ bs2 = p @ (q @ bs2) \<and> Buffer_content b' = Buffer_content b @ p" using eq by simp
    with d1 eq show ?thesis by auto
  qed
qed

lemma completes_wthen:
  assumes "appends w1 bs1" "completes w1 (length bs1)" "completes w2 n"
  shows "completes (wthen w1 w2) (length bs1 + n)"
  unfolding completes_def
proof (intro allI impI)
  fix alloc b
  assume a: "alloc_total alloc" "Buffer_wf b" "\<not> b_write_failed b"
    "b_write_pos b + (length bs1 + n) \<le> 2 ^ 63"
  then have ok: "alloc_ok alloc" by (simp add: alloc_total_def)
  obtain ok1 b1 where 1: "w1 alloc b = (ok1, b1)" by force
  have "b_write_pos b + length bs1 \<le> 2 ^ 63" using a(4) by linarith
  then have "ok1" using completesD [OF assms(2) a(1-3)] 1 by simp
  note d1 = appendsD [OF assms(1) ok a(2) 1]
  have "b_write_pos b1 = b_write_pos b + length bs1"
    using d1(1,4) \<open>ok1\<close> a(2) by (metis length_Buffer_content length_append)
  then have "b_write_pos b1 + n \<le> 2 ^ 63" using a(4) by linarith
  then have "fst (w2 alloc b1)"
    using completesD [OF assms(3) a(1) d1(1)] d1(5) \<open>ok1\<close> a(3) by blast
  with 1 \<open>ok1\<close> show "fst (wthen w1 w2 alloc b)" by (simp add: wthen_def)
qed

lemma emits_wskip [simp, intro]: "emits wskip []"
  by (simp add: emits_def completes_def) (simp add: wskip_def)

lemma emits_wthen: "emits w1 bs1 \<Longrightarrow> emits w2 bs2 \<Longrightarrow> emits (wthen w1 w2) (bs1 @ bs2)"
  by (auto simp: emits_def intro: appends_wthen completes_wthen)

lemma emits_wseq_Nil: "emits (wseq []) []"
  by simp

lemma emits_wseq_Cons: "emits w bs \<Longrightarrow> emits (wseq ws) bss \<Longrightarrow> emits (wseq (w # ws)) (bs @ bss)"
  by (simp add: emits_wthen)

subsection \<open>The primitive writers\<close>

lemma fold_Buffer_store:
  "b_write_pos b + length bs \<le> length (b_data b) \<Longrightarrow>
   fold Buffer_store bs b =
     b\<lparr>b_data := mem_put (b_data b) (b_write_pos b) bs, b_write_pos := b_write_pos b + length bs\<rparr>"
proof (induction bs arbitrary: b)
  case (Cons x bs)
  have "(b_data b)[b_write_pos b := x] = mem_put (b_data b) (b_write_pos b) [x]"
    using Cons.prems by (simp add: mem_put_def upd_conv_take_nth_drop)
  then have "Buffer_store x b =
     b\<lparr>b_data := mem_put (b_data b) (b_write_pos b) [x], b_write_pos := b_write_pos b + 1\<rparr>"
    by (simp add: Buffer_store_def)
  then have "fold Buffer_store (x # bs) b =
     b\<lparr>b_data := mem_put (mem_put (b_data b) (b_write_pos b) [x]) (b_write_pos b + 1) bs,
       b_write_pos := b_write_pos b + 1 + length bs\<rparr>"
    using Cons by simp
  also have "mem_put (mem_put (b_data b) (b_write_pos b) [x]) (b_write_pos b + 1) bs
           = mem_put (b_data b) (b_write_pos b) (x # bs)"
    using mem_put_append [of "b_write_pos b" "[x]" bs "b_data b"] Cons.prems by simp
  finally show ?case by simp
qed simp

text \<open>Both forms of writer check the capacity and then store: the common lemma.\<close>

lemma appends_put:
  assumes put: "\<And>alloc b. alloc_ok alloc \<Longrightarrow> Buffer_wf b \<Longrightarrow> w alloc b =
     (case Buffer_ensureCapacity alloc (length bs) b of
        (False, b') \<Rightarrow> (False, b')
      | (True, b') \<Rightarrow> (True, b'\<lparr>b_data := mem_put (b_data b') (b_write_pos b') bs,
                                 b_write_pos := b_write_pos b' + length bs\<rparr>))"
  shows "appends w bs"
  unfolding appends_def
proof (intro allI impI)
  fix alloc b ok b'
  assume a: "alloc_ok alloc" "Buffer_wf b" "w alloc b = (ok, b')"
  obtain ok1 b1 where 1: "Buffer_ensureCapacity alloc (length bs) b = (ok1, b1)" by force
  note e = Buffer_ensureCapacity_realloc [OF a(1,2) 1]
  note r = realloc_ofD [OF e(1)]
  show "Buffer_wf b' \<and> b_read_pos b' = b_read_pos b \<and> (b_write_failed b \<longrightarrow> b_write_failed b') \<and>
     (if ok then Buffer_content b' = Buffer_content b @ bs \<and> b_write_failed b' = b_write_failed b
      else \<exists>p q. bs = p @ q \<and> Buffer_content b' = Buffer_content b @ p)"
  proof (cases ok1)
    case True
    then have "\<not> b_write_failed b1" "b_write_pos b + length bs \<le> b_capacity b1" "\<not> b_write_failed b"
      using e r by auto
    moreover have "ok" "b' = b1\<lparr>b_data := mem_put (b_data b1) (b_write_pos b1) bs,
                                 b_write_pos := b_write_pos b1 + length bs\<rparr>"
      using a 1 True by (auto simp: put)
    ultimately show ?thesis using r
      by (simp add: Buffer_wf_def Buffer_content_def take_mem_put)
  next
    case False
    then have "\<not> ok" "b' = b1" using a 1 by (auto simp: put)
    with r show ?thesis by auto
  qed
qed

lemma completes_put:
  assumes "\<And>alloc b. fst (w alloc b) = fst (Buffer_ensureCapacity alloc n b)"
  shows "completes w n"
  unfolding completes_def using assms Buffer_ensureCapacity_total by blast

lemma Buffer_stores_put:
  assumes "alloc_ok alloc" "Buffer_wf b"
  shows "Buffer_stores bs alloc b =
     (case Buffer_ensureCapacity alloc (length bs) b of
        (False, b') \<Rightarrow> (False, b')
      | (True, b') \<Rightarrow> (True, b'\<lparr>b_data := mem_put (b_data b') (b_write_pos b') bs,
                                 b_write_pos := b_write_pos b' + length bs\<rparr>))"
proof -
  obtain ok1 b1 where 1: "Buffer_ensureCapacity alloc (length bs) b = (ok1, b1)" by force
  note e = Buffer_ensureCapacity_realloc [OF assms 1]
  note r = realloc_ofD [OF e(1)]
  have "b_write_pos b1 + length bs \<le> length (b_data b1)" if ok1
    using e(2) r that by (auto simp: Buffer_wf_def)
  then show ?thesis by (auto simp: Buffer_stores_def 1 fold_Buffer_store split: bool.splits)
qed

lemma emits_Buffer_stores: "emits (Buffer_stores bs) bs"
  unfolding emits_def
proof
  show "appends (Buffer_stores bs) bs" by (rule appends_put) (rule Buffer_stores_put)
  show "completes (Buffer_stores bs) (length bs)"
    by (rule completes_put) (auto simp: Buffer_stores_def split: prod.splits bool.splits)
qed

lemma emits_writeRaw: "emits (writeRaw src) src"
proof (cases "src = []")
  case True
  then have "writeRaw src = wskip" by (simp add: writeRaw_def wskip_def fun_eq_iff)
  with True show ?thesis by simp
next
  case False
  then have w: "\<And>alloc b. writeRaw src alloc b =
     (case Buffer_ensureCapacity alloc (length src) b of
        (False, b') \<Rightarrow> (False, b')
      | (True, b') \<Rightarrow> (True, b'\<lparr>b_data := mem_put (b_data b') (b_write_pos b') src,
                                 b_write_pos := b_write_pos b' + length src\<rparr>))"
    by (simp add: writeRaw_def)
  show ?thesis unfolding emits_def
  proof
    show "appends (writeRaw src) src" by (rule appends_put) (rule w)
    show "completes (writeRaw src) (length src)"
      by (rule completes_put) (auto simp: w split: prod.splits bool.splits)
  qed
qed

lemmas writer_defs = writeBool_def writeUint8_def writeInt8_def writeUint16_def writeInt16_def
  writeUint32_def writeInt32_def writeUint64_def writeInt64_def writeFloat32_def writeFloat64_def

text \<open>The length prefix of \<open>writeBytes\<close> and \<open>writeString\<close>.\<close>

definition enc_bytes :: "bytes \<Rightarrow> bytes" where
  "enc_bytes src = le32 (of_nat (length src)) @ src"

definition fits_u32 :: "nat \<Rightarrow> bool" where
  "fits_u32 n \<longleftrightarrow> n \<le> UINT32_MAX - 4"

lemma length_enc_bytes [simp]: "length (enc_bytes src) = 4 + length src"
  by (simp add: enc_bytes_def)

lemma unat_len32 [simp]: "fits_u32 n \<Longrightarrow> unat (of_nat n :: u32) = n"
  by (simp add: fits_u32_def UINT32_MAX_def unat_of_nat)

lemma unat_4_len32 [simp]: "fits_u32 n \<Longrightarrow> unat (4 + of_nat n :: u32) = 4 + n"
proof -
  assume "fits_u32 n"
  then have "unat (of_nat (4 + n) :: u32) = 4 + n"
    by (simp only: unat_of_nat) (simp add: fits_u32_def UINT32_MAX_def)
  then show ?thesis by simp
qed

lemma len32_pos: "fits_u32 n \<Longrightarrow> (0 :: u32) < of_nat n \<longleftrightarrow> 0 < n"
  by (simp add: word_less_nat_alt)

text \<open>Once the capacity for prefix and data is ensured, the two writes that follow succeed.\<close>

lemma writeBytes_body:
  assumes "fits_u32 (length src)"
  shows "emits (wthen (writeUint32 (of_nat (length src)))
                 (if (0 :: u32) < of_nat (length src) then writeRaw src else wskip)) (enc_bytes src)"
  unfolding enc_bytes_def
proof (rule emits_wthen)
  show "emits (writeUint32 (of_nat (length src))) (le32 (of_nat (length src)))"
    by (simp add: writeUint32_def emits_Buffer_stores)
  show "emits (if (0 :: u32) < of_nat (length src) then writeRaw src else wskip) src"
    using assms by (cases "src = []") (simp_all add: emits_writeRaw len32_pos)
qed

lemma ensureCapacity_room:
  "\<not> b_write_failed b \<Longrightarrow> b_write_pos b + n \<le> b_capacity b \<Longrightarrow> Buffer_wf b \<Longrightarrow>
   Buffer_ensureCapacity alloc n b = (True, b)"
  by (auto simp: Buffer_ensureCapacity_def Buffer_wf_def)

lemma writeBytes_room:
  assumes "alloc_ok alloc" "Buffer_wf b" "\<not> b_write_failed b" "fits_u32 (length src)"
    "b_write_pos b + (4 + length src) \<le> b_capacity b"
  shows "fst (wthen (writeUint32 (of_nat (length src)))
                 (if (0 :: u32) < of_nat (length src) then writeRaw src else wskip) alloc b)"
proof -
  let ?len = "of_nat (length src) :: u32"
  define b1 where "b1 = b\<lparr>b_data := mem_put (b_data b) (b_write_pos b) (le32 ?len),
                          b_write_pos := b_write_pos b + 4\<rparr>"
  have 1: "writeUint32 ?len alloc b = (True, b1)"
    using assms ensureCapacity_room [of b 4 alloc]
    by (simp add: writeUint32_def Buffer_stores_put b1_def)
  have "Buffer_wf b1" "\<not> b_write_failed b1" "b_write_pos b1 + length src \<le> b_capacity b1"
    using assms by (auto simp: b1_def Buffer_wf_def)
  then have "Buffer_ensureCapacity alloc (length src) b1 = (True, b1)"
    by (intro ensureCapacity_room)
  then have "fst ((if (0 :: u32) < ?len then writeRaw src else wskip) alloc b1)"
    by (simp add: writeRaw_def wskip_def)
  with 1 show ?thesis by (simp add: wthen_def)
qed

lemma writeBytes_fits:
  assumes "fits_u32 (length src)"
  shows "writeBytes src alloc b =
     (case Buffer_ensureCapacity alloc (4 + length src) b of
        (False, b') \<Rightarrow> (False, b')
      | (True, b') \<Rightarrow> wthen (writeUint32 (of_nat (length src)))
          (if (0 :: u32) < of_nat (length src) then writeRaw src else wskip) alloc b')"
proof -
  have "\<not> UINT32_MAX - 4 < length src" using assms by (simp add: fits_u32_def)
  then show ?thesis unfolding writeBytes_def Let_def unat_4_len32 [OF assms] by (rule if_not_P)
qed

text \<open>
  \<open>writeBytes\<close> is atomic: it appends length prefix and data, or it leaves the contents alone and
  marks the buffer failed.
\<close>

lemma writeBytes_atomic:
  assumes "alloc_ok alloc" "Buffer_wf b" "writeBytes src alloc b = (ok, b')"
  shows "Buffer_wf b' \<and> b_read_pos b' = b_read_pos b \<and> (b_write_failed b \<longrightarrow> b_write_failed b') \<and>
    (if ok then Buffer_content b' = Buffer_content b @ enc_bytes src \<and> \<not> b_write_failed b'
     else Buffer_content b' = Buffer_content b \<and> b_write_failed b')"
proof (cases "fits_u32 (length src)")
  case False
  then show ?thesis using assms by (auto simp: writeBytes_def fits_u32_def)
next
  case fits: True
  let ?len = "of_nat (length src) :: u32"
  let ?body = "wthen (writeUint32 ?len) (if 0 < ?len then writeRaw src else wskip)"
  obtain ok1 b1 where 1: "Buffer_ensureCapacity alloc (4 + length src) b = (ok1, b1)" by force
  note e = Buffer_ensureCapacity_realloc [OF assms(1,2) 1]
  note r = realloc_ofD [OF e(1)]
  show ?thesis
  proof (cases ok1)
    case True
    then have n1: "\<not> b_write_failed b1" using e(2) by simp
    then have "fst (?body alloc b1)" using assms(1) r fits by (intro writeBytes_room) auto
    moreover have body: "?body alloc b1 = (ok, b')"
      using assms(3) 1 True by (simp only: writeBytes_fits [OF fits]) simp
    ultimately have "ok" by simp
    moreover have "appends ?body (enc_bytes src)"
      using writeBytes_body [OF fits] by (simp add: emits_def)
    note d = appendsD [OF this assms(1) r(1) body]
    ultimately show ?thesis using d r n1 by auto
  next
    case False
    then have "\<not> ok" "b' = b1"
      using assms(3) 1 by (auto simp: writeBytes_fits [OF fits])
    with r e False show ?thesis by auto
  qed
qed

lemma emits_writeBytes: "fits_u32 (length src) \<Longrightarrow> emits (writeBytes src) (enc_bytes src)"
  unfolding emits_def
proof
  show "appends (writeBytes src) (enc_bytes src)"
    unfolding appends_def
  proof (intro allI impI)
    fix alloc b ok b'
    assume a: "alloc_ok alloc" "Buffer_wf b" "writeBytes src alloc b = (ok, b')"
    from writeBytes_atomic [OF this] show "Buffer_wf b' \<and> b_read_pos b' = b_read_pos b \<and>
      (b_write_failed b \<longrightarrow> b_write_failed b') \<and>
      (if ok then Buffer_content b' = Buffer_content b @ enc_bytes src \<and>
         b_write_failed b' = b_write_failed b
       else \<exists>p q. enc_bytes src = p @ q \<and> Buffer_content b' = Buffer_content b @ p)"
      by (cases ok) auto
  qed
  assume fits: "fits_u32 (length src)"
  show "completes (writeBytes src) (length (enc_bytes src))"
    unfolding completes_def
  proof (intro allI impI)
    fix alloc b
    assume a: "alloc_total alloc" "Buffer_wf b" "\<not> b_write_failed b"
      "b_write_pos b + length (enc_bytes src) \<le> 2 ^ 63"
    then have ok: "alloc_ok alloc" by (simp add: alloc_total_def)
    obtain ok1 b1 where 1: "Buffer_ensureCapacity alloc (4 + length src) b = (ok1, b1)" by force
    have "ok1" using Buffer_ensureCapacity_total [OF a(1-3), of "4 + length src"] a(4) 1 by simp
    moreover note e = Buffer_ensureCapacity_realloc [OF ok a(2) 1]
    moreover note r = realloc_ofD [OF e(1)]
    ultimately show "fst (writeBytes src alloc b)"
      using writeBytes_room [OF ok, of b1 src] fits 1 by (simp add: writeBytes_fits)
  qed
qed

end
