(* ===== verification/WireCodec.thy ===== *)
theory WireCodec
  imports WireBuffer
begin

section \<open>Reading back what was written\<close>

text \<open>
  \<open>BufferView\<close> and the \<open>tryRead\<close> methods of \<open>Buffer\<close> and \<open>BufferView\<close>, the sequencing of reads the
  decoders of include/omnibinder/message.h are written with, and the interface of a wire codec: a
  writer, a reader and the bytes they agree on. Round trip, prefix-freeness and the treatment of
  counted sequences are proved once for every codec; the codecs of the primitive types are
  interpreted here, those of the messages in \<open>OmniMessage\<close>.
\<close>

record BufferView =
  v_data :: bytes
  v_length :: nat
  v_pos :: nat

type_synonym 'a parser = "BufferView \<Rightarrow> 'a option \<times> BufferView"

text \<open>\<open>BufferView(data, length)\<close> over a whole block.\<close>

definition view_of :: "bytes \<Rightarrow> BufferView" where
  "view_of bs = \<lparr>v_data = bs, v_length = length bs, v_pos = 0\<rparr>"

definition view_remaining :: "BufferView \<Rightarrow> nat" where
  "view_remaining v = v_length v - v_pos v"

definition view_trySetReadPosition :: "nat \<Rightarrow> BufferView \<Rightarrow> bool \<times> BufferView" where
  "view_trySetReadPosition pos v =
     (if v_length v < pos then (False, v) else (True, v\<lparr>v_pos := pos\<rparr>))"

text \<open>A \<open>BufferView\<close> method hands its memory, limit and cursor to the primitive.\<close>

definition view_read :: "'a primitive \<Rightarrow> 'a parser" where
  "view_read prim v =
     (case prim (v_data v) (v_length v) (v_pos v) of (r, pos') \<Rightarrow> (r, v\<lparr>v_pos := pos'\<rparr>))"

definition tryReadBool :: "bool parser" where "tryReadBool = view_read readBool"
definition tryReadInt8 :: "byte parser" where "tryReadInt8 = view_read readInt8"
definition tryReadUint8 :: "byte parser" where "tryReadUint8 = view_read readUint8"
definition tryReadInt16 :: "u16 parser" where "tryReadInt16 = view_read readInt16"
definition tryReadUint16 :: "u16 parser" where "tryReadUint16 = view_read readUint16"
definition tryReadInt32 :: "u32 parser" where "tryReadInt32 = view_read readInt32"
definition tryReadUint32 :: "u32 parser" where "tryReadUint32 = view_read readUint32"
definition tryReadInt64 :: "u64 parser" where "tryReadInt64 = view_read readInt64"
definition tryReadUint64 :: "u64 parser" where "tryReadUint64 = view_read readUint64"
definition tryReadFloat32 :: "u32 parser" where "tryReadFloat32 = view_read readFloat32"
definition tryReadFloat64 :: "u64 parser" where "tryReadFloat64 = view_read readFloat64"
definition tryReadString :: "string parser" where "tryReadString = view_read readString"
definition tryReadBytes :: "bytes parser" where "tryReadBytes = view_read readBytes"

text \<open>The zero-copy variants give the cursor back when the data is short.\<close>

definition tryReadBytesView :: "bytes parser" where
  "tryReadBytesView v =
     (case readUint32 (v_data v) (v_length v) (v_pos v) of
        (None, pos') \<Rightarrow> (None, v\<lparr>v_pos := pos'\<rparr>)
      | (Some len, pos') \<Rightarrow>
          if \<not> canRead (v_length v) pos' (unat len) then (None, v)
          else (Some (mem_get (v_data v) pos' (unat len)), v\<lparr>v_pos := pos' + unat len\<rparr>))"

definition tryReadStringView :: "string parser" where
  "tryReadStringView v =
     (case readUint32 (v_data v) (v_length v) (v_pos v) of
        (None, pos') \<Rightarrow> (None, v\<lparr>v_pos := pos'\<rparr>)
      | (Some len, pos') \<Rightarrow>
          if \<not> canRead (v_length v) pos' (unat len) then (None, v)
          else (Some (string_of_bytes (mem_get (v_data v) pos' (unat len))),
                v\<lparr>v_pos := pos' + unat len\<rparr>))"

text \<open>\<open>Buffer::tryReadXxx\<close>: the same primitives below \<open>write_pos_\<close>.\<close>

definition Buffer_read :: "'a primitive \<Rightarrow> Buffer \<Rightarrow> 'a option \<times> Buffer" where
  "Buffer_read prim b =
     (case prim (b_data b) (b_write_pos b) (b_read_pos b) of
        (r, pos') \<Rightarrow> (r, b\<lparr>b_read_pos := pos'\<rparr>))"

definition Buffer_view :: "Buffer \<Rightarrow> BufferView" where
  "Buffer_view b = \<lparr>v_data = b_data b, v_length = b_write_pos b, v_pos = b_read_pos b\<rparr>"

subsection \<open>Sequencing reads\<close>

definition rret :: "'a \<Rightarrow> 'a parser" where
  "rret x v = (Some x, v)"

definition rfail :: "'a parser" where
  "rfail v = (None, v)"

definition rbind :: "'a parser \<Rightarrow> ('a \<Rightarrow> 'b parser) \<Rightarrow> 'b parser" where
  "rbind p f v = (case p v of (None, v') \<Rightarrow> (None, v') | (Some x, v') \<Rightarrow> f x v')"

definition rguard :: "bool \<Rightarrow> 'a parser \<Rightarrow> 'a parser" where
  "rguard c p = (if c then p else rfail)"

text \<open>\<open>if (buf.remaining() != 0) return false\<close> and other tests on what is left.\<close>

definition rremaining :: "nat parser" where
  "rremaining v = (Some (view_remaining v), v)"

text \<open>\<open>for (i = 0; i < n; ++i) if (!read(x)) return false; else out.push_back(x);\<close>\<close>

fun rtimes :: "nat \<Rightarrow> 'a parser \<Rightarrow> 'a list parser" where
  "rtimes 0 p = rret []"
| "rtimes (Suc n) p = rbind p (\<lambda>x. rbind (rtimes n p) (\<lambda>xs. rret (x # xs)))"

subsection \<open>What a reader does\<close>

definition view_ok :: "BufferView \<Rightarrow> bool" where
  "view_ok v \<longleftrightarrow> v_pos v \<le> v_length v \<and> v_length v \<le> length (v_data v)"

text \<open>\<open>parses p bs x\<close>: where the unread bytes start with \<open>bs\<close>, the reader returns \<open>x\<close> behind them.\<close>

definition parses :: "'a parser \<Rightarrow> bytes \<Rightarrow> 'a \<Rightarrow> bool" where
  "parses p bs x \<longleftrightarrow> (\<forall>v. view_ok v \<longrightarrow> length bs \<le> v_length v - v_pos v \<longrightarrow>
     mem_get (v_data v) (v_pos v) (length bs) = bs \<longrightarrow>
     p v = (Some x, v\<lparr>v_pos := v_pos v + length bs\<rparr>))"

text \<open>
  \<open>reader_safe p\<close>: on any bytes at all, the reader keeps the cursor inside the view, never moves it
  back, and does not depend on memory beyond the limit.
\<close>

definition reader_safe :: "'a parser \<Rightarrow> bool" where
  "reader_safe p \<longleftrightarrow> (\<forall>v r v'. view_ok v \<longrightarrow> p v = (r, v') \<longrightarrow>
     v_data v' = v_data v \<and> v_length v' = v_length v \<and> v_pos v \<le> v_pos v' \<and> v_pos v' \<le> v_length v \<and>
     (\<forall>data'. length data' = length (v_data v) \<longrightarrow>
        take (v_length v) data' = take (v_length v) (v_data v) \<longrightarrow>
        p (v\<lparr>v_data := data'\<rparr>) = (r, v'\<lparr>v_data := data'\<rparr>)))"

lemma mem_get_appendD:
  assumes "mem_get data pos (length a + length b) = a @ b"
    "pos + (length a + length b) \<le> length data"
  shows "mem_get data pos (length a) = a" "mem_get data (pos + length a) (length b) = b"
proof -
  have "take (length a) (mem_get data pos (length a + length b)) = a" using assms(1) by simp
  then show "mem_get data pos (length a) = a" by (simp add: mem_get_def)
  have "drop (length a) (mem_get data pos (length a + length b)) = b" using assms(1) by simp
  then show "mem_get data (pos + length a) (length b) = b"
    by (simp add: mem_get_def drop_take add.commute)
qed

lemma parses_rret [simp, intro]: "parses (rret x) [] x"
  by (simp add: parses_def rret_def)

lemma parses_rbind:
  assumes "parses p bs1 x" "parses (f x) bs2 y"
  shows "parses (rbind p f) (bs1 @ bs2) y"
  unfolding parses_def
proof (intro allI impI)
  fix v
  assume v: "view_ok v" "length (bs1 @ bs2) \<le> v_length v - v_pos v"
    "mem_get (v_data v) (v_pos v) (length (bs1 @ bs2)) = bs1 @ bs2"
  then have len: "v_pos v + (length bs1 + length bs2) \<le> length (v_data v)"
    by (auto simp: view_ok_def)
  note m = mem_get_appendD [OF v(3) [unfolded length_append] len]
  let ?v1 = "v\<lparr>v_pos := v_pos v + length bs1\<rparr>"
  have "p v = (Some x, ?v1)"
    using assms(1) [unfolded parses_def, rule_format, of v] v m(1) by simp
  moreover have "view_ok ?v1" "length bs2 \<le> v_length ?v1 - v_pos ?v1"
    using v by (auto simp: view_ok_def)
  then have "f x ?v1 = (Some y, ?v1\<lparr>v_pos := v_pos ?v1 + length bs2\<rparr>)"
    using assms(2) [unfolded parses_def, rule_format, of ?v1] m(2) by simp
  ultimately show "rbind p f v = (Some y, v\<lparr>v_pos := v_pos v + length (bs1 @ bs2)\<rparr>)"
    by (simp add: rbind_def add.assoc)
qed

text \<open>A last read followed by \<open>return\<close>.\<close>

lemma parses_rbind_rret: "parses p bs x \<Longrightarrow> parses (rbind p (\<lambda>x. rret (f x))) bs (f x)"
  using parses_rbind [of p bs x "\<lambda>x. rret (f x)" "[]" "f x"] by simp

lemma parses_rguard: "c \<Longrightarrow> parses p bs x \<Longrightarrow> parses (rguard c p) bs x"
  by (simp add: rguard_def)

lemma reader_safeD:
  assumes "reader_safe p" "view_ok v" "p v = (r, v')"
  shows "v_data v' = v_data v" "v_length v' = v_length v" "v_pos v \<le> v_pos v'" "view_ok v'"
    "length data' = length (v_data v) \<Longrightarrow> take (v_length v) data' = take (v_length v) (v_data v) \<Longrightarrow>
       p (v\<lparr>v_data := data'\<rparr>) = (r, v'\<lparr>v_data := data'\<rparr>)"
  using assms(1) [unfolded reader_safe_def, rule_format, OF assms(2,3)] assms(2)
  by (auto simp: view_ok_def)

lemma safe_rret [simp, intro]: "reader_safe (rret x)"
  by (auto simp: reader_safe_def rret_def view_ok_def)

lemma safe_rfail [simp, intro]: "reader_safe rfail"
  by (auto simp: reader_safe_def rfail_def view_ok_def)

lemma safe_rremaining [simp, intro]: "reader_safe rremaining"
  by (auto simp: reader_safe_def rremaining_def view_remaining_def view_ok_def)

lemma safe_rguard [intro]: "reader_safe p \<Longrightarrow> reader_safe (rguard c p)"
  by (simp add: rguard_def)

lemma safe_rbind [intro]:
  assumes p: "reader_safe p" and f: "\<And>x. reader_safe (f x)"
  shows "reader_safe (rbind p f)"
  unfolding reader_safe_def
proof (intro allI impI)
  fix v r v'
  assume v: "view_ok v" and eq: "rbind p f v = (r, v')"
  obtain r1 v1 where 1: "p v = (r1, v1)" by force
  note d1 = reader_safeD [OF p v 1]
  show "v_data v' = v_data v \<and> v_length v' = v_length v \<and> v_pos v \<le> v_pos v' \<and> v_pos v' \<le> v_length v \<and>
     (\<forall>data'. length data' = length (v_data v) \<longrightarrow>
        take (v_length v) data' = take (v_length v) (v_data v) \<longrightarrow>
        rbind p f (v\<lparr>v_data := data'\<rparr>) = (r, v'\<lparr>v_data := data'\<rparr>))"
  proof (cases r1)
    case None
    with 1 eq d1 show ?thesis by (auto simp: rbind_def view_ok_def)
  next
    case (Some x)
    with 1 eq have 2: "f x v1 = (r, v')" by (simp add: rbind_def)
    note d2 = reader_safeD [OF f d1(4) 2]
    from Some d1 d2 show ?thesis by (auto simp: rbind_def view_ok_def)
  qed
qed

lemma safe_rtimes [intro]: "reader_safe p \<Longrightarrow> reader_safe (rtimes n p)"
  by (induction n) auto

subsection \<open>The primitive readers\<close>

lemma nth_mem_get: "pos + n \<le> length data \<Longrightarrow> i < n \<Longrightarrow> mem_get data pos n ! i = data ! (pos + i)"
  by (simp add: mem_get_def)

lemma nth_of_mem_get:
  "mem_get data pos n = bs \<Longrightarrow> pos + n \<le> length data \<Longrightarrow> i < n \<Longrightarrow> data ! (pos + i) = bs ! i"
  using nth_mem_get by metis

lemma mem_get_cong:
  assumes "take l data' = take l data" "pos + n \<le> l"
  shows "mem_get data' pos n = mem_get data pos n"
proof -
  have "mem_get d pos n = mem_get (take l d) pos n" for d :: "'a list"
    using assms(2) by (simp add: mem_get_def drop_take min_def)
  then show ?thesis using assms(1) by metis
qed

lemma nth_take_cong: "take l data' = take l data \<Longrightarrow> i < l \<Longrightarrow> data' ! i = data ! i"
  by (metis nth_take)

definition prim_safe :: "'a primitive \<Rightarrow> bool" where
  "prim_safe prim \<longleftrightarrow> (\<forall>data limit pos. pos \<le> limit \<longrightarrow> limit \<le> length data \<longrightarrow>
     pos \<le> snd (prim data limit pos) \<and> snd (prim data limit pos) \<le> limit \<and>
     (\<forall>data'. take limit data' = take limit data \<longrightarrow> prim data' limit pos = prim data limit pos))"

lemma prim_safeI:
  assumes "\<And>data limit pos. pos \<le> limit \<Longrightarrow> limit \<le> length data \<Longrightarrow>
     pos \<le> snd (prim data limit pos) \<and> snd (prim data limit pos) \<le> limit"
    and "\<And>data data' limit pos. pos \<le> limit \<Longrightarrow> limit \<le> length data \<Longrightarrow>
     take limit data' = take limit data \<Longrightarrow> prim data' limit pos = prim data limit pos"
  shows "prim_safe prim"
  using assms unfolding prim_safe_def by blast

lemma prim_safeD:
  assumes "prim_safe prim" "pos \<le> limit" "limit \<le> length data"
  shows "pos \<le> snd (prim data limit pos)" "snd (prim data limit pos) \<le> limit"
    "take limit data' = take limit data \<Longrightarrow> prim data' limit pos = prim data limit pos"
  using assms unfolding prim_safe_def by blast+

lemma prim_safe_view_read:
  assumes "prim_safe prim"
  shows "reader_safe (view_read prim)"
  unfolding reader_safe_def
proof (intro allI impI)
  fix v r v'
  assume v: "view_ok v" and eq: "view_read prim v = (r, v')"
  obtain pos' where p: "prim (v_data v) (v_length v) (v_pos v) = (r, pos')"
    and v': "v' = v\<lparr>v_pos := pos'\<rparr>"
    using eq by (auto simp: view_read_def split: prod.splits)
  note d = prim_safeD [OF assms, of "v_pos v" "v_length v" "v_data v"]
  show "v_data v' = v_data v \<and> v_length v' = v_length v \<and> v_pos v \<le> v_pos v' \<and> v_pos v' \<le> v_length v \<and>
     (\<forall>data'. length data' = length (v_data v) \<longrightarrow>
        take (v_length v) data' = take (v_length v) (v_data v) \<longrightarrow>
        view_read prim (v\<lparr>v_data := data'\<rparr>) = (r, v'\<lparr>v_data := data'\<rparr>))"
    using v d p v' by (simp add: view_ok_def view_read_def)
qed

lemma prim_safe_bind:
  assumes p: "prim_safe p" and f: "\<And>x. prim_safe (f x)"
  shows "prim_safe (\<lambda>data limit pos. case p data limit pos of
           (None, pos') \<Rightarrow> (None, pos') | (Some x, pos') \<Rightarrow> f x data limit pos')"
proof (rule prim_safeI, goal_cases)
  case (1 data limit pos)
  note d = prim_safeD(1,2) [OF p 1]
  obtain r pos' where eq: "p data limit pos = (r, pos')" by force
  show ?case
  proof (cases r)
    case (Some x)
    have lim: "pos' \<le> limit" using d eq by simp
    show ?thesis using prim_safeD(1,2) [OF f [of x] lim 1(2)] Some d(1,2) eq by simp
  qed (use d(1,2) eq in simp)
next
  case (2 data data' limit pos)
  note d = prim_safeD [OF p 2(1,2)]
  obtain r pos' where eq: "p data limit pos = (r, pos')" by force
  have lim: "pos' \<le> limit" using d(2) eq by simp
  have "f x data' limit pos' = f x data limit pos'" for x
    by (rule prim_safeD(3) [OF f lim 2(2,3)])
  then show ?case using d(3) [OF 2(3)] eq by (simp split: option.splits)
qed

lemma prim_safe_readUint8: "prim_safe readUint8"
  by (rule prim_safeI) (auto simp: readUint8_def canRead_def nth_take_cong Suc_le_eq)

lemma prim_safe_readUint16: "prim_safe readUint16"
  by (rule prim_safeI) (auto simp: readUint16_def canRead_def nth_take_cong)

lemma prim_safe_readUint32: "prim_safe readUint32"
  by (rule prim_safeI) (auto simp: readUint32_def canRead_def nth_take_cong)

lemma mem_get_canRead_cong:
  "take l data' = take l data \<Longrightarrow> canRead l pos n \<Longrightarrow> mem_get data' pos n = mem_get data pos n"
  by (rule mem_get_cong [of l]) (auto simp: canRead_def)

lemma prim_safe_readUint64: "prim_safe readUint64"
proof (rule prim_safeI, goal_cases)
  case (2 data data' limit pos)
  then show ?case using mem_get_canRead_cong [of limit data' data pos 8]
    by (simp add: readUint64_def)
qed (auto simp: readUint64_def canRead_def)

lemma prim_safe_readBool: "prim_safe readBool"
proof -
  have "prim_safe (\<lambda>data limit pos. (Some (x \<noteq> 0), pos))" for x :: byte
    by (rule prim_safeI) auto
  then show ?thesis
    unfolding readBool_def [abs_def]
    using prim_safe_bind [OF prim_safe_readUint8, of "\<lambda>x data limit pos. (Some (x \<noteq> 0), pos)"]
    by simp
qed

text \<open>The part of \<open>readBytes\<close> and \<open>readString\<close> after the length prefix.\<close>

lemma prim_safe_block:
  "prim_safe (\<lambda>data limit pos. if len = 0 then (Some [], pos)
     else if \<not> canRead limit pos (unat len) then (None, pos)
     else (Some (g (mem_get data pos (unat len))), pos + unat (len :: u32)))"
proof (rule prim_safeI, goal_cases)
  case (2 data data' limit pos)
  then show ?case using mem_get_canRead_cong [of limit data' data pos "unat len"] by simp
qed (auto simp: canRead_def)

lemma prim_safe_readBytes: "prim_safe readBytes"
  unfolding readBytes_def [abs_def]
  using prim_safe_bind [OF prim_safe_readUint32 prim_safe_block [of _ "\<lambda>x. x"]] by simp

lemma prim_safe_readString: "prim_safe readString"
  unfolding readString_def [abs_def]
  using prim_safe_bind [OF prim_safe_readUint32 prim_safe_block [of _ string_of_bytes]] by simp

text \<open>Reading the bytes a primitive writer wrote.\<close>

lemma parses_prim:
  assumes "\<And>data limit pos. pos \<le> limit \<Longrightarrow> limit \<le> length data \<Longrightarrow> length bs \<le> limit - pos \<Longrightarrow>
     mem_get data pos (length bs) = bs \<Longrightarrow> prim data limit pos = (Some x, pos + length bs)"
  shows "parses (view_read prim) bs x"
  using assms by (simp add: parses_def view_read_def view_ok_def)

lemma readUint8_le: "mem_get data pos 1 = [x] \<Longrightarrow> pos \<le> limit \<Longrightarrow> limit \<le> length data \<Longrightarrow>
    1 \<le> limit - pos \<Longrightarrow> readUint8 data limit pos = (Some x, pos + 1)"
  using nth_of_mem_get [of data pos 1 "[x]" 0] by (auto simp: readUint8_def canRead_def)

lemma readUint16_le: "mem_get data pos 2 = le16 x \<Longrightarrow> pos \<le> limit \<Longrightarrow> limit \<le> length data \<Longrightarrow>
    2 \<le> limit - pos \<Longrightarrow> readUint16 data limit pos = (Some x, pos + 2)"
  using nth_of_mem_get [of data pos 2 "le16 x" 0] nth_of_mem_get [of data pos 2 "le16 x" 1]
    of_le16_le16 [of x]
  by (simp add: readUint16_def canRead_def)

lemma readUint32_le: "mem_get data pos 4 = le32 x \<Longrightarrow> pos \<le> limit \<Longrightarrow> limit \<le> length data \<Longrightarrow>
    4 \<le> limit - pos \<Longrightarrow> readUint32 data limit pos = (Some x, pos + 4)"
proof -
  assume a: "mem_get data pos 4 = le32 x" "pos \<le> limit" "limit \<le> length data" "4 \<le> limit - pos"
  have n: "data ! (pos + i) = le32 x ! i" if "i < 4" for i
    using nth_of_mem_get [OF a(1)] a that by simp
  show ?thesis
    using a of_le32_le32 [of x] n [of 0] n [of 1] n [of 2] n [of 3]
    by (simp add: readUint32_def canRead_def)
qed

lemma readUint64_le: "mem_get data pos 8 = le64 x \<Longrightarrow> pos \<le> limit \<Longrightarrow> limit \<le> length data \<Longrightarrow>
    8 \<le> limit - pos \<Longrightarrow> readUint64 data limit pos = (Some x, pos + 8)"
  by (simp add: readUint64_def canRead_def of_le64_le64)

subsection \<open>The interface of a wire codec\<close>

text \<open>
  \<open>enc\<close> gives the bytes on the wire, \<open>ok\<close> the values the format can carry (lengths and counts that
  fit their prefix).
\<close>

locale wire_codec =
  fixes wr :: "'a \<Rightarrow> writer" and rd :: "'a parser" and enc :: "'a \<Rightarrow> bytes" and ok :: "'a \<Rightarrow> bool"
  assumes wr_emits: "ok x \<Longrightarrow> emits (wr x) (enc x)"
    and rd_parses: "ok x \<Longrightarrow> parses rd (enc x) x"
    and rd_safe: "reader_safe rd"
begin

lemma rd_content:
  assumes "ok x"
  shows "rd \<lparr>v_data = pre @ enc x @ post, v_length = length pre + length (enc x) + length post,
             v_pos = length pre\<rparr>
       = (Some x, \<lparr>v_data = pre @ enc x @ post,
                   v_length = length pre + length (enc x) + length post,
                   v_pos = length pre + length (enc x)\<rparr>)"
  using rd_parses [OF assms, unfolded parses_def, rule_format,
      of "\<lparr>v_data = pre @ enc x @ post, v_length = length pre + length (enc x) + length post,
           v_pos = length pre\<rparr>"]
  by (simp add: view_ok_def mem_get_append)

lemma wr_appends:
  assumes "ok x" "alloc_total alloc" "Buffer_wf b" "\<not> b_write_failed b"
    "b_write_pos b + length (enc x) \<le> 2 ^ 63"
  shows "\<exists>b'. wr x alloc b = (True, b') \<and> Buffer_wf b' \<and> \<not> b_write_failed b' \<and>
     Buffer_content b' = Buffer_content b @ enc x"
proof -
  have em: "appends (wr x) (enc x)" "completes (wr x) (length (enc x))"
    using wr_emits [OF assms(1)] by (simp_all add: emits_def)
  obtain r b' where eq: "wr x alloc b = (r, b')" by force
  have r: r using completesD [OF em(2) assms(2-5)] eq by simp
  have "alloc_ok alloc" using assms(2) by (simp add: alloc_total_def)
  from appendsD [OF em(1) this assms(3) eq] r eq assms(4) show ?thesis by simp
qed

text \<open>Writing into a buffer with memory available, then reading at the old end of the contents.\<close>

lemma roundtrip:
  assumes "ok x" "alloc_total alloc" "Buffer_wf b" "\<not> b_write_failed b"
    "b_write_pos b + length (enc x) \<le> 2 ^ 63"
  shows "\<exists>b'. wr x alloc b = (True, b') \<and> Buffer_content b' = Buffer_content b @ enc x \<and>
     rd ((view_of (Buffer_content b'))\<lparr>v_pos := b_write_pos b\<rparr>)
       = (Some x, (view_of (Buffer_content b'))\<lparr>v_pos := b_write_pos b'\<rparr>)"
proof -
  obtain b' where eq: "wr x alloc b = (True, b')" and wf: "Buffer_wf b'"
    and c: "Buffer_content b' = Buffer_content b @ enc x" using wr_appends [OF assms] by blast
  have pos: "b_write_pos b' = b_write_pos b + length (enc x)"
    using c wf assms(3) by (metis length_Buffer_content length_append)
  have "rd ((view_of (Buffer_content b'))\<lparr>v_pos := b_write_pos b\<rparr>)
       = (Some x, (view_of (Buffer_content b'))\<lparr>v_pos := b_write_pos b'\<rparr>)"
    using rd_content [OF assms(1), of "Buffer_content b" "[]"] assms(3)
    by (simp add: view_of_def c pos)
  with eq c show ?thesis by simp
qed

text \<open>No encoding is a proper prefix of another: concatenated values are read back one by one.\<close>

lemma prefix_free:
  assumes "ok x" "ok y" "enc x @ r = enc y @ s"
  shows "x = y \<and> r = s"
proof -
  have "rd (view_of (enc x @ r)) = (Some x, (view_of (enc x @ r))\<lparr>v_pos := length (enc x)\<rparr>)"
    using rd_content [OF assms(1), of "[]" r] by (simp add: view_of_def)
  moreover have "rd (view_of (enc y @ s)) = (Some y, (view_of (enc y @ s))\<lparr>v_pos := length (enc y)\<rparr>)"
    using rd_content [OF assms(2), of "[]" s] by (simp add: view_of_def)
  ultimately have "x = y" using assms(3) by simp
  with assms(3) show ?thesis by simp
qed

text \<open>Counted sequences: one writer after the other, and the counting loop of the decoders.\<close>

lemma wr_list_emits:
  "\<forall>x \<in> set xs. ok x \<Longrightarrow> emits (wseq (map wr xs)) (concat (map enc xs))"
  by (induction xs) (auto intro: emits_wthen wr_emits)

lemma rd_list_parses:
  "\<forall>x \<in> set xs. ok x \<Longrightarrow> parses (rtimes (length xs) rd) (concat (map enc xs)) xs"
proof (induction xs)
  case (Cons x xs)
  then have "parses (rbind (rtimes (length xs) rd) (\<lambda>ys. rret (x # ys))) (concat (map enc xs)) (x # xs)"
    by (intro parses_rbind_rret) simp
  moreover have "parses rd (enc x) x" using Cons.prems by (simp add: rd_parses)
  ultimately show ?case using parses_rbind [of rd "enc x" x] by simp
qed simp

lemma rd_list_safe: "reader_safe (rtimes n rd)"
  using rd_safe by (rule safe_rtimes)

end

subsection \<open>The codecs of the primitive types\<close>

interpretation u8: wire_codec writeUint8 tryReadUint8 "\<lambda>x. [x]" "\<lambda>_. True"
proof unfold_locales
  fix x :: byte
  show "emits (writeUint8 x) [x]" by (simp add: writeUint8_def emits_Buffer_stores)
  show "parses tryReadUint8 [x] x"
    unfolding tryReadUint8_def by (rule parses_prim) (simp add: readUint8_le)
  show "reader_safe tryReadUint8"
    unfolding tryReadUint8_def by (rule prim_safe_view_read) (rule prim_safe_readUint8)
qed

definition enc_bool :: "bool \<Rightarrow> bytes" where
  "enc_bool c = [if c then 1 else 0]"

interpretation bool: wire_codec writeBool tryReadBool enc_bool "\<lambda>_. True"
proof unfold_locales
  fix c :: bool
  show "emits (writeBool c) (enc_bool c)"
    by (simp add: writeBool_def enc_bool_def u8.wr_emits)
  show "parses tryReadBool (enc_bool c) c"
    unfolding tryReadBool_def enc_bool_def
    by (rule parses_prim) (simp add: readBool_def readUint8_le)
  show "reader_safe tryReadBool"
    unfolding tryReadBool_def by (rule prim_safe_view_read) (rule prim_safe_readBool)
qed

interpretation u16: wire_codec writeUint16 tryReadUint16 le16 "\<lambda>_. True"
proof unfold_locales
  fix x :: u16
  show "emits (writeUint16 x) (le16 x)" by (simp add: writeUint16_def emits_Buffer_stores)
  show "parses tryReadUint16 (le16 x) x"
    unfolding tryReadUint16_def by (rule parses_prim) (simp add: readUint16_le)
  show "reader_safe tryReadUint16"
    unfolding tryReadUint16_def by (rule prim_safe_view_read) (rule prim_safe_readUint16)
qed

interpretation u32: wire_codec writeUint32 tryReadUint32 le32 "\<lambda>_. True"
proof unfold_locales
  fix x :: u32
  show "emits (writeUint32 x) (le32 x)" by (simp add: writeUint32_def emits_Buffer_stores)
  show "parses tryReadUint32 (le32 x) x"
    unfolding tryReadUint32_def by (rule parses_prim) (simp add: readUint32_le)
  show "reader_safe tryReadUint32"
    unfolding tryReadUint32_def by (rule prim_safe_view_read) (rule prim_safe_readUint32)
qed

interpretation u64: wire_codec writeUint64 tryReadUint64 le64 "\<lambda>_. True"
proof unfold_locales
  fix x :: u64
  show "emits (writeUint64 x) (le64 x)" by (simp add: writeUint64_def emits_Buffer_stores)
  show "parses tryReadUint64 (le64 x) x"
    unfolding tryReadUint64_def by (rule parses_prim) (simp add: readUint64_le)
  show "reader_safe tryReadUint64"
    unfolding tryReadUint64_def by (rule prim_safe_view_read) (rule prim_safe_readUint64)
qed

text \<open>The block after the prefix, for both length-prefixed readers.\<close>

lemma read_prefixed:
  assumes "fits_u32 (length src)" "pos \<le> limit" "limit \<le> length data"
    "length (enc_bytes src) \<le> limit - pos" "mem_get data pos (length (enc_bytes src)) = enc_bytes src"
  shows "readUint32 data limit pos = (Some (of_nat (length src)), pos + 4)"
    and "canRead limit (pos + 4) (length src)"
    and "mem_get data (pos + 4) (length src) = src"
proof -
  let ?len = "of_nat (length src) :: u32"
  have room: "4 + length src \<le> limit - pos" using assms(4) by simp
  have "mem_get data pos (length (le32 ?len) + length src) = le32 ?len @ src"
    using assms(5) by (simp add: enc_bytes_def)
  then have m: "mem_get data pos 4 = le32 ?len" "mem_get data (pos + 4) (length src) = src"
    using mem_get_appendD [of data pos "le32 ?len" src] assms(2,3) room by auto
  show "readUint32 data limit pos = (Some ?len, pos + 4)"
    using readUint32_le [OF m(1) assms(2,3)] room by simp
  show "canRead limit (pos + 4) (length src)" using room assms(2) by (auto simp: canRead_def)
  show "mem_get data (pos + 4) (length src) = src" by (rule m(2))
qed

lemma len32_0 [simp]: "fits_u32 n \<Longrightarrow> (of_nat n :: u32) = 0 \<longleftrightarrow> n = 0"
  using unat_len32 [of n] by (metis unat_eq_0)

interpretation blob: wire_codec writeBytes tryReadBytes enc_bytes "\<lambda>s. fits_u32 (length s)"
proof unfold_locales
  fix s :: bytes
  assume fits: "fits_u32 (length s)"
  show "emits (writeBytes s) (enc_bytes s)" using fits by (rule emits_writeBytes)
  show "parses tryReadBytes (enc_bytes s) s"
    unfolding tryReadBytes_def
  proof (rule parses_prim, goal_cases)
    case (1 data limit pos)
    note r = read_prefixed [OF fits 1]
    show ?case using r fits by (simp add: readBytes_def)
  qed
next
  show "reader_safe tryReadBytes"
    unfolding tryReadBytes_def by (rule prim_safe_view_read) (rule prim_safe_readBytes)
qed

definition enc_str :: "string \<Rightarrow> bytes" where
  "enc_str s = enc_bytes (bytes_of_string s)"

interpretation str: wire_codec writeString tryReadString enc_str "\<lambda>s. fits_u32 (length s)"
proof unfold_locales
  fix s :: string
  assume fits: "fits_u32 (length s)"
  then have fits': "fits_u32 (length (bytes_of_string s))" by simp
  show "emits (writeString s) (enc_str s)"
    unfolding writeString_def enc_str_def using fits' by (rule emits_writeBytes)
  show "parses tryReadString (enc_str s) s"
    unfolding tryReadString_def enc_str_def
  proof (rule parses_prim, goal_cases)
    case (1 data limit pos)
    note r = read_prefixed [OF fits' 1]
    show ?case using r fits' by (simp add: readString_def)
  qed
next
  show "reader_safe tryReadString"
    unfolding tryReadString_def by (rule prim_safe_view_read) (rule prim_safe_readString)
qed

lemma length_enc_str [simp]: "length (enc_str s) = 4 + length s"
  by (simp add: enc_str_def)

lemma length_enc_bool [simp]: "length (enc_bool c) = 1"
  by (simp add: enc_bool_def)

end
