(* ===== verification/OmniTypes.thy ===== *)
theory OmniTypes
  imports WireCodec
begin

unbundle bit_operations_syntax

section \<open>Metadata types, session arithmetic and keys\<close>

text \<open>
  include/omnibinder/types.h: the constants, the metadata structures (one record per struct), the
  heartbeat and session-timeout arithmetic, the FNV-1a hash, and the string keys under which
  instances, identities and sessions are filed (the key functions of
  src/core/runtime_connection.cpp). Integers keep their width: the timeout negotiation computes in
  64 bits and narrows to 32.
\<close>

definition INVALID_HANDLE :: u32 where "INVALID_HANDLE = 0"
definition DEFAULT_HEARTBEAT_INTERVAL :: u32 where "DEFAULT_HEARTBEAT_INTERVAL = 3000"
definition DEFAULT_HEARTBEAT_TIMEOUT :: u32 where "DEFAULT_HEARTBEAT_TIMEOUT = 10000"
definition MIN_HEARTBEAT_INTERVAL_MS :: u32 where "MIN_HEARTBEAT_INTERVAL_MS = 100"
definition HEARTBEAT_MISSED_FACTOR :: u32 where "HEARTBEAT_MISSED_FACTOR = 3"
definition DEFAULT_MAX_SESSION_TIMEOUT :: u32 where "DEFAULT_MAX_SESSION_TIMEOUT = 0"
definition DEFAULT_SESSION_HELLO_TIMEOUT :: u32 where "DEFAULT_SESSION_HELLO_TIMEOUT = 5000"
definition SESSION_PROTOCOL_VERSION :: u32 where "SESSION_PROTOCOL_VERSION = 1"
definition MAX_SERVICE_NAME_LENGTH :: nat where "MAX_SERVICE_NAME_LENGTH = 256"
definition MAX_TOPIC_NAME_LENGTH :: nat where "MAX_TOPIC_NAME_LENGTH = 256"
definition MAX_MESSAGE_SIZE :: nat where "MAX_MESSAGE_SIZE = 16 * 1024 * 1024"
definition MAX_PUBLISHED_TOPICS :: nat where "MAX_PUBLISHED_TOPICS = 4096"
definition MAX_PUBLISHED_TOPICS_BYTES :: nat where "MAX_PUBLISHED_TOPICS_BYTES = 512 * 1024"
definition RUNTIME_DIAG_CAP_WATCH :: u32 where "RUNTIME_DIAG_CAP_WATCH = 1"
definition OMNI_LOG_INFO :: u32 where "OMNI_LOG_INFO = 3"
definition OMNI_LOG_OFF :: u32 where "OMNI_LOG_OFF = 6"
definition SESSION_STATUS_OK :: u32 where "SESSION_STATUS_OK = 0"
definition SESSION_STATUS_CLAMPED :: u32 where "SESSION_STATUS_CLAMPED = 1"
definition SESSION_STATUS_REJECTED :: u32 where "SESSION_STATUS_REJECTED = 2"

subsection \<open>Metadata\<close>

record MethodInfo =
  mi_method_id :: u32
  mi_idl_hash :: u32
  mi_name :: string
  mi_param_types :: string
  mi_return_type :: string

record InterfaceInfo =
  ii_interface_id :: u32
  ii_name :: string
  ii_methods :: "MethodInfo list"

record ShmConfig =
  req_ring_capacity :: nat
  resp_ring_capacity :: nat

record ServiceInfo =
  si_name :: string
  si_host :: string
  si_port :: u16
  si_host_id :: string
  si_instance_id :: string
  si_shm_config :: ShmConfig
  si_interfaces :: "InterfaceInfo list"

definition ServiceInfo_default :: ServiceInfo where
  "ServiceInfo_default = \<lparr>si_name = [], si_host = [], si_port = 0, si_host_id = [],
     si_instance_id = [], si_shm_config = \<lparr>req_ring_capacity = 0, resp_ring_capacity = 0\<rparr>,
     si_interfaces = []\<rparr>"

record ServiceIdentity =
  id_name :: string
  id_host_id :: string
  id_instance_id :: string

text \<open>\<open>operator==\<close> compares the logical identity only; the host is metadata.\<close>

definition ServiceIdentity_eq :: "ServiceIdentity \<Rightarrow> ServiceIdentity \<Rightarrow> bool" where
  "ServiceIdentity_eq a b \<longleftrightarrow> id_name a = id_name b \<and> id_instance_id a = id_instance_id b"

record RuntimeInfo =
  ri_pid :: u32
  ri_process_name :: string
  ri_role :: string
  ri_log_level :: u32
  ri_diag_capabilities :: u32
  ri_services :: "string list"
  ri_session_version :: u32
  ri_runtime_id :: string
  ri_incarnation_id :: u32
  ri_heartbeat_interval_ms :: u32
  ri_requested_timeout_ms :: u32
  ri_host_id :: string

definition RuntimeInfo_default :: RuntimeInfo where
  "RuntimeInfo_default = \<lparr>ri_pid = 0, ri_process_name = [], ri_role = ''client'',
     ri_log_level = OMNI_LOG_INFO, ri_diag_capabilities = 0, ri_services = [],
     ri_session_version = SESSION_PROTOCOL_VERSION, ri_runtime_id = [], ri_incarnation_id = 0,
     ri_heartbeat_interval_ms = DEFAULT_HEARTBEAT_INTERVAL, ri_requested_timeout_ms = 0,
     ri_host_id = []\<rparr>"

record SessionHello =
  sh_version :: u32
  sh_runtime_id :: string
  sh_incarnation_id :: u32
  sh_heartbeat_interval_ms :: u32
  sh_requested_timeout_ms :: u32
  sh_capabilities :: u32
  sh_host_id :: string
  sh_process_name :: string
  sh_pid :: u32

record SessionHelloAck =
  ack_version :: u32
  ack_status :: u32
  ack_accepted_interval_ms :: u32
  ack_effective_timeout_ms :: u32
  ack_peer_incarnation_id :: u32

definition SessionHelloAck_default :: SessionHelloAck where
  "SessionHelloAck_default = \<lparr>ack_version = SESSION_PROTOCOL_VERSION, ack_status = 0,
     ack_accepted_interval_ms = DEFAULT_HEARTBEAT_INTERVAL,
     ack_effective_timeout_ms = DEFAULT_HEARTBEAT_TIMEOUT, ack_peer_incarnation_id = 0\<rparr>"

subsection \<open>Heartbeats and session timeouts\<close>

definition clampHeartbeatInterval :: "u32 \<Rightarrow> u32" where
  "clampHeartbeatInterval interval_ms =
     (if interval_ms = 0 then DEFAULT_HEARTBEAT_INTERVAL
      else if interval_ms < MIN_HEARTBEAT_INTERVAL_MS then MIN_HEARTBEAT_INTERVAL_MS
      else interval_ms)"

definition negotiateSessionTimeout :: "u32 \<Rightarrow> u32 \<Rightarrow> u32 \<Rightarrow> u32" where
  "negotiateSessionTimeout interval_ms requested_ms max_timeout_ms =
     (let floor_ms = (ucast interval_ms :: u64) * ucast HEARTBEAT_MISSED_FACTOR;
          effective = (if requested_ms = 0 then floor_ms else ucast requested_ms);
          effective = (if requested_ms = 0 \<and> effective < ucast DEFAULT_HEARTBEAT_TIMEOUT
                       then ucast DEFAULT_HEARTBEAT_TIMEOUT else effective);
          effective = (if effective < floor_ms then floor_ms else effective);
          effective = (if max_timeout_ms \<noteq> 0 \<and> ucast max_timeout_ms < effective
                       then ucast max_timeout_ms else effective);
          effective = (if 0xFFFFFFFF < effective then 0xFFFFFFFF else effective)
      in if effective = 0 then 1 else ucast effective)"

lemma clampHeartbeatInterval_ge: "MIN_HEARTBEAT_INTERVAL_MS \<le> clampHeartbeatInterval i"
  by (auto simp: clampHeartbeatInterval_def MIN_HEARTBEAT_INTERVAL_MS_def
      DEFAULT_HEARTBEAT_INTERVAL_def not_less)

lemma clampHeartbeatInterval_idem [simp]:
  "clampHeartbeatInterval (clampHeartbeatInterval i) = clampHeartbeatInterval i"
  by (simp add: clampHeartbeatInterval_def MIN_HEARTBEAT_INTERVAL_MS_def
      DEFAULT_HEARTBEAT_INTERVAL_def)

text \<open>The negotiation in unbounded arithmetic: the reference for the machine-word version.\<close>

definition session_timeout_spec :: "nat \<Rightarrow> nat \<Rightarrow> nat \<Rightarrow> nat" where
  "session_timeout_spec interval requested limit =
     (let wanted = (if requested = 0 then max (3 * interval) 10000 else max requested (3 * interval));
          capped = (if limit = 0 then wanted else min wanted limit)
      in max 1 (min capped (2 ^ 32 - 1)))"

lemma u32_bounds: "unat (x :: u32) \<le> 4294967295"
  using unsigned_less [of x, where ?'a = nat] by simp

lemma unat_widen: "unat (ucast (x :: u32) :: u64) = unat x"
proof -
  have "take_bit 64 (unat x) = unat x" using u32_bounds [of x] by (intro take_bit_nat_eq_self) simp
  then show ?thesis by (simp add: unsigned_ucast_eq)
qed

lemma unat_narrow: "unat (y :: u64) \<le> 4294967295 \<Longrightarrow> unat (ucast y :: u32) = unat y"
  by (simp add: unsigned_ucast_eq unsigned_take_bit_eq take_bit_eq_mod)

lemma unat_floor_ms: "unat ((ucast (i :: u32) :: u64) * 3) = 3 * unat i"
  using u32_bounds [of i] by (simp add: unat_word_ariths unat_widen)

lemma negotiateSessionTimeout_spec:
  "unat (negotiateSessionTimeout i r m) = session_timeout_spec (unat i) (unat r) (unat m)"
proof -
  define f where "f = (ucast i :: u64) * ucast HEARTBEAT_MISSED_FACTOR"
  define e1 where "e1 = (if r = 0 then f else ucast r)"
  define e2 where "e2 = (if r = 0 \<and> e1 < ucast DEFAULT_HEARTBEAT_TIMEOUT
                         then ucast DEFAULT_HEARTBEAT_TIMEOUT else e1)"
  define e3 where "e3 = (if e2 < f then f else e2)"
  define e4 where "e4 = (if m \<noteq> 0 \<and> ucast m < e3 then ucast m else e3)"
  define e5 where "e5 = (if 0xFFFFFFFF < e4 then 0xFFFFFFFF else e4)"
  have z: "r = 0 \<longleftrightarrow> unat r = 0" "m = 0 \<longleftrightarrow> unat m = 0" by (simp_all add: unat_0_iff)
  have f: "unat f = 3 * unat i" using unat_floor_ms by (simp add: f_def HEARTBEAT_MISSED_FACTOR_def)
  have e2: "unat e2 = (if unat r = 0 then max (3 * unat i) 10000 else unat r)"
    by (simp add: e2_def e1_def z f word_less_nat_alt unat_widen DEFAULT_HEARTBEAT_TIMEOUT_def max_def)
  have e3: "unat e3 = (if unat r = 0 then max (3 * unat i) 10000 else max (unat r) (3 * unat i))"
    using e2 f by (simp add: e3_def word_less_nat_alt max_def)
  have e4: "unat e4 = (if unat m = 0 then unat e3 else min (unat e3) (unat m))"
    by (auto simp: e4_def word_less_nat_alt unat_widen z(2))
  have e5: "unat e5 = min (unat e4) 4294967295"
    by (simp add: e5_def word_less_nat_alt min_def)
  then have "unat (ucast e5 :: u32) = unat e5" by (intro unat_narrow) simp
  moreover have "negotiateSessionTimeout i r m = (if e5 = 0 then 1 else ucast e5)"
    by (simp only: negotiateSessionTimeout_def Let_def e5_def e4_def e3_def e2_def e1_def f_def)
  moreover have "e5 = 0 \<longleftrightarrow> unat e5 = 0" by (simp add: unat_0_iff)
  ultimately have "unat (negotiateSessionTimeout i r m) = max 1 (unat e5)" by auto
  moreover have "(4294967295 :: nat) = 2 ^ 32 - 1" by simp
  ultimately show ?thesis by (simp only: session_timeout_spec_def Let_def e5 e4 e3)
qed

subsection \<open>The FNV-1a hash\<close>

text \<open>
  \<open>fnv1a_32(const char*)\<close> stops at the first NUL; the \<open>std::string\<close> overload goes through
  \<open>c_str()\<close>, so it stops there too.
\<close>

definition fnv1a_step :: "u32 \<Rightarrow> char \<Rightarrow> u32" where
  "fnv1a_step hash c = (hash XOR ucast (byte_of_char c)) * 0x01000193"

fun fnv1a_loop :: "u32 \<Rightarrow> string \<Rightarrow> u32" where
  "fnv1a_loop hash [] = hash"
| "fnv1a_loop hash (c # cs) =
     (if c = CHR 0x00 then hash else fnv1a_loop (fnv1a_step hash c) cs)"

definition fnv1a_32 :: "string \<Rightarrow> u32" where
  "fnv1a_32 s = fnv1a_loop 0x811c9dc5 s"

lemma fnv1a_loop_foldl: "fnv1a_loop h s = foldl fnv1a_step h (takeWhile (\<lambda>c. c \<noteq> CHR 0x00) s)"
  by (induction s arbitrary: h) auto

subsection \<open>Decimal numbers\<close>

text \<open>\<open>std::ostringstream << size\<close>: the decimal digits, most significant first.\<close>

definition digit_char :: "nat \<Rightarrow> char" where
  "digit_char d = char_of (48 + d)"

fun dec :: "nat \<Rightarrow> string" where
  "dec n = (if n < 10 then [digit_char n] else dec (n div 10) @ [digit_char (n mod 10)])"

declare dec.simps [simp del]

definition is_digit :: "char \<Rightarrow> bool" where
  "is_digit c \<longleftrightarrow> 48 \<le> (of_char c :: nat) \<and> (of_char c :: nat) \<le> 57"

lemma of_digit_char: "d < 10 \<Longrightarrow> of_char (digit_char d) = 48 + d"
  by (simp add: digit_char_def)

lemma dec_digits: "\<forall>c \<in> set (dec n). is_digit c"
proof (induction n rule: dec.induct)
  case (1 n)
  show ?case
  proof (cases "n < 10")
    case True
    then show ?thesis by (subst dec.simps) (simp add: is_digit_def of_digit_char)
  next
    case False
    then show ?thesis using 1 by (subst dec.simps) (auto simp: is_digit_def of_digit_char)
  qed
qed

lemma dec_nonempty [simp]: "dec n \<noteq> []"
  by (subst dec.simps) simp

definition dec_value :: "string \<Rightarrow> nat" where
  "dec_value s = foldl (\<lambda>v c. v * 10 + (of_char c - 48)) 0 s"

lemma dec_value_dec: "dec_value (dec n) = n"
proof (induction n rule: dec.induct)
  case (1 n)
  show ?case
  proof (cases "n < 10")
    case True
    then show ?thesis by (subst dec.simps) (simp add: dec_value_def of_digit_char)
  next
    case False
    then show ?thesis using 1 by (subst dec.simps) (simp add: dec_value_def of_digit_char)
  qed
qed

text \<open>A decimal number followed by a non-digit is read off unambiguously.\<close>

lemma dec_prefix_unique:
  assumes "dec a @ c # r = dec b @ c' # s" "\<not> is_digit c" "\<not> is_digit c'"
  shows "a = b \<and> c = c' \<and> r = s"
proof -
  have split: "takeWhile is_digit (dec n @ d # t) = dec n \<and> dropWhile is_digit (dec n @ d # t) = d # t"
    if "\<not> is_digit d" for n d t
    using dec_digits [of n] that by (simp add: takeWhile_append dropWhile_append)
  have "dec a = dec b" "c # r = c' # s"
    using split [OF assms(2), of a r] split [OF assms(3), of b s] assms(1) by metis+
  then show ?thesis by (metis dec_value_dec list.inject)
qed

subsection \<open>Keys\<close>

definition makeServiceInstanceKey :: "string \<Rightarrow> string" where
  "makeServiceInstanceKey instance_id = instance_id"

definition makeServiceIdentityKey :: "ServiceIdentity \<Rightarrow> string" where
  "makeServiceIdentityKey identity =
     dec (length (id_name identity)) @ ''|'' @ id_name identity @ ''|'' @
     dec (length (id_instance_id identity)) @ ''|'' @ id_instance_id identity"

definition US :: char where
  "US = CHR 0x1F"

definition makeServiceConnectionKey :: "string \<Rightarrow> string \<Rightarrow> string" where
  "makeServiceConnectionKey name instance_id =
     (if instance_id = [] then name else name @ [US] @ makeServiceInstanceKey instance_id)"

definition makeRuntimeSessionKey :: "string \<Rightarrow> string \<Rightarrow> string" where
  "makeRuntimeSessionKey host_id runtime_id = host_id @ [US] @ runtime_id"

lemma not_digit_bar: "\<not> is_digit (CHR ''|'')" "\<not> is_digit (CHR '':'')"
  by (simp_all add: is_digit_def)

text \<open>A block preceded by its length is read off unambiguously.\<close>

lemma dec_block_unique:
  assumes "dec (length x) @ c # x @ r = dec (length y) @ c # y @ s" "\<not> is_digit c"
  shows "x = y \<and> r = s"
proof -
  have "length x = length y" "x @ r = y @ s"
    using dec_prefix_unique [OF assms(1) assms(2) assms(2)] by auto
  then show ?thesis by simp
qed

text \<open>Equal keys mean equal logical identities: the length prefixes make the encoding injective.\<close>

lemma makeServiceIdentityKey_inj:
  "makeServiceIdentityKey a = makeServiceIdentityKey b \<longleftrightarrow> ServiceIdentity_eq a b"
proof
  let ?tail = "\<lambda>i. CHR ''|'' # dec (length (id_instance_id i)) @ CHR ''|'' # id_instance_id i @ []"
  assume "makeServiceIdentityKey a = makeServiceIdentityKey b"
  then have "dec (length (id_name a)) @ CHR ''|'' # id_name a @ ?tail a
           = dec (length (id_name b)) @ CHR ''|'' # id_name b @ ?tail b"
    by (simp add: makeServiceIdentityKey_def)
  then have n: "id_name a = id_name b" and t: "?tail a = ?tail b"
    using dec_block_unique [OF _ not_digit_bar(1)] by blast+
  from t have "dec (length (id_instance_id a)) @ CHR ''|'' # id_instance_id a @ []
             = dec (length (id_instance_id b)) @ CHR ''|'' # id_instance_id b @ []"
    by simp
  then have "id_instance_id a = id_instance_id b"
    using dec_block_unique [OF _ not_digit_bar(1)] by blast
  with n show "ServiceIdentity_eq a b" by (simp add: ServiceIdentity_eq_def)
qed (simp add: makeServiceIdentityKey_def ServiceIdentity_eq_def)

text \<open>The session key separates host and runtime only while the host name has no separator.\<close>

lemma split_at_US:
  "US \<notin> set g \<Longrightarrow> takeWhile (\<lambda>c. c \<noteq> US) (g @ US # t) = g"
  "US \<notin> set g \<Longrightarrow> dropWhile (\<lambda>c. c \<noteq> US) (g @ US # t) = US # t"
  by (induction g) auto

lemma makeRuntimeSessionKey_inj:
  assumes "US \<notin> set h" "US \<notin> set h'" "makeRuntimeSessionKey h r = makeRuntimeSessionKey h' r'"
  shows "h = h' \<and> r = r'"
proof -
  have eq: "h @ US # r = h' @ US # r'" using assms(3) by (simp add: makeRuntimeSessionKey_def)
  then have "h = h'" using split_at_US(1) [OF assms(1)] split_at_US(1) [OF assms(2)] by metis
  with eq show ?thesis by simp
qed

end
