(* ===== verification/OmniMessage.thy ===== *)
theory OmniMessage
  imports OmniTypes
begin

unbundle bit_operations_syntax

section \<open>Messages and their payloads\<close>

text \<open>
  include/omnibinder/message.h and src/core/message.cpp: the 16-byte header, framing, and the payload
  codecs. A \<open>MessageType\<close> is a datatype with its code; a header carries any 16-bit code, so dispatch
  goes through \<open>getType\<close>, \<open>None\<close> for a code no enumerator has. Decoders are written over the reads of
  \<open>WireCodec\<close>, in the order and with the checks of the templates in message.h.
\<close>

subsection \<open>Message types\<close>

datatype MessageType =
    MSG_REGISTER | MSG_REGISTER_REPLY | MSG_UNREGISTER | MSG_UNREGISTER_REPLY
  | MSG_HEARTBEAT | MSG_HEARTBEAT_ACK | MSG_CONTROL_HEARTBEAT | MSG_CONTROL_HEARTBEAT_ACK
  | MSG_LOOKUP | MSG_LOOKUP_REPLY | MSG_LIST_SERVICES | MSG_LIST_SERVICES_REPLY
  | MSG_QUERY_INTERFACES | MSG_QUERY_INTERFACES_REPLY | MSG_LIST_INSTANCES
  | MSG_LIST_INSTANCES_REPLY | MSG_SUBSCRIBE_SERVICE_WATCH | MSG_SUBSCRIBE_SERVICE_WATCH_REPLY
  | MSG_UNSUBSCRIBE_SERVICE_WATCH | MSG_SERVICE_WATCH_NOTIFY | MSG_PUBLISH_TOPIC
  | MSG_PUBLISH_TOPIC_REPLY | MSG_SUBSCRIBE_TOPIC | MSG_SUBSCRIBE_TOPIC_REPLY
  | MSG_TOPIC_PUBLISHER_NOTIFY | MSG_UNPUBLISH_TOPIC | MSG_UNSUBSCRIBE_TOPIC
  | MSG_QUERY_PUBLISHED_TOPICS | MSG_QUERY_PUBLISHED_TOPICS_REPLY | MSG_RUNTIME_HELLO
  | MSG_RUNTIME_HELLO_REPLY | MSG_DIAG_SET_LOG_LEVEL | MSG_DIAG_SET_LOG_LEVEL_REPLY
  | MSG_DIAG_WATCH_START | MSG_DIAG_WATCH_START_REPLY | MSG_DIAG_WATCH_STOP
  | MSG_DIAG_WATCH_STOP_REPLY | MSG_RUNTIME_LIST | MSG_RUNTIME_LIST_REPLY
  | MSG_INVOKE | MSG_INVOKE_REPLY | MSG_INVOKE_ONEWAY | MSG_BROADCAST
  | MSG_SUBSCRIBE_BROADCAST | MSG_SESSION_HELLO | MSG_SESSION_HELLO_ACK

fun msg_code :: "MessageType \<Rightarrow> u16" where
  "msg_code MSG_REGISTER = 0x0001"
| "msg_code MSG_REGISTER_REPLY = 0x0002"
| "msg_code MSG_UNREGISTER = 0x0003"
| "msg_code MSG_UNREGISTER_REPLY = 0x0004"
| "msg_code MSG_HEARTBEAT = 0x0005"
| "msg_code MSG_HEARTBEAT_ACK = 0x0006"
| "msg_code MSG_CONTROL_HEARTBEAT = 0x0007"
| "msg_code MSG_CONTROL_HEARTBEAT_ACK = 0x0008"
| "msg_code MSG_LOOKUP = 0x0010"
| "msg_code MSG_LOOKUP_REPLY = 0x0011"
| "msg_code MSG_LIST_SERVICES = 0x0012"
| "msg_code MSG_LIST_SERVICES_REPLY = 0x0013"
| "msg_code MSG_QUERY_INTERFACES = 0x0014"
| "msg_code MSG_QUERY_INTERFACES_REPLY = 0x0015"
| "msg_code MSG_LIST_INSTANCES = 0x0016"
| "msg_code MSG_LIST_INSTANCES_REPLY = 0x0017"
| "msg_code MSG_SUBSCRIBE_SERVICE_WATCH = 0x0027"
| "msg_code MSG_SUBSCRIBE_SERVICE_WATCH_REPLY = 0x0028"
| "msg_code MSG_UNSUBSCRIBE_SERVICE_WATCH = 0x0029"
| "msg_code MSG_SERVICE_WATCH_NOTIFY = 0x002A"
| "msg_code MSG_PUBLISH_TOPIC = 0x0030"
| "msg_code MSG_PUBLISH_TOPIC_REPLY = 0x0031"
| "msg_code MSG_SUBSCRIBE_TOPIC = 0x0032"
| "msg_code MSG_SUBSCRIBE_TOPIC_REPLY = 0x0033"
| "msg_code MSG_TOPIC_PUBLISHER_NOTIFY = 0x0034"
| "msg_code MSG_UNPUBLISH_TOPIC = 0x0035"
| "msg_code MSG_UNSUBSCRIBE_TOPIC = 0x0036"
| "msg_code MSG_QUERY_PUBLISHED_TOPICS = 0x0037"
| "msg_code MSG_QUERY_PUBLISHED_TOPICS_REPLY = 0x0038"
| "msg_code MSG_RUNTIME_HELLO = 0x0040"
| "msg_code MSG_RUNTIME_HELLO_REPLY = 0x0041"
| "msg_code MSG_DIAG_SET_LOG_LEVEL = 0x0042"
| "msg_code MSG_DIAG_SET_LOG_LEVEL_REPLY = 0x0043"
| "msg_code MSG_DIAG_WATCH_START = 0x0044"
| "msg_code MSG_DIAG_WATCH_START_REPLY = 0x0045"
| "msg_code MSG_DIAG_WATCH_STOP = 0x0046"
| "msg_code MSG_DIAG_WATCH_STOP_REPLY = 0x0047"
| "msg_code MSG_RUNTIME_LIST = 0x0049"
| "msg_code MSG_RUNTIME_LIST_REPLY = 0x004A"
| "msg_code MSG_INVOKE = 0x0100"
| "msg_code MSG_INVOKE_REPLY = 0x0101"
| "msg_code MSG_INVOKE_ONEWAY = 0x0102"
| "msg_code MSG_BROADCAST = 0x0110"
| "msg_code MSG_SUBSCRIBE_BROADCAST = 0x0111"
| "msg_code MSG_SESSION_HELLO = 0x0112"
| "msg_code MSG_SESSION_HELLO_ACK = 0x0113"

definition all_message_types :: "MessageType list" where
  "all_message_types =
    [MSG_REGISTER, MSG_REGISTER_REPLY, MSG_UNREGISTER, MSG_UNREGISTER_REPLY,
     MSG_HEARTBEAT, MSG_HEARTBEAT_ACK, MSG_CONTROL_HEARTBEAT, MSG_CONTROL_HEARTBEAT_ACK,
     MSG_LOOKUP, MSG_LOOKUP_REPLY, MSG_LIST_SERVICES, MSG_LIST_SERVICES_REPLY,
     MSG_QUERY_INTERFACES, MSG_QUERY_INTERFACES_REPLY, MSG_LIST_INSTANCES,
     MSG_LIST_INSTANCES_REPLY, MSG_SUBSCRIBE_SERVICE_WATCH, MSG_SUBSCRIBE_SERVICE_WATCH_REPLY,
     MSG_UNSUBSCRIBE_SERVICE_WATCH, MSG_SERVICE_WATCH_NOTIFY, MSG_PUBLISH_TOPIC,
     MSG_PUBLISH_TOPIC_REPLY, MSG_SUBSCRIBE_TOPIC, MSG_SUBSCRIBE_TOPIC_REPLY,
     MSG_TOPIC_PUBLISHER_NOTIFY, MSG_UNPUBLISH_TOPIC, MSG_UNSUBSCRIBE_TOPIC,
     MSG_QUERY_PUBLISHED_TOPICS, MSG_QUERY_PUBLISHED_TOPICS_REPLY, MSG_RUNTIME_HELLO,
     MSG_RUNTIME_HELLO_REPLY, MSG_DIAG_SET_LOG_LEVEL, MSG_DIAG_SET_LOG_LEVEL_REPLY,
     MSG_DIAG_WATCH_START, MSG_DIAG_WATCH_START_REPLY, MSG_DIAG_WATCH_STOP,
     MSG_DIAG_WATCH_STOP_REPLY, MSG_RUNTIME_LIST, MSG_RUNTIME_LIST_REPLY,
     MSG_INVOKE, MSG_INVOKE_REPLY, MSG_INVOKE_ONEWAY, MSG_BROADCAST,
     MSG_SUBSCRIBE_BROADCAST, MSG_SESSION_HELLO, MSG_SESSION_HELLO_ACK]"

definition msg_of_code :: "u16 \<Rightarrow> MessageType option" where
  "msg_of_code c = find (\<lambda>t. msg_code t = c) all_message_types"

text \<open>\<open>messageTypeToString\<close>; two enumerators have no case of their own in its switch.\<close>

fun messageTypeToString :: "MessageType option \<Rightarrow> string" where
  "messageTypeToString None = ''UNKNOWN''"
| "messageTypeToString (Some t) =
    (case t of
       MSG_REGISTER \<Rightarrow> ''REGISTER'' | MSG_REGISTER_REPLY \<Rightarrow> ''REGISTER_REPLY''
     | MSG_UNREGISTER \<Rightarrow> ''UNREGISTER'' | MSG_UNREGISTER_REPLY \<Rightarrow> ''UNREGISTER_REPLY''
     | MSG_HEARTBEAT \<Rightarrow> ''HEARTBEAT'' | MSG_HEARTBEAT_ACK \<Rightarrow> ''HEARTBEAT_ACK''
     | MSG_CONTROL_HEARTBEAT \<Rightarrow> ''CONTROL_HEARTBEAT''
     | MSG_CONTROL_HEARTBEAT_ACK \<Rightarrow> ''CONTROL_HEARTBEAT_ACK''
     | MSG_SESSION_HELLO \<Rightarrow> ''SESSION_HELLO'' | MSG_SESSION_HELLO_ACK \<Rightarrow> ''SESSION_HELLO_ACK''
     | MSG_LOOKUP \<Rightarrow> ''LOOKUP'' | MSG_LOOKUP_REPLY \<Rightarrow> ''LOOKUP_REPLY''
     | MSG_LIST_SERVICES \<Rightarrow> ''LIST_SERVICES'' | MSG_LIST_SERVICES_REPLY \<Rightarrow> ''LIST_SERVICES_REPLY''
     | MSG_QUERY_INTERFACES \<Rightarrow> ''QUERY_INTERFACES''
     | MSG_QUERY_INTERFACES_REPLY \<Rightarrow> ''QUERY_INTERFACES_REPLY''
     | MSG_LIST_INSTANCES \<Rightarrow> ''LIST_INSTANCES''
     | MSG_LIST_INSTANCES_REPLY \<Rightarrow> ''LIST_INSTANCES_REPLY''
     | MSG_SUBSCRIBE_SERVICE_WATCH \<Rightarrow> ''SUBSCRIBE_SERVICE_WATCH''
     | MSG_SUBSCRIBE_SERVICE_WATCH_REPLY \<Rightarrow> ''SUBSCRIBE_SERVICE_WATCH_REPLY''
     | MSG_UNSUBSCRIBE_SERVICE_WATCH \<Rightarrow> ''UNSUBSCRIBE_SERVICE_WATCH''
     | MSG_SERVICE_WATCH_NOTIFY \<Rightarrow> ''SERVICE_WATCH_NOTIFY''
     | MSG_PUBLISH_TOPIC \<Rightarrow> ''PUBLISH_TOPIC'' | MSG_PUBLISH_TOPIC_REPLY \<Rightarrow> ''PUBLISH_TOPIC_REPLY''
     | MSG_SUBSCRIBE_TOPIC \<Rightarrow> ''SUBSCRIBE_TOPIC''
     | MSG_SUBSCRIBE_TOPIC_REPLY \<Rightarrow> ''SUBSCRIBE_TOPIC_REPLY''
     | MSG_TOPIC_PUBLISHER_NOTIFY \<Rightarrow> ''TOPIC_PUBLISHER_NOTIFY''
     | MSG_UNPUBLISH_TOPIC \<Rightarrow> ''UNPUBLISH_TOPIC'' | MSG_UNSUBSCRIBE_TOPIC \<Rightarrow> ''UNSUBSCRIBE_TOPIC''
     | MSG_QUERY_PUBLISHED_TOPICS \<Rightarrow> ''QUERY_PUBLISHED_TOPICS''
     | MSG_QUERY_PUBLISHED_TOPICS_REPLY \<Rightarrow> ''QUERY_PUBLISHED_TOPICS_REPLY''
     | MSG_RUNTIME_HELLO \<Rightarrow> ''RUNTIME_HELLO'' | MSG_RUNTIME_HELLO_REPLY \<Rightarrow> ''RUNTIME_HELLO_REPLY''
     | MSG_DIAG_SET_LOG_LEVEL \<Rightarrow> ''DIAG_SET_LOG_LEVEL''
     | MSG_DIAG_SET_LOG_LEVEL_REPLY \<Rightarrow> ''DIAG_SET_LOG_LEVEL_REPLY''
     | MSG_DIAG_WATCH_START \<Rightarrow> ''DIAG_WATCH_START''
     | MSG_DIAG_WATCH_START_REPLY \<Rightarrow> ''DIAG_WATCH_START_REPLY''
     | MSG_DIAG_WATCH_STOP \<Rightarrow> ''DIAG_WATCH_STOP''
     | MSG_DIAG_WATCH_STOP_REPLY \<Rightarrow> ''DIAG_WATCH_STOP_REPLY''
     | MSG_RUNTIME_LIST \<Rightarrow> ''RUNTIME_LIST'' | MSG_RUNTIME_LIST_REPLY \<Rightarrow> ''RUNTIME_LIST_REPLY''
     | MSG_INVOKE \<Rightarrow> ''INVOKE'' | MSG_INVOKE_REPLY \<Rightarrow> ''INVOKE_REPLY''
     | MSG_BROADCAST \<Rightarrow> ''BROADCAST''
     | MSG_INVOKE_ONEWAY \<Rightarrow> ''UNKNOWN'' | MSG_SUBSCRIBE_BROADCAST \<Rightarrow> ''UNKNOWN'')"

lemma msg_of_code_code [simp]: "msg_of_code (msg_code t) = Some t"
  by (cases t) (simp_all add: msg_of_code_def all_message_types_def)

lemma msg_code_inj: "msg_code t = msg_code t' \<longleftrightarrow> t = t'"
  by (metis msg_of_code_code option.inject)

lemma msg_of_code_Some: "msg_of_code c = Some t \<longleftrightarrow> c = msg_code t"
proof
  show "c = msg_code t" if "msg_of_code c = Some t"
    using that by (auto simp: msg_of_code_def find_Some_iff)
qed simp

subsection \<open>Headers and frames\<close>

definition OMNI_MAGIC :: u32 where "OMNI_MAGIC = 0x42494E44"
definition OMNI_VERSION :: u16 where "OMNI_VERSION = 1"
definition MESSAGE_HEADER_SIZE :: nat where "MESSAGE_HEADER_SIZE = 16"

record MessageHeader =
  h_magic :: u32
  h_version :: u16
  h_type :: u16
  h_sequence :: u32
  h_length :: u32

record Message =
  m_header :: MessageHeader
  m_payload :: Buffer

definition Message_default :: Message where
  "Message_default =
     \<lparr>m_header = \<lparr>h_magic = OMNI_MAGIC, h_version = OMNI_VERSION, h_type = 0, h_sequence = 0,
                  h_length = 0\<rparr>,
      m_payload = Buffer_empty\<rparr>"

definition Message_new :: "MessageType \<Rightarrow> u32 \<Rightarrow> Message" where
  "Message_new type seq =
     \<lparr>m_header = \<lparr>h_magic = OMNI_MAGIC, h_version = OMNI_VERSION, h_type = msg_code type,
                  h_sequence = seq, h_length = 0\<rparr>,
      m_payload = Buffer_empty\<rparr>"

definition Message_getType :: "Message \<Rightarrow> MessageType option" where
  "Message_getType m = msg_of_code (h_type (m_header m))"

definition Message_getSequence :: "Message \<Rightarrow> u32" where
  "Message_getSequence m = h_sequence (m_header m)"

definition Message_serialize :: "Message \<Rightarrow> writer" where
  "Message_serialize m =
     (if UINT32_MAX < Buffer_size (m_payload m) then wreject
      else if MAX_MESSAGE_SIZE - MESSAGE_HEADER_SIZE < Buffer_size (m_payload m) then wreject
      else
        let h = (m_header m)\<lparr>h_length := of_nat (Buffer_size (m_payload m))\<rparr> in
        wseq [writeUint32 (h_magic h),
              writeUint16 (h_version h),
              writeUint16 (h_type h),
              writeUint32 (h_sequence h),
              writeUint32 (h_length h),
              if 0 < h_length h
              then writeRaw (mem_get (b_data (m_payload m)) 0 (unat (h_length h))) else wskip])"

text \<open>\<open>putUint16LE\<close> and \<open>putUint32LE\<close>: store at an offset of a block, narrowing each byte.\<close>

definition putUint16LE :: "nat \<Rightarrow> u16 \<Rightarrow> bytes \<Rightarrow> bytes" where
  "putUint16LE p v base = mem_put base p [ucast v, ucast (drop_bit 8 v)]"

definition putUint32LE :: "nat \<Rightarrow> u32 \<Rightarrow> bytes \<Rightarrow> bytes" where
  "putUint32LE p v base =
     mem_put base p [ucast v, ucast (drop_bit 8 v), ucast (drop_bit 16 v), ucast (drop_bit 24 v)]"

definition Message_serializeInPlace :: "allocator \<Rightarrow> Message \<Rightarrow> bool \<times> Message" where
  "Message_serializeInPlace alloc m =
     (let len = Buffer_size (m_payload m); hdr = m_header m in
      if UINT32_MAX < len then (False, m)
      else if MAX_MESSAGE_SIZE - MESSAGE_HEADER_SIZE < len then (False, m)
      else
        let p = Buffer_reserve alloc (MESSAGE_HEADER_SIZE + len) (m_payload m) in
        if b_capacity p < MESSAGE_HEADER_SIZE + len then (False, m\<lparr>m_payload := p\<rparr>)
        else
          let base = b_data p;
              base = mem_put base MESSAGE_HEADER_SIZE (mem_get base 0 len);
              base = putUint32LE 0 (h_magic hdr) base;
              base = putUint16LE 4 (h_version hdr) base;
              base = putUint16LE 6 (h_type hdr) base;
              base = putUint32LE 8 (h_sequence hdr) base;
              base = putUint32LE 12 (of_nat len) base
          in (True, m\<lparr>m_payload :=
                Buffer_setWritePosition alloc (MESSAGE_HEADER_SIZE + len) (p\<lparr>b_data := base\<rparr>)\<rparr>))"

text \<open>
  \<open>parseHeader\<close> and \<open>tryExtractFrame\<close> look at the \<open>avail\<close> bytes at the front of \<open>data\<close> (a null
  pointer comes with \<open>avail = 0\<close>). The out-parameters \<open>header\<close> and \<open>frame_size\<close> are meaningful for
  \<open>Complete\<close> only and are its arguments.
\<close>

definition Message_parseHeader :: "bytes \<Rightarrow> nat \<Rightarrow> MessageHeader option" where
  "Message_parseHeader data avail =
     (if avail < MESSAGE_HEADER_SIZE then None
      else Some \<lparr>h_magic = of_le32 (data ! 0) (data ! 1) (data ! 2) (data ! 3),
                 h_version = of_le16 (data ! 4) (data ! 5),
                 h_type = of_le16 (data ! 6) (data ! 7),
                 h_sequence = of_le32 (data ! 8) (data ! 9) (data ! 10) (data ! 11),
                 h_length = of_le32 (data ! 12) (data ! 13) (data ! 14) (data ! 15)\<rparr>)"

definition Message_validateHeader :: "MessageHeader \<Rightarrow> bool" where
  "Message_validateHeader hdr \<longleftrightarrow>
     (if h_magic hdr \<noteq> OMNI_MAGIC then False
      else if MAX_MESSAGE_SIZE - MESSAGE_HEADER_SIZE < unat (h_length hdr) then False
      else True)"

datatype FrameStatus = NeedMore | Complete MessageHeader nat | Corrupt

definition tryExtractFrame :: "bytes \<Rightarrow> nat \<Rightarrow> FrameStatus" where
  "tryExtractFrame data avail =
     (if avail < MESSAGE_HEADER_SIZE then NeedMore
      else
        case Message_parseHeader data avail of
          None \<Rightarrow> NeedMore
        | Some header \<Rightarrow>
            if \<not> Message_validateHeader header then Corrupt
            else
              let total = MESSAGE_HEADER_SIZE + unat (h_length header) in
              if avail < total then NeedMore else Complete header total)"

subsection \<open>Header bytes\<close>

definition header_bytes :: "MessageHeader \<Rightarrow> bytes" where
  "header_bytes h = le32 (h_magic h) @ le16 (h_version h) @ le16 (h_type h) @
                    le32 (h_sequence h) @ le32 (h_length h)"

lemma length_header_bytes [simp]: "length (header_bytes h) = MESSAGE_HEADER_SIZE"
  by (simp add: header_bytes_def MESSAGE_HEADER_SIZE_def)

lemma ucast_le16: "[ucast v, ucast (drop_bit 8 v)] = le16 v"
  unfolding le16_def mask8 by (auto intro!: bit_word_eqI simp: bit_simps)

lemma ucast_le32:
  "[ucast v, ucast (drop_bit 8 v), ucast (drop_bit 16 v), ucast (drop_bit 24 v)] = le32 v"
  unfolding le32_def mask8 by (auto intro!: bit_word_eqI simp: bit_simps)

lemma bit_byte_high [simp]: "8 \<le> k \<Longrightarrow> \<not> bit (a :: byte) k"
  by (auto dest: bit_imp_le_length)

lemma le16_of_le16: "le16 (of_le16 a b) = [a, b]"
  unfolding le16_def of_le16_def mask8
  by (auto intro!: bit_word_eqI simp: bit_simps)

lemma le32_of_le32: "le32 (of_le32 a b c d) = [a, b, c, d]"
  unfolding le32_def of_le32_def mask8
  by (auto intro!: bit_word_eqI simp: bit_simps)

lemma parseHeader_header_bytes:
  "MESSAGE_HEADER_SIZE \<le> avail \<Longrightarrow> Message_parseHeader (header_bytes h @ rest) avail = Some h"
  using of_le32_le32 [of "h_magic h"] of_le16_le16 [of "h_version h"] of_le16_le16 [of "h_type h"]
    of_le32_le32 [of "h_sequence h"] of_le32_le32 [of "h_length h"]
  by (simp add: Message_parseHeader_def header_bytes_def nth_append)

lemma list_upto_16:
  assumes "16 \<le> length xs"
  shows "take 16 xs = [xs!0, xs!1, xs!2, xs!3, xs!4, xs!5, xs!6, xs!7,
                       xs!8, xs!9, xs!10, xs!11, xs!12, xs!13, xs!14, xs!15]"
proof -
  have "take 16 xs = map (\<lambda>i. xs ! i) [0..<16]"
    using assms by (intro nth_equalityI) simp_all
  also have "[0..<16] = [0,1,2,3,4,5,6,7,8,9,10,11,12,13,14,15::nat]" by (simp add: upt_rec)
  finally show ?thesis by simp
qed

lemma header_bytes_parseHeader:
  assumes "Message_parseHeader data avail = Some h" "avail \<le> length data"
  shows "header_bytes h = take MESSAGE_HEADER_SIZE data"
  using assms list_upto_16 [of data]
  by (auto simp: Message_parseHeader_def header_bytes_def MESSAGE_HEADER_SIZE_def le16_of_le16
      le32_of_le32 split: if_splits)

text \<open>The bytes of a message on the wire.\<close>

definition frame_header :: "Message \<Rightarrow> MessageHeader" where
  "frame_header m = (m_header m)\<lparr>h_length := of_nat (Buffer_size (m_payload m))\<rparr>"

definition frame_bytes :: "Message \<Rightarrow> bytes" where
  "frame_bytes m = header_bytes (frame_header m) @ Buffer_content (m_payload m)"

definition frame_ok :: "Message \<Rightarrow> bool" where
  "frame_ok m \<longleftrightarrow> Buffer_wf (m_payload m) \<and>
     Buffer_size (m_payload m) \<le> MAX_MESSAGE_SIZE - MESSAGE_HEADER_SIZE"

lemma frame_size_u32:
  "frame_ok m \<Longrightarrow> unat (of_nat (Buffer_size (m_payload m)) :: u32) = Buffer_size (m_payload m)"
  by (simp add: frame_ok_def MAX_MESSAGE_SIZE_def MESSAGE_HEADER_SIZE_def unat_of_nat)

lemma length_frame_bytes:
  "frame_ok m \<Longrightarrow> length (frame_bytes m) = MESSAGE_HEADER_SIZE + Buffer_size (m_payload m)"
  by (simp add: frame_bytes_def frame_ok_def Buffer_size_def)

subsection \<open>Serialisation\<close>

lemma frame_ok_not_rejected:
  assumes "frame_ok m"
  shows "\<not> UINT32_MAX < Buffer_size (m_payload m)"
    "\<not> MAX_MESSAGE_SIZE - MESSAGE_HEADER_SIZE < Buffer_size (m_payload m)"
  using assms by (auto simp: frame_ok_def UINT32_MAX_def MAX_MESSAGE_SIZE_def)

lemma serialize_emits:
  assumes "frame_ok m"
  shows "emits (Message_serialize m) (frame_bytes m)"
proof -
  let ?h = "frame_header m" and ?p = "m_payload m"
  let ?body = "if 0 < h_length ?h then writeRaw (mem_get (b_data ?p) 0 (unat (h_length ?h))) else wskip"
  have len: "unat (h_length ?h) = b_write_pos ?p"
    using frame_size_u32 [OF assms] by (simp add: frame_header_def Buffer_size_def)
  have c: "mem_get (b_data ?p) 0 (unat (h_length ?h)) = Buffer_content ?p"
    by (simp add: len mem_get_def Buffer_content_def)
  have "Buffer_content ?p = []" if "\<not> 0 < h_length ?h"
    using that len by (simp add: Buffer_content_def word_neq_0_conv [symmetric])
  then have "emits ?body (Buffer_content ?p)"
    using emits_writeRaw [of "Buffer_content ?p"] by (auto simp: c)
  then have "emits (wseq [?body]) (Buffer_content ?p)"
    using emits_wseq_Cons [OF _ emits_wseq_Nil] by fastforce
  then have "emits (wseq [writeUint32 (h_magic ?h), writeUint16 (h_version ?h),
      writeUint16 (h_type ?h), writeUint32 (h_sequence ?h), writeUint32 (h_length ?h), ?body])
      (le32 (h_magic ?h) @ le16 (h_version ?h) @ le16 (h_type ?h) @ le32 (h_sequence ?h) @
       le32 (h_length ?h) @ Buffer_content ?p)"
    by (intro emits_wseq_Cons u32.wr_emits u16.wr_emits TrueI)
  moreover have "Message_serialize m = wseq [writeUint32 (h_magic ?h), writeUint16 (h_version ?h),
      writeUint16 (h_type ?h), writeUint32 (h_sequence ?h), writeUint32 (h_length ?h), ?body]"
    unfolding Message_serialize_def if_not_P [OF frame_ok_not_rejected(1) [OF assms]]
      if_not_P [OF frame_ok_not_rejected(2) [OF assms]] Let_def frame_header_def by simp
  ultimately show ?thesis by (simp add: frame_bytes_def header_bytes_def)
qed

text \<open>With memory available, serialising into a fresh buffer succeeds and yields the frame.\<close>

lemma serialize_frame:
  assumes "alloc_total alloc" "frame_ok m"
  shows "\<exists>b. Message_serialize m alloc Buffer_empty = (True, b) \<and> Buffer_content b = frame_bytes m"
proof -
  have em: "appends (Message_serialize m) (frame_bytes m)"
    "completes (Message_serialize m) (length (frame_bytes m))"
    using serialize_emits [OF assms(2)] by (simp_all add: emits_def)
  have "length (frame_bytes m) \<le> 2 ^ 63" using length_frame_bytes [OF assms(2)] assms(2)
    by (simp add: frame_ok_def MAX_MESSAGE_SIZE_def MESSAGE_HEADER_SIZE_def)
  then obtain b where b: "Message_serialize m alloc Buffer_empty = (True, b)"
    using completesD [OF em(2) assms(1), of Buffer_empty]
    by (cases "Message_serialize m alloc Buffer_empty") (auto simp: Buffer_empty_def Buffer_wf_def)
  with appendsD(4) [OF em(1) _ _ b] assms(1) show ?thesis by (simp add: alloc_total_def)
qed

text \<open>A payload that would make the frame larger than the receiver accepts is refused.\<close>

lemma serialize_too_large:
  "MAX_MESSAGE_SIZE - MESSAGE_HEADER_SIZE < Buffer_size (m_payload m) \<Longrightarrow>
   Message_serialize m alloc b = (False, b)"
  by (simp add: Message_serialize_def wreject_def)

lemma mem_put_0: "mem_put base 0 src = src @ drop (length src) base"
  by (simp add: mem_put_def)

lemma mem_put_append_left:
  "n = length pre \<Longrightarrow> mem_put (pre @ base) n src = pre @ mem_put base 0 src"
  by (simp add: mem_put_def)

text \<open>The five stores of \<open>serializeInPlace\<close> fill the sixteen bytes before the moved payload.\<close>

lemma put_header:
  assumes "16 \<le> length base"
  shows "putUint32LE 12 (h_length h) (putUint32LE 8 (h_sequence h) (putUint16LE 6 (h_type h)
           (putUint16LE 4 (h_version h) (putUint32LE 0 (h_magic h) base)))) =
         header_bytes h @ drop 16 base"
proof -
  let ?a = "le32 (h_magic h)" and ?b = "le16 (h_version h)" and ?c = "le16 (h_type h)"
    and ?d = "le32 (h_sequence h)" and ?e = "le32 (h_length h)"
  have 1: "mem_put base 0 ?a = ?a @ drop 4 base" by (simp add: mem_put_0)
  have 2: "mem_put (?a @ drop 4 base) 4 ?b = (?a @ ?b) @ drop 6 base"
    by (simp add: mem_put_append_left mem_put_0)
  have 3: "mem_put ((?a @ ?b) @ drop 6 base) 6 ?c = (?a @ ?b @ ?c) @ drop 8 base"
    by (subst mem_put_append_left) (simp_all add: mem_put_0)
  have 4: "mem_put ((?a @ ?b @ ?c) @ drop 8 base) 8 ?d = (?a @ ?b @ ?c @ ?d) @ drop 12 base"
    by (subst mem_put_append_left) (simp_all add: mem_put_0)
  have 5: "mem_put ((?a @ ?b @ ?c @ ?d) @ drop 12 base) 12 ?e = (?a @ ?b @ ?c @ ?d @ ?e) @ drop 16 base"
    by (subst mem_put_append_left) (simp_all add: mem_put_0)
  show ?thesis
    unfolding putUint32LE_def putUint16LE_def ucast_le16 ucast_le32 1 2 3 4 5
    by (simp add: header_bytes_def)
qed

lemma serializeInPlace_spec:
  assumes "alloc_ok alloc" "frame_ok m" "b_read_pos (m_payload m) \<le> MESSAGE_HEADER_SIZE"
    and eq: "Message_serializeInPlace alloc m = (ok, m')"
  shows "Buffer_wf (m_payload m') \<and>
    (if ok then Buffer_content (m_payload m') = frame_bytes m
     else Buffer_content (m_payload m') = Buffer_content (m_payload m) \<and> b_write_failed (m_payload m'))"
proof -
  let ?len = "Buffer_size (m_payload m)"
  let ?p = "Buffer_reserve alloc (MESSAGE_HEADER_SIZE + ?len) (m_payload m)"
  have wf: "Buffer_wf (m_payload m)" using assms(2) by (simp add: frame_ok_def)
  note r = realloc_ofD [OF Buffer_reserve_realloc [OF assms(1) wf, of "MESSAGE_HEADER_SIZE + ?len"]]
  note nr = frame_ok_not_rejected [OF assms(2)]
  show ?thesis
  proof (cases "b_capacity ?p < MESSAGE_HEADER_SIZE + ?len")
    case True
    then have "\<not> ok" "m' = m\<lparr>m_payload := ?p\<rparr>"
      using eq nr by (simp_all add: Message_serializeInPlace_def Let_def)
    moreover have "b_write_failed ?p" using r True by auto
    ultimately show ?thesis using r by simp
  next
    case False
    let ?moved = "mem_put (b_data ?p) MESSAGE_HEADER_SIZE (mem_get (b_data ?p) 0 ?len)"
    have cap: "MESSAGE_HEADER_SIZE + ?len \<le> length (b_data ?p)" using False r by (auto simp: Buffer_wf_def)
    have get: "mem_get (b_data ?p) 0 ?len = Buffer_content (m_payload m)"
      using r by (auto simp: mem_get_def Buffer_content_def Buffer_size_def)
    have lenc: "length (Buffer_content (m_payload m)) = ?len" using wf by (simp add: Buffer_size_def)
    have moved: "length ?moved = length (b_data ?p)" "16 \<le> length ?moved"
      using cap by (simp_all add: get lenc MESSAGE_HEADER_SIZE_def)
    define base where "base = header_bytes (frame_header m) @ drop 16 ?moved"
    have base: "putUint32LE 12 (of_nat ?len) (putUint32LE 8 (h_sequence (m_header m))
        (putUint16LE 6 (h_type (m_header m)) (putUint16LE 4 (h_version (m_header m))
        (putUint32LE 0 (h_magic (m_header m)) ?moved)))) = base"
      using put_header [OF moved(2), of "frame_header m"] by (simp add: base_def frame_header_def)
    have m': "ok" "m' = m\<lparr>m_payload := Buffer_setWritePosition alloc (MESSAGE_HEADER_SIZE + ?len)
                                        (?p\<lparr>b_data := base\<rparr>)\<rparr>"
      using eq nr False unfolding Message_serializeInPlace_def Let_def base by auto
    have "length base = length (b_data ?p)" using moved by (simp add: base_def MESSAGE_HEADER_SIZE_def)
    moreover have "take (MESSAGE_HEADER_SIZE + ?len) base = frame_bytes m"
      using cap lenc unfolding base_def frame_bytes_def get
      by (simp add: MESSAGE_HEADER_SIZE_def mem_put_def)
    moreover have "b_read_pos ?p = b_read_pos (m_payload m)" using r by simp
    ultimately show ?thesis
      using m' False r assms(3)
      by (simp add: Buffer_setWritePosition_def Buffer_wf_def Buffer_content_def)
  qed
qed

lemma serializeInPlace_total:
  assumes "alloc_total alloc" "frame_ok m"
  shows "fst (Message_serializeInPlace alloc m)"
proof -
  let ?len = "Buffer_size (m_payload m)"
  let ?p = "Buffer_reserve alloc (MESSAGE_HEADER_SIZE + ?len) (m_payload m)"
  have ok: "alloc_ok alloc" "Buffer_wf (m_payload m)"
    using assms by (simp_all add: alloc_total_def frame_ok_def)
  have "\<not> b_capacity ?p < MESSAGE_HEADER_SIZE + ?len"
  proof (cases "b_capacity (m_payload m) < MESSAGE_HEADER_SIZE + ?len")
    case True
    have small: "?len \<le> 16777200"
      using assms(2) by (simp add: frame_ok_def MAX_MESSAGE_SIZE_def MESSAGE_HEADER_SIZE_def)
    then have m: "MESSAGE_HEADER_SIZE + ?len \<le> 2 ^ 63" by (simp add: MESSAGE_HEADER_SIZE_def)
    from True small have c: "b_capacity (m_payload m) \<le> SIZE_MAX div 2"
      by (simp add: MESSAGE_HEADER_SIZE_def SIZE_MAX_def)
    let ?n0 = "if b_capacity (m_payload m) = 0 then DEFAULT_BUFFER_SIZE else b_capacity (m_payload m) * 2"
    have n0: "0 < ?n0" "?n0 \<le> SIZE_MAX" using c by (auto simp: DEFAULT_BUFFER_SIZE_def SIZE_MAX_def)
    obtain n where n: "grow_capacity ?n0 (MESSAGE_HEADER_SIZE + ?len) = Some n"
      using grow_capacity_total [OF n0(1) m] by blast
    note g = grow_capacity_Some [OF n n0(1)]
    then have "alloc n \<noteq> None" using assms(1) n0(2) by (simp add: alloc_total_def)
    then have "b_capacity ?p = n"
      using True n c by (auto simp: Buffer_reserve_def Buffer_grow_def Let_def)
    with g show ?thesis by simp
  qed (simp add: Buffer_reserve_def)
  then show ?thesis using frame_ok_not_rejected [OF assms(2)]
    by (simp add: Message_serializeInPlace_def Let_def)
qed

subsection \<open>Extracting frames\<close>

lemma frame_header_valid:
  "frame_ok m \<Longrightarrow> h_magic (m_header m) = OMNI_MAGIC \<Longrightarrow> Message_validateHeader (frame_header m)"
  using frame_size_u32 [of m]
  by (simp add: Message_validateHeader_def frame_header_def frame_ok_def)

lemma parseHeader_cong:
  "take MESSAGE_HEADER_SIZE data' = take MESSAGE_HEADER_SIZE data \<Longrightarrow>
   Message_parseHeader data' avail = Message_parseHeader data avail"
  using nth_take_cong [of 16 data' data] by (simp add: Message_parseHeader_def MESSAGE_HEADER_SIZE_def)

text \<open>
  On a stream that starts with a frame: \<open>NeedMore\<close> as long as the frame is incomplete, and
  \<open>Complete\<close> with exactly that frame as soon as it is there, whatever follows.
\<close>

lemma extract_frame:
  assumes "frame_ok m" "h_magic (m_header m) = OMNI_MAGIC"
    and "take avail data = take avail (frame_bytes m @ rest)" "avail \<le> length data"
  shows "tryExtractFrame data avail =
    (if avail < length (frame_bytes m) then NeedMore
     else Complete (frame_header m) (length (frame_bytes m)))"
proof (cases "avail < MESSAGE_HEADER_SIZE")
  case True
  then show ?thesis using length_frame_bytes [OF assms(1)] by (simp add: tryExtractFrame_def)
next
  case False
  have "take MESSAGE_HEADER_SIZE data = take MESSAGE_HEADER_SIZE (frame_bytes m @ rest)"
    using assms(3) False by (metis linorder_not_less min.absorb1 take_take)
  then have "take MESSAGE_HEADER_SIZE data = take MESSAGE_HEADER_SIZE
      (header_bytes (frame_header m) @ Buffer_content (m_payload m) @ rest)"
    by (simp add: frame_bytes_def)
  then have "Message_parseHeader data avail = Message_parseHeader
      (header_bytes (frame_header m) @ Buffer_content (m_payload m) @ rest) avail"
    by (rule parseHeader_cong)
  also have "\<dots> = Some (frame_header m)" using False by (intro parseHeader_header_bytes) simp
  finally have h: "Message_parseHeader data avail = Some (frame_header m)" .
  have "MESSAGE_HEADER_SIZE + unat (h_length (frame_header m)) = length (frame_bytes m)"
    using frame_size_u32 [OF assms(1)] length_frame_bytes [OF assms(1)] by (simp add: frame_header_def)
  with h False frame_header_valid [OF assms(1,2)] show ?thesis by (simp add: tryExtractFrame_def)
qed

text \<open>Whatever the bytes: a frame that is extracted lies within them and within the size limit.\<close>

lemma extract_sound:
  assumes "tryExtractFrame data avail = Complete h n" "avail \<le> length data"
  shows "n \<le> avail" "n \<le> MAX_MESSAGE_SIZE" "n = MESSAGE_HEADER_SIZE + unat (h_length h)"
    "h_magic h = OMNI_MAGIC" "take MESSAGE_HEADER_SIZE data = header_bytes h"
proof -
  from assms(1) have h: "Message_parseHeader data avail = Some h" and v: "Message_validateHeader h"
    and n: "n = MESSAGE_HEADER_SIZE + unat (h_length h)" "n \<le> avail"
    by (auto simp: tryExtractFrame_def Let_def split: if_splits option.splits)
  show "n \<le> avail" "n = MESSAGE_HEADER_SIZE + unat (h_length h)" by (fact n)+
  show "n \<le> MAX_MESSAGE_SIZE" "h_magic h = OMNI_MAGIC"
    using v n(1) by (auto simp: Message_validateHeader_def MAX_MESSAGE_SIZE_def
        MESSAGE_HEADER_SIZE_def split: if_splits)
  show "take MESSAGE_HEADER_SIZE data = header_bytes h"
    using header_bytes_parseHeader [OF h assms(2)] by simp
qed

text \<open>A corrupt header is reported as soon as it is complete, and stays corrupt.\<close>

lemma extract_corrupt_mono:
  assumes "tryExtractFrame data avail = Corrupt" "avail \<le> avail'"
    "take avail data' = take avail data"
  shows "tryExtractFrame data' avail' = Corrupt"
proof -
  from assms(1) obtain h where h: "Message_parseHeader data avail = Some h"
    and v: "\<not> Message_validateHeader h" and a: "\<not> avail < MESSAGE_HEADER_SIZE"
    by (auto simp: tryExtractFrame_def Let_def split: if_splits option.splits)
  have "take MESSAGE_HEADER_SIZE data' = take MESSAGE_HEADER_SIZE data"
    using assms(3) a by (metis linorder_not_less min.absorb1 take_take)
  then have "Message_parseHeader data' avail' = Some h"
    using h a assms(2) parseHeader_cong [of data' data avail']
    by (simp add: Message_parseHeader_def)
  with v a assms(2) show ?thesis by (simp add: tryExtractFrame_def)
qed

end
