(* ===== verification/ShmRing.thy ===== *)
theory ShmRing
  imports OmniMessage
begin

unbundle bit_operations_syntax

section \<open>The shared-memory ring\<close>

text \<open>
  src/transport/shm_ring.cpp and shm_ring.h: the single-producer single-consumer ring of
  length-prefixed frames each shared-memory connection has in both directions, and the layout of a
  mapping. Cursors, capacities and lengths are 32-bit words, as in the source, with its wrap-around.
  A ring is its header and its data area; \<open>memcpy\<close> of the length is its little-endian bytes (reader
  and writer run on one host). The memory orders matter to the interleaving, not to the values: the
  sequential behaviour is proved here, the notification protocol in \<open>ShmNotify\<close>.
\<close>

record ShmRingHeader =
  rh_write_pos :: u32
  rh_read_pos :: u32
  rh_capacity :: u32
  rh_reserved :: u32

type_synonym shm_ring = "ShmRingHeader \<times> bytes"

definition SHM_MIN_RING_CAPACITY :: nat where "SHM_MIN_RING_CAPACITY = 64"

definition shmAdvancePos :: "u32 \<Rightarrow> u32 \<Rightarrow> u32 \<Rightarrow> u32" where
  "shmAdvancePos pos delta capacity =
     (if capacity - pos \<le> delta then delta - (capacity - pos) else pos + delta)"

definition shmRingAvailableRead :: "ShmRingHeader \<Rightarrow> u32 \<Rightarrow> u32" where
  "shmRingAvailableRead ring cap =
     (if unat cap < SHM_MIN_RING_CAPACITY \<or> rh_capacity ring \<noteq> cap then 0
      else
        let w = rh_write_pos ring; r = rh_read_pos ring in
        if cap \<le> w \<or> cap \<le> r then 0
        else if r \<le> w then w - r
        else cap - r + w)"

definition shmRingAvailableWrite :: "ShmRingHeader \<Rightarrow> u32 \<Rightarrow> u32" where
  "shmRingAvailableWrite ring capacity =
     (if unat capacity < SHM_MIN_RING_CAPACITY \<or> rh_capacity ring \<noteq> capacity
         \<or> capacity \<le> rh_write_pos ring \<or> capacity \<le> rh_read_pos ring then 0
      else capacity - 1 - shmRingAvailableRead ring capacity)"

text \<open>The two copies of a write that may wrap around the end of the data area.\<close>

definition ring_store :: "u32 \<Rightarrow> u32 \<Rightarrow> u32 \<Rightarrow> bytes \<Rightarrow> bytes \<Rightarrow> bytes" where
  "ring_store capacity pos len src ring_data =
     (let first = (if len < capacity - pos then len else capacity - pos);
          ring_data = mem_put ring_data (unat pos) (take (unat first) src)
      in if first < len then mem_put ring_data 0 (mem_get src (unat first) (unat (len - first)))
         else ring_data)"

definition shmRingWriteFrame :: "u32 \<Rightarrow> bytes \<Rightarrow> u32 \<Rightarrow> shm_ring \<Rightarrow> u32 \<times> shm_ring" where
  "shmRingWriteFrame capacity data len ring =
     (case ring of (h, ring_data) \<Rightarrow>
      let total = 4 + len in
      if shmRingAvailableWrite h capacity < total then (0, h, ring_data)
      else
        let pos = rh_write_pos h;
            ring_data = ring_store capacity pos 4 (le32 len) ring_data;
            pos = shmAdvancePos pos 4 capacity;
            ring_data = ring_store capacity pos len data ring_data
        in (total, h\<lparr>rh_write_pos := shmAdvancePos pos len capacity\<rparr>, ring_data))"

definition shmRingRead :: "u32 \<Rightarrow> u32 \<Rightarrow> shm_ring \<Rightarrow> bytes \<times> shm_ring" where
  "shmRingRead capacity len ring =
     (case ring of (h, ring_data) \<Rightarrow>
      if rh_capacity h \<noteq> capacity \<or> capacity \<le> rh_read_pos h then ([], h, ring_data)
      else
        let avail = shmRingAvailableRead h capacity;
            to_read = (if len < avail then len else avail)
        in if to_read = 0 then ([], h, ring_data)
           else
             let r = rh_read_pos h;
                 first = (if to_read < capacity - r then to_read else capacity - r);
                 buf = mem_get ring_data (unat r) (unat first);
                 buf = (if first < to_read then buf @ mem_get ring_data 0 (unat (to_read - first)) else buf)
             in (buf, h\<lparr>rh_read_pos := shmAdvancePos r to_read capacity\<rparr>, ring_data))"

subsection \<open>Frames\<close>

definition shmInspectFrame :: "u32 \<Rightarrow> shm_ring \<Rightarrow> int \<times> nat" where
  "shmInspectFrame trusted_capacity ring =
     (case ring of (h, ring_data) \<Rightarrow>
      if unat trusted_capacity < SHM_MIN_RING_CAPACITY \<or> rh_capacity h \<noteq> trusted_capacity then (-1, 0)
      else
        let r = rh_read_pos h; w = rh_write_pos h in
        if trusted_capacity \<le> r \<or> trusted_capacity \<le> w then (-1, 0)
        else
          let avail = (if r \<le> w then w - r else trusted_capacity - r + w) in
          if avail < 4 then (0, 0)
          else
            let byte = (\<lambda>i. ring_data ! unat ((r + i) mod trusted_capacity));
                msg_len = of_le32 (byte 0) (byte 1) (byte 2) (byte 3);
                max_frame = trusted_capacity - 1 - 4
            in if msg_len = 0 \<or> MAX_MESSAGE_SIZE < unat msg_len \<or> max_frame < msg_len then (-1, 0)
               else if unat avail < 4 + unat msg_len then (0, 0)
               else (1, unat msg_len))"

text \<open>
  \<open>shmRingRecvFrame\<close> with a caller's buffer of \<open>out_size\<close> bytes; the third component is what was
  stored there. On a failed read the cursor is rolled back.
\<close>

definition shmRingRecvFrame :: "u32 \<Rightarrow> nat \<Rightarrow> shm_ring \<Rightarrow> int \<times> nat \<times> bytes \<times> shm_ring" where
  "shmRingRecvFrame capacity out_size ring =
     (case shmInspectFrame capacity ring of (inspect, frame_size) \<Rightarrow>
      if inspect \<le> 0 then (inspect, 0, [], ring)
      else if out_size < frame_size then (-1, 0, [], ring)
      else
        case ring of (h, ring_data) \<Rightarrow>
        let msg_len = (of_nat frame_size :: u32);
            r = rh_read_pos h;
            h1 = h\<lparr>rh_read_pos := shmAdvancePos r 4 capacity\<rparr>
        in case shmRingRead capacity msg_len (h1, ring_data) of (out, h2, ring_data) \<Rightarrow>
           if length out \<noteq> unat msg_len then (-1, 0, out, h2\<lparr>rh_read_pos := r\<rparr>, ring_data)
           else (sint msg_len, frame_size, out, h2, ring_data))"

text \<open>\<open>shmRingSendFrame\<close>, with no consumer running in between; the flag is the notification.\<close>

definition shmRingSendFrame :: "u32 \<Rightarrow> bytes \<Rightarrow> u32 \<Rightarrow> int \<Rightarrow> shm_ring \<Rightarrow> u32 \<times> bool \<times> shm_ring" where
  "shmRingSendFrame capacity frame len notify_fd ring =
     (case ring of (h, ring_data) \<Rightarrow>
      if rh_capacity h \<noteq> capacity \<or> capacity \<le> rh_write_pos h then (0, False, ring)
      else
        let total = 4 + len;
            was_empty = (shmRingAvailableRead h capacity = 0);
            write_start = rh_write_pos h
        in case shmRingWriteFrame capacity frame len ring of (written, h', ring_data') \<Rightarrow>
           if written \<noteq> total then (0, False, h', ring_data')
           else
             let was_empty = (if \<not> was_empty then rh_read_pos h' = write_start else was_empty)
             in (written, was_empty \<and> 0 \<le> notify_fd, h', ring_data'))"

text \<open>
  \<open>shmRingSendFrameWithinTimeout\<close>. The clock and \<open>sleepMs(1)\<close>, during which the consumer may take
  frames, are parameters on the shared state; \<open>None\<close> is a loop that never ends.
\<close>

partial_function (option) sendFrame_loop ::
    "('w \<Rightarrow> int) \<Rightarrow> ('w \<Rightarrow> 'w) \<Rightarrow> ('w \<Rightarrow> shm_ring) \<Rightarrow> (shm_ring \<Rightarrow> 'w \<Rightarrow> 'w) \<Rightarrow> u32 \<Rightarrow> bytes \<Rightarrow> u32 \<Rightarrow> int
     \<Rightarrow> u32 \<Rightarrow> int \<Rightarrow> 'w \<Rightarrow> (int \<times> 'w) option" where
  "sendFrame_loop now sleep getr putr capacity frame len notify_fd timeout_ms start_ms wd =
     (case shmRingSendFrame capacity frame len notify_fd (getr wd) of (written, notified, ring') \<Rightarrow>
      let wd' = putr ring' wd in
      if written = 4 + len then Some (0, wd')
      else if timeout_ms = 0 \<or> uint timeout_ms \<le> now wd' - start_ms then Some (-2, wd')
      else sendFrame_loop now sleep getr putr capacity frame len notify_fd timeout_ms start_ms (sleep wd'))"

definition shmRingSendFrameWithinTimeout ::
    "('w \<Rightarrow> int) \<Rightarrow> ('w \<Rightarrow> 'w) \<Rightarrow> ('w \<Rightarrow> shm_ring) \<Rightarrow> (shm_ring \<Rightarrow> 'w \<Rightarrow> 'w) \<Rightarrow> u32 \<Rightarrow> bytes \<Rightarrow> u32 \<Rightarrow> int
     \<Rightarrow> u32 \<Rightarrow> 'w \<Rightarrow> (int \<times> 'w) option" where
  "shmRingSendFrameWithinTimeout now sleep getr putr capacity frame len notify_fd timeout_ms wd =
     (case getr wd of (h, ring_data) \<Rightarrow>
      if rh_capacity h \<noteq> capacity \<or> capacity \<le> rh_write_pos h \<or> capacity \<le> rh_read_pos h then Some (-1, wd)
      else if capacity = 0 \<or> capacity - 1 < 4 + len then Some (-1, wd)
      else sendFrame_loop now sleep getr putr capacity frame len notify_fd timeout_ms (now wd) wd)"

subsection \<open>Positions on the ring\<close>

definition wrap :: "nat \<Rightarrow> nat \<Rightarrow> nat" where
  "wrap cap i = (if i < cap then i else i - cap)"

definition circ :: "bytes \<Rightarrow> nat \<Rightarrow> nat \<Rightarrow> bytes" where
  "circ data r n = map (\<lambda>i. data ! wrap (length data) (r + i)) [0..<n]"

lemma length_circ [simp]: "length (circ data r n) = n"
  by (simp add: circ_def)

lemma wrap_less: "r < cap \<Longrightarrow> n \<le> cap \<Longrightarrow> wrap cap (r + n) < cap"
  by (auto simp: wrap_def)

lemma wrap_mod: "i < 2 * cap \<Longrightarrow> i mod cap = wrap cap i"
  by (auto simp: wrap_def mod_if)

lemma unat_shmAdvancePos:
  assumes "pos < capacity" "delta \<le> capacity"
  shows "unat (shmAdvancePos pos delta capacity) = wrap (unat capacity) (unat pos + unat delta)"
proof -
  have c: "unat (capacity - pos) = unat capacity - unat pos"
    using assms(1) by (intro unat_sub) (simp add: less_imp_le)
  have lt: "unat pos < unat capacity" "unat delta \<le> unat capacity"
    using assms by (simp_all add: word_less_nat_alt word_le_nat_alt)
  show ?thesis
  proof (cases "capacity - pos \<le> delta")
    case True
    then have "unat (delta - (capacity - pos)) = unat delta - (unat capacity - unat pos)"
      by (simp add: unat_sub c)
    moreover have "unat capacity \<le> unat pos + unat delta" using True c lt by (simp add: word_le_nat_alt)
    ultimately show ?thesis using True lt by (simp add: shmAdvancePos_def wrap_def)
  next
    case False
    then have less: "unat pos + unat delta < unat capacity" using c lt by (simp add: word_le_nat_alt)
    also have "\<dots> < 2 ^ LENGTH(32)" by (rule unsigned_less)
    finally have "unat (pos + delta) = unat pos + unat delta" by (simp add: unat_word_ariths)
    with False less show ?thesis by (simp add: shmAdvancePos_def wrap_def)
  qed
qed

text \<open>The two copies, as one overwrite of the circular area.\<close>

definition ring_put :: "bytes \<Rightarrow> nat \<Rightarrow> bytes \<Rightarrow> bytes" where
  "ring_put data pos src =
     (let first = min (length src) (length data - pos)
      in mem_put (mem_put data pos (take first src)) 0 (drop first src))"

lemma ring_store_put:
  assumes "pos < capacity" "unat len = length src" "length data = unat capacity"
  shows "ring_store capacity pos len src data = ring_put data (unat pos) src"
proof -
  have c: "unat (capacity - pos) = unat capacity - unat pos"
    using assms(1) by (intro unat_sub) (simp add: less_imp_le)
  let ?first = "if len < capacity - pos then len else capacity - pos"
  have f: "unat ?first = min (length src) (length data - unat pos)"
    using c assms by (auto simp: word_less_nat_alt min_def)
  have "?first \<le> len" by auto
  then have r: "unat (len - ?first) = length src - unat ?first" by (simp add: unat_sub assms(2))
  have lt: "?first < len \<longleftrightarrow> unat ?first < length src" by (simp add: word_less_nat_alt assms(2))
  have g: "mem_get src (unat ?first) (unat (len - ?first)) = drop (unat ?first) src"
    by (simp add: mem_get_def r)
  have n: "drop (unat ?first) src = []" if "\<not> ?first < len" using that lt by simp
  show ?thesis unfolding ring_store_def ring_put_def Let_def g f [symmetric]
    using n by auto
qed

lemma length_ring_put:
  "pos < length data \<Longrightarrow> length src \<le> length data \<Longrightarrow> length (ring_put data pos src) = length data"
  by (simp add: ring_put_def Let_def)

lemma nth_ring_put:
  assumes "pos < length data" "length src \<le> length data" "i < length data"
  shows "ring_put data pos src ! i =
    (if pos \<le> i \<and> i < pos + length src then src ! (i - pos)
     else if i + length data < pos + length src then src ! (i + length data - pos)
     else data ! i)"
proof -
  define f where "f = min (length src) (length data - pos)"
  let ?d = "mem_put data pos (take f src)"
  have f: "f \<le> length src" "pos + f \<le> length data" using assms by (auto simp: f_def)
  have l: "length ?d = length data" using f by simp
  have "ring_put data pos src ! i = (if i < length src - f then src ! (f + i) else ?d ! i)"
    unfolding ring_put_def Let_def f_def [symmetric]
    using assms l f by (subst nth_mem_put) auto
  moreover have "?d ! i = (if pos \<le> i \<and> i < pos + f then src ! (i - pos) else data ! i)"
    using assms f by (subst nth_mem_put) auto
  ultimately show ?thesis using assms by (auto simp: f_def min_def add.commute)
qed

lemma circ_ring_put:
  assumes "r < length data" "n + length src \<le> length data" "src \<noteq> []"
  shows "circ (ring_put data (wrap (length data) (r + n)) src) r (n + length src) = circ data r n @ src"
    (is "circ ?d r _ = _")
proof (rule nth_equalityI)
  have p: "wrap (length data) (r + n) < length data" using assms by (intro wrap_less) auto
  have l: "length ?d = length data" using p assms by (intro length_ring_put) auto
  show "length (circ ?d r (n + length src)) = length (circ data r n @ src)" by simp
  fix i assume "i < length (circ ?d r (n + length src))"
  then have i: "i < n + length src" by simp
  then have w: "wrap (length data) (r + i) < length data" using assms by (intro wrap_less) auto
  have "circ ?d r (n + length src) ! i = ?d ! wrap (length data) (r + i)"
    using i by (simp add: circ_def l)
  also have "\<dots> = (if i < n then data ! wrap (length data) (r + i) else src ! (i - n))"
    using assms i by (subst nth_ring_put [OF p _ w]) (auto simp: wrap_def)
  also have "\<dots> = (circ data r n @ src) ! i"
    using i by (auto simp: nth_append circ_def)
  finally show "circ ?d r (n + length src) ! i = (circ data r n @ src) ! i" .
qed

lemma wrap_wrap: "r < cap \<Longrightarrow> a + b \<le> cap \<Longrightarrow> wrap cap (wrap cap (r + a) + b) = wrap cap (r + (a + b))"
  by (auto simp: wrap_def)

lemma circ_append:
  assumes "r < length data" "a + b \<le> length data"
  shows "circ data r (a + b) = circ data r a @ circ data (wrap (length data) (r + a)) b"
  by (rule nth_equalityI) (auto simp: circ_def nth_append wrap_def, use assms in auto)

lemma circ_copies:
  assumes "r < length data" "n \<le> length data"
  shows "circ data r n = (if n \<le> length data - r then mem_get data r n
    else mem_get data r (length data - r) @ mem_get data 0 (n - (length data - r)))"
  using assms by (intro nth_equalityI) (auto simp: circ_def wrap_def mem_get_def nth_append min_def add.commute)

subsection \<open>The ring as a queue of frames\<close>

definition frame_enc :: "bytes \<Rightarrow> bytes" where
  "frame_enc f = le32 (of_nat (length f)) @ f"

definition frames_bytes :: "bytes list \<Rightarrow> bytes" where
  "frames_bytes fs = concat (map frame_enc fs)"

text \<open>The frames the receiver accepts.\<close>

definition frame_fits :: "u32 \<Rightarrow> bytes \<Rightarrow> bool" where
  "frame_fits cap f \<longleftrightarrow> f \<noteq> [] \<and> length f \<le> MAX_MESSAGE_SIZE \<and> length f + 5 \<le> unat cap"

text \<open>
  \<open>ring_holds cap fs ring\<close>: the ring is well-formed and between its cursors lie the frames \<open>fs\<close>. One
  byte always stays free. The capacity is at most \<open>2 ^ 32 - 4\<close>, so that \<open>read_pos + i\<close> in
  \<open>shmInspectFrame\<close> does not wrap.
\<close>

definition ring_holds :: "u32 \<Rightarrow> bytes list \<Rightarrow> shm_ring \<Rightarrow> bool" where
  "ring_holds cap fs ring \<longleftrightarrow>
     (case ring of (h, data) \<Rightarrow>
        SHM_MIN_RING_CAPACITY \<le> unat cap \<and> unat cap \<le> 2 ^ 32 - 4 \<and> rh_capacity h = cap \<and>
        rh_read_pos h < cap \<and> rh_write_pos h < cap \<and> length data = unat cap \<and>
        (\<forall>f \<in> set fs. frame_fits cap f) \<and> length (frames_bytes fs) < unat cap \<and>
        unat (rh_write_pos h) = wrap (unat cap) (unat (rh_read_pos h) + length (frames_bytes fs)) \<and>
        circ data (unat (rh_read_pos h)) (length (frames_bytes fs)) = frames_bytes fs)"

lemma length_frame_enc [simp]: "length (frame_enc f) = 4 + length f"
  by (simp add: frame_enc_def)

lemma frames_bytes_simps [simp]:
  "frames_bytes [] = []" "frames_bytes (f # fs) = frame_enc f @ frames_bytes fs"
  "frames_bytes (fs @ gs) = frames_bytes fs @ frames_bytes gs"
  by (simp_all add: frames_bytes_def)

lemma ring_holdsD:
  assumes "ring_holds cap fs (h, data)"
  shows "64 \<le> unat cap" "unat cap \<le> 2 ^ 32 - 4" "rh_capacity h = cap" "rh_read_pos h < cap"
    "rh_write_pos h < cap" "length data = unat cap" "\<forall>f \<in> set fs. frame_fits cap f"
    "length (frames_bytes fs) < unat cap" "unat (rh_read_pos h) < unat cap"
    "unat (rh_write_pos h) < unat cap"
    "unat (rh_write_pos h) = wrap (unat cap) (unat (rh_read_pos h) + length (frames_bytes fs))"
    "circ data (unat (rh_read_pos h)) (length (frames_bytes fs)) = frames_bytes fs"
    "\<not> cap \<le> rh_read_pos h" "\<not> cap \<le> rh_write_pos h"
  using assms by (simp_all add: ring_holds_def SHM_MIN_RING_CAPACITY_def word_less_nat_alt word_le_nat_alt)

lemma le32_not_Nil [simp]: "le32 v \<noteq> []"
  by (simp add: le32_def)

text \<open>The distance between the cursors, in the two forms the source computes it.\<close>

definition ring_used :: "u32 \<Rightarrow> nat \<Rightarrow> ShmRingHeader \<Rightarrow> bool" where
  "ring_used cap n h \<longleftrightarrow> 64 \<le> unat cap \<and> rh_capacity h = cap \<and> unat (rh_read_pos h) < unat cap \<and>
     n < unat cap \<and> unat (rh_write_pos h) = wrap (unat cap) (unat (rh_read_pos h) + n)"

lemma ring_holds_used: "ring_holds cap fs (h, data) \<Longrightarrow> ring_used cap (length (frames_bytes fs)) h"
  using ring_holdsD [of cap fs h data] by (simp add: ring_used_def)

lemma ring_used_bounds:
  "ring_used cap n h \<Longrightarrow> \<not> cap \<le> rh_read_pos h" "ring_used cap n h \<Longrightarrow> \<not> cap \<le> rh_write_pos h"
  using wrap_less [of "unat (rh_read_pos h)" "unat cap" n]
  by (auto simp: ring_used_def word_le_nat_alt)

lemma cursor_distance:
  assumes "ring_used cap n h"
  shows "unat (if rh_read_pos h \<le> rh_write_pos h then rh_write_pos h - rh_read_pos h
               else cap - rh_read_pos h + rh_write_pos h) = n"
proof (cases "rh_read_pos h \<le> rh_write_pos h")
  case True
  then have "unat (rh_write_pos h - rh_read_pos h) = unat (rh_write_pos h) - unat (rh_read_pos h)"
    by (rule unat_sub)
  with True assms show ?thesis by (auto simp: ring_used_def wrap_def word_le_nat_alt split: if_splits)
next
  case False
  have c: "unat (cap - rh_read_pos h) = unat cap - unat (rh_read_pos h)"
    using ring_used_bounds(1) [OF assms] by (intro unat_sub) simp
  have "unat cap < 2 ^ LENGTH(32)" by (rule unsigned_less)
  then have "unat (cap - rh_read_pos h) + unat (rh_write_pos h) < 2 ^ LENGTH(32)"
    using c assms False by (auto simp: word_le_nat_alt ring_used_def)
  then have "unat (cap - rh_read_pos h + rh_write_pos h) = unat cap - unat (rh_read_pos h) + unat (rh_write_pos h)"
    using c by (simp add: unat_word_ariths)
  with False assms show ?thesis by (auto simp: ring_used_def wrap_def word_le_nat_alt split: if_splits)
qed

lemma used_available:
  assumes "ring_used cap n h"
  shows "unat (shmRingAvailableRead h cap) = n"
  using cursor_distance [OF assms] ring_used_bounds [OF assms] assms
  by (simp add: shmRingAvailableRead_def SHM_MIN_RING_CAPACITY_def ring_used_def Let_def)

lemmas available_read = used_available [OF ring_holds_used]

lemma available_write:
  assumes "ring_holds cap fs (h, data)"
  shows "unat (shmRingAvailableWrite h cap) = unat cap - 1 - length (frames_bytes fs)"
proof -
  note d = ring_holdsD [OF assms]
  have 1: "unat (cap - 1) = unat cap - 1" using d(1) by (subst unat_sub) (simp_all add: word_le_nat_alt)
  have "shmRingAvailableRead h cap \<le> cap - 1"
    using available_read [OF assms] d(8) 1 by (simp add: word_le_nat_alt)
  then have "unat (cap - 1 - shmRingAvailableRead h cap) = unat cap - 1 - length (frames_bytes fs)"
    by (simp add: unat_sub 1 available_read [OF assms])
  with d show ?thesis
    by (simp add: shmRingAvailableWrite_def SHM_MIN_RING_CAPACITY_def)
qed

lemma frame_len:
  assumes "frame_fits cap f" "unat cap \<le> 2 ^ 32 - 4"
  shows "unat (of_nat (length f) :: u32) = length f" "unat (4 + of_nat (length f) :: u32) = 4 + length f"
proof -
  have small: "length f + 4 < 2 ^ LENGTH(32)" using assms by (simp add: frame_fits_def)
  then show 1: "unat (of_nat (length f) :: u32) = length f" by (simp add: unat_of_nat)
  show "unat (4 + of_nat (length f) :: u32) = 4 + length f"
    using small by (simp add: unat_word_ariths unat_of_nat)
qed

lemma write_frame_enqueues:
  assumes ring: "ring_holds cap fs (h, data)" and f: "frame_fits cap f"
    and room: "length (frames_bytes fs) + (4 + length f) < unat cap"
  shows "\<exists>h' data'. shmRingWriteFrame cap f (of_nat (length f)) (h, data) = (4 + of_nat (length f), h', data') \<and>
           ring_holds cap (fs @ [f]) (h', data') \<and> rh_read_pos h' = rh_read_pos h"
proof -
  note d = ring_holdsD [OF ring]
  note fl = frame_len [OF f d(2)]
  let ?len = "of_nat (length f) :: u32" and ?n = "length (frames_bytes fs)"
  let ?r = "unat (rh_read_pos h)" and ?w = "rh_write_pos h" and ?c = "unat cap"
  define d1 where "d1 = ring_put data (unat ?w) (le32 ?len)"
  define p1 where "p1 = shmAdvancePos ?w 4 cap"
  define d2 where "d2 = ring_put d1 (unat p1) f"
  have four: "unat (4 :: u32) = 4" by simp
  have l1: "length d1 = ?c" using d room by (simp add: d1_def length_ring_put)
  have p1: "unat p1 = wrap ?c (?r + (?n + 4))"
    using d room unat_shmAdvancePos [OF d(5), of 4] wrap_wrap [of ?r ?c ?n 4]
    by (simp add: p1_def word_le_nat_alt)
  have p1_less: "p1 < cap" using p1 d room wrap_less [of ?r ?c "?n + 4"] by (simp add: word_less_nat_alt)
  have c1: "circ d1 ?r (?n + 4) = frames_bytes fs @ le32 ?len"
    using circ_ring_put [of ?r data ?n "le32 ?len"] d room by (simp add: d1_def)
  have l2: "length d2 = ?c" using l1 p1_less f room by (simp add: d2_def length_ring_put word_less_nat_alt)
  have f0: "f \<noteq> []" using f by (simp add: frame_fits_def)
  have c2: "circ d2 ?r (?n + 4 + length f) = frames_bytes (fs @ [f])"
    using circ_ring_put [of ?r d1 "?n + 4" f] d l1 p1 room f0 c1 by (simp add: d2_def frame_enc_def)
  have s: "ring_store cap ?w 4 (le32 ?len) data = d1" "ring_store cap p1 ?len f d1 = d2"
    using d l1 p1_less fl(1) by (simp_all add: ring_store_put d1_def d2_def)
  have w2: "unat (shmAdvancePos p1 ?len cap) = wrap ?c (?r + (?n + 4 + length f))"
    using unat_shmAdvancePos [OF p1_less, of ?len] p1 fl(1) d room wrap_wrap [of ?r ?c "?n + 4" "length f"]
    by (simp add: word_le_nat_alt)
  have "\<not> shmRingAvailableWrite h cap < 4 + ?len"
    using available_write [OF ring] room fl(2) by (simp add: word_less_nat_alt)
  then have "shmRingWriteFrame cap f ?len (h, data) = (4 + ?len, h\<lparr>rh_write_pos := shmAdvancePos p1 ?len cap\<rparr>, d2)"
    using s by (simp add: shmRingWriteFrame_def Let_def p1_def)
  moreover have "ring_holds cap (fs @ [f]) (h\<lparr>rh_write_pos := shmAdvancePos p1 ?len cap\<rparr>, d2)"
    using d l2 c2 w2 f room wrap_less [of ?r ?c "?n + 4 + length f"]
    by (auto simp: ring_holds_def SHM_MIN_RING_CAPACITY_def word_less_nat_alt add.assoc)
  ultimately show ?thesis by simp
qed

lemma write_frame_full:
  assumes ring: "ring_holds cap fs (h, data)" and f: "frame_fits cap f"
    and full: "\<not> length (frames_bytes fs) + (4 + length f) < unat cap"
  shows "shmRingWriteFrame cap f (of_nat (length f)) (h, data) = (0, h, data)"
proof -
  note d = ring_holdsD [OF ring]
  have "shmRingAvailableWrite h cap < 4 + of_nat (length f)"
    using available_write [OF ring] full frame_len(2) [OF f d(2)] d(8) by (simp add: word_less_nat_alt)
  then show ?thesis by (simp add: shmRingWriteFrame_def Let_def)
qed

lemma read_is_write_start:
  assumes "ring_holds cap fs (h, data)"
  shows "rh_read_pos h = rh_write_pos h \<longleftrightarrow> fs = []"
proof -
  note d = ring_holdsD [OF assms]
  have "rh_read_pos h = rh_write_pos h \<longleftrightarrow> length (frames_bytes fs) = 0"
    using d by (auto simp: word_unat_eq_iff wrap_def split: if_splits)
  then show ?thesis by (cases fs) auto
qed

text \<open>Sending appends the frame, or changes nothing when there is no room; it notifies an empty ring.\<close>

lemma send_frame_queue:
  assumes ring: "ring_holds cap fs ring" and f: "frame_fits cap f"
  shows "\<exists>ring'. shmRingSendFrame cap f (of_nat (length f)) fd ring =
      (if length (frames_bytes fs) + (4 + length f) < unat cap
       then (4 + of_nat (length f), fs = [] \<and> 0 \<le> fd, ring') else (0, False, ring)) \<and>
      (length (frames_bytes fs) + (4 + length f) < unat cap \<longrightarrow> ring_holds cap (fs @ [f]) ring')"
proof -
  obtain h data where r: "ring = (h, data)" by force
  note holds = ring [unfolded r]
  note d = ring_holdsD [OF holds]
  have e: "shmRingAvailableRead h cap = 0 \<longleftrightarrow> fs = []"
  proof -
    have "shmRingAvailableRead h cap = 0 \<longleftrightarrow> length (frames_bytes fs) = 0"
      using available_read [OF holds] by (metis unat_eq_0)
    then show ?thesis by (cases fs) auto
  qed
  have nz: "(0 :: u32) \<noteq> 4 + of_nat (length f)"
    using frame_len(2) [OF f d(2)] by (metis add_is_0 unat_0 zero_neq_numeral)
  show ?thesis
  proof (cases "length (frames_bytes fs) + (4 + length f) < unat cap")
    case True
    from write_frame_enqueues [OF holds f True] obtain h' data' where
      w: "shmRingWriteFrame cap f (of_nat (length f)) (h, data) = (4 + of_nat (length f), h', data')"
      and h': "ring_holds cap (fs @ [f]) (h', data')" "rh_read_pos h' = rh_read_pos h" by blast
    have "shmRingSendFrame cap f (of_nat (length f)) fd ring = (4 + of_nat (length f), fs = [] \<and> 0 \<le> fd, h', data')"
      using d w h'(2) read_is_write_start [OF holds] by (simp add: shmRingSendFrame_def r Let_def e)
    with True h'(1) show ?thesis by auto
  next
    case False
    with write_frame_full [OF holds f False] d nz show ?thesis
      by (simp add: shmRingSendFrame_def r Let_def)
  qed
qed

lemma read_block:
  assumes ring: "64 \<le> unat cap" "rh_capacity h = cap" "rh_read_pos h < cap" "length data = unat cap"
    and avail: "unat (shmRingAvailableRead h cap) = n" and m: "unat len \<le> n" "0 < unat len" "n < unat cap"
  shows "shmRingRead cap len (h, data) =
    (circ data (unat (rh_read_pos h)) (unat len), h\<lparr>rh_read_pos := shmAdvancePos (rh_read_pos h) len cap\<rparr>, data)"
proof -
  let ?r = "rh_read_pos h"
  have c: "unat (cap - ?r) = unat cap - unat ?r" using ring(3) by (intro unat_sub) (simp add: less_imp_le)
  have r: "unat ?r < unat cap" "\<not> cap \<le> ?r"
    using ring(3) by (simp_all add: word_less_nat_alt word_le_nat_alt)
  have to: "(if len < shmRingAvailableRead h cap then len else shmRingAvailableRead h cap) = len"
    using avail m(1) by (auto simp: word_less_nat_alt word_unat_eq_iff)
  have nz: "len \<noteq> 0" using m(2) by auto
  let ?first = "if len < cap - ?r then len else cap - ?r"
  have "?first \<le> len" by auto
  then have sub: "unat (len - ?first) = unat len - unat ?first" by (rule unat_sub)
  have f: "unat ?first = min (unat len) (unat cap - unat ?r)" using c by (auto simp: word_less_nat_alt)
  have lt: "?first < len \<longleftrightarrow> \<not> unat len \<le> unat cap - unat ?r" using f by (auto simp: word_less_nat_alt)
  have copy: "(if ?first < len then mem_get data (unat ?r) (unat ?first) @ mem_get data 0 (unat (len - ?first))
         else mem_get data (unat ?r) (unat ?first)) = circ data (unat ?r) (unat len)"
    unfolding sub lt f using circ_copies [of "unat ?r" data "unat len"] r m ring(4) by (simp add: min_def)
  show ?thesis unfolding shmRingRead_def Let_def prod.case to copy using ring r nz by simp
qed

text \<open>The length prefix \<open>shmInspectFrame\<close> reads byte by byte.\<close>

lemma inspect_queue:
  assumes ring: "ring_holds cap fs ring"
  shows "shmInspectFrame cap ring = (case fs of [] \<Rightarrow> (0, 0) | f # _ \<Rightarrow> (1, length f))"
proof -
  obtain h data where r: "ring = (h, data)" by force
  note holds = ring [unfolded r]
  note d = ring_holdsD [OF holds]
  let ?r = "rh_read_pos h" and ?w = "rh_write_pos h" and ?n = "length (frames_bytes fs)"
  let ?avail = "if ?r \<le> ?w then ?w - ?r else cap - ?r + ?w"
  have av: "unat ?avail = ?n" by (rule cursor_distance [OF ring_holds_used [OF holds]])
  have pre: "\<not> unat cap < SHM_MIN_RING_CAPACITY" using d(1) by (simp add: SHM_MIN_RING_CAPACITY_def)
  show ?thesis
  proof (cases fs)
    case Nil
    then have "?avail < 4" using av by (simp add: word_less_nat_alt)
    with Nil d pre show ?thesis by (simp add: shmInspectFrame_def r Let_def)
  next
    case (Cons f fs')
    have f: "frame_fits cap f" using d(7) Cons by simp
    note fl = frame_len [OF f d(2)]
    let ?len = "of_nat (length f) :: u32"
    have four: "\<not> ?avail < 4" using av Cons by (simp add: word_less_nat_alt)
    have byte: "data ! unat ((?r + of_nat i) mod cap) = le32 ?len ! i" if i: "i < 4" for i
    proof -
      have "unat (?r + of_nat i) = unat ?r + i"
        using i d(2,9) by (simp add: unat_word_ariths unat_of_nat)
      then have "unat ((?r + of_nat i) mod cap) = wrap (unat cap) (unat ?r + i)"
        using i d(1,9) by (simp add: unat_mod wrap_mod)
      moreover have "circ data (unat ?r) ?n ! i = data ! wrap (unat cap) (unat ?r + i)"
        using i Cons d(6) by (simp add: circ_def)
      moreover have "frames_bytes fs ! i = le32 ?len ! i" using i Cons by (simp add: frame_enc_def nth_append)
      ultimately show ?thesis using d(12) by simp
    qed
    have len: "of_le32 (data ! unat ((?r + 0) mod cap)) (data ! unat ((?r + 1) mod cap))
        (data ! unat ((?r + 2) mod cap)) (data ! unat ((?r + 3) mod cap)) = ?len"
      using byte [of 0] byte [of 1] byte [of 2] byte [of 3] of_le32_le32 [of ?len] by simp
    have "unat (cap - 1 - 4) = unat cap - 5"
      using d(1) by (simp add: unat_sub word_le_nat_alt)
    then have ok: "?len \<noteq> 0" "\<not> MAX_MESSAGE_SIZE < unat ?len" "\<not> cap - 1 - 4 < ?len"
      using f fl(1) by (auto simp: frame_fits_def word_less_nat_alt)
    have "\<not> unat ?avail < 4 + unat ?len" using av Cons fl(1) by simp
    with four ok d pre fl(1) Cons show ?thesis
      unfolding shmInspectFrame_def r Let_def prod.case len by simp
  qed
qed

text \<open>Receiving takes the oldest frame, if the caller's buffer can hold it.\<close>

lemma recv_frame_queue:
  assumes ring: "ring_holds cap fs ring"
  shows "case fs of
      [] \<Rightarrow> shmRingRecvFrame cap out_size ring = (0, 0, [], ring)
    | f # fs' \<Rightarrow>
        if out_size < length f then shmRingRecvFrame cap out_size ring = (-1, 0, [], ring)
        else \<exists>ring'. shmRingRecvFrame cap out_size ring = (int (length f), length f, f, ring') \<and>
               ring_holds cap fs' ring'"
proof (cases fs)
  case Nil
  then show ?thesis using inspect_queue [OF ring] by (simp add: shmRingRecvFrame_def)
next
  case (Cons f fs')
  obtain h data where r: "ring = (h, data)" by force
  note holds = ring [unfolded r]
  note d = ring_holdsD [OF holds]
  have f: "frame_fits cap f" using d(7) Cons by simp
  note fl = frame_len [OF f d(2)]
  let ?r = "rh_read_pos h" and ?len = "of_nat (length f) :: u32" and ?n = "length (frames_bytes fs')"
  show ?thesis
  proof (cases "out_size < length f")
    case True
    then show ?thesis using inspect_queue [OF ring] Cons by (simp add: shmRingRecvFrame_def)
  next
    case False
    let ?h1 = "h\<lparr>rh_read_pos := shmAdvancePos ?r 4 cap\<rparr>"
    have n: "4 + length f + ?n < unat cap" using d(8) Cons by simp
    have p1: "unat (rh_read_pos ?h1) = wrap (unat cap) (unat ?r + 4)"
      using unat_shmAdvancePos [OF d(4), of 4] d(1) by (simp add: word_le_nat_alt)
    have p1l: "rh_read_pos ?h1 < cap"
      using p1 wrap_less [of "unat ?r" "unat cap" 4] d by (simp add: word_less_nat_alt)
    have parts: "circ data (wrap (unat cap) (unat ?r + 4)) (length f) = f"
      "circ data (wrap (unat cap) (unat ?r + 4 + length f)) ?n = frames_bytes fs'"
    proof -
      have "circ data (unat ?r) (4 + (length f + ?n)) = le32 ?len @ f @ frames_bytes fs'"
        using d(12) Cons by (simp add: frame_enc_def add.assoc)
      moreover have "circ data (unat ?r) (4 + (length f + ?n)) =
          circ data (unat ?r) 4 @ circ data (wrap (unat cap) (unat ?r + 4)) (length f) @
          circ data (wrap (unat cap) (unat ?r + 4 + length f)) ?n"
        using circ_append [of "unat ?r" data 4 "length f + ?n"] d n
          circ_append [of "wrap (unat cap) (unat ?r + 4)" data "length f" ?n]
          wrap_less [of "unat ?r" "unat cap" 4] wrap_wrap [of "unat ?r" "unat cap" 4 "length f"]
        by (simp add: add.assoc)
      ultimately show "circ data (wrap (unat cap) (unat ?r + 4)) (length f) = f"
        "circ data (wrap (unat cap) (unat ?r + 4 + length f)) ?n = frames_bytes fs'" by simp_all
    qed
    have "ring_used cap (length f + ?n) ?h1"
      using d p1 n Cons wrap_less [of "unat ?r" "unat cap" 4] wrap_wrap [of "unat ?r" "unat cap" 4 "length f + ?n"]
      by (simp add: ring_used_def add.assoc)
    note av = used_available [OF this]
    have rd: "shmRingRead cap ?len (?h1, data) =
        (f, ?h1\<lparr>rh_read_pos := shmAdvancePos (rh_read_pos ?h1) ?len cap\<rparr>, data)"
      using read_block [of cap ?h1 data "length f + ?n" ?len] d p1 p1l av fl(1) f n parts(1)
      by (simp add: frame_fits_def)
    let ?h2 = "?h1\<lparr>rh_read_pos := shmAdvancePos (rh_read_pos ?h1) ?len cap\<rparr>"
    have p2: "unat (rh_read_pos ?h2) = wrap (unat cap) (unat ?r + (4 + length f))"
      using unat_shmAdvancePos [OF p1l, of ?len] p1 fl(1) n wrap_wrap [of "unat ?r" "unat cap" 4 "length f"] d(9)
      by (simp add: word_le_nat_alt)
    have "ring_holds cap fs' (?h2, data)"
      using d p2 n Cons parts(2) wrap_less [of "unat ?r" "unat cap" "4 + length f"]
        wrap_wrap [of "unat ?r" "unat cap" "4 + length f" ?n]
      by (simp add: ring_holds_def SHM_MIN_RING_CAPACITY_def word_less_nat_alt add.assoc)
    moreover have "sint ?len = int (length f)"
      using f by (simp add: frame_fits_def MAX_MESSAGE_SIZE_def signed_of_nat signed_take_bit_int_eq_self)
    ultimately show ?thesis
      using False Cons rd inspect_queue [OF ring] fl(1) by (simp add: shmRingRecvFrame_def r Let_def)
  qed
qed

subsection \<open>First in, first out\<close>

text \<open>
  The contract of a channel that holds a list of items: sending appends an acceptable item or
  refuses it, receiving takes the oldest. Whatever the order of the operations, the items received
  followed by those still held are the items held before followed by those accepted.
\<close>

datatype 'a chan_op = Send 'a | Recv

fun run_ops :: "('a \<Rightarrow> 'r \<Rightarrow> bool \<times> 'r) \<Rightarrow> ('r \<Rightarrow> 'a option \<times> 'r) \<Rightarrow> 'a chan_op list \<Rightarrow> 'r \<Rightarrow> 'a list \<times> 'a list \<times> 'r" where
  "run_ops snd_op rcv_op [] r = ([], [], r)"
| "run_ops snd_op rcv_op (Send x # ops) r =
     (case snd_op x r of (ok, r1) \<Rightarrow>
      case run_ops snd_op rcv_op ops r1 of (acc, got, r2) \<Rightarrow> (if ok then x # acc else acc, got, r2))"
| "run_ops snd_op rcv_op (Recv # ops) r =
     (case rcv_op r of (res, r1) \<Rightarrow>
      case run_ops snd_op rcv_op ops r1 of (acc, got, r2) \<Rightarrow>
        (acc, case res of None \<Rightarrow> got | Some x \<Rightarrow> x # got, r2))"

locale fifo_channel =
  fixes holds :: "'a list \<Rightarrow> 'r \<Rightarrow> bool" and accepts :: "'a \<Rightarrow> bool"
    and snd_op :: "'a \<Rightarrow> 'r \<Rightarrow> bool \<times> 'r" and rcv_op :: "'r \<Rightarrow> 'a option \<times> 'r"
  assumes snd_law: "holds xs r \<Longrightarrow> accepts x \<Longrightarrow> snd_op x r = (ok, r') \<Longrightarrow> holds (if ok then xs @ [x] else xs) r'"
    and rcv_empty: "holds [] r \<Longrightarrow> rcv_op r = (res, r') \<Longrightarrow> res = None \<and> holds [] r'"
    and rcv_law: "holds (x # xs) r \<Longrightarrow> rcv_op r = (res, r') \<Longrightarrow> res = Some x \<and> holds xs r'"
begin

lemma fifo:
  "holds xs r \<Longrightarrow> \<forall>x. Send x \<in> set ops \<longrightarrow> accepts x \<Longrightarrow> run_ops snd_op rcv_op ops r = (acc, got, r') \<Longrightarrow>
   \<exists>ys. holds ys r' \<and> xs @ acc = got @ ys"
proof (induction ops arbitrary: xs r acc got)
  case Nil
  then show ?case by auto
next
  case (Cons op ops)
  show ?case
  proof (cases op)
    case (Send x)
    obtain ok r1 where s: "snd_op x r = (ok, r1)" by force
    obtain acc1 where rec: "run_ops snd_op rcv_op ops r1 = (acc1, got, r')"
      and acc: "acc = (if ok then x # acc1 else acc1)"
      using Cons.prems(3) Send s by (auto split: prod.splits)
    have "holds (if ok then xs @ [x] else xs) r1" using snd_law [OF Cons.prems(1) _ s] Cons.prems(2) Send by simp
    from Cons.IH [OF this _ rec] Cons.prems(2) acc show ?thesis by (auto split: if_splits)
  next
    case Recv
    obtain res r1 where v: "rcv_op r = (res, r1)" by force
    obtain got1 where rec: "run_ops snd_op rcv_op ops r1 = (acc, got1, r')"
      and got: "got = (case res of None \<Rightarrow> got1 | Some x \<Rightarrow> x # got1)"
      using Cons.prems(3) Recv v by (auto split: prod.splits)
    have later: "\<forall>x. Send x \<in> set ops \<longrightarrow> accepts x" using Cons.prems(2) by simp
    show ?thesis
    proof (cases xs)
      case Nil
      then have r1: "res = None" "holds [] r1" using rcv_empty [OF _ v] Cons.prems(1) by auto
      from Cons.IH [OF r1(2) later rec] r1 got Nil show ?thesis by simp
    next
      case (Cons x xs')
      then have r1: "res = Some x" "holds xs' r1" using rcv_law [OF _ v] Cons.prems(1) by auto
      from Cons.IH [OF r1(2) later rec] r1 got Cons show ?thesis by simp
    qed
  qed
qed

end

text \<open>The ring, with a receiver whose buffer holds any frame.\<close>

definition ring_send :: "u32 \<Rightarrow> bytes \<Rightarrow> shm_ring \<Rightarrow> bool \<times> shm_ring" where
  "ring_send cap f ring =
     (case shmRingSendFrame cap f (of_nat (length f)) (-1) ring of
        (written, notified, ring') \<Rightarrow> (written \<noteq> 0, ring'))"

definition ring_recv :: "u32 \<Rightarrow> shm_ring \<Rightarrow> bytes option \<times> shm_ring" where
  "ring_recv cap ring =
     (case shmRingRecvFrame cap MAX_MESSAGE_SIZE ring of
        (ret, len, out, ring') \<Rightarrow> (if 0 < ret then Some out else None, ring'))"

interpretation ring: fifo_channel "ring_holds cap" "frame_fits cap" "ring_send cap" "ring_recv cap" for cap
proof
  fix fs r f ok r'
  assume a: "ring_holds cap fs r" "frame_fits cap f" "ring_send cap f r = (ok, r')"
  have "unat cap \<le> 2 ^ 32 - 4" using a(1) by (cases r) (simp add: ring_holds_def)
  from frame_len(2) [OF a(2) this] have "(4 + of_nat (length f) :: u32) \<noteq> 0" by auto
  with send_frame_queue [OF a(1,2), of "-1"] a(1,3) show "ring_holds cap (if ok then fs @ [f] else fs) r'"
    by (auto simp: ring_send_def split: if_splits)
next
  fix r res r'
  assume "ring_holds cap [] r" "ring_recv cap r = (res, r')"
  then show "res = None \<and> ring_holds cap [] r'"
    using recv_frame_queue [of cap "[]" r MAX_MESSAGE_SIZE] by (auto simp: ring_recv_def)
next
  fix f fs r res r'
  assume a: "ring_holds cap (f # fs) r" "ring_recv cap r = (res, r')"
  have "frame_fits cap f" using a(1) by (cases r) (simp add: ring_holds_def)
  then have "0 < length f" "\<not> MAX_MESSAGE_SIZE < length f" by (auto simp: frame_fits_def)
  with a recv_frame_queue [of cap "f # fs" r MAX_MESSAGE_SIZE] show "res = Some f \<and> ring_holds cap fs r'"
    by (auto simp: ring_recv_def)
qed

subsection \<open>Any header, any bytes\<close>

text \<open>
  The peer can write anything into the mapping. Whatever it holds, a frame is only announced with a
  length the receiver may copy, and receiving keeps the cursor inside the data area.
\<close>

lemma inspect_sound:
  assumes "shmInspectFrame cap ring = (1, n)"
  shows "0 < n" "n \<le> MAX_MESSAGE_SIZE" "n + 5 \<le> unat cap" "\<not> cap \<le> rh_read_pos (fst ring)"
    "64 \<le> unat cap" "rh_capacity (fst ring) = cap"
proof -
  obtain h data where r: "ring = (h, data)" by force
  define len where "len = of_le32 (data ! unat ((rh_read_pos h + 0) mod cap)) (data ! unat ((rh_read_pos h + 1) mod cap))
      (data ! unat ((rh_read_pos h + 2) mod cap)) (data ! unat ((rh_read_pos h + 3) mod cap))"
  from assms have c: "64 \<le> unat cap" "rh_capacity h = cap" "\<not> cap \<le> rh_read_pos h"
    "len \<noteq> 0" "unat len \<le> MAX_MESSAGE_SIZE" "\<not> cap - 1 - 4 < len" "n = unat len"
    by (auto simp: shmInspectFrame_def r Let_def len_def [symmetric] SHM_MIN_RING_CAPACITY_def
        simp del: add_0_right split: if_splits)
  have "unat (cap - 1 - 4) = unat cap - 5" using c(1) by (simp add: unat_sub word_le_nat_alt)
  with c show "0 < n" "n \<le> MAX_MESSAGE_SIZE" "n + 5 \<le> unat cap" "\<not> cap \<le> rh_read_pos (fst ring)"
    "64 \<le> unat cap" "rh_capacity (fst ring) = cap"
    by (simp_all add: r word_less_nat_alt unat_gt_0)
qed

lemma advance_in_range:
  "pos < capacity \<Longrightarrow> delta \<le> capacity \<Longrightarrow> shmAdvancePos pos delta capacity < capacity"
  using unat_shmAdvancePos [of pos capacity delta] wrap_less [of "unat pos" "unat capacity" "unat delta"]
  by (simp add: word_less_nat_alt word_le_nat_alt)

lemma available_read_le: "shmRingAvailableRead h cap \<le> cap"
proof (cases "cap \<le> rh_write_pos h \<or> cap \<le> rh_read_pos h \<or> rh_read_pos h \<le> rh_write_pos h")
  case True
  then show ?thesis
    by (auto simp: shmRingAvailableRead_def Let_def word_le_nat_alt unat_sub)
next
  case False
  then have "unat (cap - rh_read_pos h) = unat cap - unat (rh_read_pos h)" by (intro unat_sub) auto
  moreover have "unat cap - unat (rh_read_pos h) + unat (rh_write_pos h) < unat cap"
    using False by (auto simp: word_le_nat_alt)
  ultimately have "unat (cap - rh_read_pos h + rh_write_pos h) < unat cap"
    using unsigned_less [of cap] by (simp add: unat_word_ariths)
  with False show ?thesis by (simp add: shmRingAvailableRead_def Let_def word_le_nat_alt)
qed

lemma read_in_range:
  assumes "shmRingRead cap len (h, data) = (out, h', data')" "rh_read_pos h < cap"
  shows "rh_read_pos h' < cap \<and> data' = data \<and> rh_write_pos h' = rh_write_pos h"
  using assms available_read_le [of h cap]
  by (auto simp: shmRingRead_def Let_def intro!: advance_in_range split: if_splits)

lemma recv_in_range:
  assumes "shmRingRecvFrame cap out_size (h, data) = (ret, n, out, h', data')" "rh_read_pos h < cap"
  shows "rh_read_pos h' < cap" "rh_write_pos h' = rh_write_pos h" "data' = data"
    "0 < ret \<Longrightarrow> n \<le> out_size \<and> length out = n"
proof -
  obtain ins m where i: "shmInspectFrame cap (h, data) = (ins, m)" by force
  let ?h1 = "h\<lparr>rh_read_pos := shmAdvancePos (rh_read_pos h) 4 cap\<rparr>"
  obtain o2 h2 d2 where r: "shmRingRead cap (of_nat m) (?h1, data) = (o2, h2, d2)" by (metis prod_cases3)
  have rng: "rh_read_pos h2 < cap \<and> d2 = data \<and> rh_write_pos h2 = rh_write_pos h" if "64 \<le> unat cap"
    using that read_in_range [OF r] advance_in_range [OF assms(2), of 4] by (simp add: word_le_nat_alt)
  have ins: "ins \<in> {-1, 0, 1}"
    using i by (auto simp: shmInspectFrame_def Let_def split: if_splits prod.splits)
  have one: "64 \<le> unat cap \<and> m \<le> MAX_MESSAGE_SIZE" if "ins = 1" using inspect_sound [of cap "(h, data)" m] i that by simp
  have m: "unat (of_nat m :: u32) = m" if "ins = 1"
    using one [OF that] by (simp add: MAX_MESSAGE_SIZE_def unat_of_nat)
  show "rh_read_pos h' < cap" "rh_write_pos h' = rh_write_pos h" "data' = data"
    "0 < ret \<Longrightarrow> n \<le> out_size \<and> length out = n"
    using assms i r rng one ins m by (auto simp: shmRingRecvFrame_def Let_def split: if_splits)
qed

subsection \<open>Sending within a time budget\<close>

text \<open>
  What the bounded send relies on: the clock advances while it sleeps, and the consumer on the other
  side only takes frames.
\<close>

locale shared_ring =
  fixes now :: "'w \<Rightarrow> int" and sleep :: "'w \<Rightarrow> 'w" and getr :: "'w \<Rightarrow> shm_ring" and putr :: "shm_ring \<Rightarrow> 'w \<Rightarrow> 'w"
  assumes get_put: "getr (putr ring w) = ring"
    and now_put: "now (putr ring w) = now w"
    and sleep_ticks: "now w < now (sleep w)"
    and sleep_consumes: "ring_holds cap fs (getr w) \<Longrightarrow> \<exists>k. ring_holds cap (drop k fs) (getr (sleep w))"
begin

lemma loop_result:
  assumes f: "frame_fits cap f"
  shows "ring_holds cap fs (getr w) \<Longrightarrow>
    \<exists>r w' k. sendFrame_loop now sleep getr putr cap f (of_nat (length f)) fd timeout_ms start_ms w = Some (r, w') \<and>
      (r = 0 \<and> ring_holds cap (drop k fs @ [f]) (getr w') \<or>
       r = -2 \<and> ring_holds cap (drop k fs) (getr w') \<and> uint timeout_ms \<le> now w' - start_ms \<or>
       r = -2 \<and> ring_holds cap (drop k fs) (getr w') \<and> timeout_ms = 0)"
proof (induction "nat (uint timeout_ms - (now w - start_ms))" arbitrary: fs w rule: less_induct)
  case less
  let ?loop = "sendFrame_loop now sleep getr putr cap f (of_nat (length f)) fd timeout_ms start_ms"
  obtain h data where hd: "getr w = (h, data)" by force
  have cap: "unat cap \<le> 2 ^ 32 - 4" using less.prems hd by (simp add: ring_holds_def)
  have nz: "(0 :: u32) \<noteq> 4 + of_nat (length f)" using frame_len(2) [OF f cap] by auto
  from send_frame_queue [OF less.prems f, of fd] obtain ring' where
    s: "shmRingSendFrame cap f (of_nat (length f)) fd (getr w) =
      (if length (frames_bytes fs) + (4 + length f) < unat cap
       then (4 + of_nat (length f), fs = [] \<and> 0 \<le> fd, ring') else (0, False, getr w))"
    "length (frames_bytes fs) + (4 + length f) < unat cap \<longrightarrow> ring_holds cap (fs @ [f]) ring'" by blast
  show ?case
  proof (cases "length (frames_bytes fs) + (4 + length f) < unat cap")
    case True
    then have "?loop w = Some (0, putr ring' w)" using s by (subst sendFrame_loop.simps) simp
    with True s(2) show ?thesis by (intro exI [of _ 0] exI [of _ "putr ring' w"]) (simp add: get_put)
  next
    case full: False
    let ?w1 = "putr (getr w) w"
    have w1: "getr ?w1 = getr w" "now ?w1 = now w" by (simp_all add: get_put now_put)
    show ?thesis
    proof (cases "timeout_ms = 0 \<or> uint timeout_ms \<le> now ?w1 - start_ms")
      case True
      then have "?loop w = Some (-2, ?w1)" using s full nz by (subst sendFrame_loop.simps) simp
      with True less.prems w1 show ?thesis by (intro exI [of _ "-2"] exI [of _ ?w1] exI [of _ 0]) auto
    next
      case False
      then have step: "?loop w = ?loop (sleep ?w1)" using s full nz by (subst sendFrame_loop.simps) simp
      obtain k where k: "ring_holds cap (drop k fs) (getr (sleep ?w1))"
        using sleep_consumes [of cap fs ?w1] less.prems w1 by auto
      have "nat (uint timeout_ms - (now (sleep ?w1) - start_ms)) < nat (uint timeout_ms - (now w - start_ms))"
        using sleep_ticks [of ?w1] False w1 by auto
      from less.hyps [OF this k] step show ?thesis by (simp only: drop_drop) blast
    qed
  qed
qed

end

text \<open>A ring that holds frames passes the guards in front of the loop.\<close>

lemma timed_send_guards:
  assumes "ring_holds cap fs (h, data)" "frame_fits cap f"
  shows "\<not> (rh_capacity h \<noteq> cap \<or> cap \<le> rh_write_pos h \<or> cap \<le> rh_read_pos h)"
    "\<not> (cap = 0 \<or> cap - 1 < 4 + of_nat (length f))"
proof -
  note d = ring_holdsD [OF assms(1)]
  show "\<not> (rh_capacity h \<noteq> cap \<or> cap \<le> rh_write_pos h \<or> cap \<le> rh_read_pos h)"
    using d(3-5) by (simp add: not_le)
  have "unat (cap - 1) = unat cap - 1" using d(1) by (subst unat_sub) (simp_all add: word_le_nat_alt)
  with frame_len(2) [OF assms(2) d(2)] assms(2) d(1) show "\<not> (cap = 0 \<or> cap - 1 < 4 + of_nat (length f))"
    by (auto simp: word_less_nat_alt frame_fits_def)
qed

record ring_world =
  rw_ring :: shm_ring
  rw_clock :: int
  rw_cap :: u32

text \<open>A consumer that receives one frame during every millisecond of sleep.\<close>

definition rw_sleep :: "ring_world \<Rightarrow> ring_world" where
  "rw_sleep w = w\<lparr>rw_clock := rw_clock w + 1, rw_ring := snd (ring_recv (rw_cap w) (rw_ring w))\<rparr>"

lemma ring_recv_other_capacity:
  "ring_holds cap fs ring \<Longrightarrow> cap' \<noteq> cap \<Longrightarrow> snd (ring_recv cap' ring) = ring"
  by (cases ring) (auto simp: ring_holds_def ring_recv_def shmRingRecvFrame_def shmInspectFrame_def)

interpretation rw: shared_ring rw_clock rw_sleep rw_ring "\<lambda>ring w. w\<lparr>rw_ring := ring\<rparr>"
proof
  fix cap fs and w :: ring_world
  assume h: "ring_holds cap fs (rw_ring w)"
  show "\<exists>k. ring_holds cap (drop k fs) (rw_ring (rw_sleep w))"
  proof (cases "rw_cap w = cap")
    case False
    then have "snd (ring_recv (rw_cap w) (rw_ring w)) = rw_ring w" using ring_recv_other_capacity [OF h] by blast
    with h show ?thesis by (intro exI [of _ 0]) (simp add: rw_sleep_def)
  next
    case True
    obtain res r' where r: "ring_recv cap (rw_ring w) = (res, r')"
      by (cases "ring_recv cap (rw_ring w)") blast
    show ?thesis
    proof (cases fs)
      case Nil
      with h ring.rcv_empty [of cap "rw_ring w", OF _ r] True r show ?thesis by (simp add: rw_sleep_def)
    next
      case (Cons f fs')
      with h ring.rcv_law [of cap f fs' "rw_ring w", OF _ r] True r show ?thesis
        by (intro exI [of _ 1]) (simp add: rw_sleep_def)
    qed
  qed
qed (simp_all add: rw_sleep_def)

subsection \<open>The layout of a mapping\<close>

definition SHM_MAGIC :: u32 where "SHM_MAGIC = 0x53484D42"

text \<open>\<open>sizeof(ShmControlBlock)\<close>, \<open>sizeof(ShmRingHeader)\<close> and \<open>alignof(ShmRingHeader)\<close>.\<close>

definition sizeof_ShmControlBlock :: nat where "sizeof_ShmControlBlock = 48"
definition sizeof_ShmRingHeader :: nat where "sizeof_ShmRingHeader = 16"
definition alignof_ShmRingHeader :: nat where "alignof_ShmRingHeader = 4"

definition shmAlignUp :: "nat \<Rightarrow> nat \<Rightarrow> nat" where
  "shmAlignUp value alignment = ((value + alignment - 1) div alignment) * alignment"

definition shmRequestRingOffset :: nat where
  "shmRequestRingOffset = shmAlignUp sizeof_ShmControlBlock alignof_ShmRingHeader"

definition shmRequestDataOffset :: nat where
  "shmRequestDataOffset = shmRequestRingOffset + sizeof_ShmRingHeader"

definition shmResponseRingOffset :: "nat \<Rightarrow> nat" where
  "shmResponseRingOffset req_capacity =
     shmAlignUp (shmRequestDataOffset + req_capacity) alignof_ShmRingHeader"

definition shmResponseDataOffset :: "nat \<Rightarrow> nat" where
  "shmResponseDataOffset req_capacity = shmResponseRingOffset req_capacity + sizeof_ShmRingHeader"

definition shmIsValidRingCapacity :: "nat \<Rightarrow> bool" where
  "shmIsValidRingCapacity capacity \<longleftrightarrow> SHM_MIN_RING_CAPACITY \<le> capacity \<and> capacity \<le> UINT32_MAX"

definition shmNormalizeRingCapacity :: "nat \<Rightarrow> nat" where
  "shmNormalizeRingCapacity capacity =
     (if capacity = 0 then SHM_MIN_RING_CAPACITY
      else if capacity < SHM_MIN_RING_CAPACITY then SHM_MIN_RING_CAPACITY
      else capacity)"

definition calculateShmSize :: "nat \<Rightarrow> nat \<Rightarrow> nat" where
  "calculateShmSize req_capacity resp_capacity =
     (let req = shmNormalizeRingCapacity req_capacity;
          resp = shmNormalizeRingCapacity resp_capacity
      in if \<not> shmIsValidRingCapacity req \<or> \<not> shmIsValidRingCapacity resp then 0
         else
           let offset = shmResponseDataOffset req in
           if SIZE_MAX - resp < offset then 0 else offset + resp)"

definition load32 :: "bytes \<Rightarrow> nat \<Rightarrow> u32" where
  "load32 mem off = of_le32 (mem ! off) (mem ! (off + 1)) (mem ! (off + 2)) (mem ! (off + 3))"

definition store32 :: "nat \<Rightarrow> u32 \<Rightarrow> bytes \<Rightarrow> bytes" where
  "store32 off v mem = mem_put mem off (le32 v)"

text \<open>The ring header at an offset: \<open>write_pos\<close>, \<open>read_pos\<close>, \<open>capacity\<close>, \<open>reserved\<close>.\<close>

definition ring_header_at :: "bytes \<Rightarrow> nat \<Rightarrow> ShmRingHeader" where
  "ring_header_at mem off =
     \<lparr>rh_write_pos = load32 mem off, rh_read_pos = load32 mem (off + 4),
      rh_capacity = load32 mem (off + 8), rh_reserved = load32 mem (off + 12)\<rparr>"

definition store_ring_header :: "nat \<Rightarrow> u32 \<Rightarrow> bytes \<Rightarrow> bytes" where
  "store_ring_header off capacity mem =
     store32 (off + 12) 0 (store32 (off + 8) capacity (store32 (off + 4) 0 (store32 off 0 mem)))"

text \<open>Control block: \<open>magic\<close> 0, \<open>version\<close> 4, capacities 8 and 12, \<open>ready_flag\<close> 16.\<close>

definition shmValidateMappedLayout :: "bytes \<Rightarrow> nat \<Rightarrow> (u32 \<times> u32) option" where
  "shmValidateMappedLayout addr mapped_size =
     (if mapped_size < sizeof_ShmControlBlock then None
      else if load32 addr 0 \<noteq> SHM_MAGIC \<or> load32 addr 4 \<noteq> 1 \<or> load32 addr 16 \<noteq> 1 then None
      else
        let req_capacity = load32 addr 8;
            resp_capacity = load32 addr 12;
            layout_size = calculateShmSize (unat req_capacity) (unat resp_capacity)
        in if layout_size = 0 \<or> mapped_size < layout_size then None
           else
             let req_ring = ring_header_at addr shmRequestRingOffset;
                 resp_ring = ring_header_at addr (shmResponseRingOffset (unat req_capacity))
             in if rh_capacity req_ring \<noteq> req_capacity
                   \<or> rh_capacity resp_ring \<noteq> resp_capacity
                   \<or> rh_capacity req_ring \<le> rh_read_pos req_ring
                   \<or> rh_capacity req_ring \<le> rh_write_pos req_ring
                   \<or> rh_capacity resp_ring \<le> rh_read_pos resp_ring
                   \<or> rh_capacity resp_ring \<le> rh_write_pos resp_ring
                then None
                else Some (req_capacity, resp_capacity))"

definition shmInitLayout :: "u32 \<Rightarrow> u32 \<Rightarrow> nat \<Rightarrow> bytes \<Rightarrow> bytes" where
  "shmInitLayout req_capacity resp_capacity mapped_size addr =
     (if mapped_size = 0 then addr
      else
        let mem = mem_put addr 0 (replicate mapped_size 0);
            mem = store32 0 SHM_MAGIC mem;
            mem = store32 4 1 mem;
            mem = store32 8 req_capacity mem;
            mem = store32 12 resp_capacity mem;
            mem = store_ring_header shmRequestRingOffset req_capacity mem;
            mem = store_ring_header (shmResponseRingOffset (unat req_capacity)) resp_capacity mem
        in store32 16 1 mem)"

lemmas layout_defs = shmRequestRingOffset_def shmRequestDataOffset_def shmResponseRingOffset_def
  shmResponseDataOffset_def sizeof_ShmControlBlock_def sizeof_ShmRingHeader_def
  alignof_ShmRingHeader_def

lemma shmAlignUp_spec:
  assumes "0 < a"
  shows "v \<le> shmAlignUp v a" "shmAlignUp v a < v + a" "a dvd shmAlignUp v a"
proof -
  let ?x = "v + a - 1"
  have "?x div a * a + ?x mod a = ?x" by (rule div_mult_mod_eq)
  moreover have "?x mod a < a" using assms by simp
  ultimately show "v \<le> shmAlignUp v a" "shmAlignUp v a < v + a"
    using assms unfolding shmAlignUp_def by linarith+
  show "a dvd shmAlignUp v a" by (simp add: shmAlignUp_def)
qed

lemma shmAlignUp_mono: "v \<le> w \<Longrightarrow> shmAlignUp v a \<le> shmAlignUp w a"
  unfolding shmAlignUp_def by (intro mult_le_mono1 div_le_mono) simp

lemma request_offsets: "shmRequestRingOffset = 48" "shmRequestDataOffset = 64"
  by (simp_all add: layout_defs shmAlignUp_def)

text \<open>The regions are disjoint, in order, and inside the size that was computed.\<close>

lemma calculateShmSize_regions:
  assumes "calculateShmSize req resp \<noteq> 0"
  shows "sizeof_ShmControlBlock \<le> shmRequestRingOffset"
    "shmRequestDataOffset + req \<le> shmResponseRingOffset req"
    "shmResponseDataOffset req + resp \<le> calculateShmSize req resp"
    "4 dvd shmRequestRingOffset" "4 dvd shmResponseRingOffset req"
proof -
  show "sizeof_ShmControlBlock \<le> shmRequestRingOffset" "4 dvd shmRequestRingOffset"
    by (simp_all add: request_offsets sizeof_ShmControlBlock_def)
  show "shmRequestDataOffset + req \<le> shmResponseRingOffset req" "4 dvd shmResponseRingOffset req"
    using shmAlignUp_spec(1,3) [of 4 "shmRequestDataOffset + req"]
    by (simp_all add: shmResponseRingOffset_def alignof_ShmRingHeader_def)
  have n: "c \<le> shmNormalizeRingCapacity c" for c
    by (simp add: shmNormalizeRingCapacity_def)
  have "calculateShmSize req resp = shmResponseDataOffset (shmNormalizeRingCapacity req) + shmNormalizeRingCapacity resp"
    using assms by (auto simp: calculateShmSize_def Let_def split: if_splits)
  moreover have "shmResponseRingOffset req \<le> shmResponseRingOffset (shmNormalizeRingCapacity req)"
    unfolding shmResponseRingOffset_def by (intro shmAlignUp_mono) (simp add: n)
  ultimately show "shmResponseDataOffset req + resp \<le> calculateShmSize req resp"
    using n [of resp] by (simp add: shmResponseDataOffset_def)
qed

lemma load_store_same: "off + 4 \<le> length mem \<Longrightarrow> load32 (store32 off v mem) off = v"
  using of_le32_le32 [of v] by (simp add: load32_def store32_def nth_mem_put)

lemma load_store_other:
  "off + 4 \<le> length mem \<Longrightarrow> off' + 4 \<le> length mem \<Longrightarrow> off + 4 \<le> off' \<or> off' + 4 \<le> off \<Longrightarrow>
   load32 (store32 off v mem) off' = load32 mem off'"
  by (auto simp: load32_def store32_def nth_mem_put)

lemma length_store32 [simp]: "off + 4 \<le> length mem \<Longrightarrow> length (store32 off v mem) = length mem"
  by (simp add: store32_def)

lemma load_store_header:
  assumes "off + 16 \<le> length mem"
  shows "length (store_ring_header off cap mem) = length mem"
    "ring_header_at (store_ring_header off cap mem) off =
       \<lparr>rh_write_pos = 0, rh_read_pos = 0, rh_capacity = cap, rh_reserved = 0\<rparr>"
    "off' + 4 \<le> length mem \<Longrightarrow> off + 16 \<le> off' \<or> off' + 4 \<le> off \<Longrightarrow>
       load32 (store_ring_header off cap mem) off' = load32 mem off'"
  using assms by (auto simp: store_ring_header_def ring_header_at_def load_store_same load_store_other)

lemma ring_header_cong:
  "(\<And>i. i \<in> {0, 4, 8, 12} \<Longrightarrow> load32 mem' (off + i) = load32 mem (off + i)) \<Longrightarrow>
   ring_header_at mem' off = ring_header_at mem off"
  by (simp add: ring_header_at_def) (metis add_0_right)

lemma unat_u32_max: "unat (x :: u32) \<le> UINT32_MAX"
proof -
  have "unat x < 2 ^ LENGTH(32)" by (rule unsigned_less)
  then show ?thesis by (simp add: UINT32_MAX_def)
qed

text \<open>A mapping that was initialised with room for both rings validates, with those capacities.\<close>

lemma init_validates:
  assumes "length addr = mapped_size" "64 \<le> unat req" "64 \<le> unat resp"
    "calculateShmSize (unat req) (unat resp) \<le> mapped_size"
  shows "shmValidateMappedLayout (shmInitLayout req resp mapped_size addr) mapped_size = Some (req, resp)"
proof -
  let ?R = "shmResponseRingOffset (unat req)"
  note lim = unat_u32_max [of req] unat_u32_max [of resp]
  have norm: "shmNormalizeRingCapacity (unat req) = unat req" "shmNormalizeRingCapacity (unat resp) = unat resp"
    using assms by (simp_all add: shmNormalizeRingCapacity_def SHM_MIN_RING_CAPACITY_def)
  have up: "?R < 64 + unat req + 4"
    using shmAlignUp_spec(2) [of 4 "64 + unat req"] by (simp add: shmResponseRingOffset_def request_offsets alignof_ShmRingHeader_def)
  have size: "calculateShmSize (unat req) (unat resp) = ?R + 16 + unat resp"
    using lim up assms(2,3) by (simp add: calculateShmSize_def norm shmIsValidRingCapacity_def
        SHM_MIN_RING_CAPACITY_def shmResponseDataOffset_def sizeof_ShmRingHeader_def SIZE_MAX_def UINT32_MAX_def Let_def)
  have lo: "64 + unat req \<le> ?R"
    using shmAlignUp_spec(1) [of 4 "shmRequestDataOffset + unat req"]
    by (simp add: shmResponseRingOffset_def request_offsets alignof_ShmRingHeader_def)
  define m0 where "m0 = mem_put addr 0 (replicate mapped_size (0 :: byte))"
  have l0: "length m0 = mapped_size" using assms(1) by (simp add: m0_def)
  have big: "?R + 16 \<le> mapped_size" "128 \<le> mapped_size" using assms size lo by linarith+
  have rq: "req \<noteq> 0" "resp \<noteq> 0" using assms(2,3) by auto
  define m1 where "m1 = store32 12 resp (store32 8 req (store32 4 1 (store32 0 SHM_MAGIC m0)))"
  have l1: "length m1 = mapped_size" using big l0 by (simp add: m1_def)
  have c1: "load32 m1 0 = SHM_MAGIC" "load32 m1 4 = 1" "load32 m1 8 = req" "load32 m1 12 = resp"
    using big l0 by (simp_all add: m1_def load_store_same load_store_other)
  define m2 where "m2 = store_ring_header 48 req m1"
  have l2: "length m2 = mapped_size" using big l1 by (simp add: m2_def load_store_header)
  define m3 where "m3 = store_ring_header ?R resp m2"
  have l3: "length m3 = mapped_size" using big l2 by (simp add: m3_def load_store_header)
  have c2: "load32 m3 i = load32 m2 i" if "i + 4 \<le> ?R" for i
    using that big l2 by (simp add: m3_def load_store_header)
  have c3: "load32 m3 i = load32 m1 i" if "i + 4 \<le> 48" for i
    using that big lo l1 c2 by (simp add: m2_def load_store_header)
  have q: "ring_header_at m3 48 = \<lparr>rh_write_pos = 0, rh_read_pos = 0, rh_capacity = req, rh_reserved = 0\<rparr>"
  proof -
    have "ring_header_at m3 48 = ring_header_at m2 48" using c2 lo by (intro ring_header_cong) auto
    then show ?thesis using big l1 by (simp add: m2_def load_store_header)
  qed
  have p: "ring_header_at m3 ?R = \<lparr>rh_write_pos = 0, rh_read_pos = 0, rh_capacity = resp, rh_reserved = 0\<rparr>"
    using big l2 by (simp add: m3_def load_store_header)
  define m where "m = store32 16 1 m3"
  have o: "load32 m i = load32 m3 i" if "i + 4 \<le> 16 \<or> 20 \<le> i" "i + 4 \<le> mapped_size" for i
    using that big l3 by (auto simp: m_def load_store_other)
  have hd: "load32 m 0 = SHM_MAGIC" "load32 m 4 = 1" "load32 m 8 = req" "load32 m 12 = resp" "load32 m 16 = 1"
    using o c3 c1 big l3 by (simp_all add: m_def load_store_same)
  have rings: "ring_header_at m 48 = ring_header_at m3 48" "ring_header_at m ?R = ring_header_at m3 ?R"
    using o lo big by (auto intro!: ring_header_cong)
  have init: "shmInitLayout req resp mapped_size addr = m"
    using big by (simp add: shmInitLayout_def Let_def m_def m3_def m2_def m1_def m0_def request_offsets)
  have "\<not> req \<le> 0" "\<not> resp \<le> 0" using rq by simp_all
  with big assms(4) size show ?thesis
    by (simp add: shmValidateMappedLayout_def init Let_def request_offsets sizeof_ShmControlBlock_def
        hd rings q p)
qed

text \<open>Conversely, a mapping that validates has both rings, header and data, inside the mapping.\<close>

lemma validated_in_bounds:
  assumes "shmValidateMappedLayout addr mapped_size = Some (req, resp)"
  shows "shmRequestDataOffset + unat req \<le> shmResponseRingOffset (unat req)"
    "shmResponseDataOffset (unat req) + unat resp \<le> mapped_size"
    "rh_capacity (ring_header_at addr shmRequestRingOffset) = req"
    "rh_read_pos (ring_header_at addr shmRequestRingOffset) < req"
    "rh_write_pos (ring_header_at addr shmRequestRingOffset) < req"
    "rh_capacity (ring_header_at addr (shmResponseRingOffset (unat req))) = resp"
    "rh_read_pos (ring_header_at addr (shmResponseRingOffset (unat req))) < resp"
    "rh_write_pos (ring_header_at addr (shmResponseRingOffset (unat req))) < resp"
proof -
  have c: "calculateShmSize (unat req) (unat resp) \<noteq> 0" "calculateShmSize (unat req) (unat resp) \<le> mapped_size"
    and h: "rh_capacity (ring_header_at addr shmRequestRingOffset) = req"
    "rh_read_pos (ring_header_at addr shmRequestRingOffset) < req"
    "rh_write_pos (ring_header_at addr shmRequestRingOffset) < req"
    "rh_capacity (ring_header_at addr (shmResponseRingOffset (unat req))) = resp"
    "rh_read_pos (ring_header_at addr (shmResponseRingOffset (unat req))) < resp"
    "rh_write_pos (ring_header_at addr (shmResponseRingOffset (unat req))) < resp"
    using assms by (auto simp: shmValidateMappedLayout_def Let_def linorder_not_le split: if_splits)
  note r = calculateShmSize_regions [OF c(1)]
  show "shmRequestDataOffset + unat req \<le> shmResponseRingOffset (unat req)"
    "shmResponseDataOffset (unat req) + unat resp \<le> mapped_size" using r c(2) by linarith+
qed (use assms in \<open>auto simp: shmValidateMappedLayout_def Let_def linorder_not_le split: if_splits\<close>)

subsection \<open>Names\<close>

definition hex_digit :: "nat \<Rightarrow> char" where
  "hex_digit n = ''0123456789abcdef'' ! n"

text \<open>\<open>os << std::hex << n\<close>.\<close>

fun hex :: "nat \<Rightarrow> string" where
  "hex n = (if n < 16 then [hex_digit n] else hex (n div 16) @ [hex_digit (n mod 16)])"

declare hex.simps [simp del]

definition shm_hash_input :: "string \<Rightarrow> string \<Rightarrow> string \<Rightarrow> string" where
  "shm_hash_input service_name instance_id host_id =
     (let hash_input = service_name;
          hash_input = (if host_id \<noteq> [] then hash_input @ [US] @ host_id else hash_input)
      in if instance_id \<noteq> [] then hash_input @ [US] @ instance_id else hash_input)"

definition generateShmName :: "string \<Rightarrow> string \<Rightarrow> string \<Rightarrow> string" where
  "generateShmName service_name instance_id host_id =
     ''/binder_'' @ take 48 service_name @ ''_'' @
       hex (unat (fnv1a_32 (shm_hash_input service_name instance_id host_id)))"

definition shmHandshakePath :: "string \<Rightarrow> string" where
  "shmHandshakePath shm_name = ''/tmp/omni_'' @ hex (unat (fnv1a_32 shm_name)) @ ''.sock''"

lemma length_hex: "n < 16 ^ Suc k \<Longrightarrow> length (hex n) \<le> Suc k"
proof (induction k arbitrary: n)
  case (Suc k)
  show ?case
  proof (cases "n < 16")
    case False
    have "n div 16 < 16 ^ Suc k" using Suc.prems by (simp add: less_mult_imp_div_less)
    from Suc.IH [OF this] False show ?thesis by (simp add: hex.simps [of n])
  qed (simp add: hex.simps)
qed (simp add: hex.simps)

lemma length_hex_u32: "length (hex (unat (w :: u32))) \<le> 8"
proof -
  have "unat w < 2 ^ LENGTH(32)" by (rule unsigned_less)
  then have "unat w < 16 ^ Suc 7" by simp
  then show ?thesis using length_hex by fastforce
qed

text \<open>
  Names and paths stay below the limits of POSIX names (255) and \<open>sun_path\<close> (108), whatever the
  service name.
\<close>

lemma shm_names_bounded:
  "length (generateShmName service_name instance_id host_id) \<le> 65"
  "length (shmHandshakePath shm_name) \<le> 23"
  using length_hex_u32 [of "fnv1a_32 (shm_hash_input service_name instance_id host_id)"]
    length_hex_u32 [of "fnv1a_32 shm_name"]
  by (simp_all add: generateShmName_def shmHandshakePath_def)

end
