(* ===== verification/MessageReader.thy ===== *)
theory MessageReader
  imports OmniMessage
begin

section \<open>Reading messages from a connection\<close>

text \<open>
  \<open>readNextMessage\<close> of src/core/message_reader.cpp, the one routine every inbound path uses, on a
  framed connection (shared memory) and on a byte stream (TCP). The connection is the virtual
  interface \<open>IMessageConnection\<close>: a record of the operations the routine calls, on a state of the
  connection's own. \<open>recv n\<close> returns the C result with the bytes it stored.

  The stream loop ends on every connection: each turn that does not return adds at least one byte
  to the buffer, and the buffer is limited by \<open>MAX_MESSAGE_SIZE\<close>.
\<close>

record 's IMessageConnection =
  t_isFramed :: bool
  t_consumeReadiness :: "'s \<Rightarrow> 's"
  t_peekFrameSize :: "'s \<Rightarrow> int \<times> nat \<times> 's"
  t_recv :: "nat \<Rightarrow> 's \<Rightarrow> int \<times> bytes \<times> 's"

type_synonym 's read_state = "Buffer \<times> Message \<times> 's"

text \<open>
  \<open>out.header = header; out.payload.clear(); if (header.length > 0) out.payload.assign(...)\<close>; the
  flag is \<open>writeOk\<close>.
\<close>

definition take_message :: "allocator \<Rightarrow> MessageHeader \<Rightarrow> bytes \<Rightarrow> nat \<Rightarrow> Message \<Rightarrow> bool \<times> Message" where
  "take_message alloc header data off out =
     (let payload = Buffer_clear (m_payload out);
          payload = (if 0 < h_length header
                     then Buffer_assign alloc (mem_get data off (unat (h_length header))) payload
                     else payload)
      in (Buffer_writeOk payload, \<lparr>m_header = header, m_payload = payload\<rparr>))"

definition read_framed ::
    "'s IMessageConnection \<Rightarrow> allocator \<Rightarrow> 's read_state \<Rightarrow> int \<times> 's read_state" where
  "read_framed tr alloc st =
     (case st of (recv_buffer, out, s) \<Rightarrow>
      case t_peekFrameSize tr s of (ready, frame_size, s) \<Rightarrow>
      if ready \<le> 0 then (ready, recv_buffer, out, s)
      else if frame_size < MESSAGE_HEADER_SIZE \<or> MAX_MESSAGE_SIZE < frame_size
      then (-1, recv_buffer, out, s)
      else
        let recv_buffer = Buffer_resize alloc frame_size recv_buffer in
        if b_capacity recv_buffer < frame_size then (-1, recv_buffer, out, s)
        else
          case t_recv tr frame_size s of (ret, bytes, s) \<Rightarrow>
          let recv_buffer = recv_buffer\<lparr>b_data := mem_put (b_data recv_buffer) 0 bytes\<rparr> in
          if ret \<le> 0 then (ret, recv_buffer, out, s)
          else if nat ret \<noteq> frame_size then (-1, recv_buffer, out, s)
          else
            case Message_parseHeader (b_data recv_buffer) frame_size of
              None \<Rightarrow> (-1, recv_buffer, out, s)
            | Some header \<Rightarrow>
                if \<not> Message_validateHeader header
                   \<or> unat (h_length header) \<noteq> frame_size - MESSAGE_HEADER_SIZE
                then (-1, recv_buffer, out, s)
                else
                  case take_message alloc header (b_data recv_buffer) MESSAGE_HEADER_SIZE out of
                    (False, out) \<Rightarrow> (-1, recv_buffer, out, s)
                  | (True, out) \<Rightarrow> (1, recv_buffer, out, s))"

text \<open>The part of a turn before the receive: \<open>Some r\<close> returns, \<open>None\<close> goes on to \<open>recv\<close>.\<close>

definition extract_buffered ::
    "allocator \<Rightarrow> Buffer \<Rightarrow> Message \<Rightarrow> (int \<times> Buffer \<times> Message) option" where
  "extract_buffered alloc recv_buffer out =
     (let pos = b_read_pos recv_buffer;
          avail = Buffer_size recv_buffer - pos;
          status = (if avail = 0 then NeedMore
                    else tryExtractFrame (drop pos (b_data recv_buffer)) avail)
      in case status of
           Complete header frame_size \<Rightarrow>
             (case take_message alloc header (b_data recv_buffer) (pos + MESSAGE_HEADER_SIZE) out of
                (False, out) \<Rightarrow> Some (-1, recv_buffer, out)
              | (True, out) \<Rightarrow>
                  (case Buffer_trySetReadPosition (pos + frame_size) recv_buffer of
                     (False, recv_buffer) \<Rightarrow> Some (-1, recv_buffer, out)
                   | (True, recv_buffer) \<Rightarrow> Some (1, Buffer_compact recv_buffer, out)))
         | Corrupt \<Rightarrow> Some (-1, recv_buffer, out)
         | NeedMore \<Rightarrow> None)"

lemma Buffer_reserve_cursors [simp]:
  "b_write_pos (Buffer_reserve alloc n b) = b_write_pos b"
  "b_read_pos (Buffer_reserve alloc n b) = b_read_pos b"
  by (simp_all add: Buffer_reserve_def Buffer_grow_def Let_def split: option.splits)

lemma Buffer_writableTail_cursors:
  "Buffer_writableTail alloc b = (r, b') \<Longrightarrow> b_write_pos b' = b_write_pos b \<and> b_read_pos b' = b_read_pos b"
  by (auto simp: Buffer_writableTail_def Let_def split: if_splits)

function read_stream ::
    "'s IMessageConnection \<Rightarrow> allocator \<Rightarrow> Buffer \<Rightarrow> Message \<Rightarrow> 's \<Rightarrow> int \<times> 's read_state" where
  "read_stream tr alloc recv_buffer out s =
     (case extract_buffered alloc recv_buffer out of
        Some (r, recv_buffer', out') \<Rightarrow> (r, recv_buffer', out', s)
      | None \<Rightarrow>
          case Buffer_writableTail alloc recv_buffer of
            (None, b1) \<Rightarrow> (-1, b1, out, s)
          | (Some space, b1) \<Rightarrow>
              case t_recv tr space s of (ret, bytes, s') \<Rightarrow>
              let b2 = Buffer_fillTail bytes b1 in
              if ret \<le> 0 then (ret, b2, out, s')
              else if MAX_MESSAGE_SIZE < Buffer_remaining b2 + nat ret then (-1, b2, out, s')
              else
                case Buffer_commitWritten (nat ret) b2 of
                  (False, b3) \<Rightarrow> (-1, b3, out, s')
                | (True, b3) \<Rightarrow> read_stream tr alloc b3 out s')"
  by pat_completeness auto

text \<open>Each turn adds \<open>ret > 0\<close> bytes and stays below the limit.\<close>

lemma commit_decreases:
  assumes "Buffer_writableTail alloc b = (Some space, b1)" "\<not> ret \<le> 0"
    "\<not> MAX_MESSAGE_SIZE < Buffer_remaining (Buffer_fillTail bytes b1) + nat ret"
    "Buffer_commitWritten (nat ret) (Buffer_fillTail bytes b1) = (True, b3)"
  shows "MAX_MESSAGE_SIZE + b_read_pos b3 - b_write_pos b3 < MAX_MESSAGE_SIZE + b_read_pos b - b_write_pos b"
proof -
  have b1: "b_write_pos b1 = b_write_pos b" "b_read_pos b1 = b_read_pos b"
    using Buffer_writableTail_cursors [OF assms(1)] by auto
  have b3: "b_write_pos b3 = b_write_pos b + nat ret" "b_read_pos b3 = b_read_pos b"
    using assms(4) b1 by (auto simp: Buffer_commitWritten_def Buffer_fillTail_def split: if_splits)
  have "b_write_pos b - b_read_pos b + nat ret \<le> MAX_MESSAGE_SIZE"
    using assms(3) b1 by (simp add: Buffer_remaining_def Buffer_fillTail_def)
  with b3 assms(2) show ?thesis by linarith
qed

termination read_stream
  by (relation "measure (\<lambda>(tr, alloc, b, out, s). MAX_MESSAGE_SIZE + b_read_pos b - b_write_pos b)")
    (auto dest: commit_decreases [OF sym _ _ sym])

declare read_stream.simps [simp del]

definition readNextMessage ::
    "'s IMessageConnection \<Rightarrow> allocator \<Rightarrow> 's read_state \<Rightarrow> int \<times> 's read_state" where
  "readNextMessage tr alloc st =
     (case st of (recv_buffer, out, s) \<Rightarrow>
        let s = t_consumeReadiness tr s in
        if t_isFramed tr then read_framed tr alloc (recv_buffer, out, s)
        else read_stream tr alloc recv_buffer out s)"

subsection \<open>The receive buffer\<close>

text \<open>
  The buffer of a stream connection starts empty and doubles, so its capacity is zero or
  \<open>4096 * 2 ^ k\<close>. The largest frame has \<open>2 ^ 24\<close> bytes, which is one of these capacities: the
  buffer never grows beyond it while it holds frames, and the overflow exit of the loop is not taken.
\<close>

definition cap_ok :: "nat \<Rightarrow> bool" where
  "cap_ok c \<longleftrightarrow> c = 0 \<or> (\<exists>k \<le> 12. c = 4096 * 2 ^ k)"

definition recv_ok :: "Buffer \<Rightarrow> bool" where
  "recv_ok b \<longleftrightarrow> Buffer_wf b \<and> \<not> b_write_failed b \<and> b_read_pos b = 0 \<and> cap_ok (b_capacity b)"

lemma recv_ok_empty [simp]: "recv_ok Buffer_empty"
  by (simp add: recv_ok_def cap_ok_def Buffer_empty_def Buffer_wf_def)

lemma cap_ok_limit: "cap_ok c \<Longrightarrow> c \<le> MAX_MESSAGE_SIZE"
proof -
  assume "cap_ok c"
  then consider "c = 0" | k where "k \<le> 12" "c = 4096 * 2 ^ k" by (auto simp: cap_ok_def)
  then show ?thesis
  proof cases
    case 2
    then have "(2::nat) ^ k \<le> 2 ^ 12" by (intro power_increasing) simp_all
    with 2 show ?thesis by (simp add: MAX_MESSAGE_SIZE_def)
  qed simp
qed

lemma cap_ok_double: "cap_ok c \<Longrightarrow> c < MAX_MESSAGE_SIZE \<Longrightarrow> cap_ok (if c = 0 then 4096 else c * 2)"
proof -
  assume c: "cap_ok c" "c < MAX_MESSAGE_SIZE"
  show ?thesis
  proof (cases "c = 0")
    case True
    then show ?thesis by (auto simp: cap_ok_def intro: exI [of _ 0])
  next
    case False
    with c(1) obtain k where k: "k \<le> 12" "c = 4096 * 2 ^ k" by (auto simp: cap_ok_def)
    have "k \<noteq> 12" using c(2) k by (auto simp: MAX_MESSAGE_SIZE_def)
    with k have "Suc k \<le> 12" "c * 2 = 4096 * 2 ^ Suc k" by auto
    then have "cap_ok (c * 2)" unfolding cap_ok_def by blast
    with False show ?thesis by simp
  qed
qed

lemma reserve_one_more:
  assumes "alloc_total alloc" "recv_ok b" "b_write_pos b = b_capacity b" "b_capacity b < MAX_MESSAGE_SIZE"
  shows "recv_ok (Buffer_reserve alloc (b_write_pos b + 1) b)"
proof -
  let ?c = "b_capacity b" and ?n = "if b_capacity b = 0 then 4096 else b_capacity b * 2"
  have ok: "alloc_ok alloc" "Buffer_wf b" using assms(1,2) by (simp_all add: alloc_total_def recv_ok_def)
  have small: "\<not> SIZE_MAX div 2 < ?c" "?n \<le> SIZE_MAX"
    using assms(4) by (simp_all add: MAX_MESSAGE_SIZE_def SIZE_MAX_def)
  have "grow_capacity ?n (?c + 1) = Some ?n" by (simp add: grow_capacity.simps)
  moreover obtain blk where "alloc ?n = Some blk"
    using assms(1) small(2) unfolding alloc_total_def by blast
  ultimately have g: "Buffer_reserve alloc (b_write_pos b + 1) b =
      b\<lparr>b_data := mem_put blk 0 (take (b_write_pos b) (b_data b)), b_capacity := ?n\<rparr>"
    using assms(3) small(1)
    by (cases "b_capacity b = 0") (simp_all add: Buffer_reserve_def Buffer_grow_def DEFAULT_BUFFER_SIZE_def)
  have wf: "Buffer_wf (Buffer_reserve alloc (b_write_pos b + 1) b)"
    using realloc_ofD(1) [OF Buffer_reserve_realloc [OF ok]] .
  with g assms(2) cap_ok_double [OF _ assms(4)] show ?thesis by (simp add: recv_ok_def)
qed

lemma tail_of_recv_ok:
  assumes "alloc_total alloc" "recv_ok b" "b_write_pos b < MAX_MESSAGE_SIZE"
  obtains space b1 where "Buffer_writableTail alloc b = (Some space, b1)" "recv_ok b1" "0 < space"
    "Buffer_content b1 = Buffer_content b" "space = b_capacity b1 - b_write_pos b1"
proof -
  have ok: "alloc_ok alloc" "Buffer_wf b" using assms(1,2) by (simp_all add: alloc_total_def recv_ok_def)
  have lim: "b_write_pos b < SIZE_MAX" using assms(3) by (simp add: MAX_MESSAGE_SIZE_def SIZE_MAX_def)
  define b1 where "b1 = (if b_write_pos b = b_capacity b then Buffer_reserve alloc (b_write_pos b + 1) b else b)"
  have b1: "recv_ok b1" using reserve_one_more [OF assms(1,2)] assms(2,3) by (simp add: b1_def)
  then have t: "Buffer_writableTail alloc b = (Some (b_capacity b1 - b_write_pos b1), b1)"
    using assms(2) lim
    by (cases "b_write_pos b = b_capacity b") (simp_all add: Buffer_writableTail_def Let_def b1_def recv_ok_def)
  note spec = Buffer_writableTail_spec [OF ok t]
  show thesis using that [OF t b1] spec lim by simp
qed

subsection \<open>Messages received\<close>

definition received :: "Message \<Rightarrow> Message \<Rightarrow> bool" where
  "received m out \<longleftrightarrow> m_header out = frame_header m \<and> Buffer_wf (m_payload out) \<and>
     Buffer_content (m_payload out) = Buffer_content (m_payload m) \<and> b_read_pos (m_payload out) = 0 \<and>
     \<not> b_write_failed (m_payload out)"

text \<open>A message that can be sent: within the size limit and with the protocol's magic.\<close>

definition sendable :: "Message \<Rightarrow> bool" where
  "sendable m \<longleftrightarrow> frame_ok m \<and> h_magic (m_header m) = OMNI_MAGIC"

lemma take_message_received:
  assumes "alloc_total alloc" "sendable m" "Buffer_wf (m_payload out)"
    "mem_get data off (Buffer_size (m_payload m)) = Buffer_content (m_payload m)"
  shows "\<exists>out'. take_message alloc (frame_header m) data off out = (True, out') \<and> received m out'"
proof -
  let ?p = "Buffer_clear (m_payload out)" and ?src = "Buffer_content (m_payload m)"
  have fo: "frame_ok m" using assms(2) by (simp add: sendable_def)
  have len: "unat (h_length (frame_header m)) = Buffer_size (m_payload m)"
    using frame_size_u32 [OF fo] by (simp add: frame_header_def)
  have wf: "Buffer_wf ?p" using assms(3) by simp
  have al: "alloc_ok alloc" using assms(1) by (simp add: alloc_total_def)
  show ?thesis
  proof (cases "0 < h_length (frame_header m)")
    case True
    have "length ?src \<le> 2 ^ 63"
      using fo by (simp add: frame_ok_def Buffer_size_def MAX_MESSAGE_SIZE_def MESSAGE_HEADER_SIZE_def)
    note a = Buffer_assign_total [OF assms(1) wf this]
    with Buffer_assign_wf [OF al wf, of ?src] True show ?thesis
      by (simp add: take_message_def len assms(4) received_def Buffer_writeOk_def)
  next
    case False
    then have "Buffer_size (m_payload m) = 0" using len by (simp add: word_neq_0_conv [symmetric])
    then have "?src = []" by (simp add: Buffer_content_def Buffer_size_def)
    with False wf show ?thesis by (simp add: take_message_def received_def Buffer_writeOk_def)
  qed
qed

lemma frame_bytes_limit: "sendable m \<Longrightarrow> length (frame_bytes m) \<le> MAX_MESSAGE_SIZE"
  using length_frame_bytes [of m]
  by (auto simp: sendable_def frame_ok_def MAX_MESSAGE_SIZE_def MESSAGE_HEADER_SIZE_def)

lemma Buffer_fillTail_Nil [simp]: "Buffer_fillTail [] b = b"
  by (simp add: Buffer_fillTail_def)

text \<open>The bytes from the buffer on, as the peer sent them.\<close>

lemma extract_buffered_stream:
  assumes al: "alloc_total alloc" and b: "recv_ok b" and out: "Buffer_wf (m_payload out)"
    and ms: "\<forall>m \<in> set ms. sendable m"
    and str: "Buffer_content b @ later = concat (map frame_bytes ms)"
  shows "case extract_buffered alloc b out of
      None \<Rightarrow> ms = [] \<or> length (Buffer_content b) < length (frame_bytes (hd ms))
    | Some (r, b', out') \<Rightarrow> \<exists>m ms'. ms = m # ms' \<and> r = 1 \<and> received m out' \<and> recv_ok b' \<and>
        Buffer_content b' @ later = concat (map frame_bytes ms')"
proof (cases ms)
  case Nil
  then have "Buffer_content b = []" using str by simp
  then have "b_write_pos b = 0" using b length_Buffer_content by (fastforce simp: recv_ok_def)
  with Nil show ?thesis by (simp add: extract_buffered_def Buffer_size_def)
next
  case (Cons m ms')
  have wf: "Buffer_wf b" "b_read_pos b = 0" "\<not> b_write_failed b" using b by (auto simp: recv_ok_def)
  have m: "sendable m" "frame_ok m" "h_magic (m_header m) = OMNI_MAGIC"
    using ms Cons by (auto simp: sendable_def)
  let ?w = "b_write_pos b" and ?f = "frame_bytes m"
  have avail: "?w \<le> length (b_data b)" using wf by (simp add: Buffer_wf_def)
  have lw: "length (Buffer_content b) = ?w" using wf by simp
  have pre: "take ?w (b_data b) = take ?w (?f @ concat (map frame_bytes ms'))"
    using str Cons lw by (metis Buffer_content_def append_eq_conv_conj concat.simps(2) list.map(2))
  note ext = extract_frame [OF m(2,3) pre avail]
  have lenf: "length ?f = MESSAGE_HEADER_SIZE + Buffer_size (m_payload m)" by (rule length_frame_bytes [OF m(2)])
  show ?thesis
  proof (cases "?w < length ?f")
    case True
    then have "extract_buffered alloc b out = None"
      using ext by (simp add: extract_buffered_def wf Buffer_size_def)
    with True Cons lw show ?thesis by simp
  next
    case False
    then have w0: "?w \<noteq> 0" using lenf by (auto simp: MESSAGE_HEADER_SIZE_def)
    have c: "Buffer_content b = ?f @ drop (length ?f) (Buffer_content b)"
    proof -
      have "take (length ?f) (Buffer_content b) = ?f"
        using False pre by (simp add: Buffer_content_def)
      then show ?thesis by (metis append_take_drop_id)
    qed
    have "mem_get (b_data b) MESSAGE_HEADER_SIZE (Buffer_size (m_payload m)) =
        mem_get (Buffer_content b) MESSAGE_HEADER_SIZE (Buffer_size (m_payload m))"
      using False lenf by (simp add: mem_get_def Buffer_content_def drop_take min_def)
    also have "\<dots> = Buffer_content (m_payload m)"
      using m(2) by (subst c) (simp add: mem_get_def frame_bytes_def frame_ok_def Buffer_size_def)
    finally obtain out' where o: "take_message alloc (frame_header m) (b_data b) MESSAGE_HEADER_SIZE out = (True, out')"
      "received m out'" using take_message_received [OF al m(1) out] by blast
    let ?b1 = "b\<lparr>b_read_pos := length ?f\<rparr>"
    have wf1: "Buffer_wf ?b1" using wf False by (simp add: Buffer_wf_def)
    note cc = Buffer_compact_content [OF wf1]
    have "extract_buffered alloc b out = Some (1, Buffer_compact ?b1, out')"
      using ext False w0 o(1) by (simp add: extract_buffered_def wf Buffer_size_def Buffer_trySetReadPosition_def)
    moreover have "recv_ok (Buffer_compact ?b1)"
      using cc b by (simp add: recv_ok_def) (simp add: Buffer_compact_def Let_def)
    moreover have "Buffer_content (Buffer_compact ?b1) @ later = concat (map frame_bytes ms')"
      using cc(2) str Cons c by (simp add: Buffer_content_def) (metis append.assoc append_same_eq same_append_eq)
    ultimately show ?thesis using Cons o(2) by simp
  qed
qed

subsection \<open>Byte streams\<close>

text \<open>
  A run of receives that all return bytes, and the bytes they return.
\<close>

inductive recv_run :: "'s IMessageConnection \<Rightarrow> 's \<Rightarrow> bytes \<Rightarrow> 's \<Rightarrow> bool"
  for tr :: "'s IMessageConnection" where
  recv_none: "recv_run tr s [] s"
| recv_some: "0 < n \<Longrightarrow> t_recv tr n s = (ret, bytes, s1) \<Longrightarrow> 0 < ret \<Longrightarrow> recv_run tr s1 bs s' \<Longrightarrow>
    recv_run tr s (bytes @ bs) s'"

lemma recv_run_trans: "recv_run tr s bs s1 \<Longrightarrow> recv_run tr s1 bs' s2 \<Longrightarrow> recv_run tr s (bs @ bs') s2"
  by (induction rule: recv_run.induct) (auto intro: recv_some)

text \<open>
  How a call with the message \<open>m\<close> ends: the bytes it began with and those it received are the frame of
  \<open>m\<close> and what is left in the buffer.
\<close>

definition recv_framed ::
    "'s IMessageConnection \<Rightarrow> Buffer \<Rightarrow> 's \<Rightarrow> Message \<Rightarrow> Buffer \<Rightarrow> 's \<Rightarrow> bool" where
  "recv_framed tr b s m b' s' \<longleftrightarrow>
     (\<exists>bs. recv_run tr s bs s' \<and> Buffer_content b @ bs = frame_bytes m @ Buffer_content b')"

lemma recv_framed_step:
  assumes "0 < n" "t_recv tr n s = (ret, bytes, s1)" "0 < ret" "Buffer_content b1 = Buffer_content b @ bytes"
    and "recv_framed tr b1 s1 m b' s'"
  shows "recv_framed tr b s m b' s'"
proof -
  from assms(5) obtain bs where "recv_run tr s1 bs s'" "Buffer_content b1 @ bs = frame_bytes m @ Buffer_content b'"
    unfolding recv_framed_def by blast
  with recv_some [OF assms(1-3)] assms(4) show ?thesis
    unfolding recv_framed_def by (intro exI [of _ "bytes @ bs"]) simp
qed

text \<open>
  How a call without a message ends: it received as long as \<open>recv\<close> returned bytes, which are in the
  buffer behind those it began with, and then returned what \<open>recv\<close> reported, in the state \<open>recv\<close> left.
\<close>

definition recv_ended ::
    "'s IMessageConnection \<Rightarrow> Buffer \<Rightarrow> 's \<Rightarrow> int \<Rightarrow> Buffer \<Rightarrow> 's \<Rightarrow> bool" where
  "recv_ended tr b s r b' s' \<longleftrightarrow>
     (\<exists>bs s1 n. recv_run tr s bs s1 \<and> Buffer_content b' = Buffer_content b @ bs \<and>
        0 < n \<and> t_recv tr n s1 = (r, [], s'))"

lemma recv_ended_step:
  assumes "0 < n" "t_recv tr n s = (ret, bytes, s1)" "0 < ret" "Buffer_content b1 = Buffer_content b @ bytes"
    and "recv_ended tr b1 s1 r b' s'"
  shows "recv_ended tr b s r b' s'"
proof -
  from assms(5) obtain bs s2 m where m: "recv_run tr s1 bs s2" "Buffer_content b' = Buffer_content b1 @ bs"
    "0 < m" "t_recv tr m s2 = (r, [], s')" unfolding recv_ended_def by blast
  from recv_some [OF assms(1-3) m(1)] m assms(4) show ?thesis
    unfolding recv_ended_def by (intro exI [of _ "bytes @ bs"] exI [of _ s2] exI [of _ m]) simp
qed

text \<open>
  The outcome of a call on a stream that carries the frames of \<open>ms\<close>, of which \<open>unsent\<close> bytes are
  still to come: the first message, and the stream goes on behind its frame; or nothing yet (0) or
  an error (negative), which the receive that followed the buffered bytes reported, with every byte
  kept and no complete frame buffered.
\<close>

definition stream_result ::
    "'s IMessageConnection \<Rightarrow> ('s \<Rightarrow> bytes) \<Rightarrow> Message list \<Rightarrow> bytes \<Rightarrow> Buffer \<Rightarrow> 's \<Rightarrow> int \<times> 's read_state \<Rightarrow> bool" where
  "stream_result tr inflight ms unsent b s res \<longleftrightarrow>
     (case res of (r, b', out', s') \<Rightarrow>
       (r = 1 \<and> (\<exists>m ms'. ms = m # ms' \<and> received m out' \<and> recv_ok b' \<and> recv_framed tr b s m b' s' \<and>
            Buffer_content b' @ inflight s' @ unsent = concat (map frame_bytes ms'))) \<or>
       (r \<le> 0 \<and> recv_ok b' \<and> Buffer_wf (m_payload out') \<and>
            Buffer_content b' @ inflight s' @ unsent = concat (map frame_bytes ms) \<and>
            (ms = [] \<or> length (Buffer_content b') < length (frame_bytes (hd ms))) \<and>
            recv_ended tr b s r b' s'))"

text \<open>
  What \<open>readNextMessage\<close> relies on from a stream connection. \<open>inflight s\<close> are the bytes the peer
  has sent and \<open>recv\<close> has not returned: a receive returns some of them, in order, or nothing for
  now (0), or an error of the connection (negative), which takes none.
\<close>

locale byte_stream =
  fixes tr :: "'s IMessageConnection" and inflight :: "'s \<Rightarrow> bytes"
  assumes stream: "\<not> t_isFramed tr"
    and consume: "t_consumeReadiness tr s = s"
    and recv: "0 < n \<Longrightarrow> t_recv tr n s = (ret, bytes, s') \<Longrightarrow>
      (if ret < 0 then bytes = [] \<and> inflight s' = inflight s
       else ret = int (length bytes) \<and> length bytes \<le> n \<and> inflight s = bytes @ inflight s')"
begin

lemma read_stream_correct:
  assumes al: "alloc_total alloc" and out: "Buffer_wf (m_payload out)" and ms: "\<forall>m \<in> set ms. sendable m"
  shows "recv_ok b \<Longrightarrow> Buffer_content b @ inflight s @ unsent = concat (map frame_bytes ms) \<Longrightarrow>
    stream_result tr inflight ms unsent b s (read_stream tr alloc b out s)"
proof (induction "MAX_MESSAGE_SIZE - b_write_pos b" arbitrary: b s rule: less_induct)
  case less
  note ext = extract_buffered_stream [OF al less.prems(1) out ms less.prems(2)]
  show ?case
  proof (cases "extract_buffered alloc b out")
    case (Some x)
    obtain r b' out' where x: "x = (r, b', out')" by (metis prod_cases3)
    from ext Some x obtain m ms' where m: "ms = m # ms'" "r = 1" "received m out'" "recv_ok b'"
      "Buffer_content b' @ inflight s @ unsent = concat (map frame_bytes ms')" by auto
    have "Buffer_content b @ inflight s @ unsent = (frame_bytes m @ Buffer_content b') @ inflight s @ unsent"
      using less.prems(2) m(1,5) by simp
    then have "recv_framed tr b s m b' s" unfolding recv_framed_def by (intro exI [of _ "[]"]) (simp add: recv_none)
    with Some x m show ?thesis by (simp add: read_stream.simps [of tr alloc b] stream_result_def)
  next
    case None
    with ext have part: "ms = [] \<or> length (Buffer_content b) < length (frame_bytes (hd ms))" by simp
    have wf: "Buffer_wf b" using less.prems(1) by (simp add: recv_ok_def)
    have w: "b_write_pos b < MAX_MESSAGE_SIZE"
    proof (cases ms)
      case Nil
      then have "Buffer_content b = []" using less.prems(2) by simp
      with wf length_Buffer_content [OF wf] show ?thesis by (simp add: MAX_MESSAGE_SIZE_def)
    next
      case (Cons m ms')
      then have "length (frame_bytes m) \<le> MAX_MESSAGE_SIZE" using ms frame_bytes_limit by simp
      with part Cons wf show ?thesis by simp
    qed
    obtain space b1 where t: "Buffer_writableTail alloc b = (Some space, b1)" "recv_ok b1" "0 < space"
      "Buffer_content b1 = Buffer_content b" "space = b_capacity b1 - b_write_pos b1"
      using tail_of_recv_ok [OF al less.prems(1) w] .
    have wf1: "Buffer_wf b1" "\<not> b_write_failed b1" "b_read_pos b1 = 0" using t(2) by (auto simp: recv_ok_def)
    have w1: "b_write_pos b1 = b_write_pos b" using wf wf1(1) t(4) by (metis length_Buffer_content)
    obtain ret bytes s' where r: "t_recv tr space s = (ret, bytes, s')" by (metis prod_cases3)
    note rc = recv [OF t(3) r]
    have cap: "b_capacity b1 \<le> MAX_MESSAGE_SIZE" using t(2) cap_ok_limit by (simp add: recv_ok_def)
    show ?thesis
    proof (cases "0 < ret")
      case False
      with rc have "bytes = []" "inflight s' = inflight s" by (auto split: if_splits)
      moreover have "recv_ended tr b s ret b1 s'"
        unfolding recv_ended_def using r t(3,4) calculation(1)
        by (intro exI [of _ "[]"] exI [of _ s] exI [of _ space]) (simp add: recv_none)
      ultimately show ?thesis using False None t r part less.prems(2) out
        by (simp add: read_stream.simps [of tr alloc b] stream_result_def)
    next
      case 3: True
      then have bs: "nat ret = length bytes" "length bytes \<le> space" "inflight s = bytes @ inflight s'"
        "0 < length bytes" using rc by auto
      define b3 where "b3 = b1\<lparr>b_data := mem_put (b_data b1) (b_write_pos b1) bytes,
                               b_write_pos := b_write_pos b1 + length bytes\<rparr>"
      have room: "length bytes \<le> b_capacity b1 - b_write_pos b1" using bs(2) t(5) by simp
      then have c3: "Buffer_commitWritten (length bytes) (Buffer_fillTail bytes b1) = (True, b3)"
        using wf1 by (simp add: Buffer_commitWritten_def Buffer_fillTail_def b3_def)
      then have b3: "recv_ok b3" "Buffer_content b3 = Buffer_content b @ bytes"
        using Buffer_commit_fill [OF wf1(1,2) room] t(2,4) by (auto simp: recv_ok_def b3_def)
      have w3: "b_write_pos b3 = b_write_pos b + length bytes" using w1 by (simp add: b3_def)
      have "\<not> MAX_MESSAGE_SIZE < Buffer_remaining (Buffer_fillTail bytes b1) + length bytes"
        using room cap wf1 by (auto simp: Buffer_remaining_def Buffer_fillTail_def Buffer_wf_def)
      with 3 None t r bs(1) c3 have eq: "read_stream tr alloc b out s = read_stream tr alloc b3 out s'"
        by (simp add: read_stream.simps [of tr alloc b])
      have "MAX_MESSAGE_SIZE - b_write_pos b3 < MAX_MESSAGE_SIZE - b_write_pos b"
        using bs(4) w3 w by linarith
      then have "stream_result tr inflight ms unsent b3 s' (read_stream tr alloc b3 out s')"
        using less.prems(2) b3 bs(3) by (intro less.hyps) auto
      with eq recv_ended_step [OF t(3) r 3 b3(2)] recv_framed_step [OF t(3) r 3 b3(2)] show ?thesis
        by (auto simp: stream_result_def split: prod.splits)
    qed
  qed
qed

lemma readNextMessage_correct:
  assumes "alloc_total alloc" "Buffer_wf (m_payload out)" "\<forall>m \<in> set ms. sendable m" "recv_ok b"
    "Buffer_content b @ inflight s @ unsent = concat (map frame_bytes ms)"
  shows "stream_result tr inflight ms unsent b s (readNextMessage tr alloc (b, out, s))"
  using read_stream_correct [OF assms(1-4)] assms(5) by (simp add: readNextMessage_def stream consume)

end

end
