(* ===== verification/TcpConnection.thy ===== *)
theory TcpConnection
  imports MessageReader "HOL-Library.Monad_Syntax"
begin

section \<open>TCP connections\<close>

text \<open>
  \<open>TcpConnection\<close> (src/transport/tcp_connection.cpp) and \<open>platform::socketSendAll\<close>
  (src/platform/platform_common.cpp). The socket primitives of the platform layer wrap system calls;
  they are the parameter \<open>SocketOps\<close> on a kernel state, and what the code relies on from them are
  the laws of the locale \<open>tcp_kernel\<close>. Out of these, a \<open>TcpConnection\<close> is a byte stream for
  \<open>readNextMessage\<close>, and its sends hand a prefix of the data, or all of it, to the kernel.
\<close>

datatype ConnectionState = DISCONNECTED | CONNECTING | CONNECTED | ERROR

record 'k SocketOps =
  k_createTcpSocket :: "'k \<Rightarrow> int \<times> 'k"
  k_connectSocket :: "int \<Rightarrow> string \<Rightarrow> u16 \<Rightarrow> 'k \<Rightarrow> int \<times> 'k"
  k_socketSend :: "int \<Rightarrow> bytes \<Rightarrow> 'k \<Rightarrow> int \<times> 'k"
  k_socketRecv :: "int \<Rightarrow> nat \<Rightarrow> 'k \<Rightarrow> int \<times> bytes \<times> 'k"
  k_getSocketError :: "'k \<Rightarrow> int"
  k_waitSocketWritable :: "int \<Rightarrow> u32 \<Rightarrow> 'k \<Rightarrow> bool \<times> 'k"
  k_currentTimeMs :: "'k \<Rightarrow> int \<times> 'k"
  k_checkSocketConnected :: "int \<Rightarrow> 'k \<Rightarrow> bool \<times> int \<times> 'k"
  k_closeSocket :: "int \<Rightarrow> 'k \<Rightarrow> 'k"

record TcpConnection =
  tc_fd :: int
  tc_state :: ConnectionState
  tc_remote_host :: string
  tc_remote_port :: u16

definition INVALID_SOCKET_FD :: int where "INVALID_SOCKET_FD = -1"

text \<open>\<open>EAGAIN\<close> and \<open>EWOULDBLOCK\<close> are both 11 on Linux.\<close>

definition isWouldBlock :: "int \<Rightarrow> bool" where
  "isWouldBlock error_code \<longleftrightarrow> error_code = 11"

definition TcpConnection_default :: TcpConnection where
  "TcpConnection_default = \<lparr>tc_fd = INVALID_SOCKET_FD, tc_state = DISCONNECTED, tc_remote_host = [],
     tc_remote_port = 0\<rparr>"

subsection \<open>Life cycle\<close>

definition tcp_close :: "'k SocketOps \<Rightarrow> TcpConnection \<times> 'k \<Rightarrow> TcpConnection \<times> 'k" where
  "tcp_close ops st =
     (case st of (c, k) \<Rightarrow>
        if tc_fd c \<noteq> INVALID_SOCKET_FD
        then (c\<lparr>tc_fd := INVALID_SOCKET_FD, tc_state := DISCONNECTED\<rparr>, k_closeSocket ops (tc_fd c) k)
        else (c\<lparr>tc_state := DISCONNECTED\<rparr>, k))"

text \<open>Setting \<open>O_NONBLOCK\<close>, \<open>TCP_NODELAY\<close> and keep-alive is left out: their results are ignored here.\<close>

definition tcp_connect ::
    "'k SocketOps \<Rightarrow> string \<Rightarrow> u16 \<Rightarrow> TcpConnection \<times> 'k \<Rightarrow> int \<times> TcpConnection \<times> 'k" where
  "tcp_connect ops host port st =
     (let (c, k) = (if tc_state (fst st) = CONNECTED \<or> tc_state (fst st) = CONNECTING
                    then tcp_close ops st else st);
          (fd, k) = k_createTcpSocket ops k
      in if fd = INVALID_SOCKET_FD then (-1, c\<lparr>tc_fd := fd, tc_state := ERROR\<rparr>, k)
         else
           let c = c\<lparr>tc_fd := fd, tc_remote_host := host, tc_remote_port := port\<rparr>;
               (ret, k) = k_connectSocket ops fd host port k
           in if ret = 0 then (0, c\<lparr>tc_state := CONNECTED\<rparr>, k)
              else if ret = 1 then (1, c\<lparr>tc_state := CONNECTING\<rparr>, k)
              else (-1, c\<lparr>tc_fd := INVALID_SOCKET_FD, tc_state := ERROR\<rparr>, k_closeSocket ops fd k))"

definition tcp_checkConnectComplete ::
    "'k SocketOps \<Rightarrow> TcpConnection \<times> 'k \<Rightarrow> bool \<times> TcpConnection \<times> 'k" where
  "tcp_checkConnectComplete ops st =
     (case st of (c, k) \<Rightarrow>
        if tc_state c \<noteq> CONNECTING then (tc_state c = CONNECTED, c, k)
        else
          case k_checkSocketConnected ops (tc_fd c) k of (ok, so_error, k) \<Rightarrow>
          if \<not> ok then (False, c\<lparr>tc_state := ERROR\<rparr>, k)
          else if so_error = 0 then (True, c\<lparr>tc_state := CONNECTED\<rparr>, k)
          else (False, c\<lparr>tc_state := ERROR\<rparr>, k))"

subsection \<open>Sending\<close>

text \<open>The loop of \<open>send\<close>: \<open>Some total\<close> at a \<open>break\<close> or at the end, \<open>None\<close> for a real error.\<close>

function tcp_send_loop :: "'k SocketOps \<Rightarrow> int \<Rightarrow> bytes \<Rightarrow> nat \<Rightarrow> 'k \<Rightarrow> nat option \<times> 'k" where
  "tcp_send_loop ops fd data total_sent k =
     (if total_sent < length data then
        case k_socketSend ops fd (drop total_sent data) k of (n, k') \<Rightarrow>
        if 0 < n then tcp_send_loop ops fd data (total_sent + nat n) k'
        else if n < 0 then
          (if isWouldBlock (k_getSocketError ops k') then (Some total_sent, k') else (None, k'))
        else (Some total_sent, k')
      else (Some total_sent, k))"
  by pat_completeness auto
termination
  by (relation "measure (\<lambda>(ops, fd, data, total_sent, k). length data - total_sent)") auto

declare tcp_send_loop.simps [simp del]

definition tcp_send :: "'k SocketOps \<Rightarrow> bytes \<Rightarrow> TcpConnection \<times> 'k \<Rightarrow> int \<times> TcpConnection \<times> 'k" where
  "tcp_send ops data st =
     (case st of (c, k) \<Rightarrow>
        if tc_state c \<noteq> CONNECTED then (-1, c, k)
        else if length data = 0 then (0, c, k)
        else
          case tcp_send_loop ops (tc_fd c) data 0 k of
            (Some total_sent, k) \<Rightarrow> (int total_sent, c, k)
          | (None, k) \<Rightarrow> (-1, c\<lparr>tc_state := ERROR\<rparr>, k))"

text \<open>
  \<open>socketSendAll\<close>: \<open>None\<close> where the loop never ends (a socket that claims to be writable, takes
  nothing, and a clock that stands still).
\<close>

partial_function (option) sendAll_loop ::
    "'k SocketOps \<Rightarrow> int \<Rightarrow> bytes \<Rightarrow> int \<Rightarrow> nat \<Rightarrow> 'k \<Rightarrow> (bool \<times> 'k) option" where
  "sendAll_loop ops fd data deadline_ms sent k =
     (if sent < length data then
        case k_socketSend ops fd (drop sent data) k of (ret, k1) \<Rightarrow>
        if 0 < ret then sendAll_loop ops fd data deadline_ms (sent + nat ret) k1
        else if ret < 0 \<and> \<not> isWouldBlock (k_getSocketError ops k1) then Some (False, k1)
        else
          case k_currentTimeMs ops k1 of (now_ms, k2) \<Rightarrow>
          if deadline_ms \<le> now_ms then Some (False, k2)
          else
            case k_waitSocketWritable ops fd (of_int (deadline_ms - now_ms)) k2 of (writable, k3) \<Rightarrow>
            if \<not> writable then Some (False, k3)
            else sendAll_loop ops fd data deadline_ms sent k3
      else Some (sent = length data, k))"

definition socketSendAll :: "'k SocketOps \<Rightarrow> int \<Rightarrow> bytes \<Rightarrow> u32 \<Rightarrow> 'k \<Rightarrow> (bool \<times> 'k) option" where
  "socketSendAll ops fd data timeout_ms k =
     (case k_currentTimeMs ops k of (start_ms, k1) \<Rightarrow>
      sendAll_loop ops fd data (start_ms + uint timeout_ms) 0 k1)"

definition tcp_sendAll ::
    "'k SocketOps \<Rightarrow> bytes \<Rightarrow> u32 \<Rightarrow> TcpConnection \<times> 'k \<Rightarrow> (int \<times> TcpConnection \<times> 'k) option" where
  "tcp_sendAll ops data timeout_ms st =
     (case st of (c, k) \<Rightarrow>
        if tc_state c \<noteq> CONNECTED then Some (-1, c, k)
        else if length data = 0 then Some (0, c, k)
        else
          case socketSendAll ops (tc_fd c) data timeout_ms k of
            None \<Rightarrow> None
          | Some (ok, k) \<Rightarrow> Some (if ok then 0 else -1, c, k))"

subsection \<open>Receiving\<close>

definition tcp_recv ::
    "'k SocketOps \<Rightarrow> nat \<Rightarrow> TcpConnection \<times> 'k \<Rightarrow> int \<times> bytes \<times> (TcpConnection \<times> 'k)" where
  "tcp_recv ops buf_size st =
     (case st of (c, k) \<Rightarrow>
        if tc_state c \<noteq> CONNECTED then (-1, [], c, k)
        else if buf_size = 0 then (0, [], c, k)
        else
          case k_socketRecv ops (tc_fd c) buf_size k of (n, bytes, k) \<Rightarrow>
          if 0 < n then (n, bytes, c, k)
          else if n = 0 then (-1, bytes, c\<lparr>tc_state := DISCONNECTED\<rparr>, k)
          else if isWouldBlock (k_getSocketError ops k) then (0, bytes, c, k)
          else (-1, bytes, c\<lparr>tc_state := ERROR\<rparr>, k))"

definition tcp_connection :: "'k SocketOps \<Rightarrow> (TcpConnection \<times> 'k) IMessageConnection" where
  "tcp_connection ops =
     \<lparr>t_isFramed = False, t_consumeReadiness = (\<lambda>st. st), t_peekFrameSize = (\<lambda>st. (0, 0, st)),
      t_recv = tcp_recv ops\<rparr>"

subsection \<open>What the kernel promises\<close>

text \<open>
  \<open>sent k\<close> are the bytes the kernel has accepted on the socket, \<open>inflight k\<close> those it holds or will
  deliver. Sending accepts a prefix, receiving takes from the front; a refused call moves nothing.
\<close>

lemma slice_step: "a + n \<le> m \<Longrightarrow> take n (drop a xs) @ drop (a + n) (take m xs) = drop a (take m xs)"
proof -
  assume "a + n \<le> m"
  then have "take n (drop a xs) = take n (drop a (take m xs))" by (simp add: drop_take min_def)
  then show ?thesis by (metis add.commute append_take_drop_id drop_drop)
qed

locale tcp_kernel =
  fixes ops :: "'k SocketOps" and sent :: "'k \<Rightarrow> bytes" and inflight :: "'k \<Rightarrow> bytes"
  assumes send_law: "data \<noteq> [] \<Longrightarrow> k_socketSend ops fd data k = (n, k') \<Longrightarrow>
      (if 0 < n then nat n \<le> length data \<and> sent k' = sent k @ take (nat n) data else sent k' = sent k)"
    and recv_law: "0 < m \<Longrightarrow> k_socketRecv ops fd m k = (n, bytes, k') \<Longrightarrow>
      (if 0 < n then n = int (length bytes) \<and> length bytes \<le> m \<and> inflight k = bytes @ inflight k'
       else bytes = [] \<and> inflight k' = inflight k)"
    and wait_sent: "k_waitSocketWritable ops fd ms k = (w, k') \<Longrightarrow> sent k' = sent k"
    and time_sent: "k_currentTimeMs ops k = (t, k') \<Longrightarrow> sent k' = sent k"
begin

lemma send_loop_prefix:
  "tot \<le> length data \<Longrightarrow> tcp_send_loop ops fd data tot k = (r, k') \<Longrightarrow>
   \<exists>n. tot \<le> n \<and> n \<le> length data \<and> sent k' = sent k @ drop tot (take n data) \<and>
       (r = None \<or> r = Some n)"
proof (induction "length data - tot" arbitrary: tot k rule: less_induct)
  case less
  show ?case
  proof (cases "tot < length data")
    case False
    then have "r = Some tot" "k' = k" using less.prems(2) by (auto simp: tcp_send_loop.simps)
    with False less.prems(1) show ?thesis by (intro exI [of _ tot]) simp
  next
    case True
    obtain n k1 where s: "k_socketSend ops fd (drop tot data) k = (n, k1)" by force
    have law: "if 0 < n then nat n \<le> length data - tot \<and> sent k1 = sent k @ take (nat n) (drop tot data)
               else sent k1 = sent k" using send_law [OF _ s] True by (simp split: if_splits)
    show ?thesis
    proof (cases "0 < n")
      case True
      have rec: "tcp_send_loop ops fd data (tot + nat n) k1 = (r, k')"
        using less.prems(2) \<open>tot < length data\<close> s True by (simp add: tcp_send_loop.simps [of ops fd data tot])
      have le: "tot + nat n \<le> length data" "length data - (tot + nat n) < length data - tot"
        using law True \<open>tot < length data\<close> by auto
      obtain m where m: "tot + nat n \<le> m" "m \<le> length data"
        "sent k' = sent k1 @ drop (tot + nat n) (take m data)" "r = None \<or> r = Some m"
        using less.hyps [OF le(2,1) rec] by blast
      have "take (nat n) (drop tot data) @ drop (tot + nat n) (take m data) = drop tot (take m data)"
        using m(1) by (rule slice_step)
      with m law True show ?thesis by (intro exI [of _ m]) simp
    next
      case False
      then have "sent k' = sent k" "r = None \<or> r = Some tot"
        using less.prems(2) \<open>tot < length data\<close> s law
        by (auto simp: tcp_send_loop.simps [of ops fd data tot] split: if_splits)
      with less.prems(1) show ?thesis by (intro exI [of _ tot]) simp
    qed
  qed
qed

lemma send_reports:
  assumes "tcp_send ops data (c, k) = (r, c', k')"
  shows "if 0 \<le> r then nat r \<le> length data \<and> sent k' = sent k @ take (nat r) data \<and> c' = c
         else tc_state c' \<noteq> CONNECTED \<and> (\<exists>n. sent k' = sent k @ take n data)"
proof (cases "tc_state c = CONNECTED \<and> data \<noteq> []")
  case True
  obtain x k1 where x: "tcp_send_loop ops (tc_fd c) data 0 k = (x, k1)" by force
  obtain n where n: "n \<le> length data" "sent k1 = sent k @ take n data" "x = None \<or> x = Some n"
    using send_loop_prefix [OF _ x] by auto
  from assms True x n show ?thesis by (auto simp: tcp_send_def split: option.splits)
next
  case False
  with assms have "if 0 \<le> r then r = 0 \<and> data = [] \<and> k' = k \<and> c' = c
      else tc_state c' \<noteq> CONNECTED \<and> k' = k" by (auto simp: tcp_send_def split: if_splits)
  then show ?thesis by (auto intro: exI [of _ 0] split: if_splits)
qed

lemma sendAll_loop_result:
  assumes "sendAll_loop ops fd data deadline_ms s k = Some y" "s \<le> length data"
  shows "\<exists>n. s \<le> n \<and> n \<le> length data \<and> sent (snd y) = sent k @ drop s (take n data) \<and>
             (fst y \<longleftrightarrow> n = length data)"
  using assms
proof (induction ops' \<equiv> ops fd data deadline_ms s k y rule: sendAll_loop.raw_induct [rotated, consumes 1, case_names 1])
  case (1 rec fd data deadline_ms s k y)
  note IH = "1.hyps"(1)
  have body: "(if s < length data then
      case k_socketSend ops fd (drop s data) k of (ret, k1) \<Rightarrow>
      if 0 < ret then rec ops fd data deadline_ms (s + nat ret) k1
      else if ret < 0 \<and> \<not> isWouldBlock (k_getSocketError ops k1) then Some (False, k1)
      else case k_currentTimeMs ops k1 of (now_ms, k2) \<Rightarrow>
        if deadline_ms \<le> now_ms then Some (False, k2)
        else case k_waitSocketWritable ops fd (of_int (deadline_ms - now_ms)) k2 of (writable, k3) \<Rightarrow>
          if \<not> writable then Some (False, k3) else rec ops fd data deadline_ms s k3
      else Some (s = length data, k)) = Some y" using "1.hyps"(2) by simp
  show ?case
  proof (cases "s < length data")
    case False
    with body "1.prems" show ?thesis by (intro exI [of _ s]) auto
  next
    case True
    obtain ret k1 where sd: "k_socketSend ops fd (drop s data) k = (ret, k1)" by force
    have law: "if 0 < ret then nat ret \<le> length data - s \<and> sent k1 = sent k @ take (nat ret) (drop s data)
               else sent k1 = sent k" using send_law [OF _ sd] True by (simp split: if_splits)
    show ?thesis
    proof (cases "0 < ret")
      case pos: True
      have "rec ops fd data deadline_ms (s + nat ret) k1 = Some y" using body sd True pos by simp
      moreover have "s + nat ret \<le> length data" using law pos True by auto
      ultimately obtain m where m: "s + nat ret \<le> m" "m \<le> length data"
        "sent (snd y) = sent k1 @ drop (s + nat ret) (take m data)" "fst y \<longleftrightarrow> m = length data"
        using IH by blast
      with law pos slice_step [OF m(1), of data] show ?thesis by (intro exI [of _ m]) simp
    next
      case neg: False
      obtain now k2 where t: "k_currentTimeMs ops k1 = (now, k2)" by force
      obtain w k3 where wt: "k_waitSocketWritable ops fd (of_int (deadline_ms - now)) k2 = (w, k3)" by force
      have k: "sent k1 = sent k" "sent k2 = sent k" "sent k3 = sent k"
        using law neg time_sent [OF t] wait_sent [OF wt] by auto
      from body True neg sd t wt consider "y = (False, k1) \<or> y = (False, k2) \<or> y = (False, k3)"
        | "rec ops fd data deadline_ms s k3 = Some y" by (auto split: if_splits)
      then show ?thesis
      proof cases
        case 1
        with k True show ?thesis by (intro exI [of _ s]) auto
      next
        case 2
        from IH [OF this] k "1.prems" show ?thesis by auto
      qed
    qed
  qed
qed

lemma sendAll_reports:
  assumes "tcp_sendAll ops data timeout_ms (c, k) = Some (r, c', k')"
  shows "c' = c" "if r = 0 then sent k' = sent k @ data else r = -1 \<and> (\<exists>n. sent k' = sent k @ take n data)"
proof -
  show "c' = c" using assms by (auto simp: tcp_sendAll_def split: if_splits option.splits prod.splits)
  show "if r = 0 then sent k' = sent k @ data else r = -1 \<and> (\<exists>n. sent k' = sent k @ take n data)"
  proof (cases "tc_state c = CONNECTED \<and> data \<noteq> []")
    case True
    obtain t k0 where t: "k_currentTimeMs ops k = (t, k0)" by force
    from assms True t obtain ok where
      l: "sendAll_loop ops (tc_fd c) data (t + uint timeout_ms) 0 k0 = Some (ok, k')" and r: "r = (if ok then 0 else -1)"
      by (auto simp: tcp_sendAll_def socketSendAll_def split: option.splits prod.splits)
    from sendAll_loop_result [OF l] time_sent [OF t] r show ?thesis by auto
  next
    case False
    with assms show ?thesis by (auto simp: tcp_sendAll_def intro: exI [of _ 0] split: if_splits)
  qed
qed

end

text \<open>A \<open>TcpConnection\<close> on such a kernel is a byte stream: what it has in flight is what its socket has.\<close>

sublocale tcp_kernel \<subseteq> tcp: byte_stream "tcp_connection ops" "\<lambda>(c, k). inflight k"
proof
  show "\<not> t_isFramed (tcp_connection ops)" by (simp add: tcp_connection_def)
next
  fix st
  show "t_consumeReadiness (tcp_connection ops) st = st" by (simp add: tcp_connection_def)
next
  fix n st ret bytes st'
  assume n: "0 < n" and r: "t_recv (tcp_connection ops) n st = (ret, bytes, st')"
  obtain c k where st: "st = (c, k)" by force
  obtain m bs k1 where rc: "k_socketRecv ops (tc_fd c) n k = (m, bs, k1)" by (metis prod_cases3)
  note law = recv_law [OF n rc]
  show "if ret < 0 then bytes = [] \<and> (case st' of (c, k) \<Rightarrow> inflight k) = (case st of (c, k) \<Rightarrow> inflight k)
        else ret = int (length bytes) \<and> length bytes \<le> n \<and>
          (case st of (c, k) \<Rightarrow> inflight k) = bytes @ (case st' of (c, k) \<Rightarrow> inflight k)"
    using r n law rc by (auto simp: tcp_connection_def tcp_recv_def st split: if_splits)
qed

text \<open>As long as a connection receives bytes, its record does not change.\<close>

lemma tcp_run_record: "recv_run (tcp_connection ops) st bs st1 \<Longrightarrow> fst st1 = fst st"
  by (induction rule: recv_run.induct) (auto simp: tcp_connection_def tcp_recv_def split: prod.splits if_splits)

lemma tcp_recv_ended:
  "recv_ended (tcp_connection ops) b (c, k) r b' st' \<longleftrightarrow>
     (\<exists>bs k1 n. recv_run (tcp_connection ops) (c, k) bs (c, k1) \<and> Buffer_content b' = Buffer_content b @ bs \<and>
        0 < n \<and> tcp_recv ops n (c, k1) = (r, [], st'))"
  unfolding recv_ended_def using tcp_run_record [of ops "(c, k)"] by (fastforce simp: tcp_connection_def)

context tcp_kernel
begin

lemma message_stream:
  assumes "alloc_total alloc" "Buffer_wf (m_payload out)" "\<forall>m \<in> set ms. sendable m" "recv_ok b"
    "Buffer_content b @ inflight k @ unsent = concat (map frame_bytes ms)"
  shows "stream_result (tcp_connection ops) (\<lambda>(c, k). inflight k) ms unsent b (c, k)
    (readNextMessage (tcp_connection ops) alloc (b, out, c, k))"
  using tcp.readNextMessage_correct [OF assms(1-4), of "(c, k)" unsent] assms(5) by simp

end

subsection \<open>The bounded send returns\<close>

text \<open>
  The clock never runs backwards, and a socket that \<open>poll\<close> reported writable (without an error
  condition, which \<open>waitSocketWritable\<close> turns into \<open>false\<close>) takes data or fails: the next send does
  not report that it would block. Where the wait took time, the send may still do so. Then
  \<open>socketSendAll\<close> ends: of two turns, one hands over data, fails, or brings the deadline closer.
\<close>

definition send_advances :: "'k SocketOps \<Rightarrow> int \<Rightarrow> 'k \<Rightarrow> bool" where
  "send_advances ops fd k \<longleftrightarrow>
     (\<forall>data. data \<noteq> [] \<longrightarrow>
        (case k_socketSend ops fd data k of (n, k') \<Rightarrow>
           0 < n \<or> (n < 0 \<and> \<not> isWouldBlock (k_getSocketError ops k'))))"

locale ticking_kernel = tcp_kernel +
  fixes clock :: "'k \<Rightarrow> int"
  assumes time_law: "k_currentTimeMs ops k = (t, k') \<Longrightarrow> t = clock k \<and> clock k \<le> clock k'"
    and send_clock: "k_socketSend ops fd data k = (n, k') \<Longrightarrow> clock k \<le> clock k'"
    and wait_clock: "k_waitSocketWritable ops fd ms k = (w, k') \<Longrightarrow> clock k \<le> clock k'"
    and wait_writable: "k_waitSocketWritable ops fd ms k = (True, k') \<Longrightarrow> clock k < clock k' \<or> send_advances ops fd k'"
begin

text \<open>A turn whose send advances, given that the turns with fewer bytes to send return.\<close>

lemma sendAll_loop_advances:
  assumes "send_advances ops fd k" "s < length data"
    and fewer: "\<And>n k'. 0 < n \<Longrightarrow> n \<le> length data - s \<Longrightarrow> sendAll_loop ops fd data deadline_ms (s + n) k' \<noteq> None"
  shows "sendAll_loop ops fd data deadline_ms s k \<noteq> None"
proof -
  obtain ret k1 where sd: "k_socketSend ops fd (drop s data) k = (ret, k1)" by force
  have "0 < ret \<Longrightarrow> nat ret \<le> length data - s" using send_law [OF _ sd] assms(2) by (simp split: if_splits)
  moreover have "0 < ret \<or> (ret < 0 \<and> \<not> isWouldBlock (k_getSocketError ops k1))"
    using assms(1,2) sd unfolding send_advances_def by (metis (no_types, lifting) case_prod_conv drop_eq_Nil not_less)
  ultimately show ?thesis using assms(2) sd fewer [of "nat ret" k1]
    by (subst sendAll_loop.simps) auto
qed

lemma sendAll_loop_returns:
  "s \<le> length data \<Longrightarrow> sendAll_loop ops fd data deadline_ms s k \<noteq> None"
proof (induction "(length data - s, nat (deadline_ms - clock k))" arbitrary: s k
    rule: wf_induct [OF wf_lex_prod [OF wf_less wf_less]])
  case 1
  note IH = "1.hyps" [rule_format]
  show ?case
  proof (cases "s < length data")
    case True
    obtain ret k1 where sd: "k_socketSend ops fd (drop s data) k = (ret, k1)" by force
    obtain now k2 where t: "k_currentTimeMs ops k1 = (now, k2)" by force
    obtain w k3 where wt: "k_waitSocketWritable ops fd (of_int (deadline_ms - now)) k2 = (w, k3)" by force
    have law: "0 < ret \<Longrightarrow> nat ret \<le> length data - s"
      using send_law [OF _ sd] True by (simp split: if_splits)
    have fewer: "sendAll_loop ops fd data deadline_ms (s + n) k' \<noteq> None" if "0 < n" "n \<le> length data - s" for n k'
      using that True by (intro IH) auto
    have "sendAll_loop ops fd data deadline_ms s k3 \<noteq> None" if now: "\<not> deadline_ms \<le> now" and w: "w"
    proof (cases "clock k2 < clock k3")
      case True
      with now time_law [OF t] send_clock [OF sd] "1.prems" show ?thesis by (intro IH) auto
    next
      case False
      with wait_writable [of fd _ k2 k3] wt w have "send_advances ops fd k3" by auto
      then show ?thesis using sendAll_loop_advances \<open>s < length data\<close> fewer by blast
    qed
    with law fewer [of "nat ret" k1] show ?thesis using True sd t wt by (subst sendAll_loop.simps) auto
  qed (subst sendAll_loop.simps, simp)
qed

lemma sendAll_returns: "\<exists>r. tcp_sendAll ops data timeout_ms st = Some r"
proof (cases st)
  case (Pair c k)
  obtain t k0 where t: "k_currentTimeMs ops k = (t, k0)" by force
  obtain ok k1 where "sendAll_loop ops (tc_fd c) data (t + uint timeout_ms) 0 k0 = Some (ok, k1)"
    using sendAll_loop_returns [of 0 data] by fast
  with t Pair show ?thesis by (simp add: tcp_sendAll_def socketSendAll_def)
qed

end

subsection \<open>A scripted socket\<close>

text \<open>
  A socket that follows a script, on which the kernel laws hold: arriving chunks, and the moments
  at which there is nothing to read, the peer closes or the call fails; how many bytes each send
  takes; a clock that advances with every wait.
\<close>

datatype rx_event = RxData bytes | RxBlock | RxClose | RxError int

record net =
  net_rx :: "rx_event list"
  net_room :: "nat list"
  net_tx :: bytes
  net_errno :: int
  net_clock :: int

definition net_send :: "int \<Rightarrow> bytes \<Rightarrow> net \<Rightarrow> int \<times> net" where
  "net_send fd data k =
     (case net_room k of
        [] \<Rightarrow> (-1, k\<lparr>net_errno := 11\<rparr>)
      | r # rs \<Rightarrow>
          if r = 0 \<or> data = [] then (-1, k\<lparr>net_room := rs, net_errno := 11\<rparr>)
          else (int (min r (length data)), k\<lparr>net_room := rs, net_tx := net_tx k @ take r data\<rparr>))"

definition net_recv :: "int \<Rightarrow> nat \<Rightarrow> net \<Rightarrow> int \<times> bytes \<times> net" where
  "net_recv fd m k =
     (case net_rx k of
        [] \<Rightarrow> (-1, [], k\<lparr>net_errno := 11\<rparr>)
      | RxData bs # evs \<Rightarrow>
          if bs = [] then (-1, [], k\<lparr>net_rx := evs, net_errno := 11\<rparr>)
          else (int (length (take m bs)), take m bs,
                k\<lparr>net_rx := (if drop m bs = [] then evs else RxData (drop m bs) # evs)\<rparr>)
      | RxBlock # evs \<Rightarrow> (-1, [], k\<lparr>net_rx := evs, net_errno := 11\<rparr>)
      | RxClose # evs \<Rightarrow> (0, [], k)
      | RxError e # evs \<Rightarrow> (-1, [], k\<lparr>net_rx := evs, net_errno := e\<rparr>))"

definition net_ops :: "net SocketOps" where
  "net_ops =
     \<lparr>k_createTcpSocket = (\<lambda>k. (3, k)),
      k_connectSocket = (\<lambda>fd host port k. (1, k)),
      k_socketSend = net_send,
      k_socketRecv = net_recv,
      k_getSocketError = net_errno,
      k_waitSocketWritable = (\<lambda>fd ms k. (True, k\<lparr>net_clock := net_clock k + 1\<rparr>)),
      k_currentTimeMs = (\<lambda>k. (net_clock k, k)),
      k_checkSocketConnected = (\<lambda>fd k. (True, 0, k)),
      k_closeSocket = (\<lambda>fd k. k)\<rparr>"

fun rx_bytes :: "rx_event list \<Rightarrow> bytes" where
  "rx_bytes [] = []"
| "rx_bytes (RxData bs # evs) = bs @ rx_bytes evs"
| "rx_bytes (_ # evs) = rx_bytes evs"

interpretation net: ticking_kernel net_ops net_tx "\<lambda>k. rx_bytes (net_rx k)" net_clock
proof unfold_locales
  fix data :: bytes and fd n k k'
  assume "data \<noteq> []" "k_socketSend net_ops fd data k = (n, k')"
  then show "if 0 < n then nat n \<le> length data \<and> net_tx k' = net_tx k @ take (nat n) data
             else net_tx k' = net_tx k"
    by (auto simp: net_ops_def net_send_def min_def split: list.splits if_splits)
next
  fix m fd k n bytes k'
  assume m: "0 < m" and r: "k_socketRecv net_ops fd m k = (n, bytes, k')"
  show "if 0 < n then n = int (length bytes) \<and> length bytes \<le> m \<and> rx_bytes (net_rx k) = bytes @ rx_bytes (net_rx k')
        else bytes = [] \<and> rx_bytes (net_rx k') = rx_bytes (net_rx k)"
    using m r by (cases "net_rx k" rule: rx_bytes.cases)
      (auto simp: net_ops_def net_recv_def min_def split: if_splits)
qed (auto simp: net_ops_def net_send_def split: list.splits if_splits)

end
