(* ===== verification/EventLoop.thy ===== *)
theory EventLoop
  imports OrdMap
begin

section \<open>The event loop\<close>

text \<open>
  core/event_loop.cpp: watched descriptors, timers and posted functions of one thread. The kernel's
  polling facility (\<open>EventBackend\<close>) is a record of operations on its own state \<open>'b\<close>. Callbacks are
  values of a type \<open>'fn\<close> (and \<open>'cb\<close> for descriptor events); running one is a parameter of the
  operations that call back, over the state \<open>'w\<close> that the loop is part of. Times are 64-bit
  milliseconds of a clock that does not come near the end of its range and are integers here.
\<close>

record 'cb FdEntry =
  fe_fd :: int
  fe_events :: u32
  fe_callback :: 'cb

record 'fn TimerEntry =
  t_id :: u32
  t_expire_ms :: int
  t_interval_ms :: u32
  t_repeat :: bool
  t_cancelled :: bool
  t_callback :: 'fn

record 'b EventBackend =
  be_addFd :: "int \<Rightarrow> u32 \<Rightarrow> 'b \<Rightarrow> bool \<times> 'b"
  be_modifyFd :: "int \<Rightarrow> u32 \<Rightarrow> 'b \<Rightarrow> bool \<times> 'b"
  be_removeFd :: "int \<Rightarrow> 'b \<Rightarrow> 'b"

text \<open>\<open>el_backend\<close> is \<open>None\<close> when the constructor failed; \<open>el_woken\<close> is the state of the wake-up eventfd.\<close>

record ('cb, 'fn, 'b) EventLoop =
  el_running :: bool
  el_stop_requested :: bool
  el_backend :: "'b option"
  el_woken :: bool
  fd_entries :: "(int, 'cb FdEntry) omap"
  timers :: "'fn TimerEntry list"
  next_timer_id :: u32
  el_closed :: bool
  functor_wakeup_pending :: bool
  pending_functors :: "'fn list"

definition EVENT_READ :: u32 where "EVENT_READ = 1"
definition EVENT_WRITE :: u32 where "EVENT_WRITE = 2"
definition EVENT_ERROR :: u32 where "EVENT_ERROR = 4"

definition EventLoop_init :: "'b option \<Rightarrow> ('cb, 'fn, 'b) EventLoop" where
  "EventLoop_init backend = \<lparr>el_running = False, el_stop_requested = False, el_backend = backend,
     el_woken = False, fd_entries = om_empty, timers = [], next_timer_id = 1, el_closed = False,
     functor_wakeup_pending = False, pending_functors = []\<rparr>"

subsection \<open>Descriptors\<close>

definition wakeup :: "('cb, 'fn, 'b) EventLoop \<Rightarrow> ('cb, 'fn, 'b) EventLoop" where
  "wakeup l = (if el_backend l = None then l else l\<lparr>el_woken := True\<rparr>)"

definition loop_addFd ::
    "'b EventBackend \<Rightarrow> int \<Rightarrow> u32 \<Rightarrow> 'cb \<Rightarrow> ('cb, 'fn, 'b) EventLoop \<Rightarrow> ('cb, 'fn, 'b) EventLoop" where
  "loop_addFd ops fd events callback l =
     (if fd < 0 then l
      else if om_lookup (fd_entries l) fd \<noteq> None then l
      else
        let l = l\<lparr>fd_entries := om_update fd \<lparr>fe_fd = fd, fe_events = events, fe_callback = callback\<rparr> (fd_entries l)\<rparr> in
        case el_backend l of
          None \<Rightarrow> l
        | Some b \<Rightarrow>
            (case be_addFd ops fd events b of
               (ok, b) \<Rightarrow>
                 let l = l\<lparr>el_backend := Some b\<rparr> in
                 if ok then l else l\<lparr>fd_entries := om_erase fd (fd_entries l)\<rparr>))"

definition loop_modifyFd ::
    "'b EventBackend \<Rightarrow> int \<Rightarrow> u32 \<Rightarrow> ('cb, 'fn, 'b) EventLoop \<Rightarrow> ('cb, 'fn, 'b) EventLoop" where
  "loop_modifyFd ops fd events l =
     (case om_lookup (fd_entries l) fd of
        None \<Rightarrow> l
      | Some entry \<Rightarrow>
          let l = l\<lparr>fd_entries := om_update fd (entry\<lparr>fe_events := events\<rparr>) (fd_entries l)\<rparr> in
          (case el_backend l of
             None \<Rightarrow> l
           | Some b \<Rightarrow> l\<lparr>el_backend := Some (snd (be_modifyFd ops fd events b))\<rparr>))"

definition loop_removeFd ::
    "'b EventBackend \<Rightarrow> int \<Rightarrow> ('cb, 'fn, 'b) EventLoop \<Rightarrow> ('cb, 'fn, 'b) EventLoop" where
  "loop_removeFd ops fd l =
     (case om_lookup (fd_entries l) fd of
        None \<Rightarrow> l
      | Some _ \<Rightarrow>
          l\<lparr>fd_entries := om_erase fd (fd_entries l), el_backend := map_option (be_removeFd ops fd) (el_backend l)\<rparr>)"

subsection \<open>Timers\<close>

definition addTimer ::
    "int \<Rightarrow> u32 \<Rightarrow> 'fn \<Rightarrow> bool \<Rightarrow> ('cb, 'fn, 'b) EventLoop \<Rightarrow> u32 \<times> ('cb, 'fn, 'b) EventLoop" where
  "addTimer now delay_ms callback repeat l =
     (let i = next_timer_id l;
          next = i + 1;
          timer = \<lparr>t_id = i, t_expire_ms = now + uint delay_ms, t_interval_ms = (if repeat then delay_ms else 0),
                   t_repeat = repeat, t_cancelled = False, t_callback = callback\<rparr>
      in (i, wakeup (l\<lparr>next_timer_id := (if next = 0 then 1 else next), timers := timers l @ [timer]\<rparr>)))"

fun cancel_in :: "u32 \<Rightarrow> 'fn TimerEntry list \<Rightarrow> 'fn TimerEntry list" where
  "cancel_in timer_id [] = []"
| "cancel_in timer_id (t # ts) =
     (if t_id t = timer_id then t\<lparr>t_cancelled := True\<rparr> # ts else t # cancel_in timer_id ts)"

definition cancelTimer :: "u32 \<Rightarrow> ('cb, 'fn, 'b) EventLoop \<Rightarrow> ('cb, 'fn, 'b) EventLoop" where
  "cancelTimer timer_id l = l\<lparr>timers := cancel_in timer_id (timers l)\<rparr>"

text \<open>The first loop of \<open>processTimers\<close>: the callbacks that are due, and the timers that stay.\<close>

fun expire_timers :: "int \<Rightarrow> 'fn TimerEntry list \<Rightarrow> 'fn list \<times> 'fn TimerEntry list" where
  "expire_timers now [] = ([], [])"
| "expire_timers now (t # ts) =
     (case expire_timers now ts of
        (expired, rest) \<Rightarrow>
          if t_cancelled t then (expired, rest)
          else if t_expire_ms t - now \<le> 0 then
            (t_callback t # expired,
             if t_repeat t \<and> 0 < t_interval_ms t then t\<lparr>t_expire_ms := now + uint (t_interval_ms t)\<rparr> # rest else rest)
          else (expired, t # rest))"

text \<open>How the loop is part of the whole state, and how callbacks are run.\<close>

record ('cb, 'fn, 'b, 'w) LoopHost =
  host_loop :: "'w \<Rightarrow> ('cb, 'fn, 'b) EventLoop"
  host_set :: "('cb, 'fn, 'b) EventLoop \<Rightarrow> 'w \<Rightarrow> 'w"
  host_now :: "'w \<Rightarrow> int"
  host_poll :: "int \<Rightarrow> 'w \<Rightarrow> (int \<times> u32) list option \<times> 'w"
  host_event :: "'cb \<Rightarrow> int \<Rightarrow> u32 \<Rightarrow> 'w \<Rightarrow> 'w"
  host_call :: "'fn \<Rightarrow> 'w \<Rightarrow> 'w"

definition processTimers :: "('cb, 'fn, 'b, 'w) LoopHost \<Rightarrow> 'w \<Rightarrow> 'w" where
  "processTimers h w =
     (if timers (host_loop h w) = [] then w
      else
        case expire_timers (host_now h w) (timers (host_loop h w)) of
          (expired, rest) \<Rightarrow> fold (host_call h) expired (host_set h ((host_loop h w)\<lparr>timers := rest\<rparr>) w))"

definition INT_MAX :: int where "INT_MAX = 0x7fffffff"

text \<open>The loop of \<open>calculateTimeout\<close>: \<open>None\<close> when a timer is due.\<close>

fun min_timer_timeout :: "int \<Rightarrow> int \<Rightarrow> 'fn TimerEntry list \<Rightarrow> int option" where
  "min_timer_timeout now least [] = Some least"
| "min_timer_timeout now least (t # ts) =
     (if t_cancelled t then min_timer_timeout now least ts
      else
        let remaining = t_expire_ms t - now in
        if remaining \<le> 0 then None
        else
          let remaining_int = (if INT_MAX < remaining then INT_MAX else remaining) in
          min_timer_timeout now (if least < 0 \<or> remaining_int < least then remaining_int else least) ts)"

definition calculateTimeout :: "int \<Rightarrow> int \<Rightarrow> ('cb, 'fn, 'b) EventLoop \<Rightarrow> int" where
  "calculateTimeout now requested_timeout_ms l =
     (if timers l = [] then requested_timeout_ms
      else
        case min_timer_timeout now (-1) (timers l) of
          None \<Rightarrow> 0
        | Some least \<Rightarrow>
            if requested_timeout_ms < 0 then least
            else if least < 0 then requested_timeout_ms
            else if requested_timeout_ms < least then requested_timeout_ms else least)"

subsection \<open>Posted functions\<close>

definition loop_post :: "'fn \<Rightarrow> ('cb, 'fn, 'b) EventLoop \<Rightarrow> bool \<times> ('cb, 'fn, 'b) EventLoop" where
  "loop_post func l =
     (if el_backend l = None then (False, l)
      else if el_closed l then (False, l)
      else (True, wakeup (l\<lparr>pending_functors := pending_functors l @ [func]\<rparr>)))"

definition loop_stop :: "('cb, 'fn, 'b) EventLoop \<Rightarrow> ('cb, 'fn, 'b) EventLoop" where
  "loop_stop l = wakeup (l\<lparr>el_closed := True, el_stop_requested := True, el_running := False\<rparr>)"

definition processPendingFunctors :: "('cb, 'fn, 'b, 'w) LoopHost \<Rightarrow> 'w \<Rightarrow> 'w" where
  "processPendingFunctors h w =
     fold (host_call h) (pending_functors (host_loop h w))
       (host_set h ((host_loop h w)\<lparr>pending_functors := []\<rparr>) w)"

subsection \<open>One round\<close>

definition loop_update ::
    "('cb, 'fn, 'b, 'w) LoopHost \<Rightarrow> (('cb, 'fn, 'b) EventLoop \<Rightarrow> ('cb, 'fn, 'b) EventLoop) \<Rightarrow> 'w \<Rightarrow> 'w" where
  "loop_update h f w = host_set h (f (host_loop h w)) w"

text \<open>\<open>wakeup_fd\<close> is the number of the wake-up eventfd.\<close>

definition dispatch_event :: "int \<Rightarrow> ('cb, 'fn, 'b, 'w) LoopHost \<Rightarrow> int \<times> u32 \<Rightarrow> 'w \<Rightarrow> 'w" where
  "dispatch_event wakeup_fd h ev w =
     (case ev of (fd, revents) \<Rightarrow>
        if fd = wakeup_fd then loop_update h (\<lambda>l. l\<lparr>el_woken := False\<rparr>) w
        else
          case om_lookup (fd_entries (host_loop h w)) fd of
            None \<Rightarrow> w
          | Some entry \<Rightarrow> host_event h (fe_callback entry) fd revents w)"

definition pollOnceInternal ::
    "int \<Rightarrow> ('cb, 'fn, 'b, 'w) LoopHost \<Rightarrow> int \<Rightarrow> bool \<Rightarrow> 'w \<Rightarrow> 'w" where
  "pollOnceInternal wakeup_fd h timeout_ms process_functors w =
     (if el_backend (host_loop h w) = None then w
      else
        let w = (if process_functors \<and> functor_wakeup_pending (host_loop h w)
                 then processPendingFunctors h (loop_update h (\<lambda>l. l\<lparr>functor_wakeup_pending := False\<rparr>) w)
                 else w);
            actual_timeout = calculateTimeout (host_now h w) timeout_ms (host_loop h w)
        in
        case host_poll h actual_timeout w of
          (None, w) \<Rightarrow> w
        | (Some events, w) \<Rightarrow>
            let w = processTimers h (fold (dispatch_event wakeup_fd h) events w) in
            if process_functors then processPendingFunctors h w
            else if pending_functors (host_loop h w) \<noteq> []
            then loop_update h (\<lambda>l. l\<lparr>functor_wakeup_pending := True\<rparr>) w
            else w)"

text \<open>\<open>run\<close>: \<open>None\<close> where no round ever asks the loop to stop.\<close>

definition loop_active :: "('cb, 'fn, 'b) EventLoop \<Rightarrow> bool" where
  "loop_active l \<longleftrightarrow> el_running l \<and> \<not> el_stop_requested l"

partial_function (option) run_loop ::
    "int \<Rightarrow> ('cb, 'fn, 'b, 'w) LoopHost \<Rightarrow> int \<Rightarrow> 'fn option \<Rightarrow> 'w \<Rightarrow> 'w option" where
  "run_loop wakeup_fd h timeout_ms on_tick w =
     (if loop_active (host_loop h w) then
        let w = pollOnceInternal wakeup_fd h timeout_ms True w;
            w = (case on_tick of
                   None \<Rightarrow> w
                 | Some tick \<Rightarrow> if loop_active (host_loop h w) then host_call h tick w else w)
        in run_loop wakeup_fd h timeout_ms on_tick w
      else Some w)"

definition loop_run ::
    "int \<Rightarrow> ('cb, 'fn, 'b, 'w) LoopHost \<Rightarrow> int \<Rightarrow> 'fn option \<Rightarrow> 'w \<Rightarrow> 'w option" where
  "loop_run wakeup_fd h timeout_ms on_tick w =
     (if el_backend (host_loop h w) = None then Some w
      else if el_stop_requested (host_loop h w) then Some (processPendingFunctors h w)
      else
        map_option (processPendingFunctors h)
          (run_loop wakeup_fd h timeout_ms on_tick (loop_update h (\<lambda>l. l\<lparr>el_running := True\<rparr>) w)))"

subsection \<open>Properties\<close>

text \<open>A timer is live when it is not cancelled; its remaining time is capped as the code caps it.\<close>

definition live_timers :: "'fn TimerEntry list \<Rightarrow> 'fn TimerEntry list" where
  "live_timers ts = filter (\<lambda>t. \<not> t_cancelled t) ts"

definition due :: "int \<Rightarrow> 'fn TimerEntry \<Rightarrow> bool" where
  "due now t \<longleftrightarrow> \<not> t_cancelled t \<and> t_expire_ms t \<le> now"

lemma min_timer_None: "min_timer_timeout now least ts = None \<longleftrightarrow> (\<exists>t \<in> set ts. due now t)"
  by (induction ts arbitrary: least) (auto simp: due_def Let_def)

lemma min_timer_idle: "live_timers ts = [] \<Longrightarrow> min_timer_timeout now least ts = Some least"
  by (induction ts) (auto simp: live_timers_def split: if_splits)

lemma min_timer_Some:
  assumes "min_timer_timeout now least ts = Some m" "least = -1 \<or> 0 < least \<and> least \<le> INT_MAX"
  shows "(m = -1 \<and> least = -1 \<and> live_timers ts = [] \<or> 0 < m \<and> m \<le> INT_MAX) \<and>
    (0 < least \<longrightarrow> m \<le> least) \<and> (\<forall>t \<in> set (live_timers ts). m \<le> t_expire_ms t - now) \<and>
    (0 < m \<longrightarrow> m = least \<or> m = INT_MAX \<or> (\<exists>t \<in> set (live_timers ts). m = t_expire_ms t - now))"
  using assms
proof (induction ts arbitrary: least)
  case (Cons t ts)
  show ?case
  proof (cases "t_cancelled t")
    case True
    then have m: "min_timer_timeout now least ts = Some m" and eq: "live_timers (t # ts) = live_timers ts"
      using Cons.prems(1) by (simp_all add: live_timers_def)
    show ?thesis unfolding eq by (rule Cons.IH [OF m Cons.prems(2)])
  next
    case False
    let ?r = "min INT_MAX (t_expire_ms t - now)"
    let ?l = "if least < 0 \<or> ?r < least then ?r else least"
    have r: "0 < t_expire_ms t - now" and rec: "min_timer_timeout now ?l ts = Some m"
      using Cons.prems(1) False by (auto simp: Let_def min_def split: if_splits)
    have l: "0 < ?l" "?l \<le> INT_MAX" using r Cons.prems(2) by (auto simp: INT_MAX_def min_def)
    from Cons.IH [OF rec] l
    have ih: "0 < m" "m \<le> INT_MAX" "m \<le> ?l" "\<forall>t \<in> set (live_timers ts). m \<le> t_expire_ms t - now"
      "m = ?l \<or> m = INT_MAX \<or> (\<exists>t \<in> set (live_timers ts). m = t_expire_ms t - now)" by auto
    have "?l \<le> ?r" "0 < least \<Longrightarrow> ?l \<le> least" using Cons.prems(2) by auto
    moreover have "?l = least \<or> ?l = INT_MAX \<or> ?l = t_expire_ms t - now" by (auto simp: min_def)
    ultimately show ?thesis using ih False by (auto simp: live_timers_def)
  qed
qed (auto simp: live_timers_def)

text \<open>
  The time a round may wait: none when a timer is due, never past a live timer, never past what the
  caller allows, and as long as that permits.
\<close>

lemma calculateTimeout_cases:
  obtains (due) "\<exists>t \<in> set (timers l). due now t" "calculateTimeout now requested l = 0"
  | (idle) "live_timers (timers l) = []"
      "calculateTimeout now requested l = (if requested < 0 \<and> timers l \<noteq> [] then -1 else requested)"
  | (waiting) least where "live_timers (timers l) \<noteq> []" "0 < least" "least \<le> INT_MAX"
      "\<forall>t \<in> set (live_timers (timers l)). least \<le> t_expire_ms t - now"
      "least = INT_MAX \<or> (\<exists>t \<in> set (live_timers (timers l)). least = t_expire_ms t - now)"
      "calculateTimeout now requested l = (if requested < 0 then least else min requested least)"
proof (cases "timers l = []")
  case True
  then show thesis by (intro idle) (simp_all add: live_timers_def calculateTimeout_def)
next
  case ne: False
  show thesis
  proof (cases "min_timer_timeout now (-1) (timers l)")
    case None
    then have "\<exists>t \<in> set (timers l). due now t" using min_timer_None by blast
    with None ne show thesis by (intro due) (simp_all add: calculateTimeout_def)
  next
    case (Some least)
    note sp = min_timer_Some [OF Some]
    show thesis
    proof (cases "live_timers (timers l) = []")
      case True
      then have "least = -1" using min_timer_idle [OF True, of now "-1"] Some by simp
      with True ne Some show thesis by (intro idle) (auto simp: calculateTimeout_def)
    next
      case False
      then show thesis using sp Some ne by (intro waiting [of least]) (auto simp: calculateTimeout_def min_def)
    qed
  qed
qed

text \<open>The expired callbacks are those of the due timers, in order.\<close>

lemma expire_timers_spec:
  "expire_timers now ts = (map t_callback (filter (due now) ts),
     map (\<lambda>t. if t_expire_ms t \<le> now then t\<lparr>t_expire_ms := now + uint (t_interval_ms t)\<rparr> else t)
       (filter (\<lambda>t. \<not> t_cancelled t \<and> (now < t_expire_ms t \<or> t_repeat t \<and> 0 < t_interval_ms t)) ts))"
  by (induction ts) (auto simp: due_def)

lemma processTimers_spec:
  assumes "host_set h (host_loop h w) w = w"
  shows "processTimers h w =
     (let l = host_loop h w; now = host_now h w in
      fold (host_call h) (map t_callback (filter (due now) (timers l)))
        (host_set h (l\<lparr>timers := map (\<lambda>t. if t_expire_ms t \<le> now then t\<lparr>t_expire_ms := now + uint (t_interval_ms t)\<rparr> else t)
           (filter (\<lambda>t. \<not> t_cancelled t \<and> (now < t_expire_ms t \<or> t_repeat t \<and> 0 < t_interval_ms t)) (timers l))\<rparr>) w))"
proof (cases "timers (host_loop h w) = []")
  case True
  then have "(host_loop h w)\<lparr>timers := []\<rparr> = host_loop h w" by simp
  from arg_cong [OF this, of "\<lambda>l. host_set h l w"] True assms show ?thesis by (simp add: processTimers_def)
qed (simp add: processTimers_def expire_timers_spec Let_def)

text \<open>The time a round waits, by what is due and what is live.\<close>

lemma timeout_bounds:
  assumes "-1 \<le> requested"
  shows "(calculateTimeout now requested l = 0 \<longleftrightarrow> requested = 0 \<or> (\<exists>t \<in> set (timers l). due now t)) \<and>
    (calculateTimeout now requested l = -1 \<longleftrightarrow> requested = -1 \<and> live_timers (timers l) = []) \<and>
    (0 \<le> requested \<longrightarrow> 0 \<le> calculateTimeout now requested l \<and> calculateTimeout now requested l \<le> requested) \<and>
    (\<forall>t \<in> set (live_timers (timers l)).
       0 \<le> calculateTimeout now requested l \<and> calculateTimeout now requested l \<le> max 0 (t_expire_ms t - now))"
proof (cases rule: calculateTimeout_cases [of l now requested])
  case due
  then show ?thesis using assms by (auto simp: live_timers_def due_def filter_empty_conv)
next
  case idle
  then have "\<not> (\<exists>t \<in> set (timers l). due now t)" by (auto simp: live_timers_def due_def filter_empty_conv)
  with idle show ?thesis using assms by auto
next
  case (waiting least)
  then have "\<not> (\<exists>t \<in> set (timers l). due now t)" by (force simp: live_timers_def due_def)
  with waiting show ?thesis using assms by auto
qed

text \<open>A cancelled timer is not due, whatever the time, and cancelling leaves the others alone.\<close>

lemma cancel_in_spec:
  assumes "distinct (map t_id ts)"
  shows "cancel_in i ts = map (\<lambda>t. if t_id t = i then t\<lparr>t_cancelled := True\<rparr> else t) ts"
  using assms
proof (induction ts)
  case (Cons t ts)
  have "map (\<lambda>t. if t_id t = i then t\<lparr>t_cancelled := True\<rparr> else t) ts = ts" if "t_id t = i"
    using Cons.prems that by (intro map_idI) (auto simp: image_iff)
  with Cons show ?case by auto
qed simp

lemma addTimer_live:
  "\<exists>t \<in> set (live_timers (timers (snd (addTimer now d cb repeat l)))).
     t_id t = fst (addTimer now d cb repeat l) \<and> t_callback t = cb \<and> t_expire_ms t = now + uint d"
proof -
  let ?t = "\<lparr>t_id = next_timer_id l, t_expire_ms = now + uint d, t_interval_ms = (if repeat then d else 0),
    t_repeat = repeat, t_cancelled = False, t_callback = cb\<rparr>"
  have "timers (snd (addTimer now d cb repeat l)) = timers l @ [?t]" "fst (addTimer now d cb repeat l) = next_timer_id l"
    by (simp_all add: addTimer_def Let_def wakeup_def)
  then show ?thesis by (intro bexI [of _ ?t]) (simp_all add: live_timers_def)
qed

end
