(* ===== verification/TcpEndpoint.thy ===== *)
theory TcpEndpoint
  imports TcpConnection EventLoop
begin

section \<open>The TCP server endpoint\<close>

text \<open>
  transport/tcp_server_endpoint.cpp: the listening socket and the connections accepted on it, by
  descriptor. The socket calls that only a server makes are the parameter \<open>ListenOps\<close>. The three
  callbacks are a record of functions on the state \<open>'w\<close> of the endpoint's owner; \<open>accept_loop\<close> has
  no value where the kernel hands over connections forever.
\<close>

record TcpServerEndpoint =
  listen_fd :: int
  listen_port :: u16
  listen_host :: string
  ep_clients :: "(int, TcpConnection) omap"

record 'k ListenOps =
  k_setReuseAddr :: "int \<Rightarrow> 'k \<Rightarrow> bool \<times> 'k"
  k_setNonBlocking :: "int \<Rightarrow> 'k \<Rightarrow> bool \<times> 'k"
  k_bindSocket :: "int \<Rightarrow> string \<Rightarrow> u16 \<Rightarrow> 'k \<Rightarrow> bool \<times> 'k"
  k_listenSocket :: "int \<Rightarrow> 'k \<Rightarrow> bool \<times> 'k"
  k_getSocketPort :: "int \<Rightarrow> 'k \<Rightarrow> u16"
  k_acceptSocket :: "int \<Rightarrow> 'k \<Rightarrow> int \<times> 'k"

definition TcpServerEndpoint_init :: TcpServerEndpoint where
  "TcpServerEndpoint_init =
     \<lparr>listen_fd = INVALID_SOCKET_FD, listen_port = 0, listen_host = [], ep_clients = om_empty\<rparr>"

text \<open>The constructor \<open>TcpConnection(connected_fd)\<close>.\<close>

definition TcpConnection_accepted :: "'k SocketOps \<Rightarrow> 'k ListenOps \<Rightarrow> int \<Rightarrow> 'k \<Rightarrow> TcpConnection \<times> 'k" where
  "TcpConnection_accepted ops lops connected_fd k =
     (let c = TcpConnection_default\<lparr>tc_fd := connected_fd\<rparr> in
      if connected_fd \<noteq> INVALID_SOCKET_FD then
        (case k_setNonBlocking lops connected_fd k of
           (False, k) \<Rightarrow> (c\<lparr>tc_fd := INVALID_SOCKET_FD, tc_state := ERROR\<rparr>, k_closeSocket ops connected_fd k)
         | (True, k) \<Rightarrow> (c\<lparr>tc_state := CONNECTED\<rparr>, k))
      else (c, k))"

definition close_listening :: "'k SocketOps \<Rightarrow> TcpServerEndpoint \<times> 'k \<Rightarrow> int \<times> TcpServerEndpoint \<times> 'k" where
  "close_listening ops st =
     (case st of (s, k) \<Rightarrow> (-1, s\<lparr>listen_fd := INVALID_SOCKET_FD\<rparr>, k_closeSocket ops (listen_fd s) k))"

definition endpoint_close :: "'k SocketOps \<Rightarrow> TcpServerEndpoint \<times> 'k \<Rightarrow> TcpServerEndpoint \<times> 'k" where
  "endpoint_close ops st =
     (case st of (s, k) \<Rightarrow>
        let k = (if listen_fd s \<noteq> INVALID_SOCKET_FD then k_closeSocket ops (listen_fd s) k else k);
            k = fold (\<lambda>c k. snd (tcp_close ops (c, k))) (om_values (ep_clients s)) k
        in (s\<lparr>listen_fd := INVALID_SOCKET_FD, listen_port := 0, ep_clients := om_empty\<rparr>, k))"

definition endpoint_start ::
    "'k SocketOps \<Rightarrow> 'k ListenOps \<Rightarrow> string \<Rightarrow> u16 \<Rightarrow> TcpServerEndpoint \<times> 'k \<Rightarrow> int \<times> TcpServerEndpoint \<times> 'k" where
  "endpoint_start ops lops host port st =
     (let (s, k) = (if listen_fd (fst st) \<noteq> INVALID_SOCKET_FD then endpoint_close ops st else st);
          (fd, k) = k_createTcpSocket ops k;
          s = s\<lparr>listen_fd := fd\<rparr>
      in if fd = INVALID_SOCKET_FD then (-1, s, k)
         else
           let (_, k) = k_setReuseAddr lops fd k; (nonblocking, k) = k_setNonBlocking lops fd k in
           if \<not> nonblocking then close_listening ops (s, k)
           else
             let (bound, k) = k_bindSocket lops fd host port k in
             if \<not> bound then close_listening ops (s, k)
             else
               let (listening, k) = k_listenSocket lops fd k in
               if \<not> listening then close_listening ops (s, k)
               else
                 let s = s\<lparr>listen_port := k_getSocketPort lops fd k, listen_host := host\<rparr>
                 in (uint (listen_port s), s, k))"

definition pollFds :: "TcpServerEndpoint \<Rightarrow> int list" where
  "pollFds s =
     (if listen_fd s \<noteq> INVALID_SOCKET_FD then [listen_fd s] else []) @ om_keys (ep_clients s)"

text \<open>A refused connection (\<open>client->fd() < 0\<close>) is deleted, which closes it once more without effect.\<close>

partial_function (option) accept_loop ::
    "'k SocketOps \<Rightarrow> 'k ListenOps \<Rightarrow> int list \<Rightarrow> TcpServerEndpoint \<Rightarrow> 'k \<Rightarrow>
     (int list \<times> TcpServerEndpoint \<times> 'k) option" where
  "accept_loop ops lops accepted s k =
     (case k_acceptSocket lops (listen_fd s) k of (client_fd, k) \<Rightarrow>
        if client_fd = INVALID_SOCKET_FD then Some (accepted, s, k)
        else
          case TcpConnection_accepted ops lops client_fd k of (client, k) \<Rightarrow>
          if tc_fd client < 0 then accept_loop ops lops accepted s (snd (tcp_close ops (client, k)))
          else accept_loop ops lops (accepted @ [tc_fd client])
                 (s\<lparr>ep_clients := om_update (tc_fd client) client (ep_clients s)\<rparr>) k)"

definition removeClient :: "'k SocketOps \<Rightarrow> int \<Rightarrow> TcpServerEndpoint \<times> 'k \<Rightarrow> TcpServerEndpoint \<times> 'k" where
  "removeClient ops client_id st =
     (case st of (s, k) \<Rightarrow>
        case om_lookup (ep_clients s) client_id of
          None \<Rightarrow> (s, k)
        | Some client \<Rightarrow>
            (s\<lparr>ep_clients := om_erase client_id (ep_clients s)\<rparr>, snd (tcp_close ops (client, k))))"

record ('k, 'w) EndpointHost =
  eh_endpoint :: "'w \<Rightarrow> TcpServerEndpoint"
  eh_kernel :: "'w \<Rightarrow> 'k"
  eh_set :: "TcpServerEndpoint \<times> 'k \<Rightarrow> 'w \<Rightarrow> 'w"
  eh_accept :: "int \<Rightarrow> 'w \<Rightarrow> 'w"
  eh_readable :: "int \<Rightarrow> 'w \<Rightarrow> 'w option"
  eh_disconnect :: "int \<Rightarrow> 'w \<Rightarrow> 'w"

definition onPollEvent ::
    "'k SocketOps \<Rightarrow> 'k ListenOps \<Rightarrow> ('k, 'w) EndpointHost \<Rightarrow> int \<Rightarrow> u32 \<Rightarrow> 'w \<Rightarrow> 'w option" where
  "onPollEvent ops lops h fd events w =
     (if fd = listen_fd (eh_endpoint h w) then
        map_option (\<lambda>(accepted, st). fold (eh_accept h) accepted (eh_set h st w))
          (accept_loop ops lops [] (eh_endpoint h w) (eh_kernel h w))
      else
        case om_lookup (ep_clients (eh_endpoint h w)) fd of
          None \<Rightarrow> Some w
        | Some _ \<Rightarrow>
            if events AND EVENT_READ \<noteq> 0 then eh_readable h fd w
            else if events AND EVENT_ERROR \<noteq> 0 then Some (eh_disconnect h fd w)
            else Some w)"

subsection \<open>What accepting does\<close>

text \<open>
  The descriptors reported are those of the connections that are new in the table, and the table
  keeps all it had.
\<close>

lemma accept_loop_spec:
  assumes "accept_loop ops lops accepted s k = Some (accepted', s', k')"
  shows "\<exists>new. accepted' = accepted @ new \<and> listen_fd s' = listen_fd s \<and>
    (\<forall>fd. om_lookup (ep_clients s') fd \<noteq> None \<longleftrightarrow> fd \<in> set new \<or> om_lookup (ep_clients s) fd \<noteq> None) \<and>
    (\<forall>fd. fd \<notin> set new \<longrightarrow> om_lookup (ep_clients s') fd = om_lookup (ep_clients s) fd) \<and>
    (\<forall>fd \<in> set new. 0 \<le> fd)"
  using assms
proof (induction ops' \<equiv> ops lops accepted s k r \<equiv> "(accepted', s', k')"
    rule: accept_loop.raw_induct [rotated, consumes 1, case_names 1])
  case (1 rec lops accepted s k)
  note IH = "1.hyps"(1)
  obtain client_fd k1 where a: "k_acceptSocket lops (listen_fd s) k = (client_fd, k1)" by force
  show ?case
  proof (cases "client_fd = INVALID_SOCKET_FD")
    case True
    with "1.hyps"(2) a show ?thesis by simp
  next
    case False
    obtain client k2 where c: "TcpConnection_accepted ops lops client_fd k1 = (client, k2)" by force
    show ?thesis
    proof (cases "tc_fd client < 0")
      case True
      then have "rec ops lops accepted s (snd (tcp_close ops (client, k2))) = Some (accepted', s', k')"
        using "1.hyps"(2) a c False by simp
      from IH [OF this] show ?thesis by blast
    next
      case fd: False
      let ?s = "s\<lparr>ep_clients := om_update (tc_fd client) client (ep_clients s)\<rparr>"
      have "rec ops lops (accepted @ [tc_fd client]) ?s k2 = Some (accepted', s', k')"
        using "1.hyps"(2) a c False fd by simp
      from IH [OF this] obtain new where n: "accepted' = (accepted @ [tc_fd client]) @ new"
        "listen_fd s' = listen_fd s"
        "\<forall>fd. om_lookup (ep_clients s') fd \<noteq> None \<longleftrightarrow> fd \<in> set new \<or> om_lookup (ep_clients ?s) fd \<noteq> None"
        "\<forall>fd. fd \<notin> set new \<longrightarrow> om_lookup (ep_clients s') fd = om_lookup (ep_clients ?s) fd"
        "\<forall>fd \<in> set new. 0 \<le> fd" by auto
      then show ?thesis using fd
        by (intro exI [of _ "tc_fd client # new"]) (auto simp: om_lookup_update split: if_splits)
    qed
  qed
qed

end
