(* ===== verification/MessageCodec.thy ===== *)
theory MessageCodec
  imports OmniMessage
begin

section \<open>Payload codecs\<close>

text \<open>
  The payload encoders of src/core/message.cpp and the decoder templates of
  include/omnibinder/message.h. Every encoder is the \<open>wseq\<close> of its writes and every decoder the
  chain of its reads, in source order and with the source's guards; each pair is an instance of
  \<open>wire_codec\<close>, so the round trip, prefix-freeness, and safety on arbitrary bytes are the
  locale's lemmas.
\<close>

subsection \<open>Rules for chains of writes and reads\<close>

text \<open>\<open>if (!c) return false;\<close> among the writes.\<close>

definition wguard :: "bool \<Rightarrow> writer" where
  "wguard c = (if c then wskip else wreject)"

lemma emits_wseq_Nil_concat: "emits (wseq []) (concat [])"
  by simp

lemma emits_wseq_Cons_concat:
  "emits w bs \<Longrightarrow> emits (wseq ws) (concat bss) \<Longrightarrow> emits (wseq (w # ws)) (concat (bs # bss))"
  using emits_wseq_Cons [of w bs ws "concat bss"] by simp

lemma emits_wseq_wguard: "c \<Longrightarrow> emits (wseq ws) bs \<Longrightarrow> emits (wseq (wguard c # ws)) bs"
  using emits_wthen [OF emits_wskip, of "wseq ws" bs] by (simp add: wguard_def)

lemma parses_read: "parses p bs x \<Longrightarrow> parses (f x) (concat bss) y \<Longrightarrow>
  parses (rbind p f) (concat (bs # bss)) y"
  using parses_rbind [of p bs x f "concat bss" y] by simp

lemma parses_return: "x = y \<Longrightarrow> parses (rret x) (concat []) y"
  by simp

lemma parses_remaining:
  "(\<And>n. length bs \<le> n \<Longrightarrow> parses (f n) bs x) \<Longrightarrow> parses (rbind rremaining f) bs x"
  by (auto simp: parses_def rbind_def rremaining_def view_remaining_def)

lemmas emit_rules = emits_wseq_wguard emits_wseq_Nil_concat emits_wseq_Cons_concat
  u8.wr_emits u16.wr_emits u32.wr_emits bool.wr_emits str.wr_emits TrueI

lemmas parse_rules = parses_read parses_return
  u8.rd_parses u16.rd_parses u32.rd_parses bool.rd_parses str.rd_parses TrueI

lemmas safe_rules = safe_rbind safe_rret safe_rfail safe_rguard safe_rremaining safe_rtimes
  u8.rd_safe u16.rd_safe u32.rd_safe bool.rd_safe str.rd_safe

text \<open>Counts of 16 bits.\<close>

definition fits_u16 :: "nat \<Rightarrow> bool" where
  "fits_u16 n \<longleftrightarrow> n \<le> 0xFFFF"

lemma unat_count16 [simp]: "fits_u16 n \<Longrightarrow> unat (of_nat n :: u16) = n"
  by (simp add: fits_u16_def unat_of_nat)

definition str_ok :: "string \<Rightarrow> bool" where
  "str_ok s \<longleftrightarrow> fits_u32 (length s)"

lemma str_okD [simp]: "str_ok s \<Longrightarrow> fits_u32 (length s)"
  by (simp add: str_ok_def)

subsection \<open>Interfaces\<close>

definition serializeMethodInfo :: "MethodInfo \<Rightarrow> writer" where
  "serializeMethodInfo m = wseq
     [writeUint32 (mi_method_id m), writeString (mi_name m), writeString (mi_param_types m),
      writeString (mi_return_type m), writeUint32 (mi_idl_hash m)]"

definition deserializeMethodInfo :: "MethodInfo parser" where
  "deserializeMethodInfo =
     rbind tryReadUint32 (\<lambda>method_id.
     rbind tryReadString (\<lambda>name.
     rbind tryReadString (\<lambda>param_types.
     rbind tryReadString (\<lambda>return_type.
     rbind tryReadUint32 (\<lambda>idl_hash.
     rret \<lparr>mi_method_id = method_id, mi_idl_hash = idl_hash, mi_name = name,
           mi_param_types = param_types, mi_return_type = return_type\<rparr>)))))"

definition enc_method :: "MethodInfo \<Rightarrow> bytes" where
  "enc_method m = concat [le32 (mi_method_id m), enc_str (mi_name m), enc_str (mi_param_types m),
     enc_str (mi_return_type m), le32 (mi_idl_hash m)]"

definition method_ok :: "MethodInfo \<Rightarrow> bool" where
  "method_ok m \<longleftrightarrow> str_ok (mi_name m) \<and> str_ok (mi_param_types m) \<and> str_ok (mi_return_type m)"

interpretation meth: wire_codec serializeMethodInfo deserializeMethodInfo enc_method method_ok
proof unfold_locales
  fix m :: MethodInfo
  assume ok: "method_ok m"
  then show "emits (serializeMethodInfo m) (enc_method m)"
    unfolding serializeMethodInfo_def enc_method_def method_ok_def
    by (intro emit_rules) simp_all
  show "parses deserializeMethodInfo (enc_method m) m"
    unfolding deserializeMethodInfo_def enc_method_def
    by (rule parse_rules | (use ok in \<open>simp add: method_ok_def\<close>))+
next
  show "reader_safe deserializeMethodInfo"
    unfolding deserializeMethodInfo_def by (intro safe_rules)
qed

text \<open>
  \<open>for (uint16_t i = 0; i < method_count; ++i)\<close> over the vector, behind the size check and the count.
\<close>

definition serializeInterfaceInfo :: "InterfaceInfo \<Rightarrow> writer" where
  "serializeInterfaceInfo info = wseq
     [writeUint32 (ii_interface_id info), writeString (ii_name info),
      wguard (\<not> 0xFFFF < length (ii_methods info)),
      writeUint16 (of_nat (length (ii_methods info))),
      wseq (map serializeMethodInfo (ii_methods info))]"

definition deserializeInterfaceInfo :: "InterfaceInfo parser" where
  "deserializeInterfaceInfo =
     rbind tryReadUint32 (\<lambda>interface_id.
     rbind tryReadString (\<lambda>name.
     rbind tryReadUint16 (\<lambda>method_count.
     rbind (rtimes (unat method_count) deserializeMethodInfo) (\<lambda>methods.
     rret \<lparr>ii_interface_id = interface_id, ii_name = name, ii_methods = methods\<rparr>))))"

definition enc_interface :: "InterfaceInfo \<Rightarrow> bytes" where
  "enc_interface info = concat [le32 (ii_interface_id info), enc_str (ii_name info),
     le16 (of_nat (length (ii_methods info))), concat (map enc_method (ii_methods info))]"

definition interface_ok :: "InterfaceInfo \<Rightarrow> bool" where
  "interface_ok info \<longleftrightarrow> str_ok (ii_name info) \<and> fits_u16 (length (ii_methods info)) \<and>
     (\<forall>m \<in> set (ii_methods info). method_ok m)"

interpretation iface: wire_codec serializeInterfaceInfo deserializeInterfaceInfo enc_interface
  interface_ok
proof unfold_locales
  fix info :: InterfaceInfo
  assume ok: "interface_ok info"
  then show "emits (serializeInterfaceInfo info) (enc_interface info)"
    unfolding serializeInterfaceInfo_def enc_interface_def
    by (intro emit_rules meth.wr_list_emits) (auto simp: interface_ok_def fits_u16_def)
  have methods: "parses (rtimes (unat (of_nat (length (ii_methods info)) :: u16)) deserializeMethodInfo)
      (concat (map enc_method (ii_methods info))) (ii_methods info)"
    using ok meth.rd_list_parses [of "ii_methods info"] by (simp add: interface_ok_def)
  show "parses deserializeInterfaceInfo (enc_interface info) info"
    unfolding deserializeInterfaceInfo_def enc_interface_def
    by (rule methods parse_rules | (use ok in \<open>simp add: interface_ok_def\<close>))+
next
  show "reader_safe deserializeInterfaceInfo"
    unfolding deserializeInterfaceInfo_def by (intro safe_rules meth.rd_safe)
qed

subsection \<open>Services\<close>

text \<open>The ring capacities are \<open>size_t\<close> in memory and are narrowed to 32 bits on the wire.\<close>

definition serializeServiceInfo :: "ServiceInfo \<Rightarrow> writer" where
  "serializeServiceInfo info = wseq
     [writeString (si_name info), writeString (si_host info), writeUint16 (si_port info),
      writeString (si_host_id info), writeString (si_instance_id info),
      writeUint32 (of_nat (req_ring_capacity (si_shm_config info))),
      writeUint32 (of_nat (resp_ring_capacity (si_shm_config info))),
      wguard (\<not> 0xFFFF < length (si_interfaces info)),
      writeUint16 (of_nat (length (si_interfaces info))),
      wseq (map serializeInterfaceInfo (si_interfaces info))]"

definition deserializeServiceInfo :: "ServiceInfo parser" where
  "deserializeServiceInfo =
     rbind tryReadString (\<lambda>name.
     rbind tryReadString (\<lambda>host.
     rbind tryReadUint16 (\<lambda>port.
     rbind tryReadString (\<lambda>host_id.
     rbind tryReadString (\<lambda>instance_id.
     rbind tryReadUint32 (\<lambda>req.
     rbind tryReadUint32 (\<lambda>resp.
     rbind tryReadUint16 (\<lambda>iface_count.
     rbind (rtimes (unat iface_count) deserializeInterfaceInfo) (\<lambda>interfaces.
     rret \<lparr>si_name = name, si_host = host, si_port = port, si_host_id = host_id,
           si_instance_id = instance_id,
           si_shm_config = \<lparr>req_ring_capacity = unat req, resp_ring_capacity = unat resp\<rparr>,
           si_interfaces = interfaces\<rparr>)))))))))"

definition enc_service :: "ServiceInfo \<Rightarrow> bytes" where
  "enc_service info = concat
     [enc_str (si_name info), enc_str (si_host info), le16 (si_port info),
      enc_str (si_host_id info), enc_str (si_instance_id info),
      le32 (of_nat (req_ring_capacity (si_shm_config info))),
      le32 (of_nat (resp_ring_capacity (si_shm_config info))),
      le16 (of_nat (length (si_interfaces info))),
      concat (map enc_interface (si_interfaces info))]"

definition service_ok :: "ServiceInfo \<Rightarrow> bool" where
  "service_ok info \<longleftrightarrow> str_ok (si_name info) \<and> str_ok (si_host info) \<and> str_ok (si_host_id info) \<and>
     str_ok (si_instance_id info) \<and> req_ring_capacity (si_shm_config info) < 2 ^ 32 \<and>
     resp_ring_capacity (si_shm_config info) < 2 ^ 32 \<and> fits_u16 (length (si_interfaces info)) \<and>
     (\<forall>i \<in> set (si_interfaces info). interface_ok i)"

lemma unat_capacity32 [simp]: "n < 2 ^ 32 \<Longrightarrow> unat (of_nat n :: u32) = n"
  by (simp add: unat_of_nat)

interpretation service: wire_codec serializeServiceInfo deserializeServiceInfo enc_service service_ok
proof unfold_locales
  fix info :: ServiceInfo
  assume ok: "service_ok info"
  then show "emits (serializeServiceInfo info) (enc_service info)"
    unfolding serializeServiceInfo_def enc_service_def
    by (intro emit_rules iface.wr_list_emits) (auto simp: service_ok_def fits_u16_def)
  have ifaces: "parses (rtimes (unat (of_nat (length (si_interfaces info)) :: u16)) deserializeInterfaceInfo)
      (concat (map enc_interface (si_interfaces info))) (si_interfaces info)"
    using ok iface.rd_list_parses [of "si_interfaces info"] by (simp add: service_ok_def)
  show "parses deserializeServiceInfo (enc_service info) info"
    unfolding deserializeServiceInfo_def enc_service_def
    by (rule ifaces parse_rules | (use ok in \<open>simp add: service_ok_def\<close>))+
next
  show "reader_safe deserializeServiceInfo"
    unfolding deserializeServiceInfo_def by (intro safe_rules iface.rd_safe)
qed

subsection \<open>Runtimes\<close>

definition serializeRuntimeInfo :: "RuntimeInfo \<Rightarrow> writer" where
  "serializeRuntimeInfo info = wseq
     [writeUint32 (ri_pid info), writeString (ri_process_name info), writeString (ri_role info),
      writeUint32 (ri_log_level info), writeUint32 (ri_diag_capabilities info),
      wguard (\<not> 0xFFFF < length (ri_services info)),
      writeUint16 (of_nat (length (ri_services info))),
      wseq (map writeString (ri_services info)),
      writeUint32 (ri_session_version info), writeString (ri_runtime_id info),
      writeUint32 (ri_incarnation_id info), writeUint32 (ri_heartbeat_interval_ms info),
      writeUint32 (ri_requested_timeout_ms info), writeString (ri_host_id info)]"

definition deserializeRuntimeInfo :: "RuntimeInfo parser" where
  "deserializeRuntimeInfo =
     rbind tryReadUint32 (\<lambda>pid.
     rbind tryReadString (\<lambda>process_name.
     rbind tryReadString (\<lambda>role.
     rbind tryReadUint32 (\<lambda>log_level.
     rbind tryReadUint32 (\<lambda>diag_capabilities.
     rbind tryReadUint16 (\<lambda>service_count.
     rbind (rtimes (unat service_count) tryReadString) (\<lambda>services.
     rbind tryReadUint32 (\<lambda>session_version.
     rbind tryReadString (\<lambda>runtime_id.
     rbind tryReadUint32 (\<lambda>incarnation_id.
     rbind tryReadUint32 (\<lambda>heartbeat_interval_ms.
     rbind tryReadUint32 (\<lambda>requested_timeout_ms.
     rbind tryReadString (\<lambda>host_id.
     rret \<lparr>ri_pid = pid, ri_process_name = process_name, ri_role = role, ri_log_level = log_level,
           ri_diag_capabilities = diag_capabilities, ri_services = services,
           ri_session_version = session_version, ri_runtime_id = runtime_id,
           ri_incarnation_id = incarnation_id, ri_heartbeat_interval_ms = heartbeat_interval_ms,
           ri_requested_timeout_ms = requested_timeout_ms, ri_host_id = host_id\<rparr>)))))))))))))"

definition enc_runtime :: "RuntimeInfo \<Rightarrow> bytes" where
  "enc_runtime info = concat
     [le32 (ri_pid info), enc_str (ri_process_name info), enc_str (ri_role info),
      le32 (ri_log_level info), le32 (ri_diag_capabilities info),
      le16 (of_nat (length (ri_services info))), concat (map enc_str (ri_services info)),
      le32 (ri_session_version info), enc_str (ri_runtime_id info), le32 (ri_incarnation_id info),
      le32 (ri_heartbeat_interval_ms info), le32 (ri_requested_timeout_ms info),
      enc_str (ri_host_id info)]"

definition runtime_ok :: "RuntimeInfo \<Rightarrow> bool" where
  "runtime_ok info \<longleftrightarrow> str_ok (ri_process_name info) \<and> str_ok (ri_role info) \<and>
     str_ok (ri_runtime_id info) \<and> str_ok (ri_host_id info) \<and> fits_u16 (length (ri_services info)) \<and>
     (\<forall>s \<in> set (ri_services info). str_ok s)"

interpretation runtime: wire_codec serializeRuntimeInfo deserializeRuntimeInfo enc_runtime runtime_ok
proof unfold_locales
  fix info :: RuntimeInfo
  assume ok: "runtime_ok info"
  have fits: "\<forall>s \<in> set (ri_services info). fits_u32 (length s)"
    using ok by (simp add: runtime_ok_def)
  from ok fits show "emits (serializeRuntimeInfo info) (enc_runtime info)"
    unfolding serializeRuntimeInfo_def enc_runtime_def
    by (intro emit_rules str.wr_list_emits) (auto simp: runtime_ok_def fits_u16_def)
  have svcs: "parses (rtimes (unat (of_nat (length (ri_services info)) :: u16)) tryReadString)
      (concat (map enc_str (ri_services info))) (ri_services info)"
    using ok str.rd_list_parses [OF fits] by (simp add: runtime_ok_def)
  show "parses deserializeRuntimeInfo (enc_runtime info) info"
    unfolding deserializeRuntimeInfo_def enc_runtime_def
    by (rule svcs parse_rules | (use ok in \<open>simp add: runtime_ok_def\<close>))+
next
  show "reader_safe deserializeRuntimeInfo"
    unfolding deserializeRuntimeInfo_def by (intro safe_rules)
qed

subsection \<open>Session negotiation\<close>

definition serializeSessionHello :: "SessionHello \<Rightarrow> writer" where
  "serializeSessionHello hello = wseq
     [writeUint32 (sh_version hello), writeString (sh_runtime_id hello),
      writeUint32 (sh_incarnation_id hello), writeUint32 (sh_heartbeat_interval_ms hello),
      writeUint32 (sh_requested_timeout_ms hello), writeUint32 (sh_capabilities hello),
      writeString (sh_host_id hello), writeString (sh_process_name hello),
      writeUint32 (sh_pid hello)]"

definition deserializeSessionHello :: "SessionHello parser" where
  "deserializeSessionHello =
     rbind tryReadUint32 (\<lambda>version.
     rbind tryReadString (\<lambda>runtime_id.
     rbind tryReadUint32 (\<lambda>incarnation_id.
     rbind tryReadUint32 (\<lambda>heartbeat_interval_ms.
     rbind tryReadUint32 (\<lambda>requested_timeout_ms.
     rbind tryReadUint32 (\<lambda>capabilities.
     rbind tryReadString (\<lambda>host_id.
     rbind tryReadString (\<lambda>process_name.
     rbind tryReadUint32 (\<lambda>pid.
     rret \<lparr>sh_version = version, sh_runtime_id = runtime_id, sh_incarnation_id = incarnation_id,
           sh_heartbeat_interval_ms = heartbeat_interval_ms,
           sh_requested_timeout_ms = requested_timeout_ms, sh_capabilities = capabilities,
           sh_host_id = host_id, sh_process_name = process_name, sh_pid = pid\<rparr>)))))))))"

definition enc_hello :: "SessionHello \<Rightarrow> bytes" where
  "enc_hello hello = concat
     [le32 (sh_version hello), enc_str (sh_runtime_id hello), le32 (sh_incarnation_id hello),
      le32 (sh_heartbeat_interval_ms hello), le32 (sh_requested_timeout_ms hello),
      le32 (sh_capabilities hello), enc_str (sh_host_id hello), enc_str (sh_process_name hello),
      le32 (sh_pid hello)]"

definition hello_ok :: "SessionHello \<Rightarrow> bool" where
  "hello_ok hello \<longleftrightarrow> str_ok (sh_runtime_id hello) \<and> str_ok (sh_host_id hello) \<and>
     str_ok (sh_process_name hello)"

interpretation hello: wire_codec serializeSessionHello deserializeSessionHello enc_hello hello_ok
proof unfold_locales
  fix hello :: SessionHello
  assume ok: "hello_ok hello"
  then show "emits (serializeSessionHello hello) (enc_hello hello)"
    unfolding serializeSessionHello_def enc_hello_def hello_ok_def by (intro emit_rules) simp_all
  show "parses deserializeSessionHello (enc_hello hello) hello"
    unfolding deserializeSessionHello_def enc_hello_def
    by (rule parse_rules | (use ok in \<open>simp add: hello_ok_def\<close>))+
next
  show "reader_safe deserializeSessionHello"
    unfolding deserializeSessionHello_def by (intro safe_rules)
qed

definition serializeSessionHelloAck :: "SessionHelloAck \<Rightarrow> writer" where
  "serializeSessionHelloAck ack = wseq
     [writeUint32 (ack_version ack), writeUint32 (ack_status ack),
      writeUint32 (ack_accepted_interval_ms ack), writeUint32 (ack_effective_timeout_ms ack),
      writeUint32 (ack_peer_incarnation_id ack)]"

definition deserializeSessionHelloAck :: "SessionHelloAck parser" where
  "deserializeSessionHelloAck =
     rbind tryReadUint32 (\<lambda>version.
     rbind tryReadUint32 (\<lambda>status.
     rbind tryReadUint32 (\<lambda>accepted_interval_ms.
     rbind tryReadUint32 (\<lambda>effective_timeout_ms.
     rbind tryReadUint32 (\<lambda>peer_incarnation_id.
     rret \<lparr>ack_version = version, ack_status = status,
           ack_accepted_interval_ms = accepted_interval_ms,
           ack_effective_timeout_ms = effective_timeout_ms,
           ack_peer_incarnation_id = peer_incarnation_id\<rparr>)))))"

definition enc_ack :: "SessionHelloAck \<Rightarrow> bytes" where
  "enc_ack ack = concat [le32 (ack_version ack), le32 (ack_status ack),
     le32 (ack_accepted_interval_ms ack), le32 (ack_effective_timeout_ms ack),
     le32 (ack_peer_incarnation_id ack)]"

interpretation ack: wire_codec serializeSessionHelloAck deserializeSessionHelloAck enc_ack "\<lambda>_. True"
proof unfold_locales
  fix ack :: SessionHelloAck
  show "emits (serializeSessionHelloAck ack) (enc_ack ack)"
    unfolding serializeSessionHelloAck_def enc_ack_def by (intro emit_rules)
  show "parses deserializeSessionHelloAck (enc_ack ack) ack"
    unfolding deserializeSessionHelloAck_def enc_ack_def by (rule parse_rules | simp)+
  show "reader_safe deserializeSessionHelloAck"
    unfolding deserializeSessionHelloAck_def by (intro safe_rules)
qed

subsection \<open>Topic subscription selectors\<close>

definition TOPIC_SUB_MODE_TOPIC_ONLY :: byte where "TOPIC_SUB_MODE_TOPIC_ONLY = 0"
definition TOPIC_SUB_MODE_SERVICE :: byte where "TOPIC_SUB_MODE_SERVICE = 1"
definition TOPIC_SUB_MODE_INSTANCE :: byte where "TOPIC_SUB_MODE_INSTANCE = 2"

lemmas mode_defs = TOPIC_SUB_MODE_TOPIC_ONLY_def TOPIC_SUB_MODE_SERVICE_def
  TOPIC_SUB_MODE_INSTANCE_def

record TopicSelector =
  sel_mode :: byte
  sel_publisher_service :: string
  sel_host_id :: string
  sel_instance_id :: string

definition writeTopicSubscriptionSelector :: "TopicSelector \<Rightarrow> writer" where
  "writeTopicSubscriptionSelector sel = wseq
     [wguard (\<not> TOPIC_SUB_MODE_INSTANCE < sel_mode sel),
      writeUint8 (sel_mode sel),
      if TOPIC_SUB_MODE_SERVICE \<le> sel_mode sel then writeString (sel_publisher_service sel)
      else wskip,
      if sel_mode sel = TOPIC_SUB_MODE_INSTANCE
      then wseq [writeString (sel_host_id sel), writeString (sel_instance_id sel)] else wskip]"

definition readTopicSubscriptionSelector :: "TopicSelector parser" where
  "readTopicSubscriptionSelector =
     rbind tryReadUint8 (\<lambda>mode.
     rguard (\<not> TOPIC_SUB_MODE_INSTANCE < mode)
     (rbind (if TOPIC_SUB_MODE_SERVICE \<le> mode then tryReadString else rret []) (\<lambda>publisher_service.
      rbind (if mode = TOPIC_SUB_MODE_INSTANCE then tryReadString else rret []) (\<lambda>host_id.
      rbind (if mode = TOPIC_SUB_MODE_INSTANCE then tryReadString else rret []) (\<lambda>instance_id.
      rret \<lparr>sel_mode = mode, sel_publisher_service = publisher_service, sel_host_id = host_id,
            sel_instance_id = instance_id\<rparr>)))))"

definition enc_selector :: "TopicSelector \<Rightarrow> bytes" where
  "enc_selector sel = concat
     [[sel_mode sel],
      if TOPIC_SUB_MODE_SERVICE \<le> sel_mode sel then enc_str (sel_publisher_service sel) else [],
      if sel_mode sel = TOPIC_SUB_MODE_INSTANCE then enc_str (sel_host_id sel) else [],
      if sel_mode sel = TOPIC_SUB_MODE_INSTANCE then enc_str (sel_instance_id sel) else []]"

text \<open>A selector in normal form: the fields its mode does not use are empty.\<close>

definition selector_ok :: "TopicSelector \<Rightarrow> bool" where
  "selector_ok sel \<longleftrightarrow> sel_mode sel \<le> TOPIC_SUB_MODE_INSTANCE \<and>
     str_ok (sel_publisher_service sel) \<and> str_ok (sel_host_id sel) \<and> str_ok (sel_instance_id sel) \<and>
     (sel_mode sel < TOPIC_SUB_MODE_SERVICE \<longrightarrow> sel_publisher_service sel = []) \<and>
     (sel_mode sel \<noteq> TOPIC_SUB_MODE_INSTANCE \<longrightarrow> sel_host_id sel = [] \<and> sel_instance_id sel = [])"

lemma parses_if: "(c \<Longrightarrow> parses p bs x) \<Longrightarrow> (\<not> c \<Longrightarrow> x = y) \<Longrightarrow>
  parses (if c then p else rret y) (if c then bs else []) x"
  by (cases c) auto

interpretation selector: wire_codec writeTopicSubscriptionSelector readTopicSubscriptionSelector
  enc_selector selector_ok
proof unfold_locales
  fix sel :: TopicSelector
  assume ok: "selector_ok sel"
  let ?I = "sel_mode sel = TOPIC_SUB_MODE_INSTANCE" and ?S = "TOPIC_SUB_MODE_SERVICE \<le> sel_mode sel"
  have s: "emits (if ?S then writeString (sel_publisher_service sel) else wskip)
      (if ?S then enc_str (sel_publisher_service sel) else [])"
    using ok by (simp add: selector_ok_def str.wr_emits)
  have "emits (wseq [writeString (sel_host_id sel), writeString (sel_instance_id sel)])
      (concat [enc_str (sel_host_id sel), enc_str (sel_instance_id sel)])"
    using ok by (intro emit_rules) (simp_all add: selector_ok_def)
  then have i: "emits (if ?I then wseq [writeString (sel_host_id sel), writeString (sel_instance_id sel)]
      else wskip) (concat [if ?I then enc_str (sel_host_id sel) else [],
                           if ?I then enc_str (sel_instance_id sel) else []])"
    by (simp del: wseq.simps)
  show "emits (writeTopicSubscriptionSelector sel) (enc_selector sel)"
    unfolding writeTopicSubscriptionSelector_def enc_selector_def
    using emits_wseq_wguard [of "\<not> TOPIC_SUB_MODE_INSTANCE < sel_mode sel"] ok
      emits_wseq_Cons [OF u8.wr_emits [OF TrueI] emits_wseq_Cons [OF s emits_wseq_Cons [OF i emits_wseq_Nil]]]
    by (simp add: selector_ok_def linorder_not_less del: wseq.simps)
  show "parses readTopicSubscriptionSelector (enc_selector sel) sel"
    unfolding readTopicSubscriptionSelector_def enc_selector_def
    by (rule parses_if parses_rguard parse_rules | (use ok in \<open>force simp: selector_ok_def\<close>))+
next
  show "reader_safe readTopicSubscriptionSelector"
    unfolding readTopicSubscriptionSelector_def by (auto intro!: safe_rules)
qed

subsection \<open>Payloads read to their end\<close>

text \<open>
  Two decoders insist that nothing follows the value. \<open>parses_all p bs x\<close>: where the unread bytes
  are exactly \<open>bs\<close>, the reader returns \<open>x\<close> and has read them all.
\<close>

definition parses_all :: "'a parser \<Rightarrow> bytes \<Rightarrow> 'a \<Rightarrow> bool" where
  "parses_all p bs x \<longleftrightarrow> (\<forall>v. view_ok v \<longrightarrow> view_remaining v = length bs \<longrightarrow>
     mem_get (v_data v) (v_pos v) (length bs) = bs \<longrightarrow> p v = (Some x, v\<lparr>v_pos := v_length v\<rparr>))"

lemma parses_all_rbind:
  assumes "parses p bs1 x" "parses_all (f x) bs2 y"
  shows "parses_all (rbind p f) (bs1 @ bs2) y"
  unfolding parses_all_def
proof (intro allI impI)
  fix v
  assume v: "view_ok v" "view_remaining v = length (bs1 @ bs2)"
    "mem_get (v_data v) (v_pos v) (length (bs1 @ bs2)) = bs1 @ bs2"
  then have len: "v_pos v + (length bs1 + length bs2) \<le> length (v_data v)"
    by (auto simp: view_ok_def view_remaining_def)
  note m = mem_get_appendD [OF v(3) [unfolded length_append] len]
  let ?v1 = "v\<lparr>v_pos := v_pos v + length bs1\<rparr>"
  have "p v = (Some x, ?v1)"
    using assms(1) [unfolded parses_def, rule_format, of v] v m(1) by (simp add: view_remaining_def)
  moreover have "view_ok ?v1" "view_remaining ?v1 = length bs2"
    using v by (auto simp: view_ok_def view_remaining_def)
  then have "f x ?v1 = (Some y, ?v1\<lparr>v_pos := v_length ?v1\<rparr>)"
    using assms(2) [unfolded parses_all_def, rule_format, of ?v1] m(2) by simp
  ultimately show "rbind p f v = (Some y, v\<lparr>v_pos := v_length v\<rparr>)" by (simp add: rbind_def)
qed

lemma parses_all_remaining:
  "parses_all (f (length bs)) bs y \<Longrightarrow> parses_all (rbind rremaining f) bs y"
  by (simp add: parses_all_def rbind_def rremaining_def)

lemma parses_all_read: "parses p bs x \<Longrightarrow> parses_all (f x) (concat bss) y \<Longrightarrow>
  parses_all (rbind p f) (concat (bs # bss)) y"
  using parses_all_rbind [of p bs x f "concat bss" y] by simp

lemma parses_all_return: "x = y \<Longrightarrow> parses_all (rret x) (concat []) y"
  by (auto simp: parses_all_def rret_def view_ok_def view_remaining_def)

lemma parses_all_rguard: "c \<Longrightarrow> parses_all p bs x \<Longrightarrow> parses_all (rguard c p) bs x"
  by (simp add: rguard_def)

lemmas parse_all_rules = parses_all_remaining parses_all_read parses_all_rguard parses_all_return
  u32.rd_parses bool.rd_parses str.rd_parses TrueI

text \<open>Which readers only succeed at the end of the view.\<close>

definition reads_all :: "'a parser \<Rightarrow> bool" where
  "reads_all p \<longleftrightarrow> (\<forall>v x v'. view_ok v \<longrightarrow> p v = (Some x, v') \<longrightarrow> v_pos v' = v_length v')"

lemma reads_all_rbind:
  assumes "reader_safe p" "\<And>x. reads_all (f x)"
  shows "reads_all (rbind p f)"
  unfolding reads_all_def
proof (intro allI impI)
  fix v y v'
  assume v: "view_ok v" "rbind p f v = (Some y, v')"
  then obtain x v1 where 1: "p v = (Some x, v1)" "f x v1 = (Some y, v')"
    by (auto simp: rbind_def split: prod.splits option.splits)
  show "v_pos v' = v_length v'"
    using assms(2) [unfolded reads_all_def, rule_format, OF reader_safeD(4) [OF assms(1) v(1) 1(1)] 1(2)] .
qed

lemma reads_all_rguard: "reads_all p \<Longrightarrow> reads_all (rguard c p)"
  by (auto simp: reads_all_def rguard_def rfail_def)

lemma reads_all_end: "reads_all (rbind rremaining (\<lambda>n. rguard (n = 0 \<and> P) (rret x)))"
  by (auto simp: reads_all_def rbind_def rremaining_def rguard_def rret_def rfail_def
      view_remaining_def view_ok_def split: if_splits)

locale payload_codec =
  fixes wr :: "'a \<Rightarrow> writer" and rd :: "'a parser" and enc :: "'a \<Rightarrow> bytes" and ok :: "'a \<Rightarrow> bool"
  assumes wr_emits: "ok x \<Longrightarrow> emits (wr x) (enc x)"
    and rd_parses_all: "ok x \<Longrightarrow> parses_all rd (enc x) x"
    and rd_safe: "reader_safe rd"
    and rd_reads_all: "reads_all rd"
begin

lemma rd_payload: "ok x \<Longrightarrow> rd (view_of (enc x)) = (Some x, (view_of (enc x))\<lparr>v_pos := length (enc x)\<rparr>)"
  using rd_parses_all [of x, unfolded parses_all_def, rule_format, of "view_of (enc x)"]
  by (simp add: view_of_def view_ok_def view_remaining_def mem_get_def)

lemma payload_roundtrip:
  assumes "ok x" "alloc_total alloc" "length (enc x) \<le> 2 ^ 63"
  shows "\<exists>b'. wr x alloc Buffer_empty = (True, b') \<and> fst (rd (view_of (Buffer_content b'))) = Some x"
proof -
  have em: "appends (wr x) (enc x)" "completes (wr x) (length (enc x))"
    using wr_emits [OF assms(1)] by (simp_all add: emits_def)
  obtain r b' where eq: "wr x alloc Buffer_empty = (r, b')" by force
  have al: "alloc_ok alloc" using assms(2) by (simp add: alloc_total_def)
  have r: r using completesD [OF em(2) assms(2) Buffer_wf_empty] assms(3) eq
    by (simp add: Buffer_empty_def)
  then have "Buffer_content b' = enc x"
    using appendsD(4) [OF em(1) al Buffer_wf_empty eq] by simp
  with eq r rd_payload [OF assms(1)] show ?thesis by simp
qed

lemma payload_inj: "ok x \<Longrightarrow> ok y \<Longrightarrow> enc x = enc y \<Longrightarrow> x = y"
  by (metis rd_payload prod.inject option.inject)

end

subsection \<open>Service identities\<close>

definition writeServiceIdentityPayload :: "ServiceIdentity \<Rightarrow> writer" where
  "writeServiceIdentityPayload i =
     wseq [writeString (id_name i), writeString (id_host_id i), writeString (id_instance_id i)]"

definition readServiceIdentityPayload :: "ServiceIdentity parser" where
  "readServiceIdentityPayload =
     rbind tryReadString (\<lambda>name.
     rbind tryReadString (\<lambda>host_id.
     rbind tryReadString (\<lambda>instance_id.
     rbind rremaining (\<lambda>n.
     rguard (n = 0 \<and> \<not> (name = [] \<or> MAX_SERVICE_NAME_LENGTH < length name
        \<or> MAX_SERVICE_NAME_LENGTH < length host_id \<or> MAX_SERVICE_NAME_LENGTH < length instance_id))
     (rret \<lparr>id_name = name, id_host_id = host_id, id_instance_id = instance_id\<rparr>)))))"

definition enc_identity :: "ServiceIdentity \<Rightarrow> bytes" where
  "enc_identity i =
     concat [enc_str (id_name i), enc_str (id_host_id i), enc_str (id_instance_id i)]"

definition identity_ok :: "ServiceIdentity \<Rightarrow> bool" where
  "identity_ok i \<longleftrightarrow> id_name i \<noteq> [] \<and> length (id_name i) \<le> MAX_SERVICE_NAME_LENGTH \<and>
     length (id_host_id i) \<le> MAX_SERVICE_NAME_LENGTH \<and>
     length (id_instance_id i) \<le> MAX_SERVICE_NAME_LENGTH"

lemma name_fits [simp]: "n \<le> MAX_SERVICE_NAME_LENGTH \<Longrightarrow> fits_u32 n"
  by (simp add: fits_u32_def UINT32_MAX_def MAX_SERVICE_NAME_LENGTH_def)

interpretation identity: payload_codec writeServiceIdentityPayload readServiceIdentityPayload
  enc_identity identity_ok
proof unfold_locales
  fix i :: ServiceIdentity
  assume ok: "identity_ok i"
  then show "emits (writeServiceIdentityPayload i) (enc_identity i)"
    unfolding writeServiceIdentityPayload_def enc_identity_def identity_ok_def
    by (intro emit_rules) simp_all
  show "parses_all readServiceIdentityPayload (enc_identity i) i"
    unfolding readServiceIdentityPayload_def enc_identity_def
    by (rule parse_all_rules | (use ok in \<open>simp add: identity_ok_def linorder_not_less\<close>))+
next
  show "reader_safe readServiceIdentityPayload"
    unfolding readServiceIdentityPayload_def by (intro safe_rules)
  show "reads_all readServiceIdentityPayload"
    unfolding readServiceIdentityPayload_def by (intro reads_all_rbind reads_all_end safe_rules)
qed

subsection \<open>Published topics\<close>

text \<open>
  The per-topic test of both loops, with the bytes of the topics before it in \<open>aggregate_bytes\<close>
  (which stays below the limit, so the subtraction does not wrap).
\<close>

definition topic_accepted :: "nat \<Rightarrow> string \<Rightarrow> bool" where
  "topic_accepted aggregate_bytes topic \<longleftrightarrow>
     \<not> (topic = [] \<or> MAX_TOPIC_NAME_LENGTH < length topic
        \<or> MAX_PUBLISHED_TOPICS_BYTES - aggregate_bytes < length topic)"

fun topics_fit :: "nat \<Rightarrow> string list \<Rightarrow> bool" where
  "topics_fit aggregate_bytes [] = True"
| "topics_fit aggregate_bytes (t # ts) =
     (if topic_accepted aggregate_bytes t then topics_fit (aggregate_bytes + length t) ts else False)"

text \<open>\<open>encoded\<close> is a local buffer; its bytes are appended in one \<open>writeRaw\<close>.\<close>

definition serializePublishedTopicsReply :: "bool \<times> string list \<Rightarrow> writer" where
  "serializePublishedTopicsReply r alloc buf =
     (case r of (found, topics) \<Rightarrow>
        if MAX_PUBLISHED_TOPICS < length topics \<or> (\<not> found \<and> topics \<noteq> []) then (False, buf)
        else if \<not> topics_fit 0 topics then (False, buf)
        else
          case wseq (writeBool found # (if found
                 then [writeUint32 (of_nat (length topics)), wseq (map writeString topics)]
                 else [])) alloc Buffer_empty of
            (False, encoded) \<Rightarrow> (False, buf)
          | (True, encoded) \<Rightarrow>
              writeRaw (mem_get (b_data encoded) 0 (Buffer_size encoded)) alloc buf)"

fun readTopics :: "nat \<Rightarrow> nat \<Rightarrow> string list parser" where
  "readTopics 0 aggregate_bytes = rret []"
| "readTopics (Suc n) aggregate_bytes =
     rbind tryReadString (\<lambda>topic.
     rguard (topic_accepted aggregate_bytes topic)
     (rbind (readTopics n (aggregate_bytes + length topic)) (\<lambda>topics. rret (topic # topics))))"

definition deserializePublishedTopicsReply :: "(bool \<times> string list) parser" where
  "deserializePublishedTopicsReply =
     rbind tryReadBool (\<lambda>found.
     rbind (if found then
              rbind tryReadUint32 (\<lambda>count.
              rbind rremaining (\<lambda>n.
              rguard (\<not> (MAX_PUBLISHED_TOPICS < unat count \<or> n div 4 < unat count))
              (readTopics (unat count) 0)))
            else rret [])
     (\<lambda>topics. rbind rremaining (\<lambda>n. rguard (n = 0 \<and> True) (rret (found, topics)))))"

definition enc_topics :: "bool \<times> string list \<Rightarrow> bytes" where
  "enc_topics r = (case r of (found, topics) \<Rightarrow>
     enc_bool found @
     (if found then le32 (of_nat (length topics)) @ concat (map enc_str topics) else []))"

definition topics_ok :: "bool \<times> string list \<Rightarrow> bool" where
  "topics_ok r = (case r of (found, topics) \<Rightarrow>
     length topics \<le> MAX_PUBLISHED_TOPICS \<and> (found \<or> topics = []) \<and> topics_fit 0 topics)"

lemma topic_accepted_fits: "topic_accepted a t \<Longrightarrow> fits_u32 (length t)"
  by (simp add: topic_accepted_def fits_u32_def UINT32_MAX_def MAX_TOPIC_NAME_LENGTH_def)

lemma topics_fit_strs: "topics_fit a ts \<Longrightarrow> \<forall>t \<in> set ts. fits_u32 (length t)"
  by (induction ts arbitrary: a) (auto dest: topic_accepted_fits split: if_splits)

lemma readTopics_parses:
  "topics_fit a ts \<Longrightarrow> parses (readTopics (length ts) a) (concat (map enc_str ts)) ts"
proof (induction ts arbitrary: a)
  case (Cons t ts)
  then have t: "topic_accepted a t" "topics_fit (a + length t) ts" by (auto split: if_splits)
  have "parses (rbind (readTopics (length ts) (a + length t)) (\<lambda>us. rret (t # us)))
      (concat (map enc_str ts)) (t # ts)"
    using Cons.IH [OF t(2)] by (rule parses_rbind_rret)
  then have "parses (rguard (topic_accepted a t)
      (rbind (readTopics (length ts) (a + length t)) (\<lambda>us. rret (t # us)))) (concat (map enc_str ts)) (t # ts)"
    using t(1) by (simp add: rguard_def)
  then show ?case
    using parses_rbind [OF str.rd_parses [OF topic_accepted_fits [OF t(1)]]] by fastforce
qed simp

lemma readTopics_safe [intro]: "reader_safe (readTopics n a)"
  by (induction n arbitrary: a) (auto intro!: safe_rules)

lemma length_concat_enc_str: "4 * length ts \<le> length (concat (map enc_str ts))"
  by (induction ts) simp_all

text \<open>Writing into the local buffer and copying is the same as writing directly.\<close>

lemma emits_via_local:
  assumes w: "emits w bs"
  shows "emits (\<lambda>alloc buf. case w alloc Buffer_empty of (False, e) \<Rightarrow> (False, buf)
     | (True, e) \<Rightarrow> writeRaw (mem_get (b_data e) 0 (Buffer_size e)) alloc buf) bs"
    (is "emits ?v bs")
proof -
  have eq: "?v alloc buf = (if fst (w alloc Buffer_empty) then writeRaw bs alloc buf else (False, buf))"
    if "alloc_ok alloc" for alloc buf
  proof -
    obtain r e where we: "w alloc Buffer_empty = (r, e)" by force
    have "r \<Longrightarrow> mem_get (b_data e) 0 (Buffer_size e) = bs"
      using w [unfolded emits_def appends_def, THEN conjunct1, rule_format, OF that Buffer_wf_empty we]
      by (simp add: mem_get_def Buffer_content_def Buffer_size_def Buffer_empty_def)
    with we show ?thesis by (cases r) auto
  qed
  have raw: "emits (writeRaw bs) bs" by (rule emits_writeRaw)
  have "appends ?v bs"
    unfolding appends_def
  proof (intro allI impI)
    fix alloc b ok b'
    assume a: "alloc_ok alloc" "Buffer_wf b" "?v alloc b = (ok, b')"
    show "Buffer_wf b' \<and> b_read_pos b' = b_read_pos b \<and> (b_write_failed b \<longrightarrow> b_write_failed b') \<and>
     (if ok then Buffer_content b' = Buffer_content b @ bs \<and> b_write_failed b' = b_write_failed b
      else \<exists>p q. bs = p @ q \<and> Buffer_content b' = Buffer_content b @ p)"
    proof (cases "fst (w alloc Buffer_empty)")
      case True
      with a have "writeRaw bs alloc b = (ok, b')" by (simp only: eq if_True)
      then show ?thesis
        using raw [unfolded emits_def appends_def, THEN conjunct1, rule_format, OF a(1,2)]
        by blast
    next
      case False
      with a show ?thesis by (simp only: eq if_False) auto
    qed
  qed
  moreover have "completes ?v (length bs)"
    unfolding completes_def
  proof (intro allI impI)
    fix alloc b
    assume a: "alloc_total alloc" "Buffer_wf b" "\<not> b_write_failed b" "b_write_pos b + length bs \<le> 2 ^ 63"
    then have "fst (w alloc Buffer_empty)" "fst (writeRaw bs alloc b)"
      using w raw completesD [of w "length bs" alloc Buffer_empty] completesD [of "writeRaw bs" "length bs" alloc b]
      by (simp_all add: emits_def Buffer_empty_def Buffer_wf_def)
    with a(1) show "fst (?v alloc b)" by (simp add: eq alloc_total_def)
  qed
  ultimately show ?thesis by (simp add: emits_def)
qed

interpretation topics: payload_codec serializePublishedTopicsReply deserializePublishedTopicsReply
  enc_topics topics_ok
proof unfold_locales
  fix r :: "bool \<times> string list"
  obtain found topics where r: "r = (found, topics)" by force
  assume ok: "topics_ok r"
  then have n: "length topics \<le> 4096" and fit: "topics_fit 0 topics"
    by (auto simp: topics_ok_def r MAX_PUBLISHED_TOPICS_def)
  then have fits: "\<forall>t \<in> set topics. fits_u32 (length t)" by (simp add: topics_fit_strs)
  let ?w = "wseq (writeBool found # (if found
      then [writeUint32 (of_nat (length topics)), wseq (map writeString topics)] else []))"
  have "emits ?w (enc_topics r)"
  proof (cases found)
    case True
    have "emits (wseq [writeBool True, writeUint32 (of_nat (length topics)), wseq (map writeString topics)])
        (concat [enc_bool True, le32 (of_nat (length topics)), concat (map enc_str topics)])"
      using fits by (intro emit_rules str.wr_list_emits)
    with True show ?thesis by (simp add: enc_topics_def r)
  next
    case False
    have "emits (wseq [writeBool False]) (concat [enc_bool False])" by (intro emit_rules)
    with False show ?thesis by (simp add: enc_topics_def r)
  qed
  moreover have "serializePublishedTopicsReply r = (\<lambda>alloc buf. case ?w alloc Buffer_empty of
      (False, e) \<Rightarrow> (False, buf)
    | (True, e) \<Rightarrow> writeRaw (mem_get (b_data e) 0 (Buffer_size e)) alloc buf)"
    using ok by (intro ext) (auto simp: serializePublishedTopicsReply_def r topics_ok_def simp del: wseq.simps)
  ultimately show "emits (serializePublishedTopicsReply r) (enc_topics r)"
    using emits_via_local by simp
  let ?g = "\<lambda>count :: u32. rbind rremaining (\<lambda>n.
      rguard (\<not> (MAX_PUBLISHED_TOPICS < unat count \<or> n div 4 < unat count)) (readTopics (unat count) 0))"
  have cnt: "unat (of_nat (length topics) :: u32) = length topics" using n by (simp add: unat_of_nat)
  have "parses (rguard (\<not> (MAX_PUBLISHED_TOPICS < length topics \<or> k div 4 < length topics))
      (readTopics (length topics) 0)) (concat (map enc_str topics)) topics"
    if "length (concat (map enc_str topics)) \<le> k" for k
    using that n length_concat_enc_str [of topics] readTopics_parses [OF fit]
    by (intro parses_rguard) (auto simp: MAX_PUBLISHED_TOPICS_def)
  then have inner: "parses (?g (of_nat (length topics))) (concat (map enc_str topics)) topics"
    unfolding cnt by (rule parses_remaining)
  have body: "parses (rbind tryReadUint32 ?g)
      (le32 (of_nat (length topics)) @ concat (map enc_str topics)) topics"
    using u32.rd_parses [OF TrueI] inner by (rule parses_rbind)
  have "parses (if found then rbind tryReadUint32 ?g else rret [])
      (if found then le32 (of_nat (length topics)) @ concat (map enc_str topics) else []) topics"
    using ok by (intro parses_if body) (simp add: topics_ok_def r)
  then have "parses_all deserializePublishedTopicsReply (concat [enc_bool found,
      if found then le32 (of_nat (length topics)) @ concat (map enc_str topics) else []]) r"
    unfolding deserializePublishedTopicsReply_def
    by - (rule parses_all_read, rule bool.rd_parses, rule TrueI, rule parses_all_read, assumption,
        (rule parse_all_rules | simp add: r)+)
  then show "parses_all deserializePublishedTopicsReply (enc_topics r) r"
    by (simp add: enc_topics_def r)
next
  show "reader_safe deserializePublishedTopicsReply"
    unfolding deserializePublishedTopicsReply_def by (auto intro!: safe_rules)
  show "reads_all deserializePublishedTopicsReply"
    unfolding deserializePublishedTopicsReply_def
    by (intro reads_all_rbind reads_all_end) (auto intro!: safe_rules)
qed

text \<open>The reply is small: at most 4096 length prefixes and 512 KiB of names.\<close>

lemma topics_fit_bytes:
  "topics_fit a ts \<Longrightarrow> a \<le> MAX_PUBLISHED_TOPICS_BYTES \<Longrightarrow>
   a + length (concat ts) \<le> MAX_PUBLISHED_TOPICS_BYTES"
proof (induction ts arbitrary: a)
  case (Cons t ts)
  then have t: "topic_accepted a t" "topics_fit (a + length t) ts" by (auto split: if_splits)
  then have "a + length t \<le> MAX_PUBLISHED_TOPICS_BYTES"
    using Cons.prems(2) by (auto simp: topic_accepted_def)
  with Cons.IH [OF t(2)] show ?case by simp
qed simp

lemma length_enc_strs: "length (concat (map enc_str ts)) = 4 * length ts + length (concat ts)"
  by (induction ts) simp_all

lemma enc_topics_size: "topics_ok r \<Longrightarrow> length (enc_topics r) \<le> 2 ^ 63"
proof -
  assume ok: "topics_ok r"
  obtain found ts where r: "r = (found, ts)" by force
  have "length (concat ts) \<le> 512 * 1024" "length ts \<le> 4096"
    using ok topics_fit_bytes [of 0 ts]
    by (simp_all add: topics_ok_def r MAX_PUBLISHED_TOPICS_BYTES_def MAX_PUBLISHED_TOPICS_def)
  then show ?thesis by (simp add: enc_topics_def r length_enc_strs enc_bool_def)
qed

end
