(* ===== verification/ServiceRegistry.thy ===== *)
theory ServiceRegistry
  imports OmniTypes
begin

section \<open>The service registry\<close>

text \<open>
  \<open>ServiceRegistry\<close> of service_manager/service_registry.cpp: the instances registered with the
  service manager, filed by name and instance key, with an index from control connections to the
  instances they own. The abstract view is one partial map from \<open>(name, instance_id)\<close> to entries;
  each operation is related to it, and the index is proved to agree with it at all times.
\<close>

record ServiceEntry =
  se_info :: ServiceInfo
  se_handle :: u32
  se_control_fd :: int

record ServiceIdentityRef =
  ref_name :: string
  ref_instance_key :: string

type_synonym name_index = "(string, (string, ServiceEntry) omap) omap"
type_synonym fd_index = "(int, ServiceIdentityRef list) omap"

record ServiceRegistry =
  services_by_name :: name_index
  fd_to_services :: fd_index
  next_handle :: u32

definition ServiceRegistry_init :: ServiceRegistry where
  "ServiceRegistry_init = \<lparr>services_by_name = om_empty, fd_to_services = om_empty, next_handle = 1\<rparr>"

subsection \<open>Operations\<close>

definition generateHandle :: "ServiceRegistry \<Rightarrow> u32 \<times> ServiceRegistry" where
  "generateHandle reg =
     (let h = next_handle reg; reg = reg\<lparr>next_handle := h + 1\<rparr> in
      if h = INVALID_HANDLE then (next_handle reg, reg\<lparr>next_handle := next_handle reg + 1\<rparr>)
      else (h, reg))"

definition findEntry :: "string \<Rightarrow> string \<Rightarrow> ServiceRegistry \<Rightarrow> ServiceEntry option" where
  "findEntry name instance_key reg =
     (case om_lookup (services_by_name reg) name of
        None \<Rightarrow> None
      | Some m \<Rightarrow> om_lookup m instance_key)"

text \<open>\<open>refs.erase(it); break;\<close>: the first reference that matches goes.\<close>

fun erase_first :: "('a \<Rightarrow> bool) \<Rightarrow> 'a list \<Rightarrow> 'a list" where
  "erase_first P [] = []"
| "erase_first P (x # xs) = (if P x then xs else x # erase_first P xs)"

definition removeFromFdIndex :: "int \<Rightarrow> string \<Rightarrow> string \<Rightarrow> fd_index \<Rightarrow> fd_index" where
  "removeFromFdIndex fd name instance_key idx =
     (case om_lookup idx fd of
        None \<Rightarrow> idx
      | Some refs \<Rightarrow>
          let refs' = erase_first (\<lambda>r. ref_name r = name \<and> ref_instance_key r = instance_key) refs in
          if refs' = [] then om_erase fd idx else om_update fd refs' idx)"

text \<open>\<open>nit->second.erase(eit); if (nit->second.empty()) services_by_name_.erase(nit);\<close>\<close>

definition erase_instance :: "string \<Rightarrow> string \<Rightarrow> name_index \<Rightarrow> name_index" where
  "erase_instance name instance_key idx =
     (case om_lookup idx name of
        None \<Rightarrow> idx
      | Some m \<Rightarrow>
          let m' = om_erase instance_key m in
          if om_is_empty m' then om_erase name idx else om_update name m' idx)"

text \<open>\<open>services_by_name_[name][instance_key] = entry\<close> and \<open>fd_to_services_[fd].push_back(ref)\<close>.\<close>

definition store_instance :: "string \<Rightarrow> string \<Rightarrow> ServiceEntry \<Rightarrow> name_index \<Rightarrow> name_index" where
  "store_instance name instance_key entry idx =
     om_update name (om_update instance_key entry
       (case om_lookup idx name of None \<Rightarrow> om_empty | Some m \<Rightarrow> m)) idx"

definition push_ref :: "int \<Rightarrow> ServiceIdentityRef \<Rightarrow> fd_index \<Rightarrow> fd_index" where
  "push_ref fd r idx =
     om_update fd ((case om_lookup idx fd of None \<Rightarrow> [] | Some refs \<Rightarrow> refs) @ [r]) idx"

definition removeEntryByName :: "string \<Rightarrow> string \<Rightarrow> ServiceRegistry \<Rightarrow> bool \<times> ServiceRegistry" where
  "removeEntryByName name instance_key reg =
     (case findEntry name instance_key reg of
        None \<Rightarrow> (False, reg)
      | Some entry \<Rightarrow>
          (True, reg\<lparr>fd_to_services :=
                       removeFromFdIndex (se_control_fd entry) name instance_key (fd_to_services reg),
                     services_by_name := erase_instance name instance_key (services_by_name reg)\<rparr>))"

text \<open>\<open>addService\<close>: the handle and \<open>displaced_fd\<close>.\<close>

definition addService :: "ServiceInfo \<Rightarrow> int \<Rightarrow> ServiceRegistry \<Rightarrow> (u32 \<times> int) \<times> ServiceRegistry" where
  "addService info control_fd reg =
     (if si_name info = [] then ((INVALID_HANDLE, -1), reg)
      else if MAX_SERVICE_NAME_LENGTH < length (si_name info) then ((INVALID_HANDLE, -1), reg)
      else if MAX_SERVICE_NAME_LENGTH < length (si_host_id info)
              \<or> MAX_SERVICE_NAME_LENGTH < length (si_instance_id info)
      then ((INVALID_HANDLE, -1), reg)
      else
        let name = si_name info;
            instance_key = makeServiceInstanceKey (si_instance_id info);
            ref = \<lparr>ref_name = name, ref_instance_key = instance_key\<rparr>
        in case findEntry name instance_key reg of
             Some old \<Rightarrow>
               let old_fd = se_control_fd old;
                   entry = old\<lparr>se_info := info, se_control_fd := control_fd\<rparr>;
                   reg = reg\<lparr>services_by_name := store_instance name instance_key entry (services_by_name reg)\<rparr>
               in if old_fd \<noteq> control_fd
                  then ((se_handle old, old_fd),
                        reg\<lparr>fd_to_services := push_ref control_fd ref
                              (removeFromFdIndex old_fd name instance_key (fd_to_services reg))\<rparr>)
                  else ((se_handle old, -1), reg)
           | None \<Rightarrow>
               let (handle, reg) = generateHandle reg;
                   entry = \<lparr>se_info = info, se_handle = handle, se_control_fd = control_fd\<rparr>
               in ((handle, -1),
                   reg\<lparr>services_by_name := store_instance name instance_key entry (services_by_name reg),
                       fd_to_services := push_ref control_fd ref (fd_to_services reg)\<rparr>))"

definition removeService :: "string \<Rightarrow> ServiceRegistry \<Rightarrow> bool \<times> ServiceRegistry" where
  "removeService name reg =
     (case om_lookup (services_by_name reg) name of
        None \<Rightarrow> (False, reg)
      | Some m \<Rightarrow>
          (case om_keys m of
             [] \<Rightarrow> (False, reg)
           | instance_key # _ \<Rightarrow> removeEntryByName name instance_key reg))"

definition removeServiceByIdentity :: "ServiceIdentity \<Rightarrow> ServiceRegistry \<Rightarrow> bool \<times> ServiceRegistry" where
  "removeServiceByIdentity identity reg =
     removeEntryByName (id_name identity) (makeServiceInstanceKey (id_instance_id identity)) reg"

text \<open>The loop of \<open>removeByFd\<close> over the copied references.\<close>

fun remove_refs :: "ServiceIdentityRef list \<Rightarrow> name_index \<Rightarrow> ServiceIdentity list \<times> name_index" where
  "remove_refs [] idx = ([], idx)"
| "remove_refs (r # refs) idx =
     (case (case om_lookup idx (ref_name r) of None \<Rightarrow> None | Some m \<Rightarrow> om_lookup m (ref_instance_key r)) of
        None \<Rightarrow> remove_refs refs idx
      | Some entry \<Rightarrow>
          (case remove_refs refs (erase_instance (ref_name r) (ref_instance_key r) idx) of
             (removed, idx') \<Rightarrow>
               (\<lparr>id_name = si_name (se_info entry), id_host_id = si_host_id (se_info entry),
                 id_instance_id = si_instance_id (se_info entry)\<rparr> # removed, idx')))"

definition removeByFd :: "int \<Rightarrow> ServiceRegistry \<Rightarrow> ServiceIdentity list \<times> ServiceRegistry" where
  "removeByFd fd reg =
     (case om_lookup (fd_to_services reg) fd of
        None \<Rightarrow> ([], reg)
      | Some refs \<Rightarrow>
          (case remove_refs refs (services_by_name reg) of
             (removed, idx) \<Rightarrow>
               (removed, reg\<lparr>fd_to_services := om_erase fd (fd_to_services reg),
                             services_by_name := idx\<rparr>)))"

definition findService :: "string \<Rightarrow> ServiceRegistry \<Rightarrow> ServiceEntry option" where
  "findService name reg =
     (case om_lookup (services_by_name reg) name of
        None \<Rightarrow> None
      | Some m \<Rightarrow> (case om_values m of [] \<Rightarrow> None | e # _ \<Rightarrow> Some e))"

definition findServiceByIdentity :: "ServiceIdentity \<Rightarrow> ServiceRegistry \<Rightarrow> ServiceEntry option" where
  "findServiceByIdentity identity reg =
     findEntry (id_name identity) (makeServiceInstanceKey (id_instance_id identity)) reg"

text \<open>The first reference with the name whose entry exists.\<close>

fun first_entry :: "string \<Rightarrow> ServiceIdentityRef list \<Rightarrow> ServiceRegistry \<Rightarrow> ServiceEntry option" where
  "first_entry name [] reg = None"
| "first_entry name (r # refs) reg =
     (if ref_name r \<noteq> name then first_entry name refs reg
      else case findEntry (ref_name r) (ref_instance_key r) reg of
             Some e \<Rightarrow> Some e
           | None \<Rightarrow> first_entry name refs reg)"

definition findServiceByFdAndName :: "int \<Rightarrow> string \<Rightarrow> ServiceRegistry \<Rightarrow> ServiceEntry option" where
  "findServiceByFdAndName fd name reg =
     (case om_lookup (fd_to_services reg) fd of
        None \<Rightarrow> None
      | Some refs \<Rightarrow> first_entry name refs reg)"

definition listServices :: "ServiceRegistry \<Rightarrow> ServiceInfo list" where
  "listServices reg =
     concat (map (\<lambda>m. map se_info (om_values m)) (om_values (services_by_name reg)))"

definition listServiceInstances :: "string \<Rightarrow> ServiceRegistry \<Rightarrow> ServiceInfo list" where
  "listServiceInstances name reg =
     (case om_lookup (services_by_name reg) name of
        None \<Rightarrow> []
      | Some m \<Rightarrow> map se_info (om_values m))"

definition registry_count :: "ServiceRegistry \<Rightarrow> nat" where
  "registry_count reg = sum_list (map om_size (om_values (services_by_name reg)))"

definition registry_exists :: "string \<Rightarrow> ServiceRegistry \<Rightarrow> bool" where
  "registry_exists name reg =
     (case om_lookup (services_by_name reg) name of None \<Rightarrow> False | Some m \<Rightarrow> \<not> om_is_empty m)"

definition getControlFd :: "string \<Rightarrow> ServiceRegistry \<Rightarrow> int" where
  "getControlFd name reg =
     (case om_lookup (services_by_name reg) name of
        None \<Rightarrow> -1
      | Some m \<Rightarrow> (case om_values m of [] \<Rightarrow> -1 | e # _ \<Rightarrow> se_control_fd e))"

definition fd_refs :: "int \<Rightarrow> ServiceRegistry \<Rightarrow> ServiceIdentityRef list" where
  "fd_refs fd reg = (case om_lookup (fd_to_services reg) fd of None \<Rightarrow> [] | Some refs \<Rightarrow> refs)"

text \<open>\<open>if (std::find(names, refs[i].name) == names.end()) names.push_back(...)\<close>.\<close>

definition listServiceNamesByFd :: "int \<Rightarrow> ServiceRegistry \<Rightarrow> string list" where
  "listServiceNamesByFd fd reg =
     foldl (\<lambda>names r. if ref_name r \<in> set names then names else names @ [ref_name r]) [] (fd_refs fd reg)"

definition ownsService :: "int \<Rightarrow> string \<Rightarrow> ServiceRegistry \<Rightarrow> bool" where
  "ownsService fd name reg \<longleftrightarrow> (\<exists>r \<in> set (fd_refs fd reg). ref_name r = name)"

subsection \<open>The two indexes\<close>

definition inst_lookup :: "name_index \<Rightarrow> string \<Rightarrow> string \<Rightarrow> ServiceEntry option" where
  "inst_lookup idx name k = (case om_lookup idx name of None \<Rightarrow> None | Some m \<Rightarrow> om_lookup m k)"

definition refs_of :: "fd_index \<Rightarrow> int \<Rightarrow> ServiceIdentityRef list" where
  "refs_of idx fd = (case om_lookup idx fd of None \<Rightarrow> [] | Some refs \<Rightarrow> refs)"

abbreviation mk_ref :: "string \<Rightarrow> string \<Rightarrow> ServiceIdentityRef" where
  "mk_ref n k \<equiv> \<lparr>ref_name = n, ref_instance_key = k\<rparr>"

lemma findEntry_inst_lookup: "findEntry n k reg = inst_lookup (services_by_name reg) n k"
  by (simp add: findEntry_def inst_lookup_def)

lemma fd_refs_refs_of: "fd_refs fd reg = refs_of (fd_to_services reg) fd"
  by (simp add: fd_refs_def refs_of_def)

lemma inst_lookup_store:
  "inst_lookup (store_instance n k e idx) n' k' = (if n' = n \<and> k' = k then Some e else inst_lookup idx n' k')"
  by (auto simp: inst_lookup_def store_instance_def om_lookup_update split: option.splits)

lemma inst_lookup_erase:
  "inst_lookup (erase_instance n k idx) n' k' = (if n' = n \<and> k' = k then None else inst_lookup idx n' k')"
  by (auto simp: inst_lookup_def erase_instance_def om_lookup_update om_lookup_erase Let_def
      om_is_empty_iff split: option.splits)

lemma refs_of_push: "refs_of (push_ref fd r idx) fd' = (if fd' = fd then refs_of idx fd @ [r] else refs_of idx fd')"
  by (auto simp: refs_of_def push_ref_def om_lookup_update split: option.splits)

lemma refs_of_remove: "refs_of (removeFromFdIndex fd n k idx) fd' =
  (if fd' = fd then erase_first (\<lambda>r. ref_name r = n \<and> ref_instance_key r = k) (refs_of idx fd) else refs_of idx fd')"
  by (auto simp: refs_of_def removeFromFdIndex_def om_lookup_update om_lookup_erase Let_def split: option.splits)

lemma refs_of_erase: "refs_of (om_erase fd idx) fd' = (if fd' = fd then [] else refs_of idx fd')"
  by (simp add: refs_of_def om_lookup_erase)

lemma ref_eq: "(ref_name r = n \<and> ref_instance_key r = k) \<longleftrightarrow> r = mk_ref n k"
  by (cases r) auto

lemma mk_ref_collapse [simp]: "mk_ref (ref_name r) (ref_instance_key r) = r"
  by (cases r) simp

lemma set_erase_first: "distinct xs \<Longrightarrow> set (erase_first (\<lambda>y. y = x) xs) = set xs - {x}"
  by (induction xs) auto

lemma distinct_erase_first: "distinct xs \<Longrightarrow> distinct (erase_first P xs)"
proof -
  have "set (erase_first P xs) \<subseteq> set xs" for xs :: "'a list" by (induction xs) auto
  then show "distinct xs \<Longrightarrow> distinct (erase_first P xs)" by (induction xs) auto
qed

subsection \<open>The invariant\<close>

text \<open>
  No name is left without instances; every connection's references are distinct and are exactly the
  instances whose control connection it is; an entry is filed under its own name and instance; its
  handle is valid and its names respect the limits.
\<close>

definition names_ok :: "name_index \<Rightarrow> bool" where
  "names_ok idx \<longleftrightarrow> (\<forall>n m. om_lookup idx n = Some m \<longrightarrow> \<not> om_is_empty m)"

definition entry_ok :: "string \<Rightarrow> string \<Rightarrow> ServiceEntry \<Rightarrow> bool" where
  "entry_ok n k e \<longleftrightarrow> si_name (se_info e) = n \<and> si_instance_id (se_info e) = k \<and> n \<noteq> [] \<and>
     length n \<le> MAX_SERVICE_NAME_LENGTH \<and> length k \<le> MAX_SERVICE_NAME_LENGTH \<and>
     se_handle e \<noteq> INVALID_HANDLE"

definition fds_ok :: "fd_index \<Rightarrow> bool" where
  "fds_ok idx \<longleftrightarrow> (\<forall>fd refs. om_lookup idx fd = Some refs \<longrightarrow> refs \<noteq> [] \<and> distinct refs)"

definition indexes_agree :: "name_index \<Rightarrow> fd_index \<Rightarrow> bool" where
  "indexes_agree idx fds \<longleftrightarrow> (\<forall>fd n k. mk_ref n k \<in> set (refs_of fds fd) \<longleftrightarrow>
     (\<exists>e. inst_lookup idx n k = Some e \<and> se_control_fd e = fd))"

definition registry_ok :: "ServiceRegistry \<Rightarrow> bool" where
  "registry_ok reg \<longleftrightarrow> names_ok (services_by_name reg) \<and> fds_ok (fd_to_services reg) \<and>
     indexes_agree (services_by_name reg) (fd_to_services reg) \<and>
     (\<forall>n k e. inst_lookup (services_by_name reg) n k = Some e \<longrightarrow> entry_ok n k e)"

lemma names_ok_store: "names_ok idx \<Longrightarrow> names_ok (store_instance n k e idx)"
  by (auto simp: names_ok_def store_instance_def om_lookup_update om_is_empty_iff)

lemma names_ok_erase: "names_ok idx \<Longrightarrow> names_ok (erase_instance n k idx)"
  by (auto simp: names_ok_def erase_instance_def om_lookup_update om_lookup_erase Let_def
      split: option.splits if_splits)

lemma fds_ok_refs: "fds_ok idx \<Longrightarrow> distinct (refs_of idx fd)"
  by (auto simp: fds_ok_def refs_of_def split: option.splits)

lemma fds_ok_push: "fds_ok idx \<Longrightarrow> r \<notin> set (refs_of idx fd) \<Longrightarrow> fds_ok (push_ref fd r idx)"
  using fds_ok_refs [of idx fd]
  by (auto simp: fds_ok_def push_ref_def om_lookup_update refs_of_def split: option.splits)

lemma fds_ok_remove: "fds_ok idx \<Longrightarrow> fds_ok (removeFromFdIndex fd n k idx)"
  by (auto simp: fds_ok_def removeFromFdIndex_def om_lookup_update om_lookup_erase Let_def
      intro: distinct_erase_first split: option.splits if_splits)

lemma fds_ok_erase: "fds_ok idx \<Longrightarrow> fds_ok (om_erase fd idx)"
  by (auto simp: fds_ok_def om_lookup_erase)

lemma set_refs_remove:
  "fds_ok idx \<Longrightarrow> set (refs_of (removeFromFdIndex fd n k idx) fd') =
     (if fd' = fd then set (refs_of idx fd) - {mk_ref n k} else set (refs_of idx fd'))"
  using fds_ok_refs [of idx fd] by (simp add: refs_of_remove ref_eq set_erase_first)

lemma registry_ok_init: "registry_ok ServiceRegistry_init"
  by (simp add: registry_ok_def ServiceRegistry_init_def names_ok_def fds_ok_def indexes_agree_def
      inst_lookup_def refs_of_def)

lemma registry_okD:
  assumes "registry_ok reg"
  shows "names_ok (services_by_name reg)" "fds_ok (fd_to_services reg)"
    "mk_ref n k \<in> set (refs_of (fd_to_services reg) fd) \<longleftrightarrow>
       (\<exists>e. inst_lookup (services_by_name reg) n k = Some e \<and> se_control_fd e = fd)"
    "inst_lookup (services_by_name reg) n k = Some e \<Longrightarrow> entry_ok n k e"
  using assms by (auto simp: registry_ok_def indexes_agree_def)

text \<open>Handles handed out are never the invalid one, also when the counter wraps.\<close>

lemma generateHandle_valid:
  "generateHandle reg = (h, reg') \<Longrightarrow> h \<noteq> INVALID_HANDLE \<and>
     services_by_name reg' = services_by_name reg \<and> fd_to_services reg' = fd_to_services reg"
  by (auto simp: generateHandle_def Let_def INVALID_HANDLE_def split: if_splits)

subsection \<open>Registering\<close>

definition acceptable :: "ServiceInfo \<Rightarrow> bool" where
  "acceptable info \<longleftrightarrow> si_name info \<noteq> [] \<and> length (si_name info) \<le> MAX_SERVICE_NAME_LENGTH \<and>
     length (si_host_id info) \<le> MAX_SERVICE_NAME_LENGTH \<and>
     length (si_instance_id info) \<le> MAX_SERVICE_NAME_LENGTH"

text \<open>
  The abstract effect of a registration on the map of entries, with the handle and displaced
  connection it reports: the entry of that name and instance is replaced, keeping its handle; every
  other entry stays.
\<close>

lemma addService_reject:
  "\<not> acceptable info \<Longrightarrow> addService info fd reg = ((INVALID_HANDLE, -1), reg)"
  by (auto simp: addService_def acceptable_def)

lemma addService_takeover:
  assumes "acceptable info" "findEntry (si_name info) (si_instance_id info) reg = Some old"
    and "addService info fd reg = ((h, displaced), reg')"
  shows "h = se_handle old"
    and "displaced = (if se_control_fd old \<noteq> fd then se_control_fd old else -1)"
    and "findEntry n k reg' = (if n = si_name info \<and> k = si_instance_id info
           then Some \<lparr>se_info = info, se_handle = se_handle old, se_control_fd = fd\<rparr> else findEntry n k reg)"
    and "registry_ok reg \<Longrightarrow> registry_ok reg'"
proof -
  let ?n = "si_name info" and ?k = "si_instance_id info"
  let ?e = "old\<lparr>se_info := info, se_control_fd := fd\<rparr>"
  have e: "?e = \<lparr>se_info = info, se_handle = se_handle old, se_control_fd = fd\<rparr>" by (cases old) simp
  have nr: "\<not> (?n = [])" "\<not> MAX_SERVICE_NAME_LENGTH < length ?n"
    "\<not> (MAX_SERVICE_NAME_LENGTH < length (si_host_id info) \<or> MAX_SERVICE_NAME_LENGTH < length ?k)"
    using assms(1) by (auto simp: acceptable_def)
  have names: "services_by_name reg' = store_instance ?n ?k ?e (services_by_name reg)"
    and fds: "fd_to_services reg' = (if se_control_fd old \<noteq> fd then push_ref fd (mk_ref ?n ?k)
      (removeFromFdIndex (se_control_fd old) ?n ?k (fd_to_services reg)) else fd_to_services reg)"
    and out: "h = se_handle old" "displaced = (if se_control_fd old \<noteq> fd then se_control_fd old else -1)"
    using assms(2,3) nr by (auto simp: addService_def makeServiceInstanceKey_def Let_def split: if_splits)
  show "h = se_handle old" "displaced = (if se_control_fd old \<noteq> fd then se_control_fd old else -1)" by (fact out)+
  show "findEntry n k reg' = (if n = ?n \<and> k = ?k
      then Some \<lparr>se_info = info, se_handle = se_handle old, se_control_fd = fd\<rparr> else findEntry n k reg)"
    by (simp add: findEntry_inst_lookup names inst_lookup_store e)
  assume ok: "registry_ok reg"
  note d = registry_okD [OF ok]
  have old: "inst_lookup (services_by_name reg) ?n ?k = Some old" using assms(2) by (simp add: findEntry_inst_lookup)
  have ent: "entry_ok ?n ?k old" using d(4) [OF old] .
  have notin: "mk_ref ?n ?k \<notin> set (refs_of (removeFromFdIndex (se_control_fd old) ?n ?k (fd_to_services reg)) fd)"
    using d(3) old set_refs_remove [OF d(2)] by auto
  show "registry_ok reg'"
    unfolding registry_ok_def names fds
  proof (intro conjI allI impI)
    show "names_ok (store_instance ?n ?k ?e (services_by_name reg))" using d(1) by (rule names_ok_store)
    show "fds_ok (if se_control_fd old \<noteq> fd then push_ref fd (mk_ref ?n ?k)
      (removeFromFdIndex (se_control_fd old) ?n ?k (fd_to_services reg)) else fd_to_services reg)"
      using d(2) notin by (auto intro: fds_ok_push fds_ok_remove)
    show "indexes_agree (store_instance ?n ?k ?e (services_by_name reg))
      (if se_control_fd old \<noteq> fd then push_ref fd (mk_ref ?n ?k)
        (removeFromFdIndex (se_control_fd old) ?n ?k (fd_to_services reg)) else fd_to_services reg)"
      using d(3) old set_refs_remove [OF d(2)]
      by (auto simp: indexes_agree_def inst_lookup_store refs_of_push)
    fix n k e assume "inst_lookup (store_instance ?n ?k ?e (services_by_name reg)) n k = Some e"
    then show "entry_ok n k e"
      using d(4) ent by (auto simp: inst_lookup_store entry_ok_def split: if_splits)
  qed
qed

lemma addService_new:
  assumes "acceptable info" "findEntry (si_name info) (si_instance_id info) reg = None"
    and "addService info fd reg = ((h, displaced), reg')"
  shows "h \<noteq> INVALID_HANDLE" "displaced = -1"
    and "findEntry n k reg' = (if n = si_name info \<and> k = si_instance_id info
           then Some \<lparr>se_info = info, se_handle = h, se_control_fd = fd\<rparr> else findEntry n k reg)"
    and "registry_ok reg \<Longrightarrow> registry_ok reg'"
proof -
  let ?n = "si_name info" and ?k = "si_instance_id info"
  obtain h0 reg0 where g: "generateHandle reg = (h0, reg0)" by force
  note gv = generateHandle_valid [OF g]
  let ?e = "\<lparr>se_info = info, se_handle = h0, se_control_fd = fd\<rparr>"
  have nr: "\<not> (?n = [])" "\<not> MAX_SERVICE_NAME_LENGTH < length ?n"
    "\<not> (MAX_SERVICE_NAME_LENGTH < length (si_host_id info) \<or> MAX_SERVICE_NAME_LENGTH < length ?k)"
    using assms(1) by (auto simp: acceptable_def)
  have names: "services_by_name reg' = store_instance ?n ?k ?e (services_by_name reg)"
    and fds: "fd_to_services reg' = push_ref fd (mk_ref ?n ?k) (fd_to_services reg)"
    and out: "h = h0" "displaced = -1"
    using assms(2,3) nr g gv by (auto simp: addService_def makeServiceInstanceKey_def Let_def)
  show "h \<noteq> INVALID_HANDLE" "displaced = -1" using out gv by auto
  show "findEntry n k reg' = (if n = ?n \<and> k = ?k
      then Some \<lparr>se_info = info, se_handle = h, se_control_fd = fd\<rparr> else findEntry n k reg)"
    by (simp add: findEntry_inst_lookup names inst_lookup_store out)
  assume ok: "registry_ok reg"
  note d = registry_okD [OF ok]
  have none: "inst_lookup (services_by_name reg) ?n ?k = None" using assms(2) by (simp add: findEntry_inst_lookup)
  have notin: "mk_ref ?n ?k \<notin> set (refs_of (fd_to_services reg) fd')" for fd' using d(3) none by simp
  show "registry_ok reg'"
    unfolding registry_ok_def names fds
  proof (intro conjI allI impI)
    show "names_ok (store_instance ?n ?k ?e (services_by_name reg))" using d(1) by (rule names_ok_store)
    show "fds_ok (push_ref fd (mk_ref ?n ?k) (fd_to_services reg))" using d(2) notin by (rule fds_ok_push)
    show "indexes_agree (store_instance ?n ?k ?e (services_by_name reg)) (push_ref fd (mk_ref ?n ?k) (fd_to_services reg))"
      using d(3) notin none by (auto simp: indexes_agree_def inst_lookup_store refs_of_push)
    fix n k e assume "inst_lookup (store_instance ?n ?k ?e (services_by_name reg)) n k = Some e"
    then show "entry_ok n k e"
      using d(4) assms(1) gv by (auto simp: inst_lookup_store entry_ok_def acceptable_def split: if_splits)
  qed
qed

lemma addService_ok: "registry_ok reg \<Longrightarrow> registry_ok (snd (addService info fd reg))"
proof (cases "acceptable info")
  case True
  assume ok: "registry_ok reg"
  obtain h dis reg' where a: "addService info fd reg = ((h, dis), reg')" by (metis prod.exhaust)
  show ?thesis
    using addService_takeover(4) [OF True _ a ok] addService_new(4) [OF True _ a ok] a
    by (cases "findEntry (si_name info) (si_instance_id info) reg") auto
qed (simp add: addService_reject)

subsection \<open>Removing\<close>

lemma removeEntryByName_none:
  "findEntry n k reg = None \<Longrightarrow> removeEntryByName n k reg = (False, reg)"
  by (simp add: removeEntryByName_def)

lemma removeEntryByName_some:
  assumes "findEntry n k reg = Some e" "removeEntryByName n k reg = (r, reg')"
  shows "r" and "findEntry n' k' reg' = (if n' = n \<and> k' = k then None else findEntry n' k' reg)"
    and "registry_ok reg \<Longrightarrow> registry_ok reg'"
proof -
  have reg': "services_by_name reg' = erase_instance n k (services_by_name reg)"
    "fd_to_services reg' = removeFromFdIndex (se_control_fd e) n k (fd_to_services reg)" "r"
    using assms by (auto simp: removeEntryByName_def)
  then show "r" "findEntry n' k' reg' = (if n' = n \<and> k' = k then None else findEntry n' k' reg)"
    by (simp_all add: findEntry_inst_lookup inst_lookup_erase)
  assume ok: "registry_ok reg"
  note d = registry_okD [OF ok]
  have e: "inst_lookup (services_by_name reg) n k = Some e" using assms(1) by (simp add: findEntry_inst_lookup)
  show "registry_ok reg'"
    unfolding registry_ok_def reg'
    using d e set_refs_remove [OF d(2)]
    by (auto simp: indexes_agree_def inst_lookup_erase intro: names_ok_erase fds_ok_remove split: if_splits)
qed

lemma removeEntryByName_ok: "registry_ok reg \<Longrightarrow> registry_ok (snd (removeEntryByName n k reg))"
proof (cases "findEntry n k reg")
  case (Some e)
  assume ok: "registry_ok reg"
  obtain r reg' where a: "removeEntryByName n k reg = (r, reg')" by force
  from removeEntryByName_some(3) [OF Some a ok] a show ?thesis by simp
qed (simp add: removeEntryByName_none)

lemma remove_refs_effect:
  "remove_refs refs idx = (removed, idx') \<Longrightarrow>
     (\<forall>n k. inst_lookup idx' n k = (if mk_ref n k \<in> set refs then None else inst_lookup idx n k)) \<and>
     (names_ok idx \<longrightarrow> names_ok idx')"
proof (induction refs arbitrary: idx removed idx')
  case (Cons r refs)
  let ?n = "ref_name r" and ?k = "ref_instance_key r"
  have r: "r = mk_ref n k \<longleftrightarrow> n = ?n \<and> k = ?k" for n k by (cases r) auto
  have look: "(case om_lookup idx ?n of None \<Rightarrow> None | Some m \<Rightarrow> om_lookup m ?k) = inst_lookup idx ?n ?k"
    by (simp add: inst_lookup_def)
  show ?case
  proof (cases "inst_lookup idx ?n ?k")
    case None
    then have "remove_refs refs idx = (removed, idx')" using Cons.prems by (simp add: look)
    from Cons.IH [OF this] None show ?thesis by (auto simp: r)
  next
    case (Some e)
    then obtain rm where "remove_refs refs (erase_instance ?n ?k idx) = (rm, idx')"
      using Cons.prems by (auto simp: look split: prod.splits)
    from Cons.IH [OF this] names_ok_erase [of idx] show ?thesis by (auto simp: r inst_lookup_erase)
  qed
qed simp

lemma remove_refs_reported:
  "remove_refs refs idx = (removed, idx') \<Longrightarrow> distinct refs \<Longrightarrow>
   (\<forall>n k. mk_ref n k \<in> set refs \<longrightarrow> (\<exists>e. inst_lookup idx n k = Some e \<and> entry_ok n k e)) \<Longrightarrow>
   map (\<lambda>i. mk_ref (id_name i) (id_instance_id i)) removed = refs"
proof (induction refs arbitrary: idx removed idx')
  case (Cons r refs)
  let ?n = "ref_name r" and ?k = "ref_instance_key r"
  have look: "(case om_lookup idx ?n of None \<Rightarrow> None | Some m \<Rightarrow> om_lookup m ?k) = inst_lookup idx ?n ?k"
    by (simp add: inst_lookup_def)
  have "mk_ref ?n ?k \<in> set (r # refs)" by simp
  then obtain e where e: "inst_lookup idx ?n ?k = Some e" "entry_ok ?n ?k e" using Cons.prems(3) by blast
  then obtain i rm where rm: "remove_refs refs (erase_instance ?n ?k idx) = (rm, idx')"
    and rem: "removed = i # rm" "id_name i = si_name (se_info e)" "id_instance_id i = si_instance_id (se_info e)"
    using Cons.prems(1) by (auto simp: look split: prod.splits)
  have "mk_ref n k \<in> set refs \<Longrightarrow> (\<exists>e. inst_lookup (erase_instance ?n ?k idx) n k = Some e \<and> entry_ok n k e)" for n k
    using Cons.prems(2,3) by (auto simp: inst_lookup_erase)
  then have "map (\<lambda>i. mk_ref (id_name i) (id_instance_id i)) rm = refs"
    using Cons.IH [OF rm] Cons.prems(2) by simp
  moreover have "mk_ref (id_name i) (id_instance_id i) = r" using rem e(2) by (simp add: entry_ok_def)
  ultimately show ?case using rem by simp
qed simp

text \<open>
  Closing a connection removes exactly the instances it owns, and reports them in the order in which
  they were registered.
\<close>

lemma removeByFd_spec:
  assumes ok: "registry_ok reg" and a: "removeByFd fd reg = (removed, reg')"
  shows "registry_ok reg'"
    and "findEntry n k reg' = (case findEntry n k reg of None \<Rightarrow> None
           | Some e \<Rightarrow> if se_control_fd e = fd then None else Some e)"
    and "map (\<lambda>i. mk_ref (id_name i) (id_instance_id i)) removed = fd_refs fd reg"
proof -
  note d = registry_okD [OF ok]
  let ?refs = "refs_of (fd_to_services reg) fd"
  obtain rm idx where r: "remove_refs ?refs (services_by_name reg) = (rm, idx)" by force
  note eff = remove_refs_effect [OF r]
  have reg': "reg' = reg\<lparr>fd_to_services := om_erase fd (fd_to_services reg), services_by_name := idx\<rparr>"
    and rmd: "removed = rm"
  proof -
    have "reg' = reg\<lparr>fd_to_services := om_erase fd (fd_to_services reg), services_by_name := idx\<rparr> \<and> removed = rm"
    proof (cases "om_lookup (fd_to_services reg) fd")
      case None
      then have "om_erase fd (fd_to_services reg) = fd_to_services reg"
        by (intro om_ext) (simp add: om_lookup_erase)
      with None a r show ?thesis by (auto simp: removeByFd_def refs_of_def)
    next
      case (Some refs)
      with a r show ?thesis by (auto simp: removeByFd_def refs_of_def split: prod.splits)
    qed
    then show "reg' = reg\<lparr>fd_to_services := om_erase fd (fd_to_services reg), services_by_name := idx\<rparr>" "removed = rm" by auto
  qed
  have look: "inst_lookup idx n k = (case inst_lookup (services_by_name reg) n k of None \<Rightarrow> None
      | Some e \<Rightarrow> if se_control_fd e = fd then None else Some e)" for n k
    using eff d(3) by (auto split: option.splits)
  then show "findEntry n k reg' = (case findEntry n k reg of None \<Rightarrow> None
           | Some e \<Rightarrow> if se_control_fd e = fd then None else Some e)"
    by (simp add: findEntry_inst_lookup reg')
  show "registry_ok reg'"
    unfolding registry_ok_def reg'
    using eff d look by (auto simp: indexes_agree_def refs_of_erase intro: fds_ok_erase split: option.splits if_splits)
  have "\<forall>n k. mk_ref n k \<in> set ?refs \<longrightarrow> (\<exists>e. inst_lookup (services_by_name reg) n k = Some e \<and> entry_ok n k e)"
    using d(3,4) by blast
  then show "map (\<lambda>i. mk_ref (id_name i) (id_instance_id i)) removed = fd_refs fd reg"
    using remove_refs_reported [OF r fds_ok_refs [OF d(2)]] by (simp add: rmd fd_refs_refs_of)
qed

subsection \<open>Looking up\<close>

lemma ownsService_iff:
  "registry_ok reg \<Longrightarrow> ownsService fd name reg \<longleftrightarrow> (\<exists>k e. findEntry name k reg = Some e \<and> se_control_fd e = fd)"
  unfolding ownsService_def fd_refs_refs_of findEntry_inst_lookup
  using registry_okD(3) [of reg] by (metis ServiceIdentityRef.select_convs(1) ServiceIdentityRef.surjective old.unit.exhaust)

lemma first_entry_spec:
  "(\<forall>r \<in> set refs. \<exists>e. findEntry (ref_name r) (ref_instance_key r) reg = Some e) \<Longrightarrow>
   first_entry name refs reg = (case filter (\<lambda>r. ref_name r = name) refs of
      [] \<Rightarrow> None | r # _ \<Rightarrow> findEntry name (ref_instance_key r) reg)"
  by (induction refs) (auto split: option.splits)

text \<open>A lookup by connection and name finds an instance exactly when the connection owns one.\<close>

lemma findServiceByFdAndName_iff:
  assumes ok: "registry_ok reg"
  shows "findServiceByFdAndName fd name reg = None \<longleftrightarrow> \<not> ownsService fd name reg"
    and "findServiceByFdAndName fd name reg = Some e \<Longrightarrow>
      findEntry name (si_instance_id (se_info e)) reg = Some e \<and> se_control_fd e = fd"
proof -
  let ?refs = "fd_refs fd reg"
  have ex: "\<exists>e. findEntry (ref_name r) (ref_instance_key r) reg = Some e \<and> se_control_fd e = fd" if "r \<in> set ?refs" for r
    using that registry_okD(3) [OF ok, of "ref_name r" "ref_instance_key r" fd]
    by (simp add: fd_refs_refs_of findEntry_inst_lookup)
  have f: "findServiceByFdAndName fd name reg = first_entry name ?refs reg"
    by (simp add: findServiceByFdAndName_def fd_refs_def split: option.splits)
  have "\<forall>r \<in> set ?refs. \<exists>e. findEntry (ref_name r) (ref_instance_key r) reg = Some e" using ex by blast
  note fe = f first_entry_spec [OF this, of name]
  show "findServiceByFdAndName fd name reg = None \<longleftrightarrow> \<not> ownsService fd name reg"
  proof (cases "filter (\<lambda>r. ref_name r = name) ?refs")
    case Nil
    with fe ex show ?thesis by (auto simp: ownsService_def filter_empty_conv)
  next
    case (Cons r rs)
    then have r: "r \<in> set ?refs" "ref_name r = name" by (auto dest: filter_eq_ConsD)
    with ex obtain e where "findEntry name (ref_instance_key r) reg = Some e" by blast
    with fe r Cons show ?thesis by (auto simp: ownsService_def)
  qed
  assume "findServiceByFdAndName fd name reg = Some e"
  then obtain r rs where r: "filter (\<lambda>r. ref_name r = name) ?refs = r # rs" "findEntry name (ref_instance_key r) reg = Some e"
    using fe ex by (auto split: list.splits)
  then have m: "r \<in> set ?refs" "ref_name r = name" by (auto dest: filter_eq_ConsD)
  with ex r(2) have "se_control_fd e = fd" by fastforce
  moreover have "si_instance_id (se_info e) = ref_instance_key r"
    using registry_okD(4) [OF ok] r(2) by (simp add: findEntry_inst_lookup entry_ok_def)
  ultimately show "findEntry name (si_instance_id (se_info e)) reg = Some e \<and> se_control_fd e = fd" using r(2) by simp
qed

text \<open>\<open>findService\<close>: the instance with the least key among those of the name.\<close>

lemma findService_least:
  assumes "findService name reg = Some e"
  shows "\<exists>k. findEntry name k reg = Some e \<and> (\<forall>k' e'. findEntry name k' reg = Some e' \<longrightarrow> k \<le> k')"
proof -
  obtain m e' where m: "om_lookup (services_by_name reg) name = Some m" and v: "om_values m = e # e'"
    using assms by (auto simp: findService_def split: option.splits list.splits)
  then obtain k rest where l: "om_list m = (k, e) # rest" by (auto simp: om_values_def)
  have "sorted_keys (om_list m)" by simp
  then have "\<forall>p \<in> set rest. k < fst p" by (simp add: l)
  then have "k \<le> k'" if "om_lookup m k' = Some x" for k' x
    using that l by (auto simp: in_om_list_iff [symmetric])
  moreover have "om_lookup m k = Some e" using l by (simp add: in_om_list_iff [symmetric])
  ultimately show ?thesis using m by (auto simp: findEntry_def)
qed

lemma findService_None:
  assumes "registry_ok reg"
  shows "findService name reg = None \<longleftrightarrow> (\<forall>k. findEntry name k reg = None)"
proof (cases "om_lookup (services_by_name reg) name")
  case None
  then show ?thesis by (simp add: findService_def findEntry_def)
next
  case (Some m)
  then have ne: "\<not> om_is_empty m" using registry_okD(1) [OF assms] by (auto simp: names_ok_def)
  then obtain k where "om_lookup m k \<noteq> None" by (auto simp: om_is_empty_iff)
  moreover have "om_values m \<noteq> []" using ne by (simp add: om_values_def om_is_empty_def)
  ultimately show ?thesis using Some by (auto simp: findService_def findEntry_def split: list.splits)
qed

lemma listServiceInstances_iff:
  "info \<in> set (listServiceInstances name reg) \<longleftrightarrow> (\<exists>k e. findEntry name k reg = Some e \<and> se_info e = info)"
proof (cases "om_lookup (services_by_name reg) name")
  case (Some m)
  have "info \<in> se_info ` set (om_values m) \<longleftrightarrow> (\<exists>e. e \<in> set (om_values m) \<and> se_info e = info)" by auto
  with Some show ?thesis by (auto simp: listServiceInstances_def findEntry_def in_om_values_iff)
qed (simp add: listServiceInstances_def findEntry_def)

lemma listServices_iff:
  "info \<in> set (listServices reg) \<longleftrightarrow> (\<exists>n k e. findEntry n k reg = Some e \<and> se_info e = info)"
proof -
  have "info \<in> set (listServices reg) \<longleftrightarrow>
      (\<exists>m. m \<in> set (om_values (services_by_name reg)) \<and> info \<in> set (map se_info (om_values m)))"
    by (auto simp: listServices_def)
  also have "\<dots> \<longleftrightarrow> (\<exists>n. info \<in> set (listServiceInstances n reg))"
    by (auto simp: listServiceInstances_def in_om_values_iff [of _ "services_by_name reg"] simp del: set_map
        split: option.splits) metis+
  finally have "info \<in> set (listServices reg) \<longleftrightarrow> (\<exists>n. info \<in> set (listServiceInstances n reg))" .
  then show ?thesis by (simp add: listServiceInstances_iff)
qed

lemma registry_count_list: "registry_count reg = length (listServices reg)"
  by (simp add: registry_count_def listServices_def length_concat comp_def om_size_def om_values_def)

subsection \<open>The registry as a directory\<close>

text \<open>
  The abstract directory: which connection serves each \<open>(name, instance)\<close>, and with which metadata.
  Handles are left out: they are allocated, not computed from the request.
\<close>

type_synonym directory = "string \<times> string \<Rightarrow> (ServiceInfo \<times> int) option"

definition directory_of :: "ServiceRegistry \<Rightarrow> directory" where
  "directory_of reg = (\<lambda>(n, k). map_option (\<lambda>e. (se_info e, se_control_fd e)) (findEntry n k reg))"

datatype registry_op =
    RegAdd ServiceInfo int
  | RegRemoveIdentity ServiceIdentity
  | RegRemoveFd int

fun registry_step :: "registry_op \<Rightarrow> ServiceRegistry \<Rightarrow> ServiceRegistry" where
  "registry_step (RegAdd info fd) reg = snd (addService info fd reg)"
| "registry_step (RegRemoveIdentity i) reg = snd (removeServiceByIdentity i reg)"
| "registry_step (RegRemoveFd fd) reg = snd (removeByFd fd reg)"

fun directory_step :: "registry_op \<Rightarrow> directory \<Rightarrow> directory" where
  "directory_step (RegAdd info fd) d =
     (if acceptable info then d((si_name info, si_instance_id info) \<mapsto> (info, fd)) else d)"
| "directory_step (RegRemoveIdentity i) d = d((id_name i, id_instance_id i) := None)"
| "directory_step (RegRemoveFd fd) d = (\<lambda>key. case d key of None \<Rightarrow> None | Some (info, fd') \<Rightarrow> if fd' = fd then None else Some (info, fd'))"

lemma directory_add:
  "directory_of (snd (addService info fd reg)) = directory_step (RegAdd info fd) (directory_of reg)"
proof (cases "acceptable info")
  case True
  obtain h dis reg' where a: "addService info fd reg = ((h, dis), reg')" by (metis prod.exhaust)
  show ?thesis
  proof (cases "findEntry (si_name info) (si_instance_id info) reg")
    case None
    show ?thesis using addService_new(3) [OF True None a] True
      by (auto simp: directory_of_def a fun_eq_iff)
  next
    case (Some old)
    show ?thesis using addService_takeover(3) [OF True Some a] True
      by (auto simp: directory_of_def a fun_eq_iff)
  qed
qed (simp add: addService_reject)

lemma directory_remove:
  "directory_of (snd (removeServiceByIdentity i reg)) = directory_step (RegRemoveIdentity i) (directory_of reg)"
proof (cases "findEntry (id_name i) (id_instance_id i) reg")
  case None
  then show ?thesis
    by (auto simp: removeServiceByIdentity_def makeServiceInstanceKey_def removeEntryByName_none directory_of_def fun_eq_iff)
next
  case (Some e)
  obtain r reg' where a: "removeEntryByName (id_name i) (id_instance_id i) reg = (r, reg')" by force
  show ?thesis using removeEntryByName_some(2) [OF Some a]
    by (auto simp: removeServiceByIdentity_def makeServiceInstanceKey_def a directory_of_def fun_eq_iff)
qed

interpretation registry: simulation registry_ok directory_of registry_step directory_step
proof
  fix reg op
  assume ok: "registry_ok reg"
  show "registry_ok (registry_step op reg)"
    using ok removeByFd_spec(1) [OF ok surjective_pairing]
    by (cases op) (simp_all add: addService_ok removeServiceByIdentity_def removeEntryByName_ok)
  show "directory_of (registry_step op reg) = directory_step op (directory_of reg)"
  proof (cases op)
    case (RegRemoveFd fd)
    obtain removed reg' where a: "removeByFd fd reg = (removed, reg')" by force
    with RegRemoveFd removeByFd_spec(2) [OF ok a] show ?thesis
      by (auto simp: directory_of_def fun_eq_iff split: option.splits)
  qed (use directory_add directory_remove in auto)
qed

end
