(* ===== verification/TopicManager.thy ===== *)
theory TopicManager
  imports OmniTypes
begin

section \<open>Topics: publishers and subscribers\<close>

text \<open>
  \<open>TopicManager\<close> of service_manager/topic_manager.cpp: which connections publish and subscribe which
  topics. An entry stands for a topic of one publishing service (the empty service name for
  subscriptions to a topic of any service). Around the entries the class keeps counters and reverse
  indexes; the invariant states that they agree with the entries, and every operation is proved to
  keep it. \<open>size_t\<close> counters are natural numbers; a subtraction that C++ would wrap is written so.
\<close>

definition MAX_TOPICS_GLOBAL :: nat where "MAX_TOPICS_GLOBAL = 16384"
definition MAX_TOPIC_PUBLICATIONS_PER_CONNECTION :: nat where "MAX_TOPIC_PUBLICATIONS_PER_CONNECTION = 4096"
definition MAX_TOPIC_SUBSCRIPTIONS_PER_CONNECTION :: nat where "MAX_TOPIC_SUBSCRIPTIONS_PER_CONNECTION = 4096"
definition MAX_SUBSCRIBERS_PER_TOPIC :: nat where "MAX_SUBSCRIBERS_PER_TOPIC = 4096"
definition MAX_TOPIC_SUBSCRIPTIONS_GLOBAL :: nat where "MAX_TOPIC_SUBSCRIPTIONS_GLOBAL = 16384"

datatype TopicSubscribeMode = TOPIC_ONLY | SERVICE | INSTANCE

record TopicSubscriptionFilter =
  tf_mode :: TopicSubscribeMode
  tf_publisher_service :: string
  tf_host_id :: string
  tf_instance_id :: string

definition Filter_default :: TopicSubscriptionFilter where
  "Filter_default = \<lparr>tf_mode = TOPIC_ONLY, tf_publisher_service = [], tf_host_id = [], tf_instance_id = []\<rparr>"

definition Filter_service :: "string \<Rightarrow> TopicSubscriptionFilter" where
  "Filter_service publisher_service =
     Filter_default\<lparr>tf_mode := SERVICE, tf_publisher_service := publisher_service\<rparr>"

definition Filter_instance :: "string \<Rightarrow> string \<Rightarrow> TopicSubscriptionFilter" where
  "Filter_instance publisher_service instance_id =
     Filter_default\<lparr>tf_mode := INSTANCE, tf_publisher_service := publisher_service,
                    tf_instance_id := instance_id\<rparr>"

definition filter_key :: "TopicSubscriptionFilter \<Rightarrow> string" where
  "filter_key f =
     (case tf_mode f of
        INSTANCE \<Rightarrow> ''I|'' @ dec (length (tf_publisher_service f)) @ ''|'' @ tf_publisher_service f @
                    dec (length (tf_instance_id f)) @ ''|'' @ tf_instance_id f
      | SERVICE \<Rightarrow> ''S|'' @ dec (length (tf_publisher_service f)) @ ''|'' @ tf_publisher_service f
      | TOPIC_ONLY \<Rightarrow> ''T'')"

definition filter_matches :: "TopicSubscriptionFilter \<Rightarrow> ServiceInfo \<Rightarrow> bool" where
  "filter_matches f publisher =
     (if tf_mode f = TOPIC_ONLY then True
      else if si_name publisher \<noteq> tf_publisher_service f then False
      else if tf_mode f = INSTANCE then si_instance_id publisher = tf_instance_id f
      else True)"

record PublisherSlot =
  ps_fd :: int
  ps_info :: ServiceInfo
  ps_idl_hash :: u32

type_synonym subscriber_map = "(int, (string, TopicSubscriptionFilter) omap) omap"

record TopicEntry =
  te_service_name :: string
  te_topic_name :: string
  te_publishers :: "(string, PublisherSlot) omap"
  te_subscribers :: subscriber_map

record TopicPublisherView =
  pv_info :: ServiceInfo
  pv_idl_hash :: u32

type_synonym topic_map = "(string, TopicEntry) omap"

record TopicManager =
  topics :: topic_map
  topic_name_refs :: "(string, nat) omap"
  fd_subscriptions :: "(int, string oset) omap"
  fd_publications :: "(int, string oset) omap"
  fd_subscription_counts :: "(int, nat) omap"
  total_subscriptions :: nat

definition TopicManager_init :: TopicManager where
  "TopicManager_init = \<lparr>topics = om_empty, topic_name_refs = om_empty, fd_subscriptions = om_empty,
     fd_publications = om_empty, fd_subscription_counts = om_empty, total_subscriptions = 0\<rparr>"

subsection \<open>Entries\<close>

definition entryKey :: "string \<Rightarrow> string \<Rightarrow> string" where
  "entryKey service_name topic_name = dec (length service_name) @ '':'' @ service_name @ topic_name"

definition new_entry :: "string \<Rightarrow> string \<Rightarrow> TopicEntry" where
  "new_entry service_name topic_name =
     \<lparr>te_service_name = service_name, te_topic_name = topic_name, te_publishers = om_empty,
      te_subscribers = om_empty\<rparr>"

definition entry_unused :: "TopicEntry \<Rightarrow> bool" where
  "entry_unused e \<longleftrightarrow> om_is_empty (te_publishers e) \<and> om_is_empty (te_subscribers e)"

definition releaseTopicNameRef :: "string \<Rightarrow> TopicManager \<Rightarrow> TopicManager" where
  "releaseTopicNameRef topic_name tm =
     (case om_lookup (topic_name_refs tm) topic_name of
        None \<Rightarrow> tm
      | Some n \<Rightarrow>
          if 1 < n then tm\<lparr>topic_name_refs := om_update topic_name (n - 1) (topic_name_refs tm)\<rparr>
          else tm\<lparr>topic_name_refs := om_erase topic_name (topic_name_refs tm)\<rparr>)"

text \<open>The iterator is the key of the entry.\<close>

definition eraseEntryIfUnused :: "string \<Rightarrow> TopicManager \<Rightarrow> TopicManager" where
  "eraseEntryIfUnused ekey tm =
     (case om_lookup (topics tm) ekey of
        None \<Rightarrow> tm
      | Some e \<Rightarrow>
          if entry_unused e
          then let tm = releaseTopicNameRef (te_topic_name e) tm
               in tm\<lparr>topics := om_erase ekey (topics tm)\<rparr>
          else tm)"

text \<open>\<open>topic_name_refs_[topic]++\<close> and the insertion of a fresh entry.\<close>

definition add_entry :: "string \<Rightarrow> string \<Rightarrow> TopicManager \<Rightarrow> TopicManager" where
  "add_entry service_name topic tm =
     tm\<lparr>topics := om_update (entryKey service_name topic) (new_entry service_name topic) (topics tm),
        topic_name_refs := om_update topic
          (case om_lookup (topic_name_refs tm) topic of None \<Rightarrow> 1 | Some n \<Rightarrow> n + 1) (topic_name_refs tm)\<rparr>"

definition put_entry :: "string \<Rightarrow> TopicEntry \<Rightarrow> TopicManager \<Rightarrow> TopicManager" where
  "put_entry ekey e tm = tm\<lparr>topics := om_update ekey e (topics tm)\<rparr>"

text \<open>\<open>a - b\<close> on \<open>size_t\<close>.\<close>

definition size_sub :: "nat \<Rightarrow> nat \<Rightarrow> nat" where
  "size_sub a b = (if b \<le> a then a - b else a + 2 ^ 64 - b)"

subsection \<open>Publishing\<close>

text \<open>
  The loop over the publishers of one entry that erases those selected and takes the entry out of
  the publication index of their connections; the flag says whether any was erased.
\<close>

definition erase_slots ::
    "(PublisherSlot \<Rightarrow> bool) \<Rightarrow> string \<Rightarrow> TopicManager \<Rightarrow> bool \<times> TopicManager" where
  "erase_slots sel ekey tm =
     (case om_lookup (topics tm) ekey of
        None \<Rightarrow> (False, tm)
      | Some e \<Rightarrow>
          fold (\<lambda>(pk, slot) (any_removed, tm).
              if \<not> sel slot then (any_removed, tm)
              else
                case om_lookup (topics tm) ekey of
                  None \<Rightarrow> (any_removed, tm)
                | Some e \<Rightarrow>
                    (True, put_entry ekey (e\<lparr>te_publishers := om_erase pk (te_publishers e)\<rparr>)
                       (tm\<lparr>fd_publications := bucket_erase (ps_fd slot) ekey (fd_publications tm)\<rparr>)))
            (om_list (te_publishers e)) (False, tm))"

text \<open>\<open>removePublisherSlots\<close>: the turn of the outer loop at one entry, and the loop.\<close>

definition removeSlots_at :: "string \<Rightarrow> int \<Rightarrow> bool \<Rightarrow> string \<Rightarrow> TopicManager \<Rightarrow> bool \<times> TopicManager" where
  "removeSlots_at topic_name publisher_fd filter_fd ekey tm =
     (case om_lookup (topics tm) ekey of
        None \<Rightarrow> (False, tm)
      | Some e \<Rightarrow>
          if te_topic_name e \<noteq> topic_name then (False, tm)
          else
            case erase_slots (\<lambda>slot. \<not> (filter_fd \<and> ps_fd slot \<noteq> publisher_fd)) ekey tm of
              (removed, tm) \<Rightarrow> (removed, eraseEntryIfUnused ekey tm))"

definition removePublisherSlots :: "string \<Rightarrow> int \<Rightarrow> bool \<Rightarrow> TopicManager \<Rightarrow> bool \<times> TopicManager" where
  "removePublisherSlots topic_name publisher_fd filter_fd tm =
     any_loop (removeSlots_at topic_name publisher_fd filter_fd) (om_keys (topics tm)) tm"

text \<open>The topics and topic bytes the service would publish: the current one and the other entries.\<close>

definition service_load :: "string \<Rightarrow> string \<Rightarrow> string \<Rightarrow> topic_map \<Rightarrow> nat \<times> nat" where
  "service_load name topic ekey ts =
     fold (\<lambda>(k, e) (publications, topic_bytes).
         if k = ekey \<or> te_service_name e \<noteq> name \<or> om_is_empty (te_publishers e)
         then (publications, topic_bytes)
         else (publications + 1, topic_bytes + length (te_topic_name e)))
       (om_list ts) (1, length topic)"

definition registerPublisher ::
    "string \<Rightarrow> ServiceInfo \<Rightarrow> int \<Rightarrow> u32 \<Rightarrow> TopicManager \<Rightarrow> bool \<times> TopicManager" where
  "registerPublisher topic publisher_info publisher_fd idl_hash tm =
     (if topic = [] then (False, tm)
      else if MAX_TOPIC_NAME_LENGTH < length topic then (False, tm)
      else if si_name publisher_info = [] \<or> MAX_SERVICE_NAME_LENGTH < length (si_name publisher_info)
      then (False, tm)
      else
        let instance_key = makeServiceInstanceKey (si_instance_id publisher_info);
            ekey = entryKey (si_name publisher_info) topic;
            is_new = (om_lookup (topics tm) ekey = None)
        in
        if is_new \<and> om_lookup (topic_name_refs tm) topic = None
           \<and> MAX_TOPICS_GLOBAL \<le> om_size (topic_name_refs tm) then (False, tm)
        else if (case om_lookup (fd_publications tm) publisher_fd of
                   None \<Rightarrow> False
                 | Some keys \<Rightarrow> \<not> os_member keys ekey
                     \<and> MAX_TOPIC_PUBLICATIONS_PER_CONNECTION \<le> om_size keys) then (False, tm)
        else
          case service_load (si_name publisher_info) topic ekey (topics tm) of
            (service_publications, service_topic_bytes) \<Rightarrow>
          if MAX_PUBLISHED_TOPICS < service_publications
             \<or> MAX_PUBLISHED_TOPICS_BYTES < service_topic_bytes then (False, tm)
          else
            let tm = (if is_new then add_entry (si_name publisher_info) topic tm else tm);
                slot = \<lparr>ps_fd = publisher_fd, ps_info = publisher_info, ps_idl_hash = idl_hash\<rparr>
            in case om_lookup (topics tm) ekey of
                 None \<Rightarrow> (False, tm)
               | Some e \<Rightarrow>
                   (True, (put_entry ekey (e\<lparr>te_publishers := om_update instance_key slot (te_publishers e)\<rparr>) tm)
                            \<lparr>fd_publications := bucket_insert publisher_fd ekey (fd_publications tm)\<rparr>))"

definition topic_name_invalid :: "string \<Rightarrow> bool" where
  "topic_name_invalid topic \<longleftrightarrow> topic = [] \<or> MAX_TOPIC_NAME_LENGTH < length topic"

definition removePublisher :: "string \<Rightarrow> TopicManager \<Rightarrow> bool \<times> TopicManager" where
  "removePublisher topic tm =
     (if topic_name_invalid topic then (False, tm) else removePublisherSlots topic (-1) False tm)"

definition removePublisherOf :: "string \<Rightarrow> int \<Rightarrow> TopicManager \<Rightarrow> bool \<times> TopicManager" where
  "removePublisherOf topic publisher_fd tm =
     (if topic_name_invalid topic then (False, tm) else removePublisherSlots topic publisher_fd True tm)"

definition isPublisherOwner :: "string \<Rightarrow> int \<Rightarrow> TopicManager \<Rightarrow> bool" where
  "isPublisherOwner topic publisher_fd tm =
     (\<exists>e \<in> set (om_values (topics tm)). te_topic_name e = topic \<and>
        (\<exists>slot \<in> set (om_values (te_publishers e)). ps_fd slot = publisher_fd))"

subsection \<open>Subscribing\<close>

definition addSubscriberFilter ::
    "string \<Rightarrow> TopicSubscriptionFilter \<Rightarrow> int \<Rightarrow> TopicManager \<Rightarrow> bool \<times> TopicManager" where
  "addSubscriberFilter topic selector subscriber_fd tm =
     (if topic_name_invalid topic then (False, tm)
      else if MAX_SERVICE_NAME_LENGTH < length (tf_publisher_service selector) then (False, tm)
      else
        let fd_count = (case om_lookup (fd_subscription_counts tm) subscriber_fd of None \<Rightarrow> 0 | Some n \<Rightarrow> n)
        in
        if MAX_TOPIC_SUBSCRIPTIONS_PER_CONNECTION \<le> fd_count then (False, tm)
        else if MAX_TOPIC_SUBSCRIPTIONS_GLOBAL \<le> total_subscriptions tm then (False, tm)
        else
          let ekey = entryKey (tf_publisher_service selector) topic;
              is_new = (om_lookup (topics tm) ekey = None)
          in
          if is_new \<and> om_lookup (topic_name_refs tm) topic = None
             \<and> MAX_TOPICS_GLOBAL \<le> om_size (topic_name_refs tm) then (False, tm)
          else
            let tm = (if is_new then add_entry (tf_publisher_service selector) topic tm else tm);
                selkey = filter_key selector
            in case om_lookup (topics tm) ekey of
                 None \<Rightarrow> (False, tm)
               | Some e \<Rightarrow>
                   let sub = om_lookup (te_subscribers e) subscriber_fd;
                       filters = (case sub of None \<Rightarrow> om_empty | Some m \<Rightarrow> m)
                   in
                   if sub \<noteq> None \<and> om_lookup filters selkey \<noteq> None then (False, tm)
                   else if sub = None \<and> MAX_SUBSCRIBERS_PER_TOPIC \<le> om_size (te_subscribers e)
                   then (False, tm)
                   else
                     (True, (put_entry ekey (e\<lparr>te_subscribers := om_update subscriber_fd
                                (om_update selkey selector filters) (te_subscribers e)\<rparr>) tm)
                              \<lparr>fd_subscriptions := bucket_insert subscriber_fd ekey (fd_subscriptions tm),
                               fd_subscription_counts := om_update subscriber_fd (fd_count + 1)
                                 (fd_subscription_counts tm),
                               total_subscriptions := total_subscriptions tm + 1\<rparr>))"

definition addSubscriber :: "string \<Rightarrow> int \<Rightarrow> TopicManager \<Rightarrow> bool \<times> TopicManager" where
  "addSubscriber topic subscriber_fd tm = addSubscriberFilter topic Filter_default subscriber_fd tm"

text \<open>\<open>cit->second > removed ? cit->second -= removed : erase(cit)\<close>.\<close>

definition lower_count :: "int \<Rightarrow> nat \<Rightarrow> (int, nat) omap \<Rightarrow> (int, nat) omap" where
  "lower_count fd removed counts =
     (case om_lookup counts fd of
        None \<Rightarrow> counts
      | Some n \<Rightarrow> if removed < n then om_update fd (n - removed) counts else om_erase fd counts)"

text \<open>\<open>removeSubscriber(topic, fd)\<close>: the turn of the loop at one entry, and the loop.\<close>

definition drop_subscriber :: "string \<Rightarrow> int \<Rightarrow> string \<Rightarrow> TopicManager \<Rightarrow> bool \<times> TopicManager" where
  "drop_subscriber topic subscriber_fd ekey tm =
     (case om_lookup (topics tm) ekey of
        None \<Rightarrow> (False, tm)
      | Some e \<Rightarrow>
          if te_topic_name e \<noteq> topic then (False, tm)
          else
            case om_lookup (te_subscribers e) subscriber_fd of
              None \<Rightarrow> (False, tm)
            | Some m \<Rightarrow>
                let removed = om_size m;
                    tm = put_entry ekey (e\<lparr>te_subscribers := om_erase subscriber_fd (te_subscribers e)\<rparr>) tm;
                    tm = tm\<lparr>total_subscriptions := size_sub (total_subscriptions tm) removed,
                            fd_subscriptions := bucket_erase subscriber_fd ekey (fd_subscriptions tm),
                            fd_subscription_counts := lower_count subscriber_fd removed (fd_subscription_counts tm)\<rparr>
                in (True, eraseEntryIfUnused ekey tm))"

definition removeSubscriber :: "string \<Rightarrow> int \<Rightarrow> TopicManager \<Rightarrow> bool \<times> TopicManager" where
  "removeSubscriber topic subscriber_fd tm =
     (if topic_name_invalid topic then (False, tm)
      else any_loop (drop_subscriber topic subscriber_fd) (om_keys (topics tm)) tm)"

definition removeSubscriberFilter ::
    "string \<Rightarrow> TopicSubscriptionFilter \<Rightarrow> int \<Rightarrow> TopicManager \<Rightarrow> bool \<times> TopicManager" where
  "removeSubscriberFilter topic selector subscriber_fd tm =
     (if topic_name_invalid topic then (False, tm)
      else
        let ekey = entryKey (tf_publisher_service selector) topic in
        case om_lookup (topics tm) ekey of
          None \<Rightarrow> (False, tm)
        | Some e \<Rightarrow>
            (case om_lookup (te_subscribers e) subscriber_fd of
               None \<Rightarrow> (False, tm)
             | Some m \<Rightarrow>
                 if om_lookup m (filter_key selector) = None then (False, tm)
                 else
                   let m' = om_erase (filter_key selector) m;
                       subs = (if om_is_empty m' then om_erase subscriber_fd (te_subscribers e)
                               else om_update subscriber_fd m' (te_subscribers e));
                       tm = put_entry ekey (e\<lparr>te_subscribers := subs\<rparr>) tm;
                       tm = tm\<lparr>total_subscriptions := size_sub (total_subscriptions tm) 1,
                               fd_subscription_counts := lower_count subscriber_fd 1 (fd_subscription_counts tm)\<rparr>;
                       tm = (if om_lookup subs subscriber_fd = None
                             then tm\<lparr>fd_subscriptions := bucket_erase subscriber_fd ekey (fd_subscriptions tm)\<rparr>
                             else tm)
                   in (True, eraseEntryIfUnused ekey tm)))"

subsection \<open>Closed connections\<close>

text \<open>One key of the publication index: the connection's slots of that entry go.\<close>

definition close_publication :: "int \<Rightarrow> string \<Rightarrow> string list \<times> TopicManager \<Rightarrow> string list \<times> TopicManager" where
  "close_publication fd ekey st =
     (case st of (removed_publications, tm) \<Rightarrow>
      case om_lookup (topics tm) ekey of
        None \<Rightarrow> (removed_publications, tm)
      | Some e \<Rightarrow>
          let removed_here = (\<exists>slot \<in> set (om_values (te_publishers e)). ps_fd slot = fd);
              e' = e\<lparr>te_publishers := om_filter (\<lambda>_ slot. ps_fd slot \<noteq> fd) (te_publishers e)\<rparr>
          in (if removed_here then removed_publications @ [te_topic_name e] else removed_publications,
              eraseEntryIfUnused ekey (put_entry ekey e' tm)))"

text \<open>One key of the subscription index.\<close>

definition close_subscription :: "int \<Rightarrow> string \<Rightarrow> TopicManager \<Rightarrow> TopicManager" where
  "close_subscription fd ekey tm =
     (case om_lookup (topics tm) ekey of
        None \<Rightarrow> tm
      | Some e \<Rightarrow>
          let tm = (case om_lookup (te_subscribers e) fd of
                      None \<Rightarrow> tm
                    | Some m \<Rightarrow>
                        (put_entry ekey (e\<lparr>te_subscribers := om_erase fd (te_subscribers e)\<rparr>) tm)
                          \<lparr>total_subscriptions := size_sub (total_subscriptions tm) (om_size m)\<rparr>)
          in eraseEntryIfUnused ekey tm)"

definition topics_removeByFd :: "int \<Rightarrow> TopicManager \<Rightarrow> string list \<times> TopicManager" where
  "topics_removeByFd fd tm =
     (let (removed, tm) =
            (case om_lookup (fd_publications tm) fd of
               None \<Rightarrow> ([], tm)
             | Some pub_keys \<Rightarrow>
                 fold (close_publication fd) (om_keys pub_keys)
                   ([], tm\<lparr>fd_publications := om_erase fd (fd_publications tm)\<rparr>));
          tm = (case om_lookup (fd_subscriptions tm) fd of
                  None \<Rightarrow> tm
                | Some sub_keys \<Rightarrow>
                    fold (close_subscription fd) (om_keys sub_keys)
                      (tm\<lparr>fd_subscriptions := om_erase fd (fd_subscriptions tm)\<rparr>))
      in (removed, tm\<lparr>fd_subscription_counts := om_erase fd (fd_subscription_counts tm)\<rparr>))"

text \<open>
  \<open>removePublishersByService\<close>: a pass that erases the slots and collects each topic once, then a pass
  that drops the service's unused entries.
\<close>

definition withdraw_at :: "string \<Rightarrow> int \<Rightarrow> string \<Rightarrow> string list \<times> TopicManager \<Rightarrow> string list \<times> TopicManager" where
  "withdraw_at service_name publisher_fd ekey st =
     (case st of (removed, tm) \<Rightarrow>
      case om_lookup (topics tm) ekey of
        None \<Rightarrow> (removed, tm)
      | Some e \<Rightarrow>
          if te_service_name e \<noteq> service_name then (removed, tm)
          else
            case erase_slots (\<lambda>slot. \<not> ps_fd slot \<noteq> publisher_fd) ekey tm of
              (any, tm) \<Rightarrow>
                (if any \<and> te_topic_name e \<notin> set removed then removed @ [te_topic_name e] else removed, tm))"

definition tidy_at :: "string \<Rightarrow> string \<Rightarrow> TopicManager \<Rightarrow> TopicManager" where
  "tidy_at service_name ekey tm =
     (case om_lookup (topics tm) ekey of
        None \<Rightarrow> tm
      | Some e \<Rightarrow> if te_service_name e = service_name then eraseEntryIfUnused ekey tm else tm)"

definition removePublishersByService ::
    "string \<Rightarrow> int \<Rightarrow> TopicManager \<Rightarrow> string list \<times> TopicManager" where
  "removePublishersByService service_name publisher_fd tm =
     (case fold (withdraw_at service_name publisher_fd) (om_keys (topics tm)) ([], tm) of
        (removed, tm) \<Rightarrow> (removed, fold (tidy_at service_name) (om_keys (topics tm)) tm))"

subsection \<open>Queries\<close>

definition entries_of :: "string \<Rightarrow> TopicManager \<Rightarrow> TopicEntry list" where
  "entries_of topic tm = filter (\<lambda>e. te_topic_name e = topic) (om_values (topics tm))"

text \<open>\<open>std::set<int> fds\<close>, filled in a loop and copied into a vector.\<close>

definition int_set_list :: "int list \<Rightarrow> int list" where
  "int_set_list fds = om_keys (fold os_insert fds om_empty)"

definition getSubscribers :: "string \<Rightarrow> TopicManager \<Rightarrow> int list" where
  "getSubscribers topic tm =
     int_set_list (concat (map (\<lambda>e. om_keys (te_subscribers e)) (entries_of topic tm)))"

definition getMatchingSubscribers :: "string \<Rightarrow> ServiceInfo \<Rightarrow> TopicManager \<Rightarrow> int list" where
  "getMatchingSubscribers topic publisher tm =
     int_set_list (concat (map (\<lambda>e. map fst (filter (\<lambda>(fd, filters).
         \<exists>f \<in> set (om_values filters). filter_matches f publisher) (om_list (te_subscribers e))))
       (entries_of topic tm)))"

text \<open>The publishers an entry contributes for a selector.\<close>

definition selected_slots :: "TopicSubscriptionFilter \<Rightarrow> TopicEntry \<Rightarrow> PublisherSlot list" where
  "selected_slots selector e =
     (if tf_mode selector \<noteq> TOPIC_ONLY \<and> te_service_name e \<noteq> tf_publisher_service selector then []
      else filter (\<lambda>slot. \<not> (tf_mode selector = INSTANCE \<and> \<not> filter_matches selector (ps_info slot)))
             (om_values (te_publishers e)))"

definition getMatchingPublishers ::
    "string \<Rightarrow> TopicSubscriptionFilter \<Rightarrow> TopicManager \<Rightarrow> TopicPublisherView list" where
  "getMatchingPublishers topic selector tm =
     map (\<lambda>slot. \<lparr>pv_info = ps_info slot, pv_idl_hash = ps_idl_hash slot\<rparr>)
       (concat (map (selected_slots selector) (entries_of topic tm)))"

text \<open>The first publisher of the topic's entries, in key order.\<close>

definition first_slot :: "string \<Rightarrow> TopicManager \<Rightarrow> PublisherSlot option" where
  "first_slot topic tm =
     (case concat (map (\<lambda>e. om_values (te_publishers e)) (entries_of topic tm)) of
        [] \<Rightarrow> None
      | slot # _ \<Rightarrow> Some slot)"

definition getPublisher :: "string \<Rightarrow> TopicManager \<Rightarrow> ServiceInfo option" where
  "getPublisher topic tm = map_option ps_info (first_slot topic tm)"

definition getIdlHash :: "string \<Rightarrow> TopicManager \<Rightarrow> u32 option" where
  "getIdlHash topic tm = map_option ps_idl_hash (first_slot topic tm)"

definition getIdlHashFilter :: "string \<Rightarrow> TopicSubscriptionFilter \<Rightarrow> TopicManager \<Rightarrow> u32 option" where
  "getIdlHashFilter topic selector tm =
     (case concat (map (selected_slots selector) (entries_of topic tm)) of
        [] \<Rightarrow> None
      | slot # _ \<Rightarrow> Some (ps_idl_hash slot))"

definition hasPublisher :: "string \<Rightarrow> TopicManager \<Rightarrow> bool" where
  "hasPublisher topic tm =
     (\<exists>e \<in> set (om_values (topics tm)). te_topic_name e = topic \<and> \<not> om_is_empty (te_publishers e))"

text \<open>\<open>std::sort\<close> and \<open>std::unique\<close>.\<close>

definition getPublishedTopics :: "string \<Rightarrow> TopicManager \<Rightarrow> string list" where
  "getPublishedTopics service_name tm =
     remdups_adj (sort (map te_topic_name (filter (\<lambda>e. te_service_name e = service_name
       \<and> \<not> om_is_empty (te_publishers e)) (om_values (topics tm)))))"

definition setIdlHash :: "string \<Rightarrow> u32 \<Rightarrow> TopicManager \<Rightarrow> bool \<times> TopicManager" where
  "setIdlHash topic idl_hash tm =
     (case filter (\<lambda>(k, e). te_topic_name e = topic \<and> \<not> om_is_empty (te_publishers e)) (om_list (topics tm)) of
        [] \<Rightarrow> (False, tm)
      | (k, e) # _ \<Rightarrow>
          (case om_list (te_publishers e) of
             [] \<Rightarrow> (False, tm)
           | (pk, slot) # _ \<Rightarrow>
               (True, put_entry k (e\<lparr>te_publishers :=
                  om_update pk (slot\<lparr>ps_idl_hash := idl_hash\<rparr>) (te_publishers e)\<rparr>) tm)))"

definition listTopics :: "TopicManager \<Rightarrow> string list" where
  "listTopics tm = om_keys (topic_name_refs tm)"

subsection \<open>Keys\<close>

lemma entryKey_inj: "entryKey s t = entryKey s' t' \<longleftrightarrow> s = s' \<and> t = t'"
proof
  assume "entryKey s t = entryKey s' t'"
  then have "dec (length s) @ CHR '':'' # s @ t = dec (length s') @ CHR '':'' # s' @ t'"
    by (simp add: entryKey_def)
  then show "s = s' \<and> t = t'" by (rule dec_block_unique) (rule not_digit_bar)
qed simp

text \<open>Filters with the same key select the same publishers.\<close>

lemma filter_key_matches:
  assumes "filter_key f = filter_key g"
  shows "filter_matches f = filter_matches g"
proof -
  have 1: "x = y \<and> r = s" if "dec (length x) @ CHR ''|'' # x @ r = dec (length y) @ CHR ''|'' # y @ s"
    for x y r s :: string
    using dec_block_unique [OF that not_digit_bar(1)] .
  show ?thesis
  proof (cases "tf_mode f"; cases "tf_mode g")
    assume m: "tf_mode f = SERVICE" "tf_mode g = SERVICE"
    then have "tf_publisher_service f = tf_publisher_service g"
      using assms 1 [of "tf_publisher_service f" "[]" "tf_publisher_service g" "[]"]
      by (simp add: filter_key_def)
    with m show ?thesis by (simp add: filter_matches_def fun_eq_iff)
  next
    assume m: "tf_mode f = INSTANCE" "tf_mode g = INSTANCE"
    let ?r = "\<lambda>h. dec (length (tf_instance_id h)) @ CHR ''|'' # tf_instance_id h"
    have "tf_publisher_service f = tf_publisher_service g \<and> ?r f = ?r g"
      using assms m 1 [of "tf_publisher_service f" "?r f" "tf_publisher_service g" "?r g"]
      by (simp add: filter_key_def)
    moreover from this have "tf_instance_id f = tf_instance_id g"
      using 1 [of "tf_instance_id f" "[]" "tf_instance_id g" "[]"] by simp
    ultimately show ?thesis using m by (simp add: filter_matches_def fun_eq_iff)
  qed (use assms in \<open>auto simp: filter_key_def filter_matches_def fun_eq_iff\<close>)
qed

subsection \<open>Sums over the entries\<close>

lemma om_sum_replace:
  "om_lookup m k = Some v \<Longrightarrow> om_sum f (om_update k v' m) + f k v = om_sum f m + f k v'"
  using om_sum_split [of f m k] by (simp add: om_sum_update)

lemma om_sum_same: "om_lookup m k = Some v \<Longrightarrow> f k v' = f k v \<Longrightarrow> om_sum f (om_update k v' m) = om_sum f m"
  using om_sum_replace [of m k v f v'] by simp

lemma om_sum_add: "om_lookup m k = None \<Longrightarrow> om_sum f (om_update k v m) = f k v + om_sum f m"
  by (simp add: om_sum_update om_erase_absent)

lemma om_sum_remove: "om_lookup m k = Some v \<Longrightarrow> om_sum f (om_erase k m) + f k v = om_sum f m"
  using om_sum_split [of f m k] by simp

definition sub_count :: "int \<Rightarrow> TopicEntry \<Rightarrow> nat" where
  "sub_count fd e = (case om_lookup (te_subscribers e) fd of None \<Rightarrow> 0 | Some m \<Rightarrow> om_size m)"

definition sub_total :: "TopicEntry \<Rightarrow> nat" where
  "sub_total e = om_sum (\<lambda>_ m. om_size m) (te_subscribers e)"

definition topic_weight :: "string \<Rightarrow> TopicEntry \<Rightarrow> nat" where
  "topic_weight t e = (if te_topic_name e = t then 1 else 0)"

text \<open>A counter that is erased when it would be zero.\<close>

definition counted :: "nat \<Rightarrow> nat option" where
  "counted n = (if n = 0 then None else Some n)"

subsection \<open>The invariant\<close>

text \<open>
  The shape of an entry: filed under its own key, a valid topic name, no subscriber without a filter,
  publishers filed under their instance and belonging to the service, filters filed under their key
  and meant for this service.
\<close>

definition entry_shape :: "string \<Rightarrow> TopicEntry \<Rightarrow> bool" where
  "entry_shape ekey e \<longleftrightarrow> ekey = entryKey (te_service_name e) (te_topic_name e) \<and>
     \<not> topic_name_invalid (te_topic_name e) \<and>
     (\<forall>pk slot. om_lookup (te_publishers e) pk = Some slot \<longrightarrow>
        si_name (ps_info slot) = te_service_name e \<and> si_instance_id (ps_info slot) = pk) \<and>
     (\<forall>fd m. om_lookup (te_subscribers e) fd = Some m \<longrightarrow> \<not> om_is_empty m \<and>
        (\<forall>k f. om_lookup m k = Some f \<longrightarrow> k = filter_key f \<and> tf_publisher_service f = te_service_name e))"

definition refs_agree :: "topic_map \<Rightarrow> (string, nat) omap \<Rightarrow> bool" where
  "refs_agree ts refs \<longleftrightarrow> (\<forall>t. om_lookup refs t = counted (om_sum (\<lambda>_. topic_weight t) ts))"

definition total_agree :: "topic_map \<Rightarrow> nat \<Rightarrow> bool" where
  "total_agree ts n \<longleftrightarrow> n = om_sum (\<lambda>_. sub_total) ts"

text \<open>For the connections in \<open>F\<close>; while a connection is being closed, for all the others.\<close>

definition subs_agree :: "int set \<Rightarrow> topic_map \<Rightarrow> (int, string oset) omap \<Rightarrow> (int, nat) omap \<Rightarrow> bool" where
  "subs_agree F ts fsubs counts \<longleftrightarrow> no_empty_bucket fsubs \<and>
     (\<forall>fd \<in> F. bucket fsubs fd = {k. \<exists>e. om_lookup ts k = Some e \<and> om_lookup (te_subscribers e) fd \<noteq> None} \<and>
        om_lookup counts fd = counted (om_sum (\<lambda>_. sub_count fd) ts))"

text \<open>
  The publication index covers the actual publications. It may hold more: when another connection
  takes an instance over, the key stays in the old connection's set.
\<close>

definition publishes :: "int \<Rightarrow> TopicEntry \<Rightarrow> bool" where
  "publishes fd e \<longleftrightarrow> (\<exists>pk slot. om_lookup (te_publishers e) pk = Some slot \<and> ps_fd slot = fd)"

definition pubs_agree :: "int set \<Rightarrow> topic_map \<Rightarrow> (int, string oset) omap \<Rightarrow> bool" where
  "pubs_agree F ts fpubs \<longleftrightarrow> no_empty_bucket fpubs \<and>
     (\<forall>fd \<in> F. \<forall>k e. om_lookup ts k = Some e \<longrightarrow> publishes fd e \<longrightarrow> k \<in> bucket fpubs fd)"

definition topic_wf :: "int set \<Rightarrow> int set \<Rightarrow> TopicManager \<Rightarrow> bool" where
  "topic_wf P S tm \<longleftrightarrow> (\<forall>k e. om_lookup (topics tm) k = Some e \<longrightarrow> entry_shape k e) \<and>
     refs_agree (topics tm) (topic_name_refs tm) \<and>
     pubs_agree P (topics tm) (fd_publications tm) \<and>
     subs_agree S (topics tm) (fd_subscriptions tm) (fd_subscription_counts tm) \<and>
     total_agree (topics tm) (total_subscriptions tm)"

definition unused_keys :: "TopicManager \<Rightarrow> string set" where
  "unused_keys tm = {k. \<exists>e. om_lookup (topics tm) k = Some e \<and> entry_unused e}"

lemma topic_wfD:
  assumes "topic_wf P S tm"
  shows "om_lookup (topics tm) k = Some e \<Longrightarrow> entry_shape k e"
    "refs_agree (topics tm) (topic_name_refs tm)" "pubs_agree P (topics tm) (fd_publications tm)"
    "subs_agree S (topics tm) (fd_subscriptions tm) (fd_subscription_counts tm)"
    "total_agree (topics tm) (total_subscriptions tm)"
  using assms by (auto simp: topic_wf_def)

lemma topic_wf_init: "topic_wf P S TopicManager_init" "unused_keys TopicManager_init = {}"
  by (simp_all add: topic_wf_def TopicManager_init_def refs_agree_def pubs_agree_def subs_agree_def
      total_agree_def counted_def unused_keys_def)

subsection \<open>Replacing an entry\<close>

lemma refs_agree_put:
  "om_lookup ts k = Some e \<Longrightarrow> te_topic_name e' = te_topic_name e \<Longrightarrow>
   refs_agree (om_update k e' ts) refs = refs_agree ts refs"
  by (simp add: refs_agree_def om_sum_same topic_weight_def)

lemma subs_agree_put:
  assumes "om_lookup ts k = Some e" "\<forall>fd \<in> F. om_lookup (te_subscribers e') fd = om_lookup (te_subscribers e) fd"
  shows "subs_agree F (om_update k e' ts) fsubs counts = subs_agree F ts fsubs counts"
proof -
  have "om_sum (\<lambda>_. sub_count fd) (om_update k e' ts) = om_sum (\<lambda>_. sub_count fd) ts" if "fd \<in> F" for fd
    using that assms by (intro om_sum_same) (simp_all add: sub_count_def)
  moreover have "{x. \<exists>y. om_lookup (om_update k e' ts) x = Some y \<and> om_lookup (te_subscribers y) fd \<noteq> None} =
      {x. \<exists>y. om_lookup ts x = Some y \<and> om_lookup (te_subscribers y) fd \<noteq> None}" if "fd \<in> F" for fd
    using that assms by (auto simp: om_lookup_update)
  ultimately show ?thesis by (simp add: subs_agree_def)
qed

lemma total_agree_put:
  "om_lookup ts k = Some e \<Longrightarrow> te_subscribers e' = te_subscribers e \<Longrightarrow>
   total_agree (om_update k e' ts) n = total_agree ts n"
  by (simp add: total_agree_def om_sum_same sub_total_def)

lemma pubs_agree_put:
  "pubs_agree F ts fpubs \<Longrightarrow> om_lookup ts k = Some e \<Longrightarrow>
   (\<And>fd. fd \<in> F \<Longrightarrow> publishes fd e' \<Longrightarrow> publishes fd e) \<Longrightarrow> pubs_agree F (om_update k e' ts) fpubs"
  by (auto simp: pubs_agree_def om_lookup_update)

subsection \<open>Dropping an unused entry\<close>

lemma counted_pred: "counted (n + 1) = Some m \<Longrightarrow> counted n = (if 1 < m then Some (m - 1) else None)"
  by (auto simp: counted_def split: if_splits)

lemma release_lookup:
  assumes "om_lookup (topic_name_refs tm) t = counted (n + 1)"
  shows "om_lookup (topic_name_refs (releaseTopicNameRef t tm)) t' =
    (if t' = t then counted n else om_lookup (topic_name_refs tm) t')"
  using assms by (auto simp: releaseTopicNameRef_def counted_def om_lookup_update om_lookup_erase)

lemma release_others [simp]:
  "topics (releaseTopicNameRef t tm) = topics tm"
  "fd_subscriptions (releaseTopicNameRef t tm) = fd_subscriptions tm"
  "fd_publications (releaseTopicNameRef t tm) = fd_publications tm"
  "fd_subscription_counts (releaseTopicNameRef t tm) = fd_subscription_counts tm"
  "total_subscriptions (releaseTopicNameRef t tm) = total_subscriptions tm"
  by (simp_all add: releaseTopicNameRef_def split: option.splits)

lemma unused_weightless:
  "entry_unused e \<Longrightarrow> sub_count fd e = 0" "entry_unused e \<Longrightarrow> sub_total e = 0"
  "entry_unused e \<Longrightarrow> \<not> publishes fd e" "entry_unused e \<Longrightarrow> om_lookup (te_subscribers e) fd = None"
  by (auto simp: entry_unused_def om_is_empty_iff sub_count_def sub_total_def publishes_def om_sum_0_iff)

lemma subs_agree_erase:
  assumes "om_lookup ts k = Some e" "\<forall>fd \<in> F. om_lookup (te_subscribers e) fd = None"
  shows "subs_agree F (om_erase k ts) fsubs counts = subs_agree F ts fsubs counts"
proof -
  have "om_sum (\<lambda>_. sub_count fd) (om_erase k ts) = om_sum (\<lambda>_. sub_count fd) ts" if "fd \<in> F" for fd
    using that om_sum_remove [OF assms(1), of "\<lambda>_. sub_count fd"] assms(2) by (simp add: sub_count_def)
  moreover have "{x. \<exists>y. om_lookup (om_erase k ts) x = Some y \<and> om_lookup (te_subscribers y) fd \<noteq> None} =
      {x. \<exists>y. om_lookup ts x = Some y \<and> om_lookup (te_subscribers y) fd \<noteq> None}" if "fd \<in> F" for fd
    using that assms by (auto simp: om_lookup_erase)
  ultimately show ?thesis by (simp add: subs_agree_def)
qed

lemma erase_unused_lookup:
  "om_lookup (topics (eraseEntryIfUnused ekey tm)) k =
     (if k = ekey \<and> ekey \<in> unused_keys tm then None else om_lookup (topics tm) k)"
  by (auto simp: eraseEntryIfUnused_def unused_keys_def om_lookup_erase Let_def split: option.splits)

lemma erase_unused_keys: "unused_keys (eraseEntryIfUnused ekey tm) = unused_keys tm - {ekey}"
  by (auto simp: unused_keys_def erase_unused_lookup split: if_splits)

lemma erase_unused_others [simp]:
  "fd_subscriptions (eraseEntryIfUnused k tm) = fd_subscriptions tm"
  "fd_publications (eraseEntryIfUnused k tm) = fd_publications tm"
  "fd_subscription_counts (eraseEntryIfUnused k tm) = fd_subscription_counts tm"
  "total_subscriptions (eraseEntryIfUnused k tm) = total_subscriptions tm"
  by (simp_all add: eraseEntryIfUnused_def Let_def split: option.splits)

lemma erase_unused_wf:
  assumes wf: "topic_wf P S tm"
  shows "topic_wf P S (eraseEntryIfUnused ekey tm)"
proof (cases "ekey \<in> unused_keys tm")
  case False
  then have "eraseEntryIfUnused ekey tm = tm"
    by (auto simp: eraseEntryIfUnused_def unused_keys_def split: option.splits)
  with wf show ?thesis by simp
next
  case True
  note d = topic_wfD [OF wf]
  from True obtain e where e: "om_lookup (topics tm) ekey = Some e" "entry_unused e"
    by (auto simp: unused_keys_def)
  note w = unused_weightless [OF e(2)]
  let ?ts = "om_erase ekey (topics tm)"
  have eq: "eraseEntryIfUnused ekey tm =
      (releaseTopicNameRef (te_topic_name e) tm)\<lparr>topics := ?ts\<rparr>"
    using e by (simp add: eraseEntryIfUnused_def Let_def)
  have rem: "om_sum (\<lambda>_. topic_weight t) (topics tm) = om_sum (\<lambda>_. topic_weight t) ?ts +
      (if te_topic_name e = t then 1 else 0)" for t
    using om_sum_remove [OF e(1), of "\<lambda>_. topic_weight t"] by (auto simp: topic_weight_def)
  have "refs_agree ?ts (topic_name_refs (releaseTopicNameRef (te_topic_name e) tm))"
    using d(2) rem by (auto simp: refs_agree_def release_lookup [of tm "te_topic_name e"])
  moreover have "total_agree ?ts (total_subscriptions tm)"
    using d(5) om_sum_remove [OF e(1), of "\<lambda>_. sub_total"] w(2) by (simp add: total_agree_def)
  moreover have "pubs_agree P ?ts (fd_publications tm)"
    using d(3) by (auto simp: pubs_agree_def om_lookup_erase)
  moreover have "subs_agree S ?ts (fd_subscriptions tm) (fd_subscription_counts tm)"
    using d(4) subs_agree_erase [OF e(1)] w(4) by simp
  ultimately show ?thesis
    using d(1) by (auto simp: topic_wf_def eq om_lookup_erase split: if_splits)
qed

subsection \<open>Publications and subscriptions\<close>

text \<open>
  The abstract view: which slot is published under \<open>(service, topic, instance)\<close>, and which filter a
  connection subscribes under \<open>(service, topic)\<close> and its key.
\<close>

definition pub_at :: "TopicManager \<Rightarrow> string \<Rightarrow> string \<Rightarrow> string \<Rightarrow> PublisherSlot option" where
  "pub_at tm s t k = (case om_lookup (topics tm) (entryKey s t) of None \<Rightarrow> None | Some e \<Rightarrow> om_lookup (te_publishers e) k)"

definition sub_at :: "TopicManager \<Rightarrow> string \<Rightarrow> string \<Rightarrow> int \<Rightarrow> string \<Rightarrow> TopicSubscriptionFilter option" where
  "sub_at tm s t fd k = (case om_lookup (topics tm) (entryKey s t) of None \<Rightarrow> None
     | Some e \<Rightarrow> (case om_lookup (te_subscribers e) fd of None \<Rightarrow> None | Some m \<Rightarrow> om_lookup m k))"

lemma put_entry_simps [simp]:
  "topics (put_entry k e tm) = om_update k e (topics tm)"
  "topic_name_refs (put_entry k e tm) = topic_name_refs tm"
  "fd_subscriptions (put_entry k e tm) = fd_subscriptions tm"
  "fd_publications (put_entry k e tm) = fd_publications tm"
  "fd_subscription_counts (put_entry k e tm) = fd_subscription_counts tm"
  "total_subscriptions (put_entry k e tm) = total_subscriptions tm"
  by (simp_all add: put_entry_def)

text \<open>The views depend on the entries only.\<close>

lemma views_topics:
  assumes "topics tm' = topics tm"
  shows "pub_at tm' = pub_at tm" "sub_at tm' = sub_at tm" "unused_keys tm' = unused_keys tm"
  using assms by (simp_all add: pub_at_def sub_at_def unused_keys_def fun_eq_iff)

lemma views_put:
  assumes "topics tm' = om_update (entryKey s0 t0) e (topics tm)"
  shows "pub_at tm' s t k = (if s = s0 \<and> t = t0 then om_lookup (te_publishers e) k else pub_at tm s t k)"
    "sub_at tm' s t fd k' = (if s = s0 \<and> t = t0
       then (case om_lookup (te_subscribers e) fd of None \<Rightarrow> None | Some m \<Rightarrow> om_lookup m k')
       else sub_at tm s t fd k')"
    "unused_keys tm' = (if entry_unused e then insert (entryKey s0 t0) (unused_keys tm)
       else unused_keys tm - {entryKey s0 t0})"
  using assms by (auto simp: pub_at_def sub_at_def unused_keys_def om_lookup_update entryKey_inj)

lemma views_erase_unused:
  "pub_at (eraseEntryIfUnused ekey tm) = pub_at tm" "sub_at (eraseEntryIfUnused ekey tm) = sub_at tm"
  by (auto simp: pub_at_def sub_at_def erase_unused_lookup unused_keys_def entry_unused_def om_is_empty_iff
      fun_eq_iff split: option.splits)

subsection \<open>A fresh entry\<close>

lemma new_entry_simps [simp]:
  "te_service_name (new_entry s t) = s" "te_topic_name (new_entry s t) = t"
  "te_publishers (new_entry s t) = om_empty" "te_subscribers (new_entry s t) = om_empty"
  by (simp_all add: new_entry_def)

lemma add_entry_simps [simp]:
  "topics (add_entry s t tm) = om_update (entryKey s t) (new_entry s t) (topics tm)"
  "fd_subscriptions (add_entry s t tm) = fd_subscriptions tm"
  "fd_publications (add_entry s t tm) = fd_publications tm"
  "fd_subscription_counts (add_entry s t tm) = fd_subscription_counts tm"
  "total_subscriptions (add_entry s t tm) = total_subscriptions tm"
  by (simp_all add: add_entry_def)

lemma add_entry_wf:
  assumes wf: "topic_wf P S tm" and new: "om_lookup (topics tm) (entryKey s t) = None"
    and t: "\<not> topic_name_invalid t"
  shows "topic_wf P S (add_entry s t tm)"
proof -
  note d = topic_wfD [OF wf]
  let ?ts = "om_update (entryKey s t) (new_entry s t) (topics tm)"
  have "om_lookup (topic_name_refs (add_entry s t tm)) t' = counted (om_sum (\<lambda>_. topic_weight t') ?ts)" for t'
    using d(2) om_sum_add [OF new, of "\<lambda>_. topic_weight t'"]
    by (auto simp: add_entry_def refs_agree_def topic_weight_def om_lookup_update counted_def)
  then have "refs_agree ?ts (topic_name_refs (add_entry s t tm))" by (simp add: refs_agree_def)
  moreover have "total_agree ?ts (total_subscriptions tm)"
    using d(5) om_sum_add [OF new, of "\<lambda>_. sub_total"] by (simp add: total_agree_def sub_total_def)
  moreover have "pubs_agree P ?ts (fd_publications tm)"
    using d(3) by (auto simp: pubs_agree_def om_lookup_update publishes_def)
  moreover have "subs_agree S ?ts (fd_subscriptions tm) (fd_subscription_counts tm)"
  proof -
    have "om_erase (entryKey s t) ?ts = topics tm" using new by (simp add: om_erase_absent)
    moreover have "\<forall>fd \<in> S. om_lookup (te_subscribers (new_entry s t)) fd = None" by simp
    ultimately show ?thesis
      using d(4) subs_agree_erase [of ?ts "entryKey s t" "new_entry s t" S] by simp
  qed
  ultimately show ?thesis
    using d(1) t by (auto simp: topic_wf_def om_lookup_update entry_shape_def split: if_splits)
qed

text \<open>The entry an operation works on: the existing one, or a fresh one with nothing in it.\<close>

definition open_entry :: "string \<Rightarrow> string \<Rightarrow> TopicManager \<Rightarrow> TopicManager" where
  "open_entry s t tm = (if om_lookup (topics tm) (entryKey s t) = None then add_entry s t tm else tm)"

lemma open_entry_wf:
  "topic_wf P S tm \<Longrightarrow> \<not> topic_name_invalid t \<Longrightarrow> topic_wf P S (open_entry s t tm)"
  by (simp add: open_entry_def add_entry_wf)

lemma open_entry_lookup:
  assumes "topic_wf P S tm"
  obtains e where "om_lookup (topics (open_entry s t tm)) (entryKey s t) = Some e"
    "te_service_name e = s" "te_topic_name e = t"
proof (cases "om_lookup (topics tm) (entryKey s t)")
  case None
  then show ?thesis using that [of "new_entry s t"] by (simp add: open_entry_def)
next
  case (Some e)
  then have "entry_shape (entryKey s t) e" using topic_wfD(1) [OF assms] by blast
  then have "te_service_name e = s" "te_topic_name e = t" by (simp_all add: entry_shape_def entryKey_inj)
  with Some that show ?thesis by (simp add: open_entry_def)
qed

lemma open_entry_others [simp]:
  "fd_subscriptions (open_entry s t tm) = fd_subscriptions tm"
  "fd_publications (open_entry s t tm) = fd_publications tm"
  "fd_subscription_counts (open_entry s t tm) = fd_subscription_counts tm"
  "total_subscriptions (open_entry s t tm) = total_subscriptions tm"
  by (simp_all add: open_entry_def)

lemma open_entry_views:
  "pub_at (open_entry s t tm) = pub_at tm" "sub_at (open_entry s t tm) = sub_at tm"
  "unused_keys (open_entry s t tm) \<subseteq> insert (entryKey s t) (unused_keys tm)"
proof -
  have "pub_at (add_entry s t tm) = pub_at tm" "sub_at (add_entry s t tm) = sub_at tm"
    if "om_lookup (topics tm) (entryKey s t) = None"
    using that by (auto simp: fun_eq_iff views_put [OF add_entry_simps(1)]) (auto simp: pub_at_def sub_at_def)
  then show "pub_at (open_entry s t tm) = pub_at tm" "sub_at (open_entry s t tm) = sub_at tm"
    by (simp_all add: open_entry_def)
  show "unused_keys (open_entry s t tm) \<subseteq> insert (entryKey s t) (unused_keys tm)"
    by (auto simp: open_entry_def views_put [OF add_entry_simps(1)] split: if_splits)
qed

subsection \<open>Registering a publisher\<close>

lemma put_publisher_wf:
  assumes wf: "topic_wf P S tm" and e: "om_lookup (topics tm) ekey = Some e"
    and slot: "si_name (ps_info slot) = te_service_name e"
  defines "e' \<equiv> e\<lparr>te_publishers := om_update (si_instance_id (ps_info slot)) slot (te_publishers e)\<rparr>"
  shows "topic_wf P S ((put_entry ekey e' tm)
     \<lparr>fd_publications := bucket_insert (ps_fd slot) ekey (fd_publications tm)\<rparr>)"
proof -
  note d = topic_wfD [OF wf]
  have "publishes fd e' \<Longrightarrow> fd = ps_fd slot \<or> publishes fd e" for fd
    by (auto simp: publishes_def e'_def om_lookup_update split: if_splits)
  then have "pubs_agree P (om_update ekey e' (topics tm)) (bucket_insert (ps_fd slot) ekey (fd_publications tm))"
    using d(3) e by (auto simp: pubs_agree_def om_lookup_update)
  moreover have "entry_shape ekey e'"
    using d(1) [OF e] slot by (auto simp: entry_shape_def e'_def om_lookup_update)
  ultimately show ?thesis
    using d e refs_agree_put [OF e, of e'] subs_agree_put [OF e, of S e'] total_agree_put [OF e, of e']
    by (auto simp: topic_wf_def e'_def om_lookup_update)
qed

definition slot_of :: "ServiceInfo \<Rightarrow> int \<Rightarrow> u32 \<Rightarrow> PublisherSlot" where
  "slot_of info fd idl_hash = \<lparr>ps_fd = fd, ps_info = info, ps_idl_hash = idl_hash\<rparr>"

text \<open>What \<open>registerPublisher\<close> does once it has accepted the request.\<close>

lemma registerPublisher_cases:
  assumes "topic_wf P S tm" "registerPublisher topic info fd h tm = (ok, tm')"
  obtains (reject) "\<not> ok" "tm' = tm"
  | (accept) e where "ok" "\<not> topic_name_invalid topic" "si_name info \<noteq> []"
      "om_lookup (topics (open_entry (si_name info) topic tm)) (entryKey (si_name info) topic) = Some e"
      "te_service_name e = si_name info"
      "tm' = (put_entry (entryKey (si_name info) topic)
                (e\<lparr>te_publishers := om_update (si_instance_id info) (slot_of info fd h) (te_publishers e)\<rparr>)
                (open_entry (si_name info) topic tm))
              \<lparr>fd_publications := bucket_insert fd (entryKey (si_name info) topic) (fd_publications tm)\<rparr>"
proof -
  obtain e where e: "om_lookup (topics (open_entry (si_name info) topic tm)) (entryKey (si_name info) topic) = Some e"
    "te_service_name e = si_name info" using open_entry_lookup [OF assms(1)] .
  let ?res = "(True, (put_entry (entryKey (si_name info) topic)
                (e\<lparr>te_publishers := om_update (si_instance_id info) (slot_of info fd h) (te_publishers e)\<rparr>)
                (open_entry (si_name info) topic tm))
              \<lparr>fd_publications := bucket_insert fd (entryKey (si_name info) topic) (fd_publications tm)\<rparr>)"
  have "registerPublisher topic info fd h tm = (False, tm) \<or>
     (\<not> topic_name_invalid topic \<and> si_name info \<noteq> [] \<and> registerPublisher topic info fd h tm = ?res)"
  proof (cases "om_lookup (topics tm) (entryKey (si_name info) topic)")
    case None
    then have "e = new_entry (si_name info) topic" using e(1) by (simp add: open_entry_def)
    with None show ?thesis
      by (auto simp: registerPublisher_def topic_name_invalid_def open_entry_def Let_def slot_of_def
          makeServiceInstanceKey_def split: prod.splits)
  next
    case (Some e0)
    then have "e0 = e" using e(1) by (simp add: open_entry_def)
    with Some show ?thesis
      by (auto simp: registerPublisher_def topic_name_invalid_def open_entry_def Let_def slot_of_def
          makeServiceInstanceKey_def split: prod.splits)
  qed
  with assms(2) e reject accept show thesis by auto
qed

lemma registerPublisher_spec:
  assumes wf: "topic_wf P S tm" and r: "registerPublisher topic info fd h tm = (ok, tm')"
  shows "topic_wf P S tm' \<and> unused_keys tm' \<subseteq> unused_keys tm \<and> sub_at tm' = sub_at tm \<and>
    (if ok then \<forall>s t k. pub_at tm' s t k = (if s = si_name info \<and> t = topic \<and> k = si_instance_id info
        then Some (slot_of info fd h) else pub_at tm s t k)
     else tm' = tm)"
proof (cases rule: registerPublisher_cases [OF wf r, case_names reject accept])
  case reject
  with wf show ?thesis by simp
next
  case (accept e)
  let ?tm1 = "open_entry (si_name info) topic tm"
  let ?e' = "e\<lparr>te_publishers := om_update (si_instance_id info) (slot_of info fd h) (te_publishers e)\<rparr>"
  have wf': "topic_wf P S tm'"
    using put_publisher_wf [OF open_entry_wf [OF wf accept(2)] accept(4), of "slot_of info fd h"] accept
    by (simp add: slot_of_def)
  have ts: "topics tm' = om_update (entryKey (si_name info) topic) ?e' (topics ?tm1)" using accept by simp
  note v = views_put [OF ts]
  have used: "\<not> entry_unused ?e'" by (auto simp: entry_unused_def om_is_empty_iff om_lookup_update)
  have at1: "pub_at ?tm1 (si_name info) topic k = om_lookup (te_publishers e) k"
    "sub_at ?tm1 (si_name info) topic fd' k' = (case om_lookup (te_subscribers e) fd' of None \<Rightarrow> None | Some m \<Rightarrow> om_lookup m k')"
    for k fd' k' using accept(4) by (simp_all add: pub_at_def sub_at_def)
  have "sub_at tm' = sub_at ?tm1" using at1(2) by (intro ext) (auto simp: v)
  moreover have "pub_at tm' s t k = (if s = si_name info \<and> t = topic \<and> k = si_instance_id info
        then Some (slot_of info fd h) else pub_at ?tm1 s t k)" for s t k
    using at1(1) by (auto simp: v om_lookup_update)
  moreover have "unused_keys tm' \<subseteq> unused_keys tm"
    using v(3) used open_entry_views(3) [of "si_name info" topic tm] by auto
  ultimately show ?thesis using wf' accept(1) by (simp add: open_entry_views)
qed

subsection \<open>Changing the subscribers of an entry\<close>

text \<open>The subscriptions of one connection at one entry change; everything else stays.\<close>

lemma subs_agree_change:
  assumes ag: "subs_agree S ts fsubs counts" and e: "om_lookup ts k = Some e"
    and other: "\<And>fd'. fd' \<noteq> fd \<Longrightarrow> om_lookup (te_subscribers e') fd' = om_lookup (te_subscribers e) fd'"
      "\<And>fd'. fd' \<noteq> fd \<Longrightarrow> bucket fsubs' fd' = bucket fsubs fd'"
      "\<And>fd'. fd' \<noteq> fd \<Longrightarrow> om_lookup counts' fd' = om_lookup counts fd'"
    and ne: "no_empty_bucket fsubs'"
    and at_fd: "fd \<in> S \<Longrightarrow> bucket fsubs' fd =
        (if om_lookup (te_subscribers e') fd = None then bucket fsubs fd - {k} else insert k (bucket fsubs fd))"
      "fd \<in> S \<Longrightarrow> om_lookup counts' fd = counted (om_sum (\<lambda>_. sub_count fd) ts + sub_count fd e' - sub_count fd e)"
  shows "subs_agree S (om_update k e' ts) fsubs' counts'"
  unfolding subs_agree_def
proof (intro conjI ballI)
  show "no_empty_bucket fsubs'" by (rule ne)
  fix fd' assume fd': "fd' \<in> S"
  have b: "bucket fsubs fd' = {x. \<exists>y. om_lookup ts x = Some y \<and> om_lookup (te_subscribers y) fd' \<noteq> None}"
    and c: "om_lookup counts fd' = counted (om_sum (\<lambda>_. sub_count fd') ts)"
    using ag fd' by (auto simp: subs_agree_def)
  note r = om_sum_replace [OF e, of "\<lambda>_. sub_count fd'" e']
  show "bucket fsubs' fd' = {x. \<exists>y. om_lookup (om_update k e' ts) x = Some y \<and> om_lookup (te_subscribers y) fd' \<noteq> None}"
  proof (cases "fd' = fd")
    case True
    with at_fd(1) fd' b show ?thesis by (auto simp: om_lookup_update)
  next
    case False
    with b e other(1,2) show ?thesis by (auto simp: om_lookup_update)
  qed
  show "om_lookup counts' fd' = counted (om_sum (\<lambda>_. sub_count fd') (om_update k e' ts))"
  proof (cases "fd' = fd")
    case True
    have "om_sum (\<lambda>_. sub_count fd') ts + sub_count fd' e' - sub_count fd' e = om_sum (\<lambda>_. sub_count fd') (om_update k e' ts)"
      using r by simp
    with at_fd(2) fd' True show ?thesis by simp
  next
    case False
    have "sub_count fd' e' = sub_count fd' e" using other(1) [OF False] by (simp add: sub_count_def)
    with r c other(3) [OF False] show ?thesis by simp
  qed
qed

lemma total_agree_change:
  assumes "total_agree ts n" "om_lookup ts k = Some e"
  shows "total_agree (om_update k e' ts) (n + sub_total e' - sub_total e)" "sub_total e \<le> n"
  using assms om_sum_replace [OF assms(2), of "\<lambda>_. sub_total" e'] om_sum_le [OF assms(2), of "\<lambda>_. sub_total"]
  by (simp_all add: total_agree_def)

lemma change_subscribers_wf:
  assumes wf: "topic_wf P S tm" and e: "om_lookup (topics tm) k = Some e"
    and names: "te_service_name e' = te_service_name e" "te_topic_name e' = te_topic_name e" "te_publishers e' = te_publishers e"
    and shape: "entry_shape k e'"
    and tm': "topics tm' = om_update k e' (topics tm)" "topic_name_refs tm' = topic_name_refs tm"
      "fd_publications tm' = fd_publications tm"
      "total_subscriptions tm' = total_subscriptions tm + sub_total e' - sub_total e"
    and subs: "subs_agree S (om_update k e' (topics tm)) (fd_subscriptions tm') (fd_subscription_counts tm')"
  shows "topic_wf P S tm'"
proof -
  note d = topic_wfD [OF wf]
  have "pubs_agree P (om_update k e' (topics tm)) (fd_publications tm)"
    using pubs_agree_put [OF d(3) e, of e'] names(3) by (simp add: publishes_def)
  moreover have "total_agree (om_update k e' (topics tm)) (total_subscriptions tm')"
    using total_agree_change(1) [OF d(5) e, of e'] tm'(4) by simp
  ultimately show ?thesis
    using d shape subs refs_agree_put [OF e names(2)] by (auto simp: topic_wf_def tm' om_lookup_update)
qed

subsection \<open>Subscribing\<close>

lemma addSubscriberFilter_cases:
  assumes "topic_wf P S tm" "addSubscriberFilter topic sel fd tm = (ok, tm')"
  obtains (reject) "\<not> ok" "tm' = tm"
  | (accept) e filters where "ok" "\<not> topic_name_invalid topic"
      "om_lookup (topics (open_entry (tf_publisher_service sel) topic tm)) (entryKey (tf_publisher_service sel) topic) = Some e"
      "te_service_name e = tf_publisher_service sel"
      "filters = (case om_lookup (te_subscribers e) fd of None \<Rightarrow> om_empty | Some m \<Rightarrow> m)"
      "om_lookup filters (filter_key sel) = None"
      "tm' = (put_entry (entryKey (tf_publisher_service sel) topic)
                (e\<lparr>te_subscribers := om_update fd (om_update (filter_key sel) sel filters) (te_subscribers e)\<rparr>)
                (open_entry (tf_publisher_service sel) topic tm))
              \<lparr>fd_subscriptions := bucket_insert fd (entryKey (tf_publisher_service sel) topic) (fd_subscriptions tm),
               fd_subscription_counts := om_update fd
                 ((case om_lookup (fd_subscription_counts tm) fd of None \<Rightarrow> 0 | Some n \<Rightarrow> n) + 1) (fd_subscription_counts tm),
               total_subscriptions := total_subscriptions tm + 1\<rparr>"
proof -
  let ?s = "tf_publisher_service sel"
  obtain e where e: "om_lookup (topics (open_entry ?s topic tm)) (entryKey ?s topic) = Some e"
    "te_service_name e = ?s" using open_entry_lookup [OF assms(1)] .
  let ?filters = "case om_lookup (te_subscribers e) fd of None \<Rightarrow> om_empty | Some m \<Rightarrow> m"
  have new: "om_lookup (topics tm) (entryKey ?s topic) = None \<Longrightarrow> e = new_entry ?s topic"
    using e(1) by (simp add: open_entry_def)
  have old: "om_lookup (topics tm) (entryKey ?s topic) = Some e0 \<Longrightarrow> e0 = e" for e0
    using e(1) by (simp add: open_entry_def)
  note defs = addSubscriberFilter_def open_entry_def Let_def MAX_SUBSCRIBERS_PER_TOPIC_def
  show thesis
  proof (cases ok)
    case False
    have "tm' = tm"
    proof (cases "om_lookup (topics tm) (entryKey ?s topic)")
      case None
      with assms(2) False show ?thesis by (auto simp: defs split: if_splits)
    next
      case (Some e0)
      with assms(2) False show ?thesis by (auto simp: defs split: if_splits)
    qed
    with False reject show thesis by blast
  next
    case True
    have "\<not> topic_name_invalid topic" "om_lookup ?filters (filter_key sel) = None"
      "tm' = (put_entry (entryKey ?s topic)
                (e\<lparr>te_subscribers := om_update fd (om_update (filter_key sel) sel ?filters) (te_subscribers e)\<rparr>)
                (open_entry ?s topic tm))
              \<lparr>fd_subscriptions := bucket_insert fd (entryKey ?s topic) (fd_subscriptions tm),
               fd_subscription_counts := om_update fd
                 ((case om_lookup (fd_subscription_counts tm) fd of None \<Rightarrow> 0 | Some n \<Rightarrow> n) + 1) (fd_subscription_counts tm),
               total_subscriptions := total_subscriptions tm + 1\<rparr>"
      using assms(2) True new old
      by (cases "om_lookup (topics tm) (entryKey ?s topic)"; auto simp: defs split: if_splits option.splits)+
    with True e accept show thesis by blast
  qed
qed

lemma sub_total_update:
  "om_sum (\<lambda>_ m. om_size m) (om_update fd m' subs) +
     (case om_lookup subs fd of None \<Rightarrow> 0 | Some m \<Rightarrow> om_size m) =
   om_sum (\<lambda>_ m. om_size m) subs + om_size m'"
  using om_sum_split [of "\<lambda>_ m. om_size m" subs fd] by (simp add: om_sum_update split: option.splits)

lemma sub_total_erase:
  "om_sum (\<lambda>_ m. om_size m) (om_erase fd subs) + (case om_lookup subs fd of None \<Rightarrow> 0 | Some m \<Rightarrow> om_size m) =
   om_sum (\<lambda>_ m. om_size m) subs"
  using om_sum_split [of "\<lambda>_ m. om_size m" subs fd] by (simp split: option.splits)

lemma addSubscriberFilter_spec:
  assumes wf: "topic_wf P S tm" and fd: "fd \<in> S" and r: "addSubscriberFilter topic sel fd tm = (ok, tm')"
  shows "topic_wf P S tm' \<and> unused_keys tm' \<subseteq> unused_keys tm \<and> pub_at tm' = pub_at tm \<and>
    (if ok then sub_at tm (tf_publisher_service sel) topic fd (filter_key sel) = None \<and>
       (\<forall>s t fd' k. sub_at tm' s t fd' k =
          (if s = tf_publisher_service sel \<and> t = topic \<and> fd' = fd \<and> k = filter_key sel
           then Some sel else sub_at tm s t fd' k))
     else tm' = tm)"
proof (cases rule: addSubscriberFilter_cases [OF wf r, case_names reject accept])
  case reject
  with wf show ?thesis by simp
next
  case (accept e filters)
  let ?s = "tf_publisher_service sel" and ?k = "entryKey (tf_publisher_service sel) topic"
  let ?tm1 = "open_entry ?s topic tm"
  let ?m = "om_update (filter_key sel) sel filters"
  let ?e' = "e\<lparr>te_subscribers := om_update fd ?m (te_subscribers e)\<rparr>"
  have wf1: "topic_wf P S ?tm1" using open_entry_wf [OF wf accept(2)] .
  note d = topic_wfD [OF wf1]
  have f_size: "(case om_lookup (te_subscribers e) fd of None \<Rightarrow> 0 | Some m \<Rightarrow> om_size m) = om_size filters"
    using accept(5) by (simp split: option.splits)
  have m_size: "om_size ?m = om_size filters + 1" using accept(6) by (simp add: om_size_update)
  have c: "sub_count fd ?e' = sub_count fd e + 1" using f_size m_size by (simp add: sub_count_def om_lookup_update)
  have t: "sub_total ?e' = sub_total e + 1"
    using sub_total_update [of fd ?m "te_subscribers e"] f_size m_size by (simp add: sub_total_def)
  have cnt: "(case om_lookup (fd_subscription_counts tm) fd of None \<Rightarrow> 0 | Some n \<Rightarrow> n) =
      om_sum (\<lambda>_. sub_count fd) (topics ?tm1)"
    using d(4) fd by (auto simp: subs_agree_def counted_def)
  have ne: "no_empty_bucket (fd_subscriptions tm)" using d(4) by (simp add: subs_agree_def)
  have sh: "entry_shape ?k e" using d(1) accept(3) by blast
  have "subs_agree S (om_update ?k ?e' (topics ?tm1)) (fd_subscriptions tm') (fd_subscription_counts tm')"
    unfolding accept(7)
    by (rule subs_agree_change [OF d(4) accept(3), where fd = fd])
      (use ne c cnt in \<open>auto simp: om_lookup_update counted_def\<close>)
  moreover have "entry_shape ?k ?e'"
    using sh accept(4,5) by (auto simp: entry_shape_def om_lookup_update om_is_empty_iff split: if_splits option.splits)
  ultimately have wf': "topic_wf P S tm'"
    using t by (intro change_subscribers_wf [OF wf1 accept(3), of ?e']) (simp_all add: accept(7))
  have ts: "topics tm' = om_update ?k ?e' (topics ?tm1)" by (simp add: accept(7))
  note v = views_put [OF ts]
  have at1: "pub_at ?tm1 ?s topic k = om_lookup (te_publishers e) k"
    "sub_at ?tm1 ?s topic fd' k' = (case om_lookup (te_subscribers e) fd' of None \<Rightarrow> None | Some m \<Rightarrow> om_lookup m k')"
    for k fd' k' using accept(3) by (simp_all add: pub_at_def sub_at_def)
  have at2: "sub_at ?tm1 ?s topic fd k' = om_lookup filters k'" for k'
    using at1(2) accept(5) by (simp split: option.splits)
  have "\<not> entry_unused ?e'" by (auto simp: entry_unused_def om_is_empty_iff om_lookup_update)
  then have "unused_keys tm' \<subseteq> unused_keys tm" using v(3) open_entry_views(3) [of ?s topic tm] by auto
  moreover have "pub_at tm' = pub_at ?tm1" using at1(1) by (intro ext) (auto simp: v)
  moreover have "sub_at tm' s t fd' k = (if s = ?s \<and> t = topic \<and> fd' = fd \<and> k = filter_key sel
      then Some sel else sub_at ?tm1 s t fd' k)" for s t fd' k
    using at1(2) at2 by (auto simp: v om_lookup_update)
  moreover have "sub_at ?tm1 ?s topic fd (filter_key sel) = None" using at2 accept(6) by simp
  ultimately show ?thesis using wf' accept(1) by (simp add: open_entry_views)
qed

subsection \<open>Unsubscribing\<close>

lemma lower_count_lookup:
  assumes "om_lookup counts fd = counted n" "0 < r"
  shows "om_lookup (lower_count fd r counts) fd' = (if fd' = fd then counted (n - r) else om_lookup counts fd')"
  using assms by (auto simp: lower_count_def counted_def om_lookup_update om_lookup_erase)

lemma size_sub_le: "b \<le> a \<Longrightarrow> size_sub a b = a - b"
  by (simp add: size_sub_def)

text \<open>
  The subscriptions of \<open>fd\<close> at one entry shrink to \<open>subs'\<close>, by \<open>r\<close> filters: the shared part of the
  three ways to unsubscribe. \<open>fd \<in> S\<close> where the indexes of \<open>fd\<close> are maintained.
\<close>

lemma shrink_subscribers_wf:
  assumes wf: "topic_wf P S tm" and e: "om_lookup (topics tm) k = Some e"
    and m: "om_lookup (te_subscribers e) fd = Some m"
    and subs': "\<And>fd'. fd' \<noteq> fd \<Longrightarrow> om_lookup subs' fd' = om_lookup (te_subscribers e) fd'"
    and part: "\<And>m' x f. om_lookup subs' fd = Some m' \<Longrightarrow> om_lookup m' x = Some f \<Longrightarrow> om_lookup m x = Some f"
      "\<And>m'. om_lookup subs' fd = Some m' \<Longrightarrow> \<not> om_is_empty m'"
    and r: "(case om_lookup subs' fd of None \<Rightarrow> 0 | Some m' \<Rightarrow> om_size m') + r = om_size m" "0 < r"
      "om_sum (\<lambda>_ m. om_size m) subs' + r = sub_total e"
    and tm': "topics tm' = om_update k (e\<lparr>te_subscribers := subs'\<rparr>) (topics tm)"
      "topic_name_refs tm' = topic_name_refs tm" "fd_publications tm' = fd_publications tm"
      "total_subscriptions tm' = size_sub (total_subscriptions tm) r"
    and idx: "no_empty_bucket (fd_subscriptions tm')"
      "\<And>fd'. fd' \<noteq> fd \<Longrightarrow> bucket (fd_subscriptions tm') fd' = bucket (fd_subscriptions tm) fd'"
      "\<And>fd'. fd' \<noteq> fd \<Longrightarrow> om_lookup (fd_subscription_counts tm') fd' = om_lookup (fd_subscription_counts tm) fd'"
      "fd \<in> S \<Longrightarrow> bucket (fd_subscriptions tm') fd =
        (if om_lookup subs' fd = None then bucket (fd_subscriptions tm) fd - {k} else bucket (fd_subscriptions tm) fd)"
      "fd \<in> S \<Longrightarrow> fd_subscription_counts tm' = lower_count fd r (fd_subscription_counts tm)"
  shows "topic_wf P S tm'"
proof -
  note d = topic_wfD [OF wf]
  let ?e' = "e\<lparr>te_subscribers := subs'\<rparr>"
  have tot: "sub_total ?e' + r = sub_total e" using r(3) by (simp add: sub_total_def)
  have "sub_total e \<le> total_subscriptions tm" using total_agree_change(2) [OF d(5) e] .
  then have n: "total_subscriptions tm' = total_subscriptions tm + sub_total ?e' - sub_total e"
    using tot tm'(4) by (simp add: size_sub_le)
  have cnt: "sub_count fd e = om_size m" "sub_count fd ?e' + r = sub_count fd e"
    using m r(1) by (simp_all add: sub_count_def)
  have k: "k \<in> bucket (fd_subscriptions tm) fd" if "fd \<in> S"
    using that d(4) e m by (auto simp: subs_agree_def)
  have low: "om_lookup (fd_subscription_counts tm') fd =
      counted (om_sum (\<lambda>_. sub_count fd) (topics tm) + sub_count fd ?e' - sub_count fd e)" if "fd \<in> S"
  proof -
    have "om_lookup (fd_subscription_counts tm) fd = counted (om_sum (\<lambda>_. sub_count fd) (topics tm))"
      using that d(4) by (simp add: subs_agree_def)
    then have "om_lookup (fd_subscription_counts tm') fd = counted (om_sum (\<lambda>_. sub_count fd) (topics tm) - r)"
      using lower_count_lookup r(2) idx(5) [OF that] by simp
    moreover have "om_sum (\<lambda>_. sub_count fd) (topics tm) - r = om_sum (\<lambda>_. sub_count fd) (topics tm) + sub_count fd ?e' - sub_count fd e"
      using cnt by linarith
    ultimately show ?thesis by simp
  qed
  have "subs_agree S (om_update k ?e' (topics tm)) (fd_subscriptions tm') (fd_subscription_counts tm')"
    by (rule subs_agree_change [OF d(4) e, where fd = fd]) (use subs' idx k low in \<open>auto\<close>)
  moreover have "entry_shape k ?e'"
  proof -
    have old: "\<not> om_is_empty m1 \<and> (\<forall>x f. om_lookup m1 x = Some f \<longrightarrow> x = filter_key f \<and> tf_publisher_service f = te_service_name e)"
      if "om_lookup (te_subscribers e) fd1 = Some m1" for fd1 m1
      using that d(1) [OF e] by (simp add: entry_shape_def)
    have "\<not> om_is_empty m' \<and> (\<forall>x f. om_lookup m' x = Some f \<longrightarrow> x = filter_key f \<and> tf_publisher_service f = te_service_name e)"
      if m': "om_lookup subs' fd' = Some m'" for fd' m'
    proof (cases "fd' = fd")
      case True
      with m' part [of m'] old [OF m] show ?thesis by metis
    next
      case False
      with m' subs' [OF False] old show ?thesis by simp
    qed
    with d(1) [OF e] show ?thesis by (simp add: entry_shape_def)
  qed
  ultimately show ?thesis
    using n tm' by (intro change_subscribers_wf [OF wf e, of ?e']) simp_all
qed

text \<open>An entry is found under one \<open>(service, topic)\<close> only.\<close>

lemma entry_at:
  assumes "topic_wf P S tm" "om_lookup (topics tm) ekey = Some e"
  shows "entryKey s t = ekey \<longleftrightarrow> s = te_service_name e \<and> t = te_topic_name e"
    "ekey = entryKey (te_service_name e) (te_topic_name e)"
  using topic_wfD(1) [OF assms] by (auto simp: entry_shape_def entryKey_inj)

lemma sub_at_entry:
  assumes "topic_wf P S tm" "om_lookup (topics tm) ekey = Some e"
  shows "sub_at tm (te_service_name e) (te_topic_name e) fd k =
      (case om_lookup (te_subscribers e) fd of None \<Rightarrow> None | Some m \<Rightarrow> om_lookup m k)"
    "pub_at tm (te_service_name e) (te_topic_name e) pk = om_lookup (te_publishers e) pk"
  using assms entry_at(2) [OF assms] by (simp_all add: sub_at_def pub_at_def)

lemma sub_at_None: "om_lookup (topics tm) (entryKey s t) = None \<Longrightarrow> sub_at tm s t fd k = None"
  by (simp add: sub_at_def)

lemma subscriber_nonempty:
  assumes "topic_wf P S tm" "om_lookup (topics tm) ekey = Some e" "om_lookup (te_subscribers e) fd = Some m"
  shows "0 < om_size m"
  using topic_wfD(1) [OF assms(1,2)] assms(3) by (auto simp: entry_shape_def om_size_0_iff [symmetric])

text \<open>Where an entry loses all subscriptions of a connection.\<close>

lemma views_drop:
  assumes wf: "topic_wf P S tm" and e: "om_lookup (topics tm) ekey = Some e"
    and tm': "topics tm' = om_update ekey (e\<lparr>te_subscribers := om_erase fd (te_subscribers e)\<rparr>) (topics tm)"
  shows "pub_at tm' = pub_at tm"
    "sub_at tm' s t fd' k = (if entryKey s t = ekey \<and> fd' = fd then None else sub_at tm s t fd' k)"
    "unused_keys tm' \<subseteq> insert ekey (unused_keys tm)"
proof -
  note v = views_put [OF tm' [unfolded entry_at(2) [OF wf e]]] and at1 = sub_at_entry [OF wf e]
  show "pub_at tm' = pub_at tm" using at1(2) by (intro ext) (auto simp: v)
  show "sub_at tm' s t fd' k = (if entryKey s t = ekey \<and> fd' = fd then None else sub_at tm s t fd' k)"
    using at1(1) entry_at(1) [OF wf e, of s t] by (auto simp: v om_lookup_erase)
  show "unused_keys tm' \<subseteq> insert ekey (unused_keys tm)"
    using v(3) entry_at(2) [OF wf e] by (auto split: if_splits)
qed

text \<open>What the loop of \<open>removeSubscriber\<close> keeps, and how it changes the subscriptions.\<close>

definition sub_frame :: "int set \<Rightarrow> int set \<Rightarrow> TopicManager \<Rightarrow> TopicManager \<Rightarrow> bool" where
  "sub_frame P S tm0 tm \<longleftrightarrow> topic_wf P S tm \<and> unused_keys tm \<subseteq> unused_keys tm0 \<and> pub_at tm = pub_at tm0"

lemma drop_subscriber_spec:
  assumes wf: "topic_wf P S tm" and fd: "fd \<in> S" and r: "drop_subscriber topic fd ekey tm = (removed, tm')"
  shows "topic_wf P S tm' \<and> unused_keys tm' \<subseteq> unused_keys tm \<and> pub_at tm' = pub_at tm \<and>
    (\<forall>s t fd' k. sub_at tm' s t fd' k =
       (if entryKey s t = ekey \<and> t = topic \<and> fd' = fd then None else sub_at tm s t fd' k)) \<and>
    (removed \<longleftrightarrow> (\<exists>s t k. entryKey s t = ekey \<and> t = topic \<and> sub_at tm s t fd k \<noteq> None))"
proof (cases "\<exists>e m. om_lookup (topics tm) ekey = Some e \<and> te_topic_name e = topic \<and> om_lookup (te_subscribers e) fd = Some m")
  case False
  then have none: "sub_at tm s topic fd k = None" if "entryKey s topic = ekey" for s k
    using that topic_wfD(1) [OF wf, of ekey]
    by (auto simp: sub_at_def entry_shape_def entryKey_inj split: option.splits)
  from False r have "\<not> removed" "tm' = tm"
    by (auto simp: drop_subscriber_def split: option.splits if_splits)
  with wf none show ?thesis by auto
next
  case True
  then obtain e m where e: "om_lookup (topics tm) ekey = Some e" and t: "te_topic_name e = topic"
    and m: "om_lookup (te_subscribers e) fd = Some m" by blast
  define tm1 where "tm1 = (put_entry ekey (e\<lparr>te_subscribers := om_erase fd (te_subscribers e)\<rparr>) tm)
      \<lparr>total_subscriptions := size_sub (total_subscriptions tm) (om_size m),
       fd_subscriptions := bucket_erase fd ekey (fd_subscriptions tm),
       fd_subscription_counts := lower_count fd (om_size m) (fd_subscription_counts tm)\<rparr>"
  have res: "removed" "tm' = eraseEntryIfUnused ekey tm1"
    using r e t m by (simp_all add: drop_subscriber_def tm1_def Let_def)
  note d = topic_wfD [OF wf]
  have cnt: "om_lookup (fd_subscription_counts tm) fd = counted (om_sum (\<lambda>_. sub_count fd) (topics tm))"
    using d(4) fd by (simp add: subs_agree_def)
  have ne: "no_empty_bucket (fd_subscriptions tm)" using d(4) by (simp add: subs_agree_def)
  have pos: "0 < om_size m" by (rule subscriber_nonempty [OF wf e m])
  have tot: "om_sum (\<lambda>_. om_size) (om_erase fd (te_subscribers e)) + om_size m = om_sum (\<lambda>_. om_size) (te_subscribers e)"
    using sub_total_erase [of fd "te_subscribers e"] m by simp
  note low = lower_count_lookup [OF cnt pos]
  have "topic_wf P S tm1"
    by (rule shrink_subscribers_wf [OF wf e m, where subs' = "om_erase fd (te_subscribers e)" and r = "om_size m"])
      (simp_all add: tm1_def om_lookup_erase sub_total_def ne pos tot low)
  then have wf': "topic_wf P S tm'" using res(2) erase_unused_wf by simp
  note v = views_drop [OF wf e, of tm1 fd]
  have ts: "topics tm1 = om_update ekey (e\<lparr>te_subscribers := om_erase fd (te_subscribers e)\<rparr>) (topics tm)"
    by (simp add: tm1_def)
  obtain k f where "om_lookup m k = Some f"
    using pos om_size_0_iff [of m] om_is_empty_iff [of m] by auto
  then have hit: "sub_at tm (te_service_name e) topic fd k \<noteq> None"
    using sub_at_entry(1) [OF wf e, of fd k] m t by simp
  have key: "entryKey s t' = ekey \<Longrightarrow> t' = topic" for s t' using entry_at(1) [OF wf e] t by blast
  show ?thesis
  proof (intro conjI allI)
    show "unused_keys tm' \<subseteq> unused_keys tm" using v(3) [OF ts] res(2) by (auto simp: erase_unused_keys)
    show "pub_at tm' = pub_at tm" using v(1) [OF ts] res(2) by (simp add: views_erase_unused)
    show "sub_at tm' s t' fd' k' = (if entryKey s t' = ekey \<and> t' = topic \<and> fd' = fd then None else sub_at tm s t' fd' k')"
      for s t' fd' k' using v(2) [OF ts, of s t' fd' k'] key [of s t'] by (simp only: res(2) views_erase_unused) metis
    show "removed \<longleftrightarrow> (\<exists>s t' k. entryKey s t' = ekey \<and> t' = topic \<and> sub_at tm s t' fd k \<noteq> None)"
      using res(1) hit entry_at(2) [OF wf e] t by metis
  qed (rule wf')
qed

type_synonym sub_place = "string \<times> string \<times> int \<times> string"

definition sub_view :: "TopicManager \<Rightarrow> sub_place \<Rightarrow> TopicSubscriptionFilter option" where
  "sub_view tm x = (case x of (s, t, fd, k) \<Rightarrow> sub_at tm s t fd k)"

definition sub_key :: "sub_place \<Rightarrow> string" where
  "sub_key x = (case x of (s, t, fd, k) \<Rightarrow> entryKey s t)"

interpretation unsub: sweep "sub_frame UNIV UNIV tm0" sub_view sub_key
    "\<lambda>x _. fst (snd x) = topic \<and> fst (snd (snd x)) = fd" "drop_subscriber topic fd" for tm0 topic fd
proof
  fix tm tm' :: TopicManager and ekey :: string and removed
  assume inv: "sub_frame UNIV UNIV tm0 tm" and r: "drop_subscriber topic fd ekey tm = (removed, tm')"
  have "topic_wf UNIV UNIV tm" using inv by (simp add: sub_frame_def)
  note spec = drop_subscriber_spec [OF this UNIV_I r]
  have "sub_view tm' x = (if sub_key x = ekey
      then drop_if (\<lambda>_. fst (snd x) = topic \<and> fst (snd (snd x)) = fd) (sub_view tm x) else sub_view tm x)" for x
    using spec by (cases x; cases "sub_view tm x") (auto simp: sub_view_def sub_key_def)
  moreover have "removed \<longleftrightarrow> (\<exists>x v. sub_key x = ekey \<and> sub_view tm x = Some v \<and> fst (snd x) = topic \<and> fst (snd (snd x)) = fd)"
    using spec by (auto simp: sub_view_def sub_key_def split_paired_Ex)
  ultimately show "sub_frame UNIV UNIV tm0 tm' \<and> (\<forall>x. sub_view tm' x = (if sub_key x = ekey
      then drop_if (\<lambda>_. fst (snd x) = topic \<and> fst (snd (snd x)) = fd) (sub_view tm x) else sub_view tm x)) \<and>
      (removed \<longleftrightarrow> (\<exists>x v. sub_key x = ekey \<and> sub_view tm x = Some v \<and> fst (snd x) = topic \<and> fst (snd (snd x)) = fd))"
    using spec inv by (auto simp: sub_frame_def)
qed

text \<open>A place with a subscription belongs to one of the entries.\<close>

lemma sub_view_key: "sub_view tm x \<noteq> None \<Longrightarrow> sub_key x \<in> set (om_keys (topics tm))"
  by (auto simp: sub_view_def sub_key_def sub_at_def in_om_keys_iff split: prod.splits option.splits)

lemma removeSubscriber_spec:
  assumes wf: "topic_wf UNIV UNIV tm" and r: "removeSubscriber topic fd tm = (removed, tm')"
  shows "topic_wf UNIV UNIV tm' \<and> unused_keys tm' \<subseteq> unused_keys tm \<and> pub_at tm' = pub_at tm \<and>
    (\<forall>s t fd' k. sub_at tm' s t fd' k = (if t = topic \<and> fd' = fd then None else sub_at tm s t fd' k)) \<and>
    (removed \<longleftrightarrow> (\<exists>s k. sub_at tm s topic fd k \<noteq> None))"
proof (cases "topic_name_invalid topic")
  case True
  have "sub_at tm s topic fd k = None" for s k
    using topic_wfD(1) [OF wf] True by (fastforce simp: sub_at_def entry_shape_def entryKey_inj split: option.splits)
  with True r wf show ?thesis by (auto simp: removeSubscriber_def)
next
  case False
  let ?ks = "om_keys (topics tm)"
  have loop: "any_loop (drop_subscriber topic fd) ?ks tm = (removed, tm')"
    using r False by (simp add: removeSubscriber_def)
  have inv: "sub_frame UNIV UNIV tm tm" using wf by (simp add: sub_frame_def)
  note res = unsub.any_loop_sweep [OF inv loop]
  have "sub_at tm' s t fd' k = (if t = topic \<and> fd' = fd then None else sub_at tm s t fd' k)" for s t fd' k
    using res(2) [of "(s, t, fd', k)"] sub_view_key [of tm "(s, t, fd', k)"]
    by (cases "sub_at tm s t fd' k") (auto simp: sub_view_def split: if_splits)
  moreover have "removed \<longleftrightarrow> (\<exists>s k. sub_at tm s topic fd k \<noteq> None)"
  proof -
    have "removed \<longleftrightarrow> (\<exists>x v. sub_view tm x = Some v \<and> fst (snd x) = topic \<and> fst (snd (snd x)) = fd)"
      using res(3) sub_view_key [of tm] by (metis option.discI)
    then show ?thesis by (simp add: sub_view_def split_paired_Ex)
  qed
  ultimately show ?thesis using res(1) by (simp add: sub_frame_def)
qed

lemma removeSubscriberFilter_spec:
  assumes wf: "topic_wf P S tm" and fd: "fd \<in> S" and r: "removeSubscriberFilter topic sel fd tm = (removed, tm')"
  shows "topic_wf P S tm' \<and> unused_keys tm' \<subseteq> unused_keys tm \<and> pub_at tm' = pub_at tm \<and>
    (\<forall>s t fd' k. sub_at tm' s t fd' k = (if s = tf_publisher_service sel \<and> t = topic \<and> fd' = fd \<and> k = filter_key sel
       then None else sub_at tm s t fd' k)) \<and>
    (removed \<longleftrightarrow> sub_at tm (tf_publisher_service sel) topic fd (filter_key sel) \<noteq> None)"
proof -
  let ?s = "tf_publisher_service sel" and ?k = "entryKey (tf_publisher_service sel) topic" and ?x = "filter_key sel"
  show ?thesis
  proof (cases "sub_at tm ?s topic fd ?x")
    case None
    then have "removeSubscriberFilter topic sel fd tm = (False, tm)"
      by (auto simp: removeSubscriberFilter_def sub_at_def Let_def split: option.splits)
    with r None wf show ?thesis by auto
  next
    case (Some f)
    then obtain e m where e: "om_lookup (topics tm) ?k = Some e" and m: "om_lookup (te_subscribers e) fd = Some m"
      and f: "om_lookup m ?x = Some f" by (auto simp: sub_at_def split: option.splits)
    note at = entry_at [OF wf e] and at1 = sub_at_entry [OF wf e]
    have names: "te_service_name e = ?s" "te_topic_name e = topic" using at(1) [of ?s topic] by auto
    have valid: "\<not> topic_name_invalid topic" using topic_wfD(1) [OF wf e] names by (simp add: entry_shape_def)
    define subs where "subs = (if om_is_empty (om_erase ?x m) then om_erase fd (te_subscribers e)
      else om_update fd (om_erase ?x m) (te_subscribers e))"
    define tm1 where "tm1 = (put_entry ?k (e\<lparr>te_subscribers := subs\<rparr>) tm)
      \<lparr>total_subscriptions := size_sub (total_subscriptions tm) 1,
       fd_subscription_counts := lower_count fd 1 (fd_subscription_counts tm)\<rparr>"
    define tm2 where "tm2 = (if om_lookup subs fd = None
      then tm1\<lparr>fd_subscriptions := bucket_erase fd ?k (fd_subscriptions tm)\<rparr> else tm1)"
    have res: "removed" "tm' = eraseEntryIfUnused ?k tm2"
      using r valid e m f by (auto simp: removeSubscriberFilter_def Let_def tm1_def tm2_def subs_def)
    note d = topic_wfD [OF wf]
    have ne: "no_empty_bucket (fd_subscriptions tm)" using d(4) by (simp add: subs_agree_def)
    have cnt: "om_lookup (fd_subscription_counts tm) fd = counted (om_sum (\<lambda>_. sub_count fd) (topics tm))"
      using d(4) fd by (simp add: subs_agree_def)
    note low = lower_count_lookup [OF cnt, of 1, simplified]
    have sz: "om_size (om_erase ?x m) + 1 = om_size m"
      using f om_size_erase [of ?x m] subscriber_nonempty [OF wf e m] by simp
    have look: "om_lookup subs fd' = (if fd' = fd then (if om_is_empty (om_erase ?x m) then None else Some (om_erase ?x m))
        else om_lookup (te_subscribers e) fd')" for fd'
      by (simp add: subs_def om_lookup_erase om_lookup_update)
    have szl: "(case om_lookup subs fd of None \<Rightarrow> 0 | Some m' \<Rightarrow> om_size m') + 1 = om_size m"
      using sz om_size_0_iff [of "om_erase ?x m"] by (auto simp: look)
    have tot: "om_sum (\<lambda>_. om_size) subs + 1 = om_sum (\<lambda>_. om_size) (te_subscribers e)"
      using sub_total_erase [of fd "te_subscribers e"] sub_total_update [of fd "om_erase ?x m" "te_subscribers e"]
        m sz om_size_0_iff [of "om_erase ?x m"] by (auto simp: subs_def)
    have "topic_wf P S tm2"
      by (rule shrink_subscribers_wf [OF wf e m, where subs' = subs and r = 1])
        (simp_all add: tm1_def tm2_def sub_total_def ne tot [simplified] low szl [simplified],
         auto simp: look om_lookup_erase split: if_splits)
    then have wf': "topic_wf P S tm'" using res(2) erase_unused_wf by simp
    have ts: "topics tm2 = om_update ?k (e\<lparr>te_subscribers := subs\<rparr>) (topics tm)" by (simp add: tm1_def tm2_def)
    note v = views_put [OF ts]
    have "sub_at tm2 s t fd' k = (if s = ?s \<and> t = topic \<and> fd' = fd \<and> k = ?x then None else sub_at tm s t fd' k)" for s t fd' k
    proof (cases "s = ?s \<and> t = topic")
      case True
      with at1(1) [of fd' k] names m show ?thesis
        by (auto simp: v look om_lookup_erase om_is_empty_iff)
    qed (auto simp: v)
    moreover have "pub_at tm2 = pub_at tm" using at1(2) names by (intro ext) (auto simp: v)
    moreover have "unused_keys tm2 \<subseteq> insert ?k (unused_keys tm)" by (auto simp: v)
    ultimately show ?thesis using wf' res Some by (auto simp: views_erase_unused erase_unused_keys)
  qed
qed

subsection \<open>Withdrawing publishers\<close>

definition keep_slots :: "(PublisherSlot \<Rightarrow> bool) \<Rightarrow> (string \<times> PublisherSlot) list \<Rightarrow> (string, PublisherSlot) omap \<Rightarrow> (string, PublisherSlot) omap" where
  "keep_slots sel ps pubs = fold (\<lambda>(pk, slot) m. if sel slot then om_erase pk m else m) ps pubs"

definition unindex :: "(PublisherSlot \<Rightarrow> bool) \<Rightarrow> string \<Rightarrow> (string \<times> PublisherSlot) list \<Rightarrow> (int, string oset) omap \<Rightarrow> (int, string oset) omap" where
  "unindex sel ekey ps fp = fold (\<lambda>(pk, slot) fp. if sel slot then bucket_erase (ps_fd slot) ekey fp else fp) ps fp"

lemma keep_slots_lookup:
  "om_lookup (keep_slots sel ps pubs) k = (if \<exists>slot. (k, slot) \<in> set ps \<and> sel slot then None else om_lookup pubs k)"
  unfolding keep_slots_def by (induction ps arbitrary: pubs) (auto simp: om_lookup_erase)

lemma keep_slots_all:
  "om_lookup (keep_slots sel (om_list pubs) pubs) k = drop_if sel (om_lookup pubs k)"
  by (cases "om_lookup pubs k") (auto simp: keep_slots_lookup in_om_list_iff)

lemma unindex_bucket:
  "bucket (unindex sel ekey ps fp) fd = (if \<exists>p \<in> set ps. sel (snd p) \<and> ps_fd (snd p) = fd
     then bucket fp fd - {ekey} else bucket fp fd)"
  "no_empty_bucket fp \<Longrightarrow> no_empty_bucket (unindex sel ekey ps fp)"
  unfolding unindex_def by (induction ps arbitrary: fp) (auto split: if_splits)

lemma erase_slots_fold:
  "om_lookup (topics tm) ekey = Some e \<Longrightarrow>
   fold (\<lambda>(pk, slot) (any_removed, tm).
        if \<not> sel slot then (any_removed, tm)
        else case om_lookup (topics tm) ekey of
            None \<Rightarrow> (any_removed, tm)
          | Some e \<Rightarrow> (True, put_entry ekey (e\<lparr>te_publishers := om_erase pk (te_publishers e)\<rparr>)
               (tm\<lparr>fd_publications := bucket_erase (ps_fd slot) ekey (fd_publications tm)\<rparr>))) ps (b, tm) =
   (b \<or> (\<exists>p \<in> set ps. sel (snd p)),
    (put_entry ekey (e\<lparr>te_publishers := keep_slots sel ps (te_publishers e)\<rparr>) tm)
      \<lparr>fd_publications := unindex sel ekey ps (fd_publications tm)\<rparr>)"
proof (induction ps arbitrary: b tm e)
  case Nil
  then show ?case by (simp add: keep_slots_def unindex_def put_entry_def om_update_idem)
next
  case (Cons p ps)
  obtain pk slot where p: "p = (pk, slot)" by force
  show ?case
  proof (cases "sel slot")
    case True
    let ?e1 = "e\<lparr>te_publishers := om_erase pk (te_publishers e)\<rparr>"
    let ?tm1 = "put_entry ekey ?e1 (tm\<lparr>fd_publications := bucket_erase (ps_fd slot) ekey (fd_publications tm)\<rparr>)"
    have "om_lookup (topics ?tm1) ekey = Some ?e1" by simp
    from Cons.IH [OF this, of True] Cons.prems True p show ?thesis
      by (simp add: keep_slots_def unindex_def put_entry_def)
  next
    case False
    from Cons.IH [OF Cons.prems, of b] False p show ?thesis by (simp add: keep_slots_def unindex_def)
  qed
qed

lemma pub_at_None: "om_lookup (topics tm) (entryKey s t) = None \<Longrightarrow> pub_at tm s t k = None"
  by (simp add: pub_at_def)

text \<open>Slots are selected by their connection.\<close>

lemma erase_slots_spec:
  assumes wf: "topic_wf P S tm" and sel: "\<And>slot. sel slot \<longleftrightarrow> Q (ps_fd slot)"
    and r: "erase_slots sel ekey tm = (removed, tm')"
  shows "topic_wf P S tm' \<and> unused_keys tm' \<subseteq> insert ekey (unused_keys tm) \<and> sub_at tm' = sub_at tm \<and>
    (\<forall>s t k. pub_at tm' s t k = (if entryKey s t = ekey then drop_if sel (pub_at tm s t k) else pub_at tm s t k)) \<and>
    (removed \<longleftrightarrow> (\<exists>s t k slot. entryKey s t = ekey \<and> pub_at tm s t k = Some slot \<and> sel slot)) \<and>
    (\<forall>k. (om_lookup (topics tm') k = None) = (om_lookup (topics tm) k = None)) \<and>
    (\<forall>k e'. om_lookup (topics tm') k = Some e' \<longrightarrow> (\<exists>e. om_lookup (topics tm) k = Some e \<and>
       te_topic_name e' = te_topic_name e \<and> te_service_name e' = te_service_name e))"
proof (cases "om_lookup (topics tm) ekey")
  case None
  with r have "\<not> removed" "tm' = tm" by (auto simp: erase_slots_def)
  with None wf show ?thesis by (auto simp: pub_at_def)
next
  case (Some e)
  let ?ps = "om_list (te_publishers e)"
  let ?e' = "e\<lparr>te_publishers := keep_slots sel ?ps (te_publishers e)\<rparr>"
  have res: "removed \<longleftrightarrow> (\<exists>p \<in> set ?ps. sel (snd p))"
    "tm' = (put_entry ekey ?e' tm)\<lparr>fd_publications := unindex sel ekey ?ps (fd_publications tm)\<rparr>"
    using r Some erase_slots_fold [OF Some, of sel ?ps False] by (auto simp: erase_slots_def)
  note d = topic_wfD [OF wf]
  have pub: "publishes fd ?e' \<Longrightarrow> publishes fd e \<and> \<not> Q fd" for fd
    using sel by (auto simp: publishes_def keep_slots_all drop_if_Some)
  have "pubs_agree P (om_update ekey ?e' (topics tm)) (unindex sel ekey ?ps (fd_publications tm))"
    unfolding pubs_agree_def
  proof (intro conjI ballI allI impI)
    show "no_empty_bucket (unindex sel ekey ?ps (fd_publications tm))"
      using d(3) unindex_bucket(2) by (simp add: pubs_agree_def)
    fix fd k y assume fd: "fd \<in> P" and y: "om_lookup (om_update ekey ?e' (topics tm)) k = Some y" and p: "publishes fd y"
    show "k \<in> bucket (unindex sel ekey ?ps (fd_publications tm)) fd"
    proof (cases "k = ekey")
      case True
      with y p pub have "publishes fd e" "\<not> Q fd" by auto
      with d(3) fd Some True sel show ?thesis by (auto simp: unindex_bucket pubs_agree_def)
    next
      case False
      with y p d(3) fd show ?thesis by (auto simp: unindex_bucket pubs_agree_def om_lookup_update)
    qed
  qed
  moreover have "entry_shape ekey ?e'"
    using d(1) [OF Some] by (auto simp: entry_shape_def keep_slots_all drop_if_Some)
  ultimately have wf': "topic_wf P S tm'"
    using d Some refs_agree_put [OF Some, of ?e'] subs_agree_put [OF Some, of S ?e'] total_agree_put [OF Some, of ?e']
    by (auto simp: topic_wf_def res(2) om_lookup_update)
  note at = entry_at [OF wf Some] and at1 = sub_at_entry [OF wf Some]
  have ts: "topics tm' = om_update (entryKey (te_service_name e) (te_topic_name e)) ?e' (topics tm)"
    using res(2) at(2) by simp
  note v = views_put [OF ts]
  have "pub_at tm' s t k = (if entryKey s t = ekey then drop_if sel (pub_at tm s t k) else pub_at tm s t k)" for s t k
    using at1(2) at(1) [of s t] by (auto simp: v keep_slots_all)
  moreover have "sub_at tm' = sub_at tm" using at1(1) by (intro ext) (auto simp: v)
  moreover have "unused_keys tm' \<subseteq> insert ekey (unused_keys tm)" using v(3) at(2) by (auto split: if_splits)
  moreover have "removed \<longleftrightarrow> (\<exists>s t k slot. entryKey s t = ekey \<and> pub_at tm s t k = Some slot \<and> sel slot)"
  proof -
    have "removed \<longleftrightarrow> (\<exists>k slot. om_lookup (te_publishers e) k = Some slot \<and> sel slot)"
      using res(1) by (auto simp: in_om_list_iff Bex_def split_paired_Ex)
    also have "\<dots> \<longleftrightarrow> (\<exists>k slot. pub_at tm (te_service_name e) (te_topic_name e) k = Some slot \<and> sel slot)"
      by (simp add: at1(2))
    finally show ?thesis using at by auto
  qed
  ultimately show ?thesis using wf' Some res(2) by (auto simp: om_lookup_update split: if_splits)
qed

text \<open>What the loops that withdraw publishers keep.\<close>

definition pub_frame :: "int set \<Rightarrow> int set \<Rightarrow> TopicManager \<Rightarrow> TopicManager \<Rightarrow> bool" where
  "pub_frame P S tm0 tm \<longleftrightarrow> topic_wf P S tm \<and> unused_keys tm \<subseteq> unused_keys tm0 \<and> sub_at tm = sub_at tm0"

type_synonym pub_place = "string \<times> string \<times> string"

definition pub_view :: "TopicManager \<Rightarrow> pub_place \<Rightarrow> PublisherSlot option" where
  "pub_view tm x = (case x of (s, t, k) \<Rightarrow> pub_at tm s t k)"

definition pub_key :: "pub_place \<Rightarrow> string" where
  "pub_key x = (case x of (s, t, k) \<Rightarrow> entryKey s t)"

lemma pub_view_key: "pub_view tm x \<noteq> None \<Longrightarrow> pub_key x \<in> set (om_keys (topics tm))"
  by (auto simp: pub_view_def pub_key_def pub_at_def in_om_keys_iff split: prod.splits option.splits)

definition slot_goes :: "string \<Rightarrow> int \<Rightarrow> bool \<Rightarrow> pub_place \<Rightarrow> PublisherSlot \<Rightarrow> bool" where
  "slot_goes topic fd filter_fd x slot \<longleftrightarrow> fst (snd x) = topic \<and> (filter_fd \<longrightarrow> ps_fd slot = fd)"

interpretation unpub: sweep "pub_frame P S tm0" pub_view pub_key "slot_goes topic fd filter_fd"
    "removeSlots_at topic fd filter_fd" for P S tm0 topic fd filter_fd
proof
  fix tm tm' :: TopicManager and ekey :: string and removed
  assume inv: "pub_frame P S tm0 tm" and r: "removeSlots_at topic fd filter_fd ekey tm = (removed, tm')"
  have wf: "topic_wf P S tm" using inv by (simp add: pub_frame_def)
  let ?sel = "\<lambda>slot. \<not> (filter_fd \<and> ps_fd slot \<noteq> fd)"
  show "pub_frame P S tm0 tm' \<and> (\<forall>x. pub_view tm' x = (if pub_key x = ekey
      then drop_if (slot_goes topic fd filter_fd x) (pub_view tm x) else pub_view tm x)) \<and>
      (removed \<longleftrightarrow> (\<exists>x v. pub_key x = ekey \<and> pub_view tm x = Some v \<and> slot_goes topic fd filter_fd x v))"
  proof (cases "\<exists>e. om_lookup (topics tm) ekey = Some e \<and> te_topic_name e = topic")
    case False
    then have none: "pub_at tm s topic k = None" if "entryKey s topic = ekey" for s k
      using that topic_wfD(1) [OF wf, of ekey] by (auto simp: pub_at_def entry_shape_def entryKey_inj split: option.splits)
    have "\<not> removed" "tm' = tm" using r False by (auto simp: removeSlots_at_def split: option.splits)
    moreover have "drop_if (slot_goes topic fd filter_fd x) (pub_view tm x) = pub_view tm x" if "pub_key x = ekey" for x
      using that none by (cases x; cases "pub_view tm x") (auto simp: pub_view_def pub_key_def slot_goes_def)
    ultimately show ?thesis using inv none by (auto simp: pub_view_def pub_key_def slot_goes_def)
  next
    case True
    then obtain e where e: "om_lookup (topics tm) ekey = Some e" "te_topic_name e = topic" by blast
    obtain rm tm1 where er: "erase_slots ?sel ekey tm = (rm, tm1)" by force
    have res: "removed = rm" "tm' = eraseEntryIfUnused ekey tm1"
      using r e er by (simp_all add: removeSlots_at_def)
    note sp = erase_slots_spec [OF wf _ er, of "\<lambda>f. \<not> (filter_fd \<and> f \<noteq> fd)", simplified]
    have key: "t = topic" if "entryKey s t = ekey" for s t using that entry_at(1) [OF wf e(1)] e(2) by blast
    have "pub_frame P S tm0 tm'"
      using sp inv erase_unused_wf [of P S tm1 ekey] res(2)
      by (auto simp: pub_frame_def erase_unused_keys views_erase_unused)
    moreover have "pub_view tm' x = (if pub_key x = ekey then drop_if (slot_goes topic fd filter_fd x) (pub_view tm x)
        else pub_view tm x)" for x
    proof -
      obtain s t k where x: "x = (s, t, k)" by (metis prod_cases3)
      have "drop_if (slot_goes topic fd filter_fd x) v = drop_if (\<lambda>slot. filter_fd \<longrightarrow> ps_fd slot = fd) v"
        if "entryKey s t = ekey" for v using key [OF that] by (cases v) (simp_all add: x slot_goes_def)
      with sp show ?thesis by (simp add: x pub_view_def pub_key_def res(2) views_erase_unused)
    qed
    moreover have "removed \<longleftrightarrow> (\<exists>x v. pub_key x = ekey \<and> pub_view tm x = Some v \<and> slot_goes topic fd filter_fd x v)"
    proof -
      have "removed \<longleftrightarrow> (\<exists>s t k slot. entryKey s t = ekey \<and> pub_at tm s t k = Some slot \<and> (filter_fd \<longrightarrow> ps_fd slot = fd))"
        using sp res(1) by blast
      also have "\<dots> \<longleftrightarrow> (\<exists>s t k slot. entryKey s t = ekey \<and> pub_at tm s t k = Some slot \<and> t = topic \<and> (filter_fd \<longrightarrow> ps_fd slot = fd))"
        using key by blast
      finally show ?thesis by (simp add: split_paired_Ex pub_view_def pub_key_def slot_goes_def)
    qed
    ultimately show ?thesis by blast
  qed
qed

lemma removePublisherSlots_spec:
  assumes wf: "topic_wf P S tm" and r: "removePublisherSlots topic fd filter_fd tm = (removed, tm')"
  shows "topic_wf P S tm' \<and> unused_keys tm' \<subseteq> unused_keys tm \<and> sub_at tm' = sub_at tm \<and>
    (\<forall>s t k. pub_at tm' s t k = (if t = topic then drop_if (\<lambda>slot. filter_fd \<longrightarrow> ps_fd slot = fd) (pub_at tm s t k)
       else pub_at tm s t k)) \<and>
    (removed \<longleftrightarrow> (\<exists>s k slot. pub_at tm s topic k = Some slot \<and> (filter_fd \<longrightarrow> ps_fd slot = fd)))"
proof -
  have loop: "any_loop (removeSlots_at topic fd filter_fd) (om_keys (topics tm)) tm = (removed, tm')"
    using r by (simp add: removePublisherSlots_def)
  have inv: "pub_frame P S tm tm" using wf by (simp add: pub_frame_def)
  note res = unpub.any_loop_sweep [OF inv loop]
  have "pub_at tm' s t k = (if t = topic then drop_if (\<lambda>slot. filter_fd \<longrightarrow> ps_fd slot = fd) (pub_at tm s t k)
      else pub_at tm s t k)" for s t k
    using res(2) [of "(s, t, k)"] pub_view_key [of tm "(s, t, k)"]
    by (cases "pub_at tm s t k") (auto simp: pub_view_def slot_goes_def)
  moreover have "removed \<longleftrightarrow> (\<exists>s k slot. pub_at tm s topic k = Some slot \<and> (filter_fd \<longrightarrow> ps_fd slot = fd))"
  proof -
    have "removed \<longleftrightarrow> (\<exists>x v. pub_view tm x = Some v \<and> slot_goes topic fd filter_fd x v)"
      using res(3) pub_view_key [of tm] by (metis option.discI)
    then show ?thesis by (auto simp: pub_view_def slot_goes_def split_paired_Ex)
  qed
  ultimately show ?thesis using res(1) by (simp add: pub_frame_def)
qed

subsection \<open>A service that leaves\<close>

lemma withdraw_at_spec:
  assumes wf: "topic_wf P S tm" and r: "withdraw_at sv fd ekey (removed, tm) = (removed', tm')"
  shows "topic_wf P S tm' \<and> unused_keys tm' \<subseteq> unused_keys tm \<union> range (entryKey sv) \<and> sub_at tm' = sub_at tm \<and>
    (\<forall>s t k. pub_at tm' s t k = (if entryKey s t = ekey \<and> s = sv then drop_if (\<lambda>slot. ps_fd slot = fd) (pub_at tm s t k)
       else pub_at tm s t k)) \<and>
    set removed' = set removed \<union> {t. \<exists>k slot. entryKey sv t = ekey \<and> pub_at tm sv t k = Some slot \<and> ps_fd slot = fd} \<and>
    (distinct removed \<longrightarrow> distinct removed')"
proof (cases "\<exists>e. om_lookup (topics tm) ekey = Some e \<and> te_service_name e = sv")
  case False
  then have none: "pub_at tm sv t k = None" if "entryKey sv t = ekey" for t k
    using that topic_wfD(1) [OF wf, of ekey] by (auto simp: pub_at_def entry_shape_def entryKey_inj split: option.splits)
  have "removed' = removed" "tm' = tm" using r False by (auto simp: withdraw_at_def split: option.splits)
  with wf none show ?thesis by auto
next
  case True
  then obtain e where e: "om_lookup (topics tm) ekey = Some e" "te_service_name e = sv" by blast
  obtain any tm1 where er: "erase_slots (\<lambda>slot. \<not> ps_fd slot \<noteq> fd) ekey tm = (any, tm1)" by force
  note sp = erase_slots_spec [OF wf _ er, of "\<lambda>f. f = fd", simplified]
  have res: "tm' = tm1" "removed' = (if any \<and> te_topic_name e \<notin> set removed then removed @ [te_topic_name e] else removed)"
    using r e er by (simp_all add: withdraw_at_def)
  note at = entry_at [OF wf e(1)]
  have key: "entryKey s t = ekey \<longleftrightarrow> s = sv \<and> t = te_topic_name e" for s t using at(1) e(2) by blast
  have any: "any \<longleftrightarrow> (\<exists>k slot. pub_at tm sv (te_topic_name e) k = Some slot \<and> ps_fd slot = fd)" using sp key by auto
  have "set removed' = set removed \<union> {t. \<exists>k slot. entryKey sv t = ekey \<and> pub_at tm sv t k = Some slot \<and> ps_fd slot = fd}"
    using any by (auto simp: res(2) key)
  moreover have "ekey \<in> range (entryKey sv)" using at(2) e(2) by simp
  ultimately show ?thesis using sp key by (auto simp: res)
qed

definition pub_frame_with :: "string set \<Rightarrow> int set \<Rightarrow> int set \<Rightarrow> TopicManager \<Rightarrow> TopicManager \<Rightarrow> bool" where
  "pub_frame_with U P S tm0 tm \<longleftrightarrow>
     topic_wf P S tm \<and> unused_keys tm \<subseteq> unused_keys tm0 \<union> U \<and> sub_at tm = sub_at tm0"

interpretation withdraw: collecting_sweep "pub_frame_with (range (entryKey sv)) P S tm0" pub_view pub_key
    "\<lambda>x slot. fst x = sv \<and> ps_fd slot = fd" "\<lambda>x. fst (snd x)" distinct "withdraw_at sv fd" for sv P S tm0 fd
proof
  fix tm tm' :: TopicManager and ekey :: string and ls ls'
  assume inv: "pub_frame_with (range (entryKey sv)) P S tm0 tm" and r: "withdraw_at sv fd ekey (ls, tm) = (ls', tm')"
  have "topic_wf P S tm" using inv by (simp add: pub_frame_with_def)
  note sp = withdraw_at_spec [OF this r]
  have "pub_view tm' x = (if pub_key x = ekey then drop_if (\<lambda>slot. fst x = sv \<and> ps_fd slot = fd) (pub_view tm x)
      else pub_view tm x)" for x
    using sp by (cases x; cases "pub_view tm x") (auto simp: pub_view_def pub_key_def)
  moreover have "set ls' = set ls \<union> {fst (snd x) | x v. pub_key x = ekey \<and> pub_view tm x = Some v \<and> fst x = sv \<and> ps_fd v = fd}"
  proof -
    have "{t. \<exists>k slot. entryKey sv t = ekey \<and> pub_at tm sv t k = Some slot \<and> ps_fd slot = fd} =
        {fst (snd x) | x v. pub_key x = ekey \<and> pub_view tm x = Some v \<and> fst x = sv \<and> ps_fd v = fd}"
      by (auto simp: pub_view_def pub_key_def split_paired_Ex)
    with sp show ?thesis by simp
  qed
  moreover have "pub_frame_with (range (entryKey sv)) P S tm0 tm'"
    using sp inv by (auto simp: pub_frame_with_def)
  ultimately show "pub_frame_with (range (entryKey sv)) P S tm0 tm' \<and> (\<forall>x. pub_view tm' x = (if pub_key x = ekey
      then drop_if (\<lambda>slot. fst x = sv \<and> ps_fd slot = fd) (pub_view tm x) else pub_view tm x)) \<and>
      set ls' = set ls \<union> {fst (snd x) | x v. pub_key x = ekey \<and> pub_view tm x = Some v \<and> fst x = sv \<and> ps_fd v = fd} \<and>
      (distinct ls \<longrightarrow> distinct ls')" using sp by blast
qed

lemma tidy_at_spec:
  assumes "topic_wf P S tm"
  shows "topic_wf P S (tidy_at sv ekey tm)" "pub_at (tidy_at sv ekey tm) = pub_at tm"
    "sub_at (tidy_at sv ekey tm) = sub_at tm" "unused_keys (tidy_at sv ekey tm) \<subseteq> unused_keys tm"
    "ekey \<in> range (entryKey sv) \<Longrightarrow> ekey \<notin> unused_keys (tidy_at sv ekey tm)"
proof -
  have "tidy_at sv ekey tm = tm \<or> tidy_at sv ekey tm = eraseEntryIfUnused ekey tm"
    by (simp add: tidy_at_def split: option.splits)
  then show "topic_wf P S (tidy_at sv ekey tm)" "pub_at (tidy_at sv ekey tm) = pub_at tm"
    "sub_at (tidy_at sv ekey tm) = sub_at tm" "unused_keys (tidy_at sv ekey tm) \<subseteq> unused_keys tm"
    using assms erase_unused_wf [OF assms] views_erase_unused erase_unused_keys [of ekey tm] by auto
  assume "ekey \<in> range (entryKey sv)"
  then have "tidy_at sv ekey tm = (if om_lookup (topics tm) ekey = None then tm else eraseEntryIfUnused ekey tm)"
    using topic_wfD(1) [OF assms, of ekey] by (auto simp: tidy_at_def entry_shape_def entryKey_inj split: option.splits)
  then show "ekey \<notin> unused_keys (tidy_at sv ekey tm)" by (auto simp: erase_unused_keys) (simp add: unused_keys_def)
qed

lemma tidy_fold_spec:
  "topic_wf P S tm \<Longrightarrow> topic_wf P S (fold (tidy_at sv) ks tm) \<and> pub_at (fold (tidy_at sv) ks tm) = pub_at tm \<and>
    sub_at (fold (tidy_at sv) ks tm) = sub_at tm \<and>
    unused_keys (fold (tidy_at sv) ks tm) \<subseteq> unused_keys tm - (set ks \<inter> range (entryKey sv))"
proof (induction ks arbitrary: tm)
  case (Cons k ks)
  note s1 = tidy_at_spec [OF Cons.prems, where sv = sv and ekey = k]
  from Cons.IH [OF s1(1)] s1 show ?case by auto
qed simp

lemma removePublishersByService_spec:
  assumes wf: "topic_wf P S tm" and r: "removePublishersByService sv fd tm = (removed, tm')"
  shows "topic_wf P S tm' \<and> unused_keys tm' \<subseteq> unused_keys tm \<and> sub_at tm' = sub_at tm \<and>
    (\<forall>s t k. pub_at tm' s t k = (if s = sv then drop_if (\<lambda>slot. ps_fd slot = fd) (pub_at tm s t k) else pub_at tm s t k)) \<and>
    set removed = {t. \<exists>k slot. pub_at tm sv t k = Some slot \<and> ps_fd slot = fd} \<and> distinct removed"
proof -
  let ?ks = "om_keys (topics tm)"
  obtain rm tm1 where 1: "fold (withdraw_at sv fd) ?ks ([], tm) = (rm, tm1)" by force
  have inv: "pub_frame_with (range (entryKey sv)) P S tm tm" using wf by (simp add: pub_frame_with_def)
  note c = withdraw.fold_collect [OF inv 1]
  have s1: "topic_wf P S tm1" "unused_keys tm1 \<subseteq> unused_keys tm \<union> range (entryKey sv)" "sub_at tm1 = sub_at tm" "distinct rm"
    using c by (auto simp: pub_frame_with_def)
  have res: "removed = rm" "tm' = fold (tidy_at sv) (om_keys (topics tm1)) tm1"
    using r 1 by (auto simp: removePublishersByService_def)
  note s2 = tidy_fold_spec [of P S tm1 sv "om_keys (topics tm1)"]
  have p1: "pub_at tm1 s t k = (if s = sv then drop_if (\<lambda>slot. ps_fd slot = fd) (pub_at tm s t k) else pub_at tm s t k)" for s t k
    using c [THEN conjunct2, THEN conjunct1, rule_format, of "(s, t, k)"] pub_view_key [of tm "(s, t, k)"]
    by (cases "pub_at tm s t k") (auto simp: pub_view_def)
  have "unused_keys tm1 \<subseteq> set (om_keys (topics tm1))" by (auto simp: unused_keys_def in_om_keys_iff)
  moreover have "unused_keys tm1 \<subseteq> unused_keys tm \<union> range (entryKey sv)" using s1 by simp
  moreover have "unused_keys tm' \<subseteq> unused_keys tm1 - (set (om_keys (topics tm1)) \<inter> range (entryKey sv))"
    using s1 s2 res(2) by simp
  ultimately have "unused_keys tm' \<subseteq> unused_keys tm" by blast
  moreover have "set removed = {t. \<exists>k slot. pub_at tm sv t k = Some slot \<and> ps_fd slot = fd}"
  proof -
    have k: "(pub_key x \<in> set ?ks \<and> pub_view tm x = Some v \<and> Q) = (pub_view tm x = Some v \<and> Q)" for x v Q
      using pub_view_key [of tm x] by auto
    have "set rm = {fst (snd x) | x v. pub_key x \<in> set ?ks \<and> pub_view tm x = Some v \<and> fst x = sv \<and> ps_fd v = fd}"
      using c by simp
    then have "set rm = {fst (snd x) | x v. pub_view tm x = Some v \<and> fst x = sv \<and> ps_fd v = fd}" unfolding k .
    then show ?thesis by (auto simp: res(1) pub_view_def split_paired_Ex)
  qed
  ultimately show ?thesis using s1 s2 res p1 by simp
qed

end
