(* ===== verification/TopicClose.thy ===== *)
theory TopicClose
  imports TopicManager
begin

text \<open>
  The topic table when a connection closes, the histories of the table, and what its queries answer.
  The operations themselves are defined in \<open>TopicManager\<close>.
\<close>

subsection \<open>A connection that closes\<close>

lemma close_publication_spec:
  assumes wf: "topic_wf P S tm" and r: "close_publication fd ekey (removed, tm) = (removed', tm')"
  shows "topic_wf P S tm' \<and> unused_keys tm' \<subseteq> unused_keys tm \<and> sub_at tm' = sub_at tm \<and>
    fd_subscriptions tm' = fd_subscriptions tm \<and> fd_publications tm' = fd_publications tm \<and>
    (\<forall>s t k. pub_at tm' s t k = (if entryKey s t = ekey then drop_if (\<lambda>slot. ps_fd slot = fd) (pub_at tm s t k)
       else pub_at tm s t k)) \<and>
    set removed' = set removed \<union> {t. \<exists>s k slot. entryKey s t = ekey \<and> pub_at tm s t k = Some slot \<and> ps_fd slot = fd}"
proof (cases "om_lookup (topics tm) ekey")
  case None
  with r have "removed' = removed" "tm' = tm" by (auto simp: close_publication_def)
  with None wf show ?thesis by (auto simp: pub_at_def)
next
  case (Some e)
  let ?e' = "e\<lparr>te_publishers := om_filter (\<lambda>_ slot. ps_fd slot \<noteq> fd) (te_publishers e)\<rparr>"
  let ?tm1 = "put_entry ekey ?e' tm"
  have look: "om_lookup (om_filter (\<lambda>_ slot. ps_fd slot \<noteq> fd) m) k = drop_if (\<lambda>slot. ps_fd slot = fd) (om_lookup m k)" for m k
    by (cases "om_lookup m k") (auto simp: om_lookup_filter)
  have here: "(\<exists>slot \<in> set (om_values (te_publishers e)). ps_fd slot = fd) \<longleftrightarrow>
      (\<exists>k slot. om_lookup (te_publishers e) k = Some slot \<and> ps_fd slot = fd)"
    by (auto simp: in_om_values_iff Bex_def)
  have res: "tm' = eraseEntryIfUnused ekey ?tm1" "removed' = (if \<exists>k slot. om_lookup (te_publishers e) k = Some slot \<and> ps_fd slot = fd
      then removed @ [te_topic_name e] else removed)"
    using r Some here by (auto simp: close_publication_def Let_def)
  note d = topic_wfD [OF wf] and at = entry_at [OF wf Some] and at1 = sub_at_entry [OF wf Some]
  have pub: "publishes fd' ?e' \<Longrightarrow> publishes fd' e" for fd' by (auto simp: publishes_def look drop_if_Some)
  have "entry_shape ekey ?e'" using d(1) [OF Some] by (auto simp: entry_shape_def look drop_if_Some)
  then have "topic_wf P S ?tm1"
    using d Some pubs_agree_put [OF d(3) Some, of ?e'] pub refs_agree_put [OF Some, of ?e']
      subs_agree_put [OF Some, of S ?e'] total_agree_put [OF Some, of ?e']
    by (auto simp: topic_wf_def om_lookup_update)
  then have wf': "topic_wf P S tm'" using res(1) erase_unused_wf by simp
  have ts: "topics ?tm1 = om_update (entryKey (te_service_name e) (te_topic_name e)) ?e' (topics tm)" using at(2) by simp
  note v = views_put [OF ts]
  have "pub_at ?tm1 s t k = (if entryKey s t = ekey then drop_if (\<lambda>slot. ps_fd slot = fd) (pub_at tm s t k) else pub_at tm s t k)"
    for s t k using at1(2) at(1) [of s t] by (auto simp: v look)
  moreover have "sub_at ?tm1 = sub_at tm" using at1(1) by (intro ext) (auto simp: v)
  moreover have "unused_keys ?tm1 \<subseteq> insert ekey (unused_keys tm)" using v(3) at(2) by (auto split: if_splits)
  moreover have "set removed' = set removed \<union> {t. \<exists>s k slot. entryKey s t = ekey \<and> pub_at tm s t k = Some slot \<and> ps_fd slot = fd}"
  proof -
    have "(\<exists>s k slot. entryKey s t = ekey \<and> pub_at tm s t k = Some slot \<and> ps_fd slot = fd) \<longleftrightarrow>
        t = te_topic_name e \<and> (\<exists>k slot. om_lookup (te_publishers e) k = Some slot \<and> ps_fd slot = fd)" for t
      by (cases "t = te_topic_name e") (simp_all add: at(1) at1(2))
    then have "{t. \<exists>s k slot. entryKey s t = ekey \<and> pub_at tm s t k = Some slot \<and> ps_fd slot = fd} =
        {t. t = te_topic_name e \<and> (\<exists>k slot. om_lookup (te_publishers e) k = Some slot \<and> ps_fd slot = fd)}" by simp
    then show ?thesis unfolding res(2) by auto
  qed
  ultimately show ?thesis
    using wf' by (auto simp: res(1) views_erase_unused erase_unused_keys)
qed

definition closing_pubs :: "int set \<Rightarrow> int set \<Rightarrow> TopicManager \<Rightarrow> TopicManager \<Rightarrow> bool" where
  "closing_pubs P S tm0 tm \<longleftrightarrow> topic_wf P S tm \<and> unused_keys tm \<subseteq> unused_keys tm0 \<and> sub_at tm = sub_at tm0 \<and>
     fd_subscriptions tm = fd_subscriptions tm0 \<and> fd_publications tm = fd_publications tm0"

interpretation closepub: collecting_sweep "closing_pubs P S tm0" pub_view pub_key
    "\<lambda>x slot. ps_fd slot = fd" "\<lambda>x. fst (snd x)" "\<lambda>_. True" "close_publication fd" for P S tm0 fd
proof
  fix tm tm' :: TopicManager and ekey :: string and ls ls'
  assume inv: "closing_pubs P S tm0 tm" and r: "close_publication fd ekey (ls, tm) = (ls', tm')"
  have "topic_wf P S tm" using inv by (simp add: closing_pubs_def)
  note sp = close_publication_spec [OF this r]
  have "pub_view tm' x = (if pub_key x = ekey then drop_if (\<lambda>slot. ps_fd slot = fd) (pub_view tm x) else pub_view tm x)" for x
    using sp by (cases x) (simp add: pub_view_def pub_key_def)
  moreover have "set ls' = set ls \<union> {fst (snd x) | x v. pub_key x = ekey \<and> pub_view tm x = Some v \<and> ps_fd v = fd}"
  proof -
    have "{t. \<exists>s k slot. entryKey s t = ekey \<and> pub_at tm s t k = Some slot \<and> ps_fd slot = fd} =
        {fst (snd x) | x v. pub_key x = ekey \<and> pub_view tm x = Some v \<and> ps_fd v = fd}"
      by (auto simp: pub_view_def pub_key_def split_paired_Ex)
    with sp show ?thesis by simp
  qed
  moreover have "closing_pubs P S tm0 tm'" using sp inv by (auto simp: closing_pubs_def)
  ultimately show "closing_pubs P S tm0 tm' \<and> (\<forall>x. pub_view tm' x = (if pub_key x = ekey
      then drop_if (\<lambda>slot. ps_fd slot = fd) (pub_view tm x) else pub_view tm x)) \<and>
      set ls' = set ls \<union> {fst (snd x) | x v. pub_key x = ekey \<and> pub_view tm x = Some v \<and> ps_fd v = fd} \<and>
      (True \<longrightarrow> True)" by blast
qed

text \<open>Once the connection's publications are gone, the index may be trusted for it again.\<close>

lemma close_publications:
  assumes wf: "topic_wf UNIV S tm"
    and r: "(case om_lookup (fd_publications tm) fd of
               None \<Rightarrow> ([], tm)
             | Some pub_keys \<Rightarrow>
                 fold (close_publication fd) (om_keys pub_keys)
                   ([], tm\<lparr>fd_publications := om_erase fd (fd_publications tm)\<rparr>)) = (removed, tm')"
  shows "topic_wf UNIV S tm'" "unused_keys tm' \<subseteq> unused_keys tm" "sub_at tm' = sub_at tm"
    "fd_subscriptions tm' = fd_subscriptions tm"
    "pub_at tm' s t k = drop_if (\<lambda>slot. ps_fd slot = fd) (pub_at tm s t k)"
    "set removed = {t. \<exists>s k slot. pub_at tm s t k = Some slot \<and> ps_fd slot = fd}"
proof -
  note d = topic_wfD [OF wf]
  have inx: "entryKey s t \<in> bucket (fd_publications tm) fd" if slot: "pub_at tm s t k = Some slot" "ps_fd slot = fd" for s t k slot
  proof -
    obtain e where e: "om_lookup (topics tm) (entryKey s t) = Some e" "om_lookup (te_publishers e) k = Some slot"
      using slot(1) by (auto simp: pub_at_def split: option.splits)
    then have "publishes fd e" using slot(2) by (auto simp: publishes_def)
    with e(1) d(3) show ?thesis by (simp add: pubs_agree_def)
  qed
  define ks where "ks = (case om_lookup (fd_publications tm) fd of None \<Rightarrow> [] | Some pub_keys \<Rightarrow> om_keys pub_keys)"
  define tm0 where "tm0 = tm\<lparr>fd_publications := om_erase fd (fd_publications tm)\<rparr>"
  have ks: "set ks = bucket (fd_publications tm) fd" by (simp add: ks_def set_bucket_keys)
  have views: "pub_at tm0 = pub_at tm" "sub_at tm0 = sub_at tm" "unused_keys tm0 = unused_keys tm"
    "fd_subscriptions tm0 = fd_subscriptions tm"
    by (simp_all add: tm0_def pub_at_def sub_at_def unused_keys_def fun_eq_iff)
  have fold: "fold (close_publication fd) ks ([], tm0) = (removed, tm')"
  proof (cases "om_lookup (fd_publications tm) fd")
    case None
    then have "tm0 = tm" by (simp add: tm0_def om_erase_absent)
    with None r show ?thesis by (simp add: ks_def)
  qed (use r in \<open>simp add: ks_def tm0_def\<close>)
  have "topic_wf (- {fd}) S tm0"
    using d by (auto simp: topic_wf_def tm0_def pubs_agree_def bucket_def no_empty_bucket_def om_lookup_erase split: option.splits)
  then have "closing_pubs (- {fd}) S tm0 tm0" by (simp add: closing_pubs_def)
  note c = closepub.fold_collect [OF this fold]
  have s: "topic_wf (- {fd}) S tm'" "unused_keys tm' \<subseteq> unused_keys tm" "sub_at tm' = sub_at tm"
    "fd_subscriptions tm' = fd_subscriptions tm"
    using c views by (simp_all add: closing_pubs_def)
  then show "unused_keys tm' \<subseteq> unused_keys tm" "sub_at tm' = sub_at tm" "fd_subscriptions tm' = fd_subscriptions tm" by simp_all
  have p: "pub_at tm' s t k = drop_if (\<lambda>slot. ps_fd slot = fd) (pub_at tm s t k)" for s t k
  proof -
    have "pub_at tm' s t k = (if entryKey s t \<in> set ks then drop_if (\<lambda>slot. ps_fd slot = fd) (pub_at tm s t k) else pub_at tm s t k)"
      using c [THEN conjunct2, THEN conjunct1, rule_format, of "(s, t, k)"] views by (simp add: pub_view_def pub_key_def)
    moreover have "drop_if (\<lambda>slot. ps_fd slot = fd) (pub_at tm s t k) = pub_at tm s t k" if "entryKey s t \<notin> set ks"
      using inx [of s t k] that ks by (cases "pub_at tm s t k") auto
    ultimately show ?thesis by simp
  qed
  then show "pub_at tm' s t k = drop_if (\<lambda>slot. ps_fd slot = fd) (pub_at tm s t k)" .
  have gone: "\<not> publishes fd e" if e: "om_lookup (topics tm') ekey = Some e" for ekey e
    using p sub_at_entry(2) [OF s(1) e, symmetric] by (auto simp: publishes_def drop_if_Some)
  have "pubs_agree UNIV (topics tm') (fd_publications tm')"
    using topic_wfD(3) [OF s(1)] gone unfolding pubs_agree_def by (metis ComplI UNIV_I singletonD)
  with s(1) show "topic_wf UNIV S tm'" by (simp add: topic_wf_def)
  have "(pub_key x \<in> set ks \<and> pub_view tm0 x = Some v \<and> ps_fd v = fd) = (pub_view tm x = Some v \<and> ps_fd v = fd)" for x v
    using inx views(1) ks by (cases x) (auto simp: pub_view_def pub_key_def)
  then have "set removed = {fst (snd x) | x v. pub_view tm x = Some v \<and> ps_fd v = fd}" using c by simp
  then show "set removed = {t. \<exists>s k slot. pub_at tm s t k = Some slot \<and> ps_fd slot = fd}"
    by (auto simp: pub_view_def split_paired_Ex)
qed

text \<open>One key of the subscription index, while the connection is no longer indexed.\<close>

lemma close_subscription_spec:
  assumes wf: "topic_wf P S tm" and fd: "fd \<notin> S" and tm'_def: "tm' = close_subscription fd ekey tm"
  shows "topic_wf P S tm' \<and> unused_keys tm' \<subseteq> unused_keys tm \<and> pub_at tm' = pub_at tm \<and>
    fd_subscriptions tm' = fd_subscriptions tm \<and>
    (\<forall>s t fd' k. sub_at tm' s t fd' k = (if entryKey s t = ekey \<and> fd' = fd then None else sub_at tm s t fd' k))"
proof (cases "\<exists>e m. om_lookup (topics tm) ekey = Some e \<and> om_lookup (te_subscribers e) fd = Some m")
  case False
  then have none: "sub_at tm s t fd k = None" if "entryKey s t = ekey" for s t k
    using that by (auto simp: sub_at_def split: option.splits)
  have "tm' = tm \<or> tm' = eraseEntryIfUnused ekey tm"
    using False by (auto simp: tm'_def close_subscription_def split: option.splits)
  then show ?thesis
    using wf erase_unused_wf [OF wf] none by (auto simp: views_erase_unused erase_unused_keys)
next
  case True
  then obtain e m where e: "om_lookup (topics tm) ekey = Some e" and m: "om_lookup (te_subscribers e) fd = Some m" by blast
  define tm1 where "tm1 = (put_entry ekey (e\<lparr>te_subscribers := om_erase fd (te_subscribers e)\<rparr>) tm)
      \<lparr>total_subscriptions := size_sub (total_subscriptions tm) (om_size m)\<rparr>"
  have res: "tm' = eraseEntryIfUnused ekey tm1"
    using e m by (simp add: tm'_def close_subscription_def tm1_def Let_def)
  have ne: "no_empty_bucket (fd_subscriptions tm)" using topic_wfD(4) [OF wf] by (simp add: subs_agree_def)
  have pos: "0 < om_size m" by (rule subscriber_nonempty [OF wf e m])
  have tot: "om_sum (\<lambda>_. om_size) (om_erase fd (te_subscribers e)) + om_size m = om_sum (\<lambda>_. om_size) (te_subscribers e)"
    using sub_total_erase [of fd "te_subscribers e"] m by simp
  have "topic_wf P S tm1"
    by (rule shrink_subscribers_wf [OF wf e m, where subs' = "om_erase fd (te_subscribers e)" and r = "om_size m"])
      (simp_all add: tm1_def om_lookup_erase sub_total_def ne pos tot fd)
  then have wf': "topic_wf P S tm'" using res erase_unused_wf by simp
  have ts: "topics tm1 = om_update ekey (e\<lparr>te_subscribers := om_erase fd (te_subscribers e)\<rparr>) (topics tm)"
    by (simp add: tm1_def)
  note v = views_drop [OF wf e ts]
  show ?thesis
    using wf' v by (auto simp: res views_erase_unused erase_unused_keys) (simp add: tm1_def)
qed

lemma close_subscription_fold:
  assumes "topic_wf P S tm" "fd \<notin> S"
  shows "topic_wf P S (fold (close_subscription fd) ks tm) \<and>
    unused_keys (fold (close_subscription fd) ks tm) \<subseteq> unused_keys tm \<and>
    pub_at (fold (close_subscription fd) ks tm) = pub_at tm \<and>
    fd_subscriptions (fold (close_subscription fd) ks tm) = fd_subscriptions tm \<and>
    (\<forall>s t fd' k. sub_at (fold (close_subscription fd) ks tm) s t fd' k =
       (if entryKey s t \<in> set ks \<and> fd' = fd then None else sub_at tm s t fd' k))"
  using assms(1)
proof (induction ks arbitrary: tm)
  case (Cons k ks)
  note s1 = close_subscription_spec [OF Cons.prems assms(2) refl, of k]
  from Cons.IH [of "close_subscription fd k tm"] s1 show ?case by auto
qed simp

lemma close_subscriptions:
  assumes wf: "topic_wf P UNIV tm"
    and tm1_def: "tm1 = (case om_lookup (fd_subscriptions tm) fd of
                  None \<Rightarrow> tm
                | Some sub_keys \<Rightarrow>
                    fold (close_subscription fd) (om_keys sub_keys)
                      (tm\<lparr>fd_subscriptions := om_erase fd (fd_subscriptions tm)\<rparr>))"
    and tm'_def: "tm' = tm1\<lparr>fd_subscription_counts := om_erase fd (fd_subscription_counts tm1)\<rparr>"
  shows "topic_wf P UNIV tm'" "unused_keys tm' \<subseteq> unused_keys tm" "pub_at tm' = pub_at tm"
    "sub_at tm' s t fd' k = (if fd' = fd then None else sub_at tm s t fd' k)"
proof -
  note d = topic_wfD [OF wf]
  define ks where "ks = (case om_lookup (fd_subscriptions tm) fd of None \<Rightarrow> [] | Some sub_keys \<Rightarrow> om_keys sub_keys)"
  define tm0 where "tm0 = tm\<lparr>fd_subscriptions := om_erase fd (fd_subscriptions tm)\<rparr>"
  have ks: "set ks = bucket (fd_subscriptions tm) fd" by (simp add: ks_def set_bucket_keys)
  have inx: "sub_at tm s t fd k = None" if "entryKey s t \<notin> bucket (fd_subscriptions tm) fd" for s t k
    using that d(4) by (auto simp: sub_at_def subs_agree_def split: option.splits)
  have tm1: "tm1 = fold (close_subscription fd) ks tm0"
    by (cases "om_lookup (fd_subscriptions tm) fd") (simp_all add: tm1_def ks_def tm0_def om_erase_absent)
  have views: "pub_at tm0 = pub_at tm" "sub_at tm0 = sub_at tm" "unused_keys tm0 = unused_keys tm"
    by (simp_all add: tm0_def pub_at_def sub_at_def unused_keys_def fun_eq_iff)
  have "topic_wf P (- {fd}) tm0"
    using d by (auto simp: topic_wf_def tm0_def subs_agree_def)
  then have c: "topic_wf P (- {fd}) tm1" "unused_keys tm1 \<subseteq> unused_keys tm0" "pub_at tm1 = pub_at tm0"
    "fd_subscriptions tm1 = fd_subscriptions tm0"
    "sub_at tm1 s t fd' k = (if entryKey s t \<in> set ks \<and> fd' = fd then None else sub_at tm0 s t fd' k)" for s t fd' k
    using close_subscription_fold [of P "- {fd}" tm0 fd ks] by (simp_all add: tm1)
  have v': "pub_at tm' = pub_at tm1" "sub_at tm' = sub_at tm1" "unused_keys tm' = unused_keys tm1" "topics tm' = topics tm1"
    by (simp_all add: tm'_def pub_at_def sub_at_def unused_keys_def fun_eq_iff)
  show "unused_keys tm' \<subseteq> unused_keys tm" "pub_at tm' = pub_at tm" using c v' views by simp_all
  have sub: "sub_at tm' s t fd' k = (if fd' = fd then None else sub_at tm s t fd' k)" for s t fd' k
    using inx [of s t k] ks by (simp add: v' c(5) views)
  then show "sub_at tm' s t fd' k = (if fd' = fd then None else sub_at tm s t fd' k)" .
  have none: "om_lookup (te_subscribers e) fd = None" if e: "om_lookup (topics tm1) ekey = Some e" for ekey e
  proof (rule ccontr)
    assume "om_lookup (te_subscribers e) fd \<noteq> None"
    then obtain m where m: "om_lookup (te_subscribers e) fd = Some m" by blast
    then obtain k f where "om_lookup m k = Some f"
      using subscriber_nonempty [OF c(1) e m] om_size_0_iff [of m] om_is_empty_iff [of m] by auto
    then show False using sub_at_entry(1) [OF c(1) e, of fd k] m sub v'(2) by simp
  qed
  have zero: "om_sum (\<lambda>_. sub_count fd) (topics tm1) = 0"
    using none by (simp add: om_sum_0_iff sub_count_def)
  have d1: "subs_agree (- {fd}) (topics tm1) (fd_subscriptions tm1) (fd_subscription_counts tm1)"
    using topic_wfD(4) [OF c(1)] .
  have "subs_agree UNIV (topics tm') (fd_subscriptions tm') (fd_subscription_counts tm')"
    unfolding subs_agree_def
  proof (intro conjI ballI)
    show "no_empty_bucket (fd_subscriptions tm')" using d1 by (simp add: tm'_def subs_agree_def)
    fix fd1
    show "bucket (fd_subscriptions tm') fd1 = {k. \<exists>e. om_lookup (topics tm') k = Some e \<and> om_lookup (te_subscribers e) fd1 \<noteq> None}"
    proof (cases "fd1 = fd")
      case True
      then have "bucket (fd_subscriptions tm') fd1 = {}" by (simp add: tm'_def c(4) tm0_def)
      with True none v'(4) show ?thesis by auto
    qed (use d1 in \<open>simp add: tm'_def subs_agree_def\<close>)
    show "om_lookup (fd_subscription_counts tm') fd1 = counted (om_sum (\<lambda>_. sub_count fd1) (topics tm'))"
      using d1 zero by (cases "fd1 = fd") (simp_all add: tm'_def subs_agree_def om_lookup_erase counted_def)
  qed
  with c(1) show "topic_wf P UNIV tm'" by (simp add: topic_wf_def tm'_def)
qed

text \<open>All of \<open>removeByFd\<close>: nothing of the connection is left, everything else is as before.\<close>

lemma topics_removeByFd_spec:
  assumes wf: "topic_wf UNIV UNIV tm" and r: "topics_removeByFd fd tm = (removed, tm')"
  shows "topic_wf UNIV UNIV tm'" "unused_keys tm' \<subseteq> unused_keys tm"
    "pub_at tm' s t k = drop_if (\<lambda>slot. ps_fd slot = fd) (pub_at tm s t k)"
    "sub_at tm' s t fd' k' = (if fd' = fd then None else sub_at tm s t fd' k')"
    "set removed = {t. \<exists>s k slot. pub_at tm s t k = Some slot \<and> ps_fd slot = fd}"
proof -
  obtain rm tm1 where 1: "(case om_lookup (fd_publications tm) fd of
               None \<Rightarrow> ([], tm)
             | Some pub_keys \<Rightarrow>
                 fold (close_publication fd) (om_keys pub_keys)
                   ([], tm\<lparr>fd_publications := om_erase fd (fd_publications tm)\<rparr>)) = (rm, tm1)" by force
  note p = close_publications [OF wf 1]
  note q = close_subscriptions [OF p(1) refl refl, of fd]
  have res: "removed = rm" "tm' = (let tm = (case om_lookup (fd_subscriptions tm1) fd of
                  None \<Rightarrow> tm1
                | Some sub_keys \<Rightarrow>
                    fold (close_subscription fd) (om_keys sub_keys)
                      (tm1\<lparr>fd_subscriptions := om_erase fd (fd_subscriptions tm1)\<rparr>))
      in tm\<lparr>fd_subscription_counts := om_erase fd (fd_subscription_counts tm)\<rparr>)"
    using r 1 by (simp_all add: topics_removeByFd_def Let_def)
  show "topic_wf UNIV UNIV tm'" using q(1) by (simp add: res Let_def)
  show "unused_keys tm' \<subseteq> unused_keys tm" using q(2) p(2) by (simp add: res Let_def)
  show "pub_at tm' s t k = drop_if (\<lambda>slot. ps_fd slot = fd) (pub_at tm s t k)" using q(3) p(5) by (simp add: res Let_def)
  show "sub_at tm' s t fd' k' = (if fd' = fd then None else sub_at tm s t fd' k')" using q(4) p(3) by (simp add: res Let_def)
  show "set removed = {t. \<exists>s k slot. pub_at tm s t k = Some slot \<and> ps_fd slot = fd}" using p(6) res(1) by simp
qed

subsection \<open>Setting the interface hash\<close>

lemma setIdlHash_spec:
  assumes wf: "topic_wf P S tm" and r: "setIdlHash topic h tm = (ok, tm')"
  shows "topic_wf P S tm' \<and> unused_keys tm' \<subseteq> unused_keys tm \<and> sub_at tm' = sub_at tm \<and>
    (\<forall>s t k. map_option (\<lambda>slot. slot\<lparr>ps_idl_hash := h\<rparr>) (pub_at tm' s t k) =
             map_option (\<lambda>slot. slot\<lparr>ps_idl_hash := h\<rparr>) (pub_at tm s t k)) \<and>
    (\<not> ok \<longrightarrow> tm' = tm)"
proof (cases "filter (\<lambda>(k, e). te_topic_name e = topic \<and> \<not> om_is_empty (te_publishers e)) (om_list (topics tm))")
  case Nil
  with wf r show ?thesis by (simp add: setIdlHash_def)
next
  case (Cons ke rest)
  obtain ekey e where ke: "ke = (ekey, e)" by force
  have "(ekey, e) \<in> set (filter (\<lambda>(k, e). te_topic_name e = topic \<and> \<not> om_is_empty (te_publishers e)) (om_list (topics tm)))"
    using Cons ke by simp
  then have e: "om_lookup (topics tm) ekey = Some e" and ne: "\<not> om_is_empty (te_publishers e)"
    by (simp_all add: in_om_list_iff)
  obtain pk slot rs where ps: "om_list (te_publishers e) = (pk, slot) # rs"
    using ne by (cases "om_list (te_publishers e)") (auto simp: om_is_empty_def)
  then have slot: "om_lookup (te_publishers e) pk = Some slot"
    using in_om_list_iff [of pk slot "te_publishers e"] by simp
  let ?e' = "e\<lparr>te_publishers := om_update pk (slot\<lparr>ps_idl_hash := h\<rparr>) (te_publishers e)\<rparr>"
  have res: "ok" "tm' = put_entry ekey ?e' tm" using r Cons ke ps by (simp_all add: setIdlHash_def)
  note d = topic_wfD [OF wf] and at = entry_at [OF wf e] and at1 = sub_at_entry [OF wf e]
  have pub: "publishes fd' ?e' \<Longrightarrow> publishes fd' e" for fd'
    using slot by (auto simp: publishes_def om_lookup_update split: if_splits)
  have "entry_shape ekey ?e'" using d(1) [OF e] slot by (auto simp: entry_shape_def om_lookup_update)
  then have wf': "topic_wf P S tm'"
    using d e pubs_agree_put [OF d(3) e, of ?e'] pub refs_agree_put [OF e, of ?e']
      subs_agree_put [OF e, of S ?e'] total_agree_put [OF e, of ?e']
    by (auto simp: topic_wf_def om_lookup_update res(2))
  have ts: "topics tm' = om_update (entryKey (te_service_name e) (te_topic_name e)) ?e' (topics tm)"
    using at(2) res(2) by simp
  note v = views_put [OF ts]
  have "\<not> entry_unused ?e'" by (auto simp: entry_unused_def om_is_empty_iff om_lookup_update)
  then have "unused_keys tm' \<subseteq> unused_keys tm" using v(3) by auto
  moreover have "sub_at tm' = sub_at tm" using at1(1) by (intro ext) (auto simp: v)
  moreover have "map_option (\<lambda>slot. slot\<lparr>ps_idl_hash := h\<rparr>) (pub_at tm' s t k) =
      map_option (\<lambda>slot. slot\<lparr>ps_idl_hash := h\<rparr>) (pub_at tm s t k)" for s t k
    using at1(2) slot by (auto simp: v om_lookup_update)
  ultimately show ?thesis using wf' res(1) by simp
qed

subsection \<open>The histories of the table\<close>

inductive topic_step :: "TopicManager \<Rightarrow> TopicManager \<Rightarrow> bool" where
  register: "registerPublisher topic info fd h tm = (ok, tm') \<Longrightarrow> topic_step tm tm'"
| unpublish_all: "removePublisher topic tm = (ok, tm') \<Longrightarrow> topic_step tm tm'"
| unpublish: "removePublisherOf topic fd tm = (ok, tm') \<Longrightarrow> topic_step tm tm'"
| unregister: "removePublishersByService name fd tm = (ts, tm') \<Longrightarrow> topic_step tm tm'"
| subscribe: "addSubscriberFilter topic sel fd tm = (ok, tm') \<Longrightarrow> topic_step tm tm'"
| unsubscribe_all: "removeSubscriber topic fd tm = (ok, tm') \<Longrightarrow> topic_step tm tm'"
| unsubscribe: "removeSubscriberFilter topic sel fd tm = (ok, tm') \<Longrightarrow> topic_step tm tm'"
| close: "topics_removeByFd fd tm = (ts, tm') \<Longrightarrow> topic_step tm tm'"
| set_hash: "setIdlHash topic h tm = (ok, tm') \<Longrightarrow> topic_step tm tm'"

inductive topic_reachable :: "TopicManager \<Rightarrow> bool" where
  init: "topic_reachable TopicManager_init"
| step: "topic_reachable tm \<Longrightarrow> topic_step tm tm' \<Longrightarrow> topic_reachable tm'"

lemma removePublisher_spec:
  assumes wf: "topic_wf P S tm" and r: "removePublisher topic tm = (ok, tm')"
  shows "topic_wf P S tm' \<and> unused_keys tm' \<subseteq> unused_keys tm \<and> sub_at tm' = sub_at tm \<and>
    (\<forall>s t k. pub_at tm' s t k = (if \<not> topic_name_invalid topic \<and> t = topic then None else pub_at tm s t k))"
proof (cases "topic_name_invalid topic")
  case False
  with r have "removePublisherSlots topic (-1) False tm = (ok, tm')" by (simp add: removePublisher_def)
  from removePublisherSlots_spec [OF wf this] False show ?thesis by (simp add: drop_if_def split: option.splits)
qed (use assms in \<open>simp add: removePublisher_def\<close>)

lemma removePublisherOf_spec:
  assumes wf: "topic_wf P S tm" and r: "removePublisherOf topic fd tm = (ok, tm')"
  shows "topic_wf P S tm'" "unused_keys tm' \<subseteq> unused_keys tm" "sub_at tm' = sub_at tm"
    "pub_at tm' s t k = (if t = topic then drop_if (\<lambda>slot. ps_fd slot = fd) (pub_at tm s t k) else pub_at tm s t k)"
    "ok \<longleftrightarrow> (\<exists>s k slot. pub_at tm s topic k = Some slot \<and> ps_fd slot = fd)"
proof -
  have "topic_wf P S tm' \<and> unused_keys tm' \<subseteq> unused_keys tm \<and> sub_at tm' = sub_at tm \<and>
    (\<forall>s t k. pub_at tm' s t k = (if t = topic then drop_if (\<lambda>slot. ps_fd slot = fd) (pub_at tm s t k) else pub_at tm s t k)) \<and>
    (ok \<longleftrightarrow> (\<exists>s k slot. pub_at tm s topic k = Some slot \<and> ps_fd slot = fd))"
  proof (cases "topic_name_invalid topic")
    case True
    have "pub_at tm s topic k = None" for s k
      using topic_wfD(1) [OF wf] True by (fastforce simp: pub_at_def entry_shape_def entryKey_inj split: option.splits)
    with True r wf show ?thesis by (auto simp: removePublisherOf_def)
  next
    case False
    with r have "removePublisherSlots topic fd True tm = (ok, tm')" by (simp add: removePublisherOf_def)
    from removePublisherSlots_spec [OF wf this] show ?thesis by simp
  qed
  then show "topic_wf P S tm'" "unused_keys tm' \<subseteq> unused_keys tm" "sub_at tm' = sub_at tm"
    "pub_at tm' s t k = (if t = topic then drop_if (\<lambda>slot. ps_fd slot = fd) (pub_at tm s t k) else pub_at tm s t k)"
    "ok \<longleftrightarrow> (\<exists>s k slot. pub_at tm s topic k = Some slot \<and> ps_fd slot = fd)" by simp_all
qed

definition topic_inv :: "TopicManager \<Rightarrow> bool" where
  "topic_inv tm \<longleftrightarrow> topic_wf UNIV UNIV tm \<and> unused_keys tm = {}"

lemma topic_step_inv:
  assumes "topic_step tm tm'" "topic_inv tm"
  shows "topic_inv tm'"
proof -
  from assms(2) have wf: "topic_wf UNIV UNIV tm" and un: "unused_keys tm = {}" by (simp_all add: topic_inv_def)
  from assms(1) have "topic_wf UNIV UNIV tm' \<and> unused_keys tm' \<subseteq> unused_keys tm"
  proof cases
    case (register topic info fd h ok)
    from registerPublisher_spec [OF wf register] show ?thesis by blast
  next
    case (unpublish_all topic ok)
    from removePublisher_spec [OF wf unpublish_all] show ?thesis by blast
  next
    case (unpublish topic fd ok)
    from removePublisherOf_spec [OF wf unpublish] show ?thesis by blast
  next
    case (unregister name fd ts)
    from removePublishersByService_spec [OF wf unregister] show ?thesis by blast
  next
    case (subscribe topic sel fd ok)
    from addSubscriberFilter_spec [OF wf UNIV_I subscribe] show ?thesis by blast
  next
    case (unsubscribe_all topic fd ok)
    from removeSubscriber_spec [OF wf unsubscribe_all] show ?thesis by blast
  next
    case (unsubscribe topic sel fd ok)
    from removeSubscriberFilter_spec [OF wf UNIV_I unsubscribe] show ?thesis by blast
  next
    case (close fd ts)
    from topics_removeByFd_spec(1,2) [OF wf close] show ?thesis by blast
  next
    case (set_hash topic h ok)
    from setIdlHash_spec [OF wf set_hash] show ?thesis by blast
  qed
  with un show ?thesis by (simp add: topic_inv_def)
qed

lemma topic_reachable_inv: "topic_reachable tm \<Longrightarrow> topic_inv tm"
proof (induction rule: topic_reachable.induct)
  case init
  show ?case by (simp add: topic_inv_def topic_wf_init)
qed (rule topic_step_inv)

subsection \<open>What the queries answer\<close>

lemma set_int_set_list: "set (int_set_list fds) = set fds" "sorted (int_set_list fds)" "distinct (int_set_list fds)"
proof -
  have "os_member (fold os_insert fds s) x \<longleftrightarrow> x \<in> set fds \<or> os_member s x" for s and x :: int
    by (induction fds arbitrary: s) auto
  then show "set (int_set_list fds) = set fds"
    by (auto simp: int_set_list_def simp flip: os_member_keys)
  show "sorted (int_set_list fds)" "distinct (int_set_list fds)"
    using sorted_om_keys [of "fold os_insert fds om_empty"] by (simp_all add: int_set_list_def strict_sorted_iff)
qed

lemma in_entries_of:
  "e \<in> set (entries_of topic tm) \<longleftrightarrow> te_topic_name e = topic \<and> (\<exists>k. om_lookup (topics tm) k = Some e)"
  by (auto simp: entries_of_def in_om_values_iff)

lemma fst_filter_om_list:
  "fd \<in> fst ` {x \<in> set (om_list m). case x of (fd, v) \<Rightarrow> Q fd v} \<longleftrightarrow> (\<exists>v. om_lookup m fd = Some v \<and> Q fd v)"
  by (force simp: in_om_list_iff image_iff)

lemma entry_of_sub:
  assumes "topic_wf P S tm"
  shows "(\<exists>s. sub_at tm s topic fd k = Some f) \<longleftrightarrow>
    (\<exists>e \<in> set (entries_of topic tm). \<exists>m. om_lookup (te_subscribers e) fd = Some m \<and> om_lookup m k = Some f)" (is "?l \<longleftrightarrow> ?r")
proof
  assume ?l
  then obtain s e m where e: "om_lookup (topics tm) (entryKey s topic) = Some e" "om_lookup (te_subscribers e) fd = Some m" "om_lookup m k = Some f"
    by (auto simp: sub_at_def split: option.splits)
  then have "te_topic_name e = topic" using topic_wfD(1) [OF assms e(1)] by (auto simp: entry_shape_def entryKey_inj)
  then have "e \<in> set (entries_of topic tm)" using e(1) by (auto simp: in_entries_of)
  with e(2-) show ?r by blast
next
  assume ?r
  then obtain e ekey m where e: "om_lookup (topics tm) ekey = Some e" "te_topic_name e = topic"
      "om_lookup (te_subscribers e) fd = Some m" "om_lookup m k = Some f" by (auto simp: in_entries_of)
  then have "sub_at tm (te_service_name e) topic fd k = Some f" using sub_at_entry(1) [OF assms e(1), of fd k] by simp
  then show ?l by blast
qed

lemma entry_of_pub:
  assumes "topic_wf P S tm"
  shows "(\<exists>s. pub_at tm s topic k = Some slot) \<longleftrightarrow>
    (\<exists>e \<in> set (entries_of topic tm). om_lookup (te_publishers e) k = Some slot)" (is "?l \<longleftrightarrow> ?r")
proof
  assume ?l
  then obtain s e where e: "om_lookup (topics tm) (entryKey s topic) = Some e" "om_lookup (te_publishers e) k = Some slot"
    by (auto simp: pub_at_def split: option.splits)
  then have "te_topic_name e = topic" using topic_wfD(1) [OF assms e(1)] by (auto simp: entry_shape_def entryKey_inj)
  then have "e \<in> set (entries_of topic tm)" using e(1) by (auto simp: in_entries_of)
  with e(2-) show ?r by blast
next
  assume ?r
  then obtain e ekey where e: "om_lookup (topics tm) ekey = Some e" "te_topic_name e = topic"
      "om_lookup (te_publishers e) k = Some slot" by (auto simp: in_entries_of)
  then have "pub_at tm (te_service_name e) topic k = Some slot" using sub_at_entry(2) [OF assms e(1), of k] by simp
  then show ?l by blast
qed

lemma getMatchingSubscribers_spec:
  assumes "topic_wf P S tm"
  shows "fd \<in> set (getMatchingSubscribers topic info tm) \<longleftrightarrow>
      (\<exists>s k f. sub_at tm s topic fd k = Some f \<and> filter_matches f info)"
    "sorted (getMatchingSubscribers topic info tm)" "distinct (getMatchingSubscribers topic info tm)"
proof -
  have "fd \<in> set (getMatchingSubscribers topic info tm) \<longleftrightarrow>
      (\<exists>k f. (\<exists>e \<in> set (entries_of topic tm). \<exists>m. om_lookup (te_subscribers e) fd = Some m \<and> om_lookup m k = Some f) \<and> filter_matches f info)"
    unfolding getMatchingSubscribers_def set_int_set_list set_concat set_map set_filter UN_iff bex_simps fst_filter_om_list
    by (simp add: in_om_values_iff Bex_def) blast
  also have "\<dots> \<longleftrightarrow> (\<exists>k f. (\<exists>s. sub_at tm s topic fd k = Some f) \<and> filter_matches f info)"
    unfolding entry_of_sub [OF assms] ..
  finally show "fd \<in> set (getMatchingSubscribers topic info tm) \<longleftrightarrow>
      (\<exists>s k f. sub_at tm s topic fd k = Some f \<and> filter_matches f info)" by blast
qed (simp_all add: getMatchingSubscribers_def set_int_set_list)

lemma getMatchingPublishers_spec:
  assumes "topic_wf P S tm"
  shows "v \<in> set (getMatchingPublishers topic sel tm) \<longleftrightarrow>
      (\<exists>s k slot. pub_at tm s topic k = Some slot \<and> filter_matches sel (ps_info slot) \<and>
         v = \<lparr>pv_info = ps_info slot, pv_idl_hash = ps_idl_hash slot\<rparr>)"
proof -
  have sel: "slot \<in> set (selected_slots sel e) \<longleftrightarrow> (\<exists>k. om_lookup (te_publishers e) k = Some slot) \<and> filter_matches sel (ps_info slot)"
    if e: "e \<in> set (entries_of topic tm)" for e slot
  proof -
    obtain ekey where "om_lookup (topics tm) ekey = Some e" using e by (auto simp: in_entries_of)
    then have "si_name (ps_info slot) = te_service_name e" if "om_lookup (te_publishers e) k = Some slot" for k
      using topic_wfD(1) [OF assms] that by (auto simp: entry_shape_def)
    then show ?thesis by (cases "tf_mode sel") (auto simp: selected_slots_def in_om_values_iff filter_matches_def)
  qed
  have "v \<in> set (getMatchingPublishers topic sel tm) \<longleftrightarrow>
      (\<exists>k slot. (\<exists>e \<in> set (entries_of topic tm). om_lookup (te_publishers e) k = Some slot) \<and> filter_matches sel (ps_info slot) \<and>
         v = \<lparr>pv_info = ps_info slot, pv_idl_hash = ps_idl_hash slot\<rparr>)"
    unfolding getMatchingPublishers_def set_map set_concat image_iff UN_iff bex_simps
    using sel by (simp add: Bex_def cong: conj_cong) blast
  also have "\<dots> \<longleftrightarrow> (\<exists>k slot. (\<exists>s. pub_at tm s topic k = Some slot) \<and> filter_matches sel (ps_info slot) \<and>
         v = \<lparr>pv_info = ps_info slot, pv_idl_hash = ps_idl_hash slot\<rparr>)"
    unfolding entry_of_pub [OF assms] ..
  finally show ?thesis by blast
qed

lemma isPublisherOwner_spec:
  assumes "topic_wf P S tm"
  shows "isPublisherOwner topic fd tm \<longleftrightarrow> (\<exists>s k slot. pub_at tm s topic k = Some slot \<and> ps_fd slot = fd)"
proof -
  have "isPublisherOwner topic fd tm \<longleftrightarrow>
      (\<exists>k slot. (\<exists>e \<in> set (entries_of topic tm). om_lookup (te_publishers e) k = Some slot) \<and> ps_fd slot = fd)"
    by (auto simp: isPublisherOwner_def entries_of_def in_om_values_iff Bex_def)
  then show ?thesis unfolding entry_of_pub [OF assms, symmetric] by blast
qed

lemma hasPublisher_spec:
  assumes "topic_wf P S tm"
  shows "hasPublisher topic tm \<longleftrightarrow> (\<exists>s k slot. pub_at tm s topic k = Some slot)"
proof -
  have "hasPublisher topic tm \<longleftrightarrow> (\<exists>k slot. \<exists>e \<in> set (entries_of topic tm). om_lookup (te_publishers e) k = Some slot)"
    by (auto simp: hasPublisher_def entries_of_def om_is_empty_iff Bex_def)
  then show ?thesis unfolding entry_of_pub [OF assms, symmetric] by blast
qed

lemma distinct_sorted_unique: "sorted xs \<Longrightarrow> distinct (remdups_adj (xs :: 'a::linorder list))"
  by (induction xs rule: remdups_adj.induct) (auto simp: less_le_not_le)

lemma getPublishedTopics_spec:
  assumes "topic_wf P S tm"
  shows "t \<in> set (getPublishedTopics service tm) \<longleftrightarrow> (\<exists>k slot. pub_at tm service t k = Some slot)"
    "sorted (getPublishedTopics service tm)" "distinct (getPublishedTopics service tm)"
proof -
  have "t \<in> set (getPublishedTopics service tm) \<longleftrightarrow> (\<exists>ekey e k slot. om_lookup (topics tm) ekey = Some e \<and>
      te_service_name e = service \<and> te_topic_name e = t \<and> om_lookup (te_publishers e) k = Some slot)"
    by (auto simp: getPublishedTopics_def in_om_values_iff om_is_empty_iff image_iff)
  also have "\<dots> \<longleftrightarrow> (\<exists>k slot. pub_at tm service t k = Some slot)"
    using sub_at_entry(2) [OF assms] topic_wfD(1) [OF assms]
    by (fastforce simp: pub_at_def entry_shape_def entryKey_inj split: option.splits)
  finally show "t \<in> set (getPublishedTopics service tm) \<longleftrightarrow> (\<exists>k slot. pub_at tm service t k = Some slot)" .
qed (simp_all add: getPublishedTopics_def distinct_sorted_unique)

text \<open>The listed topics are those with a publisher or a subscriber.\<close>

lemma listTopics_spec:
  assumes "topic_inv tm"
  shows "t \<in> set (listTopics tm) \<longleftrightarrow>
    (\<exists>s k slot. pub_at tm s t k = Some slot) \<or> (\<exists>s fd k f. sub_at tm s t fd k = Some f)" (is "?l \<longleftrightarrow> ?r")
proof -
  have wf: "topic_wf UNIV UNIV tm" and un: "unused_keys tm = {}" using assms by (simp_all add: topic_inv_def)
  note d = topic_wfD [OF wf]
  have "?l \<longleftrightarrow> om_sum (\<lambda>_. topic_weight t) (topics tm) \<noteq> 0"
    using d(2) by (auto simp: listTopics_def in_om_keys_iff refs_agree_def counted_def)
  also have "\<dots> \<longleftrightarrow> (\<exists>ekey e. om_lookup (topics tm) ekey = Some e \<and> te_topic_name e = t)"
    by (auto simp: om_sum_0_iff topic_weight_def)
  also have "\<dots> \<longleftrightarrow> ?r"
  proof
    assume "\<exists>ekey e. om_lookup (topics tm) ekey = Some e \<and> te_topic_name e = t"
    then obtain ekey e where e: "om_lookup (topics tm) ekey = Some e" "te_topic_name e = t" by blast
    note at = sub_at_entry [OF wf e(1)]
    have "\<not> entry_unused e" using un e(1) by (auto simp: unused_keys_def)
    then consider k slot where "om_lookup (te_publishers e) k = Some slot"
      | fd m where "om_lookup (te_subscribers e) fd = Some m"
      by (auto simp: entry_unused_def om_is_empty_iff)
    then show ?r
    proof cases
      case (2 fd m)
      then obtain k f where "om_lookup m k = Some f"
        using subscriber_nonempty [OF wf e(1) 2] om_size_0_iff [of m] om_is_empty_iff [of m] by auto
      then have "sub_at tm (te_service_name e) t fd k = Some f" using at(1) [of fd k] 2 e(2) by simp
      then show ?thesis by blast
    qed (use at(2) e(2) in metis)
  next
    assume ?r
    then obtain s e where "om_lookup (topics tm) (entryKey s t) = Some e"
      by (auto simp: pub_at_def sub_at_def split: option.splits)
    then show "\<exists>ekey e. om_lookup (topics tm) ekey = Some e \<and> te_topic_name e = t"
      using d(1) by (fastforce simp: entry_shape_def entryKey_inj)
  qed
  finally show ?thesis .
qed

end
