(* ===== verification/TopicLimits.thy ===== *)
theory TopicLimits
  imports TopicClose
begin

text \<open>
  The resource limits of the topic table. The counters of the table count its subscriptions, so each
  limit is a bound on the size of a set of publications or subscriptions: operations that only take
  away keep the limits, and the two that add are guarded.
\<close>

subsection \<open>Counting\<close>

lemma om_sum_card:
  assumes "\<And>k v. om_lookup m k = Some v \<Longrightarrow> finite (A k) \<and> f k v = card (A k)"
    and "\<And>k. om_lookup m k = None \<Longrightarrow> A k = {}"
  shows "om_sum f m = card (Sigma UNIV A)" "finite (Sigma UNIV A)"
proof -
  have S: "Sigma UNIV A = Sigma (set (om_keys m)) A"
  proof -
    have "x \<in> set (om_keys m)" if "y \<in> A x" for x y using assms(2) [of x] that by (auto simp: in_om_keys_iff)
    then show ?thesis by blast
  qed
  have fin: "\<forall>k \<in> set (om_keys m). finite (A k)" using assms(1) by (auto simp: in_om_keys_iff)
  have "map (\<lambda>(k, v). f k v) (om_list m) = map (\<lambda>k. card (A k)) (om_keys m)"
    using assms(1) by (auto simp: om_keys_def in_om_list_iff)
  then have "om_sum f m = (\<Sum>k \<in> set (om_keys m). card (A k))"
    unfolding om_sum_def by (simp only: sum_list_distinct_conv_sum_set om_keys_def distinct_om_keys)
  then show "om_sum f m = card (Sigma UNIV A)" "finite (Sigma UNIV A)"
    unfolding S using fin by simp_all
qed

definition sub_places :: "TopicManager \<Rightarrow> sub_place set" where
  "sub_places tm = {x. sub_view tm x \<noteq> None}"

definition place_code :: "sub_place \<Rightarrow> string \<times> int \<times> string" where
  "place_code x = (case x of (s, t, fd, k) \<Rightarrow> (entryKey s t, fd, k))"

lemma inj_place_code: "inj place_code"
  by (auto simp: inj_def place_code_def entryKey_inj)

text \<open>The filters stored under an entry key, of all connections in \<open>F\<close>.\<close>

definition stored :: "int set \<Rightarrow> topic_map \<Rightarrow> string \<Rightarrow> (int \<times> string) set" where
  "stored F ts ekey = {(fd, k). fd \<in> F \<and> (\<exists>e m. om_lookup ts ekey = Some e \<and> om_lookup (te_subscribers e) fd = Some m
      \<and> om_lookup m k \<noteq> None)}"

lemma stored_places:
  assumes "topic_wf P S tm"
  shows "place_code ` {x \<in> sub_places tm. fst (snd (snd x)) \<in> F} = Sigma UNIV (stored F (topics tm))"
proof (intro set_eqI iffI)
  fix y assume "y \<in> place_code ` {x \<in> sub_places tm. fst (snd (snd x)) \<in> F}"
  then show "y \<in> Sigma UNIV (stored F (topics tm))"
    by (auto simp: sub_places_def sub_view_def place_code_def sub_at_def stored_def split: option.splits)
next
  fix y assume y: "y \<in> Sigma UNIV (stored F (topics tm))"
  obtain ekey fd k where yy: "y = (ekey, fd, k)" by (cases y) auto
  from y obtain e m where e: "fd \<in> F" "om_lookup (topics tm) ekey = Some e" "om_lookup (te_subscribers e) fd = Some m"
      "om_lookup m k \<noteq> None" unfolding yy stored_def by blast
  let ?x = "(te_service_name e, te_topic_name e, fd, k)"
  have "sub_at tm (te_service_name e) (te_topic_name e) fd k \<noteq> None"
    using e sub_at_entry(1) [OF assms e(2), of fd k] by simp
  then have "?x \<in> {x \<in> sub_places tm. fst (snd (snd x)) \<in> F}" using e(1) by (simp add: sub_places_def sub_view_def)
  moreover have "place_code ?x = y" using entry_at(2) [OF assms e(2)] by (simp add: yy place_code_def)
  ultimately show "y \<in> place_code ` {x \<in> sub_places tm. fst (snd (snd x)) \<in> F}" by (rule rev_image_eqI [OF _ sym])
qed

lemma card_places:
  assumes "topic_wf P S tm"
  shows "card {x \<in> sub_places tm. fst (snd (snd x)) \<in> F} = card (Sigma UNIV (stored F (topics tm)))"
    "finite {x \<in> sub_places tm. fst (snd (snd x)) \<in> F} \<longleftrightarrow> finite (Sigma UNIV (stored F (topics tm)))"
proof -
  have "inj_on place_code {x \<in> sub_places tm. fst (snd (snd x)) \<in> F}" using inj_place_code by (rule inj_on_subset) simp
  from card_image [OF this] finite_image_iff [OF this]
  show "card {x \<in> sub_places tm. fst (snd (snd x)) \<in> F} = card (Sigma UNIV (stored F (topics tm)))"
    "finite {x \<in> sub_places tm. fst (snd (snd x)) \<in> F} \<longleftrightarrow> finite (Sigma UNIV (stored F (topics tm)))"
    by (simp_all add: stored_places [OF assms])
qed

definition filters_of :: "TopicEntry \<Rightarrow> int \<Rightarrow> string set" where
  "filters_of e fd = {k. \<exists>m. om_lookup (te_subscribers e) fd = Some m \<and> om_lookup m k \<noteq> None}"

lemma filters_of_card:
  "finite (filters_of e fd)" "card (filters_of e fd) = sub_count fd e"
  "om_lookup (te_subscribers e) fd = Some v \<Longrightarrow> om_size v = card (filters_of e fd)"
  "om_lookup (te_subscribers e) fd = None \<Longrightarrow> filters_of e fd = {}"
  by (cases "om_lookup (te_subscribers e) fd"; simp add: filters_of_def sub_count_def om_size_card [simplified])+

lemma stored_finite: "finite (stored F ts ekey)"
  "om_lookup ts ekey = Some e \<Longrightarrow> card (stored UNIV ts ekey) = sub_total e"
  "om_lookup ts ekey = Some e \<Longrightarrow> card (stored {fd} ts ekey) = sub_count fd e"
proof -
  have st: "stored F ts ekey = (case om_lookup ts ekey of None \<Rightarrow> {} | Some e \<Rightarrow> Sigma F (filters_of e))" for F
    by (auto simp: stored_def filters_of_def split: option.splits)
  have "om_sum (\<lambda>_. om_size) (te_subscribers e) = card (Sigma UNIV (filters_of e)) \<and> finite (Sigma UNIV (filters_of e))" for e
    using om_sum_card [of "te_subscribers e" "filters_of e" "\<lambda>_. om_size"] filters_of_card by blast
  then show tot: "om_lookup ts ekey = Some e \<Longrightarrow> card (stored UNIV ts ekey) = sub_total e"
    and "finite (stored F ts ekey)"
    by (auto simp: st sub_total_def split: option.splits intro: rev_finite_subset)
  have "Sigma {fd} (filters_of e) = Pair fd ` filters_of e fd" by auto
  then show "om_lookup ts ekey = Some e \<Longrightarrow> card (stored {fd} ts ekey) = sub_count fd e"
    by (simp add: st card_image inj_on_def filters_of_card(2))
qed

text \<open>The counters count.\<close>

lemma subscription_counters:
  assumes "topic_wf UNIV UNIV tm"
  shows "total_subscriptions tm = card (sub_places tm)" "finite (sub_places tm)"
    "om_lookup (fd_subscription_counts tm) fd = counted (card {x \<in> sub_places tm. fst (snd (snd x)) = fd})"
proof -
  note d = topic_wfD [OF assms]
  have none: "om_lookup (topics tm) ekey = None \<Longrightarrow> stored F (topics tm) ekey = {}" for F ekey by (simp add: stored_def)
  have "om_sum (\<lambda>_. sub_total) (topics tm) = card (Sigma UNIV (stored UNIV (topics tm)))" "finite (Sigma UNIV (stored UNIV (topics tm)))"
    using om_sum_card [of "topics tm" "stored UNIV (topics tm)" "\<lambda>_. sub_total"] stored_finite none by simp_all
  then show "total_subscriptions tm = card (sub_places tm)" "finite (sub_places tm)"
    using card_places [OF assms, of UNIV] d(5) by (simp_all add: total_agree_def)
  have "om_sum (\<lambda>_. sub_count fd) (topics tm) = card (Sigma UNIV (stored {fd} (topics tm)))"
    using om_sum_card [of "topics tm" "stored {fd} (topics tm)" "\<lambda>_. sub_count fd"] stored_finite none by simp
  then show "om_lookup (fd_subscription_counts tm) fd = counted (card {x \<in> sub_places tm. fst (snd (snd x)) = fd})"
    using card_places(1) [OF assms, of "{fd}"] d(4) by (simp add: subs_agree_def)
qed

subsection \<open>The limits\<close>

definition content_limits :: "TopicManager \<Rightarrow> bool" where
  "content_limits tm \<longleftrightarrow> total_subscriptions tm \<le> MAX_TOPIC_SUBSCRIPTIONS_GLOBAL \<and>
     (\<forall>fd n. om_lookup (fd_subscription_counts tm) fd = Some n \<longrightarrow> n \<le> MAX_TOPIC_SUBSCRIPTIONS_PER_CONNECTION) \<and>
     (\<forall>k e. om_lookup (topics tm) k = Some e \<longrightarrow> om_size (te_subscribers e) \<le> MAX_SUBSCRIBERS_PER_TOPIC) \<and>
     length (listTopics tm) \<le> MAX_TOPICS_GLOBAL \<and>
     (\<forall>s. length (getPublishedTopics s tm) \<le> MAX_PUBLISHED_TOPICS \<and>
        sum_list (map length (getPublishedTopics s tm)) \<le> MAX_PUBLISHED_TOPICS_BYTES)"

text \<open>The same over the sets of publications and subscriptions.\<close>

definition sub_limits :: "TopicManager \<Rightarrow> bool" where
  "sub_limits tm \<longleftrightarrow> card (sub_places tm) \<le> MAX_TOPIC_SUBSCRIPTIONS_GLOBAL \<and>
     (\<forall>fd. card {x \<in> sub_places tm. fst (snd (snd x)) = fd} \<le> MAX_TOPIC_SUBSCRIPTIONS_PER_CONNECTION) \<and>
     (\<forall>s t. card {fd. \<exists>k. (s, t, fd, k) \<in> sub_places tm} \<le> MAX_SUBSCRIBERS_PER_TOPIC)"

definition pub_limits :: "TopicManager \<Rightarrow> bool" where
  "pub_limits tm \<longleftrightarrow> card (set (listTopics tm)) \<le> MAX_TOPICS_GLOBAL \<and>
     (\<forall>s. card {t. \<exists>k. pub_at tm s t k \<noteq> None} \<le> MAX_PUBLISHED_TOPICS \<and>
        (\<Sum>t \<in> {t. \<exists>k. pub_at tm s t k \<noteq> None}. length t) \<le> MAX_PUBLISHED_TOPICS_BYTES)"

lemma published_set:
  assumes "topic_wf P S tm"
  shows "set (getPublishedTopics s tm) = {t. \<exists>k. pub_at tm s t k \<noteq> None}"
    "length (getPublishedTopics s tm) = card {t. \<exists>k. pub_at tm s t k \<noteq> None}"
    "sum_list (map length (getPublishedTopics s tm)) = (\<Sum>t \<in> {t. \<exists>k. pub_at tm s t k \<noteq> None}. length t)"
    "finite {t. \<exists>k. pub_at tm s t k \<noteq> None}"
proof -
  show eq: "set (getPublishedTopics s tm) = {t. \<exists>k. pub_at tm s t k \<noteq> None}"
    using getPublishedTopics_spec(1) [OF assms] by auto
  have d: "distinct (getPublishedTopics s tm)" by (rule getPublishedTopics_spec(3) [OF assms])
  show "length (getPublishedTopics s tm) = card {t. \<exists>k. pub_at tm s t k \<noteq> None}"
    "sum_list (map length (getPublishedTopics s tm)) = (\<Sum>t \<in> {t. \<exists>k. pub_at tm s t k \<noteq> None}. length t)"
    "finite {t. \<exists>k. pub_at tm s t k \<noteq> None}"
    unfolding eq [symmetric] using d by (simp_all add: distinct_card sum_list_distinct_conv_sum_set)
qed

lemma subscribers_card:
  assumes "topic_wf P S tm" "om_lookup (topics tm) ekey = Some e"
  shows "om_size (te_subscribers e) = card {fd. \<exists>k. (te_service_name e, te_topic_name e, fd, k) \<in> sub_places tm}"
proof -
  have "om_lookup (te_subscribers e) fd \<noteq> None \<longleftrightarrow> (\<exists>k. sub_at tm (te_service_name e) (te_topic_name e) fd k \<noteq> None)" for fd
  proof (cases "om_lookup (te_subscribers e) fd")
    case (Some m)
    then have "\<not> om_is_empty m" using subscriber_nonempty [OF assms Some] om_size_0_iff [of m] by auto
    then obtain k v where "om_lookup m k = Some v" by (auto simp: om_is_empty_iff)
    then have "sub_at tm (te_service_name e) (te_topic_name e) fd k \<noteq> None" using sub_at_entry(1) [OF assms, of fd k] Some by simp
    with Some show ?thesis by blast
  qed (simp add: sub_at_entry(1) [OF assms])
  then show ?thesis using om_size_card(1) [of "te_subscribers e"] by (simp only: sub_places_def sub_view_def mem_Collect_eq prod.case)
qed

lemma content_limits_iff:
  assumes "topic_wf UNIV UNIV tm"
  shows "content_limits tm \<longleftrightarrow> sub_limits tm \<and> pub_limits tm"
proof -
  note c = subscription_counters [OF assms] and p = published_set [OF assms]
  have "distinct (listTopics tm)" by (simp add: listTopics_def om_keys_def)
  then have l: "length (listTopics tm) = card (set (listTopics tm))" by (simp add: distinct_card)
  have n: "(\<forall>n. counted m = Some n \<longrightarrow> n \<le> b) \<longleftrightarrow> m \<le> b" for m b by (simp add: counted_def)
  have no: "{fd. \<exists>k. (s, t, fd, k) \<in> sub_places tm} = {}" if "om_lookup (topics tm) (entryKey s t) = None" for s t
    using sub_at_None [OF that] by (auto simp: sub_places_def sub_view_def)
  have "(\<forall>k e. om_lookup (topics tm) k = Some e \<longrightarrow> om_size (te_subscribers e) \<le> MAX_SUBSCRIBERS_PER_TOPIC) \<longleftrightarrow>
      (\<forall>s t. card {fd. \<exists>k. (s, t, fd, k) \<in> sub_places tm} \<le> MAX_SUBSCRIBERS_PER_TOPIC)" (is "?l \<longleftrightarrow> ?r")
  proof
    assume l: ?l
    show ?r
    proof (intro allI)
      fix s t
      show "card {fd. \<exists>k. (s, t, fd, k) \<in> sub_places tm} \<le> MAX_SUBSCRIBERS_PER_TOPIC"
      proof (cases "om_lookup (topics tm) (entryKey s t)")
        case (Some e)
        then have "te_service_name e = s" "te_topic_name e = t" using entry_at(1) [OF assms Some, of s t] by simp_all
        with l [rule_format, OF Some] subscribers_card [OF assms Some] show ?thesis by simp
      qed (simp only: no card.empty)
    qed
  next
    assume r: ?r
    show ?l using r subscribers_card [OF assms] by (auto intro: ord_eq_le_trans)
  qed
  then show ?thesis unfolding content_limits_def sub_limits_def pub_limits_def c(1,3) n p(2,3) l by blast
qed

lemma sub_limits_mono:
  assumes "topic_wf UNIV UNIV tm" "sub_limits tm" "sub_places tm' \<subseteq> sub_places tm"
  shows "sub_limits tm'"
proof -
  note fin = subscription_counters(2) [OF assms(1)]
  have 1: "card (sub_places tm') \<le> card (sub_places tm)" using assms(3) by (rule card_mono [OF fin])
  have 2: "card {x \<in> sub_places tm'. fst (snd (snd x)) = fd} \<le> card {x \<in> sub_places tm. fst (snd (snd x)) = fd}" for fd
    using assms(3) fin by (intro card_mono) auto
  have 3: "card {fd. \<exists>k. (s, t, fd, k) \<in> sub_places tm'} \<le> card {fd. \<exists>k. (s, t, fd, k) \<in> sub_places tm}" for s t
  proof (rule card_mono)
    have "{fd. \<exists>k. (s, t, fd, k) \<in> sub_places tm} \<subseteq> (\<lambda>x. fst (snd (snd x))) ` sub_places tm" by (force simp: image_iff)
    then show "finite {fd. \<exists>k. (s, t, fd, k) \<in> sub_places tm}" by (rule finite_subset [OF _ finite_imageI [OF fin]])
  qed (use assms(3) in blast)
  have d: "card (sub_places tm) \<le> MAX_TOPIC_SUBSCRIPTIONS_GLOBAL"
    "card {x \<in> sub_places tm. fst (snd (snd x)) = fd} \<le> MAX_TOPIC_SUBSCRIPTIONS_PER_CONNECTION"
    "card {fd. \<exists>k. (s, t, fd, k) \<in> sub_places tm} \<le> MAX_SUBSCRIBERS_PER_TOPIC" for fd s t
    using assms(2) by (simp_all add: sub_limits_def)
  show ?thesis unfolding sub_limits_def using le_trans [OF 1 d(1)] le_trans [OF 2 d(2)] le_trans [OF 3 d(3)] by simp
qed

lemma pub_limits_mono:
  assumes "topic_wf UNIV UNIV tm" "pub_limits tm" "\<And>s t k. pub_at tm' s t k \<noteq> None \<Longrightarrow> pub_at tm s t k \<noteq> None"
    and "set (listTopics tm') \<subseteq> set (listTopics tm)"
  shows "pub_limits tm'"
proof -
  note fin = published_set(4) [OF assms(1)]
  have sub: "{t. \<exists>k. pub_at tm' s t k \<noteq> None} \<subseteq> {t. \<exists>k. pub_at tm s t k \<noteq> None}" for s using assms(3) by blast
  have "card {t. \<exists>k. pub_at tm' s t k \<noteq> None} \<le> card {t. \<exists>k. pub_at tm s t k \<noteq> None}" for s
    using card_mono [OF fin sub] .
  moreover have "(\<Sum>t \<in> {t. \<exists>k. pub_at tm' s t k \<noteq> None}. length t) \<le> (\<Sum>t \<in> {t. \<exists>k. pub_at tm s t k \<noteq> None}. length t)" for s
    by (rule sum_mono2 [OF fin sub]) simp
  moreover have "card (set (listTopics tm')) \<le> card (set (listTopics tm))" using assms(4) by (simp add: card_mono)
  ultimately show ?thesis using assms(2) unfolding pub_limits_def by (meson le_trans)
qed

text \<open>Operations that only take away keep the limits.\<close>

lemma content_limits_shrink:
  assumes inv: "topic_inv tm" "topic_inv tm'" and lim: "content_limits tm"
    and pub: "\<And>s t k. pub_at tm' s t k \<noteq> None \<Longrightarrow> pub_at tm s t k \<noteq> None"
    and sub: "\<And>s t fd k. sub_at tm' s t fd k \<noteq> None \<Longrightarrow> sub_at tm s t fd k \<noteq> None"
  shows "content_limits tm'"
proof -
  have wf: "topic_wf UNIV UNIV tm" "topic_wf UNIV UNIV tm'" using inv by (simp_all add: topic_inv_def)
  have names: "set (listTopics tm') \<subseteq> set (listTopics tm)"
    unfolding subset_iff listTopics_spec [OF inv(1)] listTopics_spec [OF inv(2)] using pub sub by (metis not_None_eq)
  have "sub_places tm' \<subseteq> sub_places tm" using sub by (auto simp: sub_places_def sub_view_def)
  then have "sub_limits tm'" using lim wf sub_limits_mono content_limits_iff by blast
  moreover have "pub_limits tm'" using lim wf names pub pub_limits_mono content_limits_iff by blast
  ultimately show ?thesis by (simp add: content_limits_iff [OF wf(2)])
qed

subsection \<open>Operations that add\<close>

lemma service_load_fold:
  "fold (\<lambda>(k, e) (n, b). if Q k e then (n, b) else (n + 1, b + f e)) ps (n0, b0) =
    (n0 + length (filter (\<lambda>(k, e). \<not> Q k e) ps), b0 + sum_list (map (\<lambda>(k, e). f e) (filter (\<lambda>(k, e). \<not> Q k e) ps)))"
  for f :: "'e \<Rightarrow> nat" and n0 b0 :: nat
  by (induction ps arbitrary: n0 b0) auto

text \<open>What the service would publish: its topics with the new one.\<close>

lemma service_load_eq:
  fixes name topic :: string
  assumes wf: "topic_wf P S tm"
  defines "T \<equiv> {t. \<exists>k. pub_at tm name t k \<noteq> None}"
  shows "service_load name topic (entryKey name topic) (topics tm) = (card (insert topic T), (\<Sum>t \<in> insert topic T. length t))"
proof -
  let ?ps = "filter (\<lambda>(k, e). \<not> (k = entryKey name topic \<or> te_service_name e \<noteq> name \<or> om_is_empty (te_publishers e))) (om_list (topics tm))"
  let ?ts = "map (\<lambda>(k, e). te_topic_name e) ?ps"
  have in_ps: "(k, e) \<in> set ?ps \<longleftrightarrow> om_lookup (topics tm) k = Some e \<and> k \<noteq> entryKey name topic \<and> te_service_name e = name \<and>
      (\<exists>pk. om_lookup (te_publishers e) pk \<noteq> None)" for k e
    by (auto simp: in_om_list_iff om_is_empty_iff)
  have key: "k = entryKey name (te_topic_name e)" if "(k, e) \<in> set ?ps" for k e
    using that unfolding in_ps using entry_at(2) [OF wf, of k e] by auto
  have "distinct (map fst ?ps)" by (simp add: distinct_map_filter)
  then have "distinct ?ps" by (simp add: distinct_map)
  then have dist: "distinct ?ts"
  proof (rule distinct_map [THEN iffD2, OF conjI], intro inj_onI)
    fix x y assume xy: "x \<in> set ?ps" "y \<in> set ?ps" "(case x of (k, e) \<Rightarrow> te_topic_name e) = (case y of (k, e) \<Rightarrow> te_topic_name e)"
    obtain k e k' e' where x: "x = (k, e)" and y: "y = (k', e')" by (cases x; cases y) auto
    have "k = k'" using key [of k e] key [of k' e'] xy unfolding x y by simp
    then show "x = y" using xy(1,2) unfolding x y in_ps by simp
  qed
  have set: "set ?ts = T - {topic}"
  proof (intro set_eqI iffI)
    fix t assume "t \<in> set ?ts"
    then obtain k e where ke: "(k, e) \<in> set ?ps" "t = te_topic_name e" by auto
    then have e: "om_lookup (topics tm) k = Some e" "te_service_name e = name" "\<exists>pk. om_lookup (te_publishers e) pk \<noteq> None"
      "k \<noteq> entryKey name topic" unfolding in_ps by auto
    show "t \<in> T - {topic}" using e(3,4) key [OF ke(1)] sub_at_entry(2) [OF wf e(1)] ke(2) e(2) by (auto simp: T_def)
  next
    fix t assume "t \<in> T - {topic}"
    then obtain k e where e: "om_lookup (topics tm) (entryKey name t) = Some e" "om_lookup (te_publishers e) k \<noteq> None" "t \<noteq> topic"
      by (auto simp: T_def pub_at_def split: option.splits)
    have "te_service_name e = name" "te_topic_name e = t" using entry_at(1) [OF wf e(1), of name t] by simp_all
    then have "(entryKey name t, e) \<in> set ?ps" unfolding in_ps using e by (auto simp: entryKey_inj)
    then show "t \<in> set ?ts" using \<open>te_topic_name e = t\<close> by (force simp: image_iff)
  qed
  have fin: "finite T" unfolding T_def by (rule published_set(4) [OF wf])
  have "length ?ps = card (T - {topic})" using distinct_card [OF dist] unfolding set by simp
  moreover have "sum_list (map (\<lambda>(k, e). length (te_topic_name e)) ?ps) = (\<Sum>t \<in> T - {topic}. length t)"
    using sum_list_distinct_conv_sum_set [OF dist, of length] unfolding set by (simp add: comp_def case_prod_unfold)
  ultimately show ?thesis
    unfolding service_load_def service_load_fold using fin by (simp add: card.insert_remove sum.insert_remove)
qed

lemma registerPublisher_guards:
  assumes "registerPublisher topic info fd h tm = (True, tm')"
  shows "om_lookup (topics tm) (entryKey (si_name info) topic) = None \<Longrightarrow> om_lookup (topic_name_refs tm) topic = None \<Longrightarrow>
      om_size (topic_name_refs tm) < MAX_TOPICS_GLOBAL"
    "service_load (si_name info) topic (entryKey (si_name info) topic) (topics tm) = (n, b) \<Longrightarrow>
      n \<le> MAX_PUBLISHED_TOPICS \<and> b \<le> MAX_PUBLISHED_TOPICS_BYTES"
  using assms by (auto simp: registerPublisher_def Let_def split: if_splits option.splits prod.splits)

text \<open>An operation that adds something at one topic adds at most that topic to the list.\<close>

lemma list_grow:
  assumes inv: "topic_inv tm" "topic_inv tm'"
    and guard: "om_lookup (topics tm) (entryKey s topic) = None \<Longrightarrow> om_lookup (topic_name_refs tm) topic = None \<Longrightarrow>
      om_size (topic_name_refs tm) < MAX_TOPICS_GLOBAL"
    and lim: "card (set (listTopics tm)) \<le> MAX_TOPICS_GLOBAL"
    and pub: "\<And>s t k. pub_at tm' s t k \<noteq> None \<Longrightarrow> pub_at tm s t k \<noteq> None \<or> t = topic"
    and sub: "\<And>s t fd k. sub_at tm' s t fd k \<noteq> None \<Longrightarrow> sub_at tm s t fd k \<noteq> None \<or> t = topic"
  shows "card (set (listTopics tm')) \<le> MAX_TOPICS_GLOBAL"
proof -
  have "t \<in> set (listTopics tm) \<or> t = topic" if "t \<in> set (listTopics tm')" for t
    using that unfolding listTopics_spec [OF inv(1)] listTopics_spec [OF inv(2)] using pub sub by (metis not_None_eq)
  then have names: "set (listTopics tm') \<subseteq> insert topic (set (listTopics tm))" by blast
  have sz: "om_size (topic_name_refs tm) = card (set (listTopics tm))"
    using om_size_card(1) [of "topic_name_refs tm"] by (simp only: listTopics_def in_om_keys_iff [symmetric] Collect_mem_eq)
  show ?thesis
  proof (cases "topic \<in> set (listTopics tm)")
    case True
    then show ?thesis using names card_mono [OF _ names] lim by (simp add: insert_absorb)
  next
    case False
    have wf: "topic_wf UNIV UNIV tm" using inv(1) by (simp add: topic_inv_def)
    have refs: "om_lookup (topic_name_refs tm) topic = None" using False by (simp add: listTopics_def in_om_keys_iff)
    then have "om_sum (\<lambda>_. topic_weight topic) (topics tm) = 0"
      using topic_wfD(2) [OF wf] by (auto simp: refs_agree_def counted_def split: if_splits)
    then have "om_lookup (topics tm) (entryKey s topic) = None"
      using entry_at(1) [OF wf, of "entryKey s topic" _ s topic]
      by (cases "om_lookup (topics tm) (entryKey s topic)") (fastforce simp: om_sum_0_iff topic_weight_def)+
    then have "Suc (card (set (listTopics tm))) \<le> MAX_TOPICS_GLOBAL" using guard refs sz by simp
    moreover have "card (set (listTopics tm')) \<le> Suc (card (set (listTopics tm)))"
      using card_mono [OF _ names] False by simp
    ultimately show ?thesis by linarith
  qed
qed

lemma register_limits:
  assumes inv: "topic_inv tm" "topic_inv tm'" and lim: "content_limits tm"
    and r: "registerPublisher topic info fd h tm = (ok, tm')"
  shows "content_limits tm'"
proof (cases ok)
  case False
  have wf: "topic_wf UNIV UNIV tm" using inv(1) by (simp add: topic_inv_def)
  from registerPublisher_spec [OF wf r] False lim show ?thesis by simp
next
  case True
  with r have r': "registerPublisher topic info fd h tm = (True, tm')" by simp
  have wf: "topic_wf UNIV UNIV tm" "topic_wf UNIV UNIV tm'" using inv by (simp_all add: topic_inv_def)
  have sub: "sub_at tm' = sub_at tm" and pub: "pub_at tm' s t k = (if s = si_name info \<and> t = topic \<and> k = si_instance_id info
        then Some (slot_of info fd h) else pub_at tm s t k)" for s t k
    using registerPublisher_spec [OF wf(1) r'] by simp_all
  have l: "sub_limits tm" "pub_limits tm" using lim content_limits_iff [OF wf(1)] by simp_all
  have "sub_limits tm'" using l(1) sub by (simp add: sub_limits_def sub_places_def sub_view_def)
  moreover have "pub_limits tm'" unfolding pub_limits_def
  proof (intro conjI allI)
    have "card (set (listTopics tm)) \<le> MAX_TOPICS_GLOBAL" using l(2) by (simp add: pub_limits_def)
    with registerPublisher_guards(1) [OF r'] show "card (set (listTopics tm')) \<le> MAX_TOPICS_GLOBAL"
      by (rule list_grow [OF inv]) (auto simp: sub pub split: if_splits)
    fix s
    have old: "card {t. \<exists>k. pub_at tm s t k \<noteq> None} \<le> MAX_PUBLISHED_TOPICS"
      "(\<Sum>t \<in> {t. \<exists>k. pub_at tm s t k \<noteq> None}. length t) \<le> MAX_PUBLISHED_TOPICS_BYTES"
      using l(2) by (simp_all add: pub_limits_def)
    have T: "{t. \<exists>k. pub_at tm' s t k \<noteq> None} = (if s = si_name info then insert topic {t. \<exists>k. pub_at tm s t k \<noteq> None}
        else {t. \<exists>k. pub_at tm s t k \<noteq> None})" by (auto simp: pub)
    note new = registerPublisher_guards(2) [OF r' service_load_eq [OF wf(1)]]
    show "card {t. \<exists>k. pub_at tm' s t k \<noteq> None} \<le> MAX_PUBLISHED_TOPICS"
      using old(1) new unfolding T by (cases "s = si_name info") simp_all
    show "(\<Sum>t \<in> {t. \<exists>k. pub_at tm' s t k \<noteq> None}. length t) \<le> MAX_PUBLISHED_TOPICS_BYTES"
      using old(2) new unfolding T by (cases "s = si_name info") simp_all
  qed
  ultimately show ?thesis by (simp add: content_limits_iff [OF wf(2)])
qed

lemma addSubscriberFilter_guards:
  assumes "addSubscriberFilter topic sel fd tm = (True, tm')"
  shows "om_lookup (topics tm) (entryKey (tf_publisher_service sel) topic) = None \<Longrightarrow> om_lookup (topic_name_refs tm) topic = None \<Longrightarrow>
      om_size (topic_name_refs tm) < MAX_TOPICS_GLOBAL"
    "total_subscriptions tm < MAX_TOPIC_SUBSCRIPTIONS_GLOBAL"
    "(case om_lookup (fd_subscription_counts tm) fd of None \<Rightarrow> 0 | Some n \<Rightarrow> n) < MAX_TOPIC_SUBSCRIPTIONS_PER_CONNECTION"
    "om_lookup (topics tm) (entryKey (tf_publisher_service sel) topic) = Some e \<Longrightarrow> om_lookup (te_subscribers e) fd = None \<Longrightarrow>
      om_size (te_subscribers e) < MAX_SUBSCRIBERS_PER_TOPIC"
  using assms by (auto simp: addSubscriberFilter_def Let_def split: if_splits)

lemma subscribe_limits:
  assumes inv: "topic_inv tm" "topic_inv tm'" and lim: "content_limits tm"
    and r: "addSubscriberFilter topic sel fd tm = (ok, tm')"
  shows "content_limits tm'"
proof (cases ok)
  case False
  have wf: "topic_wf UNIV UNIV tm" using inv(1) by (simp add: topic_inv_def)
  from addSubscriberFilter_spec [OF wf UNIV_I r] False lim show ?thesis by simp
next
  case True
  with r have r': "addSubscriberFilter topic sel fd tm = (True, tm')" by simp
  let ?s = "tf_publisher_service sel" and ?p = "(tf_publisher_service sel, topic, fd, filter_key sel)"
  have wf: "topic_wf UNIV UNIV tm" "topic_wf UNIV UNIV tm'" using inv by (simp_all add: topic_inv_def)
  have pub: "pub_at tm' = pub_at tm" and new: "sub_at tm ?s topic fd (filter_key sel) = None" and
    sub: "sub_at tm' s t fd' k = (if s = ?s \<and> t = topic \<and> fd' = fd \<and> k = filter_key sel
           then Some sel else sub_at tm s t fd' k)" for s t fd' k
    using addSubscriberFilter_spec [OF wf(1) UNIV_I r'] by simp_all
  note g = addSubscriberFilter_guards [OF r'] and c = subscription_counters [OF wf(1)]
  have l: "sub_limits tm" "pub_limits tm" using lim content_limits_iff [OF wf(1)] by simp_all
  have places: "sub_places tm' = insert ?p (sub_places tm)" "?p \<notin> sub_places tm"
    using new by (auto simp: sub_places_def sub_view_def sub split: if_splits)
  have "sub_limits tm'" unfolding sub_limits_def
  proof (intro conjI allI)
    show "card (sub_places tm') \<le> MAX_TOPIC_SUBSCRIPTIONS_GLOBAL"
      using g(2) c places by simp
    fix fd'
    have "{x \<in> sub_places tm'. fst (snd (snd x)) = fd'} = (if fd' = fd then insert ?p {x \<in> sub_places tm. fst (snd (snd x)) = fd'}
        else {x \<in> sub_places tm. fst (snd (snd x)) = fd'})" using places(1) by auto
    moreover have "card {x \<in> sub_places tm. fst (snd (snd x)) = fd} < MAX_TOPIC_SUBSCRIPTIONS_PER_CONNECTION"
      using g(3) by (simp add: c(3) counted_def split: if_splits)
    moreover have "card {x \<in> sub_places tm. fst (snd (snd x)) = fd'} \<le> MAX_TOPIC_SUBSCRIPTIONS_PER_CONNECTION"
      using l(1) by (simp add: sub_limits_def)
    ultimately show "card {x \<in> sub_places tm'. fst (snd (snd x)) = fd'} \<le> MAX_TOPIC_SUBSCRIPTIONS_PER_CONNECTION"
      using places(2) c(2) by (cases "fd' = fd") simp_all
  next
    fix s t
    let ?F = "\<lambda>tm. {fd. \<exists>k. (s, t, fd, k) \<in> sub_places tm}"
    have old: "card (?F tm) \<le> MAX_SUBSCRIBERS_PER_TOPIC" using l(1) by (simp add: sub_limits_def)
    have grow: "?F tm' = (if s = ?s \<and> t = topic then insert fd (?F tm) else ?F tm)" using places(1) by auto
    have "card (insert fd (?F tm)) \<le> MAX_SUBSCRIBERS_PER_TOPIC" if st: "s = ?s" "t = topic" "fd \<notin> ?F tm"
    proof (cases "om_lookup (topics tm) (entryKey s t)")
      case None
      then have "?F tm = {}" using sub_at_None [OF None] by (auto simp: sub_places_def sub_view_def)
      then show ?thesis by (simp add: MAX_SUBSCRIBERS_PER_TOPIC_def)
    next
      case (Some e)
      then have nm: "te_service_name e = s" "te_topic_name e = t" using entry_at(1) [OF wf(1) Some, of s t] by simp_all
      have "om_lookup (te_subscribers e) fd = None"
      proof (rule ccontr)
        assume "om_lookup (te_subscribers e) fd \<noteq> None"
        then obtain m where m: "om_lookup (te_subscribers e) fd = Some m" by blast
        then obtain k f where "om_lookup m k = Some f"
          using subscriber_nonempty [OF wf(1) Some m] om_size_0_iff [of m] om_is_empty_iff [of m] by auto
        then have "(s, t, fd, k) \<in> sub_places tm"
          using sub_at_entry(1) [OF wf(1) Some, of fd k] m nm by (simp add: sub_places_def sub_view_def)
        with st(3) show False by blast
      qed
      then have "om_size (te_subscribers e) < MAX_SUBSCRIBERS_PER_TOPIC" using g(4) Some st by simp
      then have "card (?F tm) < MAX_SUBSCRIBERS_PER_TOPIC" using subscribers_card [OF wf(1) Some] nm by simp
      then show ?thesis using card_insert_le_m1 [of MAX_SUBSCRIBERS_PER_TOPIC "?F tm" fd] by linarith
    qed
    then show "card (?F tm') \<le> MAX_SUBSCRIBERS_PER_TOPIC"
      using old insert_absorb [of fd "?F tm"] unfolding grow by (cases "s = ?s \<and> t = topic"; cases "fd \<in> ?F tm") auto
  qed
  moreover have "pub_limits tm'" unfolding pub_limits_def
  proof (intro conjI allI)
    have "card (set (listTopics tm)) \<le> MAX_TOPICS_GLOBAL" using l(2) by (simp add: pub_limits_def)
    with g(1) show "card (set (listTopics tm')) \<le> MAX_TOPICS_GLOBAL"
      by (rule list_grow [OF inv]) (auto simp: sub pub split: if_splits)
  qed (use l(2) in \<open>simp_all add: pub_limits_def pub\<close>)
  ultimately show ?thesis by (simp add: content_limits_iff [OF wf(2)])
qed

lemma content_limits_init: "content_limits TopicManager_init"
proof -
  have "sub_limits TopicManager_init" "pub_limits TopicManager_init"
    by (simp_all add: sub_limits_def pub_limits_def sub_places_def sub_view_def sub_at_def pub_at_def
        TopicManager_init_def listTopics_def om_keys_def case_prod_unfold)
  then show ?thesis by (simp add: content_limits_iff topic_wf_init)
qed

lemma topic_step_limits:
  assumes step: "topic_step tm tm'" and inv: "topic_inv tm" and lim: "content_limits tm"
  shows "content_limits tm'"
proof -
  have inv': "topic_inv tm'" by (rule topic_step_inv [OF step inv])
  have wf: "topic_wf UNIV UNIV tm" using inv by (simp add: topic_inv_def)
  note shrink = content_limits_shrink [OF inv inv' lim]
  from step show ?thesis
  proof cases
    case (register topic info fd h ok)
    then show ?thesis by (rule register_limits [OF inv inv' lim])
  next
    case (subscribe topic sel fd ok)
    then show ?thesis by (rule subscribe_limits [OF inv inv' lim])
  next
    case (unpublish_all topic ok)
    from removePublisher_spec [OF wf unpublish_all] show ?thesis by (intro shrink) (auto split: if_splits)
  next
    case (unpublish topic fd ok)
    from removePublisherOf_spec(3,4) [OF wf unpublish] show ?thesis
      by (intro shrink) (auto simp: drop_if_Some split: if_splits)
  next
    case (unregister name fd ts)
    from removePublishersByService_spec [OF wf unregister] show ?thesis
      by (intro shrink) (auto simp: drop_if_Some split: if_splits)
  next
    case (unsubscribe_all topic fd ok)
    from removeSubscriber_spec [OF wf unsubscribe_all] show ?thesis by (intro shrink) (auto split: if_splits)
  next
    case (unsubscribe topic sel fd ok)
    from removeSubscriberFilter_spec [OF wf UNIV_I unsubscribe] show ?thesis by (intro shrink) (auto split: if_splits)
  next
    case (close fd ts)
    from topics_removeByFd_spec(3,4) [OF wf close] show ?thesis by (intro shrink) (auto simp: drop_if_Some split: if_splits)
  next
    case (set_hash topic h ok)
    from setIdlHash_spec [OF wf set_hash] show ?thesis by (intro shrink) (auto, metis map_option_is_None not_None_eq)
  qed
qed

subsection \<open>Publications of a connection\<close>

text \<open>
  The index of a connection's publications has at most \<open>MAX_TOPIC_PUBLICATIONS_PER_CONNECTION\<close> keys.
  Only \<open>registerPublisher\<close> adds to it; \<open>shrinks\<close> says that an operation does not.
\<close>

definition publication_limit :: "TopicManager \<Rightarrow> bool" where
  "publication_limit tm \<longleftrightarrow>
     (\<forall>fd keys. om_lookup (fd_publications tm) fd = Some keys \<longrightarrow> om_size keys \<le> MAX_TOPIC_PUBLICATIONS_PER_CONNECTION)"

lemma os_size_card: "om_size keys = card {x. os_member keys x}" for keys :: "string oset"
  by (simp only: om_size_card(1) os_member_def)

lemma publication_limit_iff:
  "publication_limit tm \<longleftrightarrow> (\<forall>fd. card (bucket (fd_publications tm) fd) \<le> MAX_TOPIC_PUBLICATIONS_PER_CONNECTION)"
proof -
  have "card (bucket m fd) = (case om_lookup m fd of None \<Rightarrow> 0 | Some keys \<Rightarrow> om_size keys)" for m :: "(int, string oset) omap" and fd
    by (simp add: bucket_def os_size_card split: option.splits)
  then show ?thesis by (auto simp: publication_limit_def split: option.splits)
qed

definition shrinks :: "TopicManager \<Rightarrow> TopicManager \<Rightarrow> bool" where
  "shrinks tm tm' \<longleftrightarrow> (\<forall>fd. bucket (fd_publications tm') fd \<subseteq> bucket (fd_publications tm) fd)"

lemma shrinks_limit: "shrinks tm tm' \<Longrightarrow> publication_limit tm \<Longrightarrow> publication_limit tm'"
  unfolding shrinks_def publication_limit_iff by (meson card_mono finite_bucket le_trans)

lemma shrinks_same: "fd_publications tm' = fd_publications tm \<Longrightarrow> shrinks tm tm'"
  by (simp add: shrinks_def)

lemma shrinks_trans: "shrinks tm tm' \<Longrightarrow> shrinks tm' tm'' \<Longrightarrow> shrinks tm tm''"
  unfolding shrinks_def by blast

lemma fold_shrinks:
  "(\<And>x st. shrinks (snd st) (snd (f x st))) \<Longrightarrow> shrinks (snd st) (snd (fold f xs st))"
proof (induction xs arbitrary: st)
  case (Cons x xs)
  show ?case using shrinks_trans [OF Cons.prems Cons.IH [OF Cons.prems]] by simp
qed (simp add: shrinks_same)

lemma any_loop_shrinks:
  "(\<And>k tm. shrinks tm (snd (f k tm))) \<Longrightarrow> shrinks tm (snd (any_loop f ks tm))"
proof -
  assume "\<And>k tm. shrinks tm (snd (f k tm))"
  then have "shrinks (snd st) (snd ((\<lambda>k (any, s). case f k s of (r, s') \<Rightarrow> (any \<or> r, s')) k st))" for k st
    by (simp add: split_beta)
  note step = this
  have "shrinks (snd (False, tm)) (snd (any_loop f ks tm))"
    unfolding any_loop_def by (rule fold_shrinks) (rule step)
  then show ?thesis by simp
qed

lemma publications_unchanged [simp]:
  "fd_publications (put_entry ekey e tm) = fd_publications tm"
  "fd_publications (releaseTopicNameRef name tm) = fd_publications tm"
  "fd_publications (eraseEntryIfUnused ekey tm) = fd_publications tm"
  "fd_publications (add_entry name topic tm) = fd_publications tm"
  by (simp_all add: put_entry_def releaseTopicNameRef_def eraseEntryIfUnused_def add_entry_def Let_def split: option.splits)

lemma erase_slots_shrinks: "shrinks tm (snd (erase_slots sel ekey tm))"
proof (cases "om_lookup (topics tm) ekey")
  case (Some e)
  have "shrinks (snd st) (snd ((\<lambda>(pk, slot) (any_removed, tm).
      if \<not> sel slot then (any_removed, tm)
      else case om_lookup (topics tm) ekey of
          None \<Rightarrow> (any_removed, tm)
        | Some e \<Rightarrow> (True, put_entry ekey (e\<lparr>te_publishers := om_erase pk (te_publishers e)\<rparr>)
            (tm\<lparr>fd_publications := bucket_erase (ps_fd slot) ekey (fd_publications tm)\<rparr>))) x st))" for x :: "string \<times> PublisherSlot" and st
    by (auto simp: shrinks_def split: prod.splits option.splits)
  from fold_shrinks [OF this, of "(False, tm)"] Some show ?thesis by (simp add: erase_slots_def)
qed (simp add: erase_slots_def shrinks_same)

lemma shrinks_tidied: "shrinks tm tm' \<Longrightarrow> fd_publications tm'' = fd_publications tm' \<Longrightarrow> shrinks tm tm''"
  by (simp add: shrinks_def)

lemma removeSlots_at_shrinks: "shrinks tm (snd (removeSlots_at topic fd filter_fd ekey tm))"
  using erase_slots_shrinks [of tm "\<lambda>slot. \<not> (filter_fd \<and> ps_fd slot \<noteq> fd)" ekey]
  by (auto simp: removeSlots_at_def shrinks_same split: option.splits prod.splits elim: shrinks_tidied)

lemma removePublisherSlots_shrinks: "shrinks tm (snd (removePublisherSlots topic fd filter_fd tm))"
  unfolding removePublisherSlots_def by (rule any_loop_shrinks) (rule removeSlots_at_shrinks)

lemma removeSubscriber_shrinks: "shrinks tm (snd (removeSubscriber topic fd tm))"
proof -
  have "shrinks tm (snd (drop_subscriber topic fd ekey tm))" for ekey tm
    by (rule shrinks_same) (simp add: drop_subscriber_def Let_def split: option.splits)
  then show ?thesis by (simp add: removeSubscriber_def shrinks_same any_loop_shrinks)
qed

lemma close_publication_keeps: "fd_publications (snd (fold (close_publication fd) ks st)) = fd_publications (snd st)"
  by (induction ks arbitrary: st) (simp_all add: close_publication_def Let_def split: prod.splits option.splits)

lemma close_subscription_keeps: "fd_publications (fold (close_subscription fd) ks tm) = fd_publications tm"
  by (induction ks arbitrary: tm) (simp_all add: close_subscription_def Let_def split: option.splits)

lemma topics_removeByFd_shrinks: "shrinks tm (snd (topics_removeByFd fd tm))"
proof -
  define r where "r = (case om_lookup (fd_publications tm) fd of
      None \<Rightarrow> ([], tm)
    | Some pub_keys \<Rightarrow> fold (close_publication fd) (om_keys pub_keys) ([], tm\<lparr>fd_publications := om_erase fd (fd_publications tm)\<rparr>))"
  have "shrinks tm (snd r)" by (auto simp: r_def shrinks_def close_publication_keeps split: option.splits)
  moreover have "fd_publications (snd (topics_removeByFd fd tm)) = fd_publications (snd r)"
    unfolding topics_removeByFd_def r_def [symmetric]
    by (auto simp: Let_def close_subscription_keeps split: prod.splits option.splits)
  ultimately show ?thesis by (rule shrinks_tidied)
qed

lemma withdraw_at_shrinks: "shrinks (snd st) (snd (withdraw_at name fd ekey st))"
  using erase_slots_shrinks [of "snd st" "\<lambda>slot. \<not> ps_fd slot \<noteq> fd" ekey]
  by (cases st) (auto simp: withdraw_at_def shrinks_same split: option.splits prod.splits)

lemma tidy_keeps: "fd_publications (fold (tidy_at name) ks tm) = fd_publications tm"
  by (induction ks arbitrary: tm) (simp_all add: tidy_at_def split: option.splits)

lemma removePublishersByService_shrinks: "shrinks tm (snd (removePublishersByService name fd tm))"
proof -
  have "shrinks (snd ([] :: string list, tm)) (snd (fold (withdraw_at name fd) (om_keys (topics tm)) ([], tm)))"
    by (rule fold_shrinks) (rule withdraw_at_shrinks)
  then show ?thesis by (simp add: removePublishersByService_def tidy_keeps shrinks_def split_beta)
qed

lemma register_publication_limit:
  assumes "publication_limit tm" "registerPublisher topic info fd h tm = (ok, tm')"
  shows "publication_limit tm'"
proof (cases ok)
  case False
  with assms have "fd_publications tm' = fd_publications tm"
    by (auto simp: registerPublisher_def Let_def split: if_splits option.splits prod.splits)
  with assms(1) show ?thesis by (simp add: publication_limit_def)
next
  case True
  let ?k = "entryKey (si_name info) topic"
  have b: "fd_publications tm' = bucket_insert fd ?k (fd_publications tm)"
    using assms(2) True by (auto simp: registerPublisher_def Let_def split: if_splits option.splits prod.splits)
  have "case om_lookup (fd_publications tm) fd of None \<Rightarrow> True
      | Some keys \<Rightarrow> os_member keys ?k \<or> om_size keys < MAX_TOPIC_PUBLICATIONS_PER_CONNECTION"
    using assms(2) True by (auto simp: registerPublisher_def Let_def split: if_splits option.splits)
  then have "?k \<in> bucket (fd_publications tm) fd \<or> card (bucket (fd_publications tm) fd) < MAX_TOPIC_PUBLICATIONS_PER_CONNECTION"
    by (auto simp: bucket_def os_size_card MAX_TOPIC_PUBLICATIONS_PER_CONNECTION_def split: option.splits)
  then show ?thesis using assms(1) unfolding publication_limit_iff b
    by (auto simp: insert_absorb card_insert_if)
qed

lemma topic_step_publication_limit:
  assumes "topic_step tm tm'" "publication_limit tm"
  shows "publication_limit tm'"
  using assms(1)
proof cases
  case register
  with assms(2) show ?thesis by (rule register_publication_limit)
next
  case unpublish_all
  then have "shrinks tm tm'" using removePublisherSlots_shrinks by (metis removePublisher_def shrinks_same snd_conv)
  with assms(2) show ?thesis by (rule shrinks_limit [rotated])
next
  case unpublish
  then have "shrinks tm tm'" using removePublisherSlots_shrinks by (metis removePublisherOf_def shrinks_same snd_conv)
  with assms(2) show ?thesis by (rule shrinks_limit [rotated])
next
  case unregister
  with removePublishersByService_shrinks have "shrinks tm tm'" by (metis snd_conv)
  with assms(2) show ?thesis by (rule shrinks_limit [rotated])
next
  case subscribe
  then have "fd_publications tm' = fd_publications tm"
    by (auto simp: addSubscriberFilter_def Let_def split: if_splits option.splits)
  with assms(2) show ?thesis by (simp add: publication_limit_def)
next
  case unsubscribe_all
  then have "shrinks tm tm'" using removeSubscriber_shrinks by (metis snd_conv)
  with assms(2) show ?thesis by (rule shrinks_limit [rotated])
next
  case unsubscribe
  then have "fd_publications tm' = fd_publications tm"
    by (auto simp: removeSubscriberFilter_def Let_def split: if_splits option.splits)
  with assms(2) show ?thesis by (simp add: publication_limit_def)
next
  case close
  with topics_removeByFd_shrinks have "shrinks tm tm'" by (metis snd_conv)
  with assms(2) show ?thesis by (rule shrinks_limit [rotated])
next
  case set_hash
  then have "fd_publications tm' = fd_publications tm"
    by (auto simp: setIdlHash_def split: list.splits)
  with assms(2) show ?thesis by (simp add: publication_limit_def)
qed

text \<open>What a connection publishes is in its index, so the limit bounds its publications.\<close>

lemma publications_bounded:
  assumes "topic_wf UNIV S tm" "publication_limit tm"
  shows "finite {(s, t). \<exists>k slot. pub_at tm s t k = Some slot \<and> ps_fd slot = fd}"
    "card {(s, t). \<exists>k slot. pub_at tm s t k = Some slot \<and> ps_fd slot = fd} \<le> MAX_TOPIC_PUBLICATIONS_PER_CONNECTION"
proof -
  let ?P = "{(s, t). \<exists>k slot. pub_at tm s t k = Some slot \<and> ps_fd slot = fd}"
  have inj: "inj_on (\<lambda>(s, t). entryKey s t) ?P" by (auto simp: inj_on_def entryKey_inj)
  have sub: "(\<lambda>(s, t). entryKey s t) ` ?P \<subseteq> bucket (fd_publications tm) fd"
    using topic_wfD(3) [OF assms(1)] by (fastforce simp: pubs_agree_def publishes_def pub_at_def split: option.splits)
  from finite_subset [OF sub finite_bucket] show "finite ?P" using inj by (simp add: finite_image_iff)
  from card_mono [OF finite_bucket sub] assms(2) show "card ?P \<le> MAX_TOPIC_PUBLICATIONS_PER_CONNECTION"
    unfolding publication_limit_iff card_image [OF inj] by (meson le_trans)
qed

definition topic_limits :: "TopicManager \<Rightarrow> bool" where
  "topic_limits tm \<longleftrightarrow> content_limits tm \<and> publication_limit tm"

lemma topic_reachable_limits: "topic_reachable tm \<Longrightarrow> topic_limits tm"
proof (induction rule: topic_reachable.induct)
  case init
  show ?case using content_limits_init by (simp add: topic_limits_def publication_limit_def TopicManager_init_def)
next
  case (step tm tm')
  then show ?case using topic_step_limits topic_step_publication_limit topic_reachable_inv by (simp add: topic_limits_def)
qed

end
