(* ===== verification/WatchNotifier.thy ===== *)
theory WatchNotifier
  imports
    OmniTypes
    "HOL-Library.Product_Lexorder"
begin

section \<open>Service watches\<close>

text \<open>
  service_manager/service_watch_notifier.cpp: groups of filters by \<open>(connection, watch id)\<close>, with an
  index by service name and one by connection.
\<close>

record ServiceWatchFilter =
  wf_service_name :: string
  wf_host_id :: string
  wf_instance_id :: string

record ServiceWatchGroup =
  wg_subscriber_fd :: int
  wg_watch_id :: u64
  wg_filters :: "ServiceWatchFilter list"

type_synonym WatchKey = "int \<times> u64"

record ServiceWatchNotifier =
  groups :: "(WatchKey, ServiceWatchGroup) omap"
  service_index :: "(string, WatchKey oset) omap"
  subscriber_index :: "(int, u64 oset) omap"

definition WatchNotifier_init :: ServiceWatchNotifier where
  "WatchNotifier_init = \<lparr>groups = om_empty, service_index = om_empty, subscriber_index = om_empty\<rparr>"

definition watch_subscribe ::
    "int \<Rightarrow> u64 \<Rightarrow> ServiceWatchFilter list \<Rightarrow> ServiceWatchNotifier \<Rightarrow> bool \<times> ServiceWatchNotifier" where
  "watch_subscribe subscriber_fd watch_id filters wn =
     (if subscriber_fd < 0 \<or> watch_id = 0 \<or> filters = [] then (False, wn)
      else
        let key = (subscriber_fd, watch_id) in
        if om_lookup (groups wn) key \<noteq> None then (False, wn)
        else
          (True, wn\<lparr>groups := om_update key \<lparr>wg_subscriber_fd = subscriber_fd, wg_watch_id = watch_id,
                        wg_filters = filters\<rparr> (groups wn),
                    subscriber_index := bucket_insert subscriber_fd watch_id (subscriber_index wn),
                    service_index := fold (\<lambda>f. bucket_insert (wf_service_name f) key) filters (service_index wn)\<rparr>))"

definition eraseGroup :: "WatchKey \<Rightarrow> ServiceWatchNotifier \<Rightarrow> ServiceWatchNotifier" where
  "eraseGroup key wn =
     (case om_lookup (groups wn) key of
        None \<Rightarrow> wn
      | Some grp \<Rightarrow>
          wn\<lparr>service_index := fold (\<lambda>f. bucket_erase (wf_service_name f) key) (wg_filters grp) (service_index wn),
             subscriber_index := bucket_erase (wg_subscriber_fd grp) (wg_watch_id grp) (subscriber_index wn),
             groups := om_erase key (groups wn)\<rparr>)"

definition watch_unsubscribe :: "int \<Rightarrow> u64 \<Rightarrow> ServiceWatchNotifier \<Rightarrow> bool \<times> ServiceWatchNotifier" where
  "watch_unsubscribe subscriber_fd watch_id wn =
     (if om_lookup (groups wn) (subscriber_fd, watch_id) = None then (False, wn)
      else (True, eraseGroup (subscriber_fd, watch_id) wn))"

definition watch_removeSubscriber :: "int \<Rightarrow> ServiceWatchNotifier \<Rightarrow> ServiceWatchNotifier" where
  "watch_removeSubscriber subscriber_fd wn =
     (case om_lookup (subscriber_index wn) subscriber_fd of
        None \<Rightarrow> wn
      | Some ids \<Rightarrow>
          fold (\<lambda>i wn. if om_lookup (groups wn) (subscriber_fd, i) = None then wn else eraseGroup (subscriber_fd, i) wn)
            (om_keys ids) wn)"

definition watch_matches :: "ServiceWatchFilter \<Rightarrow> ServiceIdentity \<Rightarrow> bool" where
  "watch_matches f i =
     (if wf_service_name f \<noteq> id_name i then False
      else if wf_instance_id f \<noteq> [] \<and> wf_instance_id f \<noteq> id_instance_id i then False
      else True)"

definition watch_overlaps :: "ServiceWatchFilter \<Rightarrow> ServiceWatchFilter \<Rightarrow> bool" where
  "watch_overlaps a b =
     (if wf_service_name a \<noteq> wf_service_name b then False
      else if wf_instance_id a \<noteq> [] \<and> wf_instance_id b \<noteq> [] \<and> wf_instance_id a \<noteq> wf_instance_id b then False
      else True)"

definition matching :: "ServiceIdentity \<Rightarrow> ServiceWatchNotifier \<Rightarrow> ServiceWatchGroup list" where
  "matching i wn =
     (case om_lookup (service_index wn) (id_name i) of
        None \<Rightarrow> []
      | Some keys \<Rightarrow>
          concat (map (\<lambda>key. case om_lookup (groups wn) key of
              None \<Rightarrow> []
            | Some grp \<Rightarrow> if \<exists>f \<in> set (wg_filters grp). watch_matches f i then [grp] else [])
            (om_keys keys)))"

subsection \<open>The indexes agree with the groups\<close>

definition watch_ok :: "ServiceWatchNotifier \<Rightarrow> bool" where
  "watch_ok wn \<longleftrightarrow> no_empty_bucket (service_index wn) \<and> no_empty_bucket (subscriber_index wn) \<and>
     (\<forall>key g. om_lookup (groups wn) key = Some g \<longrightarrow> key = (wg_subscriber_fd g, wg_watch_id g)) \<and>
     (\<forall>name. bucket (service_index wn) name =
        {key. \<exists>g. om_lookup (groups wn) key = Some g \<and> name \<in> wf_service_name ` set (wg_filters g)}) \<and>
     (\<forall>fd. bucket (subscriber_index wn) fd = {i. om_lookup (groups wn) (fd, i) \<noteq> None})"

lemma watch_okD:
  assumes "watch_ok wn"
  shows "no_empty_bucket (service_index wn)" "no_empty_bucket (subscriber_index wn)"
    "om_lookup (groups wn) key = Some g \<Longrightarrow> key = (wg_subscriber_fd g, wg_watch_id g)"
    "bucket (service_index wn) name =
        {key. \<exists>g. om_lookup (groups wn) key = Some g \<and> name \<in> wf_service_name ` set (wg_filters g)}"
    "bucket (subscriber_index wn) fd = {i. om_lookup (groups wn) (fd, i) \<noteq> None}"
  using assms unfolding watch_ok_def by blast+

lemma watch_ok_init: "watch_ok WatchNotifier_init"
  by (simp add: watch_ok_def WatchNotifier_init_def)

lemma bucket_insert_fold:
  "bucket (fold (\<lambda>f. bucket_insert (name f) key) fs m) n = (if n \<in> name ` set fs then insert key (bucket m n) else bucket m n)"
  "no_empty_bucket m \<Longrightarrow> no_empty_bucket (fold (\<lambda>f. bucket_insert (name f) key) fs m)"
  by (induction fs arbitrary: m) auto

lemma bucket_erase_fold:
  "bucket (fold (\<lambda>f. bucket_erase (name f) key) fs m) n = (if n \<in> name ` set fs then bucket m n - {key} else bucket m n)"
  "no_empty_bucket m \<Longrightarrow> no_empty_bucket (fold (\<lambda>f. bucket_erase (name f) key) fs m)"
  by (induction fs arbitrary: m) auto

lemma watch_subscribe_spec:
  assumes ok: "watch_ok wn" and r: "watch_subscribe fd i filters wn = (accepted, wn')"
  shows "watch_ok wn'"
    "accepted \<longleftrightarrow> 0 \<le> fd \<and> i \<noteq> 0 \<and> filters \<noteq> [] \<and> om_lookup (groups wn) (fd, i) = None"
    "om_lookup (groups wn') key = (if accepted \<and> key = (fd, i)
       then Some \<lparr>wg_subscriber_fd = fd, wg_watch_id = i, wg_filters = filters\<rparr> else om_lookup (groups wn) key)"
proof -
  note d = watch_okD [OF ok]
  show acc: "accepted \<longleftrightarrow> 0 \<le> fd \<and> i \<noteq> 0 \<and> filters \<noteq> [] \<and> om_lookup (groups wn) (fd, i) = None"
    and look: "om_lookup (groups wn') key = (if accepted \<and> key = (fd, i)
       then Some \<lparr>wg_subscriber_fd = fd, wg_watch_id = i, wg_filters = filters\<rparr> else om_lookup (groups wn) key)" for key
    using r by (auto simp: watch_subscribe_def Let_def om_lookup_update split: if_splits)
  show "watch_ok wn'"
  proof (cases accepted)
    case False
    then have "wn' = wn" using r by (auto simp: watch_subscribe_def Let_def split: if_splits)
    with ok show ?thesis by simp
  next
    case True
    then have new: "om_lookup (groups wn) (fd, i) = None" and
      idx: "service_index wn' = fold (\<lambda>f. bucket_insert (wf_service_name f) (fd, i)) filters (service_index wn)"
        "subscriber_index wn' = bucket_insert fd i (subscriber_index wn)"
      using r acc by (auto simp: watch_subscribe_def Let_def split: if_splits)
    show ?thesis unfolding watch_ok_def
    proof (intro conjI allI impI)
      show "no_empty_bucket (service_index wn')" "no_empty_bucket (subscriber_index wn')"
        using d by (simp_all add: idx bucket_insert_fold)
      show "key = (wg_subscriber_fd g, wg_watch_id g)" if "om_lookup (groups wn') key = Some g" for key g
        using that d(3) by (auto simp: look split: if_splits)
      show "bucket (service_index wn') name =
          {key. \<exists>g. om_lookup (groups wn') key = Some g \<and> name \<in> wf_service_name ` set (wg_filters g)}" for name
        using True new by (auto simp: idx bucket_insert_fold d(4) look)
      show "bucket (subscriber_index wn') fd' = {i. om_lookup (groups wn') (fd', i) \<noteq> None}" for fd'
        using True by (auto simp: idx d(5) look)
    qed
  qed
qed

lemma eraseGroup_spec:
  assumes ok: "watch_ok wn"
  shows "watch_ok (eraseGroup key wn)"
    "om_lookup (groups (eraseGroup key wn)) key' = (if key' = key then None else om_lookup (groups wn) key')"
proof -
  note d = watch_okD [OF ok]
  show look: "om_lookup (groups (eraseGroup key wn)) key' = (if key' = key then None else om_lookup (groups wn) key')" for key'
    by (auto simp: eraseGroup_def om_lookup_erase split: option.splits)
  show "watch_ok (eraseGroup key wn)"
  proof (cases "om_lookup (groups wn) key")
    case None
    with ok show ?thesis by (simp add: eraseGroup_def)
  next
    case (Some g)
    have key: "key = (wg_subscriber_fd g, wg_watch_id g)" by (rule d(3) [OF Some])
    have idx: "service_index (eraseGroup key wn) = fold (\<lambda>f. bucket_erase (wf_service_name f) key) (wg_filters g) (service_index wn)"
      "subscriber_index (eraseGroup key wn) = bucket_erase (wg_subscriber_fd g) (wg_watch_id g) (subscriber_index wn)"
      using Some by (simp_all add: eraseGroup_def)
    show ?thesis unfolding watch_ok_def
    proof (intro conjI allI impI)
      show "no_empty_bucket (service_index (eraseGroup key wn))" "no_empty_bucket (subscriber_index (eraseGroup key wn))"
        using d by (simp_all add: idx bucket_erase_fold)
      show "k = (wg_subscriber_fd g, wg_watch_id g)" if "om_lookup (groups (eraseGroup key wn)) k = Some g" for k g
        using that d(3) by (auto simp: look split: if_splits)
      show "bucket (service_index (eraseGroup key wn)) name =
          {k. \<exists>g. om_lookup (groups (eraseGroup key wn)) k = Some g \<and> name \<in> wf_service_name ` set (wg_filters g)}" for name
        using Some by (auto simp: idx bucket_erase_fold d(4) look)
      show "bucket (subscriber_index (eraseGroup key wn)) fd' = {i. om_lookup (groups (eraseGroup key wn)) (fd', i) \<noteq> None}" for fd'
        unfolding idx d(5) look bucket_bucket_erase by (auto simp: key d(5))
    qed
  qed
qed

lemma watch_unsubscribe_spec:
  assumes "watch_ok wn" "watch_unsubscribe fd i wn = (found, wn')"
  shows "watch_ok wn'" "om_lookup (groups wn') key = (if key = (fd, i) then None else om_lookup (groups wn) key)"
    "found \<longleftrightarrow> om_lookup (groups wn) (fd, i) \<noteq> None"
  using assms eraseGroup_spec [OF assms(1), of "(fd, i)"] by (auto simp: watch_unsubscribe_def split: if_splits)

lemma erase_fold_spec:
  assumes "watch_ok wn"
  defines "body \<equiv> \<lambda>fd i wn. if om_lookup (groups wn) (fd, i) = None then wn else eraseGroup (fd, i) wn"
  shows "watch_ok (fold (body fd) ids wn) \<and>
    (\<forall>key. om_lookup (groups (fold (body fd) ids wn)) key =
       (if fst key = fd \<and> snd key \<in> set ids then None else om_lookup (groups wn) key))"
  using assms(1)
proof (induction ids arbitrary: wn)
  case (Cons i ids)
  have "watch_ok (body fd i wn)" "om_lookup (groups (body fd i wn)) key = (if key = (fd, i) then None else om_lookup (groups wn) key)" for key
    using Cons.prems eraseGroup_spec [OF Cons.prems, of "(fd, i)"] by (auto simp: body_def)
  with Cons.IH [of "body fd i wn"] show ?case by (auto simp: prod_eq_iff)
qed simp

lemma watch_removeSubscriber_spec:
  assumes ok: "watch_ok wn"
  shows "watch_ok (watch_removeSubscriber fd wn)"
    "om_lookup (groups (watch_removeSubscriber fd wn)) key = (if fst key = fd then None else om_lookup (groups wn) key)"
proof -
  define ids where "ids = (case om_lookup (subscriber_index wn) fd of None \<Rightarrow> [] | Some ids \<Rightarrow> om_keys ids)"
  have r: "watch_removeSubscriber fd wn = fold (\<lambda>i wn. if om_lookup (groups wn) (fd, i) = None then wn else eraseGroup (fd, i) wn) ids wn"
    by (simp add: watch_removeSubscriber_def ids_def split: option.splits)
  have ids: "set ids = {i. om_lookup (groups wn) (fd, i) \<noteq> None}"
    unfolding ids_def set_bucket_keys by (rule watch_okD(5) [OF ok])
  note sp = erase_fold_spec [OF ok, of fd ids, folded r]
  show "watch_ok (watch_removeSubscriber fd wn)" using sp by simp
  show "om_lookup (groups (watch_removeSubscriber fd wn)) key = (if fst key = fd then None else om_lookup (groups wn) key)"
    using sp ids by (cases key) auto
qed

lemma distinct_pick:
  assumes "\<And>k. map h (p k) = [] \<or> map h (p k) = [k]" "distinct ks"
  shows "distinct (map h (concat (map p ks)))"
proof -
  have sub: "set (map h (concat (map p ks))) \<subseteq> set ks" for ks
  proof (induction ks)
    case (Cons k ks)
    then show ?case using assms(1) [of k] by (elim disjE) (simp_all add: subset_insertI2)
  qed simp
  show ?thesis using assms(2)
  proof (induction ks)
    case (Cons k ks)
    then show ?case using assms(1) [of k] sub [of ks] by (elim disjE) (auto simp: image_iff)
  qed simp
qed

text \<open>The groups told about an instance are those with a filter that matches it, each once.\<close>

lemma matching_spec:
  assumes ok: "watch_ok wn"
  shows "g \<in> set (matching i wn) \<longleftrightarrow>
      (\<exists>key. om_lookup (groups wn) key = Some g \<and> (\<exists>f \<in> set (wg_filters g). watch_matches f i))"
    "distinct (map (\<lambda>g. (wg_subscriber_fd g, wg_watch_id g)) (matching i wn))"
proof -
  note d = watch_okD [OF ok]
  let ?pick = "\<lambda>key. case om_lookup (groups wn) key of None \<Rightarrow> []
      | Some grp \<Rightarrow> if \<exists>f \<in> set (wg_filters grp). watch_matches f i then [grp] else []"
  define keys where "keys = (case om_lookup (service_index wn) (id_name i) of None \<Rightarrow> [] | Some keys \<Rightarrow> om_keys keys)"
  have m: "matching i wn = concat (map ?pick keys)" by (simp add: matching_def keys_def split: option.splits)
  have keys: "set keys = bucket (service_index wn) (id_name i)" unfolding keys_def by (rule set_bucket_keys)
  have distinct: "distinct keys" by (simp add: keys_def om_keys_def split: option.splits)
  have hit: "key \<in> set keys" if "om_lookup (groups wn) key = Some g" "f \<in> set (wg_filters g)" "watch_matches f i" for key f
    using that unfolding keys d(4) by (force simp: watch_matches_def split: if_splits)
  show "g \<in> set (matching i wn) \<longleftrightarrow>
      (\<exists>key. om_lookup (groups wn) key = Some g \<and> (\<exists>f \<in> set (wg_filters g). watch_matches f i))"
  proof
    assume "g \<in> set (matching i wn)"
    then obtain key where "g \<in> set (?pick key)" unfolding m by auto
    then show "\<exists>key. om_lookup (groups wn) key = Some g \<and> (\<exists>f \<in> set (wg_filters g). watch_matches f i)"
      by (intro exI [of _ key]) (auto split: option.splits if_splits)
  next
    assume "\<exists>key. om_lookup (groups wn) key = Some g \<and> (\<exists>f \<in> set (wg_filters g). watch_matches f i)"
    then obtain key f where k: "om_lookup (groups wn) key = Some g" and f: "f \<in> set (wg_filters g)" "watch_matches f i" by blast
    have "g \<in> set (?pick key)" using k f by auto
    with hit [OF k f] show "g \<in> set (matching i wn)" unfolding m by auto
  qed
  have "map (\<lambda>g. (wg_subscriber_fd g, wg_watch_id g)) (?pick key) = [] \<or>
      map (\<lambda>g. (wg_subscriber_fd g, wg_watch_id g)) (?pick key) = [key]" for key
    using d(3) [of key] by (auto split: option.splits)
  from distinct_pick [OF this distinct] show "distinct (map (\<lambda>g. (wg_subscriber_fd g, wg_watch_id g)) (matching i wn))" unfolding m .
qed

subsection \<open>Histories\<close>

text \<open>The operations, and what they mean for the groups in force.\<close>

datatype watch_op = Subscribe int u64 "ServiceWatchFilter list" | Unsubscribe int u64 | RemoveSubscriber int

fun watch_step :: "watch_op \<Rightarrow> ServiceWatchNotifier \<Rightarrow> ServiceWatchNotifier" where
  "watch_step (Subscribe fd i filters) wn = snd (watch_subscribe fd i filters wn)"
| "watch_step (Unsubscribe fd i) wn = snd (watch_unsubscribe fd i wn)"
| "watch_step (RemoveSubscriber fd) wn = watch_removeSubscriber fd wn"

fun watch_abs :: "watch_op \<Rightarrow> (WatchKey \<rightharpoonup> ServiceWatchFilter list) \<Rightarrow> (WatchKey \<rightharpoonup> ServiceWatchFilter list)" where
  "watch_abs (Subscribe fd i filters) G =
     (if 0 \<le> fd \<and> i \<noteq> 0 \<and> filters \<noteq> [] \<and> G (fd, i) = None then G((fd, i) \<mapsto> filters) else G)"
| "watch_abs (Unsubscribe fd i) G = G((fd, i) := None)"
| "watch_abs (RemoveSubscriber fd) G = (\<lambda>key. if fst key = fd then None else G key)"

lemma watch_step_spec:
  assumes ok: "watch_ok wn" and G: "\<And>key. map_option wg_filters (om_lookup (groups wn) key) = G key"
  shows "watch_ok (watch_step op wn)" "map_option wg_filters (om_lookup (groups (watch_step op wn)) key) = watch_abs op G key"
proof -
  have N: "om_lookup (groups wn) k = None \<longleftrightarrow> G k = None" for k by (simp add: G [symmetric])
  have "watch_ok (watch_step op wn) \<and> map_option wg_filters (om_lookup (groups (watch_step op wn)) key) = watch_abs op G key"
  proof (cases op)
    case (Subscribe fd i filters)
    obtain acc wn' where s: "watch_subscribe fd i filters wn = (acc, wn')" by force
    show ?thesis using watch_subscribe_spec [OF ok s] by (simp add: Subscribe s N G)
  next
    case (Unsubscribe fd i)
    obtain found wn' where s: "watch_unsubscribe fd i wn = (found, wn')" by force
    show ?thesis using watch_unsubscribe_spec [OF ok s] by (simp add: Unsubscribe s G)
  next
    case (RemoveSubscriber fd)
    show ?thesis using watch_removeSubscriber_spec [OF ok, of fd] by (simp add: RemoveSubscriber G)
  qed
  then show "watch_ok (watch_step op wn)" "map_option wg_filters (om_lookup (groups (watch_step op wn)) key) = watch_abs op G key"
    by blast+
qed

lemma watch_history:
  "watch_ok (fold watch_step ops WatchNotifier_init)"
  "map_option wg_filters (om_lookup (groups (fold watch_step ops WatchNotifier_init)) key) = fold watch_abs ops (\<lambda>_. None) key"
proof -
  have "watch_ok (fold watch_step ops wn) \<and>
      map_option wg_filters (om_lookup (groups (fold watch_step ops wn)) key) = fold watch_abs ops G key"
    if "watch_ok wn" "\<And>key. map_option wg_filters (om_lookup (groups wn) key) = G key" for wn G
    using that
  proof (induction ops arbitrary: wn G)
    case (Cons op ops)
    show ?case using Cons.IH [OF watch_step_spec [OF Cons.prems]] by simp
  qed simp
  from this [OF watch_ok_init] show "watch_ok (fold watch_step ops WatchNotifier_init)"
    "map_option wg_filters (om_lookup (groups (fold watch_step ops WatchNotifier_init)) key) = fold watch_abs ops (\<lambda>_. None) key"
    by (simp_all add: WatchNotifier_init_def)
qed

end
