(* ===== verification/SMState.thy ===== *)
theory SMState
  imports TcpEndpoint MessageCodec ServiceRegistry TopicLimits WatchNotifier
begin

section \<open>The service manager: state, sending, closing\<close>

text \<open>
  service_manager/service_manager_app.cpp with the parts of sm_diag.cpp and sm_registry.cpp that
  closing a connection needs. \<open>SmEnv\<close> holds what the program runs on: sockets, polling back end and
  allocator. A \<open>ClientConnection*\<close> is the descriptor it is filed under in \<open>clients_\<close>; its transport is
  the connection the endpoint files under the same descriptor. Using a connection that is no longer
  in the table is a use after free: it raises the flag \<open>sm_dangling\<close>, which no operation clears.

  \<open>sendMessage\<close> closes a connection it cannot send to, and closing one sends notifications to others:
  the two are mutually recursive. The operations below take the closing operation as the argument
  \<open>close\<close>; \<open>closeClient\<close> ties the knot with as much fuel as there are connections, and
  \<open>closeClient_unfold\<close> shows that this is the recursion of the code.
\<close>

record ('k, 'b) SmEnv =
  env_ops :: "'k SocketOps"
  env_lops :: "'k ListenOps"
  env_alloc :: allocator
  env_backend :: "'b EventBackend"

record ClientConnection =
  cc_fd :: int
  cc_recv_buffer :: Buffer
  cc_send_buffer :: Buffer
  cc_send_offset :: nat
  cc_pid :: u32
  cc_process_name :: string
  cc_log_level :: u32
  cc_runtime_registered :: bool
  cc_session_key :: string
  cc_runtime_id :: string
  cc_host_id :: string
  cc_incarnation_id :: u32
  cc_session_interval_ms :: u32
  cc_session_timeout_ms :: u32
  cc_last_heartbeat_ms :: int
  cc_accept_time_ms :: int
  cc_hello_received :: bool
  cc_hello_timer_id :: u32
  cc_deadline_timer_id :: u32
  cc_session_generation :: u64

definition ClientConnection_init :: "allocator \<Rightarrow> ClientConnection" where
  "ClientConnection_init alloc =
     \<lparr>cc_fd = -1, cc_recv_buffer = Buffer_new alloc DEFAULT_BUFFER_SIZE,
      cc_send_buffer = Buffer_new alloc DEFAULT_BUFFER_SIZE, cc_send_offset = 0, cc_pid = 0, cc_process_name = [],
      cc_log_level = OMNI_LOG_INFO, cc_runtime_registered = False, cc_session_key = [], cc_runtime_id = [],
      cc_host_id = [], cc_incarnation_id = 0, cc_session_interval_ms = DEFAULT_HEARTBEAT_INTERVAL,
      cc_session_timeout_ms = DEFAULT_HEARTBEAT_TIMEOUT, cc_last_heartbeat_ms = 0, cc_accept_time_ms = 0,
      cc_hello_received = False, cc_hello_timer_id = 0, cc_deadline_timer_id = 0, cc_session_generation = 0\<rparr>"

text \<open>The callbacks the service manager hands to the event loop.\<close>

datatype sm_callback = EndpointFd int | ShutdownFd

datatype sm_functor = HelloDeadline int u64 | SessionDeadline int u64

record ('k, 'b) ServiceManagerApp =
  sm_loop :: "(sm_callback, sm_functor, 'b) EventLoop"
  sm_server :: "TcpServerEndpoint option"
  sm_clients :: "(int, ClientConnection) omap"
  sm_endpoint_fds :: "int oset"
  sm_pid_to_fds :: "(u32, int list) omap"
  sm_pid_watchers :: "(u32, int list) omap"
  sm_watcher_to_pids :: "(int, u32 oset) omap"
  sm_registry :: ServiceRegistry
  sm_watch_notifier :: ServiceWatchNotifier
  sm_topic_manager :: TopicManager
  sm_runtime_sessions :: "(string, int) omap"
  sm_default_session_timeout_ms :: u32
  sm_max_session_timeout_ms :: u32
  sm_incarnation :: u32
  sm_seq_counter :: u32
  sm_shutdown_fd :: int
  sm_kernel :: 'k
  sm_dangling :: bool

definition SM_PROACTIVE_SEQ_BASE :: u32 where "SM_PROACTIVE_SEQ_BASE = 0x40000000"
definition DIAG_SERVICE_NAME_PREFIX :: string where "DIAG_SERVICE_NAME_PREFIX = ''__diag_pid_''"

definition makeSmIncarnationId :: "u64 \<Rightarrow> u64 \<Rightarrow> u32" where
  "makeSmIncarnationId now pid =
     (let x = now;
          x = x XOR push_bit 32 pid;
          x = x XOR drop_bit 33 x;
          x = x * 0xff51afd7ed558ccd;
          x = x XOR drop_bit 33 x;
          x = x * 0xc4ceb9fe1a85ec53;
          x = x XOR drop_bit 33 x;
          v = ucast x :: u32
      in if v \<noteq> 0 then v else 1)"

definition ServiceManagerApp_init ::
    "u64 \<Rightarrow> u64 \<Rightarrow> 'b option \<Rightarrow> 'k \<Rightarrow> u32 \<Rightarrow> ('k, 'b) ServiceManagerApp" where
  "ServiceManagerApp_init now pid backend k heartbeat_timeout_ms =
     \<lparr>sm_loop = EventLoop_init backend, sm_server = None, sm_clients = om_empty, sm_endpoint_fds = om_empty,
      sm_pid_to_fds = om_empty, sm_pid_watchers = om_empty, sm_watcher_to_pids = om_empty,
      sm_registry = ServiceRegistry_init, sm_watch_notifier = WatchNotifier_init,
      sm_topic_manager = TopicManager_init, sm_runtime_sessions = om_empty,
      sm_default_session_timeout_ms =
        (if 0 < heartbeat_timeout_ms then heartbeat_timeout_ms else DEFAULT_HEARTBEAT_TIMEOUT),
      sm_max_session_timeout_ms = DEFAULT_MAX_SESSION_TIMEOUT,
      sm_incarnation = makeSmIncarnationId now pid, sm_seq_counter = SM_PROACTIVE_SEQ_BASE,
      sm_shutdown_fd = -1, sm_kernel = k, sm_dangling = False\<rparr>"

definition nextSMProactiveSequence :: "('k, 'b) ServiceManagerApp \<Rightarrow> u32 \<times> ('k, 'b) ServiceManagerApp" where
  "nextSMProactiveSequence sm =
     (let seq = sm_seq_counter sm; next = seq + 1 in
      (seq, sm\<lparr>sm_seq_counter := (if next < SM_PROACTIVE_SEQ_BASE then SM_PROACTIVE_SEQ_BASE else next)\<rparr>))"

subsection \<open>Connections and timers\<close>

definition live :: "int \<Rightarrow> ('k, 'b) ServiceManagerApp \<Rightarrow> bool" where
  "live fd sm \<longleftrightarrow> om_lookup (sm_clients sm) fd \<noteq> None"

definition put_conn :: "int \<Rightarrow> ClientConnection \<Rightarrow> ('k, 'b) ServiceManagerApp \<Rightarrow> ('k, 'b) ServiceManagerApp" where
  "put_conn fd conn sm = sm\<lparr>sm_clients := om_update fd conn (sm_clients sm)\<rparr>"

text \<open>An access through a \<open>ClientConnection*\<close>.\<close>

definition with_conn ::
    "int \<Rightarrow> (ClientConnection \<Rightarrow> ('k, 'b) ServiceManagerApp \<Rightarrow> ('k, 'b) ServiceManagerApp) \<Rightarrow>
     ('k, 'b) ServiceManagerApp \<Rightarrow> ('k, 'b) ServiceManagerApp" where
  "with_conn fd f sm =
     (case om_lookup (sm_clients sm) fd of
        None \<Rightarrow> sm\<lparr>sm_dangling := True\<rparr>
      | Some conn \<Rightarrow> f conn sm)"

definition sm_now :: "('k, 'b) SmEnv \<Rightarrow> ('k, 'b) ServiceManagerApp \<Rightarrow> int \<times> ('k, 'b) ServiceManagerApp" where
  "sm_now e sm = (case k_currentTimeMs (env_ops e) (sm_kernel sm) of (now, k) \<Rightarrow> (now, sm\<lparr>sm_kernel := k\<rparr>))"

definition sm_addTimer ::
    "('k, 'b) SmEnv \<Rightarrow> u32 \<Rightarrow> sm_functor \<Rightarrow> ('k, 'b) ServiceManagerApp \<Rightarrow> u32 \<times> ('k, 'b) ServiceManagerApp" where
  "sm_addTimer e delay_ms callback sm =
     (case sm_now e sm of (now, sm) \<Rightarrow>
      case addTimer now delay_ms callback False (sm_loop sm) of (i, l) \<Rightarrow> (i, sm\<lparr>sm_loop := l\<rparr>))"

text \<open>\<open>if (id > 0) loop_.cancelTimer(id);\<close>\<close>

definition sm_cancelTimer :: "u32 \<Rightarrow> ('k, 'b) ServiceManagerApp \<Rightarrow> ('k, 'b) ServiceManagerApp" where
  "sm_cancelTimer i sm = (if 0 < i then sm\<lparr>sm_loop := cancelTimer i (sm_loop sm)\<rparr> else sm)"

definition armHelloDeadline :: "('k, 'b) SmEnv \<Rightarrow> int \<Rightarrow> ('k, 'b) ServiceManagerApp \<Rightarrow> ('k, 'b) ServiceManagerApp" where
  "armHelloDeadline e fd = with_conn fd (\<lambda>conn sm.
     let sm = sm_cancelTimer (cc_hello_timer_id conn) sm;
         generation = cc_session_generation conn + 1;
         (i, sm) = sm_addTimer e DEFAULT_SESSION_HELLO_TIMEOUT (HelloDeadline fd generation) sm
     in put_conn fd (conn\<lparr>cc_session_generation := generation, cc_hello_timer_id := i\<rparr>) sm)"

definition armSessionDeadline :: "('k, 'b) SmEnv \<Rightarrow> int \<Rightarrow> ('k, 'b) ServiceManagerApp \<Rightarrow> ('k, 'b) ServiceManagerApp" where
  "armSessionDeadline e fd = with_conn fd (\<lambda>conn sm.
     if \<not> cc_hello_received conn then sm
     else
       let sm = sm_cancelTimer (cc_deadline_timer_id conn) sm;
           generation = cc_session_generation conn + 1;
           timeout_ms = (if 0 < cc_session_timeout_ms conn then cc_session_timeout_ms conn
                         else DEFAULT_HEARTBEAT_TIMEOUT);
           (i, sm) = sm_addTimer e timeout_ms (SessionDeadline fd generation) sm
       in put_conn fd (conn\<lparr>cc_session_generation := generation, cc_deadline_timer_id := i\<rparr>) sm)"

text \<open>Called on the connection that is being closed, which is dropped afterwards.\<close>

definition cancelSessionTimers :: "ClientConnection \<Rightarrow> ('k, 'b) ServiceManagerApp \<Rightarrow> ('k, 'b) ServiceManagerApp" where
  "cancelSessionTimers conn sm = sm_cancelTimer (cc_deadline_timer_id conn) (sm_cancelTimer (cc_hello_timer_id conn) sm)"

subsection \<open>Sending\<close>

definition sm_modifyFd :: "('k, 'b) SmEnv \<Rightarrow> int \<Rightarrow> u32 \<Rightarrow> ('k, 'b) ServiceManagerApp \<Rightarrow> ('k, 'b) ServiceManagerApp" where
  "sm_modifyFd e fd events sm = sm\<lparr>sm_loop := loop_modifyFd (env_backend e) fd events (sm_loop sm)\<rparr>"

definition enableClientWriteEvents :: "('k, 'b) SmEnv \<Rightarrow> int \<Rightarrow> ('k, 'b) ServiceManagerApp \<Rightarrow> ('k, 'b) ServiceManagerApp" where
  "enableClientWriteEvents e fd = sm_modifyFd e fd (EVENT_READ OR EVENT_WRITE OR EVENT_ERROR)"

definition disableClientWriteEvents :: "('k, 'b) SmEnv \<Rightarrow> int \<Rightarrow> ('k, 'b) ServiceManagerApp \<Rightarrow> ('k, 'b) ServiceManagerApp" where
  "disableClientWriteEvents e fd = sm_modifyFd e fd (EVENT_READ OR EVENT_ERROR)"

text \<open>\<open>conn->transport->send(data, length)\<close>.\<close>

definition transport_send ::
    "('k, 'b) SmEnv \<Rightarrow> int \<Rightarrow> bytes \<Rightarrow> ('k, 'b) ServiceManagerApp \<Rightarrow> int \<times> ('k, 'b) ServiceManagerApp" where
  "transport_send e fd data sm =
     (case sm_server sm of
        None \<Rightarrow> (-1, sm\<lparr>sm_dangling := True\<rparr>)
      | Some s \<Rightarrow>
          (case om_lookup (ep_clients s) fd of
             None \<Rightarrow> (-1, sm\<lparr>sm_dangling := True\<rparr>)
           | Some c \<Rightarrow>
               (case tcp_send (env_ops e) data (c, sm_kernel sm) of
                  (sent, c, k) \<Rightarrow>
                    (sent, sm\<lparr>sm_server := Some (s\<lparr>ep_clients := om_update fd c (ep_clients s)\<rparr>), sm_kernel := k\<rparr>))))"

definition sendMessage ::
    "('k, 'b) SmEnv \<Rightarrow> (int \<Rightarrow> ('k, 'b) ServiceManagerApp \<Rightarrow> ('k, 'b) ServiceManagerApp) \<Rightarrow> int \<Rightarrow> Message \<Rightarrow>
     ('k, 'b) ServiceManagerApp \<Rightarrow> ('k, 'b) ServiceManagerApp" where
  "sendMessage e close fd msg sm =
     (case Message_serialize msg (env_alloc e) Buffer_empty of
        (False, _) \<Rightarrow> sm
      | (True, output) \<Rightarrow>
          with_conn fd (\<lambda>conn sm.
            let pending = cc_send_buffer conn in
            if cc_send_offset conn < Buffer_size pending then
              if MAX_MESSAGE_SIZE < (Buffer_size pending - cc_send_offset conn) + Buffer_size output
              then close fd sm
              else
                enableClientWriteEvents e fd
                  (put_conn fd (conn\<lparr>cc_send_buffer := snd (writeRaw (Buffer_content output) (env_alloc e) pending)\<rparr>) sm)
            else
              case transport_send e fd (Buffer_content output) sm of
                (sent, sm) \<Rightarrow>
                  if sent < 0 then close fd sm
                  else if nat sent < Buffer_size output then
                    enableClientWriteEvents e fd
                      (put_conn fd (conn\<lparr>cc_send_buffer :=
                           Buffer_assign (env_alloc e) (drop (nat sent) (Buffer_content output)) pending,
                         cc_send_offset := 0\<rparr>) sm)
                  else sm) sm)"

text \<open>
  The loop of \<open>flushPendingSends\<close>, on the connection's own fields: \<open>-1\<close> for a failed send, \<open>0\<close> when the
  socket takes no more, \<open>1\<close> when everything is out.
\<close>

function flush_loop ::
    "('k, 'b) SmEnv \<Rightarrow> int \<Rightarrow> ClientConnection \<Rightarrow> ('k, 'b) ServiceManagerApp \<Rightarrow>
     int \<times> ClientConnection \<times> ('k, 'b) ServiceManagerApp" where
  "flush_loop e fd conn sm =
     (if cc_send_offset conn < Buffer_size (cc_send_buffer conn) then
        case transport_send e fd
               (mem_get (b_data (cc_send_buffer conn)) (cc_send_offset conn)
                  (Buffer_size (cc_send_buffer conn) - cc_send_offset conn)) sm of
          (sent, sm) \<Rightarrow>
            if sent < 0 then (-1, conn, sm)
            else if sent = 0 then (0, conn, sm)
            else flush_loop e fd (conn\<lparr>cc_send_offset := cc_send_offset conn + nat sent\<rparr>) sm
      else (1, conn, sm))"
  by pat_completeness auto
termination
  by (relation "measure (\<lambda>(e, fd, conn, sm). Buffer_size (cc_send_buffer conn) - cc_send_offset conn)") auto

declare flush_loop.simps [simp del]

definition flushPendingSends ::
    "('k, 'b) SmEnv \<Rightarrow> int \<Rightarrow> ClientConnection \<Rightarrow> ('k, 'b) ServiceManagerApp \<Rightarrow> bool \<times> ('k, 'b) ServiceManagerApp" where
  "flushPendingSends e fd conn sm =
     (case flush_loop e fd conn sm of
        (r, conn, sm) \<Rightarrow>
          if r < 0 then (False, put_conn fd conn sm)
          else if r = 0 then (True, enableClientWriteEvents e fd (put_conn fd conn sm))
          else
            (True, disableClientWriteEvents e fd
               (put_conn fd (conn\<lparr>cc_send_buffer := Buffer_clear (cc_send_buffer conn), cc_send_offset := 0\<rparr>) sm)))"

subsection \<open>Messages the service manager sends on its own\<close>

text \<open>\<open>msg.payload.writeXxx(...)\<close> with the result ignored.\<close>

definition msg_put :: "('k, 'b) SmEnv \<Rightarrow> writer \<Rightarrow> Message \<Rightarrow> Message" where
  "msg_put e w m = m\<lparr>m_payload := snd (w (env_alloc e) (m_payload m))\<rparr>"

definition sendServiceWatchNotify ::
    "('k, 'b) SmEnv \<Rightarrow> (int \<Rightarrow> ('k, 'b) ServiceManagerApp \<Rightarrow> ('k, 'b) ServiceManagerApp) \<Rightarrow> int \<Rightarrow> u64 \<Rightarrow>
     ServiceIdentity \<Rightarrow> bool \<Rightarrow> ('k, 'b) ServiceManagerApp \<Rightarrow> ('k, 'b) ServiceManagerApp" where
  "sendServiceWatchNotify e close fd watch_id i online sm =
     (case nextSMProactiveSequence sm of (seq, sm) \<Rightarrow>
        sendMessage e close fd
          (fold (msg_put e) [writeUint64 watch_id, writeString (id_name i), writeString (id_host_id i),
             writeString (id_instance_id i), writeBool online] (Message_new MSG_SERVICE_WATCH_NOTIFY seq)) sm)"

definition notifyServiceWatch ::
    "('k, 'b) SmEnv \<Rightarrow> (int \<Rightarrow> ('k, 'b) ServiceManagerApp \<Rightarrow> ('k, 'b) ServiceManagerApp) \<Rightarrow>
     ServiceIdentity \<Rightarrow> bool \<Rightarrow> ('k, 'b) ServiceManagerApp \<Rightarrow> ('k, 'b) ServiceManagerApp" where
  "notifyServiceWatch e close i online sm =
     fold (\<lambda>g sm. if live (wg_subscriber_fd g) sm
                  then sendServiceWatchNotify e close (wg_subscriber_fd g) (wg_watch_id g) i online sm else sm)
       (matching i (sm_watch_notifier sm)) sm"

definition notifyServiceRemoved ::
    "('k, 'b) SmEnv \<Rightarrow> (int \<Rightarrow> ('k, 'b) ServiceManagerApp \<Rightarrow> ('k, 'b) ServiceManagerApp) \<Rightarrow>
     ServiceIdentity \<Rightarrow> ('k, 'b) ServiceManagerApp \<Rightarrow> ('k, 'b) ServiceManagerApp" where
  "notifyServiceRemoved e close i = notifyServiceWatch e close i False"

subsection \<open>Diagnostic watches\<close>

text \<open>A vector in a map, empty if absent, and its extension by a connection that is not in it.\<close>

definition list_at :: "('a::linorder, 'x list) omap \<Rightarrow> 'a \<Rightarrow> 'x list" where
  "list_at m k = (case om_lookup m k of None \<Rightarrow> [] | Some xs \<Rightarrow> xs)"

definition push_new :: "'a::linorder \<Rightarrow> 'x \<Rightarrow> ('a, 'x list) omap \<Rightarrow> ('a, 'x list) omap" where
  "push_new k x m = om_update k (if x \<in> set (list_at m k) then list_at m k else list_at m k @ [x]) m"

definition removePidFd :: "u32 \<Rightarrow> int \<Rightarrow> ('k, 'b) ServiceManagerApp \<Rightarrow> ('k, 'b) ServiceManagerApp" where
  "removePidFd pid fd sm =
     (case om_lookup (sm_pid_to_fds sm) pid of
        None \<Rightarrow> sm
      | Some fds \<Rightarrow>
          let fds = removeAll fd fds in
          sm\<lparr>sm_pid_to_fds := (if fds = [] then om_erase pid (sm_pid_to_fds sm) else om_update pid fds (sm_pid_to_fds sm))\<rparr>)"

text \<open>\<open>visitor\<close> runs for each connection of the process that is still in the table.\<close>

definition forEachPidConn ::
    "u32 \<Rightarrow> int \<Rightarrow> (int \<Rightarrow> ('k, 'b) ServiceManagerApp \<Rightarrow> bool \<times> ('k, 'b) ServiceManagerApp) \<Rightarrow>
     ('k, 'b) ServiceManagerApp \<Rightarrow> bool \<times> ('k, 'b) ServiceManagerApp" where
  "forEachPidConn pid except_fd visitor sm =
     (case om_lookup (sm_pid_to_fds sm) pid of
        None \<Rightarrow> (False, sm)
      | Some fds \<Rightarrow> any_loop (\<lambda>fd sm. if \<not> live fd sm \<or> fd = except_fd then (False, sm) else visitor fd sm) fds sm)"

definition sendDiagWatchStopToPid ::
    "('k, 'b) SmEnv \<Rightarrow> (int \<Rightarrow> ('k, 'b) ServiceManagerApp \<Rightarrow> ('k, 'b) ServiceManagerApp) \<Rightarrow> u32 \<Rightarrow> int \<Rightarrow>
     ('k, 'b) ServiceManagerApp \<Rightarrow> ('k, 'b) ServiceManagerApp" where
  "sendDiagWatchStopToPid e close pid except_fd sm =
     snd (forEachPidConn pid except_fd (\<lambda>fd sm.
       case nextSMProactiveSequence sm of
         (seq, sm) \<Rightarrow> (True, sendMessage e close fd (Message_new MSG_DIAG_WATCH_STOP seq) sm)) sm)"

text \<open>The first part of \<open>stopTargetIfUnwatched\<close>: \<open>True\<close> when nobody watches the process any more.\<close>

definition unwatch :: "u32 \<Rightarrow> int \<Rightarrow> ('k, 'b) ServiceManagerApp \<Rightarrow> bool \<times> ('k, 'b) ServiceManagerApp" where
  "unwatch pid watcher_fd sm =
     (case om_lookup (sm_pid_watchers sm) pid of
        None \<Rightarrow> (True, sm)
      | Some watchers \<Rightarrow>
          let watchers = removeAll watcher_fd watchers in
          if watchers \<noteq> [] then (False, sm\<lparr>sm_pid_watchers := om_update pid watchers (sm_pid_watchers sm)\<rparr>)
          else (True, sm\<lparr>sm_pid_watchers := om_erase pid (sm_pid_watchers sm)\<rparr>))"

definition stopTargetIfUnwatched ::
    "('k, 'b) SmEnv \<Rightarrow> (int \<Rightarrow> ('k, 'b) ServiceManagerApp \<Rightarrow> ('k, 'b) ServiceManagerApp) \<Rightarrow> u32 \<Rightarrow> int \<Rightarrow>
     ('k, 'b) ServiceManagerApp \<Rightarrow> ('k, 'b) ServiceManagerApp" where
  "stopTargetIfUnwatched e close pid watcher_fd sm =
     (case unwatch pid watcher_fd sm of
        (False, sm) \<Rightarrow> sm
      | (True, sm) \<Rightarrow> sendDiagWatchStopToPid e close pid watcher_fd sm)"

definition removeWatcherAndMaybeStopTargets ::
    "('k, 'b) SmEnv \<Rightarrow> (int \<Rightarrow> ('k, 'b) ServiceManagerApp \<Rightarrow> ('k, 'b) ServiceManagerApp) \<Rightarrow> int \<Rightarrow>
     ('k, 'b) ServiceManagerApp \<Rightarrow> ('k, 'b) ServiceManagerApp" where
  "removeWatcherAndMaybeStopTargets e close watcher_fd sm =
     (case om_lookup (sm_watcher_to_pids sm) watcher_fd of
        None \<Rightarrow> sm
      | Some pids \<Rightarrow>
          fold (\<lambda>pid. stopTargetIfUnwatched e close pid watcher_fd) (om_keys pids)
            (sm\<lparr>sm_watcher_to_pids := om_erase watcher_fd (sm_watcher_to_pids sm)\<rparr>))"

definition removeTargetWatchers :: "u32 \<Rightarrow> ('k, 'b) ServiceManagerApp \<Rightarrow> ('k, 'b) ServiceManagerApp" where
  "removeTargetWatchers pid sm =
     (case om_lookup (sm_pid_watchers sm) pid of
        None \<Rightarrow> sm
      | Some watchers \<Rightarrow>
          sm\<lparr>sm_pid_watchers := om_erase pid (sm_pid_watchers sm),
             sm_watcher_to_pids := fold (\<lambda>w. bucket_erase w pid) watchers (sm_watcher_to_pids sm)\<rparr>)"

subsection \<open>Closing\<close>

text \<open>The parts of \<open>closeClient\<close> before the first notification, and between the two groups of them.\<close>

definition drop_session :: "int \<Rightarrow> string \<Rightarrow> ('k, 'b) ServiceManagerApp \<Rightarrow> ('k, 'b) ServiceManagerApp" where
  "drop_session fd session_key sm =
     (if session_key \<noteq> [] \<and> om_lookup (sm_runtime_sessions sm) session_key = Some fd
      then sm\<lparr>sm_runtime_sessions := om_erase session_key (sm_runtime_sessions sm)\<rparr> else sm)"

definition detach ::
    "('k, 'b) SmEnv \<Rightarrow> int \<Rightarrow> ClientConnection \<Rightarrow> ('k, 'b) ServiceManagerApp \<Rightarrow>
     ServiceIdentity list \<times> ('k, 'b) ServiceManagerApp" where
  "detach e fd conn sm =
     (let sm = sm\<lparr>sm_clients := om_erase fd (sm_clients sm)\<rparr>;
          sm = drop_session fd (cc_session_key conn) (cancelSessionTimers conn sm);
          sm = sm\<lparr>sm_loop := loop_removeFd (env_backend e) fd (sm_loop sm),
                  sm_endpoint_fds := om_erase fd (sm_endpoint_fds sm)\<rparr>;
          (removed, reg) = removeByFd fd (sm_registry sm)
      in (removed, sm\<lparr>sm_registry := reg\<rparr>))"

definition drop_tables :: "int \<Rightarrow> ClientConnection \<Rightarrow> ('k, 'b) ServiceManagerApp \<Rightarrow> ('k, 'b) ServiceManagerApp" where
  "drop_tables fd conn sm =
     (let sm = sm\<lparr>sm_watch_notifier := watch_removeSubscriber fd (sm_watch_notifier sm),
                  sm_topic_manager := snd (topics_removeByFd fd (sm_topic_manager sm))\<rparr>
      in if cc_runtime_registered conn then
           let sm = removePidFd (cc_pid conn) fd sm in
           if om_lookup (sm_pid_to_fds sm) (cc_pid conn) = None then removeTargetWatchers (cc_pid conn) sm else sm
         else sm)"

definition sm_removeClient :: "('k, 'b) SmEnv \<Rightarrow> int \<Rightarrow> ('k, 'b) ServiceManagerApp \<Rightarrow> ('k, 'b) ServiceManagerApp" where
  "sm_removeClient e fd sm =
     (case sm_server sm of
        None \<Rightarrow> sm
      | Some s \<Rightarrow>
          (case removeClient (env_ops e) fd (s, sm_kernel sm) of
             (s, k) \<Rightarrow> sm\<lparr>sm_server := Some s, sm_kernel := k\<rparr>))"

definition close_body ::
    "('k, 'b) SmEnv \<Rightarrow> (int \<Rightarrow> ('k, 'b) ServiceManagerApp \<Rightarrow> ('k, 'b) ServiceManagerApp) \<Rightarrow> int \<Rightarrow> bool \<Rightarrow>
     ('k, 'b) ServiceManagerApp \<Rightarrow> ('k, 'b) ServiceManagerApp" where
  "close_body e close fd notify_service_death sm =
     (case om_lookup (sm_clients sm) fd of
        None \<Rightarrow> sm
      | Some conn \<Rightarrow>
          (case detach e fd conn sm of
             (removed, sm) \<Rightarrow>
               let sm = (if notify_service_death then fold (notifyServiceRemoved e close) removed sm else sm);
                   sm = drop_tables fd conn sm;
                   sm = removeWatcherAndMaybeStopTargets e close fd sm
               in sm_removeClient e fd sm))"

primrec closeClient_fuel ::
    "('k, 'b) SmEnv \<Rightarrow> nat \<Rightarrow> int \<Rightarrow> bool \<Rightarrow> ('k, 'b) ServiceManagerApp \<Rightarrow> ('k, 'b) ServiceManagerApp" where
  "closeClient_fuel e 0 fd notify_service_death sm = sm"
| "closeClient_fuel e (Suc n) fd notify_service_death sm =
     close_body e (\<lambda>fd. closeClient_fuel e n fd True) fd notify_service_death sm"

definition closeClient ::
    "('k, 'b) SmEnv \<Rightarrow> int \<Rightarrow> bool \<Rightarrow> ('k, 'b) ServiceManagerApp \<Rightarrow> ('k, 'b) ServiceManagerApp" where
  "closeClient e fd notify_service_death sm =
     closeClient_fuel e (om_size (sm_clients sm)) fd notify_service_death sm"

end
