(* ===== verification/SMClosing.thy ===== *)
theory SMClosing
  imports SMState
begin

section \<open>Closing connections\<close>

text \<open>
  What a relation between states before and after has to satisfy so that sending (\<open>sending_frame\<close>) and
  closing (\<open>closing_frame\<close>), with all the notifications and further closings they cause, stay inside it;
  and, from the relation that says which connections survive, that the fuel of \<open>closeClient\<close> is enough.
\<close>

subsection \<open>Frames\<close>

lemma transport_send_clients [simp]: "sm_clients (snd (transport_send e fd data sm)) = sm_clients sm"
  by (auto simp: transport_send_def split: option.splits prod.splits)

lemma nextSM_live [simp]: "live fd (snd (nextSMProactiveSequence sm)) = live fd sm"
  by (simp add: nextSMProactiveSequence_def live_def Let_def)

text \<open>\<open>U\<close> are the descriptors whose watch entries may be taken out.\<close>

locale sending_frame =
  fixes R :: "('k, 'b) ServiceManagerApp \<Rightarrow> ('k, 'b) ServiceManagerApp \<Rightarrow> bool"
    and e :: "('k, 'b) SmEnv"
    and U :: "int set"
  assumes refl: "R sm sm"
    and trans: "R sm1 sm2 \<Longrightarrow> R sm2 sm3 \<Longrightarrow> R sm1 sm3"
    and clients: "R sm sm' \<Longrightarrow> live fd sm' \<Longrightarrow> live fd sm"
    and sequence: "R sm (snd (nextSMProactiveSequence sm))"
    and events: "R sm (sm_modifyFd e fd evs sm)"
    and transport: "live fd sm \<Longrightarrow> R sm (snd (transport_send e fd data sm))"
    and queueing: "om_lookup (sm_clients sm) fd = Some conn \<Longrightarrow>
      R sm (put_conn fd (conn\<lparr>cc_send_buffer := b, cc_send_offset := n\<rparr>) sm)"
    and unwatching: "fd \<in> U \<Longrightarrow> R sm (snd (unwatch pid fd sm))"
begin

lemma fold_frame: "(\<And>x sm. R sm (f x sm)) \<Longrightarrow> R sm (fold f xs sm)"
proof (induction xs arbitrary: sm)
  case (Cons x xs)
  from Cons.prems have "R sm (f x sm)" by simp
  also note Cons.IH [OF Cons.prems, of "f x sm"]
  finally (trans) show ?case by simp
qed (simp add: refl)

lemma any_loop_frame:
  assumes "\<And>x sm. R sm (snd (f x sm))"
  shows "R sm (snd (any_loop f xs sm))"
proof -
  have "R sm (snd (fold (\<lambda>k (any, s). case f k s of (r, s') \<Rightarrow> (any \<or> r, s')) xs (b, sm)))" for b
  proof (induction xs arbitrary: b sm)
    case (Cons x xs)
    obtain r sm1 where f: "f x sm = (r, sm1)" by force
    from assms [of sm x] f have "R sm sm1" by simp
    also note Cons.IH [of sm1 "b \<or> r"]
    finally (trans) show ?case using f by simp
  qed (simp add: refl)
  then show ?thesis by (simp add: any_loop_def)
qed

lemma enable_frame: "R sm (enableClientWriteEvents e fd sm)"
  unfolding enableClientWriteEvents_def by (rule events)

lemma output_enable_frame:
  "om_lookup (sm_clients sm) fd = Some conn \<Longrightarrow>
   R sm (enableClientWriteEvents e fd (put_conn fd (conn\<lparr>cc_send_buffer := b, cc_send_offset := n\<rparr>) sm))"
  by (rule trans [OF queueing enable_frame])

lemma sendMessage_frame:
  assumes close: "\<And>fd sm. R sm (close fd sm)" and live: "live fd sm"
  shows "R sm (sendMessage e close fd msg sm)"
proof -
  obtain ok out where ser: "Message_serialize msg (env_alloc e) Buffer_empty = (ok, out)" by force
  obtain conn where conn: "om_lookup (sm_clients sm) fd = Some conn" using live by (auto simp: live_def)
  obtain sent sm1 where snd: "transport_send e fd (Buffer_content out) sm = (sent, sm1)" by force
  have sm1: "R sm sm1" "om_lookup (sm_clients sm1) fd = Some conn"
    using transport [OF live, of "Buffer_content out"] transport_send_clients [of e fd "Buffer_content out" sm] snd conn
    by simp_all
  show ?thesis
  proof (cases ok)
    case False
    then show ?thesis by (simp add: sendMessage_def ser refl)
  next
    case True
    show ?thesis
    proof (cases "cc_send_offset conn < Buffer_size (cc_send_buffer conn)")
      case pending: True
      have "conn\<lparr>cc_send_buffer := b\<rparr> = conn\<lparr>cc_send_buffer := b, cc_send_offset := cc_send_offset conn\<rparr>" for b by simp
      then have "R sm (enableClientWriteEvents e fd (put_conn fd (conn\<lparr>cc_send_buffer := b\<rparr>) sm))" for b
        using output_enable_frame [OF conn] by metis
      then show ?thesis using True pending by (simp add: sendMessage_def ser with_conn_def conn Let_def close)
    next
      case idle: False
      have 1: "R sm (close fd sm1)" by (rule trans [OF sm1(1) close])
      have 2: "R sm (enableClientWriteEvents e fd (put_conn fd (conn\<lparr>cc_send_buffer := b, cc_send_offset := 0\<rparr>) sm1))" for b
        by (rule trans [OF sm1(1) output_enable_frame [OF sm1(2)]])
      show ?thesis using True idle 1 2 sm1(1) by (simp add: sendMessage_def ser with_conn_def conn Let_def snd)
    qed
  qed
qed

lemma proactive_frame:
  assumes "\<And>fd sm. R sm (close fd sm)" "live fd sm"
  shows "R sm (case nextSMProactiveSequence sm of (seq, sm) \<Rightarrow> sendMessage e close fd (msg seq) sm)"
  using trans [OF sequence [of sm] sendMessage_frame [OF assms(1), where sm = "snd (nextSMProactiveSequence sm)"]] assms(2)
  by (simp add: case_prod_unfold)

lemma notifyServiceWatch_frame:
  assumes "\<And>fd sm. R sm (close fd sm)"
  shows "R sm (notifyServiceWatch e close i online sm)"
  unfolding notifyServiceWatch_def sendServiceWatchNotify_def
  by (rule fold_frame) (simp add: proactive_frame [OF assms] refl)

lemma notifyServiceRemoved_frame:
  assumes "\<And>fd sm. R sm (close fd sm)"
  shows "R sm (notifyServiceRemoved e close i sm)"
  unfolding notifyServiceRemoved_def by (rule notifyServiceWatch_frame [OF assms])

lemma forEachPidConn_frame:
  assumes "\<And>fd sm. live fd sm \<Longrightarrow> R sm (snd (visitor fd sm))"
  shows "R sm (snd (forEachPidConn pid except_fd visitor sm))"
  unfolding forEachPidConn_def
  by (auto simp: refl assms intro!: any_loop_frame split: option.splits)

lemma sendDiagWatchStopToPid_frame:
  assumes "\<And>fd sm. R sm (close fd sm)"
  shows "R sm (sendDiagWatchStopToPid e close pid except_fd sm)"
  unfolding sendDiagWatchStopToPid_def
  using proactive_frame [OF assms]
  by (intro forEachPidConn_frame) (simp add: case_prod_unfold)

lemma stopTargetIfUnwatched_frame:
  assumes "\<And>fd sm. R sm (close fd sm)" "fd \<in> U"
  shows "R sm (stopTargetIfUnwatched e close pid fd sm)"
  using unwatching [OF assms(2), of sm pid]
    trans [OF unwatching [OF assms(2), of sm pid] sendDiagWatchStopToPid_frame [OF assms(1)]]
  by (auto simp: stopTargetIfUnwatched_def split: prod.splits bool.splits)

end

locale closing_frame = sending_frame R e UNIV
  for R :: "('k, 'b) ServiceManagerApp \<Rightarrow> ('k, 'b) ServiceManagerApp \<Rightarrow> bool" and e :: "('k, 'b) SmEnv" +
  assumes detaching: "om_lookup (sm_clients sm) fd = Some conn \<Longrightarrow> R sm (snd (detach e fd conn sm))"
    and dropping: "R sm (drop_tables fd conn sm)"
    and forgetting: "R sm (sm\<lparr>sm_watcher_to_pids := om_erase fd (sm_watcher_to_pids sm)\<rparr>)"
    and releasing: "R sm (sm_removeClient e fd sm)"
begin

lemma removeWatcher_frame:
  assumes "\<And>fd sm. R sm (close fd sm)"
  shows "R sm (removeWatcherAndMaybeStopTargets e close fd sm)"
  unfolding removeWatcherAndMaybeStopTargets_def
  by (auto simp: refl stopTargetIfUnwatched_frame [OF assms] intro!: trans [OF forgetting fold_frame] split: option.splits)

lemma close_body_frame:
  assumes close: "\<And>fd sm. R sm (close fd sm)"
  shows "R sm (close_body e close fd notify sm)"
proof (cases "om_lookup (sm_clients sm) fd")
  case None
  then show ?thesis by (simp add: close_body_def refl)
next
  case (Some conn)
  obtain removed sm1 where d: "detach e fd conn sm = (removed, sm1)" by force
  define sm2 where "sm2 = (if notify then fold (notifyServiceRemoved e close) removed sm1 else sm1)"
  note [trans] = trans
  have "R sm sm1" using detaching [OF Some] d by simp
  also have "R sm1 sm2" by (simp add: sm2_def refl fold_frame notifyServiceRemoved_frame close)
  also have "R sm2 (drop_tables fd conn sm2)" by (rule dropping)
  also have "R (drop_tables fd conn sm2) (removeWatcherAndMaybeStopTargets e close fd (drop_tables fd conn sm2))"
    by (rule removeWatcher_frame [OF close])
  also have "R \<dots> (sm_removeClient e fd \<dots>)" by (rule releasing)
  finally show ?thesis by (simp add: close_body_def Some d sm2_def Let_def)
qed

lemma closeClient_fuel_frame: "R sm (closeClient_fuel e n fd notify sm)"
proof (induction n arbitrary: fd notify sm)
  case (Suc n)
  show ?case by (simp add: close_body_frame [OF Suc])
qed (simp add: refl)

lemma closeClient_frame: "R sm (closeClient e fd notify sm)"
  unfolding closeClient_def by (rule closeClient_fuel_frame)

end

subsection \<open>The connections that survive\<close>

text \<open>What is still connected was connected before and differs in its output queue only.\<close>

definition same_conn :: "ClientConnection \<Rightarrow> ClientConnection \<Rightarrow> bool" where
  "same_conn c c' \<longleftrightarrow> c'\<lparr>cc_send_buffer := cc_send_buffer c, cc_send_offset := cc_send_offset c\<rparr> = c"

definition conns_shrink :: "('k, 'b) ServiceManagerApp \<Rightarrow> ('k, 'b) ServiceManagerApp \<Rightarrow> bool" where
  "conns_shrink sm sm' \<longleftrightarrow>
     (\<forall>fd c'. om_lookup (sm_clients sm') fd = Some c' \<longrightarrow>
        (\<exists>c. om_lookup (sm_clients sm) fd = Some c \<and> same_conn c c'))"

lemma same_conn_refl [simp]: "same_conn c c"
  by (simp add: same_conn_def)

lemma same_conn_trans: "same_conn a b \<Longrightarrow> same_conn b c \<Longrightarrow> same_conn a c"
  unfolding same_conn_def by (cases a, cases b, cases c) simp

lemma same_connD:
  assumes "same_conn c c'"
  shows "cc_pid c' = cc_pid c" "cc_runtime_registered c' = cc_runtime_registered c" "cc_session_key c' = cc_session_key c"
    "cc_hello_received c' = cc_hello_received c" "cc_session_generation c' = cc_session_generation c"
    "cc_recv_buffer c' = cc_recv_buffer c"
  using assms unfolding same_conn_def by (cases c, cases c', simp)+

lemma conns_shrinkE:
  assumes "conns_shrink sm sm'" "om_lookup (sm_clients sm') fd = Some c'"
  obtains c where "om_lookup (sm_clients sm) fd = Some c" "same_conn c c'"
  using assms unfolding conns_shrink_def by metis

lemma conns_shrink_keep: "sm_clients sm' = sm_clients sm \<Longrightarrow> conns_shrink sm sm'"
  by (simp add: conns_shrink_def)

lemma conns_shrink_live: "conns_shrink sm sm' \<Longrightarrow> live fd sm' \<Longrightarrow> live fd sm"
  by (fastforce simp: conns_shrink_def live_def)

lemma unwatch_clients [simp]: "sm_clients (snd (unwatch pid fd sm)) = sm_clients sm"
  by (auto simp: unwatch_def Let_def split: option.splits)

lemma detach_clients [simp]: "sm_clients (snd (detach e fd conn sm)) = om_erase fd (sm_clients sm)"
  by (simp add: detach_def Let_def drop_session_def cancelSessionTimers_def sm_cancelTimer_def case_prod_unfold)

lemma drop_tables_clients [simp]: "sm_clients (drop_tables fd conn sm) = sm_clients sm"
  by (auto simp: drop_tables_def Let_def removePidFd_def removeTargetWatchers_def split: option.splits)

lemma removeClient_clients [simp]: "sm_clients (sm_removeClient e fd sm) = sm_clients sm"
  by (auto simp: sm_removeClient_def split: option.splits prod.splits)

interpretation survivors: closing_frame conns_shrink e for e :: "('k, 'b) SmEnv"
proof
  show "conns_shrink sm1 sm3" if "conns_shrink sm1 sm2" "conns_shrink sm2 sm3" for sm1 sm2 sm3 :: "('k, 'b) ServiceManagerApp"
    using that unfolding conns_shrink_def by (metis same_conn_trans)
  show "conns_shrink sm (put_conn fd (conn\<lparr>cc_send_buffer := b, cc_send_offset := n\<rparr>) sm)"
    if "om_lookup (sm_clients sm) fd = Some conn" for sm :: "('k, 'b) ServiceManagerApp" and fd conn b n
    using that by (auto simp: conns_shrink_def put_conn_def om_lookup_update same_conn_def)
  show "conns_shrink sm (snd (detach e fd conn sm))" for sm :: "('k, 'b) ServiceManagerApp" and fd conn
    by (auto simp: conns_shrink_def om_lookup_erase)
qed (auto simp: conns_shrink_keep conns_shrink_live nextSMProactiveSequence_def sm_modifyFd_def Let_def)

subsection \<open>The fuel is enough\<close>

abbreviation conns :: "('k, 'b) ServiceManagerApp \<Rightarrow> nat" where
  "conns sm \<equiv> om_size (sm_clients sm)"

lemma conns_shrink_size: "conns_shrink sm sm' \<Longrightarrow> conns sm' \<le> conns sm"
  by (rule om_size_mono) (metis conns_shrink_live live_def)

lemma conns_detach: "live fd sm \<Longrightarrow> conns (snd (detach e fd conn sm)) = conns sm - 1"
  by (auto simp: om_size_erase live_def)

text \<open>
  Two closing operations that agree on states with at most \<open>n\<close> connections make no difference where
  there are no more than that.
\<close>

lemma fold_agree:
  assumes "\<And>x sm. conns sm \<le> n \<Longrightarrow> f x sm = g x sm" "\<And>x sm. conns_shrink sm (g x sm)" "conns sm \<le> n"
  shows "fold f xs sm = fold g xs sm"
  using assms(3)
proof (induction xs arbitrary: sm)
  case (Cons x xs)
  have "conns (g x sm) \<le> n" using conns_shrink_size [OF assms(2), of x sm] Cons.prems by simp
  with Cons show ?case by (simp add: assms(1))
qed simp

lemma any_loop_agree:
  assumes "\<And>x sm. conns sm \<le> n \<Longrightarrow> f x sm = g x sm" "\<And>x sm. conns_shrink sm (snd (g x sm))" "conns sm \<le> n"
  shows "any_loop f xs sm = any_loop g xs sm"
proof -
  have "fold (\<lambda>k (any, s). case f k s of (r, s') \<Rightarrow> (any \<or> r, s')) xs (b, sm) =
      fold (\<lambda>k (any, s). case g k s of (r, s') \<Rightarrow> (any \<or> r, s')) xs (b, sm)" for b
    using assms(3)
  proof (induction xs arbitrary: b sm)
    case (Cons x xs)
    have "conns (snd (g x sm)) \<le> n" using conns_shrink_size [OF assms(2), of x sm] Cons.prems by simp
    with Cons show ?case by (simp add: assms(1) case_prod_unfold)
  qed simp
  then show ?thesis by (simp add: any_loop_def)
qed

lemma sendMessage_agree:
  assumes "\<And>fd sm. conns sm \<le> n \<Longrightarrow> c1 fd sm = c2 fd sm" "conns sm \<le> n"
  shows "sendMessage e c1 fd msg sm = sendMessage e c2 fd msg sm"
proof -
  have "conns (snd (transport_send e fd data sm)) \<le> n" for data using assms(2) by simp
  then have "c1 fd (snd (transport_send e fd data sm)) = c2 fd (snd (transport_send e fd data sm))" for data
    by (rule assms(1))
  then show ?thesis
    using assms(2) by (auto simp: sendMessage_def with_conn_def Let_def assms(1) case_prod_unfold split: option.splits bool.splits)
qed

lemma proactive_agree:
  assumes "\<And>fd sm. conns sm \<le> n \<Longrightarrow> c1 fd sm = c2 fd sm" "conns sm \<le> n"
  shows "(case nextSMProactiveSequence sm of (seq, sm) \<Rightarrow> sendMessage e c1 fd (msg seq) sm) =
    (case nextSMProactiveSequence sm of (seq, sm) \<Rightarrow> sendMessage e c2 fd (msg seq) sm)"
proof -
  have "conns (snd (nextSMProactiveSequence sm)) \<le> n"
    using assms(2) by (simp add: nextSMProactiveSequence_def Let_def)
  from sendMessage_agree [OF assms(1) this] show ?thesis by (simp add: case_prod_unfold)
qed

lemma notifyServiceRemoved_agree:
  assumes c: "\<And>fd sm. conns sm \<le> n \<Longrightarrow> c1 fd sm = c2 fd sm" "\<And>fd sm. conns_shrink sm (c2 fd sm)" and n: "conns sm \<le> n"
  shows "notifyServiceRemoved e c1 i sm = notifyServiceRemoved e c2 i sm"
  unfolding notifyServiceRemoved_def notifyServiceWatch_def sendServiceWatchNotify_def
  by (rule fold_agree [OF _ _ n])
    (auto simp: proactive_agree [OF c(1)] survivors.proactive_frame [OF c(2)] survivors.refl)

lemma sendDiagWatchStopToPid_agree:
  assumes c: "\<And>fd sm. conns sm \<le> n \<Longrightarrow> c1 fd sm = c2 fd sm" "\<And>fd sm. conns_shrink sm (c2 fd sm)" and n: "conns sm \<le> n"
  shows "sendDiagWatchStopToPid e c1 pid except_fd sm = sendDiagWatchStopToPid e c2 pid except_fd sm"
proof -
  let ?f = "\<lambda>c fd sm. if \<not> live fd sm \<or> fd = except_fd then (False, sm)
      else case nextSMProactiveSequence sm of
        (seq, sm) \<Rightarrow> (True, sendMessage e c fd (Message_new MSG_DIAG_WATCH_STOP seq) sm)"
  have "any_loop (?f c1) fds sm = any_loop (?f c2) fds sm" for fds
  proof (rule any_loop_agree [OF _ _ n])
    show "?f c1 fd sm = ?f c2 fd sm" if "conns sm \<le> n" for fd sm
      using proactive_agree [OF c(1) that, where e = e and fd = fd and msg = "Message_new MSG_DIAG_WATCH_STOP"] by (simp add: case_prod_unfold)
    show "conns_shrink sm (snd (?f c2 fd sm))" for fd sm
      using survivors.proactive_frame [OF c(2), where fd = fd and sm = sm and e = e and msg = "Message_new MSG_DIAG_WATCH_STOP"]
      by (simp add: case_prod_unfold survivors.refl)
  qed
  then show ?thesis
    by (auto simp: sendDiagWatchStopToPid_def forEachPidConn_def split: option.splits)
qed

lemma removeWatcher_agree:
  assumes c: "\<And>fd sm. conns sm \<le> n \<Longrightarrow> c1 fd sm = c2 fd sm" "\<And>fd sm. conns_shrink sm (c2 fd sm)" and n: "conns sm \<le> n"
  shows "removeWatcherAndMaybeStopTargets e c1 fd sm = removeWatcherAndMaybeStopTargets e c2 fd sm"
proof -
  have stop: "stopTargetIfUnwatched e c1 pid fd sm = stopTargetIfUnwatched e c2 pid fd sm" if "conns sm \<le> n" for pid sm
  proof -
    have "conns (snd (unwatch pid fd sm)) \<le> n" using that by simp
    from sendDiagWatchStopToPid_agree [OF c this] show ?thesis
      by (auto simp: stopTargetIfUnwatched_def split: prod.splits bool.splits)
  qed
  have "fold (\<lambda>pid. stopTargetIfUnwatched e c1 pid fd) pids (sm\<lparr>sm_watcher_to_pids := w\<rparr>) =
      fold (\<lambda>pid. stopTargetIfUnwatched e c2 pid fd) pids (sm\<lparr>sm_watcher_to_pids := w\<rparr>)" for pids w
    by (rule fold_agree [of n]) (simp_all add: stop survivors.stopTargetIfUnwatched_frame c(2) n)
  then show ?thesis by (auto simp: removeWatcherAndMaybeStopTargets_def split: option.splits)
qed

lemma close_body_agree:
  assumes c: "\<And>fd sm. conns sm \<le> n \<Longrightarrow> c1 fd sm = c2 fd sm" "\<And>fd sm. conns_shrink sm (c2 fd sm)"
    and n: "conns sm \<le> Suc n"
  shows "close_body e c1 fd notify sm = close_body e c2 fd notify sm"
proof (cases "om_lookup (sm_clients sm) fd")
  case (Some conn)
  obtain removed sm1 where d: "detach e fd conn sm = (removed, sm1)" by force
  have n1: "conns sm1 \<le> n" using conns_detach [of fd sm e conn] Some d n by (simp add: live_def)
  have eq: "fold (notifyServiceRemoved e c1) removed sm1 = fold (notifyServiceRemoved e c2) removed sm1"
    by (rule fold_agree [OF _ _ n1])
      (simp_all add: notifyServiceRemoved_agree [OF c] survivors.notifyServiceRemoved_frame c(2))
  have "conns_shrink sm1 (fold (notifyServiceRemoved e c2) removed sm1)"
    by (simp add: survivors.fold_frame survivors.notifyServiceRemoved_frame c(2))
  then have "conns (fold (notifyServiceRemoved e c2) removed sm1) \<le> n"
    using conns_shrink_size n1 le_trans by blast
  then have "conns (drop_tables fd conn (if notify then fold (notifyServiceRemoved e c2) removed sm1 else sm1)) \<le> n"
    using n1 by simp
  from removeWatcher_agree [OF c this] eq Some d show ?thesis by (cases notify) (simp_all add: close_body_def Let_def)
qed (simp add: close_body_def)

lemma closeClient_fuel_stable:
  "conns sm \<le> n \<Longrightarrow> conns sm \<le> m \<Longrightarrow> closeClient_fuel e n fd notify sm = closeClient_fuel e m fd notify sm"
proof (induction n arbitrary: m fd notify sm)
  case 0
  then have "om_lookup (sm_clients sm) fd = None" by (simp add: om_size_0_iff om_is_empty_iff)
  then show ?case by (cases m) (simp_all add: close_body_def)
next
  case (Suc n)
  show ?case
  proof (cases m)
    case 0
    with Suc.prems have "om_lookup (sm_clients sm) fd = None" by (simp add: om_size_0_iff om_is_empty_iff)
    with 0 show ?thesis by (simp add: close_body_def)
  next
    case (Suc m')
    have "close_body e (\<lambda>fd. closeClient_fuel e n fd True) fd notify sm =
        close_body e (\<lambda>fd. closeClient_fuel e m' fd True) fd notify sm"
      by (rule close_body_agree [of "min n m'"])
        (use Suc.IH Suc.prems \<open>m = Suc m'\<close> survivors.closeClient_fuel_frame in auto)
    with Suc show ?thesis by simp
  qed
qed

text \<open>The recursion of the code.\<close>

lemma closeClient_unfold:
  "closeClient e fd notify sm = close_body e (\<lambda>fd. closeClient e fd True) fd notify sm"
proof (cases "conns sm")
  case 0
  then have "om_lookup (sm_clients sm) fd = None" by (simp add: om_size_0_iff om_is_empty_iff)
  with 0 show ?thesis by (simp add: closeClient_def close_body_def)
next
  case (Suc n)
  have "closeClient e fd notify sm = close_body e (\<lambda>fd. closeClient_fuel e n fd True) fd notify sm"
    by (simp add: closeClient_def Suc)
  also have "\<dots> = close_body e (\<lambda>fd. closeClient e fd True) fd notify sm"
  proof (rule close_body_agree)
    show "closeClient_fuel e n fd True sm' = closeClient e fd True sm'" if "conns sm' \<le> n" for fd sm'
      using closeClient_fuel_stable [OF that order_refl] by (simp add: closeClient_def)
    show "conns sm \<le> Suc n" using Suc by simp
  qed (rule survivors.closeClient_frame)
  finally show ?thesis .
qed

end
