(* ===== verification/SMTables.thy ===== *)
theory SMTables
  imports SMClosing
begin

section \<open>The tables of the service manager\<close>

text \<open>
  Every table files things under descriptors: services, service watches, publications, subscriptions,
  the connections of a process and the two directions of the diagnostic watches. \<open>holds sm r fd\<close> says
  that descriptor \<open>fd\<close> has the reference \<open>r\<close> in some table. The invariant: the tables are consistent in
  themselves, every reference belongs to a connection, the two watch tables are inverse to each
  other, every connection has its transport, and no connection was used after it was deleted.

  While a connection is being closed it is out of \<open>clients_\<close> but still has references; \<open>Z\<close> are such
  connections, and \<open>U\<close> those among them whose watch list is already gone.
\<close>

datatype sm_ref =
    RefService string string
  | RefWatch u64
  | RefPublisher string string string
  | RefSubscriber string string string
  | RefPid u32
  | RefWatcher u32
  | RefWatching u32

fun holds :: "('k, 'b) ServiceManagerApp \<Rightarrow> sm_ref \<Rightarrow> int \<Rightarrow> bool" where
  "holds sm (RefService n k) fd \<longleftrightarrow> (\<exists>en. findEntry n k (sm_registry sm) = Some en \<and> se_control_fd en = fd)"
| "holds sm (RefWatch i) fd \<longleftrightarrow> om_lookup (groups (sm_watch_notifier sm)) (fd, i) \<noteq> None"
| "holds sm (RefPublisher s t k) fd \<longleftrightarrow> (\<exists>slot. pub_at (sm_topic_manager sm) s t k = Some slot \<and> ps_fd slot = fd)"
| "holds sm (RefSubscriber s t k) fd \<longleftrightarrow> sub_at (sm_topic_manager sm) s t fd k \<noteq> None"
| "holds sm (RefPid pid) fd \<longleftrightarrow> fd \<in> set (list_at (sm_pid_to_fds sm) pid)"
| "holds sm (RefWatcher pid) fd \<longleftrightarrow> fd \<in> set (list_at (sm_pid_watchers sm) pid)"
| "holds sm (RefWatching pid) fd \<longleftrightarrow> pid \<in> bucket (sm_watcher_to_pids sm) fd"

declare holds.simps [simp del]

text \<open>What a reference says about its connection.\<close>

fun ref_ok :: "sm_ref \<Rightarrow> ClientConnection \<Rightarrow> bool" where
  "ref_ok (RefPid pid) c \<longleftrightarrow> cc_runtime_registered c \<and> cc_pid c = pid"
| "ref_ok (RefService _ _) c \<longleftrightarrow> cc_hello_received c"
| "ref_ok _ c \<longleftrightarrow> True"

definition owner ::
    "(int \<Rightarrow> ClientConnection option) \<Rightarrow> ('k, 'b) ServiceManagerApp \<Rightarrow> int \<Rightarrow> ClientConnection option" where
  "owner Z sm fd = (case om_lookup (sm_clients sm) fd of None \<Rightarrow> Z fd | Some c \<Rightarrow> Some c)"

definition tables_ok :: "('k, 'b) ServiceManagerApp \<Rightarrow> bool" where
  "tables_ok sm \<longleftrightarrow> registry_ok (sm_registry sm) \<and> watch_ok (sm_watch_notifier sm) \<and> topic_inv (sm_topic_manager sm)"

definition owned :: "(int \<Rightarrow> ClientConnection option) \<Rightarrow> ('k, 'b) ServiceManagerApp \<Rightarrow> bool" where
  "owned Z sm \<longleftrightarrow> (\<forall>r fd. holds sm r fd \<longrightarrow> (\<exists>c. owner Z sm fd = Some c \<and> ref_ok r c))"

definition paired :: "int set \<Rightarrow> ('k, 'b) ServiceManagerApp \<Rightarrow> bool" where
  "paired U sm \<longleftrightarrow>
     (\<forall>fd pid. holds sm (RefWatching pid) fd \<longrightarrow> holds sm (RefWatcher pid) fd \<and> fd \<notin> U) \<and>
     (\<forall>fd pid. holds sm (RefWatcher pid) fd \<longrightarrow> fd \<notin> U \<longrightarrow> holds sm (RefWatching pid) fd) \<and>
     (\<forall>fd \<in> U. \<not> live fd sm)"

definition connected :: "('k, 'b) ServiceManagerApp \<Rightarrow> bool" where
  "connected sm \<longleftrightarrow> \<not> sm_dangling sm \<and> SM_PROACTIVE_SEQ_BASE \<le> sm_seq_counter sm \<and>
     (\<forall>fd. live fd sm \<longrightarrow> (\<exists>s. sm_server sm = Some s \<and> om_lookup (ep_clients s) fd \<noteq> None))"

definition sm_inv ::
    "(int \<Rightarrow> ClientConnection option) \<Rightarrow> int set \<Rightarrow> ('k, 'b) ServiceManagerApp \<Rightarrow> bool" where
  "sm_inv Z U sm \<longleftrightarrow> tables_ok sm \<and> owned Z sm \<and> paired U sm \<and> connected sm"

definition inv_rel ::
    "(int \<Rightarrow> ClientConnection option) \<Rightarrow> int set \<Rightarrow> ('k, 'b) ServiceManagerApp \<Rightarrow> ('k, 'b) ServiceManagerApp \<Rightarrow> bool" where
  "inv_rel Z U sm sm' \<longleftrightarrow> conns_shrink sm sm' \<and>
     (sm_inv Z U sm \<longrightarrow> sm_inv Z U sm' \<and> (\<forall>r fd. holds sm' r fd \<longrightarrow> holds sm r fd))"

subsection \<open>Steps that leave the tables alone\<close>

definition tables ::
    "('k, 'b) ServiceManagerApp \<Rightarrow> ServiceRegistry \<times> ServiceWatchNotifier \<times> TopicManager \<times>
     (u32, int list) omap \<times> (u32, int list) omap \<times> (int, u32 oset) omap" where
  "tables sm = (sm_registry sm, sm_watch_notifier sm, sm_topic_manager sm, sm_pid_to_fds sm, sm_pid_watchers sm,
     sm_watcher_to_pids sm)"

lemma tables_holds: "tables sm' = tables sm \<Longrightarrow> holds sm' r fd = holds sm r fd"
  by (cases r) (simp_all add: tables_def holds.simps)

lemma tables_tables_ok: "tables sm' = tables sm \<Longrightarrow> tables_ok sm' = tables_ok sm"
  by (simp add: tables_def tables_ok_def)

lemma same_conn_ref_ok: "same_conn c c' \<Longrightarrow> ref_ok r c' = ref_ok r c"
  by (cases r) (simp_all add: same_connD)

text \<open>The same connections up to their queues, in both directions.\<close>

definition conns_same :: "('k, 'b) ServiceManagerApp \<Rightarrow> ('k, 'b) ServiceManagerApp \<Rightarrow> bool" where
  "conns_same sm sm' \<longleftrightarrow> conns_shrink sm sm' \<and> (\<forall>fd. live fd sm \<longrightarrow> live fd sm')"

lemma conns_same_live: "conns_same sm sm' \<Longrightarrow> live fd sm' = live fd sm"
  using conns_shrink_live by (auto simp: conns_same_def)

lemma conns_same_owner:
  assumes "conns_same sm sm'" "owner Z sm fd = Some c" "ref_ok r c"
  shows "\<exists>c'. owner Z sm' fd = Some c' \<and> ref_ok r c'"
proof (cases "om_lookup (sm_clients sm') fd")
  case None
  then have "om_lookup (sm_clients sm) fd = None" using conns_same_live [OF assms(1), of fd] by (simp add: live_def)
  with None assms show ?thesis by (simp add: owner_def)
next
  case (Some c')
  then obtain c0 where "om_lookup (sm_clients sm) fd = Some c0" "same_conn c0 c'"
    using assms(1) conns_shrinkE [of sm sm' fd c'] by (metis conns_same_def)
  with Some assms show ?thesis by (auto simp: owner_def same_conn_ref_ok)
qed

lemma inv_rel_quiet:
  assumes "conns_same sm sm'" "tables sm' = tables sm" "connected sm \<Longrightarrow> connected sm'"
  shows "inv_rel Z U sm sm'"
proof -
  note h = tables_holds [OF assms(2)]
  have "owned Z sm'" if own: "owned Z sm"
    unfolding owned_def h
  proof (intro allI impI)
    fix r fd
    assume "holds sm r fd"
    with own obtain c where "owner Z sm fd = Some c" "ref_ok r c" unfolding owned_def by metis
    then show "\<exists>c. owner Z sm' fd = Some c \<and> ref_ok r c" by (rule conns_same_owner [OF assms(1)])
  qed
  moreover have "paired U sm' = paired U sm"
    unfolding paired_def h conns_same_live [OF assms(1)] by (rule refl)
  ultimately show ?thesis
    using assms(1,3) by (simp add: inv_rel_def sm_inv_def h tables_tables_ok [OF assms(2)] conns_same_def)
qed

lemma conns_same_keep: "sm_clients sm' = sm_clients sm \<Longrightarrow> conns_same sm sm'"
  by (simp add: conns_same_def conns_shrink_keep live_def)

lemma connected_keep:
  "connected sm \<Longrightarrow> sm_clients sm' = sm_clients sm \<Longrightarrow> sm_server sm' = sm_server sm \<Longrightarrow>
   sm_seq_counter sm' = sm_seq_counter sm \<Longrightarrow> sm_dangling sm' = sm_dangling sm \<Longrightarrow> connected sm'"
  by (simp add: connected_def live_def)

lemma nextSM_base:
  "SM_PROACTIVE_SEQ_BASE \<le> sm_seq_counter (snd (nextSMProactiveSequence sm))"
  by (simp add: nextSMProactiveSequence_def Let_def not_less)

lemma transport_send_connected:
  assumes "connected sm" "live fd sm"
  shows "connected (snd (transport_send e fd data sm))"
proof -
  obtain s c where s: "sm_server sm = Some s" "om_lookup (ep_clients s) fd = Some c"
    using assms by (fastforce simp: connected_def)
  obtain n c' k' where t: "tcp_send (env_ops e) data (c, sm_kernel sm) = (n, c', k')" by (metis prod_cases3)
  show ?thesis using assms(1) s t
    by (fastforce simp: connected_def transport_send_def live_def om_lookup_update)
qed

lemma list_at_update: "list_at (om_update k xs m) k' = (if k' = k then xs else list_at m k')"
  by (simp add: list_at_def om_lookup_update)

lemma list_at_erase: "list_at (om_erase k m) k' = (if k' = k then [] else list_at m k')"
  by (simp add: list_at_def om_lookup_erase)

lemma unwatch_tables:
  "list_at (sm_pid_watchers (snd (unwatch pid fd sm))) pid' =
     (if pid' = pid then removeAll fd (list_at (sm_pid_watchers sm) pid') else list_at (sm_pid_watchers sm) pid')"
  by (auto simp: unwatch_def Let_def list_at_update list_at_erase list_at_def om_lookup_update om_lookup_erase split: option.splits)

lemma unwatch_holds:
  "holds (snd (unwatch pid fd sm)) r fd' \<longleftrightarrow> holds sm r fd' \<and> \<not> (r = RefWatcher pid \<and> fd' = fd)"
proof (cases r)
  case (RefWatcher p)
  then show ?thesis by (auto simp: holds.simps unwatch_tables)
qed (auto simp: holds.simps unwatch_def Let_def split: option.splits)

lemma unwatch_rest [simp]:
  "sm_registry (snd (unwatch pid fd sm)) = sm_registry sm" "sm_watch_notifier (snd (unwatch pid fd sm)) = sm_watch_notifier sm"
  "sm_topic_manager (snd (unwatch pid fd sm)) = sm_topic_manager sm" "sm_server (snd (unwatch pid fd sm)) = sm_server sm"
  "sm_seq_counter (snd (unwatch pid fd sm)) = sm_seq_counter sm" "sm_dangling (snd (unwatch pid fd sm)) = sm_dangling sm"
  by (auto simp: unwatch_def Let_def split: option.splits)

lemma holds_watch_imp: "paired U sm \<Longrightarrow> holds sm (RefWatching pid) fd \<Longrightarrow> fd \<notin> U"
  by (simp add: paired_def)

lemma unwatch_inv:
  assumes "fd \<in> U"
  shows "inv_rel Z U sm (snd (unwatch pid fd sm))"
proof -
  let ?sm = "snd (unwatch pid fd sm)"
  have same: "sm_clients ?sm = sm_clients sm" by simp
  have own: "owner Z ?sm = owner Z sm" by (simp add: owner_def fun_eq_iff)
  have "paired U ?sm" if p: "paired U sm"
    using p assms unfolding paired_def unwatch_holds live_def same by blast
  moreover have "owned Z ?sm" if "owned Z sm" using that unfolding owned_def unwatch_holds own by blast
  moreover have "tables_ok ?sm = tables_ok sm" by (simp add: tables_ok_def)
  moreover have "connected ?sm" if "connected sm" using that by (rule connected_keep) simp_all
  ultimately show ?thesis by (auto simp: inv_rel_def sm_inv_def unwatch_holds conns_shrink_keep)
qed

interpretation inv: sending_frame "inv_rel Z U" e U for Z U and e :: "('k, 'b) SmEnv"
proof
  show "inv_rel Z U sm sm" for sm :: "('k, 'b) ServiceManagerApp"
    by (simp add: inv_rel_def survivors.refl)
  show "inv_rel Z U sm1 sm3" if "inv_rel Z U sm1 sm2" "inv_rel Z U sm2 sm3" for sm1 sm2 sm3 :: "('k, 'b) ServiceManagerApp"
    using that survivors.trans [of sm1 sm2 sm3] by (simp add: inv_rel_def)
  show "live fd sm" if "inv_rel Z U sm sm'" "live fd sm'" for sm sm' :: "('k, 'b) ServiceManagerApp" and fd
    using that conns_shrink_live by (auto simp: inv_rel_def)
  show "inv_rel Z U sm (snd (nextSMProactiveSequence sm))" for sm :: "('k, 'b) ServiceManagerApp"
  proof (rule inv_rel_quiet)
    show "connected (snd (nextSMProactiveSequence sm))" if "connected sm"
      using that nextSM_base [of sm] by (simp add: connected_def nextSMProactiveSequence_def Let_def live_def)
  qed (simp_all add: conns_same_keep tables_def nextSMProactiveSequence_def Let_def)
  show "inv_rel Z U sm (sm_modifyFd e fd evs sm)" for sm :: "('k, 'b) ServiceManagerApp" and fd evs
    by (rule inv_rel_quiet)
      (simp_all add: conns_same_keep tables_def sm_modifyFd_def connected_keep [of sm])
  show "inv_rel Z U sm (snd (transport_send e fd data sm))" if "live fd sm" for sm :: "('k, 'b) ServiceManagerApp" and fd data
  proof (rule inv_rel_quiet)
    show "tables (snd (transport_send e fd data sm)) = tables sm"
      by (auto simp: tables_def transport_send_def split: option.splits prod.splits)
  qed (simp_all add: conns_same_keep transport_send_connected that)
  show "inv_rel Z U sm (put_conn fd (conn\<lparr>cc_send_buffer := b, cc_send_offset := n\<rparr>) sm)"
    if "om_lookup (sm_clients sm) fd = Some conn" for sm :: "('k, 'b) ServiceManagerApp" and fd conn b n
  proof (rule inv_rel_quiet)
    have live: "live fd' (put_conn fd (conn\<lparr>cc_send_buffer := b, cc_send_offset := n\<rparr>) sm) = live fd' sm" for fd'
      using that by (simp add: live_def put_conn_def om_lookup_update)
    then show "conns_same sm (put_conn fd (conn\<lparr>cc_send_buffer := b, cc_send_offset := n\<rparr>) sm)"
      using survivors.queueing [OF that] by (simp add: conns_same_def)
    show "connected (put_conn fd (conn\<lparr>cc_send_buffer := b, cc_send_offset := n\<rparr>) sm)" if "connected sm"
      using that unfolding connected_def live by (simp add: put_conn_def)
  qed (simp add: tables_def put_conn_def)
  show "inv_rel Z U sm (snd (unwatch pid fd sm))" if "fd \<in> U" for sm :: "('k, 'b) ServiceManagerApp" and fd pid
    using that by (rule unwatch_inv)
qed

end
