(* ===== verification/SMCloseInv.thy ===== *)
theory SMCloseInv
  imports SMTables
begin

section \<open>Closing keeps the tables\<close>

text \<open>
  \<open>closeClient\<close>, with everything it sets off, keeps the invariant of \<open>SMTables\<close> and leaves no reference
  to the connection that was closed, by induction on its fuel and along the stages of \<open>close_body\<close>.
\<close>

definition nothing_held :: "('k, 'b) ServiceManagerApp \<Rightarrow> int \<Rightarrow> bool" where
  "nothing_held sm fd \<longleftrightarrow> (\<forall>r. \<not> holds sm r fd)"

lemma sm_invD:
  assumes "sm_inv Z U sm"
  shows "registry_ok (sm_registry sm)" "watch_ok (sm_watch_notifier sm)" "topic_inv (sm_topic_manager sm)"
    "owned Z sm" "paired U sm" "connected sm"
  using assms by (simp_all add: sm_inv_def tables_ok_def)

lemma inv_relD:
  assumes "inv_rel Z U sm sm'" "sm_inv Z U sm"
  shows "sm_inv Z U sm'" "holds sm' r fd \<Longrightarrow> holds sm r fd"
  using assms by (auto simp: inv_rel_def)

lemma pairedD:
  assumes "paired U sm"
  shows "holds sm (RefWatching pid) fd \<Longrightarrow> holds sm (RefWatcher pid) fd" "holds sm (RefWatching pid) fd \<Longrightarrow> fd \<notin> U"
    "holds sm (RefWatcher pid) fd \<Longrightarrow> fd \<notin> U \<Longrightarrow> holds sm (RefWatching pid) fd" "fd \<in> U \<Longrightarrow> \<not> live fd sm"
  using assms unfolding paired_def by blast+

lemma ownedE:
  assumes "owned Z sm" "holds sm r fd"
  obtains c where "owner Z sm fd = Some c" "ref_ok r c"
  using assms unfolding owned_def by metis

text \<open>Dropping references, with the owners of the others in place.\<close>

lemma owned_subset:
  assumes "owned Z sm" "\<And>r fd. holds sm' r fd \<Longrightarrow> holds sm r fd"
    "\<And>r fd. holds sm' r fd \<Longrightarrow> owner Z' sm' fd = owner Z sm fd"
  shows "owned Z' sm'"
  unfolding owned_def by (metis assms ownedE)

lemma paired_subset:
  assumes "paired U sm"
    "\<And>pid fd. holds sm' (RefWatching pid) fd \<longleftrightarrow> holds sm (RefWatching pid) fd \<and> P pid fd"
    "\<And>pid fd. holds sm' (RefWatcher pid) fd \<longleftrightarrow> holds sm (RefWatcher pid) fd \<and> P pid fd"
    "\<And>fd. live fd sm' \<Longrightarrow> live fd sm"
  shows "paired U sm'"
  unfolding paired_def assms(2,3) using pairedD [OF assms(1)] assms(4) by blast

subsection \<open>Detaching\<close>

lemma detach_fields:
  "sm_registry (snd (detach e fd conn sm)) = snd (removeByFd fd (sm_registry sm))"
  "sm_watch_notifier (snd (detach e fd conn sm)) = sm_watch_notifier sm"
  "sm_topic_manager (snd (detach e fd conn sm)) = sm_topic_manager sm"
  "sm_pid_to_fds (snd (detach e fd conn sm)) = sm_pid_to_fds sm"
  "sm_pid_watchers (snd (detach e fd conn sm)) = sm_pid_watchers sm"
  "sm_watcher_to_pids (snd (detach e fd conn sm)) = sm_watcher_to_pids sm"
  "sm_server (snd (detach e fd conn sm)) = sm_server sm"
  "sm_seq_counter (snd (detach e fd conn sm)) = sm_seq_counter sm"
  "sm_dangling (snd (detach e fd conn sm)) = sm_dangling sm"
  by (simp_all add: detach_def Let_def drop_session_def cancelSessionTimers_def sm_cancelTimer_def case_prod_unfold)

lemma detach_holds:
  assumes "registry_ok (sm_registry sm)"
  shows "holds (snd (detach e fd conn sm)) r fd' \<longleftrightarrow> holds sm r fd' \<and> \<not> (\<exists>n k. r = RefService n k \<and> fd' = fd)"
proof (cases r)
  case (RefService n k)
  obtain removed reg where "removeByFd fd (sm_registry sm) = (removed, reg)" by force
  with removeByFd_spec(2) [OF assms this] RefService show ?thesis
    by (auto simp: holds.simps detach_fields split: option.splits if_splits)
qed (simp_all add: holds.simps detach_fields)

lemma detach_inv:
  assumes inv: "sm_inv Z U sm" and conn: "om_lookup (sm_clients sm) fd = Some conn"
  shows "sm_inv (Z(fd \<mapsto> conn)) U (snd (detach e fd conn sm))"
proof -
  let ?sm = "snd (detach e fd conn sm)"
  note d = sm_invD [OF inv] and h = detach_holds [OF sm_invD(1) [OF inv]]
  have live: "live fd' ?sm \<longleftrightarrow> live fd' sm \<and> fd' \<noteq> fd" for fd' by (simp add: live_def om_lookup_erase)
  have "registry_ok (sm_registry ?sm)"
    using removeByFd_spec(1) [OF d(1) surjective_pairing] by (simp add: detach_fields)
  then have "tables_ok ?sm" using d by (simp add: tables_ok_def detach_fields)
  moreover have "owned (Z(fd \<mapsto> conn)) ?sm"
    by (rule owned_subset [OF d(4)]) (auto simp: h owner_def om_lookup_erase conn split: option.splits)
  moreover have "paired U ?sm"
    by (rule paired_subset [OF d(5), where P = "\<lambda>_ _. True"]) (simp_all add: h live)
  moreover have "connected ?sm" using d(6) unfolding connected_def live by (simp add: detach_fields)
  ultimately show ?thesis by (simp add: sm_inv_def)
qed

subsection \<open>Dropping\<close>

lemma removePidFd_list:
  "list_at (sm_pid_to_fds (removePidFd pid fd sm)) pid' =
     (if pid' = pid then removeAll fd (list_at (sm_pid_to_fds sm) pid') else list_at (sm_pid_to_fds sm) pid')"
  by (auto simp: removePidFd_def Let_def list_at_update list_at_erase list_at_def om_lookup_update om_lookup_erase split: option.splits)

lemma removePidFd_rest [simp]:
  "sm_registry (removePidFd pid fd sm) = sm_registry sm" "sm_watch_notifier (removePidFd pid fd sm) = sm_watch_notifier sm"
  "sm_topic_manager (removePidFd pid fd sm) = sm_topic_manager sm" "sm_server (removePidFd pid fd sm) = sm_server sm"
  "sm_pid_watchers (removePidFd pid fd sm) = sm_pid_watchers sm" "sm_watcher_to_pids (removePidFd pid fd sm) = sm_watcher_to_pids sm"
  "sm_seq_counter (removePidFd pid fd sm) = sm_seq_counter sm" "sm_dangling (removePidFd pid fd sm) = sm_dangling sm"
  "sm_clients (removePidFd pid fd sm) = sm_clients sm"
  by (simp_all add: removePidFd_def Let_def split: option.splits)

lemma removePidFd_holds:
  "holds (removePidFd pid fd sm) r fd' \<longleftrightarrow> holds sm r fd' \<and> \<not> (r = RefPid pid \<and> fd' = fd)"
  by (cases r) (auto simp: holds.simps removePidFd_list)

lemma bucket_erase_members: "bucket (fold (\<lambda>w. bucket_erase w pid) ws m) w = (if w \<in> set ws then bucket m w - {pid} else bucket m w)"
  by (induction ws arbitrary: m) auto

lemma removeTargetWatchers_rest [simp]:
  "sm_registry (removeTargetWatchers pid sm) = sm_registry sm" "sm_watch_notifier (removeTargetWatchers pid sm) = sm_watch_notifier sm"
  "sm_topic_manager (removeTargetWatchers pid sm) = sm_topic_manager sm" "sm_server (removeTargetWatchers pid sm) = sm_server sm"
  "sm_pid_to_fds (removeTargetWatchers pid sm) = sm_pid_to_fds sm" "sm_clients (removeTargetWatchers pid sm) = sm_clients sm"
  "sm_seq_counter (removeTargetWatchers pid sm) = sm_seq_counter sm" "sm_dangling (removeTargetWatchers pid sm) = sm_dangling sm"
  by (simp_all add: removeTargetWatchers_def split: option.splits)

lemma removeTargetWatchers_holds:
  assumes "paired U sm"
  shows "holds (removeTargetWatchers pid sm) r fd \<longleftrightarrow> holds sm r fd \<and> r \<noteq> RefWatcher pid \<and> r \<noteq> RefWatching pid"
proof (cases r)
  case (RefWatcher p)
  then show ?thesis
    by (auto simp: holds.simps removeTargetWatchers_def list_at_erase list_at_def om_lookup_erase split: option.splits)
next
  case (RefWatching p)
  show ?thesis
    using pairedD(1) [OF assms, of pid fd] RefWatching
    by (auto simp: holds.simps removeTargetWatchers_def list_at_def bucket_erase_members split: option.splits)
qed (simp_all add: holds.simps)

text \<open>The watch table and the topic table lose what the descriptor has there.\<close>

definition drop_subscriptions :: "int \<Rightarrow> ('k, 'b) ServiceManagerApp \<Rightarrow> ('k, 'b) ServiceManagerApp" where
  "drop_subscriptions fd sm = sm\<lparr>sm_watch_notifier := watch_removeSubscriber fd (sm_watch_notifier sm),
     sm_topic_manager := snd (topics_removeByFd fd (sm_topic_manager sm))\<rparr>"

lemma drop_subscriptions_rest [simp]:
  "sm_registry (drop_subscriptions fd sm) = sm_registry sm" "sm_server (drop_subscriptions fd sm) = sm_server sm"
  "sm_pid_to_fds (drop_subscriptions fd sm) = sm_pid_to_fds sm" "sm_clients (drop_subscriptions fd sm) = sm_clients sm"
  "sm_pid_watchers (drop_subscriptions fd sm) = sm_pid_watchers sm"
  "sm_watcher_to_pids (drop_subscriptions fd sm) = sm_watcher_to_pids sm"
  "sm_seq_counter (drop_subscriptions fd sm) = sm_seq_counter sm" "sm_dangling (drop_subscriptions fd sm) = sm_dangling sm"
  by (simp_all add: drop_subscriptions_def)

fun subscription_ref :: "sm_ref \<Rightarrow> bool" where
  "subscription_ref (RefWatch _) = True"
| "subscription_ref (RefPublisher _ _ _) = True"
| "subscription_ref (RefSubscriber _ _ _) = True"
| "subscription_ref _ = False"

lemma drop_subscriptions_ok: "tables_ok sm \<Longrightarrow> tables_ok (drop_subscriptions fd sm)"
  using watch_removeSubscriber_spec(1) [of "sm_watch_notifier sm" fd]
    topic_step_inv [OF topic_step.close [OF surjective_pairing]]
  by (auto simp: tables_ok_def drop_subscriptions_def)

lemma drop_subscriptions_holds:
  assumes "tables_ok sm"
  shows "holds (drop_subscriptions fd sm) r fd' \<longleftrightarrow> holds sm r fd' \<and> \<not> (subscription_ref r \<and> fd' = fd)"
proof -
  have ok: "watch_ok (sm_watch_notifier sm)" "topic_wf UNIV UNIV (sm_topic_manager sm)"
    using assms by (simp_all add: tables_ok_def topic_inv_def)
  obtain ts tm where t: "topics_removeByFd fd (sm_topic_manager sm) = (ts, tm)" by force
  note sp = topics_removeByFd_spec [OF ok(2) t] and ws = watch_removeSubscriber_spec(2) [OF ok(1), of fd]
  show ?thesis
  proof (cases r)
    case (RefWatch i)
    then show ?thesis by (auto simp: holds.simps drop_subscriptions_def ws)
  next
    case (RefPublisher s tp k)
    then show ?thesis by (auto simp: holds.simps drop_subscriptions_def t sp(3) drop_if_Some)
  next
    case (RefSubscriber s tp k)
    then show ?thesis by (auto simp: holds.simps drop_subscriptions_def t sp(4))
  qed (simp_all add: holds.simps drop_subscriptions_def)
qed

lemma drop_tables_stages:
  "drop_tables fd conn sm =
     (let sm = drop_subscriptions fd sm;
          sm' = removePidFd (cc_pid conn) fd sm
      in if \<not> cc_runtime_registered conn then sm
         else if om_lookup (sm_pid_to_fds sm') (cc_pid conn) = None then removeTargetWatchers (cc_pid conn) sm' else sm')"
  by (simp add: drop_tables_def drop_subscriptions_def Let_def)

lemma drop_tables_holds:
  assumes "tables_ok sm" "paired U sm"
  shows "holds (drop_tables fd conn sm) r fd' \<Longrightarrow> holds sm r fd'"
    "subscription_ref r \<Longrightarrow> \<not> holds (drop_tables fd conn sm) r fd"
    "cc_runtime_registered conn \<Longrightarrow> \<not> holds (drop_tables fd conn sm) (RefPid (cc_pid conn)) fd"
    "paired U (drop_tables fd conn sm)"
proof -
  let ?s = "drop_subscriptions fd sm"
  note h = drop_subscriptions_holds [OF assms(1)]
  have ps: "paired U ?s" by (rule paired_subset [OF assms(2), where P = "\<lambda>_ _. True"]) (simp_all add: h live_def)
  have pp: "paired U (removePidFd p fd ?s)" for p
    by (rule paired_subset [OF ps, where P = "\<lambda>_ _. True"]) (simp_all add: removePidFd_holds live_def)
  have pt: "paired U (removeTargetWatchers p (removePidFd p fd ?s))" for p
    by (rule paired_subset [OF pp [of p], where P = "\<lambda>q _. q \<noteq> p"])
      (simp_all add: removeTargetWatchers_holds [OF pp] live_def)
  let ?p = "removePidFd (cc_pid conn) fd ?s"
  consider (plain) "\<not> cc_runtime_registered conn" "drop_tables fd conn sm = ?s"
    | (pid) "drop_tables fd conn sm = ?p"
    | (last) "drop_tables fd conn sm = removeTargetWatchers (cc_pid conn) ?p"
    unfolding drop_tables_stages Let_def by argo
  then show "holds (drop_tables fd conn sm) r fd' \<Longrightarrow> holds sm r fd'"
    "subscription_ref r \<Longrightarrow> \<not> holds (drop_tables fd conn sm) r fd"
    "cc_runtime_registered conn \<Longrightarrow> \<not> holds (drop_tables fd conn sm) (RefPid (cc_pid conn)) fd"
    "paired U (drop_tables fd conn sm)"
    by (cases, simp_all add: h removePidFd_holds removeTargetWatchers_holds [OF pp] ps pp pt)+
qed

lemma drop_tables_rest [simp]:
  "sm_registry (drop_tables fd conn sm) = sm_registry sm" "sm_server (drop_tables fd conn sm) = sm_server sm"
  "sm_seq_counter (drop_tables fd conn sm) = sm_seq_counter sm" "sm_dangling (drop_tables fd conn sm) = sm_dangling sm"
  by (simp_all add: drop_tables_stages Let_def)

lemma drop_tables_inv:
  assumes inv: "sm_inv Z U sm"
  shows "sm_inv Z U (drop_tables fd conn sm)"
proof -
  note d = sm_invD [OF inv]
  have ok: "tables_ok sm" using inv by (simp add: sm_inv_def)
  note h = drop_tables_holds [OF ok d(5), where fd = fd and conn = conn]
  have "tables_ok (drop_tables fd conn sm) = tables_ok (drop_subscriptions fd sm)"
    by (simp add: drop_tables_stages Let_def tables_ok_def)
  then have "tables_ok (drop_tables fd conn sm)" using drop_subscriptions_ok [OF ok] by simp
  moreover have "owned Z (drop_tables fd conn sm)"
    by (rule owned_subset [OF d(4)]) (simp_all add: h(1) owner_def)
  moreover have "connected (drop_tables fd conn sm)" using d(6) by (rule connected_keep) simp_all
  ultimately show ?thesis using h(4) by (simp add: sm_inv_def)
qed

subsection \<open>Stopping the watches\<close>

abbreviation forget_watching :: "int \<Rightarrow> ('k, 'b) ServiceManagerApp \<Rightarrow> ('k, 'b) ServiceManagerApp" where
  "forget_watching fd sm \<equiv> sm\<lparr>sm_watcher_to_pids := om_erase fd (sm_watcher_to_pids sm)\<rparr>"

lemma forget_holds:
  "holds (forget_watching fd sm) r fd' \<longleftrightarrow> holds sm r fd' \<and> \<not> ((\<exists>pid. r = RefWatching pid) \<and> fd' = fd)"
  by (cases r) (auto simp: holds.simps)

lemma forget_inv:
  assumes inv: "sm_inv Z U sm" and dead: "\<not> live fd sm"
  shows "sm_inv Z (insert fd U) (forget_watching fd sm)"
proof -
  let ?sm = "forget_watching fd sm"
  note d = sm_invD [OF inv]
  have "tables_ok ?sm" using d by (simp add: tables_ok_def)
  moreover have "owned Z ?sm" by (rule owned_subset [OF d(4)]) (simp_all add: forget_holds owner_def)
  moreover have "paired (insert fd U) ?sm"
  proof -
    have live: "live fd' ?sm = live fd' sm" for fd' by (simp add: live_def)
    show ?thesis unfolding paired_def forget_holds live using pairedD [OF d(5)] dead by blast
  qed
  moreover have "connected ?sm" using d(6) by (rule connected_keep) simp_all
  ultimately show ?thesis by (simp add: sm_inv_def)
qed

lemma stopTarget_stops:
  assumes close: "\<And>fd sm. inv_rel Z U sm (close fd sm)" and fd: "fd \<in> U" and inv: "sm_inv Z U sm"
  shows "\<not> holds (stopTargetIfUnwatched e close pid fd sm) (RefWatcher pid) fd"
proof -
  obtain b sm1 where u: "unwatch pid fd sm = (b, sm1)" by force
  have 1: "\<not> holds sm1 (RefWatcher pid) fd" using unwatch_holds [of pid fd sm "RefWatcher pid" fd] u by simp
  have inv1: "sm_inv Z U sm1" using inv_relD(1) [OF unwatch_inv [OF fd] inv, of pid] u by simp
  have "inv_rel Z U sm1 (sendDiagWatchStopToPid e close pid fd sm1)"
    by (rule inv.sendDiagWatchStopToPid_frame) (rule close)
  from inv_relD(2) [OF this inv1] 1 have "\<not> holds (sendDiagWatchStopToPid e close pid fd sm1) (RefWatcher pid) fd" by blast
  with 1 u show ?thesis by (simp add: stopTargetIfUnwatched_def split: bool.splits)
qed

lemma stop_loop:
  assumes close: "\<And>fd sm. inv_rel Z U sm (close fd sm)" and fd: "fd \<in> U" and inv: "sm_inv Z U sm"
  shows "sm_inv Z U (fold (\<lambda>pid. stopTargetIfUnwatched e close pid fd) pids sm)"
    "holds (fold (\<lambda>pid. stopTargetIfUnwatched e close pid fd) pids sm) r fd' \<Longrightarrow> holds sm r fd'"
    "pid \<in> set pids \<Longrightarrow> \<not> holds (fold (\<lambda>pid. stopTargetIfUnwatched e close pid fd) pids sm) (RefWatcher pid) fd"
proof -
  have rel: "inv_rel Z U sm (fold (\<lambda>pid. stopTargetIfUnwatched e close pid fd) pids sm)" for pids sm
    by (simp add: inv.fold_frame inv.stopTargetIfUnwatched_frame close fd)
  show "sm_inv Z U (fold (\<lambda>pid. stopTargetIfUnwatched e close pid fd) pids sm)"
    "holds (fold (\<lambda>pid. stopTargetIfUnwatched e close pid fd) pids sm) r fd' \<Longrightarrow> holds sm r fd'"
    using inv_relD [OF rel inv] by blast+
  show "pid \<in> set pids \<Longrightarrow> \<not> holds (fold (\<lambda>pid. stopTargetIfUnwatched e close pid fd) pids sm) (RefWatcher pid) fd"
    using inv
  proof (induction pids arbitrary: sm)
    case (Cons p pids)
    let ?sm = "stopTargetIfUnwatched e close p fd sm"
    have "inv_rel Z U sm ?sm" by (rule inv.stopTargetIfUnwatched_frame [OF _ fd]) (rule close)
    from inv_relD(1) [OF this Cons.prems(2)] have inv': "sm_inv Z U ?sm" .
    show ?case
    proof (cases "pid = p")
      case True
      then have "\<not> holds ?sm (RefWatcher pid) fd" using stopTarget_stops [OF close fd Cons.prems(2)] by simp
      then show ?thesis using inv_relD(2) [OF rel inv'] by fastforce
    next
      case False
      then show ?thesis using Cons.IH [OF _ inv'] Cons.prems(1) by simp
    qed
  qed simp
qed

lemma removeWatcher_inv:
  assumes close: "\<And>fd' sm. inv_rel Z (insert fd U) sm (close fd' sm)"
    and inv: "sm_inv Z U sm" and dead: "\<not> live fd sm" "fd \<notin> U"
    and res: "sm' = removeWatcherAndMaybeStopTargets e close fd sm"
  shows "sm_inv Z (insert fd U) sm'" "holds sm' r fd' \<Longrightarrow> holds sm r fd'"
    "\<not> holds sm' (RefWatcher pid) fd" "\<not> holds sm' (RefWatching pid) fd"
proof -
  define pids where "pids = (case om_lookup (sm_watcher_to_pids sm) fd of None \<Rightarrow> [] | Some s \<Rightarrow> om_keys s)"
  have set_pids: "set pids = bucket (sm_watcher_to_pids sm) fd" unfolding pids_def by (rule set_bucket_keys)
  have sm': "sm' = fold (\<lambda>pid. stopTargetIfUnwatched e close pid fd) pids (forget_watching fd sm)"
    by (simp add: res removeWatcherAndMaybeStopTargets_def pids_def om_erase_absent split: option.splits)
  note loop = stop_loop [where e = e and pids = pids and close = close, OF close insertI1 forget_inv [OF inv dead(1)], folded sm']
  show "sm_inv Z (insert fd U) sm'" by (rule loop(1))
  have sub': "holds (forget_watching fd sm) r fd'" if "holds sm' r fd'" for r fd'
    using that by (rule loop(2))
  then show sub: "holds sm' r fd' \<Longrightarrow> holds sm r fd'" for r fd'
    using forget_holds [of fd sm r fd'] by blast
  show "\<not> holds sm' (RefWatching pid) fd"
    using sub' [of "RefWatching pid" fd] forget_holds [of fd sm "RefWatching pid" fd] by blast
  show "\<not> holds sm' (RefWatcher pid) fd"
  proof
    assume h: "holds sm' (RefWatcher pid) fd"
    then have "holds sm (RefWatching pid) fd" using sub pairedD(3) [OF sm_invD(5) [OF inv]] dead(2) by blast
    then have "pid \<in> set pids" by (simp add: set_pids holds.simps)
    then show False using loop(3) h by blast
  qed
qed

subsection \<open>Closing\<close>

lemma sm_removeClient_fields [simp]: "tables (sm_removeClient e fd sm) = tables sm"
  by (auto simp: tables_def sm_removeClient_def split: option.splits prod.splits)

lemma release_inv:
  assumes "\<not> live fd sm"
  shows "inv_rel Z U sm (sm_removeClient e fd sm)"
proof (rule inv_rel_quiet)
  show "connected (sm_removeClient e fd sm)" if c: "connected sm"
  proof (cases "sm_server sm")
    case (Some s)
    obtain s' k' where r: "removeClient (env_ops e) fd (s, sm_kernel sm) = (s', k')" by force
    have "om_lookup (ep_clients s') fd' = (if fd' = fd then None else om_lookup (ep_clients s) fd')" for fd'
      using r by (auto simp: removeClient_def om_lookup_erase split: option.splits)
    then show ?thesis using c assms Some r by (auto simp: connected_def sm_removeClient_def live_def)
  qed (use c in \<open>simp add: sm_removeClient_def\<close>)
qed (simp_all add: conns_same_keep)

lemma finish_inv:
  assumes inv: "sm_inv (Z(fd \<mapsto> conn)) (insert fd U) sm" and none: "nothing_held sm fd"
  shows "sm_inv Z U sm"
proof -
  note d = sm_invD [OF inv]
  have "owned Z sm"
  proof (rule owned_subset [OF d(4)])
    show "owner Z sm fd' = owner (Z(fd \<mapsto> conn)) sm fd'" if "holds sm r fd'" for r fd'
      using none that by (auto simp: nothing_held_def owner_def split: option.splits)
  qed
  moreover have "paired U sm"
    using pairedD [OF d(5)] none unfolding paired_def nothing_held_def by blast
  ultimately show ?thesis using inv by (simp add: sm_inv_def)
qed

text \<open>After the tables are dropped and the watches stopped nothing is left under the descriptor.\<close>

lemma close_nothing_held:
  assumes own: "owned Z sm2" "Z fd = Some conn" "\<not> live fd sm2"
    and ok: "tables_ok sm2" "paired U sm2" and serv: "\<And>n k. \<not> holds sm2 (RefService n k) fd"
    and sub: "\<And>r. holds sm3 r fd \<Longrightarrow> holds (drop_tables fd conn sm2) r fd"
    and watch: "\<And>pid. \<not> holds sm3 (RefWatcher pid) fd" "\<And>pid. \<not> holds sm3 (RefWatching pid) fd"
  shows "nothing_held sm3 fd"
  unfolding nothing_held_def
proof (intro allI notI)
  fix r
  assume r: "holds sm3 r fd"
  note h = drop_tables_holds [OF ok, where fd = fd and conn = conn]
  have r2: "holds sm2 r fd" by (rule h(1) [OF sub [OF r]])
  show False
  proof (cases r)
    case (RefPid pid)
    have "owner Z sm2 fd = Some conn" using own(2,3) by (simp add: owner_def live_def)
    with ownedE [OF own(1) r2] RefPid have "cc_runtime_registered conn" "pid = cc_pid conn" by auto
    with h(3) sub [OF r] RefPid show False by simp
  qed (use r2 serv watch r h(2) [of r] sub [OF r] in auto)
qed

lemma close_body_inv:
  assumes close: "\<And>Z U fd sm. inv_rel Z U sm (close fd sm)" and inv: "sm_inv Z U sm"
    and conn: "om_lookup (sm_clients sm) fd = Some conn"
  shows "sm_inv Z U (close_body e close fd notify sm)"
    "holds (close_body e close fd notify sm) r fd' \<Longrightarrow> holds sm r fd'"
    "nothing_held (close_body e close fd notify sm) fd"
proof -
  let ?Z = "Z(fd \<mapsto> conn)"
  obtain removed sm1 where d: "detach e fd conn sm = (removed, sm1)" by force
  define sm2 where "sm2 = (if notify then fold (notifyServiceRemoved e close) removed sm1 else sm1)"
  define sm3 where "sm3 = removeWatcherAndMaybeStopTargets e close fd (drop_tables fd conn sm2)"
  have fdU: "fd \<notin> U" using pairedD(4) [OF sm_invD(5) [OF inv]] conn by (auto simp: live_def)
  have inv1: "sm_inv ?Z U sm1" using detach_inv [OF inv conn, of e] d by simp
  have dead1: "\<not> live fd sm1" using arg_cong [OF d, of snd] detach_clients [of e fd conn sm] by (simp add: live_def)
  have h1: "holds sm1 r fd' \<longleftrightarrow> holds sm r fd' \<and> \<not> (\<exists>n k. r = RefService n k \<and> fd' = fd)" for r fd'
    using detach_holds [OF sm_invD(1) [OF inv], of e fd conn r fd'] d by simp
  have notify_rel: "inv_rel ?Z U sm (notifyServiceRemoved e close i sm)" for i sm
    by (rule inv.notifyServiceRemoved_frame) (rule close)
  have rel2: "inv_rel ?Z U sm1 sm2" unfolding sm2_def by (simp add: inv.refl inv.fold_frame notify_rel)
  note inv2 = inv_relD(1) [OF rel2 inv1]
  have dead2: "\<not> live fd sm2" using inv.clients [OF rel2] dead1 by blast
  have deadt: "\<not> live fd (drop_tables fd conn sm2)" using dead2 by (simp add: live_def)
  have close': "inv_rel ?Z (insert fd U) sm (close fd' sm)" for fd' sm by (rule close)
  note inv3 = removeWatcher_inv [where close = close, OF close' drop_tables_inv [OF inv2] deadt fdU sm3_def]
  have ok2: "tables_ok sm2" "paired U sm2" using inv2 by (simp_all add: sm_inv_def)
  have held: "nothing_held sm3 fd"
  proof (rule close_nothing_held [OF sm_invD(4) [OF inv2] _ dead2 ok2])
    show "\<not> holds sm2 (RefService n k) fd" for n k using inv_relD(2) [OF rel2 inv1] h1 by blast
  qed (use inv3 in auto)
  have shrink3: "conns_shrink (drop_tables fd conn sm2) sm3"
    unfolding sm3_def by (rule survivors.removeWatcher_frame) (use close in \<open>auto simp: inv_rel_def\<close>)
  have dead3: "\<not> live fd sm3" using conns_shrink_live [OF shrink3] deadt by blast
  have cb: "close_body e close fd notify sm = sm_removeClient e fd sm3"
    by (simp add: close_body_def conn d sm2_def sm3_def Let_def)
  have h: "holds (sm_removeClient e fd sm3) r fd' = holds sm3 r fd'" for r fd' by (rule tables_holds) simp
  show "sm_inv Z U (close_body e close fd notify sm)"
    unfolding cb by (rule inv_relD(1) [OF release_inv [OF dead3] finish_inv [OF inv3(1) held]])
  show "holds (close_body e close fd notify sm) r fd' \<Longrightarrow> holds sm r fd'"
    unfolding cb h
    using inv3(2) drop_tables_holds(1) [OF ok2] inv_relD(2) [OF rel2 inv1] h1 by blast
  show "nothing_held (close_body e close fd notify sm) fd"
    using held by (simp add: cb nothing_held_def h)
qed

lemma closeClient_fuel_inv: "inv_rel Z U sm (closeClient_fuel e n fd notify sm)"
proof (induction n arbitrary: Z U fd notify sm)
  case (Suc n)
  show ?case
  proof (cases "om_lookup (sm_clients sm) fd")
    case None
    then show ?thesis by (simp add: close_body_def inv.refl)
  next
    case (Some conn)
    have "conns_shrink sm (closeClient_fuel e (Suc n) fd notify sm)" by (rule survivors.closeClient_fuel_frame)
    with close_body_inv(1,2) [where close = "\<lambda>fd. closeClient_fuel e n fd True", OF Suc _ Some, where e = e]
    show ?thesis by (simp add: inv_rel_def)
  qed
qed (simp add: inv.refl)

lemma closeClient_inv: "inv_rel Z U sm (closeClient e fd notify sm)"
  unfolding closeClient_def by (rule closeClient_fuel_inv)

text \<open>A closed connection is gone from all tables.\<close>

lemma closeClient_gone:
  assumes inv: "sm_inv Z U sm" and live: "live fd sm"
  shows "nothing_held (closeClient e fd notify sm) fd"
proof -
  obtain conn where conn: "om_lookup (sm_clients sm) fd = Some conn" using live by (auto simp: live_def)
  show ?thesis unfolding closeClient_unfold [of e fd notify sm]
    by (rule close_body_inv(3) [OF closeClient_inv inv conn])
qed

lemma closeClient_dead: "\<not> live fd (closeClient e fd notify sm)"
proof (cases "om_lookup (sm_clients sm) fd")
  case None
  then show ?thesis by (simp add: closeClient_unfold [of e fd notify sm] close_body_def live_def)
next
  case (Some conn)
  let ?c = "\<lambda>fd. closeClient e fd True"
  obtain removed sm1 where d: "detach e fd conn sm = (removed, sm1)" by force
  define sm2 where "sm2 = (if notify then fold (notifyServiceRemoved e ?c) removed sm1 else sm1)"
  have "conns_shrink sm1 sm2"
    by (simp add: sm2_def survivors.refl survivors.fold_frame survivors.notifyServiceRemoved_frame survivors.closeClient_frame)
  moreover have "conns_shrink sm2 (drop_tables fd conn sm2)" by (rule survivors.dropping)
  moreover have "conns_shrink (drop_tables fd conn sm2) (removeWatcherAndMaybeStopTargets e ?c fd (drop_tables fd conn sm2))"
    by (rule survivors.removeWatcher_frame) (rule survivors.closeClient_frame)
  moreover have "\<not> live fd sm1" using arg_cong [OF d, of snd] detach_clients [of e fd conn sm] by (simp add: live_def)
  ultimately have "\<not> live fd (removeWatcherAndMaybeStopTargets e ?c fd (drop_tables fd conn sm2))"
    using conns_shrink_live by blast
  then show ?thesis
    by (simp add: closeClient_unfold [of e fd notify sm] close_body_def Some d sm2_def Let_def live_def)
qed

subsection \<open>What is registered elsewhere\<close>

text \<open>
  Beside the tables of \<open>holds\<close>, a descriptor is in \<open>endpoint_fds_\<close>, in the entries of the event loop, in
  the transports of the endpoint and, as a value, in \<open>runtime_sessions_\<close>; and a connection has timers.
  Sending and closing add nothing to any of these.
\<close>

definition has_transport :: "int \<Rightarrow> ('k, 'b) ServiceManagerApp \<Rightarrow> bool" where
  "has_transport fd sm \<longleftrightarrow> (\<exists>s. sm_server sm = Some s \<and> om_lookup (ep_clients s) fd \<noteq> None)"

definition armed :: "('k, 'b) ServiceManagerApp \<Rightarrow> sm_functor TimerEntry set" where
  "armed sm = set (live_timers (timers (sm_loop sm)))"

definition rest_shrinks :: "('k, 'b) ServiceManagerApp \<Rightarrow> ('k, 'b) ServiceManagerApp \<Rightarrow> bool" where
  "rest_shrinks sm sm' \<longleftrightarrow> (\<forall>fd. live fd sm' \<longrightarrow> live fd sm) \<and>
     (\<forall>fd. os_member (sm_endpoint_fds sm') fd \<longrightarrow> os_member (sm_endpoint_fds sm) fd) \<and>
     (\<forall>fd. om_lookup (fd_entries (sm_loop sm')) fd \<noteq> None \<longrightarrow> om_lookup (fd_entries (sm_loop sm)) fd \<noteq> None) \<and>
     (\<forall>k fd. om_lookup (sm_runtime_sessions sm') k = Some fd \<longrightarrow> om_lookup (sm_runtime_sessions sm) k = Some fd) \<and>
     (\<forall>fd. has_transport fd sm' \<longrightarrow> has_transport fd sm) \<and> armed sm' \<subseteq> armed sm"

lemma rest_shrinksD:
  assumes "rest_shrinks sm sm'"
  shows "live fd sm' \<Longrightarrow> live fd sm" "os_member (sm_endpoint_fds sm') fd \<Longrightarrow> os_member (sm_endpoint_fds sm) fd"
    "om_lookup (fd_entries (sm_loop sm)) fd = None \<Longrightarrow> om_lookup (fd_entries (sm_loop sm')) fd = None"
    "om_lookup (sm_runtime_sessions sm') k = Some fd \<Longrightarrow> om_lookup (sm_runtime_sessions sm) k = Some fd"
    "has_transport fd sm' \<Longrightarrow> has_transport fd sm" "t \<in> armed sm' \<Longrightarrow> t \<in> armed sm"
  using assms unfolding rest_shrinks_def by (blast, blast, metis, blast, blast, blast)

text \<open>Steps that touch none of it.\<close>

lemma rest_shrinks_same:
  "sm_clients sm' = sm_clients sm \<Longrightarrow> sm_endpoint_fds sm' = sm_endpoint_fds sm \<Longrightarrow> sm_loop sm' = sm_loop sm \<Longrightarrow>
   sm_runtime_sessions sm' = sm_runtime_sessions sm \<Longrightarrow> sm_server sm' = sm_server sm \<Longrightarrow> rest_shrinks sm sm'"
  by (simp add: rest_shrinks_def live_def has_transport_def armed_def)

lemma cancel_in_live: "t \<in> set (live_timers (cancel_in i ts)) \<Longrightarrow> t \<in> set (live_timers ts)"
  by (induction ts) (auto simp: live_timers_def split: if_splits)

lemma cancel_in_gone:
  "distinct (map t_id ts) \<Longrightarrow> t \<in> set (live_timers (cancel_in i ts)) \<Longrightarrow> t_id t \<noteq> i"
proof (induction ts)
  case (Cons x ts)
  show ?case
  proof (cases "t_id x = i")
    case True
    with Cons.prems have "t \<in> set ts" by (simp add: live_timers_def)
    then have "t_id t \<in> t_id ` set ts" by simp
    with Cons.prems(1) True show ?thesis by auto
  next
    case False
    with Cons show ?thesis by (cases "t = x") (simp_all add: live_timers_def split: if_splits)
  qed
qed (simp add: live_timers_def)

lemma cancel_in_ids [simp]: "map t_id (cancel_in i ts) = map t_id ts"
  by (induction ts) auto

lemma cancel_armed: "armed (sm_cancelTimer i sm) \<subseteq> armed sm"
  using cancel_in_live by (auto simp: sm_cancelTimer_def cancelTimer_def armed_def)

lemma cancelSessionTimers_armed:
  "armed (cancelSessionTimers conn sm) \<subseteq> armed sm"
  "distinct (map t_id (timers (sm_loop sm))) \<Longrightarrow> t \<in> armed (cancelSessionTimers conn sm) \<Longrightarrow>
   (0 < cc_hello_timer_id conn \<longrightarrow> t_id t \<noteq> cc_hello_timer_id conn) \<and>
   (0 < cc_deadline_timer_id conn \<longrightarrow> t_id t \<noteq> cc_deadline_timer_id conn)"
proof -
  show "armed (cancelSessionTimers conn sm) \<subseteq> armed sm"
    unfolding cancelSessionTimers_def using cancel_armed by (metis order_trans)
  assume d: "distinct (map t_id (timers (sm_loop sm)))" and t: "t \<in> armed (cancelSessionTimers conn sm)"
  let ?sm = "sm_cancelTimer (cc_hello_timer_id conn) sm"
  have d': "distinct (map t_id (timers (sm_loop ?sm)))" using d by (simp add: sm_cancelTimer_def cancelTimer_def)
  have "t \<in> armed ?sm" using t cancel_armed by (auto simp: cancelSessionTimers_def)
  moreover have "t_id t \<noteq> i" if "0 < i" "distinct (map t_id (timers (sm_loop s)))" "t \<in> armed (sm_cancelTimer i s)"
    for i and s :: "('a, 'b) ServiceManagerApp"
    using that cancel_in_gone [of "timers (sm_loop s)" t i] by (simp add: armed_def sm_cancelTimer_def cancelTimer_def)
  ultimately show "(0 < cc_hello_timer_id conn \<longrightarrow> t_id t \<noteq> cc_hello_timer_id conn) \<and>
      (0 < cc_deadline_timer_id conn \<longrightarrow> t_id t \<noteq> cc_deadline_timer_id conn)"
    using d d' t by (auto simp: cancelSessionTimers_def)
qed

lemma loop_modifyFd_rest:
  "om_lookup (fd_entries (loop_modifyFd ops fd evs l)) fd' = None \<longleftrightarrow> om_lookup (fd_entries l) fd' = None"
  "timers (loop_modifyFd ops fd evs l) = timers l"
  by (auto simp: loop_modifyFd_def Let_def om_lookup_update split: option.splits)

lemma loop_removeFd_rest:
  "om_lookup (fd_entries (loop_removeFd ops fd l)) fd' = (if fd' = fd then None else om_lookup (fd_entries l) fd')"
  "timers (loop_removeFd ops fd l) = timers l"
  by (auto simp: loop_removeFd_def om_lookup_erase split: option.splits)

text \<open>What \<open>detach\<close> leaves of it.\<close>

lemma detach_rest:
  "sm_endpoint_fds (snd (detach e fd conn sm)) = om_erase fd (sm_endpoint_fds sm)"
  "sm_runtime_sessions (snd (detach e fd conn sm)) = sm_runtime_sessions (drop_session fd (cc_session_key conn) sm)"
  "om_lookup (fd_entries (sm_loop (snd (detach e fd conn sm)))) fd' =
     (if fd' = fd then None else om_lookup (fd_entries (sm_loop sm)) fd')"
  "armed (snd (detach e fd conn sm)) = armed (cancelSessionTimers conn sm)"
  by (simp_all add: detach_def Let_def drop_session_def cancelSessionTimers_def sm_cancelTimer_def cancelTimer_def
      loop_removeFd_rest armed_def case_prod_unfold)

interpretation rest: closing_frame rest_shrinks e for e :: "('k, 'b) SmEnv"
proof
  show "rest_shrinks sm sm" for sm :: "('k, 'b) ServiceManagerApp" by (rule rest_shrinks_same) simp_all
  show "rest_shrinks sm1 sm3" if "rest_shrinks sm1 sm2" "rest_shrinks sm2 sm3" for sm1 sm2 sm3 :: "('k, 'b) ServiceManagerApp"
    using that unfolding rest_shrinks_def by blast
  show "live fd sm" if "rest_shrinks sm sm'" "live fd sm'" for sm sm' :: "('k, 'b) ServiceManagerApp" and fd
    using rest_shrinksD(1) [OF that] .
  show "rest_shrinks sm (snd (nextSMProactiveSequence sm))" for sm :: "('k, 'b) ServiceManagerApp"
    by (rule rest_shrinks_same) (simp_all add: nextSMProactiveSequence_def Let_def)
  show "rest_shrinks sm (sm_modifyFd e fd evs sm)" for sm :: "('k, 'b) ServiceManagerApp" and fd evs
    by (simp add: rest_shrinks_def sm_modifyFd_def live_def has_transport_def armed_def loop_modifyFd_rest)
  show "rest_shrinks sm (snd (transport_send e fd data sm))" for sm :: "('k, 'b) ServiceManagerApp" and fd data
    by (auto simp: rest_shrinks_def transport_send_def live_def has_transport_def armed_def om_lookup_update
        split: option.splits prod.splits if_splits)
  show "rest_shrinks sm (put_conn fd (conn\<lparr>cc_send_buffer := b, cc_send_offset := n\<rparr>) sm)"
    if "om_lookup (sm_clients sm) fd = Some conn" for sm :: "('k, 'b) ServiceManagerApp" and fd conn b n
    using that by (simp add: rest_shrinks_def put_conn_def live_def has_transport_def armed_def om_lookup_update)
  show "rest_shrinks sm (snd (unwatch pid fd sm))" for sm :: "('k, 'b) ServiceManagerApp" and pid fd
    by (rule rest_shrinks_same) (auto simp: unwatch_def Let_def split: option.splits)
  show "rest_shrinks sm (snd (detach e fd conn sm))" for sm :: "('k, 'b) ServiceManagerApp" and fd conn
    using cancelSessionTimers_armed(1)
    by (auto simp: rest_shrinks_def detach_rest detach_fields live_def has_transport_def om_lookup_erase drop_session_def
        split: if_splits)
  show "rest_shrinks sm (drop_tables fd conn sm)" for sm :: "('k, 'b) ServiceManagerApp" and fd conn
    by (rule rest_shrinks_same)
      (auto simp: drop_tables_def Let_def removePidFd_def removeTargetWatchers_def split: option.splits)
  show "rest_shrinks sm (sm\<lparr>sm_watcher_to_pids := om_erase fd (sm_watcher_to_pids sm)\<rparr>)"
    for sm :: "('k, 'b) ServiceManagerApp" and fd by (rule rest_shrinks_same) simp_all
  show "rest_shrinks sm (sm_removeClient e fd sm)" for sm :: "('k, 'b) ServiceManagerApp" and fd
    by (auto simp: rest_shrinks_def sm_removeClient_def removeClient_def live_def has_transport_def armed_def om_lookup_erase
        split: option.splits prod.splits if_splits)
qed

text \<open>A closed connection is gone from there as well, up to sessions filed under an earlier key.\<close>

lemma closeClient_rest:
  assumes conn: "om_lookup (sm_clients sm) fd = Some conn" and res: "sm' = closeClient e fd notify sm"
  shows "\<not> os_member (sm_endpoint_fds sm') fd" "om_lookup (fd_entries (sm_loop sm')) fd = None" "\<not> has_transport fd sm'"
    "cc_session_key conn \<noteq> [] \<Longrightarrow> om_lookup (sm_runtime_sessions sm') (cc_session_key conn) \<noteq> Some fd"
    "armed sm' \<subseteq> armed (cancelSessionTimers conn sm)" "rest_shrinks sm sm'"
proof -
  let ?c = "\<lambda>fd. closeClient e fd True"
  define sm1 where "sm1 = snd (detach e fd conn sm)"
  define sm2 where "sm2 = (if notify then fold (notifyServiceRemoved e ?c) (fst (detach e fd conn sm)) sm1 else sm1)"
  define sm3 where "sm3 = removeWatcherAndMaybeStopTargets e ?c fd (drop_tables fd conn sm2)"
  have sm': "sm' = sm_removeClient e fd sm3"
    by (simp add: res closeClient_unfold [of e fd notify sm] close_body_def conn sm1_def sm2_def sm3_def Let_def case_prod_unfold)
  note cl = rest.closeClient_frame
  have 2: "rest_shrinks sm1 sm2"
    by (simp add: sm2_def rest.refl rest.fold_frame rest.notifyServiceRemoved_frame cl)
  have 3: "rest_shrinks (drop_tables fd conn sm2) sm3"
    unfolding sm3_def by (rule rest.removeWatcher_frame) (rule cl)
  note t = rest.trans
  have r: "rest_shrinks sm1 sm'"
    unfolding sm' by (rule t [OF t [OF t [OF 2 rest.dropping] 3] rest.releasing])
  note d = rest_shrinksD [OF r] and e1 = detach_rest [of e fd conn sm, folded sm1_def]
  show "\<not> os_member (sm_endpoint_fds sm') fd" using d(2) by (auto simp: e1(1))
  show "om_lookup (fd_entries (sm_loop sm')) fd = None" by (rule d(3)) (simp add: e1(3))
  show "\<not> has_transport fd sm'"
    by (auto simp: sm' has_transport_def sm_removeClient_def removeClient_def om_lookup_erase split: option.splits prod.splits)
  show "om_lookup (sm_runtime_sessions sm') (cc_session_key conn) \<noteq> Some fd" if "cc_session_key conn \<noteq> []"
  proof
    assume "om_lookup (sm_runtime_sessions sm') (cc_session_key conn) = Some fd"
    from d(4) [OF this] that show False by (auto simp: e1(2) drop_session_def om_lookup_erase split: if_splits)
  qed
  show "armed sm' \<subseteq> armed (cancelSessionTimers conn sm)" using d(6) by (auto simp: e1(4))
  show "rest_shrinks sm sm'" using rest.closeClient_frame by (simp add: res)
qed

end
