(* ===== verification/SMRequests.thy ===== *)
theory SMRequests
  imports SMClosing
begin

section \<open>The service manager: registry, watch and topic requests\<close>

text \<open>
  service_manager/sm_registry.cpp, sm_topic.cpp and sm_parse_helpers.h. A handler takes the descriptor
  that stands for its \<open>ClientConnection*\<close> and the message. Fields of the connection are read through
  \<open>with_conn\<close>; a plain \<open>conn->fd\<close> after a call that may have closed the connection is \<open>touch_conn\<close>.
\<close>

definition touch_conn :: "int \<Rightarrow> ('k, 'b) ServiceManagerApp \<Rightarrow> ('k, 'b) ServiceManagerApp" where
  "touch_conn fd = with_conn fd (\<lambda>_ sm. sm)"

abbreviation reply :: "('k, 'b) SmEnv \<Rightarrow> int \<Rightarrow> Message \<Rightarrow> ('k, 'b) ServiceManagerApp \<Rightarrow> ('k, 'b) ServiceManagerApp" where
  "reply e \<equiv> sendMessage e (\<lambda>fd. closeClient e fd True)"

abbreviation notify_watch ::
    "('k, 'b) SmEnv \<Rightarrow> ServiceIdentity \<Rightarrow> bool \<Rightarrow> ('k, 'b) ServiceManagerApp \<Rightarrow> ('k, 'b) ServiceManagerApp" where
  "notify_watch e \<equiv> notifyServiceWatch e (\<lambda>fd. closeClient e fd True)"

text \<open>\<open>BufferView(msg.payload.data(), msg.payload.size())\<close> and the \<open>Buffer\<close> made from the same bytes.\<close>

definition payload_view :: "Message \<Rightarrow> BufferView" where
  "payload_view msg = view_of (Buffer_content (m_payload msg))"

definition payload_copy :: "('k, 'b) SmEnv \<Rightarrow> Message \<Rightarrow> BufferView" where
  "payload_copy e msg = Buffer_view (Buffer_from (env_alloc e) (Buffer_content (m_payload msg)))"

text \<open>\<open>if (!serialize(...)) return;\<close> in a row: \<open>None\<close> at the first failure.\<close>

fun msg_try :: "('k, 'b) SmEnv \<Rightarrow> writer list \<Rightarrow> Message \<Rightarrow> Message option" where
  "msg_try e [] m = Some m"
| "msg_try e (w # ws) m =
     (case w (env_alloc e) (m_payload m) of
        (False, _) \<Rightarrow> None
      | (True, b) \<Rightarrow> msg_try e ws (m\<lparr>m_payload := b\<rparr>))"

definition reply_if ::
    "('k, 'b) SmEnv \<Rightarrow> int \<Rightarrow> Message option \<Rightarrow> ('k, 'b) ServiceManagerApp \<Rightarrow> ('k, 'b) ServiceManagerApp" where
  "reply_if e fd m sm = (case m of None \<Rightarrow> sm | Some m \<Rightarrow> reply e fd m sm)"

definition tryReadStringArg :: "Message \<Rightarrow> string option" where
  "tryReadStringArg msg = fst (tryReadString (payload_view msg))"

definition tryReadExactStringArg :: "Message \<Rightarrow> nat \<Rightarrow> string option" where
  "tryReadExactStringArg msg max_length =
     (case tryReadString (payload_view msg) of
        (None, _) \<Rightarrow> None
      | (Some s, v) \<Rightarrow> if s \<noteq> [] \<and> length s \<le> max_length \<and> view_remaining v = 0 then Some s else None)"

definition tryReadExactTopicArg :: "Message \<Rightarrow> string option" where
  "tryReadExactTopicArg msg = tryReadExactStringArg msg MAX_TOPIC_NAME_LENGTH"

definition sendBoolReply ::
    "('k, 'b) SmEnv \<Rightarrow> int \<Rightarrow> MessageType \<Rightarrow> u32 \<Rightarrow> bool \<Rightarrow> ('k, 'b) ServiceManagerApp \<Rightarrow> ('k, 'b) ServiceManagerApp" where
  "sendBoolReply e fd type seq ok = reply e fd (msg_put e (writeBool ok) (Message_new type seq))"

abbreviation seq_of :: "Message \<Rightarrow> u32" where
  "seq_of msg \<equiv> h_sequence (m_header msg)"

subsection \<open>Registration\<close>

definition sendRegisterReply ::
    "('k, 'b) SmEnv \<Rightarrow> int \<Rightarrow> u32 \<Rightarrow> u32 \<Rightarrow> ('k, 'b) ServiceManagerApp \<Rightarrow> ('k, 'b) ServiceManagerApp" where
  "sendRegisterReply e fd seq hdl = reply e fd (msg_put e (writeUint32 hdl) (Message_new MSG_REGISTER_REPLY seq))"

definition identity_of :: "ServiceInfo \<Rightarrow> ServiceIdentity" where
  "identity_of info = \<lparr>id_name = si_name info, id_host_id = si_host_id info, id_instance_id = si_instance_id info\<rparr>"

text \<open>The last part of \<open>handleRegister\<close>: the connection whose instance was taken over.\<close>

definition retire_displaced ::
    "('k, 'b) SmEnv \<Rightarrow> string \<Rightarrow> int \<Rightarrow> int \<Rightarrow> ('k, 'b) ServiceManagerApp \<Rightarrow> ('k, 'b) ServiceManagerApp" where
  "retire_displaced e name displaced_fd new_fd sm =
     (if 0 \<le> displaced_fd \<and> displaced_fd \<noteq> new_fd \<and> live displaced_fd sm then
        let sm = sm\<lparr>sm_topic_manager := snd (removePublishersByService name displaced_fd (sm_topic_manager sm))\<rparr> in
        if listServiceNamesByFd displaced_fd (sm_registry sm) = [] then closeClient e displaced_fd True sm else sm
      else sm)"

definition handleRegister ::
    "('k, 'b) SmEnv \<Rightarrow> int \<Rightarrow> Message \<Rightarrow> ('k, 'b) ServiceManagerApp \<Rightarrow> ('k, 'b) ServiceManagerApp" where
  "handleRegister e fd msg = with_conn fd (\<lambda>conn sm.
     if \<not> cc_hello_received conn then sendRegisterReply e fd (seq_of msg) INVALID_HANDLE sm
     else
       case fst (deserializeServiceInfo (payload_copy e msg)) of
         None \<Rightarrow> sendRegisterReply e fd (seq_of msg) INVALID_HANDLE sm
       | Some info \<Rightarrow>
           let identity = identity_of info;
               old_entry = findServiceByIdentity identity (sm_registry sm);
               ((hdl, displaced_fd), reg) = addService info fd (sm_registry sm);
               sm = sm\<lparr>sm_registry := reg\<rparr>
           in if hdl = INVALID_HANDLE then sendRegisterReply e fd (seq_of msg) INVALID_HANDLE sm
              else
                let sm = sendRegisterReply e fd (seq_of msg) hdl sm;
                    sm = (case old_entry of
                            None \<Rightarrow> notify_watch e identity True sm
                          | Some old \<Rightarrow>
                              if se_control_fd old \<noteq> fd \<or> si_port (se_info old) \<noteq> si_port info
                                 \<or> si_host_id (se_info old) \<noteq> si_host_id info
                              then notify_watch e identity True (notify_watch e (identity_of (se_info old)) False sm)
                              else sm)
                in retire_displaced e (si_name info) displaced_fd fd sm)"

definition removeServiceAndNotify ::
    "('k, 'b) SmEnv \<Rightarrow> ServiceIdentity \<Rightarrow> int \<Rightarrow> ('k, 'b) ServiceManagerApp \<Rightarrow> bool \<times> ('k, 'b) ServiceManagerApp" where
  "removeServiceAndNotify e identity fd sm =
     (case removeServiceByIdentity identity (sm_registry sm) of
        (False, _) \<Rightarrow> (False, sm)
      | (True, reg) \<Rightarrow>
          let sm = notifyServiceRemoved e (\<lambda>fd. closeClient e fd True) identity (sm\<lparr>sm_registry := reg\<rparr>) in
          (True, if 0 \<le> fd
                 then sm\<lparr>sm_topic_manager := snd (removePublishersByService (id_name identity) fd (sm_topic_manager sm))\<rparr>
                 else sm))"

definition handleUnregister ::
    "('k, 'b) SmEnv \<Rightarrow> int \<Rightarrow> Message \<Rightarrow> ('k, 'b) ServiceManagerApp \<Rightarrow> ('k, 'b) ServiceManagerApp" where
  "handleUnregister e fd msg sm =
     (case tryReadStringArg msg of
        None \<Rightarrow> sendBoolReply e fd MSG_UNREGISTER_REPLY (seq_of msg) False sm
      | Some name \<Rightarrow>
          (case findServiceByFdAndName fd name (sm_registry sm) of
             None \<Rightarrow> sendBoolReply e fd MSG_UNREGISTER_REPLY (seq_of msg) False sm
           | Some entry \<Rightarrow>
               (case removeServiceAndNotify e (identity_of (se_info entry)) fd sm of
                  (success, sm) \<Rightarrow>
                    if success \<and> \<not> live fd sm then sm
                    else sendBoolReply e fd MSG_UNREGISTER_REPLY (seq_of msg) success sm)))"

definition sendControlHeartbeatAck ::
    "('k, 'b) SmEnv \<Rightarrow> int \<Rightarrow> u32 \<Rightarrow> ('k, 'b) ServiceManagerApp \<Rightarrow> ('k, 'b) ServiceManagerApp" where
  "sendControlHeartbeatAck e fd seq sm =
     reply e fd (msg_put e (writeUint32 (sm_incarnation sm)) (Message_new MSG_CONTROL_HEARTBEAT_ACK seq)) sm"

definition handleControlHeartbeat ::
    "('k, 'b) SmEnv \<Rightarrow> int \<Rightarrow> Message \<Rightarrow> ('k, 'b) ServiceManagerApp \<Rightarrow> ('k, 'b) ServiceManagerApp" where
  "handleControlHeartbeat e fd msg = with_conn fd (\<lambda>conn sm.
     if \<not> cc_hello_received conn then closeClient e fd True sm
     else
       case fst (tryReadUint32 (payload_view msg)) of
         None \<Rightarrow> closeClient e fd True sm
       | Some incarnation \<Rightarrow>
           if incarnation \<noteq> cc_incarnation_id conn then closeClient e fd True sm
           else
             case sm_now e sm of
               (now, sm) \<Rightarrow>
                 sendControlHeartbeatAck e fd (seq_of msg)
                   (armSessionDeadline e fd (put_conn fd (conn\<lparr>cc_last_heartbeat_ms := now\<rparr>) sm)))"

subsection \<open>Queries\<close>

definition sendLookupReply ::
    "('k, 'b) SmEnv \<Rightarrow> int \<Rightarrow> u32 \<Rightarrow> bool \<Rightarrow> ServiceInfo \<Rightarrow> ('k, 'b) ServiceManagerApp \<Rightarrow> ('k, 'b) ServiceManagerApp" where
  "sendLookupReply e fd seq found info =
     reply_if e fd (msg_try e (if found then [serializeServiceInfo info] else [])
       (msg_put e (writeBool found) (Message_new MSG_LOOKUP_REPLY seq)))"

definition handleLookup ::
    "('k, 'b) SmEnv \<Rightarrow> int \<Rightarrow> Message \<Rightarrow> ('k, 'b) ServiceManagerApp \<Rightarrow> ('k, 'b) ServiceManagerApp" where
  "handleLookup e fd msg sm =
     (case tryReadStringArg msg of
        None \<Rightarrow> sendLookupReply e fd (seq_of msg) False ServiceInfo_default sm
      | Some name \<Rightarrow>
          (case findService name (sm_registry sm) of
             None \<Rightarrow> sendLookupReply e fd (seq_of msg) False ServiceInfo_default sm
           | Some entry \<Rightarrow> sendLookupReply e fd (seq_of msg) True (se_info entry) sm))"

definition sendListInstancesReply ::
    "('k, 'b) SmEnv \<Rightarrow> int \<Rightarrow> u32 \<Rightarrow> bool \<Rightarrow> ServiceInfo list \<Rightarrow> ('k, 'b) ServiceManagerApp \<Rightarrow> ('k, 'b) ServiceManagerApp" where
  "sendListInstancesReply e fd seq found instances =
     reply_if e fd (msg_try e (if found then map serializeServiceInfo instances else [])
       (fold (msg_put e) [writeBool found, writeUint32 (of_nat (length instances))]
         (Message_new MSG_LIST_INSTANCES_REPLY seq)))"

definition handleListInstances ::
    "('k, 'b) SmEnv \<Rightarrow> int \<Rightarrow> Message \<Rightarrow> ('k, 'b) ServiceManagerApp \<Rightarrow> ('k, 'b) ServiceManagerApp" where
  "handleListInstances e fd msg sm =
     (case tryReadStringArg msg of
        None \<Rightarrow> sendListInstancesReply e fd (seq_of msg) False [] sm
      | Some name \<Rightarrow>
          let instances = listServiceInstances name (sm_registry sm)
          in sendListInstancesReply e fd (seq_of msg) (instances \<noteq> []) instances sm)"

text \<open>\<open>s.find(DIAG_SERVICE_NAME_PREFIX) == 0\<close>.\<close>

definition is_diag_name :: "string \<Rightarrow> bool" where
  "is_diag_name s \<longleftrightarrow> take (length DIAG_SERVICE_NAME_PREFIX) s = DIAG_SERVICE_NAME_PREFIX"

definition sendListServicesReply ::
    "('k, 'b) SmEnv \<Rightarrow> int \<Rightarrow> u32 \<Rightarrow> ServiceInfo list \<Rightarrow> ('k, 'b) ServiceManagerApp \<Rightarrow> ('k, 'b) ServiceManagerApp" where
  "sendListServicesReply e fd seq services =
     reply_if e fd (msg_try e (map serializeServiceInfo services)
       (msg_put e (writeUint32 (of_nat (length services))) (Message_new MSG_LIST_SERVICES_REPLY seq)))"

definition handleListServices ::
    "('k, 'b) SmEnv \<Rightarrow> int \<Rightarrow> Message \<Rightarrow> ('k, 'b) ServiceManagerApp \<Rightarrow> ('k, 'b) ServiceManagerApp" where
  "handleListServices e fd msg sm =
     sendListServicesReply e fd (seq_of msg)
       (filter (\<lambda>info. \<not> is_diag_name (si_name info)) (listServices (sm_registry sm))) sm"

definition sendQueryInterfacesReply ::
    "('k, 'b) SmEnv \<Rightarrow> int \<Rightarrow> u32 \<Rightarrow> bool \<Rightarrow> InterfaceInfo list \<Rightarrow> ('k, 'b) ServiceManagerApp \<Rightarrow> ('k, 'b) ServiceManagerApp" where
  "sendQueryInterfacesReply e fd seq found interfaces =
     (let m = msg_put e (writeBool found) (Message_new MSG_QUERY_INTERFACES_REPLY seq) in
      reply_if e fd
        (if found then msg_try e (map serializeInterfaceInfo interfaces) (msg_put e (writeUint32 (of_nat (length interfaces))) m)
         else Some m))"

definition handleQueryInterfaces ::
    "('k, 'b) SmEnv \<Rightarrow> int \<Rightarrow> Message \<Rightarrow> ('k, 'b) ServiceManagerApp \<Rightarrow> ('k, 'b) ServiceManagerApp" where
  "handleQueryInterfaces e fd msg sm =
     (case tryReadStringArg msg of
        None \<Rightarrow> sendQueryInterfacesReply e fd (seq_of msg) False [] sm
      | Some name \<Rightarrow>
          (case findService name (sm_registry sm) of
             None \<Rightarrow> sendQueryInterfacesReply e fd (seq_of msg) False [] sm
           | Some entry \<Rightarrow> sendQueryInterfacesReply e fd (seq_of msg) True (si_interfaces (se_info entry)) sm))"

subsection \<open>Service watches\<close>

text \<open>The loop that reads the filters: \<open>None\<close> where the request is refused.\<close>

fun read_filters :: "nat \<Rightarrow> ServiceWatchFilter list \<Rightarrow> BufferView \<Rightarrow> ServiceWatchFilter list option" where
  "read_filters 0 filters v = Some filters"
| "read_filters (Suc n) filters v =
     (case rbind tryReadString (\<lambda>name. rbind tryReadString (\<lambda>host_id. rbind tryReadString (\<lambda>instance_id.
             rret \<lparr>wf_service_name = name, wf_host_id = host_id, wf_instance_id = instance_id\<rparr>))) v of
        (None, _) \<Rightarrow> None
      | (Some f, v) \<Rightarrow>
          if wf_service_name f = [] \<or> MAX_SERVICE_NAME_LENGTH < length (wf_service_name f)
             \<or> MAX_SERVICE_NAME_LENGTH < length (wf_host_id f) \<or> MAX_SERVICE_NAME_LENGTH < length (wf_instance_id f)
          then None
          else if \<exists>g \<in> set filters. watch_overlaps g f then None
          else read_filters n (filters @ [f]) v)"

definition parse_watch :: "BufferView \<Rightarrow> (u64 \<times> ServiceWatchFilter list) option" where
  "parse_watch v =
     (case rbind tryReadUint64 (\<lambda>watch_id. rbind tryReadUint32 (\<lambda>count. rret (watch_id, count))) v of
        (None, _) \<Rightarrow> None
      | (Some (watch_id, count), v) \<Rightarrow>
          if watch_id = 0 \<or> count = 0 \<or> 64 < count then None
          else map_option (Pair watch_id) (read_filters (unat count) [] v))"

fun announce_instances ::
    "('k, 'b) SmEnv \<Rightarrow> int \<Rightarrow> u64 \<Rightarrow> ServiceIdentity list \<Rightarrow> ('k, 'b) ServiceManagerApp \<Rightarrow> ('k, 'b) ServiceManagerApp" where
  "announce_instances e fd watch_id [] sm = sm"
| "announce_instances e fd watch_id (i # is) sm =
     (let sm = touch_conn fd sm in
      if \<not> live fd sm then sm
      else announce_instances e fd watch_id is
             (sendServiceWatchNotify e (\<lambda>fd. closeClient e fd True) fd watch_id i True sm))"

definition sendInitialServiceWatch ::
    "('k, 'b) SmEnv \<Rightarrow> int \<Rightarrow> u64 \<Rightarrow> ServiceWatchFilter \<Rightarrow> ('k, 'b) ServiceManagerApp \<Rightarrow> ('k, 'b) ServiceManagerApp" where
  "sendInitialServiceWatch e fd watch_id f sm =
     (let matched = filter (watch_matches f) (map identity_of (listServiceInstances (wf_service_name f) (sm_registry sm)))
      in if matched \<noteq> [] then announce_instances e fd watch_id matched sm
         else
           let sm = touch_conn fd sm in
           if live fd sm
           then sendServiceWatchNotify e (\<lambda>fd. closeClient e fd True) fd watch_id
                  \<lparr>id_name = wf_service_name f, id_host_id = [], id_instance_id = wf_instance_id f\<rparr> False sm
           else sm)"

fun announce_filters ::
    "('k, 'b) SmEnv \<Rightarrow> int \<Rightarrow> u64 \<Rightarrow> ServiceWatchFilter list \<Rightarrow> ('k, 'b) ServiceManagerApp \<Rightarrow> ('k, 'b) ServiceManagerApp" where
  "announce_filters e fd watch_id [] sm = sm"
| "announce_filters e fd watch_id (f # fs) sm =
     (let sm = touch_conn fd sm in
      if \<not> live fd sm then sm
      else announce_filters e fd watch_id fs (sendInitialServiceWatch e fd watch_id f sm))"

definition handleSubscribeServiceWatch ::
    "('k, 'b) SmEnv \<Rightarrow> int \<Rightarrow> Message \<Rightarrow> ('k, 'b) ServiceManagerApp \<Rightarrow> ('k, 'b) ServiceManagerApp" where
  "handleSubscribeServiceWatch e fd msg sm =
     (case parse_watch (payload_view msg) of
        None \<Rightarrow> sendBoolReply e fd MSG_SUBSCRIBE_SERVICE_WATCH_REPLY (seq_of msg) False sm
      | Some (watch_id, filters) \<Rightarrow>
          (case watch_subscribe fd watch_id filters (sm_watch_notifier sm) of
             (accepted, wn) \<Rightarrow>
               let sm = sendBoolReply e fd MSG_SUBSCRIBE_SERVICE_WATCH_REPLY (seq_of msg) accepted
                          (sm\<lparr>sm_watch_notifier := wn\<rparr>)
               in if \<not> accepted then sm else announce_filters e fd watch_id filters sm))"

definition handleUnsubscribeServiceWatch ::
    "int \<Rightarrow> Message \<Rightarrow> ('k, 'b) ServiceManagerApp \<Rightarrow> ('k, 'b) ServiceManagerApp" where
  "handleUnsubscribeServiceWatch fd msg sm =
     (case fst (tryReadUint64 (payload_view msg)) of
        None \<Rightarrow> sm
      | Some watch_id \<Rightarrow>
          if watch_id = 0 then sm
          else sm\<lparr>sm_watch_notifier := snd (watch_unsubscribe fd watch_id (sm_watch_notifier sm))\<rparr>)"

subsection \<open>Topics\<close>

definition mode_of :: "byte \<Rightarrow> TopicSubscribeMode" where
  "mode_of mode = (if mode = TOPIC_SUB_MODE_TOPIC_ONLY then TOPIC_ONLY
                   else if mode = TOPIC_SUB_MODE_SERVICE then SERVICE else INSTANCE)"

text \<open>\<open>readTopicSubscriptionSelector\<close> accepts no other mode than the three.\<close>

definition parseSubscribeTopicRequest ::
    "('k, 'b) SmEnv \<Rightarrow> Message \<Rightarrow> (string \<times> TopicSubscriptionFilter) option" where
  "parseSubscribeTopicRequest e msg =
     (case tryReadString (payload_copy e msg) of
        (None, _) \<Rightarrow> None
      | (Some topic, v) \<Rightarrow>
          if topic = [] \<or> MAX_TOPIC_NAME_LENGTH < length topic then None
          else if view_remaining v = 0 then Some (topic, Filter_default)
          else
            case readTopicSubscriptionSelector v of
              (None, _) \<Rightarrow> None
            | (Some sel, v) \<Rightarrow>
                if view_remaining v \<noteq> 0 then None
                else if TOPIC_SUB_MODE_SERVICE \<le> sel_mode sel
                        \<and> (sel_publisher_service sel = [] \<or> MAX_SERVICE_NAME_LENGTH < length (sel_publisher_service sel))
                then None
                else if sel_mode sel = TOPIC_SUB_MODE_INSTANCE
                        \<and> (MAX_SERVICE_NAME_LENGTH < length (sel_host_id sel)
                           \<or> MAX_SERVICE_NAME_LENGTH < length (sel_instance_id sel))
                then None
                else Some (topic, \<lparr>tf_mode = mode_of (sel_mode sel), tf_publisher_service = sel_publisher_service sel,
                                   tf_host_id = sel_host_id sel, tf_instance_id = sel_instance_id sel\<rparr>))"

definition sendQueryPublishedTopicsReply ::
    "('k, 'b) SmEnv \<Rightarrow> int \<Rightarrow> u32 \<Rightarrow> bool \<Rightarrow> string list \<Rightarrow> ('k, 'b) ServiceManagerApp \<Rightarrow> ('k, 'b) ServiceManagerApp" where
  "sendQueryPublishedTopicsReply e fd seq found ts =
     reply_if e fd (msg_try e [serializePublishedTopicsReply (found, ts)] (Message_new MSG_QUERY_PUBLISHED_TOPICS_REPLY seq))"

definition handleQueryPublishedTopics ::
    "('k, 'b) SmEnv \<Rightarrow> int \<Rightarrow> Message \<Rightarrow> ('k, 'b) ServiceManagerApp \<Rightarrow> ('k, 'b) ServiceManagerApp" where
  "handleQueryPublishedTopics e fd msg sm =
     (case tryReadExactStringArg msg MAX_SERVICE_NAME_LENGTH of
        None \<Rightarrow> sendQueryPublishedTopicsReply e fd (seq_of msg) False [] sm
      | Some name \<Rightarrow>
          let found = findService name (sm_registry sm) \<noteq> None
          in sendQueryPublishedTopicsReply e fd (seq_of msg) found
               (if found then getPublishedTopics name (sm_topic_manager sm) else []) sm)"

definition sendTopicPublisherNotify ::
    "('k, 'b) SmEnv \<Rightarrow> int \<Rightarrow> string \<Rightarrow> ServiceInfo \<Rightarrow> u32 \<Rightarrow> ('k, 'b) ServiceManagerApp \<Rightarrow> ('k, 'b) ServiceManagerApp" where
  "sendTopicPublisherNotify e subscriber_fd topic pub_info idl_hash sm =
     (if \<not> live subscriber_fd sm then sm
      else
        case nextSMProactiveSequence sm of
          (seq, sm) \<Rightarrow>
            reply_if e subscriber_fd
              (msg_try e [serializeServiceInfo pub_info, writeUint32 idl_hash]
                (msg_put e (writeString topic) (Message_new MSG_TOPIC_PUBLISHER_NOTIFY seq))) sm)"

text \<open>The request of \<open>handlePublishTopic\<close>: topic, publisher and an optional hash, and nothing behind them.\<close>

definition parse_publish :: "('k, 'b) SmEnv \<Rightarrow> Message \<Rightarrow> (string \<times> ServiceInfo \<times> u32) option" where
  "parse_publish e msg =
     (case tryReadString (payload_copy e msg) of
        (None, _) \<Rightarrow> None
      | (Some topic, v) \<Rightarrow>
          if topic = [] \<or> MAX_TOPIC_NAME_LENGTH < length topic then None
          else
            case deserializeServiceInfo v of
              (None, _) \<Rightarrow> None
            | (Some pub_info, v) \<Rightarrow>
                (case (if view_remaining v \<noteq> 0 then tryReadUint32 v else (Some 0, v)) of
                   (None, _) \<Rightarrow> None
                 | (Some idl_hash, v) \<Rightarrow>
                     if view_remaining v \<noteq> 0 then None
                     else if si_name pub_info = [] \<or> MAX_SERVICE_NAME_LENGTH < length (si_name pub_info) then None
                     else Some (topic, pub_info, idl_hash)))"

definition handlePublishTopic ::
    "('k, 'b) SmEnv \<Rightarrow> int \<Rightarrow> Message \<Rightarrow> ('k, 'b) ServiceManagerApp \<Rightarrow> ('k, 'b) ServiceManagerApp" where
  "handlePublishTopic e fd msg sm =
     (case parse_publish e msg of
        None \<Rightarrow> sendBoolReply e fd MSG_PUBLISH_TOPIC_REPLY (seq_of msg) False sm
      | Some (topic, pub_info, idl_hash) \<Rightarrow>
          (case findServiceByFdAndName fd (si_name pub_info) (sm_registry sm) of
             None \<Rightarrow> sendBoolReply e fd MSG_PUBLISH_TOPIC_REPLY (seq_of msg) False sm
           | Some owner_entry \<Rightarrow>
               let owner = se_info owner_entry;
                   pub_info = pub_info\<lparr>si_host := si_host owner, si_port := si_port owner,
                                       si_host_id := si_host_id owner, si_instance_id := si_instance_id owner\<rparr>;
                   (success, tm) = registerPublisher topic pub_info fd idl_hash (sm_topic_manager sm);
                   sm = sendBoolReply e fd MSG_PUBLISH_TOPIC_REPLY (seq_of msg) success (sm\<lparr>sm_topic_manager := tm\<rparr>)
               in if success then
                    fold (\<lambda>subscriber. sendTopicPublisherNotify e subscriber topic pub_info idl_hash)
                      (getMatchingSubscribers topic pub_info (sm_topic_manager sm)) sm
                  else sm))"

definition handleUnpublishTopic ::
    "int \<Rightarrow> Message \<Rightarrow> ('k, 'b) ServiceManagerApp \<Rightarrow> ('k, 'b) ServiceManagerApp" where
  "handleUnpublishTopic fd msg sm =
     (case tryReadExactTopicArg msg of
        None \<Rightarrow> sm
      | Some topic \<Rightarrow> sm\<lparr>sm_topic_manager := snd (removePublisherOf topic fd (sm_topic_manager sm))\<rparr>)"

definition sendSubscribeTopicReply ::
    "('k, 'b) SmEnv \<Rightarrow> int \<Rightarrow> u32 \<Rightarrow> bool \<Rightarrow> u32 \<Rightarrow> ('k, 'b) ServiceManagerApp \<Rightarrow> ('k, 'b) ServiceManagerApp" where
  "sendSubscribeTopicReply e fd seq success idl_hash =
     reply e fd (fold (msg_put e) (writeBool success # (if success then [writeUint32 idl_hash] else []))
       (Message_new MSG_SUBSCRIBE_TOPIC_REPLY seq))"

definition handleSubscribeTopic ::
    "('k, 'b) SmEnv \<Rightarrow> int \<Rightarrow> Message \<Rightarrow> ('k, 'b) ServiceManagerApp \<Rightarrow> ('k, 'b) ServiceManagerApp" where
  "handleSubscribeTopic e fd msg sm =
     (case parseSubscribeTopicRequest e msg of
        None \<Rightarrow> sendSubscribeTopicReply e fd (seq_of msg) False 0 sm
      | Some (topic, sel) \<Rightarrow>
          (case addSubscriberFilter topic sel fd (sm_topic_manager sm) of
             (added, tm) \<Rightarrow>
               let idl_hash = (case getIdlHashFilter topic sel tm of None \<Rightarrow> 0 | Some h \<Rightarrow> h);
                   sm = sendSubscribeTopicReply e fd (seq_of msg) added idl_hash (sm\<lparr>sm_topic_manager := tm\<rparr>)
               in fold (\<lambda>p. sendTopicPublisherNotify e fd topic (pv_info p) (pv_idl_hash p))
                    (getMatchingPublishers topic sel (sm_topic_manager sm)) sm))"

definition handleUnsubscribeTopic ::
    "('k, 'b) SmEnv \<Rightarrow> int \<Rightarrow> Message \<Rightarrow> ('k, 'b) ServiceManagerApp \<Rightarrow> ('k, 'b) ServiceManagerApp" where
  "handleUnsubscribeTopic e fd msg sm =
     (case parseSubscribeTopicRequest e msg of
        None \<Rightarrow> sm
      | Some (topic, sel) \<Rightarrow> sm\<lparr>sm_topic_manager := snd (removeSubscriberFilter topic sel fd (sm_topic_manager sm))\<rparr>)"

end
