(* ===== verification/SMDiag.thy ===== *)
theory SMDiag
  imports SMRequests
begin

section \<open>The service manager: sessions and diagnostics\<close>

text \<open>
  service_manager/sm_diag.cpp: the session hello, the list of runtimes, log levels and diagnostic
  watches.
\<close>

subsection \<open>Hello\<close>

definition hello_timeout :: "('k, 'b) ServiceManagerApp \<Rightarrow> u32 \<Rightarrow> u32 \<Rightarrow> u32" where
  "hello_timeout sm interval requested =
     (if requested = 0 then
        let effective = sm_default_session_timeout_ms sm;
            effective = (if sm_max_session_timeout_ms sm \<noteq> 0 \<and> sm_max_session_timeout_ms sm < effective
                         then sm_max_session_timeout_ms sm else effective)
        in if effective = 0 then negotiateSessionTimeout interval 0 (sm_max_session_timeout_ms sm) else effective
      else negotiateSessionTimeout interval requested (sm_max_session_timeout_ms sm))"

definition hello_runtime_id :: "RuntimeInfo \<Rightarrow> string" where
  "hello_runtime_id info =
     (let runtime_id = (if ri_runtime_id info = [] then ri_process_name info else ri_runtime_id info)
      in if runtime_id = [] then ''runtime-'' @ dec (unat (ri_pid info)) else runtime_id)"

definition reject_hello ::
    "('k, 'b) SmEnv \<Rightarrow> int \<Rightarrow> u32 \<Rightarrow> ('k, 'b) ServiceManagerApp \<Rightarrow> ('k, 'b) ServiceManagerApp" where
  "reject_hello e fd seq sm =
     reply e fd (msg_put e (serializeSessionHelloAck (SessionHelloAck_default\<lparr>ack_peer_incarnation_id := sm_incarnation sm,
         ack_status := SESSION_STATUS_REJECTED\<rparr>)) (Message_new MSG_RUNTIME_HELLO_REPLY seq)) sm"

text \<open>The older session of the same runtime is closed; \<open>None\<close> when this closed the caller as well.\<close>

definition supersede ::
    "('k, 'b) SmEnv \<Rightarrow> int \<Rightarrow> string \<Rightarrow> u32 \<Rightarrow> ('k, 'b) ServiceManagerApp \<Rightarrow> bool \<times> ('k, 'b) ServiceManagerApp" where
  "supersede e fd session_key incarnation_id sm =
     (case om_lookup (sm_runtime_sessions sm) session_key of
        None \<Rightarrow> (True, sm)
      | Some old_fd \<Rightarrow>
          if old_fd = fd then (True, sm)
          else
            let same_incarnation = (case om_lookup (sm_clients sm) old_fd of
                    None \<Rightarrow> False | Some old \<Rightarrow> cc_incarnation_id old = incarnation_id);
                sm = touch_conn fd (closeClient e old_fd (\<not> same_incarnation) sm)
            in (live fd sm, sm))"

definition accept_hello ::
    "('k, 'b) SmEnv \<Rightarrow> int \<Rightarrow> RuntimeInfo \<Rightarrow> string \<Rightarrow> string \<Rightarrow> u32 \<Rightarrow> u32 \<Rightarrow>
     ('k, 'b) ServiceManagerApp \<Rightarrow> ('k, 'b) ServiceManagerApp" where
  "accept_hello e fd info runtime_id session_key interval effective_timeout = with_conn fd (\<lambda>conn sm.
     let sm = sm\<lparr>sm_runtime_sessions := om_update session_key fd (sm_runtime_sessions sm)\<rparr>;
         sm = (if cc_runtime_registered conn \<and> cc_pid conn \<noteq> ri_pid info then removePidFd (cc_pid conn) fd sm else sm);
         (now, sm) = sm_now e sm;
         sm = sm_cancelTimer (cc_hello_timer_id conn) sm;
         conn = conn\<lparr>cc_pid := ri_pid info, cc_process_name := ri_process_name info, cc_log_level := ri_log_level info,
                     cc_runtime_registered := True, cc_runtime_id := runtime_id, cc_host_id := ri_host_id info,
                     cc_session_key := session_key, cc_incarnation_id := ri_incarnation_id info,
                     cc_session_interval_ms := interval, cc_session_timeout_ms := effective_timeout,
                     cc_last_heartbeat_ms := now, cc_hello_received := True, cc_hello_timer_id := 0\<rparr>;
         sm = armSessionDeadline e fd (put_conn fd conn sm)
     in sm\<lparr>sm_pid_to_fds := push_new (ri_pid info) fd (sm_pid_to_fds sm)\<rparr>)"

definition handleRuntimeHello ::
    "('k, 'b) SmEnv \<Rightarrow> int \<Rightarrow> Message \<Rightarrow> ('k, 'b) ServiceManagerApp \<Rightarrow> ('k, 'b) ServiceManagerApp" where
  "handleRuntimeHello e fd msg sm =
     (case fst (deserializeRuntimeInfo (payload_view msg)) of
        None \<Rightarrow> reject_hello e fd (seq_of msg) sm
      | Some info \<Rightarrow>
          if ri_pid info = 0 \<or> ri_session_version info \<noteq> SESSION_PROTOCOL_VERSION then reject_hello e fd (seq_of msg) sm
          else
            let interval = clampHeartbeatInterval (ri_heartbeat_interval_ms info);
                effective_timeout = hello_timeout sm interval (ri_requested_timeout_ms info);
                runtime_id = hello_runtime_id info
            in if MAX_SERVICE_NAME_LENGTH < length runtime_id \<or> MAX_SERVICE_NAME_LENGTH < length (ri_host_id info)
               then reject_hello e fd (seq_of msg) sm
               else
                 let session_key = makeRuntimeSessionKey (ri_host_id info) runtime_id in
                 case supersede e fd session_key (ri_incarnation_id info) sm of
                   (False, sm) \<Rightarrow> sm
                 | (True, sm) \<Rightarrow>
                     let sm = accept_hello e fd info runtime_id session_key interval effective_timeout sm;
                         ack = SessionHelloAck_default\<lparr>ack_peer_incarnation_id := sm_incarnation sm,
                           ack_status := (if interval = ri_heartbeat_interval_ms info
                               \<and> (ri_requested_timeout_ms info = 0 \<or> effective_timeout = ri_requested_timeout_ms info)
                             then SESSION_STATUS_OK else SESSION_STATUS_CLAMPED),
                           ack_accepted_interval_ms := interval, ack_effective_timeout_ms := effective_timeout\<rparr>
                     in case msg_try e [serializeSessionHelloAck ack] (Message_new MSG_RUNTIME_HELLO_REPLY (seq_of msg)) of
                          None \<Rightarrow> closeClient e fd True sm
                        | Some m \<Rightarrow> touch_conn fd (reply e fd m sm))"

subsection \<open>The list of runtimes\<close>

definition add_services :: "string list \<Rightarrow> RuntimeInfo \<Rightarrow> RuntimeInfo" where
  "add_services names info =
     fold (\<lambda>s info. if is_diag_name s \<or> s \<in> set (ri_services info) then info
                    else info\<lparr>ri_services := ri_services info @ [s]\<rparr>) names info"

definition runtime_of :: "ClientConnection \<Rightarrow> RuntimeInfo" where
  "runtime_of conn = RuntimeInfo_default\<lparr>ri_pid := cc_pid conn, ri_process_name := cc_process_name conn,
     ri_log_level := cc_log_level conn, ri_diag_capabilities := RUNTIME_DIAG_CAP_WATCH,
     ri_session_version := SESSION_PROTOCOL_VERSION, ri_runtime_id := cc_runtime_id conn,
     ri_incarnation_id := cc_incarnation_id conn, ri_heartbeat_interval_ms := cc_session_interval_ms conn,
     ri_requested_timeout_ms := cc_session_timeout_ms conn, ri_host_id := cc_host_id conn\<rparr>"

text \<open>The first loop: a row per process, with the services of all its connections.\<close>

fun collect_runtimes ::
    "ServiceRegistry \<Rightarrow> (int \<times> ClientConnection) list \<Rightarrow> (u32, RuntimeInfo) omap \<times> u32 list \<Rightarrow>
     (u32, RuntimeInfo) omap \<times> u32 list" where
  "collect_runtimes reg [] acc = acc"
| "collect_runtimes reg ((fd, conn) # cs) acc =
     (if \<not> cc_runtime_registered conn then collect_runtimes reg cs acc
      else
        case acc of (by_pid, pid_order) \<Rightarrow>
        let (info, pid_order) = (case om_lookup by_pid (cc_pid conn) of
                Some info \<Rightarrow> (info, pid_order)
              | None \<Rightarrow> (runtime_of conn, pid_order @ [cc_pid conn]))
        in collect_runtimes reg cs
             (om_update (cc_pid conn) (add_services (listServiceNamesByFd fd reg) info) by_pid, pid_order))"

text \<open>The second loop: an entry that cannot be written is taken back and not counted.\<close>

fun write_runtimes :: "allocator \<Rightarrow> RuntimeInfo list \<Rightarrow> Buffer \<times> u32 \<Rightarrow> Buffer \<times> u32" where
  "write_runtimes alloc [] acc = acc"
| "write_runtimes alloc (info # infos) acc =
     (case acc of (entries, entry_count) \<Rightarrow>
        let info = info\<lparr>ri_role := (if ri_services info = [] then ''client'' else ''service'')\<rparr>;
            before = b_write_pos entries
        in case serializeRuntimeInfo info alloc entries of
             (False, entries) \<Rightarrow> write_runtimes alloc infos (Buffer_setWritePosition alloc before entries, entry_count)
           | (True, entries) \<Rightarrow> write_runtimes alloc infos (entries, entry_count + 1))"

definition handleRuntimeList ::
    "('k, 'b) SmEnv \<Rightarrow> int \<Rightarrow> Message \<Rightarrow> ('k, 'b) ServiceManagerApp \<Rightarrow> ('k, 'b) ServiceManagerApp" where
  "handleRuntimeList e fd msg sm =
     (let (by_pid, pid_order) = collect_runtimes (sm_registry sm) (om_list (sm_clients sm)) (om_empty, []);
          (entries, entry_count) = write_runtimes (env_alloc e)
            (map (\<lambda>pid. case om_lookup by_pid pid of None \<Rightarrow> RuntimeInfo_default | Some info \<Rightarrow> info) pid_order)
            (Buffer_empty, 0);
          m = msg_put e (writeUint32 entry_count) (Message_new MSG_RUNTIME_LIST_REPLY (seq_of msg));
          m = (if 0 < b_write_pos entries
               then msg_put e (writeRaw (mem_get (b_data entries) 0 (b_write_pos entries))) m else m)
      in reply e fd m sm)"

subsection \<open>Log levels\<close>

text \<open>The visitor of \<open>handleDiagSetLogLevel\<close>.\<close>

definition set_level ::
    "('k, 'b) SmEnv \<Rightarrow> u32 \<Rightarrow> int \<Rightarrow> ('k, 'b) ServiceManagerApp \<Rightarrow> bool \<times> ('k, 'b) ServiceManagerApp" where
  "set_level e level target sm =
     (case nextSMProactiveSequence sm of
        (seq, sm) \<Rightarrow>
          let sm = reply e target (msg_put e (writeUint32 level) (Message_new MSG_DIAG_SET_LOG_LEVEL seq)) sm
          in case om_lookup (sm_clients sm) target of
               None \<Rightarrow> (False, sm)
             | Some conn \<Rightarrow> (True, put_conn target (conn\<lparr>cc_log_level := level\<rparr>) sm))"

definition handleDiagSetLogLevel ::
    "('k, 'b) SmEnv \<Rightarrow> int \<Rightarrow> Message \<Rightarrow> ('k, 'b) ServiceManagerApp \<Rightarrow> ('k, 'b) ServiceManagerApp" where
  "handleDiagSetLogLevel e fd msg sm =
     (case fst (rbind tryReadUint32 (\<lambda>pid. rbind tryReadUint32 (\<lambda>level. rret (pid, level))) (payload_view msg)) of
        None \<Rightarrow> sendBoolReply e fd MSG_DIAG_SET_LOG_LEVEL_REPLY (seq_of msg) False sm
      | Some (pid, level) \<Rightarrow>
          if OMNI_LOG_OFF < level then sendBoolReply e fd MSG_DIAG_SET_LOG_LEVEL_REPLY (seq_of msg) False sm
          else
            (case forEachPidConn pid fd (set_level e level) sm of
               (sent, sm) \<Rightarrow>
                 if \<not> live fd sm then sm
                 else sendBoolReply e fd MSG_DIAG_SET_LOG_LEVEL_REPLY (seq_of msg) sent sm))"

subsection \<open>Watches\<close>

text \<open>The visitor of \<open>handleDiagWatchStart\<close>.\<close>

definition start_watch ::
    "('k, 'b) SmEnv \<Rightarrow> int \<Rightarrow> ('k, 'b) ServiceManagerApp \<Rightarrow> bool \<times> ('k, 'b) ServiceManagerApp" where
  "start_watch e target sm =
     (case nextSMProactiveSequence sm of
        (seq, sm) \<Rightarrow>
          let sm = reply e target (Message_new MSG_DIAG_WATCH_START seq) sm in (live target sm, sm))"

definition handleDiagWatchStart ::
    "('k, 'b) SmEnv \<Rightarrow> int \<Rightarrow> Message \<Rightarrow> ('k, 'b) ServiceManagerApp \<Rightarrow> ('k, 'b) ServiceManagerApp" where
  "handleDiagWatchStart e fd msg sm =
     (case fst (tryReadUint32 (payload_view msg)) of
        None \<Rightarrow> sendBoolReply e fd MSG_DIAG_WATCH_START_REPLY (seq_of msg) False sm
      | Some pid \<Rightarrow>
          (case forEachPidConn pid fd (start_watch e) sm of
             (sent, sm) \<Rightarrow>
               if \<not> live fd sm then sm
               else
                 sendBoolReply e fd MSG_DIAG_WATCH_START_REPLY (seq_of msg) sent
                   (if sent
                    then sm\<lparr>sm_watcher_to_pids := bucket_insert fd pid (sm_watcher_to_pids sm),
                            sm_pid_watchers := push_new pid fd (sm_pid_watchers sm)\<rparr>
                    else sm)))"

definition removeWatcherPair ::
    "('k, 'b) SmEnv \<Rightarrow> int \<Rightarrow> u32 \<Rightarrow> ('k, 'b) ServiceManagerApp \<Rightarrow> bool \<times> ('k, 'b) ServiceManagerApp" where
  "removeWatcherPair e watcher_fd pid sm =
     (case om_lookup (sm_watcher_to_pids sm) watcher_fd of
        None \<Rightarrow> (False, sm)
      | Some pids \<Rightarrow>
          if \<not> os_member pids pid then (False, sm)
          else (True, stopTargetIfUnwatched e (\<lambda>fd. closeClient e fd True) pid watcher_fd
                        (sm\<lparr>sm_watcher_to_pids := bucket_erase watcher_fd pid (sm_watcher_to_pids sm)\<rparr>)))"

definition handleDiagWatchStop ::
    "('k, 'b) SmEnv \<Rightarrow> int \<Rightarrow> Message \<Rightarrow> ('k, 'b) ServiceManagerApp \<Rightarrow> ('k, 'b) ServiceManagerApp" where
  "handleDiagWatchStop e fd msg sm =
     (case fst (tryReadUint32 (payload_view msg)) of
        None \<Rightarrow> sendBoolReply e fd MSG_DIAG_WATCH_STOP_REPLY (seq_of msg) False sm
      | Some pid \<Rightarrow>
          let sm = snd (removeWatcherPair e fd pid sm) in
          if \<not> live fd sm then sm
          else sendBoolReply e fd MSG_DIAG_WATCH_STOP_REPLY (seq_of msg) True sm)"

end
