(* ===== verification/SMApp.thy ===== *)
theory SMApp
  imports SMDiag
begin

section \<open>The service manager: dispatch and events\<close>

text \<open>
  The rest of service_manager/service_manager_app.cpp: dispatching a message, the callbacks of the
  endpoint and the timers, set-up and clean-up, and the application as the host of its event loop. A
  run of \<open>onClientReadable\<close> or of the accept loop that never comes to an end has no result
  (\<open>None\<close>).
\<close>

fun dispatch ::
    "('k, 'b) SmEnv \<Rightarrow> MessageType \<Rightarrow> int \<Rightarrow> Message \<Rightarrow> ('k, 'b) ServiceManagerApp \<Rightarrow> ('k, 'b) ServiceManagerApp" where
  "dispatch e MSG_REGISTER fd msg sm = handleRegister e fd msg sm"
| "dispatch e MSG_UNREGISTER fd msg sm = handleUnregister e fd msg sm"
| "dispatch e MSG_CONTROL_HEARTBEAT fd msg sm = handleControlHeartbeat e fd msg sm"
| "dispatch e MSG_LOOKUP fd msg sm = handleLookup e fd msg sm"
| "dispatch e MSG_LIST_INSTANCES fd msg sm = handleListInstances e fd msg sm"
| "dispatch e MSG_LIST_SERVICES fd msg sm = handleListServices e fd msg sm"
| "dispatch e MSG_QUERY_INTERFACES fd msg sm = handleQueryInterfaces e fd msg sm"
| "dispatch e MSG_QUERY_PUBLISHED_TOPICS fd msg sm = handleQueryPublishedTopics e fd msg sm"
| "dispatch e MSG_SUBSCRIBE_SERVICE_WATCH fd msg sm = handleSubscribeServiceWatch e fd msg sm"
| "dispatch e MSG_UNSUBSCRIBE_SERVICE_WATCH fd msg sm = handleUnsubscribeServiceWatch fd msg sm"
| "dispatch e MSG_PUBLISH_TOPIC fd msg sm = handlePublishTopic e fd msg sm"
| "dispatch e MSG_SUBSCRIBE_TOPIC fd msg sm = handleSubscribeTopic e fd msg sm"
| "dispatch e MSG_UNSUBSCRIBE_TOPIC fd msg sm = handleUnsubscribeTopic e fd msg sm"
| "dispatch e MSG_UNPUBLISH_TOPIC fd msg sm = handleUnpublishTopic fd msg sm"
| "dispatch e MSG_RUNTIME_HELLO fd msg sm = handleRuntimeHello e fd msg sm"
| "dispatch e MSG_RUNTIME_LIST fd msg sm = handleRuntimeList e fd msg sm"
| "dispatch e MSG_DIAG_SET_LOG_LEVEL fd msg sm = handleDiagSetLogLevel e fd msg sm"
| "dispatch e MSG_DIAG_WATCH_START fd msg sm = handleDiagWatchStart e fd msg sm"
| "dispatch e MSG_DIAG_WATCH_STOP fd msg sm = handleDiagWatchStop e fd msg sm"
| "dispatch e _ fd msg sm = sm"

definition dispatchMessage ::
    "('k, 'b) SmEnv \<Rightarrow> int \<Rightarrow> Message \<Rightarrow> ('k, 'b) ServiceManagerApp \<Rightarrow> ('k, 'b) ServiceManagerApp" where
  "dispatchMessage e fd msg sm = (case Message_getType msg of None \<Rightarrow> sm | Some type \<Rightarrow> dispatch e type fd msg sm)"

subsection \<open>Endpoint callbacks\<close>

definition registerEndpointFd :: "('k, 'b) SmEnv \<Rightarrow> int \<Rightarrow> ('k, 'b) ServiceManagerApp \<Rightarrow> ('k, 'b) ServiceManagerApp" where
  "registerEndpointFd e fd sm =
     sm\<lparr>sm_endpoint_fds := os_insert fd (sm_endpoint_fds sm),
        sm_loop := loop_addFd (env_backend e) fd (EVENT_READ OR EVENT_ERROR) (EndpointFd fd) (sm_loop sm)\<rparr>"

definition onClientAccepted :: "('k, 'b) SmEnv \<Rightarrow> int \<Rightarrow> ('k, 'b) ServiceManagerApp \<Rightarrow> ('k, 'b) ServiceManagerApp" where
  "onClientAccepted e client_id sm =
     (if live client_id sm then sm
      else
        case sm_now e sm of
          (now, sm) \<Rightarrow>
            let conn = (ClientConnection_init (env_alloc e))
                  \<lparr>cc_fd := client_id, cc_accept_time_ms := now, cc_last_heartbeat_ms := now\<rparr>
            in armHelloDeadline e client_id (registerEndpointFd e client_id (put_conn client_id conn sm)))"

definition onClientDisconnected :: "('k, 'b) SmEnv \<Rightarrow> int \<Rightarrow> ('k, 'b) ServiceManagerApp \<Rightarrow> ('k, 'b) ServiceManagerApp" where
  "onClientDisconnected e client_id = closeClient e client_id True"

text \<open>\<open>readNextMessage(*conn->transport, conn->recv_buffer, msg)\<close>.\<close>

definition sm_readNext ::
    "('k, 'b) SmEnv \<Rightarrow> int \<Rightarrow> ClientConnection \<Rightarrow> Message \<Rightarrow> ('k, 'b) ServiceManagerApp \<Rightarrow>
     int \<times> Message \<times> ('k, 'b) ServiceManagerApp" where
  "sm_readNext e fd conn msg sm =
     (case sm_server sm of
        None \<Rightarrow> (-1, msg, sm\<lparr>sm_dangling := True\<rparr>)
      | Some s \<Rightarrow>
          (case om_lookup (ep_clients s) fd of
             None \<Rightarrow> (-1, msg, sm\<lparr>sm_dangling := True\<rparr>)
           | Some c \<Rightarrow>
               (case readNextMessage (tcp_connection (env_ops e)) (env_alloc e)
                       (cc_recv_buffer conn, msg, c, sm_kernel sm) of
                  (ret, b, msg, c, k) \<Rightarrow>
                    (ret, msg, put_conn fd (conn\<lparr>cc_recv_buffer := b\<rparr>)
                       (sm\<lparr>sm_server := Some (s\<lparr>ep_clients := om_update fd c (ep_clients s)\<rparr>), sm_kernel := k\<rparr>)))))"

partial_function (option) readable_loop ::
    "('k, 'b) SmEnv \<Rightarrow> int \<Rightarrow> Message \<Rightarrow> ('k, 'b) ServiceManagerApp \<Rightarrow> ('k, 'b) ServiceManagerApp option" where
  "readable_loop e client_id msg sm =
     (case om_lookup (sm_clients sm) client_id of
        None \<Rightarrow> Some sm
      | Some conn \<Rightarrow>
          (case sm_readNext e client_id conn msg sm of
             (ret, msg, sm) \<Rightarrow>
               if ret = 0 then Some sm
               else if ret < 0 then Some (onClientDisconnected e client_id sm)
               else
                 let sm = dispatchMessage e client_id msg sm in
                 if \<not> live client_id sm then Some sm else readable_loop e client_id msg sm))"

definition onClientReadable ::
    "('k, 'b) SmEnv \<Rightarrow> int \<Rightarrow> ('k, 'b) ServiceManagerApp \<Rightarrow> ('k, 'b) ServiceManagerApp option" where
  "onClientReadable e client_id sm = readable_loop e client_id Message_default sm"

text \<open>The endpoint with the callbacks \<open>init\<close> installs; without an endpoint there is nothing to do.\<close>

definition sm_endpoint :: "('k, 'b) SmEnv \<Rightarrow> ('k, ('k, 'b) ServiceManagerApp) EndpointHost" where
  "sm_endpoint e =
     \<lparr>eh_endpoint = (\<lambda>sm. case sm_server sm of None \<Rightarrow> TcpServerEndpoint_init | Some s \<Rightarrow> s),
      eh_kernel = sm_kernel,
      eh_set = (\<lambda>(s, k) sm. sm\<lparr>sm_server := Some s, sm_kernel := k\<rparr>),
      eh_accept = onClientAccepted e,
      eh_readable = onClientReadable e,
      eh_disconnect = onClientDisconnected e\<rparr>"

definition onEndpointEvent ::
    "('k, 'b) SmEnv \<Rightarrow> int \<Rightarrow> u32 \<Rightarrow> ('k, 'b) ServiceManagerApp \<Rightarrow> ('k, 'b) ServiceManagerApp option" where
  "onEndpointEvent e fd events sm =
     (let (go_on, sm) = (case om_lookup (sm_clients sm) fd of
             Some conn \<Rightarrow> if events AND EVENT_WRITE \<noteq> 0 then flushPendingSends e fd conn sm else (True, sm)
           | None \<Rightarrow> (True, sm))
      in if \<not> go_on then Some (closeClient e fd True sm)
         else
           case sm_server sm of
             None \<Rightarrow> Some sm
           | Some _ \<Rightarrow> onPollEvent (env_ops e) (env_lops e) (sm_endpoint e) fd events sm)"

subsection \<open>Timers\<close>

definition onHelloDeadline :: "('k, 'b) SmEnv \<Rightarrow> int \<Rightarrow> u64 \<Rightarrow> ('k, 'b) ServiceManagerApp \<Rightarrow> ('k, 'b) ServiceManagerApp" where
  "onHelloDeadline e fd generation sm =
     (case om_lookup (sm_clients sm) fd of
        None \<Rightarrow> sm
      | Some conn \<Rightarrow>
          if cc_session_generation conn \<noteq> generation then sm
          else if cc_hello_received conn then sm
          else closeClient e fd True sm)"

definition onSessionDeadline :: "('k, 'b) SmEnv \<Rightarrow> int \<Rightarrow> u64 \<Rightarrow> ('k, 'b) ServiceManagerApp \<Rightarrow> ('k, 'b) ServiceManagerApp" where
  "onSessionDeadline e fd generation sm =
     (case om_lookup (sm_clients sm) fd of
        None \<Rightarrow> sm
      | Some conn \<Rightarrow> if cc_session_generation conn \<noteq> generation then sm else closeClient e fd True sm)"

fun run_functor :: "('k, 'b) SmEnv \<Rightarrow> sm_functor \<Rightarrow> ('k, 'b) ServiceManagerApp \<Rightarrow> ('k, 'b) ServiceManagerApp" where
  "run_functor e (HelloDeadline fd generation) sm = onHelloDeadline e fd generation sm"
| "run_functor e (SessionDeadline fd generation) sm = onSessionDeadline e fd generation sm"

subsection \<open>Set-up and clean-up\<close>

text \<open>\<open>event_fd\<close> is the result of \<open>createEventFd\<close>.\<close>

definition sm_init ::
    "('k, 'b) SmEnv \<Rightarrow> bool \<Rightarrow> int \<Rightarrow> string \<Rightarrow> u16 \<Rightarrow> ('k, 'b) ServiceManagerApp \<Rightarrow> bool \<times> ('k, 'b) ServiceManagerApp" where
  "sm_init e net_ok event_fd host port sm =
     (if \<not> net_ok then (False, sm)
      else
        case endpoint_start (env_ops e) (env_lops e) host port (TcpServerEndpoint_init, sm_kernel sm) of
          (started, s, k) \<Rightarrow>
            if started < 0 then (False, sm\<lparr>sm_server := None, sm_kernel := snd (endpoint_close (env_ops e) (s, k))\<rparr>)
            else
              let sm = fold (registerEndpointFd e) (pollFds s) (sm\<lparr>sm_server := Some s, sm_kernel := k\<rparr>);
                  sm = sm\<lparr>sm_shutdown_fd := event_fd\<rparr>
              in (True,
                  if 0 \<le> event_fd
                  then sm\<lparr>sm_loop := loop_addFd (env_backend e) event_fd EVENT_READ ShutdownFd (sm_loop sm)\<rparr>
                  else sm))"

definition sm_stop :: "('k, 'b) ServiceManagerApp \<Rightarrow> ('k, 'b) ServiceManagerApp" where
  "sm_stop sm = sm\<lparr>sm_loop := loop_stop (sm_loop sm)\<rparr>"

definition sm_removeFd :: "('k, 'b) SmEnv \<Rightarrow> int \<Rightarrow> ('k, 'b) ServiceManagerApp \<Rightarrow> ('k, 'b) ServiceManagerApp" where
  "sm_removeFd e fd sm = sm\<lparr>sm_loop := loop_removeFd (env_backend e) fd (sm_loop sm)\<rparr>"

definition sm_cleanup :: "('k, 'b) SmEnv \<Rightarrow> ('k, 'b) ServiceManagerApp \<Rightarrow> ('k, 'b) ServiceManagerApp" where
  "sm_cleanup e sm =
     (let sm = fold (\<lambda>conn sm. sm_removeFd e (cc_fd conn) (cancelSessionTimers conn sm)) (om_values (sm_clients sm)) sm;
          sm = sm\<lparr>sm_clients := om_empty, sm_runtime_sessions := om_empty\<rparr>;
          sm = fold (sm_removeFd e) (om_keys (sm_endpoint_fds sm)) sm;
          sm = sm\<lparr>sm_endpoint_fds := om_empty\<rparr>;
          sm = (case sm_server sm of
                  None \<Rightarrow> sm
                | Some s \<Rightarrow> sm\<lparr>sm_server := None, sm_kernel := snd (endpoint_close (env_ops e) (s, sm_kernel sm))\<rparr>)
      in if 0 \<le> sm_shutdown_fd sm then (sm_removeFd e (sm_shutdown_fd sm) sm)\<lparr>sm_shutdown_fd := -1\<rparr> else sm)"

text \<open>
  The application as the host of its loop: a round that does not end leaves \<open>None\<close>, on which the loop
  does nothing. \<open>poll\<close> is the back end's polling.
\<close>

definition sm_host ::
    "('k, 'b) SmEnv \<Rightarrow> (int \<Rightarrow> ('k, 'b) ServiceManagerApp \<Rightarrow> (int \<times> u32) list option \<times> ('k, 'b) ServiceManagerApp) \<Rightarrow>
     (sm_callback, sm_functor, 'b, ('k, 'b) ServiceManagerApp option) LoopHost" where
  "sm_host e poll =
     \<lparr>host_loop = (\<lambda>w. case w of None \<Rightarrow> EventLoop_init None | Some sm \<Rightarrow> sm_loop sm),
      host_set = (\<lambda>l w. map_option (\<lambda>sm. sm\<lparr>sm_loop := l\<rparr>) w),
      host_now = (\<lambda>w. case w of None \<Rightarrow> 0 | Some sm \<Rightarrow> fst (sm_now e sm)),
      host_poll = (\<lambda>timeout w. case w of None \<Rightarrow> (None, None) | Some sm \<Rightarrow>
         (case poll timeout sm of (events, sm) \<Rightarrow> (events, Some sm))),
      host_event = (\<lambda>cb fd events w. case w of None \<Rightarrow> None | Some sm \<Rightarrow>
         (case cb of EndpointFd fd \<Rightarrow> onEndpointEvent e fd events sm | ShutdownFd \<Rightarrow> Some (sm_stop sm))),
      host_call = (\<lambda>f w. map_option (run_functor e f) w)\<rparr>"

definition sm_run ::
    "int \<Rightarrow> ('k, 'b) SmEnv \<Rightarrow> (int \<Rightarrow> ('k, 'b) ServiceManagerApp \<Rightarrow> (int \<times> u32) list option \<times> ('k, 'b) ServiceManagerApp) \<Rightarrow>
     ('k, 'b) ServiceManagerApp \<Rightarrow> ('k, 'b) ServiceManagerApp option" where
  "sm_run wakeup_fd e poll sm =
     (case loop_run wakeup_fd (sm_host e poll) (-1) None (Some sm) of None \<Rightarrow> None | Some r \<Rightarrow> r)"

end
