(* ===== verification/SMSafety.thy ===== *)
theory SMSafety
  imports SMCloseInv SMApp
begin

section \<open>The service manager keeps its invariant\<close>

text \<open>
  Between events no connection is being closed: \<open>sm_ok\<close> is the invariant of \<open>SMTables\<close> without closing
  connections. Every handler keeps it on a connection of the table, and so does every event. Two
  handlers may use their connection after it was deleted; for them the invariant holds up to the
  flag that records this.
\<close>

definition sm_ok :: "('k, 'b) ServiceManagerApp \<Rightarrow> bool" where
  "sm_ok sm \<longleftrightarrow> sm_inv (\<lambda>_. None) {} sm"

definition sm_ok_upto :: "('k, 'b) ServiceManagerApp \<Rightarrow> bool" where
  "sm_ok_upto sm \<longleftrightarrow> sm_ok (sm\<lparr>sm_dangling := False\<rparr>)"

lemma owner_none [simp]: "owner (\<lambda>_. None) sm fd = om_lookup (sm_clients sm) fd"
  by (simp add: owner_def split: option.splits)

lemma sm_okD:
  assumes "sm_ok sm"
  shows "registry_ok (sm_registry sm)" "watch_ok (sm_watch_notifier sm)" "topic_inv (sm_topic_manager sm)"
    "holds sm r fd \<Longrightarrow> \<exists>c. om_lookup (sm_clients sm) fd = Some c \<and> ref_ok r c"
    "holds sm (RefWatching pid) fd \<longleftrightarrow> holds sm (RefWatcher pid) fd" "connected sm" "paired {} sm" "tables_ok sm"
proof -
  note d = sm_invD [OF assms [unfolded sm_ok_def]]
  show "registry_ok (sm_registry sm)" "watch_ok (sm_watch_notifier sm)" "topic_inv (sm_topic_manager sm)" "connected sm"
    "paired {} sm" by (fact d)+
  show "tables_ok sm" using d by (simp add: tables_ok_def)
  show "\<exists>c. om_lookup (sm_clients sm) fd = Some c \<and> ref_ok r c" if "holds sm r fd"
    using ownedE [OF d(4) that] by auto
  show "holds sm (RefWatching pid) fd \<longleftrightarrow> holds sm (RefWatcher pid) fd"
    using pairedD(1,3) [OF d(5), of pid fd] by blast
qed

lemma sm_okI:
  assumes "tables_ok sm" "\<And>r fd. holds sm r fd \<Longrightarrow> \<exists>c. om_lookup (sm_clients sm) fd = Some c \<and> ref_ok r c"
    "\<And>pid fd. holds sm (RefWatching pid) fd \<longleftrightarrow> holds sm (RefWatcher pid) fd" "connected sm"
  shows "sm_ok sm"
  using assms by (simp add: sm_ok_def sm_inv_def owned_def paired_def)

text \<open>Connections change, the tables do not.\<close>

lemma sm_ok_conns:
  assumes ok: "sm_ok sm" and tb: "tables sm' = tables sm" and con: "connected sm'"
    and conns: "\<And>fd c. om_lookup (sm_clients sm) fd = Some c \<Longrightarrow>
      \<exists>c'. om_lookup (sm_clients sm') fd = Some c' \<and> (\<forall>r. holds sm r fd \<longrightarrow> ref_ok r c \<longrightarrow> ref_ok r c')"
  shows "sm_ok sm'"
proof (rule sm_okI)
  note h = tables_holds [OF tb]
  show "tables_ok sm'" using sm_okD(8) [OF ok] tables_tables_ok [OF tb] by simp
  show "\<exists>c. om_lookup (sm_clients sm') fd = Some c \<and> ref_ok r c" if "holds sm' r fd" for r fd
    using that sm_okD(4) [OF ok, of r fd] conns unfolding h by metis
  show "holds sm' (RefWatching pid) fd = holds sm' (RefWatcher pid) fd" for pid fd
    unfolding h by (rule sm_okD(5) [OF ok])
qed (rule con)

text \<open>Tables change, the connections and the diagnostic watches do not.\<close>

lemma sm_ok_tables:
  assumes ok: "sm_ok sm" and same: "sm_clients sm' = sm_clients sm" "sm_server sm' = sm_server sm"
    "sm_seq_counter sm' = sm_seq_counter sm" "sm_dangling sm' = sm_dangling sm"
    "sm_pid_watchers sm' = sm_pid_watchers sm" "sm_watcher_to_pids sm' = sm_watcher_to_pids sm"
    and tb: "tables_ok sm'"
    and refs: "\<And>r fd. holds sm' r fd \<Longrightarrow> holds sm r fd \<or> (\<exists>c. om_lookup (sm_clients sm) fd = Some c \<and> ref_ok r c)"
  shows "sm_ok sm'"
proof (rule sm_okI [OF tb])
  show "\<exists>c. om_lookup (sm_clients sm') fd = Some c \<and> ref_ok r c" if "holds sm' r fd" for r fd
    using refs [OF that] sm_okD(4) [OF ok] unfolding same by blast
  show "holds sm' (RefWatching pid) fd = holds sm' (RefWatcher pid) fd" for pid fd
    using sm_okD(5) [OF ok, of pid fd] by (simp add: holds.simps same)
  show "connected sm'" by (rule connected_keep [OF sm_okD(6) [OF ok] same(1-4)])
qed

subsection \<open>Sending and closing\<close>

lemma closeClient_ok: "sm_ok sm \<Longrightarrow> sm_ok (closeClient e fd notify sm)"
  unfolding sm_ok_def by (rule inv_relD(1) [OF closeClient_inv])

lemma reply_ok: "sm_ok sm \<Longrightarrow> live fd sm \<Longrightarrow> sm_ok (reply e fd m sm)"
  unfolding sm_ok_def by (rule inv_relD(1) [OF inv.sendMessage_frame [OF closeClient_inv]])

lemma reply_if_ok: "sm_ok sm \<Longrightarrow> live fd sm \<Longrightarrow> sm_ok (reply_if e fd m sm)"
  by (simp add: reply_if_def reply_ok split: option.splits)

lemma notify_watch_ok: "sm_ok sm \<Longrightarrow> sm_ok (notify_watch e i online sm)"
  unfolding sm_ok_def by (rule inv_relD(1) [OF inv.notifyServiceWatch_frame [OF closeClient_inv]])

lemma notifyServiceRemoved_ok: "sm_ok sm \<Longrightarrow> sm_ok (notifyServiceRemoved e (\<lambda>fd. closeClient e fd True) i sm)"
  unfolding notifyServiceRemoved_def by (rule notify_watch_ok)

lemma nextSM_ok: "sm_ok sm \<Longrightarrow> sm_ok (snd (nextSMProactiveSequence sm))"
  unfolding sm_ok_def by (rule inv_relD(1) [OF inv.sequence])

lemma sendBoolReply_ok: "sm_ok sm \<Longrightarrow> live fd sm \<Longrightarrow> sm_ok (sendBoolReply e fd type seq ok sm)"
  unfolding sendBoolReply_def by (rule reply_ok)

lemma sendRegisterReply_ok: "sm_ok sm \<Longrightarrow> live fd sm \<Longrightarrow> sm_ok (sendRegisterReply e fd seq hdl sm)"
  unfolding sendRegisterReply_def by (rule reply_ok)

lemma sendServiceWatchNotify_ok:
  "sm_ok sm \<Longrightarrow> live fd sm \<Longrightarrow> sm_ok (sendServiceWatchNotify e (\<lambda>fd. closeClient e fd True) fd watch_id i online sm)"
  unfolding sendServiceWatchNotify_def by (simp add: case_prod_unfold reply_ok nextSM_ok)

lemma sendTopicPublisherNotify_ok: "sm_ok sm \<Longrightarrow> sm_ok (sendTopicPublisherNotify e fd topic info h sm)"
  by (simp add: sendTopicPublisherNotify_def case_prod_unfold reply_if_ok nextSM_ok)

lemma fold_ok: "(\<And>x sm. sm_ok sm \<Longrightarrow> sm_ok (f x sm)) \<Longrightarrow> sm_ok sm \<Longrightarrow> sm_ok (fold f xs sm)"
  by (induction xs arbitrary: sm) auto

lemma forEachPidConn_ok:
  assumes "\<And>fd sm. sm_ok sm \<Longrightarrow> live fd sm \<Longrightarrow> sm_ok (snd (visitor fd sm))" "sm_ok sm"
  shows "sm_ok (snd (forEachPidConn pid except_fd visitor sm))"
proof -
  let ?f = "\<lambda>fd sm. if \<not> live fd sm \<or> fd = except_fd then (False, sm) else visitor fd sm"
  have step: "sm_ok (snd (?f fd sm))" if "sm_ok sm" for fd sm using assms(1) that by simp
  have "sm_ok (snd (fold (\<lambda>k (any, s). case ?f k s of (r, s') \<Rightarrow> (any \<or> r, s')) fds (b, sm)))" for b fds
    using assms(2)
  proof (induction fds arbitrary: b sm)
    case (Cons fd fds)
    obtain r sm1 where f: "?f fd sm = (r, sm1)" by force
    with step [OF Cons.prems, of fd] have "sm_ok sm1" by simp
    with Cons.IH [of sm1 "b \<or> r"] f show ?case by simp
  qed simp
  then show ?thesis using assms(2) by (simp add: forEachPidConn_def any_loop_def split: option.splits)
qed

subsection \<open>Table updates\<close>

lemma registry_update_ok:
  assumes ok: "sm_ok sm" and reg: "registry_ok reg"
    and entries: "\<And>n k en. findEntry n k reg = Some en \<Longrightarrow>
      (\<exists>en'. findEntry n k (sm_registry sm) = Some en' \<and> se_control_fd en' = se_control_fd en) \<or>
      (\<exists>c. om_lookup (sm_clients sm) (se_control_fd en) = Some c \<and> cc_hello_received c)"
  shows "sm_ok (sm\<lparr>sm_registry := reg\<rparr>)"
proof (rule sm_ok_tables [OF ok])
  show "tables_ok (sm\<lparr>sm_registry := reg\<rparr>)" using sm_okD [OF ok] reg by (simp add: tables_ok_def)
  show "holds sm r fd \<or> (\<exists>c. om_lookup (sm_clients sm) fd = Some c \<and> ref_ok r c)" if "holds (sm\<lparr>sm_registry := reg\<rparr>) r fd" for r fd
  proof (cases r)
    case (RefService n k)
    with that obtain en where "findEntry n k reg = Some en" "se_control_fd en = fd" by (auto simp: holds.simps)
    with entries [of n k en] RefService show ?thesis by (auto simp: holds.simps)
  qed (use that in \<open>auto simp: holds.simps\<close>)
qed simp_all

lemma addService_sm_ok:
  assumes ok: "sm_ok sm" and conn: "om_lookup (sm_clients sm) fd = Some c" "cc_hello_received c"
  shows "sm_ok (sm\<lparr>sm_registry := snd (addService info fd (sm_registry sm))\<rparr>)"
proof (rule registry_update_ok [OF ok addService_ok [OF sm_okD(1) [OF ok]]])
  fix n k en
  assume en: "findEntry n k (snd (addService info fd (sm_registry sm))) = Some en"
  obtain h dis reg where a: "addService info fd (sm_registry sm) = ((h, dis), reg)" by (metis prod.exhaust)
  show "(\<exists>en'. findEntry n k (sm_registry sm) = Some en' \<and> se_control_fd en' = se_control_fd en) \<or>
      (\<exists>c. om_lookup (sm_clients sm) (se_control_fd en) = Some c \<and> cc_hello_received c)"
  proof (cases "acceptable info")
    case True
    show ?thesis
    proof (cases "n = si_name info \<and> k = si_instance_id info")
      case same: True
      have "se_control_fd en = fd"
        using en a same addService_takeover(3) [OF True _ a, of _ n k] addService_new(3) [OF True _ a, of n k]
        by (cases "findEntry n k (sm_registry sm)") auto
      with conn show ?thesis by auto
    next
      case False
      then have "findEntry n k reg = findEntry n k (sm_registry sm)"
        using addService_takeover(3) [OF True _ a, of _ n k] addService_new(3) [OF True _ a, of n k]
        by (cases "findEntry (si_name info) (si_instance_id info) (sm_registry sm)") auto
      with en a show ?thesis by simp
    qed
  next
    case False
    with en show ?thesis by (simp add: addService_reject)
  qed
qed

lemma removeServiceByIdentity_sm_ok:
  assumes ok: "sm_ok sm" and r: "removeServiceByIdentity i (sm_registry sm) = (b, reg)"
  shows "sm_ok (sm\<lparr>sm_registry := reg\<rparr>)"
proof (rule registry_update_ok [OF ok])
  have rm: "removeEntryByName (id_name i) (id_instance_id i) (sm_registry sm) = (b, reg)"
    using r by (simp add: removeServiceByIdentity_def makeServiceInstanceKey_def)
  show "registry_ok reg" using removeEntryByName_ok [OF sm_okD(1) [OF ok], of "id_name i" "id_instance_id i"] rm by simp
  show "(\<exists>en'. findEntry n k (sm_registry sm) = Some en' \<and> se_control_fd en' = se_control_fd en) \<or>
      (\<exists>c. om_lookup (sm_clients sm) (se_control_fd en) = Some c \<and> cc_hello_received c)"
    if "findEntry n k reg = Some en" for n k en
    using that removeEntryByName_some(2) [OF _ rm] removeEntryByName_none [of "id_name i" "id_instance_id i" "sm_registry sm"] rm
    by (cases "findEntry (id_name i) (id_instance_id i) (sm_registry sm)") (auto split: if_splits)
qed

lemma watch_update_ok:
  assumes ok: "sm_ok sm" and wn: "watch_ok wn"
    and groups: "\<And>key g. om_lookup (groups wn) key = Some g \<Longrightarrow> om_lookup (groups (sm_watch_notifier sm)) key \<noteq> None \<or> live (fst key) sm"
  shows "sm_ok (sm\<lparr>sm_watch_notifier := wn\<rparr>)"
proof (rule sm_ok_tables [OF ok])
  show "tables_ok (sm\<lparr>sm_watch_notifier := wn\<rparr>)" using sm_okD [OF ok] wn by (simp add: tables_ok_def)
  show "holds sm r fd \<or> (\<exists>c. om_lookup (sm_clients sm) fd = Some c \<and> ref_ok r c)"
    if "holds (sm\<lparr>sm_watch_notifier := wn\<rparr>) r fd" for r fd
  proof (cases r)
    case (RefWatch i)
    with that groups [of "(fd, i)"] show ?thesis by (auto simp: holds.simps live_def)
  qed (use that in \<open>auto simp: holds.simps\<close>)
qed simp_all

lemma topic_update_ok:
  assumes ok: "sm_ok sm" and tm: "topic_step (sm_topic_manager sm) tm"
    and pubs: "\<And>s t k slot. pub_at tm s t k = Some slot \<Longrightarrow>
      (\<exists>slot'. pub_at (sm_topic_manager sm) s t k = Some slot' \<and> ps_fd slot' = ps_fd slot) \<or> live (ps_fd slot) sm"
    and subs: "\<And>s t fd k f. sub_at tm s t fd k = Some f \<Longrightarrow> sub_at (sm_topic_manager sm) s t fd k \<noteq> None \<or> live fd sm"
  shows "sm_ok (sm\<lparr>sm_topic_manager := tm\<rparr>)"
proof (rule sm_ok_tables [OF ok])
  show "tables_ok (sm\<lparr>sm_topic_manager := tm\<rparr>)"
    using sm_okD [OF ok] topic_step_inv [OF tm] by (simp add: tables_ok_def)
  show "holds sm r fd \<or> (\<exists>c. om_lookup (sm_clients sm) fd = Some c \<and> ref_ok r c)"
    if "holds (sm\<lparr>sm_topic_manager := tm\<rparr>) r fd" for r fd
  proof (cases r)
    case (RefPublisher s t k)
    with that obtain slot where "pub_at tm s t k = Some slot" "ps_fd slot = fd" by (auto simp: holds.simps)
    with pubs [of s t k slot] RefPublisher show ?thesis by (auto simp: holds.simps live_def)
  next
    case (RefSubscriber s t k)
    with that subs [of s t fd k] show ?thesis by (auto simp: holds.simps live_def)
  qed (use that in \<open>auto simp: holds.simps\<close>)
qed simp_all

lemma removePublishersByService_sm_ok:
  assumes ok: "sm_ok sm"
  shows "sm_ok (sm\<lparr>sm_topic_manager := snd (removePublishersByService name fd (sm_topic_manager sm))\<rparr>)"
proof -
  obtain ts tm where r: "removePublishersByService name fd (sm_topic_manager sm) = (ts, tm)" by force
  have wf: "topic_wf UNIV UNIV (sm_topic_manager sm)" using sm_okD(3) [OF ok] by (simp add: topic_inv_def)
  have sub: "sub_at tm = sub_at (sm_topic_manager sm)"
    and pub: "pub_at tm s t k = (if s = name then drop_if (\<lambda>slot. ps_fd slot = fd) (pub_at (sm_topic_manager sm) s t k)
        else pub_at (sm_topic_manager sm) s t k)" for s t k
    using removePublishersByService_spec [OF wf r] by simp_all
  show ?thesis unfolding r snd_conv
    by (rule topic_update_ok [OF ok topic_step.unregister [OF r]]) (auto simp: sub pub drop_if_Some split: if_splits)
qed

subsection \<open>Registry and topic requests\<close>

lemma live_tables [simp]:
  "live fd (sm\<lparr>sm_registry := reg\<rparr>) = live fd sm" "live fd (sm\<lparr>sm_watch_notifier := wn\<rparr>) = live fd sm"
  "live fd (sm\<lparr>sm_topic_manager := tm\<rparr>) = live fd sm"
  by (simp_all add: live_def)

lemma liveE:
  assumes "live fd sm"
  obtains c where "om_lookup (sm_clients sm) fd = Some c"
  using assms by (auto simp: live_def)

lemma retire_displaced_ok: "sm_ok sm \<Longrightarrow> sm_ok (retire_displaced e name displaced fd sm)"
  using removePublishersByService_sm_ok [of sm name displaced] by (simp add: retire_displaced_def Let_def closeClient_ok)

lemma handleRegister_ok:
  assumes ok: "sm_ok sm" and live: "live fd sm"
  shows "sm_ok (handleRegister e fd msg sm)"
proof -
  obtain c where c: "om_lookup (sm_clients sm) fd = Some c" using live by (rule liveE)
  show ?thesis
  proof (cases "cc_hello_received c")
    case False
    then show ?thesis by (simp add: handleRegister_def with_conn_def c sendRegisterReply_ok ok live)
  next
    case True
    note add = addService_sm_ok [OF ok c True]
    show ?thesis
      using True add live
      by (auto simp: handleRegister_def with_conn_def c sendRegisterReply_ok ok Let_def case_prod_unfold notify_watch_ok
          intro!: retire_displaced_ok split: option.splits)
  qed
qed

lemma removeServiceAndNotify_ok:
  assumes ok: "sm_ok sm" and r: "removeServiceAndNotify e i fd sm = (b, sm')"
  shows "sm_ok sm'" "\<not> b \<Longrightarrow> sm' = sm"
proof -
  obtain b' reg where rm: "removeServiceByIdentity i (sm_registry sm) = (b', reg)" by force
  note reg = notifyServiceRemoved_ok [OF removeServiceByIdentity_sm_ok [OF ok rm], of e i]
  show "sm_ok sm'" "\<not> b \<Longrightarrow> sm' = sm"
    using r ok reg removePublishersByService_sm_ok [OF reg, of "id_name i" fd]
    by (auto simp: removeServiceAndNotify_def rm Let_def split: bool.splits if_splits)
qed

lemma handleUnregister_ok:
  assumes ok: "sm_ok sm" and live: "live fd sm"
  shows "sm_ok (handleUnregister e fd msg sm)"
proof -
  have "sm_ok (case removeServiceAndNotify e i fd sm of (success, sm) \<Rightarrow> if success \<and> \<not> live fd sm then sm
      else sendBoolReply e fd MSG_UNREGISTER_REPLY (seq_of msg) success sm)" for i
  proof -
    obtain b sm' where r: "removeServiceAndNotify e i fd sm = (b, sm')" by force
    note n = removeServiceAndNotify_ok [OF ok r]
    show ?thesis using n live by (cases b) (auto simp: r sendBoolReply_ok)
  qed
  then show ?thesis by (auto simp: handleUnregister_def sendBoolReply_ok ok live split: option.splits)
qed

lemma lookups_ok:
  assumes "sm_ok sm" "live fd sm"
  shows "sm_ok (handleLookup e fd msg sm)" "sm_ok (handleListInstances e fd msg sm)" "sm_ok (handleListServices e fd msg sm)"
    "sm_ok (handleQueryInterfaces e fd msg sm)" "sm_ok (handleQueryPublishedTopics e fd msg sm)"
  by (auto simp: handleLookup_def sendLookupReply_def handleListInstances_def sendListInstancesReply_def
      handleListServices_def sendListServicesReply_def handleQueryInterfaces_def sendQueryInterfacesReply_def
      handleQueryPublishedTopics_def sendQueryPublishedTopicsReply_def Let_def reply_if_ok assms split: option.splits)

lemma handleUnsubscribeServiceWatch_ok:
  assumes ok: "sm_ok sm"
  shows "sm_ok (handleUnsubscribeServiceWatch fd msg sm)"
proof -
  have "sm_ok (sm\<lparr>sm_watch_notifier := snd (watch_unsubscribe fd i (sm_watch_notifier sm))\<rparr>)" for i
  proof -
    obtain b wn where r: "watch_unsubscribe fd i (sm_watch_notifier sm) = (b, wn)" by force
    note sp = watch_unsubscribe_spec [OF sm_okD(2) [OF ok] r]
    show ?thesis unfolding r snd_conv by (rule watch_update_ok [OF ok sp(1)]) (auto simp: sp(2) split: if_splits)
  qed
  then show ?thesis by (simp add: handleUnsubscribeServiceWatch_def ok split: option.splits)
qed

lemma watch_subscribe_sm_ok:
  assumes ok: "sm_ok sm" and live: "live fd sm" and r: "watch_subscribe fd i filters (sm_watch_notifier sm) = (b, wn)"
  shows "sm_ok (sm\<lparr>sm_watch_notifier := wn\<rparr>)"
proof -
  note sp = watch_subscribe_spec [OF sm_okD(2) [OF ok] r]
  show ?thesis by (rule watch_update_ok [OF ok sp(1)]) (use live in \<open>auto simp: sp(3) split: if_splits\<close>)
qed

lemma registerPublisher_sm_ok:
  assumes ok: "sm_ok sm" and live: "live fd sm"
  shows "sm_ok (sm\<lparr>sm_topic_manager := snd (registerPublisher topic info fd h (sm_topic_manager sm))\<rparr>)"
proof -
  obtain b tm where r: "registerPublisher topic info fd h (sm_topic_manager sm) = (b, tm)" by force
  have wf: "topic_wf UNIV UNIV (sm_topic_manager sm)" using sm_okD(3) [OF ok] by (simp add: topic_inv_def)
  have sub: "sub_at tm = sub_at (sm_topic_manager sm)"
    and pub: "pub_at tm s t k = Some slot \<Longrightarrow> pub_at (sm_topic_manager sm) s t k = Some slot \<or> ps_fd slot = fd" for s t k slot
    using registerPublisher_spec [OF wf r] by (auto simp: slot_of_def split: if_splits)
  show ?thesis unfolding r snd_conv
    by (rule topic_update_ok [OF ok topic_step.register [OF r]]) (use live in \<open>auto simp: sub dest!: pub\<close>)
qed

lemma handlePublishTopic_ok:
  assumes ok: "sm_ok sm" and live: "live fd sm"
  shows "sm_ok (handlePublishTopic e fd msg sm)"
  by (auto simp: handlePublishTopic_def Let_def case_prod_unfold sendBoolReply_ok ok live registerPublisher_sm_ok
      sendTopicPublisherNotify_ok intro!: fold_ok split: option.splits)

lemma handleUnpublishTopic_ok:
  assumes ok: "sm_ok sm"
  shows "sm_ok (handleUnpublishTopic fd msg sm)"
proof -
  have wf: "topic_wf UNIV UNIV (sm_topic_manager sm)" using sm_okD(3) [OF ok] by (simp add: topic_inv_def)
  have "sm_ok (sm\<lparr>sm_topic_manager := snd (removePublisherOf topic fd (sm_topic_manager sm))\<rparr>)" for topic
  proof -
    obtain b tm where r: "removePublisherOf topic fd (sm_topic_manager sm) = (b, tm)" by force
    note sp = removePublisherOf_spec [OF wf r]
    show ?thesis unfolding r snd_conv
      by (rule topic_update_ok [OF ok topic_step.unpublish [OF r]]) (auto simp: sp(3,4) drop_if_Some split: if_splits)
  qed
  then show ?thesis by (simp add: handleUnpublishTopic_def ok split: option.splits)
qed

lemma handleSubscribeTopic_ok:
  assumes ok: "sm_ok sm" and live: "live fd sm"
  shows "sm_ok (handleSubscribeTopic e fd msg sm)"
proof -
  have sub: "sm_ok (sm\<lparr>sm_topic_manager := snd (addSubscriberFilter topic sel fd (sm_topic_manager sm))\<rparr>)" for topic sel
  proof -
    obtain b tm where r: "addSubscriberFilter topic sel fd (sm_topic_manager sm) = (b, tm)" by force
    have wf: "topic_wf UNIV UNIV (sm_topic_manager sm)" using sm_okD(3) [OF ok] by (simp add: topic_inv_def)
    have pub: "pub_at tm = pub_at (sm_topic_manager sm)"
      and sub: "sub_at tm s t fd' k = Some f \<Longrightarrow> sub_at (sm_topic_manager sm) s t fd' k \<noteq> None \<or> fd' = fd" for s t fd' k f
      using addSubscriberFilter_spec [OF wf UNIV_I r] by (auto split: if_splits)
    show ?thesis unfolding r snd_conv
      by (rule topic_update_ok [OF ok topic_step.subscribe [OF r]]) (use live in \<open>auto simp: pub dest!: sub\<close>)
  qed
  show ?thesis
    by (auto simp: handleSubscribeTopic_def sendSubscribeTopicReply_def Let_def case_prod_unfold reply_ok ok live sub
        sendTopicPublisherNotify_ok intro!: fold_ok split: option.splits)
qed

lemma handleUnsubscribeTopic_ok:
  assumes ok: "sm_ok sm"
  shows "sm_ok (handleUnsubscribeTopic e fd msg sm)"
proof -
  have wf: "topic_wf UNIV UNIV (sm_topic_manager sm)" using sm_okD(3) [OF ok] by (simp add: topic_inv_def)
  have "sm_ok (sm\<lparr>sm_topic_manager := snd (removeSubscriberFilter topic sel fd (sm_topic_manager sm))\<rparr>)" for topic sel
  proof -
    obtain b tm where r: "removeSubscriberFilter topic sel fd (sm_topic_manager sm) = (b, tm)" by force
    have pub: "pub_at tm = pub_at (sm_topic_manager sm)"
      and sub: "sub_at tm s t fd' k = Some f \<Longrightarrow> sub_at (sm_topic_manager sm) s t fd' k \<noteq> None" for s t fd' k f
      using removeSubscriberFilter_spec [OF wf UNIV_I r] by (auto split: if_splits)
    show ?thesis unfolding r snd_conv
      by (rule topic_update_ok [OF ok topic_step.unsubscribe [OF r]]) (auto simp: pub dest!: sub)
  qed
  then show ?thesis by (simp add: handleUnsubscribeTopic_def ok case_prod_unfold split: option.splits)
qed

end
