(* ===== verification/SMSessions.thy ===== *)
theory SMSessions
  imports SMSafety
begin

section \<open>Sessions, diagnostics and events keep the invariant\<close>

text \<open>
  The handlers of \<open>SMDiag\<close>, the timers and the events of \<open>SMApp\<close>, and the histories of the service
  manager as a step relation.
\<close>

subsection \<open>Steps outside the tables\<close>

definition quiet :: "('k, 'b) ServiceManagerApp \<Rightarrow> ('k, 'b) ServiceManagerApp \<Rightarrow> bool" where
  "quiet sm sm' \<longleftrightarrow> tables sm' = tables sm \<and> sm_clients sm' = sm_clients sm \<and> sm_server sm' = sm_server sm \<and>
     sm_seq_counter sm' = sm_seq_counter sm \<and> sm_dangling sm' = sm_dangling sm"

lemma quiet_refl [simp]: "quiet sm sm"
  by (simp add: quiet_def)

lemma quiet_trans: "quiet sm1 sm2 \<Longrightarrow> quiet sm2 sm3 \<Longrightarrow> quiet sm1 sm3"
  by (simp add: quiet_def)

lemma quiet_clients: "quiet sm sm' \<Longrightarrow> sm_clients sm' = sm_clients sm"
  by (simp add: quiet_def)

lemma quiet_live: "quiet sm sm' \<Longrightarrow> live fd sm' = live fd sm"
  by (simp add: quiet_def live_def)

lemma quiet_ok:
  assumes "quiet sm sm'" "sm_ok sm"
  shows "sm_ok sm'"
proof (rule sm_ok_conns [OF assms(2)])
  show "connected sm'" by (rule connected_keep [OF sm_okD(6) [OF assms(2)]]) (use assms(1) in \<open>simp_all add: quiet_def\<close>)
qed (use assms(1) in \<open>auto simp: quiet_def\<close>)

lemma sm_now_quiet: "quiet sm (snd (sm_now e sm))"
  by (simp add: sm_now_def quiet_def tables_def split: prod.splits)

lemma sm_cancelTimer_quiet: "quiet sm (sm_cancelTimer i sm)"
  by (simp add: sm_cancelTimer_def quiet_def tables_def)

lemma sm_addTimer_quiet: "quiet sm (snd (sm_addTimer e d cb sm))"
  using sm_now_quiet [of sm e] by (auto simp: sm_addTimer_def quiet_def tables_def split: prod.splits)

lemma put_conn_ok:
  assumes ok: "sm_ok sm" and conn: "om_lookup (sm_clients sm) fd = Some c"
    and refs: "\<And>r. holds sm r fd \<Longrightarrow> ref_ok r c \<Longrightarrow> ref_ok r c'"
  shows "sm_ok (put_conn fd c' sm)"
proof (rule sm_ok_conns [OF ok])
  have live: "live fd' (put_conn fd c' sm) = live fd' sm" for fd'
    using conn by (simp add: live_def put_conn_def om_lookup_update)
  show "connected (put_conn fd c' sm)"
    using sm_okD(6) [OF ok] unfolding connected_def live by (simp add: put_conn_def)
  show "\<exists>c''. om_lookup (sm_clients (put_conn fd c' sm)) fd' = Some c'' \<and> (\<forall>r. holds sm r fd' \<longrightarrow> ref_ok r d \<longrightarrow> ref_ok r c'')"
    if "om_lookup (sm_clients sm) fd' = Some d" for fd' d
    using that conn refs by (auto simp: put_conn_def om_lookup_update)
qed (simp add: put_conn_def tables_def)

text \<open>A change of the connection that keeps what references look at.\<close>

lemma put_conn_keeps_ok:
  assumes "sm_ok sm" "om_lookup (sm_clients sm) fd = Some c" "cc_pid c' = cc_pid c"
    "cc_runtime_registered c' = cc_runtime_registered c" "cc_hello_received c' = cc_hello_received c"
  shows "sm_ok (put_conn fd c' sm)"
proof (rule put_conn_ok [OF assms(1,2)])
  show "ref_ok r c'" if "ref_ok r c" for r using that assms(3-5) by (cases r) auto
qed

lemma put_conn_lookup [simp]: "om_lookup (sm_clients (put_conn fd c sm)) fd = Some c"
  by (simp add: put_conn_def)

lemma put_conn_live: "live fd' (put_conn fd c sm) \<longleftrightarrow> fd' = fd \<or> live fd' sm"
  by (simp add: put_conn_def live_def om_lookup_update)

subsection \<open>Deadlines\<close>

text \<open>Arming a deadline is quiet up to the connection's generation and timer.\<close>

lemma armSessionDeadline_effect:
  assumes "om_lookup (sm_clients sm) fd = Some c"
  shows "\<exists>sm' g i. quiet sm sm' \<and> armSessionDeadline e fd sm =
    (if cc_hello_received c then put_conn fd (c\<lparr>cc_session_generation := g, cc_deadline_timer_id := i\<rparr>) sm' else sm)"
proof -
  let ?t = "if 0 < cc_session_timeout_ms c then cc_session_timeout_ms c else DEFAULT_HEARTBEAT_TIMEOUT"
  let ?g = "cc_session_generation c + 1" and ?sm = "sm_cancelTimer (cc_deadline_timer_id c) sm"
  have "quiet sm (snd (sm_addTimer e ?t (SessionDeadline fd ?g) ?sm))"
    by (rule quiet_trans [OF sm_cancelTimer_quiet sm_addTimer_quiet])
  moreover have "armSessionDeadline e fd sm = (if cc_hello_received c then
      put_conn fd (c\<lparr>cc_session_generation := ?g, cc_deadline_timer_id := fst (sm_addTimer e ?t (SessionDeadline fd ?g) ?sm)\<rparr>)
        (snd (sm_addTimer e ?t (SessionDeadline fd ?g) ?sm)) else sm)"
    by (simp add: armSessionDeadline_def with_conn_def assms Let_def case_prod_unfold)
  ultimately show ?thesis by blast
qed

lemma armSessionDeadline_ok:
  assumes ok: "sm_ok sm" and conn: "om_lookup (sm_clients sm) fd = Some c"
  shows "sm_ok (armSessionDeadline e fd sm)"
proof -
  obtain sm' g i where q: "quiet sm sm'" and a: "armSessionDeadline e fd sm =
      (if cc_hello_received c then put_conn fd (c\<lparr>cc_session_generation := g, cc_deadline_timer_id := i\<rparr>) sm' else sm)"
    using armSessionDeadline_effect [OF conn] by blast
  have "sm_ok (put_conn fd (c\<lparr>cc_session_generation := g, cc_deadline_timer_id := i\<rparr>) sm')"
    by (rule put_conn_keeps_ok [OF quiet_ok [OF q ok]]) (use conn in \<open>simp_all add: quiet_clients [OF q]\<close>)
  with a ok show ?thesis by simp
qed

lemma armSessionDeadline_lookup:
  assumes conn: "om_lookup (sm_clients sm) fd = Some c"
  shows "\<exists>c'. om_lookup (sm_clients (armSessionDeadline e fd sm)) fd = Some c' \<and> cc_pid c' = cc_pid c \<and>
    cc_runtime_registered c' = cc_runtime_registered c \<and> cc_hello_received c' = cc_hello_received c"
  using armSessionDeadline_effect [OF conn, of e] conn by force

lemma armHelloDeadline_ok:
  assumes ok: "sm_ok sm" and conn: "om_lookup (sm_clients sm) fd = Some c"
  shows "sm_ok (armHelloDeadline e fd sm)"
proof -
  let ?g = "cc_session_generation c + 1" and ?sm = "sm_cancelTimer (cc_hello_timer_id c) sm"
  let ?a = "sm_addTimer e DEFAULT_SESSION_HELLO_TIMEOUT (HelloDeadline fd ?g) ?sm"
  have q: "quiet sm (snd ?a)" by (rule quiet_trans [OF sm_cancelTimer_quiet sm_addTimer_quiet])
  have "armHelloDeadline e fd sm = put_conn fd (c\<lparr>cc_session_generation := ?g, cc_hello_timer_id := fst ?a\<rparr>) (snd ?a)"
    by (simp add: armHelloDeadline_def with_conn_def conn Let_def case_prod_unfold)
  also have "sm_ok \<dots>"
    by (rule put_conn_keeps_ok [OF quiet_ok [OF q ok]]) (use conn in \<open>simp_all add: quiet_clients [OF q]\<close>)
  finally show ?thesis .
qed

lemma handleControlHeartbeat_ok:
  assumes ok: "sm_ok sm" and live: "live fd sm"
  shows "sm_ok (handleControlHeartbeat e fd msg sm)"
proof -
  obtain c where c: "om_lookup (sm_clients sm) fd = Some c" using live by (rule liveE)
  let ?c = "c\<lparr>cc_last_heartbeat_ms := fst (sm_now e sm)\<rparr>"
  let ?sm = "put_conn fd ?c (snd (sm_now e sm))"
  have p: "sm_ok ?sm"
    by (rule put_conn_keeps_ok [OF quiet_ok [OF sm_now_quiet ok]]) (use c in \<open>simp_all add: quiet_clients [OF sm_now_quiet]\<close>)
  have "sm_ok (armSessionDeadline e fd ?sm)" by (rule armSessionDeadline_ok [OF p]) simp
  moreover have "live fd (armSessionDeadline e fd ?sm)"
    using armSessionDeadline_lookup [of ?sm fd ?c e] by (auto simp: live_def)
  ultimately have "sm_ok (sendControlHeartbeatAck e fd seq (armSessionDeadline e fd ?sm))" for seq
    unfolding sendControlHeartbeatAck_def by (rule reply_ok)
  then show ?thesis
    by (simp add: handleControlHeartbeat_def with_conn_def c closeClient_ok ok case_prod_unfold split: option.splits)
qed

subsection \<open>Hello\<close>

lemma touch_conn_cases: "touch_conn fd sm = (if live fd sm then sm else sm\<lparr>sm_dangling := True\<rparr>)"
  by (simp add: touch_conn_def with_conn_def live_def split: option.splits)

lemma sm_ok_imp_upto: "sm_ok sm \<Longrightarrow> sm_ok_upto sm"
proof -
  assume ok: "sm_ok sm"
  then have "\<not> sm_dangling sm" using sm_okD(6) by (auto simp: connected_def)
  then have "sm\<lparr>sm_dangling := False\<rparr> = sm" by simp
  with ok show ?thesis by (simp add: sm_ok_upto_def)
qed

text \<open>The invariant, except that the connection at hand may have been used after its deletion.\<close>

definition semi_ok :: "int \<Rightarrow> ('k, 'b) ServiceManagerApp \<Rightarrow> bool" where
  "semi_ok fd sm \<longleftrightarrow> sm_ok_upto sm \<and> (live fd sm \<longrightarrow> sm_ok sm)"

lemma sm_ok_semi: "sm_ok sm \<Longrightarrow> semi_ok fd sm"
  by (simp add: semi_ok_def sm_ok_imp_upto)

lemma semi_okD: "semi_ok fd sm \<Longrightarrow> live fd sm \<Longrightarrow> sm_ok sm" "semi_ok fd sm \<Longrightarrow> \<not> sm_dangling sm \<Longrightarrow> sm_ok sm"
proof -
  show "sm_ok sm" if "semi_ok fd sm" "live fd sm" using that by (simp add: semi_ok_def)
  assume s: "semi_ok fd sm" and "\<not> sm_dangling sm"
  then have "sm\<lparr>sm_dangling := False\<rparr> = sm" by simp
  with s show "sm_ok sm" by (simp add: semi_ok_def sm_ok_upto_def)
qed

lemma touch_conn_live [simp]: "live fd' (touch_conn fd sm) = live fd' sm"
  by (simp add: touch_conn_cases live_def)

lemma touch_conn_semi: "semi_ok fd sm \<Longrightarrow> semi_ok fd (touch_conn fd sm)"
  by (auto simp: touch_conn_cases semi_ok_def sm_ok_upto_def live_def)

lemma removePidFd_ok:
  assumes ok: "sm_ok sm"
  shows "sm_ok (removePidFd pid fd sm)"
proof (rule sm_ok_tables [OF ok])
  show "tables_ok (removePidFd pid fd sm)" using sm_okD(8) [OF ok] by (simp add: tables_ok_def)
qed (auto simp: removePidFd_holds)

lemma list_at_push: "set (list_at (push_new k x m) k') = (if k' = k then insert x (set (list_at m k')) else set (list_at m k'))"
  by (auto simp: push_new_def list_at_update)

lemma push_pid_ok:
  assumes ok: "sm_ok sm" and conn: "om_lookup (sm_clients sm) fd = Some c" "cc_runtime_registered c" "cc_pid c = pid"
  shows "sm_ok (sm\<lparr>sm_pid_to_fds := push_new pid fd (sm_pid_to_fds sm)\<rparr>)"
proof (rule sm_ok_tables [OF ok])
  show "tables_ok (sm\<lparr>sm_pid_to_fds := push_new pid fd (sm_pid_to_fds sm)\<rparr>)"
    using sm_okD(8) [OF ok] by (simp add: tables_ok_def)
  show "holds sm r fd' \<or> (\<exists>c. om_lookup (sm_clients sm) fd' = Some c \<and> ref_ok r c)"
    if "holds (sm\<lparr>sm_pid_to_fds := push_new pid fd (sm_pid_to_fds sm)\<rparr>) r fd'" for r fd'
    using that conn by (cases r) (auto simp: holds.simps list_at_push split: if_splits)
qed simp_all

lemma accept_hello_ok:
  assumes ok: "sm_ok sm" and live: "live fd sm"
  shows "sm_ok (accept_hello e fd info rid key interval timeout sm)" "live fd (accept_hello e fd info rid key interval timeout sm)"
proof -
  obtain c where c: "om_lookup (sm_clients sm) fd = Some c" using live by (rule liveE)
  define sm1 where "sm1 = sm\<lparr>sm_runtime_sessions := om_update key fd (sm_runtime_sessions sm)\<rparr>"
  define sm2 where "sm2 = (if cc_runtime_registered c \<and> cc_pid c \<noteq> ri_pid info then removePidFd (cc_pid c) fd sm1 else sm1)"
  define sm3 where "sm3 = sm_cancelTimer (cc_hello_timer_id c) (snd (sm_now e sm2))"
  define c' where "c' = c\<lparr>cc_pid := ri_pid info, cc_process_name := ri_process_name info, cc_log_level := ri_log_level info,
      cc_runtime_registered := True, cc_runtime_id := rid, cc_host_id := ri_host_id info, cc_session_key := key,
      cc_incarnation_id := ri_incarnation_id info, cc_session_interval_ms := interval, cc_session_timeout_ms := timeout,
      cc_last_heartbeat_ms := fst (sm_now e sm2), cc_hello_received := True, cc_hello_timer_id := 0\<rparr>"
  define sm4 where "sm4 = armSessionDeadline e fd (put_conn fd c' sm3)"
  have a: "accept_hello e fd info rid key interval timeout sm = sm4\<lparr>sm_pid_to_fds := push_new (ri_pid info) fd (sm_pid_to_fds sm4)\<rparr>"
    by (simp add: accept_hello_def with_conn_def c Let_def case_prod_unfold sm1_def sm2_def sm3_def sm4_def c'_def)
  have 1: "sm_ok sm1" using ok by (rule quiet_ok [rotated]) (simp add: sm1_def quiet_def tables_def)
  have 2: "sm_ok sm2" "sm_clients sm2 = sm_clients sm" using 1 by (simp_all add: sm2_def removePidFd_ok sm1_def)
  have q: "quiet sm2 sm3" unfolding sm3_def by (rule quiet_trans [OF sm_now_quiet sm_cancelTimer_quiet])
  note 3 = quiet_ok [OF q 2(1)]
  have c3: "om_lookup (sm_clients sm3) fd = Some c" using c 2(2) by (simp add: quiet_clients [OF q])
  have "sm_ok (put_conn fd c' sm3)"
  proof (rule put_conn_ok [OF 3 c3])
    fix r
    assume h: "holds sm3 r fd" and ro: "ref_ok r c"
    show "ref_ok r c'"
    proof (cases r)
      case (RefPid pid)
      have "holds sm2 r fd" using h tables_holds [of sm3 sm2] q by (simp add: quiet_def)
      with ro RefPid show ?thesis by (auto simp: sm2_def removePidFd_holds c'_def split: if_splits)
    qed (simp_all add: c'_def)
  qed
  note 4 = armSessionDeadline_ok [OF this put_conn_lookup, of e, folded sm4_def]
  obtain c'' where c'': "om_lookup (sm_clients sm4) fd = Some c''" "cc_pid c'' = ri_pid info" "cc_runtime_registered c''"
    using armSessionDeadline_lookup [of "put_conn fd c' sm3" fd c' e, folded sm4_def] by (auto simp: c'_def)
  show "sm_ok (accept_hello e fd info rid key interval timeout sm)"
    unfolding a by (rule push_pid_ok [OF 4 c''(1,3,2)])
  show "live fd (accept_hello e fd info rid key interval timeout sm)" unfolding a using c''(1) by (simp add: live_def)
qed

lemma supersede_semi:
  assumes ok: "sm_ok sm" and live: "live fd sm" and r: "supersede e fd key inc sm = (b, sm')"
  shows "semi_ok fd sm'" "b \<longleftrightarrow> live fd sm'"
proof -
  have "semi_ok fd sm' \<and> (b \<longleftrightarrow> live fd sm')"
  proof (cases "om_lookup (sm_runtime_sessions sm) key")
    case None
    with r ok live show ?thesis by (auto simp: supersede_def sm_ok_semi)
  next
    case (Some old_fd)
    show ?thesis using r Some ok live touch_conn_semi [OF sm_ok_semi [OF closeClient_ok [OF ok]]]
      by (auto simp: supersede_def Let_def sm_ok_semi split: if_splits)
  qed
  then show "semi_ok fd sm'" "b \<longleftrightarrow> live fd sm'" by simp_all
qed

lemma reject_hello_ok: "sm_ok sm \<Longrightarrow> live fd sm \<Longrightarrow> sm_ok (reject_hello e fd seq sm)"
  unfolding reject_hello_def by (rule reply_ok)

lemma handleRuntimeHello_semi:
  assumes ok: "sm_ok sm" and live: "live fd sm"
  shows "semi_ok fd (handleRuntimeHello e fd msg sm)"
proof -
  note rej = sm_ok_semi [OF reject_hello_ok [OF ok live]]
  have tail: "semi_ok fd (case m of None \<Rightarrow> closeClient e fd True sm | Some m \<Rightarrow> touch_conn fd (reply e fd m sm))"
    if "sm_ok sm" "live fd sm" for m and sm :: "('a, 'b) ServiceManagerApp"
    using that sm_ok_semi [OF closeClient_ok [OF that(1)]] touch_conn_semi [OF sm_ok_semi [OF reply_ok [OF that]]]
    by (simp split: option.splits)
  show ?thesis
  proof (cases "fst (deserializeRuntimeInfo (payload_view msg))")
    case None
    then show ?thesis by (simp add: handleRuntimeHello_def rej)
  next
    case (Some info)
    define rid where "rid = hello_runtime_id info"
    define key where "key = makeRuntimeSessionKey (ri_host_id info) rid"
    obtain b sm' where s: "supersede e fd key (ri_incarnation_id info) sm = (b, sm')" by force
    note sp = supersede_semi [OF ok live s]
    have "semi_ok fd (case f of None \<Rightarrow> closeClient e fd True (accept_hello e fd info rid key interval timeout sm')
        | Some m \<Rightarrow> touch_conn fd (reply e fd m (accept_hello e fd info rid key interval timeout sm')))" if b for f interval timeout
      using sp that by (intro tail accept_hello_ok) (simp_all add: semi_okD(1))
    then show ?thesis
      using Some s sp(1)
      by (simp add: handleRuntimeHello_def rej Let_def flip: rid_def key_def split: bool.splits)
  qed
qed

subsection \<open>Service watches\<close>

lemma send_watch_semi:
  assumes "semi_ok fd sm" "live fd sm"
  shows "semi_ok fd (sendServiceWatchNotify e (\<lambda>fd. closeClient e fd True) fd i identity online sm)"
  by (rule sm_ok_semi [OF sendServiceWatchNotify_ok [OF semi_okD(1) [OF assms] assms(2)]])

lemma announce_instances_semi: "semi_ok fd sm \<Longrightarrow> semi_ok fd (announce_instances e fd i is sm)"
proof (induction "is" arbitrary: sm)
  case (Cons x "is")
  then show ?case
    using touch_conn_semi [OF Cons.prems] send_watch_semi [OF touch_conn_semi [OF Cons.prems]] by (simp add: Let_def)
qed simp

lemma sendInitialServiceWatch_semi: "semi_ok fd sm \<Longrightarrow> semi_ok fd (sendInitialServiceWatch e fd i f sm)"
  using touch_conn_semi [of fd sm] send_watch_semi [of fd "touch_conn fd sm"]
  by (simp add: sendInitialServiceWatch_def Let_def announce_instances_semi)

lemma announce_filters_semi: "semi_ok fd sm \<Longrightarrow> semi_ok fd (announce_filters e fd i fs sm)"
proof (induction fs arbitrary: sm)
  case (Cons f fs)
  then show ?case
    using touch_conn_semi [OF Cons.prems] sendInitialServiceWatch_semi [OF touch_conn_semi [OF Cons.prems]]
    by (simp add: Let_def)
qed simp

lemma handleSubscribeServiceWatch_semi:
  assumes ok: "sm_ok sm" and live: "live fd sm"
  shows "semi_ok fd (handleSubscribeServiceWatch e fd msg sm)"
proof -
  have "semi_ok fd (case watch_subscribe fd i fs (sm_watch_notifier sm) of (accepted, wn) \<Rightarrow>
      let sm = sendBoolReply e fd MSG_SUBSCRIBE_SERVICE_WATCH_REPLY (seq_of msg) accepted (sm\<lparr>sm_watch_notifier := wn\<rparr>)
      in if \<not> accepted then sm else announce_filters e fd i fs sm)" for i fs
  proof -
    obtain b wn where r: "watch_subscribe fd i fs (sm_watch_notifier sm) = (b, wn)" by force
    have "sm_ok (sendBoolReply e fd t q a (sm\<lparr>sm_watch_notifier := wn\<rparr>))" for t q a
      using watch_subscribe_sm_ok [OF ok live r] live by (intro sendBoolReply_ok) simp_all
    from sm_ok_semi [OF this] show ?thesis by (simp add: r Let_def announce_filters_semi)
  qed
  then show ?thesis
    using sm_ok_semi [OF sendBoolReply_ok [OF ok live]]
    by (simp add: handleSubscribeServiceWatch_def split: option.splits)
qed

subsection \<open>Diagnostics\<close>

lemma handleRuntimeList_ok: "sm_ok sm \<Longrightarrow> live fd sm \<Longrightarrow> sm_ok (handleRuntimeList e fd msg sm)"
  by (simp add: handleRuntimeList_def Let_def case_prod_unfold reply_ok)

lemma proactive_reply_ok:
  "sm_ok sm \<Longrightarrow> live fd sm \<Longrightarrow> sm_ok (reply e fd m (snd (nextSMProactiveSequence sm)))"
  by (rule reply_ok [OF nextSM_ok]) simp_all

lemma handleDiagSetLogLevel_ok:
  assumes ok: "sm_ok sm" and live: "live fd sm"
  shows "sm_ok (handleDiagSetLogLevel e fd msg sm)"
proof -
  have visit: "sm_ok (snd (set_level e level target sm))" if "sm_ok sm" "live target sm" for level target sm
    using proactive_reply_ok [OF that]
    by (auto simp: set_level_def case_prod_unfold Let_def intro: put_conn_keeps_ok split: option.splits)
  have "sm_ok (snd (forEachPidConn pid fd (set_level e level) sm))" for pid level
    by (rule forEachPidConn_ok [OF visit ok])
  then show ?thesis
    using sendBoolReply_ok [OF ok live]
    by (auto simp: handleDiagSetLogLevel_def case_prod_unfold sendBoolReply_ok split: option.splits)
qed

lemma watch_pair_ok:
  assumes ok: "sm_ok sm" and live: "live fd sm"
  shows "sm_ok (sm\<lparr>sm_watcher_to_pids := bucket_insert fd pid (sm_watcher_to_pids sm),
    sm_pid_watchers := push_new pid fd (sm_pid_watchers sm)\<rparr>)" (is "sm_ok ?sm")
proof (rule sm_okI)
  have h: "holds ?sm r fd' \<longleftrightarrow> holds sm r fd' \<or> (r = RefWatcher pid \<or> r = RefWatching pid) \<and> fd' = fd" for r fd'
    by (cases r) (auto simp: holds.simps list_at_push)
  show "tables_ok ?sm" using sm_okD(8) [OF ok] by (simp add: tables_ok_def)
  show "\<exists>c. om_lookup (sm_clients ?sm) fd' = Some c \<and> ref_ok r c" if "holds ?sm r fd'" for r fd'
    using that sm_okD(4) [OF ok, of r fd'] live unfolding h by (auto simp: live_def)
  show "holds ?sm (RefWatching p) fd' = holds ?sm (RefWatcher p) fd'" for p fd'
    unfolding h using sm_okD(5) [OF ok, of p fd'] by blast
  show "connected ?sm" by (rule connected_keep [OF sm_okD(6) [OF ok]]) simp_all
qed

lemma handleDiagWatchStart_ok:
  assumes ok: "sm_ok sm" and live: "live fd sm"
  shows "sm_ok (handleDiagWatchStart e fd msg sm)"
proof -
  have visit: "sm_ok (snd (start_watch e target sm))" if "sm_ok sm" "live target sm" for target sm
    using proactive_reply_ok [OF that] by (simp add: start_watch_def case_prod_unfold Let_def)
  have each: "sm_ok (snd (forEachPidConn pid fd (start_watch e) sm))" for pid
    by (rule forEachPidConn_ok [OF visit ok])
  have "sm_ok (if \<not> live fd sm then sm else sendBoolReply e fd t q sent
      (if sent then sm\<lparr>sm_watcher_to_pids := bucket_insert fd pid (sm_watcher_to_pids sm),
      sm_pid_watchers := push_new pid fd (sm_pid_watchers sm)\<rparr> else sm))"
    if "sm_ok sm" for sent pid t q and sm :: "('a, 'b) ServiceManagerApp"
  proof (cases "live fd sm")
    case True
    note p = watch_pair_ok [OF that True, of pid]
    have "sm_ok (sendBoolReply e fd t q sent (sm\<lparr>sm_watcher_to_pids := bucket_insert fd pid (sm_watcher_to_pids sm),
      sm_pid_watchers := push_new pid fd (sm_pid_watchers sm)\<rparr>))"
      by (rule sendBoolReply_ok [OF p]) (use True in \<open>simp add: live_def\<close>)
    with True that show ?thesis by (cases sent) (simp_all add: sendBoolReply_ok)
  qed (simp add: that)
  with each sendBoolReply_ok [OF ok live] show ?thesis
    by (simp add: handleDiagWatchStart_def case_prod_unfold split: option.splits)
qed

lemma removeWatcherPair_ok:
  assumes ok: "sm_ok sm"
  shows "sm_ok (snd (removeWatcherPair e fd pid sm))"
proof (cases "\<exists>pids. om_lookup (sm_watcher_to_pids sm) fd = Some pids \<and> os_member pids pid")
  case False
  then show ?thesis by (auto simp: removeWatcherPair_def ok split: option.splits)
next
  case True
  let ?s1 = "sm\<lparr>sm_watcher_to_pids := bucket_erase fd pid (sm_watcher_to_pids sm)\<rparr>"
  obtain b s2 where u: "unwatch pid fd ?s1 = (b, s2)" by force
  have h: "holds s2 r fd' \<longleftrightarrow> holds sm r fd' \<and> \<not> ((r = RefWatcher pid \<or> r = RefWatching pid) \<and> fd' = fd)" for r fd'
    using unwatch_holds [of pid fd ?s1 r fd'] u by (cases r) (auto simp: holds.simps)
  have rest: "sm_clients s2 = sm_clients sm" "sm_server s2 = sm_server sm" "sm_seq_counter s2 = sm_seq_counter sm"
    "sm_dangling s2 = sm_dangling sm" "tables_ok s2 = tables_ok sm"
    using unwatch_clients [of pid fd ?s1] unwatch_rest [of pid fd ?s1] u by (simp_all add: tables_ok_def)
  have "sm_ok s2"
  proof (rule sm_okI)
    show "tables_ok s2" using sm_okD(8) [OF ok] rest by simp
    show "\<exists>c. om_lookup (sm_clients s2) fd' = Some c \<and> ref_ok r c" if "holds s2 r fd'" for r fd'
      using that sm_okD(4) [OF ok, of r fd'] by (simp add: h rest)
    show "holds s2 (RefWatching p) fd' = holds s2 (RefWatcher p) fd'" for p fd'
      unfolding h using sm_okD(5) [OF ok, of p fd'] by blast
    show "connected s2" by (rule connected_keep [OF sm_okD(6) [OF ok] rest(1-4)])
  qed
  moreover have "sm_ok (sendDiagWatchStopToPid e (\<lambda>fd. closeClient e fd True) pid fd s2)"
    using \<open>sm_ok s2\<close> inv_relD(1) [OF inv.sendDiagWatchStopToPid_frame [OF closeClient_inv]] by (simp add: sm_ok_def)
  ultimately show ?thesis
    using True u by (auto simp: removeWatcherPair_def stopTargetIfUnwatched_def split: option.splits bool.splits)
qed

lemma handleDiagWatchStop_ok:
  assumes ok: "sm_ok sm" and live: "live fd sm"
  shows "sm_ok (handleDiagWatchStop e fd msg sm)"
  using removeWatcherPair_ok [OF ok] sendBoolReply_ok [OF ok live]
  by (auto simp: handleDiagWatchStop_def Let_def sendBoolReply_ok split: option.splits)

subsection \<open>Messages and events\<close>

lemmas handlers_ok = handleRegister_ok handleUnregister_ok handleControlHeartbeat_ok lookups_ok handleUnsubscribeServiceWatch_ok
  handlePublishTopic_ok handleSubscribeTopic_ok handleUnsubscribeTopic_ok handleUnpublishTopic_ok handleRuntimeList_ok
  handleDiagSetLogLevel_ok handleDiagWatchStart_ok handleDiagWatchStop_ok

lemma dispatch_ok:
  assumes "sm_ok sm" "live fd sm" "type \<noteq> MSG_SUBSCRIBE_SERVICE_WATCH" "type \<noteq> MSG_RUNTIME_HELLO"
  shows "sm_ok (dispatch e type fd msg sm)"
  using assms by (cases type) (simp_all add: handlers_ok)

lemma dispatch_semi:
  assumes "sm_ok sm" "live fd sm"
  shows "semi_ok fd (dispatch e type fd msg sm)"
proof (cases "type = MSG_SUBSCRIBE_SERVICE_WATCH \<or> type = MSG_RUNTIME_HELLO")
  case True
  then show ?thesis using handleSubscribeServiceWatch_semi [OF assms] handleRuntimeHello_semi [OF assms] by auto
next
  case False
  then show ?thesis using sm_ok_semi [OF dispatch_ok [OF assms]] by simp
qed

lemma dispatchMessage_semi:
  assumes "sm_ok sm" "live fd sm"
  shows "semi_ok fd (dispatchMessage e fd msg sm)"
  using sm_ok_semi [OF assms(1)] dispatch_semi [OF assms] by (simp add: dispatchMessage_def split: option.splits)

text \<open>Reading changes a connection's transport and receive buffer.\<close>

lemma sm_readNext_ok:
  assumes ok: "sm_ok sm" and conn: "om_lookup (sm_clients sm) fd = Some conn" and r: "sm_readNext e fd conn msg sm = (ret, msg', sm')"
  shows "sm_ok sm'" "live fd sm'"
proof -
  obtain s c where s: "sm_server sm = Some s" "om_lookup (ep_clients s) fd = Some c"
    using sm_okD(6) [OF ok] conn by (fastforce simp: connected_def live_def)
  obtain b c' k where sm': "sm' = put_conn fd (conn\<lparr>cc_recv_buffer := b\<rparr>)
      (sm\<lparr>sm_server := Some (s\<lparr>ep_clients := om_update fd c' (ep_clients s)\<rparr>), sm_kernel := k\<rparr>)"
    using r s by (auto simp: sm_readNext_def split: prod.splits)
  let ?sm = "sm\<lparr>sm_server := Some (s\<lparr>ep_clients := om_update fd c' (ep_clients s)\<rparr>), sm_kernel := k\<rparr>"
  have "sm_ok ?sm"
  proof (rule sm_ok_conns [OF ok])
    show "connected ?sm"
      using sm_okD(6) [OF ok] s by (auto simp: connected_def live_def om_lookup_update)
  qed (auto simp: tables_def)
  then show "sm_ok sm'" unfolding sm' by (rule put_conn_keeps_ok) (use conn in simp_all)
  show "live fd sm'" unfolding sm' by (simp add: put_conn_live)
qed

lemma readable_loop_semi:
  assumes "readable_loop e fd msg sm = Some sm'" "sm_ok sm"
  shows "semi_ok fd sm'"
  using assms
proof (induction e fd msg sm sm' rule: readable_loop.raw_induct [rotated, consumes 1, case_names 1])
  case (1 rec e fd msg sm sm')
  note IH = "1.IH" and body = "1.hyps"
  show ?case
  proof (cases "om_lookup (sm_clients sm) fd")
    case None
    with body "1.prems" show ?thesis by (simp add: sm_ok_semi)
  next
    case (Some conn)
    obtain ret msg1 sm1 where r: "sm_readNext e fd conn msg sm = (ret, msg1, sm1)" by (metis prod_cases3)
    note ok1 = sm_readNext_ok [OF "1.prems" Some r]
    note d = dispatchMessage_semi [OF ok1, of e msg1]
    consider "ret \<le> 0" | "0 < ret" "\<not> live fd (dispatchMessage e fd msg1 sm1)"
      | "0 < ret" "live fd (dispatchMessage e fd msg1 sm1)" by linarith
    then show ?thesis
    proof cases
      case 1
      with body Some r ok1 show ?thesis
        by (auto simp: onClientDisconnected_def sm_ok_semi closeClient_ok split: if_splits)
    next
      case 2
      with body Some r d show ?thesis by (simp add: Let_def)
    next
      case 3
      with body Some r have "rec e fd msg1 (dispatchMessage e fd msg1 sm1) = Some sm'" by (simp add: Let_def)
      from IH [OF this semi_okD(1) [OF d 3(2)]] show ?thesis .
    qed
  qed
qed

lemma onClientReadable_semi: "onClientReadable e fd sm = Some sm' \<Longrightarrow> sm_ok sm \<Longrightarrow> semi_ok fd sm'"
  unfolding onClientReadable_def by (rule readable_loop_semi)

text \<open>Accepting.\<close>

lemma loop_quiet: "quiet sm (sm\<lparr>sm_endpoint_fds := f, sm_loop := l\<rparr>)"
  by (simp add: quiet_def tables_def)

lemma onClientAccepted_ok:
  assumes ok: "sm_ok sm" and tr: "\<exists>s. sm_server sm = Some s \<and> om_lookup (ep_clients s) fd \<noteq> None"
  shows "sm_ok (onClientAccepted e fd sm)" "sm_server (onClientAccepted e fd sm) = sm_server sm"
proof -
  let ?c = "(ClientConnection_init (env_alloc e))\<lparr>cc_fd := fd, cc_accept_time_ms := fst (sm_now e sm), cc_last_heartbeat_ms := fst (sm_now e sm)\<rparr>"
  let ?s1 = "snd (sm_now e sm)"
  let ?s2 = "registerEndpointFd e fd (put_conn fd ?c ?s1)"
  have q: "quiet sm ?s1" by (rule sm_now_quiet)
  note ok1 = quiet_ok [OF q ok]
  have dead: "om_lookup (sm_clients ?s1) fd = None" if "\<not> live fd sm"
    using that by (simp add: quiet_clients [OF q] live_def)
  have "sm_ok (put_conn fd ?c ?s1)" if "\<not> live fd sm"
  proof (rule sm_ok_conns [OF ok1])
    show "connected (put_conn fd ?c ?s1)"
      using sm_okD(6) [OF ok1] tr q by (auto simp: connected_def put_conn_live quiet_def) (auto simp: put_conn_def)
    show "\<exists>c'. om_lookup (sm_clients (put_conn fd ?c ?s1)) fd' = Some c' \<and> (\<forall>r. holds ?s1 r fd' \<longrightarrow> ref_ok r d \<longrightarrow> ref_ok r c')"
      if "om_lookup (sm_clients ?s1) fd' = Some d" for fd' d
      using that dead [OF \<open>\<not> live fd sm\<close>] by (auto simp: put_conn_def om_lookup_update)
  qed (simp add: put_conn_def tables_def)
  then have "sm_ok ?s2" if "\<not> live fd sm"
    using quiet_ok [OF loop_quiet] that unfolding registerEndpointFd_def by blast
  then have "sm_ok (armHelloDeadline e fd ?s2)" if "\<not> live fd sm"
    using that by (intro armHelloDeadline_ok [where c = ?c]) (simp_all add: registerEndpointFd_def put_conn_def)
  then show "sm_ok (onClientAccepted e fd sm)"
    using ok by (simp add: onClientAccepted_def case_prod_unfold Let_def)
  have "sm_server (armHelloDeadline e fd ?s2) = sm_server sm"
    using quiet_trans [OF sm_cancelTimer_quiet sm_addTimer_quiet [where e = e]] sm_now_quiet [of sm e]
    by (simp add: armHelloDeadline_def with_conn_def Let_def case_prod_unfold quiet_def registerEndpointFd_def put_conn_def split: option.splits)
  then show "sm_server (onClientAccepted e fd sm) = sm_server sm"
    by (simp add: onClientAccepted_def case_prod_unfold Let_def)
qed

end
