(* ===== verification/SMEvents.thy ===== *)
theory SMEvents
  imports SMSessions
begin

section \<open>Histories of the service manager\<close>

text \<open>
  What the event loop can make the service manager do: accept, read and answer, flush, disconnect, and
  let deadlines expire. A history is any sequence of such events from a successful start, whatever the
  network delivers. A history ends at a use after free, should one occur; every state before that
  satisfies the invariant.
\<close>

subsection \<open>Flushing\<close>

lemma transport_send_ok: "sm_ok sm \<Longrightarrow> live fd sm \<Longrightarrow> sm_ok (snd (transport_send e fd data sm))"
  unfolding sm_ok_def by (rule inv_relD(1) [OF inv.transport])

lemma flush_loop_ok:
  assumes "flush_loop e fd conn sm = (r, conn', sm')" "sm_ok sm" "live fd sm"
  shows "sm_ok sm' \<and> sm_clients sm' = sm_clients sm \<and> (\<exists>n. conn' = conn\<lparr>cc_send_offset := n\<rparr>)"
  using assms
proof (induction e fd conn sm rule: flush_loop.induct)
  case (1 e fd conn sm)
  let ?d = "mem_get (b_data (cc_send_buffer conn)) (cc_send_offset conn) (Buffer_size (cc_send_buffer conn) - cc_send_offset conn)"
  obtain sent sm1 where t: "transport_send e fd ?d sm = (sent, sm1)" by force
  have ok1: "sm_ok sm1" "sm_clients sm1 = sm_clients sm" "live fd sm1"
    using transport_send_ok [OF "1.prems"(2,3), of e ?d] transport_send_clients [of e fd ?d sm] t "1.prems"(3)
    by (simp_all add: live_def)
  have keep: "\<exists>n. conn = conn\<lparr>cc_send_offset := n\<rparr>" by (rule exI [of _ "cc_send_offset conn"]) simp
  show ?case
  proof (cases "cc_send_offset conn < Buffer_size (cc_send_buffer conn) \<and> 0 < sent")
    case True
    then have "flush_loop e fd (conn\<lparr>cc_send_offset := cc_send_offset conn + nat sent\<rparr>) sm1 = (r, conn', sm')"
      using "1.prems"(1) t by (subst (asm) flush_loop.simps) simp
    from "1.IH" [OF _ t [symmetric] _ _ this ok1(1,3)] True ok1(2) show ?thesis by auto
  next
    case False
    then show ?thesis using "1.prems" flush_loop.simps [of e fd conn sm] t ok1 keep by (auto split: if_splits)
  qed
qed

lemma flushPendingSends_ok:
  assumes "om_lookup (sm_clients sm) fd = Some conn" "sm_ok sm"
  shows "sm_ok (snd (flushPendingSends e fd conn sm))"
proof -
  obtain r conn' sm' where f: "flush_loop e fd conn sm = (r, conn', sm')" by (metis prod_cases3)
  have live: "live fd sm" using assms(1) by (simp add: live_def)
  from flush_loop_ok [OF f assms(2) live] obtain n where
    ok: "sm_ok sm'" and cl: "om_lookup (sm_clients sm') fd = Some conn" and c: "conn' = conn\<lparr>cc_send_offset := n\<rparr>"
    using assms(1) by auto
  have put: "sm_ok (put_conn fd (conn\<lparr>cc_send_buffer := b, cc_send_offset := m\<rparr>) sm')" for m b
    by (rule put_conn_keeps_ok [OF ok cl]) simp_all
  have modify: "sm_ok s \<Longrightarrow> sm_ok (sm_modifyFd e fd ev s)" for ev s
    by (rule quiet_ok) (simp_all add: quiet_def sm_modifyFd_def tables_def)
  show ?thesis
    using put [where m = n and b = "cc_send_buffer conn"] put [where m = 0] modify f c
    by (simp add: flushPendingSends_def enableClientWriteEvents_def disableClientWriteEvents_def)
qed

subsection \<open>Events\<close>

lemma accept_all_ok:
  assumes "sm_ok sm" "\<forall>fd \<in> set fds. \<exists>s. sm_server sm = Some s \<and> om_lookup (ep_clients s) fd \<noteq> None"
  shows "sm_ok (fold (onClientAccepted e) fds sm)"
  using assms
proof (induction fds arbitrary: sm)
  case (Cons fd fds)
  note a = onClientAccepted_ok [OF Cons.prems(1), of fd e]
  show ?case using Cons.IH [of "onClientAccepted e fd sm"] a Cons.prems(2) by simp
qed simp

lemma accept_event_ok:
  assumes ok: "sm_ok sm" and s: "sm_server sm = Some s"
    and a: "accept_loop (env_ops e) (env_lops e) [] s (sm_kernel sm) = Some (accepted, s', k')"
  shows "sm_ok (fold (onClientAccepted e) accepted (sm\<lparr>sm_server := Some s', sm_kernel := k'\<rparr>))"
proof -
  note spec = accept_loop_spec [OF a]
  have "sm_ok (sm\<lparr>sm_server := Some s', sm_kernel := k'\<rparr>)"
  proof (rule sm_ok_conns [OF ok])
    show "connected (sm\<lparr>sm_server := Some s', sm_kernel := k'\<rparr>)"
      using sm_okD(6) [OF ok] s spec by (auto simp: connected_def live_def)
  qed (auto simp: tables_def)
  then show ?thesis by (rule accept_all_ok) (use spec in auto)
qed

lemma onEndpointEvent_ok:
  assumes ok: "sm_ok sm" and ev: "onEndpointEvent e fd events sm = Some sm'"
  shows "semi_ok fd sm'"
proof -
  define r where "r = (case om_lookup (sm_clients sm) fd of
      Some conn \<Rightarrow> if events AND EVENT_WRITE \<noteq> 0 then flushPendingSends e fd conn sm else (True, sm)
    | None \<Rightarrow> (True, sm))"
  have ok1: "sm_ok (snd r)" using ok flushPendingSends_ok [OF _ ok] by (simp add: r_def split: option.splits)
  have ev': "(if \<not> fst r then Some (closeClient e fd True (snd r))
      else case sm_server (snd r) of None \<Rightarrow> Some (snd r)
         | Some _ \<Rightarrow> onPollEvent (env_ops e) (env_lops e) (sm_endpoint e) fd events (snd r)) = Some sm'"
    using ev unfolding onEndpointEvent_def r_def [symmetric] by (simp add: case_prod_unfold Let_def)
  show ?thesis
  proof (cases "fst r")
    case False
    with ev' ok1 show ?thesis by (auto simp: closeClient_ok sm_ok_semi)
  next
    case True
    show ?thesis
    proof (cases "sm_server (snd r)")
      case None
      with ev' ok1 True show ?thesis by (auto simp: sm_ok_semi)
    next
      case (Some s)
      then have p: "onPollEvent (env_ops e) (env_lops e) (sm_endpoint e) fd events (snd r) = Some sm'"
        using ev' True by simp
      have E: "eh_endpoint (sm_endpoint e) (snd r) = s" "eh_kernel (sm_endpoint e) (snd r) = sm_kernel (snd r)"
        "eh_accept (sm_endpoint e) = onClientAccepted e" "eh_readable (sm_endpoint e) = onClientReadable e"
        "eh_disconnect (sm_endpoint e) = onClientDisconnected e"
        "\<And>t k. eh_set (sm_endpoint e) (t, k) (snd r) = (snd r)\<lparr>sm_server := Some t, sm_kernel := k\<rparr>"
        by (simp_all add: sm_endpoint_def Some)
      show ?thesis
      proof (cases "fd = listen_fd s")
        case True
        then obtain accepted s' k' where "accept_loop (env_ops e) (env_lops e) [] s (sm_kernel (snd r)) = Some (accepted, s', k')"
          "sm' = fold (onClientAccepted e) accepted ((snd r)\<lparr>sm_server := Some s', sm_kernel := k'\<rparr>)"
          using p by (auto simp: onPollEvent_def E)
        with accept_event_ok [OF ok1 Some] show ?thesis by (simp add: sm_ok_semi)
      next
        case False
        then show ?thesis using p ok1 onClientReadable_semi [OF _ ok1, of e fd sm']
          by (auto simp: onPollEvent_def E onClientDisconnected_def closeClient_ok sm_ok_semi split: option.splits if_splits)
      qed
    qed
  qed
qed

lemma run_functor_ok: "sm_ok sm \<Longrightarrow> sm_ok (run_functor e f sm)"
  by (cases f) (simp_all add: onHelloDeadline_def onSessionDeadline_def closeClient_ok split: option.splits)

lemma sm_stop_ok: "sm_ok sm \<Longrightarrow> sm_ok (sm_stop sm)"
  by (rule quiet_ok) (simp_all add: quiet_def sm_stop_def tables_def)

subsection \<open>Starting\<close>

lemma holds_init: "\<not> holds (ServiceManagerApp_init now pid backend k timeout) r fd"
  by (cases r) (simp_all add: holds.simps ServiceManagerApp_init_def ServiceRegistry_init_def WatchNotifier_init_def
      TopicManager_init_def list_at_def findEntry_def pub_at_def sub_at_def)

lemma ServiceManagerApp_init_ok: "sm_ok (ServiceManagerApp_init now pid backend k timeout)"
proof (rule sm_okI)
  let ?sm = "ServiceManagerApp_init now pid backend k timeout"
  show "tables_ok ?sm"
    by (simp add: tables_ok_def ServiceManagerApp_init_def registry_ok_init watch_ok_init topic_inv_def topic_wf_init)
  show "connected ?sm" by (simp add: connected_def live_def ServiceManagerApp_init_def)
qed (simp_all add: holds_init)

lemma registerEndpointFd_quiet: "quiet sm (registerEndpointFd e fd sm)"
  unfolding registerEndpointFd_def by (rule loop_quiet)

lemma fold_quiet: "(\<And>x sm. quiet sm (f x sm)) \<Longrightarrow> quiet sm (fold f xs sm)"
  by (induction xs arbitrary: sm) (auto intro: quiet_trans)

lemma sm_init_ok:
  assumes "sm_init e net_ok event_fd host port (ServiceManagerApp_init now pid backend k timeout) = (True, sm)"
  shows "sm_ok sm"
proof -
  let ?sm = "ServiceManagerApp_init now pid backend k timeout"
  obtain started s k' where st: "endpoint_start (env_ops e) (env_lops e) host port (TcpServerEndpoint_init, sm_kernel ?sm) = (started, s, k')"
    by (metis prod_cases3)
  let ?sm1 = "?sm\<lparr>sm_server := Some s, sm_kernel := k'\<rparr>"
  let ?sm2 = "fold (registerEndpointFd e) (pollFds s) ?sm1"
  have "sm_ok ?sm1"
  proof (rule sm_ok_conns [OF ServiceManagerApp_init_ok [of now pid backend k timeout]])
    show "connected ?sm1" by (simp add: connected_def live_def ServiceManagerApp_init_def)
  qed (simp_all add: tables_def)
  then have ok2: "sm_ok ?sm2" by (rule quiet_ok [OF fold_quiet [OF registerEndpointFd_quiet]])
  have q: "quiet ?sm2 sm"
    using assms st by (auto simp: sm_init_def Let_def quiet_def tables_def split: if_splits)
  show ?thesis by (rule quiet_ok [OF q ok2])
qed

subsection \<open>Histories\<close>

text \<open>
  \<open>env\<close> is everything that happens outside the handlers: time passes, bytes arrive, the loop polls and
  takes expired timers off its list. Events are arbitrary, not only those the loop would deliver.
\<close>

inductive sm_reachable :: "('k, 'b) SmEnv \<Rightarrow> ('k, 'b) ServiceManagerApp \<Rightarrow> bool" for e where
  start: "sm_init e net_ok event_fd host port (ServiceManagerApp_init now pid backend k timeout) = (True, sm) \<Longrightarrow>
    sm_reachable e sm"
| env: "sm_reachable e sm \<Longrightarrow> sm_reachable e (sm\<lparr>sm_loop := l, sm_kernel := k\<rparr>)"
| event: "sm_reachable e sm \<Longrightarrow> \<not> sm_dangling sm \<Longrightarrow> onEndpointEvent e fd events sm = Some sm' \<Longrightarrow> sm_reachable e sm'"
| deadline: "sm_reachable e sm \<Longrightarrow> \<not> sm_dangling sm \<Longrightarrow> sm_reachable e (run_functor e f sm)"

lemma env_ok: "sm_ok_upto sm \<Longrightarrow> sm_ok_upto (sm\<lparr>sm_loop := l, sm_kernel := k\<rparr>)"
  unfolding sm_ok_upto_def by (erule quiet_ok [rotated]) (simp add: quiet_def tables_def)

lemma upto_ok: "sm_ok_upto sm \<Longrightarrow> \<not> sm_dangling sm \<Longrightarrow> sm_ok sm"
proof -
  assume u: "sm_ok_upto sm" and "\<not> sm_dangling sm"
  then have "sm\<lparr>sm_dangling := False\<rparr> = sm" by simp
  with u show "sm_ok sm" by (simp add: sm_ok_upto_def)
qed

theorem sm_reachable_ok: "sm_reachable e sm \<Longrightarrow> sm_ok_upto sm"
proof (induction rule: sm_reachable.induct)
  case (start net_ok event_fd host port now pid backend k timeout sm)
  then show ?case by (rule sm_ok_imp_upto [OF sm_init_ok])
next
  case (env sm l k)
  then show ?case by (intro env_ok)
next
  case (event sm fd events sm')
  then show ?case using onEndpointEvent_ok [OF upto_ok, of sm e fd events sm'] by (simp add: semi_ok_def)
next
  case (deadline sm f)
  show ?case by (rule sm_ok_imp_upto [OF run_functor_ok [OF upto_ok [OF deadline.IH deadline.hyps(2)]]])
qed

subsection \<open>Deadlines\<close>

lemma sm_addTimer_timer:
  "\<exists>t \<in> set (live_timers (timers (sm_loop (snd (sm_addTimer e d cb sm))))).
     t_id t = fst (sm_addTimer e d cb sm) \<and> t_callback t = cb \<and> t_expire_ms t = fst (sm_now e sm) + uint d"
  by (simp add: sm_addTimer_def case_prod_unfold) (rule addTimer_live)

lemma armed_session:
  assumes conn: "om_lookup (sm_clients sm) fd = Some c" and hello: "cc_hello_received c"
  shows "\<exists>c'. om_lookup (sm_clients (armSessionDeadline e fd sm)) fd = Some c' \<and>
    cc_session_generation c' = cc_session_generation c + 1 \<and> cc_hello_received c' \<and>
    (\<exists>t \<in> set (live_timers (timers (sm_loop (armSessionDeadline e fd sm)))).
       t_id t = cc_deadline_timer_id c' \<and> t_callback t = SessionDeadline fd (cc_session_generation c') \<and>
       t_expire_ms t = fst (sm_now e sm) + uint (if 0 < cc_session_timeout_ms c then cc_session_timeout_ms c
         else DEFAULT_HEARTBEAT_TIMEOUT))"
proof -
  let ?d = "if 0 < cc_session_timeout_ms c then cc_session_timeout_ms c else DEFAULT_HEARTBEAT_TIMEOUT"
  let ?g = "cc_session_generation c + 1" and ?sm = "sm_cancelTimer (cc_deadline_timer_id c) sm"
  let ?a = "sm_addTimer e ?d (SessionDeadline fd ?g) ?sm"
  have now: "fst (sm_now e ?sm) = fst (sm_now e sm)"
    by (simp add: sm_now_def sm_cancelTimer_def split: prod.splits)
  have "armSessionDeadline e fd sm =
      put_conn fd (c\<lparr>cc_session_generation := ?g, cc_deadline_timer_id := fst ?a\<rparr>) (snd ?a)"
    by (simp add: armSessionDeadline_def with_conn_def conn hello Let_def case_prod_unfold)
  moreover have "sm_loop (put_conn fd x y) = sm_loop y" for x and y :: "('a, 'b) ServiceManagerApp"
    by (simp add: put_conn_def)
  ultimately show ?thesis using sm_addTimer_timer [of e ?d "SessionDeadline fd ?g" ?sm] hello by (simp add: now)
qed

text \<open>
  Sending to a connection, which may close it but nothing else unless it does, leaves the timers and
  the session of a connection that stays.
\<close>

lemma reply_keeps_session:
  assumes conn: "om_lookup (sm_clients sm) fd = Some c" and live: "live fd (reply e fd msg sm)"
  shows "timers (sm_loop (reply e fd msg sm)) = timers (sm_loop sm)"
    "\<exists>c'. om_lookup (sm_clients (reply e fd msg sm)) fd = Some c' \<and> same_conn c c'"
proof -
  have "conns_shrink sm (reply e fd msg sm)"
    by (rule survivors.sendMessage_frame) (simp_all add: survivors.closeClient_frame live_def conn)
  then show "\<exists>c'. om_lookup (sm_clients (reply e fd msg sm)) fd = Some c' \<and> same_conn c c'"
    using live conn by (fastforce simp: conns_shrink_def live_def)
  obtain ok out where ser: "Message_serialize msg (env_alloc e) Buffer_empty = (ok, out)" by force
  obtain sent sm1 where snd: "transport_send e fd (Buffer_content out) sm = (sent, sm1)" by force
  have loop1: "sm_loop sm1 = sm_loop sm"
    using snd by (auto simp: transport_send_def split: option.splits prod.splits)
  have put: "sm_loop (put_conn fd x y) = sm_loop y" for x and y :: "('a, 'b) ServiceManagerApp" by (simp add: put_conn_def)
  have ev: "timers (sm_loop (enableClientWriteEvents e fd y)) = timers (sm_loop y)" for y :: "('a, 'b) ServiceManagerApp"
    by (simp add: enableClientWriteEvents_def sm_modifyFd_def loop_modifyFd_rest)
  show "timers (sm_loop (reply e fd msg sm)) = timers (sm_loop sm)"
    using live closeClient_dead
    by (auto simp: sendMessage_def ser with_conn_def conn Let_def snd loop1 put ev split: bool.splits if_splits)
qed

text \<open>A heartbeat arms the deadline again, and the connection that stays has it.\<close>

lemma heartbeat_arms:
  assumes conn: "om_lookup (sm_clients sm) fd = Some c" and hello: "cc_hello_received c"
    and inc: "fst (tryReadUint32 (payload_view msg)) = Some (cc_incarnation_id c)"
    and res: "sm' = handleControlHeartbeat e fd msg sm" and live: "live fd sm'"
  shows "\<exists>c'. om_lookup (sm_clients sm') fd = Some c' \<and> cc_session_generation c' = cc_session_generation c + 1 \<and>
    cc_last_heartbeat_ms c' = fst (sm_now e sm) \<and>
    (\<exists>t \<in> set (live_timers (timers (sm_loop sm'))).
       t_id t = cc_deadline_timer_id c' \<and> t_callback t = SessionDeadline fd (cc_session_generation c') \<and>
       t_expire_ms t = fst (sm_now e (snd (sm_now e sm))) +
         uint (if 0 < cc_session_timeout_ms c then cc_session_timeout_ms c else DEFAULT_HEARTBEAT_TIMEOUT))"
proof -
  let ?c = "c\<lparr>cc_last_heartbeat_ms := fst (sm_now e sm)\<rparr>"
  let ?sm = "put_conn fd ?c (snd (sm_now e sm))"
  define sm1 where "sm1 = armSessionDeadline e fd ?sm"
  have c: "om_lookup (sm_clients ?sm) fd = Some ?c" by (simp add: put_conn_def)
  have now: "fst (sm_now e ?sm) = fst (sm_now e (snd (sm_now e sm)))"
    by (simp add: sm_now_def put_conn_def split: prod.splits)
  have same: "cc_session_timeout_ms ?c = cc_session_timeout_ms c" "cc_session_generation ?c = cc_session_generation c"
    "cc_hello_received ?c = cc_hello_received c" by simp_all
  from armed_session [OF c, of e, unfolded same] hello obtain c1 where c1: "om_lookup (sm_clients sm1) fd = Some c1"
      "cc_session_generation c1 = cc_session_generation c + 1" and
    t: "\<exists>t \<in> set (live_timers (timers (sm_loop sm1))). t_id t = cc_deadline_timer_id c1 \<and>
       t_callback t = SessionDeadline fd (cc_session_generation c1) \<and> t_expire_ms t = fst (sm_now e (snd (sm_now e sm))) +
         uint (if 0 < cc_session_timeout_ms c then cc_session_timeout_ms c else DEFAULT_HEARTBEAT_TIMEOUT)"
    unfolding sm1_def [symmetric] now by blast
  have "cc_last_heartbeat_ms c1 = fst (sm_now e sm)"
    using armSessionDeadline_lookup [of ?sm fd ?c e] c c1(1) hello unfolding sm1_def
    by (auto simp: armSessionDeadline_def with_conn_def Let_def case_prod_unfold put_conn_def om_lookup_update)
  moreover have sm': "sm' = sendControlHeartbeatAck e fd (seq_of msg) sm1"
    by (simp add: res handleControlHeartbeat_def with_conn_def conn hello inc sm1_def case_prod_unfold)
  note keep = reply_keeps_session [OF c1(1) live [unfolded sm' sendControlHeartbeatAck_def], folded sendControlHeartbeatAck_def sm']
  from keep(2) obtain c' where "om_lookup (sm_clients sm') fd = Some c'" "same_conn c1 c'" by blast
  moreover from this(2) have "cc_session_generation c' = cc_session_generation c1" "cc_deadline_timer_id c' = cc_deadline_timer_id c1"
    "cc_last_heartbeat_ms c' = cc_last_heartbeat_ms c1"
    unfolding same_conn_def by (metis ClientConnection.select_convs ClientConnection.update_convs ClientConnection.surjective)+
  ultimately show ?thesis using c1(2) t keep(1) by simp
qed

text \<open>The defect the memory-safety theorem excludes: a subscriber whose acknowledgement fails.\<close>

lemma watch_reply_use_after_free:
  assumes "parse_watch (payload_view msg) = Some (watch_id, filters)"
    and "watch_subscribe fd watch_id filters (sm_watch_notifier sm) = (True, wn)" "filters \<noteq> []"
    and "\<not> live fd (sendBoolReply e fd MSG_SUBSCRIBE_SERVICE_WATCH_REPLY (seq_of msg) True (sm\<lparr>sm_watch_notifier := wn\<rparr>))"
  shows "sm_dangling (handleSubscribeServiceWatch e fd msg sm)"
  using assms by (cases filters) (simp_all add: handleSubscribeServiceWatch_def touch_conn_cases Let_def live_def)

subsection \<open>Publishing\<close>

text \<open>Announcing a publisher leaves no new reference behind.\<close>

lemma sendTopicPublisherNotify_inv: "inv_rel Z U sm (sendTopicPublisherNotify e fd topic info h sm)"
proof (cases "live fd sm")
  case True
  let ?sm = "snd (nextSMProactiveSequence sm)"
  have "inv_rel Z U sm ?sm" by (rule inv.sequence)
  moreover have "inv_rel Z U ?sm (reply_if e fd m ?sm)" for m
    using True by (auto simp: reply_if_def inv.refl intro: inv.sendMessage_frame [OF closeClient_inv] split: option.splits)
  ultimately show ?thesis using True inv.trans by (fastforce simp: sendTopicPublisherNotify_def case_prod_unfold)
qed (simp add: sendTopicPublisherNotify_def inv.refl)

lemma reply_refs:
  assumes "sm_ok sm" "live fd sm" "holds (fold (\<lambda>s. sendTopicPublisherNotify e s topic info h) subs
    (sendBoolReply e fd type seq ok sm)) r fd'"
  shows "holds sm r fd'"
proof -
  have "inv_rel (\<lambda>_. None) {} sm (sendBoolReply e fd type seq ok sm)"
    unfolding sendBoolReply_def by (rule inv.sendMessage_frame [OF closeClient_inv assms(2)])
  from inv.trans [OF this inv.fold_frame [OF sendTopicPublisherNotify_inv]] show ?thesis
    by (rule inv_relD(2)) (use assms in \<open>simp_all add: sm_ok_def\<close>)
qed

lemma registerPublisher_refs:
  assumes ok: "sm_ok sm" and own: "findServiceByFdAndName fd (si_name info) (sm_registry sm) = Some en"
    and info: "si_instance_id info = si_instance_id (se_info en)"
    and new: "holds (sm\<lparr>sm_topic_manager := snd (registerPublisher topic info fd h (sm_topic_manager sm))\<rparr>) (RefPublisher s t k) fd'"
  shows "holds sm (RefPublisher s t k) fd' \<or> t = topic \<and> fd' = fd \<and> holds sm (RefService s k) fd"
proof -
  obtain b tm where r: "registerPublisher topic info fd h (sm_topic_manager sm) = (b, tm)" by force
  have wf: "topic_wf UNIV UNIV (sm_topic_manager sm)" using sm_okD(3) [OF ok] by (simp add: topic_inv_def)
  have "findEntry (si_name info) (si_instance_id info) (sm_registry sm) = Some en" "se_control_fd en = fd"
    using findServiceByFdAndName_iff(2) [OF sm_okD(1) [OF ok] own] info by simp_all
  then show ?thesis
    using new registerPublisher_spec [OF wf r] by (auto simp: holds.simps r slot_of_def split: if_splits)
qed

lemma publish_refs:
  assumes ok: "sm_ok sm" and live: "live fd sm" and new: "holds (handlePublishTopic e fd msg sm) (RefPublisher s t k) fd'"
  shows "holds sm (RefPublisher s t k) fd' \<or> fd' = fd \<and> holds sm (RefService s k) fd"
proof -
  have refused: "holds sm (RefPublisher s t k) fd'"
    if "holds (sendBoolReply e fd MSG_PUBLISH_TOPIC_REPLY (seq_of msg) False sm) (RefPublisher s t k) fd'"
    using reply_refs [OF ok live, where subs = "[]"] that by simp
  show ?thesis
  proof (cases "parse_publish e msg")
    case None
    with new refused show ?thesis by (simp add: handlePublishTopic_def)
  next
    case (Some req)
    obtain topic info h where req: "req = (topic, info, h)" by (metis prod_cases3)
    show ?thesis
    proof (cases "findServiceByFdAndName fd (si_name info) (sm_registry sm)")
      case None
      with new refused Some req show ?thesis by (simp add: handlePublishTopic_def)
    next
      case own: (Some en)
      let ?info = "info\<lparr>si_host := si_host (se_info en), si_port := si_port (se_info en),
        si_host_id := si_host_id (se_info en), si_instance_id := si_instance_id (se_info en)\<rparr>"
      let ?reg = "registerPublisher topic ?info fd h (sm_topic_manager sm)"
      let ?sm = "sm\<lparr>sm_topic_manager := snd ?reg\<rparr>"
      obtain subs where "holds (fold (\<lambda>s. sendTopicPublisherNotify e s topic ?info h) subs
          (sendBoolReply e fd MSG_PUBLISH_TOPIC_REPLY (seq_of msg) (fst ?reg) ?sm)) (RefPublisher s t k) fd'"
      proof (cases "fst ?reg")
        case True
        with new Some req own that show thesis by (simp add: handlePublishTopic_def Let_def case_prod_unfold)
      next
        case False
        with new Some req own that [of "[]"] show thesis by (simp add: handlePublishTopic_def Let_def case_prod_unfold)
      qed
      from reply_refs [OF registerPublisher_sm_ok [OF ok live] _ this] live
      have "holds ?sm (RefPublisher s t k) fd'" by simp
      from registerPublisher_refs [OF ok _ _ this] own show ?thesis by auto
    qed
  qed
qed

end
