(* ===== verification/ReplyTable.thy ===== *)
theory ReplyTable
  imports OrdMap OmniMessage EventLoop
begin

section \<open>Waiting for replies\<close>

text \<open>
  core/pending_reply_table.cpp and core/rpc_runtime.cpp: the slots of outstanding requests by sequence
  number, and the loop that polls until the reply to one of them is there. The loop runs inside a
  larger state \<open>'w\<close>: \<open>WaitHost\<close> says where the table and the runtime are in it, what the clock shows,
  what a round of polling does (it may store replies, fail the table or start further waits), and
  whether the connection lives. \<open>waitForReply\<close> has no value where the loop never ends. It ends on the
  event loop of \<open>EventLoop\<close>, for waits of less than \<open>2 ^ 31\<close> ms: the remaining time is passed on as an \<open>int\<close>.
\<close>

record Slot =
  slot_ready :: bool
  slot_failed :: bool
  slot_message :: Message

type_synonym PendingReplyTable = "(u32, Slot) omap"

definition Slot_init :: Slot where
  "Slot_init = \<lparr>slot_ready = False, slot_failed = False, slot_message = Message_default\<rparr>"

text \<open>\<open>dst = std::move(src)\<close>: the destination and what is left of the source.\<close>

definition Buffer_move :: "Buffer \<Rightarrow> Buffer \<times> Buffer" where
  "Buffer_move src = (src, \<lparr>b_data = [], b_capacity = 0, b_write_pos = 0, b_read_pos = 0, b_write_failed = False\<rparr>)"

definition clear_slot :: "u32 \<Rightarrow> PendingReplyTable \<Rightarrow> PendingReplyTable" where
  "clear_slot seq t =
     (case om_lookup t seq of
        None \<Rightarrow> t
      | Some s \<Rightarrow> if slot_ready s then om_erase seq t else om_update seq (s\<lparr>slot_failed := True\<rparr>) t)"

definition replies_clear :: "PendingReplyTable \<Rightarrow> PendingReplyTable" where
  "replies_clear t = fold clear_slot (om_keys t) t"

definition replies_beginWait :: "u32 \<Rightarrow> PendingReplyTable \<Rightarrow> PendingReplyTable" where
  "replies_beginWait seq t =
     (case om_lookup t seq of
        None \<Rightarrow> om_update seq Slot_init t
      | Some s \<Rightarrow>
          if slot_ready s then t
          else om_update seq (s\<lparr>slot_ready := False, slot_failed := False,
                 slot_message := (slot_message s)\<lparr>m_payload := Buffer_clear (m_payload (slot_message s))\<rparr>\<rparr>) t)"

definition isWaiting :: "u32 \<Rightarrow> PendingReplyTable \<Rightarrow> bool" where
  "isWaiting seq t = (case om_lookup t seq of None \<Rightarrow> False | Some s \<Rightarrow> \<not> slot_ready s \<and> \<not> slot_failed s)"

definition pendingReply :: "u32 \<Rightarrow> PendingReplyTable \<Rightarrow> Message option" where
  "pendingReply seq t =
     (case om_lookup t seq of None \<Rightarrow> None | Some s \<Rightarrow> if slot_ready s then Some (slot_message s) else None)"

definition isFailed :: "u32 \<Rightarrow> PendingReplyTable \<Rightarrow> bool" where
  "isFailed seq t = (case om_lookup t seq of None \<Rightarrow> False | Some s \<Rightarrow> slot_failed s)"

definition takeReply :: "u32 \<Rightarrow> PendingReplyTable \<Rightarrow> Message option \<times> PendingReplyTable" where
  "takeReply seq t =
     (case om_lookup t seq of
        None \<Rightarrow> (None, t)
      | Some s \<Rightarrow>
          if \<not> slot_ready s then (None, t)
          else
            let m = slot_message s; (payload, _) = Buffer_move (m_payload m)
            in (Some \<lparr>m_header = m_header m, m_payload = payload\<rparr>, om_erase seq t))"

definition eraseWait :: "u32 \<Rightarrow> PendingReplyTable \<Rightarrow> PendingReplyTable" where
  "eraseWait seq t = om_erase seq t"

text \<open>The table and what is left of the message, whose payload is moved out.\<close>

definition storeReply :: "u32 \<Rightarrow> Message \<Rightarrow> PendingReplyTable \<Rightarrow> Message \<times> PendingReplyTable" where
  "storeReply seq msg t =
     (case om_lookup t seq of
        None \<Rightarrow> (msg, t)
      | Some s \<Rightarrow>
          if slot_ready s then (msg, t)
          else
            let (payload, left) = Buffer_move (m_payload msg)
            in (msg\<lparr>m_payload := left\<rparr>,
                om_update seq (s\<lparr>slot_message := \<lparr>m_header = m_header msg, m_payload = payload\<rparr>, slot_ready := True\<rparr>) t))"

subsection \<open>The runtime\<close>

record RpcRuntime =
  default_timeout_ms :: u32
  sequence_counter :: u32
  in_wait_for_reply :: bool
  wait_deadline_ms :: int
  data_replies :: PendingReplyTable

definition DEFAULT_INVOKE_TIMEOUT :: u32 where "DEFAULT_INVOKE_TIMEOUT = 5000"

definition RpcRuntime_init :: RpcRuntime where
  "RpcRuntime_init = \<lparr>default_timeout_ms = DEFAULT_INVOKE_TIMEOUT, sequence_counter = 0, in_wait_for_reply = False,
     wait_deadline_ms = 0, data_replies = om_empty\<rparr>"

definition nextSequence :: "RpcRuntime \<Rightarrow> u32 \<times> RpcRuntime" where
  "nextSequence r =
     (let seq = sequence_counter r + 1;
          seq = (if seq = 0 then seq + 1 else seq)
      in (seq, r\<lparr>sequence_counter := seq\<rparr>))"

definition effectiveTimeout :: "u32 \<Rightarrow> RpcRuntime \<Rightarrow> u32" where
  "effectiveTimeout timeout_ms r = (if 0 < timeout_ms then timeout_ms else default_timeout_ms r)"

definition setDefaultTimeout :: "u32 \<Rightarrow> RpcRuntime \<Rightarrow> RpcRuntime" where
  "setDefaultTimeout timeout_ms r = (if timeout_ms = 0 then r else r\<lparr>default_timeout_ms := timeout_ms\<rparr>)"

definition rpc_beginWait :: "int \<Rightarrow> u32 \<Rightarrow> RpcRuntime \<Rightarrow> bool \<times> RpcRuntime" where
  "rpc_beginWait now timeout_ms r =
     (\<not> in_wait_for_reply r, r\<lparr>in_wait_for_reply := True, wait_deadline_ms := now + uint timeout_ms\<rparr>)"

definition remainingWaitMs :: "int \<Rightarrow> RpcRuntime \<Rightarrow> int" where
  "remainingWaitMs now r = wait_deadline_ms r - now"

definition isTimedOut :: "int \<Rightarrow> RpcRuntime \<Rightarrow> bool" where
  "isTimedOut now r \<longleftrightarrow> remainingWaitMs now r \<le> 0"

definition ERR_TIMEOUT :: int where "ERR_TIMEOUT = -4"
definition ERR_CONNECTION_CLOSED :: int where "ERR_CONNECTION_CLOSED = -101"

text \<open>\<open>static_cast<int>\<close> of a 64-bit number.\<close>

definition to_int32 :: "int \<Rightarrow> int" where
  "to_int32 n = sint (word_of_int n :: u32)"

record 'w WaitHost =
  wh_rpc :: "'w \<Rightarrow> RpcRuntime"
  wh_set_rpc :: "RpcRuntime \<Rightarrow> 'w \<Rightarrow> 'w"
  wh_table :: "'w \<Rightarrow> PendingReplyTable"
  wh_set_table :: "PendingReplyTable \<Rightarrow> 'w \<Rightarrow> 'w"
  wh_now :: "'w \<Rightarrow> int"
  wh_poll :: "int \<Rightarrow> 'w \<Rightarrow> 'w"
  wh_alive :: "('w \<Rightarrow> bool) option"

definition wh_erase :: "'w WaitHost \<Rightarrow> u32 \<Rightarrow> 'w \<Rightarrow> 'w" where
  "wh_erase h seq w = wh_set_table h (eraseWait seq (wh_table h w)) w"

partial_function (option) wait_loop :: "'w WaitHost \<Rightarrow> u32 \<Rightarrow> 'w \<Rightarrow> (int \<times> 'w) option" where
  "wait_loop h seq w =
     (if pendingReply seq (wh_table h w) \<noteq> None then Some (0, w)
      else if isTimedOut (wh_now h w) (wh_rpc h w) then Some (ERR_TIMEOUT, wh_erase h seq w)
      else if isFailed seq (wh_table h w) then Some (ERR_CONNECTION_CLOSED, wh_erase h seq w)
      else
        let w = wh_poll h (to_int32 (remainingWaitMs (wh_now h w) (wh_rpc h w))) w in
        if pendingReply seq (wh_table h w) = None \<and> (case wh_alive h of None \<Rightarrow> False | Some alive \<Rightarrow> \<not> alive w)
        then Some (ERR_CONNECTION_CLOSED, wh_erase h seq w)
        else wait_loop h seq w)"

text \<open>The result, the reply if there is one, and the state with the outer wait restored.\<close>

definition waitForReply :: "'w WaitHost \<Rightarrow> u32 \<Rightarrow> u32 \<Rightarrow> 'w \<Rightarrow> (int \<times> Message option \<times> 'w) option" where
  "waitForReply h seq timeout_ms w =
     (let prev = wh_rpc h w;
          restore = (\<lambda>w. wh_set_rpc h ((wh_rpc h w)\<lparr>in_wait_for_reply := in_wait_for_reply prev,
                       wait_deadline_ms := wait_deadline_ms prev\<rparr>) w);
          w = wh_set_rpc h (snd (rpc_beginWait (wh_now h w) timeout_ms (wh_rpc h w))) w;
          w = wh_set_table h (replies_beginWait seq (wh_table h w)) w
      in case wait_loop h seq w of
           None \<Rightarrow> None
         | Some (r, w) \<Rightarrow>
             if r \<noteq> 0 then Some (r, None, restore w)
             else
               case takeReply seq (wh_table h w) of
                 (None, t) \<Rightarrow> Some (ERR_CONNECTION_CLOSED, None, restore (wh_set_table h t w))
               | (Some m, t) \<Rightarrow> Some (0, Some m, restore (wh_set_table h t w)))"

subsection \<open>The two planes\<close>

text \<open>
  runtime_rpc.cpp: the runtime keeps one table for the control plane (owned by the channel to the
  service manager) and one for direct calls. Both waits poll the same event loop, given by \<open>poll\<close> and
  \<open>clock\<close>, which may touch every part of the state, so the state is left open.
\<close>

record RtWaits =
  rt_rpc :: RpcRuntime
  rt_control :: PendingReplyTable

definition consumeReplyIfWaiting :: "u32 \<Rightarrow> Message \<Rightarrow> PendingReplyTable \<Rightarrow> bool \<times> Message \<times> PendingReplyTable" where
  "consumeReplyIfWaiting seq msg t =
     (if pendingReply seq t \<noteq> None then (True, msg, t)
      else if isWaiting seq t then (True, storeReply seq msg t)
      else (False, msg, t))"

definition clearReplies :: "'x RtWaits_scheme \<Rightarrow> 'x RtWaits_scheme" where
  "clearReplies w = w\<lparr>rt_control := replies_clear (rt_control w)\<rparr>"

definition storeAndConsumeControlReply :: "u32 \<Rightarrow> Message \<Rightarrow> 'x RtWaits_scheme \<Rightarrow> bool \<times> Message \<times> 'x RtWaits_scheme" where
  "storeAndConsumeControlReply seq msg w =
     (let (used, msg, t) = consumeReplyIfWaiting seq msg (rt_control w) in (used, msg, w\<lparr>rt_control := t\<rparr>))"

definition storeAndConsumeDataReply :: "u32 \<Rightarrow> Message \<Rightarrow> 'x RtWaits_scheme \<Rightarrow> bool \<times> Message \<times> 'x RtWaits_scheme" where
  "storeAndConsumeDataReply seq msg w =
     (let (used, msg, t) = consumeReplyIfWaiting seq msg (data_replies (rt_rpc w))
      in (used, msg, w\<lparr>rt_rpc := (rt_rpc w)\<lparr>data_replies := t\<rparr>\<rparr>))"

definition control_host ::
  "(int \<Rightarrow> 'x RtWaits_scheme \<Rightarrow> 'x RtWaits_scheme) \<Rightarrow> ('x RtWaits_scheme \<Rightarrow> int)
     \<Rightarrow> ('x RtWaits_scheme \<Rightarrow> bool) option \<Rightarrow> 'x RtWaits_scheme WaitHost" where
  "control_host poll clock alive =
     \<lparr>wh_rpc = rt_rpc, wh_set_rpc = (\<lambda>r w. w\<lparr>rt_rpc := r\<rparr>),
      wh_table = rt_control, wh_set_table = (\<lambda>t w. w\<lparr>rt_control := t\<rparr>),
      wh_now = clock, wh_poll = poll, wh_alive = alive\<rparr>"

definition data_host ::
  "(int \<Rightarrow> 'x RtWaits_scheme \<Rightarrow> 'x RtWaits_scheme) \<Rightarrow> ('x RtWaits_scheme \<Rightarrow> int)
     \<Rightarrow> ('x RtWaits_scheme \<Rightarrow> bool) option \<Rightarrow> 'x RtWaits_scheme WaitHost" where
  "data_host poll clock alive =
     \<lparr>wh_rpc = rt_rpc, wh_set_rpc = (\<lambda>r w. w\<lparr>rt_rpc := r\<rparr>),
      wh_table = (\<lambda>w. data_replies (rt_rpc w)),
      wh_set_table = (\<lambda>t w. w\<lparr>rt_rpc := (rt_rpc w)\<lparr>data_replies := t\<rparr>\<rparr>),
      wh_now = clock, wh_poll = poll, wh_alive = alive\<rparr>"

subsection \<open>What a slot promises\<close>

text \<open>The four states of a sequence number, and the table as a function to them.\<close>

datatype SlotView = Idle | Waiting | Failed | Replied Message

definition slot_view :: "PendingReplyTable \<Rightarrow> u32 \<Rightarrow> SlotView" where
  "slot_view t seq =
     (case om_lookup t seq of
        None \<Rightarrow> Idle
      | Some s \<Rightarrow> if slot_ready s then Replied (slot_message s) else if slot_failed s then Failed else Waiting)"

lemma pendingReply_view: "pendingReply seq t = (case slot_view t seq of Replied m \<Rightarrow> Some m | _ \<Rightarrow> None)"
  by (simp add: pendingReply_def slot_view_def split: option.split)

lemma isWaiting_view: "isWaiting seq t \<longleftrightarrow> slot_view t seq = Waiting"
  by (simp add: isWaiting_def slot_view_def split: option.split)

lemma view_beginWait:
  "slot_view (replies_beginWait seq t) x =
     (if x = seq then (case slot_view t seq of Replied m \<Rightarrow> Replied m | _ \<Rightarrow> Waiting) else slot_view t x)"
  by (cases "om_lookup t seq") (auto simp: replies_beginWait_def slot_view_def om_lookup_update Slot_init_def)

lemma view_storeReply:
  "slot_view (snd (storeReply seq m t)) x =
     (if x = seq \<and> slot_view t seq \<in> {Waiting, Failed} then Replied m else slot_view t x)"
  by (cases "om_lookup t seq") (auto simp: storeReply_def Buffer_move_def slot_view_def om_lookup_update)

lemma takeReply_view:
  "takeReply seq t =
     (case slot_view t seq of Replied m \<Rightarrow> (Some m, om_erase seq t) | _ \<Rightarrow> (None, t))"
  by (cases "om_lookup t seq") (auto simp: takeReply_def Buffer_move_def slot_view_def Let_def)

lemma view_eraseWait: "slot_view (eraseWait seq t) x = (if x = seq then Idle else slot_view t x)"
  by (simp add: eraseWait_def slot_view_def om_lookup_erase)

lemma view_consume:
  "fst (consumeReplyIfWaiting seq m t) \<longleftrightarrow> slot_view t seq \<notin> {Idle, Failed}"
  "slot_view (snd (snd (consumeReplyIfWaiting seq m t))) x =
     (if x = seq \<and> slot_view t seq = Waiting then Replied m else slot_view t x)"
  by (simp_all add: consumeReplyIfWaiting_def pendingReply_view isWaiting_view view_storeReply split: SlotView.splits)

definition cleared :: "SlotView \<Rightarrow> SlotView" where
  "cleared v = (case v of Idle \<Rightarrow> Idle | Replied _ \<Rightarrow> Idle | _ \<Rightarrow> Failed)"

lemma view_clear_slot: "slot_view (clear_slot seq t) x = (if x = seq then cleared (slot_view t seq) else slot_view t x)"
  by (cases "om_lookup t seq")
     (auto simp: clear_slot_def slot_view_def cleared_def om_lookup_update om_lookup_erase)

lemma view_fold_clear:
  "distinct ks \<Longrightarrow> slot_view (fold clear_slot ks t) x = (if x \<in> set ks then cleared (slot_view t x) else slot_view t x)"
  by (induction ks arbitrary: t) (auto simp: view_clear_slot)

lemma view_clear: "slot_view (replies_clear t) x = cleared (slot_view t x)"
proof -
  have "distinct (om_keys t)"
    by (metis sorted_om_keys strict_sorted_iff)
  moreover have "x \<notin> set (om_keys t) \<Longrightarrow> slot_view t x = Idle"
    by (simp add: in_om_keys_iff slot_view_def)
  ultimately show ?thesis
    by (cases "x \<in> set (om_keys t)") (simp_all add: replies_clear_def view_fold_clear cleared_def)
qed

lemmas reply_views = pendingReply_view isWaiting_view view_beginWait view_storeReply takeReply_view
  view_eraseWait view_consume view_clear

subsection \<open>The waiting loop\<close>

text \<open>
  A host of waits: the runtime and the table are fields of the state, and a round of polling that may
  take a limited time leaves the deadline of the wait it runs in alone (waits started inside it restore
  it) and does not turn the clock back; if the time left to the deadline fits into an \<open>int\<close>, it passes
  when polling goes on for long enough. \<open>good\<close> are the states in which the event loop is there.
\<close>

primrec polls :: "'w WaitHost \<Rightarrow> nat \<Rightarrow> 'w \<Rightarrow> 'w" where
  "polls h 0 w = w"
| "polls h (Suc k) w = polls h k (wh_poll h (to_int32 (remainingWaitMs (wh_now h w) (wh_rpc h w))) w)"

text \<open>The state the loop starts in, and the reason it has to stop after \<open>k\<close> rounds.\<close>

definition wait_start :: "'w WaitHost \<Rightarrow> u32 \<Rightarrow> u32 \<Rightarrow> 'w \<Rightarrow> 'w" where
  "wait_start h seq timeout_ms w =
     (let w = wh_set_rpc h (snd (rpc_beginWait (wh_now h w) timeout_ms (wh_rpc h w))) w
      in wh_set_table h (replies_beginWait seq (wh_table h w)) w)"

definition wait_outcome :: "'w WaitHost \<Rightarrow> u32 \<Rightarrow> nat \<Rightarrow> 'w \<Rightarrow> int \<Rightarrow> bool" where
  "wait_outcome h seq k w r \<longleftrightarrow>
     (r = 0 \<and> pendingReply seq (wh_table h w) \<noteq> None) \<or>
     (pendingReply seq (wh_table h w) = None \<and>
       ((r = ERR_TIMEOUT \<and> isTimedOut (wh_now h w) (wh_rpc h w)) \<or>
        (r = ERR_CONNECTION_CLOSED \<and>
           (isFailed seq (wh_table h w) \<or> (0 < k \<and> (\<exists>alive. wh_alive h = Some alive \<and> \<not> alive w))))))"

lemma wait_outcome_mono: "wait_outcome h seq k w r \<Longrightarrow> wait_outcome h seq (Suc k) w r"
  by (auto simp: wait_outcome_def)

lemma err_values [simp]: "ERR_TIMEOUT \<noteq> 0" "ERR_CONNECTION_CLOSED \<noteq> 0" "ERR_CONNECTION_CLOSED \<noteq> ERR_TIMEOUT"
  by (simp_all add: ERR_TIMEOUT_def ERR_CONNECTION_CLOSED_def)

definition short_wait :: "'w WaitHost \<Rightarrow> 'w \<Rightarrow> bool" where
  "short_wait h w \<longleftrightarrow> wait_deadline_ms (wh_rpc h w) - wh_now h w < 2 ^ 31"

lemma to_int32_small: "0 \<le> n \<Longrightarrow> n < 2 ^ 31 \<Longrightarrow> to_int32 n = n"
proof -
  assume n: "0 \<le> n" "n < 2 ^ 31"
  then have "take_bit 32 n = n" by (simp add: take_bit_int_eq_self)
  moreover have "signed_take_bit 31 n = n" using n by (simp add: signed_take_bit_int_eq_self)
  ultimately show ?thesis by (simp add: to_int32_def sint_uint uint_word_of_int_eq)
qed

lemma asked_wait:
  "short_wait h w \<Longrightarrow> \<not> isTimedOut (wh_now h w) (wh_rpc h w) \<Longrightarrow>
   0 < to_int32 (remainingWaitMs (wh_now h w) (wh_rpc h w))"
  by (simp add: short_wait_def isTimedOut_def remainingWaitMs_def to_int32_small)

locale wait_host =
  fixes h :: "'w WaitHost" and good :: "'w \<Rightarrow> bool"
  assumes rpc_set_rpc [simp]: "wh_rpc h (wh_set_rpc h r w) = r"
    and table_set_rpc: "data_replies r = data_replies (wh_rpc h w) \<Longrightarrow> wh_table h (wh_set_rpc h r w) = wh_table h w"
    and table_set_table [simp]: "wh_table h (wh_set_table h t w) = t"
    and deadline_set_table [simp]:
      "wait_deadline_ms (wh_rpc h (wh_set_table h t w)) = wait_deadline_ms (wh_rpc h w)"
    and now_set [simp]: "wh_now h (wh_set_rpc h r w) = wh_now h w" "wh_now h (wh_set_table h t w) = wh_now h w"
    and good_set [simp]: "good (wh_set_rpc h r w) = good w" "good (wh_set_table h t w) = good w"
    and poll_deadline: "good w \<Longrightarrow> 0 \<le> ms \<Longrightarrow> wait_deadline_ms (wh_rpc h (wh_poll h ms w)) = wait_deadline_ms (wh_rpc h w)"
    and poll_good: "good w \<Longrightarrow> 0 \<le> ms \<Longrightarrow> good (wh_poll h ms w)"
    and poll_now: "good w \<Longrightarrow> 0 \<le> ms \<Longrightarrow> wh_now h w \<le> wh_now h (wh_poll h ms w)"
    and time_passes: "good w \<Longrightarrow> short_wait h w \<Longrightarrow> \<exists>k. wait_deadline_ms (wh_rpc h w) \<le> wh_now h (polls h k w)"
begin

text \<open>A round before the deadline.\<close>

lemma round_kept:
  assumes "good w" "short_wait h w" "\<not> isTimedOut (wh_now h w) (wh_rpc h w)"
    and "w' = wh_poll h (to_int32 (remainingWaitMs (wh_now h w) (wh_rpc h w))) w"
  shows "good w'" "short_wait h w'" "wait_deadline_ms (wh_rpc h w') = wait_deadline_ms (wh_rpc h w)"
proof -
  have ms: "0 \<le> to_int32 (remainingWaitMs (wh_now h w) (wh_rpc h w))" using asked_wait [OF assms(2,3)] by simp
  show "good w'" unfolding assms(4) by (rule poll_good [OF assms(1) ms])
  show d: "wait_deadline_ms (wh_rpc h w') = wait_deadline_ms (wh_rpc h w)"
    unfolding assms(4) by (rule poll_deadline [OF assms(1) ms])
  have "wh_now h w \<le> wh_now h w'" unfolding assms(4) by (rule poll_now [OF assms(1) ms])
  with assms(2) d show "short_wait h w'" by (simp add: short_wait_def)
qed

text \<open>The loop stops, and it stops after the round that gives it its first reason to.\<close>

lemma wait_loop_stops:
  assumes "good w" "short_wait h w" "wait_deadline_ms (wh_rpc h w) \<le> wh_now h (polls h n w)"
  shows "\<exists>k r. wait_outcome h seq k (polls h k w) r \<and>
           (\<forall>j<k. pendingReply seq (wh_table h (polls h j w)) = None) \<and>
           wait_loop h seq w = Some (r, if r = 0 then polls h k w else wh_erase h seq (polls h k w))"
  using assms
proof (induction n arbitrary: w)
  case 0
  then have out: "isTimedOut (wh_now h w) (wh_rpc h w)"
    by (simp add: isTimedOut_def remainingWaitMs_def)
  show ?case
    by (rule exI [of _ 0], rule exI [of _ "if pendingReply seq (wh_table h w) \<noteq> None then 0 else ERR_TIMEOUT"],
        subst wait_loop.simps) (auto simp: out wait_outcome_def)
next
  case (Suc n)
  let ?t = "wh_table h w"
  show ?case
  proof (cases "pendingReply seq ?t \<noteq> None \<or> isTimedOut (wh_now h w) (wh_rpc h w) \<or> isFailed seq ?t")
    case True
    then show ?thesis
      by (intro exI [of _ "0::nat"] exI [of _ "if pendingReply seq ?t \<noteq> None then 0
            else if isTimedOut (wh_now h w) (wh_rpc h w) then ERR_TIMEOUT else ERR_CONNECTION_CLOSED"],
          subst wait_loop.simps) (auto simp: wait_outcome_def)
  next
    case False
    define w' where "w' = wh_poll h (to_int32 (remainingWaitMs (wh_now h w) (wh_rpc h w))) w"
    let ?dead = "pendingReply seq (wh_table h w') = None \<and> (case wh_alive h of None \<Rightarrow> False | Some alive \<Rightarrow> \<not> alive w')"
    have unfold: "wait_loop h seq w =
        (if ?dead then Some (ERR_CONNECTION_CLOSED, wh_erase h seq w') else wait_loop h seq w')"
      using False by (subst wait_loop.simps) (simp add: w'_def [symmetric] Let_def)
    have polls: "polls h (Suc k) w = polls h k w'" for k by (simp add: w'_def)
    show ?thesis
    proof (cases ?dead)
      case True
      then show ?thesis
        using False unfold polls [of 0]
        by (intro exI [of _ "Suc 0"] exI [of _ ERR_CONNECTION_CLOSED])
           (auto simp: wait_outcome_def split: option.splits)
    next
      case alive: False
      have live: "\<not> isTimedOut (wh_now h w) (wh_rpc h w)" using False by simp
      note kept = round_kept [OF Suc.prems(1,2) live w'_def]
      have "wait_deadline_ms (wh_rpc h w') \<le> wh_now h (polls h n w')"
        using Suc.prems(3) kept(3) by (simp add: w'_def)
      from Suc.IH [OF kept(1,2) this] obtain k r where "wait_outcome h seq k (polls h k w') r"
        and "\<forall>j<k. pendingReply seq (wh_table h (polls h j w')) = None"
        and "wait_loop h seq w' = Some (r, if r = 0 then polls h k w' else wh_erase h seq (polls h k w'))"
        by blast
      then show ?thesis
        using False unfold alive polls
        by (intro exI [of _ "Suc k"] exI [of _ r]) (auto simp: wait_outcome_mono less_Suc_eq_0_disj)
    qed
  qed
qed

lemma table_restore [simp]:
  "wh_table h (wh_set_rpc h ((wh_rpc h w)\<lparr>in_wait_for_reply := b, wait_deadline_ms := d\<rparr>) w) = wh_table h w"
  by (simp add: table_set_rpc)

lemma deadline_start [simp]:
  "wait_deadline_ms (wh_rpc h (wait_start h seq timeout_ms w)) = wh_now h w + uint timeout_ms"
  by (simp add: wait_start_def rpc_beginWait_def)

lemma waitForReply_unfold:
  "waitForReply h seq timeout_ms w =
     (case wait_loop h seq (wait_start h seq timeout_ms w) of
        None \<Rightarrow> None
      | Some (r, w') \<Rightarrow>
          (let reply = (if r = 0 then pendingReply seq (wh_table h w') else None);
               w' = (if reply \<noteq> None then wh_set_table h (om_erase seq (wh_table h w')) w'
                     else if r = 0 then wh_set_table h (wh_table h w') w' else w')
           in Some (if r = 0 \<and> reply = None then ERR_CONNECTION_CLOSED else r, reply,
                wh_set_rpc h ((wh_rpc h w')\<lparr>in_wait_for_reply := in_wait_for_reply (wh_rpc h w),
                                            wait_deadline_ms := wait_deadline_ms (wh_rpc h w)\<rparr>) w')))"
  by (auto simp: waitForReply_def wait_start_def takeReply_view pendingReply_view Let_def
           split: option.split SlotView.split)

theorem wait_returns:
  assumes "good w" "uint timeout_ms < 2 ^ 31"
  shows "\<exists>k r w'. waitForReply h seq timeout_ms w =
       Some (r, if r = 0 then pendingReply seq (wh_table h (polls h k (wait_start h seq timeout_ms w))) else None, w') \<and>
     wait_outcome h seq k (polls h k (wait_start h seq timeout_ms w)) r \<and>
     (\<forall>j<k. pendingReply seq (wh_table h (polls h j (wait_start h seq timeout_ms w))) = None) \<and>
     slot_view (wh_table h w') seq = Idle \<and>
     in_wait_for_reply (wh_rpc h w') = in_wait_for_reply (wh_rpc h w) \<and>
     wait_deadline_ms (wh_rpc h w') = wait_deadline_ms (wh_rpc h w)"
proof -
  let ?w = "wait_start h seq timeout_ms w"
  have g: "good ?w" "short_wait h ?w"
    using assms by (simp_all add: short_wait_def) (simp_all add: wait_start_def Let_def)
  obtain n where "wait_deadline_ms (wh_rpc h ?w) \<le> wh_now h (polls h n ?w)" using time_passes [OF g] by blast
  from wait_loop_stops [OF g this, of seq] obtain k r where k: "wait_outcome h seq k (polls h k ?w) r"
    "\<forall>j<k. pendingReply seq (wh_table h (polls h j ?w)) = None"
    "wait_loop h seq ?w = Some (r, if r = 0 then polls h k ?w else wh_erase h seq (polls h k ?w))"
    by blast
  let ?v = "polls h k ?w"
  define v where "v = (if r = 0 then wh_set_table h (om_erase seq (wh_table h ?v)) ?v else wh_erase h seq ?v)"
  have "wh_table h v = om_erase seq (wh_table h ?v)"
    by (simp add: v_def wh_erase_def eraseWait_def)
  moreover have "r = 0 \<Longrightarrow> pendingReply seq (wh_table h ?v) \<noteq> None"
    using k(1) by (auto simp: wait_outcome_def)
  ultimately show ?thesis
    using k by (intro exI [of _ k] exI [of _ r]
        exI [of _ "wh_set_rpc h ((wh_rpc h v)\<lparr>in_wait_for_reply := in_wait_for_reply (wh_rpc h w),
                                               wait_deadline_ms := wait_deadline_ms (wh_rpc h w)\<rparr>) v"])
      (auto simp: waitForReply_unfold v_def Let_def slot_view_def)
qed

end

subsection \<open>Both planes are hosts of waits\<close>

text \<open>
  What the event loop promises to both planes. \<open>ticks\<close> is the monotonic clock in nanoseconds, of which
  \<open>currentTimeMs\<close> shows the milliseconds; a round takes some time on it.
\<close>

definition millis :: "('w \<Rightarrow> int) \<Rightarrow> 'w \<Rightarrow> int" where
  "millis ticks w = ticks w div 1000000"

locale polling =
  fixes poll :: "int \<Rightarrow> 'x RtWaits_scheme \<Rightarrow> 'x RtWaits_scheme"
    and ticks :: "'x RtWaits_scheme \<Rightarrow> int"
    and good :: "'x RtWaits_scheme \<Rightarrow> bool"
  assumes keeps_deadline: "good w \<Longrightarrow> 0 \<le> ms \<Longrightarrow> wait_deadline_ms (rt_rpc (poll ms w)) = wait_deadline_ms (rt_rpc w)"
    and keeps_good: "good w \<Longrightarrow> 0 \<le> ms \<Longrightarrow> good (poll ms w)"
    and takes_time: "good w \<Longrightarrow> 0 \<le> ms \<Longrightarrow> ticks w < ticks (poll ms w)"
    and fields: "ticks (w\<lparr>rt_rpc := r\<rparr>) = ticks w" "ticks (w\<lparr>rt_control := t\<rparr>) = ticks w"
      "good (w\<lparr>rt_rpc := r\<rparr>) = good w" "good (w\<lparr>rt_control := t\<rparr>) = good w"
begin

lemma millis_mono: "good w \<Longrightarrow> 0 \<le> ms \<Longrightarrow> millis ticks w \<le> millis ticks (poll ms w)"
  using takes_time [of w ms] by (simp add: millis_def zdiv_mono1)

text \<open>As long as the deadline has not passed, every round takes at least a tick.\<close>

lemma rounds_take_time:
  assumes h: "wh_now h = millis ticks" "wh_poll h = poll" "wh_rpc h = rt_rpc"
  shows "good w \<Longrightarrow> short_wait h w \<Longrightarrow> (\<And>j. j \<le> k \<Longrightarrow> millis ticks (polls h j w) < wait_deadline_ms (rt_rpc w)) \<Longrightarrow>
    ticks w + int k \<le> ticks (polls h k w)"
proof (induction k arbitrary: w)
  case (Suc k)
  define w' where "w' = poll (to_int32 (remainingWaitMs (millis ticks w) (rt_rpc w))) w"
  have "\<not> isTimedOut (wh_now h w) (wh_rpc h w)"
    using Suc.prems(3) [of 0] by (simp add: h isTimedOut_def remainingWaitMs_def)
  from asked_wait [OF Suc.prems(2) this] have ms: "0 \<le> to_int32 (remainingWaitMs (millis ticks w) (rt_rpc w))"
    by (simp add: h)
  note laws = keeps_good [OF Suc.prems(1) ms] keeps_deadline [OF Suc.prems(1) ms] takes_time [OF Suc.prems(1) ms]
    millis_mono [OF Suc.prems(1) ms]
  have step: "polls h (Suc j) w = polls h j w'" for j by (simp add: w'_def h)
  have "ticks w' + int k \<le> ticks (polls h k w')"
  proof (rule Suc.IH)
    show "good w'" using laws(1) by (simp add: w'_def)
    show "short_wait h w'" using Suc.prems(2) laws(2,4) by (simp add: short_wait_def h w'_def)
    show "millis ticks (polls h j w') < wait_deadline_ms (rt_rpc w')" if "j \<le> k" for j
      using Suc.prems(3) [of "Suc j"] that laws(2) step [of j] by (simp add: w'_def)
  qed
  with laws(3) step [of k] show ?case by (simp add: w'_def)
qed simp

lemma deadline_passes:
  assumes h: "wh_now h = millis ticks" "wh_poll h = poll" "wh_rpc h = rt_rpc" and w: "good w" "short_wait h w"
  shows "\<exists>k. wait_deadline_ms (wh_rpc h w) \<le> wh_now h (polls h k w)"
proof (rule ccontr)
  let ?d = "wait_deadline_ms (rt_rpc w)"
  assume "\<not> ?thesis"
  then have before: "millis ticks (polls h k w) < ?d" for k by (simp add: h not_le)
  let ?k = "nat (1000000 * ?d - ticks w)"
  have "ticks w + int ?k \<le> ticks (polls h ?k w)"
    by (rule rounds_take_time [OF h w before])
  then have "1000000 * ?d \<le> ticks (polls h ?k w)" by linarith
  then have "?d \<le> millis ticks (polls h ?k w)" unfolding millis_def by linarith
  with before show False by (simp add: not_le [symmetric])
qed

lemma control_wait_host: "wait_host (control_host poll (millis ticks) alive) good"
  by unfold_locales
     (simp_all add: control_host_def keeps_deadline keeps_good millis_mono fields
        deadline_passes [where h = "control_host poll (millis ticks) alive", unfolded control_host_def, simplified],
      simp_all add: millis_def fields)

lemma data_wait_host: "wait_host (data_host poll (millis ticks) alive) good"
  by unfold_locales
     (simp_all add: data_host_def keeps_deadline keeps_good millis_mono fields
        deadline_passes [where h = "data_host poll (millis ticks) alive", unfolded data_host_def, simplified],
      simp_all add: millis_def fields)

end

subsection \<open>The event loop under a wait\<close>

text \<open>
  \<open>pollOnceWithoutFunctors\<close> of \<open>EventLoop\<close> is such a loop. Asked of its host: the clock shows the
  milliseconds of \<open>ticks\<close>; \<open>poll\<close> of the back end with a limited time returns, which takes time; it, the
  callbacks and the timers do not turn the clock back, leave the deadline of the wait as it was, and do
  not take the back end away.
\<close>

definition pollOnceWithoutFunctors :: "int \<Rightarrow> ('cb, 'fn, 'b, 'w) LoopHost \<Rightarrow> int \<Rightarrow> 'w \<Rightarrow> 'w" where
  "pollOnceWithoutFunctors wakeup_fd h timeout_ms w = pollOnceInternal wakeup_fd h timeout_ms False w"

definition runs_on ::
    "('cb, 'fn, 'b, 'x RtWaits_scheme) LoopHost \<Rightarrow> ('x RtWaits_scheme \<Rightarrow> int) \<Rightarrow> 'x RtWaits_scheme \<Rightarrow> 'x RtWaits_scheme \<Rightarrow> bool" where
  "runs_on h ticks w w' \<longleftrightarrow> ticks w \<le> ticks w' \<and> wait_deadline_ms (rt_rpc w') = wait_deadline_ms (rt_rpc w) \<and>
     (el_backend (host_loop h w) \<noteq> None \<longrightarrow> el_backend (host_loop h w') \<noteq> None)"

lemma runs_on_refl [simp]: "runs_on h ticks w w"
  by (simp add: runs_on_def)

lemma runs_on_trans [trans]: "runs_on h ticks w1 w2 \<Longrightarrow> runs_on h ticks w2 w3 \<Longrightarrow> runs_on h ticks w1 w3"
  by (auto simp: runs_on_def)

lemma runs_on_fold: "(\<And>x w. runs_on h ticks w (f x w)) \<Longrightarrow> runs_on h ticks w (fold f xs w)"
proof (induction xs arbitrary: w)
  case (Cons x xs)
  from Cons.prems have "runs_on h ticks w (f x w)" by simp
  also note Cons.IH [OF Cons.prems, of "f x w"]
  finally show ?case by simp
qed simp

locale waiting_loop =
  fixes h :: "('cb, 'fn, 'b, 'x RtWaits_scheme) LoopHost" and ticks :: "'x RtWaits_scheme \<Rightarrow> int"
  assumes clock: "host_now h w = millis ticks w"
    and set_loop: "host_loop h (host_set h l w) = l" "ticks (host_set h l w) = ticks w" "rt_rpc (host_set h l w) = rt_rpc w"
    and poll_law: "0 \<le> ms \<Longrightarrow> host_poll h ms w = (evs, w') \<Longrightarrow> ticks w < ticks w' \<and> runs_on h ticks w w'"
    and event_law: "runs_on h ticks w (host_event h cb fd events w)"
    and call_law: "runs_on h ticks w (host_call h f w)"
    and field_law: "ticks (w\<lparr>rt_rpc := r\<rparr>) = ticks w" "ticks (w\<lparr>rt_control := t\<rparr>) = ticks w"
      "host_loop h (w\<lparr>rt_rpc := r\<rparr>) = host_loop h w" "host_loop h (w\<lparr>rt_control := t\<rparr>) = host_loop h w"
begin

lemma set_runs_on: "el_backend l = el_backend (host_loop h w) \<Longrightarrow> runs_on h ticks w (host_set h l w)"
  by (simp add: runs_on_def set_loop)

lemma dispatch_runs_on: "runs_on h ticks w (dispatch_event wakeup_fd h ev w)"
  by (auto simp: dispatch_event_def loop_update_def event_law intro: set_runs_on split: prod.splits option.splits)

lemma timers_run_on: "runs_on h ticks w (processTimers h w)"
proof -
  obtain expired rest where x: "expire_timers (host_now h w) (timers (host_loop h w)) = (expired, rest)" by force
  have "runs_on h ticks w (host_set h ((host_loop h w)\<lparr>timers := rest\<rparr>) w)" by (rule set_runs_on) simp
  also have "runs_on h ticks \<dots> (fold (host_call h) expired \<dots>)" by (rule runs_on_fold) (rule call_law)
  finally show ?thesis by (simp add: processTimers_def x)
qed

lemma timeout_limited: "0 \<le> ms \<Longrightarrow> 0 \<le> calculateTimeout now ms l"
  by (cases rule: calculateTimeout_cases [of l now ms]) (auto split: if_splits)

lemma round_runs_on:
  assumes here: "el_backend (host_loop h w) \<noteq> None" and ms: "0 \<le> ms"
  shows "ticks w < ticks (pollOnceWithoutFunctors wakeup_fd h ms w)" "runs_on h ticks w (pollOnceWithoutFunctors wakeup_fd h ms w)"
proof -
  obtain evs w1 where p: "host_poll h (calculateTimeout (host_now h w) ms (host_loop h w)) w = (evs, w1)" by force
  note law = poll_law [OF timeout_limited [OF ms] p]
  let ?w2 = "\<lambda>es. processTimers h (fold (dispatch_event wakeup_fd h) es w1)"
  have 2: "runs_on h ticks w1 (?w2 es)" for es
    by (rule runs_on_trans [OF runs_on_fold timers_run_on]) (rule dispatch_runs_on)
  have 3: "runs_on h ticks w1 (loop_update h (\<lambda>l. l\<lparr>functor_wakeup_pending := True\<rparr>) (?w2 es))" for es
    unfolding loop_update_def by (rule runs_on_trans [OF 2]) (rule set_runs_on, simp)
  have "pollOnceWithoutFunctors wakeup_fd h ms w \<in> {w1} \<union> (\<Union>es. {?w2 es, loop_update h (\<lambda>l. l\<lparr>functor_wakeup_pending := True\<rparr>) (?w2 es)})"
    using here p by (auto simp: pollOnceWithoutFunctors_def pollOnceInternal_def Let_def split: option.splits)
  then have "runs_on h ticks w1 (pollOnceWithoutFunctors wakeup_fd h ms w)" using 2 3 by auto
  with law show "ticks w < ticks (pollOnceWithoutFunctors wakeup_fd h ms w)"
    "runs_on h ticks w (pollOnceWithoutFunctors wakeup_fd h ms w)"
    by (auto simp: runs_on_def)
qed

lemma polling_rounds: "polling (pollOnceWithoutFunctors wakeup_fd h) ticks (\<lambda>w. el_backend (host_loop h w) \<noteq> None)"
proof
  fix w ms
  assume a: "el_backend (host_loop h w) \<noteq> None" "0 \<le> (ms :: int)"
  note r = round_runs_on [OF a]
  show "wait_deadline_ms (rt_rpc (pollOnceWithoutFunctors wakeup_fd h ms w)) = wait_deadline_ms (rt_rpc w)"
    "el_backend (host_loop h (pollOnceWithoutFunctors wakeup_fd h ms w)) \<noteq> None"
    "ticks w < ticks (pollOnceWithoutFunctors wakeup_fd h ms w)"
    using r a by (simp_all add: runs_on_def)
qed (simp_all add: field_law)

end

sublocale waiting_loop \<subseteq> rounds: polling "pollOnceWithoutFunctors wakeup_fd h" ticks "\<lambda>w. el_backend (host_loop h w) \<noteq> None"
  for wakeup_fd
  by (rule polling_rounds)

text \<open>
  A runtime whose event loop hears of one reply per round, in the order of its inbox, and waits
  otherwise.
\<close>

record RtSim = RtWaits +
  sim_loop :: "(unit, unit, unit) EventLoop"
  sim_ticks :: int
  sim_inbox :: "(bool \<times> u32 \<times> Message) list"

definition deliver :: "bool \<times> u32 \<times> Message \<Rightarrow> RtSim \<Rightarrow> RtSim" where
  "deliver = (\<lambda>(control, seq, m) w.
     if control then snd (snd (storeAndConsumeControlReply seq m w)) else snd (snd (storeAndConsumeDataReply seq m w)))"

definition rt_sim :: "(unit, unit, unit, RtSim) LoopHost" where
  "rt_sim = \<lparr>host_loop = sim_loop, host_set = (\<lambda>l w. w\<lparr>sim_loop := l\<rparr>), host_now = millis sim_ticks,
     host_poll = (\<lambda>ms w. if sim_inbox w = [] then (Some [], w\<lparr>sim_ticks := sim_ticks w + max 1 (1000000 * ms)\<rparr>)
       else (Some [(5, EVENT_READ)], w\<lparr>sim_ticks := sim_ticks w + 1\<rparr>)),
     host_event = (\<lambda>cb fd events w. case sim_inbox w of [] \<Rightarrow> w | e # rest \<Rightarrow> (deliver e w)\<lparr>sim_inbox := rest\<rparr>),
     host_call = (\<lambda>f w. w)\<rparr>"

lemma deliver_rest [simp]:
  "sim_ticks (deliver e w) = sim_ticks w" "sim_loop (deliver e w) = sim_loop w"
  "wait_deadline_ms (rt_rpc (deliver e w)) = wait_deadline_ms (rt_rpc w)"
  by (simp_all add: deliver_def storeAndConsumeControlReply_def storeAndConsumeDataReply_def split: prod.split)

interpretation rt_sim: waiting_loop rt_sim sim_ticks
  by unfold_locales (auto simp: rt_sim_def runs_on_def split: list.splits if_splits)

end
