(* ===== verification/TopicRuntime.thy ===== *)
theory TopicRuntime
  imports OrdMap OmniTypes
begin

section \<open>Topics of a runtime\<close>

text \<open>
  core/topic_runtime.cpp: what a runtime remembers of the topics it subscribes to and publishes, keyed by
  the hash of the topic name. Callbacks are values of two type parameters; an empty \<open>std::function\<close> is
  \<open>None\<close>. The callbacks to be called are copied before the first one is called, so an operation that
  calls them is the list of its calls. The second half of the theory states what the tables stand for
  and shows that every operation does to it what it promises.
\<close>

subsection \<open>Data\<close>

record ShmSubscriber =
  sb_service_name :: string
  sb_client_id :: u32

record SubscriptionSelector =
  sl_publisher_service :: string
  sl_host_id :: string
  sl_instance_id :: string
  sl_instance_level :: bool

definition selector_key :: "SubscriptionSelector \<Rightarrow> string" where
  "selector_key s =
     (if sl_instance_level s
      then ''I'' @ dec (length (sl_publisher_service s)) @ ''|'' @ sl_publisher_service s
             @ dec (length (sl_instance_id s)) @ ''|'' @ sl_instance_id s
      else if sl_publisher_service s \<noteq> []
      then ''S'' @ dec (length (sl_publisher_service s)) @ ''|'' @ sl_publisher_service s
      else ''L'')"

definition selector_matches :: "SubscriptionSelector \<Rightarrow> string \<Rightarrow> string \<Rightarrow> string \<Rightarrow> bool" where
  "selector_matches s service host_id instance_id \<longleftrightarrow>
     (if sl_publisher_service s = [] then True
      else if sl_publisher_service s \<noteq> service then False
      else if sl_instance_level s then sl_instance_id s = instance_id
      else True)"

record ('s, 'e) Subscription =
  su_selector :: SubscriptionSelector
  su_key :: string
  su_source_callback :: "'s option"
  su_has_source_callback :: bool
  su_error_callback :: "'e option"
  su_has_error_callback :: bool
  su_expected_idl_hash :: u32

definition Subscription_new :: "SubscriptionSelector \<Rightarrow> ('s, 'e) Subscription" where
  "Subscription_new selector = \<lparr>su_selector = selector, su_key = selector_key selector, su_source_callback = None,
     su_has_source_callback = False, su_error_callback = None, su_has_error_callback = False, su_expected_idl_hash = 0\<rparr>"

record ('s, 'e) TopicState =
  ts_id :: u32
  ts_name :: string
  ts_subscriptions :: "('s, 'e) Subscription list"
  ts_tcp_subscribers :: "int list"
  ts_shm_subscribers :: "ShmSubscriber list"
  ts_published :: bool
  ts_owner_service :: string
  ts_published_hash :: u32

definition TopicState_init :: "('s, 'e) TopicState" where
  "TopicState_init = \<lparr>ts_id = 0, ts_name = [], ts_subscriptions = [], ts_tcp_subscribers = [], ts_shm_subscribers = [],
     ts_published = False, ts_owner_service = [], ts_published_hash = 0\<rparr>"

record ('s, 'e) TopicRuntime =
  tr_topics :: "(u32, ('s, 'e) TopicState) omap"
  tr_name_to_id :: "(string, u32) omap"

definition TopicRuntime_init :: "('s, 'e) TopicRuntime" where
  "TopicRuntime_init = \<lparr>tr_topics = om_empty, tr_name_to_id = om_empty\<rparr>"

subsection \<open>Nodes\<close>

definition topic_or_new :: "u32 \<Rightarrow> ('s, 'e) TopicRuntime \<Rightarrow> ('s, 'e) TopicState" where
  "topic_or_new tid tr = (case om_lookup (tr_topics tr) tid of Some st \<Rightarrow> st | None \<Rightarrow> TopicState_init)"

text \<open>\<open>ensureTopic\<close> returns a reference to the node: here the change made through it is an argument.\<close>

definition ensureTopic ::
  "u32 \<Rightarrow> string \<Rightarrow> (('s, 'e) TopicState \<Rightarrow> ('s, 'e) TopicState) \<Rightarrow> ('s, 'e) TopicRuntime \<Rightarrow> ('s, 'e) TopicRuntime" where
  "ensureTopic tid name change tr =
     (let st = (topic_or_new tid tr)\<lparr>ts_id := tid\<rparr>;
          st = (if name \<noteq> [] then st\<lparr>ts_name := name\<rparr> else st);
          names = (if name \<noteq> [] then om_update name tid (tr_name_to_id tr) else tr_name_to_id tr)
      in \<lparr>tr_topics = om_update tid (change st) (tr_topics tr), tr_name_to_id = names\<rparr>)"

text \<open>The index of the first subscription with a key, and the reference \<open>ensureSubscription\<close> returns.\<close>

primrec key_index :: "string \<Rightarrow> ('s, 'e) Subscription list \<Rightarrow> nat option" where
  "key_index k [] = None"
| "key_index k (s # ss) = (if su_key s = k then Some 0 else map_option Suc (key_index k ss))"

definition ensureSubscription ::
  "SubscriptionSelector \<Rightarrow> (('s, 'e) Subscription \<Rightarrow> ('s, 'e) Subscription) \<Rightarrow> ('s, 'e) TopicState \<Rightarrow> ('s, 'e) TopicState" where
  "ensureSubscription selector change st =
     (let subs = ts_subscriptions st in
      case key_index (selector_key selector) subs of
        Some i \<Rightarrow> st\<lparr>ts_subscriptions := subs[i := change (subs ! i)]\<rparr>
      | None \<Rightarrow> st\<lparr>ts_subscriptions := subs @ [change (Subscription_new selector)]\<rparr>)"

definition findSubscription :: "('s, 'e) TopicState \<Rightarrow> string \<Rightarrow> ('s, 'e) Subscription option" where
  "findSubscription st key = find (\<lambda>s. su_key s = key) (ts_subscriptions st)"

definition isTopicUnused :: "('s, 'e) TopicState \<Rightarrow> bool" where
  "isTopicUnused st \<longleftrightarrow> ts_subscriptions st = [] \<and> \<not> ts_published st \<and> ts_tcp_subscribers st = [] \<and> ts_shm_subscribers st = []"

definition eraseTopicIfUnused :: "u32 \<Rightarrow> ('s, 'e) TopicState \<Rightarrow> ('s, 'e) TopicRuntime \<Rightarrow> ('s, 'e) TopicRuntime" where
  "eraseTopicIfUnused tid st tr =
     (if \<not> isTopicUnused st then tr
      else \<lparr>tr_topics = om_erase tid (tr_topics tr),
            tr_name_to_id = (if ts_name st \<noteq> [] then om_erase (ts_name st) (tr_name_to_id tr) else tr_name_to_id tr)\<rparr>)"

definition dropNameIfUnused :: "string \<Rightarrow> u32 \<Rightarrow> ('s, 'e) TopicRuntime \<Rightarrow> ('s, 'e) TopicRuntime" where
  "dropNameIfUnused name tid tr =
     (case om_lookup (tr_topics tr) tid of
        None \<Rightarrow> tr\<lparr>tr_name_to_id := om_erase name (tr_name_to_id tr)\<rparr>
      | Some st \<Rightarrow>
          eraseTopicIfUnused tid st
            (if ts_subscriptions st = [] \<and> \<not> ts_published st then tr\<lparr>tr_name_to_id := om_erase name (tr_name_to_id tr)\<rparr> else tr))"

text \<open>The node of a name.\<close>

definition topic_named :: "string \<Rightarrow> ('s, 'e) TopicRuntime \<Rightarrow> (u32 \<times> ('s, 'e) TopicState) option" where
  "topic_named name tr =
     (case om_lookup (tr_name_to_id tr) name of
        None \<Rightarrow> None
      | Some tid \<Rightarrow> map_option (Pair tid) (om_lookup (tr_topics tr) tid))"

subsection \<open>Subscriptions\<close>

definition rememberSubscription ::
  "string \<Rightarrow> SubscriptionSelector \<Rightarrow> 's option \<Rightarrow> u32 \<Rightarrow> ('s, 'e) TopicRuntime \<Rightarrow> ('s, 'e) TopicRuntime" where
  "rememberSubscription topic_name selector callback expected_idl_hash =
     ensureTopic (fnv1a_32 topic_name) topic_name (ensureSubscription selector (\<lambda>sub.
       sub\<lparr>su_source_callback := callback, su_has_source_callback := True, su_expected_idl_hash := expected_idl_hash\<rparr>))"

text \<open>Erasing the first subscription with a key.\<close>

primrec erase_key :: "string \<Rightarrow> ('s, 'e) Subscription list \<Rightarrow> ('s, 'e) Subscription list" where
  "erase_key k [] = []"
| "erase_key k (s # ss) = (if su_key s = k then ss else s # erase_key k ss)"

definition forgetSubscription :: "string \<Rightarrow> SubscriptionSelector \<Rightarrow> ('s, 'e) TopicRuntime \<Rightarrow> ('s, 'e) TopicRuntime" where
  "forgetSubscription topic_name selector tr =
     (case topic_named topic_name tr of
        None \<Rightarrow> tr
      | Some (tid, st) \<Rightarrow>
          dropNameIfUnused topic_name tid
            (tr\<lparr>tr_topics := om_update tid (st\<lparr>ts_subscriptions := erase_key (selector_key selector) (ts_subscriptions st)\<rparr>) (tr_topics tr)\<rparr>))"

definition setErrorCallback ::
  "string \<Rightarrow> SubscriptionSelector \<Rightarrow> 'e option \<Rightarrow> ('s, 'e) TopicRuntime \<Rightarrow> ('s, 'e) TopicRuntime" where
  "setErrorCallback topic_name selector cb =
     ensureTopic (fnv1a_32 topic_name) topic_name (ensureSubscription selector (\<lambda>sub.
       sub\<lparr>su_error_callback := cb, su_has_error_callback := True\<rparr>))"

definition setExpectedSubscriptionHash ::
  "string \<Rightarrow> SubscriptionSelector \<Rightarrow> u32 \<Rightarrow> ('s, 'e) TopicRuntime \<Rightarrow> ('s, 'e) TopicRuntime" where
  "setExpectedSubscriptionHash topic_name selector idl_hash =
     ensureTopic (fnv1a_32 topic_name) topic_name (ensureSubscription selector (\<lambda>sub. sub\<lparr>su_expected_idl_hash := idl_hash\<rparr>))"

text \<open>The error callbacks that are called, each with the topic, the error and an empty buffer.\<close>

definition error_callbacks :: "('s, 'e) Subscription list \<Rightarrow> 'e list" where
  "error_callbacks subs =
     concat (map (\<lambda>s. if su_has_error_callback s then case su_error_callback s of None \<Rightarrow> [] | Some cb \<Rightarrow> [cb] else []) subs)"

definition notifyError :: "u32 \<Rightarrow> int \<Rightarrow> ('s, 'e) TopicRuntime \<Rightarrow> ('e \<times> u32 \<times> int) list" where
  "notifyError topic_id error tr =
     (case om_lookup (tr_topics tr) topic_id of
        None \<Rightarrow> []
      | Some st \<Rightarrow> map (\<lambda>cb. (cb, topic_id, error)) (error_callbacks (ts_subscriptions st)))"

definition notifyErrorFrom ::
  "u32 \<Rightarrow> string \<Rightarrow> string \<Rightarrow> string \<Rightarrow> int \<Rightarrow> ('s, 'e) TopicRuntime \<Rightarrow> ('e \<times> u32 \<times> int) list" where
  "notifyErrorFrom topic_id publisher_service host_id instance_id error tr =
     (case om_lookup (tr_topics tr) topic_id of
        None \<Rightarrow> []
      | Some st \<Rightarrow> map (\<lambda>cb. (cb, topic_id, error)) (error_callbacks
          (filter (\<lambda>s. selector_matches (su_selector s) publisher_service host_id instance_id) (ts_subscriptions st))))"

definition notifySubscriptionError :: "string \<Rightarrow> string \<Rightarrow> int \<Rightarrow> ('s, 'e) TopicRuntime \<Rightarrow> ('e \<times> u32 \<times> int) list" where
  "notifySubscriptionError topic_name subscription_key error tr =
     (case topic_named topic_name tr of
        None \<Rightarrow> []
      | Some (tid, st) \<Rightarrow>
          (case findSubscription st subscription_key of
             None \<Rightarrow> []
           | Some sub \<Rightarrow> map (\<lambda>cb. (cb, ts_id st, error)) (error_callbacks [sub])))"

subsection \<open>Publications\<close>

definition rememberPublishedTopic ::
  "string \<Rightarrow> u32 \<Rightarrow> string \<Rightarrow> u32 \<Rightarrow> ('s, 'e) TopicRuntime \<Rightarrow> ('s, 'e) TopicRuntime" where
  "rememberPublishedTopic topic_name topic_id owner_service idl_hash =
     ensureTopic topic_id topic_name (\<lambda>st. st\<lparr>ts_published := True, ts_owner_service := owner_service, ts_published_hash := idl_hash\<rparr>)"

definition forgetPublishedTopic :: "string \<Rightarrow> ('s, 'e) TopicRuntime \<Rightarrow> ('s, 'e) TopicRuntime" where
  "forgetPublishedTopic topic_name tr =
     (case topic_named topic_name tr of
        None \<Rightarrow> tr
      | Some (tid, st) \<Rightarrow>
          if \<not> ts_published st then tr
          else dropNameIfUnused topic_name tid
            (tr\<lparr>tr_topics := om_update tid (st\<lparr>ts_published := False, ts_owner_service := [], ts_published_hash := 0,
               ts_tcp_subscribers := [], ts_shm_subscribers := []\<rparr>) (tr_topics tr)\<rparr>))"

definition forgetPublishedTopicsByOwner :: "string \<Rightarrow> ('s, 'e) TopicRuntime \<Rightarrow> ('s, 'e) TopicRuntime" where
  "forgetPublishedTopicsByOwner owner_service tr =
     fold forgetPublishedTopic
       (map ts_name (filter (\<lambda>st. ts_published st \<and> ts_owner_service st = owner_service \<and> ts_name st \<noteq> []) (om_values (tr_topics tr)))) tr"

subsection \<open>Subscribers\<close>

definition addTcpSubscriber :: "u32 \<Rightarrow> int \<Rightarrow> ('s, 'e) TopicRuntime \<Rightarrow> ('s, 'e) TopicRuntime" where
  "addTcpSubscriber topic_id client_fd =
     ensureTopic topic_id [] (\<lambda>st. if client_fd \<in> set (ts_tcp_subscribers st) then st
       else st\<lparr>ts_tcp_subscribers := ts_tcp_subscribers st @ [client_fd]\<rparr>)"

definition addShmSubscriberService :: "u32 \<Rightarrow> string \<Rightarrow> u32 \<Rightarrow> ('s, 'e) TopicRuntime \<Rightarrow> ('s, 'e) TopicRuntime" where
  "addShmSubscriberService topic_id service_name client_id =
     (let subscriber = \<lparr>sb_service_name = service_name, sb_client_id = client_id\<rparr> in
      ensureTopic topic_id [] (\<lambda>st. if subscriber \<in> set (ts_shm_subscribers st) then st
        else st\<lparr>ts_shm_subscribers := ts_shm_subscribers st @ [subscriber]\<rparr>))"

text \<open>One step of the loops over all topics: the node is changed, then erased if nothing is left of it.\<close>

definition strip_topic ::
  "(('s, 'e) TopicState \<Rightarrow> ('s, 'e) TopicState) \<Rightarrow> u32 \<Rightarrow> ('s, 'e) TopicRuntime \<Rightarrow> ('s, 'e) TopicRuntime" where
  "strip_topic change tid tr =
     (case om_lookup (tr_topics tr) tid of
        None \<Rightarrow> tr
      | Some st \<Rightarrow> eraseTopicIfUnused tid (change st) (tr\<lparr>tr_topics := om_update tid (change st) (tr_topics tr)\<rparr>))"

definition removeTcpSubscriberFd :: "int \<Rightarrow> ('s, 'e) TopicRuntime \<Rightarrow> ('s, 'e) TopicRuntime" where
  "removeTcpSubscriberFd client_fd tr =
     fold (strip_topic (\<lambda>st. st\<lparr>ts_tcp_subscribers := filter (\<lambda>fd. fd \<noteq> client_fd) (ts_tcp_subscribers st)\<rparr>)) (om_keys (tr_topics tr)) tr"

definition removeShmSubscriberService :: "string \<Rightarrow> u32 \<Rightarrow> ('s, 'e) TopicRuntime \<Rightarrow> ('s, 'e) TopicRuntime" where
  "removeShmSubscriberService service_name client_id tr =
     fold (strip_topic (\<lambda>st. st\<lparr>ts_shm_subscribers :=
         filter (\<lambda>s. \<not> (sb_service_name s = service_name \<and> sb_client_id s = client_id)) (ts_shm_subscribers st)\<rparr>))
       (om_keys (tr_topics tr)) tr"

definition removeTcpSubscriber :: "u32 \<Rightarrow> int \<Rightarrow> ('s, 'e) TopicRuntime \<Rightarrow> ('s, 'e) TopicRuntime" where
  "removeTcpSubscriber topic_id client_fd tr =
     (case om_lookup (tr_topics tr) topic_id of
        None \<Rightarrow> tr
      | Some st \<Rightarrow> tr\<lparr>tr_topics := om_update topic_id
          (st\<lparr>ts_tcp_subscribers := filter (\<lambda>fd. fd \<noteq> client_fd) (ts_tcp_subscribers st)\<rparr>) (tr_topics tr)\<rparr>)"

definition tcpSubscribers :: "u32 \<Rightarrow> ('s, 'e) TopicRuntime \<Rightarrow> int list" where
  "tcpSubscribers topic_id tr = (case om_lookup (tr_topics tr) topic_id of None \<Rightarrow> [] | Some st \<Rightarrow> ts_tcp_subscribers st)"

definition shmSubscribers :: "u32 \<Rightarrow> ('s, 'e) TopicRuntime \<Rightarrow> ShmSubscriber list" where
  "shmSubscribers topic_id tr = (case om_lookup (tr_topics tr) topic_id of None \<Rightarrow> [] | Some st \<Rightarrow> ts_shm_subscribers st)"

subsection \<open>Queries\<close>

definition getTopicId :: "string \<Rightarrow> ('s, 'e) TopicRuntime \<Rightarrow> u32" where
  "getTopicId name tr =
     (case topic_named name tr of None \<Rightarrow> 0 | Some (_, st) \<Rightarrow> if ts_published st then ts_id st else 0)"

definition source_callbacks :: "('s, 'e) Subscription list \<Rightarrow> 's list" where
  "source_callbacks subs =
     concat (map (\<lambda>s. if su_has_source_callback s then case su_source_callback s of None \<Rightarrow> [] | Some cb \<Rightarrow> [cb] else []) subs)"

text \<open>The callbacks called with a message, each with host, instance, topic and data.\<close>

definition dispatchFrom ::
  "string \<Rightarrow> string \<Rightarrow> string \<Rightarrow> u32 \<Rightarrow> bytes \<Rightarrow> ('s, 'e) TopicRuntime \<Rightarrow> ('s \<times> string \<times> string \<times> u32 \<times> bytes) list" where
  "dispatchFrom publisher_service host_id instance_id topic_id data tr =
     (case om_lookup (tr_topics tr) topic_id of
        None \<Rightarrow> []
      | Some st \<Rightarrow> map (\<lambda>cb. (cb, host_id, instance_id, topic_id, data)) (source_callbacks
          (filter (\<lambda>s. selector_matches (su_selector s) publisher_service host_id instance_id) (ts_subscriptions st))))"

definition subscriptionRecords :: "('s, 'e) TopicRuntime \<Rightarrow> (string \<times> SubscriptionSelector \<times> u32) list" where
  "subscriptionRecords tr =
     concat (map (\<lambda>st. if ts_name st = [] then []
       else map (\<lambda>s. (ts_name st, su_selector s, su_expected_idl_hash s)) (filter su_has_source_callback (ts_subscriptions st)))
       (om_values (tr_topics tr)))"

definition matchSubscriptions ::
  "string \<Rightarrow> string \<Rightarrow> string \<Rightarrow> string \<Rightarrow> ('s, 'e) TopicRuntime \<Rightarrow> (string \<times> SubscriptionSelector \<times> u32) list" where
  "matchSubscriptions topic_name publisher_service host_id instance_id tr =
     (case topic_named topic_name tr of
        None \<Rightarrow> []
      | Some (_, st) \<Rightarrow> map (\<lambda>s. (su_key s, su_selector s, su_expected_idl_hash s))
          (filter (\<lambda>s. selector_matches (su_selector s) publisher_service host_id instance_id) (ts_subscriptions st)))"

definition published_states :: "('s, 'e) TopicRuntime \<Rightarrow> ('s, 'e) TopicState list" where
  "published_states tr = filter (\<lambda>st. ts_published st \<and> ts_name st \<noteq> []) (om_values (tr_topics tr))"

definition publishedTopicOwners :: "('s, 'e) TopicRuntime \<Rightarrow> (string, string) omap" where
  "publishedTopicOwners tr = fold (\<lambda>st. om_update (ts_name st) (ts_owner_service st)) (published_states tr) om_empty"

definition publishedTopicHashes :: "('s, 'e) TopicRuntime \<Rightarrow> (string, u32) omap" where
  "publishedTopicHashes tr = fold (\<lambda>st. om_update (ts_name st) (ts_published_hash st)) (published_states tr) om_empty"


section \<open>What the tables stand for\<close>

text \<open>
  The subscriptions of each topic by selector key, the published topics with owner and hash, and the
  subscribers of each topic.
\<close>

record ('s, 'e) Topics =
  at_subs :: "string \<Rightarrow> string \<Rightarrow> ('s, 'e) Subscription option"
  at_pub :: "string \<Rightarrow> (string \<times> u32) option"
  at_tcp :: "u32 \<Rightarrow> int list"
  at_shm :: "u32 \<Rightarrow> ShmSubscriber list"

datatype ('s, 'e) TopicOp =
    Remember string SubscriptionSelector "'s option" u32
  | SetError string SubscriptionSelector "'e option"
  | SetHash string SubscriptionSelector u32
  | Forget string SubscriptionSelector
  | Publish string string u32
  | Unpublish string
  | UnpublishOwner string
  | AddTcp u32 int
  | DropTcp u32 int
  | DropTcpFd int
  | AddShm u32 string u32
  | DropShm string u32

text \<open>Topic identifiers are the hashes of the names, as the callers of \<open>rememberPublishedTopic\<close> compute them.\<close>

fun topic_op :: "('s, 'e) TopicOp \<Rightarrow> ('s, 'e) TopicRuntime \<Rightarrow> ('s, 'e) TopicRuntime" where
  "topic_op (Remember n sel cb h) = rememberSubscription n sel cb h"
| "topic_op (SetError n sel cb) = setErrorCallback n sel cb"
| "topic_op (SetHash n sel h) = setExpectedSubscriptionHash n sel h"
| "topic_op (Forget n sel) = forgetSubscription n sel"
| "topic_op (Publish n owner h) = rememberPublishedTopic n (fnv1a_32 n) owner h"
| "topic_op (Unpublish n) = forgetPublishedTopic n"
| "topic_op (UnpublishOwner owner) = forgetPublishedTopicsByOwner owner"
| "topic_op (AddTcp i fd) = addTcpSubscriber i fd"
| "topic_op (DropTcp i fd) = removeTcpSubscriber i fd"
| "topic_op (DropTcpFd fd) = removeTcpSubscriberFd fd"
| "topic_op (AddShm i svc c) = addShmSubscriberService i svc c"
| "topic_op (DropShm svc c) = removeShmSubscriberService svc c"

fun op_names :: "('s, 'e) TopicOp \<Rightarrow> string set" where
  "op_names (Remember n _ _ _) = {n}"
| "op_names (SetError n _ _) = {n}"
| "op_names (SetHash n _ _) = {n}"
| "op_names (Forget n _) = {n}"
| "op_names (Publish n _ _) = {n}"
| "op_names (Unpublish n) = {n}"
| "op_names _ = {}"

definition edit_sub ::
  "string \<Rightarrow> SubscriptionSelector \<Rightarrow> (('s, 'e) Subscription \<Rightarrow> ('s, 'e) Subscription) \<Rightarrow> ('s, 'e) Topics \<Rightarrow> ('s, 'e) Topics" where
  "edit_sub n sel f a =
     (let k = selector_key sel in
      a\<lparr>at_subs := (at_subs a)(n := (at_subs a n)(k := Some (f (case at_subs a n k of Some s \<Rightarrow> s | None \<Rightarrow> Subscription_new sel))))\<rparr>)"

definition add_new :: "'a \<Rightarrow> 'a list \<Rightarrow> 'a list" where
  "add_new x xs = (if x \<in> set xs then xs else xs @ [x])"

definition unpublish :: "(string \<Rightarrow> bool) \<Rightarrow> ('s, 'e) Topics \<Rightarrow> ('s, 'e) Topics" where
  "unpublish P a =
     (let gone = (\<lambda>n. P n \<and> at_pub a n \<noteq> None) in
      a\<lparr>at_pub := (\<lambda>n. if gone n then None else at_pub a n),
        at_tcp := (\<lambda>i. if \<exists>n. gone n \<and> fnv1a_32 n = i then [] else at_tcp a i),
        at_shm := (\<lambda>i. if \<exists>n. gone n \<and> fnv1a_32 n = i then [] else at_shm a i)\<rparr>)"

text \<open>What each operation promises.\<close>

fun topic_spec :: "('s, 'e) TopicOp \<Rightarrow> ('s, 'e) Topics \<Rightarrow> ('s, 'e) Topics" where
  "topic_spec (Remember n sel cb h) a = edit_sub n sel (\<lambda>s. s\<lparr>su_source_callback := cb, su_has_source_callback := True,
     su_expected_idl_hash := h\<rparr>) a"
| "topic_spec (SetError n sel cb) a = edit_sub n sel (\<lambda>s. s\<lparr>su_error_callback := cb, su_has_error_callback := True\<rparr>) a"
| "topic_spec (SetHash n sel h) a = edit_sub n sel (\<lambda>s. s\<lparr>su_expected_idl_hash := h\<rparr>) a"
| "topic_spec (Forget n sel) a = a\<lparr>at_subs := (at_subs a)(n := (at_subs a n)(selector_key sel := None))\<rparr>"
| "topic_spec (Publish n owner h) a = a\<lparr>at_pub := (at_pub a)(n \<mapsto> (owner, h))\<rparr>"
| "topic_spec (Unpublish n) a = unpublish (\<lambda>m. m = n) a"
| "topic_spec (UnpublishOwner owner) a = unpublish (\<lambda>n. map_option fst (at_pub a n) = Some owner) a"
| "topic_spec (AddTcp i fd) a = a\<lparr>at_tcp := (at_tcp a)(i := add_new fd (at_tcp a i))\<rparr>"
| "topic_spec (DropTcp i fd) a = a\<lparr>at_tcp := (at_tcp a)(i := filter (\<lambda>x. x \<noteq> fd) (at_tcp a i))\<rparr>"
| "topic_spec (DropTcpFd fd) a = a\<lparr>at_tcp := (\<lambda>i. filter (\<lambda>x. x \<noteq> fd) (at_tcp a i))\<rparr>"
| "topic_spec (AddShm i svc c) a = a\<lparr>at_shm := (at_shm a)(i := add_new \<lparr>sb_service_name = svc, sb_client_id = c\<rparr> (at_shm a i))\<rparr>"
| "topic_spec (DropShm svc c) a = a\<lparr>at_shm := (\<lambda>i. filter (\<lambda>x. x \<noteq> \<lparr>sb_service_name = svc, sb_client_id = c\<rparr>) (at_shm a i))\<rparr>"

definition Topics_init :: "('s, 'e) Topics" where
  "Topics_init = \<lparr>at_subs = (\<lambda>_ _. None), at_pub = (\<lambda>_. None), at_tcp = (\<lambda>_. []), at_shm = (\<lambda>_. [])\<rparr>"

text \<open>The names in use have different hashes, and the empty name is not used.\<close>

definition hashes_differ :: "string set \<Rightarrow> bool" where
  "hashes_differ N \<longleftrightarrow> inj_on fnv1a_32 N \<and> [] \<notin> N"

definition pub_of :: "('s, 'e) TopicState \<Rightarrow> (string \<times> u32) option" where
  "pub_of st = (if ts_published st then Some (ts_owner_service st, ts_published_hash st) else None)"

definition topics_abs :: "string set \<Rightarrow> ('s, 'e) TopicRuntime \<Rightarrow> ('s, 'e) Topics" where
  "topics_abs N tr = \<lparr>
     at_subs = (\<lambda>n k. if n \<in> N then findSubscription (topic_or_new (fnv1a_32 n) tr) k else None),
     at_pub = (\<lambda>n. if n \<in> N then pub_of (topic_or_new (fnv1a_32 n) tr) else None),
     at_tcp = (\<lambda>i. tcpSubscribers i tr), at_shm = (\<lambda>i. shmSubscribers i tr)\<rparr>"

subsection \<open>Nodes and what they hold\<close>

definition body :: "('s, 'e) TopicState \<Rightarrow> (string \<Rightarrow> ('s, 'e) Subscription option) \<times> (string \<times> u32) option \<times> int list \<times> ShmSubscriber list" where
  "body st = (findSubscription st, pub_of st, ts_tcp_subscribers st, ts_shm_subscribers st)"

abbreviation content where "content tr i \<equiv> body (topic_or_new i tr)"

lemma topics_abs_content:
  "topics_abs N tr = \<lparr>
     at_subs = (\<lambda>n k. if n \<in> N then fst (content tr (fnv1a_32 n)) k else None),
     at_pub = (\<lambda>n. if n \<in> N then fst (snd (content tr (fnv1a_32 n))) else None),
     at_tcp = (\<lambda>i. fst (snd (snd (content tr i)))), at_shm = (\<lambda>i. snd (snd (snd (content tr i))))\<rparr>"
  by (simp add: topics_abs_def body_def topic_or_new_def tcpSubscribers_def shmSubscribers_def TopicState_init_def
      fun_eq_iff split: option.split)

lemma body_init [simp]: "body TopicState_init = (\<lambda>_. None, None, [], [])"
  by (simp add: body_def TopicState_init_def findSubscription_def pub_of_def fun_eq_iff)

lemma body_unused: "isTopicUnused st \<Longrightarrow> body st = body TopicState_init"
  by (simp add: body_def isTopicUnused_def findSubscription_def pub_of_def TopicState_init_def fun_eq_iff)

lemma content_put [simp]:
  "content (tr\<lparr>tr_topics := om_update i st (tr_topics tr)\<rparr>) x = (if x = i then body st else content tr x)"
  by (simp add: topic_or_new_def om_lookup_update)

lemma content_names [simp]: "content (tr\<lparr>tr_name_to_id := m\<rparr>) x = content tr x"
  by (simp add: topic_or_new_def)

lemma content_erase [simp]:
  "om_lookup (tr_topics tr) i = Some st \<Longrightarrow> content (eraseTopicIfUnused i st tr) x = content tr x"
  by (auto simp: eraseTopicIfUnused_def topic_or_new_def om_lookup_erase body_unused)

lemma content_drop [simp]: "content (dropNameIfUnused n i tr) x = content tr x"
  by (auto simp: dropNameIfUnused_def split: option.split)

lemma content_ensure [simp]:
  "content (ensureTopic i n f tr) x =
     (if x = i then body (f ((topic_or_new i tr)\<lparr>ts_id := i, ts_name := (if n = [] then ts_name (topic_or_new i tr) else n)\<rparr>))
      else content tr x)"
  by (simp add: ensureTopic_def topic_or_new_def om_lookup_update Let_def)

lemma content_strip:
  "content (strip_topic f i tr) x =
     (if x = i \<and> om_lookup (tr_topics tr) i \<noteq> None then body (f (topic_or_new i tr)) else content tr x)"
proof (cases "om_lookup (tr_topics tr) i")
  case (Some st)
  then have "content (strip_topic f i tr) x = content (tr\<lparr>tr_topics := om_update i (f st) (tr_topics tr)\<rparr>) x"
    unfolding strip_topic_def by (simp del: content_put)
  with Some show ?thesis by (simp add: topic_or_new_def om_lookup_update)
qed (simp add: strip_topic_def)


lemma node_strip: "x \<noteq> i \<Longrightarrow> om_lookup (tr_topics (strip_topic f i tr)) x = om_lookup (tr_topics tr) x"
  by (simp add: strip_topic_def eraseTopicIfUnused_def om_lookup_update om_lookup_erase split: option.split)

lemma content_strips:
  "distinct is \<Longrightarrow> content (fold (strip_topic f) is tr) x =
     (if x \<in> set is \<and> om_lookup (tr_topics tr) x \<noteq> None then body (f (topic_or_new x tr)) else content tr x)"
proof (induction "is" arbitrary: tr)
  case (Cons i "is")
  then have IH: "content (fold (strip_topic f) is (strip_topic f i tr)) x =
     (if x \<in> set is \<and> om_lookup (tr_topics (strip_topic f i tr)) x \<noteq> None then body (f (topic_or_new x (strip_topic f i tr)))
      else content (strip_topic f i tr) x)" by simp
  show ?case
  proof (cases "x = i")
    case True
    with Cons.prems IH show ?thesis by (simp add: content_strip)
  next
    case False
    then have "topic_or_new x (strip_topic f i tr) = topic_or_new x tr" by (simp add: topic_or_new_def node_strip)
    with False IH show ?thesis by (auto simp: node_strip)
  qed
qed simp

lemma key_index_None: "key_index k subs = None \<longleftrightarrow> find (\<lambda>s. su_key s = k) subs = None"
  by (induction subs) simp_all

lemma key_index_Some:
  "key_index k subs = Some i \<Longrightarrow> i < length subs \<and> su_key (subs ! i) = k \<and> find (\<lambda>s. su_key s = k) subs = Some (subs ! i) \<and>
     (\<forall>s. su_key s = k \<longrightarrow> find (\<lambda>s. su_key s = k') (subs[i := s]) = (if k' = k then Some s else find (\<lambda>s. su_key s = k') subs))"
proof (induction subs arbitrary: i)
  case (Cons a subs)
  then show ?case by (cases "su_key a = k") (auto split: if_splits)
qed simp

lemma find_append: "find P (xs @ ys) = (case find P xs of Some x \<Rightarrow> Some x | None \<Rightarrow> find P ys)"
  by (induction xs) simp_all

lemma findSubscription_ensure:
  assumes "\<And>s. su_key (f s) = su_key s"
  shows "findSubscription (ensureSubscription sel f st) = (findSubscription st)(selector_key sel \<mapsto>
     f (case findSubscription st (selector_key sel) of Some s \<Rightarrow> s | None \<Rightarrow> Subscription_new sel))"
proof (rule ext)
  fix k
  show "findSubscription (ensureSubscription sel f st) k = ((findSubscription st)(selector_key sel \<mapsto>
     f (case findSubscription st (selector_key sel) of Some s \<Rightarrow> s | None \<Rightarrow> Subscription_new sel))) k"
  proof (cases "key_index (selector_key sel) (ts_subscriptions st)")
    case None
    have "su_key (f (Subscription_new sel)) = selector_key sel" by (simp add: assms Subscription_new_def)
    with None key_index_None [of "selector_key sel" "ts_subscriptions st"] show ?thesis
      by (simp add: ensureSubscription_def findSubscription_def Let_def find_append split: option.split)
  next
    case (Some i)
    from key_index_Some [OF this, of k] assms Some show ?thesis
      by (simp add: ensureSubscription_def findSubscription_def Let_def)
  qed
qed

lemma find_key_None: "find (\<lambda>s. su_key s = k) subs = None \<longleftrightarrow> k \<notin> su_key ` set subs"
  by (auto simp: find_None_iff)

lemma findSubscription_erase:
  assumes "distinct (map su_key (ts_subscriptions st))"
  shows "findSubscription (st\<lparr>ts_subscriptions := erase_key k (ts_subscriptions st)\<rparr>) = (findSubscription st)(k := None)"
proof -
  have "find (\<lambda>s. su_key s = k') (erase_key k subs) = (if k' = k then None else find (\<lambda>s. su_key s = k') subs)"
    if "distinct (map su_key subs)" for k' and subs :: "('a, 'b) Subscription list"
    using that by (induction subs) (auto simp: find_key_None)
  with assms show ?thesis by (simp add: findSubscription_def fun_eq_iff)
qed

lemma ensure_other [simp]:
  "pub_of (ensureSubscription sel f st) = pub_of st" "ts_tcp_subscribers (ensureSubscription sel f st) = ts_tcp_subscribers st"
  "ts_shm_subscribers (ensureSubscription sel f st) = ts_shm_subscribers st" "ts_id (ensureSubscription sel f st) = ts_id st"
  "ts_name (ensureSubscription sel f st) = ts_name st" "ts_published (ensureSubscription sel f st) = ts_published st"
  by (simp_all add: ensureSubscription_def pub_of_def Let_def split: option.split)

subsection \<open>The invariant\<close>

definition in_use :: "('s, 'e) TopicState \<Rightarrow> bool" where
  "in_use st \<longleftrightarrow> ts_subscriptions st \<noteq> [] \<or> ts_published st"

definition keys_ok :: "('s, 'e) Subscription list \<Rightarrow> bool" where
  "keys_ok subs \<longleftrightarrow> distinct (map su_key subs) \<and> (\<forall>s \<in> set subs. su_key s = selector_key (su_selector s))"

definition node_ok :: "string set \<Rightarrow> u32 \<Rightarrow> ('s, 'e) TopicState \<Rightarrow> bool" where
  "node_ok N i st \<longleftrightarrow> ts_id st = i \<and> keys_ok (ts_subscriptions st) \<and> (ts_name st \<noteq> [] \<longrightarrow> ts_name st \<in> N \<and> fnv1a_32 (ts_name st) = i)"

text \<open>Every name leads to the node with that name, and every node in use is found by its name.\<close>

definition runtime_topics_ok :: "string set \<Rightarrow> ('s, 'e) TopicRuntime \<Rightarrow> bool" where
  "runtime_topics_ok N tr \<longleftrightarrow>
     (\<forall>i st. om_lookup (tr_topics tr) i = Some st \<longrightarrow>
        node_ok N i st \<and> (in_use st \<longrightarrow> om_lookup (tr_name_to_id tr) (ts_name st) = Some i)) \<and>
     (\<forall>n i. om_lookup (tr_name_to_id tr) n = Some i \<longrightarrow>
        n \<in> N \<and> i = fnv1a_32 n \<and> (\<exists>st. om_lookup (tr_topics tr) i = Some st \<and> ts_name st = n))"

lemma runtime_topics_node:
  assumes "runtime_topics_ok N tr" "om_lookup (tr_topics tr) i = Some st"
  shows "node_ok N i st" "in_use st \<Longrightarrow> om_lookup (tr_name_to_id tr) (ts_name st) = Some i"
  using assms by (auto simp: runtime_topics_ok_def)

lemma runtime_topics_name:
  assumes "runtime_topics_ok N tr" "om_lookup (tr_name_to_id tr) n = Some i"
  obtains st where "n \<in> N" "i = fnv1a_32 n" "om_lookup (tr_topics tr) i = Some st" "ts_name st = n"
  using assms unfolding runtime_topics_ok_def by blast

lemma topics_okI:
  assumes "\<And>i st. om_lookup (tr_topics tr) i = Some st \<Longrightarrow> node_ok N i st"
    and "\<And>i st. om_lookup (tr_topics tr) i = Some st \<Longrightarrow> in_use st \<Longrightarrow> om_lookup (tr_name_to_id tr) (ts_name st) = Some i"
    and "\<And>n i. om_lookup (tr_name_to_id tr) n = Some i \<Longrightarrow> n \<in> N \<and> i = fnv1a_32 n \<and> (\<exists>st. om_lookup (tr_topics tr) i = Some st \<and> ts_name st = n)"
  shows "runtime_topics_ok N tr"
  using assms unfolding runtime_topics_ok_def by blast

lemma runtime_topics_init: "runtime_topics_ok N TopicRuntime_init"
  by (simp add: runtime_topics_ok_def TopicRuntime_init_def)

text \<open>Changing a node.\<close>

lemma runtime_topics_put:
  assumes ok: "runtime_topics_ok N tr" and st: "om_lookup (tr_topics tr) i = Some st"
    and new: "node_ok N i st'" "ts_name st' = ts_name st" "in_use st' \<Longrightarrow> in_use st"
  shows "runtime_topics_ok N (tr\<lparr>tr_topics := om_update i st' (tr_topics tr)\<rparr>)"
proof (rule topics_okI)
  fix j s assume j: "om_lookup (tr_topics (tr\<lparr>tr_topics := om_update i st' (tr_topics tr)\<rparr>)) j = Some s"
  show "node_ok N j s" using j new(1) runtime_topics_node(1) [OF ok] by (auto simp: om_lookup_update split: if_splits)
  assume "in_use s"
  show "om_lookup (tr_name_to_id (tr\<lparr>tr_topics := om_update i st' (tr_topics tr)\<rparr>)) (ts_name s) = Some j"
  proof (cases "j = i")
    case True
    with j \<open>in_use s\<close> new(2,3) runtime_topics_node(2) [OF ok st] show ?thesis by (simp add: om_lookup_update)
  next
    case False
    with j \<open>in_use s\<close> runtime_topics_node(2) [OF ok] show ?thesis by (simp add: om_lookup_update)
  qed
next
  fix n j assume "om_lookup (tr_name_to_id (tr\<lparr>tr_topics := om_update i st' (tr_topics tr)\<rparr>)) n = Some j"
  then have "om_lookup (tr_name_to_id tr) n = Some j" by simp
  then obtain s where "n \<in> N" "j = fnv1a_32 n" "om_lookup (tr_topics tr) j = Some s" "ts_name s = n"
    by (rule runtime_topics_name [OF ok])
  with st new(2) show "n \<in> N \<and> j = fnv1a_32 n \<and> (\<exists>s. om_lookup (tr_topics (tr\<lparr>tr_topics := om_update i st' (tr_topics tr)\<rparr>)) j = Some s \<and> ts_name s = n)"
    by (auto simp: om_lookup_update)
qed


text \<open>Looking a topic up by name creates its node, under that name or without one.\<close>

lemma node_ensure:
  "om_lookup (tr_topics (ensureTopic i n f tr)) x =
     (if x = i then Some (f ((topic_or_new i tr)\<lparr>ts_id := i, ts_name := (if n = [] then ts_name (topic_or_new i tr) else n)\<rparr>))
      else om_lookup (tr_topics tr) x)"
  "tr_name_to_id (ensureTopic i n f tr) = (if n = [] then tr_name_to_id tr else om_update n i (tr_name_to_id tr))"
  by (simp_all add: ensureTopic_def om_lookup_update Let_def)

lemma keys_ok_Nil [simp]: "keys_ok []"
  by (simp add: keys_ok_def)

lemma topic_or_new_ok:
  assumes "runtime_topics_ok N tr"
  shows "keys_ok (ts_subscriptions (topic_or_new i tr))" "ts_name (topic_or_new i tr) \<noteq> [] \<Longrightarrow> ts_name (topic_or_new i tr) \<in> N \<and> fnv1a_32 (ts_name (topic_or_new i tr)) = i"
  using runtime_topics_node(1) [OF assms, of i]
  by (auto simp: topic_or_new_def TopicState_init_def node_ok_def split: option.splits)

lemma hashes_differD: "hashes_differ N \<Longrightarrow> m \<in> N \<Longrightarrow> n \<in> N \<Longrightarrow> fnv1a_32 m = fnv1a_32 n \<Longrightarrow> m = n" "hashes_differ N \<Longrightarrow> n \<in> N \<Longrightarrow> n \<noteq> []"
  by (auto simp: hashes_differ_def dest: inj_onD)

lemma runtime_topics_named:
  assumes N: "hashes_differ N" and ok: "runtime_topics_ok N tr" and n: "n \<in> N"
    and f: "\<And>st. ts_id (f st) = ts_id st" "\<And>st. ts_name (f st) = ts_name st"
      "\<And>st. keys_ok (ts_subscriptions st) \<Longrightarrow> keys_ok (ts_subscriptions (f st))"
  shows "runtime_topics_ok N (ensureTopic (fnv1a_32 n) n f tr)"
proof (rule topics_okI)
  have ne: "n \<noteq> []" using hashes_differD(2) [OF N n] .
  fix i st assume st: "om_lookup (tr_topics (ensureTopic (fnv1a_32 n) n f tr)) i = Some st"
  show "node_ok N i st"
    using st ne n f runtime_topics_node(1) [OF ok] topic_or_new_ok(1) [OF ok] by (auto simp: node_ensure node_ok_def split: if_splits)
  assume in_use: "in_use st"
  show "om_lookup (tr_name_to_id (ensureTopic (fnv1a_32 n) n f tr)) (ts_name st) = Some i"
  proof (cases "i = fnv1a_32 n")
    case True
    with st ne f(2) show ?thesis by (auto simp: node_ensure)
  next
    case False
    with st have old: "om_lookup (tr_topics tr) i = Some st" by (simp add: node_ensure)
    from runtime_topics_node(2) [OF ok old in_use] obtain "fnv1a_32 (ts_name st) = i" by (rule runtime_topics_name [OF ok]) simp
    with False have "ts_name st \<noteq> n" by auto
    with runtime_topics_node(2) [OF ok old in_use] ne show ?thesis by (simp add: node_ensure om_lookup_update)
  qed
next
  have ne: "n \<noteq> []" using hashes_differD(2) [OF N n] .
  fix m i assume m: "om_lookup (tr_name_to_id (ensureTopic (fnv1a_32 n) n f tr)) m = Some i"
  show "m \<in> N \<and> i = fnv1a_32 m \<and> (\<exists>st. om_lookup (tr_topics (ensureTopic (fnv1a_32 n) n f tr)) i = Some st \<and> ts_name st = m)"
  proof (cases "m = n")
    case True
    with m n ne f(2) show ?thesis by (simp add: node_ensure)
  next
    case False
    with m ne have "om_lookup (tr_name_to_id tr) m = Some i" by (simp add: node_ensure om_lookup_update)
    then obtain s where s: "m \<in> N" "i = fnv1a_32 m" "om_lookup (tr_topics tr) i = Some s" "ts_name s = m"
      by (rule runtime_topics_name [OF ok])
    moreover have "fnv1a_32 m \<noteq> fnv1a_32 n" using hashes_differD(1) [OF N s(1) n] False by blast
    ultimately show ?thesis by (simp add: node_ensure)
  qed
qed

lemma runtime_topics_unnamed:
  assumes ok: "runtime_topics_ok N tr"
    and f: "\<And>st. ts_id (f st) = ts_id st" "\<And>st. ts_name (f st) = ts_name st" "\<And>st. ts_subscriptions (f st) = ts_subscriptions st"
      "\<And>st. ts_published (f st) = ts_published st"
  shows "runtime_topics_ok N (ensureTopic i [] f tr)"
proof (cases "om_lookup (tr_topics tr) i")
  case None
  show ?thesis
  proof (rule topics_okI)
    fix j st assume "om_lookup (tr_topics (ensureTopic i [] f tr)) j = Some st"
    then show "node_ok N j st" "in_use st \<Longrightarrow> om_lookup (tr_name_to_id (ensureTopic i [] f tr)) (ts_name st) = Some j"
      using None f runtime_topics_node [OF ok]
      by (auto simp: node_ensure node_ok_def topic_or_new_def TopicState_init_def in_use_def split: if_splits)
  next
    fix n j assume "om_lookup (tr_name_to_id (ensureTopic i [] f tr)) n = Some j"
    then have "om_lookup (tr_name_to_id tr) n = Some j" by (simp add: node_ensure)
    then show "n \<in> N \<and> j = fnv1a_32 n \<and> (\<exists>st. om_lookup (tr_topics (ensureTopic i [] f tr)) j = Some st \<and> ts_name st = n)"
      by (rule runtime_topics_name [OF ok]) (use None in \<open>auto simp: node_ensure\<close>)
  qed
next
  case (Some st)
  have "ensureTopic i [] f tr = tr\<lparr>tr_topics := om_update i (f (st\<lparr>ts_id := i\<rparr>)) (tr_topics tr)\<rparr>"
    using Some by (simp add: ensureTopic_def topic_or_new_def)
  moreover have "node_ok N i (f (st\<lparr>ts_id := i\<rparr>))" "in_use (f (st\<lparr>ts_id := i\<rparr>)) \<Longrightarrow> in_use st"
    using f runtime_topics_node(1) [OF ok Some] by (auto simp: node_ok_def in_use_def)
  ultimately show ?thesis using runtime_topics_put [OF ok Some] f(2) by simp
qed

text \<open>Dropping names and nodes that are not in use.\<close>

lemma runtime_topics_erase:
  assumes N: "hashes_differ N" and ok: "runtime_topics_ok N tr" and st: "om_lookup (tr_topics tr) i = Some st"
  shows "runtime_topics_ok N (eraseTopicIfUnused i st tr)"
proof (cases "isTopicUnused st")
  case True
  let ?tr = "eraseTopicIfUnused i st tr"
  have e: "om_lookup (tr_topics ?tr) j = (if j = i then None else om_lookup (tr_topics tr) j)"
    "om_lookup (tr_name_to_id ?tr) n = (if ts_name st \<noteq> [] \<and> n = ts_name st then None else om_lookup (tr_name_to_id tr) n)" for j n
    using True by (simp_all add: eraseTopicIfUnused_def om_lookup_erase)
  have here: "j = i" if "om_lookup (tr_name_to_id tr) (ts_name st) = Some j" "ts_name st \<noteq> []" for j
    using that(1) by (rule runtime_topics_name [OF ok]) (use runtime_topics_node(1) [OF ok st] that(2) in \<open>simp add: node_ok_def\<close>)
  show ?thesis
  proof (rule topics_okI)
    fix j s assume j: "om_lookup (tr_topics ?tr) j = Some s"
    then have old: "om_lookup (tr_topics tr) j = Some s" "j \<noteq> i" by (auto simp: e split: if_splits)
    then show "node_ok N j s" using runtime_topics_node(1) [OF ok] by blast
    assume "in_use s"
    with runtime_topics_node(2) [OF ok old(1)] here old(2) show "om_lookup (tr_name_to_id ?tr) (ts_name s) = Some j" by (auto simp: e)
  next
    fix n j assume "om_lookup (tr_name_to_id ?tr) n = Some j"
    then have n: "om_lookup (tr_name_to_id tr) n = Some j" "\<not> (ts_name st \<noteq> [] \<and> n = ts_name st)" by (auto simp: e split: if_splits)
    obtain s where s: "n \<in> N" "j = fnv1a_32 n" "om_lookup (tr_topics tr) j = Some s" "ts_name s = n"
      using n(1) by (rule runtime_topics_name [OF ok])
    have "j \<noteq> i"
    proof
      assume "j = i"
      then have "s = st" using s(3) st by simp
      with s n(2) have "n = []" by auto
      with hashes_differD(2) [OF N s(1)] show False by simp
    qed
    with s show "n \<in> N \<and> j = fnv1a_32 n \<and> (\<exists>s. om_lookup (tr_topics ?tr) j = Some s \<and> ts_name s = n)" by (simp add: e)
  qed
next
  case False
  with ok show ?thesis by (simp add: eraseTopicIfUnused_def)
qed

lemma runtime_topics_unname:
  assumes ok: "runtime_topics_ok N tr" and st: "om_lookup (tr_topics tr) (fnv1a_32 n) = Some st" "\<not> in_use st"
  shows "runtime_topics_ok N (tr\<lparr>tr_name_to_id := om_erase n (tr_name_to_id tr)\<rparr>)"
proof (rule topics_okI)
  fix i s assume "om_lookup (tr_topics (tr\<lparr>tr_name_to_id := om_erase n (tr_name_to_id tr)\<rparr>)) i = Some s"
  then have s: "om_lookup (tr_topics tr) i = Some s" by simp
  then show "node_ok N i s" using runtime_topics_node(1) [OF ok] by blast
  assume "in_use s"
  note look = runtime_topics_node(2) [OF ok s this]
  have "ts_name s \<noteq> n"
  proof
    assume n: "ts_name s = n"
    from look obtain "i = fnv1a_32 (ts_name s)" by (rule runtime_topics_name [OF ok])
    with n st s \<open>in_use s\<close> show False by simp
  qed
  with look show "om_lookup (tr_name_to_id (tr\<lparr>tr_name_to_id := om_erase n (tr_name_to_id tr)\<rparr>)) (ts_name s) = Some i"
    by (simp add: om_lookup_erase)
next
  fix m i assume "om_lookup (tr_name_to_id (tr\<lparr>tr_name_to_id := om_erase n (tr_name_to_id tr)\<rparr>)) m = Some i"
  then have "om_lookup (tr_name_to_id tr) m = Some i" by (simp add: om_lookup_erase split: if_splits)
  then show "m \<in> N \<and> i = fnv1a_32 m \<and> (\<exists>s. om_lookup (tr_topics (tr\<lparr>tr_name_to_id := om_erase n (tr_name_to_id tr)\<rparr>)) i = Some s \<and> ts_name s = m)"
    by (rule runtime_topics_name [OF ok]) simp
qed

lemma runtime_topics_drop:
  assumes N: "hashes_differ N" and ok: "runtime_topics_ok N tr" and st: "om_lookup (tr_topics tr) (fnv1a_32 n) = Some st"
  shows "runtime_topics_ok N (dropNameIfUnused n (fnv1a_32 n) tr)"
proof (cases "in_use st")
  case True
  with runtime_topics_erase [OF N ok st] st show ?thesis by (auto simp: dropNameIfUnused_def in_use_def)
next
  case False
  with runtime_topics_erase [OF N runtime_topics_unname [OF ok st False], of "fnv1a_32 n" st] st show ?thesis
    by (simp add: dropNameIfUnused_def in_use_def)
qed

text \<open>A topic in use is found by its name; a name that leads nowhere has nothing to forget.\<close>

lemma topic_named_Some:
  assumes "runtime_topics_ok N tr" "topic_named n tr = Some (i, st)"
  shows "n \<in> N" "i = fnv1a_32 n" "om_lookup (tr_topics tr) (fnv1a_32 n) = Some st" "ts_name st = n" "topic_or_new (fnv1a_32 n) tr = st"
proof -
  have look: "om_lookup (tr_name_to_id tr) n = Some i" "om_lookup (tr_topics tr) i = Some st"
    using assms(2) by (auto simp: topic_named_def split: option.splits)
  obtain s where s: "n \<in> N" "i = fnv1a_32 n" "om_lookup (tr_topics tr) i = Some s" "ts_name s = n"
    using look(1) by (rule runtime_topics_name [OF assms(1)])
  with look(2) show "n \<in> N" "i = fnv1a_32 n" "om_lookup (tr_topics tr) (fnv1a_32 n) = Some st" "ts_name st = n"
    "topic_or_new (fnv1a_32 n) tr = st" by (simp_all add: topic_or_new_def)
qed

lemma topic_named_None:
  assumes "hashes_differ N" "runtime_topics_ok N tr" "n \<in> N" "topic_named n tr = None"
  shows "\<not> in_use (topic_or_new (fnv1a_32 n) tr)"
proof
  assume in_use: "in_use (topic_or_new (fnv1a_32 n) tr)"
  then obtain st where st: "om_lookup (tr_topics tr) (fnv1a_32 n) = Some st" "in_use st"
    by (cases "om_lookup (tr_topics tr) (fnv1a_32 n)") (auto simp: topic_or_new_def in_use_def TopicState_init_def)
  have look: "om_lookup (tr_name_to_id tr) (ts_name st) = Some (fnv1a_32 n)" using runtime_topics_node(2) [OF assms(2) st(1,2)] .
  then obtain "ts_name st \<in> N" "fnv1a_32 n = fnv1a_32 (ts_name st)" by (rule runtime_topics_name [OF assms(2)])
  then have "ts_name st = n" using hashes_differD(1) [OF assms(1) _ assms(3)] by simp
  with look st(1) assms(4) show False by (simp add: topic_named_def)
qed

lemma unused_body: "\<not> in_use st \<Longrightarrow> fst (body st) = (\<lambda>_. None) \<and> fst (snd (body st)) = None"
  by (simp add: in_use_def body_def findSubscription_def pub_of_def fun_eq_iff)

subsection \<open>Every operation keeps the invariant and its promise\<close>

lemma keys_ok_ensure:
  assumes "\<And>s. su_key (f s) = su_key s" "\<And>s. su_selector (f s) = su_selector s" "keys_ok (ts_subscriptions st)"
  shows "keys_ok (ts_subscriptions (ensureSubscription sel f st))"
proof (cases "key_index (selector_key sel) (ts_subscriptions st)")
  case None
  then have "selector_key sel \<notin> su_key ` set (ts_subscriptions st)" by (simp add: key_index_None find_key_None)
  with None assms show ?thesis by (auto simp: ensureSubscription_def keys_ok_def Subscription_new_def Let_def)
next
  case (Some i)
  let ?subs = "ts_subscriptions st"
  have i: "i < length ?subs" using key_index_Some [OF Some] by simp
  have "map su_key (?subs[i := f (?subs ! i)]) = map su_key ?subs"
    using list_update_id [of "map su_key ?subs" i] i assms(1) by (simp add: map_update)
  moreover have "\<forall>s \<in> set (?subs[i := f (?subs ! i)]). su_key s = selector_key (su_selector s)"
    using i assms unfolding keys_ok_def by (auto dest!: subsetD [OF set_update_subset_insert])
  ultimately show ?thesis using Some assms(3) by (simp add: ensureSubscription_def keys_ok_def Let_def)
qed

lemma body_meta [simp]: "body (st\<lparr>ts_id := i, ts_name := n\<rparr>) = body st"
  by (simp add: body_def findSubscription_def pub_of_def fun_eq_iff)

lemma body_sub:
  assumes "\<And>s. su_key (f s) = su_key s"
  shows "body (ensureSubscription sel f st) = ((fst (body st))(selector_key sel \<mapsto>
     f (case fst (body st) (selector_key sel) of Some s \<Rightarrow> s | None \<Rightarrow> Subscription_new sel)), snd (body st))"
  by (simp add: body_def findSubscription_ensure assms)

lemma body_pub:
  "body (st\<lparr>ts_published := True, ts_owner_service := owner, ts_published_hash := h\<rparr>) = (fst (body st), Some (owner, h), snd (snd (body st)))"
  by (simp add: body_def findSubscription_def pub_of_def fun_eq_iff)

text \<open>The effect of changing one topic.\<close>

lemma abs_change:
  assumes N: "hashes_differ N" and n: "n \<in> N" and c: "\<And>x. content tr' x = (if x = fnv1a_32 n then (S, P, T, M) else content tr x)"
  shows "topics_abs N tr' = (let a = topics_abs N tr in
     \<lparr>at_subs = (at_subs a)(n := S), at_pub = (at_pub a)(n := P), at_tcp = (at_tcp a)(fnv1a_32 n := T), at_shm = (at_shm a)(fnv1a_32 n := M)\<rparr>)"
proof -
  have "fnv1a_32 m = fnv1a_32 n \<longleftrightarrow> m = n" if "m \<in> N" for m using hashes_differD(1) [OF N that n] by blast
  then show ?thesis using n unfolding topics_abs_content by (auto simp: Let_def fun_eq_iff c)
qed

lemma edit_refines:
  assumes N: "hashes_differ N" and ok: "runtime_topics_ok N tr" and n: "n \<in> N"
    and f: "\<And>s. su_key (f s) = su_key s" "\<And>s. su_selector (f s) = su_selector s"
  shows "runtime_topics_ok N (ensureTopic (fnv1a_32 n) n (ensureSubscription sel f) tr)"
    "topics_abs N (ensureTopic (fnv1a_32 n) n (ensureSubscription sel f) tr) = edit_sub n sel f (topics_abs N tr)"
proof -
  show "runtime_topics_ok N (ensureTopic (fnv1a_32 n) n (ensureSubscription sel f) tr)"
    by (rule runtime_topics_named [OF N ok n]) (simp_all add: keys_ok_ensure f)
  obtain S P T M where c: "content tr (fnv1a_32 n) = (S, P, T, M)" by (metis prod_cases4)
  let ?S = "S(selector_key sel \<mapsto> f (case S (selector_key sel) of Some s \<Rightarrow> s | None \<Rightarrow> Subscription_new sel))"
  have "topics_abs N (ensureTopic (fnv1a_32 n) n (ensureSubscription sel f) tr) = (let a = topics_abs N tr in
     \<lparr>at_subs = (at_subs a)(n := ?S), at_pub = (at_pub a)(n := P), at_tcp = (at_tcp a)(fnv1a_32 n := T), at_shm = (at_shm a)(fnv1a_32 n := M)\<rparr>)"
    by (rule abs_change [OF N n]) (simp add: body_sub [OF f(1)] c)
  also have "\<dots> = edit_sub n sel f (topics_abs N tr)"
    using n by (auto simp: edit_sub_def Let_def topics_abs_content fun_eq_iff c)
  finally show "topics_abs N (ensureTopic (fnv1a_32 n) n (ensureSubscription sel f) tr) = edit_sub n sel f (topics_abs N tr)" .
qed

lemma publish_refines:
  assumes N: "hashes_differ N" and ok: "runtime_topics_ok N tr" and n: "n \<in> N"
  shows "runtime_topics_ok N (topic_op (Publish n owner h) tr)"
    "topics_abs N (topic_op (Publish n owner h) tr) = topic_spec (Publish n owner h) (topics_abs N tr)"
proof -
  show "runtime_topics_ok N (topic_op (Publish n owner h) tr)"
    unfolding topic_op.simps rememberPublishedTopic_def by (rule runtime_topics_named [OF N ok n]) simp_all
  obtain S P T M where c: "content tr (fnv1a_32 n) = (S, P, T, M)" by (metis prod_cases4)
  have "topics_abs N (topic_op (Publish n owner h) tr) = (let a = topics_abs N tr in
     \<lparr>at_subs = (at_subs a)(n := S), at_pub = (at_pub a)(n := Some (owner, h)), at_tcp = (at_tcp a)(fnv1a_32 n := T), at_shm = (at_shm a)(fnv1a_32 n := M)\<rparr>)"
    by (rule abs_change [OF N n]) (simp add: rememberPublishedTopic_def body_pub c)
  also have "\<dots> = topic_spec (Publish n owner h) (topics_abs N tr)"
    using n by (auto simp: Let_def topics_abs_content fun_eq_iff c)
  finally show "topics_abs N (topic_op (Publish n owner h) tr) = topic_spec (Publish n owner h) (topics_abs N tr)" .
qed

lemma forget_refines:
  assumes N: "hashes_differ N" and ok: "runtime_topics_ok N tr" and n: "n \<in> N"
  shows "runtime_topics_ok N (forgetSubscription n sel tr) \<and>
    topics_abs N (forgetSubscription n sel tr) = topic_spec (Forget n sel) (topics_abs N tr)"
proof (cases "topic_named n tr")
  case None
  then have "fst (content tr (fnv1a_32 n)) = (\<lambda>_. None)" using unused_body topic_named_None [OF N ok n] by blast
  with None ok show ?thesis by (auto simp: forgetSubscription_def topics_abs_content fun_eq_iff)
next
  case (Some a)
  then obtain i st where a: "topic_named n tr = Some (i, st)" by (cases a) simp
  note named = topic_named_Some [OF ok a]
  let ?st = "st\<lparr>ts_subscriptions := erase_key (selector_key sel) (ts_subscriptions st)\<rparr>"
  let ?tr = "tr\<lparr>tr_topics := om_update (fnv1a_32 n) ?st (tr_topics tr)\<rparr>"
  have nd: "node_ok N (fnv1a_32 n) st" using runtime_topics_node(1) [OF ok named(3)] .
  have "distinct (map su_key (erase_key k subs)) \<and> set (erase_key k subs) \<subseteq> set subs" if "distinct (map su_key subs)"
    for k and subs :: "('a, 'b) Subscription list"
    using that by (induction subs) auto
  then have "node_ok N (fnv1a_32 n) ?st" "in_use ?st \<Longrightarrow> in_use st" using nd by (auto simp: node_ok_def keys_ok_def in_use_def)
  then have ok': "runtime_topics_ok N (dropNameIfUnused n (fnv1a_32 n) ?tr)"
    by (intro runtime_topics_drop [OF N runtime_topics_put [OF ok named(3)]]) simp_all
  have eq: "forgetSubscription n sel tr = dropNameIfUnused n (fnv1a_32 n) ?tr" using a named(2) by (simp add: forgetSubscription_def)
  obtain S P T M where c: "content tr (fnv1a_32 n) = (S, P, T, M)" by (metis prod_cases4)
  then have b: "body ?st = (S(selector_key sel := None), P, T, M)"
    using nd named(5) by (simp add: body_def findSubscription_erase node_ok_def keys_ok_def) (auto simp: pub_of_def)
  have "topics_abs N (dropNameIfUnused n (fnv1a_32 n) ?tr) = (let a = topics_abs N tr in
     \<lparr>at_subs = (at_subs a)(n := S(selector_key sel := None)), at_pub = (at_pub a)(n := P), at_tcp = (at_tcp a)(fnv1a_32 n := T), at_shm = (at_shm a)(fnv1a_32 n := M)\<rparr>)"
    by (rule abs_change [OF N n]) (simp add: b)
  also have "\<dots> = topic_spec (Forget n sel) (topics_abs N tr)"
    using n by (auto simp: Let_def topics_abs_content fun_eq_iff c)
  finally show ?thesis using ok' eq by simp
qed

lemma unpublish_refines:
  assumes N: "hashes_differ N" and ok: "runtime_topics_ok N tr" and n: "n \<in> N"
  shows "runtime_topics_ok N (forgetPublishedTopic n tr) \<and> topics_abs N (forgetPublishedTopic n tr) = unpublish (\<lambda>m. m = n) (topics_abs N tr)"
proof (cases "at_pub (topics_abs N tr) n")
  case None
  have "forgetPublishedTopic n tr = tr"
  proof (cases "topic_named n tr")
    case (Some a)
    then obtain i st where a: "topic_named n tr = Some (i, st)" by (cases a) simp
    from topic_named_Some(5) [OF ok a] None n have "\<not> ts_published st" by (auto simp: topics_abs_def pub_of_def split: if_splits)
    with a show ?thesis by (simp add: forgetPublishedTopic_def)
  qed (simp add: forgetPublishedTopic_def)
  moreover have "unpublish (\<lambda>m. m = n) (topics_abs N tr) = topics_abs N tr" using None by (simp add: unpublish_def Let_def cong: conj_cong)
  ultimately show ?thesis using ok by simp
next
  case (Some pub)
  then have p: "ts_published (topic_or_new (fnv1a_32 n) tr)" by (auto simp: topics_abs_def pub_of_def split: if_splits)
  then obtain i st where a: "topic_named n tr = Some (i, st)"
    using topic_named_None [OF N ok n] by (cases "topic_named n tr") (auto simp: in_use_def)
  note named = topic_named_Some [OF ok a]
  let ?st = "st\<lparr>ts_published := False, ts_owner_service := [], ts_published_hash := 0, ts_tcp_subscribers := [], ts_shm_subscribers := []\<rparr>"
  let ?tr = "tr\<lparr>tr_topics := om_update (fnv1a_32 n) ?st (tr_topics tr)\<rparr>"
  have "node_ok N (fnv1a_32 n) ?st" "in_use ?st \<Longrightarrow> in_use st"
    using runtime_topics_node(1) [OF ok named(3)] by (auto simp: node_ok_def in_use_def)
  then have ok': "runtime_topics_ok N (dropNameIfUnused n (fnv1a_32 n) ?tr)"
    by (intro runtime_topics_drop [OF N runtime_topics_put [OF ok named(3)]]) simp_all
  have eq: "forgetPublishedTopic n tr = dropNameIfUnused n (fnv1a_32 n) ?tr"
    using a named(2,5) p by (simp add: forgetPublishedTopic_def)
  obtain S P T M where c: "content tr (fnv1a_32 n) = (S, P, T, M)" by (metis prod_cases4)
  then have b: "body ?st = (S, None, [], [])" using named(5) by (auto simp: body_def findSubscription_def pub_of_def fun_eq_iff)
  have "topics_abs N (dropNameIfUnused n (fnv1a_32 n) ?tr) = (let a = topics_abs N tr in
     \<lparr>at_subs = (at_subs a)(n := S), at_pub = (at_pub a)(n := None), at_tcp = (at_tcp a)(fnv1a_32 n := []), at_shm = (at_shm a)(fnv1a_32 n := [])\<rparr>)"
    by (rule abs_change [OF N n]) (simp add: b)
  also have "\<dots> = unpublish (\<lambda>m. m = n) (topics_abs N tr)"
    using n Some c by (auto simp: unpublish_def Let_def topics_abs_content fun_eq_iff)
  finally show ?thesis using ok' eq by simp
qed

lemma unpublish_cong: "(\<And>n. at_pub a n \<noteq> None \<Longrightarrow> P n = Q n) \<Longrightarrow> unpublish P a = unpublish Q a"
proof -
  assume "\<And>n. at_pub a n \<noteq> None \<Longrightarrow> P n = Q n"
  then have "(\<lambda>n. P n \<and> at_pub a n \<noteq> None) = (\<lambda>n. Q n \<and> at_pub a n \<noteq> None)" by blast
  then show ?thesis by (simp only: unpublish_def Let_def)
qed

lemma unpublish_unpublish: "unpublish Q (unpublish P a) = unpublish (\<lambda>n. P n \<or> Q n) a"
  by (rule Topics.equality) (auto simp: unpublish_def Let_def fun_eq_iff)

lemma unpublish_none: "unpublish (\<lambda>_. False) a = a"
  by (simp add: unpublish_def)

lemma unpublish_all:
  assumes "hashes_differ N" "runtime_topics_ok N tr" "set ns \<subseteq> N"
  shows "runtime_topics_ok N (fold forgetPublishedTopic ns tr) \<and>
    topics_abs N (fold forgetPublishedTopic ns tr) = unpublish (\<lambda>m. m \<in> set ns) (topics_abs N tr)"
  using assms(2,3)
proof (induction ns arbitrary: tr)
  case (Cons n ns)
  then have "runtime_topics_ok N (forgetPublishedTopic n tr)" "topics_abs N (forgetPublishedTopic n tr) = unpublish (\<lambda>m. m = n) (topics_abs N tr)"
    using unpublish_refines [OF assms(1)] by auto
  with Cons show ?case by (simp add: unpublish_unpublish)
qed (simp add: unpublish_none)

lemma published_name:
  assumes "hashes_differ N" "runtime_topics_ok N tr" "om_lookup (tr_topics tr) i = Some st" "ts_published st"
  shows "ts_name st \<in> N" "fnv1a_32 (ts_name st) = i" "ts_name st \<noteq> []"
proof -
  have "om_lookup (tr_name_to_id tr) (ts_name st) = Some i" using runtime_topics_node(2) [OF assms(2,3)] assms(4) by (simp add: in_use_def)
  then show "ts_name st \<in> N" "fnv1a_32 (ts_name st) = i" "ts_name st \<noteq> []"
    using hashes_differD(2) [OF assms(1)] by (auto elim!: runtime_topics_name [OF assms(2)])
qed

lemma at_pub_node:
  assumes N: "hashes_differ N" and ok: "runtime_topics_ok N tr"
  shows "at_pub (topics_abs N tr) n = Some p \<longleftrightarrow>
    (\<exists>i st. om_lookup (tr_topics tr) i = Some st \<and> ts_published st \<and> ts_name st = n \<and> p = (ts_owner_service st, ts_published_hash st))"
    (is "?l \<longleftrightarrow> ?r")
proof
  assume ?l
  then have n: "n \<in> N" "pub_of (topic_or_new (fnv1a_32 n) tr) = Some p" by (auto simp: topics_abs_def split: if_splits)
  then obtain st where st: "om_lookup (tr_topics tr) (fnv1a_32 n) = Some st" "pub_of st = Some p"
    by (cases "om_lookup (tr_topics tr) (fnv1a_32 n)") (auto simp: topic_or_new_def pub_of_def TopicState_init_def)
  then have "ts_published st" by (auto simp: pub_of_def split: if_splits)
  moreover from this have "ts_name st = n" using published_name [OF N ok st(1)] hashes_differD(1) [OF N _ n(1)] by blast
  ultimately show ?r using st by (auto simp: pub_of_def)
next
  assume ?r
  then obtain i st where st: "om_lookup (tr_topics tr) i = Some st" "ts_published st" "ts_name st = n"
    "p = (ts_owner_service st, ts_published_hash st)" by blast
  with published_name [OF N ok st(1,2)] show ?l by (auto simp: topics_abs_def topic_or_new_def pub_of_def)
qed

lemma owner_refines:
  assumes N: "hashes_differ N" and ok: "runtime_topics_ok N tr"
  shows "runtime_topics_ok N (forgetPublishedTopicsByOwner owner tr) \<and>
    topics_abs N (forgetPublishedTopicsByOwner owner tr) = topic_spec (UnpublishOwner owner) (topics_abs N tr)"
proof -
  let ?ns = "map ts_name (filter (\<lambda>st. ts_published st \<and> ts_owner_service st = owner \<and> ts_name st \<noteq> []) (om_values (tr_topics tr)))"
  have "set ?ns \<subseteq> N" using published_name(1) [OF N ok] by (auto simp: in_om_values_iff)
  note all = unpublish_all [OF N ok this]
  have "n \<in> set ?ns \<longleftrightarrow> map_option fst (at_pub (topics_abs N tr) n) = Some owner" if has: "at_pub (topics_abs N tr) n \<noteq> None" for n
  proof -
    obtain p where p: "at_pub (topics_abs N tr) n = Some p" using has by (cases "at_pub (topics_abs N tr) n") simp_all
    then obtain i st where st: "om_lookup (tr_topics tr) i = Some st" "ts_published st" "ts_name st = n"
      "p = (ts_owner_service st, ts_published_hash st)" unfolding at_pub_node [OF N ok] by blast
    have uniq: "s = st" if "om_lookup (tr_topics tr) j = Some s" "ts_published s" "ts_name s = n" for j s
      using that st(1) published_name(2) [OF N ok that(1,2)] published_name(2) [OF N ok st(1,2)] st(3) by simp
    have "n \<in> set ?ns \<longleftrightarrow> ts_owner_service st = owner"
    proof
      assume "n \<in> set ?ns"
      then obtain j s where "om_lookup (tr_topics tr) j = Some s" "ts_published s" "ts_owner_service s = owner" "ts_name s = n"
        by (auto simp: in_om_values_iff)
      with uniq show "ts_owner_service st = owner" by blast
    next
      assume "ts_owner_service st = owner"
      then have "st \<in> set (filter (\<lambda>st. ts_published st \<and> ts_owner_service st = owner \<and> ts_name st \<noteq> []) (om_values (tr_topics tr)))"
        using st published_name(3) [OF N ok st(1,2)] by (auto simp: in_om_values_iff)
      then show "n \<in> set ?ns" unfolding set_map by (rule image_eqI [where f = ts_name, OF st(3) [symmetric]])
    qed
    with st(4) p show ?thesis by simp
  qed
  then have "unpublish (\<lambda>m. m \<in> set ?ns) (topics_abs N tr) = topic_spec (UnpublishOwner owner) (topics_abs N tr)"
    unfolding topic_spec.simps by (rule unpublish_cong)
  with all show ?thesis by (simp add: forgetPublishedTopicsByOwner_def)
qed

text \<open>Operations on the subscribers of topics change nothing else.\<close>

lemma abs_subscribers:
  assumes "\<And>x. content tr' x = (fst (content tr x), fst (snd (content tr x)), t x, m x)"
  shows "topics_abs N tr' = (topics_abs N tr)\<lparr>at_tcp := t, at_shm := m\<rparr>"
  by (simp add: topics_abs_content assms cong: if_cong)

lemma body_subscribers:
  "body (st\<lparr>ts_tcp_subscribers := T\<rparr>) = (fst (body st), fst (snd (body st)), T, ts_shm_subscribers st)"
  "body (st\<lparr>ts_shm_subscribers := M\<rparr>) = (fst (body st), fst (snd (body st)), ts_tcp_subscribers st, M)"
  by (auto simp: body_def findSubscription_def pub_of_def fun_eq_iff)

lemma body_eta: "body st = (fst (body st), fst (snd (body st)), ts_tcp_subscribers st, ts_shm_subscribers st)"
  by (simp add: body_def)

lemma body_id [simp]: "body (st\<lparr>ts_id := i\<rparr>) = body st"
  by (simp add: body_def findSubscription_def pub_of_def fun_eq_iff)

lemma abs_at [simp]:
  "at_tcp (topics_abs N tr) i = ts_tcp_subscribers (topic_or_new i tr)" "at_shm (topics_abs N tr) i = ts_shm_subscribers (topic_or_new i tr)"
  by (simp_all add: topics_abs_content body_def)

lemma runtime_topics_subscribers:
  assumes ok: "runtime_topics_ok N tr" and st: "om_lookup (tr_topics tr) i = Some st"
    and f: "ts_id st' = ts_id st" "ts_name st' = ts_name st" "ts_subscriptions st' = ts_subscriptions st" "ts_published st' = ts_published st"
  shows "runtime_topics_ok N (tr\<lparr>tr_topics := om_update i st' (tr_topics tr)\<rparr>)"
  by (rule runtime_topics_put [OF ok st]) (use runtime_topics_node(1) [OF ok st] f in \<open>auto simp: node_ok_def in_use_def\<close>)

lemma runtime_topics_strips:
  assumes N: "hashes_differ N" and ok: "runtime_topics_ok N tr"
    and f: "\<And>st. ts_id (f st) = ts_id st" "\<And>st. ts_name (f st) = ts_name st" "\<And>st. ts_subscriptions (f st) = ts_subscriptions st"
      "\<And>st. ts_published (f st) = ts_published st"
  shows "runtime_topics_ok N (fold (strip_topic f) is tr)"
  using ok
proof (induction "is" arbitrary: tr)
  case (Cons i "is")
  have "runtime_topics_ok N (strip_topic f i tr)"
  proof (cases "om_lookup (tr_topics tr) i")
    case (Some st)
    from runtime_topics_erase [OF N runtime_topics_subscribers [OF Cons.prems Some f], of i "f st"] Some show ?thesis
      by (simp add: strip_topic_def)
  qed (simp add: strip_topic_def Cons.prems)
  then show ?case using Cons.IH by simp
qed simp

lemma strips_refine:
  assumes "\<And>st. body (f st) = (fst (body st), fst (snd (body st)), t (ts_tcp_subscribers st), m (ts_shm_subscribers st))"
    and "t [] = []" "m [] = []"
  shows "topics_abs N (fold (strip_topic f) (om_keys (tr_topics tr)) tr) =
    (topics_abs N tr)\<lparr>at_tcp := (\<lambda>i. t (ts_tcp_subscribers (topic_or_new i tr))), at_shm := (\<lambda>i. m (ts_shm_subscribers (topic_or_new i tr)))\<rparr>"
proof (rule abs_subscribers)
  fix x
  have d: "distinct (om_keys (tr_topics tr))" by (simp add: om_keys_def)
  show "content (fold (strip_topic f) (om_keys (tr_topics tr)) tr) x =
      (fst (content tr x), fst (snd (content tr x)), t (ts_tcp_subscribers (topic_or_new x tr)), m (ts_shm_subscribers (topic_or_new x tr)))"
  proof (cases "om_lookup (tr_topics tr) x")
    case None
    then have "topic_or_new x tr = TopicState_init" by (simp add: topic_or_new_def)
    then show ?thesis using None content_strips [OF d, where f = f and tr = tr and x = x] assms(2,3) by (simp add: TopicState_init_def in_om_keys_iff body_def findSubscription_def pub_of_def)
  next
    case (Some st)
    then show ?thesis using content_strips [OF d, where f = f and tr = tr and x = x] assms(1) by (simp add: in_om_keys_iff)
  qed
qed

lemma tcp_refines:
  assumes N: "hashes_differ N" and ok: "runtime_topics_ok N tr"
  shows "runtime_topics_ok N (addTcpSubscriber i fd tr) \<and> topics_abs N (addTcpSubscriber i fd tr) = topic_spec (AddTcp i fd) (topics_abs N tr)"
    "runtime_topics_ok N (removeTcpSubscriber i fd tr) \<and> topics_abs N (removeTcpSubscriber i fd tr) = topic_spec (DropTcp i fd) (topics_abs N tr)"
    "runtime_topics_ok N (removeTcpSubscriberFd fd tr) \<and> topics_abs N (removeTcpSubscriberFd fd tr) = topic_spec (DropTcpFd fd) (topics_abs N tr)"
proof -
  let ?a = "topics_abs N tr"
  have same: "at_shm ?a = (\<lambda>i. ts_shm_subscribers (topic_or_new i tr))" by (rule ext) simp
  have "topics_abs N (addTcpSubscriber i fd tr) = ?a\<lparr>at_tcp := (at_tcp ?a)(i := add_new fd (at_tcp ?a i)), at_shm := at_shm ?a\<rparr>"
    by (rule abs_subscribers) (auto simp: addTcpSubscriber_def add_new_def body_subscribers intro: body_eta)
  moreover have "runtime_topics_ok N (addTcpSubscriber i fd tr)"
    unfolding addTcpSubscriber_def by (rule runtime_topics_unnamed [OF ok]) simp_all
  ultimately show "runtime_topics_ok N (addTcpSubscriber i fd tr) \<and> topics_abs N (addTcpSubscriber i fd tr) = topic_spec (AddTcp i fd) ?a" by simp
  let ?drop = "filter (\<lambda>x. x \<noteq> fd)"
  have "runtime_topics_ok N (removeTcpSubscriber i fd tr) \<and>
    topics_abs N (removeTcpSubscriber i fd tr) = ?a\<lparr>at_tcp := (at_tcp ?a)(i := ?drop (at_tcp ?a i)), at_shm := at_shm ?a\<rparr>"
  proof (cases "om_lookup (tr_topics tr) i")
    case None
    then have "ts_tcp_subscribers (topic_or_new i tr) = []" by (simp add: topic_or_new_def TopicState_init_def)
    then have "(at_tcp ?a)(i := ?drop (at_tcp ?a i)) = at_tcp ?a" by (simp add: fun_eq_iff)
    with None ok show ?thesis by (simp add: removeTcpSubscriber_def)
  next
    case (Some st)
    have "topics_abs N (removeTcpSubscriber i fd tr) = ?a\<lparr>at_tcp := (at_tcp ?a)(i := ?drop (at_tcp ?a i)), at_shm := at_shm ?a\<rparr>"
      by (rule abs_subscribers) (use Some in \<open>auto simp: removeTcpSubscriber_def body_subscribers topic_or_new_def om_lookup_update intro: body_eta\<close>)
    moreover have "runtime_topics_ok N (removeTcpSubscriber i fd tr)"
      using runtime_topics_subscribers [OF ok Some] Some by (simp add: removeTcpSubscriber_def)
    ultimately show ?thesis by simp
  qed
  then show "runtime_topics_ok N (removeTcpSubscriber i fd tr) \<and> topics_abs N (removeTcpSubscriber i fd tr) = topic_spec (DropTcp i fd) ?a" by simp
  have "topics_abs N (removeTcpSubscriberFd fd tr) =
      ?a\<lparr>at_tcp := (\<lambda>i. ?drop (ts_tcp_subscribers (topic_or_new i tr))), at_shm := (\<lambda>i. ts_shm_subscribers (topic_or_new i tr))\<rparr>"
    unfolding removeTcpSubscriberFd_def by (rule strips_refine) (simp_all add: body_subscribers)
  moreover have "runtime_topics_ok N (removeTcpSubscriberFd fd tr)"
    unfolding removeTcpSubscriberFd_def by (rule runtime_topics_strips [OF N ok]) simp_all
  ultimately show "runtime_topics_ok N (removeTcpSubscriberFd fd tr) \<and> topics_abs N (removeTcpSubscriberFd fd tr) = topic_spec (DropTcpFd fd) ?a"
    by (simp flip: same)
qed

lemma shm_refines:
  assumes N: "hashes_differ N" and ok: "runtime_topics_ok N tr"
  shows "runtime_topics_ok N (addShmSubscriberService i svc c tr) \<and>
      topics_abs N (addShmSubscriberService i svc c tr) = topic_spec (AddShm i svc c) (topics_abs N tr)"
    "runtime_topics_ok N (removeShmSubscriberService svc c tr) \<and>
      topics_abs N (removeShmSubscriberService svc c tr) = topic_spec (DropShm svc c) (topics_abs N tr)"
proof -
  let ?a = "topics_abs N tr" and ?s = "\<lparr>sb_service_name = svc, sb_client_id = c\<rparr>"
  have same: "at_tcp ?a = (\<lambda>i. ts_tcp_subscribers (topic_or_new i tr))" by (rule ext) simp
  have "topics_abs N (addShmSubscriberService i svc c tr) = ?a\<lparr>at_tcp := at_tcp ?a, at_shm := (at_shm ?a)(i := add_new ?s (at_shm ?a i))\<rparr>"
    by (rule abs_subscribers) (auto simp: addShmSubscriberService_def Let_def add_new_def body_subscribers intro: body_eta)
  moreover have "runtime_topics_ok N (addShmSubscriberService i svc c tr)"
    unfolding addShmSubscriberService_def Let_def by (rule runtime_topics_unnamed [OF ok]) simp_all
  ultimately show "runtime_topics_ok N (addShmSubscriberService i svc c tr) \<and>
      topics_abs N (addShmSubscriberService i svc c tr) = topic_spec (AddShm i svc c) ?a" by simp
  have isub: "\<not> (sb_service_name x = svc \<and> sb_client_id x = c) \<longleftrightarrow> x \<noteq> ?s" for x by (cases x) auto
  have "topics_abs N (removeShmSubscriberService svc c tr) =
      ?a\<lparr>at_tcp := (\<lambda>i. ts_tcp_subscribers (topic_or_new i tr)), at_shm := (\<lambda>i. filter (\<lambda>x. x \<noteq> ?s) (ts_shm_subscribers (topic_or_new i tr)))\<rparr>"
    unfolding removeShmSubscriberService_def isub by (rule strips_refine) (simp_all add: body_subscribers)
  moreover have "runtime_topics_ok N (removeShmSubscriberService svc c tr)"
    unfolding removeShmSubscriberService_def by (rule runtime_topics_strips [OF N ok]) simp_all
  ultimately show "runtime_topics_ok N (removeShmSubscriberService svc c tr) \<and>
      topics_abs N (removeShmSubscriberService svc c tr) = topic_spec (DropShm svc c) ?a"
    by (simp flip: same)
qed

lemma op_refines:
  assumes N: "hashes_differ N" and ok: "runtime_topics_ok N tr" and n: "op_names x \<subseteq> N"
  shows "runtime_topics_ok N (topic_op x tr) \<and> topics_abs N (topic_op x tr) = topic_spec x (topics_abs N tr)"
proof (cases x)
  case (Remember n sel cb h)
  with edit_refines [OF N ok] n show ?thesis by (simp add: rememberSubscription_def)
next
  case (SetError n sel cb)
  with edit_refines [OF N ok] n show ?thesis by (simp add: setErrorCallback_def)
next
  case (SetHash n sel h)
  with edit_refines [OF N ok] n show ?thesis by (simp add: setExpectedSubscriptionHash_def)
next
  case (Forget n sel)
  with forget_refines [OF N ok] n show ?thesis by simp
next
  case (Publish m owner h)
  with publish_refines [OF N ok, of m owner h] n show ?thesis by simp
next
  case (Unpublish n)
  with unpublish_refines [OF N ok] n show ?thesis by simp
next
  case (UnpublishOwner owner)
  with owner_refines [OF N ok, of owner] show ?thesis by simp
qed (use tcp_refines [OF N ok] shm_refines [OF N ok] in simp_all)

lemma topics_abs_init: "topics_abs N TopicRuntime_init = Topics_init"
  by (simp add: topics_abs_def Topics_init_def TopicRuntime_init_def topic_or_new_def TopicState_init_def findSubscription_def
      pub_of_def tcpSubscribers_def shmSubscribers_def fun_eq_iff)

theorem history_refines:
  assumes N: "hashes_differ N" and n: "\<forall>x \<in> set xs. op_names x \<subseteq> N"
  shows "runtime_topics_ok N (fold topic_op xs TopicRuntime_init) \<and>
    topics_abs N (fold topic_op xs TopicRuntime_init) = fold topic_spec xs Topics_init"
  using n
proof (induction xs rule: rev_induct)
  case Nil
  then show ?case by (simp add: runtime_topics_init topics_abs_init)
next
  case (snoc x xs)
  with op_refines [OF N, of "fold topic_op xs TopicRuntime_init" x] show ?case by simp
qed

subsection \<open>Delivery\<close>

lemma find_distinct: "distinct (map su_key subs) \<Longrightarrow> find (\<lambda>s. su_key s = k) subs = Some s \<longleftrightarrow> s \<in> set subs \<and> su_key s = k"
  by (induction subs) (auto simp: find_key_None)

lemma subscription_listed:
  assumes ok: "runtime_topics_ok N tr" and n: "n \<in> N"
  shows "(\<exists>k. at_subs (topics_abs N tr) n k = Some s) \<longleftrightarrow> s \<in> set (ts_subscriptions (topic_or_new (fnv1a_32 n) tr))"
proof -
  have "distinct (map su_key (ts_subscriptions (topic_or_new (fnv1a_32 n) tr)))" using topic_or_new_ok(1) [OF ok] by (simp add: keys_ok_def)
  from find_distinct [OF this] n show ?thesis by (simp add: topics_abs_def findSubscription_def)
qed

text \<open>A message is delivered to exactly the callbacks of the subscriptions whose selector matches its publisher.\<close>

lemma set_source_callbacks: "set (source_callbacks subs) = {cb. \<exists>s \<in> set subs. su_has_source_callback s \<and> su_source_callback s = Some cb}"
  by (auto simp: source_callbacks_def split: option.splits if_splits)

theorem dispatchFrom_exact:
  assumes "runtime_topics_ok N tr" "n \<in> N"
  shows "set (dispatchFrom service host_id instance_id (fnv1a_32 n) data tr) =
    {(cb, host_id, instance_id, fnv1a_32 n, data) |cb. \<exists>k s. at_subs (topics_abs N tr) n k = Some s \<and>
       selector_matches (su_selector s) service host_id instance_id \<and> su_has_source_callback s \<and> su_source_callback s = Some cb}"
proof -
  let ?st = "topic_or_new (fnv1a_32 n) tr"
  have "dispatchFrom service host_id instance_id (fnv1a_32 n) data tr = map (\<lambda>cb. (cb, host_id, instance_id, fnv1a_32 n, data))
      (source_callbacks (filter (\<lambda>s. selector_matches (su_selector s) service host_id instance_id) (ts_subscriptions ?st)))"
    by (simp add: dispatchFrom_def topic_or_new_def TopicState_init_def source_callbacks_def split: option.split)
  then show ?thesis using subscription_listed [OF assms] by (force simp: set_source_callbacks)
qed

text \<open>Equal keys mean selectors that ask for the same.\<close>

lemma selector_key_eq:
  "selector_key a = selector_key b \<longleftrightarrow>
     sl_instance_level a = sl_instance_level b \<and> sl_publisher_service a = sl_publisher_service b \<and>
     (sl_instance_level a \<longrightarrow> sl_instance_id a = sl_instance_id b)"
proof
  let ?p = "\<lambda>s. sl_publisher_service s" and ?i = "\<lambda>s. sl_instance_id s"
  assume eq: "selector_key a = selector_key b"
  show "sl_instance_level a = sl_instance_level b \<and> ?p a = ?p b \<and> (sl_instance_level a \<longrightarrow> ?i a = ?i b)"
  proof (cases "sl_instance_level a \<and> sl_instance_level b")
    case True
    with eq have "dec (length (?p a)) @ CHR ''|'' # ?p a @ dec (length (?i a)) @ CHR ''|'' # ?i a @ [] =
        dec (length (?p b)) @ CHR ''|'' # ?p b @ dec (length (?i b)) @ CHR ''|'' # ?i b @ []"
      by (simp add: selector_key_def)
    from dec_block_unique [OF this not_digit_bar(1)] dec_block_unique [OF _ not_digit_bar(1), of "?i a" "[]" "?i b" "[]"] True
    show ?thesis by simp
  next
    case False
    then have no: "\<not> sl_instance_level a" "\<not> sl_instance_level b" using eq by (auto simp: selector_key_def split: if_splits)
    have "?p a = ?p b"
    proof (cases "?p a = [] \<or> ?p b = []")
      case False
      with eq no have "dec (length (?p a)) @ CHR ''|'' # ?p a @ [] = dec (length (?p b)) @ CHR ''|'' # ?p b @ []"
        by (simp add: selector_key_def)
      from dec_block_unique [OF this not_digit_bar(1)] show ?thesis by simp
    qed (use eq no in \<open>auto simp: selector_key_def split: if_splits\<close>)
    with no show ?thesis by simp
  qed
qed (simp add: selector_key_def)

subsection \<open>Recovery\<close>

text \<open>What is told to a new service manager: every subscription with a callback, every published topic.\<close>

lemma in_use_named:
  assumes "hashes_differ N" "runtime_topics_ok N tr" "om_lookup (tr_topics tr) i = Some st" "in_use st"
  shows "ts_name st \<in> N" "fnv1a_32 (ts_name st) = i" "ts_name st \<noteq> []"
proof -
  have "om_lookup (tr_name_to_id tr) (ts_name st) = Some i" using runtime_topics_node(2) [OF assms(2,3,4)] .
  then show "ts_name st \<in> N" "fnv1a_32 (ts_name st) = i" "ts_name st \<noteq> []"
    using hashes_differD(2) [OF assms(1)] by (auto elim!: runtime_topics_name [OF assms(2)])
qed

theorem subscriptionRecords_exact:
  assumes N: "hashes_differ N" and ok: "runtime_topics_ok N tr"
  shows "set (subscriptionRecords tr) =
    {(n, su_selector s, su_expected_idl_hash s) |n k s. at_subs (topics_abs N tr) n k = Some s \<and> su_has_source_callback s}"
proof -
  have node: "n \<in> N \<and> s \<in> set (ts_subscriptions (topic_or_new (fnv1a_32 n) tr)) \<longleftrightarrow>
      (\<exists>i st. om_lookup (tr_topics tr) i = Some st \<and> ts_name st = n \<and> ts_name st \<noteq> [] \<and> s \<in> set (ts_subscriptions st))" (is "?l \<longleftrightarrow> ?r") for n s
  proof
    assume ?l
    then obtain st where st: "om_lookup (tr_topics tr) (fnv1a_32 n) = Some st" "s \<in> set (ts_subscriptions st)"
      by (cases "om_lookup (tr_topics tr) (fnv1a_32 n)") (auto simp: topic_or_new_def TopicState_init_def)
    then have "in_use st" by (auto simp: in_use_def)
    from in_use_named [OF N ok st(1) this] hashes_differD(1) [OF N, of "ts_name st" n] \<open>?l\<close> st show ?r by blast
  next
    assume ?r
    then obtain i st where st: "om_lookup (tr_topics tr) i = Some st" "ts_name st = n" "s \<in> set (ts_subscriptions st)" by blast
    then have "in_use st" by (auto simp: in_use_def)
    from in_use_named [OF N ok st(1) this] st show ?l by (auto simp: topic_or_new_def)
  qed
  have "x \<in> set (subscriptionRecords tr) \<longleftrightarrow> (\<exists>n s. x = (n, su_selector s, su_expected_idl_hash s) \<and> su_has_source_callback s \<and>
      (\<exists>i st. om_lookup (tr_topics tr) i = Some st \<and> ts_name st = n \<and> ts_name st \<noteq> [] \<and> s \<in> set (ts_subscriptions st)))" for x
  proof -
    have "x \<in> set (subscriptionRecords tr) \<longleftrightarrow> (\<exists>st \<in> set (om_values (tr_topics tr)). ts_name st \<noteq> [] \<and>
        (\<exists>s \<in> set (ts_subscriptions st). su_has_source_callback s \<and> x = (ts_name st, su_selector s, su_expected_idl_hash s)))"
      by (auto simp: subscriptionRecords_def split: if_splits)
    then show ?thesis by (simp add: in_om_values_iff Bex_def) blast
  qed
  moreover have "(\<exists>k. at_subs (topics_abs N tr) n k = Some s) \<longleftrightarrow> n \<in> N \<and> s \<in> set (ts_subscriptions (topic_or_new (fnv1a_32 n) tr))" for n s
    using subscription_listed [OF ok] by (cases "n \<in> N") (simp_all add: topics_abs_def)
  ultimately show ?thesis unfolding node [symmetric] by blast
qed

lemma lookup_fold_names:
  assumes "distinct (map f xs)"
  shows "om_lookup (fold (\<lambda>x. om_update (f x) (g x)) xs om_empty) n = Some v \<longleftrightarrow> (\<exists>x \<in> set xs. f x = n \<and> g x = v)"
  using assms by (induction xs rule: rev_induct) (auto simp: om_lookup_update, metis imageI)

theorem published_exact:
  assumes N: "hashes_differ N" and ok: "runtime_topics_ok N tr"
  shows "at_pub (topics_abs N tr) n = Some (owner, h) \<longleftrightarrow>
    om_lookup (publishedTopicOwners tr) n = Some owner \<and> om_lookup (publishedTopicHashes tr) n = Some h"
proof -
  let ?S = "published_states tr"
  have S: "st \<in> set ?S \<longleftrightarrow> (\<exists>i. om_lookup (tr_topics tr) i = Some st \<and> ts_published st)" for st
    using published_name(3) [OF N ok] by (auto simp: published_states_def in_om_values_iff)
  have same: "a = b" if ab: "a \<in> set ?S" "b \<in> set ?S" "ts_name a = ts_name b" for a b
  proof -
    obtain i j where ij: "om_lookup (tr_topics tr) i = Some a" "ts_published a" "om_lookup (tr_topics tr) j = Some b" "ts_published b"
      using ab(1,2) unfolding S by blast
    then have "i = j" using published_name(2) [OF N ok ij(1,2)] published_name(2) [OF N ok ij(3,4)] ab(3) by simp
    with ij show ?thesis by simp
  qed
  have "distinct (om_values (tr_topics tr))"
  proof -
    have "distinct (map ts_id (om_values (tr_topics tr)))"
    proof -
      have "map ts_id (om_values (tr_topics tr)) = om_keys (tr_topics tr)"
        unfolding om_values_def om_keys_def by (auto intro!: map_cong simp: in_om_list_iff dest!: runtime_topics_node(1) [OF ok] simp: node_ok_def)
      then show ?thesis by (simp add: om_keys_def)
    qed
    then show ?thesis by (simp add: distinct_map)
  qed
  then have d: "distinct (map ts_name ?S)"
    using same by (auto simp: published_states_def distinct_map inj_on_def)
  have "at_pub (topics_abs N tr) n = Some (owner, h) \<longleftrightarrow> (\<exists>st \<in> set ?S. ts_name st = n \<and> ts_owner_service st = owner \<and> ts_published_hash st = h)"
    unfolding at_pub_node [OF N ok] Bex_def S by (simp, blast)
  then show ?thesis unfolding publishedTopicOwners_def publishedTopicHashes_def lookup_fold_names [OF d] using same by blast
qed

end
