(* ===== verification/TransportSelector.thy ===== *)
theory TransportSelector
  imports TcpEndpoint ShmRing ReplyTable
begin

section \<open>Selecting a transport\<close>

text \<open>
  src/transport/transport_selector.cpp: a client on the same board tries shared memory first and falls
  back to TCP, every other one uses TCP, and so does the connection to the service manager. A
  \<open>transport\<close> is what the code holds through an \<open>IMessageConnection*\<close>: a \<open>TcpConnection\<close>, or a
  shared-memory client connection, whose virtual operations are the record \<open>ShmClientOps\<close> over a state
  \<open>'shm\<close> of its own. \<open>delete\<close> of a transport runs its destructor, which closes it.

  The locale \<open>descriptors\<close> says what these rest on: descriptors are handed out fresh, an operation on a
  connection neither opens nor closes any, and closing gives back exactly those of the connection.
\<close>

datatype TransportType = TransportTCP | TransportSHM

datatype TransportSelectionPolicy = PREFER_SHM | USE_TCP

record ('shm, 'k) ShmClientOps =
  shm_new :: "string \<Rightarrow> nat \<Rightarrow> nat \<Rightarrow> string \<Rightarrow> string \<Rightarrow> 'shm"
  shm_connect :: "string \<Rightarrow> u16 \<Rightarrow> 'shm \<times> 'k \<Rightarrow> int \<times> 'shm \<times> 'k"
  shm_close :: "'shm \<times> 'k \<Rightarrow> 'shm \<times> 'k"
  shm_fd :: "'shm \<Rightarrow> int"
  shm_sendAll :: "bytes \<Rightarrow> u32 \<Rightarrow> 'shm \<times> 'k \<Rightarrow> (int \<times> u32 \<times> 'shm \<times> 'k) option"
  shm_connection :: "('shm \<times> 'k) IMessageConnection"

record ('shm, 'k) NetOps =
  net_sockets :: "'k SocketOps"
  net_shm :: "('shm, 'k) ShmClientOps"

datatype 'shm transport = Tcp TcpConnection | Shm 'shm

datatype server_endpoint =
  TcpEndpoint TcpServerEndpoint
| ShmEndpoint string nat nat string string

record TransportConfig =
  req_capacity :: nat
  resp_capacity :: nat

definition SHM_DEFAULT_REQ_RING_CAPACITY :: nat where "SHM_DEFAULT_REQ_RING_CAPACITY = 4 * 1024"
definition SHM_DEFAULT_RESP_RING_CAPACITY :: nat where "SHM_DEFAULT_RESP_RING_CAPACITY = 4 * 1024"

definition ERR_SM_UNREACHABLE :: int where "ERR_SM_UNREACHABLE = -105"

subsection \<open>Choosing and connecting\<close>

definition completePendingConnect ::
    "'k SocketOps \<Rightarrow> u32 \<Rightarrow> TcpConnection \<times> 'k \<Rightarrow> bool \<times> TcpConnection \<times> 'k" where
  "completePendingConnect ops timeout_ms st =
     (case st of (tcp, k) \<Rightarrow>
      case k_waitSocketWritable ops (tc_fd tcp) timeout_ms k of (writable, k) \<Rightarrow>
      if \<not> writable then (False, tcp, k)
      else case tcp_checkConnectComplete ops (tcp, k) of (_, tcp, k) \<Rightarrow> (tc_state tcp = CONNECTED, tcp, k))"

definition chooseTransportPolicy :: "string \<Rightarrow> string \<Rightarrow> TransportSelectionPolicy" where
  "chooseTransportPolicy local_host_id remote_host_id =
     (if local_host_id \<noteq> [] \<and> remote_host_id \<noteq> [] \<and> local_host_id = remote_host_id then PREFER_SHM else USE_TCP)"

text \<open>
  The TCP half of \<open>createClientConnection\<close>, which \<open>createControlConnection\<close> repeats: no transport, with
  the result of the failed step, or a connected one. \<open>Inl False\<close>: refused; \<open>Inl True\<close>: timed out.
\<close>

definition connect_tcp :: "'k SocketOps \<Rightarrow> string \<Rightarrow> u16 \<Rightarrow> 'k \<Rightarrow> (bool + TcpConnection) \<times> 'k" where
  "connect_tcp ops host port k =
     (case tcp_connect ops host port (TcpConnection_default, k) of (ret, tcp, k) \<Rightarrow>
      if ret < 0 then (Inl False, snd (tcp_close ops (tcp, k)))
      else if ret = 1 then
        case completePendingConnect ops 1000 (tcp, k) of (ok, tcp, k) \<Rightarrow>
        if \<not> ok then (Inl True, snd (tcp_close ops (tcp, k))) else (Inr tcp, k)
      else (Inr tcp, k))"

definition createClientConnection ::
    "('shm, 'k) NetOps \<Rightarrow> string \<Rightarrow> string \<Rightarrow> u16 \<Rightarrow> string \<Rightarrow> string \<Rightarrow> ShmConfig \<Rightarrow> string \<Rightarrow> 'k
     \<Rightarrow> 'shm transport option \<times> 'k" where
  "createClientConnection n service_name host port local_host_id remote_host_id shm_config instance_id k =
     (let use_tcp = (\<lambda>k. case connect_tcp (net_sockets n) host port k of
                          (Inl _, k) \<Rightarrow> (None, k) | (Inr tcp, k) \<Rightarrow> (Some (Tcp tcp), k))
      in if chooseTransportPolicy local_host_id remote_host_id = PREFER_SHM then
           let req_cap = (if 0 < req_ring_capacity shm_config then req_ring_capacity shm_config
                          else SHM_DEFAULT_REQ_RING_CAPACITY);
               resp_cap = (if 0 < resp_ring_capacity shm_config then resp_ring_capacity shm_config
                           else SHM_DEFAULT_RESP_RING_CAPACITY);
               shm = shm_new (net_shm n) service_name req_cap resp_cap instance_id remote_host_id
           in case shm_connect (net_shm n) [] 0 (shm, k) of (ret, shm, k) \<Rightarrow>
              if ret = 0 then (Some (Shm shm), k)
              else use_tcp (snd (shm_close (net_shm n) (shm, k)))
         else use_tcp k)"

definition createServerEndpoint ::
    "string \<Rightarrow> TransportType \<Rightarrow> TransportConfig \<Rightarrow> string \<Rightarrow> string \<Rightarrow> server_endpoint" where
  "createServerEndpoint service_name type config instance_id host_id =
     (if type = TransportSHM then
        let req_cap = (if 0 < req_capacity config then req_capacity config else SHM_DEFAULT_REQ_RING_CAPACITY);
            resp_cap = (if 0 < resp_capacity config then resp_capacity config else SHM_DEFAULT_RESP_RING_CAPACITY)
        in ShmEndpoint service_name req_cap resp_cap instance_id host_id
      else TcpEndpoint TcpServerEndpoint_init)"

definition createControlConnection ::
    "'k SocketOps \<Rightarrow> string \<Rightarrow> u16 \<Rightarrow> 'k \<Rightarrow> TcpConnection option \<times> int \<times> 'k" where
  "createControlConnection ops host port k =
     (case connect_tcp ops host port k of
        (Inl timed_out, k) \<Rightarrow> (None, if timed_out then ERR_TIMEOUT else ERR_SM_UNREACHABLE, k)
      | (Inr tcp, k) \<Rightarrow> (Some tcp, 0, k))"

subsection \<open>The virtual operations\<close>

definition transport_type :: "'shm transport \<Rightarrow> TransportType" where
  "transport_type t = (case t of Tcp _ \<Rightarrow> TransportTCP | Shm _ \<Rightarrow> TransportSHM)"

definition transport_fd :: "('shm, 'k) NetOps \<Rightarrow> 'shm transport \<Rightarrow> int" where
  "transport_fd n t = (case t of Tcp c \<Rightarrow> tc_fd c | Shm s \<Rightarrow> shm_fd (net_shm n) s)"

definition transport_close :: "('shm, 'k) NetOps \<Rightarrow> 'shm transport \<Rightarrow> 'k \<Rightarrow> 'k" where
  "transport_close n t k =
     (case t of Tcp c \<Rightarrow> snd (tcp_close (net_sockets n) (c, k)) | Shm s \<Rightarrow> snd (shm_close (net_shm n) (s, k)))"

definition transport_read ::
    "('shm, 'k) NetOps \<Rightarrow> allocator \<Rightarrow> Buffer \<Rightarrow> Message \<Rightarrow> 'shm transport \<Rightarrow> 'k
     \<Rightarrow> int \<times> Buffer \<times> Message \<times> 'shm transport \<times> 'k" where
  "transport_read n alloc b out t k =
     (case t of
        Tcp c \<Rightarrow> (case readNextMessage (tcp_connection (net_sockets n)) alloc (b, out, c, k) of
                    (ret, b, out, c, k) \<Rightarrow> (ret, b, out, Tcp c, k))
      | Shm s \<Rightarrow> (case readNextMessage (shm_connection (net_shm n)) alloc (b, out, s, k) of
                    (ret, b, out, s, k) \<Rightarrow> (ret, b, out, Shm s, k)))"

text \<open>\<open>sendAll\<close> with \<open>elapsed_ms\<close>: \<open>socketSendAll\<close> reads the clock once more at its end.\<close>

definition tcp_sendAll_elapsed ::
    "'k SocketOps \<Rightarrow> bytes \<Rightarrow> u32 \<Rightarrow> TcpConnection \<times> 'k \<Rightarrow> (int \<times> u32 \<times> TcpConnection \<times> 'k) option" where
  "tcp_sendAll_elapsed ops data timeout_ms st =
     (case st of (c, k) \<Rightarrow>
        if tc_state c \<noteq> CONNECTED then Some (-1, 0, c, k)
        else if length data = 0 then Some (0, 0, c, k)
        else
          case k_currentTimeMs ops k of (start_ms, k) \<Rightarrow>
          case sendAll_loop ops (tc_fd c) data (start_ms + uint timeout_ms) 0 k of
            None \<Rightarrow> None
          | Some (ok, k) \<Rightarrow>
              (case k_currentTimeMs ops k of (now_ms, k) \<Rightarrow>
                 Some (if ok then 0 else -1, if 0 < now_ms - start_ms then of_int (now_ms - start_ms) else 0, c, k)))"

definition transport_sendAll ::
    "('shm, 'k) NetOps \<Rightarrow> bytes \<Rightarrow> u32 \<Rightarrow> 'shm transport \<Rightarrow> 'k \<Rightarrow> (int \<times> 'shm transport \<times> 'k) option" where
  "transport_sendAll n data timeout_ms t k =
     (case t of
        Tcp c \<Rightarrow> map_option (\<lambda>(ret, c, k). (ret, Tcp c, k)) (tcp_sendAll (net_sockets n) data timeout_ms (c, k))
      | Shm s \<Rightarrow> map_option (\<lambda>(ret, _, s, k). (ret, Shm s, k)) (shm_sendAll (net_shm n) data timeout_ms (s, k)))"

definition transport_sendAll_elapsed ::
    "('shm, 'k) NetOps \<Rightarrow> bytes \<Rightarrow> u32 \<Rightarrow> 'shm transport \<Rightarrow> 'k \<Rightarrow> (int \<times> u32 \<times> 'shm transport \<times> 'k) option" where
  "transport_sendAll_elapsed n data timeout_ms t k =
     (case t of
        Tcp c \<Rightarrow> map_option (\<lambda>(ret, el, c, k). (ret, el, Tcp c, k)) (tcp_sendAll_elapsed (net_sockets n) data timeout_ms (c, k))
      | Shm s \<Rightarrow> map_option (\<lambda>(ret, el, s, k). (ret, el, Shm s, k)) (shm_sendAll (net_shm n) data timeout_ms (s, k)))"

lemma createClientConnection_shm:
  "createClientConnection n name host port lh rh shm inst k = (Some (Shm s), k') \<Longrightarrow> chooseTransportPolicy lh rh = PREFER_SHM"
  by (auto simp: createClientConnection_def Let_def split: if_splits prod.splits sum.splits)

subsection \<open>What the operations do to descriptors\<close>

lemma read_framed_keeps:
  assumes "\<And>s a b s'. P s \<Longrightarrow> t_peekFrameSize tr s = (a, b, s') \<Longrightarrow> P s'"
    "\<And>s m a b s'. P s \<Longrightarrow> t_recv tr m s = (a, b, s') \<Longrightarrow> P s'"
    "read_framed tr alloc (b, out, s) = (r, b', out', s')" "P s"
  shows "P s'"
  using assms(3,4) unfolding read_framed_def
  by (auto simp: Let_def split: prod.splits if_splits option.splits bool.splits dest: assms(1,2))

lemma read_stream_keeps:
  assumes "\<And>s m a b s'. P s \<Longrightarrow> t_recv tr m s = (a, b, s') \<Longrightarrow> P s'"
    "read_stream tr alloc b out s = (r, b', out', s')" "P s"
  shows "P s'"
  using assms
proof (induction tr alloc b out s rule: read_stream.induct)
  case (1 tr alloc b out s)
  show ?case
  proof (cases "extract_buffered alloc b out")
    case (Some p)
    with 1 show ?thesis by (auto simp: read_stream.simps [of tr alloc b] split: prod.splits)
  next
    case None
    obtain sp b1 where tail: "Buffer_writableTail alloc b = (sp, b1)" by force
    show ?thesis
    proof (cases sp)
      case None
      with 1 tail \<open>extract_buffered alloc b out = None\<close> show ?thesis by (simp add: read_stream.simps [of tr alloc b])
    next
      case (Some space)
      obtain ret bytes s1 where rc: "t_recv tr space s = (ret, bytes, s1)" by (metis surj_pair)
      have P1: "P s1" using 1(2) [OF 1(4) rc] .
      obtain ok b3 where cm: "Buffer_commitWritten (nat ret) (Buffer_fillTail bytes b1) = (ok, b3)" by force
      note IH = 1(1) [OF None tail [unfolded Some, symmetric] refl]
      show ?thesis
        using 1(2,3) tail Some rc cm P1 IH None
        by (auto simp: read_stream.simps [of tr alloc b] Let_def split: if_splits bool.splits)
    qed
  qed
qed

lemma readNextMessage_keeps:
  assumes "\<And>s. P s \<Longrightarrow> P (t_consumeReadiness tr s)"
    "\<And>s a b s'. P s \<Longrightarrow> t_peekFrameSize tr s = (a, b, s') \<Longrightarrow> P s'"
    "\<And>s m a b s'. P s \<Longrightarrow> t_recv tr m s = (a, b, s') \<Longrightarrow> P s'"
    "readNextMessage tr alloc (b, out, s) = (r, b', out', s')" "P s"
  shows "P s'"
proof (cases "t_isFramed tr")
  case True
  then have "read_framed tr alloc (b, out, t_consumeReadiness tr s) = (r, b', out', s')"
    using assms(4) by (simp add: readNextMessage_def Let_def)
  then show ?thesis by (rule read_framed_keeps [where P = P, rotated 2]) (auto intro: assms(1-3,5))
next
  case False
  then have "read_stream tr alloc b out (t_consumeReadiness tr s) = (r, b', out', s')"
    using assms(4) by (simp add: readNextMessage_def Let_def)
  then show ?thesis by (rule read_stream_keeps [where P = P, rotated 1]) (auto intro: assms(1,3,5))
qed

text \<open>The descriptors a transport holds; \<open>owned\<close> are those of a shared-memory connection.\<close>

definition fds_of :: "('shm \<Rightarrow> int set) \<Rightarrow> 'shm transport \<Rightarrow> int set" where
  "fds_of owned t = (case t of Tcp c \<Rightarrow> {tc_fd c} - {INVALID_SOCKET_FD} | Shm s \<Rightarrow> owned s)"

locale descriptors =
  fixes n :: "('shm, 'k) NetOps" and opened :: "'k \<Rightarrow> int set" and owned :: "'shm \<Rightarrow> int set"
  assumes create_law: "k_createTcpSocket (net_sockets n) k = (fd, k') \<Longrightarrow>
      fd = INVALID_SOCKET_FD \<and> opened k' = opened k \<or> 0 \<le> fd \<and> fd \<notin> opened k \<and> opened k' = insert fd (opened k)"
    and connect_law: "k_connectSocket (net_sockets n) fd host port k = (r, k') \<Longrightarrow> opened k' = opened k"
    and send_law: "k_socketSend (net_sockets n) fd data k = (r, k') \<Longrightarrow> opened k' = opened k"
    and recv_law: "k_socketRecv (net_sockets n) fd m k = (r, bytes, k') \<Longrightarrow> opened k' = opened k"
    and wait_law: "k_waitSocketWritable (net_sockets n) fd ms k = (ok, k') \<Longrightarrow> opened k' = opened k"
    and time_law: "k_currentTimeMs (net_sockets n) k = (t, k') \<Longrightarrow> opened k' = opened k"
    and check_law: "k_checkSocketConnected (net_sockets n) fd k = (ok, err, k') \<Longrightarrow> opened k' = opened k"
    and close_law: "opened (k_closeSocket (net_sockets n) fd k) = opened k - {fd}"
    and shm_connect_law: "shm_connect (net_shm n) h p (shm_new (net_shm n) name req resp inst host_id, k) = (r, s, k') \<Longrightarrow>
      (if r = 0 then owned s \<inter> opened k = {} \<and> opened k' = opened k \<union> owned s \<and>
         (0 \<le> shm_fd (net_shm n) s \<longrightarrow> shm_fd (net_shm n) s \<in> owned s)
       else opened (snd (shm_close (net_shm n) (s, k'))) = opened k)"
    and shm_close_law: "opened (snd (shm_close (net_shm n) (s, k))) = opened k - owned s"
    and shm_consume_law: "t_consumeReadiness (shm_connection (net_shm n)) (s, k) = (s', k') \<Longrightarrow>
      opened k' = opened k \<and> owned s' = owned s \<and> shm_fd (net_shm n) s' = shm_fd (net_shm n) s"
    and shm_peek_law: "t_peekFrameSize (shm_connection (net_shm n)) (s, k) = (r, len, s', k') \<Longrightarrow>
      opened k' = opened k \<and> owned s' = owned s \<and> shm_fd (net_shm n) s' = shm_fd (net_shm n) s"
    and shm_recv_law: "t_recv (shm_connection (net_shm n)) m (s, k) = (r, bytes, s', k') \<Longrightarrow>
      opened k' = opened k \<and> owned s' = owned s \<and> shm_fd (net_shm n) s' = shm_fd (net_shm n) s"
    and shm_sendAll_law: "shm_sendAll (net_shm n) data ms (s, k) = Some (r, el, s', k') \<Longrightarrow>
      opened k' = opened k \<and> owned s' = owned s \<and> shm_fd (net_shm n) s' = shm_fd (net_shm n) s"
begin

text \<open>An operation on a transport that leaves its descriptors and those of the process alone.\<close>

definition fds_kept :: "'shm transport \<Rightarrow> 'k \<Rightarrow> 'shm transport \<Rightarrow> 'k \<Rightarrow> bool" where
  "fds_kept t k t' k' \<longleftrightarrow>
     opened k' = opened k \<and> fds_of owned t' = fds_of owned t \<and> transport_fd n t' = transport_fd n t"

lemma tcp_recv_kept: "tcp_recv (net_sockets n) m (c, k) = (a, b, c', k') \<Longrightarrow> fds_kept (Tcp c) k (Tcp c') k'"
  by (auto simp: tcp_recv_def fds_kept_def fds_of_def transport_fd_def split: if_splits prod.splits dest: recv_law)

lemma read_kept:
  assumes "transport_read n alloc b out t k = (r, b', out', t', k')"
  shows "fds_kept t k t' k'"
proof (cases t)
  case (Tcp c)
  let ?P = "\<lambda>(c', k'). fds_kept (Tcp c) k (Tcp c') k'"
  obtain c' where c': "readNextMessage (tcp_connection (net_sockets n)) alloc (b, out, c, k) = (r, b', out', c', k')"
    "t' = Tcp c'" using assms Tcp by (auto simp: transport_read_def split: prod.splits)
  have "?P (c', k')"
    by (rule readNextMessage_keeps [where P = ?P, OF _ _ _ c'(1)])
      (auto simp: tcp_connection_def fds_kept_def dest!: tcp_recv_kept)
  with Tcp c'(2) show ?thesis by simp
next
  case (Shm s)
  let ?P = "\<lambda>(s', k'). fds_kept (Shm s) k (Shm s') k'"
  obtain s' where s': "readNextMessage (shm_connection (net_shm n)) alloc (b, out, s, k) = (r, b', out', s', k')"
    "t' = Shm s'" using assms Shm by (auto simp: transport_read_def split: prod.splits)
  have "?P (s', k')"
  proof (rule readNextMessage_keeps [where P = ?P, OF _ _ _ s'(1)])
    fix st
    assume "?P st"
    then show "?P (t_consumeReadiness (shm_connection (net_shm n)) st)"
      by (cases st; cases "t_consumeReadiness (shm_connection (net_shm n)) st")
        (auto simp: fds_kept_def fds_of_def transport_fd_def dest: shm_consume_law)
  qed (auto simp: fds_kept_def fds_of_def transport_fd_def dest: shm_peek_law shm_recv_law)
  with Shm s'(2) show ?thesis by simp
qed

lemma sendAll_loop_kept:
  assumes "sendAll_loop (net_sockets n) fd data deadline_ms s k = Some y"
  shows "opened (snd y) = opened k"
  using assms
proof (induction ops' \<equiv> "net_sockets n" fd data deadline_ms s k y
    rule: sendAll_loop.raw_induct [rotated, consumes 1, case_names 1])
  case (1 rec fd data deadline_ms s k y)
  let ?ops = "net_sockets n"
  have IH: "opened (snd y') = opened k'" if "rec ?ops fd data deadline_ms s' k' = Some y'" for s' k' y'
    using "1.hyps"(1) that by blast
  obtain ret k1 where sd: "k_socketSend ?ops fd (drop s data) k = (ret, k1)" by force
  obtain now k2 where t: "k_currentTimeMs ?ops k1 = (now, k2)" by force
  obtain ok k3 where w: "k_waitSocketWritable ?ops fd (of_int (deadline_ms - now)) k2 = (ok, k3)" by force
  have "opened k1 = opened k" "opened k2 = opened k" "opened k3 = opened k"
    using send_law [OF sd] time_law [OF t] wait_law [OF w] by simp_all
  with "1.hyps"(2) sd t w show ?case by (cases y) (auto simp del: of_int_diff split: if_splits dest!: IH)
qed

lemma tcp_sendAll_kept:
  "tcp_sendAll (net_sockets n) data ms (c, k) = Some (r, c', k') \<Longrightarrow> fds_kept (Tcp c) k (Tcp c') k'"
  by (auto simp: tcp_sendAll_def socketSendAll_def fds_kept_def split: if_splits option.splits prod.splits
      dest!: time_law sendAll_loop_kept)

lemma tcp_sendAll_elapsed_kept:
  "tcp_sendAll_elapsed (net_sockets n) data ms (c, k) = Some (r, el, c', k') \<Longrightarrow> fds_kept (Tcp c) k (Tcp c') k'"
  by (auto simp: tcp_sendAll_elapsed_def fds_kept_def split: if_splits option.splits prod.splits
      dest!: time_law sendAll_loop_kept)

lemma sendAll_kept:
  "transport_sendAll n data ms t k = Some (r, t', k') \<Longrightarrow> fds_kept t k t' k'"
  by (cases t) (auto simp: transport_sendAll_def dest!: tcp_sendAll_kept shm_sendAll_law,
      auto simp: fds_kept_def fds_of_def transport_fd_def)

lemma sendAll_elapsed_kept:
  "transport_sendAll_elapsed n data ms t k = Some (r, el, t', k') \<Longrightarrow> fds_kept t k t' k'"
  by (cases t) (auto simp: transport_sendAll_elapsed_def dest!: tcp_sendAll_elapsed_kept shm_sendAll_law,
      auto simp: fds_kept_def fds_of_def transport_fd_def)

lemma close_opened: "opened (transport_close n t k) = opened k - fds_of owned t"
  by (cases t) (auto simp: transport_close_def fds_of_def tcp_close_def close_law shm_close_law)

text \<open>A transport that was made holds descriptors nobody had; a failed attempt leaves none behind.\<close>

definition made :: "'k \<Rightarrow> 'shm transport option \<Rightarrow> 'k \<Rightarrow> bool" where
  "made k r k' \<longleftrightarrow>
     (case r of
        None \<Rightarrow> opened k' = opened k
      | Some t \<Rightarrow> fds_of owned t \<inter> opened k = {} \<and> opened k' = opened k \<union> fds_of owned t \<and>
                  (0 \<le> transport_fd n t \<longrightarrow> transport_fd n t \<in> fds_of owned t))"

lemma connect_tcp_made:
  assumes "connect_tcp (net_sockets n) host port k = (r, k')"
  shows "made k (case r of Inl _ \<Rightarrow> None | Inr c \<Rightarrow> Some (Tcp c)) k'"
proof -
  let ?ops = "net_sockets n"
  obtain fd k1 where cr: "k_createTcpSocket ?ops k = (fd, k1)" by force
  obtain ret k2 where cn: "k_connectSocket ?ops fd host port k1 = (ret, k2)" by force
  have k2: "opened k2 = opened k1" by (rule connect_law [OF cn])
  have tcp: "tcp_connect ?ops host port (TcpConnection_default, k) =
      (if fd = INVALID_SOCKET_FD then (-1, TcpConnection_default\<lparr>tc_fd := fd, tc_state := ERROR\<rparr>, k1)
       else if ret = 0 then (0, TcpConnection_default\<lparr>tc_fd := fd, tc_remote_host := host, tc_remote_port := port, tc_state := CONNECTED\<rparr>, k2)
       else if ret = 1 then (1, TcpConnection_default\<lparr>tc_fd := fd, tc_remote_host := host, tc_remote_port := port, tc_state := CONNECTING\<rparr>, k2)
       else (-1, TcpConnection_default\<lparr>tc_fd := INVALID_SOCKET_FD, tc_remote_host := host, tc_remote_port := port, tc_state := ERROR\<rparr>,
             k_closeSocket ?ops fd k2))"
    by (simp add: tcp_connect_def TcpConnection_default_def cr cn)
  consider (bad) "fd = INVALID_SOCKET_FD" "opened k1 = opened k"
    | (good) "0 \<le> fd" "fd \<notin> opened k" "opened k1 = insert fd (opened k)" "fd \<noteq> INVALID_SOCKET_FD"
    using create_law [OF cr] by (auto simp: INVALID_SOCKET_FD_def)
  then show ?thesis
  proof cases
    case bad
    with assms tcp show ?thesis by (auto simp: connect_tcp_def made_def tcp_close_def)
  next
    case good
    show ?thesis
    proof (cases "ret = 1")
      case False
      with assms tcp good k2 show ?thesis
        by (auto simp: connect_tcp_def made_def tcp_close_def fds_of_def transport_fd_def close_law split: if_splits)
    next
      case True
      let ?c = "TcpConnection_default\<lparr>tc_fd := fd, tc_remote_host := host, tc_remote_port := port, tc_state := CONNECTING\<rparr>"
      obtain ok c k3 where cp: "completePendingConnect ?ops 1000 (?c, k2) = (ok, c, k3)" by (metis surj_pair)
      then have c: "tc_fd c = fd" "opened k3 = opened k2"
        by (auto simp: completePendingConnect_def tcp_checkConnectComplete_def split: prod.splits if_splits
            dest!: wait_law check_law)
      from assms tcp good cp True have "r = (if ok then Inr c else Inl True)"
        "k' = (if ok then k3 else k_closeSocket ?ops fd k3)"
        using c(1) by (auto simp: connect_tcp_def tcp_close_def split: if_splits)
      with good c k2 show ?thesis
        by (auto simp: made_def fds_of_def transport_fd_def close_law)
    qed
  qed
qed

lemma createClientConnection_made:
  assumes "createClientConnection n name host port lh rh shm inst k = (r, k')"
  shows "made k r k'"
proof -
  have tcp: "made k0 r k'" if "(case connect_tcp (net_sockets n) host port k0 of
      (Inl _, k) \<Rightarrow> (None, k) | (Inr tcp, k) \<Rightarrow> (Some (Tcp tcp), k)) = (r, k')" for k0
    using that connect_tcp_made [of host port k0] by (auto split: prod.splits sum.splits)
  show ?thesis
  proof (cases "chooseTransportPolicy lh rh = PREFER_SHM")
    case False
    with assms tcp show ?thesis by (simp add: createClientConnection_def Let_def)
  next
    case True
    let ?req = "if 0 < req_ring_capacity shm then req_ring_capacity shm else SHM_DEFAULT_REQ_RING_CAPACITY"
    let ?resp = "if 0 < resp_ring_capacity shm then resp_ring_capacity shm else SHM_DEFAULT_RESP_RING_CAPACITY"
    obtain ret s k1 where cn: "shm_connect (net_shm n) [] 0 (shm_new (net_shm n) name ?req ?resp inst rh, k) = (ret, s, k1)"
      by (metis surj_pair)
    note law = shm_connect_law [OF cn]
    show ?thesis
    proof (cases "ret = 0")
      case True
      with assms cn law \<open>chooseTransportPolicy lh rh = PREFER_SHM\<close> show ?thesis
        by (auto simp: createClientConnection_def Let_def made_def fds_of_def transport_fd_def)
    next
      case False
      let ?k2 = "snd (shm_close (net_shm n) (s, k1))"
      have "made ?k2 r k'"
        using assms cn False \<open>chooseTransportPolicy lh rh = PREFER_SHM\<close>
        by (intro tcp) (simp add: createClientConnection_def Let_def)
      with law False show ?thesis by (simp add: made_def split: option.splits)
    qed
  qed
qed

end

end
