(* ===== verification/ConnectionManager.thy ===== *)
theory ConnectionManager
  imports TransportSelector EventLoop
begin

section \<open>Connections to services\<close>

text \<open>
  src/core/connection_manager.cpp: the direct connections of a runtime. A \<open>ServiceConnection*\<close> is an
  address; \<open>cm_objects\<close> are the objects that exist, and \<open>cm_connections\<close> is the map \<open>connections_\<close> from
  keys to addresses. \<open>new\<close> returns any address that is not in use, also one that was freed before.
  Using an address where there is no object, or a null transport, raises \<open>cm_dangling\<close>, which no
  operation clears. The state is an extensible record: the callbacks the manager calls run on the
  whole state of the runtime and may do anything to it; \<open>None\<close> is a callback that does not return.

  The invariant \<open>cm_ok\<close> says that the map and the objects correspond one to one (nothing leaks, nothing
  in the map is freed), that connections own disjoint descriptors, and that only connected ones are
  watched by the event loop, each under its own key: all of them, unless the polling back end has
  refused a descriptor, which \<open>getOrCreateConnectionByKey\<close> does not notice. It is all that is asked of
  callbacks.
\<close>

record 'shm ServiceConnection =
  sc_connection_key :: string
  sc_transport :: "'shm transport option"
  sc_recv_buffer :: Buffer
  sc_connected :: bool
  sc_remote_host :: string
  sc_remote_port :: u16
  sc_remote_host_id :: string
  sc_remote_instance_id :: string
  sc_session_ready :: bool
  sc_session_ack_received :: bool
  sc_session_status :: u32
  sc_session_interval_ms :: u32
  sc_session_timeout_ms :: u32
  sc_peer_incarnation :: u32

definition ServiceConnection_init :: "'shm ServiceConnection" where
  "ServiceConnection_init =
     \<lparr>sc_connection_key = [], sc_transport = None, sc_recv_buffer = Buffer_empty, sc_connected = False,
      sc_remote_host = [], sc_remote_port = 0, sc_remote_host_id = [], sc_remote_instance_id = [],
      sc_session_ready = False, sc_session_ack_received = False, sc_session_status = 0,
      sc_session_interval_ms = DEFAULT_HEARTBEAT_INTERVAL, sc_session_timeout_ms = DEFAULT_HEARTBEAT_TIMEOUT,
      sc_peer_incarnation = 0\<rparr>"

text \<open>
  What the manager runs on: sockets and shared memory, the polling back end, both allocators, and
  the event-loop callback it registers for a key.
\<close>

record ('shm, 'k, 'cb, 'b) CmEnv =
  ce_net :: "('shm, 'k) NetOps"
  ce_backend :: "'b EventBackend"
  ce_alloc :: allocator
  ce_malloc :: "nat list \<Rightarrow> nat"
  ce_on_data :: "string \<Rightarrow> 'cb"

record ('shm, 'k, 'cb, 'fn, 'b) ConnectionManager =
  cm_loop :: "('cb, 'fn, 'b) EventLoop"
  cm_local_host_id :: string
  cm_connections :: "(string, nat) omap"
  cm_objects :: "(nat, 'shm ServiceConnection) omap"
  cm_kernel :: 'k
  cm_dangling :: bool

type_synonym ('shm, 'k, 'cb, 'fn, 'b, 'z) cm_state = "('shm, 'k, 'cb, 'fn, 'b, 'z) ConnectionManager_scheme"

text \<open>The registered callbacks, on the whole state \<open>'w\<close>.\<close>

record 'w CmCallbacks =
  message_cb :: "(string \<Rightarrow> Message \<Rightarrow> 'w \<Rightarrow> (Message \<times> 'w) option) option"
  disconnect_cb :: "(string \<Rightarrow> 'w \<Rightarrow> 'w option) option"

definition setMessageCallback ::
    "(string \<Rightarrow> Message \<Rightarrow> 'w \<Rightarrow> (Message \<times> 'w) option) \<Rightarrow> 'w CmCallbacks \<Rightarrow> 'w CmCallbacks" where
  "setMessageCallback cb cbs = cbs\<lparr>message_cb := Some cb\<rparr>"

definition setDisconnectCallback :: "(string \<Rightarrow> 'w \<Rightarrow> 'w option) \<Rightarrow> 'w CmCallbacks \<Rightarrow> 'w CmCallbacks" where
  "setDisconnectCallback cb cbs = cbs\<lparr>disconnect_cb := Some cb\<rparr>"

definition ConnectionManager_init ::
    "('cb, 'fn, 'b) EventLoop \<Rightarrow> string \<Rightarrow> 'k \<Rightarrow> ('shm, 'k, 'cb, 'fn, 'b) ConnectionManager" where
  "ConnectionManager_init loop local_host_id k =
     \<lparr>cm_loop = loop, cm_local_host_id = local_host_id, cm_connections = om_empty, cm_objects = om_empty,
      cm_kernel = k, cm_dangling = False\<rparr>"

subsection \<open>Objects\<close>

definition cm_put ::
    "nat \<Rightarrow> 'shm ServiceConnection \<Rightarrow> ('shm, 'k, 'cb, 'fn, 'b, 'z) cm_state
     \<Rightarrow> ('shm, 'k, 'cb, 'fn, 'b, 'z) cm_state" where
  "cm_put p c w = w\<lparr>cm_objects := om_update p c (cm_objects w)\<rparr>"

text \<open>\<open>if (conn->transport && conn->transport->fd() >= 0) loop_.removeFd(conn->transport->fd());\<close>\<close>

definition cm_unwatch ::
    "('shm, 'k, 'cb, 'b) CmEnv \<Rightarrow> 'shm ServiceConnection \<Rightarrow> ('shm, 'k, 'cb, 'fn, 'b, 'z) cm_state
     \<Rightarrow> ('shm, 'k, 'cb, 'fn, 'b, 'z) cm_state" where
  "cm_unwatch e c w =
     (case sc_transport c of
        None \<Rightarrow> w
      | Some t \<Rightarrow>
          if 0 \<le> transport_fd (ce_net e) t
          then w\<lparr>cm_loop := loop_removeFd (ce_backend e) (transport_fd (ce_net e) t) (cm_loop w)\<rparr> else w)"

text \<open>
  \<open>delete conn\<close>, with \<open>~ServiceConnection\<close>, which closes the transport; its own destructor then finds it
  closed.
\<close>

definition cm_delete ::
    "('shm, 'k, 'cb, 'b) CmEnv \<Rightarrow> nat \<Rightarrow> ('shm, 'k, 'cb, 'fn, 'b, 'z) cm_state
     \<Rightarrow> ('shm, 'k, 'cb, 'fn, 'b, 'z) cm_state" where
  "cm_delete e p w =
     (case om_lookup (cm_objects w) p of
        None \<Rightarrow> w\<lparr>cm_dangling := True\<rparr>
      | Some c \<Rightarrow>
          let w = w\<lparr>cm_objects := om_erase p (cm_objects w)\<rparr> in
          case sc_transport c of
            None \<Rightarrow> w
          | Some t \<Rightarrow> w\<lparr>cm_kernel := transport_close (ce_net e) t (cm_kernel w)\<rparr>)"

text \<open>Unwatch and delete the connection filed under a key.\<close>

definition cm_release ::
    "('shm, 'k, 'cb, 'b) CmEnv \<Rightarrow> nat \<Rightarrow> ('shm, 'k, 'cb, 'fn, 'b, 'z) cm_state
     \<Rightarrow> ('shm, 'k, 'cb, 'fn, 'b, 'z) cm_state" where
  "cm_release e p w =
     (case om_lookup (cm_objects w) p of
        None \<Rightarrow> w\<lparr>cm_dangling := True\<rparr>
      | Some c \<Rightarrow> cm_delete e p (cm_unwatch e c w))"

subsection \<open>Finding and making connections\<close>

definition same_endpoint :: "string \<Rightarrow> u16 \<Rightarrow> string \<Rightarrow> string \<Rightarrow> 'shm ServiceConnection \<Rightarrow> bool" where
  "same_endpoint host port host_id instance_id c \<longleftrightarrow>
     sc_remote_host c = host \<and> sc_remote_port c = port \<and> sc_remote_host_id c = host_id
     \<and> sc_remote_instance_id c = instance_id"

text \<open>\<open>getOrCreateConnectionByKey\<close> from \<open>new ServiceConnection()\<close> on.\<close>

definition create_connection ::
    "('shm, 'k, 'cb, 'b) CmEnv \<Rightarrow> string \<Rightarrow> string \<Rightarrow> string \<Rightarrow> u16 \<Rightarrow> string \<Rightarrow> ShmConfig \<Rightarrow> string
     \<Rightarrow> ('shm, 'k, 'cb, 'fn, 'b, 'z) cm_state
     \<Rightarrow> nat option \<times> ('shm, 'k, 'cb, 'fn, 'b, 'z) cm_state" where
  "create_connection e key service_name host port host_id shm_config instance_id w =
     (let p = ce_malloc e (om_keys (cm_objects w));
          conn = ServiceConnection_init\<lparr>sc_connection_key := key, sc_remote_host := host, sc_remote_port := port,
                   sc_remote_host_id := host_id, sc_remote_instance_id := instance_id\<rparr>;
          (r, k) = createClientConnection (ce_net e) service_name host port (cm_local_host_id w) host_id shm_config
                     instance_id (cm_kernel w);
          w = cm_put p (conn\<lparr>sc_transport := r\<rparr>) (w\<lparr>cm_kernel := k\<rparr>)
      in case r of
           None \<Rightarrow> (None, cm_delete e p w)
         | Some t \<Rightarrow>
             if transport_fd (ce_net e) t < 0 then (None, cm_delete e p w)
             else
               let w = cm_put p (conn\<lparr>sc_transport := r, sc_connected := True\<rparr>) w;
                   w = w\<lparr>cm_connections := om_update key p (cm_connections w)\<rparr>
               in (Some p, w\<lparr>cm_loop := loop_addFd (ce_backend e) (transport_fd (ce_net e) t) EVENT_READ
                                        (ce_on_data e key) (cm_loop w)\<rparr>))"

definition getOrCreateConnectionByKey ::
    "('shm, 'k, 'cb, 'b) CmEnv \<Rightarrow> string \<Rightarrow> string \<Rightarrow> string \<Rightarrow> u16 \<Rightarrow> string \<Rightarrow> ShmConfig \<Rightarrow> string
     \<Rightarrow> ('shm, 'k, 'cb, 'fn, 'b, 'z) cm_state
     \<Rightarrow> nat option \<times> ('shm, 'k, 'cb, 'fn, 'b, 'z) cm_state" where
  "getOrCreateConnectionByKey e key service_name host port host_id shm_config instance_id w =
     (case om_lookup (cm_connections w) key of
        None \<Rightarrow> create_connection e key service_name host port host_id shm_config instance_id w
      | Some p \<Rightarrow>
          (case om_lookup (cm_objects w) p of
             None \<Rightarrow> (None, w\<lparr>cm_dangling := True\<rparr>)
           | Some existing \<Rightarrow>
               if sc_connected existing \<and> same_endpoint host port host_id instance_id existing then (Some p, w)
               else
                 let w = cm_release e p w;
                     w = w\<lparr>cm_connections := om_erase key (cm_connections w)\<rparr>
                 in create_connection e key service_name host port host_id shm_config instance_id w))"

text \<open>The second component is the state, with \<open>cm_dangling\<close> where \<open>it->second\<close> is not an object.\<close>

definition getConnection ::
    "string \<Rightarrow> ('shm, 'k, 'cb, 'fn, 'b, 'z) cm_state
     \<Rightarrow> nat option \<times> ('shm, 'k, 'cb, 'fn, 'b, 'z) cm_state" where
  "getConnection key w =
     (case om_lookup (cm_connections w) key of
        None \<Rightarrow> (None, w)
      | Some p \<Rightarrow>
          (case om_lookup (cm_objects w) p of
             None \<Rightarrow> (None, w\<lparr>cm_dangling := True\<rparr>)
           | Some c \<Rightarrow> (if sc_connected c then Some p else None, w)))"

definition removeConnection ::
    "('shm, 'k, 'cb, 'b) CmEnv \<Rightarrow> string \<Rightarrow> ('shm, 'k, 'cb, 'fn, 'b, 'z) cm_state
     \<Rightarrow> ('shm, 'k, 'cb, 'fn, 'b, 'z) cm_state" where
  "removeConnection e key w =
     (case om_lookup (cm_connections w) key of
        None \<Rightarrow> w
      | Some p \<Rightarrow> let w = cm_release e p w in w\<lparr>cm_connections := om_erase key (cm_connections w)\<rparr>)"

definition closeAll ::
    "('shm, 'k, 'cb, 'b) CmEnv \<Rightarrow> ('shm, 'k, 'cb, 'fn, 'b, 'z) cm_state
     \<Rightarrow> ('shm, 'k, 'cb, 'fn, 'b, 'z) cm_state" where
  "closeAll e w = (fold (cm_release e) (om_values (cm_connections w)) w)\<lparr>cm_connections := om_empty\<rparr>"

text \<open>\<open>connectionCounts\<close>: active, TCP and shared-memory connections.\<close>

definition count_connection ::
    "('shm, 'k, 'cb, 'fn, 'b, 'z) cm_state \<Rightarrow> nat \<Rightarrow> u32 \<times> u32 \<times> u32 \<Rightarrow> u32 \<times> u32 \<times> u32" where
  "count_connection w p counts =
     (case (om_lookup (cm_objects w) p, counts) of
        (None, _) \<Rightarrow> counts
      | (Some c, (active, tcp, shm)) \<Rightarrow>
          if \<not> sc_connected c then counts
          else
            (case sc_transport c of
               None \<Rightarrow> (active + 1, tcp, shm)
             | Some t \<Rightarrow> if transport_type t = TransportTCP then (active + 1, tcp + 1, shm)
                         else (active + 1, tcp, shm + 1)))"

definition connectionCounts :: "('shm, 'k, 'cb, 'fn, 'b, 'z) cm_state \<Rightarrow> u32 \<times> u32 \<times> u32" where
  "connectionCounts w = fold (count_connection w) (om_values (cm_connections w)) (0, 0, 0)"

subsection \<open>Failing, sending and receiving\<close>

definition failConnection ::
    "('shm, 'k, 'cb, 'b) CmEnv \<Rightarrow> ('shm, 'k, 'cb, 'fn, 'b, 'z) cm_state CmCallbacks \<Rightarrow> nat
     \<Rightarrow> ('shm, 'k, 'cb, 'fn, 'b, 'z) cm_state
     \<Rightarrow> (bool \<times> ('shm, 'k, 'cb, 'fn, 'b, 'z) cm_state) option" where
  "failConnection e cbs p w =
     (case om_lookup (cm_objects w) p of
        None \<Rightarrow> Some (False, w\<lparr>cm_dangling := True\<rparr>)
      | Some c \<Rightarrow>
          let w = cm_unwatch e c (cm_put p (c\<lparr>sc_connected := False\<rparr>) w);
              svc = sc_connection_key c
          in do {
               w \<leftarrow> (case disconnect_cb cbs of None \<Rightarrow> Some w | Some cb \<Rightarrow> cb svc w);
               Some (om_lookup (cm_connections w) svc = Some p, w)
             })"

text \<open>
  What both bounded sends do with the result \<open>ret\<close> of \<open>sendAll\<close>: a TCP connection that may have sent
  half a frame is failed, a shared-memory one is not.
\<close>

definition after_send ::
    "('shm, 'k, 'cb, 'b) CmEnv \<Rightarrow> ('shm, 'k, 'cb, 'fn, 'b, 'z) cm_state CmCallbacks \<Rightarrow> nat
     \<Rightarrow> 'shm transport \<Rightarrow> int \<Rightarrow> ('shm, 'k, 'cb, 'fn, 'b, 'z) cm_state
     \<Rightarrow> (bool \<times> ('shm, 'k, 'cb, 'fn, 'b, 'z) cm_state) option" where
  "after_send e cbs p t ret w =
     (if ret = 0 then Some (True, w)
      else if transport_type t = TransportTCP then map_option (\<lambda>(_, w). (False, w)) (failConnection e cbs p w)
      else Some (False, w))"

text \<open>The connection and its transport, where \<open>conn && conn->transport && conn->connected\<close>.\<close>

definition usable ::
    "nat option \<Rightarrow> ('shm, 'k, 'cb, 'fn, 'b, 'z) cm_state
     \<Rightarrow> (nat \<times> 'shm ServiceConnection \<times> 'shm transport) option \<times> ('shm, 'k, 'cb, 'fn, 'b, 'z) cm_state" where
  "usable conn w =
     (case conn of
        None \<Rightarrow> (None, w)
      | Some p \<Rightarrow>
          (case om_lookup (cm_objects w) p of
             None \<Rightarrow> (None, w\<lparr>cm_dangling := True\<rparr>)
           | Some c \<Rightarrow>
               (case sc_transport c of
                  None \<Rightarrow> (None, w)
                | Some t \<Rightarrow> (if sc_connected c then Some (p, c, t) else None, w))))"

definition sendRawWithDeadline ::
    "('shm, 'k, 'cb, 'b) CmEnv \<Rightarrow> ('shm, 'k, 'cb, 'fn, 'b, 'z) cm_state CmCallbacks \<Rightarrow> nat option
     \<Rightarrow> bytes \<Rightarrow> u32 \<Rightarrow> ('shm, 'k, 'cb, 'fn, 'b, 'z) cm_state
     \<Rightarrow> (bool \<times> ('shm, 'k, 'cb, 'fn, 'b, 'z) cm_state) option" where
  "sendRawWithDeadline e cbs conn data deadline_ms w =
     (case usable conn w of
        (None, w) \<Rightarrow> Some (False, w)
      | (Some (p, c, t), w) \<Rightarrow>
          let (timeout, w) =
            (if 0 < deadline_ms then
               case k_currentTimeMs (net_sockets (ce_net e)) (cm_kernel w) of (now, k) \<Rightarrow>
               (if uint deadline_ms \<le> now then None else Some (of_int (uint deadline_ms - now)), w\<lparr>cm_kernel := k\<rparr>)
             else (Some 0, w))
          in case timeout of
               None \<Rightarrow> Some (False, w)
             | Some timeout_ms \<Rightarrow> do {
                 (ret, t, k) \<leftarrow> transport_sendAll (ce_net e) data timeout_ms t (cm_kernel w);
                 after_send e cbs p t ret (cm_put p (c\<lparr>sc_transport := Some t\<rparr>) (w\<lparr>cm_kernel := k\<rparr>))
               })"

definition cm_sendRaw ::
    "('shm, 'k, 'cb, 'b) CmEnv \<Rightarrow> ('shm, 'k, 'cb, 'fn, 'b, 'z) cm_state CmCallbacks \<Rightarrow> nat option
     \<Rightarrow> bytes \<Rightarrow> ('shm, 'k, 'cb, 'fn, 'b, 'z) cm_state
     \<Rightarrow> (bool \<times> ('shm, 'k, 'cb, 'fn, 'b, 'z) cm_state) option" where
  "cm_sendRaw e cbs conn data w = sendRawWithDeadline e cbs conn data 0 w"

text \<open>The second component is \<open>*elapsed_ms\<close>.\<close>

definition sendRawWithinTimeout ::
    "('shm, 'k, 'cb, 'b) CmEnv \<Rightarrow> ('shm, 'k, 'cb, 'fn, 'b, 'z) cm_state CmCallbacks \<Rightarrow> nat option
     \<Rightarrow> bytes \<Rightarrow> u32 \<Rightarrow> ('shm, 'k, 'cb, 'fn, 'b, 'z) cm_state
     \<Rightarrow> (bool \<times> u32 \<times> ('shm, 'k, 'cb, 'fn, 'b, 'z) cm_state) option" where
  "sendRawWithinTimeout e cbs conn data timeout_ms w =
     (case usable conn w of
        (None, w) \<Rightarrow> Some (False, 0, w)
      | (Some (p, c, t), w) \<Rightarrow> do {
          (ret, elapsed, t, k) \<leftarrow> transport_sendAll_elapsed (ce_net e) data timeout_ms t (cm_kernel w);
          (ok, w) \<leftarrow> after_send e cbs p t ret (cm_put p (c\<lparr>sc_transport := Some t\<rparr>) (w\<lparr>cm_kernel := k\<rparr>));
          Some (ok, elapsed, w)
        })"

text \<open>The message is serialized in place; what is left in it is returned.\<close>

definition cm_sendMessage ::
    "('shm, 'k, 'cb, 'b) CmEnv \<Rightarrow> ('shm, 'k, 'cb, 'fn, 'b, 'z) cm_state CmCallbacks \<Rightarrow> string
     \<Rightarrow> Message \<Rightarrow> ('shm, 'k, 'cb, 'fn, 'b, 'z) cm_state
     \<Rightarrow> (bool \<times> Message \<times> ('shm, 'k, 'cb, 'fn, 'b, 'z) cm_state) option" where
  "cm_sendMessage e cbs key msg w =
     (case getConnection key w of
        (None, w) \<Rightarrow> Some (False, msg, w)
      | (Some p, w) \<Rightarrow>
          (case Message_serializeInPlace (ce_alloc e) msg of
             (False, msg) \<Rightarrow> Some (False, msg, w)
           | (True, msg) \<Rightarrow> do {
               (ok, w) \<leftarrow> cm_sendRaw e cbs (Some p) (Buffer_content (m_payload msg)) w;
               Some (ok, msg, w)
             }))"

definition sendMessageWithinTimeout ::
    "('shm, 'k, 'cb, 'b) CmEnv \<Rightarrow> ('shm, 'k, 'cb, 'fn, 'b, 'z) cm_state CmCallbacks \<Rightarrow> string
     \<Rightarrow> Message \<Rightarrow> u32 \<Rightarrow> ('shm, 'k, 'cb, 'fn, 'b, 'z) cm_state
     \<Rightarrow> (bool \<times> u32 \<times> Message \<times> ('shm, 'k, 'cb, 'fn, 'b, 'z) cm_state) option" where
  "sendMessageWithinTimeout e cbs key msg timeout_ms w =
     (case getConnection key w of
        (None, w) \<Rightarrow> Some (False, 0, msg, w)
      | (Some p, w) \<Rightarrow>
          (case Message_serializeInPlace (ce_alloc e) msg of
             (False, msg) \<Rightarrow> Some (False, 0, msg, w)
           | (True, msg) \<Rightarrow> do {
               (ok, elapsed, w) \<leftarrow> sendRawWithinTimeout e cbs (Some p) (Buffer_content (m_payload msg)) timeout_ms w;
               Some (ok, elapsed, msg, w)
             }))"

text \<open>The loop of \<open>onConnectionData\<close>; \<open>None\<close> where it never ends.\<close>

partial_function (option) data_loop ::
    "('shm, 'k, 'cb, 'b) CmEnv \<Rightarrow> ('shm, 'k, 'cb, 'fn, 'b, 'z) cm_state CmCallbacks \<Rightarrow> string \<Rightarrow> nat
     \<Rightarrow> Message \<Rightarrow> ('shm, 'k, 'cb, 'fn, 'b, 'z) cm_state
     \<Rightarrow> ('shm, 'k, 'cb, 'fn, 'b, 'z) cm_state option" where
  "data_loop e cbs key p msg w =
     (case om_lookup (cm_objects w) p of
        None \<Rightarrow> Some (w\<lparr>cm_dangling := True\<rparr>)
      | Some c \<Rightarrow>
          (case sc_transport c of
             None \<Rightarrow> Some (w\<lparr>cm_dangling := True\<rparr>)
           | Some t \<Rightarrow>
               (case transport_read (ce_net e) (ce_alloc e) (sc_recv_buffer c) msg t (cm_kernel w) of
                  (ret, b, msg, t, k) \<Rightarrow>
                    let w = cm_put p (c\<lparr>sc_recv_buffer := b, sc_transport := Some t\<rparr>) (w\<lparr>cm_kernel := k\<rparr>) in
                    if ret = 0 then Some w
                    else if ret < 0 then map_option snd (failConnection e cbs p w)
                    else
                      (case message_cb cbs of
                         None \<Rightarrow> data_loop e cbs key p msg w
                       | Some cb \<Rightarrow> do {
                           (msg, w) \<leftarrow> cb (sc_connection_key c) msg w;
                           if om_lookup (cm_connections w) key = Some p then data_loop e cbs key p msg w else Some w
                         }))))"

definition onConnectionData ::
    "('shm, 'k, 'cb, 'b) CmEnv \<Rightarrow> ('shm, 'k, 'cb, 'fn, 'b, 'z) cm_state CmCallbacks \<Rightarrow> string
     \<Rightarrow> ('shm, 'k, 'cb, 'fn, 'b, 'z) cm_state
     \<Rightarrow> ('shm, 'k, 'cb, 'fn, 'b, 'z) cm_state option" where
  "onConnectionData e cbs key w =
     (case om_lookup (cm_connections w) key of
        None \<Rightarrow> Some w
      | Some p \<Rightarrow>
          (case om_lookup (cm_objects w) p of
             None \<Rightarrow> Some (w\<lparr>cm_dangling := True\<rparr>)
           | Some c \<Rightarrow>
               (case sc_transport c of
                  None \<Rightarrow> Some w
                | Some _ \<Rightarrow> data_loop e cbs key p Message_default w)))"

subsection \<open>The invariant\<close>

text \<open>
  What the invariant sees of a connection: its key, whether it is connected, its descriptor, and all
  descriptors it holds. \<open>C\<close> maps keys to addresses, \<open>V\<close> addresses to such views, \<open>D\<close> watched
  descriptors to callbacks; \<open>S\<close> are the open descriptors.
\<close>

type_synonym conn_view = "string \<times> bool \<times> int \<times> int set"

definition cm_view :: "('shm, 'k) NetOps \<Rightarrow> ('shm \<Rightarrow> int set) \<Rightarrow> 'shm ServiceConnection \<Rightarrow> conn_view" where
  "cm_view n owned c =
     (sc_connection_key c, sc_connected c,
      (case sc_transport c of None \<Rightarrow> (-1, {}) | Some t \<Rightarrow> (transport_fd n t, fds_of owned t)))"

text \<open>
  The map and the objects correspond; a connection holds open descriptors nobody else holds; of these
  at most its own one is watched, only while it is connected and with the callback for its key, and,
  if no registration can be refused (\<open>reg\<close>), all the while; such a callback stands for the connection
  under the key; only open descriptors are watched.
\<close>

definition conns_ok ::
    "bool \<Rightarrow> (string \<Rightarrow> 'cb) \<Rightarrow> int set \<Rightarrow> (string \<Rightarrow> nat option) \<Rightarrow> (nat \<Rightarrow> conn_view option) \<Rightarrow> (int \<Rightarrow> 'cb option) \<Rightarrow> bool" where
  "conns_ok reg on_data S C V D \<longleftrightarrow>
     (\<forall>key p. C key = Some p \<longrightarrow> (\<exists>b f F. V p = Some (key, b, f, F))) \<and>
     (\<forall>p key b f F. V p = Some (key, b, f, F) \<longrightarrow>
        C key = Some p \<and> 0 \<le> f \<and> f \<in> F \<and> F \<subseteq> S \<and> (\<forall>g. g \<in> F \<and> D g \<noteq> None \<longrightarrow> g = f) \<and>
        (b \<and> D f = Some (on_data key) \<or> D f = None \<and> (b \<longrightarrow> \<not> reg))) \<and>
     (\<forall>p key b f F q key' b' f' F'. V p = Some (key, b, f, F) \<and> V q = Some (key', b', f', F') \<and> p \<noteq> q \<longrightarrow> F \<inter> F' = {}) \<and>
     (\<forall>f. D f \<noteq> None \<longrightarrow> f \<in> S) \<and>
     (\<forall>f key. D f = Some (on_data key) \<longrightarrow> (\<exists>p b F. C key = Some p \<and> V p = Some (key, b, f, F)))"

definition cm_views ::
    "('shm, 'k, 'cb, 'b) CmEnv \<Rightarrow> ('shm \<Rightarrow> int set) \<Rightarrow> ('shm, 'k, 'cb, 'fn, 'b, 'z) cm_state \<Rightarrow> nat \<Rightarrow> conn_view option" where
  "cm_views e owned w p = map_option (cm_view (ce_net e) owned) (om_lookup (cm_objects w) p)"

definition never_refuses :: "('shm, 'k, 'cb, 'b) CmEnv \<Rightarrow> bool" where
  "never_refuses e \<longleftrightarrow> (\<forall>fd ev b. fst (be_addFd (ce_backend e) fd ev b))"

definition loop_watches :: "('cb, 'fn, 'b) EventLoop \<Rightarrow> int \<Rightarrow> 'cb option" where
  "loop_watches l f = map_option fe_callback (om_lookup (fd_entries l) f)"

definition cm_ok ::
    "('shm, 'k, 'cb, 'b) CmEnv \<Rightarrow> ('k \<Rightarrow> int set) \<Rightarrow> ('shm \<Rightarrow> int set)
     \<Rightarrow> ('shm, 'k, 'cb, 'fn, 'b, 'z) cm_state \<Rightarrow> bool" where
  "cm_ok e opened owned w \<longleftrightarrow>
     \<not> cm_dangling w \<and>
     conns_ok (never_refuses e) (ce_on_data e) (opened (cm_kernel w)) (om_lookup (cm_connections w)) (cm_views e owned w)
       (loop_watches (cm_loop w))"

lemma conns_ok_filed: "conns_ok reg on_data S C V D \<Longrightarrow> C key = Some p \<Longrightarrow> \<exists>b f F. V p = Some (key, b, f, F)"
  by (simp add: conns_ok_def)

lemma conns_ok_view:
  assumes "conns_ok reg on_data S C V D" "V p = Some (key, b, f, F)"
  shows "C key = Some p" "0 \<le> f" "f \<in> F" "F \<subseteq> S" "\<And>g. g \<in> F \<Longrightarrow> D g \<noteq> None \<Longrightarrow> g = f"
    "b \<and> D f = Some (on_data key) \<or> D f = None \<and> (b \<longrightarrow> \<not> reg)"
  using assms unfolding conns_ok_def by (elim conjE allE [of _ p] allE [of _ key] allE [of _ b] allE [of _ f] allE [of _ F], simp)+

lemma conns_ok_disjoint:
  "conns_ok reg on_data S C V D \<Longrightarrow> V p = Some (key, b, f, F) \<Longrightarrow> V q = Some (key', b', f', F') \<Longrightarrow> p \<noteq> q \<Longrightarrow> F \<inter> F' = {}"
  unfolding conns_ok_def by blast

lemma conns_ok_open: "conns_ok reg on_data S C V D \<Longrightarrow> D f = Some x \<Longrightarrow> f \<in> S"
  unfolding conns_ok_def by blast

lemma conns_ok_callback:
  "conns_ok reg on_data S C V D \<Longrightarrow> D f = Some (on_data key) \<Longrightarrow> \<exists>p b F. C key = Some p \<and> V p = Some (key, b, f, F)"
  unfolding conns_ok_def by blast

lemma conns_okI:
  assumes "\<And>key p. C key = Some p \<Longrightarrow> \<exists>b f F. V p = Some (key, b, f, F)"
    "\<And>p key b f F. V p = Some (key, b, f, F) \<Longrightarrow> C key = Some p \<and> 0 \<le> f \<and> f \<in> F \<and> F \<subseteq> S"
    "\<And>p key b f F g. V p = Some (key, b, f, F) \<Longrightarrow> g \<in> F \<Longrightarrow> D g \<noteq> None \<Longrightarrow> g = f"
    "\<And>p key b f F. V p = Some (key, b, f, F) \<Longrightarrow> b \<and> D f = Some (on_data key) \<or> D f = None \<and> (b \<longrightarrow> \<not> reg)"
    "\<And>p key b f F q key' b' f' F'. V p = Some (key, b, f, F) \<Longrightarrow> V q = Some (key', b', f', F') \<Longrightarrow> p \<noteq> q \<Longrightarrow> F \<inter> F' = {}"
    "\<And>f. D f \<noteq> None \<Longrightarrow> f \<in> S"
    "\<And>f key. D f = Some (on_data key) \<Longrightarrow> \<exists>p b F. C key = Some p \<and> V p = Some (key, b, f, F)"
  shows "conns_ok reg on_data S C V D"
  unfolding conns_ok_def
  by (intro conjI allI impI; (elim conjE)?) (use assms in simp_all)

text \<open>The invariant, spelled out.\<close>

lemma cm_ok_unfold:
  assumes "cm_ok e opened owned w"
  shows "\<not> cm_dangling w"
    "\<And>key p. om_lookup (cm_connections w) key = Some p \<Longrightarrow>
       \<exists>c. om_lookup (cm_objects w) p = Some c \<and> sc_connection_key c = key"
    "\<And>p c. om_lookup (cm_objects w) p = Some c \<Longrightarrow>
       om_lookup (cm_connections w) (sc_connection_key c) = Some p \<and>
       (\<exists>t. sc_transport c = Some t \<and> 0 \<le> transport_fd (ce_net e) t \<and>
            (loop_watches (cm_loop w) (transport_fd (ce_net e) t) = None \<or>
             sc_connected c \<and> loop_watches (cm_loop w) (transport_fd (ce_net e) t) = Some (ce_on_data e (sc_connection_key c))) \<and>
            (never_refuses e \<and> sc_connected c \<longrightarrow>
             loop_watches (cm_loop w) (transport_fd (ce_net e) t) = Some (ce_on_data e (sc_connection_key c))))"
    "\<And>f key. loop_watches (cm_loop w) f = Some (ce_on_data e key) \<Longrightarrow>
       \<exists>p c t. om_lookup (cm_connections w) key = Some p \<and> om_lookup (cm_objects w) p = Some c \<and>
               sc_transport c = Some t \<and> transport_fd (ce_net e) t = f"
proof -
  have ok: "conns_ok (never_refuses e) (ce_on_data e) (opened (cm_kernel w)) (om_lookup (cm_connections w)) (cm_views e owned w)
      (loop_watches (cm_loop w))" and d: "\<not> cm_dangling w" using assms by (simp_all add: cm_ok_def)
  show "\<not> cm_dangling w" by (rule d)
  have view: "\<exists>c. om_lookup (cm_objects w) p = Some c \<and> sc_connection_key c = key \<and> sc_connected c = b \<and>
      (0 \<le> f \<longrightarrow> (\<exists>t. sc_transport c = Some t \<and> transport_fd (ce_net e) t = f))"
    if "cm_views e owned w p = Some (key, b, f, F)" for p key b f F
    using that by (auto simp: cm_views_def cm_view_def split: option.splits)
  show "\<exists>c. om_lookup (cm_objects w) p = Some c \<and> sc_connection_key c = key"
    if "om_lookup (cm_connections w) key = Some p" for key p
    using conns_ok_filed [OF ok that] view by blast
  show "om_lookup (cm_connections w) (sc_connection_key c) = Some p \<and>
       (\<exists>t. sc_transport c = Some t \<and> 0 \<le> transport_fd (ce_net e) t \<and>
            (loop_watches (cm_loop w) (transport_fd (ce_net e) t) = None \<or>
             sc_connected c \<and> loop_watches (cm_loop w) (transport_fd (ce_net e) t) = Some (ce_on_data e (sc_connection_key c))) \<and>
            (never_refuses e \<and> sc_connected c \<longrightarrow>
             loop_watches (cm_loop w) (transport_fd (ce_net e) t) = Some (ce_on_data e (sc_connection_key c))))"
    if c: "om_lookup (cm_objects w) p = Some c" for p c
  proof -
    obtain f F where x: "cm_views e owned w p = Some (sc_connection_key c, sc_connected c, f, F)"
      "(f, F) = (case sc_transport c of None \<Rightarrow> (-1, {}) | Some t \<Rightarrow> (transport_fd (ce_net e) t, fds_of owned t))"
      using c by (cases "sc_transport c") (simp_all add: cm_views_def cm_view_def)
    from conns_ok_view(1,2,6) [OF ok x(1)] x(2) show ?thesis by (cases "sc_transport c") auto
  qed
  show "\<exists>p c t. om_lookup (cm_connections w) key = Some p \<and> om_lookup (cm_objects w) p = Some c \<and>
      sc_transport c = Some t \<and> transport_fd (ce_net e) t = f"
    if "loop_watches (cm_loop w) f = Some (ce_on_data e key)" for f key
    using conns_ok_callback [OF ok that] view conns_ok_view(2) [OF ok] by blast
qed

text \<open>A connection that is marked as disconnected and no longer watched.\<close>

lemma conns_ok_fail:
  assumes ok: "conns_ok reg on_data S C V D" and p: "V p = Some (key, b, f, F)"
  shows "conns_ok reg on_data S C (V(p \<mapsto> (key, False, f, F))) (D(f := None))"
proof -
  note v = conns_ok_view [OF ok]
  have other: "F' \<inter> F = {}" if "V q = Some (key', b', f', F')" "q \<noteq> p" for q key' b' f' F'
    using conns_ok_disjoint [OF ok that(1) p that(2)] .
  have ne: "f' \<noteq> f" if "V q = Some (key', b', f', F')" "q \<noteq> p" for q key' b' f' F'
    using v(3) [OF p] v(3) [OF that(1)] other [OF that] by auto
  show ?thesis
  proof (rule conns_okI)
    fix key' q assume "C key' = Some q"
    with conns_ok_filed [OF ok this] p show "\<exists>b' f' F'. (V(p \<mapsto> (key, False, f, F))) q = Some (key', b', f', F')" by auto
  next
    fix q key' b' f' F' r key'' b'' f'' F''
    assume "(V(p \<mapsto> (key, False, f, F))) q = Some (key', b', f', F')" "(V(p \<mapsto> (key, False, f, F))) r = Some (key'', b'', f'', F'')" "q \<noteq> r"
    with p show "F' \<inter> F'' = {}" by (auto split: if_splits dest: conns_ok_disjoint [OF ok])
  next
    fix g key' assume "(D(f := None)) g = Some (on_data key')"
    then have g: "g \<noteq> f" "D g = Some (on_data key')" by (auto split: if_splits)
    from conns_ok_callback [OF ok g(2)] p g(1)
    show "\<exists>q b' F'. C key' = Some q \<and> (V(p \<mapsto> (key, False, f, F))) q = Some (key', b', g, F')" by fastforce
  qed (use p v ne conns_ok_open [OF ok] in \<open>auto split: if_splits\<close>)
qed

text \<open>A connection that is unwatched, closed and dropped from the map.\<close>

lemma conns_ok_release:
  assumes ok: "conns_ok reg on_data S C V D" and p: "V p = Some (key, b, f, F)"
  shows "conns_ok reg on_data (S - F) (C(key := None)) (V(p := None)) (D(f := None))"
proof -
  note v = conns_ok_view [OF ok]
  have other: "F' \<inter> F = {}" if "V q = Some (key', b', f', F')" "q \<noteq> p" for q key' b' f' F'
    using conns_ok_disjoint [OF ok that(1) p that(2)] .
  have ne: "f' \<noteq> f" "key' \<noteq> key" if "V q = Some (key', b', f', F')" "q \<noteq> p" for q key' b' f' F'
    using v(1,3) [OF p] v(1,3) [OF that(1)] other [OF that] that(2) by auto
  show ?thesis
  proof (rule conns_okI)
    fix key' q assume "(C(key := None)) key' = Some q"
    then have q: "key' \<noteq> key" "C key' = Some q" by (auto split: if_splits)
    from conns_ok_filed [OF ok q(2)] p q(1) show "\<exists>b' f' F'. (V(p := None)) q = Some (key', b', f', F')" by auto
  next
    fix q key' b' f' F' assume "(V(p := None)) q = Some (key', b', f', F')"
    then have q: "q \<noteq> p" "V q = Some (key', b', f', F')" by (auto split: if_splits)
    with ne [OF q(2,1)] other [OF q(2,1)] v(1-4) [OF q(2)]
    show "(C(key := None)) key' = Some q \<and> 0 \<le> f' \<and> f' \<in> F' \<and> F' \<subseteq> S - F" by auto
  next
    fix q key' b' f' F' r key'' b'' f'' F''
    assume "(V(p := None)) q = Some (key', b', f', F')" "(V(p := None)) r = Some (key'', b'', f'', F'')" "q \<noteq> r"
    then show "F' \<inter> F'' = {}" by (auto split: if_splits dest: conns_ok_disjoint [OF ok])
  next
    fix g assume "(D(f := None)) g \<noteq> None"
    then have g: "g \<noteq> f" "D g \<noteq> None" by (auto split: if_splits)
    with v(5) [OF p] conns_ok_open [OF ok] show "g \<in> S - F" by auto
  next
    fix g key' assume "(D(f := None)) g = Some (on_data key')"
    then have g: "g \<noteq> f" "D g = Some (on_data key')" by (auto split: if_splits)
    obtain q b' F' where q: "C key' = Some q" "V q = Some (key', b', g, F')" using conns_ok_callback [OF ok g(2)] by blast
    with p g(1) have "q \<noteq> p" by auto
    with ne(2) [OF q(2)] q show "\<exists>q b' F'. (C(key := None)) key' = Some q \<and> (V(p := None)) q = Some (key', b', g, F')" by auto
  qed (use v ne in \<open>auto split: if_splits\<close>)
qed

text \<open>A new connection on fresh descriptors.\<close>

lemma conns_ok_create:
  assumes ok: "conns_ok reg on_data S C V D" and fresh: "C key = None" "V p = None" "F \<inter> S = {}"
    and f: "0 \<le> f" "f \<in> F" and inj: "inj on_data" and x: "x = Some (on_data key) \<or> x = None \<and> \<not> reg"
  shows "conns_ok reg on_data (S \<union> F) (C(key \<mapsto> p)) (V(p \<mapsto> (key, True, f, F))) (D(f := x))"
proof -
  note v = conns_ok_view [OF ok]
  have closed: "D g = None" if "g \<in> F" for g
    using conns_ok_open [OF ok, of g] fresh(3) that by (cases "D g") auto
  have other: "F' \<inter> F = {}" "key' \<noteq> key" "f' \<noteq> f" if "V q = Some (key', b', f', F')" for q key' b' f' F'
    using v(1,3,4) [OF that] fresh(1,3) f(2) by auto
  show ?thesis
  proof (rule conns_okI)
    fix key' q assume "(C(key \<mapsto> p)) key' = Some q"
    with conns_ok_filed [OF ok, of key' q] fresh(2)
    show "\<exists>b' f' F'. (V(p \<mapsto> (key, True, f, F))) q = Some (key', b', f', F')" by (auto split: if_splits)
  next
    fix q key' b' f' F' assume "(V(p \<mapsto> (key, True, f, F))) q = Some (key', b', f', F')"
    with v(1-4) [of q key' b' f' F'] other(2) [of q key' b' f' F'] f
    show "(C(key \<mapsto> p)) key' = Some q \<and> 0 \<le> f' \<and> f' \<in> F' \<and> F' \<subseteq> S \<union> F" by (auto split: if_splits)
  next
    fix q key' b' f' F' g
    assume "(V(p \<mapsto> (key, True, f, F))) q = Some (key', b', f', F')" "g \<in> F'" "(D(f := x)) g \<noteq> None"
    then show "g = f'" using x closed f(2) v(5) by (auto split: if_splits dest: other(1))
  next
    fix q key' b' f' F' r key'' b'' f'' F''
    assume "(V(p \<mapsto> (key, True, f, F))) q = Some (key', b', f', F')"
      "(V(p \<mapsto> (key, True, f, F))) r = Some (key'', b'', f'', F'')" "q \<noteq> r"
    then show "F' \<inter> F'' = {}" using conns_ok_disjoint [OF ok, of q key' b' f' F' r] other(1) [of q] other(1) [of r]
      by (auto split: if_splits)
  next
    fix g assume "(D(f := x)) g \<noteq> None"
    then show "g \<in> S \<union> F" using f(2) x conns_ok_open [OF ok] by (auto split: if_splits)
  next
    fix g key' assume "(D(f := x)) g = Some (on_data key')"
    then consider "g = f" "key' = key" | "g \<noteq> f" "D g = Some (on_data key')"
      using injD [OF inj] x by (auto split: if_splits)
    then show "\<exists>q b' F'. (C(key \<mapsto> p)) key' = Some q \<and> (V(p \<mapsto> (key, True, f, F))) q = Some (key', b', g, F')"
    proof cases
      case 2
      with conns_ok_callback [OF ok 2(2)] fresh show ?thesis by fastforce
    qed auto
  qed (use v other x in \<open>auto split: if_splits\<close>)
qed

subsection \<open>The operations keep it\<close>

lemma loop_watches_remove: "loop_watches (loop_removeFd ops f l) = (loop_watches l)(f := None)"
  by (auto simp: loop_watches_def loop_removeFd_def om_lookup_erase split: option.splits)

lemma loop_watches_add:
  assumes "loop_watches l f = None" "0 \<le> f"
  obtains x where "loop_watches (loop_addFd ops f ev cb l) = (loop_watches l)(f := x)"
    "x = Some cb \<or> x = None \<and> (\<exists>b. \<not> fst (be_addFd ops f ev b))"
proof (cases "el_backend l")
  case None
  with assms have "loop_watches (loop_addFd ops f ev cb l) = (loop_watches l)(f \<mapsto> cb)"
    by (auto simp: loop_watches_def loop_addFd_def Let_def om_lookup_update)
  with that show thesis by blast
next
  case (Some b)
  obtain ok b' where ok: "be_addFd ops f ev b = (ok, b')" by force
  with Some assms have "loop_watches (loop_addFd ops f ev cb l) = (loop_watches l)(f := if ok then Some cb else None)"
    by (auto simp: loop_watches_def loop_addFd_def Let_def om_lookup_update om_lookup_erase)
  moreover have "\<not> ok \<Longrightarrow> \<exists>b. \<not> fst (be_addFd ops f ev b)" using ok by (metis fst_conv)
  ultimately show thesis using that by (cases ok) auto
qed

lemma cm_views_put: "cm_views e owned (cm_put p c w) = (cm_views e owned w)(p \<mapsto> cm_view (ce_net e) owned c)"
  by (auto simp: cm_views_def cm_put_def om_lookup_update)

lemma cm_put_simps [simp]:
  "cm_connections (cm_put p c w) = cm_connections w" "cm_kernel (cm_put p c w) = cm_kernel w"
  "cm_loop (cm_put p c w) = cm_loop w" "cm_dangling (cm_put p c w) = cm_dangling w"
  "om_lookup (cm_objects (cm_put p c w)) p = Some c" "cm_local_host_id (cm_put p c w) = cm_local_host_id w"
  by (simp_all add: cm_put_def)

lemma cm_views_cong: "cm_objects w' = cm_objects w \<Longrightarrow> cm_views e owned w' = cm_views e owned w"
  by (simp add: cm_views_def fun_eq_iff)

text \<open>The connection under the key is used again only if it is connected to the same endpoint.\<close>

definition reusable :: "string \<Rightarrow> string \<Rightarrow> u16 \<Rightarrow> string \<Rightarrow> string \<Rightarrow> ('shm, 'k, 'cb, 'fn, 'b, 'z) cm_state \<Rightarrow> nat \<Rightarrow> bool" where
  "reusable key host port host_id inst w p \<longleftrightarrow>
     om_lookup (cm_connections w) key = Some p \<and>
     (\<exists>c. om_lookup (cm_objects w) p = Some c \<and> sc_connected c \<and> sc_remote_host c = host \<and> sc_remote_port c = port \<and>
          sc_remote_host_id c = host_id \<and> sc_remote_instance_id c = inst)"

text \<open>What is asked of the callbacks: they keep what they find true.\<close>

definition callbacks_keep :: "('w \<Rightarrow> bool) \<Rightarrow> 'w CmCallbacks \<Rightarrow> bool" where
  "callbacks_keep P cbs \<longleftrightarrow>
     (\<forall>cb key m w m' w'. message_cb cbs = Some cb \<and> P w \<and> cb key m w = Some (m', w') \<longrightarrow> P w') \<and>
     (\<forall>cb key w w'. disconnect_cb cbs = Some cb \<and> P w \<and> cb key w = Some w' \<longrightarrow> P w')"

lemma callbacks_keepD:
  "callbacks_keep P cbs \<Longrightarrow> message_cb cbs = Some cb \<Longrightarrow> cb key m w = Some (m', w') \<Longrightarrow> P w \<Longrightarrow> P w'"
  "callbacks_keep P cbs \<Longrightarrow> disconnect_cb cbs = Some dcb \<Longrightarrow> dcb key w = Some w' \<Longrightarrow> P w \<Longrightarrow> P w'"
  unfolding callbacks_keep_def by blast+

lemma cm_release_other_map:
  "cm_release e p (w\<lparr>cm_connections := X\<rparr>) = (cm_release e p w)\<lparr>cm_connections := X\<rparr>"
  by (simp add: cm_release_def cm_unwatch_def cm_delete_def Let_def split: option.splits)

lemma fold_release_other_map:
  "fold (cm_release e) ps (w\<lparr>cm_connections := X\<rparr>) = (fold (cm_release e) ps w)\<lparr>cm_connections := X\<rparr>"
  by (induction ps arbitrary: w) (simp_all add: cm_release_other_map)

lemma cm_release_map [simp]: "cm_connections (cm_release e p w) = cm_connections w"
  by (simp add: cm_release_def cm_unwatch_def cm_delete_def Let_def split: option.splits)

lemma fold_erase_keys: "om_lookup (fold om_erase ks m) k = (if k \<in> set ks then None else om_lookup m k)"
  by (induction ks arbitrary: m) (auto simp: om_lookup_erase)

locale conn_env = descriptors "ce_net e" opened owned
  for e :: "('shm, 'k, 'cb, 'b) CmEnv" and opened :: "'k \<Rightarrow> int set" and owned :: "'shm \<Rightarrow> int set" +
  assumes malloc_law: "ce_malloc e ps \<notin> set ps"
    and on_data_inj: "inj (ce_on_data e)"
begin

text \<open>What the invariant says of an address in the map, and of any object.\<close>

lemma cm_ok_object:
  assumes "cm_ok e opened owned w" "om_lookup (cm_objects w) p = Some c"
  obtains t where "sc_transport c = Some t" "om_lookup (cm_connections w) (sc_connection_key c) = Some p"
    "0 \<le> transport_fd (ce_net e) t"
    "cm_views e owned w p = Some (sc_connection_key c, sc_connected c, transport_fd (ce_net e) t, fds_of owned t)"
proof -
  obtain f F where x: "cm_views e owned w p = Some (sc_connection_key c, sc_connected c, f, F)"
    "(f, F) = (case sc_transport c of None \<Rightarrow> (-1, {}) | Some t \<Rightarrow> (transport_fd (ce_net e) t, fds_of owned t))"
    using assms(2) by (cases "sc_transport c") (simp_all add: cm_views_def cm_view_def)
  have ok: "conns_ok (never_refuses e) (ce_on_data e) (opened (cm_kernel w)) (om_lookup (cm_connections w)) (cm_views e owned w)
      (loop_watches (cm_loop w))" using assms(1) by (simp add: cm_ok_def)
  from conns_ok_view(1,2) [OF ok x(1)] x that show thesis by (cases "sc_transport c") auto
qed

lemma cm_ok_key:
  assumes "cm_ok e opened owned w" "om_lookup (cm_connections w) key = Some p"
  obtains c where "om_lookup (cm_objects w) p = Some c" "sc_connection_key c = key"
proof -
  have "\<exists>b f F. cm_views e owned w p = Some (key, b, f, F)"
    using assms conns_ok_filed unfolding cm_ok_def by blast
  with that show thesis by (auto simp: cm_views_def cm_view_def)
qed

text \<open>A use of the transport of a connection, or a change of its buffer or session.\<close>

lemma cm_ok_touch:
  assumes ok: "cm_ok e opened owned w" and c: "om_lookup (cm_objects w) p = Some c" "sc_transport c = Some t"
    and c': "sc_transport c' = Some t'" "sc_connection_key c' = sc_connection_key c" "sc_connected c' = sc_connected c"
    and k: "fds_kept t (cm_kernel w) t' k"
  shows "cm_ok e opened owned (cm_put p c' (w\<lparr>cm_kernel := k\<rparr>))"
proof -
  have v: "cm_view (ce_net e) owned c' = cm_view (ce_net e) owned c"
    using c(2) c' k by (simp add: cm_view_def fds_kept_def)
  have "cm_views e owned (cm_put p c' (w\<lparr>cm_kernel := k\<rparr>)) = cm_views e owned w"
    using c(1) by (auto simp: cm_views_put v fun_eq_iff) (simp_all add: cm_views_def)
  with ok k show ?thesis by (simp add: cm_ok_def fds_kept_def)
qed

lemma cm_ok_fail:
  assumes ok: "cm_ok e opened owned w" and c: "om_lookup (cm_objects w) p = Some c"
  shows "cm_ok e opened owned (cm_unwatch e c (cm_put p (c\<lparr>sc_connected := False\<rparr>) w))"
proof -
  obtain t where t: "sc_transport c = Some t" "0 \<le> transport_fd (ce_net e) t"
    "cm_views e owned w p = Some (sc_connection_key c, sc_connected c, transport_fd (ce_net e) t, fds_of owned t)"
    using cm_ok_object [OF assms] by metis
  have "cm_view (ce_net e) owned (c\<lparr>sc_connected := False\<rparr>) =
      (sc_connection_key c, False, transport_fd (ce_net e) t, fds_of owned t)" using t by (simp add: cm_view_def)
  moreover have "conns_ok (never_refuses e) (ce_on_data e) (opened (cm_kernel w)) (om_lookup (cm_connections w)) (cm_views e owned w)
      (loop_watches (cm_loop w))" using ok by (simp add: cm_ok_def)
  note conns_ok_fail [OF this t(3)]
  ultimately show ?thesis using ok t
    by (simp add: cm_ok_def cm_unwatch_def loop_watches_remove cm_views_put cm_views_cong [of "_\<lparr>cm_loop := _\<rparr>"])
qed

lemma cm_ok_release:
  assumes ok: "cm_ok e opened owned w" and p: "om_lookup (cm_connections w) key = Some p"
  shows "cm_ok e opened owned ((cm_release e p w)\<lparr>cm_connections := om_erase key (cm_connections w)\<rparr>)"
proof -
  obtain c where c: "om_lookup (cm_objects w) p = Some c" "sc_connection_key c = key" using cm_ok_key [OF assms] .
  obtain t where t: "sc_transport c = Some t" "0 \<le> transport_fd (ce_net e) t"
    "cm_views e owned w p = Some (key, sc_connected c, transport_fd (ce_net e) t, fds_of owned t)"
    using cm_ok_object [OF ok c(1)] c(2) by metis
  let ?w = "(cm_release e p w)\<lparr>cm_connections := om_erase key (cm_connections w)\<rparr>"
  have w: "?w = w\<lparr>cm_loop := loop_removeFd (ce_backend e) (transport_fd (ce_net e) t) (cm_loop w),
      cm_connections := om_erase key (cm_connections w), cm_objects := om_erase p (cm_objects w),
      cm_kernel := transport_close (ce_net e) t (cm_kernel w)\<rparr>"
    using c t by (simp add: cm_release_def cm_unwatch_def cm_delete_def)
  have "cm_views e owned ?w = (cm_views e owned w)(p := None)"
    unfolding w by (auto simp: cm_views_def om_lookup_erase)
  moreover have "om_lookup (om_erase key (cm_connections w)) = (om_lookup (cm_connections w))(key := None)"
    by (auto simp: om_lookup_erase)
  moreover have "conns_ok (never_refuses e) (ce_on_data e) (opened (cm_kernel w)) (om_lookup (cm_connections w)) (cm_views e owned w)
      (loop_watches (cm_loop w))" using ok by (simp add: cm_ok_def)
  note conns_ok_release [OF this t(3)]
  ultimately show ?thesis
    using ok unfolding cm_ok_def by (simp add: w loop_watches_remove close_opened)
qed

text \<open>A new connection is to the endpoint asked for; a failed attempt leaves everything as it was.\<close>

lemma create_connection_result:
  assumes ok: "cm_ok e opened owned w" and key: "om_lookup (cm_connections w) key = None"
    and r: "create_connection e key name host port host_id shm inst w = (r, w')"
  shows "cm_ok e opened owned w' \<and>
    (case r of
       None \<Rightarrow> cm_connections w' = cm_connections w \<and> cm_objects w' = cm_objects w \<and> cm_loop w' = cm_loop w
     | Some p \<Rightarrow> om_lookup (cm_objects w) p = None \<and> cm_connections w' = om_update key p (cm_connections w) \<and>
         (\<exists>c. cm_objects w' = om_update p c (cm_objects w) \<and> sc_connected c \<and> \<not> sc_session_ready c \<and>
              same_endpoint host port host_id inst c \<and>
              (\<forall>s. sc_transport c = Some (Shm s) \<longrightarrow> chooseTransportPolicy (cm_local_host_id w) host_id = PREFER_SHM)))"
proof -
  let ?p = "ce_malloc e (om_keys (cm_objects w))"
  have fresh: "om_lookup (cm_objects w) ?p = None"
    using malloc_law [of "om_keys (cm_objects w)"] in_om_keys_iff by (cases "om_lookup (cm_objects w) ?p") auto
  have cok: "conns_ok (never_refuses e) (ce_on_data e) (opened (cm_kernel w)) (om_lookup (cm_connections w)) (cm_views e owned w)
      (loop_watches (cm_loop w))" and nd: "\<not> cm_dangling w" using ok by (simp_all add: cm_ok_def)
  obtain tr k where cr: "createClientConnection (ce_net e) name host port (cm_local_host_id w) host_id shm inst (cm_kernel w) = (tr, k)"
    by force
  have mk: "made (cm_kernel w) tr k" by (rule createClientConnection_made [OF cr])
  let ?c = "ServiceConnection_init\<lparr>sc_connection_key := key, sc_remote_host := host, sc_remote_port := port,
      sc_remote_host_id := host_id, sc_remote_instance_id := inst, sc_transport := tr\<rparr>"
  consider (fail) "tr = None \<or> (\<exists>t. tr = Some t \<and> transport_fd (ce_net e) t < 0)"
    | (good) t where "tr = Some t" "0 \<le> transport_fd (ce_net e) t" by (cases tr) force+
  then show ?thesis
  proof cases
    case fail
    let ?k = "case tr of None \<Rightarrow> k | Some t \<Rightarrow> transport_close (ce_net e) t k"
    have w': "r = None" "w' = w\<lparr>cm_kernel := ?k\<rparr>"
      using r fail cr fresh om_erase_absent [OF fresh]
      by (auto simp: create_connection_def Let_def cm_delete_def cm_put_def)
    have "opened ?k = opened (cm_kernel w)"
      using mk by (auto simp: made_def close_opened split: option.splits)
    with ok w' show ?thesis by (simp add: cm_ok_def cm_views_cong [of "w\<lparr>cm_kernel := ?k\<rparr>" w])
  next
    case good
    let ?f = "transport_fd (ce_net e) t" and ?F = "fds_of owned t"
    have F: "?F \<inter> opened (cm_kernel w) = {}" "opened k = opened (cm_kernel w) \<union> ?F" "?f \<in> ?F"
      using mk good by (auto simp: made_def)
    have w': "r = Some ?p" "w' = w\<lparr>cm_kernel := k, cm_objects := om_update ?p (?c\<lparr>sc_connected := True\<rparr>) (cm_objects w),
        cm_connections := om_update key ?p (cm_connections w),
        cm_loop := loop_addFd (ce_backend e) ?f EVENT_READ (ce_on_data e key) (cm_loop w)\<rparr>"
      using r good cr by (auto simp: create_connection_def Let_def cm_put_def)
    have vp: "cm_views e owned w ?p = None" using fresh by (simp add: cm_views_def)
    have view: "cm_view (ce_net e) owned (?c\<lparr>sc_connected := True\<rparr>) = (key, True, ?f, ?F)"
      using good by (simp add: cm_view_def)
    have "loop_watches (cm_loop w) ?f = None" using conns_ok_open [OF cok, of ?f] F by (cases "loop_watches (cm_loop w) ?f") auto
    from loop_watches_add [OF this good(2)] obtain x where
      D: "loop_watches (cm_loop w') = (loop_watches (cm_loop w))(?f := x)"
      and x: "x = Some (ce_on_data e key) \<or> x = None \<and> \<not> never_refuses e"
      using w' unfolding never_refuses_def by (metis (no_types, lifting) ConnectionManager.ConnectionManager.select_convs(1)
        ConnectionManager.ConnectionManager.surjective ConnectionManager.ConnectionManager.update_convs(1))
    have V: "cm_views e owned w' = (cm_views e owned w)(?p \<mapsto> (key, True, ?f, ?F))"
      using w' view by (auto simp: cm_views_def om_lookup_update)
    have C: "om_lookup (cm_connections w') = (om_lookup (cm_connections w))(key \<mapsto> ?p)"
      using w' by (auto simp: om_lookup_update)
    have k: "cm_kernel w' = k" "\<not> cm_dangling w'" using w'(2) nd by simp_all
    have "cm_ok e opened owned w'"
      using conns_ok_create [OF cok key vp F(1) good(2) F(3) on_data_inj x] unfolding cm_ok_def D V C k(1) F(2)
      using k(2) by blast
    moreover have "chooseTransportPolicy (cm_local_host_id w) host_id = PREFER_SHM" if "t = Shm s" for s
      by (rule createClientConnection_shm [OF cr [unfolded good(1) that]])
    ultimately show ?thesis using w' fresh good(1) by (auto simp: same_endpoint_def ServiceConnection_init_def)
  qed
qed

lemma getOrCreate_result:
  assumes ok: "cm_ok e opened owned w"
    and r: "getOrCreateConnectionByKey e key name host port host_id shm inst w = (r, w')"
  shows "cm_ok e opened owned w'"
    "\<And>p. reusable key host port host_id inst w p \<Longrightarrow> r = Some p \<and> w' = w"
    "\<And>p. r = Some p \<Longrightarrow> reusable key host port host_id inst w' p"
    "\<And>p. r = Some p \<Longrightarrow> \<not> reusable key host port host_id inst w p \<Longrightarrow>
       \<exists>c. om_lookup (cm_objects w') p = Some c \<and> \<not> sc_session_ready c \<and>
           (\<forall>s. sc_transport c = Some (Shm s) \<longrightarrow> chooseTransportPolicy (cm_local_host_id w) host_id = PREFER_SHM)"
    "r = None \<Longrightarrow> om_lookup (cm_connections w') key = None"
    "\<And>key'. key' \<noteq> key \<Longrightarrow> om_lookup (cm_connections w') key' = om_lookup (cm_connections w) key'"
proof -
  let ?new = "\<lambda>p. \<exists>c. om_lookup (cm_objects w') p = Some c \<and> \<not> sc_session_ready c \<and>
      (\<forall>s. sc_transport c = Some (Shm s) \<longrightarrow> chooseTransportPolicy (cm_local_host_id w) host_id = PREFER_SHM)"
  have created: "cm_ok e opened owned w' \<and> (\<forall>p. r = Some p \<longrightarrow> reusable key host port host_id inst w' p \<and> ?new p) \<and>
      (r = None \<longrightarrow> om_lookup (cm_connections w') key = None) \<and>
      (\<forall>key'. key' \<noteq> key \<longrightarrow> om_lookup (cm_connections w') key' = om_lookup (cm_connections w1) key')"
    if "cm_ok e opened owned w1" "om_lookup (cm_connections w1) key = None"
      "create_connection e key name host port host_id shm inst w1 = (r, w')" "cm_local_host_id w1 = cm_local_host_id w" for w1
    using create_connection_result [OF that(1-3)] that(2,4)
    by (auto simp: reusable_def same_endpoint_def om_lookup_update split: option.splits)
  have all: "cm_ok e opened owned w' \<and> (\<forall>p. reusable key host port host_id inst w p \<longrightarrow> r = Some p \<and> w' = w) \<and>
      (\<forall>p. r = Some p \<longrightarrow> reusable key host port host_id inst w' p \<and> (reusable key host port host_id inst w p \<or> ?new p)) \<and>
      (r = None \<longrightarrow> om_lookup (cm_connections w') key = None) \<and>
      (\<forall>key'. key' \<noteq> key \<longrightarrow> om_lookup (cm_connections w') key' = om_lookup (cm_connections w) key')"
  proof (cases "om_lookup (cm_connections w) key")
    case None
    with created [OF ok None] r show ?thesis by (auto simp: getOrCreateConnectionByKey_def reusable_def same_endpoint_def)
  next
    case (Some p)
    obtain c where c: "om_lookup (cm_objects w) p = Some c" using cm_ok_key [OF ok Some] by metis
    show ?thesis
    proof (cases "sc_connected c \<and> same_endpoint host port host_id inst c")
      case True
      with Some c r ok show ?thesis by (auto simp: getOrCreateConnectionByKey_def reusable_def same_endpoint_def)
    next
      case False
      let ?w1 = "(cm_release e p w)\<lparr>cm_connections := om_erase key (cm_connections w)\<rparr>"
      have "create_connection e key name host port host_id shm inst ?w1 = (r, w')"
        using False Some c r by (auto simp: getOrCreateConnectionByKey_def Let_def)
      moreover have "cm_local_host_id ?w1 = cm_local_host_id w"
        by (simp add: cm_release_def cm_unwatch_def cm_delete_def Let_def split: option.splits)
      ultimately have "cm_ok e opened owned w' \<and> (\<forall>p. r = Some p \<longrightarrow> reusable key host port host_id inst w' p \<and> ?new p) \<and>
          (r = None \<longrightarrow> om_lookup (cm_connections w') key = None) \<and>
          (\<forall>key'. key' \<noteq> key \<longrightarrow> om_lookup (cm_connections w') key' = om_lookup (cm_connections ?w1) key')"
        by (intro created [OF cm_ok_release [OF ok Some]]) simp_all
      moreover have "\<not> reusable key host port host_id inst w q" for q using False Some c by (auto simp: reusable_def same_endpoint_def)
      ultimately show ?thesis by (simp add: om_lookup_erase)
    qed
  qed
  then show "cm_ok e opened owned w'"
    "\<And>p. reusable key host port host_id inst w p \<Longrightarrow> r = Some p \<and> w' = w"
    "\<And>p. r = Some p \<Longrightarrow> reusable key host port host_id inst w' p"
    "\<And>p. r = Some p \<Longrightarrow> \<not> reusable key host port host_id inst w p \<Longrightarrow> ?new p"
    "r = None \<Longrightarrow> om_lookup (cm_connections w') key = None"
    "\<And>key'. key' \<noteq> key \<Longrightarrow> om_lookup (cm_connections w') key' = om_lookup (cm_connections w) key'" by blast+
qed

lemma removeConnection_result:
  assumes "cm_ok e opened owned w"
  shows "cm_ok e opened owned (removeConnection e key w)"
    "cm_connections (removeConnection e key w) = om_erase key (cm_connections w)"
  using assms cm_ok_release [OF assms] by (auto simp: removeConnection_def Let_def om_erase_absent split: option.splits)

lemma release_all:
  "cm_ok e opened owned w \<Longrightarrow> distinct (map fst ps) \<Longrightarrow> (\<forall>(key, p) \<in> set ps. om_lookup (cm_connections w) key = Some p) \<Longrightarrow>
   cm_ok e opened owned ((fold (cm_release e) (map snd ps) w)\<lparr>cm_connections := fold om_erase (map fst ps) (cm_connections w)\<rparr>)"
proof (induction ps arbitrary: w)
  case (Cons x ps)
  obtain key p where x: "x = (key, p)" by force
  let ?w = "(cm_release e p w)\<lparr>cm_connections := om_erase key (cm_connections w)\<rparr>"
  have "cm_ok e opened owned ?w" using Cons.prems x by (intro cm_ok_release) auto
  from Cons.IH [OF this] Cons.prems x show ?case
    by (force simp: om_lookup_erase fold_release_other_map)
qed simp

lemma closeAll_result:
  assumes ok: "cm_ok e opened owned w"
  shows "cm_ok e opened owned (closeAll e w)" "cm_connections (closeAll e w) = om_empty" "cm_objects (closeAll e w) = om_empty"
proof -
  let ?ps = "om_list (cm_connections w)"
  have "fold om_erase (map fst ?ps) (cm_connections w) = om_empty"
  proof (rule om_ext)
    fix key
    show "om_lookup (fold om_erase (map fst ?ps) (cm_connections w)) key = om_lookup om_empty key"
      using in_om_keys_iff [of key "cm_connections w"] by (auto simp: fold_erase_keys om_keys_def)
  qed
  moreover have "\<forall>(key, p) \<in> set ?ps. om_lookup (cm_connections w) key = Some p" by (auto simp: in_om_list_iff)
  ultimately show 1: "cm_ok e opened owned (closeAll e w)"
    using release_all [OF ok, of ?ps] by (simp add: closeAll_def om_values_def)
  show 2: "cm_connections (closeAll e w) = om_empty" by (simp add: closeAll_def)
  show "cm_objects (closeAll e w) = om_empty"
  proof (rule om_ext)
    fix p
    show "om_lookup (cm_objects (closeAll e w)) p = om_lookup om_empty p"
    proof (cases "om_lookup (cm_objects (closeAll e w)) p")
      case (Some c)
      show ?thesis by (rule cm_ok_object [OF 1 Some]) (simp add: 2)
    qed simp
  qed
qed

lemma getConnection_result:
  assumes "cm_ok e opened owned w" "getConnection key w = (r, w')"
  shows "w' = w" "\<And>p. r = Some p \<Longrightarrow> om_lookup (cm_connections w) key = Some p \<and> om_lookup (cm_objects w) p \<noteq> None"
proof -
  have "\<exists>c. om_lookup (cm_objects w) p = Some c" if "om_lookup (cm_connections w) key = Some p" for p
    using cm_ok_key [OF assms(1) that] by blast
  with assms(2) show "w' = w"
    "\<And>p. r = Some p \<Longrightarrow> om_lookup (cm_connections w) key = Some p \<and> om_lookup (cm_objects w) p \<noteq> None"
    by (auto simp: getConnection_def split: option.splits if_splits)
qed

lemma failConnection_ok:
  assumes ok: "cm_ok e opened owned w" and cbs: "callbacks_keep (cm_ok e opened owned) cbs"
    and p: "om_lookup (cm_objects w) p = Some c" and r: "failConnection e cbs p w = Some (live, w')"
  shows "cm_ok e opened owned w'" "live \<longleftrightarrow> om_lookup (cm_connections w') (sc_connection_key c) = Some p"
proof -
  let ?w = "cm_unwatch e c (cm_put p (c\<lparr>sc_connected := False\<rparr>) w)"
  have "cm_ok e opened owned ?w" by (rule cm_ok_fail [OF ok p])
  moreover have "(case disconnect_cb cbs of None \<Rightarrow> Some ?w | Some cb \<Rightarrow> cb (sc_connection_key c) ?w) = Some w'"
    and l: "live = (om_lookup (cm_connections w') (sc_connection_key c) = Some p)"
    using r p by (auto simp: failConnection_def Let_def bind_eq_Some_conv)
  ultimately show "cm_ok e opened owned w'"
    using callbacks_keepD(2) [OF cbs] by (cases "disconnect_cb cbs") simp_all
  show "live \<longleftrightarrow> om_lookup (cm_connections w') (sc_connection_key c) = Some p" using l by simp
qed

lemma after_send_ok:
  assumes "cm_ok e opened owned w" "callbacks_keep (cm_ok e opened owned) cbs" "om_lookup (cm_objects w) p = Some c"
    "after_send e cbs p t ret w = Some (ok, w')"
  shows "cm_ok e opened owned w'"
  using assms(1,4) failConnection_ok(1) [OF assms(1-3)] by (auto simp: after_send_def split: if_splits)

lemma usable_result:
  assumes "cm_ok e opened owned w" "\<forall>p. conn = Some p \<longrightarrow> om_lookup (cm_objects w) p \<noteq> None" "usable conn w = (r, w')"
  shows "w' = w" "\<And>p c t. r = Some (p, c, t) \<Longrightarrow> om_lookup (cm_objects w) p = Some c \<and> sc_transport c = Some t"
  using assms(2,3) by (auto simp: usable_def split: option.splits if_splits)

lemma touch_send:
  assumes "cm_ok e opened owned w" "om_lookup (cm_objects w) p = Some c" "sc_transport c = Some t"
    "fds_kept t (cm_kernel w) t' k"
  shows "cm_ok e opened owned (cm_put p (c\<lparr>sc_transport := Some t'\<rparr>) (w\<lparr>cm_kernel := k\<rparr>))"
  by (rule cm_ok_touch [OF assms(1-3) _ _ _ assms(4)]) simp_all

lemma sendRawWithDeadline_ok:
  assumes ok: "cm_ok e opened owned w" and cbs: "callbacks_keep (cm_ok e opened owned) cbs"
    and p: "\<forall>p. conn = Some p \<longrightarrow> om_lookup (cm_objects w) p \<noteq> None"
    and r: "sendRawWithDeadline e cbs conn data deadline_ms w = Some (res, w')"
  shows "cm_ok e opened owned w'"
proof -
  obtain u w0 where u0: "usable conn w = (u, w0)" by force
  note live = usable_result(2) [OF ok p u0]
  have u: "usable conn w = (u, w)" using u0 usable_result(1) [OF ok p u0] by simp
  obtain now k where n: "k_currentTimeMs (net_sockets (ce_net e)) (cm_kernel w) = (now, k)" by force
  have okn: "cm_ok e opened owned (w\<lparr>cm_kernel := k\<rparr>)"
    using ok time_law [OF n] by (simp add: cm_ok_def cm_views_cong [of "w\<lparr>cm_kernel := k\<rparr>" w])
  have snd: "cm_ok e opened owned w'"
    if "cm_ok e opened owned w1" "cm_objects w1 = cm_objects w" "u = Some (q, c, t)"
      "transport_sendAll (ce_net e) data ms t (cm_kernel w1) = Some (ret, t', k')"
      "after_send e cbs q t' ret (cm_put q (c\<lparr>sc_transport := Some t'\<rparr>) (w1\<lparr>cm_kernel := k'\<rparr>)) = Some (res, w')"
    for w1 q c t ms ret t' k'
    using after_send_ok [OF touch_send [OF that(1) _ _ sendAll_kept [OF that(4)]] cbs _ that(5)] live [OF that(3)] that(2)
    by simp
  show ?thesis
  proof (cases u)
    case None
    with r u ok show ?thesis by (auto simp: sendRawWithDeadline_def)
  next
    case (Some x)
    obtain q c t where x: "x = (q, c, t)" by (metis surj_pair)
    from r u Some x n snd [OF ok] snd [OF okn] okn show ?thesis
      by (auto simp: sendRawWithDeadline_def bind_eq_Some_conv simp del: of_int_diff split: if_splits)
  qed
qed

lemma sendRawWithinTimeout_ok:
  assumes ok: "cm_ok e opened owned w" and cbs: "callbacks_keep (cm_ok e opened owned) cbs"
    and p: "\<forall>p. conn = Some p \<longrightarrow> om_lookup (cm_objects w) p \<noteq> None"
    and r: "sendRawWithinTimeout e cbs conn data timeout_ms w = Some (res, elapsed, w')"
  shows "cm_ok e opened owned w'"
proof -
  obtain u w0 where u0: "usable conn w = (u, w0)" by force
  note live = usable_result(2) [OF ok p u0]
  have u: "usable conn w = (u, w)" using u0 usable_result(1) [OF ok p u0] by simp
  show ?thesis
  proof (cases u)
    case None
    with r u ok show ?thesis by (auto simp: sendRawWithinTimeout_def)
  next
    case (Some x)
    obtain q c t where x: "x = (q, c, t)" by (metis surj_pair)
    from r u Some x obtain ret t' k' where s:
      "transport_sendAll_elapsed (ce_net e) data timeout_ms t (cm_kernel w) = Some (ret, elapsed, t', k')"
      "after_send e cbs q t' ret (cm_put q (c\<lparr>sc_transport := Some t'\<rparr>) (w\<lparr>cm_kernel := k'\<rparr>)) = Some (res, w')"
      by (auto simp: sendRawWithinTimeout_def bind_eq_Some_conv)
    show ?thesis
      using after_send_ok [OF touch_send [OF ok _ _ sendAll_elapsed_kept [OF s(1)]] cbs _ s(2)] live Some x by simp
  qed
qed

lemma cm_sendMessage_ok:
  assumes ok: "cm_ok e opened owned w" and cbs: "callbacks_keep (cm_ok e opened owned) cbs"
    and r: "cm_sendMessage e cbs key msg w = Some (res, msg', w')"
  shows "cm_ok e opened owned w'"
proof -
  obtain g w0 where g0: "getConnection key w = (g, w0)" by force
  note live = getConnection_result(2) [OF ok g0]
  have g: "getConnection key w = (g, w)" using g0 getConnection_result(1) [OF ok g0] by simp
  show ?thesis
    using r g ok live sendRawWithDeadline_ok [OF ok cbs, of g]
    by (auto simp: cm_sendMessage_def cm_sendRaw_def bind_eq_Some_conv split: option.splits prod.splits bool.splits)
qed

lemma sendMessageWithinTimeout_ok:
  assumes ok: "cm_ok e opened owned w" and cbs: "callbacks_keep (cm_ok e opened owned) cbs"
    and r: "sendMessageWithinTimeout e cbs key msg timeout_ms w = Some (res, elapsed, msg', w')"
  shows "cm_ok e opened owned w'"
proof -
  obtain g w0 where g0: "getConnection key w = (g, w0)" by force
  note live = getConnection_result(2) [OF ok g0]
  have g: "getConnection key w = (g, w)" using g0 getConnection_result(1) [OF ok g0] by simp
  show ?thesis
    using r g ok live sendRawWithinTimeout_ok [OF ok cbs, of g]
    by (auto simp: sendMessageWithinTimeout_def bind_eq_Some_conv split: option.splits prod.splits bool.splits)
qed

lemma data_loop_ok:
  assumes "data_loop e cbs key p msg w = Some w'" "callbacks_keep (cm_ok e opened owned) cbs"
    "cm_ok e opened owned w" "om_lookup (cm_connections w) key = Some p"
  shows "cm_ok e opened owned w'"
  using assms
proof (induction e' \<equiv> e cbs key p msg w w' rule: data_loop.raw_induct [rotated, consumes 1, case_names 1])
  case (1 rec cbs key p msg w w')
  note IH = "1.hyps"(1) and cbs = "1.prems"(1) and ok = "1.prems"(2) and filed = "1.prems"(3)
  obtain c where c: "om_lookup (cm_objects w) p = Some c" "sc_connection_key c = key" using cm_ok_key [OF ok filed] .
  obtain t where t: "sc_transport c = Some t" using cm_ok_object [OF ok c(1)] .
  obtain ret b m t' k where rd: "transport_read (ce_net e) (ce_alloc e) (sc_recv_buffer c) msg t (cm_kernel w) = (ret, b, m, t', k)"
    by (metis surj_pair)
  let ?c = "c\<lparr>sc_recv_buffer := b, sc_transport := Some t'\<rparr>"
  let ?w = "cm_put p ?c (w\<lparr>cm_kernel := k\<rparr>)"
  have ok1: "cm_ok e opened owned ?w" by (rule cm_ok_touch [OF ok c(1) t _ _ _ read_kept [OF rd]]) simp_all
  have body: "(if ret = 0 then Some ?w else if ret < 0 then map_option snd (failConnection e cbs p ?w)
      else case message_cb cbs of None \<Rightarrow> rec e cbs key p m ?w
        | Some cb \<Rightarrow> cb (sc_connection_key c) m ?w \<bind> (\<lambda>(msg, w).
            if om_lookup (cm_connections w) key = Some p then rec e cbs key p msg w else Some w)) = Some w'"
    using "1.hyps"(2) c t rd by (simp add: Let_def split del: if_split)
  consider "ret = 0" "w' = ?w" | live where "ret < 0" "failConnection e cbs p ?w = Some (live, w')"
    | "0 < ret" "message_cb cbs = None" "rec e cbs key p m ?w = Some w'"
    | cb m2 w2 where "message_cb cbs = Some cb" "cb (sc_connection_key c) m ?w = Some (m2, w2)"
        "w' = w2 \<or> om_lookup (cm_connections w2) key = Some p \<and> rec e cbs key p m2 w2 = Some w'"
    using body by (cases "message_cb cbs") (auto simp: bind_eq_Some_conv split: if_splits)
  then show ?case
  proof cases
    case 2
    from failConnection_ok(1) [OF ok1 cbs _ 2(2)] show ?thesis by simp
  next
    case 3
    from IH [OF 3(3) cbs ok1] filed show ?thesis by simp
  next
    case 4
    have "cm_ok e opened owned w2" by (rule callbacks_keepD(1) [OF cbs 4(1,2) ok1])
    with 4(3) IH cbs show ?thesis by blast
  qed (use ok1 in simp)
qed

lemma onConnectionData_ok:
  assumes "cm_ok e opened owned w" "callbacks_keep (cm_ok e opened owned) cbs"
    "onConnectionData e cbs key w = Some w'"
  shows "cm_ok e opened owned w'"
proof (cases "om_lookup (cm_connections w) key")
  case None
  with assms show ?thesis by (simp add: onConnectionData_def)
next
  case (Some p)
  obtain c where c: "om_lookup (cm_objects w) p = Some c" using cm_ok_key [OF assms(1) Some] by blast
  obtain t where "sc_transport c = Some t" using cm_ok_object [OF assms(1) c] by blast
  with assms Some c data_loop_ok [OF _ assms(2,1) Some] show ?thesis by (simp add: onConnectionData_def)
qed

end

subsection \<open>Histories\<close>

text \<open>A new manager, beside descriptors that other parts of the process watch.\<close>

definition fresh_manager ::
    "('shm, 'k, 'cb, 'b) CmEnv \<Rightarrow> ('k \<Rightarrow> int set) \<Rightarrow> ('shm, 'k, 'cb, 'fn, 'b, 'z) cm_state \<Rightarrow> bool" where
  "fresh_manager e opened w \<longleftrightarrow>
     cm_connections w = om_empty \<and> cm_objects w = om_empty \<and> \<not> cm_dangling w \<and>
     (\<forall>f cb. loop_watches (cm_loop w) f = Some cb \<longrightarrow> f \<in> opened (cm_kernel w) \<and> cb \<notin> range (ce_on_data e))"

text \<open>
  What other parts of the process may do in between: anything to their own state, to the system, and
  to descriptors that no connection holds.
\<close>

definition elsewhere ::
    "('shm, 'k, 'cb, 'b) CmEnv \<Rightarrow> ('k \<Rightarrow> int set) \<Rightarrow> ('shm \<Rightarrow> int set) \<Rightarrow> ('shm, 'k, 'cb, 'fn, 'b, 'z) cm_state
     \<Rightarrow> ('shm, 'k, 'cb, 'fn, 'b, 'z) cm_state \<Rightarrow> bool" where
  "elsewhere e opened owned w w' \<longleftrightarrow>
     cm_connections w' = cm_connections w \<and> cm_objects w' = cm_objects w \<and> cm_dangling w' = cm_dangling w \<and>
     (\<forall>p c t f. om_lookup (cm_objects w) p = Some c \<and> sc_transport c = Some t \<and> f \<in> fds_of owned t \<longrightarrow>
        f \<in> opened (cm_kernel w') \<and> loop_watches (cm_loop w') f = loop_watches (cm_loop w) f) \<and>
     (\<forall>f cb. loop_watches (cm_loop w') f = Some cb \<longrightarrow>
        f \<in> opened (cm_kernel w') \<and> (loop_watches (cm_loop w) f = Some cb \<or> cb \<notin> range (ce_on_data e)))"

text \<open>
  The public operations, the event of readable data, and the steps of others. A pointer is passed to
  \<open>sendRaw\<close> and its variants while it is null or points to an object, as \<open>getConnection\<close> returns it;
  the caller may change the session of a connection it got.
\<close>

inductive cm_reach ::
    "('shm, 'k, 'cb, 'b) CmEnv \<Rightarrow> ('k \<Rightarrow> int set) \<Rightarrow> ('shm \<Rightarrow> int set)
     \<Rightarrow> ('shm, 'k, 'cb, 'fn, 'b, 'z) cm_state CmCallbacks \<Rightarrow> ('shm, 'k, 'cb, 'fn, 'b, 'z) cm_state \<Rightarrow> bool"
  for e opened owned cbs where
  reach_new: "fresh_manager e opened w \<Longrightarrow> cm_reach e opened owned cbs w"
| reach_elsewhere: "cm_reach e opened owned cbs w \<Longrightarrow> elsewhere e opened owned w w' \<Longrightarrow> cm_reach e opened owned cbs w'"
| reach_getOrCreate: "cm_reach e opened owned cbs w \<Longrightarrow>
    getOrCreateConnectionByKey e key name host port host_id shm inst w = (r, w') \<Longrightarrow> cm_reach e opened owned cbs w'"
| reach_getConnection: "cm_reach e opened owned cbs w \<Longrightarrow> getConnection key w = (r, w') \<Longrightarrow> cm_reach e opened owned cbs w'"
| reach_session: "cm_reach e opened owned cbs w \<Longrightarrow> om_lookup (cm_objects w) p = Some c \<Longrightarrow>
    cm_reach e opened owned cbs (cm_put p (c\<lparr>sc_session_ready := sr, sc_session_ack_received := sa, sc_session_status := st,
      sc_session_interval_ms := si, sc_session_timeout_ms := to, sc_peer_incarnation := pi\<rparr>) w)"
| reach_remove: "cm_reach e opened owned cbs w \<Longrightarrow> cm_reach e opened owned cbs (removeConnection e key w)"
| reach_sendMessage: "cm_reach e opened owned cbs w \<Longrightarrow> cm_sendMessage e cbs key msg w = Some (ok, msg', w') \<Longrightarrow>
    cm_reach e opened owned cbs w'"
| reach_sendMessageWithinTimeout: "cm_reach e opened owned cbs w \<Longrightarrow>
    sendMessageWithinTimeout e cbs key msg ms w = Some (ok, elapsed, msg', w') \<Longrightarrow> cm_reach e opened owned cbs w'"
| reach_sendRawWithDeadline: "cm_reach e opened owned cbs w \<Longrightarrow> \<forall>p. conn = Some p \<longrightarrow> om_lookup (cm_objects w) p \<noteq> None \<Longrightarrow>
    sendRawWithDeadline e cbs conn data deadline w = Some (ok, w') \<Longrightarrow> cm_reach e opened owned cbs w'"
| reach_sendRawWithinTimeout: "cm_reach e opened owned cbs w \<Longrightarrow> \<forall>p. conn = Some p \<longrightarrow> om_lookup (cm_objects w) p \<noteq> None \<Longrightarrow>
    sendRawWithinTimeout e cbs conn data ms w = Some (ok, elapsed, w') \<Longrightarrow> cm_reach e opened owned cbs w'"
| reach_data: "cm_reach e opened owned cbs w \<Longrightarrow> onConnectionData e cbs key w = Some w' \<Longrightarrow> cm_reach e opened owned cbs w'"
| reach_closeAll: "cm_reach e opened owned cbs w \<Longrightarrow> cm_reach e opened owned cbs (closeAll e w)"

lemma fresh_manager_ok: "fresh_manager e opened w \<Longrightarrow> cm_ok e opened owned w"
  unfolding cm_ok_def
proof (intro conjI)
  assume f: "fresh_manager e opened w"
  have "cm_views e owned w = Map.empty" using f by (auto simp: fresh_manager_def cm_views_def)
  with f show "conns_ok (never_refuses e) (ce_on_data e) (opened (cm_kernel w)) (om_lookup (cm_connections w)) (cm_views e owned w)
      (loop_watches (cm_loop w))"
    by (intro conns_okI) (auto simp: fresh_manager_def)
qed (simp add: fresh_manager_def)

lemma elsewhere_ok:
  assumes ok: "cm_ok e opened owned w" and el: "elsewhere e opened owned w w'"
  shows "cm_ok e opened owned w'"
proof -
  let ?S = "opened (cm_kernel w)" and ?S' = "opened (cm_kernel w')"
  let ?D = "loop_watches (cm_loop w)" and ?D' = "loop_watches (cm_loop w')"
  let ?V = "cm_views e owned w" and ?C = "om_lookup (cm_connections w)"
  have c: "conns_ok (never_refuses e) (ce_on_data e) ?S ?C ?V ?D" and d: "\<not> cm_dangling w" using ok by (simp_all add: cm_ok_def)
  note v = conns_ok_view [OF c]
  have same: "om_lookup (cm_connections w') = ?C" "cm_views e owned w' = ?V" "\<not> cm_dangling w'"
    using el d cm_views_cong [of w' w] by (auto simp: elsewhere_def)
  have own: "f \<in> ?S' \<and> ?D' f = ?D f" if "?V p = Some (key, b, g, F)" "f \<in> F" for p key b g F f
    using el that by (auto simp: elsewhere_def cm_views_def cm_view_def split: option.splits)
  have D': "f \<in> ?S' \<and> (?D f = Some cb \<or> cb \<notin> range (ce_on_data e))" if "?D' f = Some cb" for f cb
    using el that by (auto simp: elsewhere_def)
  have "conns_ok (never_refuses e) (ce_on_data e) ?S' ?C ?V ?D'"
  proof (rule conns_okI)
    fix p key b f F assume "?V p = Some (key, b, f, F)"
    with v(1-3) [OF this] own [OF this] show "?C key = Some p \<and> 0 \<le> f \<and> f \<in> F \<and> F \<subseteq> ?S'" by auto
  next
    fix p key b f F g assume p: "?V p = Some (key, b, f, F)" "g \<in> F" "?D' g \<noteq> None"
    with own [OF p(1,2)] v(5) [OF p(1,2)] show "g = f" by simp
  next
    fix p key b f F assume p: "?V p = Some (key, b, f, F)"
    with v(3,6) [OF p] own [OF p]
    show "b \<and> ?D' f = Some (ce_on_data e key) \<or> ?D' f = None \<and> (b \<longrightarrow> \<not> never_refuses e)" by simp
  next
    fix f key assume "?D' f = Some (ce_on_data e key)"
    with D' [OF this] show "\<exists>p b F. ?C key = Some p \<and> ?V p = Some (key, b, f, F)" using conns_ok_callback [OF c] by blast
  qed (use conns_ok_filed [OF c] conns_ok_disjoint [OF c] D' in \<open>auto\<close>)
  with same show ?thesis by (simp add: cm_ok_def)
qed

context conn_env
begin

lemma session_ok:
  assumes "cm_ok e opened owned w" "om_lookup (cm_objects w) p = Some c"
    "sc_transport c' = sc_transport c" "sc_connection_key c' = sc_connection_key c" "sc_connected c' = sc_connected c"
  shows "cm_ok e opened owned (cm_put p c' w)"
proof -
  obtain t where t: "sc_transport c = Some t" using cm_ok_object [OF assms(1,2)] .
  have "cm_ok e opened owned (cm_put p c' (w\<lparr>cm_kernel := cm_kernel w\<rparr>))"
    by (rule cm_ok_touch [OF assms(1,2) t]) (use assms t in \<open>simp_all add: fds_kept_def\<close>)
  then show ?thesis by simp
qed

theorem reach_ok:
  assumes "callbacks_keep (cm_ok e opened owned) cbs" "cm_reach e opened owned cbs w"
  shows "cm_ok e opened owned w"
  using assms(2)
proof induction
  case (reach_session w p c sr sa st si to pi)
  from session_ok [OF reach_session.IH reach_session.hyps(2)] show ?case by simp
qed (auto intro: fresh_manager_ok elsewhere_ok getOrCreate_result(1) removeConnection_result(1) closeAll_result(1)
    cm_sendMessage_ok [OF _ assms(1)] sendMessageWithinTimeout_ok [OF _ assms(1)] sendRawWithDeadline_ok [OF _ assms(1)]
    sendRawWithinTimeout_ok [OF _ assms(1)] onConnectionData_ok [OF _ assms(1)] dest: getConnection_result(1))

end

lemma cm_ok_more [simp]: "cm_ok e opened owned (ConnectionManager.ConnectionManager.more_update f w) = cm_ok e opened owned w"
  by (simp add: cm_ok_def cm_views_cong [of "ConnectionManager.ConnectionManager.more_update f w" w])

subsection \<open>Delivery\<close>

abbreviation runtime_part :: "('shm, 'k, 'cb, 'fn, 'b, 'z) cm_state \<Rightarrow> 'z" where
  "runtime_part \<equiv> ConnectionManager.ConnectionManager.more"

text \<open>
  A message callback that appends to a list in the state of the runtime and leaves the manager alone,
  and a disconnect callback that does not touch the list.
\<close>

definition collecting ::
    "('z \<Rightarrow> (string \<times> Message) list) \<Rightarrow> ('shm, 'k, 'cb, 'fn, 'b, 'z) cm_state CmCallbacks \<Rightarrow> bool" where
  "collecting seen cbs \<longleftrightarrow>
     (\<exists>cb. message_cb cbs = Some cb \<and>
        (\<forall>key m w. \<exists>m' w'. cb key m w = Some (m', w') \<and> Buffer_wf (m_payload m') \<and>
           seen (runtime_part w') = seen (runtime_part w) @ [(key, m)] \<and>
           cm_connections w' = cm_connections w \<and> cm_objects w' = cm_objects w \<and> cm_kernel w' = cm_kernel w)) \<and>
     (\<forall>cb key w. disconnect_cb cbs = Some cb \<longrightarrow>
        (\<exists>w'. cb key w = Some w' \<and> seen (runtime_part w') = seen (runtime_part w)))"

text \<open>
  What is delivered of the messages \<open>ms\<close>, whose frames are buffered, in flight or (\<open>unsent\<close>) not sent
  yet: the messages \<open>got\<close>. The handler has received for as long as the socket of the connection gave
  bytes; these and the bytes buffered before are the frames of \<open>got\<close> and what is buffered at the end,
  which is no complete frame, so the others are still to come. The last receive reported that there
  was nothing to read, or that the connection failed, and then the connection is given up.
\<close>

definition delivered ::
    "('shm, 'k, 'cb, 'b) CmEnv \<Rightarrow> ('shm, 'k, 'cb, 'fn, 'b, 'z) cm_state CmCallbacks \<Rightarrow> ('k \<Rightarrow> bytes)
     \<Rightarrow> ('z \<Rightarrow> (string \<times> Message) list) \<Rightarrow> nat \<Rightarrow> 'shm ServiceConnection \<Rightarrow> TcpConnection \<Rightarrow> Message list \<Rightarrow> bytes
     \<Rightarrow> ('shm, 'k, 'cb, 'fn, 'b, 'z) cm_state \<Rightarrow> ('shm, 'k, 'cb, 'fn, 'b, 'z) cm_state \<Rightarrow> bool" where
  "delivered e cbs inflight seen p c tc ms unsent w w' \<longleftrightarrow>
     (\<exists>got rest outs bs k1 n r b tc' w1. ms = got @ rest \<and> list_all2 received got outs \<and>
        seen (runtime_part w') = seen (runtime_part w) @ map (Pair (sc_connection_key c)) outs \<and>
        recv_run (tcp_connection (net_sockets (ce_net e))) (tc, cm_kernel w) bs (tc, k1) \<and>
        0 < n \<and> tcp_recv (net_sockets (ce_net e)) n (tc, k1) = (r, [], tc', cm_kernel w1) \<and>
        Buffer_content (sc_recv_buffer c) @ bs = concat (map frame_bytes got) @ Buffer_content b \<and>
        recv_ok b \<and> Buffer_content b @ inflight (cm_kernel w1) @ unsent = concat (map frame_bytes rest) \<and>
        (rest = [] \<or> length (Buffer_content b) < length (frame_bytes (hd rest))) \<and>
        om_lookup (cm_objects w1) p = Some (c\<lparr>sc_recv_buffer := b, sc_transport := Some (Tcp tc')\<rparr>) \<and>
        (r = 0 \<and> w' = w1 \<or> r < 0 \<and> (\<exists>live. failConnection e cbs p w1 = Some (live, w'))))"

text \<open>A message that was read before the others.\<close>

lemma delivered_Cons:
  assumes "delivered e cbs inflight seen p (c\<lparr>sc_recv_buffer := b, sc_transport := Some (Tcp tc)\<rparr>) tc ms unsent w2 w'"
    and "recv_framed (tcp_connection (net_sockets (ce_net e))) (sc_recv_buffer c) (tc, cm_kernel w) m b (tc, cm_kernel w2)"
    and "received m out" "seen (runtime_part w2) = seen (runtime_part w) @ [(sc_connection_key c, out)]"
  shows "delivered e cbs inflight seen p c tc (m # ms) unsent w w'"
proof -
  let ?c = "c\<lparr>sc_recv_buffer := b, sc_transport := Some (Tcp tc)\<rparr>"
  from assms(1) obtain got rest outs bs k1 n r b' tc' w1 where d0: "ms = got @ rest" "list_all2 received got outs"
      "seen (runtime_part w') = seen (runtime_part w2) @ map (Pair (sc_connection_key ?c)) outs"
      "recv_run (tcp_connection (net_sockets (ce_net e))) (tc, cm_kernel w2) bs (tc, k1)"
      "0 < n" "tcp_recv (net_sockets (ce_net e)) n (tc, k1) = (r, [], tc', cm_kernel w1)"
      "Buffer_content (sc_recv_buffer ?c) @ bs = concat (map frame_bytes got) @ Buffer_content b'"
      "recv_ok b'" "Buffer_content b' @ inflight (cm_kernel w1) @ unsent = concat (map frame_bytes rest)"
      "rest = [] \<or> length (Buffer_content b') < length (frame_bytes (hd rest))"
      "om_lookup (cm_objects w1) p = Some (?c\<lparr>sc_recv_buffer := b', sc_transport := Some (Tcp tc')\<rparr>)"
      "r = 0 \<and> w' = w1 \<or> r < 0 \<and> (\<exists>live. failConnection e cbs p w1 = Some (live, w'))"
    unfolding delivered_def by blast
  note d = d0(1,2) d0(3) [simplified] d0(4-6) d0(7) [simplified] d0(8-10) d0(11) [simplified] d0(12)
  from assms(2) obtain bs0 where r0: "recv_run (tcp_connection (net_sockets (ce_net e))) (tc, cm_kernel w) bs0 (tc, cm_kernel w2)"
      "Buffer_content (sc_recv_buffer c) @ bs0 = frame_bytes m @ Buffer_content b" unfolding recv_framed_def by blast
  have "Buffer_content (sc_recv_buffer c) @ bs0 @ bs = concat (map frame_bytes (m # got)) @ Buffer_content b'"
    using r0(2) d(7) by (metis append.assoc concat.simps(2) list.map(2))
  with d recv_run_trans [OF r0(1) d(4)] assms(3,4) show ?thesis
    unfolding delivered_def
    by (intro exI [of _ "m # got"] exI [of _ rest] exI [of _ "out # outs"] exI [of _ "bs0 @ bs"] exI [of _ k1] exI [of _ n]
        exI [of _ r] exI [of _ b'] exI [of _ tc'] exI [of _ w1]) simp
qed

lemma cm_more_simps [simp]:
  "runtime_part (cm_put p c w) = runtime_part w"
  "runtime_part (cm_unwatch e c w) = runtime_part w"
  by (simp_all add: cm_put_def cm_unwatch_def split: option.splits)

lemma failConnection_collecting:
  assumes "collecting seen cbs" "om_lookup (cm_objects w) p = Some c"
  shows "\<exists>live w'. failConnection e cbs p w = Some (live, w') \<and> seen (runtime_part w') = seen (runtime_part w)"
proof (cases "disconnect_cb cbs")
  case None
  with assms(2) show ?thesis by (simp add: failConnection_def Let_def)
next
  case (Some cb)
  let ?w = "cm_unwatch e c (cm_put p (c\<lparr>sc_connected := False\<rparr>) w)"
  from assms(1) Some obtain w' where "cb (sc_connection_key c) ?w = Some w'"
    "seen (runtime_part w') = seen (runtime_part ?w)" unfolding collecting_def by blast
  with assms(2) Some show ?thesis by (simp add: failConnection_def Let_def)
qed

lemma data_loop_delivers:
  assumes kernel: "tcp_kernel (net_sockets (ce_net e)) sent inflight" and alloc: "alloc_total (ce_alloc e)"
    and coll: "collecting seen cbs"
  shows "om_lookup (cm_connections w) key = Some p \<Longrightarrow> om_lookup (cm_objects w) p = Some c \<Longrightarrow>
    sc_connection_key c = key \<Longrightarrow> sc_transport c = Some (Tcp tc) \<Longrightarrow> recv_ok (sc_recv_buffer c) \<Longrightarrow>
    Buffer_wf (m_payload msg) \<Longrightarrow> \<forall>m \<in> set ms. sendable m \<Longrightarrow>
    Buffer_content (sc_recv_buffer c) @ inflight (cm_kernel w) @ unsent = concat (map frame_bytes ms) \<Longrightarrow>
    \<exists>w'. data_loop e cbs key p msg w = Some w' \<and> delivered e cbs inflight seen p c tc ms unsent w w'"
proof (induction ms arbitrary: w c msg rule: length_induct)
  case (1 ms)
  note prems = "1.prems"
  let ?ops = "net_sockets (ce_net e)"
  obtain ret b m tc' k where rd: "readNextMessage (tcp_connection ?ops) (ce_alloc e) (sc_recv_buffer c, msg, tc, cm_kernel w) =
      (ret, b, m, tc', k)" by (metis surj_pair)
  then have tr: "transport_read (ce_net e) (ce_alloc e) (sc_recv_buffer c) msg (Tcp tc) (cm_kernel w) = (ret, b, m, Tcp tc', k)"
    by (simp add: transport_read_def)
  let ?c = "c\<lparr>sc_recv_buffer := b, sc_transport := Some (Tcp tc')\<rparr>"
  let ?w = "cm_put p ?c (w\<lparr>cm_kernel := k\<rparr>)"
  have res: "stream_result (tcp_connection ?ops) (\<lambda>(c, k). inflight k) ms unsent (sc_recv_buffer c) (tc, cm_kernel w) (ret, b, m, tc', k)"
    using tcp_kernel.message_stream [OF kernel alloc prems(6,7,5,8), of tc] rd by simp
  then consider (one) m0 ms' where "ret = 1" "ms = m0 # ms'" "received m0 m" "recv_ok b"
      "recv_framed (tcp_connection ?ops) (sc_recv_buffer c) (tc, cm_kernel w) m0 b (tc', k)"
      "Buffer_content b @ inflight k @ unsent = concat (map frame_bytes ms')"
    | (stop) bs k1 n where "ret \<le> 0" "recv_ok b" "Buffer_content b @ inflight k @ unsent = concat (map frame_bytes ms)"
      "ms = [] \<or> length (Buffer_content b) < length (frame_bytes (hd ms))"
      "recv_run (tcp_connection ?ops) (tc, cm_kernel w) bs (tc, k1)" "Buffer_content b = Buffer_content (sc_recv_buffer c) @ bs"
      "0 < n" "tcp_recv ?ops n (tc, k1) = (ret, [], tc', k)"
    by (auto simp: stream_result_def tcp_recv_ended)
  then show ?case
  proof cases
    case one
    from one(5) have tc: "tc' = tc" using tcp_run_record unfolding recv_framed_def by fastforce
    obtain cb where cb: "message_cb cbs = Some cb" using coll by (auto simp: collecting_def)
    obtain m' w2 where w2: "cb (sc_connection_key c) m ?w = Some (m', w2)" "Buffer_wf (m_payload m')"
      "seen (runtime_part w2) = seen (runtime_part ?w) @ [(key, m)]"
      "cm_connections w2 = cm_connections ?w" "cm_objects w2 = cm_objects ?w" "cm_kernel w2 = cm_kernel ?w"
      using coll cb prems(3) unfolding collecting_def by fastforce
    have "\<exists>w'. data_loop e cbs key p m' w2 = Some w' \<and> delivered e cbs inflight seen p ?c tc ms' unsent w2 w'"
      by (rule "1.IH" [rule_format, of ms' w2 ?c m']) (use one w2 prems tc in simp_all)
    then obtain w' where w': "data_loop e cbs key p m' w2 = Some w'" "delivered e cbs inflight seen p ?c tc ms' unsent w2 w'"
      by blast
    have "data_loop e cbs key p msg w = Some w'"
      using prems one tr cb w2 w'(1) by (subst data_loop.simps) simp
    moreover have "delivered e cbs inflight seen p c tc ms unsent w w'"
      unfolding one(2) by (rule delivered_Cons [of _ _ _ _ _ _ b _ _ _ w2 _ _ _ m]) (use w' w2 one tc prems(3) in simp_all)
    ultimately show ?thesis by blast
  next
    case stop
    have fin: "delivered e cbs inflight seen p c tc ms unsent w w'"
      if "seen (runtime_part w') = seen (runtime_part ?w)"
        "ret = 0 \<and> w' = ?w \<or> ret < 0 \<and> (\<exists>live. failConnection e cbs p ?w = Some (live, w'))" for w'
      unfolding delivered_def using stop that
      by (intro exI [of _ "[]"] exI [of _ ms] exI [of _ bs] exI [of _ k1] exI [of _ n] exI [of _ ret] exI [of _ b]
          exI [of _ tc'] exI [of _ ?w]) simp
    obtain live w' where f: "failConnection e cbs p ?w = Some (live, w')"
      "seen (runtime_part w') = seen (runtime_part ?w)"
      using failConnection_collecting [OF coll, of ?w p ?c e] by auto
    show ?thesis
    proof (cases "ret = 0")
      case True
      then have "data_loop e cbs key p msg w = Some ?w" using prems tr by (subst data_loop.simps) simp
      with True fin show ?thesis by blast
    next
      case False
      with stop(1) have "data_loop e cbs key p msg w = Some w'" using prems tr f(1) by (subst data_loop.simps) simp
      with False stop(1) fin [OF f(2)] f(1) show ?thesis by auto
    qed
  qed
qed

subsection \<open>A system to run on\<close>

text \<open>
  The laws are those of a system in which a new descriptor is above all open ones: sockets as in
  \<open>net_ops\<close>, shared memory that hands out two descriptors when the handshake is answered.
\<close>

record sim =
  sim_net :: net
  sim_open :: "int list"
  sim_shm :: bool

definition fresh_fd :: "int list \<Rightarrow> int" where
  "fresh_fd fs = fold max fs 2 + 1"

definition sim_with :: "(net \<Rightarrow> 'r \<times> net) \<Rightarrow> sim \<Rightarrow> 'r \<times> sim" where
  "sim_with f k = (case f (sim_net k) of (r, n) \<Rightarrow> (r, k\<lparr>sim_net := n\<rparr>))"

definition sim_sockets :: "sim SocketOps" where
  "sim_sockets =
     \<lparr>k_createTcpSocket = (\<lambda>k. let fd = fresh_fd (sim_open k) in (fd, k\<lparr>sim_open := fd # sim_open k\<rparr>)),
      k_connectSocket = (\<lambda>fd host port k. (1, k)),
      k_socketSend = (\<lambda>fd data. sim_with (net_send fd data)),
      k_socketRecv = (\<lambda>fd m k. case net_recv fd m (sim_net k) of (r, bytes, n) \<Rightarrow> (r, bytes, k\<lparr>sim_net := n\<rparr>)),
      k_getSocketError = (\<lambda>k. net_errno (sim_net k)),
      k_waitSocketWritable = (\<lambda>fd ms. sim_with (\<lambda>n. (True, n\<lparr>net_clock := net_clock n + 1\<rparr>))),
      k_currentTimeMs = (\<lambda>k. (net_clock (sim_net k), k)),
      k_checkSocketConnected = (\<lambda>fd k. (True, 0, k)),
      k_closeSocket = (\<lambda>fd k. k\<lparr>sim_open := filter (\<lambda>f. f \<noteq> fd) (sim_open k)\<rparr>)\<rparr>"

definition sim_shm_ops :: "(int list, sim) ShmClientOps" where
  "sim_shm_ops =
     \<lparr>shm_new = (\<lambda>name req resp inst host_id. []),
      shm_connect = (\<lambda>host port (s, k).
        if sim_shm k then let fd = fresh_fd (sim_open k) in (0, [fd, fd + 1], k\<lparr>sim_open := fd # (fd + 1) # sim_open k\<rparr>)
        else (-1, [], k)),
      shm_close = (\<lambda>(s, k). ([], k\<lparr>sim_open := filter (\<lambda>f. f \<notin> set s) (sim_open k)\<rparr>)),
      shm_fd = (\<lambda>s. case s of [] \<Rightarrow> -1 | fd # _ \<Rightarrow> fd),
      shm_sendAll = (\<lambda>data ms (s, k). Some (0, 0, s, k)),
      shm_connection = \<lparr>t_isFramed = True, t_consumeReadiness = (\<lambda>st. st), t_peekFrameSize = (\<lambda>st. (0, 0, st)),
        t_recv = (\<lambda>m st. (0, [], st))\<rparr>\<rparr>"

definition sim_env :: "allocator \<Rightarrow> (int list, sim, string, unit) CmEnv" where
  "sim_env alloc =
     \<lparr>ce_net = \<lparr>net_sockets = sim_sockets, net_shm = sim_shm_ops\<rparr>,
      ce_backend = \<lparr>be_addFd = (\<lambda>fd ev b. (True, b)), be_modifyFd = (\<lambda>fd ev b. (True, b)), be_removeFd = (\<lambda>fd b. b)\<rparr>,
      ce_alloc = alloc, ce_malloc = (\<lambda>ps. Suc (fold max ps 0)), ce_on_data = (\<lambda>key. key)\<rparr>"

lemma fold_max_ge: "x \<in> set xs \<or> x \<le> a \<Longrightarrow> x \<le> fold max xs (a :: 'a :: linorder)"
proof (induction xs arbitrary: a)
  case (Cons y xs)
  have "x \<le> fold max xs (max y a)" by (rule Cons.IH) (use Cons.prems in \<open>auto simp: le_max_iff_disj\<close>)
  then show ?case by simp
qed simp

lemma fresh_fd_above: "fd \<in> set fs \<Longrightarrow> fd < fresh_fd fs" "2 < fresh_fd fs"
  using fold_max_ge [of fd fs 2] fold_max_ge [of 2 fs 2] by (simp_all add: fresh_fd_def)

lemma sim_env_simps [simp]:
  "net_sockets (ce_net (sim_env alloc)) = sim_sockets" "net_shm (ce_net (sim_env alloc)) = sim_shm_ops"
  "ce_alloc (sim_env alloc) = alloc" "ce_on_data (sim_env alloc) = (\<lambda>key. key)"
  by (simp_all add: sim_env_def)

lemmas sim_defs = sim_sockets_def sim_shm_ops_def sim_with_def

interpretation sim: conn_env "sim_env alloc" "\<lambda>k. set (sim_open k)" set for alloc
proof unfold_locales
  fix h p name req resp inst host_id k r s k'
  assume "shm_connect (net_shm (ce_net (sim_env alloc))) h p
    (shm_new (net_shm (ce_net (sim_env alloc))) name req resp inst host_id, k) = (r, s, k')"
  then show "if r = 0 then set s \<inter> set (sim_open k) = {} \<and> set (sim_open k') = set (sim_open k) \<union> set s \<and>
      (0 \<le> shm_fd (net_shm (ce_net (sim_env alloc))) s \<longrightarrow> shm_fd (net_shm (ce_net (sim_env alloc))) s \<in> set s)
    else set (sim_open (snd (shm_close (net_shm (ce_net (sim_env alloc))) (s, k')))) = set (sim_open k)"
    using fresh_fd_above(1) [of "fresh_fd (sim_open k)" "sim_open k"] fresh_fd_above(1) [of "fresh_fd (sim_open k) + 1" "sim_open k"]
    by (auto simp: sim_defs Let_def split: if_splits)
next
  fix ps
  show "ce_malloc (sim_env alloc) ps \<notin> set ps"
    using fold_max_ge [of "Suc (fold max ps 0)" ps 0] by (auto simp: sim_env_def)
next
  fix k fd k'
  assume "k_createTcpSocket (net_sockets (ce_net (sim_env alloc))) k = (fd, k')"
  then show "fd = INVALID_SOCKET_FD \<and> set (sim_open k') = set (sim_open k) \<or>
      0 \<le> fd \<and> fd \<notin> set (sim_open k) \<and> set (sim_open k') = insert fd (set (sim_open k))"
    using fresh_fd_above(1) [of "fresh_fd (sim_open k)" "sim_open k"] fresh_fd_above(2) [of "sim_open k"]
    by (auto simp: sim_defs Let_def)
qed (auto simp: sim_sockets_def sim_shm_ops_def sim_with_def sim_env_def split: prod.splits)

text \<open>Its sockets deliver as those of \<open>net_ops\<close> do.\<close>

interpretation sim_tcp: tcp_kernel sim_sockets "\<lambda>k. net_tx (sim_net k)" "\<lambda>k. rx_bytes (net_rx (sim_net k))"
proof
  fix data :: bytes and fd n k k'
  assume "data \<noteq> []" "k_socketSend sim_sockets fd data k = (n, k')"
  then show "if 0 < n then nat n \<le> length data \<and> net_tx (sim_net k') = net_tx (sim_net k) @ take (nat n) data
      else net_tx (sim_net k') = net_tx (sim_net k)"
    using net.send_law [of data fd "sim_net k"] by (auto simp: sim_sockets_def sim_with_def net_ops_def split: prod.splits)
next
  fix m fd k n bytes k'
  assume "0 < m" "k_socketRecv sim_sockets fd m k = (n, bytes, k')"
  then show "if 0 < n then n = int (length bytes) \<and> length bytes \<le> m \<and>
        rx_bytes (net_rx (sim_net k)) = bytes @ rx_bytes (net_rx (sim_net k'))
      else bytes = [] \<and> rx_bytes (net_rx (sim_net k')) = rx_bytes (net_rx (sim_net k))"
    using net.recv_law [of m fd "sim_net k"] by (auto simp: sim_sockets_def net_ops_def split: prod.splits)
qed (auto simp: sim_sockets_def sim_with_def)

end
