(* ===== verification/IdlLexer.thy ===== *)
theory IdlLexer
  imports OmniTypes
begin

section \<open>The lexer of the interface definition language\<close>

text \<open>
  tools/omni_idlc/lexer.cpp. A lexer keeps its source and a position; the model keeps the part of the
  source that is still to be read (\<open>source_.substr(pos_)\<close>) and the size of the whole. \<open>isAtEnd\<close> is
  \<open>lx_rest l = []\<close>, \<open>peek\<close> is its head, and \<open>advance\<close> drops it. The theory ends with the shape of a
  laid-out source (tokens, blanks and comments) and the round trip: the lexer reads back the tokens
  of every laid-out source.
\<close>

datatype TokenType =
    TOK_EOF | TOK_IDENTIFIER | TOK_NUMBER | TOK_STRING
  | TOK_PACKAGE | TOK_IMPORT | TOK_STRUCT | TOK_SERVICE | TOK_TOPIC | TOK_PUBLISHES | TOK_ARRAY
  | TOK_BOOL | TOK_INT8 | TOK_UINT8 | TOK_INT16 | TOK_UINT16
  | TOK_INT32 | TOK_UINT32 | TOK_INT64 | TOK_UINT64
  | TOK_FLOAT32 | TOK_FLOAT64 | TOK_STRING_TYPE | TOK_BYTES | TOK_VOID
  | TOK_LBRACE | TOK_RBRACE | TOK_LPAREN | TOK_RPAREN | TOK_LANGLE | TOK_RANGLE
  | TOK_SEMICOLON | TOK_COMMA | TOK_DOT | TOK_ERROR

record Token =
  tok_type :: TokenType
  tok_value :: string
  tok_line :: nat
  tok_column :: nat

definition mk_Token :: "TokenType \<Rightarrow> string \<Rightarrow> nat \<Rightarrow> nat \<Rightarrow> Token" where
  "mk_Token t v l c = \<lparr>tok_type = t, tok_value = v, tok_line = l, tok_column = c\<rparr>"

record Lexer =
  lx_size :: nat
  lx_rest :: string
  lx_line :: nat
  lx_column :: nat
  lx_has_error :: bool
  lx_error_msg :: string

definition Lexer_new :: "string \<Rightarrow> Lexer" where
  "Lexer_new source =
     \<lparr>lx_size = length source, lx_rest = source, lx_line = 1, lx_column = 1, lx_has_error = False, lx_error_msg = []\<rparr>"

subsection \<open>The character classes of the C locale\<close>

definition newline :: char where "newline = CHR 0x0A"

definition c_isspace :: "char \<Rightarrow> bool" where
  "c_isspace c \<longleftrightarrow> c = CHR '' '' \<or> 9 \<le> (of_char c :: nat) \<and> (of_char c :: nat) \<le> 13"

definition c_isalpha :: "char \<Rightarrow> bool" where
  "c_isalpha c \<longleftrightarrow>
     65 \<le> (of_char c :: nat) \<and> (of_char c :: nat) \<le> 90 \<or> 97 \<le> (of_char c :: nat) \<and> (of_char c :: nat) \<le> 122"

definition c_isalnum :: "char \<Rightarrow> bool" where
  "c_isalnum c \<longleftrightarrow> c_isalpha c \<or> is_digit c"

definition is_word_char :: "char \<Rightarrow> bool" where
  "is_word_char c \<longleftrightarrow> c_isalnum c \<or> c = CHR ''_''"

subsection \<open>Reading\<close>

definition advance :: "Lexer \<Rightarrow> char \<times> Lexer" where
  "advance l =
     (let c = (case lx_rest l of [] \<Rightarrow> CHR 0x00 | c # _ \<Rightarrow> c);
          l = l\<lparr>lx_rest := drop 1 (lx_rest l)\<rparr>
      in (c, if c = newline then l\<lparr>lx_line := lx_line l + 1, lx_column := 1\<rparr> else l\<lparr>lx_column := lx_column l + 1\<rparr>))"

abbreviation adv :: "Lexer \<Rightarrow> Lexer" where
  "adv l \<equiv> snd (advance l)"

lemma rest_adv [simp]: "lx_rest (adv l) = drop 1 (lx_rest l)"
  by (simp add: advance_def Let_def)

text \<open>\<open>while (!isAtEnd() && p(peek())) val += advance();\<close>\<close>

function advance_while :: "(char \<Rightarrow> bool) \<Rightarrow> Lexer \<Rightarrow> string \<times> Lexer" where
  "advance_while p l =
     (case lx_rest l of
        [] \<Rightarrow> ([], l)
      | c # _ \<Rightarrow> if p c then (let (val, l') = advance_while p (adv l) in (c # val, l')) else ([], l))"
  by auto
termination by (relation "measure (\<lambda>(p, l). length (lx_rest l))") auto

declare advance_while.simps [simp del]

definition skip_line :: "Lexer \<Rightarrow> Lexer" where
  "skip_line l = snd (advance_while (\<lambda>c. c \<noteq> newline) l)"

function skip_block :: "Lexer \<Rightarrow> Lexer" where
  "skip_block l =
     (case lx_rest l of
        [] \<Rightarrow> l
      | c # cs \<Rightarrow>
          if c = CHR ''*'' \<and> cs \<noteq> [] \<and> hd cs = CHR ''/'' then adv (adv l)
          else skip_block (adv l))"
  by auto
termination by (relation "measure (\<lambda>l. length (lx_rest l))") auto

declare skip_block.simps [simp del]

lemma advance_while_value:
  "fst (advance_while p l) = takeWhile p (lx_rest l)"
  "lx_rest (snd (advance_while p l)) = dropWhile p (lx_rest l)"
  by (induction p l rule: advance_while.induct)
     (subst advance_while.simps, simp add: split_def split: list.split)+

lemma rest_skip_line: "lx_rest (skip_line l) = dropWhile (\<lambda>c. c \<noteq> newline) (lx_rest l)"
  by (simp add: skip_line_def advance_while_value)

lemma length_skip_block: "length (lx_rest (skip_block l)) \<le> length (lx_rest l)"
  by (induction l rule: skip_block.induct) (subst skip_block.simps, fastforce split: list.split)

function skipWhitespaceAndComments :: "Lexer \<Rightarrow> Lexer" where
  "skipWhitespaceAndComments l =
     (case lx_rest l of
        [] \<Rightarrow> l
      | c # cs \<Rightarrow>
          if c_isspace c then skipWhitespaceAndComments (adv l)
          else if c = CHR ''/'' \<and> cs \<noteq> [] then
            if hd cs = CHR ''/'' then skipWhitespaceAndComments (skip_line l)
            else if hd cs = CHR ''*'' then skipWhitespaceAndComments (skip_block (adv (adv l)))
            else l
          else l)"
  by auto
termination
proof (relation "measure (\<lambda>l. length (lx_rest l))", simp_all)
  fix l :: Lexer and cs assume rest: "lx_rest l = CHR ''/'' # cs" and "cs \<noteq> []"
  then show "length (lx_rest (skip_line l)) < Suc (length cs)"
    by (simp add: rest_skip_line newline_def le_imp_less_Suc length_dropWhile_le)
  show "length (lx_rest (skip_block (adv (adv l)))) < Suc (length cs)"
    using length_skip_block [of "adv (adv l)"] rest by simp
qed

declare skipWhitespaceAndComments.simps [simp del]

definition idl_keywords :: "(string \<times> TokenType) list" where
  "idl_keywords =
     [(''package'', TOK_PACKAGE), (''import'', TOK_IMPORT), (''struct'', TOK_STRUCT), (''service'', TOK_SERVICE),
      (''topic'', TOK_TOPIC), (''publishes'', TOK_PUBLISHES), (''array'', TOK_ARRAY), (''bool'', TOK_BOOL),
      (''int8'', TOK_INT8), (''uint8'', TOK_UINT8), (''int16'', TOK_INT16), (''uint16'', TOK_UINT16),
      (''int32'', TOK_INT32), (''uint32'', TOK_UINT32), (''int64'', TOK_INT64), (''uint64'', TOK_UINT64),
      (''float32'', TOK_FLOAT32), (''float64'', TOK_FLOAT64), (''string'', TOK_STRING_TYPE),
      (''bytes'', TOK_BYTES), (''void'', TOK_VOID)]"

definition word_type :: "string \<Rightarrow> TokenType" where
  "word_type val = (case map_of idl_keywords val of Some t \<Rightarrow> t | None \<Rightarrow> TOK_IDENTIFIER)"

definition readIdentifierOrKeyword :: "Lexer \<Rightarrow> Token \<times> Lexer" where
  "readIdentifierOrKeyword l =
     (let (val, l') = advance_while is_word_char l
      in (mk_Token (word_type val) val (lx_line l) (lx_column l), l'))"

definition readNumber :: "Lexer \<Rightarrow> Token \<times> Lexer" where
  "readNumber l =
     (let (val, l') = advance_while is_digit l
      in (mk_Token TOK_NUMBER val (lx_line l) (lx_column l), l'))"

definition unsafe_in_string :: "char \<Rightarrow> bool" where
  "unsafe_in_string c \<longleftrightarrow> c = CHR 0x5C \<or> (of_char c :: nat) < 32 \<or> (of_char c :: nat) = 127"

definition lex_error :: "string \<Rightarrow> Lexer \<Rightarrow> Lexer" where
  "lex_error msg l = l\<lparr>lx_has_error := True, lx_error_msg := msg\<rparr>"

text \<open>The loop stops at the closing quote, at an unsafe character or at the end of the source.\<close>

definition readStringToken :: "Lexer \<Rightarrow> Token \<times> Lexer" where
  "readStringToken l =
     (let (val, l') = advance_while (\<lambda>c. c \<noteq> CHR 0x22 \<and> \<not> unsafe_in_string c) (adv l)
      in case lx_rest l' of
           [] \<Rightarrow> (mk_Token TOK_ERROR val (lx_line l) (lx_column l), lex_error ''Unterminated string literal'' l')
         | c # _ \<Rightarrow>
             if c \<noteq> CHR 0x22
             then (mk_Token TOK_ERROR val (lx_line l) (lx_column l), lex_error ''Unsafe character in string literal'' l')
             else (mk_Token TOK_STRING val (lx_line l) (lx_column l), adv l'))"

text \<open>A C string ends at its first NUL.\<close>

definition cstr :: "string \<Rightarrow> string" where
  "cstr s = takeWhile (\<lambda>c. c \<noteq> CHR 0x00) s"

definition punctuation :: "char \<Rightarrow> TokenType option" where
  "punctuation c =
     (if c = CHR ''{'' then Some TOK_LBRACE else if c = CHR ''}'' then Some TOK_RBRACE
      else if c = CHR ''('' then Some TOK_LPAREN else if c = CHR '')'' then Some TOK_RPAREN
      else if c = CHR ''<'' then Some TOK_LANGLE else if c = CHR ''>'' then Some TOK_RANGLE
      else if c = CHR '';'' then Some TOK_SEMICOLON else if c = CHR '','' then Some TOK_COMMA
      else if c = CHR ''.'' then Some TOK_DOT else None)"

definition nextToken :: "Lexer \<Rightarrow> Token \<times> Lexer" where
  "nextToken l0 =
     (let l = skipWhitespaceAndComments l0 in
      case lx_rest l of
        [] \<Rightarrow> (mk_Token TOK_EOF [] (lx_line l) (lx_column l), l)
      | ch # _ \<Rightarrow>
          if c_isalpha ch \<or> ch = CHR ''_'' then readIdentifierOrKeyword l
          else if is_digit ch then readNumber l
          else if ch = CHR 0x22 then readStringToken l
          else
            case punctuation ch of
              Some t \<Rightarrow> (mk_Token t [ch] (lx_line l) (lx_column l), adv l)
            | None \<Rightarrow> (mk_Token TOK_ERROR [ch] (lx_line l) (lx_column l),
                lex_error (cstr (''Unexpected character '' @ [CHR 0x27, ch, CHR 0x27])) (adv l)))"

definition tokenTypeToString :: "TokenType \<Rightarrow> string" where
  "tokenTypeToString t =
     (case t of
        TOK_EOF \<Rightarrow> ''EOF'' | TOK_IDENTIFIER \<Rightarrow> ''IDENTIFIER'' | TOK_NUMBER \<Rightarrow> ''NUMBER'' | TOK_STRING \<Rightarrow> ''STRING''
      | TOK_PACKAGE \<Rightarrow> ''package'' | TOK_IMPORT \<Rightarrow> ''import'' | TOK_STRUCT \<Rightarrow> ''struct'' | TOK_SERVICE \<Rightarrow> ''service''
      | TOK_TOPIC \<Rightarrow> ''topic'' | TOK_PUBLISHES \<Rightarrow> ''publishes'' | TOK_ARRAY \<Rightarrow> ''array'' | TOK_BOOL \<Rightarrow> ''bool''
      | TOK_INT8 \<Rightarrow> ''int8'' | TOK_UINT8 \<Rightarrow> ''uint8'' | TOK_INT16 \<Rightarrow> ''int16'' | TOK_UINT16 \<Rightarrow> ''uint16''
      | TOK_INT32 \<Rightarrow> ''int32'' | TOK_UINT32 \<Rightarrow> ''uint32'' | TOK_INT64 \<Rightarrow> ''int64'' | TOK_UINT64 \<Rightarrow> ''uint64''
      | TOK_FLOAT32 \<Rightarrow> ''float32'' | TOK_FLOAT64 \<Rightarrow> ''float64'' | TOK_STRING_TYPE \<Rightarrow> ''string''
      | TOK_BYTES \<Rightarrow> ''bytes'' | TOK_VOID \<Rightarrow> ''void'' | TOK_ERROR \<Rightarrow> ''ERROR'' | TOK_SEMICOLON \<Rightarrow> '';''
      | TOK_LBRACE \<Rightarrow> ''{'' | TOK_RBRACE \<Rightarrow> ''}'' | TOK_LPAREN \<Rightarrow> ''('' | TOK_RPAREN \<Rightarrow> '')''
      | TOK_LANGLE \<Rightarrow> ''<'' | TOK_RANGLE \<Rightarrow> ''>'' | TOK_COMMA \<Rightarrow> '','' | TOK_DOT \<Rightarrow> ''.'')"

subsection \<open>Progress\<close>

lemma length_skipWhitespace: "length (lx_rest (skipWhitespaceAndComments l)) \<le> length (lx_rest l)"
proof (induction l rule: skipWhitespaceAndComments.induct)
  case (1 l)
  show ?case
  proof (cases "lx_rest l")
    case (Cons c cs)
    have "length (lx_rest (skip_line l)) \<le> length (lx_rest l)"
      by (simp add: rest_skip_line length_dropWhile_le)
    moreover have "length (lx_rest (skip_block (adv (adv l)))) \<le> length (lx_rest l)"
      using length_skip_block [of "adv (adv l)"] by simp
    ultimately show ?thesis
      using 1 Cons by (subst skipWhitespaceAndComments.simps) (auto intro: order_trans)
  qed (subst skipWhitespaceAndComments.simps, simp)
qed

lemma rest_while_le:
  "length (lx_rest (snd (advance_while p l))) \<le> length (lx_rest l)"
  by (simp add: advance_while_value length_dropWhile_le)

lemma rest_while_less:
  assumes "lx_rest l = c # cs" "p c"
  shows "length (lx_rest (snd (advance_while p l))) < length (lx_rest l)"
  using assms by (simp add: advance_while_value le_imp_less_Suc length_dropWhile_le)

lemma word_type_not_EOF [simp]: "word_type v \<noteq> TOK_EOF" "word_type v \<noteq> TOK_ERROR"
  by (auto simp: word_type_def idl_keywords_def split: option.splits dest!: map_of_SomeD)

lemma readStringToken_progress:
  assumes "lx_rest l = c # cs"
  shows "tok_type (fst (readStringToken l)) \<in> {TOK_STRING, TOK_ERROR} \<and> length (lx_rest (snd (readStringToken l))) < length (lx_rest l)"
proof -
  let ?p = "\<lambda>c. c \<noteq> CHR 0x22 \<and> \<not> unsafe_in_string c"
  have "length (lx_rest (snd (advance_while ?p (adv l)))) < length (lx_rest l)"
    using rest_while_le [of ?p "adv l"] assms by simp
  then show ?thesis
    by (auto simp: readStringToken_def mk_Token_def lex_error_def split_def Let_def split: list.split)
qed

text \<open>Every token but the end of the source takes at least a character off it.\<close>

lemma nextToken_progress:
  "if tok_type (fst (nextToken l)) = TOK_EOF then lx_rest (snd (nextToken l)) = []
   else length (lx_rest (snd (nextToken l))) < length (lx_rest l)"
proof -
  let ?s = "skipWhitespaceAndComments l"
  have le: "length (lx_rest ?s) \<le> length (lx_rest l)" by (rule length_skipWhitespace)
  show ?thesis
  proof (cases "lx_rest ?s")
    case (Cons c cs)
    note nt = nextToken_def Let_def Cons mk_Token_def
    consider "c_isalpha c \<or> c = CHR ''_''" | "\<not> (c_isalpha c \<or> c = CHR ''_'')" "is_digit c"
      | "\<not> (c_isalpha c \<or> c = CHR ''_'')" "\<not> is_digit c" "c = CHR 0x22"
      | "\<not> (c_isalpha c \<or> c = CHR ''_'')" "\<not> is_digit c" "c \<noteq> CHR 0x22" by blast
    then show ?thesis
    proof cases
      case 1
      then have "length (lx_rest (snd (advance_while is_word_char ?s))) < length (lx_rest ?s)"
        by (intro rest_while_less [OF Cons]) (auto simp: is_word_char_def c_isalnum_def)
      with 1 le show ?thesis by (simp add: nt readIdentifierOrKeyword_def split_def)
    next
      case 2
      then have "length (lx_rest (snd (advance_while is_digit ?s))) < length (lx_rest ?s)"
        by (intro rest_while_less [OF Cons])
      with 2 le show ?thesis by (simp add: nt readNumber_def split_def)
    next
      case 3
      with readStringToken_progress [OF Cons] le show ?thesis by (auto simp: nextToken_def Let_def Cons)
    next
      case 4
      with le show ?thesis by (auto simp: nt lex_error_def punctuation_def split: option.split if_splits)
    qed
  qed (simp add: nextToken_def Let_def mk_Token_def)
qed

text \<open>The tokens a lexer still gives out, to the end of the source or to the first error.\<close>

function lex_all :: "Lexer \<Rightarrow> Token list" where
  "lex_all l =
     (let (t, l') = nextToken l
      in if tok_type t \<in> {TOK_EOF, TOK_ERROR} then [t] else t # lex_all l')"
  by auto
termination
proof (relation "measure (\<lambda>l. length (lx_rest l))")
  fix l x t l' assume "x = nextToken l" "(t, l') = x" "tok_type t \<notin> {TOK_EOF, TOK_ERROR}"
  then show "(l', l) \<in> measure (\<lambda>l. length (lx_rest l))"
    using nextToken_progress [of l] by (metis fst_conv in_measure insertI1 snd_conv)
qed simp

declare lex_all.simps [simp del]

subsection \<open>Laid-out sources\<close>

datatype Blank = Space char | LineComment string | BlockComment string

fun no_close :: "string \<Rightarrow> bool" where
  "no_close (a # b # cs) \<longleftrightarrow> \<not> (a = CHR ''*'' \<and> b = CHR ''/'') \<and> no_close (b # cs)"
| "no_close _ = True"

fun blank_ok :: "Blank \<Rightarrow> bool" where
  "blank_ok (Space c) = c_isspace c"
| "blank_ok (LineComment s) = (newline \<notin> set s)"
| "blank_ok (BlockComment s) = no_close s"

fun blank_text :: "Blank \<Rightarrow> string" where
  "blank_text (Space c) = [c]"
| "blank_text (LineComment s) = ''//'' @ s @ [newline]"
| "blank_text (BlockComment s) = ''/*'' @ s @ ''*/''"

definition is_word :: "string \<Rightarrow> bool" where
  "is_word v \<longleftrightarrow> v \<noteq> [] \<and> (c_isalpha (hd v) \<or> hd v = CHR ''_'') \<and> list_all is_word_char v"

text \<open>A token without its position: its type and its value.\<close>

type_synonym lexeme = "TokenType \<times> string"

definition lexeme_ok :: "lexeme \<Rightarrow> bool" where
  "lexeme_ok = (\<lambda>(t, v).
     if t = TOK_STRING then list_all (\<lambda>c. c \<noteq> CHR 0x22 \<and> \<not> unsafe_in_string c) v
     else if t = TOK_NUMBER then v \<noteq> [] \<and> list_all is_digit v
     else is_word v \<and> t = word_type v \<or> (\<exists>c. v = [c] \<and> punctuation c = Some t))"

definition lexeme_text :: "lexeme \<Rightarrow> string" where
  "lexeme_text = (\<lambda>(t, v). if t = TOK_STRING then CHR 0x22 # v @ [CHR 0x22] else v)"

text \<open>A word must not run into the text after it.\<close>

definition glue_ok :: "lexeme \<Rightarrow> string \<Rightarrow> bool" where
  "glue_ok = (\<lambda>(t, v) r. t = TOK_STRING \<or> r = [] \<or> \<not> is_word_char (hd v) \<or> \<not> is_word_char (hd r))"

definition blanks_text :: "Blank list \<Rightarrow> string" where
  "blanks_text bs = concat (map blank_text bs)"

primrec layout_text :: "(Blank list \<times> lexeme) list \<Rightarrow> Blank list \<Rightarrow> string" where
  "layout_text [] final = blanks_text final"
| "layout_text (x # xs) final = blanks_text (fst x) @ lexeme_text (snd x) @ layout_text xs final"

primrec layout_ok :: "(Blank list \<times> lexeme) list \<Rightarrow> Blank list \<Rightarrow> bool" where
  "layout_ok [] final = list_all blank_ok final"
| "layout_ok (x # xs) final \<longleftrightarrow>
     list_all blank_ok (fst x) \<and> lexeme_ok (snd x) \<and> glue_ok (snd x) (layout_text xs final) \<and> layout_ok xs final"

definition pos_step :: "char \<Rightarrow> nat \<times> nat \<Rightarrow> nat \<times> nat" where
  "pos_step c p = (if c = newline then (fst p + 1, 1) else (fst p, snd p + 1))"

definition pos_after :: "string \<Rightarrow> nat \<times> nat \<Rightarrow> nat \<times> nat" where
  "pos_after s p = fold pos_step s p"

text \<open>The tokens of a laid-out source, each with the position of its first character.\<close>

primrec layout_tokens :: "(Blank list \<times> lexeme) list \<Rightarrow> Blank list \<Rightarrow> nat \<times> nat \<Rightarrow> Token list" where
  "layout_tokens [] final p = (let p = pos_after (blanks_text final) p in [mk_Token TOK_EOF [] (fst p) (snd p)])"
| "layout_tokens (x # xs) final p =
     (let p = pos_after (blanks_text (fst x)) p
      in mk_Token (fst (snd x)) (snd (snd x)) (fst p) (snd p)
           # layout_tokens xs final (pos_after (lexeme_text (snd x)) p))"

subsection \<open>The lexer reads laid-out sources back\<close>

definition lex_at :: "nat \<Rightarrow> string \<Rightarrow> nat \<times> nat \<Rightarrow> Lexer" where
  "lex_at n r p = \<lparr>lx_size = n, lx_rest = r, lx_line = fst p, lx_column = snd p, lx_has_error = False, lx_error_msg = []\<rparr>"

lemma lex_at_sel [simp]: "lx_rest (lex_at n r p) = r" "lx_line (lex_at n r p) = fst p" "lx_column (lex_at n r p) = snd p"
  "lx_has_error (lex_at n r p) = False"
  by (simp_all add: lex_at_def)

lemma pos_after_simps [simp]: "pos_after [] p = p" "pos_after (c # s) p = pos_after s (pos_step c p)"
  "pos_after (s @ s') p = pos_after s' (pos_after s p)"
  by (simp_all add: pos_after_def)

lemma advance_at [simp]: "advance (lex_at n (c # r) p) = (c, lex_at n r (pos_step c p))"
  by (simp add: advance_def lex_at_def pos_step_def Let_def)

lemma advance_while_at:
  "list_all q s \<Longrightarrow> r = [] \<or> \<not> q (hd r) \<Longrightarrow> advance_while q (lex_at n (s @ r) p) = (s, lex_at n r (pos_after s p))"
proof (induction s arbitrary: p)
  case Nil
  then show ?case by (subst advance_while.simps) (auto split: list.split)
next
  case (Cons c s)
  then show ?case by (subst advance_while.simps) simp
qed

lemma skip_block_at:
  "no_close s \<Longrightarrow> skip_block (lex_at n (s @ ''*/'' @ r) p) = lex_at n r (pos_after (s @ ''*/'') p)"
proof (induction s arbitrary: p rule: no_close.induct)
  case (1 a b cs)
  then show ?case by (subst skip_block.simps) auto
next
  case "2_1"
  show ?case by (subst skip_block.simps) simp
next
  case "2_2"
  show ?case
    by (subst skip_block.simps, subst skip_block.simps) simp
qed

lemma skip_blank_at:
  "blank_ok b \<Longrightarrow> skipWhitespaceAndComments (lex_at n (blank_text b @ r) p) =
     skipWhitespaceAndComments (lex_at n r (pos_after (blank_text b) p))"
proof (cases b)
  case (Space c)
  assume "blank_ok b"
  with Space show ?thesis by (subst skipWhitespaceAndComments.simps) simp
next
  case (LineComment s)
  let ?c = "CHR ''/'' # CHR ''/'' # s"
  assume ok: "blank_ok b"
  have "list_all (\<lambda>c. c \<noteq> newline) ?c"
    using ok LineComment by (auto simp: list_all_iff newline_def)
  then have "skip_line (lex_at n (?c @ newline # r) p) = lex_at n (newline # r) (pos_after ?c p)"
    unfolding skip_line_def by (subst advance_while_at) simp_all
  then have "skipWhitespaceAndComments (lex_at n (blank_text b @ r) p) =
      skipWhitespaceAndComments (lex_at n (newline # r) (pos_after ?c p))"
    using LineComment by (subst skipWhitespaceAndComments.simps) (simp add: c_isspace_def)
  also have "\<dots> = skipWhitespaceAndComments (lex_at n r (pos_after (blank_text b) p))"
    using LineComment by (subst skipWhitespaceAndComments.simps) (simp add: c_isspace_def newline_def)
  finally show ?thesis .
next
  case (BlockComment s)
  assume "blank_ok b"
  with BlockComment skip_block_at [of s n r "pos_after ''/*'' p"] show ?thesis
    by (subst skipWhitespaceAndComments.simps) (simp add: c_isspace_def)
qed

definition starts_token :: "string \<Rightarrow> bool" where
  "starts_token r \<longleftrightarrow> r = [] \<or> \<not> c_isspace (hd r) \<and> hd r \<noteq> CHR ''/''"

lemma skip_blanks_at:
  assumes "list_all blank_ok bs" "starts_token r"
  shows "skipWhitespaceAndComments (lex_at n (blanks_text bs @ r) p) = lex_at n r (pos_after (blanks_text bs) p)"
  using assms
proof (induction bs arbitrary: p)
  case Nil
  then show ?case
    by (subst skipWhitespaceAndComments.simps) (auto simp: blanks_text_def starts_token_def split: list.split)
next
  case (Cons b bs)
  then show ?case
    using skip_blank_at [of b n "blanks_text bs @ r" p] by (simp add: blanks_text_def)
qed

lemma marks_not_words: "c \<in> set [CHR ''/'', CHR 0x22, CHR ''{'', CHR ''}'', CHR ''('', CHR '')'', CHR ''<'', CHR ''>'', CHR '';'', CHR '','', CHR ''.''] \<Longrightarrow>
    \<not> is_word_char c \<and> \<not> c_isspace c"
  unfolding list.set insert_iff empty_iff
  by (elim disjE FalseE; hypsubst)
     (simp_all add: is_word_char_def c_isalnum_def c_isalpha_def is_digit_def c_isspace_def)

lemma word_not_space: "is_word_char c \<Longrightarrow> \<not> c_isspace c"
  by (auto simp: is_word_char_def c_isalnum_def c_isalpha_def is_digit_def c_isspace_def)

lemma punctuation_mark:
  "punctuation c = Some t \<Longrightarrow>
     c \<in> set [CHR ''{'', CHR ''}'', CHR ''('', CHR '')'', CHR ''<'', CHR ''>'', CHR '';'', CHR '','', CHR ''.''] \<and>
     c \<noteq> CHR ''/'' \<and> c \<noteq> CHR 0x22 \<and> t \<notin> {TOK_STRING, TOK_NUMBER, TOK_EOF, TOK_ERROR}"
  by (simp add: punctuation_def split: if_splits)

lemma word_char_not_blank: "is_word_char c \<Longrightarrow> \<not> c_isspace c \<and> c \<noteq> CHR ''/'' \<and> c \<noteq> CHR 0x22 \<and> punctuation c = None"
  using marks_not_words [of c] word_not_space [of c] punctuation_mark [of c] by (cases "punctuation c") auto

lemma punctuation_not_blank:
  "punctuation c = Some t \<Longrightarrow> \<not> c_isspace c \<and> c \<noteq> CHR ''/'' \<and> c \<noteq> CHR 0x22 \<and> \<not> is_word_char c \<and> t \<notin> {TOK_STRING, TOK_NUMBER, TOK_EOF, TOK_ERROR}"
  using marks_not_words [of c] punctuation_mark [of c t] by auto

lemma word_type_not_literal: "word_type v \<noteq> TOK_STRING" "word_type v \<noteq> TOK_NUMBER"
  by (auto simp: word_type_def idl_keywords_def split: option.splits dest!: map_of_SomeD)

lemma lexeme_ok_cases:
  assumes "lexeme_ok (t, v)"
  obtains (word) "is_word v" "t = word_type v" | (number) "t = TOK_NUMBER" "v \<noteq> []" "list_all is_digit v"
    | (string) "t = TOK_STRING" "list_all (\<lambda>c. c \<noteq> CHR 0x22 \<and> \<not> unsafe_in_string c) v"
    | (punct) c where "v = [c]" "punctuation c = Some t"
  using assms by (auto simp: lexeme_ok_def split: if_splits)

lemma lexeme_starts: "lexeme_ok x \<Longrightarrow> starts_token (lexeme_text x @ r) \<and> lexeme_text x \<noteq> []"
proof (induction x)
  case (Pair t v)
  then show ?case
  proof (cases rule: lexeme_ok_cases)
    case word
    then show ?thesis
      using word_char_not_blank [of "hd v"] word_type_not_literal [of v]
      by (cases v) (auto simp: starts_token_def lexeme_text_def is_word_def)
  next
    case number
    then show ?thesis
      using word_char_not_blank [of "hd v"]
      by (cases v) (auto simp: starts_token_def lexeme_text_def is_word_char_def c_isalnum_def)
  next
    case string
    then show ?thesis by (simp add: starts_token_def lexeme_text_def c_isspace_def)
  next
    case (punct c)
    then show ?thesis using punctuation_not_blank [of c t] by (auto simp: starts_token_def lexeme_text_def)
  qed
qed

lemma digit_is_word: "is_digit c \<Longrightarrow> is_word_char c \<and> \<not> c_isalpha c \<and> c \<noteq> CHR ''_''"
  by (auto simp: is_word_char_def c_isalnum_def c_isalpha_def is_digit_def)

lemma not_word_char: "\<not> is_word_char c \<Longrightarrow> \<not> c_isalpha c \<and> c \<noteq> CHR ''_'' \<and> \<not> is_digit c"
  by (auto simp: is_word_char_def c_isalnum_def)

text \<open>Reading one token, blanks before it included.\<close>

lemma nextToken_at:
  assumes "list_all blank_ok bs" "lexeme_ok (t, v)" "glue_ok (t, v) r"
  shows "nextToken (lex_at n (blanks_text bs @ lexeme_text (t, v) @ r) p) =
    (let q = pos_after (blanks_text bs) p
     in (mk_Token t v (fst q) (snd q), lex_at n r (pos_after (lexeme_text (t, v)) q)))"
proof -
  let ?q = "pos_after (blanks_text bs) p"
  have skip: "skipWhitespaceAndComments (lex_at n (blanks_text bs @ lexeme_text (t, v) @ r) p)
      = lex_at n (lexeme_text (t, v) @ r) ?q"
    using skip_blanks_at assms lexeme_starts by blast
  note nt = nextToken_def skip Let_def
  from assms(2) show ?thesis
  proof (cases rule: lexeme_ok_cases)
    case word
    then obtain c cs where v: "v = c # cs" "c_isalpha c \<or> c = CHR ''_''" "list_all is_word_char v"
      by (cases v) (auto simp: is_word_def)
    have itself: "lexeme_text (t, v) = v" using word word_type_not_literal by (auto simp: lexeme_text_def)
    have "is_word_char c" using v by auto
    then have "r = [] \<or> \<not> is_word_char (hd r)"
      using assms(3) v(1) word(2) word_type_not_literal by (auto simp: glue_ok_def)
    then have "advance_while is_word_char (lex_at n (v @ r) ?q) = (v, lex_at n r (pos_after v ?q))"
      using v(3) by (rule advance_while_at [rotated])
    then show ?thesis
      unfolding nt unfolding itself using v(1,2) word(2) by (simp add: readIdentifierOrKeyword_def)
  next
    case number
    then obtain c cs where v: "v = c # cs" "is_digit c" "list_all is_digit v" by (cases v) auto
    have itself: "lexeme_text (t, v) = v" using number by (auto simp: lexeme_text_def)
    have "r = [] \<or> \<not> is_digit (hd r)"
      using assms(3) v number digit_is_word by (auto simp: glue_ok_def)
    then have "advance_while is_digit (lex_at n (v @ r) ?q) = (v, lex_at n r (pos_after v ?q))"
      using v(3) by (rule advance_while_at [rotated])
    then show ?thesis
      unfolding nt unfolding itself using v(1,2) number digit_is_word [OF v(2)] by (simp add: readNumber_def)
  next
    case string
    then show ?thesis
      using advance_while_at [OF string(2), of "CHR 0x22 # r" n "pos_step (CHR 0x22) ?q"]
      unfolding nt by (simp add: lexeme_text_def c_isalpha_def is_digit_def readStringToken_def)
  next
    case (punct c)
    then show ?thesis
      unfolding nt using punctuation_not_blank [OF punct(2)] not_word_char [of c]
      by (auto simp: lexeme_text_def)
  qed
qed

lemma lexeme_type: "lexeme_ok (t, v) \<Longrightarrow> t \<noteq> TOK_EOF \<and> t \<noteq> TOK_ERROR"
  by (elim lexeme_ok_cases) (auto dest: punctuation_not_blank)

theorem lex_layout:
  "layout_ok xs final \<Longrightarrow> lex_all (lex_at n (layout_text xs final) p) = layout_tokens xs final p"
proof (induction xs arbitrary: p)
  case Nil
  then have "skipWhitespaceAndComments (lex_at n (blanks_text final) p) = lex_at n [] (pos_after (blanks_text final) p)"
    using skip_blanks_at [of final "[]" n p] by (simp add: starts_token_def)
  then show ?case by (subst lex_all.simps) (simp add: nextToken_def mk_Token_def Let_def)
next
  case (Cons x xs)
  obtain bs t v where x: "x = (bs, t, v)" by (cases x)
  with Cons.prems have ok: "list_all blank_ok bs" "lexeme_ok (t, v)" "glue_ok (t, v) (layout_text xs final)" "layout_ok xs final"
    by simp_all
  show ?case
    using lexeme_type [OF ok(2)] Cons.IH [OF ok(4)]
    by (subst lex_all.simps) (simp add: x nextToken_at [OF ok(1-3)] Let_def mk_Token_def)
qed

lemma Lexer_new_at: "Lexer_new s = lex_at (length s) s (1, 1)"
  by (simp add: Lexer_new_def lex_at_def)

end
