(* ===== verification/IdlParser.thy ===== *)
theory IdlParser
  imports IdlLexer OrdMap
begin

section \<open>The parser of the interface definition language\<close>

text \<open>
  tools/omni_idlc/ast.h and parser.cpp: the syntax tree, the recursive-descent parser with one token
  of look-ahead, and the loading of imported files. A parser goes on after an error the way the code
  does, so every operation passes the parser state on, error flag and message included; where the
  code returns \<open>false\<close> the parsed value is dropped, here \<open>None\<close>. The files and \<open>realpath\<close> are parameters.
  Imports nest at most \<open>IDLC_MAX_IMPORT_DEPTH\<close> deep: \<open>parse\<close> unrolls itself that many times.
\<close>

subsection \<open>The syntax tree\<close>

datatype PrimitiveType =
    TYPE_BOOL | TYPE_INT8 | TYPE_UINT8 | TYPE_INT16 | TYPE_UINT16
  | TYPE_INT32 | TYPE_UINT32 | TYPE_INT64 | TYPE_UINT64
  | TYPE_FLOAT32 | TYPE_FLOAT64 | TYPE_STRING | TYPE_BYTES
  | TYPE_VOID | TYPE_CUSTOM | TYPE_ARRAY

datatype TypeRef =
  TypeRef (tr_primitive: PrimitiveType) (tr_custom_name: string) (tr_package_name: string)
    (tr_element_type: "TypeRef option")

record FieldDef =
  fd_type :: TypeRef
  fd_name :: string

record StructDef =
  sd_name :: string
  sd_fields :: "FieldDef list"

record TopicDef =
  td_name :: string
  td_fields :: "FieldDef list"

record MethodDef =
  md_name :: string
  md_return_type :: TypeRef
  md_param :: FieldDef
  md_has_param :: bool

record ServiceDef =
  sv_name :: string
  sv_methods :: "MethodDef list"
  sv_publishes :: "string list"

record AstFile =
  af_package_name :: string
  af_file_path :: string
  af_imports :: "string list"
  af_imported_packages :: "string list"
  af_structs :: "StructDef list"
  af_topics :: "TopicDef list"
  af_services :: "ServiceDef list"
  af_imports_before_declarations :: bool
  af_package_before :: bool
  af_package_count :: nat

definition AstFile_init :: AstFile where
  "AstFile_init = \<lparr>af_package_name = [], af_file_path = [], af_imports = [], af_imported_packages = [], af_structs = [],
     af_topics = [], af_services = [], af_imports_before_declarations = True, af_package_before = True, af_package_count = 0\<rparr>"

definition TypeRef_init :: TypeRef where
  "TypeRef_init = TypeRef TYPE_VOID [] [] None"

subsection \<open>The shared context and the parser\<close>

definition IDLC_MAX_SOURCE_BYTES_PER_FILE :: nat where "IDLC_MAX_SOURCE_BYTES_PER_FILE = 16 * 1024 * 1024"
definition IDLC_MAX_TOTAL_SOURCE_BYTES :: nat where "IDLC_MAX_TOTAL_SOURCE_BYTES = 64 * 1024 * 1024"
definition IDLC_MAX_IMPORT_FILES :: nat where "IDLC_MAX_IMPORT_FILES = 256"
definition IDLC_MAX_IMPORT_DEPTH :: nat where "IDLC_MAX_IMPORT_DEPTH = 64"
definition IDLC_MAX_TYPE_NESTING :: nat where "IDLC_MAX_TYPE_NESTING = 64"

record ParseContext =
  pc_loaded_packages :: "(string, AstFile) omap"
  pc_file_to_package :: "(string, string) omap"
  pc_processing_files :: "string oset"
  pc_type_registry :: "(string, string) omap"
  pc_all_files :: "string list"
  pc_total_source_bytes :: nat
  pc_import_file_count :: nat

definition ParseContext_init :: ParseContext where
  "ParseContext_init = \<lparr>pc_loaded_packages = om_empty, pc_file_to_package = om_empty, pc_processing_files = om_empty,
     pc_type_registry = om_empty, pc_all_files = [], pc_total_source_bytes = 0, pc_import_file_count = 0\<rparr>"

text \<open>The file system: the reported size and the contents of a file that can be opened, and \<open>realpath\<close>.\<close>

record IdlFiles =
  fs_open :: "string \<Rightarrow> (int \<times> string) option"
  fs_realpath :: "string \<Rightarrow> string option"

record Parser =
  pr_lexer :: Lexer
  pr_current :: Token
  pr_has_error :: bool
  pr_error_msg :: string
  pr_file_path :: string
  pr_base_dir :: string
  pr_saw_import :: bool
  pr_saw_declaration :: bool
  pr_import_depth :: nat

definition is_path_sep :: "char \<Rightarrow> bool" where
  "is_path_sep c \<longleftrightarrow> c = CHR ''/'' \<or> c = CHR 0x5C"

definition getDirectory :: "string \<Rightarrow> string" where
  "getDirectory path =
     (case dropWhile (\<lambda>c. \<not> is_path_sep c) (rev path) of [] \<Rightarrow> ''.'' | _ # dir \<Rightarrow> rev dir)"

definition isAbsolutePath :: "string \<Rightarrow> bool" where
  "isAbsolutePath path = (case path of [] \<Rightarrow> False | c # _ \<Rightarrow> c = CHR ''/'')"

definition resolvePath :: "string \<Rightarrow> Parser \<Rightarrow> string" where
  "resolvePath import_path p =
     (if isAbsolutePath import_path then import_path else pr_base_dir p @ ''/'' @ import_path)"

definition normalizePath :: "IdlFiles \<Rightarrow> string \<Rightarrow> string" where
  "normalizePath fs path = (case fs_realpath fs path of Some r \<Rightarrow> r | None \<Rightarrow> path)"

definition parser_error :: "string \<Rightarrow> Parser \<Rightarrow> Parser" where
  "parser_error msg p =
     p\<lparr>pr_has_error := True, pr_error_msg := (if pr_file_path p \<noteq> [] then pr_file_path p @ '': '' @ msg else msg)\<rparr>"

text \<open>\<open>char buf[320]\<close> keeps 319 characters.\<close>

definition errorAtCurrent :: "string \<Rightarrow> Parser \<Rightarrow> Parser" where
  "errorAtCurrent expected p =
     (let what = (if tok_type (pr_current p) = TOK_ERROR then lx_error_msg (pr_lexer p) else expected)
      in parser_error (take 319 (cstr what @ '' at line '' @ dec (tok_line (pr_current p)) @ '':''
           @ dec (tok_column (pr_current p)))) p)"

definition p_next :: "Parser \<Rightarrow> Parser" where
  "p_next p = (let (t, l) = nextToken (pr_lexer p) in p\<lparr>pr_current := t, pr_lexer := l\<rparr>)"

definition quoted :: "string \<Rightarrow> string" where
  "quoted s = [CHR 0x27] @ s @ [CHR 0x27]"

definition expect :: "TokenType \<Rightarrow> Parser \<Rightarrow> Token \<times> Parser" where
  "expect t p =
     (if tok_type (pr_current p) \<noteq> t then
        (pr_current p,
         errorAtCurrent (''Expected '' @ quoted (tokenTypeToString t) @ '' but got ''
           @ quoted (tokenTypeToString (tok_type (pr_current p))) @ '' ('' @ quoted (tok_value (pr_current p)) @ '')'') p)
      else (pr_current p, p_next p))"

text \<open>The constructor with a context.\<close>

definition Parser_new :: "Lexer \<Rightarrow> ParseContext \<Rightarrow> string \<Rightarrow> nat \<Rightarrow> Parser \<times> ParseContext" where
  "Parser_new lexer ctx file_path depth =
     (let p = \<lparr>pr_lexer = lexer, pr_current = mk_Token TOK_EOF [] 0 0, pr_has_error = False, pr_error_msg = [],
               pr_file_path = file_path, pr_base_dir = getDirectory file_path, pr_saw_import = False,
               pr_saw_declaration = False, pr_import_depth = depth\<rparr>
      in if lx_size lexer > IDLC_MAX_SOURCE_BYTES_PER_FILE \<or>
            pc_total_source_bytes ctx > IDLC_MAX_TOTAL_SOURCE_BYTES - lx_size lexer
         then (p_next (parser_error ''IDL source size limit exceeded'' p), ctx)
         else (p_next p, ctx\<lparr>pc_total_source_bytes := pc_total_source_bytes ctx + lx_size lexer\<rparr>))"

subsection \<open>Progress of the parser\<close>

text \<open>
  What is left of a source, the current token included. Operations never add to it, and they take
  something off it or raise the error flag, which is never lowered: the loops below end.
\<close>

definition left :: "Parser \<Rightarrow> nat" where
  "left p = length (lx_rest (pr_lexer p)) + (if tok_type (pr_current p) = TOK_EOF then 0 else 1)"

definition same_file :: "Parser \<Rightarrow> Parser \<Rightarrow> bool" where
  "same_file p p' \<longleftrightarrow> pr_file_path p' = pr_file_path p \<and> pr_base_dir p' = pr_base_dir p \<and> pr_import_depth p' = pr_import_depth p"

definition calm :: "Parser \<Rightarrow> Parser \<Rightarrow> bool" where
  "calm p p' \<longleftrightarrow> same_file p p' \<and> (pr_has_error p \<longrightarrow> pr_has_error p') \<and> left p' \<le> left p"

definition moves :: "Parser \<Rightarrow> Parser \<Rightarrow> bool" where
  "moves p p' \<longleftrightarrow> calm p p' \<and> (pr_has_error p' \<or> left p' < left p)"

lemma calm_refl [intro]: "calm p p" by (simp add: calm_def same_file_def)

lemma calm_trans: "calm p q \<Longrightarrow> calm q r \<Longrightarrow> calm p r" by (auto simp: calm_def same_file_def)

lemma moves_calm: "moves p q \<Longrightarrow> calm q r \<Longrightarrow> moves p r" by (auto simp: moves_def calm_def same_file_def)

lemma calm_moves: "calm p q \<Longrightarrow> moves q r \<Longrightarrow> moves p r" by (auto simp: moves_def calm_def same_file_def)

lemma moves_imp_calm: "moves p q \<Longrightarrow> calm p q" by (simp add: moves_def)

lemma left_next:
  "left (p_next p) \<le> left p" "tok_type (pr_current p) \<noteq> TOK_EOF \<Longrightarrow> left (p_next p) < left p"
  using nextToken_progress [of "pr_lexer p"] by (auto simp: left_def p_next_def split_def Let_def split: if_splits)

lemma error_next [simp]: "pr_has_error (p_next p) = pr_has_error p"
  by (simp add: p_next_def split_def Let_def)

lemma left_error [simp]: "left (parser_error m p) = left p" "pr_has_error (parser_error m p)"
  "left (errorAtCurrent m p) = left p" "pr_has_error (errorAtCurrent m p)"
  by (simp_all add: parser_error_def errorAtCurrent_def left_def Let_def)

lemma same_file_simps [simp]:
  "same_file p (p_next p)" "same_file p (parser_error m p)" "same_file p (errorAtCurrent m p)"
  by (simp_all add: same_file_def p_next_def parser_error_def errorAtCurrent_def split_def Let_def)

lemma calm_next: "calm p (p_next p)"
  using left_next(1) [of p] by (simp add: calm_def)

lemma moves_next: "tok_type (pr_current p) \<noteq> TOK_EOF \<Longrightarrow> moves p (p_next p)"
  using left_next(2) [of p] by (simp add: moves_def calm_def)

lemma moves_error: "moves p (parser_error m p)" "moves p (errorAtCurrent m p)"
  by (simp_all add: moves_def calm_def)

lemma calm_expect: "calm p (snd (expect t p))"
  using calm_next [of p] moves_imp_calm [OF moves_error(2), of p] by (simp add: expect_def)

lemma moves_expect: "t \<noteq> TOK_EOF \<Longrightarrow> moves p (snd (expect t p))"
  using moves_next [of p] moves_error(2) [of p] by (auto simp: expect_def)

subsection \<open>Types, fields and methods\<close>

definition primitive_of :: "TokenType \<Rightarrow> PrimitiveType option" where
  "primitive_of t =
     (case t of
        TOK_BOOL \<Rightarrow> Some TYPE_BOOL | TOK_INT8 \<Rightarrow> Some TYPE_INT8 | TOK_UINT8 \<Rightarrow> Some TYPE_UINT8
      | TOK_INT16 \<Rightarrow> Some TYPE_INT16 | TOK_UINT16 \<Rightarrow> Some TYPE_UINT16 | TOK_INT32 \<Rightarrow> Some TYPE_INT32
      | TOK_UINT32 \<Rightarrow> Some TYPE_UINT32 | TOK_INT64 \<Rightarrow> Some TYPE_INT64 | TOK_UINT64 \<Rightarrow> Some TYPE_UINT64
      | TOK_FLOAT32 \<Rightarrow> Some TYPE_FLOAT32 | TOK_FLOAT64 \<Rightarrow> Some TYPE_FLOAT64 | TOK_STRING_TYPE \<Rightarrow> Some TYPE_STRING
      | TOK_BYTES \<Rightarrow> Some TYPE_BYTES | TOK_VOID \<Rightarrow> Some TYPE_VOID | _ \<Rightarrow> None)"

definition unless_error :: "'a \<Rightarrow> Parser \<Rightarrow> 'a option \<times> Parser" where
  "unless_error x p = (if pr_has_error p then None else Some x, p)"

function parseType :: "nat \<Rightarrow> Parser \<Rightarrow> TypeRef option \<times> Parser" where
  "parseType nesting p =
     (if nesting \<ge> IDLC_MAX_TYPE_NESTING then (None, parser_error ''type nesting limit exceeded'' p)
      else
        let cur = pr_current p in
        case primitive_of (tok_type cur) of
          Some prim \<Rightarrow> unless_error (TypeRef prim [] [] None) (p_next p)
        | None \<Rightarrow>
            if tok_type cur = TOK_ARRAY then
              let p = p_next p; p = snd (expect TOK_LANGLE p) in
              case parseType (nesting + 1) p of
                (None, p) \<Rightarrow> (None, p)
              | (Some e, p) \<Rightarrow> unless_error (TypeRef TYPE_ARRAY [] [] (Some e)) (snd (expect TOK_RANGLE p))
            else if tok_type cur = TOK_IDENTIFIER then
              let first_name = tok_value cur; p = p_next p in
              if tok_type (pr_current p) = TOK_DOT then
                let p = p_next p in
                if tok_type (pr_current p) \<noteq> TOK_IDENTIFIER
                then (None, parser_error (''Expected type name after '' @ quoted (first_name @ ''.'')) p)
                else unless_error (TypeRef TYPE_CUSTOM (tok_value (pr_current p)) first_name None) (p_next p)
              else unless_error (TypeRef TYPE_CUSTOM first_name [] None) p
            else
              let got = (if tok_value cur = [] then tokenTypeToString (tok_type cur) else tok_value cur)
              in (None, errorAtCurrent (''Expected type, got '' @ quoted got) p))"
  by auto
termination
  by (relation "measure (\<lambda>(nesting, p). IDLC_MAX_TYPE_NESTING - nesting)") auto

declare parseType.simps [simp del]

definition parseField :: "Parser \<Rightarrow> FieldDef option \<times> Parser" where
  "parseField p =
     (case parseType 0 p of
        (None, p) \<Rightarrow> (None, p)
      | (Some t, p) \<Rightarrow>
          let (name, p) = expect TOK_IDENTIFIER p; (_, p) = expect TOK_SEMICOLON p
          in unless_error \<lparr>fd_type = t, fd_name = tok_value name\<rparr> p)"

text \<open>The parameter between the parentheses: \<open>None\<close> where the method is given up.\<close>

definition parseParam :: "Parser \<Rightarrow> (bool \<times> FieldDef) option \<times> Parser" where
  "parseParam p =
     (if tok_type (pr_current p) \<noteq> TOK_RPAREN then
        case parseType 0 p of
          (None, p) \<Rightarrow> (None, p)
        | (Some t, p) \<Rightarrow> let (pname, p) = expect TOK_IDENTIFIER p in (Some (True, \<lparr>fd_type = t, fd_name = tok_value pname\<rparr>), p)
      else (Some (False, \<lparr>fd_type = TypeRef_init, fd_name = []\<rparr>), p))"

definition parseMethod :: "Parser \<Rightarrow> MethodDef option \<times> Parser" where
  "parseMethod p =
     (case parseType 0 p of
        (None, p) \<Rightarrow> (None, p)
      | (Some t, p) \<Rightarrow>
          let (name, p) = expect TOK_IDENTIFIER p; (_, p) = expect TOK_LPAREN p in
          case parseParam p of
            (None, p) \<Rightarrow> (None, p)
          | (Some (has_param, param), p) \<Rightarrow>
              let (_, p) = expect TOK_RPAREN p; (_, p) = expect TOK_SEMICOLON p
              in unless_error \<lparr>md_name = tok_value name, md_return_type = t, md_param = param, md_has_param = has_param\<rparr> p)"

lemma snd_unless_error [simp]: "snd (unless_error x p) = p"
  by (simp add: unless_error_def)

text \<open>A false result always comes with the error flag.\<close>

lemma primitive_of_EOF [simp]: "primitive_of TOK_EOF = None" "primitive_of TOK_ERROR = None"
  by (simp_all add: primitive_of_def)

lemma moves_parseType: "moves p (snd (parseType n p))"
proof (induction n p rule: parseType.induct)
  case (1 n p)
  let ?cur = "pr_current p"
  show ?case
  proof (cases "n \<ge> IDLC_MAX_TYPE_NESTING")
    case True
    then show ?thesis by (subst parseType.simps) (simp add: moves_error)
  next
    case False
    show ?thesis
    proof (cases "primitive_of (tok_type ?cur)")
      case (Some prim)
      then have "tok_type ?cur \<noteq> TOK_EOF" by auto
      with Some False show ?thesis by (subst parseType.simps) (simp add: moves_next)
    next
      case None
      consider (array) "tok_type ?cur = TOK_ARRAY" | (ident) "tok_type ?cur = TOK_IDENTIFIER"
        | (other) "tok_type ?cur \<noteq> TOK_ARRAY" "tok_type ?cur \<noteq> TOK_IDENTIFIER" by blast
      then show ?thesis
      proof cases
        case array
        let ?q = "snd (expect TOK_LANGLE (p_next p))"
        have "moves p ?q" using array by (intro moves_calm [OF moves_next calm_expect]) simp
        moreover have "moves ?q (snd (parseType (n + 1) ?q))"
          using 1 [OF False refl None array refl refl] .
        ultimately have "moves p (snd (parseType (n + 1) ?q))"
          by (blast intro: moves_calm moves_imp_calm)
        then show ?thesis
          using False None array
          by (subst parseType.simps) (auto simp: Let_def split: prod.split option.split intro: moves_calm calm_expect)
      next
        case ident
        then have m: "moves p (p_next p)" by (intro moves_next) simp
        show ?thesis
          using False None ident m
          by (subst parseType.simps)
             (auto simp: Let_def intro!: moves_calm [OF m] calm_trans [OF calm_next calm_next]
                calm_trans [OF calm_next moves_imp_calm [OF moves_error(1)]])
      next
        case other
        then show ?thesis using False None by (subst parseType.simps) (simp add: Let_def moves_error)
      qed
    qed
  qed
qed

lemma moves_parseField: "moves p (snd (parseField p))"
  using moves_parseType [of p 0]
  by (auto simp: parseField_def split_def Let_def split: prod.split option.split
      intro: moves_calm [OF _ calm_trans [OF calm_expect calm_expect]])

lemma calm_parseParam: "calm p (snd (parseParam p))"
  using moves_parseType [of p 0]
  by (auto simp: parseParam_def split_def Let_def split: prod.split option.split
      intro: moves_imp_calm moves_calm [OF _ calm_expect])

lemma moves_parseMethod: "moves p (snd (parseMethod p))"
proof (cases "parseType 0 p")
  case (Pair t q)
  then have q: "moves p q" using moves_parseType [of p 0] by simp
  let ?r = "snd (expect TOK_LPAREN (snd (expect TOK_IDENTIFIER q)))"
  have r: "moves p (snd (parseParam ?r))"
    by (rule moves_calm [OF q]) (intro calm_trans [OF calm_trans [OF calm_expect calm_expect] calm_parseParam])
  show ?thesis
  proof (cases "parseParam ?r")
    case (Pair x s)
    then have "moves p s" using r by simp
    then have "moves p (snd (expect TOK_SEMICOLON (snd (expect TOK_RPAREN s))))"
      by (rule moves_calm) (rule calm_trans [OF calm_expect calm_expect])
    with q \<open>moves p s\<close> show ?thesis
      using \<open>parseType 0 p = (t, q)\<close> Pair
      by (auto simp: parseMethod_def split_def Let_def split: option.split)
  qed
qed

subsection \<open>Declarations\<close>

definition stops_body :: "Parser \<Rightarrow> bool" where
  "stops_body p \<longleftrightarrow> tok_type (pr_current p) = TOK_RBRACE \<or> tok_type (pr_current p) = TOK_EOF \<or> pr_has_error p"

text \<open>A loop decreases this as long as it goes on.\<close>

definition fuel_left :: "Parser \<Rightarrow> nat" where
  "fuel_left p = (if pr_has_error p then 0 else Suc (left p))"

lemma fuel_moves: "moves p q \<Longrightarrow> \<not> pr_has_error p \<Longrightarrow> fuel_left q < fuel_left p"
  by (auto simp: moves_def fuel_left_def)

lemma moves_pair:
  "parseField p = (f, q) \<Longrightarrow> moves p q" "parseMethod p = (m, q) \<Longrightarrow> moves p q" "parseType n p = (t, q) \<Longrightarrow> moves p q"
  using moves_parseField [of p] moves_parseMethod [of p] moves_parseType [of p n] by simp_all

function parseFields :: "Parser \<Rightarrow> FieldDef list \<times> Parser" where
  "parseFields p =
     (if stops_body p then ([], p)
      else let (f, p) = parseField p; (fs, p) = parseFields p in (case f of Some f \<Rightarrow> f # fs | None \<Rightarrow> fs, p))"
  by auto
termination
  by (relation "measure fuel_left") (auto simp: stops_body_def intro!: fuel_moves moves_pair(1) [OF sym])

declare parseFields.simps [simp del]

definition parseStruct :: "AstFile \<Rightarrow> Parser \<Rightarrow> AstFile \<times> Parser" where
  "parseStruct ast p =
     (let (_, p) = expect TOK_STRUCT p; (name, p) = expect TOK_IDENTIFIER p; (_, p) = expect TOK_LBRACE p;
          (fields, p) = parseFields p; (_, p) = expect TOK_RBRACE p
      in (ast\<lparr>af_structs := af_structs ast @ [\<lparr>sd_name = tok_value name, sd_fields = fields\<rparr>]\<rparr>, p))"

definition parseTopic :: "AstFile \<Rightarrow> Parser \<Rightarrow> AstFile \<times> Parser" where
  "parseTopic ast p =
     (let (_, p) = expect TOK_TOPIC p; (name, p) = expect TOK_IDENTIFIER p; (_, p) = expect TOK_LBRACE p;
          (fields, p) = parseFields p; (_, p) = expect TOK_RBRACE p
      in (ast\<lparr>af_topics := af_topics ast @ [\<lparr>td_name = tok_value name, td_fields = fields\<rparr>]\<rparr>, p))"

text \<open>The methods and the published topics of a service body.\<close>

function parseMembers :: "Parser \<Rightarrow> (MethodDef list \<times> string list) \<times> Parser" where
  "parseMembers p =
     (if stops_body p then (([], []), p)
      else if tok_type (pr_current p) = TOK_PUBLISHES then
        let p = p_next p; (name, p) = expect TOK_IDENTIFIER p; (_, p) = expect TOK_SEMICOLON p;
            ((ms, ps), p) = parseMembers p
        in ((ms, tok_value name # ps), p)
      else
        let (m, p) = parseMethod p; ((ms, ps), p) = parseMembers p
        in ((case m of Some m \<Rightarrow> m # ms | None \<Rightarrow> ms, ps), p))"
  by auto
termination
proof (relation "measure fuel_left")
  fix p q x name q' y z q'' assume "\<not> stops_body p" "tok_type (pr_current p) = TOK_PUBLISHES" "q = p_next p"
    "x = expect TOK_IDENTIFIER q" "(name, q') = x" "y = expect TOK_SEMICOLON q'" "(z, q'') = y"
  then have "moves p (p_next p)" "calm (p_next p) q'" "calm q' q''" "\<not> pr_has_error p"
    using moves_next [of p] calm_expect [of "p_next p" TOK_IDENTIFIER] calm_expect [of q' TOK_SEMICOLON]
    by (auto simp: stops_body_def) (metis snd_conv)+
  then show "(q'', p) \<in> measure fuel_left"
    by (auto intro: fuel_moves moves_calm calm_trans)
qed (auto simp: stops_body_def intro!: fuel_moves moves_pair(2) [OF sym])

declare parseMembers.simps [simp del]

definition parseService :: "AstFile \<Rightarrow> Parser \<Rightarrow> AstFile \<times> Parser" where
  "parseService ast p =
     (let (_, p) = expect TOK_SERVICE p; (name, p) = expect TOK_IDENTIFIER p; (_, p) = expect TOK_LBRACE p;
          ((methods, publishes), p) = parseMembers p; (_, p) = expect TOK_RBRACE p
      in (ast\<lparr>af_services := af_services ast @
            [\<lparr>sv_name = tok_value name, sv_methods = methods, sv_publishes = publishes\<rparr>]\<rparr>, p))"

definition parsePackage :: "AstFile \<Rightarrow> Parser \<Rightarrow> AstFile \<times> Parser" where
  "parsePackage ast p =
     (let ast = ast\<lparr>af_package_count := af_package_count ast + 1\<rparr>;
          ast = (if pr_saw_import p \<or> pr_saw_declaration p then ast\<lparr>af_package_before := False\<rparr> else ast);
          (_, p) = expect TOK_PACKAGE p; (name, p) = expect TOK_IDENTIFIER p; (_, p) = expect TOK_SEMICOLON p
      in (ast\<lparr>af_package_name := tok_value name\<rparr>, p))"

subsection \<open>Imports and whole files\<close>

type_synonym file_parser = "Parser \<Rightarrow> ParseContext \<Rightarrow> bool \<times> AstFile \<times> Parser \<times> ParseContext"

text \<open>
  Loading one file: the limits on the number and the size of files, then the parser of the imported
  file, \<open>sub\<close>. The result is the package of the file, or the error.
\<close>

definition loadImport ::
  "IdlFiles \<Rightarrow> file_parser \<Rightarrow> string \<Rightarrow> string \<Rightarrow> Parser \<Rightarrow> ParseContext \<Rightarrow> string option \<times> Parser \<times> ParseContext" where
  "loadImport fs sub resolved normalized p ctx =
     (case fs_open fs resolved of
        None \<Rightarrow> (None, parser_error (''Cannot open imported file: '' @ resolved) p, ctx)
      | Some (file_size, source) \<Rightarrow>
          if file_size < 0 \<or> nat file_size > IDLC_MAX_SOURCE_BYTES_PER_FILE \<or>
             nat file_size > IDLC_MAX_TOTAL_SOURCE_BYTES - pc_total_source_bytes ctx
          then (None, parser_error (''Imported IDL source size limit exceeded: '' @ resolved) p, ctx)
          else
            let ctx = ctx\<lparr>pc_import_file_count := pc_import_file_count ctx + 1, pc_all_files := pc_all_files ctx @ [normalized]\<rparr>;
                (dep_parser, ctx) = Parser_new (Lexer_new source) ctx resolved (pr_import_depth p + 1);
                (ok, dep_ast, dep_parser, ctx) = sub dep_parser ctx
            in if \<not> ok then (None, p\<lparr>pr_has_error := True, pr_error_msg := pr_error_msg dep_parser\<rparr>, ctx)
               else (Some (af_package_name dep_ast), p,
                     ctx\<lparr>pc_file_to_package := om_update normalized (af_package_name dep_ast) (pc_file_to_package ctx)\<rparr>))"

definition parseImport ::
  "IdlFiles \<Rightarrow> file_parser \<Rightarrow> AstFile \<Rightarrow> Parser \<Rightarrow> ParseContext \<Rightarrow> AstFile \<times> Parser \<times> ParseContext" where
  "parseImport fs sub ast p ctx =
     (let p = p\<lparr>pr_saw_import := True\<rparr>;
          ast = (if pr_saw_declaration p then ast\<lparr>af_imports_before_declarations := False\<rparr> else ast);
          (_, p) = expect TOK_IMPORT p; (path_tok, p) = expect TOK_STRING p; (_, p) = expect TOK_SEMICOLON p
      in if pr_has_error p then (ast, p, ctx)
         else
           let import_path = tok_value path_tok;
               ast = ast\<lparr>af_imports := af_imports ast @ [import_path]\<rparr>;
               resolved = resolvePath import_path p;
               normalized = normalizePath fs resolved
           in case om_lookup (pc_file_to_package ctx) normalized of
                Some known \<Rightarrow> (ast\<lparr>af_imported_packages := af_imported_packages ast @ [known]\<rparr>, p, ctx)
              | None \<Rightarrow>
                  if os_member (pc_processing_files ctx) normalized
                  then (ast, parser_error (''Circular import detected: '' @ import_path) p, ctx)
                  else if pr_import_depth p \<ge> IDLC_MAX_IMPORT_DEPTH
                  then (ast, parser_error ''import depth limit exceeded'' p, ctx)
                  else if pc_import_file_count ctx \<ge> IDLC_MAX_IMPORT_FILES
                  then (ast, parser_error ''import file limit exceeded'' p, ctx)
                  else
                    case loadImport fs sub resolved normalized p ctx of
                      (None, p, ctx) \<Rightarrow> (ast, p, ctx)
                    | (Some pkg, p, ctx) \<Rightarrow> (ast\<lparr>af_imported_packages := af_imported_packages ast @ [pkg]\<rparr>, p, ctx))"

definition registerTypes :: "AstFile \<Rightarrow> ParseContext \<Rightarrow> ParseContext" where
  "registerTypes ast ctx =
     (let pkg = af_package_name ast;
          add = (\<lambda>name. om_update (pkg @ ''.'' @ name) pkg)
      in ctx\<lparr>pc_type_registry :=
           fold add (map sv_name (af_services ast))
             (fold add (map td_name (af_topics ast)) (fold add (map sd_name (af_structs ast)) (pc_type_registry ctx)))\<rparr>)"

definition parse_decl ::
  "IdlFiles \<Rightarrow> file_parser \<Rightarrow> AstFile \<Rightarrow> Parser \<Rightarrow> ParseContext \<Rightarrow> AstFile \<times> Parser \<times> ParseContext" where
  "parse_decl fs sub ast p ctx =
     (let plain = (\<lambda>(ast, p). (ast, p, ctx)); decl = p\<lparr>pr_saw_declaration := True\<rparr> in
      case tok_type (pr_current p) of
        TOK_PACKAGE \<Rightarrow> plain (parsePackage ast p)
      | TOK_IMPORT \<Rightarrow> parseImport fs sub ast p ctx
      | TOK_STRUCT \<Rightarrow> plain (parseStruct ast decl)
      | TOK_TOPIC \<Rightarrow> plain (parseTopic ast decl)
      | TOK_SERVICE \<Rightarrow> plain (parseService ast decl)
      | _ \<Rightarrow> (ast, errorAtCurrent (''Unexpected token '' @ quoted (tok_value (pr_current p))) p, ctx))"

lemma calm_saw [simp]: "calm (p\<lparr>pr_saw_declaration := b\<rparr>) q = calm p q" "calm (p\<lparr>pr_saw_import := b\<rparr>) q = calm p q"
  "moves (p\<lparr>pr_saw_declaration := b\<rparr>) q = moves p q" "moves (p\<lparr>pr_saw_import := b\<rparr>) q = moves p q"
  by (simp_all add: calm_def moves_def left_def same_file_def)

lemma calm_parseFields: "calm p (snd (parseFields p))"
proof (induction p rule: parseFields.induct)
  case (1 p)
  show ?case
    using 1 [OF _ refl prod.collapse] moves_parseField [THEN moves_imp_calm, of p]
    by (subst parseFields.simps) (auto simp: split_def Let_def intro: calm_trans)
qed

lemma calm_parseMembers: "calm p (snd (parseMembers p))"
proof (induction p rule: parseMembers.induct)
  case (1 p)
  have "calm p (snd (expect TOK_SEMICOLON (snd (expect TOK_IDENTIFIER (p_next p)))))"
    by (intro calm_trans [OF calm_next calm_trans [OF calm_expect calm_expect]])
  then show ?case
    using 1(1) [OF _ _ refl refl prod.collapse refl prod.collapse] 1(2) [OF _ _ refl prod.collapse]
      moves_parseMethod [THEN moves_imp_calm, of p]
    by (subst parseMembers.simps) (auto simp: split_def Let_def intro: calm_trans)
qed

lemma moves_expect3:
  "t \<noteq> TOK_EOF \<Longrightarrow> moves p (snd (expect t2 (snd (expect t1 (snd (expect t p))))))"
  by (intro moves_calm [OF moves_expect calm_trans [OF calm_expect calm_expect]])

lemma moves_body:
  "t \<noteq> TOK_EOF \<Longrightarrow> (\<And>q. calm q (snd (body q))) \<Longrightarrow>
     moves p (snd (expect t3 (snd (body (snd (expect t2 (snd (expect t1 (snd (expect t p)))))))))) "
  by (rule moves_calm [OF moves_calm [OF moves_expect3] calm_expect])

lemma moves_declarations:
  "moves p (snd (parsePackage ast p))" "moves p (snd (parseStruct ast p))" "moves p (snd (parseTopic ast p))"
  "moves p (snd (parseService ast p))"
  using moves_expect3 [of TOK_PACKAGE p] moves_body [of TOK_STRUCT parseFields p] moves_body [of TOK_TOPIC parseFields p]
    moves_body [of TOK_SERVICE parseMembers p] calm_parseFields calm_parseMembers
  by (simp_all add: parsePackage_def parseStruct_def parseTopic_def parseService_def split_def Let_def)

lemma calm_loadImport: "calm p (fst (snd (loadImport fs sub r n p ctx)))"
  by (simp add: loadImport_def calm_def left_def same_file_def parser_error_def split_def Let_def split: option.split)

lemma moves_parseImport: "moves p (fst (snd (parseImport fs sub ast p ctx)))"
proof -
  let ?p = "p\<lparr>pr_saw_import := True\<rparr>"
  let ?q = "snd (expect TOK_SEMICOLON (snd (expect TOK_STRING (snd (expect TOK_IMPORT ?p)))))"
  have q: "moves p ?q" using moves_expect3 [of TOK_IMPORT ?p] by simp
  have "moves p (parser_error m ?q)" for m
    using q by (rule moves_calm) (rule moves_imp_calm [OF moves_error(1)])
  moreover have "moves p (fst (snd (loadImport fs sub r n ?q ctx)))" for r n
    using q by (rule moves_calm) (rule calm_loadImport)
  ultimately show ?thesis
    using q by (auto simp: parseImport_def split_def Let_def split: option.split)
qed

lemma moves_parse_decl: "moves p (fst (snd (parse_decl fs sub ast p ctx)))"
  using moves_declarations [of p ast] moves_declarations [of "p\<lparr>pr_saw_declaration := True\<rparr>" ast]
    moves_parseImport [of p fs sub ast ctx] moves_error(2) [of p]
  by (auto simp: parse_decl_def split_def Let_def split: TokenType.split)

function parse_decls ::
  "IdlFiles \<Rightarrow> file_parser \<Rightarrow> AstFile \<Rightarrow> Parser \<Rightarrow> ParseContext \<Rightarrow> AstFile \<times> Parser \<times> ParseContext" where
  "parse_decls fs sub ast p ctx =
     (if tok_type (pr_current p) = TOK_EOF \<or> pr_has_error p then (ast, p, ctx)
      else let (ast, p, ctx) = parse_decl fs sub ast p ctx in parse_decls fs sub ast p ctx)"
  by auto
termination
proof (relation "measure (\<lambda>(fs, sub, ast, p, ctx). fuel_left p)", goal_cases)
  case (2 fs sub ast p ctx x ast' y p' ctx')
  then have "p' = fst (snd (parse_decl fs sub ast p ctx))" by (metis fst_conv snd_conv)
  then show ?case using 2(1) moves_parse_decl by (auto intro: fuel_moves)
qed simp

declare parse_decls.simps [simp del]

text \<open>\<open>Parser::parse\<close>, with the parser of imported files as an argument.\<close>

definition parse_with :: "IdlFiles \<Rightarrow> file_parser \<Rightarrow> file_parser" where
  "parse_with fs sub p ctx =
     (let file_path = pr_file_path p;
          ast = AstFile_init\<lparr>af_file_path := file_path\<rparr>;
          normalized_self = (if file_path \<noteq> [] then normalizePath fs file_path else []);
          ctx = (if file_path \<noteq> [] then ctx\<lparr>pc_processing_files := os_insert normalized_self (pc_processing_files ctx)\<rparr> else ctx);
          release = (\<lambda>ctx. if normalized_self \<noteq> []
             then ctx\<lparr>pc_processing_files := om_erase normalized_self (pc_processing_files ctx)\<rparr> else ctx);
          (ast, p, ctx) = parse_decls fs sub ast p ctx
      in if pr_has_error p then (False, ast, p, release ctx)
         else
           let ctx = registerTypes ast ctx; pkg = af_package_name ast in
           if pkg = [] then (True, ast, p, release ctx)
           else
             case om_lookup (pc_loaded_packages ctx) pkg of
               Some other \<Rightarrow>
                 if af_file_path other \<noteq> file_path
                 then (False, ast, parser_error (''Package '' @ quoted pkg @ '' already defined in '' @ quoted (af_file_path other)) p, release ctx)
                 else (True, ast, p, release (ctx\<lparr>pc_loaded_packages := om_update pkg ast (pc_loaded_packages ctx)\<rparr>))
             | None \<Rightarrow> (True, ast, p, release (ctx\<lparr>pc_loaded_packages := om_update pkg ast (pc_loaded_packages ctx)\<rparr>)))"

text \<open>The parser of a file that may import \<open>k\<close> levels deep, and the one of the program.\<close>

primrec parse_levels :: "IdlFiles \<Rightarrow> nat \<Rightarrow> file_parser" where
  "parse_levels fs 0 = parse_with fs (\<lambda>p ctx. (False, AstFile_init, parser_error ''import depth limit exceeded'' p, ctx))"
| "parse_levels fs (Suc k) = parse_with fs (parse_levels fs k)"

definition parse :: "IdlFiles \<Rightarrow> file_parser" where
  "parse fs p = parse_levels fs (IDLC_MAX_IMPORT_DEPTH - pr_import_depth p) p"

end
