(* ===== verification/IdlLoad.thy ===== *)
theory IdlLoad
  imports IdlParser
begin

section \<open>Loading a file and its imports\<close>

text \<open>
  What \<open>Parser::parse\<close> keeps of the shared context. First, unrolling the parser
  \<open>IDLC_MAX_IMPORT_DEPTH\<close> times is enough: \<open>parse\<close> satisfies the recursion of the code. Then an
  interface for the parser of imported files (\<open>file_loader\<close>): it keeps the limits and the closure
  of the loaded packages under imports, only adds packages, gives the set of files in progress back
  as it was, and fails exactly with an error message. The parser of a file satisfies it when the
  parser of the files it imports does, so every unrolling does.
\<close>

subsection \<open>The recursion of the code\<close>

lemma depth_Parser_new [simp]: "pr_import_depth (fst (Parser_new l ctx f d)) = d"
  "pr_file_path (fst (Parser_new l ctx f d)) = f"
  by (simp_all add: Parser_new_def p_next_def parser_error_def split_def Let_def)

lemma loadImport_cong:
  assumes "\<And>q c. pr_import_depth q = Suc (pr_import_depth p) \<Longrightarrow> sub q c = sub' q c"
  shows "loadImport fs sub r n p ctx = loadImport fs sub' r n p ctx"
  using assms by (simp add: loadImport_def split_def Let_def split: option.split)

lemma depth_calm: "calm p q \<Longrightarrow> pr_import_depth q = pr_import_depth p" "calm p q \<Longrightarrow> pr_file_path q = pr_file_path p"
  by (simp_all add: calm_def same_file_def)

lemma parseImport_cong:
  assumes "\<And>q c. pr_import_depth p < IDLC_MAX_IMPORT_DEPTH \<Longrightarrow> pr_import_depth q = Suc (pr_import_depth p) \<Longrightarrow> sub q c = sub' q c"
  shows "parseImport fs sub ast p ctx = parseImport fs sub' ast p ctx"
proof -
  let ?q = "snd (expect TOK_SEMICOLON (snd (expect TOK_STRING (snd (expect TOK_IMPORT (p\<lparr>pr_saw_import := True\<rparr>))))))"
  have "pr_import_depth ?q = pr_import_depth p"
    by (rule depth_calm(1) [OF moves_imp_calm]) (use moves_expect3 [of TOK_IMPORT "p\<lparr>pr_saw_import := True\<rparr>"] in simp)
  with assms have "pr_import_depth ?q < IDLC_MAX_IMPORT_DEPTH \<Longrightarrow>
      loadImport fs sub r n ?q ctx = loadImport fs sub' r n ?q ctx" for r n
    by (intro loadImport_cong) simp
  then show ?thesis
    by (simp add: parseImport_def split_def Let_def not_le split: option.split)
qed

lemma parse_decl_cong:
  assumes "\<And>q c. pr_import_depth p < IDLC_MAX_IMPORT_DEPTH \<Longrightarrow> pr_import_depth q = Suc (pr_import_depth p) \<Longrightarrow> sub q c = sub' q c"
  shows "parse_decl fs sub ast p ctx = parse_decl fs sub' ast p ctx"
  using parseImport_cong [OF assms] by (simp add: parse_decl_def Let_def split: TokenType.split)

lemma parse_decls_cong:
  assumes "\<And>q c. pr_import_depth p < IDLC_MAX_IMPORT_DEPTH \<Longrightarrow> pr_import_depth q = Suc (pr_import_depth p) \<Longrightarrow> sub q c = sub' q c"
  shows "parse_decls fs sub ast p ctx = parse_decls fs sub' ast p ctx"
  using assms
proof (induction fs sub ast p ctx rule: parse_decls.induct)
  case (1 fs sub ast p ctx)
  obtain ast' p' ctx' where d: "parse_decl fs sub ast p ctx = (ast', p', ctx')" by (metis prod_cases3)
  then have "pr_import_depth p' = pr_import_depth p"
    using moves_parse_decl [THEN moves_imp_calm, THEN depth_calm(1), of fs sub ast p ctx] by simp
  with 1 d parse_decl_cong [OF "1.prems"] show ?case
    by (subst (1 2) parse_decls.simps) (auto simp: split_def Let_def)
qed

lemma parse_with_cong:
  assumes "\<And>q c. pr_import_depth p < IDLC_MAX_IMPORT_DEPTH \<Longrightarrow> pr_import_depth q = Suc (pr_import_depth p) \<Longrightarrow> sub q c = sub' q c"
  shows "parse_with fs sub p ctx = parse_with fs sub' p ctx"
  by (simp add: parse_with_def Let_def parse_decls_cong [OF assms])

theorem parse_unfold: "parse fs p ctx = parse_with fs (parse fs) p ctx"
proof (cases "IDLC_MAX_IMPORT_DEPTH - pr_import_depth p")
  case 0
  then have "\<not> pr_import_depth p < IDLC_MAX_IMPORT_DEPTH" by simp
  then show ?thesis
    unfolding parse_def 0 parse_levels.simps by (intro parse_with_cong) simp
next
  case (Suc k)
  then have "parse fs p ctx = parse_with fs (parse_levels fs k) p ctx" by (simp add: parse_def)
  also have "\<dots> = parse_with fs (parse fs) p ctx"
  proof (rule parse_with_cong)
    fix q :: Parser and c assume "pr_import_depth q = Suc (pr_import_depth p)"
    with Suc have "IDLC_MAX_IMPORT_DEPTH - pr_import_depth q = k" by simp
    then show "parse_levels fs k q c = parse fs q c" by (simp add: parse_def)
  qed
  finally show ?thesis .
qed

subsection \<open>What a parser of files keeps\<close>

definition packages_closed :: "ParseContext \<Rightarrow> bool" where
  "packages_closed ctx \<longleftrightarrow>
     (\<forall>f pkg. om_lookup (pc_file_to_package ctx) f = Some pkg \<longrightarrow> pkg = [] \<or> om_lookup (pc_loaded_packages ctx) pkg \<noteq> None) \<and>
     (\<forall>pkg ast. om_lookup (pc_loaded_packages ctx) pkg = Some ast \<longrightarrow>
        af_package_name ast = pkg \<and> pkg \<noteq> [] \<and>
        (\<forall>i \<in> set (af_imported_packages ast). i = [] \<or> om_lookup (pc_loaded_packages ctx) i \<noteq> None))"

definition ctx_ok :: "ParseContext \<Rightarrow> bool" where
  "ctx_ok ctx \<longleftrightarrow> pc_total_source_bytes ctx \<le> IDLC_MAX_TOTAL_SOURCE_BYTES \<and>
     pc_import_file_count ctx \<le> IDLC_MAX_IMPORT_FILES \<and> length (pc_all_files ctx) = pc_import_file_count ctx \<and>
     packages_closed ctx"

text \<open>The context afterwards: still in order, nothing forgotten, the same files in progress.\<close>

definition extends :: "ParseContext \<Rightarrow> ParseContext \<Rightarrow> bool" where
  "extends ctx ctx' \<longleftrightarrow>
     (ctx_ok ctx \<longrightarrow> ctx_ok ctx') \<and> pc_processing_files ctx' = pc_processing_files ctx \<and>
     (\<forall>pkg. om_lookup (pc_loaded_packages ctx) pkg \<noteq> None \<longrightarrow> om_lookup (pc_loaded_packages ctx') pkg \<noteq> None)"

definition package_known :: "ParseContext \<Rightarrow> string \<Rightarrow> bool" where
  "package_known ctx pkg \<longleftrightarrow> pkg = [] \<or> om_lookup (pc_loaded_packages ctx) pkg \<noteq> None"

lemma extends_refl [intro]: "extends ctx ctx" by (simp add: extends_def)

lemma extends_trans: "extends a b \<Longrightarrow> extends b c \<Longrightarrow> extends a c" by (simp add: extends_def)

lemma known_extends: "package_known ctx pkg \<Longrightarrow> extends ctx ctx' \<Longrightarrow> package_known ctx' pkg"
  by (auto simp: package_known_def extends_def)

lemma extends_Parser_new: "extends ctx (snd (Parser_new l ctx f d))"
  by (auto simp: Parser_new_def extends_def ctx_ok_def packages_closed_def Let_def IDLC_MAX_SOURCE_BYTES_PER_FILE_def
      IDLC_MAX_TOTAL_SOURCE_BYTES_def)

lemma extends_count:
  "pc_import_file_count ctx < IDLC_MAX_IMPORT_FILES \<Longrightarrow>
     extends ctx (ctx\<lparr>pc_import_file_count := pc_import_file_count ctx + 1, pc_all_files := pc_all_files ctx @ [n]\<rparr>)"
  by (simp add: extends_def ctx_ok_def packages_closed_def)

lemma extends_map_file:
  "package_known ctx pkg \<Longrightarrow> extends ctx (ctx\<lparr>pc_file_to_package := om_update n pkg (pc_file_to_package ctx)\<rparr>)"
  by (auto simp: extends_def ctx_ok_def packages_closed_def om_lookup_update package_known_def)

lemma extends_register: "extends ctx (registerTypes ast ctx)"
  by (simp add: extends_def ctx_ok_def packages_closed_def registerTypes_def Let_def)

lemma extends_package:
  assumes "af_package_name ast \<noteq> []" "\<And>i. i \<in> set (af_imported_packages ast) \<Longrightarrow> package_known ctx i"
  shows "extends ctx (ctx\<lparr>pc_loaded_packages := om_update (af_package_name ast) ast (pc_loaded_packages ctx)\<rparr>)"
  using assms
  by (auto simp: extends_def ctx_ok_def packages_closed_def om_lookup_update package_known_def)

text \<open>\<open>realpath\<close> gives an absolute path, never an empty one.\<close>

definition files_ok :: "IdlFiles \<Rightarrow> bool" where
  "files_ok fs \<longleftrightarrow> (\<forall>path. fs_realpath fs path \<noteq> Some [])"

lemma normalizePath_nonempty: "files_ok fs \<Longrightarrow> path \<noteq> [] \<Longrightarrow> normalizePath fs path \<noteq> []"
  by (auto simp: files_ok_def normalizePath_def split: option.split)

definition ast_known :: "ParseContext \<Rightarrow> AstFile \<Rightarrow> bool" where
  "ast_known ctx ast \<longleftrightarrow> (\<forall>i \<in> set (af_imported_packages ast). package_known ctx i)"

lemma ast_known_extends: "ast_known ctx ast \<Longrightarrow> extends ctx ctx' \<Longrightarrow> ast_known ctx' ast"
  by (auto simp: ast_known_def intro: known_extends)

lemma imported_declarations [simp]:
  "af_imported_packages (fst (parsePackage ast p)) = af_imported_packages ast"
  "af_imported_packages (fst (parseStruct ast p)) = af_imported_packages ast"
  "af_imported_packages (fst (parseTopic ast p)) = af_imported_packages ast"
  "af_imported_packages (fst (parseService ast p)) = af_imported_packages ast"
  by (simp_all add: parsePackage_def parseStruct_def parseTopic_def parseService_def split_def Let_def)

lemma resolvePath_nonempty: "resolvePath i p \<noteq> []"
  by (auto simp: resolvePath_def isAbsolutePath_def split: list.splits)

definition loaded_ok :: "ParseContext \<Rightarrow> bool \<times> AstFile \<times> Parser \<times> ParseContext \<Rightarrow> bool" where
  "loaded_ok ctx = (\<lambda>(ok, ast, p', ctx').
     extends ctx ctx' \<and> (ok \<longrightarrow> package_known ctx' (af_package_name ast)) \<and> (ok \<longleftrightarrow> \<not> pr_has_error p'))"

lemma erase_inserted: "\<not> os_member s x \<Longrightarrow> om_erase x (os_insert x s) = s"
  by (cases "om_lookup s x") (simp_all add: os_insert_def os_member_def om_erase_absent)

lemma ctx_ok_processing [simp]: "ctx_ok (ctx\<lparr>pc_processing_files := s\<rparr>) = ctx_ok ctx"
  by (simp add: ctx_ok_def packages_closed_def)

lemma extends_release:
  assumes "\<not> os_member (pc_processing_files ctx) self"
    "extends (ctx\<lparr>pc_processing_files := os_insert self (pc_processing_files ctx)\<rparr>) ctx'"
  shows "extends ctx (ctx'\<lparr>pc_processing_files := om_erase self (pc_processing_files ctx')\<rparr>)"
  using assms unfolding extends_def by (simp add: erase_inserted)

locale file_loader =
  fixes fs :: IdlFiles and sub :: file_parser
  assumes files: "files_ok fs"
    and sub_ok: "ctx_ok ctx \<Longrightarrow> pr_file_path p \<noteq> [] \<Longrightarrow>
      \<not> os_member (pc_processing_files ctx) (normalizePath fs (pr_file_path p)) \<Longrightarrow> loaded_ok ctx (sub p ctx)"
begin

lemma loadImport_ok:
  assumes ctx: "ctx_ok ctx" and "resolved \<noteq> []" "\<not> os_member (pc_processing_files ctx) (normalizePath fs resolved)"
    "pc_import_file_count ctx < IDLC_MAX_IMPORT_FILES"
    and load: "loadImport fs sub resolved n p ctx = (pkg, p', ctx')"
  shows "extends ctx ctx' \<and> (\<forall>k. pkg = Some k \<longrightarrow> package_known ctx' k)"
proof (cases "fs_open fs resolved")
  case None
  with load show ?thesis by (auto simp: loadImport_def)
next
  case (Some f)
  let ?c = "ctx\<lparr>pc_import_file_count := pc_import_file_count ctx + 1, pc_all_files := pc_all_files ctx @ [n]\<rparr>"
  obtain dp c where new: "Parser_new (Lexer_new (snd f)) ?c resolved (pr_import_depth p + 1) = (dp, c)"
    by (metis surj_pair)
  obtain ok dast dp' c' where s: "sub dp c = (ok, dast, dp', c')" by (metis prod_cases4)
  have dp: "pr_file_path dp = resolved" using depth_Parser_new(2) new by (metis fst_conv)
  have "extends ?c c" using extends_Parser_new [of ?c] new by (metis snd_conv)
  then have c: "extends ctx c" using extends_count [OF assms(4)] by (blast intro: extends_trans)
  then have "ctx_ok c" "pc_processing_files c = pc_processing_files ctx" using ctx by (simp_all add: extends_def)
  then have "loaded_ok c (sub dp c)" using sub_ok dp assms(2,3) by metis
  then have c': "extends ctx c'" "ok \<longrightarrow> package_known c' (af_package_name dast)"
    using s c by (auto simp: loaded_ok_def intro: extends_trans)
  then have "ok \<longrightarrow> extends ctx (c'\<lparr>pc_file_to_package := om_update n (af_package_name dast) (pc_file_to_package c')\<rparr>)"
    using extends_map_file extends_trans by blast
  then show ?thesis
    using load Some new s c' by (auto simp: loadImport_def Let_def package_known_def split: if_splits prod.splits)
qed

lemma parseImport_ok:
  assumes ctx: "ctx_ok ctx" and known: "ast_known ctx ast"
    and import: "parseImport fs sub ast p ctx = (ast', p', ctx')"
  shows "extends ctx ctx' \<and> ast_known ctx' ast'"
proof -
  let ?e1 = "expect TOK_IMPORT (p\<lparr>pr_saw_import := True\<rparr>)"
  let ?e2 = "expect TOK_STRING (snd ?e1)"
  let ?q = "snd (expect TOK_SEMICOLON (snd ?e2))"
  let ?r = "resolvePath (tok_value (fst ?e2)) ?q"
  let ?n = "normalizePath fs ?r"
  obtain pkg q c where load: "loadImport fs sub ?r ?n ?q ctx = (pkg, q, c)" by (metis prod_cases3)
  have load_ok: "extends ctx c \<and> ast_known c ast \<and> (\<forall>k. pkg = Some k \<longrightarrow> package_known c k)"
    if "\<not> os_member (pc_processing_files ctx) ?n" "pc_import_file_count ctx < IDLC_MAX_IMPORT_FILES"
    using loadImport_ok [OF ctx resolvePath_nonempty that load] known ast_known_extends by blast
  have mapped: "package_known ctx pkg" if "om_lookup (pc_file_to_package ctx) ?n = Some pkg" for pkg
    using that ctx by (auto simp: ctx_ok_def packages_closed_def package_known_def)
  show ?thesis
  proof (cases "pr_has_error ?q")
    case True
    with import known show ?thesis
      by (auto simp: parseImport_def split_def Let_def ast_known_def split: if_splits)
  next
    case False
    show ?thesis
    proof (cases "om_lookup (pc_file_to_package ctx) ?n")
      case (Some pkg)
      with import known mapped [OF Some] False show ?thesis
        by (auto simp: parseImport_def split_def Let_def ast_known_def split: if_splits)
    next
      case None
      with import known load load_ok False show ?thesis
        by (auto simp: parseImport_def split_def Let_def ast_known_def not_le split: if_splits option.splits)
    qed
  qed
qed

lemma parse_decl_ok:
  assumes "ctx_ok ctx" "ast_known ctx ast" "parse_decl fs sub ast p ctx = (ast', p', ctx')"
  shows "extends ctx ctx' \<and> ast_known ctx' ast'"
proof (cases "tok_type (pr_current p) = TOK_IMPORT")
  case True
  with assms parseImport_ok show ?thesis by (simp add: parse_decl_def Let_def)
next
  case False
  have "ctx' = ctx \<and> af_imported_packages ast' = af_imported_packages ast"
    using assms(3) False by (auto simp: parse_decl_def Let_def split_def split: TokenType.splits)
  with assms(2) show ?thesis by (auto simp: ast_known_def)
qed

lemma parse_decls_ok:
  assumes "ctx_ok ctx" "ast_known ctx ast" "parse_decls fs sub ast p ctx = (ast', p', ctx')"
  shows "extends ctx ctx' \<and> ast_known ctx' ast'"
  using assms
proof (induction "fuel_left p" arbitrary: ast p ctx rule: less_induct)
  case less
  show ?case
  proof (cases "tok_type (pr_current p) = TOK_EOF \<or> pr_has_error p")
    case True
    with less.prems show ?thesis by (subst (asm) parse_decls.simps) auto
  next
    case False
    obtain ast1 p1 ctx1 where d: "parse_decl fs sub ast p ctx = (ast1, p1, ctx1)" by (metis prod_cases3)
    have "fuel_left p1 < fuel_left p"
      using moves_parse_decl [of p fs sub ast ctx] False d by (simp add: fuel_moves)
    moreover have step: "extends ctx ctx1" "ast_known ctx1 ast1"
      using parse_decl_ok [OF less.prems(1,2) d] by simp_all
    moreover have "ctx_ok ctx1" using step(1) less.prems(1) by (simp add: extends_def)
    moreover have "parse_decls fs sub ast1 p1 ctx1 = (ast', p', ctx')"
      using less.prems(3) False d by (subst (asm) parse_decls.simps) simp
    ultimately show ?thesis using less.hyps extends_trans by blast
  qed
qed

text \<open>The parser of a file is as good as the parser of its imports.\<close>

lemma parse_with_ok:
  assumes "ctx_ok ctx" "pr_file_path p \<noteq> []"
    "\<not> os_member (pc_processing_files ctx) (normalizePath fs (pr_file_path p))"
  shows "loaded_ok ctx (parse_with fs sub p ctx)"
proof -
  let ?self = "normalizePath fs (pr_file_path p)"
  let ?c = "ctx\<lparr>pc_processing_files := os_insert ?self (pc_processing_files ctx)\<rparr>"
  let ?a = "AstFile_init\<lparr>af_file_path := pr_file_path p\<rparr>"
  obtain ast q c where d: "parse_decls fs sub ?a p ?c = (ast, q, c)" by (metis prod_cases3)
  have self: "?self \<noteq> []" using normalizePath_nonempty [OF files assms(2)] .
  have "ctx_ok ?c" using assms(1) by (simp add: ctx_ok_def packages_closed_def)
  then have "extends ?c c" and known: "ast_known c ast"
    using parse_decls_ok [OF _ _ d] by (auto simp: ast_known_def AstFile_init_def)
  let ?r = "registerTypes ast c"
  let ?l = "?r\<lparr>pc_loaded_packages := om_update (af_package_name ast) ast (pc_loaded_packages ?r)\<rparr>"
  have r: "extends ?c ?r" using \<open>extends ?c c\<close> extends_register extends_trans by blast
  have "ast_known ?r ast" using known extends_register by (rule ast_known_extends)
  then have l: "af_package_name ast \<noteq> [] \<Longrightarrow> extends ?c ?l"
    by (intro extends_trans [OF r] extends_package) (auto simp: ast_known_def)
  have *: "extends ctx (c'\<lparr>pc_processing_files := om_erase ?self (pc_processing_files c')\<rparr>)" if "extends ?c c'" for c'
    using extends_release [OF assms(3) that] .
  show ?thesis
    using * [OF \<open>extends ?c c\<close>] * [OF r] * [OF l] assms(2) self
    by (auto simp: parse_with_def Let_def d loaded_ok_def package_known_def om_lookup_update
        parser_error_def split: option.split)
qed

end

text \<open>Every unrolling keeps the contract; so the parser of the program does.\<close>

lemma loaders:
  assumes "files_ok fs"
  shows "file_loader fs (parse_levels fs k)"
proof (induction k)
  case 0
  have "file_loader fs (\<lambda>p ctx. (False, AstFile_init, parser_error ''import depth limit exceeded'' p, ctx))"
    using assms by unfold_locales (auto simp: loaded_ok_def)
  then show ?case
    using assms by (simp add: file_loader.parse_with_ok file_loader_def)
next
  case (Suc k)
  then show ?case
    using assms by (simp add: file_loader.parse_with_ok file_loader_def)
qed

lemma parse_loader: "files_ok fs \<Longrightarrow> file_loader fs (parse fs)"
  using loaders by (auto simp: file_loader_def parse_def)

text \<open>A file system with one directory of files, where names are their own canonical form.\<close>

definition flat_files :: "(string \<rightharpoonup> string) \<Rightarrow> IdlFiles" where
  "flat_files m = \<lparr>fs_open = (\<lambda>path. map_option (\<lambda>s. (int (length s), s)) (m path)), fs_realpath = (\<lambda>_. None)\<rparr>"

interpretation program: file_loader "flat_files m" "parse (flat_files m)"
  by (rule parse_loader) (simp add: files_ok_def flat_files_def)

end
