(* ===== verification/IdlGrammar.thy ===== *)
theory IdlGrammar
  imports IdlLoad
begin

section \<open>The grammar of the interface definition language\<close>

text \<open>
  The tokens of a file without imports, as a function of its declarations, and the round trip: the
  parser gives back the declarations of every such file, however it is laid out. The parser sees its
  lexer only through the stream of lexemes still to come.
\<close>

subsection \<open>The stream of a parser\<close>

definition lexeme_of :: "Token \<Rightarrow> lexeme" where
  "lexeme_of t = (tok_type t, tok_value t)"

definition stream :: "Parser \<Rightarrow> lexeme list" where
  "stream p = lexeme_of (pr_current p) #
     (if tok_type (pr_current p) \<in> {TOK_EOF, TOK_ERROR} then [] else map lexeme_of (lex_all (pr_lexer p)))"

text \<open>\<open>q\<close> is \<open>p\<close> moved on in its source, so that \<open>xs\<close> is left.\<close>

definition parser_frame :: "Parser \<Rightarrow> bool \<times> string \<times> string \<times> string \<times> bool \<times> bool \<times> nat" where
  "parser_frame p = (pr_has_error p, pr_error_msg p, pr_file_path p, pr_base_dir p, pr_saw_import p,
     pr_saw_declaration p, pr_import_depth p)"

definition reads :: "Parser \<Rightarrow> lexeme list \<Rightarrow> Parser \<Rightarrow> bool" where
  "reads p xs q \<longleftrightarrow> parser_frame q = parser_frame p \<and> stream q = xs"

lemma reads_trans: "reads p xs q \<Longrightarrow> reads q ys r \<Longrightarrow> reads p ys r"
  by (simp add: reads_def)

lemma reads_error: "reads p xs q \<Longrightarrow> pr_has_error q = pr_has_error p"
  by (simp add: reads_def parser_frame_def)

lemma reads_stream: "reads p xs q \<Longrightarrow> stream q = xs"
  by (simp add: reads_def)

lemma stream_current: "stream p = (t, v) # xs \<Longrightarrow> tok_type (pr_current p) = t \<and> tok_value (pr_current p) = v"
  by (simp add: stream_def lexeme_of_def)

lemma reads_next:
  assumes "stream p = (t, v) # xs" "t \<noteq> TOK_EOF" "t \<noteq> TOK_ERROR"
  shows "reads p xs (p_next p)"
proof -
  obtain u l where n: "nextToken (pr_lexer p) = (u, l)" by fastforce
  have "xs = map lexeme_of (lex_all (pr_lexer p))"
    using assms by (auto simp: stream_def lexeme_of_def)
  also have "\<dots> = lexeme_of u # (if tok_type u \<in> {TOK_EOF, TOK_ERROR} then [] else map lexeme_of (lex_all l))"
    by (subst lex_all.simps) (simp add: n)
  finally show ?thesis by (simp add: reads_def p_next_def n stream_def parser_frame_def)
qed

lemma reads_expect:
  assumes "stream p = (t, v) # xs" "t \<noteq> TOK_EOF" "t \<noteq> TOK_ERROR"
  shows "tok_value (fst (expect t p)) = v" "reads p xs (snd (expect t p))"
  using stream_current [OF assms(1)] reads_next [OF assms] by (simp_all add: expect_def)

lemma expect_reads:
  assumes "stream p = (t, v) # xs" "t \<noteq> TOK_EOF" "t \<noteq> TOK_ERROR"
  obtains tok q where "expect t p = (tok, q)" "tok_value tok = v" "reads p xs q" "stream q = xs"
  using that [OF prod.collapse [symmetric] reads_expect [OF assms] reads_stream] reads_expect(2) [OF assms] by blast

subsection \<open>The tokens of a file\<close>

definition ident :: "string \<Rightarrow> bool" where
  "ident v \<longleftrightarrow> is_word v \<and> word_type v = TOK_IDENTIFIER"

definition kw :: "TokenType \<Rightarrow> lexeme" where
  "kw t = (t, tokenTypeToString t)"

definition token_of :: "PrimitiveType \<Rightarrow> TokenType" where
  "token_of prim =
     (case prim of
        TYPE_BOOL \<Rightarrow> TOK_BOOL | TYPE_INT8 \<Rightarrow> TOK_INT8 | TYPE_UINT8 \<Rightarrow> TOK_UINT8 | TYPE_INT16 \<Rightarrow> TOK_INT16
      | TYPE_UINT16 \<Rightarrow> TOK_UINT16 | TYPE_INT32 \<Rightarrow> TOK_INT32 | TYPE_UINT32 \<Rightarrow> TOK_UINT32 | TYPE_INT64 \<Rightarrow> TOK_INT64
      | TYPE_UINT64 \<Rightarrow> TOK_UINT64 | TYPE_FLOAT32 \<Rightarrow> TOK_FLOAT32 | TYPE_FLOAT64 \<Rightarrow> TOK_FLOAT64
      | TYPE_STRING \<Rightarrow> TOK_STRING_TYPE | TYPE_BYTES \<Rightarrow> TOK_BYTES | TYPE_VOID \<Rightarrow> TOK_VOID
      | TYPE_CUSTOM \<Rightarrow> TOK_IDENTIFIER | TYPE_ARRAY \<Rightarrow> TOK_ARRAY)"

fun type_lexemes :: "TypeRef \<Rightarrow> lexeme list" where
  "type_lexemes (TypeRef prim name pkg el) =
     (if prim = TYPE_CUSTOM then (if pkg = [] then [] else [(TOK_IDENTIFIER, pkg), kw TOK_DOT]) @ [(TOK_IDENTIFIER, name)]
      else if prim = TYPE_ARRAY then
        [kw TOK_ARRAY, kw TOK_LANGLE] @ (case el of Some e \<Rightarrow> type_lexemes e | None \<Rightarrow> []) @ [kw TOK_RANGLE]
      else [kw (token_of prim)])"

text \<open>The types the parser can produce at a nesting depth.\<close>

fun type_ok :: "nat \<Rightarrow> TypeRef \<Rightarrow> bool" where
  "type_ok n (TypeRef prim name pkg el) \<longleftrightarrow>
     n < IDLC_MAX_TYPE_NESTING \<and>
     (if prim = TYPE_CUSTOM then ident name \<and> (pkg = [] \<or> ident pkg) \<and> el = None
      else name = [] \<and> pkg = [] \<and>
        (if prim = TYPE_ARRAY then (case el of Some e \<Rightarrow> type_ok (n + 1) e | None \<Rightarrow> False) else el = None))"

definition field_lexemes :: "FieldDef \<Rightarrow> lexeme list" where
  "field_lexemes f = type_lexemes (fd_type f) @ [(TOK_IDENTIFIER, fd_name f), kw TOK_SEMICOLON]"

definition field_ok :: "FieldDef \<Rightarrow> bool" where
  "field_ok f \<longleftrightarrow> type_ok 0 (fd_type f) \<and> ident (fd_name f)"

datatype Member = Method MethodDef | Publishes string

definition no_param :: FieldDef where
  "no_param = \<lparr>fd_type = TypeRef_init, fd_name = []\<rparr>"

fun member_lexemes :: "Member \<Rightarrow> lexeme list" where
  "member_lexemes (Method m) =
     type_lexemes (md_return_type m) @ [(TOK_IDENTIFIER, md_name m), kw TOK_LPAREN] @
     (if md_has_param m then type_lexemes (fd_type (md_param m)) @ [(TOK_IDENTIFIER, fd_name (md_param m))] else []) @
     [kw TOK_RPAREN, kw TOK_SEMICOLON]"
| "member_lexemes (Publishes t) = [kw TOK_PUBLISHES, (TOK_IDENTIFIER, t), kw TOK_SEMICOLON]"

fun member_ok :: "Member \<Rightarrow> bool" where
  "member_ok (Method m) \<longleftrightarrow> type_ok 0 (md_return_type m) \<and> ident (md_name m) \<and>
     (if md_has_param m then field_ok (md_param m) else md_param m = no_param)"
| "member_ok (Publishes t) = ident t"

definition methods_of :: "Member list \<Rightarrow> MethodDef list" where
  "methods_of ms = concat (map (\<lambda>m. case m of Method d \<Rightarrow> [d] | Publishes _ \<Rightarrow> []) ms)"

definition publishes_of :: "Member list \<Rightarrow> string list" where
  "publishes_of ms = concat (map (\<lambda>m. case m of Method _ \<Rightarrow> [] | Publishes t \<Rightarrow> [t]) ms)"

datatype Decl = DStruct StructDef | DTopic TopicDef | DService string "Member list"

definition block_lexemes :: "TokenType \<Rightarrow> string \<Rightarrow> lexeme list \<Rightarrow> lexeme list" where
  "block_lexemes t name body = [kw t, (TOK_IDENTIFIER, name), kw TOK_LBRACE] @ body @ [kw TOK_RBRACE]"

fun decl_lexemes :: "Decl \<Rightarrow> lexeme list" where
  "decl_lexemes (DStruct s) = block_lexemes TOK_STRUCT (sd_name s) (concat (map field_lexemes (sd_fields s)))"
| "decl_lexemes (DTopic t) = block_lexemes TOK_TOPIC (td_name t) (concat (map field_lexemes (td_fields t)))"
| "decl_lexemes (DService n ms) = block_lexemes TOK_SERVICE n (concat (map member_lexemes ms))"

fun decl_ok :: "Decl \<Rightarrow> bool" where
  "decl_ok (DStruct s) \<longleftrightarrow> ident (sd_name s) \<and> list_all field_ok (sd_fields s)"
| "decl_ok (DTopic t) \<longleftrightarrow> ident (td_name t) \<and> list_all field_ok (td_fields t)"
| "decl_ok (DService n ms) \<longleftrightarrow> ident n \<and> list_all member_ok ms"

fun add_decl :: "Decl \<Rightarrow> AstFile \<Rightarrow> AstFile" where
  "add_decl (DStruct s) ast = ast\<lparr>af_structs := af_structs ast @ [s]\<rparr>"
| "add_decl (DTopic t) ast = ast\<lparr>af_topics := af_topics ast @ [t]\<rparr>"
| "add_decl (DService n ms) ast = ast\<lparr>af_services := af_services ast @
     [\<lparr>sv_name = n, sv_methods = methods_of ms, sv_publishes = publishes_of ms\<rparr>]\<rparr>"

definition file_lexemes :: "string \<Rightarrow> Decl list \<Rightarrow> lexeme list" where
  "file_lexemes pkg ds =
     [kw TOK_PACKAGE, (TOK_IDENTIFIER, pkg), kw TOK_SEMICOLON] @ concat (map decl_lexemes ds)"

text \<open>The tree of such a file.\<close>

definition file_ast :: "string \<Rightarrow> string \<Rightarrow> Decl list \<Rightarrow> AstFile" where
  "file_ast path pkg ds = fold add_decl ds (AstFile_init\<lparr>af_file_path := path, af_package_name := pkg, af_package_count := 1\<rparr>)"

subsection \<open>The parser follows the grammar\<close>

lemma token_of_primitive: "prim \<noteq> TYPE_CUSTOM \<Longrightarrow> prim \<noteq> TYPE_ARRAY \<Longrightarrow> primitive_of (token_of prim) = Some prim"
  by (cases prim) (simp_all add: token_of_def primitive_of_def)

lemma token_of_plain: "token_of prim \<noteq> TOK_EOF" "token_of prim \<noteq> TOK_ERROR"
  by (cases prim; simp add: token_of_def)+

lemma parseType_reads:
  assumes "type_ok n t" "stream p = type_lexemes t @ (u, v) # xs" "u \<noteq> TOK_DOT" "\<not> pr_has_error p"
  shows "\<exists>q. parseType n p = (Some t, q) \<and> reads p ((u, v) # xs) q"
  using assms
proof (induction n t arbitrary: p u v xs rule: type_ok.induct)
  case (1 n prim name pkg el)
  note c = stream_current
  have n: "\<not> IDLC_MAX_TYPE_NESTING \<le> n" using 1(2) by simp
  consider (custom) "prim = TYPE_CUSTOM" | (array) e where "prim = TYPE_ARRAY" "el = Some e"
    | (plain) "prim \<noteq> TYPE_CUSTOM" "prim \<noteq> TYPE_ARRAY"
    using 1(2) by (auto split: if_splits option.splits)
  then show ?case
  proof cases
    case custom
    have prim: "primitive_of TOK_IDENTIFIER = None" by (simp add: primitive_of_def)
    show ?thesis
    proof (cases "pkg = []")
      case True
      then have s: "stream p = (TOK_IDENTIFIER, name) # (u, v) # xs" using 1(3) custom by simp
      have r: "reads p ((u, v) # xs) (p_next p)" by (rule reads_next [OF s]) simp_all
      show ?thesis
        using n custom True c [OF s] c [OF reads_stream [OF r]] r 1(2,4,5) prim
        by (subst parseType.simps) (simp add: unless_error_def reads_error [OF r])
    next
      case False
      then have s: "stream p = (TOK_IDENTIFIER, pkg) # (TOK_DOT, tokenTypeToString TOK_DOT) # (TOK_IDENTIFIER, name) # (u, v) # xs"
        using 1(3) custom by (simp add: kw_def)
      have r1: "reads p ((TOK_DOT, tokenTypeToString TOK_DOT) # (TOK_IDENTIFIER, name) # (u, v) # xs) (p_next p)"
        by (rule reads_next [OF s]) simp_all
      have r2: "reads (p_next p) ((TOK_IDENTIFIER, name) # (u, v) # xs) (p_next (p_next p))"
        by (rule reads_next [OF reads_stream [OF r1]]) simp_all
      have r3: "reads (p_next (p_next p)) ((u, v) # xs) (p_next (p_next (p_next p)))"
        by (rule reads_next [OF reads_stream [OF r2]]) simp_all
      have "reads p ((u, v) # xs) (p_next (p_next (p_next p)))"
        using r1 r2 r3 by (blast intro: reads_trans)
      then show ?thesis
        using n custom False c [OF s] c [OF reads_stream [OF r1]] c [OF reads_stream [OF r2]] 1(2,4,5) prim
        by (subst parseType.simps) (simp add: unless_error_def Let_def)
    qed
  next
    case array
    have prim: "primitive_of TOK_ARRAY = None" by (simp add: primitive_of_def)
    have s: "stream p = kw TOK_ARRAY # kw TOK_LANGLE # type_lexemes e @ kw TOK_RANGLE # (u, v) # xs"
      using 1(3) array by simp
    have r1: "reads p (kw TOK_LANGLE # type_lexemes e @ kw TOK_RANGLE # (u, v) # xs) (p_next p)"
      by (rule reads_next [OF s [unfolded kw_def [of TOK_ARRAY]]]) simp_all
    obtain tok q2 where e2: "expect TOK_LANGLE (p_next p) = (tok, q2)"
      and r2: "reads (p_next p) (type_lexemes e @ kw TOK_RANGLE # (u, v) # xs) q2"
      by (rule expect_reads [OF reads_stream [OF r1, unfolded kw_def [of TOK_LANGLE]]]) simp_all
    have "type_ok (n + 1) e" using 1(2) array by simp
    moreover have "\<not> pr_has_error q2" using r1 r2 1(5) by (simp add: reads_error [OF r2])
    ultimately obtain q3 where t3: "parseType (n + 1) q2 = (Some e, q3)" and r3: "reads q2 (kw TOK_RANGLE # (u, v) # xs) q3"
      using 1(1) [of e q2 TOK_RANGLE "tokenTypeToString TOK_RANGLE" "(u, v) # xs"] array reads_stream [OF r2] 1(2)
      by (auto simp: kw_def)
    obtain tok4 q4 where e4: "expect TOK_RANGLE q3 = (tok4, q4)" and r4: "reads q3 ((u, v) # xs) q4"
      by (rule expect_reads [OF reads_stream [OF r3, unfolded kw_def]]) simp_all
    have r: "reads p ((u, v) # xs) q4" using r1 r2 r3 r4 by (blast intro: reads_trans)
    show ?thesis
      using n array c [OF s [unfolded kw_def [of TOK_ARRAY]]] e2 t3 e4 r 1(2,5) prim reads_error [OF r]
      by (subst parseType.simps) (simp add: unless_error_def Let_def)
  next
    case plain
    then have s: "stream p = (token_of prim, tokenTypeToString (token_of prim)) # (u, v) # xs"
      using 1(3) by (simp add: kw_def)
    have r: "reads p ((u, v) # xs) (p_next p)" by (rule reads_next [OF s token_of_plain])
    show ?thesis
      using n plain c [OF s] r 1(2,5) token_of_primitive [OF plain]
      by (subst parseType.simps) (simp add: unless_error_def)
  qed
qed

lemma parseField_reads:
  assumes "field_ok f" "stream p = field_lexemes f @ xs" "\<not> pr_has_error p"
  shows "\<exists>q. parseField p = (Some f, q) \<and> reads p xs q"
proof -
  have s: "stream p = type_lexemes (fd_type f) @ (TOK_IDENTIFIER, fd_name f) # kw TOK_SEMICOLON # xs"
    using assms(2) by (simp add: field_lexemes_def)
  obtain q1 where t1: "parseType 0 p = (Some (fd_type f), q1)"
    and r1: "reads p ((TOK_IDENTIFIER, fd_name f) # kw TOK_SEMICOLON # xs) q1"
    using parseType_reads [OF _ s] assms(1,3) by (auto simp: field_ok_def)
  obtain tok2 q2 where e2: "expect TOK_IDENTIFIER q1 = (tok2, q2)" "tok_value tok2 = fd_name f"
    and r2: "reads q1 (kw TOK_SEMICOLON # xs) q2"
    by (rule expect_reads [OF reads_stream [OF r1]]) simp_all
  obtain tok3 q3 where e3: "expect TOK_SEMICOLON q2 = (tok3, q3)" and r3: "reads q2 xs q3"
    by (rule expect_reads [OF reads_stream [OF r2, unfolded kw_def]]) simp_all
  have r: "reads p xs q3" using r1 r2 r3 by (blast intro: reads_trans)
  then show ?thesis
    using t1 e2 e3 assms(3) reads_error [OF r] by (simp add: parseField_def unless_error_def)
qed

text \<open>A type starts with none of the tokens that end a body or stand in its place.\<close>

lemma type_starts:
  "type_ok n t \<Longrightarrow> \<exists>u v xs. type_lexemes t = (u, v) # xs \<and> u \<notin> {TOK_RBRACE, TOK_EOF, TOK_ERROR, TOK_PUBLISHES, TOK_RPAREN}"
  by (cases t; cases "tr_primitive t") (auto simp: kw_def token_of_def split: if_splits)

lemma body_goes_on:
  assumes "type_ok n t" "stream p = type_lexemes t @ xs" "\<not> pr_has_error p"
  shows "\<not> stops_body p \<and> tok_type (pr_current p) \<notin> {TOK_PUBLISHES, TOK_RPAREN}"
proof -
  obtain u v ys where "type_lexemes t = (u, v) # ys" "u \<notin> {TOK_RBRACE, TOK_EOF, TOK_ERROR, TOK_PUBLISHES, TOK_RPAREN}"
    using type_starts [OF assms(1)] by blast
  with assms stream_current [of p u v "ys @ xs"] show ?thesis by (auto simp: stops_body_def)
qed

lemma parseFields_reads:
  assumes "list_all field_ok fs" "stream p = concat (map field_lexemes fs) @ kw TOK_RBRACE # xs" "\<not> pr_has_error p"
  shows "\<exists>q. parseFields p = (fs, q) \<and> reads p (kw TOK_RBRACE # xs) q"
  using assms
proof (induction fs arbitrary: p)
  case Nil
  then have "stops_body p" using stream_current [of p] by (simp add: stops_body_def kw_def)
  then show ?case using Nil by (subst parseFields.simps) (simp add: reads_def)
next
  case (Cons f fs)
  then have s: "stream p = field_lexemes f @ concat (map field_lexemes fs) @ kw TOK_RBRACE # xs" by simp
  obtain q1 where f1: "parseField p = (Some f, q1)"
    and r1: "reads p (concat (map field_lexemes fs) @ kw TOK_RBRACE # xs) q1"
    using parseField_reads [OF _ s] Cons.prems by auto
  obtain q2 where f2: "parseFields q1 = (fs, q2)" and r2: "reads q1 (kw TOK_RBRACE # xs) q2"
    using Cons.IH [OF _ reads_stream [OF r1]] Cons.prems reads_error [OF r1] by auto
  have "\<not> stops_body p"
    using body_goes_on [of 0 "fd_type f" p] Cons.prems s by (simp add: field_ok_def field_lexemes_def)
  then show ?case
    using f1 f2 reads_trans [OF r1 r2] by (subst parseFields.simps) simp
qed

lemma parseParam_reads:
  assumes "if has then field_ok d else d = no_param"
    "stream p = (if has then type_lexemes (fd_type d) @ [(TOK_IDENTIFIER, fd_name d)] else []) @ kw TOK_RPAREN # xs"
    "\<not> pr_has_error p"
  shows "\<exists>q. parseParam p = (Some (has, d), q) \<and> reads p (kw TOK_RPAREN # xs) q"
proof (cases has)
  case True
  then have s: "stream p = type_lexemes (fd_type d) @ (TOK_IDENTIFIER, fd_name d) # kw TOK_RPAREN # xs" and ok: "type_ok 0 (fd_type d)"
    using assms(1,2) by (simp_all add: field_ok_def)
  obtain q1 where t1: "parseType 0 p = (Some (fd_type d), q1)" and r1: "reads p ((TOK_IDENTIFIER, fd_name d) # kw TOK_RPAREN # xs) q1"
    using parseType_reads [OF ok s] assms(3) by auto
  obtain tok2 q2 where "expect TOK_IDENTIFIER q1 = (tok2, q2)" "tok_value tok2 = fd_name d" "reads q1 (kw TOK_RPAREN # xs) q2"
    by (rule expect_reads [OF reads_stream [OF r1]]) simp_all
  then show ?thesis
    using True t1 reads_trans [OF r1] body_goes_on [OF ok s assms(3)] by (simp add: parseParam_def)
next
  case False
  with assms stream_current [of p] show ?thesis by (simp add: parseParam_def no_param_def reads_def kw_def)
qed

lemma parseMethod_reads:
  assumes "member_ok (Method m)" "stream p = member_lexemes (Method m) @ xs" "\<not> pr_has_error p"
  shows "\<exists>q. parseMethod p = (Some m, q) \<and> reads p xs q"
proof -
  let ?param = "(if md_has_param m then type_lexemes (fd_type (md_param m)) @ [(TOK_IDENTIFIER, fd_name (md_param m))] else [])"
  have s: "stream p = type_lexemes (md_return_type m) @ (TOK_IDENTIFIER, md_name m) # kw TOK_LPAREN # ?param @ kw TOK_RPAREN # kw TOK_SEMICOLON # xs"
    using assms(2) by simp
  obtain q1 where t1: "parseType 0 p = (Some (md_return_type m), q1)"
    and r1: "reads p ((TOK_IDENTIFIER, md_name m) # kw TOK_LPAREN # ?param @ kw TOK_RPAREN # kw TOK_SEMICOLON # xs) q1"
    using parseType_reads [OF _ s] assms(1,3) by auto
  obtain tok2 q2 where e2: "expect TOK_IDENTIFIER q1 = (tok2, q2)" "tok_value tok2 = md_name m"
    and r2: "reads q1 (kw TOK_LPAREN # ?param @ kw TOK_RPAREN # kw TOK_SEMICOLON # xs) q2"
    by (rule expect_reads [OF reads_stream [OF r1]]) simp_all
  obtain tok3 q3 where e3: "expect TOK_LPAREN q2 = (tok3, q3)"
    and r3: "reads q2 (?param @ kw TOK_RPAREN # kw TOK_SEMICOLON # xs) q3"
    by (rule expect_reads [OF reads_stream [OF r2, unfolded kw_def [of TOK_LPAREN]]]) simp_all
  have "\<not> pr_has_error q3" using assms(3) r1 r2 r3 by (simp add: reads_error [OF r3] reads_error [OF r2] reads_error [OF r1])
  then obtain q4 where t4: "parseParam q3 = (Some (md_has_param m, md_param m), q4)"
    and r4: "reads q3 (kw TOK_RPAREN # kw TOK_SEMICOLON # xs) q4"
    using parseParam_reads [OF _ reads_stream [OF r3]] assms(1) by auto
  obtain tok5 q5 where e5: "expect TOK_RPAREN q4 = (tok5, q5)" and r5: "reads q4 (kw TOK_SEMICOLON # xs) q5"
    by (rule expect_reads [OF reads_stream [OF r4, unfolded kw_def [of TOK_RPAREN]]]) simp_all
  obtain tok6 q6 where e6: "expect TOK_SEMICOLON q5 = (tok6, q6)" and r6: "reads q5 xs q6"
    by (rule expect_reads [OF reads_stream [OF r5, unfolded kw_def]]) simp_all
  have r: "reads p xs q6" using r1 r2 r3 r4 r5 r6 by (blast intro: reads_trans)
  then show ?thesis
    using t1 e2 e3 t4 e5 e6 assms(3) reads_error [OF r] by (simp add: parseMethod_def unless_error_def)
qed

lemma parseMembers_reads:
  assumes "list_all member_ok ms" "stream p = concat (map member_lexemes ms) @ kw TOK_RBRACE # xs" "\<not> pr_has_error p"
  shows "\<exists>q. parseMembers p = ((methods_of ms, publishes_of ms), q) \<and> reads p (kw TOK_RBRACE # xs) q"
  using assms
proof (induction ms arbitrary: p)
  case Nil
  then have "stops_body p" using stream_current [of p] by (simp add: stops_body_def kw_def)
  then show ?case using Nil by (subst parseMembers.simps) (simp add: reads_def methods_of_def publishes_of_def)
next
  case (Cons m ms)
  let ?rest = "concat (map member_lexemes ms) @ kw TOK_RBRACE # xs"
  show ?case
  proof (cases m)
    case (Method d)
    then have s: "stream p = member_lexemes (Method d) @ ?rest" using Cons.prems by simp
    obtain q1 where m1: "parseMethod p = (Some d, q1)" and r1: "reads p ?rest q1"
      using parseMethod_reads [OF _ s] Cons.prems Method by auto
    obtain q2 where "parseMembers q1 = ((methods_of ms, publishes_of ms), q2)" "reads q1 (kw TOK_RBRACE # xs) q2"
      using Cons.IH [OF _ reads_stream [OF r1]] Cons.prems reads_error [OF r1] by auto
    moreover have "\<not> stops_body p" "tok_type (pr_current p) \<noteq> TOK_PUBLISHES"
      using body_goes_on [of 0 "md_return_type d" p] Cons.prems s Method by simp_all
    ultimately show ?thesis
      using Method m1 reads_trans [OF r1] by (subst parseMembers.simps) (simp add: methods_of_def publishes_of_def)
  next
    case (Publishes t)
    then have s: "stream p = kw TOK_PUBLISHES # (TOK_IDENTIFIER, t) # kw TOK_SEMICOLON # ?rest" using Cons.prems by simp
    have r1: "reads p ((TOK_IDENTIFIER, t) # kw TOK_SEMICOLON # ?rest) (p_next p)"
      by (rule reads_next [OF s [unfolded kw_def [of TOK_PUBLISHES]]]) simp_all
    obtain tok2 q2 where e2: "expect TOK_IDENTIFIER (p_next p) = (tok2, q2)" "tok_value tok2 = t"
      and r2: "reads (p_next p) (kw TOK_SEMICOLON # ?rest) q2"
      by (rule expect_reads [OF reads_stream [OF r1]]) simp_all
    obtain tok3 q3 where e3: "expect TOK_SEMICOLON q2 = (tok3, q3)" and r3: "reads q2 ?rest q3"
      by (rule expect_reads [OF reads_stream [OF r2, unfolded kw_def [of TOK_SEMICOLON]]]) simp_all
    have r: "reads p ?rest q3" using r1 r2 r3 by (blast intro: reads_trans)
    obtain q4 where "parseMembers q3 = ((methods_of ms, publishes_of ms), q4)" "reads q3 (kw TOK_RBRACE # xs) q4"
      using Cons.IH [OF _ reads_stream [OF r]] Cons.prems reads_error [OF r] by auto
    moreover have "\<not> stops_body p" "tok_type (pr_current p) = TOK_PUBLISHES"
      using stream_current [OF s [unfolded kw_def [of TOK_PUBLISHES]]] Cons.prems(3) by (simp_all add: stops_body_def)
    ultimately show ?thesis
      using Publishes e2 e3 reads_trans [OF r] by (subst parseMembers.simps) (simp add: methods_of_def publishes_of_def Let_def)
  qed
qed

text \<open>A block: the keyword, the name, the body and the closing brace.\<close>

lemma block_reads:
  assumes "stream p = block_lexemes t name body @ xs" "t \<noteq> TOK_EOF" "t \<noteq> TOK_ERROR"
    and body: "\<And>q. stream q = body @ kw TOK_RBRACE # xs \<Longrightarrow> pr_has_error q = pr_has_error p \<Longrightarrow>
      \<exists>r. parse_body q = (x, r) \<and> reads q (kw TOK_RBRACE # xs) r"
  obtains tok1 q1 tok2 q2 tok3 q3 q4 tok5 q5 where "expect t p = (tok1, q1)" "expect TOK_IDENTIFIER q1 = (tok2, q2)"
    "tok_value tok2 = name" "expect TOK_LBRACE q2 = (tok3, q3)" "parse_body q3 = (x, q4)"
    "expect TOK_RBRACE q4 = (tok5, q5)" "reads p xs q5"
proof -
  have s: "stream p = kw t # (TOK_IDENTIFIER, name) # kw TOK_LBRACE # body @ kw TOK_RBRACE # xs"
    using assms(1) by (simp add: block_lexemes_def)
  obtain tok1 q1 where e1: "expect t p = (tok1, q1)"
    and r1: "reads p ((TOK_IDENTIFIER, name) # kw TOK_LBRACE # body @ kw TOK_RBRACE # xs) q1"
    by (rule expect_reads [OF s [unfolded kw_def [of t]] assms(2,3)]) blast
  obtain tok2 q2 where e2: "expect TOK_IDENTIFIER q1 = (tok2, q2)" "tok_value tok2 = name"
    and r2: "reads q1 (kw TOK_LBRACE # body @ kw TOK_RBRACE # xs) q2"
    by (rule expect_reads [OF reads_stream [OF r1]]) simp_all
  obtain tok3 q3 where e3: "expect TOK_LBRACE q2 = (tok3, q3)" and r3: "reads q2 (body @ kw TOK_RBRACE # xs) q3"
    by (rule expect_reads [OF reads_stream [OF r2, unfolded kw_def [of TOK_LBRACE]]]) simp_all
  have "pr_has_error q3 = pr_has_error p" by (simp add: reads_error [OF r3] reads_error [OF r2] reads_error [OF r1])
  then obtain q4 where b: "parse_body q3 = (x, q4)" and r4: "reads q3 (kw TOK_RBRACE # xs) q4"
    using body [OF reads_stream [OF r3]] by auto
  obtain tok5 q5 where e5: "expect TOK_RBRACE q4 = (tok5, q5)" and r5: "reads q4 xs q5"
    by (rule expect_reads [OF reads_stream [OF r4, unfolded kw_def]]) simp_all
  have "reads p xs q5" using r1 r2 r3 r4 r5 by (blast intro: reads_trans)
  then show thesis using that [OF e1 e2(1,2) e3 b e5] by blast
qed

lemma stream_saw [simp]: "stream (p\<lparr>pr_saw_declaration := b\<rparr>) = stream p"
  by (simp add: stream_def)

lemma parse_decl_reads:
  assumes "decl_ok d" "stream p = decl_lexemes d @ xs" "\<not> pr_has_error p"
  shows "\<exists>q. parse_decl fs sub ast p ctx = (add_decl d ast, q, ctx) \<and> reads (p\<lparr>pr_saw_declaration := True\<rparr>) xs q"
proof -
  let ?p = "p\<lparr>pr_saw_declaration := True\<rparr>"
  have err: "\<not> pr_has_error ?p" using assms(3) by simp
  show ?thesis
  proof (cases d)
    case (DStruct s)
    have st: "stream ?p = block_lexemes TOK_STRUCT (sd_name s) (concat (map field_lexemes (sd_fields s))) @ xs"
      using assms(2) DStruct by simp
    have cur: "tok_type (pr_current p) = TOK_STRUCT"
      using stream_current [of p] st by (simp add: block_lexemes_def kw_def)
    show ?thesis
      by (rule block_reads [OF st, where parse_body = parseFields and x = "sd_fields s"])
         (use parseFields_reads assms(1) DStruct err cur in \<open>auto simp: parse_decl_def parseStruct_def\<close>)
  next
    case (DTopic t)
    have st: "stream ?p = block_lexemes TOK_TOPIC (td_name t) (concat (map field_lexemes (td_fields t))) @ xs"
      using assms(2) DTopic by simp
    have cur: "tok_type (pr_current p) = TOK_TOPIC"
      using stream_current [of p] st by (simp add: block_lexemes_def kw_def)
    show ?thesis
      by (rule block_reads [OF st, where parse_body = parseFields and x = "td_fields t"])
         (use parseFields_reads assms(1) DTopic err cur in \<open>auto simp: parse_decl_def parseTopic_def\<close>)
  next
    case (DService n ms)
    have st: "stream ?p = block_lexemes TOK_SERVICE n (concat (map member_lexemes ms)) @ xs"
      using assms(2) DService by simp
    have cur: "tok_type (pr_current p) = TOK_SERVICE"
      using stream_current [of p] st by (simp add: block_lexemes_def kw_def)
    show ?thesis
      by (rule block_reads [OF st, where parse_body = parseMembers and x = "(methods_of ms, publishes_of ms)"])
         (use parseMembers_reads assms(1) DService err cur in \<open>auto simp: parse_decl_def parseService_def\<close>)
  qed
qed

lemma decl_starts: "\<exists>t xs. decl_lexemes d = kw t # xs \<and> t \<in> {TOK_STRUCT, TOK_TOPIC, TOK_SERVICE}"
  by (cases d) (auto simp: block_lexemes_def)

lemma parse_decls_reads:
  assumes "list_all decl_ok ds" "stream p = concat (map decl_lexemes ds) @ [(TOK_EOF, v)]" "\<not> pr_has_error p"
  shows "\<exists>q. parse_decls fs sub ast p ctx = (fold add_decl ds ast, q, ctx) \<and> \<not> pr_has_error q"
  using assms
proof (induction ds arbitrary: p ast)
  case Nil
  then show ?case using stream_current [of p TOK_EOF v "[]"] by (subst parse_decls.simps) simp
next
  case (Cons d ds)
  let ?p = "p\<lparr>pr_saw_declaration := True\<rparr>"
  obtain q where q: "parse_decl fs sub ast p ctx = (add_decl d ast, q, ctx)" "reads ?p (concat (map decl_lexemes ds) @ [(TOK_EOF, v)]) q"
    using parse_decl_reads [of d p "concat (map decl_lexemes ds) @ [(TOK_EOF, v)]" fs sub ast ctx] Cons.prems by auto
  have "\<not> pr_has_error q" using reads_error [OF q(2)] Cons.prems(3) by simp
  then obtain r where "parse_decls fs sub (add_decl d ast) q ctx = (fold add_decl ds (add_decl d ast), r, ctx)" "\<not> pr_has_error r"
    using Cons.IH [OF _ reads_stream [OF q(2)]] Cons.prems(1) by auto
  moreover have "tok_type (pr_current p) \<noteq> TOK_EOF"
    using decl_starts [of d] stream_current [of p] Cons.prems(2) by (auto simp: kw_def)
  ultimately show ?case using q(1) Cons.prems(3) by (subst parse_decls.simps) simp
qed

lemma parse_file_reads:
  assumes "list_all decl_ok ds" "stream p = file_lexemes pkg ds @ [(TOK_EOF, v)]" "\<not> pr_has_error p"
    "\<not> pr_saw_import p" "\<not> pr_saw_declaration p"
  shows "\<exists>q. parse_decls fs sub (AstFile_init\<lparr>af_file_path := path\<rparr>) p ctx = (file_ast path pkg ds, q, ctx) \<and> \<not> pr_has_error q"
proof -
  let ?ds = "concat (map decl_lexemes ds) @ [(TOK_EOF, v)]"
  let ?ast = "AstFile_init\<lparr>af_file_path := path\<rparr>"
  let ?ast1 = "AstFile_init\<lparr>af_file_path := path, af_package_name := pkg, af_package_count := 1\<rparr>"
  have s: "stream p = kw TOK_PACKAGE # (TOK_IDENTIFIER, pkg) # kw TOK_SEMICOLON # ?ds"
    using assms(2) by (simp add: file_lexemes_def)
  note c = stream_current [OF s [unfolded kw_def [of TOK_PACKAGE]]]
  obtain tok1 q1 where e1: "expect TOK_PACKAGE p = (tok1, q1)"
    and r1: "reads p ((TOK_IDENTIFIER, pkg) # kw TOK_SEMICOLON # ?ds) q1"
    by (rule expect_reads [OF s [unfolded kw_def [of TOK_PACKAGE]]]) simp_all
  obtain tok2 q2 where e2: "expect TOK_IDENTIFIER q1 = (tok2, q2)" "tok_value tok2 = pkg"
    and r2: "reads q1 (kw TOK_SEMICOLON # ?ds) q2"
    by (rule expect_reads [OF reads_stream [OF r1]]) simp_all
  obtain tok3 q3 where e3: "expect TOK_SEMICOLON q2 = (tok3, q3)" and r3: "reads q2 ?ds q3"
    by (rule expect_reads [OF reads_stream [OF r2, unfolded kw_def [of TOK_SEMICOLON]]]) simp_all
  have pkg: "parse_decl fs sub ?ast p ctx = (?ast1, q3, ctx)"
    using c e1 e2 e3 assms(4,5) by (simp add: parse_decl_def parsePackage_def AstFile_init_def)
  have "\<not> pr_has_error q3"
    using assms(3) by (simp add: reads_error [OF r3] reads_error [OF r2] reads_error [OF r1])
  then obtain q where "parse_decls fs sub ?ast1 q3 ctx = (file_ast path pkg ds, q, ctx)" "\<not> pr_has_error q"
    using parse_decls_reads [OF assms(1) reads_stream [OF r3], of fs sub ?ast1 ctx] by (auto simp: file_ast_def)
  then show ?thesis using c assms(3) by (subst parse_decls.simps) (simp add: pkg)
qed

subsection \<open>From text to tree\<close>

lemma layout_lexemes: "map lexeme_of (layout_tokens xs final pos) = map snd xs @ [(TOK_EOF, [])]"
  by (induction xs arbitrary: pos) (simp_all add: lexeme_of_def mk_Token_def Let_def)

lemma stream_new:
  assumes "layout_ok xs final" "length (layout_text xs final) \<le> IDLC_MAX_SOURCE_BYTES_PER_FILE"
    "pc_total_source_bytes ctx + length (layout_text xs final) \<le> IDLC_MAX_TOTAL_SOURCE_BYTES"
    and new: "Parser_new (Lexer_new (layout_text xs final)) ctx path depth = (p, c)"
  shows "stream p = map snd xs @ [(TOK_EOF, [])]" "\<not> pr_has_error p" "\<not> pr_saw_import p" "\<not> pr_saw_declaration p"
    "pr_file_path p = path" "pc_loaded_packages c = pc_loaded_packages ctx"
proof -
  let ?l = "Lexer_new (layout_text xs final)"
  obtain t l where n: "nextToken ?l = (t, l)" by fastforce
  have "map lexeme_of (lex_all ?l) = map snd xs @ [(TOK_EOF, [])]"
    unfolding Lexer_new_at lex_layout [OF assms(1)] by (rule layout_lexemes)
  moreover have "lex_all ?l = t # (if tok_type t \<in> {TOK_EOF, TOK_ERROR} then [] else lex_all l)"
    by (subst lex_all.simps) (simp add: n)
  ultimately have "lexeme_of t # (if tok_type t \<in> {TOK_EOF, TOK_ERROR} then [] else map lexeme_of (lex_all l))
      = map snd xs @ [(TOK_EOF, [])]" by (auto split: if_splits)
  note left = this
  have "lx_size ?l = length (layout_text xs final)" by (simp add: Lexer_new_def)
  then have new': "p = \<lparr>pr_lexer = l, pr_current = t, pr_has_error = False, pr_error_msg = [], pr_file_path = path,
      pr_base_dir = getDirectory path, pr_saw_import = False, pr_saw_declaration = False, pr_import_depth = depth\<rparr>"
    "pc_loaded_packages c = pc_loaded_packages ctx"
    using new assms(2,3) by (auto simp: Parser_new_def p_next_def n Let_def not_less split: if_splits)
  show "stream p = map snd xs @ [(TOK_EOF, [])]"
    unfolding left [symmetric] by (simp add: new' stream_def)
  show "\<not> pr_has_error p" "\<not> pr_saw_import p" "\<not> pr_saw_declaration p" "pr_file_path p = path"
    "pc_loaded_packages c = pc_loaded_packages ctx"
    by (simp_all add: new')
qed

lemma registerTypes_loaded [simp]: "pc_loaded_packages (registerTypes ast ctx) = pc_loaded_packages ctx"
  by (simp add: registerTypes_def Let_def)

lemma file_ast_names [simp]: "af_package_name (file_ast path pkg ds) = pkg" "af_file_path (file_ast path pkg ds) = path"
proof -
  have "af_package_name (fold add_decl ds a) = af_package_name a \<and> af_file_path (fold add_decl ds a) = af_file_path a" for a
  proof (induction ds arbitrary: a)
    case (Cons d ds)
    then show ?case by (cases d) simp_all
  qed simp
  then show "af_package_name (file_ast path pkg ds) = pkg" "af_file_path (file_ast path pkg ds) = path"
    by (simp_all add: file_ast_def)
qed

theorem parse_layout:
  assumes "layout_ok xs final" "map snd xs = file_lexemes pkg ds" "list_all decl_ok ds" "ident pkg"
    "length (layout_text xs final) \<le> IDLC_MAX_SOURCE_BYTES_PER_FILE"
    "pc_total_source_bytes ctx + length (layout_text xs final) \<le> IDLC_MAX_TOTAL_SOURCE_BYTES"
    "case om_lookup (pc_loaded_packages ctx) pkg of None \<Rightarrow> True | Some other \<Rightarrow> af_file_path other = path"
    and new: "Parser_new (Lexer_new (layout_text xs final)) ctx path depth = (p, c)"
  shows "\<exists>q ctx'. parse fs p c = (True, file_ast path pkg ds, q, ctx') \<and>
    pc_loaded_packages ctx' = om_update pkg (file_ast path pkg ds) (pc_loaded_packages ctx)"
proof -
  note st = stream_new [OF assms(1,5,6) new]
  let ?c = "(if path \<noteq> [] then c\<lparr>pc_processing_files := os_insert (normalizePath fs path) (pc_processing_files c)\<rparr> else c)"
  obtain q where q: "parse_decls fs (parse fs) (AstFile_init\<lparr>af_file_path := path\<rparr>) p ?c = (file_ast path pkg ds, q, ?c)" "\<not> pr_has_error q"
    using parse_file_reads [OF assms(3) _ st(2-4), where fs = fs and sub = "parse fs" and path = path and ctx = ?c] st(1) assms(2) by auto
  have "pkg \<noteq> []" using assms(4) by (auto simp: ident_def is_word_def)
  then show ?thesis
    using q assms(7) st(5,6)
    by (subst parse_unfold) (auto simp: parse_with_def Let_def split: option.split)
qed

subsection \<open>Every file can be written\<close>

definition print_tokens :: "lexeme list \<Rightarrow> string" where
  "print_tokens xs = concat (map (\<lambda>x. lexeme_text x @ '' '') xs)"

definition spaced :: "lexeme list \<Rightarrow> (Blank list \<times> lexeme) list" where
  "spaced xs = (case xs of [] \<Rightarrow> [] | x # xs \<Rightarrow> ([], x) # map (Pair [Space (CHR '' '')]) xs)"

lemma blanks_space [simp]: "blanks_text [Space (CHR '' '')] = '' ''" "c_isspace (CHR '' '')"
  by (simp_all add: blanks_text_def c_isspace_def)

lemma print_spaced: "xs \<noteq> [] \<Longrightarrow> layout_text (spaced xs) [Space (CHR '' '')] = print_tokens xs"
proof -
  have "CHR '' '' # print_tokens ys = layout_text (map (Pair [Space (CHR '' '')]) ys) [Space (CHR '' '')]" for ys
    by (induction ys) (simp_all add: print_tokens_def)
  then show "xs \<noteq> [] \<Longrightarrow> ?thesis"
    by (cases xs) (simp_all add: spaced_def print_tokens_def blanks_text_def)
qed

lemma spaced_ok: "list_all lexeme_ok xs \<Longrightarrow> layout_ok (spaced xs) [Space (CHR '' '')]"
proof -
  let ?rest = "\<lambda>ys. layout_text (map (Pair [Space (CHR '' '')]) ys) [Space (CHR '' '')]"
  have "\<not> is_word_char (CHR '' '')"
    by (simp add: is_word_char_def c_isalnum_def c_isalpha_def is_digit_def)
  then have glue: "glue_ok x (?rest ys)" for x ys
    by (cases ys) (auto simp: glue_ok_def blanks_text_def)
  have "list_all lexeme_ok ys \<Longrightarrow> layout_ok (map (Pair [Space (CHR '' '')]) ys) [Space (CHR '' '')]" for ys
    by (induction ys) (simp_all add: glue)
  then show "list_all lexeme_ok xs \<Longrightarrow> ?thesis"
    by (cases xs) (simp_all add: spaced_def glue)
qed

lemma kw_ok: "t \<notin> {TOK_EOF, TOK_IDENTIFIER, TOK_NUMBER, TOK_STRING, TOK_ERROR} \<Longrightarrow> lexeme_ok (kw t)"
  by (cases t) (simp_all add: kw_def lexeme_ok_def tokenTypeToString_def is_word_def word_type_def idl_keywords_def
      is_word_char_def c_isalnum_def c_isalpha_def is_digit_def punctuation_def)

lemma ident_lexeme: "ident v \<Longrightarrow> lexeme_ok (TOK_IDENTIFIER, v)"
  by (simp add: lexeme_ok_def ident_def)

lemma type_lexemes_ok: "type_ok n t \<Longrightarrow> list_all lexeme_ok (type_lexemes t)"
proof (induction n t rule: type_ok.induct)
  case (1 n prim name pkg el)
  then show ?case
    by (cases prim) (auto simp: token_of_def kw_ok ident_lexeme split: option.splits)
qed

lemma member_lexemes_ok: "member_ok m \<Longrightarrow> list_all lexeme_ok (member_lexemes m)"
  by (cases m) (auto simp: type_lexemes_ok kw_ok ident_lexeme field_ok_def)

lemma fields_lexemes_ok: "list_all field_ok fs \<Longrightarrow> list_all lexeme_ok (concat (map field_lexemes fs))"
  by (induction fs) (auto simp: field_ok_def field_lexemes_def type_lexemes_ok kw_ok ident_lexeme)

lemma members_lexemes_ok: "list_all member_ok ms \<Longrightarrow> list_all lexeme_ok (concat (map member_lexemes ms))"
  by (induction ms) (simp_all add: member_lexemes_ok)

lemma file_lexemes_ok: "ident pkg \<Longrightarrow> list_all decl_ok ds \<Longrightarrow> list_all lexeme_ok (file_lexemes pkg ds)"
proof -
  have "decl_ok d \<Longrightarrow> list_all lexeme_ok (decl_lexemes d)" for d
    by (cases d) (simp_all add: block_lexemes_def kw_ok ident_lexeme fields_lexemes_ok members_lexemes_ok)
  then have "list_all decl_ok ds \<Longrightarrow> list_all lexeme_ok (concat (map decl_lexemes ds))" by (induction ds) simp_all
  then show "ident pkg \<Longrightarrow> list_all decl_ok ds \<Longrightarrow> ?thesis" by (simp add: file_lexemes_def kw_ok ident_lexeme)
qed

end
