(* ===== verification/IdlValidator.thy ===== *)
theory IdlValidator
  imports IdlLoad
begin

section \<open>Semantic validation of interface definitions\<close>

text \<open>
  tools/omni_idlc/semantic_validator.cpp. Every function that reports through \<open>std::string& error\<close>
  returns a sum: \<open>Inl\<close> the message, or \<open>Inr\<close> what it computed together with the traversal counter,
  which all of them share and which bounds the work. A loop that stops at the first error is
  \<open>for_each\<close>. Recursion over imports is bounded by the counter and recursion over structs by its depth;
  the functions below recurse on what is left of those bounds, and run out where the code reports it.
\<close>

subsection \<open>Results\<close>

type_synonym 'a res = "string + 'a"

definition bind_r :: "'a res \<Rightarrow> ('a \<Rightarrow> 'b res) \<Rightarrow> 'b res" where
  "bind_r r f = (case r of Inl e \<Rightarrow> Inl e | Inr x \<Rightarrow> f x)"

primrec for_each :: "('x \<Rightarrow> 's \<Rightarrow> 's res) \<Rightarrow> 'x list \<Rightarrow> 's \<Rightarrow> 's res" where
  "for_each f [] s = Inr s"
| "for_each f (x # xs) s = bind_r (f x s) (for_each f xs)"

lemma bind_r_Inr: "bind_r r f = Inr y \<longleftrightarrow> (\<exists>x. r = Inr x \<and> f x = Inr y)"
  by (cases r) (simp_all add: bind_r_def)

lemma bind_r_simps [simp]: "bind_r (Inr x) f = f x" "bind_r (Inl e) f = Inl e"
  by (simp_all add: bind_r_def)

lemma for_each_append: "for_each f (xs @ ys) s = bind_r (for_each f xs s) (for_each f ys)"
  by (induction xs arbitrary: s) (auto simp: bind_r_def split: sum.split)

text \<open>A loop keeps what each of its steps keeps, and each step leaves its own mark.\<close>

lemma for_each_invariant:
  assumes "for_each f xs s = Inr s'" "P s" "\<And>x s s'. x \<in> set xs \<Longrightarrow> f x s = Inr s' \<Longrightarrow> P s \<Longrightarrow> P s'"
  shows "P s'"
  using assms
proof (induction xs arbitrary: s)
  case (Cons x xs)
  then obtain s1 where "f x s = Inr s1" "for_each f xs s1 = Inr s'" by (auto simp: bind_r_Inr)
  with Cons show ?case by (meson list.set_intros)
qed simp

lemma for_each_marks:
  assumes "for_each f xs s = Inr s'" "\<And>x s s'. x \<in> set xs \<Longrightarrow> f x s = Inr s' \<Longrightarrow> Q x s'"
    "\<And>x y s s'. x \<in> set xs \<Longrightarrow> f x s = Inr s' \<Longrightarrow> Q y s \<Longrightarrow> Q y s'"
  shows "\<forall>x \<in> set xs. Q x s'"
  using assms
proof (induction xs arbitrary: s)
  case (Cons x xs)
  then obtain s1 where s1: "f x s = Inr s1" "for_each f xs s1 = Inr s'" by (auto simp: bind_r_Inr)
  have "Q x s1" using Cons.prems(2) s1(1) by simp
  then have "Q x s'"
    by (rule for_each_invariant [OF s1(2), of "Q x"]) (use Cons.prems(3) in auto)
  moreover have "\<forall>x \<in> set xs. Q x s'" using Cons.IH [OF s1(2)] Cons.prems(2,3) by (meson list.set_intros(2))
  ultimately show ?case by simp
qed simp

subsection \<open>Names\<close>

definition IDLC_MAX_SEMANTIC_TRAVERSAL :: nat where "IDLC_MAX_SEMANTIC_TRAVERSAL = 1048576"
definition IDLC_MAX_STRUCT_DEPENDENCY_DEPTH :: nat where "IDLC_MAX_STRUCT_DEPENDENCY_DEPTH = 64"

definition isReservedGeneratedName :: "string \<Rightarrow> bool" where
  "isReservedGeneratedName name \<longleftrightarrow>
     name \<in> set [''p'', ''req'', ''resp'', ''result'', ''result_len'', ''out'', ''user_data'', ''stub_data'']"

definition isLanguageKeyword :: "string \<Rightarrow> bool" where
  "isLanguageKeyword name \<longleftrightarrow> name \<in> set
     [''asm'', ''auto'', ''bool'', ''break'', ''case'', ''catch'', ''char'', ''class'', ''const'',
      ''const_cast'', ''continue'', ''default'', ''delete'', ''do'', ''double'', ''dynamic_cast'',
      ''else'', ''enum'', ''explicit'', ''export'', ''extern'', ''false'', ''float'', ''for'',
      ''friend'', ''goto'', ''if'', ''inline'', ''int'', ''long'', ''mutable'', ''namespace'',
      ''new'', ''operator'', ''private'', ''protected'', ''public'', ''register'',
      ''reinterpret_cast'', ''return'', ''short'', ''signed'', ''sizeof'', ''static'',
      ''static_cast'', ''struct'', ''switch'', ''template'', ''this'', ''throw'', ''true'',
      ''try'', ''typedef'', ''typeid'', ''typename'', ''union'', ''unsigned'', ''using'',
      ''virtual'', ''void'', ''volatile'', ''wchar_t'', ''while'']"

definition isReservedStructMember :: "string \<Rightarrow> bool" where
  "isReservedStructMember name \<longleftrightarrow> name = ''serialize'' \<or> name = ''deserialize''"

definition validateFieldNames :: "string \<Rightarrow> string \<Rightarrow> FieldDef list \<Rightarrow> unit res" where
  "validateFieldNames owner_kind owner_name flds =
     for_each (\<lambda>f _.
       if isLanguageKeyword (fd_name f) \<or> isReservedStructMember (fd_name f)
       then Inl (owner_kind @ '' '' @ quoted owner_name @ '' field '' @ quoted (fd_name f) @ '' is reserved by generated code'')
       else if tr_primitive (fd_type f) \<in> {TYPE_STRING, TYPE_BYTES} \<and> fd_name f @ ''_len'' \<in> set (map fd_name flds)
       then Inl (owner_kind @ '' '' @ quoted owner_name @ '' field '' @ quoted (fd_name f) @ '' collides with generated ''
              @ quoted ''<field>_len'' @ '' member'')
       else Inr ()) flds ()"

datatype DeclarationKind = DECL_STRUCT | DECL_TOPIC | DECL_SERVICE

type_synonym DeclarationMap = "(string, DeclarationKind) omap"

definition qualify :: "string \<Rightarrow> string \<Rightarrow> string" where
  "qualify pkg name = pkg @ ''.'' @ name"

definition qualifiedName :: "AstFile \<Rightarrow> TypeRef \<Rightarrow> string" where
  "qualifiedName ast t =
     qualify (if tr_package_name t = [] then af_package_name ast else tr_package_name t) (tr_custom_name t)"

definition addDeclaration :: "AstFile \<Rightarrow> string \<times> DeclarationKind \<Rightarrow> DeclarationMap \<Rightarrow> DeclarationMap res" where
  "addDeclaration ast = (\<lambda>(name, kind) declarations.
     let q = qualify (af_package_name ast) name in
     if isLanguageKeyword name then Inl (''declaration name '' @ quoted q @ '' is a language keyword'')
     else if om_lookup declarations q \<noteq> None then Inl (''duplicate declaration '' @ quoted q)
     else Inr (om_update q kind declarations))"

definition collectDeclarations :: "AstFile \<Rightarrow> DeclarationMap \<Rightarrow> DeclarationMap res" where
  "collectDeclarations ast =
     for_each (addDeclaration ast)
       (map (\<lambda>s. (sd_name s, DECL_STRUCT)) (af_structs ast) @ map (\<lambda>t. (td_name t, DECL_TOPIC)) (af_topics ast)
          @ map (\<lambda>s. (sv_name s, DECL_SERVICE)) (af_services ast))"

type_synonym Packages = "(string, AstFile) omap"

subsection \<open>Visible packages\<close>

text \<open>The state is the set of visible packages and the traversal counter.\<close>

definition visit_import ::
  "(string \<Rightarrow> 's \<Rightarrow> 's res) \<Rightarrow> Packages \<Rightarrow> string \<Rightarrow> string \<Rightarrow> 's \<Rightarrow> 's res" where
  "visit_import sub packages package_name import s =
     (if om_lookup packages import = None
      then Inl (''package '' @ quoted package_name @ '' has unresolved import package '' @ quoted import)
      else sub import s)"

definition collect_with ::
  "(string \<Rightarrow> string oset \<times> nat \<Rightarrow> (string oset \<times> nat) res) \<Rightarrow> Packages \<Rightarrow> string \<Rightarrow> string oset \<times> nat
     \<Rightarrow> (string oset \<times> nat) res" where
  "collect_with sub packages package_name = (\<lambda>(visible, traversal).
     if traversal + 1 > IDLC_MAX_SEMANTIC_TRAVERSAL then Inl ''semantic traversal limit exceeded''
     else if os_member visible package_name then Inr (visible, traversal + 1)
     else
       let visible = os_insert package_name visible in
       case om_lookup packages package_name of
         None \<Rightarrow> Inr (visible, traversal + 1)
       | Some ast \<Rightarrow>
           for_each (visit_import sub packages package_name) (af_imported_packages ast) (visible, traversal + 1))"

primrec collect_levels ::
  "nat \<Rightarrow> Packages \<Rightarrow> string \<Rightarrow> string oset \<times> nat \<Rightarrow> (string oset \<times> nat) res" where
  "collect_levels 0 packages = collect_with (\<lambda>_ _. Inl ''semantic traversal limit exceeded'') packages"
| "collect_levels (Suc k) packages = collect_with (collect_levels k packages) packages"

definition collectVisiblePackages ::
  "string \<Rightarrow> Packages \<Rightarrow> string oset \<times> nat \<Rightarrow> (string oset \<times> nat) res" where
  "collectVisiblePackages package_name packages s = collect_levels (IDLC_MAX_SEMANTIC_TRAVERSAL - snd s) packages package_name s"

definition buildVisibleDeclarations :: "AstFile \<Rightarrow> Packages \<Rightarrow> nat \<Rightarrow> (DeclarationMap \<times> nat) res" where
  "buildVisibleDeclarations ast packages traversal =
     bind_r (collectVisiblePackages (af_package_name ast) packages (om_empty, traversal)) (\<lambda>(visible, traversal).
     bind_r (for_each (\<lambda>name declarations.
         case om_lookup packages name of None \<Rightarrow> Inr declarations | Some package \<Rightarrow> collectDeclarations package declarations)
       (om_keys visible) om_empty) (\<lambda>declarations.
     Inr (declarations, traversal)))"

subsection \<open>Types\<close>

fun validateValueType ::
  "AstFile \<Rightarrow> DeclarationMap \<Rightarrow> string \<Rightarrow> bool \<Rightarrow> nat \<Rightarrow> TypeRef \<Rightarrow> nat \<Rightarrow> nat res" where
  "validateValueType ast declarations place allow_void nesting (TypeRef prim name pkg el) traversal =
     (let t = TypeRef prim name pkg el; traversal = traversal + 1 in
      if traversal > IDLC_MAX_SEMANTIC_TRAVERSAL then Inl ''semantic traversal limit exceeded''
      else if nesting \<ge> IDLC_MAX_TYPE_NESTING then Inl (place @ '' exceeds type nesting limit'')
      else if prim = TYPE_VOID then if allow_void then Inr traversal else Inl (place @ '' cannot use void'')
      else if prim = TYPE_ARRAY then
        (case el of
           None \<Rightarrow> Inl (place @ '' has an array with no element type'')
         | Some e \<Rightarrow> validateValueType ast declarations (place @ '' array element'') False (nesting + 1) e traversal)
      else if prim \<noteq> TYPE_CUSTOM then Inr traversal
      else
        let q = qualifiedName ast t in
        case om_lookup declarations q of
          None \<Rightarrow> Inl (place @ '' references unknown or non-imported type '' @ quoted q)
        | Some kind \<Rightarrow>
            if kind \<noteq> DECL_STRUCT then Inl (place @ '' references non-struct type '' @ quoted q)
            else Inr traversal)"

subsection \<open>The order of structs\<close>

definition localDeps :: "AstFile \<Rightarrow> (string, nat) omap \<Rightarrow> nat \<Rightarrow> nat list" where
  "localDeps ast local index =
     concat (map (\<lambda>f. let t = fd_type f in
       if tr_primitive t \<noteq> TYPE_CUSTOM \<or> tr_package_name t \<noteq> [] \<and> tr_package_name t \<noteq> af_package_name ast then []
       else case om_lookup local (tr_custom_name t) of None \<Rightarrow> [] | Some dep \<Rightarrow> [dep])
       (sd_fields (af_structs ast ! index)))"

text \<open>
  The state: 0, 1 or 2 for every struct, the finished structs, and the counter. \<open>levels\<close> is how deep the
  recursion may still go: \<open>depth\<close> in the code is \<open>IDLC_MAX_STRUCT_DEPENDENCY_DEPTH + 1 - levels\<close>.
\<close>

type_synonym order_state = "nat list \<times> nat list \<times> nat"

primrec visitLocalStruct ::
  "AstFile \<Rightarrow> (string, nat) omap \<Rightarrow> nat \<Rightarrow> nat \<Rightarrow> order_state \<Rightarrow> order_state res" where
  "visitLocalStruct ast local 0 index s = Inl ''semantic dependency depth limit exceeded''"
| "visitLocalStruct ast local (Suc levels) index s =
     (let (states, order, traversal) = s; traversal = traversal + 1 in
      if traversal > IDLC_MAX_SEMANTIC_TRAVERSAL then Inl ''semantic traversal limit exceeded''
      else if states ! index = 2 then Inr (states, order, traversal)
      else if states ! index = 1
      then Inl (''by-value struct cycle involving '' @ quoted (qualify (af_package_name ast) (sd_name (af_structs ast ! index))))
      else
        bind_r (for_each (visitLocalStruct ast local levels) (localDeps ast local index)
                  (states[index := 1], order, traversal)) (\<lambda>(states, order, traversal).
        Inr (states[index := 2], order @ [index], traversal)))"

definition local_index :: "AstFile \<Rightarrow> (string, nat) omap" where
  "local_index ast = fold (\<lambda>(i, s). om_update (sd_name s) i) (enumerate 0 (af_structs ast)) om_empty"

definition orderStructs :: "AstFile \<Rightarrow> nat \<Rightarrow> (AstFile \<times> nat) res" where
  "orderStructs ast traversal =
     bind_r (for_each (visitLocalStruct ast (local_index ast) (IDLC_MAX_STRUCT_DEPENDENCY_DEPTH + 1))
               [0..<length (af_structs ast)] (replicate (length (af_structs ast)) 0, [], traversal))
       (\<lambda>(states, order, traversal). Inr (ast\<lparr>af_structs := map (\<lambda>i. af_structs ast ! i) order\<rparr>, traversal))"

subsection \<open>Files\<close>

definition validateFields ::
  "AstFile \<Rightarrow> DeclarationMap \<Rightarrow> string \<Rightarrow> string \<Rightarrow> FieldDef list \<Rightarrow> nat \<Rightarrow> nat res" where
  "validateFields ast declarations kind owner flds traversal =
     bind_r (for_each (\<lambda>f (seen, traversal).
         if os_member seen (fd_name f) then Inl (kind @ '' '' @ quoted owner @ '' has duplicate field '' @ quoted (fd_name f))
         else
           bind_r (validateValueType ast declarations (kind @ '' '' @ quoted owner @ '' field '' @ quoted (fd_name f)) False 0
                     (fd_type f) traversal) (\<lambda>traversal.
           Inr (os_insert (fd_name f) seen, traversal))) flds (om_empty, traversal)) (\<lambda>(seen, traversal).
     bind_r (validateFieldNames kind owner flds) (\<lambda>_. Inr traversal))"

definition validateMethod ::
  "AstFile \<Rightarrow> DeclarationMap \<Rightarrow> string \<Rightarrow> MethodDef \<Rightarrow> string oset \<times> nat \<Rightarrow> (string oset \<times> nat) res" where
  "validateMethod ast declarations service m = (\<lambda>(seen, traversal).
     let who = ''service '' @ quoted service; meth = who @ '' method '' @ quoted (md_name m) in
     if os_member seen (md_name m) then Inl (who @ '' has duplicate method '' @ quoted (md_name m))
     else if isLanguageKeyword (md_name m) then Inl (who @ '' method name '' @ quoted (md_name m) @ '' is a language keyword'')
     else if md_has_param m \<and> (isReservedGeneratedName (fd_name (md_param m)) \<or> isLanguageKeyword (fd_name (md_param m)))
     then Inl (meth @ '' parameter name '' @ quoted (fd_name (md_param m)) @ '' is reserved by generated code'')
     else
       bind_r (validateValueType ast declarations (meth @ '' return type'') True 0 (md_return_type m) traversal) (\<lambda>traversal.
       bind_r (if md_has_param m
               then validateValueType ast declarations (meth @ '' parameter '' @ quoted (fd_name (md_param m))) False 0
                      (fd_type (md_param m)) traversal
               else Inr traversal) (\<lambda>traversal.
       Inr (os_insert (md_name m) seen, traversal))))"

definition validatePublished :: "AstFile \<Rightarrow> DeclarationMap \<Rightarrow> string \<Rightarrow> string \<Rightarrow> string oset \<Rightarrow> string oset res" where
  "validatePublished ast declarations service topic seen =
     (let who = ''service '' @ quoted service; q = qualify (af_package_name ast) topic in
      if os_member seen topic then Inl (who @ '' has duplicate publishes entry '' @ quoted topic)
      else
        case om_lookup declarations q of
          None \<Rightarrow> Inl (who @ '' publishes unknown topic '' @ quoted q)
        | Some kind \<Rightarrow>
            if kind \<noteq> DECL_TOPIC then Inl (who @ '' publishes non-topic '' @ quoted q)
            else Inr (os_insert topic seen))"

definition validateService :: "AstFile \<Rightarrow> DeclarationMap \<Rightarrow> ServiceDef \<Rightarrow> nat \<Rightarrow> nat res" where
  "validateService ast declarations service traversal =
     bind_r (for_each (validateMethod ast declarations (sv_name service)) (sv_methods service) (om_empty, traversal))
       (\<lambda>(_, traversal).
     bind_r (for_each (validatePublished ast declarations (sv_name service)) (sv_publishes service) om_empty) (\<lambda>_.
     Inr traversal))"

definition validateFile :: "AstFile \<Rightarrow> Packages \<Rightarrow> nat \<Rightarrow> (AstFile \<times> nat) res" where
  "validateFile ast packages traversal =
     (if af_package_count ast = 0 \<or> af_package_name ast = [] then Inl (af_file_path ast @ '': package declaration is required'')
      else if af_package_count ast > 1 then Inl (af_file_path ast @ '': package may be declared only once'')
      else if \<not> af_package_before ast then Inl (af_file_path ast @ '': package must appear before imports and declarations'')
      else if \<not> af_imports_before_declarations ast then Inl (af_file_path ast @ '': imports must appear before declarations'')
      else
        bind_r (buildVisibleDeclarations ast packages traversal) (\<lambda>(declarations, traversal).
        bind_r (for_each (\<lambda>s. validateFields ast declarations ''struct'' (sd_name s) (sd_fields s)) (af_structs ast) traversal) (\<lambda>traversal.
        bind_r (for_each (\<lambda>t. validateFields ast declarations ''topic'' (td_name t) (td_fields t)) (af_topics ast) traversal) (\<lambda>traversal.
        bind_r (for_each (validateService ast declarations) (af_services ast) traversal) (\<lambda>traversal.
        orderStructs ast traversal)))))"

subsection \<open>Cycles across packages\<close>

type_synonym StructMap = "(string, StructDef) omap"

text \<open>\<open>name.substr(0, name.rfind('.'))\<close>.\<close>

definition package_part :: "string \<Rightarrow> string" where
  "package_part name =
     (case dropWhile (\<lambda>c. c \<noteq> CHR ''.'') (rev name) of [] \<Rightarrow> name | _ # r \<Rightarrow> rev r)"

definition qualifiedDeps :: "StructMap \<Rightarrow> string \<Rightarrow> string list" where
  "qualifiedDeps structs name =
     (case om_lookup structs name of
        None \<Rightarrow> []
      | Some def \<Rightarrow>
          concat (map (\<lambda>f. let t = fd_type f in
            if tr_primitive t \<noteq> TYPE_CUSTOM then []
            else
              let target = qualify (if tr_package_name t = [] then package_part name else tr_package_name t) (tr_custom_name t)
              in if om_lookup structs target \<noteq> None then [target] else []) (sd_fields def)))"

type_synonym cycle_state = "(string, nat) omap \<times> nat"

definition state_of :: "(string, nat) omap \<Rightarrow> string \<Rightarrow> nat" where
  "state_of states name = (case om_lookup states name of None \<Rightarrow> 0 | Some n \<Rightarrow> n)"

primrec visitQualified :: "StructMap \<Rightarrow> nat \<Rightarrow> string \<Rightarrow> cycle_state \<Rightarrow> cycle_state res" where
  "visitQualified structs 0 name s = Inl ''semantic dependency depth limit exceeded''"
| "visitQualified structs (Suc levels) name s =
     (let (states, traversal) = s; traversal = traversal + 1 in
      if traversal > IDLC_MAX_SEMANTIC_TRAVERSAL then Inl ''semantic traversal limit exceeded''
      else if state_of states name = 2 then Inr (states, traversal)
      else if state_of states name = 1 then Inl (''by-value struct cycle involving '' @ quoted name)
      else
        bind_r (for_each (visitQualified structs levels) (qualifiedDeps structs name) (om_update name 1 states, traversal))
          (\<lambda>(states, traversal). Inr (om_update name 2 states, traversal)))"

definition all_structs :: "Packages \<Rightarrow> StructMap" where
  "all_structs packages =
     fold (\<lambda>(pkg, ast) m. fold (\<lambda>s. om_update (qualify pkg (sd_name s)) s) (af_structs ast) m) (om_list packages) om_empty"

definition validateCycles :: "Packages \<Rightarrow> nat \<Rightarrow> nat res" where
  "validateCycles packages traversal =
     (let structs = all_structs packages in
      bind_r (for_each (visitQualified structs (IDLC_MAX_STRUCT_DEPENDENCY_DEPTH + 1)) (om_keys structs) (om_empty, traversal))
        (\<lambda>(_, traversal). Inr traversal))"

text \<open>Files are validated in the order of their packages, and each is put in order in the map the next ones see.\<close>

definition validateSemantics :: "AstFile \<Rightarrow> ParseContext \<Rightarrow> (AstFile \<times> ParseContext) res" where
  "validateSemantics root context =
     (let root_name = af_package_name root;
          working = (if root_name \<noteq> [] then om_update root_name root (pc_loaded_packages context) else pc_loaded_packages context)
      in bind_r (for_each (\<lambda>name (working, traversal).
             case om_lookup working name of
               None \<Rightarrow> Inr (working, traversal)
             | Some ast \<Rightarrow> bind_r (validateFile ast working traversal) (\<lambda>(ast, traversal). Inr (om_update name ast working, traversal)))
           (om_keys working) (working, 0)) (\<lambda>(working, traversal).
         bind_r (if root_name = [] then bind_r (validateFile root working traversal) (\<lambda>(_, traversal). Inr traversal) else Inr traversal)
           (\<lambda>traversal.
         bind_r (validateCycles working traversal) (\<lambda>_.
         Inr (case om_lookup working root_name of Some ast \<Rightarrow> ast | None \<Rightarrow> root, context\<lparr>pc_loaded_packages := working\<rparr>)))))"

end
