(* ===== verification/IdlSound.thy ===== *)
theory IdlSound
  imports IdlValidator "HOL-Library.Multiset"
begin

section \<open>What validated interface definitions satisfy\<close>

text \<open>
  The two depth-first searches of the validator share one contract, the locale \<open>dfs\<close>: nodes are marked
  1 while they are entered and 2 when they are left, and a node that is left has all its dependencies
  left. Its lemmas give an ordering of the nodes, so the dependencies have no cycle; \<open>dfs_order\<close> adds the
  list of finished nodes and shows that it is a topological order. The rest of the theory is the
  meaning of a successful run: what holds of every file, of every type it mentions and of all structs.
\<close>

subsection \<open>Depth-first search\<close>

locale dfs =
  fixes visit :: "nat \<Rightarrow> 'n \<Rightarrow> 's \<Rightarrow> 's res" and valid :: "'s \<Rightarrow> bool" and color :: "'s \<Rightarrow> 'n \<Rightarrow> nat"
    and deps :: "'n \<Rightarrow> 'n list" and nodes :: "'n set"
  assumes visit_0: "visit 0 n s \<noteq> Inr s'"
    and deps_nodes: "n \<in> nodes \<Longrightarrow> set (deps n) \<subseteq> nodes"
    and visit_Suc: "valid s \<Longrightarrow> n \<in> nodes \<Longrightarrow> visit (Suc k) n s = Inr s' \<Longrightarrow>
      valid s' \<and> color s n = 2 \<and> color s' = color s \<or>
      color s n \<notin> {1, 2} \<and>
      (\<exists>s1 s2. valid s1 \<and> color s1 = (color s)(n := 1) \<and> for_each (visit k) (deps n) s1 = Inr s2 \<and>
         (valid s2 \<longrightarrow> valid s' \<and> color s' = (color s2)(n := 2)))"
begin

text \<open>The finished nodes can be ranked so that dependencies have lower ranks.\<close>

definition ranked :: "('n \<Rightarrow> nat) \<Rightarrow> bool" where
  "ranked c \<longleftrightarrow> (\<exists>f :: 'n \<Rightarrow> nat. \<forall>n. c n = 2 \<longrightarrow> (\<forall>d \<in> set (deps n). c d = 2 \<and> f d < f n))"

definition progress :: "'s \<Rightarrow> 's \<Rightarrow> bool" where
  "progress s s' \<longleftrightarrow> valid s' \<and> ranked (color s') \<and> {m. color s m = 2} \<subseteq> {m. color s' m = 2} \<and>
     {m. color s' m = 1} = {m. color s m = 1}"

lemma progress_trans: "progress a b \<Longrightarrow> progress b c \<Longrightarrow> progress a c"
  unfolding progress_def by blast

lemma progress_left: "progress s s' \<Longrightarrow> color s m = 2 \<Longrightarrow> color s' m = 2"
  unfolding progress_def by blast

lemma progress_open: "progress s s' \<Longrightarrow> color s' m = 1 \<longleftrightarrow> color s m = 1"
  unfolding progress_def by blast

lemma ranked_enter:
  assumes "ranked c" "c n \<noteq> 2"
  shows "ranked (c(n := 1))"
proof -
  obtain f :: "'n \<Rightarrow> nat" where f: "\<forall>n. c n = 2 \<longrightarrow> (\<forall>d \<in> set (deps n). c d = 2 \<and> f d < f n)"
    using assms(1) by (auto simp: ranked_def)
  then have "\<forall>m. (c(n := 1)) m = 2 \<longrightarrow> (\<forall>d \<in> set (deps m). (c(n := 1)) d = 2 \<and> f d < f m)"
    using assms(2) by auto
  then show ?thesis unfolding ranked_def by blast
qed

lemma ranked_leave:
  assumes "ranked c" "c n \<noteq> 2" "\<forall>d \<in> set (deps n). c d = 2"
  shows "ranked (c(n := 2))"
proof -
  obtain f :: "'n \<Rightarrow> nat" where f: "\<forall>n. c n = 2 \<longrightarrow> (\<forall>d \<in> set (deps n). c d = 2 \<and> f d < f n)"
    using assms(1) by (auto simp: ranked_def)
  let ?f = "f(n := Suc (sum_list (map f (deps n))))"
  have "f d < Suc (sum_list (map f (deps n)))" if "d \<in> set (deps n)" for d
    using that by (simp add: le_imp_less_Suc member_le_sum_list)
  then have "\<forall>m. (c(n := 2)) m = 2 \<longrightarrow> (\<forall>d \<in> set (deps m). (c(n := 2)) d = 2 \<and> ?f d < ?f m)"
    using f assms(2,3) by auto
  then show ?thesis unfolding ranked_def by blast
qed

lemma loop_progress:
  assumes "\<And>n s s'. valid s \<Longrightarrow> ranked (color s) \<Longrightarrow> n \<in> nodes \<Longrightarrow> visit k n s = Inr s' \<Longrightarrow> progress s s' \<and> color s' n = 2"
    and "for_each (visit k) ns s = Inr s'" "set ns \<subseteq> nodes" "valid s" "ranked (color s)"
  shows "progress s s' \<and> (\<forall>n \<in> set ns. color s' n = 2)"
  using assms(2-)
proof (induction ns arbitrary: s)
  case Nil
  then show ?case by (auto simp: progress_def)
next
  case (Cons n ns)
  then obtain s1 where s1: "visit k n s = Inr s1" "for_each (visit k) ns s1 = Inr s'" by (auto simp: bind_r_Inr)
  have 1: "progress s s1" "color s1 n = 2" using assms(1) [OF _ _ _ s1(1)] Cons.prems by auto
  then have "valid s1" "ranked (color s1)" by (auto simp: progress_def)
  then have 2: "progress s1 s'" "\<forall>n \<in> set ns. color s' n = 2"
    using Cons.IH [OF s1(2)] Cons.prems by auto
  then have "color s' n = 2" using 1(2) progress_left by blast
  with 1 2 show ?case using progress_trans [of s s1 s'] by simp
qed

lemma visit_progress:
  "valid s \<Longrightarrow> ranked (color s) \<Longrightarrow> n \<in> nodes \<Longrightarrow> visit k n s = Inr s' \<Longrightarrow> progress s s' \<and> color s' n = 2"
proof (induction k arbitrary: n s s')
  case 0
  then show ?case using visit_0 by blast
next
  case (Suc k)
  from visit_Suc [OF Suc.prems(1,3,4)] show ?case
  proof (elim disjE conjE exE)
    assume "valid s'" "color s n = 2" "color s' = color s"
    with Suc.prems(2) show ?thesis by (simp add: progress_def)
  next
    fix s1 s2
    assume new: "color s n \<notin> {1, 2}" and s1: "valid s1" "color s1 = (color s)(n := 1)"
      and loop: "for_each (visit k) (deps n) s1 = Inr s2" and s': "valid s2 \<longrightarrow> valid s' \<and> color s' = (color s2)(n := 2)"
    have r1: "ranked (color s1)" using ranked_enter [OF Suc.prems(2)] new s1(2) by simp
    have "progress s1 s2 \<and> (\<forall>d \<in> set (deps n). color s2 d = 2)"
      by (rule loop_progress [OF _ loop deps_nodes [OF Suc.prems(3)] s1(1) r1]) (rule Suc.IH)
    then have l: "progress s1 s2" "\<forall>d \<in> set (deps n). color s2 d = 2" by blast+
    have n: "color s2 n = 1" using progress_open [OF l(1), of n] s1(2) by simp
    have v: "valid s2" "ranked (color s2)" using l(1) by (simp_all add: progress_def)
    then have c': "valid s'" "color s' = (color s2)(n := 2)" using s' by simp_all
    have "ranked (color s')" using ranked_leave [OF v(2)] l(2) n c'(2) by simp
    moreover have "color s' m = 2" if "color s m = 2" for m
      using progress_left [OF l(1), of m] that new s1(2) c'(2) by (cases "m = n") simp_all
    moreover have "color s' m = 1 \<longleftrightarrow> color s m = 1" for m
      using progress_open [OF l(1), of m] new s1(2) c'(2) by (cases "m = n") simp_all
    ultimately show ?thesis using c' by (simp add: progress_def subset_iff)
  qed
qed

text \<open>A search from all nodes that finds nothing wrong: the dependencies are ranked.\<close>

theorem search_ranks:
  assumes "for_each (visit k) ns s = Inr s'" "set ns = nodes" "valid s" "\<forall>n. color s n \<noteq> 2"
  shows "\<exists>f :: 'n \<Rightarrow> nat. \<forall>n \<in> nodes. \<forall>d \<in> set (deps n). f d < f n"
proof -
  have "ranked (color s)" using assms(4) by (simp add: ranked_def)
  then have "progress s s' \<and> (\<forall>n \<in> set ns. color s' n = 2)"
    by (intro loop_progress [OF _ assms(1) _ assms(3)]) (simp_all add: assms(2) visit_progress)
  then show ?thesis unfolding progress_def ranked_def assms(2) by blast
qed

end

text \<open>A list in which every node comes after its dependencies.\<close>

definition deps_first :: "('n \<Rightarrow> 'n list) \<Rightarrow> 'n list \<Rightarrow> bool" where
  "deps_first deps ns \<longleftrightarrow> (\<forall>i < length ns. set (deps (ns ! i)) \<subseteq> set (take i ns))"

lemma deps_first_snoc: "deps_first deps ns \<Longrightarrow> set (deps n) \<subseteq> set ns \<Longrightarrow> deps_first deps (ns @ [n])"
  by (auto simp: deps_first_def nth_append less_Suc_eq)

text \<open>With the list of the nodes in the order they are left.\<close>

locale dfs_order =
  fixes visit :: "nat \<Rightarrow> 'n \<Rightarrow> 's \<Rightarrow> 's res" and valid :: "'s \<Rightarrow> bool" and color :: "'s \<Rightarrow> 'n \<Rightarrow> nat"
    and deps :: "'n \<Rightarrow> 'n list" and nodes :: "'n set" and finished :: "'s \<Rightarrow> 'n list"
  assumes visit_none: "visit 0 n s \<noteq> Inr s'"
    and deps_closed: "n \<in> nodes \<Longrightarrow> set (deps n) \<subseteq> nodes"
    and visit_step: "valid s \<Longrightarrow> n \<in> nodes \<Longrightarrow> visit (Suc k) n s = Inr s' \<Longrightarrow>
      valid s' \<and> color s n = 2 \<and> color s' = color s \<and> finished s' = finished s \<or>
      color s n \<notin> {1, 2} \<and>
      (\<exists>s1 s2. valid s1 \<and> color s1 = (color s)(n := 1) \<and> finished s1 = finished s \<and> for_each (visit k) (deps n) s1 = Inr s2 \<and>
         (valid s2 \<longrightarrow> valid s' \<and> color s' = (color s2)(n := 2) \<and> finished s' = finished s2 @ [n]))"

sublocale dfs_order \<subseteq> dfs
  using visit_none deps_closed visit_step by unfold_locales blast+

context dfs_order
begin

definition topological :: "'s \<Rightarrow> bool" where
  "topological s \<longleftrightarrow> distinct (finished s) \<and> set (finished s) = {n. color s n = 2} \<and> deps_first deps (finished s)"

lemma visit_topological:
  "valid s \<Longrightarrow> ranked (color s) \<Longrightarrow> topological s \<Longrightarrow> n \<in> nodes \<Longrightarrow> visit k n s = Inr s' \<Longrightarrow> topological s'"
proof (induction k arbitrary: n s s')
  case 0
  then show ?case using visit_none by blast
next
  case (Suc k)
  from visit_step [OF Suc.prems(1,4,5)] show ?case
  proof (elim disjE conjE exE)
    assume "color s' = color s" "finished s' = finished s"
    with Suc.prems(3) show ?thesis by (simp add: topological_def)
  next
    fix s1 s2
    assume new: "color s n \<notin> {1, 2}" and s1: "valid s1" "color s1 = (color s)(n := 1)" "finished s1 = finished s"
      and loop: "for_each (visit k) (deps n) s1 = Inr s2"
      and s': "valid s2 \<longrightarrow> valid s' \<and> color s' = (color s2)(n := 2) \<and> finished s' = finished s2 @ [n]"
    have r1: "ranked (color s1)" using ranked_enter [OF Suc.prems(2)] new s1(2) by simp
    have t1: "topological s1" using Suc.prems(3) s1 new by (auto simp: topological_def)
    have "progress s1 s2 \<and> (\<forall>d \<in> set (deps n). color s2 d = 2)"
      by (rule loop_progress [OF _ loop deps_nodes [OF Suc.prems(4)] s1(1) r1]) (rule visit_progress)
    then have l: "progress s1 s2" "\<forall>d \<in> set (deps n). color s2 d = 2" by blast+
    have "valid s2 \<and> ranked (color s2) \<and> topological s2"
    proof (rule for_each_invariant [OF loop, of "\<lambda>s. valid s \<and> ranked (color s) \<and> topological s"])
      show "valid s1 \<and> ranked (color s1) \<and> topological s1" using s1(1) r1 t1 by simp
    next
      fix x s s' assume x: "x \<in> set (deps n)" "visit k x s = Inr s'" "valid s \<and> ranked (color s) \<and> topological s"
      then have "x \<in> nodes" using deps_nodes [OF Suc.prems(4)] by blast
      with x show "valid s' \<and> ranked (color s') \<and> topological s'"
        using visit_progress [of s x k s'] Suc.IH [of s x s'] by (auto simp: progress_def)
    qed
    then have t2: "topological s2" and v2: "valid s2" by simp_all
    have n: "color s2 n = 1" using progress_open [OF l(1), of n] s1(2) by simp
    have "set (deps n) \<subseteq> set (finished s2)" using l(2) t2 by (auto simp: topological_def)
    then show ?thesis
      using t2 v2 s' n deps_first_snoc [of deps "finished s2" n] by (auto simp: topological_def)
  qed
qed

theorem search_orders:
  assumes "for_each (visit k) ns s = Inr s'" "set ns = nodes" "valid s" "\<forall>n. color s n \<noteq> 2" "finished s = []"
    "\<And>n s. valid s \<Longrightarrow> color s n = 2 \<Longrightarrow> n \<in> nodes"
  shows "distinct (finished s') \<and> set (finished s') = nodes \<and> deps_first deps (finished s')"
proof -
  have r: "ranked (color s)" using assms(4) by (simp add: ranked_def)
  have p: "progress s s' \<and> (\<forall>n \<in> set ns. color s' n = 2)"
    by (intro loop_progress [OF _ assms(1) _ assms(3) r]) (simp_all add: assms(2) visit_progress)
  have "valid s' \<and> ranked (color s') \<and> topological s'"
  proof (rule for_each_invariant [OF assms(1), of "\<lambda>s. valid s \<and> ranked (color s) \<and> topological s"])
    show "valid s \<and> ranked (color s) \<and> topological s" using assms(3-5) r by (simp add: topological_def deps_first_def)
  next
    fix x s s' assume "x \<in> set ns" "visit k x s = Inr s'" "valid s \<and> ranked (color s) \<and> topological s"
    then show "valid s' \<and> ranked (color s') \<and> topological s'"
      using assms(2) visit_progress [of s x k s'] visit_topological [of s x k s'] by (auto simp: progress_def)
  qed
  then show ?thesis using p assms(2,6) by (auto simp: topological_def)
qed

end

subsection \<open>The structs of a file in order\<close>

lemma lookup_fold_index:
  "om_lookup (fold (\<lambda>(i, s). om_update (g s) i) xs m) k = Some v \<Longrightarrow> (\<exists>s. (v, s) \<in> set xs \<and> g s = k) \<or> om_lookup m k = Some v"
  by (induction xs arbitrary: m) (fastforce simp: om_lookup_update split: if_splits)+

lemma lookup_fold_index_in:
  "(\<exists>i s. (i, s) \<in> set xs \<and> g s = k) \<or> om_lookup m k \<noteq> None \<Longrightarrow> om_lookup (fold (\<lambda>(i, s). om_update (g s) i) xs m) k \<noteq> None"
  by (induction xs arbitrary: m) (fastforce simp: om_lookup_update split: if_splits)+

lemma local_index_Some:
  assumes "om_lookup (local_index ast) name = Some i"
  shows "i < length (af_structs ast)" "sd_name (af_structs ast ! i) = name"
proof -
  obtain s where "(i, s) \<in> set (enumerate 0 (af_structs ast))" "sd_name s = name"
    using lookup_fold_index [OF assms [unfolded local_index_def]] by auto
  then show "i < length (af_structs ast)" "sd_name (af_structs ast ! i) = name"
    by (auto simp: in_set_enumerate_eq)
qed

lemma local_index_in: "i < length (af_structs ast) \<Longrightarrow> om_lookup (local_index ast) (sd_name (af_structs ast ! i)) \<noteq> None"
  unfolding local_index_def by (rule lookup_fold_index_in) (force simp: in_set_enumerate_eq)

definition local_color :: "order_state \<Rightarrow> nat \<Rightarrow> nat" where
  "local_color s n = (if n < length (fst s) then fst s ! n else 0)"

lemma local_color_update:
  "i < length states \<Longrightarrow> local_color (states[i := v], x) = (local_color (states, y))(i := v)"
  by (auto simp: local_color_def fun_eq_iff)

interpretation local_structs: dfs_order
  "visitLocalStruct ast (local_index ast)" "\<lambda>s. length (fst s) = length (af_structs ast)" local_color
  "localDeps ast (local_index ast)" "{..<length (af_structs ast)}" "\<lambda>s. fst (snd s)" for ast
proof
  fix n s s' show "visitLocalStruct ast (local_index ast) 0 n s \<noteq> Inr s'" by simp
next
  fix n show "set (localDeps ast (local_index ast) n) \<subseteq> {..<length (af_structs ast)}"
    by (auto simp: localDeps_def Let_def local_index_Some split: if_splits option.splits)
next
  fix s :: order_state and n k s'
  assume len: "length (fst s) = length (af_structs ast)" "n \<in> {..<length (af_structs ast)}"
    and run: "visitLocalStruct ast (local_index ast) (Suc k) n s = Inr s'"
  obtain states order traversal where s: "s = (states, order, traversal)" by (cases s)
  have c: "local_color s n = states ! n" using len s by (simp add: local_color_def)
  show "length (fst s') = length (af_structs ast) \<and> local_color s n = 2 \<and> local_color s' = local_color s \<and> fst (snd s') = fst (snd s) \<or>
    local_color s n \<notin> {1, 2} \<and>
    (\<exists>s1 s2. length (fst s1) = length (af_structs ast) \<and> local_color s1 = (local_color s)(n := 1) \<and> fst (snd s1) = fst (snd s) \<and>
       for_each (visitLocalStruct ast (local_index ast) k) (localDeps ast (local_index ast) n) s1 = Inr s2 \<and>
       (length (fst s2) = length (af_structs ast) \<longrightarrow> length (fst s') = length (af_structs ast) \<and>
          local_color s' = (local_color s2)(n := 2) \<and> fst (snd s') = fst (snd s2) @ [n]))"
  proof (cases "states ! n = 2")
    case True
    with run s len c show ?thesis by (auto simp: Let_def local_color_def fun_eq_iff split: if_splits)
  next
    case False
    let ?s1 = "(states[n := 1], order, traversal + 1)"
    from run s False obtain s2 where "states ! n \<noteq> 1"
      and loop: "for_each (visitLocalStruct ast (local_index ast) k) (localDeps ast (local_index ast) n) ?s1 = Inr s2"
      and s': "s' = ((fst s2)[n := 2], fst (snd s2) @ [n], snd (snd s2))"
      by (auto simp: Let_def bind_r_Inr split: if_splits prod.splits)
    have "local_color ?s1 = (local_color s)(n := 1)" using len s by (simp add: local_color_update)
    moreover have "length (fst s2) = length (af_structs ast) \<Longrightarrow> local_color s' = (local_color s2)(n := 2)"
      using len s' local_color_update [of n "fst s2" 2 _ "snd s2"] by simp
    ultimately show ?thesis
      using False \<open>states ! n \<noteq> 1\<close> c len loop s s' by (intro disjI2 conjI exI [of _ ?s1] exI [of _ s2]) simp_all
  qed
qed

text \<open>A file whose structs are put in order: a permutation in which dependencies come first.\<close>

theorem orderStructs_ok:
  assumes "orderStructs ast t = Inr (ast', t')"
  obtains order where "distinct order" "set order = {..<length (af_structs ast)}"
    "ast' = ast\<lparr>af_structs := map (\<lambda>i. af_structs ast ! i) order\<rparr>" "deps_first (localDeps ast (local_index ast)) order"
proof -
  let ?n = "length (af_structs ast)"
  obtain s where run: "for_each (visitLocalStruct ast (local_index ast) (IDLC_MAX_STRUCT_DEPENDENCY_DEPTH + 1)) [0..<?n] (replicate ?n 0, [], t) = Inr s"
    and ast': "ast' = ast\<lparr>af_structs := map (\<lambda>i. af_structs ast ! i) (fst (snd s))\<rparr>"
    using assms by (auto simp: orderStructs_def bind_r_Inr split: prod.splits)
  have "distinct (fst (snd s)) \<and> set (fst (snd s)) = {..<?n} \<and> deps_first (localDeps ast (local_index ast)) (fst (snd s))"
    by (rule local_structs.search_orders [OF run]) (auto simp: local_color_def split: if_splits)
  with ast' that show thesis by blast
qed

lemma orderStructs_mset:
  assumes "orderStructs ast t = Inr (ast', t')"
  shows "mset (af_structs ast') = mset (af_structs ast)"
proof (rule orderStructs_ok [OF assms])
  fix order assume o: "distinct order" "set order = {..<length (af_structs ast)}"
    "ast' = ast\<lparr>af_structs := map (\<lambda>i. af_structs ast ! i) order\<rparr>"
  then have "mset order = mset [0..<length (af_structs ast)]"
    by (metis atLeast_upt distinct_upt set_eq_iff_mset_eq_distinct)
  then have "mset (map (\<lambda>i. af_structs ast ! i) order) = mset (map (\<lambda>i. af_structs ast ! i) [0..<length (af_structs ast)])"
    by (metis mset_map)
  with o(3) show ?thesis by (simp add: map_nth)
qed

text \<open>A struct of this file that a field holds by value.\<close>

definition by_value :: "AstFile \<Rightarrow> FieldDef \<Rightarrow> string \<Rightarrow> bool" where
  "by_value ast f name \<longleftrightarrow> tr_primitive (fd_type f) = TYPE_CUSTOM \<and> tr_custom_name (fd_type f) = name \<and>
     tr_package_name (fd_type f) \<in> {[], af_package_name ast}"

theorem orderStructs_sorted:
  assumes "orderStructs ast t = Inr (ast', t')" "distinct (map sd_name (af_structs ast))"
    and i: "i < length (af_structs ast')" and f: "f \<in> set (sd_fields (af_structs ast' ! i))"
    and v: "by_value ast f name" "name \<in> set (map sd_name (af_structs ast))"
  shows "\<exists>j < i. sd_name (af_structs ast' ! j) = name"
proof (rule orderStructs_ok [OF assms(1)])
  fix order assume o: "set order = {..<length (af_structs ast)}"
    "ast' = ast\<lparr>af_structs := map (\<lambda>i. af_structs ast ! i) order\<rparr>" "deps_first (localDeps ast (local_index ast)) order"
  obtain k where k: "om_lookup (local_index ast) name = Some k" "sd_name (af_structs ast ! k) = name"
  proof -
    obtain k where "k < length (af_structs ast)" "name = sd_name (af_structs ast ! k)" using v(2) by (auto simp: in_set_conv_nth)
    then have "om_lookup (local_index ast) name \<noteq> None" using local_index_in by simp
    then show thesis using that local_index_Some by blast
  qed
  have i': "i < length order" using i o(2) by simp
  have "f \<in> set (sd_fields (af_structs ast ! (order ! i)))" using f i' o(2) by simp
  then have "k \<in> set (localDeps ast (local_index ast) (order ! i))"
    using v(1) k(1) by (force simp: localDeps_def by_value_def Let_def)
  then have "k \<in> set (take i order)" using o(3) i' by (auto simp: deps_first_def)
  then obtain j where "j < i" "j < length order" "order ! j = k" by (auto simp: in_set_conv_nth)
  then show ?thesis using k(2) o(2) by (intro exI [of _ j]) simp
qed

subsection \<open>No cycles across packages\<close>

interpretation all_packages: dfs
  "visitQualified structs" "\<lambda>_. True" "\<lambda>s. state_of (fst s)" "qualifiedDeps structs" "{n. om_lookup structs n \<noteq> None}" for structs
proof
  fix n s s' show "visitQualified structs 0 n s \<noteq> Inr s'" by simp
next
  fix n show "set (qualifiedDeps structs n) \<subseteq> {n. om_lookup structs n \<noteq> None}"
    by (auto simp: qualifiedDeps_def Let_def split: option.splits if_splits)
next
  fix s :: cycle_state and n k s'
  assume run: "visitQualified structs (Suc k) n s = Inr s'"
  obtain states traversal where s: "s = (states, traversal)" by (cases s)
  have upd: "state_of (om_update x v m) = (state_of m)(x := v)" for x v m
    by (auto simp: state_of_def om_lookup_update fun_eq_iff)
  show "True \<and> state_of (fst s) n = 2 \<and> state_of (fst s') = state_of (fst s) \<or>
    state_of (fst s) n \<notin> {1, 2} \<and>
    (\<exists>s1 s2. True \<and> state_of (fst s1) = (state_of (fst s))(n := 1) \<and>
       for_each (visitQualified structs k) (qualifiedDeps structs n) s1 = Inr s2 \<and>
       (True \<longrightarrow> True \<and> state_of (fst s') = (state_of (fst s2))(n := 2)))"
  proof (cases "state_of states n = 2")
    case True
    with run s show ?thesis by (auto simp: Let_def split: if_splits)
  next
    case False
    from run s False obtain s2 where "state_of states n \<noteq> 1"
      and loop: "for_each (visitQualified structs k) (qualifiedDeps structs n) (om_update n 1 states, traversal + 1) = Inr s2"
      and s': "s' = (om_update n 2 (fst s2), snd s2)"
      by (auto simp: Let_def bind_r_Inr split: if_splits prod.splits)
    then show ?thesis
      using False s by (intro disjI2 conjI exI [of _ "(om_update n 1 states, traversal + 1)"] exI [of _ s2]) (simp_all add: upd)
  qed
qed

theorem validateCycles_ok:
  assumes "validateCycles packages t = Inr t'"
  shows "\<exists>rank :: string \<Rightarrow> nat. \<forall>n. \<forall>d \<in> set (qualifiedDeps (all_structs packages) n). rank d < rank n"
proof -
  let ?s = "all_structs packages"
  obtain s where run: "for_each (visitQualified ?s (IDLC_MAX_STRUCT_DEPENDENCY_DEPTH + 1)) (om_keys ?s) (om_empty, t) = Inr s"
    using assms by (auto simp: validateCycles_def Let_def bind_r_Inr)
  have "\<exists>rank :: string \<Rightarrow> nat. \<forall>n \<in> {n. om_lookup ?s n \<noteq> None}. \<forall>d \<in> set (qualifiedDeps ?s n). rank d < rank n"
    by (rule all_packages.search_ranks [OF run]) (auto simp: in_om_keys_iff state_of_def)
  moreover have "om_lookup ?s n = None \<Longrightarrow> qualifiedDeps ?s n = []" for n
    by (simp add: qualifiedDeps_def)
  ultimately show ?thesis by (metis (mono_tags, lifting) empty_iff empty_set mem_Collect_eq)
qed

subsection \<open>What a file may refer to\<close>

definition imports_rel :: "Packages \<Rightarrow> (string \<times> string) set" where
  "imports_rel packages = {(p, q). \<exists>ast. om_lookup packages p = Some ast \<and> q \<in> set (af_imported_packages ast)}"

definition decl_items :: "AstFile \<Rightarrow> (string \<times> DeclarationKind) list" where
  "decl_items ast = map (\<lambda>s. (sd_name s, DECL_STRUCT)) (af_structs ast) @ map (\<lambda>t. (td_name t, DECL_TOPIC)) (af_topics ast)
     @ map (\<lambda>s. (sv_name s, DECL_SERVICE)) (af_services ast)"

text \<open>\<open>q\<close> is declared as \<open>kind\<close> in a package that \<open>pkg\<close> reaches through imports.\<close>

definition declares :: "Packages \<Rightarrow> string \<Rightarrow> string \<Rightarrow> DeclarationKind \<Rightarrow> bool" where
  "declares packages pkg q kind \<longleftrightarrow>
     (\<exists>p ast name. (pkg, p) \<in> (imports_rel packages)\<^sup>* \<and> om_lookup packages p = Some ast \<and>
        q = qualify (af_package_name ast) name \<and> (name, kind) \<in> set (decl_items ast))"

lemma qualify_inject [simp]: "qualify pkg a = qualify pkg b \<longleftrightarrow> a = b"
  by (simp add: qualify_def)

text \<open>Collecting adds packages that are reached, the one it starts from among them.\<close>

definition collects :: "Packages \<Rightarrow> (string \<Rightarrow> string oset \<times> nat \<Rightarrow> (string oset \<times> nat) res) \<Rightarrow> bool" where
  "collects packages sub \<longleftrightarrow> (\<forall>pkg s s'. sub pkg s = Inr s' \<longrightarrow>
     os_member (fst s') pkg \<and> (\<forall>q. os_member (fst s) q \<longrightarrow> os_member (fst s') q) \<and>
     (\<forall>q. os_member (fst s') q \<longrightarrow> os_member (fst s) q \<or> (pkg, q) \<in> (imports_rel packages)\<^sup>*))"

lemma collect_with_ok:
  assumes "collects packages sub"
  shows "collects packages (collect_with sub packages)"
  unfolding collects_def
proof (intro allI impI)
  fix pkg s s' assume run: "collect_with sub packages pkg s = Inr s'"
  obtain v t where s: "s = (v, t)" by (cases s)
  let ?P = "\<lambda>u. os_member (fst u) pkg \<and> (\<forall>q. os_member v q \<longrightarrow> os_member (fst u) q) \<and>
     (\<forall>q. os_member (fst u) q \<longrightarrow> os_member v q \<or> (pkg, q) \<in> (imports_rel packages)\<^sup>*)"
  have "?P s'"
  proof (cases "os_member v pkg \<or> om_lookup packages pkg = None")
    case True
    with run s show ?thesis by (auto simp: collect_with_def Let_def split: if_splits)
  next
    case False
    then obtain ast where ast: "om_lookup packages pkg = Some ast" by auto
    from run s False ast have f: "for_each (visit_import sub packages pkg) (af_imported_packages ast) (os_insert pkg v, t + 1) = Inr s'"
      by (auto simp: collect_with_def Let_def split: if_splits)
    show ?thesis
    proof (rule for_each_invariant [OF f, of ?P])
      fix i u u' assume i: "i \<in> set (af_imported_packages ast)" and u: "visit_import sub packages pkg i u = Inr u'" "?P u"
      have "sub i u = Inr u'" using u(1) by (simp add: visit_import_def split: if_splits)
      moreover have "(pkg, i) \<in> imports_rel packages" using i ast by (auto simp: imports_rel_def)
      then have "\<And>q. (i, q) \<in> (imports_rel packages)\<^sup>* \<Longrightarrow> (pkg, q) \<in> (imports_rel packages)\<^sup>*"
        by (rule converse_rtrancl_into_rtrancl)
      ultimately show "?P u'" using assms u(2) unfolding collects_def by blast
    qed simp
  qed
  then show "os_member (fst s') pkg \<and> (\<forall>q. os_member (fst s) q \<longrightarrow> os_member (fst s') q) \<and>
     (\<forall>q. os_member (fst s') q \<longrightarrow> os_member (fst s) q \<or> (pkg, q) \<in> (imports_rel packages)\<^sup>*)"
    using s by simp
qed

lemma collect_levels_ok: "collects packages (collect_levels k packages)"
proof (induction k)
  case 0
  have "collects packages (\<lambda>_ _. Inl ''semantic traversal limit exceeded'')" by (simp add: collects_def)
  then show ?case by (simp add: collect_with_ok)
qed (simp add: collect_with_ok)

text \<open>The recursion of the code: the counter bounds how deep it goes.\<close>

lemma for_each_cong:
  assumes "P s" "\<And>x s. x \<in> set xs \<Longrightarrow> P s \<Longrightarrow> f x s = g x s" "\<And>x s s'. P s \<Longrightarrow> g x s = Inr s' \<Longrightarrow> P s'"
  shows "for_each f xs s = for_each g xs s"
  using assms
proof (induction xs arbitrary: s)
  case (Cons x xs)
  then have "f x s = g x s" by simp
  with Cons show ?case by (cases "g x s") auto
qed simp

lemma collect_with_counts:
  assumes "\<And>i u u'. sub i u = Inr u' \<Longrightarrow> snd u < snd u'" and run: "collect_with sub packages pkg s = Inr s'"
  shows "snd s < snd s'"
proof (cases "os_member (fst s) pkg \<or> om_lookup packages pkg = None")
  case True
  with run show ?thesis by (cases s) (auto simp: collect_with_def Let_def split: if_splits)
next
  case False
  then obtain ast where ast: "om_lookup packages pkg = Some ast" by auto
  with run False have f: "for_each (visit_import sub packages pkg) (af_imported_packages ast) (os_insert pkg (fst s), snd s + 1) = Inr s'"
    by (cases s) (auto simp: collect_with_def Let_def split: if_splits)
  show ?thesis
  proof (rule for_each_invariant [OF f, of "\<lambda>u. snd s < snd u"])
    fix i u u' assume "visit_import sub packages pkg i u = Inr u'" "snd s < snd u"
    then show "snd s < snd u'" using assms(1) [of i u u'] by (simp add: visit_import_def split: if_splits)
  qed simp
qed

lemma collect_counts: "collect_levels k packages pkg s = Inr s' \<Longrightarrow> snd s < snd s'"
proof (induction k arbitrary: pkg s s')
  case 0
  show ?case by (rule collect_with_counts [OF _ 0 [unfolded collect_levels.simps]]) simp
next
  case (Suc k)
  show ?case by (rule collect_with_counts [OF Suc.IH Suc.prems [unfolded collect_levels.simps]])
qed

lemma collect_with_cong:
  assumes "\<And>i u. snd s < snd u \<Longrightarrow> sub i u = sub' i u" "\<And>i u u'. sub' i u = Inr u' \<Longrightarrow> snd u < snd u'"
  shows "collect_with sub packages pkg s = collect_with sub' packages pkg s"
proof -
  have "for_each (visit_import sub packages pkg) is (v, snd s + 1) = for_each (visit_import sub' packages pkg) is (v, snd s + 1)" for "is" v
    by (rule for_each_cong [of "\<lambda>u. snd s < snd u"])
       (auto simp: visit_import_def assms(1) split: if_splits dest!: assms(2))
  then show ?thesis by (cases s) (simp add: collect_with_def Let_def split: option.split)
qed

lemma collect_stable:
  "IDLC_MAX_SEMANTIC_TRAVERSAL - snd s \<le> k \<Longrightarrow> collect_levels k packages pkg s = collect_levels (Suc k) packages pkg s"
proof (induction k arbitrary: pkg s)
  case 0
  then show ?case by (cases s) (simp add: collect_with_def)
next
  case (Suc k)
  have "collect_with (collect_levels k packages) packages pkg s = collect_with (collect_levels (Suc k) packages) packages pkg s"
  proof (rule collect_with_cong)
    fix i and u :: "string oset \<times> nat" assume "snd s < snd u"
    with Suc.prems show "collect_levels k packages i u = collect_levels (Suc k) packages i u" by (intro Suc.IH) simp
  qed (rule collect_counts)
  then show ?case by simp
qed

lemma collect_enough:
  assumes "IDLC_MAX_SEMANTIC_TRAVERSAL - snd s \<le> k"
  shows "collect_levels k packages pkg s = collectVisiblePackages pkg packages s"
proof -
  have "collect_levels (IDLC_MAX_SEMANTIC_TRAVERSAL - snd s + d) packages pkg s = collectVisiblePackages pkg packages s" for d
    by (induction d) (simp_all add: collectVisiblePackages_def collect_stable [symmetric] del: collect_levels.simps(2))
  from this [of "k - (IDLC_MAX_SEMANTIC_TRAVERSAL - snd s)"] assms show ?thesis by simp
qed

theorem collectVisiblePackages_unfold:
  "collectVisiblePackages pkg packages s = collect_with (\<lambda>p. collectVisiblePackages p packages) packages pkg s"
proof -
  have "collectVisiblePackages pkg packages s = collect_levels (Suc IDLC_MAX_SEMANTIC_TRAVERSAL) packages pkg s"
    by (rule collect_enough [symmetric]) simp
  also have "\<dots> = collect_with (collect_levels IDLC_MAX_SEMANTIC_TRAVERSAL packages) packages pkg s" by simp
  also have "\<dots> = collect_with (\<lambda>p. collectVisiblePackages p packages) packages pkg s"
  proof (rule collect_with_cong)
    fix i and u u' :: "string oset \<times> nat"
    show "collect_levels IDLC_MAX_SEMANTIC_TRAVERSAL packages i u = collectVisiblePackages i packages u"
      by (rule collect_enough) simp
    show "collectVisiblePackages i packages u = Inr u' \<Longrightarrow> snd u < snd u'"
      unfolding collectVisiblePackages_def by (rule collect_counts)
  qed
  finally show ?thesis .
qed

end
