(* ===== verification/IdlAccepted.thy ===== *)
theory IdlAccepted
  imports IdlSound
begin

section \<open>The meaning of acceptance\<close>

text \<open>
  What \<open>validateSemantics\<close> promises the code generators about every package it accepts, as predicates that
  do not mention the validator (\<open>file_valid\<close>, \<open>structs_sorted\<close>), and the proof that it keeps the promise.
\<close>

subsection \<open>Declarations\<close>

lemma addDeclaration_Inr:
  "addDeclaration ast (n, k) d = Inr d' \<longleftrightarrow>
     \<not> isLanguageKeyword n \<and> om_lookup d (qualify (af_package_name ast) n) = None \<and>
     d' = om_update (qualify (af_package_name ast) n) k d"
  by (auto simp: addDeclaration_def Let_def)

lemma add_declarations:
  assumes "for_each (addDeclaration ast) items d = Inr d'"
  shows "distinct (map fst items)" "\<And>n k. (n, k) \<in> set items \<Longrightarrow> \<not> isLanguageKeyword n"
    "\<And>q k. om_lookup d' q = Some k \<Longrightarrow> om_lookup d q = Some k \<or> (\<exists>n. q = qualify (af_package_name ast) n \<and> (n, k) \<in> set items)"
    "\<And>q. om_lookup d q \<noteq> None \<Longrightarrow> om_lookup d' q = om_lookup d q"
    "\<And>n k. (n, k) \<in> set items \<Longrightarrow> om_lookup d (qualify (af_package_name ast) n) = None"
proof -
  have "distinct (map fst items) \<and> (\<forall>n k. (n, k) \<in> set items \<longrightarrow> \<not> isLanguageKeyword n) \<and>
    (\<forall>q k. om_lookup d' q = Some k \<longrightarrow> om_lookup d q = Some k \<or> (\<exists>n. q = qualify (af_package_name ast) n \<and> (n, k) \<in> set items)) \<and>
    (\<forall>q. om_lookup d q \<noteq> None \<longrightarrow> om_lookup d' q = om_lookup d q) \<and>
    (\<forall>n k. (n, k) \<in> set items \<longrightarrow> om_lookup d (qualify (af_package_name ast) n) = None)"
    using assms
  proof (induction items arbitrary: d)
    case (Cons item items)
    obtain n k where item: "item = (n, k)" by (cases item)
    let ?q = "qualify (af_package_name ast) n"
    from Cons.prems item have new: "\<not> isLanguageKeyword n" "om_lookup d ?q = None"
      and rest: "for_each (addDeclaration ast) items (om_update ?q k d) = Inr d'"
      by (auto simp: bind_r_Inr addDeclaration_Inr)
    note IH = Cons.IH [OF rest]
    have "n \<notin> fst ` set items"
    proof
      assume "n \<in> fst ` set items"
      then obtain k' where "(n, k') \<in> set items" by auto
      with IH have "om_lookup (om_update ?q k d) ?q = None" by blast
      then show False by simp
    qed
    moreover have IH3: "om_lookup (om_update ?q k d) q = Some k' \<or> (\<exists>m. q = qualify (af_package_name ast) m \<and> (m, k') \<in> set items)"
      if "om_lookup d' q = Some k'" for q k' using IH that by blast
    have "om_lookup d' ?q = Some k"
      using IH by (metis om_lookup_update_same option.distinct(1))
    then have "om_lookup d q = Some k' \<or> (\<exists>m. q = qualify (af_package_name ast) m \<and> (m, k') \<in> set (item # items))"
      if "om_lookup d' q = Some k'" for q k'
      using IH3 [OF that] that item by (cases "q = ?q") (auto simp: om_lookup_update)
    moreover have "om_lookup d q \<noteq> None \<Longrightarrow> om_lookup d' q = om_lookup d q" for q
      using IH new(2) by (cases "q = ?q") (auto simp: om_lookup_update)
    moreover have "om_lookup d (qualify (af_package_name ast) m) = None" if "(m, k') \<in> set (item # items)" for m k'
      using IH new(2) item that by (auto simp: om_lookup_update split: if_splits)
    ultimately show ?case using IH new(1) item by auto
  qed simp
  then show "distinct (map fst items)" "\<And>n k. (n, k) \<in> set items \<Longrightarrow> \<not> isLanguageKeyword n"
    "\<And>q k. om_lookup d' q = Some k \<Longrightarrow> om_lookup d q = Some k \<or> (\<exists>n. q = qualify (af_package_name ast) n \<and> (n, k) \<in> set items)"
    "\<And>q. om_lookup d q \<noteq> None \<Longrightarrow> om_lookup d' q = om_lookup d q"
    "\<And>n k. (n, k) \<in> set items \<Longrightarrow> om_lookup d (qualify (af_package_name ast) n) = None"
    by blast+
qed

lemma collectDeclarations_items: "collectDeclarations ast = for_each (addDeclaration ast) (decl_items ast)"
  by (simp add: collectDeclarations_def decl_items_def fun_eq_iff)

text \<open>The names a file declares are its own: no two alike, and none a keyword.\<close>

definition names_ok :: "AstFile \<Rightarrow> bool" where
  "names_ok ast \<longleftrightarrow> distinct (map fst (decl_items ast)) \<and> (\<forall>n \<in> fst ` set (decl_items ast). \<not> isLanguageKeyword n)"

lemma buildVisible_ok:
  assumes "buildVisibleDeclarations ast packages t = Inr (decls, t')"
  shows "om_lookup decls q = Some k \<Longrightarrow> declares packages (af_package_name ast) q k"
    and "om_lookup packages (af_package_name ast) = Some ast \<Longrightarrow> names_ok ast"
proof -
  let ?pkg = "af_package_name ast"
  let ?step = "\<lambda>name declarations. case om_lookup packages name of None \<Rightarrow> Inr declarations | Some package \<Rightarrow> collectDeclarations package declarations"
  obtain v t1 where v: "collectVisiblePackages ?pkg packages (om_empty, t) = Inr (v, t1)"
    and loop: "for_each ?step (om_keys v) om_empty = Inr decls"
    using assms by (auto simp: buildVisibleDeclarations_def bind_r_Inr split: prod.splits)
  have "os_member v ?pkg \<and> (\<forall>q. os_member v q \<longrightarrow> (?pkg, q) \<in> (imports_rel packages)\<^sup>*)"
    using collect_levels_ok [of packages "IDLC_MAX_SEMANTIC_TRAVERSAL - t"] v
    unfolding collects_def collectVisiblePackages_def by fastforce
  then have reach: "p \<in> set (om_keys v) \<Longrightarrow> (?pkg, p) \<in> (imports_rel packages)\<^sup>*" and own: "?pkg \<in> set (om_keys v)" for p
    by (simp_all add: os_member_keys)
  have "\<forall>q k. om_lookup decls q = Some k \<longrightarrow> declares packages ?pkg q k"
  proof (rule for_each_invariant [OF loop, of "\<lambda>d. \<forall>q k. om_lookup d q = Some k \<longrightarrow> declares packages ?pkg q k"])
    fix p d d' assume p: "p \<in> set (om_keys v)" "?step p d = Inr d'" "\<forall>q k. om_lookup d q = Some k \<longrightarrow> declares packages ?pkg q k"
    show "\<forall>q k. om_lookup d' q = Some k \<longrightarrow> declares packages ?pkg q k"
    proof (cases "om_lookup packages p")
      case None
      with p show ?thesis by simp
    next
      case (Some past)
      with p(2) have "for_each (addDeclaration past) (decl_items past) d = Inr d'" by (simp add: collectDeclarations_items)
      from add_declarations(3) [OF this] p(3) reach [OF p(1)] Some show ?thesis unfolding declares_def by metis
    qed
  qed simp
  then show "om_lookup decls q = Some k \<Longrightarrow> declares packages ?pkg q k" by blast
  show "names_ok ast" if mine: "om_lookup packages ?pkg = Some ast"
  proof -
    obtain xs ys where "om_keys v = xs @ ?pkg # ys" using own by (metis split_list)
    with loop obtain d where "for_each ?step (?pkg # ys) d = Inr decls"
      by (auto simp: for_each_append bind_r_Inr)
    then obtain d' where "for_each (addDeclaration ast) (decl_items ast) d = Inr d'"
      using mine by (auto simp: bind_r_Inr collectDeclarations_items)
    from add_declarations(1,2) [OF this] show ?thesis by (auto simp: names_ok_def)
  qed
qed

subsection \<open>Types, fields, methods\<close>

text \<open>A type a field, a parameter or a result may have: void only where allowed, names only of visible structs.\<close>

fun type_valid :: "Packages \<Rightarrow> string \<Rightarrow> bool \<Rightarrow> TypeRef \<Rightarrow> bool" where
  "type_valid packages pkg allow_void (TypeRef prim name tpkg el) \<longleftrightarrow>
     (if prim = TYPE_VOID then allow_void
      else if prim = TYPE_ARRAY then (case el of None \<Rightarrow> False | Some e \<Rightarrow> type_valid packages pkg False e)
      else prim = TYPE_CUSTOM \<longrightarrow> declares packages pkg (qualify (if tpkg = [] then pkg else tpkg) name) DECL_STRUCT)"

lemma validateValueType_ok:
  assumes "\<And>q k. om_lookup decls q = Some k \<Longrightarrow> declares packages (af_package_name ast) q k"
    and "validateValueType ast decls place allow_void nesting t traversal = Inr traversal'"
  shows "type_valid packages (af_package_name ast) allow_void t"
  using assms(2)
proof (induction t arbitrary: place allow_void nesting traversal)
  case (TypeRef prim name pkg el)
  show ?case
  proof (cases "prim = TYPE_ARRAY")
    case True
    with TypeRef.prems obtain e where e: "el = Some e"
      "validateValueType ast decls (place @ '' array element'') False (nesting + 1) e (traversal + 1) = Inr traversal'"
      by (auto simp: Let_def split: if_splits option.splits)
    then show ?thesis using TypeRef.IH [of e] True by simp
  next
    case False
    with TypeRef.prems assms(1) show ?thesis
      by (auto simp: Let_def qualifiedName_def split: if_splits option.splits)
  qed
qed

definition fields_valid :: "Packages \<Rightarrow> string \<Rightarrow> FieldDef list \<Rightarrow> bool" where
  "fields_valid packages pkg fs \<longleftrightarrow> distinct (map fd_name fs) \<and>
     (\<forall>f \<in> set fs. type_valid packages pkg False (fd_type f) \<and>
        \<not> isLanguageKeyword (fd_name f) \<and> \<not> isReservedStructMember (fd_name f) \<and>
        (tr_primitive (fd_type f) \<in> {TYPE_STRING, TYPE_BYTES} \<longrightarrow> fd_name f @ ''_len'' \<notin> fd_name ` set fs))"

definition method_valid :: "Packages \<Rightarrow> string \<Rightarrow> MethodDef \<Rightarrow> bool" where
  "method_valid packages pkg m \<longleftrightarrow> \<not> isLanguageKeyword (md_name m) \<and> type_valid packages pkg True (md_return_type m) \<and>
     (md_has_param m \<longrightarrow> type_valid packages pkg False (fd_type (md_param m)) \<and>
        \<not> isReservedGeneratedName (fd_name (md_param m)) \<and> \<not> isLanguageKeyword (fd_name (md_param m)))"

definition service_valid :: "Packages \<Rightarrow> string \<Rightarrow> ServiceDef \<Rightarrow> bool" where
  "service_valid packages pkg s \<longleftrightarrow> distinct (map md_name (sv_methods s)) \<and>
     (\<forall>m \<in> set (sv_methods s). method_valid packages pkg m) \<and> distinct (sv_publishes s) \<and>
     (\<forall>t \<in> set (sv_publishes s). declares packages pkg (qualify pkg t) DECL_TOPIC)"

text \<open>A loop that records the names it has seen and refuses a second occurrence.\<close>

lemma for_each_distinct:
  assumes "for_each f xs s = Inr s'"
    "\<And>x s s'. x \<in> set xs \<Longrightarrow> f x s = Inr s' \<Longrightarrow> \<not> os_member (seen s) (key x) \<and> seen s' = os_insert (key x) (seen s) \<and> Q x"
  shows "distinct (map key xs) \<and> (\<forall>x \<in> set xs. Q x \<and> \<not> os_member (seen s) (key x))"
  using assms
proof (induction xs arbitrary: s)
  case (Cons x xs)
  then obtain s1 where s1: "f x s = Inr s1" "for_each f xs s1 = Inr s'" by (auto simp: bind_r_Inr)
  have x: "\<not> os_member (seen s) (key x) \<and> seen s1 = os_insert (key x) (seen s) \<and> Q x"
    using Cons.prems(2) [OF _ s1(1)] by simp
  have "distinct (map key xs) \<and> (\<forall>x \<in> set xs. Q x \<and> \<not> os_member (seen s1) (key x))"
    by (rule Cons.IH [OF s1(2)]) (use Cons.prems(2) in \<open>meson list.set_intros(2)\<close>)
  with x show ?case by auto
qed simp

lemma validateFieldNames_ok:
  assumes "validateFieldNames kind owner fs = Inr ()" "f \<in> set fs"
  shows "\<not> isLanguageKeyword (fd_name f) \<and> \<not> isReservedStructMember (fd_name f) \<and>
    (tr_primitive (fd_type f) \<in> {TYPE_STRING, TYPE_BYTES} \<longrightarrow> fd_name f @ ''_len'' \<notin> fd_name ` set fs)"
proof -
  have "\<forall>f \<in> set fs. \<not> isLanguageKeyword (fd_name f) \<and> \<not> isReservedStructMember (fd_name f) \<and>
    (tr_primitive (fd_type f) \<in> {TYPE_STRING, TYPE_BYTES} \<longrightarrow> fd_name f @ ''_len'' \<notin> fd_name ` set fs)"
    by (rule for_each_marks [OF assms(1) [unfolded validateFieldNames_def]]) (auto split: if_splits)
  with assms(2) show ?thesis by blast
qed

lemma validateFields_ok:
  assumes decls: "\<And>q k. om_lookup decls q = Some k \<Longrightarrow> declares packages (af_package_name ast) q k"
    and "validateFields ast decls kind owner fs t = Inr t'"
  shows "fields_valid packages (af_package_name ast) fs"
proof -
  let ?f = "\<lambda>f (seen, traversal).
     if os_member seen (fd_name f) then Inl (kind @ '' '' @ quoted owner @ '' has duplicate field '' @ quoted (fd_name f))
     else bind_r (validateValueType ast decls (kind @ '' '' @ quoted owner @ '' field '' @ quoted (fd_name f)) False 0
            (fd_type f) traversal) (\<lambda>traversal. Inr (os_insert (fd_name f) seen, traversal))"
  obtain s' where loop: "for_each ?f fs (om_empty, t) = Inr s'" and names: "validateFieldNames kind owner fs = Inr ()"
    using assms(2) by (auto simp: validateFields_def bind_r_Inr split: prod.splits)
  have "distinct (map fd_name fs) \<and> (\<forall>f \<in> set fs. type_valid packages (af_package_name ast) False (fd_type f) \<and>
      \<not> os_member (fst (om_empty, t)) (fd_name f))"
    by (rule for_each_distinct [OF loop, where seen = fst and key = fd_name])
       (auto simp: bind_r_Inr validateValueType_ok [OF decls] split: if_splits prod.splits)
  then show ?thesis using validateFieldNames_ok [OF names] by (simp add: fields_valid_def)
qed

lemma validateService_ok:
  assumes decls: "\<And>q k. om_lookup decls q = Some k \<Longrightarrow> declares packages (af_package_name ast) q k"
    and "validateService ast decls service t = Inr t'"
  shows "service_valid packages (af_package_name ast) service"
proof -
  obtain s' p' where m: "for_each (validateMethod ast decls (sv_name service)) (sv_methods service) (om_empty, t) = Inr s'"
    and p: "for_each (validatePublished ast decls (sv_name service)) (sv_publishes service) om_empty = Inr p'"
    using assms(2) by (auto simp: validateService_def bind_r_Inr split: prod.splits)
  have "distinct (map md_name (sv_methods service)) \<and> (\<forall>m \<in> set (sv_methods service). method_valid packages (af_package_name ast) m \<and>
      \<not> os_member (fst (om_empty, t)) (md_name m))"
    by (rule for_each_distinct [OF m, where seen = fst and key = md_name])
       (auto simp: validateMethod_def method_valid_def Let_def bind_r_Inr split: if_splits prod.splits
          intro!: validateValueType_ok [OF decls])
  moreover have "distinct (map (\<lambda>x. x) (sv_publishes service)) \<and> (\<forall>q \<in> set (sv_publishes service).
      declares packages (af_package_name ast) (qualify (af_package_name ast) q) DECL_TOPIC \<and> \<not> os_member om_empty q)"
    by (rule for_each_distinct [OF p, where seen = "\<lambda>s. s" and key = "\<lambda>x. x"])
       (auto simp: validatePublished_def Let_def split: if_splits option.splits dest: decls)
  ultimately show ?thesis by (simp add: service_valid_def)
qed

subsection \<open>Files\<close>

definition file_valid :: "Packages \<Rightarrow> AstFile \<Rightarrow> bool" where
  "file_valid packages ast \<longleftrightarrow>
     af_package_count ast = 1 \<and> af_package_name ast \<noteq> [] \<and> af_package_before ast \<and> af_imports_before_declarations ast \<and>
     names_ok ast \<and>
     (\<forall>s \<in> set (af_structs ast). fields_valid packages (af_package_name ast) (sd_fields s)) \<and>
     (\<forall>t \<in> set (af_topics ast). fields_valid packages (af_package_name ast) (td_fields t)) \<and>
     (\<forall>s \<in> set (af_services ast). service_valid packages (af_package_name ast) s)"

definition structs_sorted :: "AstFile \<Rightarrow> bool" where
  "structs_sorted ast \<longleftrightarrow>
     (\<forall>i < length (af_structs ast). \<forall>f \<in> set (sd_fields (af_structs ast ! i)). \<forall>name \<in> set (map sd_name (af_structs ast)).
        by_value ast f name \<longrightarrow> (\<exists>j < i. sd_name (af_structs ast ! j) = name))"

text \<open>The same file with its structs in another order.\<close>

definition reorders :: "AstFile \<Rightarrow> AstFile \<Rightarrow> bool" where
  "reorders a b \<longleftrightarrow> (\<exists>structs. b = a\<lparr>af_structs := structs\<rparr> \<and> mset structs = mset (af_structs a))"

lemma reorders_refl [simp, intro]: "reorders a a"
  by (metis AstFile.surjective AstFile.update_convs(5) reorders_def)

lemma reorders_trans: "reorders a b \<Longrightarrow> reorders b c \<Longrightarrow> reorders a c"
  by (auto simp: reorders_def)

lemma reorders_fields:
  assumes "reorders a b"
  shows "af_package_name b = af_package_name a" "af_imported_packages b = af_imported_packages a"
    "af_topics b = af_topics a" "af_services b = af_services a" "af_package_count b = af_package_count a"
    "af_package_before b = af_package_before a" "af_imports_before_declarations b = af_imports_before_declarations a"
    "mset (af_structs b) = mset (af_structs a)" "mset (decl_items b) = mset (decl_items a)"
  using assms by (auto simp: reorders_def decl_items_def)

lemma validateFile_ok:
  assumes run: "validateFile ast packages t = Inr (ast', t')" and mine: "om_lookup packages (af_package_name ast) = Some ast"
  shows "file_valid packages ast" "reorders ast ast'" "structs_sorted ast'"
proof -
  from run obtain decls t1 t2 t3 t4 where
    head: "af_package_count ast = 1" "af_package_name ast \<noteq> []" "af_package_before ast" "af_imports_before_declarations ast"
    and d: "buildVisibleDeclarations ast packages t = Inr (decls, t1)"
    and s: "for_each (\<lambda>s. validateFields ast decls ''struct'' (sd_name s) (sd_fields s)) (af_structs ast) t1 = Inr t2"
    and p: "for_each (\<lambda>t. validateFields ast decls ''topic'' (td_name t) (td_fields t)) (af_topics ast) t2 = Inr t3"
    and v: "for_each (validateService ast decls) (af_services ast) t3 = Inr t4"
    and o: "orderStructs ast t4 = Inr (ast', t')"
    by (auto simp: validateFile_def bind_r_Inr split: if_splits prod.splits)
  note decls = buildVisible_ok(1) [OF d]
  have names: "names_ok ast" using buildVisible_ok(2) [OF d mine] .
  have "\<forall>s \<in> set (af_structs ast). fields_valid packages (af_package_name ast) (sd_fields s)"
    by (rule for_each_marks [OF s]) (auto intro: validateFields_ok [OF decls])
  moreover have "\<forall>t \<in> set (af_topics ast). fields_valid packages (af_package_name ast) (td_fields t)"
    by (rule for_each_marks [OF p]) (auto intro: validateFields_ok [OF decls])
  moreover have "\<forall>s \<in> set (af_services ast). service_valid packages (af_package_name ast) s"
    by (rule for_each_marks [OF v]) (auto intro: validateService_ok [OF decls])
  ultimately show "file_valid packages ast" using head names by (simp add: file_valid_def)
  obtain structs where ast': "ast' = ast\<lparr>af_structs := structs\<rparr>"
    using o by (rule orderStructs_ok) blast
  then show "reorders ast ast'" using orderStructs_mset [OF o] by (auto simp: reorders_def)
  have "distinct (map sd_name (af_structs ast))"
    using names by (simp add: names_ok_def decl_items_def comp_def)
  note sorted = orderStructs_sorted [OF o this]
  have "set (map sd_name (af_structs ast')) = set (map sd_name (af_structs ast))"
    using orderStructs_mset [OF o] by (metis mset_map set_mset_mset)
  moreover have "by_value ast' f n = by_value ast f n" for f n using ast' by (simp add: by_value_def)
  ultimately show "structs_sorted ast'" unfolding structs_sorted_def using sorted by metis
qed

subsection \<open>All packages\<close>

definition reorders_all :: "Packages \<Rightarrow> Packages \<Rightarrow> bool" where
  "reorders_all w w' \<longleftrightarrow> (\<forall>p. rel_option reorders (om_lookup w p) (om_lookup w' p))"

lemma reorders_all_refl [simp, intro]: "reorders_all w w"
  by (auto simp: reorders_all_def intro: option.rel_refl)

lemma reorders_all_trans: "reorders_all a b \<Longrightarrow> reorders_all b c \<Longrightarrow> reorders_all a c"
  unfolding reorders_all_def
proof
  fix p assume "\<forall>p. rel_option reorders (om_lookup a p) (om_lookup b p)" "\<forall>p. rel_option reorders (om_lookup b p) (om_lookup c p)"
  then have "rel_option reorders (om_lookup a p) (om_lookup b p)" "rel_option reorders (om_lookup b p) (om_lookup c p)" by blast+
  then show "rel_option reorders (om_lookup a p) (om_lookup c p)"
    by (cases "om_lookup a p"; cases "om_lookup b p"; cases "om_lookup c p") (auto intro: reorders_trans)
qed

lemma reorders_all_update: "om_lookup w p = Some a \<Longrightarrow> reorders a b \<Longrightarrow> reorders_all w (om_update p b w)"
  by (auto simp: reorders_all_def om_lookup_update intro: option.rel_refl)

lemma reorders_sym: "reorders a b \<Longrightarrow> reorders b a"
  unfolding reorders_def by (elim exE conjE, rule exI [of _ "af_structs a"]) simp

lemma reorders_all_sym: "reorders_all w w' \<Longrightarrow> reorders_all w' w"
  unfolding reorders_all_def
proof
  fix p assume "\<forall>p. rel_option reorders (om_lookup w p) (om_lookup w' p)"
  then have "rel_option reorders (om_lookup w p) (om_lookup w' p)" by blast
  then show "rel_option reorders (om_lookup w' p) (om_lookup w p)"
    by (cases "om_lookup w p"; cases "om_lookup w' p") (auto intro: reorders_sym)
qed

lemma reorders_all_lookup:
  assumes "reorders_all w w'" "om_lookup w p = Some a"
  obtains b where "om_lookup w' p = Some b" "reorders a b"
proof -
  have "rel_option reorders (Some a) (om_lookup w' p)" using assms by (metis reorders_all_def)
  then show thesis using that by (cases "om_lookup w' p") auto
qed

lemma imports_rel_mono: "reorders_all w w' \<Longrightarrow> imports_rel w \<subseteq> imports_rel w'"
  unfolding imports_rel_def by (auto elim!: reorders_all_lookup simp: reorders_fields)

lemma declares_mono:
  assumes "reorders_all w w'" "declares w pkg q k"
  shows "declares w' pkg q k"
proof -
  obtain p a name where a: "(pkg, p) \<in> (imports_rel w)\<^sup>*" "om_lookup w p = Some a"
    "q = qualify (af_package_name a) name" "(name, k) \<in> set (decl_items a)"
    using assms(2) by (auto simp: declares_def)
  obtain b where b: "om_lookup w' p = Some b" "reorders a b" using assms(1) a(2) by (rule reorders_all_lookup)
  have "(pkg, p) \<in> (imports_rel w')\<^sup>*" using a(1) rtrancl_mono [OF imports_rel_mono [OF assms(1)]] by blast
  moreover have "set (decl_items b) = set (decl_items a)" using reorders_fields(9) [OF b(2)] by (metis set_mset_mset)
  ultimately show ?thesis unfolding declares_def using a(3,4) b reorders_fields(1) [OF b(2)] by metis
qed

lemma reorders_all_declares: "reorders_all w w' \<Longrightarrow> declares w' = declares w"
  using declares_mono reorders_all_sym by (intro ext) blast

lemma type_valid_cong: "declares w' = declares w \<Longrightarrow> type_valid w' pkg b t = type_valid w pkg b t"
  by (induction w pkg b t rule: type_valid.induct) (auto split: option.split)

lemma file_valid_reorder:
  assumes "file_valid w a" "reorders_all w w'" "reorders a b"
  shows "file_valid w' b"
proof -
  note d = reorders_all_declares [OF assms(2)]
  note f = reorders_fields [OF assms(3)]
  have sets: "set (af_structs b) = set (af_structs a)" "set (decl_items b) = set (decl_items a)"
    using f(8,9) by (metis set_mset_mset)+
  have "mset (map fst (decl_items b)) = mset (map fst (decl_items a))" using f(9) by (metis mset_map)
  then have "distinct (map fst (decl_items b)) = distinct (map fst (decl_items a))" by (metis mset_eq_imp_distinct_iff)
  then show ?thesis
    using assms(1) unfolding file_valid_def names_ok_def f sets fields_valid_def service_valid_def method_valid_def
    by (simp add: type_valid_cong [OF d] d)
qed

definition keyed :: "Packages \<Rightarrow> bool" where
  "keyed w \<longleftrightarrow> (\<forall>p a. om_lookup w p = Some a \<longrightarrow> af_package_name a = p)"

lemma keyed_reorder:
  assumes "keyed w" "reorders_all w w'"
  shows "keyed w'"
  unfolding keyed_def
proof (intro allI impI)
  fix p b assume "om_lookup w' p = Some b"
  with reorders_all_sym [OF assms(2)] obtain a where "om_lookup w p = Some a" "reorders b a" by (rule reorders_all_lookup)
  with assms(1) show "af_package_name b = p" using reorders_fields(1) [of b a] by (simp add: keyed_def)
qed

definition validate_step :: "string \<Rightarrow> Packages \<times> nat \<Rightarrow> (Packages \<times> nat) res" where
  "validate_step name = (\<lambda>(working, traversal).
     case om_lookup working name of
       None \<Rightarrow> Inr (working, traversal)
     | Some ast \<Rightarrow> bind_r (validateFile ast working traversal) (\<lambda>(ast, traversal). Inr (om_update name ast working, traversal)))"

definition package_good :: "Packages \<Rightarrow> string \<Rightarrow> bool" where
  "package_good w p \<longleftrightarrow> (\<forall>a. om_lookup w p = Some a \<longrightarrow> file_valid w a \<and> structs_sorted a)"

lemma validate_step_ok:
  assumes "validate_step name s = Inr s'" "keyed (fst s)"
  shows "reorders_all (fst s) (fst s')" "package_good (fst s') name"
    "\<And>p. p \<noteq> name \<Longrightarrow> om_lookup (fst s') p = om_lookup (fst s) p"
proof -
  obtain w t where s: "s = (w, t)" by (cases s)
  have "reorders_all (fst s) (fst s') \<and> package_good (fst s') name \<and> (\<forall>p. p \<noteq> name \<longrightarrow> om_lookup (fst s') p = om_lookup (fst s) p)"
  proof (cases "om_lookup w name")
    case None
    with assms(1) s show ?thesis by (auto simp: validate_step_def package_good_def)
  next
    case (Some a)
    with assms(1) s obtain b t' where b: "validateFile a w t = Inr (b, t')" and s': "s' = (om_update name b w, t')"
      by (auto simp: validate_step_def bind_r_Inr)
    have mine: "om_lookup w (af_package_name a) = Some a" using assms(2) s Some by (simp add: keyed_def)
    note ok = validateFile_ok [OF b mine]
    have r: "reorders_all w (om_update name b w)" using Some ok(2) by (rule reorders_all_update)
    then have "file_valid (om_update name b w) b" using file_valid_reorder ok(1,2) by blast
    with r ok(3) s s' show ?thesis by (simp add: package_good_def om_lookup_update)
  qed
  then show "reorders_all (fst s) (fst s')" "package_good (fst s') name"
    "\<And>p. p \<noteq> name \<Longrightarrow> om_lookup (fst s') p = om_lookup (fst s) p" by blast+
qed

lemma package_good_keep:
  "package_good w p \<Longrightarrow> reorders_all w w' \<Longrightarrow> om_lookup w' p = om_lookup w p \<Longrightarrow> package_good w' p"
  unfolding package_good_def using file_valid_reorder reorders_refl by metis

lemma validate_loop_ok:
  assumes "for_each validate_step ks s = Inr s'" "keyed (fst s)"
  shows "reorders_all (fst s) (fst s') \<and> (\<forall>p \<in> set ks. package_good (fst s') p) \<and>
    (\<forall>p. p \<notin> set ks \<longrightarrow> om_lookup (fst s') p = om_lookup (fst s) p)"
  using assms
proof (induction ks arbitrary: s)
  case (Cons k ks)
  then obtain s1 where s1: "validate_step k s = Inr s1" "for_each validate_step ks s1 = Inr s'" by (auto simp: bind_r_Inr)
  note k = validate_step_ok [OF s1(1) Cons.prems(2)]
  have IH: "reorders_all (fst s1) (fst s')" "\<forall>p \<in> set ks. package_good (fst s') p"
    "\<forall>p. p \<notin> set ks \<longrightarrow> om_lookup (fst s') p = om_lookup (fst s1) p"
    using Cons.IH [OF s1(2) keyed_reorder [OF Cons.prems(2) k(1)]] by blast+
  have "package_good (fst s') k"
  proof (cases "k \<in> set ks")
    case False
    then show ?thesis using package_good_keep [OF k(2) IH(1)] IH(3) by blast
  qed (use IH(2) in blast)
  moreover have "om_lookup (fst s') p = om_lookup (fst s) p" if "p \<notin> set (k # ks)" for p
    using IH(3) k(3) that by simp
  ultimately show ?case using reorders_all_trans [OF k(1) IH(1)] IH(2) by auto
qed simp

text \<open>
  An accepted set of packages: every file is in order, its structs come after the structs they hold,
  and no struct contains itself, not even through other packages.
\<close>

theorem validateSemantics_ok:
  assumes run: "validateSemantics root context = Inr (root', context')"
    and key: "keyed (pc_loaded_packages context)"
  defines "w \<equiv> (if af_package_name root \<noteq> [] then om_update (af_package_name root) root (pc_loaded_packages context)
                 else pc_loaded_packages context)"
  shows "reorders_all w (pc_loaded_packages context')"
    and "\<And>p a. om_lookup (pc_loaded_packages context') p = Some a \<Longrightarrow> file_valid (pc_loaded_packages context') a \<and> structs_sorted a"
    and "\<exists>rank :: string \<Rightarrow> nat. \<forall>n. \<forall>d \<in> set (qualifiedDeps (all_structs (pc_loaded_packages context')) n). rank d < rank n"
    and "af_package_name root \<noteq> [] \<Longrightarrow> om_lookup (pc_loaded_packages context') (af_package_name root) = Some root'"
proof -
  have kw: "keyed w" using key by (auto simp: w_def keyed_def om_lookup_update)
  have step: "(\<lambda>name (working, traversal). case om_lookup working name of None \<Rightarrow> Inr (working, traversal)
      | Some ast \<Rightarrow> bind_r (validateFile ast working traversal) (\<lambda>(ast, traversal). Inr (om_update name ast working, traversal)))
    = validate_step"
    by (simp add: validate_step_def fun_eq_iff)
  from run obtain s t1 t2 where loop: "for_each validate_step (om_keys w) (w, 0) = Inr s"
    and cyc: "validateCycles (fst s) t1 = Inr t2"
    and res: "context' = context\<lparr>pc_loaded_packages := fst s\<rparr>"
      "root' = (case om_lookup (fst s) (af_package_name root) of Some ast \<Rightarrow> ast | None \<Rightarrow> root)"
    unfolding validateSemantics_def step w_def Let_def by (auto simp: bind_r_Inr split: prod.splits)
  note ok = validate_loop_ok [OF loop, simplified fst_conv, OF kw]
  have packages: "pc_loaded_packages context' = fst s" by (simp add: res)
  show re: "reorders_all w (pc_loaded_packages context')" using ok packages by simp
  show "file_valid (pc_loaded_packages context') a \<and> structs_sorted a" if a: "om_lookup (pc_loaded_packages context') p = Some a" for p a
  proof -
    have "p \<in> set (om_keys w)" using re a by (metis in_om_keys_iff option.rel_distinct(1) reorders_all_def)
    then show ?thesis using ok a packages by (auto simp: package_good_def)
  qed
  show "\<exists>rank :: string \<Rightarrow> nat. \<forall>n. \<forall>d \<in> set (qualifiedDeps (all_structs (pc_loaded_packages context')) n). rank d < rank n"
    unfolding packages using validateCycles_ok [OF cyc] .
  show "om_lookup (pc_loaded_packages context') (af_package_name root) = Some root'" if "af_package_name root \<noteq> []"
  proof -
    have "om_lookup w (af_package_name root) = Some root" using that by (simp add: w_def)
    then obtain b where "om_lookup (fst s) (af_package_name root) = Some b"
      using re packages by (metis reorders_all_lookup)
    then show ?thesis using res packages by simp
  qed
qed

end
