(* ===== verification/IdlMain.thy ===== *)
theory IdlMain
  imports IdlGrammar IdlAccepted
begin

section \<open>The interface compiler\<close>

text \<open>
  tools/omni_idlc/main.cpp: the command line, the front end (reading the file, parsing it with its imports,
  validating the result), the files code is generated for, and the dependency file. What the code
  generators write is not modelled.
\<close>

record IdlcOptions =
  opt_lang :: string
  opt_output_dir :: string
  opt_dep_file :: string
  opt_input_file :: string

definition IdlcOptions_init :: IdlcOptions where
  "IdlcOptions_init = \<lparr>opt_lang = ''cpp'', opt_output_dir = ''.'', opt_dep_file = [], opt_input_file = []\<rparr>"

text \<open>\<open>arg.find(prefix) == 0\<close> and \<open>arg.substr(prefix.size())\<close>.\<close>

definition strip_prefix :: "string \<Rightarrow> string \<Rightarrow> string option" where
  "strip_prefix pre arg = (if take (length pre) arg = pre then Some (drop (length pre) arg) else None)"

datatype ArgResult = Continue IdlcOptions | Help | UnknownOption string

fun parse_args :: "string list \<Rightarrow> IdlcOptions \<Rightarrow> ArgResult" where
  "parse_args [] opts = Continue opts"
| "parse_args (arg # args) opts =
     (case strip_prefix ''--lang='' arg of
        Some v \<Rightarrow> parse_args args (opts\<lparr>opt_lang := v\<rparr>)
      | None \<Rightarrow>
     case strip_prefix ''--output='' arg of
        Some v \<Rightarrow> parse_args args (opts\<lparr>opt_output_dir := v\<rparr>)
      | None \<Rightarrow>
     case strip_prefix ''--dep-file='' arg of
        Some v \<Rightarrow> parse_args args (opts\<lparr>opt_dep_file := v\<rparr>)
      | None \<Rightarrow>
          if arg = ''--help'' then Help
          else if arg = [] \<or> hd arg \<noteq> CHR ''-'' then parse_args args (opts\<lparr>opt_input_file := arg\<rparr>)
          else UnknownOption arg)"

definition extractBasename :: "string \<Rightarrow> string" where
  "extractBasename path = rev (takeWhile (\<lambda>c. \<not> is_path_sep c) (rev path))"

text \<open>Lines 151 to 185 of \<open>main\<close>: the message on standard error, or the tree and the context.\<close>

definition front_end :: "IdlFiles \<Rightarrow> string \<Rightarrow> (AstFile \<times> ParseContext) res" where
  "front_end fs input_file =
     (case fs_open fs input_file of
        None \<Rightarrow> Inl (''Error: Cannot open file: '' @ input_file)
      | Some (file_size, source) \<Rightarrow>
          if file_size < 0 \<or> nat file_size > IDLC_MAX_SOURCE_BYTES_PER_FILE
          then Inl (''Error: IDL source size limit exceeded: '' @ input_file)
          else
            let (p, ctx) = Parser_new (Lexer_new source) ParseContext_init input_file 0;
                (ok, ast, p, ctx) = parse fs p ctx
            in if \<not> ok then Inl (''Parse error: '' @ pr_error_msg p)
               else
                 case validateSemantics ast ctx of
                   Inl e \<Rightarrow> Inl (''Semantic error: '' @ e)
                 | Inr r \<Rightarrow> Inr r)"

text \<open>The files code is generated for, in order: the imported packages, then the main file; unnamed ones are skipped.\<close>

definition generation_plan :: "AstFile \<times> ParseContext \<Rightarrow> (string \<times> AstFile) list" where
  "generation_plan = (\<lambda>(ast, ctx).
     filter (\<lambda>x. fst x \<noteq> []) (map (\<lambda>a. (extractBasename (af_file_path a), a))
       (filter (\<lambda>a. af_package_name a \<noteq> af_package_name ast) (om_values (pc_loaded_packages ctx)) @ [ast])))"

definition dep_file_text :: "string \<Rightarrow> string \<Rightarrow> string \<Rightarrow> ParseContext \<Rightarrow> string \<Rightarrow> string" where
  "dep_file_text output_dir main_basename lang ctx main_file =
     (let stem = output_dir @ ''/'' @ main_basename in
      (if lang = ''cpp'' \<or> lang = ''all'' then stem @ ''.h '' @ stem @ ''.cpp'' else [])
      @ (if lang = ''all'' then '' '' else [])
      @ (if lang = ''c'' \<or> lang = ''all'' then stem @ ''_c.h '' @ stem @ ''.c'' else [])
      @ '' :'' @ '' '' @ main_file @ concat (map (\<lambda>f. '' '' @ f) (pc_all_files ctx)) @ [newline])"

subsection \<open>What an accepted file guarantees\<close>

lemma ParseContext_init_ok: "ctx_ok ParseContext_init"
  by (simp add: ctx_ok_def packages_closed_def ParseContext_init_def)

text \<open>The parser of the main file starts from an empty context.\<close>

lemma parse_main:
  assumes "files_ok fs" "input_file \<noteq> []"
    and new: "Parser_new (Lexer_new source) ParseContext_init input_file 0 = (p, ctx)"
  shows "loaded_ok ctx (parse fs p ctx)" "ctx_ok ctx" "pc_processing_files ctx = om_empty"
proof -
  have e: "extends ParseContext_init ctx" using extends_Parser_new [of ParseContext_init] new by (metis snd_conv)
  then show ctx: "ctx_ok ctx" "pc_processing_files ctx = om_empty"
    using ParseContext_init_ok by (auto simp: extends_def ParseContext_init_def)
  have "pr_file_path p = input_file" using depth_Parser_new(2) new by (metis fst_conv)
  then show "loaded_ok ctx (parse fs p ctx)"
    using file_loader.sub_ok [OF parse_loader [OF assms(1)] ctx(1)] assms(2) ctx(2) by simp
qed

lemma front_end_Inr:
  assumes "front_end fs input_file = Inr (ast', ctx')"
  obtains n source p ctx ast q ctx1 where "fs_open fs input_file = Some (n, source)"
    "Parser_new (Lexer_new source) ParseContext_init input_file 0 = (p, ctx)"
    "parse fs p ctx = (True, ast, q, ctx1)" "validateSemantics ast ctx1 = Inr (ast', ctx')"
  using assms by (auto simp: front_end_def Let_def split: option.splits prod.splits if_splits sum.splits)

theorem front_end_ok:
  assumes "files_ok fs" "input_file \<noteq> []" and run: "front_end fs input_file = Inr (ast, ctx)"
  shows "\<And>p a. om_lookup (pc_loaded_packages ctx) p = Some a \<Longrightarrow>
      af_package_name a = p \<and> file_valid (pc_loaded_packages ctx) a \<and> structs_sorted a"
    and "\<exists>rank :: string \<Rightarrow> nat. \<forall>n. \<forall>d \<in> set (qualifiedDeps (all_structs (pc_loaded_packages ctx)) n). rank d < rank n"
    and "pc_processing_files ctx = om_empty" "length (pc_all_files ctx) \<le> IDLC_MAX_IMPORT_FILES"
proof -
  obtain n source p c0 a0 q c1 where parts: "fs_open fs input_file = Some (n, source)"
    "Parser_new (Lexer_new source) ParseContext_init input_file 0 = (p, c0)"
    "parse fs p c0 = (True, a0, q, c1)" "validateSemantics a0 c1 = Inr (ast, ctx)"
    using run by (rule front_end_Inr)
  have "loaded_ok c0 (True, a0, q, c1)" "ctx_ok c0" "pc_processing_files c0 = om_empty"
    using parse_main [OF assms(1,2) parts(2)] parts(3) by simp_all
  then have c1: "ctx_ok c1" "pc_processing_files c1 = om_empty" by (auto simp: loaded_ok_def extends_def)
  then have key: "keyed (pc_loaded_packages c1)" by (simp add: ctx_ok_def packages_closed_def keyed_def)
  note ok = validateSemantics_ok [OF parts(4) key]
  have "keyed (pc_loaded_packages ctx)"
    by (rule keyed_reorder [OF _ ok(1)]) (use key in \<open>auto simp: keyed_def om_lookup_update\<close>)
  then show "af_package_name a = p' \<and> file_valid (pc_loaded_packages ctx) a \<and> structs_sorted a"
    if "om_lookup (pc_loaded_packages ctx) p' = Some a" for p' a
    using ok(2) that by (auto simp: keyed_def)
  show "\<exists>rank :: string \<Rightarrow> nat. \<forall>n. \<forall>d \<in> set (qualifiedDeps (all_structs (pc_loaded_packages ctx)) n). rank d < rank n"
    by (rule ok(3))
  have "\<exists>w. ctx = c1\<lparr>pc_loaded_packages := w\<rparr>"
    using parts(4) by (auto simp: validateSemantics_def Let_def bind_r_Inr split: prod.splits)
  then show "pc_processing_files ctx = om_empty" "length (pc_all_files ctx) \<le> IDLC_MAX_IMPORT_FILES"
    using c1 by (auto simp: ctx_ok_def)
qed

end
