(* ===== verification/Floating.thy ===== *)
theory Floating
  imports OmniTypes
begin

section \<open>Floating-point numbers\<close>

text \<open>
  The conversions of \<open>double\<close> and \<open>float\<close> the command line tool relies on, on their IEEE 754 bit patterns:
  rounding to nearest, ties to even; \<open>strtod\<close> on decimal numbers; and the output of a stream with
  \<open>setprecision(17)\<close>. A magnitude is a fraction of natural numbers, so everything is exact and computes.
  Shown here: a number that is representable is not changed by rounding, in particular every integer
  below \<open>2^53\<close>.
\<close>

subsection \<open>Rounding\<close>

fun bitlen :: "nat \<Rightarrow> nat" where
  "bitlen n = (if n = 0 then 0 else Suc (bitlen (n div 2)))"

declare bitlen.simps [simp del]

definition round_half_even :: "nat \<Rightarrow> nat \<Rightarrow> nat" where
  "round_half_even n d =
     (let q = n div d; r = n mod d in
      if 2 * r < d then q else if d < 2 * r then q + 1 else if even q then q else q + 1)"

text \<open>The exponent \<open>e\<close> with \<open>2^e \<le> n/d < 2^(e + 1)\<close>.\<close>

definition binary_exponent :: "nat \<Rightarrow> nat \<Rightarrow> int" where
  "binary_exponent n d =
     (let e = int (bitlen n) - int (bitlen d) in
      if n * 2 ^ nat (- e) < d * 2 ^ nat e then e - 1 else e)"

text \<open>
  The bits of \<open>n/d\<close> in a format with \<open>p\<close> bits of precision and least exponent \<open>emin\<close>; \<open>infty\<close> are the bits of
  infinity. Below \<open>2^emin\<close> numbers are subnormal.
\<close>

definition fp_round :: "nat \<Rightarrow> int \<Rightarrow> nat \<Rightarrow> nat \<Rightarrow> nat \<Rightarrow> nat" where
  "fp_round p emin infty n d =
     (if n = 0 then 0
      else
        let e = max (binary_exponent n d) emin; u = e - (int p - 1);
            m = round_half_even (n * 2 ^ nat (- u)) (d * 2 ^ nat u)
        in min (nat (e - emin) * 2 ^ (p - 1) + m) infty)"

text \<open>The magnitude bits stand for: significand times a power of two.\<close>

definition fp_significand :: "nat \<Rightarrow> nat \<Rightarrow> nat" where
  "fp_significand p bits = (let f = bits mod 2 ^ (p - 1) in if bits div 2 ^ (p - 1) = 0 then f else 2 ^ (p - 1) + f)"

definition fp_shift :: "nat \<Rightarrow> int \<Rightarrow> nat \<Rightarrow> int" where
  "fp_shift p emin bits = (let E = bits div 2 ^ (p - 1) in emin - (int p - 1) + (if E = 0 then 0 else int E - 1))"

definition fp_fraction :: "nat \<Rightarrow> int \<Rightarrow> nat \<Rightarrow> nat \<times> nat" where
  "fp_fraction p emin bits =
     (let u = fp_shift p emin bits in (fp_significand p bits * 2 ^ nat u, 2 ^ nat (- u)))"

lemma bitlen_0 [simp]: "bitlen 0 = 0"
  by (simp add: bitlen.simps)

lemma bitlen_bounds: "n \<noteq> 0 \<Longrightarrow> 2 ^ (bitlen n - 1) \<le> n \<and> n < 2 ^ bitlen n \<and> 0 < bitlen n"
proof (induction n rule: bitlen.induct)
  case (1 n)
  show ?case
  proof (cases "n div 2 = 0")
    case True
    with 1 have "n = 1" by auto
    then show ?thesis by (simp add: bitlen.simps)
  next
    case False
    with 1 have IH: "2 ^ (bitlen (n div 2) - 1) \<le> n div 2" "n div 2 < 2 ^ bitlen (n div 2)" "0 < bitlen (n div 2)" by auto
    then obtain k where k: "bitlen (n div 2) = Suc k" by (cases "bitlen (n div 2)") auto
    then have b: "bitlen n = Suc (Suc k)" using 1(2) by (subst bitlen.simps) simp
    from IH have "2 ^ k \<le> n div 2" "n div 2 < 2 * 2 ^ k" by (simp_all add: k)
    then have "2 * 2 ^ k \<le> n" "n < 4 * 2 ^ k" by auto
    then show ?thesis by (simp add: b)
  qed
qed

lemma bitlen_unique: "2 ^ k \<le> n \<Longrightarrow> n < 2 ^ Suc k \<Longrightarrow> bitlen n = Suc k"
proof -
  assume a: "2 ^ k \<le> n" "n < 2 ^ Suc k"
  then have "n \<noteq> 0" by (metis le_zero_eq power_not_zero zero_neq_numeral)
  then obtain j where j: "bitlen n = Suc j" "2 ^ j \<le> n" "n < 2 ^ Suc j"
    using bitlen_bounds [of n] by (cases "bitlen n") auto
  have "(2::nat) ^ k < 2 ^ Suc j" "(2::nat) ^ j < 2 ^ Suc k" using a j by linarith+
  then have "k < Suc j" "j < Suc k" by (meson one_less_numeral_iff power_less_imp_less_exp semiring_norm(76))+
  with j(1) show ?thesis by simp
qed

lemma bitlen_shift: "m \<noteq> 0 \<Longrightarrow> bitlen (m * 2 ^ a) = bitlen m + a"
proof -
  assume m: "m \<noteq> 0"
  then obtain j where j: "bitlen m = Suc j" "2 ^ j \<le> m" "m < 2 ^ Suc j"
    using bitlen_bounds [of m] by (cases "bitlen m") auto
  have "2 ^ (j + a) \<le> m * 2 ^ a" "m * 2 ^ a < 2 ^ Suc (j + a)" using j(2,3) by (simp_all add: power_add)
  from bitlen_unique [OF this] j(1) show ?thesis by simp
qed

lemma bitlen_pow [simp]: "bitlen (2 ^ b) = Suc b"
  by (rule bitlen_unique) simp_all

text \<open>\<open>u\<close> as a difference of natural numbers.\<close>

lemma binary_exponent_dyadic:
  assumes "m \<noteq> 0"
  shows "binary_exponent (m * 2 ^ a) (2 ^ b) = int (bitlen m) - 1 + int a - int b"
proof -
  let ?e = "int (bitlen m) - 1 + int a - int b"
  have e: "int (bitlen (m * 2 ^ a)) - int (bitlen (2 ^ b)) = ?e" using assms by (simp add: bitlen_shift)
  obtain j where j: "bitlen m = Suc j" "2 ^ j \<le> m" using bitlen_bounds [OF assms] by (cases "bitlen m") auto
  have "\<not> m * 2 ^ a * 2 ^ nat (- ?e) < 2 ^ b * 2 ^ nat ?e"
  proof -
    have x: "j + a + nat (- ?e) = b + nat ?e" using j(1) by simp
    have "2 ^ b * 2 ^ nat ?e = (2 ^ (j + a + nat (- ?e)) :: nat)" unfolding x by (simp add: power_add)
    also have "\<dots> = 2 ^ j * 2 ^ a * 2 ^ nat (- ?e)" by (simp add: power_add)
    also have "\<dots> \<le> m * 2 ^ a * 2 ^ nat (- ?e)" using j(2) by simp
    finally show ?thesis by simp
  qed
  then show ?thesis by (simp only: binary_exponent_def Let_def e if_False)
qed

lemma round_half_even_exact: "0 < d \<Longrightarrow> round_half_even (q * d) d = q"
  by (simp add: round_half_even_def Let_def)

text \<open>Rounding what is representable.\<close>

lemma fp_round_dyadic:
  assumes m: "m \<noteq> 0" "m < 2 ^ p" "0 < p" and u: "u = int a - int b" "emin - (int p - 1) \<le> u"
    and norm: "2 ^ (p - 1) \<le> m \<or> u = emin - (int p - 1)"
  shows "fp_round p emin infty (m * 2 ^ a) (2 ^ b) = min (nat (u + (int p - 1) - emin) * 2 ^ (p - 1) + m) infty"
proof -
  obtain j where j: "bitlen m = Suc j" "2 ^ j \<le> m" "m < 2 ^ Suc j" using bitlen_bounds [OF m(1)] by (cases "bitlen m") auto
  have "j < p" using j(2) m(2) by (meson le_less_trans one_less_numeral_iff power_less_imp_less_exp semiring_norm(76))
  have top: "2 ^ (p - 1) \<le> m \<Longrightarrow> j = p - 1"
  proof -
    assume "2 ^ (p - 1) \<le> m"
    with j(3) have "(2::nat) ^ (p - 1) < 2 ^ Suc j" by linarith
    then have "p - 1 < Suc j" by (meson one_less_numeral_iff power_less_imp_less_exp semiring_norm(76))
    with \<open>j < p\<close> show ?thesis by simp
  qed
  have e: "max (binary_exponent (m * 2 ^ a) (2 ^ b)) emin = u + (int p - 1)"
    using norm top u m(3) \<open>j < p\<close> by (auto simp: binary_exponent_dyadic [OF m(1)] j(1))
  have r: "round_half_even (m * 2 ^ a * 2 ^ nat (- u)) (2 ^ b * 2 ^ nat u) = m"
  proof -
    have "a + nat (- u) = b + nat u" using u(1) by simp
    then have "m * 2 ^ a * 2 ^ nat (- u) = m * (2 ^ b * 2 ^ nat u)"
      by (metis (no_types, opaque_lifting) mult.assoc power_add)
    then show ?thesis by (simp only: round_half_even_exact zero_less_power zero_less_numeral mult_pos_pos)
  qed
  have nz: "m * 2 ^ a \<noteq> 0" using m(1) by simp
  have uu: "u + (int p - 1) - (int p - 1) = u" by simp
  show ?thesis unfolding fp_round_def Let_def e uu r using nz by simp
qed

theorem fp_round_fraction:
  assumes "bits < infty" "0 < p"
  shows "(case fp_fraction p emin bits of (n, d) \<Rightarrow> fp_round p emin infty n d) = bits"
proof (cases "fp_significand p bits = 0")
  case True
  have "bits = bits div 2 ^ (p - 1) * 2 ^ (p - 1) + bits mod 2 ^ (p - 1)" by (rule div_mult_mod_eq [symmetric])
  then have "bits = 0" using True by (simp add: fp_significand_def Let_def split: if_splits)
  then show ?thesis using True by (simp add: fp_fraction_def Let_def fp_round_def)
next
  case False
  let ?h = "2 ^ (p - 1) :: nat" and ?u = "fp_shift p emin bits" and ?m = "fp_significand p bits"
  have mod: "bits mod ?h < ?h" by simp
  have p: "2 ^ p = 2 * ?h" using assms(2) by (cases p) simp_all
  have split: "bits = bits div ?h * ?h + bits mod ?h" by (rule div_mult_mod_eq [symmetric])
  have "fp_round p emin infty (?m * 2 ^ nat ?u) (2 ^ nat (- ?u)) = min (nat (?u + (int p - 1) - emin) * ?h + ?m) infty"
  proof (rule fp_round_dyadic [OF False _ assms(2)])
    show "?m < 2 ^ p" using mod unfolding fp_significand_def Let_def p by (split if_split) linarith
    show "?u = int (nat ?u) - int (nat (- ?u))" by simp
    show "emin - (int p - 1) \<le> ?u" by (simp add: fp_shift_def Let_def)
    show "?h \<le> ?m \<or> ?u = emin - (int p - 1)" by (simp add: fp_significand_def fp_shift_def Let_def)
  qed
  also have "nat (?u + (int p - 1) - emin) * ?h + ?m = bits"
  proof (cases "bits div ?h")
    case 0
    then show ?thesis using split by (simp add: fp_significand_def fp_shift_def Let_def)
  next
    case (Suc E)
    then have "nat (?u + (int p - 1) - emin) = E" "?m = ?h + bits mod ?h" by (simp_all add: fp_significand_def fp_shift_def Let_def)
    moreover have "bits = Suc E * ?h + bits mod ?h" using split Suc by simp
    ultimately show ?thesis by simp
  qed
  finally show ?thesis using assms(1) by (simp add: fp_fraction_def Let_def)
qed

text \<open>Small integers are representable.\<close>

lemma fp_round_nat:
  assumes n: "n \<noteq> 0" "n < 2 ^ p" and p: "0 < p" "emin \<le> 0"
  shows "fp_round p emin infty n 1 = min (nat (int (bitlen n) - 1 - emin) * 2 ^ (p - 1) + n * 2 ^ (p - bitlen n)) infty"
    "bitlen n \<le> p" "2 ^ (p - 1) \<le> n * 2 ^ (p - bitlen n)" "n * 2 ^ (p - bitlen n) < 2 ^ p"
proof -
  obtain j where j: "bitlen n = Suc j" "2 ^ j \<le> n" "n < 2 ^ Suc j" using bitlen_bounds [OF n(1)] by (cases "bitlen n") auto
  have "j < p" using j(2) n(2) by (meson le_less_trans one_less_numeral_iff power_less_imp_less_exp semiring_norm(76))
  then show L: "bitlen n \<le> p" using j(1) by simp
  have "2 ^ j * 2 ^ (p - Suc j) = (2 ^ (p - 1) :: nat)" "2 ^ Suc j * 2 ^ (p - Suc j) = (2 ^ p :: nat)"
    using \<open>j < p\<close> by (simp_all only: power_add [symmetric]) (auto intro: arg_cong [of _ _ "power 2"])
  then show "2 ^ (p - 1) \<le> n * 2 ^ (p - bitlen n)" "n * 2 ^ (p - bitlen n) < 2 ^ p"
    using mult_right_mono [OF j(2), of "2 ^ (p - Suc j)"] mult_strict_right_mono [OF j(3), of "2 ^ (p - Suc j)"] by (simp_all add: j(1))
  have "binary_exponent n 1 = int (bitlen n) - 1" using binary_exponent_dyadic [OF n(1), of 0 0] by simp
  then have e: "max (binary_exponent n 1) emin = int (bitlen n) - 1" using p j(1) by simp
  have u: "nat (- (int (bitlen n) - 1 - (int p - 1))) = p - bitlen n" "nat (int (bitlen n) - 1 - (int p - 1)) = 0"
    using L by simp_all
  have "round_half_even (n * 2 ^ (p - bitlen n)) (1 * 2 ^ 0) = n * 2 ^ (p - bitlen n)"
    using round_half_even_exact [of 1 "n * 2 ^ (p - bitlen n)"] by simp
  then show "fp_round p emin infty n 1 = min (nat (int (bitlen n) - 1 - emin) * 2 ^ (p - 1) + n * 2 ^ (p - bitlen n)) infty"
    unfolding fp_round_def Let_def e u using n(1) by simp
qed

lemma fp_fraction_nat:
  assumes n: "n \<noteq> 0" "n < 2 ^ p" and p: "0 < p" "emin \<le> 0" and infty: "nat (int p - emin + 1) * 2 ^ (p - 1) \<le> infty"
  shows "fp_fraction p emin (fp_round p emin infty n 1) = (n * 2 ^ (p - bitlen n), 2 ^ (p - bitlen n))"
    "fp_round p emin infty n 1 < infty"
proof -
  note r = fp_round_nat [OF n p]
  let ?L = "bitlen n" and ?h = "2 ^ (p - 1) :: nat"
  define E where "E = nat (int ?L - 1 - emin)"
  define f where "f = n * 2 ^ (p - ?L) - ?h"
  have pp: "2 ^ p = 2 * ?h" using p(1) by (cases p) simp_all
  have L: "0 < ?L" using bitlen_bounds [OF n(1)] by simp
  have f: "n * 2 ^ (p - ?L) = ?h + f" "f < ?h" using r(3,4) pp by (simp_all add: f_def)
  have b: "E * ?h + n * 2 ^ (p - ?L) = Suc E * ?h + f" by (simp add: f)
  have "Suc (Suc E) \<le> nat (int p - emin + 1)" using r(2) L p(2) by (simp add: E_def)
  then have "Suc (Suc E) * ?h \<le> nat (int p - emin + 1) * ?h" by (rule mult_le_mono1)
  with infty f(2) have small: "Suc E * ?h + f < infty" by simp
  then have bits: "fp_round p emin infty n 1 = Suc E * ?h + f" using r(1) b by (simp add: E_def)
  with small show "fp_round p emin infty n 1 < infty" by simp
  have dm: "(Suc E * ?h + f) div ?h = Suc E" "(Suc E * ?h + f) mod ?h = f"
  proof -
    have "(f + Suc E * ?h) div ?h = Suc E + f div ?h" by (rule div_mult_self1) simp
    then show "(Suc E * ?h + f) div ?h = Suc E" using f(2) by (simp add: add.commute)
    show "(Suc E * ?h + f) mod ?h = f" unfolding mod_mult_self3 using f(2) by (rule mod_less)
  qed
  have "fp_shift p emin (Suc E * ?h + f) = int ?L - int p" unfolding fp_shift_def Let_def dm using L p(2) by (simp add: E_def)
  moreover have "fp_significand p (Suc E * ?h + f) = n * 2 ^ (p - ?L)" unfolding fp_significand_def Let_def dm by (simp add: f(1))
  ultimately show "fp_fraction p emin (fp_round p emin infty n 1) = (n * 2 ^ (p - ?L), 2 ^ (p - ?L))"
    unfolding bits fp_fraction_def Let_def using r(2) by (simp add: nat_diff_distrib')
qed

subsection \<open>Doubles and floats\<close>

definition DOUBLE_INF :: nat where "DOUBLE_INF = 2047 * 2 ^ 52"
definition FLOAT_INF :: nat where "FLOAT_INF = 255 * 2 ^ 23"

definition with_sign64 :: "bool \<Rightarrow> nat \<Rightarrow> u64" where
  "with_sign64 neg mag = of_nat (mag + (if neg then 2 ^ 63 else 0))"

definition double_negative :: "u64 \<Rightarrow> bool" where "double_negative x \<longleftrightarrow> 2 ^ 63 \<le> unat x"
definition double_mag :: "u64 \<Rightarrow> nat" where "double_mag x = unat x mod 2 ^ 63"
definition double_isfinite :: "u64 \<Rightarrow> bool" where "double_isfinite x \<longleftrightarrow> double_mag x < DOUBLE_INF"
definition double_fraction :: "u64 \<Rightarrow> nat \<times> nat" where "double_fraction x = fp_fraction 53 (- 1022) (double_mag x)"

definition double_round :: "bool \<Rightarrow> nat \<Rightarrow> nat \<Rightarrow> u64" where
  "double_round neg n d = with_sign64 neg (fp_round 53 (- 1022) DOUBLE_INF n d)"

text \<open>\<open>static_cast<double>(n)\<close>, \<open>std::floor(x) == x\<close>, \<open>static_cast<int64_t>(x)\<close> in range, and comparisons with integers.\<close>

definition double_of_int :: "int \<Rightarrow> u64" where
  "double_of_int i = double_round (i < 0) (nat \<bar>i\<bar>) 1"

definition double_integral :: "u64 \<Rightarrow> bool" where
  "double_integral x \<longleftrightarrow> (case double_fraction x of (n, d) \<Rightarrow> d dvd n)"

definition double_trunc :: "u64 \<Rightarrow> int" where
  "double_trunc x = (case double_fraction x of (n, d) \<Rightarrow> (if double_negative x then - 1 else 1) * int (n div d))"

definition double_less_int :: "u64 \<Rightarrow> int \<Rightarrow> bool" where
  "double_less_int x i \<longleftrightarrow> (case double_fraction x of (n, d) \<Rightarrow> (if double_negative x then - int n else int n) < i * int d)"

definition int_less_double :: "int \<Rightarrow> u64 \<Rightarrow> bool" where
  "int_less_double i x \<longleftrightarrow> (case double_fraction x of (n, d) \<Rightarrow> i * int d < (if double_negative x then - int n else int n))"

text \<open>\<open>static_cast<float>(x)\<close> and \<open>static_cast<double>(f)\<close>; a NaN stays one and becomes quiet.\<close>

definition float_of_double :: "u64 \<Rightarrow> u32" where
  "float_of_double x =
     of_nat ((if double_isfinite x then (case double_fraction x of (n, d) \<Rightarrow> fp_round 24 (- 126) FLOAT_INF n d)
              else if double_mag x = DOUBLE_INF then FLOAT_INF
              else FLOAT_INF + 2 ^ 22 + (double_mag x mod 2 ^ 51) div 2 ^ 29)
             + (if double_negative x then 2 ^ 31 else 0))"

definition double_of_float :: "u32 \<Rightarrow> u64" where
  "double_of_float f =
     (let mag = unat f mod 2 ^ 31 in
      with_sign64 (2 ^ 31 \<le> unat f)
        (if mag < FLOAT_INF then (case fp_fraction 24 (- 126) mag of (n, d) \<Rightarrow> fp_round 53 (- 1022) DOUBLE_INF n d)
         else if mag = FLOAT_INF then DOUBLE_INF
         else DOUBLE_INF + 2 ^ 51 + (mag mod 2 ^ 22) * 2 ^ 29))"

lemma with_sign64_simps:
  assumes "mag < 2 ^ 63"
  shows "double_mag (with_sign64 neg mag) = mag" "double_negative (with_sign64 neg mag) = neg"
proof -
  have "unat (with_sign64 neg mag) = mag + (if neg then 2 ^ 63 else 0)"
    unfolding with_sign64_def unat_of_nat using assms by (intro mod_less) auto
  with assms show "double_mag (with_sign64 neg mag) = mag" "double_negative (with_sign64 neg mag) = neg"
    by (simp_all add: double_mag_def double_negative_def)
qed

theorem double_of_int_exact:
  assumes "\<bar>i\<bar> < 2 ^ 53"
  shows "double_isfinite (double_of_int i)" "double_integral (double_of_int i)" "double_trunc (double_of_int i) = i"
    "double_less_int (double_of_int i) j \<longleftrightarrow> i < j" "int_less_double j (double_of_int i) \<longleftrightarrow> j < i"
proof -
  let ?n = "nat \<bar>i\<bar>" and ?x = "double_of_int i"
  have fr: "(\<exists>c > 0. fp_fraction 53 (- 1022) (fp_round 53 (- 1022) DOUBLE_INF ?n 1) = (?n * c, c)) \<and> fp_round 53 (- 1022) DOUBLE_INF ?n 1 < DOUBLE_INF"
  proof (cases "?n = 0")
    case True
    then show ?thesis
      by (simp add: fp_round_def fp_fraction_def fp_significand_def fp_shift_def DOUBLE_INF_def)
  next
    case False
    have "?n < 2 ^ 53" using assms by (simp add: nat_less_iff)
    from fp_fraction_nat [OF False this, of "- 1022" DOUBLE_INF]
    show ?thesis by (auto simp: DOUBLE_INF_def)
  qed
  have "fp_round 53 (- 1022) DOUBLE_INF ?n 1 < 2 ^ 63" using conjunct2 [OF fr] by (simp add: DOUBLE_INF_def)
  note s = with_sign64_simps [OF this]
  have mag: "double_mag ?x = fp_round 53 (- 1022) DOUBLE_INF ?n 1" and neg: "double_negative ?x \<longleftrightarrow> i < 0"
    unfolding double_of_int_def double_round_def by (simp_all only: s)
  obtain c where c: "0 < c" "double_fraction ?x = (?n * c, c)" using conjunct1 [OF fr] mag by (auto simp: double_fraction_def)
  show "double_isfinite ?x" using conjunct2 [OF fr] mag by (simp add: double_isfinite_def)
  show "double_integral ?x" "double_trunc ?x = i" using c neg by (auto simp: double_integral_def double_trunc_def)
  have v: "(if i < 0 then - int (?n * c) else int (?n * c)) = i * int c" by simp
  show "double_less_int ?x j \<longleftrightarrow> i < j" "int_less_double j ?x \<longleftrightarrow> j < i"
    using c by (simp_all only: double_less_int_def int_less_double_def neg v case_prod_conv) simp_all
qed

text \<open>Rounding depends on the quotient only, as far as powers of two go.\<close>

lemma round_half_even_scale: "0 < c \<Longrightarrow> round_half_even (n * c) (d * c) = round_half_even n d"
proof -
  assume c: "0 < c"
  have "2 * (n mod d * c) < d * c \<longleftrightarrow> 2 * (n mod d) < d" "d * c < 2 * (n mod d * c) \<longleftrightarrow> d < 2 * (n mod d)"
    using c mult_less_cancel2 [of "2 * (n mod d)" c d] mult_less_cancel2 [of d c "2 * (n mod d)"] by simp_all
  then show ?thesis using c unfolding round_half_even_def Let_def by (simp add: mod_mult_mult2)
qed

lemma binary_exponent_scale:
  assumes "n \<noteq> 0" "d \<noteq> 0"
  shows "binary_exponent (n * 2 ^ k) (d * 2 ^ k) = binary_exponent n d"
proof -
  have e: "int (bitlen (n * 2 ^ k)) - int (bitlen (d * 2 ^ k)) = int (bitlen n) - int (bitlen d)" using assms by (simp add: bitlen_shift)
  have c: "n * 2 ^ k * 2 ^ x < d * 2 ^ k * 2 ^ y \<longleftrightarrow> n * 2 ^ x < d * 2 ^ y" for x y
    using mult_less_cancel2 [of "n * 2 ^ x" "2 ^ k" "d * 2 ^ y"] by (simp add: mult.assoc mult.commute mult.left_commute)
  show ?thesis unfolding binary_exponent_def Let_def e c ..
qed

lemma fp_round_scale:
  assumes "d \<noteq> 0"
  shows "fp_round p emin infty (n * 2 ^ k) (d * 2 ^ k) = fp_round p emin infty n d"
proof (cases "n = 0")
  case False
  have r: "round_half_even (n * 2 ^ k * 2 ^ x) (d * 2 ^ k * 2 ^ y) = round_half_even (n * 2 ^ x) (d * 2 ^ y)" for x y
    using round_half_even_scale [of "2 ^ k" "n * 2 ^ x" "d * 2 ^ y"] by (simp add: mult.assoc mult.commute mult.left_commute)
  show ?thesis using False unfolding fp_round_def Let_def binary_exponent_scale [OF False assms] r by simp
qed (simp add: fp_round_def)

lemma fp_fraction_normal:
  assumes "2 ^ (p - 1) \<le> m" "m < 2 ^ p" "0 < p"
  shows "fp_fraction p emin (k * 2 ^ (p - 1) + m) = (let u = emin - (int p - 1) + int k in (m * 2 ^ nat u, 2 ^ nat (- u)))"
proof -
  let ?h = "2 ^ (p - 1) :: nat"
  obtain f where f: "m = ?h + f" "f < ?h" using assms by (cases p) (auto simp: le_iff_add)
  have b: "k * ?h + m = f + Suc k * ?h" using f(1) by simp
  have dm: "(k * ?h + m) div ?h = Suc k" "(k * ?h + m) mod ?h = f"
  proof -
    have "(f + Suc k * ?h) div ?h = Suc k + f div ?h" by (rule div_mult_self1) simp
    then show "(k * ?h + m) div ?h = Suc k" unfolding b using f(2) by (simp only: div_less add_0_right)
    show "(k * ?h + m) mod ?h = f" unfolding b mod_mult_self1 using f(2) by (rule mod_less)
  qed
  show ?thesis unfolding fp_fraction_def fp_significand_def fp_shift_def Let_def dm by (simp add: f(1))
qed

text \<open>Larger integers are rounded to integers that are not smaller than \<open>2^53\<close>.\<close>

lemma round_half_even_bounds: "n div d \<le> round_half_even n d" "round_half_even n d \<le> Suc (n div d)"
  by (simp_all add: round_half_even_def Let_def)

lemma fp_fraction_large:
  assumes n: "2 ^ 53 \<le> n" "n < 2 ^ 64"
  shows "\<exists>M. fp_fraction 53 (- 1022) (fp_round 53 (- 1022) DOUBLE_INF n 1) = (M, 1) \<and> 2 ^ 53 \<le> M \<and>
    fp_round 53 (- 1022) DOUBLE_INF n 1 < DOUBLE_INF"
proof -
  have nz: "n \<noteq> 0" using n(1) by auto
  obtain j where j: "bitlen n = Suc j" "2 ^ j \<le> n" "n < 2 ^ Suc j" using bitlen_bounds [OF nz] by (cases "bitlen n") auto
  have "(2::nat) ^ 53 < 2 ^ Suc j" "(2::nat) ^ j < 2 ^ 64" using n j by linarith+
  then have "53 < Suc j" "j < 64" by (meson one_less_numeral_iff power_less_imp_less_exp semiring_norm(76))+
  then have jj: "53 \<le> j" "j \<le> 63" by simp_all
  define c where "c = j - 52"
  define m where "m = round_half_even n (2 ^ c)"
  have "2 ^ j = 2 ^ 52 * (2 ^ c :: nat)" "2 ^ Suc j = 2 ^ 53 * (2 ^ c :: nat)"
    using jj unfolding power_add [symmetric] c_def by (auto intro: arg_cong [of _ _ "power 2"])
  with j(2,3) have "2 ^ 52 \<le> n div 2 ^ c" "n div 2 ^ c < 2 ^ 53"
    by (simp_all add: less_eq_div_iff_mult_less_eq div_less_iff_less_mult)
  then have m: "2 ^ 52 \<le> m" "m \<le> 2 ^ 53" using round_half_even_bounds [of n "2 ^ c"] by (simp_all add: m_def)
  have "binary_exponent n 1 = int j" using binary_exponent_dyadic [OF nz, of 0 0] j(1) by simp
  then have e: "max (binary_exponent n 1) (- 1022) = int j" by simp
  have u: "nat (- (int j - (int 53 - 1))) = 0" "nat (int j - (int 53 - 1)) = c" "nat (int j - (- 1022)) = j + 1022" using jj by (auto simp: c_def)
  have "(j + 1022) * 2 ^ 52 \<le> (1085 * 2 ^ 52 :: nat)" using jj(2) by (intro mult_le_mono1) simp
  with m(2) have small: "(j + 1022) * 2 ^ 52 + m < DOUBLE_INF" by (simp add: DOUBLE_INF_def)
  have bits: "fp_round 53 (- 1022) DOUBLE_INF n 1 = (j + 1022) * 2 ^ 52 + m"
    using nz small unfolding fp_round_def Let_def e u by (simp add: m_def)
  define k where "k = (if m = 2 ^ 53 then j + 1023 else j + 1022)"
  define m' where "m' = (if m = 2 ^ 53 then 2 ^ 52 else m)"
  have "(j + 1022) * 2 ^ 52 + m = k * 2 ^ 52 + m'" by (simp add: k_def m'_def)
  moreover have m': "2 ^ 52 \<le> m'" "m' < 2 ^ 53" using m by (auto simp: m'_def)
  ultimately have fr: "fp_fraction 53 (- 1022) ((j + 1022) * 2 ^ 52 + m) = (let u = - 1022 - (int 53 - 1) + int k in (m' * 2 ^ nat u, 2 ^ nat (- u)))"
    using fp_fraction_normal [of 53 m' "- 1022" k] by simp
  have "1 \<le> - 1022 - (int 53 - 1) + int k" using jj(1) by (simp add: k_def)
  then obtain w where w: "- 1022 - (int 53 - 1) + int k = int (Suc w)"
    using nonneg_int_cases [of "- 1022 - (int 53 - 1) + int k - 1"] by (metis (no_types, lifting) add.commute diff_add_cancel diff_ge_0_iff_ge of_nat_Suc)
  have "2 ^ 53 \<le> m' * 2 ^ Suc w" using mult_le_mono [OF m'(1), of 2 "2 ^ Suc w"] by simp
  moreover have "fp_fraction 53 (- 1022) ((j + 1022) * 2 ^ 52 + m) = (m' * 2 ^ Suc w, 1)"
    unfolding fr Let_def w by (simp only: nat_int prod.inject) simp
  ultimately show ?thesis unfolding bits using small by blast
qed

theorem double_of_int_compare:
  assumes "\<bar>i\<bar> < 2 ^ 64" "\<bar>j\<bar> < 2 ^ 53"
  shows "double_isfinite (double_of_int i)" "double_integral (double_of_int i)"
    "double_less_int (double_of_int i) j \<longleftrightarrow> i < j" "int_less_double j (double_of_int i) \<longleftrightarrow> j < i"
proof -
  have "double_isfinite (double_of_int i) \<and> double_integral (double_of_int i) \<and>
      (double_less_int (double_of_int i) j \<longleftrightarrow> i < j) \<and> (int_less_double j (double_of_int i) \<longleftrightarrow> j < i)"
  proof (cases "\<bar>i\<bar> < 2 ^ 53")
    case True
    then show ?thesis using double_of_int_exact [OF True] by simp
  next
    case False
    let ?n = "nat \<bar>i\<bar>" and ?x = "double_of_int i"
    have "2 ^ 53 \<le> ?n" "?n < 2 ^ 64" using False assms(1) by (simp_all add: nat_less_iff le_nat_iff)
    from fp_fraction_large [OF this] obtain M where M: "fp_fraction 53 (- 1022) (fp_round 53 (- 1022) DOUBLE_INF ?n 1) = (M, 1)"
        "2 ^ 53 \<le> M" "fp_round 53 (- 1022) DOUBLE_INF ?n 1 < DOUBLE_INF" by blast
    have "fp_round 53 (- 1022) DOUBLE_INF ?n 1 < 2 ^ 63" using M(3) by (simp add: DOUBLE_INF_def)
    note s = with_sign64_simps [OF this]
    have mag: "double_mag ?x = fp_round 53 (- 1022) DOUBLE_INF ?n 1" and neg: "double_negative ?x \<longleftrightarrow> i < 0"
      unfolding double_of_int_def double_round_def by (simp_all only: s)
    have fr: "double_fraction ?x = (M, 1)" using M(1) mag by (simp add: double_fraction_def)
    have "int (2 ^ 53) \<le> int M" using M(2) by (simp only: of_nat_le_iff)
    then have jM: "\<bar>j\<bar> < int M" using assms(2) by simp
    have pos: "0 < i \<longleftrightarrow> \<not> i < 0" "\<not> i < 0 \<Longrightarrow> j < i" "i < 0 \<Longrightarrow> i < j" using False assms(2) by auto
    have "double_isfinite ?x" using M(3) by (simp add: double_isfinite_def mag)
    moreover have "double_integral ?x" by (simp add: double_integral_def fr)
    moreover have "double_less_int ?x j \<longleftrightarrow> i < j"
      unfolding double_less_int_def fr neg case_prod_conv of_nat_1 mult_1_right using jM pos by (cases "i < 0") auto
    moreover have "int_less_double j ?x \<longleftrightarrow> j < i"
      unfolding int_less_double_def fr neg case_prod_conv of_nat_1 mult_1_right using jM pos by (cases "i < 0") auto
    ultimately show ?thesis by blast
  qed
  then show "double_isfinite (double_of_int i)" "double_integral (double_of_int i)"
    "double_less_int (double_of_int i) j \<longleftrightarrow> i < j" "int_less_double j (double_of_int i) \<longleftrightarrow> j < i" by simp_all
qed

theorem float_double_float:
  assumes fin: "unat f mod 2 ^ 31 < FLOAT_INF"
  shows "float_of_double (double_of_float f) = f" "double_isfinite (double_of_float f)"
proof -
  define mag where "mag = unat f mod 2 ^ 31"
  define m u where "m = fp_significand 24 mag" and "u = fp_shift 24 (- 126) mag"
  have E: "mag div 2 ^ 23 < 255"
  proof (rule ccontr)
    assume "\<not> mag div 2 ^ 23 < 255"
    then have "255 * 2 ^ 23 \<le> mag div 2 ^ 23 * 2 ^ 23" by simp
    also have "\<dots> \<le> mag" by simp
    finally show False using fin by (simp add: FLOAT_INF_def mag_def)
  qed
  have u: "- 149 \<le> u" "u \<le> 104" using E by (auto simp: u_def fp_shift_def Let_def)
  have m24: "m < 2 ^ 24"
  proof -
    have "mag mod 2 ^ (24 - 1) < 2 ^ (24 - 1)" "(2::nat) ^ 24 = 2 * 2 ^ (24 - 1)" by simp_all
    then show ?thesis unfolding m_def fp_significand_def Let_def by (split if_split) linarith
  qed
  have norm: "2 ^ 23 \<le> m \<or> u = - 149" by (simp add: m_def u_def fp_significand_def fp_shift_def Let_def)
  let ?neg = "2 ^ 31 \<le> unat f"
  have again: "fp_round 24 (- 126) FLOAT_INF (m * 2 ^ nat u) (2 ^ nat (- u)) = mag"
    using fp_round_fraction [of mag FLOAT_INF 24 "- 126"] fin by (simp add: mag_def m_def u_def fp_fraction_def Let_def)
  define b where "b = fp_round 53 (- 1022) DOUBLE_INF (m * 2 ^ nat u) (2 ^ nat (- u))"
  have bits: "b < DOUBLE_INF \<and> fp_round 24 (- 126) FLOAT_INF (fst (fp_fraction 53 (- 1022) b)) (snd (fp_fraction 53 (- 1022) b)) = mag"
  proof (cases "m = 0")
    case True
    then have "b = 0" "mag = 0" using again by (simp_all add: b_def fp_round_def)
    then show ?thesis by (simp add: fp_fraction_def fp_significand_def Let_def fp_round_def DOUBLE_INF_def)
  next
    case False
    obtain L where L: "bitlen m = L" "2 ^ (L - 1) \<le> m" "m < 2 ^ L" "0 < L" using bitlen_bounds [OF False] by auto
    have "L \<le> 24"
    proof (rule ccontr)
      assume "\<not> L \<le> 24"
      then have "(2::nat) ^ 24 \<le> 2 ^ (L - 1)" by (intro power_increasing) simp_all
      with L(2) m24 show False by simp
    qed
    define c where "c = 53 - L"
    have c: "0 < c" "L + c = 53" using \<open>L \<le> 24\<close> by (simp_all add: c_def)
    have "2 ^ (L - 1) * 2 ^ c = (2 ^ 52 :: nat)" "2 ^ L * 2 ^ c = (2 ^ 53 :: nat)"
      using c L(4) unfolding power_add [symmetric] by (auto intro: arg_cong [of _ _ "power 2"])
    with L have m53: "2 ^ 52 \<le> m * 2 ^ c" "m * 2 ^ c < 2 ^ 53"
      using mult_right_mono [OF L(2), of "2 ^ c"] mult_strict_right_mono [OF L(3), of "2 ^ c"] by simp_all
    define v where "v = u - int c"
    have "b = fp_round 53 (- 1022) DOUBLE_INF (m * 2 ^ c * 2 ^ nat u) (2 ^ (nat (- u) + c))"
      unfolding b_def using fp_round_scale [of "2 ^ nat (- u)" 53 "- 1022" DOUBLE_INF "m * 2 ^ nat u" c]
      by (simp add: power_add mult.assoc mult.commute mult.left_commute)
    also have "\<dots> = min (nat (v + (int 53 - 1) - (- 1022)) * 2 ^ (53 - 1) + m * 2 ^ c) DOUBLE_INF"
      by (rule fp_round_dyadic) (use m53 u c False in \<open>auto simp: v_def\<close>)
    finally have bv: "b = min (nat (v + 1074) * 2 ^ 52 + m * 2 ^ c) DOUBLE_INF" by simp
    have "nat (v + 1074) \<le> 1178" using u(2) c(1) by (simp add: v_def)
    then have "nat (v + 1074) * 2 ^ 52 \<le> 1178 * 2 ^ 52" by (rule mult_le_mono1)
    with m53(2) have small: "nat (v + 1074) * 2 ^ 52 + m * 2 ^ c < DOUBLE_INF" by (simp add: DOUBLE_INF_def)
    with bv have beq: "b = nat (v + 1074) * 2 ^ 52 + m * 2 ^ c" by simp
    have "fp_fraction 53 (- 1022) b = (m * 2 ^ c * 2 ^ nat v, 2 ^ nat (- v))"
      using fp_fraction_normal [of 53 "m * 2 ^ c" "- 1022" "nat (v + 1074)"] m53 u c by (simp add: beq Let_def v_def)
    moreover have "fp_round 24 (- 126) FLOAT_INF (m * 2 ^ (c + nat v)) (2 ^ nat (- v)) = min (nat (u + (int 24 - 1) - (- 126)) * 2 ^ (24 - 1) + m) FLOAT_INF"
      by (rule fp_round_dyadic) (use False m24 norm u in \<open>auto simp: v_def\<close>)
    moreover have "fp_round 24 (- 126) FLOAT_INF (m * 2 ^ nat u) (2 ^ nat (- u)) = min (nat (u + (int 24 - 1) - (- 126)) * 2 ^ (24 - 1) + m) FLOAT_INF"
      by (rule fp_round_dyadic) (use False m24 norm u in auto)
    ultimately show ?thesis using again small beq by (simp add: power_add mult.assoc)
  qed
  have x: "double_of_float f = with_sign64 ?neg b"
    using fin by (simp add: double_of_float_def Let_def b_def fp_fraction_def flip: mag_def m_def u_def) (simp add: m_def u_def mag_def)
  have "b < 2 ^ 63" using bits by (simp add: DOUBLE_INF_def)
  note sg = with_sign64_simps [OF this, of ?neg]
  show "double_isfinite (double_of_float f)" unfolding x double_isfinite_def sg using bits by simp
  have "float_of_double (double_of_float f) = of_nat (mag + (if ?neg then 2 ^ 31 else 0))"
    unfolding x float_of_double_def double_isfinite_def double_fraction_def sg using bits by (simp add: case_prod_unfold)
  also have "mag + (if ?neg then 2 ^ 31 else 0) = unat f"
  proof -
    have "unat f < 2 ^ LENGTH(32)" by (rule unsigned_less)
    then have "unat f < 2 * 2 ^ 31" by simp
    then show ?thesis by (auto simp: mag_def not_le mod_if)
  qed
  finally show "float_of_double (double_of_float f) = f" by simp
qed

subsection \<open>Decimal numbers\<close>

text \<open>\<open>atof\<close> and \<open>strtod\<close> on a decimal number: digits \<open>n\<close> times a power of ten.\<close>

definition double_of_decimal :: "bool \<Rightarrow> nat \<Rightarrow> int \<Rightarrow> u64" where
  "double_of_decimal neg n e = double_round neg (n * 10 ^ nat e) (10 ^ nat (- e))"

definition decimal_exponent :: "nat \<Rightarrow> nat \<Rightarrow> int" where
  "decimal_exponent n d =
     (let x = int (length (dec n)) - int (length (dec d)) in
      if n * 10 ^ nat (- x) < d * 10 ^ nat x then x - 1 else x)"

definition strip_zeros :: "string \<Rightarrow> string" where
  "strip_zeros s = rev (dropWhile (\<lambda>c. c = CHR ''0'') (rev s))"

definition with_point :: "string \<Rightarrow> string \<Rightarrow> string" where
  "with_point whole frac = (let frac = strip_zeros frac in if frac = [] then whole else whole @ ''.'' @ frac)"

text \<open>\<open>os << std::setprecision(17) << x\<close>: 17 significant digits without trailing zeros, scientific for very large and small ones.\<close>

definition format_g17 :: "nat \<Rightarrow> nat \<Rightarrow> string" where
  "format_g17 n d =
     (if n = 0 then ''0''
      else
        let x = decimal_exponent n d; k = x - 16;
            q = round_half_even (n * 10 ^ nat (- k)) (d * 10 ^ nat k);
            (q, x) = (if q = 10 ^ 17 then (10 ^ 16, x + 1) else (q, x));
            ds = dec q
        in if x < - 4 \<or> 17 \<le> x
           then with_point (take 1 ds) (drop 1 ds) @ ''e'' @ (if x < 0 then ''-'' else ''+'')
                  @ (if \<bar>x\<bar> < 10 then ''0'' else []) @ dec (nat \<bar>x\<bar>)
           else if 0 \<le> x then with_point (take (nat x + 1) ds) (drop (nat x + 1) ds)
           else with_point ''0'' (replicate (nat (- x) - 1) (CHR ''0'') @ ds))"

definition double_print :: "u64 \<Rightarrow> string" where
  "double_print x =
     (if double_negative x then ''-'' else []) @
     (if double_isfinite x then (case double_fraction x of (n, d) \<Rightarrow> format_g17 n d)
      else if double_mag x = DOUBLE_INF then ''inf'' else ''nan'')"

end
