(* ===== verification/Decimal.thy ===== *)
theory Decimal
  imports Complex_Main Floating
begin

section \<open>Printed doubles\<close>

text \<open>
  Seventeen significant digits determine a double. Rounding and the exponents of Floating are related to
  real numbers first: rounding errs by at most half a unit, and a fraction that differs from a representable one by
  less than its \<open>2^(p + 1)\<close>-th part is rounded to it. A number printed with 17 digits is that close.
\<close>

subsection \<open>Rounding on the reals\<close>

lemma round_half_even_error:
  assumes "0 < d"
  shows "\<bar>real (round_half_even n d) - real n / real d\<bar> \<le> 1 / 2"
proof -
  define q r where "q = n div d" and "r = n mod d"
  have n: "real n = real q * real d + real r" unfolding q_def r_def by (metis div_mult_mod_eq of_nat_add of_nat_mult)
  then have v: "real n / real d = real q + real r / real d" using assms by (simp add: field_simps)
  have r: "0 \<le> real r / real d" "real r / real d < 1" using assms by (simp_all add: r_def)
  have "2 * r \<le> d \<Longrightarrow> real r / real d \<le> 1 / 2" "d \<le> 2 * r \<Longrightarrow> 1 / 2 \<le> real r / real d"
    using assms by (simp_all add: field_simps)
  then show ?thesis unfolding round_half_even_def Let_def v using r by (auto simp flip: q_def r_def)
qed

lemma round_half_even_near:
  assumes "0 < d" "\<bar>real n / real d - real m\<bar> < 1 / 2"
  shows "round_half_even n d = m"
proof -
  have "\<bar>real (round_half_even n d) - real m\<bar> < 1" using round_half_even_error [OF assms(1), of n] assms(2) by linarith
  then show ?thesis by linarith
qed

text \<open>Powers of \<open>b\<close> on both sides of a fraction, as one power with an integer exponent.\<close>

lemma scaled_fraction:
  assumes "(b::nat) \<noteq> 0"
  shows "real (n * b ^ nat (- k)) / real (d * b ^ nat k) = real n / real d / real b powi k"
  using assms by (cases "0 \<le> k") (simp_all add: power_int_def field_simps)

lemma scaled_less:
  assumes "(b::nat) \<noteq> 0" "0 < d"
  shows "n * b ^ nat (- k) < d * b ^ nat k \<longleftrightarrow> real n / real d < real b powi k"
proof -
  have "n * b ^ nat (- k) < d * b ^ nat k \<longleftrightarrow> real (n * b ^ nat (- k)) / real (d * b ^ nat k) < 1"
    using assms by (simp add: divide_less_eq flip: of_nat_power of_nat_mult)
  also have "\<dots> \<longleftrightarrow> real n / real d < real b powi k"
    unfolding scaled_fraction [OF assms(1)] using assms(1) by (simp add: divide_less_eq zero_less_power_int mult.commute)
  finally show ?thesis .
qed

text \<open>The exponent of a fraction in base \<open>b\<close> by the lengths of its parts, corrected by one where necessary.\<close>

lemma exponent_by_length:
  assumes b: "(1::nat) < b" and n: "b ^ (la - 1) \<le> n" "n < b ^ la" "0 < la" and d: "b ^ (lb - 1) \<le> d" "d < b ^ lb" "0 < lb"
    and x: "x = int la - int lb"
  shows "let e = (if n * b ^ nat (- x) < d * b ^ nat x then x - 1 else x)
     in real b powi e \<le> real n / real d \<and> real n / real d < real b powi (e + 1)"
proof -
  let ?v = "real n / real d"
  have b0: "real b \<noteq> 0" "1 < real b" using b by simp_all
  have "0 < b ^ (lb - 1)" using b by simp
  with d(1) have d0: "0 < d" by linarith
  have "real b ^ (la - 1) = real b powi (int la - 1)" "real b ^ (lb - 1) = real b powi (int lb - 1)"
    using n(3) d(3) by (simp_all add: power_int_def nat_diff_distrib)
  moreover have "real b ^ (la - 1) \<le> real n" "real n < real b ^ la" "real b ^ (lb - 1) \<le> real d" "real d < real b ^ lb"
    using n d by (simp_all flip: of_nat_power)
  ultimately have nd: "real b powi (int la - 1) \<le> real n" "real n < real b powi int la"
      "real b powi (int lb - 1) \<le> real d" "real d < real b powi int lb" by simp_all
  have "?v < real b powi int la / real b powi (int lb - 1)"
    using nd b0 d0 by (intro frac_less) (auto simp: zero_less_power_int)
  also have "\<dots> = real b powi (int la - (int lb - 1))" using b0 by (simp only: power_int_diff [OF disjI1 [OF b0(1)]])
  also have "int la - (int lb - 1) = x + 1" by (simp add: x)
  finally have up: "?v < real b powi (x + 1)" .
  have "x - 1 = int la - 1 - int lb" by (simp add: x)
  then have "real b powi (x - 1) = real b powi (int la - 1) / real b powi int lb"
    by (simp only: power_int_diff [OF disjI1 [OF b0(1)]])
  also have "\<dots> \<le> ?v" using nd b0 d0 by (intro frac_le) (auto simp: zero_less_power_int)
  finally have lo: "real b powi (x - 1) \<le> ?v" .
  show ?thesis using up lo scaled_less [of b d n x] b d0 by (auto simp: Let_def)
qed

lemma power_interval_unique:
  assumes "1 < (b::real)" "b powi i \<le> v" "v < b powi (i + 1)" "b powi j \<le> v" "v < b powi (j + 1)"
  shows "i = j"
proof -
  have "b powi i < b powi (j + 1)" "b powi j < b powi (i + 1)" using assms(2-5) by linarith+
  then have "i < j + 1" "j < i + 1" using assms(1) power_int_le_imp_less_exp [of b] by (meson not_less power_int_increasing less_imp_le)+
  then show ?thesis by simp
qed

lemma binary_exponent_bounds:
  assumes "0 < n" "0 < d"
  shows "2 powi binary_exponent n d \<le> real n / real d" "real n / real d < 2 powi (binary_exponent n d + 1)"
  using exponent_by_length [of 2 "bitlen n" n "bitlen d" d, OF _ _ _ _ _ _ _ refl] bitlen_bounds [of n] bitlen_bounds [of d] assms
  by (auto simp: binary_exponent_def Let_def)

lemma binary_exponent_unique:
  assumes "0 < n" "0 < d" "2 powi e \<le> real n / real d" "real n / real d < 2 powi (e + 1)"
  shows "binary_exponent n d = e"
  using power_interval_unique [OF _ binary_exponent_bounds [OF assms(1,2)] assms(3,4)] by simp

subsection \<open>What is close to a representable number is rounded to it\<close>

lemma fp_round_real:
  assumes "0 < n" "0 < d" "e = max (binary_exponent n d) emin"
    and "\<bar>real n / real d / 2 powi (e - (int p - 1)) - real m\<bar> < 1 / 2"
  shows "fp_round p emin infty n d = min (nat (e - emin) * 2 ^ (p - 1) + m) infty"
proof -
  let ?u = "e - (int p - 1)"
  have "round_half_even (n * 2 ^ nat (- ?u)) (d * 2 ^ nat ?u) = m"
    by (rule round_half_even_near) (use assms(2,4) scaled_fraction [of 2 n ?u d] in simp_all)
  then show ?thesis unfolding fp_round_def Let_def assms(3) [symmetric] using assms(1) by simp
qed

lemma fp_fraction_value:
  "fp_fraction p emin bits = (n, d) \<Longrightarrow> 0 < d \<and> real n / real d = real (fp_significand p bits) * 2 powi fp_shift p emin bits"
  by (auto simp: fp_fraction_def Let_def power_int_def field_simps)

lemma fp_parts:
  fixes p emin bits
  defines "m \<equiv> fp_significand p bits" and "u \<equiv> fp_shift p emin bits"
  assumes "0 < p"
  shows "m < 2 ^ p" "emin - (int p - 1) \<le> u" "2 ^ (p - 1) \<le> m \<or> u = emin - (int p - 1)"
    "nat (u + (int p - 1) - emin) * 2 ^ (p - 1) + m = bits"
proof -
  let ?h = "2 ^ (p - 1) :: nat"
  have p: "2 ^ p = 2 * ?h" using assms(3) by (cases p) simp_all
  have mod: "bits mod ?h < ?h" by simp
  show "m < 2 ^ p" using mod unfolding m_def fp_significand_def Let_def p by (split if_split) linarith
  show "emin - (int p - 1) \<le> u" by (simp add: u_def fp_shift_def Let_def)
  show "?h \<le> m \<or> u = emin - (int p - 1)" by (simp add: m_def u_def fp_significand_def fp_shift_def Let_def)
  have split: "bits = bits div ?h * ?h + bits mod ?h" by (rule div_mult_mod_eq [symmetric])
  show "nat (u + (int p - 1) - emin) * ?h + m = bits"
  proof (cases "bits div ?h")
    case 0
    then show ?thesis using split by (simp add: m_def u_def fp_significand_def fp_shift_def Let_def)
  next
    case (Suc E)
    then have "nat (u + (int p - 1) - emin) = E" "m = ?h + bits mod ?h" by (simp_all add: m_def u_def fp_significand_def fp_shift_def Let_def)
    moreover have "bits = Suc E * ?h + bits mod ?h" using split Suc by simp
    ultimately show ?thesis by simp
  qed
qed

text \<open>Just below a power of two the unit is half as large, and rounding up carries into the exponent.\<close>

lemma fp_round_below_power:
  assumes "0 < n" "0 < d" "0 < p" "emin - (int p - 1) \<le> u"
    and w: "real n / real d = w * 2 powi u" "2 ^ (p - 1) - 1 / 4 < w" "w < 2 ^ (p - 1)"
  shows "fp_round p emin infty n d = min (nat (u + (int p - 1) - emin) * 2 ^ (p - 1) + 2 ^ (p - 1)) infty"
proof -
  let ?h = "2 ^ (p - 1) :: real"
  have pos: "0 < (2::real) powi u" by (simp add: zero_less_power_int)
  have "2 powi (u + int (p - 1)) = ?h * 2 powi u" by (simp add: power_int_add)
  moreover have "int (p - 1) = int p - 1" using assms(3) by simp
  ultimately have hp: "2 powi (u + (int p - 1)) = ?h * 2 powi u" by (simp only:)
  have ph: "2 ^ p = 2 * ?h" "2 ^ p = 2 * (2 ^ (p - 1) :: nat)" using assms(3) by (cases p; simp)+
  have "1 \<le> ?h" by simp
  with w(2) have "?h / 2 \<le> w" by linarith
  then have "?h * 2 powi u / 2 \<le> real n / real d" unfolding w(1) using pos by (simp add: field_simps)
  moreover have "2 powi (u + (int p - 2)) = ?h * 2 powi u / 2"
    using power_int_diff [of "2 :: real" "u + (int p - 1)" 1] hp by (simp add: add_diff_eq)
  ultimately have lo: "2 powi (u + (int p - 2)) \<le> real n / real d" by (simp only:)
  have "u + (int p - 2) + 1 = u + (int p - 1)" by simp
  then have hi: "real n / real d < 2 powi (u + (int p - 2) + 1)" using w(3) pos by (simp only: hp w(1)) simp
  have be: "binary_exponent n d = u + (int p - 2)" using lo hi by (intro binary_exponent_unique assms(1,2))
  define e where "e = max (binary_exponent n d) emin"
  have v: "real n / real d / 2 powi u = w" using pos w(1) by simp
  show ?thesis
  proof (cases "u + (int p - 1) = emin")
    case True
    then have e: "e = u + (int p - 1)" "e - (int p - 1) = u" using be by (simp_all add: e_def)
    have "\<bar>real n / real d / 2 powi (e - (int p - 1)) - real (2 ^ (p - 1))\<bar> < 1 / 2" using w(2,3) unfolding e(2) v by simp
    from fp_round_real [OF assms(1,2) e_def this] show ?thesis unfolding e(1) .
  next
    case False
    then have e: "e = u + (int p - 2)" using be assms(4) by (simp add: e_def)
    have u1: "e - (int p - 1) = u - 1" by (simp add: e)
    have u2: "2 powi (u - 1) = 2 powi u / (2 :: real)" by (simp add: power_int_diff)
    have "real n / real d / 2 powi (e - (int p - 1)) = 2 * w" unfolding u1 u2 v [symmetric] by simp
    moreover have "\<bar>2 * w - real (2 ^ p)\<bar> < 1 / 2" using w ph by simp
    ultimately have "fp_round p emin infty n d = min (nat (e - emin) * 2 ^ (p - 1) + 2 ^ p) infty"
      by (intro fp_round_real assms(1,2) e_def) simp
    moreover have "nat (u + (int p - 1) - emin) = Suc (nat (e - emin))" using False assms(4) by (simp add: e)
    ultimately show ?thesis by (simp add: ph(2) mult_2 add.commute add.left_commute)
  qed
qed

text \<open>With \<open>w\<close> the fraction in units of the significand \<open>m\<close>: either it has the exponent of \<open>m\<close>, or it lies just below a power of two.\<close>

lemma fp_round_units:
  assumes "0 < n" "0 < d" "0 < p" "emin - (int p - 1) \<le> u" "2 ^ (p - 1) \<le> m \<or> u = emin - (int p - 1)" "m < 2 ^ p"
    and w: "real n / real d = w * 2 powi u" "\<bar>w - real m\<bar> * 2 ^ Suc p < real m"
  shows "fp_round p emin infty n d = min (nat (u + (int p - 1) - emin) * 2 ^ (p - 1) + m) infty"
proof -
  let ?h = "2 ^ (p - 1) :: nat"
  have ph: "2 ^ Suc p = 4 * real ?h" "2 ^ p = 2 * real ?h" "2 ^ p = 2 * ?h" using assms(3) by (cases p; simp)+
  have close: "\<bar>w - real m\<bar> < c" if "real m \<le> c * (4 * real ?h)" for c
  proof -
    have "\<bar>w - real m\<bar> * (4 * real ?h) < c * (4 * real ?h)" using w(2) that unfolding ph(1) by linarith
    then show ?thesis by (simp add: mult_less_cancel_right)
  qed
  have m: "real m + 1 \<le> 2 * real ?h" using assms(6) unfolding ph(3) by linarith
  then have half: "\<bar>w - real m\<bar> < 1 / 2" by (intro close) simp
  have pos: "0 < (2::real) powi u" by (simp add: zero_less_power_int)
  have scale: "2 powi (u + int k) = 2 ^ k * (2::real) powi u" for k by (simp add: power_int_add mult.commute)
  have hp: "2 powi (u + (int p - 1)) = real ?h * 2 powi u" using scale [of "p - 1"] assms(3) by (simp add: of_nat_diff)
  have same: ?thesis if "max (binary_exponent n d) emin = u + (int p - 1)"
    using fp_round_real [OF assms(1,2) that [symmetric], of p m] half pos w(1) by simp
  consider "real ?h \<le> w" | "w < real ?h" "m = ?h" | "w < real ?h" "m < ?h" using half by linarith
  then show ?thesis
  proof cases
    case 1
    have "w < 2 ^ p" using half m ph(2) by linarith
    then have "real n / real d < 2 powi (u + (int p - 1) + 1)" using pos scale [of p] unfolding w(1) by simp
    moreover have "2 powi (u + (int p - 1)) \<le> real n / real d" unfolding w(1) hp using pos 1 by simp
    ultimately have "binary_exponent n d = u + (int p - 1)" by (intro binary_exponent_unique assms(1,2))
    then show ?thesis using assms(4) by (intro same) simp
  next
    case 2
    have "real ?h - 1 / 4 < w" using close [of "1 / 4"] 2 by simp
    with fp_round_below_power [OF assms(1-4) w(1)] 2 show ?thesis by simp
  next
    case 3
    then have "real n / real d < 2 powi (u + (int p - 1))" unfolding w(1) hp using pos by simp
    then have "2 powi binary_exponent n d < (2::real) powi (u + (int p - 1))" using binary_exponent_bounds(1) [OF assms(1,2)] by linarith
    then have "binary_exponent n d < u + (int p - 1)" by (rule contrapos_pp) (simp add: not_less power_int_increasing)
    then show ?thesis using 3 assms(5) by (intro same) auto
  qed
qed

theorem fp_round_near:
  assumes "bits < infty" "0 < p" "fp_fraction p emin bits = (n0, d0)" "0 < n" "0 < d"
    and near: "\<bar>real n / real d - real n0 / real d0\<bar> * 2 ^ Suc p < real n0 / real d0"
  shows "fp_round p emin infty n d = bits"
proof -
  define m u where "m = fp_significand p bits" and "u = fp_shift p emin bits"
  define w where "w = real n / real d / 2 powi u"
  note parts = fp_parts(1) [OF assms(2), of bits, folded m_def]
    fp_parts(2-4) [OF assms(2), where emin = emin and bits = bits, folded m_def u_def]
  have pos: "0 < (2::real) powi u" by (simp add: zero_less_power_int)
  have v0: "real n0 / real d0 = real m * 2 powi u" using fp_fraction_value [OF assms(3)] by (simp add: m_def u_def)
  have v: "real n / real d = w * 2 powi u" using pos by (simp add: w_def)
  have "\<bar>w - real m\<bar> * 2 ^ Suc p * 2 powi u < real m * 2 powi u"
    using near unfolding v v0 left_diff_distrib [symmetric] abs_mult using pos by (simp add: mult.commute mult.left_commute)
  then have "\<bar>w - real m\<bar> * 2 ^ Suc p < real m" using pos by (simp only: mult_less_cancel_right_pos)
  from fp_round_units [OF assms(4,5,2) parts(2,3,1) v this] parts(4) assms(1) show ?thesis by simp
qed

subsection \<open>Decimal digits\<close>

lemma dec_length: "(n = 0 \<or> 10 ^ (length (dec n) - 1) \<le> n) \<and> n < 10 ^ length (dec n)"
proof (induction n rule: dec.induct)
  case (1 n)
  show ?case
  proof (cases "n < 10")
    case True
    then show ?thesis by (subst (1 2) dec.simps) auto
  next
    case False
    with 1 have IH: "10 ^ (length (dec (n div 10)) - 1) \<le> n div 10" "n div 10 < 10 ^ length (dec (n div 10))" by auto
    obtain k where k: "length (dec (n div 10)) = Suc k" by (cases "dec (n div 10)") auto
    have "length (dec n) = Suc (Suc k)" using False k by (subst dec.simps) simp
    moreover have "10 * 10 ^ k \<le> n" "n < 100 * 10 ^ k" using IH by (simp_all add: k)
    ultimately show ?thesis by simp
  qed
qed

lemma dec_length_pos: "0 < length (dec n)"
  by simp

lemma dec_length_unique: "10 ^ k \<le> n \<Longrightarrow> n < 10 ^ Suc k \<Longrightarrow> length (dec n) = Suc k"
proof -
  assume n: "10 ^ k \<le> n" "n < 10 ^ Suc k"
  have "0 < (10::nat) ^ k" by simp
  with n have "10 ^ (length (dec n) - 1) \<le> n" "n < 10 ^ length (dec n)" using dec_length [of n] by auto
  with n have "(10::nat) ^ k < 10 ^ length (dec n)" "(10::nat) ^ (length (dec n) - 1) < 10 ^ Suc k" by linarith+
  then have "k < length (dec n)" "length (dec n) - 1 < Suc k" by (simp_all add: power_strict_increasing_iff del: power_Suc)
  then show ?thesis by linarith
qed

lemma decimal_exponent_bounds:
  assumes "0 < n" "0 < d"
  shows "10 powi decimal_exponent n d \<le> real n / real d" "real n / real d < 10 powi (decimal_exponent n d + 1)"
  using exponent_by_length [of 10 "length (dec n)" n "length (dec d)" d, OF _ _ _ _ _ _ _ refl]
    dec_length [of n] dec_length [of d] dec_length_pos assms
  by (auto simp: decimal_exponent_def Let_def)

text \<open>The 17 digits \<open>format_g17\<close> prints, and the exponent of the first.\<close>

definition digits17 :: "nat \<Rightarrow> nat \<Rightarrow> nat \<times> int" where
  "digits17 n d =
     (let x = decimal_exponent n d; k = x - 16; q = round_half_even (n * 10 ^ nat (- k)) (d * 10 ^ nat k)
      in if q = 10 ^ 17 then (10 ^ 16, x + 1) else (q, x))"

lemma digits17_near:
  assumes "0 < n" "0 < d" "digits17 n d = (q, x)"
  shows "10 ^ 16 \<le> q" "q < 10 ^ 17" "\<bar>real q * 10 powi (x - 16) - real n / real d\<bar> * 2 ^ 54 < real n / real d"
    "real q * 10 powi (x - 16) < 10 powi (x + 1)"
proof -
  define y where "y = decimal_exponent n d"
  define r where "r = round_half_even (n * 10 ^ nat (- (y - 16))) (d * 10 ^ nat (y - 16))"
  define w where "w = real n / real d / 10 powi (y - 16)"
  have pos: "0 < (10::real) powi (y - 16)" by (simp add: zero_less_power_int)
  have v: "real n / real d = w * 10 powi (y - 16)" using pos by (simp add: w_def)
  have "10 powi y = 10 ^ 16 * (10::real) powi (y - 16)" "10 powi (y + 1) = 10 ^ 17 * (10::real) powi (y - 16)"
    using power_int_add [of "10::real" 16 "y - 16"] power_int_add [of "10::real" 17 "y - 16"] by (simp_all add: add.commute)
  with decimal_exponent_bounds [OF assms(1,2), folded y_def] have w: "10 ^ 16 \<le> w" "w < 10 ^ 17"
    unfolding v using pos by simp_all
  have err: "\<bar>real r - w\<bar> \<le> 1 / 2"
    using round_half_even_error [of "d * 10 ^ nat (y - 16)" "n * 10 ^ nat (- (y - 16))"] assms(2)
      scaled_fraction [of 10 n "y - 16" d] by (simp add: r_def w_def)
  have w': "10000000000000000 \<le> w" "w < 100000000000000000" using w by simp_all
  have "9999999999999999 < real r" "real r < 100000000000000001" using err w' by linarith+
  then have r: "10 ^ 16 \<le> r" "r \<le> 10 ^ 17" by simp_all
  have qx: "real q * 10 powi (x - 16) = real r * 10 powi (y - 16)" "10 ^ 16 \<le> q" "q < 10 ^ 17"
    using assms(3) r power_int_add [of "10::real" 1 "y - 16"]
    by (auto simp: digits17_def Let_def r_def y_def algebra_simps split: if_splits)
  then show "10 ^ 16 \<le> q" "q < 10 ^ 17" by simp_all
  have "\<bar>real r - w\<bar> * 18014398509481984 < w" using mult_right_mono [OF err, of 18014398509481984] w'(1) by simp
  then show "\<bar>real q * 10 powi (x - 16) - real n / real d\<bar> * 2 ^ 54 < real n / real d"
    unfolding qx v left_diff_distrib [symmetric] abs_mult using pos by (simp add: mult.commute mult.left_commute)
  have "real q < 10 ^ 17" using qx(3) by simp
  moreover have "10 powi (x + 1) = 10 ^ 17 * (10::real) powi (x - 16)" using power_int_add [of "10::real" 17 "x - 16"] by (simp add: add.commute)
  ultimately show "real q * 10 powi (x - 16) < 10 powi (x + 1)" by (simp add: zero_less_power_int)
qed

text \<open>So any decimal number of that value is read as the double that was printed.\<close>

lemma with_sign64_mag: "with_sign64 (double_negative x) (double_mag x) = x"
proof -
  have "unat x < 2 ^ LENGTH(64)" by (rule unsigned_less)
  then have "unat x < 2 * 2 ^ 63" by simp
  then have "unat x mod 2 ^ 63 + (if 2 ^ 63 \<le> unat x then 2 ^ 63 else 0) = unat x" by (auto simp: mod_if)
  then show ?thesis unfolding with_sign64_def double_mag_def double_negative_def by (simp only: of_nat_unat ucast_id)
qed

theorem double_of_decimal_digits17:
  assumes "double_isfinite x" "double_fraction x = (n, d)" "0 < n" "digits17 n d = (q, k)"
    and "real m * 10 powi e = real q * 10 powi (k - 16)"
  shows "double_of_decimal (double_negative x) m e = x" "fp_round 53 (- 1022) DOUBLE_INF (m * 10 ^ nat e) (10 ^ nat (- e)) = double_mag x"
proof -
  have fr: "fp_fraction 53 (- 1022) (double_mag x) = (n, d)" using assms(2) by (simp add: double_fraction_def)
  have d: "0 < d" using fp_fraction_value [OF fr] by simp
  note near = digits17_near [OF assms(3) d assms(4)]
  have v: "real (m * 10 ^ nat e) / real (10 ^ nat (- e)) = real q * 10 powi (k - 16)"
    using scaled_fraction [of 10 m "- e" 1] assms(5) by (simp add: power_int_minus divide_inverse)
  have "0 < q" using near(1) by (metis less_le_trans zero_less_numeral zero_less_power)
  then have "0 < real q * 10 powi (k - 16)" by (simp add: zero_less_power_int)
  with v have m: "0 < m * 10 ^ nat e" by (cases "m = 0") simp_all
  show r: "fp_round 53 (- 1022) DOUBLE_INF (m * 10 ^ nat e) (10 ^ nat (- e)) = double_mag x"
    by (rule fp_round_near [OF _ _ fr m]) (use assms(1) near(3) v in \<open>simp_all add: double_isfinite_def\<close>)
  show "double_of_decimal (double_negative x) m e = x"
    unfolding double_of_decimal_def double_round_def r by (rule with_sign64_mag)
qed

subsection \<open>The printed text\<close>

text \<open>The whole part, the fraction and the exponent that \<open>format_g17\<close> prints.\<close>

definition g17_whole :: "nat \<Rightarrow> int \<Rightarrow> string" where
  "g17_whole q x = (if x < - 4 \<or> 17 \<le> x then take 1 (dec q) else if 0 \<le> x then take (nat x + 1) (dec q) else ''0'')"

definition g17_fraction :: "nat \<Rightarrow> int \<Rightarrow> string" where
  "g17_fraction q x =
     (if x < - 4 \<or> 17 \<le> x then drop 1 (dec q) else if 0 \<le> x then drop (nat x + 1) (dec q)
      else replicate (nat (- x) - 1) (CHR ''0'') @ dec q)"

definition g17_exponent :: "int \<Rightarrow> int option" where
  "g17_exponent x = (if x < - 4 \<or> 17 \<le> x then Some x else None)"

definition exponent_text :: "int option \<Rightarrow> string" where
  "exponent_text e =
     (case e of None \<Rightarrow> []
      | Some x \<Rightarrow> ''e'' @ (if x < 0 then ''-'' else ''+'') @ (if \<bar>x\<bar> < 10 then ''0'' else []) @ dec (nat \<bar>x\<bar>))"

lemma format_g17_parts:
  assumes "0 < n" "digits17 n d = (q, x)"
  shows "format_g17 n d = with_point (g17_whole q x) (g17_fraction q x) @ exponent_text (g17_exponent x)"
proof -
  have "format_g17 n d = (let (q, x) = digits17 n d; ds = dec q in
      if x < - 4 \<or> 17 \<le> x
      then with_point (take 1 ds) (drop 1 ds) @ ''e'' @ (if x < 0 then ''-'' else ''+'')
             @ (if \<bar>x\<bar> < 10 then ''0'' else []) @ dec (nat \<bar>x\<bar>)
      else if 0 \<le> x then with_point (take (nat x + 1) ds) (drop (nat x + 1) ds)
      else with_point ''0'' (replicate (nat (- x) - 1) (CHR ''0'') @ ds))"
    using assms(1) unfolding format_g17_def digits17_def Let_def by (simp only: if_False less_not_refl2)
  also have "\<dots> = with_point (g17_whole q x) (g17_fraction q x) @ exponent_text (g17_exponent x)"
  proof (cases "x < - 4 \<or> 17 \<le> x")
    case True
    show ?thesis
      unfolding assms(2) Let_def case_prod_conv g17_whole_def g17_fraction_def g17_exponent_def exponent_text_def if_P [OF True] by simp
  next
    case False
    show ?thesis
      unfolding assms(2) Let_def case_prod_conv g17_whole_def g17_fraction_def g17_exponent_def exponent_text_def if_not_P [OF False]
      by simp
  qed
  finally show ?thesis .
qed

lemma foldl_digits:
  fixes f :: "'a \<Rightarrow> nat"
  shows "foldl (\<lambda>v c. v * 10 + f c) v b = v * 10 ^ length b + foldl (\<lambda>v c. v * 10 + f c) 0 b"
proof (induction b arbitrary: v)
  case (Cons c b)
  show ?case using Cons [of "v * 10 + f c"] Cons [of "f c"] by (simp add: add_mult_distrib)
qed simp

lemma dec_value_append: "dec_value (a @ b) = dec_value a * 10 ^ length b + dec_value b"
  unfolding dec_value_def foldl_append by (rule foldl_digits)

lemma dec_value_zeros [simp]: "dec_value (replicate k (CHR ''0'')) = 0"
  by (induction k) (simp_all add: dec_value_def)

lemma strip_zeros_split: "\<exists>k. s = strip_zeros s @ replicate k (CHR ''0'')"
proof -
  have "takeWhile (\<lambda>c. c = CHR ''0'') (rev s) = replicate (length (takeWhile (\<lambda>c. c = CHR ''0'') (rev s))) (CHR ''0'')"
    by (rule replicate_eqI) (auto dest: set_takeWhileD)
  then show ?thesis unfolding strip_zeros_def by (metis rev_append rev_replicate rev_rev_ident takeWhile_dropWhile_id)
qed

lemma g17_value:
  assumes "10 ^ 16 \<le> q" "q < 10 ^ 17"
  shows "dec_value (g17_whole q x @ g17_fraction q x) = q"
    "(case g17_exponent x of None \<Rightarrow> 0 | Some e \<Rightarrow> e) - int (length (g17_fraction q x)) = x - 16"
    "list_all is_digit (g17_whole q x)" "list_all is_digit (g17_fraction q x)" "g17_whole q x \<noteq> []"
proof -
  have len: "length (dec q) = 17" using dec_length_unique [of 16 q] assms by simp
  show "dec_value (g17_whole q x @ g17_fraction q x) = q"
    using dec_value_append [of "replicate (Suc (nat (- x) - 1)) (CHR ''0'')" "dec q"]
    unfolding dec_value_zeros by (auto simp: g17_whole_def g17_fraction_def dec_value_dec)
  show "(case g17_exponent x of None \<Rightarrow> 0 | Some e \<Rightarrow> e) - int (length (g17_fraction q x)) = x - 16"
    using len by (auto simp: g17_exponent_def g17_fraction_def)
  have "is_digit (CHR ''0'')" by (simp add: is_digit_def)
  then show "list_all is_digit (g17_whole q x)" "list_all is_digit (g17_fraction q x)"
    using dec_digits [of q] by (auto simp: g17_whole_def g17_fraction_def list_all_iff dest: in_set_takeD in_set_dropD)
  show "g17_whole q x \<noteq> []" using len by (auto simp: g17_whole_def)
qed

lemma g17_stripped:
  fixes x :: int
  assumes "10 ^ 16 \<le> q" "q < 10 ^ 17"
  defines "f \<equiv> strip_zeros (g17_fraction q x)"
  shows "real (dec_value (g17_whole q x @ f)) * 10 powi ((case g17_exponent x of None \<Rightarrow> 0 | Some e \<Rightarrow> e) - int (length f))
      = real q * 10 powi (x - 16)"
    "list_all is_digit f" "g17_exponent x = None \<Longrightarrow> x < 17"
proof -
  note g = g17_value [OF assms(1,2), of x]
  obtain k where k: "g17_fraction q x = f @ replicate k (CHR ''0'')" using strip_zeros_split unfolding f_def by blast
  then show "list_all is_digit f" using g(4) by simp
  show "g17_exponent x = None \<Longrightarrow> x < 17" by (simp add: g17_exponent_def split: if_splits)
  let ?e = "case g17_exponent x of None \<Rightarrow> 0 | Some e \<Rightarrow> e"
  have "dec_value (g17_whole q x @ f) * 10 ^ k = q"
    using g(1) dec_value_append [of "g17_whole q x @ f" "replicate k (CHR ''0'')"] by (simp add: k)
  then have q: "real q = real (dec_value (g17_whole q x @ f)) * 10 ^ k" by (metis of_nat_mult of_nat_numeral of_nat_power)
  have "?e - int (length f) = int k + (x - 16)" using g(2) by (simp add: k)
  then have "10 powi (?e - int (length f)) = 10 ^ k * (10::real) powi (x - 16)" using power_int_add [of "10::real" "int k" "x - 16"] by simp
  then show "real (dec_value (g17_whole q x @ f)) * 10 powi (?e - int (length f)) = real q * 10 powi (x - 16)"
    by (simp only: q mult.assoc)
qed

end
