(* ===== verification/Json.thy ===== *)
theory Json
  imports Decimal IdlValidator
begin

section \<open>JSON\<close>

text \<open>
  tools/omni_cli/simple_json.cpp: JSON values, their parser and their printer. A position in the text is
  the rest of the text; an exception is its message. Values nest at most 64 deep; the model counts the
  levels down. The loops over the members of an object and the elements of an array have fuel for the
  rest of the text; the lemmas on \<open>members\<close> and \<open>elements\<close> show that it does not run out. Shown here: what
  was printed is read back, whether indented or not.
\<close>

subsection \<open>Values\<close>

text \<open>
  A \<open>Value\<close> of type number is a \<open>double\<close>, an \<open>int64_t\<close> or a \<open>uint64_t\<close>. An object is its \<open>std::map\<close> in
  the order of keys.
\<close>

datatype Value =
    JNull
  | JBool bool
  | JFp u64
  | JInt u64
  | JUint u64
  | JString string
  | JArray "Value list"
  | JObject "(string \<times> Value) list"

fun isNumber :: "Value \<Rightarrow> bool" where
  "isNumber (JFp _) = True" | "isNumber (JInt _) = True" | "isNumber (JUint _) = True" | "isNumber _ = False"

fun asNumber :: "Value \<Rightarrow> u64" where
  "asNumber (JFp x) = x"
| "asNumber (JInt n) = double_of_int (sint n)"
| "asNumber (JUint n) = double_of_int (uint n)"
| "asNumber _ = 0"

fun asInt64 :: "Value \<Rightarrow> u64" where
  "asInt64 (JInt n) = n"
| "asInt64 (JUint n) = n"
| "asInt64 v = of_int (double_trunc (asNumber v))"

fun asUint64 :: "Value \<Rightarrow> u64" where
  "asUint64 (JUint n) = n"
| "asUint64 (JInt n) = n"
| "asUint64 v = of_int (double_trunc (asNumber v))"

definition obj_set :: "string \<Rightarrow> Value \<Rightarrow> (string \<times> Value) list \<Rightarrow> (string \<times> Value) list" where
  "obj_set key v obj = al_upd key v obj"

subsection \<open>Characters and strings\<close>

definition kMaxJsonDepth :: nat where "kMaxJsonDepth = 64"

definition hexValue :: "char \<Rightarrow> nat option" where
  "hexValue c =
     (let n = of_char c :: nat in
      if 48 \<le> n \<and> n \<le> 57 then Some (n - 48)
      else if 97 \<le> n \<and> n \<le> 102 then Some (n - 97 + 10)
      else if 65 \<le> n \<and> n \<le> 70 then Some (n - 65 + 10)
      else None)"

definition utf8_char :: "u32 \<Rightarrow> char" where
  "utf8_char x = char_of (unat x)"

definition appendUtf8 :: "u32 \<Rightarrow> string" where
  "appendUtf8 codepoint =
     (if codepoint \<le> 0x7F then [utf8_char codepoint]
      else if codepoint \<le> 0x7FF then
        [utf8_char (or 0xC0 (drop_bit 6 codepoint)), utf8_char (or 0x80 (and codepoint 0x3F))]
      else if codepoint \<le> 0xFFFF then
        [utf8_char (or 0xE0 (drop_bit 12 codepoint)), utf8_char (or 0x80 (and (drop_bit 6 codepoint) 0x3F)),
         utf8_char (or 0x80 (and codepoint 0x3F))]
      else
        [utf8_char (or 0xF0 (drop_bit 18 codepoint)), utf8_char (or 0x80 (and (drop_bit 12 codepoint) 0x3F)),
         utf8_char (or 0x80 (and (drop_bit 6 codepoint) 0x3F)), utf8_char (or 0x80 (and codepoint 0x3F))])"

definition json_hex_digit :: "nat \<Rightarrow> char" where
  "json_hex_digit n = (if n < 10 then char_of (48 + n) else char_of (55 + n))"

definition escape_char :: "char \<Rightarrow> string" where
  "escape_char c =
     (if c = CHR 0x22 then [CHR 0x5C, CHR 0x22]
      else if c = CHR 0x5C then [CHR 0x5C, CHR 0x5C]
      else if c = CHR 0x08 then [CHR 0x5C, CHR ''b'']
      else if c = CHR 0x0C then [CHR 0x5C, CHR ''f'']
      else if c = CHR 0x0A then [CHR 0x5C, CHR ''n'']
      else if c = CHR 0x0D then [CHR 0x5C, CHR ''r'']
      else if c = CHR 0x09 then [CHR 0x5C, CHR ''t'']
      else if (of_char c :: nat) < 0x20
      then [CHR 0x5C, CHR ''u'', CHR ''0'', CHR ''0'', json_hex_digit (of_char c div 16), json_hex_digit (of_char c mod 16)]
      else [c])"

definition appendEscapedJsonString :: "string \<Rightarrow> string" where
  "appendEscapedJsonString value = [CHR 0x22] @ concat (map escape_char value) @ [CHR 0x22]"

subsection \<open>The parser\<close>

definition skipWhitespace :: "string \<Rightarrow> string" where
  "skipWhitespace = dropWhile c_isspace"

definition json_peek :: "string \<Rightarrow> char" where
  "json_peek s = (case s of [] \<Rightarrow> CHR 0x00 | c # _ \<Rightarrow> c)"

definition json_next :: "string \<Rightarrow> char \<times> string" where
  "json_next s = (case s of [] \<Rightarrow> (CHR 0x00, []) | c # cs \<Rightarrow> (c, cs))"

definition json_expect :: "char \<Rightarrow> string \<Rightarrow> string res" where
  "json_expect c s = (case json_next s of (x, s') \<Rightarrow> if x = c then Inr s' else Inl (''Expected '' @ quoted [c]))"

primrec read_hex :: "nat \<Rightarrow> nat \<Rightarrow> string \<Rightarrow> nat option \<times> string" where
  "read_hex 0 acc s = (Some acc, s)"
| "read_hex (Suc n) acc s =
     (case json_next s of (c, s') \<Rightarrow>
        case hexValue c of None \<Rightarrow> (None, s') | Some v \<Rightarrow> read_hex n (acc * 16 + v) s')"

definition readHex4 :: "string \<Rightarrow> nat option \<times> string" where
  "readHex4 = read_hex 4 0"

definition simple_escape :: "char \<Rightarrow> char option" where
  "simple_escape c =
     (if c = CHR 0x22 then Some (CHR 0x22) else if c = CHR 0x5C then Some (CHR 0x5C)
      else if c = CHR ''/'' then Some (CHR ''/'') else if c = CHR ''b'' then Some (CHR 0x08)
      else if c = CHR ''f'' then Some (CHR 0x0C) else if c = CHR ''n'' then Some (CHR 0x0A)
      else if c = CHR ''r'' then Some (CHR 0x0D) else if c = CHR ''t'' then Some (CHR 0x09) else None)"

text \<open>A \<open>\u\<close> escape, behind the letter: one code unit, or two for a character beyond the basic plane.\<close>

definition unicode_escape :: "string \<Rightarrow> (string \<times> string) res" where
  "unicode_escape s =
     (case readHex4 s of
        (None, _) \<Rightarrow> Inl (''Invalid '' @ [CHR 0x5C] @ ''u escape sequence'')
      | (Some high, s) \<Rightarrow>
          if 0xD800 \<le> high \<and> high \<le> 0xDBFF then
            let (a, s) = json_next s in
            if a \<noteq> CHR 0x5C then Inl ''Unpaired UTF-16 high surrogate''
            else
              let (b, s) = json_next s in
              if b \<noteq> CHR ''u'' then Inl ''Unpaired UTF-16 high surrogate''
              else
                (case readHex4 s of
                   (None, _) \<Rightarrow> Inl ''Invalid UTF-16 low surrogate''
                 | (Some low, s) \<Rightarrow>
                     if low < 0xDC00 \<or> 0xDFFF < low then Inl ''Invalid UTF-16 low surrogate''
                     else Inr (appendUtf8 (0x10000 + push_bit 10 (of_nat high - 0xD800) + (of_nat low - 0xDC00)), s))
          else if 0xDC00 \<le> high \<and> high \<le> 0xDFFF then Inl ''Unpaired UTF-16 low surrogate''
          else Inr (appendUtf8 (of_nat high), s))"

lemma length_json_next: "length (snd (json_next s)) \<le> length s"
  by (simp add: json_next_def split: list.split)

lemma length_read_hex: "length (snd (read_hex n acc s)) \<le> length s"
proof (induction n arbitrary: acc s)
  case (Suc n)
  obtain c r where r: "json_next s = (c, r)" by fastforce
  then have "length r \<le> length s" using length_json_next [of s] by simp
  then show ?case using Suc [of _ r] by (auto simp: r split: option.split intro: order_trans)
qed simp

lemma length_unicode_escape: "unicode_escape s = Inr (x, r) \<Longrightarrow> length r \<le> length s"
proof -
  have h: "length q \<le> length s" if "readHex4 s = (v, q)" for v q s using length_read_hex [of 4 0 s] that by (simp add: readHex4_def)
  have n: "length q \<le> length s" if "json_next s = (v, q)" for v q s using length_json_next [of s] that by simp
  assume "unicode_escape s = Inr (x, r)"
  then show ?thesis
    by (auto simp: unicode_escape_def split: prod.splits option.splits if_splits dest!: h n)
qed

text \<open>The characters of a string, behind the opening quote.\<close>

function parse_chars :: "string \<Rightarrow> (string \<times> string) res" where
  "parse_chars s =
     (let (c, s1) = json_next s in
      if c = CHR 0x00 then Inl ''Unterminated string''
      else if c = CHR 0x22 then Inr ([], s1)
      else if c = CHR 0x5C then
        let (e, s2) = json_next s1 in
        (case simple_escape e of
           Some x \<Rightarrow> bind_r (parse_chars s2) (\<lambda>(str, r). Inr (x # str, r))
         | None \<Rightarrow>
             if e = CHR ''u'' then
               (case unicode_escape s2 of
                  Inl msg \<Rightarrow> Inl msg
                | Inr (xs, s3) \<Rightarrow> bind_r (parse_chars s3) (\<lambda>(str, r). Inr (xs @ str, r)))
             else Inl ''Invalid escape sequence'')
      else bind_r (parse_chars s1) (\<lambda>(str, r). Inr (c # str, r)))"
  by pat_completeness auto

lemma json_next_less: "(c, r) = json_next s \<Longrightarrow> c \<noteq> CHR 0x00 \<Longrightarrow> length r < length s"
  by (auto simp: json_next_def split: list.splits)

lemma json_next_le: "(c, r) = json_next s \<Longrightarrow> length r \<le> length s"
  using length_json_next [of s] by (metis snd_conv)

termination parse_chars
proof (relation "measure length", goal_cases)
  case (2 s x c s1 y e s2 z xs s3)
  then show ?case using json_next_less [of c s1 s] json_next_le [of e s2 s1] length_unicode_escape [of s2 xs s3] by auto
next
  case (3 s x c s1 y e s2 z)
  then show ?case using json_next_less [of c s1 s] json_next_le [of e s2 s1] by auto
next
  case (4 s x c s1)
  then show ?case using json_next_less [of c s1 s] by auto
qed simp

declare parse_chars.simps [simp del]

definition parseString :: "string \<Rightarrow> (string \<times> string) res" where
  "parseString s = bind_r (json_expect (CHR 0x22) s) parse_chars"

subsection \<open>Numbers\<close>

definition strip_digits :: "string \<Rightarrow> string \<times> string" where
  "strip_digits s = (takeWhile is_digit s, dropWhile is_digit s)"

text \<open>A fractional part and an exponent, when there is one; both must have a digit.\<close>

definition number_fraction :: "string \<Rightarrow> (string option \<times> string) res" where
  "number_fraction s =
     (if json_peek s \<noteq> CHR ''.'' then Inr (None, s)
      else
        let s = snd (json_next s) in
        if \<not> is_digit (json_peek s) then Inl ''Invalid number''
        else let (ds, s) = strip_digits s in Inr (Some ds, s))"

definition number_exponent :: "string \<Rightarrow> (int option \<times> string) res" where
  "number_exponent s =
     (if json_peek s \<noteq> CHR ''e'' \<and> json_peek s \<noteq> CHR ''E'' then Inr (None, s)
      else
        let s = snd (json_next s); neg = (json_peek s = CHR ''-'');
            s = (if json_peek s = CHR ''+'' \<or> json_peek s = CHR ''-'' then snd (json_next s) else s)
        in if \<not> is_digit (json_peek s) then Inl ''Invalid number''
           else let (ds, s) = strip_digits s in Inr (Some (if neg then - int (dec_value ds) else int (dec_value ds)), s))"

text \<open>
  Without fraction and exponent a number is an \<open>int64_t\<close> or \<open>uint64_t\<close> when \<open>strtoll\<close> or \<open>strtoull\<close> has no
  range error, else what \<open>atof\<close> gives.
\<close>

definition number_value :: "bool \<Rightarrow> string \<Rightarrow> string option \<Rightarrow> int option \<Rightarrow> Value" where
  "number_value neg whole fraction exponent =
     (let n = dec_value whole in
      if fraction = None \<and> exponent = None \<and> neg \<and> n \<le> 2 ^ 63 then JInt (- of_nat n)
      else if fraction = None \<and> exponent = None \<and> \<not> neg \<and> n < 2 ^ 64
      then if n < 2 ^ 63 then JInt (of_nat n) else JUint (of_nat n)
      else
        let frac = (case fraction of None \<Rightarrow> [] | Some ds \<Rightarrow> ds); e = (case exponent of None \<Rightarrow> 0 | Some e \<Rightarrow> e)
        in JFp (double_of_decimal neg (dec_value (whole @ frac)) (e - int (length frac))))"

definition parseNumber :: "string \<Rightarrow> (Value \<times> string) res" where
  "parseNumber s =
     (let neg = (json_peek s = CHR ''-''); s = (if neg then snd (json_next s) else s) in
      if \<not> is_digit (json_peek s) then Inl ''Invalid number''
      else
        let (whole, s) = strip_digits s in
        bind_r (number_fraction s) (\<lambda>(fraction, s).
        bind_r (number_exponent s) (\<lambda>(exponent, s).
          Inr (number_value neg whole fraction exponent, s))))"

subsection \<open>Values\<close>

definition parseBool :: "string \<Rightarrow> (Value \<times> string) res" where
  "parseBool s =
     (if take 4 s = ''true'' then Inr (JBool True, drop 4 s)
      else if take 5 s = ''false'' then Inr (JBool False, drop 5 s)
      else Inl ''Invalid boolean'')"

definition parseNull :: "string \<Rightarrow> (Value \<times> string) res" where
  "parseNull s = (if take 4 s = ''null'' then Inr (JNull, drop 4 s) else Inl ''Invalid null'')"

type_synonym json_parser = "string \<Rightarrow> (Value \<times> string) res"

definition out_of_fuel :: string where "out_of_fuel = []"

primrec json_members :: "nat \<Rightarrow> json_parser \<Rightarrow> (string \<times> Value) list \<Rightarrow> json_parser" where
  "json_members 0 sub obj s = Inl out_of_fuel"
| "json_members (Suc n) sub obj s =
     (let s = skipWhitespace s in
      if json_peek s \<noteq> CHR 0x22 then Inl ''Expected string key in object''
      else
        bind_r (parseString s) (\<lambda>(key, s).
        bind_r (json_expect (CHR '':'') (skipWhitespace s)) (\<lambda>s.
        bind_r (sub (skipWhitespace s)) (\<lambda>(v, s).
          let obj = obj_set key v obj; (c, s) = json_next (skipWhitespace s) in
          if c = CHR ''}'' then Inr (JObject obj, s)
          else if c \<noteq> CHR '','' then Inl (''Expected '' @ quoted '','' @ '' or '' @ quoted ''}'' @ '' in object'')
          else json_members n sub obj s))))"

definition parseObject :: "json_parser \<Rightarrow> json_parser" where
  "parseObject sub s =
     bind_r (json_expect (CHR ''{'') s) (\<lambda>s.
       let s = skipWhitespace s in
       if json_peek s = CHR ''}'' then Inr (JObject [], snd (json_next s))
       else json_members (Suc (length s)) sub [] s)"

primrec json_elements :: "nat \<Rightarrow> json_parser \<Rightarrow> Value list \<Rightarrow> json_parser" where
  "json_elements 0 sub arr s = Inl out_of_fuel"
| "json_elements (Suc n) sub arr s =
     bind_r (sub s) (\<lambda>(v, s).
       let arr = arr @ [v]; (c, s) = json_next (skipWhitespace s) in
       if c = CHR '']'' then Inr (JArray arr, s)
       else if c \<noteq> CHR '','' then Inl (''Expected '' @ quoted '','' @ '' or '' @ quoted '']'' @ '' in array'')
       else json_elements n sub arr (skipWhitespace s))"

definition parseArray :: "json_parser \<Rightarrow> json_parser" where
  "parseArray sub s =
     bind_r (json_expect (CHR ''['') s) (\<lambda>s.
       let s = skipWhitespace s in
       if json_peek s = CHR '']'' then Inr (JArray [], snd (json_next s))
       else json_elements (Suc (length s)) sub [] s)"

text \<open>\<open>parseValue\<close>, with the levels of nesting that are left.\<close>

primrec parseValue :: "nat \<Rightarrow> json_parser" where
  "parseValue 0 s = Inl ''JSON nesting too deep''"
| "parseValue (Suc levels) s =
     (let s = skipWhitespace s; c = json_peek s in
      if c = CHR ''{'' then parseObject (parseValue levels) s
      else if c = CHR ''['' then parseArray (parseValue levels) s
      else if c = CHR 0x22 then bind_r (parseString s) (\<lambda>(str, s). Inr (JString str, s))
      else if c = CHR ''t'' \<or> c = CHR ''f'' then parseBool s
      else if c = CHR ''n'' then parseNull s
      else if c = CHR ''-'' \<or> is_digit c then parseNumber s
      else Inl ''Invalid JSON value'')"

definition json_parse :: "string \<Rightarrow> Value res" where
  "json_parse json =
     bind_r (parseValue kMaxJsonDepth (skipWhitespace json)) (\<lambda>(value, s).
       if skipWhitespace s \<noteq> [] then Inl ''Trailing characters after JSON value'' else Inr value)"

subsection \<open>The printer\<close>

text \<open>
  Converting the double \<open>2 ^ 63\<close>, which passes the test of the code, to \<open>int64_t\<close> has no defined result in C++; as on
  the usual machines, the model gives the least value.
\<close>

definition dec_int :: "int \<Rightarrow> string" where
  "dec_int i = (if i < 0 then ''-'' @ dec (nat (- i)) else dec (nat i))"

definition prints_integral :: "u64 \<Rightarrow> bool" where
  "prints_integral x \<longleftrightarrow> double_isfinite x \<and> \<not> double_less_int x (- (2 ^ 63)) \<and> \<not> int_less_double (2 ^ 63) x \<and> double_integral x"

primrec json_items :: "bool \<Rightarrow> string \<Rightarrow> string list \<Rightarrow> string" where
  "json_items pretty indent [] = []"
| "json_items pretty indent (x # xs) =
     (if pretty then indent else []) @ x @ (if xs \<noteq> [] then '','' else []) @
     (if pretty then [newline] else []) @ json_items pretty indent xs"

definition json_block :: "bool \<Rightarrow> nat \<Rightarrow> char \<Rightarrow> char \<Rightarrow> string list \<Rightarrow> string" where
  "json_block pretty indent lb rb xs =
     [lb] @ (if pretty \<and> xs \<noteq> [] then [newline] else []) @
     json_items pretty (replicate ((indent + 1) * 2) (CHR '' '')) xs @
     (if pretty \<and> xs \<noteq> [] then replicate (indent * 2) (CHR '' '') else []) @ [rb]"

function json_print :: "bool \<Rightarrow> nat \<Rightarrow> Value \<Rightarrow> string" where
  "json_print pretty indent JNull = ''null''"
| "json_print pretty indent (JBool b) = (if b then ''true'' else ''false'')"
| "json_print pretty indent (JInt n) = dec_int (sint n)"
| "json_print pretty indent (JUint n) = dec (unat n)"
| "json_print pretty indent (JFp x) =
     (if prints_integral x then dec_int (sint (of_int (double_trunc x) :: u64)) else double_print x)"
| "json_print pretty indent (JString s) = appendEscapedJsonString s"
| "json_print pretty indent (JArray vs) = json_block pretty indent (CHR ''['') (CHR '']'') (map (json_print pretty (indent + 1)) vs)"
| "json_print pretty indent (JObject ps) =
     json_block pretty indent (CHR ''{'') (CHR ''}'')
       (map (\<lambda>(k, v). appendEscapedJsonString k @ '':'' @ (if pretty then '' '' else []) @ json_print pretty (indent + 1) v) ps)"
  by pat_completeness auto
termination
  by (relation "measure (\<lambda>(_, _, v). size v)") (auto simp: less_Suc_eq_le intro: size_list_estimation' size_list_estimation)

subsection \<open>Strings are read back\<close>

lemma json_next_Cons [simp]: "json_next (c # cs) = (c, cs)" "json_peek (c # cs) = c"
  by (simp_all add: json_next_def json_peek_def)

lemma hexValue_json_hex_digit: "n < 16 \<Longrightarrow> hexValue (json_hex_digit n) = Some n"
  by (auto simp: hexValue_def json_hex_digit_def Let_def)

lemmas read_hex_4 = read_hex.simps(2) [where n = "pred_numeral v" for v, folded numeral_eq_Suc]

lemma readHex4_digits:
  "a < 16 \<Longrightarrow> b < 16 \<Longrightarrow> readHex4 (CHR ''0'' # CHR ''0'' # json_hex_digit a # json_hex_digit b # s) = (Some (a * 16 + b), s)"
proof -
  assume "a < 16" "b < 16"
  moreover have "hexValue (CHR ''0'') = Some 0" by (simp add: hexValue_def)
  ultimately show ?thesis by (simp add: readHex4_def read_hex_4 hexValue_json_hex_digit)
qed

lemma unicode_escape_control:
  assumes "of_char c < (0x20 :: nat)"
  shows "unicode_escape (CHR ''0'' # CHR ''0'' # json_hex_digit (of_char c div 16) # json_hex_digit (of_char c mod 16) # s) = Inr ([c], s)"
proof -
  have n: "of_char c div 16 < (16::nat)" "of_char c div 16 * 16 + of_char c mod 16 = (of_char c :: nat)" using assms by auto
  have "(of_nat (of_char c) :: u32) \<le> 0x7F" using assms by (simp add: word_le_nat_alt unat_of_nat take_bit_nat_eq_self_iff)
  then show ?thesis using assms n
    by (simp add: unicode_escape_def readHex4_digits appendUtf8_def utf8_char_def unat_of_nat take_bit_nat_eq_self_iff)
qed

lemma parse_escape: "parse_chars (escape_char c @ s) = bind_r (parse_chars s) (\<lambda>(str, r). Inr (c # str, r))"
proof (cases "c \<in> {CHR 0x22, CHR 0x5C, CHR 0x08, CHR 0x0C, CHR 0x0A, CHR 0x0D, CHR 0x09}")
  case True
  then show ?thesis by (subst parse_chars.simps) (auto simp: escape_char_def simple_escape_def)
next
  case False
  show ?thesis
  proof (cases "of_char c < (0x20 :: nat)")
    case True
    with False show ?thesis
      by (subst parse_chars.simps) (simp add: escape_char_def simple_escape_def unicode_escape_control)
  next
    case F: False
    then have "c \<noteq> CHR 0x00" by auto
    with False F show ?thesis by (subst parse_chars.simps) (simp add: escape_char_def)
  qed
qed

lemma parseString_escaped: "parseString (appendEscapedJsonString v @ r) = Inr (v, r)"
proof -
  have "parse_chars (concat (map escape_char v) @ CHR 0x22 # r) = Inr (v, r)"
  proof (induction v)
    case Nil
    show ?case by (subst parse_chars.simps) simp
  next
    case (Cons c v)
    then show ?case using parse_escape [of c "concat (map escape_char v) @ CHR 0x22 # r"] by simp
  qed
  then show ?thesis by (simp add: parseString_def appendEscapedJsonString_def json_expect_def)
qed

subsection \<open>Numbers are read back\<close>

definition number_end :: "string \<Rightarrow> bool" where
  "number_end r \<longleftrightarrow> \<not> is_digit (json_peek r) \<and> json_peek r \<notin> {CHR ''.'', CHR ''e'', CHR ''E''}"

lemma strip_digits_dec: "\<not> is_digit (json_peek r) \<Longrightarrow> strip_digits (dec n @ r) = (dec n, r)"
  using dec_digits [of n] by (cases r) (simp_all add: strip_digits_def takeWhile_append dropWhile_append json_peek_def)

lemma dec_starts: "is_digit (json_peek (dec n @ r))"
  using dec_digits [of n] by (cases "dec n") auto

lemma parseNumber_dec_int:
  assumes "number_end r" "- (2 ^ 63) \<le> i" "i < 2 ^ 64"
  shows "parseNumber (dec_int i @ r) = Inr (if i < 2 ^ 63 then JInt (of_int i) else JUint (of_int i), r)"
proof -
  have r: "number_fraction r = Inr (None, r)" "number_exponent r = Inr (None, r)" "\<not> is_digit (json_peek r)"
    using assms(1) by (auto simp: number_end_def number_fraction_def number_exponent_def)
  have d: "json_peek (dec n @ r) \<noteq> CHR ''-''" for n using dec_starts [of n r] by (auto simp: is_digit_def)
  show ?thesis
  proof (cases "i < 0")
    case True
    then have "nat (- i) \<le> 2 ^ 63" using assms(2) by simp
    with True show ?thesis
      by (simp add: parseNumber_def dec_int_def dec_starts strip_digits_dec r number_value_def dec_value_dec Let_def)
  next
    case False
    then have "nat i < 2 ^ 64" "nat i < 2 ^ 63 \<longleftrightarrow> i < 2 ^ 63" using assms(3) by auto
    with False d show ?thesis
      by (simp add: parseNumber_def dec_int_def dec_starts strip_digits_dec r number_value_def dec_value_dec Let_def)
  qed
qed

lemma number_exponent_text:
  assumes "number_end r"
  shows "number_exponent (exponent_text e @ r) = Inr (e, r)"
proof (cases e)
  case None
  then show ?thesis using assms by (auto simp: exponent_text_def number_exponent_def number_end_def)
next
  case (Some x)
  define ds where "ds = (if \<bar>x\<bar> < 10 then ''0'' else []) @ dec (nat \<bar>x\<bar>)"
  have ds: "\<forall>c \<in> set ds. is_digit c" "ds \<noteq> []" using dec_digits [of "nat \<bar>x\<bar>"] by (auto simp: ds_def is_digit_def)
  have r: "\<not> is_digit (json_peek r)" using assms by (simp add: number_end_def)
  then have strip: "strip_digits (ds @ r) = (ds, r)"
    using ds(1) by (cases r) (simp_all add: strip_digits_def takeWhile_append dropWhile_append json_peek_def)
  have start: "is_digit (json_peek (ds @ r))" using ds by (cases ds) auto
  have "dec_value ''0'' = 0" "dec_value [] = 0" by (simp_all add: dec_value_def)
  then have v: "dec_value ds = nat \<bar>x\<bar>" by (simp add: ds_def dec_value_append dec_value_dec del: dec_value_zeros)
  have "exponent_text e @ r = CHR ''e'' # (if x < 0 then CHR ''-'' else CHR ''+'') # ds @ r"
    by (simp add: exponent_text_def Some ds_def)
  then show ?thesis using start strip v by (simp add: number_exponent_def Let_def Some)
qed

lemma parseNumber_parts:
  assumes "number_end r" "list_all is_digit whole" "whole \<noteq> []" "list_all is_digit fs"
  shows "parseNumber ((if neg then ''-'' else []) @ whole @ (if fs = [] then [] else ''.'' @ fs) @ exponent_text e @ r) =
    Inr (number_value neg whole (if fs = [] then None else Some fs) e, r)"
proof -
  let ?x = "exponent_text e @ r" and ?f = "if fs = [] then [] else ''.'' @ fs"
  have strip: "strip_digits (ds @ t) = (ds, t)" if "list_all is_digit ds" "\<not> is_digit (json_peek t)" for ds t
    using that by (cases t) (simp_all add: strip_digits_def takeWhile_append dropWhile_append json_peek_def list_all_iff)
  have x: "\<not> is_digit (json_peek ?x)" "json_peek ?x \<noteq> CHR ''.''"
    using assms(1) by (auto simp: exponent_text_def number_end_def is_digit_def split: option.split)
  have start: "is_digit (json_peek (ds @ t))" if "list_all is_digit ds" "ds \<noteq> []" for ds t using that by (cases ds) auto
  have fs: "number_fraction (?f @ ?x) = Inr (if fs = [] then None else Some fs, ?x)"
    using strip [OF assms(4) x(1)] start [OF assms(4)] x(2) by (simp add: number_fraction_def Let_def)
  have "\<not> is_digit (json_peek (?f @ ?x))" using x(1) by (simp add: is_digit_def)
  note whole = strip [OF assms(2) this]
  have "is_digit (json_peek (whole @ ?f @ ?x))" by (rule start [OF assms(2,3)])
  moreover from this have "json_peek (whole @ ?f @ ?x) \<noteq> CHR ''-''" by (auto simp: is_digit_def)
  ultimately show ?thesis
    unfolding parseNumber_def
    using whole fs number_exponent_text [OF assms(1), of e] by (cases neg) (simp_all add: Let_def)
qed

text \<open>A double that is printed with 17 digits is read as the same double.\<close>

lemma g17_not_whole:
  assumes "double_isfinite x" "double_fraction x = (n, d)" "0 < n" "digits17 n d = (q, k)" "k < 17"
    and "real N = real q * 10 powi (k - 16)"
  shows "prints_integral x"
proof -
  have fr: "fp_fraction 53 (- 1022) (double_mag x) = (n, d)" using assms(2) by (simp add: double_fraction_def)
  have d: "0 < d" using fp_fraction_value [OF fr] by simp
  note near = digits17_near [OF assms(3) d assms(4)]
  have "10 powi (k + 1) \<le> (10::real) powi 17" using assms(5) by (intro power_int_increasing) simp_all
  then have N: "real N < 100000000000000000" using near(4) assms(6) by simp
  then have "N < 100000000000000000" by simp
  then have small: "\<bar>int N\<bar> < 2 ^ 64" by simp
  have mag: "double_mag x = fp_round 53 (- 1022) DOUBLE_INF N 1"
    using double_of_decimal_digits17(2) [OF assms(1-4), of N 0] assms(6) by simp
  then have "fp_round 53 (- 1022) DOUBLE_INF N 1 < 2 ^ 63" using assms(1) by (simp add: double_isfinite_def DOUBLE_INF_def)
  from with_sign64_simps(1) [OF this] have "double_mag (double_of_int (int N)) = double_mag x"
    by (simp add: double_of_int_def double_round_def mag)
  then have int: "double_integral x"
    using double_of_int_compare(2) [OF small, of 0] by (simp add: double_integral_def double_fraction_def)
  have "(real n / real d - real N) * 18014398509481984 \<le> \<bar>real N - real n / real d\<bar> * 18014398509481984"
    by (rule mult_right_mono) simp_all
  also have "\<dots> < real n / real d" using near(3) assms(6) by simp
  finally have "real n / real d < 2 * real N" using of_nat_0_le_iff [of N, where ?'a = real] by argo
  then have "real n / real d < 9223372036854775808" using N by linarith
  then have "real n < 9223372036854775808 * real d" using d by (simp add: divide_less_eq)
  then have "n < 9223372036854775808 * d" by linarith
  then have "int n < 9223372036854775808 * int d" by linarith
  then show ?thesis using assms(1) int d by (auto simp: prints_integral_def double_less_int_def int_less_double_def assms(2))
qed

theorem parseNumber_double:
  assumes "double_isfinite x" "\<not> prints_integral x" "number_end r"
  shows "parseNumber (double_print x @ r) = Inr (JFp x, r)"
proof -
  obtain n d where fr: "double_fraction x = (n, d)" by fastforce
  have d: "0 < d" using fp_fraction_value [of 53 "- 1022" "double_mag x" n d] fr by (simp add: double_fraction_def)
  have n: "0 < n"
  proof (rule ccontr)
    assume "\<not> 0 < n"
    then show False using assms(1,2) fr by (simp add: prints_integral_def double_less_int_def int_less_double_def double_integral_def split: if_splits)
  qed
  obtain q k where q: "digits17 n d = (q, k)" by fastforce
  note near = digits17_near [OF n d q]
  define f where "f = strip_zeros (g17_fraction q k)"
  define e where "e = g17_exponent k"
  note g = g17_value [OF near(1,2)] and s = g17_stripped [OF near(1,2), of k, folded f_def e_def]
  have "double_print x = (if double_negative x then ''-'' else []) @ g17_whole q k @ (if f = [] then [] else ''.'' @ f) @ exponent_text e"
    using assms(1) by (simp add: double_print_def fr format_g17_parts [OF n q] with_point_def f_def e_def Let_def)
  then have p: "parseNumber (double_print x @ r) = Inr (number_value (double_negative x) (g17_whole q k) (if f = [] then None else Some f) e, r)"
    using parseNumber_parts [OF assms(3) g(3,5) s(2), where neg = "double_negative x" and e = e] by simp
  have "\<not> (f = [] \<and> e = None)"
    using g17_not_whole [OF assms(1) fr n q, of "dec_value (g17_whole q k)"] s(1,3) assms(2) by (cases e) auto
  then have "number_value (double_negative x) (g17_whole q k) (if f = [] then None else Some f) e =
      JFp (double_of_decimal (double_negative x) (dec_value (g17_whole q k @ f)) ((case e of None \<Rightarrow> 0 | Some e \<Rightarrow> e) - int (length f)))"
    by (auto simp: number_value_def Let_def)
  also have "\<dots> = JFp x" using double_of_decimal_digits17(1) [OF assms(1) fr n q s(1)] by simp
  finally show ?thesis using p by simp
qed

lemma double_print_start:
  assumes "double_isfinite x"
  shows "double_print x \<noteq> []" "hd (double_print x) = CHR ''-'' \<or> is_digit (hd (double_print x))"
proof -
  obtain n d where fr: "double_fraction x = (n, d)" by fastforce
  have d: "0 < d" using fp_fraction_value [of 53 "- 1022" "double_mag x" n d] fr by (simp add: double_fraction_def)
  obtain q k where q: "digits17 n d = (q, k)" by fastforce
  have "format_g17 n d \<noteq> [] \<and> is_digit (hd (format_g17 n d))"
  proof (cases "n = 0")
    case False
    then have n: "0 < n" by simp
    note g = g17_value [OF digits17_near(1,2) [OF n d q], of k]
    show ?thesis unfolding format_g17_parts [OF n q] with_point_def Let_def using g(3,5) by (cases "g17_whole q k") auto
  qed (simp add: format_g17_def is_digit_def)
  then show "double_print x \<noteq> []" "hd (double_print x) = CHR ''-'' \<or> is_digit (hd (double_print x))"
    using assms by (simp_all add: double_print_def fr)
qed

subsection \<open>Values are read back\<close>

text \<open>
  A value that survives printing: its doubles are finite and not \<open>2 ^ 63\<close>, and keys are in order, as in a map. A double
  that is printed as an integer is read back as that integer, every other double as itself. The nesting is within the limit of the parser.
\<close>

primrec json_norm :: "Value \<Rightarrow> Value" where
  "json_norm JNull = JNull"
| "json_norm (JBool b) = JBool b"
| "json_norm (JFp x) = (if prints_integral x then JInt (of_int (double_trunc x)) else JFp x)"
| "json_norm (JInt n) = JInt n"
| "json_norm (JUint n) = (if unat n < 2 ^ 63 then JInt n else JUint n)"
| "json_norm (JString s) = JString s"
| "json_norm (JArray vs) = JArray (map json_norm vs)"
| "json_norm (JObject ps) = JObject (map (map_prod (\<lambda>k. k) json_norm) ps)"

primrec json_prints :: "Value \<Rightarrow> bool" where
  "json_prints JNull = True"
| "json_prints (JBool b) = True"
| "json_prints (JFp x) = (double_isfinite x \<and> (prints_integral x \<longrightarrow> double_trunc x \<noteq> 2 ^ 63))"
| "json_prints (JInt n) = True"
| "json_prints (JUint n) = True"
| "json_prints (JString s) = True"
| "json_prints (JArray vs) = list_all (\<lambda>b. b) (map json_prints vs)"
| "json_prints (JObject ps) = (sorted_keys ps \<and> list_all (\<lambda>p. snd p) (map (map_prod (\<lambda>k. k) json_prints) ps))"

primrec json_depth :: "Value \<Rightarrow> nat" where
  "json_depth JNull = 1"
| "json_depth (JBool b) = 1"
| "json_depth (JFp x) = 1"
| "json_depth (JInt n) = 1"
| "json_depth (JUint n) = 1"
| "json_depth (JString s) = 1"
| "json_depth (JArray vs) = Suc (fold max (map json_depth vs) 0)"
| "json_depth (JObject ps) = Suc (fold max (map snd (map (map_prod (\<lambda>k. k) json_depth) ps)) 0)"

definition blank :: "string \<Rightarrow> bool" where "blank ws \<longleftrightarrow> list_all c_isspace ws"

lemma blank_simps [simp]:
  "blank []" "blank (a @ b) \<longleftrightarrow> blank a \<and> blank b" "blank [newline]" "blank (replicate n (CHR '' ''))" "blank (CHR '' '' # s) \<longleftrightarrow> blank s"
  by (auto simp: blank_def c_isspace_def newline_def list_all_iff)

lemma skip_blank [simp]: "blank ws \<Longrightarrow> skipWhitespace (ws @ s) = skipWhitespace s"
  by (simp add: blank_def skipWhitespace_def list_all_iff)

lemma skip_blank_if [simp]: "blank ws \<Longrightarrow> skipWhitespace ((if b then ws else []) @ s) = skipWhitespace s"
  by simp

lemma skip_no_blank [simp]: "\<not> c_isspace c \<Longrightarrow> skipWhitespace (c # s) = c # s"
  by (simp add: skipWhitespace_def)

lemma skip_idem [simp]: "skipWhitespace (skipWhitespace s) = skipWhitespace s"
  by (simp add: skipWhitespace_def)

lemma not_space [simp]:
  "\<not> c_isspace (CHR '']'')" "\<not> c_isspace (CHR ''['')" "\<not> c_isspace (CHR ''}'')" "\<not> c_isspace (CHR ''{'')"
  "\<not> c_isspace (CHR '','')" "\<not> c_isspace (CHR '':'')" "\<not> c_isspace (CHR 0x22)"
  by (simp_all add: c_isspace_def)

text \<open>What may follow a value in a list, and what an element reader has to do.\<close>

definition reads_back :: "json_parser \<Rightarrow> string \<Rightarrow> Value \<Rightarrow> bool" where
  "reads_back sub x v \<longleftrightarrow> (\<forall>r. number_end r \<longrightarrow> sub (x @ r) = Inr (v, r))"

definition skips :: "json_parser \<Rightarrow> bool" where
  "skips sub \<longleftrightarrow> (\<forall>s. sub (skipWhitespace s) = sub s)"

lemma number_ends [simp]:
  "number_end (CHR '','' # r)" "number_end (CHR '']'' # r)" "number_end (CHR ''}'' # r)" "number_end (newline # r)" "number_end []"
  "number_end (CHR '' '' # r)"
  by (simp_all add: number_end_def is_digit_def newline_def json_peek_def)

lemma number_end_blank: "blank ws \<Longrightarrow> number_end r \<Longrightarrow> number_end (ws @ r)"
  by (cases ws) (auto simp: blank_def c_isspace_def number_end_def is_digit_def)

lemma skips_blank: "skips sub \<Longrightarrow> blank ws \<Longrightarrow> sub (ws @ s) = sub s"
  by (metis skip_blank skips_def)

lemma elements_items:
  assumes "skips sub" "list_all2 (reads_back sub) xs vs" "xs \<noteq> []" "length xs \<le> n" "blank ind" "blank fin"
  shows "json_elements n sub arr (json_items pretty ind xs @ fin @ CHR '']'' # r) = Inr (JArray (arr @ vs), r)"
  using assms(2-4)
proof (induction xs arbitrary: vs n arr)
  case (Cons x xs)
  obtain v vs' where vs: "vs = v # vs'" "reads_back sub x v" "list_all2 (reads_back sub) xs vs'"
    using Cons.prems(1) by (auto simp: list_all2_Cons1)
  obtain n' where n: "n = Suc n'" using Cons.prems(3) by (cases n) auto
  let ?nl = "if pretty then [newline] else []" and ?ind = "if pretty then ind else []"
  have lead: "sub (?ind @ s) = sub s" for s using skips_blank [OF assms(1), of ?ind] assms(5) by simp
  have rd: "sub (x @ s) = Inr (v, s)" if "number_end s" for s using vs(2) that by (simp add: reads_back_def)
  show ?case
  proof (cases "xs = []")
    case True
    then have "number_end (?nl @ fin @ CHR '']'' # r)" using number_end_blank assms(6) by simp
    note rd [OF this]
    then show ?thesis using True vs lead [of "x @ ?nl @ fin @ CHR '']'' # r"] assms(6) by (simp add: n)
  next
    case False
    let ?rest = "json_items pretty ind xs @ fin @ CHR '']'' # r"
    have "json_elements n' sub (arr @ [v]) (skipWhitespace (?nl @ ?rest)) = json_elements n' sub (arr @ [v]) ?rest"
      using assms(1) Cons.prems(3) False by (cases n') (auto simp: n skips_def)
    also have "\<dots> = Inr (JArray (arr @ vs), r)"
      using Cons.IH [OF vs(3) False, of n' "arr @ [v]"] Cons.prems(3) by (simp add: n vs)
    finally show ?thesis
      using False lead [of "x @ '','' @ ?nl @ ?rest"] rd [of "'','' @ ?nl @ ?rest"] by (simp add: n)
  qed
qed simp

lemma al_upd_last: "\<forall>p \<in> set ps. fst p < k \<Longrightarrow> al_upd k v ps = ps @ [(k, v)]"
  by (induction ps) auto

definition member_text :: "bool \<Rightarrow> string \<Rightarrow> string \<Rightarrow> string" where
  "member_text pretty k x = appendEscapedJsonString k @ '':'' @ (if pretty then '' '' else []) @ x"

lemma member_quote: "\<exists>t. member_text pretty k x = CHR 0x22 # t"
  by (simp add: member_text_def appendEscapedJsonString_def)

lemma members_items:
  assumes "skips sub" "list_all2 (\<lambda>(k, x) (k', v). k = k' \<and> reads_back sub x v) xs vs" "xs \<noteq> []" "length xs \<le> n"
    "blank ind" "blank fin" "sorted_keys (obj @ vs)"
  shows "json_members n sub obj (json_items pretty ind (map (\<lambda>(k, x). member_text pretty k x) xs) @ fin @ CHR ''}'' # r)
     = Inr (JObject (obj @ vs), r)"
  using assms(2-4,7)
proof (induction xs arbitrary: vs n obj)
  case (Cons kx xs)
  obtain k x where kx: "kx = (k, x)" by fastforce
  obtain v vs' where vs: "vs = (k, v) # vs'" "reads_back sub x v"
      "list_all2 (\<lambda>(k, x) (k', v). k = k' \<and> reads_back sub x v) xs vs'"
    using Cons.prems(1) by (auto simp: kx list_all2_Cons1)
  obtain n' where n: "n = Suc n'" using Cons.prems(3) by (cases n) auto
  let ?nl = "if pretty then [newline] else []" and ?ind = "if pretty then ind else []"
  have set: "obj_set k v obj = obj @ [(k, v)]"
    using Cons.prems(4) by (auto simp: obj_set_def vs sorted_wrt_append intro!: al_upd_last)
  have rd: "sub (x @ s) = Inr (v, s)" if "number_end s" for s using vs(2) that by (simp add: reads_back_def)
  have sp: "sub (skipWhitespace ((if pretty then '' '' else []) @ s)) = sub s" for s
    using assms(1) skips_blank [OF assms(1), of "'' ''"] by (simp add: skips_def)
  let ?tail = "\<lambda>s. case json_next (skipWhitespace s) of (c, s) \<Rightarrow>
          if c = CHR ''}'' then Inr (JObject (obj_set k v obj), s)
          else if c \<noteq> CHR '','' then Inl (''Expected '' @ quoted '','' @ '' or '' @ quoted ''}'' @ '' in object'')
          else json_members n' sub (obj_set k v obj) s"
  have step: "json_members n sub obj (?ind @ member_text pretty k x @ s) = ?tail s" if "number_end s" for s
  proof -
    obtain t where t: "member_text pretty k x = CHR 0x22 # t" using member_quote by blast
    have "skipWhitespace (?ind @ member_text pretty k x @ s) = member_text pretty k x @ s"
      using assms(5) by (simp add: t)
    moreover have "json_peek (member_text pretty k x @ s) = CHR 0x22" by (simp add: t)
    moreover have "parseString (member_text pretty k x @ s) = Inr (k, CHR '':'' # (if pretty then '' '' else []) @ x @ s)"
      using parseString_escaped [of k] by (simp add: member_text_def)
    ultimately show ?thesis using rd [OF that] sp [of "x @ s"] by (simp add: n json_expect_def Let_def)
  qed
  show ?case
  proof (cases "xs = []")
    case True
    then have "number_end (?nl @ fin @ CHR ''}'' # r)" using number_end_blank assms(6) by simp
    from step [OF this] show ?thesis using True vs assms(6) by (simp add: kx set)
  next
    case False
    let ?rest = "json_items pretty ind (map (\<lambda>(k, x). member_text pretty k x) xs) @ fin @ CHR ''}'' # r"
    have "json_members n' sub (obj @ [(k, v)]) (?nl @ ?rest) = json_members n' sub (obj @ [(k, v)]) ?rest"
      by (cases n') (simp_all add: Let_def)
    also have "\<dots> = Inr (JObject (obj @ vs), r)"
      using Cons.IH [OF vs(3) False, of n' "obj @ [(k, v)]"] Cons.prems(3,4) by (simp add: n vs)
    finally show ?thesis using False step [of "'','' @ ?nl @ ?rest"] by (simp add: kx set)
  qed
qed simp

lemma length_json_items: "length xs \<le> Suc (length (json_items pretty ind xs))"
  by (induction xs) auto

lemma fold_max_le: "fold max xs (a::nat) \<le> n \<longleftrightarrow> a \<le> n \<and> list_all (\<lambda>x. x \<le> n) xs"
  by (induction xs arbitrary: a) auto

lemma skips_parseValue: "0 < levels \<Longrightarrow> skips (parseValue levels)"
  by (cases levels) (simp_all add: skips_def)

definition item_start :: "char \<Rightarrow> string \<Rightarrow> bool" where
  "item_start rb x \<longleftrightarrow> x \<noteq> [] \<and> \<not> c_isspace (hd x) \<and> hd x \<noteq> rb"

lemma block_head:
  assumes "blank ind" "xs \<noteq> []" "list_all (item_start rb) xs"
  shows "json_peek (skipWhitespace (json_items pretty ind xs @ s)) \<noteq> rb"
    "length xs \<le> Suc (length (skipWhitespace (json_items pretty ind xs @ s)))"
proof -
  obtain c x ys where xs: "xs = (c # x) # ys" "\<not> c_isspace c" "c \<noteq> rb"
    using assms(2,3) by (cases xs) (auto simp: item_start_def neq_Nil_conv)
  have "skipWhitespace (json_items pretty ind xs @ s) = c # x @ (if ys \<noteq> [] then '','' else []) @
      (if pretty then [newline] else []) @ json_items pretty ind ys @ s"
    using xs assms(1) by simp
  then show "json_peek (skipWhitespace (json_items pretty ind xs @ s)) \<noteq> rb"
    "length xs \<le> Suc (length (skipWhitespace (json_items pretty ind xs @ s)))"
    using xs length_json_items [of ys pretty ind] by auto
qed

lemma parse_block_elements:
  assumes "skips sub" "list_all2 (reads_back sub) xs vs" "list_all (item_start (CHR '']'')) xs"
  shows "parseArray sub (json_block pretty indent (CHR ''['') (CHR '']'') xs @ r) = Inr (JArray vs, r)"
proof (cases "xs = []")
  case True
  then show ?thesis using assms(2) by (simp add: json_block_def parseArray_def json_expect_def)
next
  case False
  define fin where "fin = (if pretty then replicate (indent * 2) (CHR '' '') else [])"
  define ind where "ind = replicate ((indent + 1) * 2) (CHR '' '')"
  define rest where "rest = json_items pretty ind xs @ fin @ CHR '']'' # r"
  have b: "blank ind" "blank fin" by (simp_all add: ind_def fin_def)
  have h: "json_peek (skipWhitespace rest) \<noteq> CHR '']''" "length xs \<le> Suc (length (skipWhitespace rest))"
    using block_head [OF b(1) False assms(3), of pretty "fin @ CHR '']'' # r"] by (simp_all add: rest_def)
  have "json_elements (Suc n) sub [] (skipWhitespace rest) = json_elements (Suc n) sub [] rest" for n
    using assms(1) by (simp add: skips_def)
  moreover have "json_elements n sub [] rest = Inr (JArray vs, r)" if "length xs \<le> n" for n
    using elements_items [OF assms(1,2) False that b, of "[]" pretty r] by (simp add: rest_def)
  ultimately have "json_elements (Suc (length (skipWhitespace rest))) sub [] (skipWhitespace rest) = Inr (JArray vs, r)"
    using h(2) by metis
  moreover have "json_block pretty indent (CHR ''['') (CHR '']'') xs @ r = CHR ''['' # (if pretty then [newline] else []) @ rest"
    using False by (simp add: json_block_def rest_def ind_def fin_def)
  ultimately show ?thesis using h(1)
    by (simp add: parseArray_def json_expect_def Let_def del: json_elements.simps)
qed

lemma parse_block_members:
  assumes "skips sub" "list_all2 (\<lambda>(k, x) (k', v). k = k' \<and> reads_back sub x v) xs vs" "sorted_keys vs"
  shows "parseObject sub (json_block pretty indent (CHR ''{'') (CHR ''}'') (map (\<lambda>(k, x). member_text pretty k x) xs) @ r)
    = Inr (JObject vs, r)"
proof (cases "xs = []")
  case True
  then show ?thesis using assms(2) by (simp add: json_block_def parseObject_def json_expect_def)
next
  case False
  let ?xs = "map (\<lambda>(k, x). member_text pretty k x) xs"
  define fin where "fin = (if pretty then replicate (indent * 2) (CHR '' '') else [])"
  define ind where "ind = replicate ((indent + 1) * 2) (CHR '' '')"
  define rest where "rest = json_items pretty ind ?xs @ fin @ CHR ''}'' # r"
  have b: "blank ind" "blank fin" by (simp_all add: ind_def fin_def)
  have "list_all (item_start (CHR ''}'')) ?xs"
    by (auto simp: list_all_iff item_start_def member_text_def appendEscapedJsonString_def)
  then have h: "json_peek (skipWhitespace rest) \<noteq> CHR ''}''" "length xs \<le> Suc (length (skipWhitespace rest))"
    using block_head [OF b(1), of ?xs "CHR ''}''" pretty "fin @ CHR ''}'' # r"] False by (simp_all add: rest_def)
  have "json_members (Suc n) sub [] (skipWhitespace rest) = json_members (Suc n) sub [] rest" for n
    by (simp add: Let_def)
  moreover have "json_members n sub [] rest = Inr (JObject vs, r)" if "length xs \<le> n" for n
    using members_items [OF assms(1,2) False that b, of "[]" pretty r] assms(3) by (simp add: rest_def)
  ultimately have "json_members (Suc (length (skipWhitespace rest))) sub [] (skipWhitespace rest) = Inr (JObject vs, r)"
    using h(2) by metis
  moreover have "json_block pretty indent (CHR ''{'') (CHR ''}'') ?xs @ r = CHR ''{'' # (if pretty then [newline] else []) @ rest"
    using False by (simp add: json_block_def rest_def ind_def fin_def)
  ultimately show ?thesis using h(1)
    by (simp add: parseObject_def json_expect_def Let_def del: json_members.simps)
qed

text \<open>The first character of a printed value decides how it is read.\<close>

lemma dec_int_start: "hd (dec_int i) = CHR ''-'' \<or> is_digit (hd (dec_int i))" "dec_int i \<noteq> []"
  using dec_digits [of "nat i"] hd_in_set [OF dec_nonempty [of "nat i"]] by (auto simp: dec_int_def)

lemma digit_dispatch:
  assumes "is_digit c"
  shows "c \<noteq> CHR ''{''" "c \<noteq> CHR ''[''" "c \<noteq> CHR 0x22" "c \<noteq> CHR ''t''" "c \<noteq> CHR ''f''" "c \<noteq> CHR ''n''" "c \<noteq> CHR '']''" "\<not> c_isspace c"
  using assms by (auto simp: is_digit_def c_isspace_def)

lemma parseValue_number:
  assumes "s \<noteq> []" "hd s = CHR ''-'' \<or> is_digit (hd s)"
  shows "parseValue (Suc levels) (s @ r) = parseNumber (s @ r)"
proof -
  obtain c t where c: "s = c # t" "c = CHR ''-'' \<or> is_digit c" using assms by (cases s) auto
  then have "skipWhitespace (s @ r) = s @ r" "json_peek (s @ r) = c"
    using digit_dispatch(8) [of c] by (auto simp: c_isspace_def)
  then show ?thesis using c(2) digit_dispatch [of c] by (auto simp: Let_def)
qed

lemma parseValue_dec_int:
  assumes "number_end r" "- (2 ^ 63) \<le> i" "i < 2 ^ 64"
  shows "parseValue (Suc levels) (dec_int i @ r) = Inr (if i < 2 ^ 63 then JInt (of_int i) else JUint (of_int i), r)"
  using parseValue_number [OF dec_int_start(2,1)] parseNumber_dec_int [OF assms] by simp

lemma dec_is_dec_int: "dec n = dec_int (int n)"
  by (simp add: dec_int_def)

lemma item_start_number: "s \<noteq> [] \<Longrightarrow> hd s = CHR ''-'' \<or> is_digit (hd s) \<Longrightarrow> item_start (CHR '']'') s"
  using digit_dispatch(7,8) [of "hd s"] by (auto simp: item_start_def) (simp add: c_isspace_def)

lemmas item_start_numbers = item_start_number [OF dec_int_start(2,1)] item_start_number [OF double_print_start]

lemma print_start: "json_prints v \<Longrightarrow> item_start (CHR '']'') (json_print pretty indent v)"
proof (cases v)
  case (JUint n)
  then show ?thesis using item_start_numbers(1) [of "int (unat n)"] by (simp add: dec_int_def)
qed (auto simp: item_start_numbers, auto simp: item_start_def c_isspace_def appendEscapedJsonString_def json_block_def)

lemma prints_integral_trunc: "prints_integral x \<Longrightarrow> - (2 ^ 63) \<le> double_trunc x \<and> double_trunc x \<le> 2 ^ 63"
proof -
  assume p: "prints_integral x"
  obtain n d where nd: "double_fraction x = (n, d)" by fastforce
  have "int n \<le> int (2 ^ 63 * d)"
    using p by (cases "double_negative x") (simp_all add: prints_integral_def double_less_int_def int_less_double_def nd)
  then have "n div d \<le> 2 ^ 63 * d div d" by (intro div_le_mono) (simp only: of_nat_le_iff)
  also have "\<dots> \<le> 2 ^ 63" by (cases "d = 0") simp_all
  finally have "int (n div d) \<le> int (2 ^ 63)" by (simp only: of_nat_le_iff)
  then show ?thesis unfolding double_trunc_def nd by simp
qed

lemma json_prints_simps [simp]:
  "json_prints (JArray vs) \<longleftrightarrow> list_all json_prints vs"
  "json_prints (JObject ps) \<longleftrightarrow> sorted_keys ps \<and> list_all (\<lambda>p. json_prints (snd p)) ps"
  "json_depth (JArray vs) \<le> Suc n \<longleftrightarrow> list_all (\<lambda>v. json_depth v \<le> n) vs"
  "json_depth (JObject ps) \<le> Suc n \<longleftrightarrow> list_all (\<lambda>p. json_depth (snd p) \<le> n) ps"
  by (auto simp: list.pred_map comp_def fold_max_le list_all_iff)

declare json_prints.simps(7,8) [simp del] json_depth.simps(7,8) [simp del]

lemma depth_pos [simp]: "json_depth v \<noteq> 0"
  by (cases v) (simp_all add: json_depth.simps)

lemma parseValue_block:
  "parseValue (Suc l) (json_block pretty indent (CHR ''['') rb xs @ r) = parseArray (parseValue l) (json_block pretty indent (CHR ''['') rb xs @ r)"
  "parseValue (Suc l) (json_block pretty indent (CHR ''{'') rb xs @ r) = parseObject (parseValue l) (json_block pretty indent (CHR ''{'') rb xs @ r)"
  by (simp_all add: json_block_def)

lemma parseValue_string: "parseValue (Suc l) (appendEscapedJsonString x @ r) = Inr (JString x, r)"
proof -
  obtain t where t: "appendEscapedJsonString x @ r = CHR 0x22 # t" by (simp add: appendEscapedJsonString_def)
  then have "parseString (CHR 0x22 # t) = Inr (x, r)" by (metis parseString_escaped)
  then show ?thesis by (simp add: t)
qed

theorem parseValue_print:
  "json_prints v \<Longrightarrow> json_depth v \<le> levels \<Longrightarrow> number_end r \<Longrightarrow>
     parseValue levels (json_print pretty indent v @ r) = Inr (json_norm v, r)"
proof (induction v arbitrary: levels indent r)
  case (JFp x)
  then obtain l where l: "levels = Suc l" by (cases levels) auto
  show ?case
  proof (cases "prints_integral x")
    case True
    then have x: "- (2 ^ 63) \<le> double_trunc x" "double_trunc x < 2 ^ 63" using JFp prints_integral_trunc [of x] by auto
    then have "sint (of_int (double_trunc x) :: u64) = double_trunc x" by (simp add: signed_of_int signed_take_bit_int_eq_self)
    then show ?thesis using x True parseValue_dec_int [OF JFp(3) x(1), of l] by (simp add: l del: parseValue.simps)
  next
    case False
    then show ?thesis
      using JFp parseNumber_double [of x r] parseValue_number [OF double_print_start, of x l r] by (simp add: l del: parseValue.simps)
  qed
next
  case (JInt n)
  then obtain l where l: "levels = Suc l" by (cases levels) auto
  have "- (2 ^ 63) \<le> sint n" "sint n < 2 ^ 63" using sint_range_size [of n] by (simp_all add: word_size)
  then show ?case using parseValue_dec_int [OF JInt(3), of "sint n" l] by (simp add: l del: parseValue.simps)
next
  case (JUint n)
  then obtain l where l: "levels = Suc l" by (cases levels) auto
  have "uint n < 2 ^ LENGTH(64)" by (rule uint_lt2p)
  moreover have "- (2 ^ 63) \<le> uint n" by (rule order_trans [OF _ unsigned_greater_eq]) simp
  ultimately have "- (2 ^ 63) \<le> uint n" "uint n < 2 ^ 64" by simp_all
  note rd = parseValue_dec_int [OF JUint(3) this, of l]
  have "uint n = int (unat n)" by simp
  then have "dec_int (uint n) = dec (unat n)" "uint n < 2 ^ 63 \<longleftrightarrow> unat n < 2 ^ 63"
    using of_nat_less_iff [of "unat n" "2 ^ 63", where ?'a = int] by (simp_all only: dec_is_dec_int of_nat_power of_nat_numeral)
  with rd show ?case by (simp add: l del: parseValue.simps)
next
  case (JArray vs)
  then obtain l where l: "levels = Suc l" by (cases levels) (auto simp: json_depth.simps)
  show ?case
  proof (cases "vs = []")
    case True
    then show ?thesis by (simp add: l json_block_def parseArray_def json_expect_def)
  next
    case False
    have "0 < l" using JArray.prems(2) False depth_pos by (cases vs; cases l) (auto simp: l)
    have "list_all2 (reads_back (parseValue l)) (map (json_print pretty (indent + 1)) vs) (map json_norm vs)"
      using JArray by (auto simp: l list_all2_conv_all_nth reads_back_def list_all_length)
    moreover have "list_all (item_start (CHR '']'')) (map (json_print pretty (indent + 1)) vs)"
      using JArray.prems(1) print_start by (auto simp: list_all_iff)
    ultimately show ?thesis
      using parse_block_elements [OF skips_parseValue [OF \<open>0 < l\<close>]]
      unfolding l json_print.simps json_norm.simps parseValue_block by blast
  qed
next
  case (JObject ps)
  then obtain l where l: "levels = Suc l" by (cases levels) (auto simp: json_depth.simps)
  let ?xs = "map (map_prod (\<lambda>k. k) (json_print pretty (indent + 1))) ps" and ?vs = "map (map_prod (\<lambda>k. k) json_norm) ps"
  have printed: "json_print pretty indent (JObject ps) =
      json_block pretty indent (CHR ''{'') (CHR ''}'') (map (\<lambda>(k, x). member_text pretty k x) ?xs)"
    by (simp add: member_text_def comp_def case_prod_unfold)
  show ?case
  proof (cases "ps = []")
    case True
    then show ?thesis by (simp add: l json_block_def parseObject_def json_expect_def)
  next
    case False
    have "0 < l" using JObject.prems(2) False depth_pos by (cases ps; cases l) (auto simp: l)
    have "reads_back (parseValue l) (json_print pretty (indent + 1) (snd p)) (json_norm (snd p))" if "p \<in> set ps" for p
      unfolding reads_back_def
    proof (intro allI impI)
      fix r assume "number_end r"
      moreover have "json_prints (snd p)" "json_depth (snd p) \<le> l" using JObject.prems(1,2) that by (simp_all add: l list_all_iff)
      moreover have "snd p \<in> Basic_BNFs.snds p" by (cases p) simp
      ultimately show "parseValue l (json_print pretty (indent + 1) (snd p) @ r) = Inr (json_norm (snd p), r)"
        using JObject.IH [OF that] by blast
    qed
    then have "list_all2 (\<lambda>(k, x) (k', v). k = k' \<and> reads_back (parseValue l) x v) ?xs ?vs"
      by (auto simp: list_all2_conv_all_nth case_prod_unfold)
    moreover have "sorted_keys ?vs" using JObject.prems(1) by (simp add: comp_def)
    ultimately show ?thesis
      using parse_block_members [OF skips_parseValue [OF \<open>0 < l\<close>], of ?xs ?vs pretty indent r]
      unfolding printed l json_norm.simps parseValue_block by blast
  qed
next
  case (JString x)
  then show ?case using parseValue_string by (cases levels) (simp_all del: parseValue.simps)
next
  case (JBool b)
  then show ?case by (cases levels) (auto simp: parseBool_def c_isspace_def)
next
  case JNull
  then show ?case by (cases levels) (auto simp: parseNull_def c_isspace_def)
qed

subsection \<open>The loops end\<close>

text \<open>No parser makes the text longer, so the fuel of the loops never runs out.\<close>

definition shrinks :: "('a \<times> string) res \<Rightarrow> string \<Rightarrow> bool" where
  "shrinks x s \<longleftrightarrow> x \<noteq> Inl out_of_fuel \<and> (\<forall>v r. x = Inr (v, r) \<longrightarrow> length r \<le> length s)"

lemma shrinks_simps [simp]:
  "shrinks (Inr (v, r)) s \<longleftrightarrow> length r \<le> length s" "shrinks (Inl msg) s \<longleftrightarrow> msg \<noteq> []"
  by (simp_all add: shrinks_def out_of_fuel_def)

lemma shrinks_bind:
  "shrinks x s \<Longrightarrow> (\<And>v r. x = Inr (v, r) \<Longrightarrow> length r \<le> length s \<Longrightarrow> shrinks (f (v, r)) s) \<Longrightarrow> shrinks (bind_r x f) s"
  by (cases x) (auto simp: shrinks_def out_of_fuel_def)

lemma shrinks_le: "shrinks x s \<Longrightarrow> length s \<le> length s' \<Longrightarrow> shrinks x s'"
  by (auto simp: shrinks_def)

lemma length_skip [simp]: "length (skipWhitespace s) \<le> length s"
  by (simp add: skipWhitespace_def length_dropWhile_le)

lemma json_next_tail: "length (snd (json_next s)) = length s - 1"
  by (simp add: json_next_def split: list.split)

lemma unicode_escape_message: "unicode_escape s \<noteq> Inl []"
  by (auto simp: unicode_escape_def split: prod.splits option.splits)

lemma shrinks_push: "shrinks x t \<Longrightarrow> length t \<le> length s \<Longrightarrow> shrinks (bind_r x (\<lambda>(str, r). Inr (f str, r))) s"
  by (auto intro!: shrinks_bind intro: shrinks_le)

lemma shrinks_parse_chars: "shrinks (parse_chars s) s"
proof (induction s rule: measure_induct_rule [where f = length])
  case (less s)
  obtain c s1 where c: "json_next s = (c, s1)" by fastforce
  obtain e s2 where e: "json_next s1 = (e, s2)" by fastforce
  have le: "length s1 \<le> length s" "length s2 \<le> length s1" using json_next_tail [of s] json_next_tail [of s1] c e by auto
  show ?case
  proof (cases "c = CHR 0x00 \<or> c = CHR 0x22")
    case True
    then show ?thesis using c le by (subst parse_chars.simps) auto
  next
    case False
    then have lt: "length s1 < length s" using json_next_less [of c s1 s] c by simp
    have sub: "shrinks (bind_r (parse_chars t) (\<lambda>(str, r). Inr (f str, r))) s" if "length t < length s" for t and f :: "string \<Rightarrow> string"
      using less [OF that] that by (auto intro: shrinks_push)
    show ?thesis
    proof (cases "c = CHR 0x5C \<and> simple_escape e = None")
      case True
      show ?thesis
      proof (cases "unicode_escape s2")
        case (Inr p)
        then have "length (snd p) < length s" using length_unicode_escape [of s2 "fst p" "snd p"] lt le by simp
        from sub [OF this] show ?thesis
          using True c e Inr by (subst parse_chars.simps) (auto simp: case_prod_unfold)
      qed (use True c e unicode_escape_message [of s2] in \<open>subst parse_chars.simps, auto\<close>)
    next
      case F: False
      have "length s2 < length s" using le lt by simp
      from sub [OF lt] sub [OF this] show ?thesis using False F c e by (subst parse_chars.simps) (auto split: option.split)
    qed
  qed
qed

lemma shrinks_parseString: "shrinks (parseString s) s"
  using json_next_tail [of s]
  by (auto simp: parseString_def json_expect_def quoted_def split: prod.split intro!: shrinks_le [OF shrinks_parse_chars])

lemma shrinks_strip_digits: "strip_digits s = (ds, r) \<Longrightarrow> length r \<le> length s"
  by (auto simp: strip_digits_def length_dropWhile_le)

lemma shrinks_parseNumber: "shrinks (parseNumber s) s"
proof -
  have f: "shrinks (number_fraction t) t" for t
    using json_next_tail [of t] by (auto simp: number_fraction_def Let_def split: prod.split dest!: shrinks_strip_digits)
  have e: "shrinks (number_exponent t) t" for t
    using json_next_tail [of t] json_next_tail [of "snd (json_next t)"]
    by (auto simp: number_exponent_def Let_def split: prod.split dest!: shrinks_strip_digits)
  define t where "t = (if json_peek s = CHR ''-'' then snd (json_next s) else s)"
  have t: "length t \<le> length s" using json_next_tail [of s] by (simp add: t_def)
  obtain ds u where ds: "strip_digits t = (ds, u)" by fastforce
  show ?thesis
    using t shrinks_strip_digits [OF ds]
    by (auto simp: parseNumber_def Let_def ds simp flip: t_def intro!: shrinks_bind shrinks_le [OF e] shrinks_le [OF f])
qed

lemma shrinks_after:
  "(c, r) = json_next (skipWhitespace s) \<Longrightarrow> length s \<le> n \<Longrightarrow> length r \<le> n"
  "(c, r) = json_next (skipWhitespace s) \<Longrightarrow> length s \<le> n \<Longrightarrow> c \<noteq> CHR 0x00 \<Longrightarrow> length r < n"
  using json_next_le [of c r "skipWhitespace s"] json_next_less [of c r "skipWhitespace s"] length_skip [of s] by linarith+

lemma shrinks_separated:
  assumes "length r \<le> length s" "msg \<noteq> []" "\<And>q. length q < length s \<Longrightarrow> shrinks (cont q) s"
  shows "shrinks (case json_next (skipWhitespace r) of (c, q) \<Rightarrow>
     if c = close then Inr (v, q) else if c \<noteq> CHR '','' then Inl msg else cont q) s"
proof -
  obtain c q where q: "(c, q) = json_next (skipWhitespace r)" by (metis surj_pair)
  have "length q < length s" if "c = CHR '',''" using shrinks_after(2) [OF q assms(1)] that by simp
  then show ?thesis using shrinks_after(1) [OF q assms(1)] assms(2,3) by (simp flip: q)
qed

lemma shrinks_expect:
  assumes "length t \<le> length s" "\<And>u. length u \<le> length s \<Longrightarrow> shrinks (f u) s"
  shows "shrinks (bind_r (json_expect c t) f) s"
  using json_next_tail [of t] assms by (auto simp: json_expect_def quoted_def split: prod.split)

lemma shrinks_skip: "length t \<le> length s \<Longrightarrow> length (skipWhitespace t) \<le> length s"
  by (rule order_trans [OF length_skip])

lemma shrinks_elements:
  assumes "\<And>s. shrinks (sub s) s"
  shows "length s < n \<Longrightarrow> shrinks (json_elements n sub arr s) s"
proof (induction n arbitrary: arr s)
  case (Suc n)
  have "shrinks (json_elements n sub arr (skipWhitespace q)) s" if "length q < length s" for arr q
  proof (rule shrinks_le [OF Suc.IH])
    show "length (skipWhitespace q) < n" by (rule le_less_trans [OF length_skip]) (use that Suc.prems in simp)
    show "length (skipWhitespace q) \<le> length s" by (rule order_trans [OF length_skip]) (use that in simp)
  qed
  then show ?case unfolding json_elements.simps(2) Let_def
    by (auto intro!: shrinks_bind [OF assms] shrinks_separated)
qed simp

lemma shrinks_members:
  assumes "\<And>s. shrinks (sub s) s"
  shows "length s < n \<Longrightarrow> shrinks (json_members n sub obj s) s"
proof (induction n arbitrary: obj s)
  case (Suc n)
  have more: "shrinks (json_members n sub obj q) s" if "length q < length s" for obj q
    using that Suc.prems by (intro shrinks_le [OF Suc.IH]) simp_all
  show ?case
  proof (cases "json_peek (skipWhitespace s) = CHR 0x22")
    case True
    then show ?thesis unfolding json_members.simps(2) Let_def
      by (auto intro!: shrinks_bind shrinks_expect shrinks_separated more shrinks_skip
          shrinks_le [OF shrinks_parseString] shrinks_le [OF assms] simp del: length_skip)
  qed (simp add: Let_def)
qed simp

theorem shrinks_parseValue: "shrinks (parseValue levels s) s"
proof (induction levels arbitrary: s)
  case (Suc l)
  have arr: "shrinks (parseArray (parseValue l) t) s" if "length t \<le> length s" for t s
    using that json_next_tail unfolding parseArray_def Let_def
    by (auto simp del: json_elements.simps intro!: shrinks_expect shrinks_le [OF shrinks_elements [OF Suc]] shrinks_skip order_trans [OF diff_le_self])
  have obj: "shrinks (parseObject (parseValue l) t) s" if "length t \<le> length s" for t s
    using that json_next_tail unfolding parseObject_def Let_def
    by (auto simp del: json_members.simps intro!: shrinks_expect shrinks_le [OF shrinks_members [OF Suc]] shrinks_skip order_trans [OF diff_le_self])
  have lit: "shrinks (parseBool t) t" "shrinks (parseNull t) t" for t by (auto simp: parseBool_def parseNull_def)
  show ?case unfolding parseValue.simps(2) Let_def
    by (auto intro!: arr obj shrinks_bind shrinks_le [OF shrinks_parseString] shrinks_le [OF shrinks_parseNumber] shrinks_le [OF lit(1)] shrinks_le [OF lit(2)])
qed simp

theorem json_parse_print: "json_prints v \<Longrightarrow> json_depth v \<le> kMaxJsonDepth \<Longrightarrow> json_parse (json_print pretty indent v) = Inr (json_norm v)"
proof -
  assume v: "json_prints v" "json_depth v \<le> kMaxJsonDepth"
  have "skips (parseValue kMaxJsonDepth)" by (rule skips_parseValue) (simp add: kMaxJsonDepth_def)
  moreover have "parseValue kMaxJsonDepth (json_print pretty indent v) = Inr (json_norm v, [])"
    using parseValue_print [OF v, of "[]"] by simp
  ultimately show ?thesis by (simp add: json_parse_def skips_def) (simp add: skipWhitespace_def)
qed

theorem json_parse_fuel: "json_parse s \<noteq> Inl out_of_fuel"
  using shrinks_parseValue [of kMaxJsonDepth "skipWhitespace s"]
  by (cases "parseValue kMaxJsonDepth (skipWhitespace s)") (auto simp: json_parse_def shrinks_def out_of_fuel_def split: if_splits)

end
