(* ===== verification/TypeCodec.thy ===== *)
theory TypeCodec
  imports Json IdlAccepted WireCodec
begin

section \<open>JSON values on the wire\<close>

text \<open>
  tools/omni_cli/type_codec.cpp: JSON values are written to and read from a buffer as a type of an interface file says.
  Writing follows the value and ends; reading follows the type and the bytes, and may go on forever for
  a struct that contains itself, so it is a \<open>partial_function\<close>: \<open>None\<close> means that it does not return. Shown
  here: a value is written exactly if it has the type; what is read has the type; what was written is
  read back; and reading returns for the types of a file that was accepted.
\<close>

subsection \<open>Writing\<close>

definition MAX_ARRAY_ELEMENTS :: nat where "MAX_ARRAY_ELEMENTS = 1024 * 1024"

definition checkIntegral :: "Value \<Rightarrow> bool" where
  "checkIntegral json \<longleftrightarrow> isNumber json \<and> double_isfinite (asNumber json) \<and> double_integral (asNumber json)"

definition checkIntegerRange :: "Value \<Rightarrow> int \<Rightarrow> int \<Rightarrow> bool" where
  "checkIntegerRange json least greatest \<longleftrightarrow>
     checkIntegral json \<and> \<not> (double_less_int (asNumber json) least \<or> int_less_double greatest (asNumber json))"

definition checkFiniteNumber :: "Value \<Rightarrow> bool" where
  "checkFiniteNumber json \<longleftrightarrow> isNumber json \<and> double_isfinite (asNumber json)"

definition checkIntegerRangeSafe :: "Value \<Rightarrow> int \<Rightarrow> int \<Rightarrow> bool" where
  "checkIntegerRangeSafe json least bound \<longleftrightarrow>
     checkIntegral json \<and> \<not> (double_less_int (asNumber json) least \<or> \<not> double_less_int (asNumber json) bound)"

definition findStruct :: "ParseContext \<Rightarrow> string \<Rightarrow> string \<Rightarrow> StructDef option" where
  "findStruct ctx name package =
     (case om_lookup (pc_loaded_packages ctx) package of
        None \<Rightarrow> None
      | Some ast \<Rightarrow> find (\<lambda>s. sd_name s = name) (af_structs ast))"

text \<open>The results of the buffer's writes are not used.\<close>

definition put :: "writer \<Rightarrow> writer" where
  "put w alloc b = (True, snd (w alloc b))"

fun encodePrimitive :: "PrimitiveType \<Rightarrow> Value \<Rightarrow> writer" where
  "encodePrimitive TYPE_BOOL json = (case json of JBool b \<Rightarrow> put (writeBool b) | _ \<Rightarrow> wreject)"
| "encodePrimitive TYPE_INT8 json =
     (if \<not> checkIntegerRange json (- 128) 127 then wreject else put (writeInt8 (ucast (asInt64 json))))"
| "encodePrimitive TYPE_UINT8 json =
     (if \<not> checkIntegerRange json 0 255 then wreject else put (writeUint8 (ucast (asInt64 json))))"
| "encodePrimitive TYPE_INT16 json =
     (if \<not> checkIntegerRange json (- 32768) 32767 then wreject else put (writeInt16 (ucast (asInt64 json))))"
| "encodePrimitive TYPE_UINT16 json =
     (if \<not> checkIntegerRange json 0 65535 then wreject else put (writeUint16 (ucast (asInt64 json))))"
| "encodePrimitive TYPE_INT32 json =
     (if \<not> checkIntegerRange json (- 2147483648) 2147483647 then wreject else put (writeInt32 (ucast (asInt64 json))))"
| "encodePrimitive TYPE_UINT32 json =
     (if \<not> checkIntegerRange json 0 4294967295 then wreject else put (writeUint32 (ucast (asInt64 json))))"
| "encodePrimitive TYPE_INT64 json =
     (if \<not> checkFiniteNumber json then wreject
      else
        case json of
          JUint n \<Rightarrow> if 0x7FFFFFFFFFFFFFFF < asUint64 json then wreject else put (writeInt64 (asInt64 json))
        | JFp x \<Rightarrow> if \<not> checkIntegerRangeSafe json (- (2 ^ 63)) (2 ^ 63) then wreject else put (writeInt64 (asInt64 json))
        | _ \<Rightarrow> put (writeInt64 (asInt64 json)))"
| "encodePrimitive TYPE_UINT64 json =
     (if \<not> checkFiniteNumber json then wreject
      else
        case json of
          JInt n \<Rightarrow> if sint (asInt64 json) < 0 then wreject else put (writeUint64 (asUint64 json))
        | JFp x \<Rightarrow> if \<not> checkIntegerRangeSafe json 0 (2 ^ 64) then wreject else put (writeUint64 (asUint64 json))
        | _ \<Rightarrow> put (writeUint64 (asUint64 json)))"
| "encodePrimitive TYPE_FLOAT32 json =
     (if \<not> checkFiniteNumber json then wreject else put (writeFloat32 (float_of_double (asNumber json))))"
| "encodePrimitive TYPE_FLOAT64 json =
     (if \<not> checkFiniteNumber json then wreject else put (writeFloat64 (asNumber json)))"
| "encodePrimitive TYPE_STRING json = (case json of JString s \<Rightarrow> put (writeString s) | _ \<Rightarrow> wreject)"
| "encodePrimitive _ json = wreject"

type_synonym json_encoder = "TypeRef \<Rightarrow> string \<Rightarrow> Value \<Rightarrow> writer"

definition type_package :: "TypeRef \<Rightarrow> string \<Rightarrow> string" where
  "type_package t package = (if tr_package_name t = [] then package else tr_package_name t)"

definition encodeStruct :: "json_encoder \<Rightarrow> Value \<Rightarrow> StructDef \<Rightarrow> string \<Rightarrow> writer" where
  "encodeStruct sub json structDef package =
     (case json of
        JObject obj \<Rightarrow>
          wseq (map (\<lambda>field. case map_of obj (fd_name field) of
              None \<Rightarrow> wreject
            | Some fieldValue \<Rightarrow> sub (fd_type field) (type_package (fd_type field) package) fieldValue) (sd_fields structDef))
      | _ \<Rightarrow> wreject)"

definition encodeArray :: "json_encoder \<Rightarrow> Value \<Rightarrow> TypeRef \<Rightarrow> string \<Rightarrow> writer" where
  "encodeArray sub json elementType package =
     (case json of
        JArray vs \<Rightarrow> wthen (put (writeUint32 (of_nat (length vs)))) (wseq (map (sub elementType package) vs))
      | _ \<Rightarrow> wreject)"

lemma encodeStruct_cong [fundef_cong]:
  assumes "json = json'" "sd = sd'" "package = package'"
    "\<And>obj f v. json' = JObject obj \<Longrightarrow> f \<in> set (sd_fields sd') \<Longrightarrow> map_of obj (fd_name f) = Some v \<Longrightarrow>
       sub (fd_type f) (type_package (fd_type f) package') v = sub' (fd_type f) (type_package (fd_type f) package') v"
  shows "encodeStruct sub json sd package = encodeStruct sub' json' sd' package'"
  using assms by (auto simp: encodeStruct_def split: Value.split option.split intro!: arg_cong [of _ _ wseq] map_cong)

lemma encodeArray_cong [fundef_cong]:
  assumes "json = json'" "t = t'" "package = package'"
    "\<And>vs v. json' = JArray vs \<Longrightarrow> v \<in> set vs \<Longrightarrow> sub t' package' v = sub' t' package' v"
  shows "encodeArray sub json t package = encodeArray sub' json' t' package'"
  using assms by (auto simp: encodeArray_def split: Value.split intro!: arg_cong [of _ _ wseq] arg_cong2 [of _ _ _ _ wthen] map_cong)

function encodeToBuffer :: "ParseContext \<Rightarrow> json_encoder" where
  "encodeToBuffer ctx t package json =
     (if tr_primitive t = TYPE_CUSTOM then
        let structPackage = type_package t package in
        case findStruct ctx (tr_custom_name t) structPackage of
          None \<Rightarrow> wreject
        | Some structDef \<Rightarrow> encodeStruct (encodeToBuffer ctx) json structDef structPackage
      else if tr_primitive t = TYPE_ARRAY then
        case tr_element_type t of
          None \<Rightarrow> wreject
        | Some elementType \<Rightarrow> encodeArray (encodeToBuffer ctx) json elementType package
      else encodePrimitive (tr_primitive t) json)"
  by pat_completeness auto

lemma size_member: "map_of obj k = Some v \<Longrightarrow> size v < size (JObject obj)"
  using map_of_SomeD [of obj k v] size_list_estimation' [of "(k, v)" obj "size v" "size_prod (\<lambda>_. 0) size"] by simp

lemma size_element: "v \<in> set vs \<Longrightarrow> size v < size (JArray vs)"
  using size_list_estimation' [of v vs "size v" size] by simp

termination encodeToBuffer
  by (relation "measure (\<lambda>(_, _, _, json). size json)") (auto dest: size_member size_element simp del: Value.size)

declare encodeToBuffer.simps [simp del]

subsection \<open>Reading\<close>

fun decodePrimitive :: "PrimitiveType \<Rightarrow> Value parser" where
  "decodePrimitive TYPE_BOOL = rbind tryReadBool (\<lambda>x. rret (JBool x))"
| "decodePrimitive TYPE_INT8 = rbind tryReadInt8 (\<lambda>x. rret (JFp (double_of_int (sint x))))"
| "decodePrimitive TYPE_UINT8 = rbind tryReadUint8 (\<lambda>x. rret (JFp (double_of_int (uint x))))"
| "decodePrimitive TYPE_INT16 = rbind tryReadInt16 (\<lambda>x. rret (JFp (double_of_int (sint x))))"
| "decodePrimitive TYPE_UINT16 = rbind tryReadUint16 (\<lambda>x. rret (JFp (double_of_int (uint x))))"
| "decodePrimitive TYPE_INT32 = rbind tryReadInt32 (\<lambda>x. rret (JFp (double_of_int (sint x))))"
| "decodePrimitive TYPE_UINT32 = rbind tryReadUint32 (\<lambda>x. rret (JFp (double_of_int (uint x))))"
| "decodePrimitive TYPE_INT64 = rbind tryReadInt64 (\<lambda>x. rret (JInt x))"
| "decodePrimitive TYPE_UINT64 = rbind tryReadUint64 (\<lambda>x. rret (JUint x))"
| "decodePrimitive TYPE_FLOAT32 = rbind tryReadFloat32 (\<lambda>x. rret (JFp (double_of_float x)))"
| "decodePrimitive TYPE_FLOAT64 = rbind tryReadFloat64 (\<lambda>x. rret (JFp x))"
| "decodePrimitive TYPE_STRING = rbind tryReadString (\<lambda>x. rret (JString x))"
| "decodePrimitive _ = rfail"

text \<open>A reader that may not return, and the sequence of two.\<close>

type_synonym 'a reading = "BufferView \<Rightarrow> ('a option \<times> BufferView) option"

definition tlift :: "'a parser \<Rightarrow> 'a reading" where
  "tlift p v = Some (p v)"

definition tbind :: "'a reading \<Rightarrow> ('a \<Rightarrow> 'b reading) \<Rightarrow> 'b reading" where
  "tbind p f v = Option.bind (p v) (\<lambda>(r, v'). case r of None \<Rightarrow> Some (None, v') | Some x \<Rightarrow> f x v')"

lemma tbind_mono [partial_function_mono]:
  assumes "\<And>v. mono_option (\<lambda>f. p f v)" "\<And>x v. mono_option (\<lambda>f. q f x v)"
  shows "mono_option (\<lambda>f. tbind (p f) (q f) v)"
  unfolding tbind_def
proof (rule bind_mono)
  fix y
  show "mono_option (\<lambda>f. case y of (r, v') \<Rightarrow> case r of None \<Rightarrow> Some (None, v') | (Some x) \<Rightarrow> q f x v')"
    using assms(2) by (cases y; cases "fst y") (simp_all add: option.const_mono)
qed (rule assms(1))

type_synonym json_decoder = "TypeRef \<Rightarrow> string \<Rightarrow> Value reading"

primrec decode_fields :: "json_decoder \<Rightarrow> string \<Rightarrow> FieldDef list \<Rightarrow> (string \<times> Value) list \<Rightarrow> (string \<times> Value) list reading" where
  "decode_fields sub package [] obj = tlift (rret obj)"
| "decode_fields sub package (field # fds) obj =
     tbind (sub (fd_type field) (type_package (fd_type field) package)) (\<lambda>fieldValue.
       decode_fields sub package fds (obj_set (fd_name field) fieldValue obj))"

definition decodeStruct :: "json_decoder \<Rightarrow> StructDef \<Rightarrow> string \<Rightarrow> Value reading" where
  "decodeStruct sub structDef package =
     tbind (decode_fields sub package (sd_fields structDef) []) (\<lambda>obj. tlift (rret (JObject obj)))"

primrec decode_elements :: "nat \<Rightarrow> Value reading \<Rightarrow> Value list \<Rightarrow> Value list reading" where
  "decode_elements 0 sub arr = tlift (rret arr)"
| "decode_elements (Suc n) sub arr = tbind sub (\<lambda>element. decode_elements n sub (arr @ [element]))"

definition decodeArray :: "json_decoder \<Rightarrow> TypeRef \<Rightarrow> string \<Rightarrow> Value reading" where
  "decodeArray sub elementType package =
     tbind (tlift tryReadUint32) (\<lambda>count.
       if MAX_ARRAY_ELEMENTS < unat count then tlift rfail
       else tbind (decode_elements (unat count) (sub elementType package) []) (\<lambda>arr. tlift (rret (JArray arr))))"

lemma tlift_mono [partial_function_mono]: "mono_option (\<lambda>f. tlift p v)"
  by (rule option.const_mono)

lemma decode_fields_mono:
  assumes "\<And>t package v. mono_option (\<lambda>f. sub f t package v)"
  shows "mono_option (\<lambda>f. decode_fields (sub f) package fds obj v)"
  by (induction fds arbitrary: obj v) (auto intro!: partial_function_mono assms)

lemma decode_elements_mono:
  assumes "\<And>v. mono_option (\<lambda>f. sub f v)"
  shows "mono_option (\<lambda>f. decode_elements n (sub f) arr v)"
  by (induction n arbitrary: arr v) (auto intro!: partial_function_mono assms)

lemma decodeStruct_mono [partial_function_mono]:
  assumes "\<And>t package v. mono_option (\<lambda>f. sub f t package v)"
  shows "mono_option (\<lambda>f. decodeStruct (sub f) sd package v)"
  unfolding decodeStruct_def by (intro partial_function_mono decode_fields_mono assms)

lemma decodeArray_mono [partial_function_mono]:
  assumes "\<And>t package v. mono_option (\<lambda>f. sub f t package v)"
  shows "mono_option (\<lambda>f. decodeArray (sub f) t package v)"
  unfolding decodeArray_def
proof (rule tbind_mono)
  fix x v
  show "mono_option (\<lambda>f. (if MAX_ARRAY_ELEMENTS < unat x then tlift rfail
      else tbind (decode_elements (unat x) (sub f t package) []) (\<lambda>arr. tlift (rret (JArray arr)))) v)"
    by (cases "MAX_ARRAY_ELEMENTS < unat x") (auto intro!: partial_function_mono decode_elements_mono assms)
qed (rule tlift_mono)

partial_function (option) decode :: "ParseContext \<Rightarrow> TypeRef \<Rightarrow> string \<Rightarrow> BufferView \<Rightarrow> (Value option \<times> BufferView) option" where
  "decode ctx t package v =
     (if tr_primitive t = TYPE_CUSTOM then
        case findStruct ctx (tr_custom_name t) (type_package t package) of
          None \<Rightarrow> tlift rfail v
        | Some structDef \<Rightarrow> decodeStruct (decode ctx) structDef (type_package t package) v
      else if tr_primitive t = TYPE_ARRAY then
        case tr_element_type t of
          None \<Rightarrow> tlift rfail v
        | Some elementType \<Rightarrow> decodeArray (decode ctx) elementType package v
      else tlift (decodePrimitive (tr_primitive t)) v)"

definition reading_buffer :: "'a reading \<Rightarrow> Buffer \<Rightarrow> ('a option \<times> Buffer) option" where
  "reading_buffer p b = map_option (\<lambda>(r, v). (r, b\<lparr>b_read_pos := v_pos v\<rparr>)) (p (Buffer_view b))"

definition decodeFromBuffer :: "ParseContext \<Rightarrow> TypeRef \<Rightarrow> string \<Rightarrow> Buffer \<Rightarrow> (Value option \<times> Buffer) option" where
  "decodeFromBuffer ctx t package = reading_buffer (decode ctx t package)"

definition decodeTopicFromBuffer :: "ParseContext \<Rightarrow> TopicDef \<Rightarrow> string \<Rightarrow> Buffer \<Rightarrow> (Value option \<times> Buffer) option" where
  "decodeTopicFromBuffer ctx topic package =
     reading_buffer (decodeStruct (decode ctx) \<lparr>sd_name = td_name topic, sd_fields = td_fields topic\<rparr> package)"

subsection \<open>Types\<close>

text \<open>
  The integer a number is; and the values of a primitive type. Writing asks for finite floating-point numbers,
  which reading need not give.
\<close>

fun json_int :: "Value \<Rightarrow> int option" where
  "json_int (JInt n) = Some (sint n)"
| "json_int (JUint n) = Some (uint n)"
| "json_int (JFp x) = (if double_isfinite x \<and> double_integral x then Some (double_trunc x) else None)"
| "json_int _ = None"

definition int_between :: "int \<Rightarrow> int \<Rightarrow> Value \<Rightarrow> bool" where
  "int_between lo hi v \<longleftrightarrow> (case json_int v of None \<Rightarrow> False | Some i \<Rightarrow> lo \<le> i \<and> i \<le> hi)"

fun primitive_value :: "bool \<Rightarrow> PrimitiveType \<Rightarrow> Value \<Rightarrow> bool" where
  "primitive_value fin TYPE_BOOL v \<longleftrightarrow> (\<exists>b. v = JBool b)"
| "primitive_value fin TYPE_INT8 v \<longleftrightarrow> int_between (- (2 ^ 7)) (2 ^ 7 - 1) v"
| "primitive_value fin TYPE_UINT8 v \<longleftrightarrow> int_between 0 (2 ^ 8 - 1) v"
| "primitive_value fin TYPE_INT16 v \<longleftrightarrow> int_between (- (2 ^ 15)) (2 ^ 15 - 1) v"
| "primitive_value fin TYPE_UINT16 v \<longleftrightarrow> int_between 0 (2 ^ 16 - 1) v"
| "primitive_value fin TYPE_INT32 v \<longleftrightarrow> int_between (- (2 ^ 31)) (2 ^ 31 - 1) v"
| "primitive_value fin TYPE_UINT32 v \<longleftrightarrow> int_between 0 (2 ^ 32 - 1) v"
| "primitive_value fin TYPE_INT64 v \<longleftrightarrow> int_between (- (2 ^ 63)) (2 ^ 63 - 1) v"
| "primitive_value fin TYPE_UINT64 v \<longleftrightarrow> int_between 0 (2 ^ 64 - 1) v"
| "primitive_value fin TYPE_FLOAT32 v \<longleftrightarrow> isNumber v \<and> (fin \<longrightarrow> double_isfinite (asNumber v))"
| "primitive_value fin TYPE_FLOAT64 v \<longleftrightarrow> isNumber v \<and> (fin \<longrightarrow> double_isfinite (asNumber v))"
| "primitive_value fin TYPE_STRING v \<longleftrightarrow> (\<exists>s. v = JString s)"
| "primitive_value fin _ v \<longleftrightarrow> False"

inductive has_type :: "ParseContext \<Rightarrow> bool \<Rightarrow> TypeRef \<Rightarrow> string \<Rightarrow> Value \<Rightarrow> bool" for ctx fin where
  has_primitive:
    "tr_primitive t \<noteq> TYPE_CUSTOM \<Longrightarrow> tr_primitive t \<noteq> TYPE_ARRAY \<Longrightarrow> primitive_value fin (tr_primitive t) v \<Longrightarrow>
     has_type ctx fin t package v"
| has_struct:
    "tr_primitive t = TYPE_CUSTOM \<Longrightarrow> findStruct ctx (tr_custom_name t) (type_package t package) = Some sd \<Longrightarrow>
     (\<And>f. f \<in> set (sd_fields sd) \<Longrightarrow> \<exists>v. map_of obj (fd_name f) = Some v \<and>
        has_type ctx fin (fd_type f) (type_package (fd_type f) (type_package t package)) v) \<Longrightarrow>
     has_type ctx fin t package (JObject obj)"
| has_array:
    "tr_primitive t = TYPE_ARRAY \<Longrightarrow> tr_element_type t = Some et \<Longrightarrow>
     (\<And>v. v \<in> set vs \<Longrightarrow> has_type ctx fin et package v) \<Longrightarrow> has_type ctx fin t package (JArray vs)"

inductive_cases has_typeE: "has_type ctx fin t package v"

lemma fraction_pos: "double_fraction x = (n, d) \<Longrightarrow> 0 < d"
  by (auto simp: double_fraction_def fp_fraction_def Let_def)

lemma integral_compare:
  assumes "double_integral x"
  shows "double_less_int x j \<longleftrightarrow> double_trunc x < j" "int_less_double j x \<longleftrightarrow> j < double_trunc x"
proof -
  obtain n d where nd: "double_fraction x = (n, d)" by fastforce
  obtain q where q: "n = d * q" using assms nd by (auto simp: double_integral_def dvd_def)
  have d: "0 < int d" using fraction_pos [OF nd] by simp
  let ?s = "if double_negative x then - 1 else 1 :: int"
  have tr: "double_trunc x = ?s * int q" using d by (simp add: double_trunc_def nd q)
  have n: "(if double_negative x then - int n else int n) = ?s * int q * int d" by (simp add: q)
  show "double_less_int x j \<longleftrightarrow> double_trunc x < j" "int_less_double j x \<longleftrightarrow> j < double_trunc x"
    unfolding double_less_int_def int_less_double_def nd case_prod_conv n tr using d by (simp_all only: mult_less_cancel_right_pos)
qed

lemma int64_bounds: "\<bar>sint (n :: u64)\<bar> < 2 ^ 64" "\<bar>uint (n :: u64)\<bar> < 2 ^ 64"
  using sint_range_size [of n] uint_lt2p [of n] by (auto simp: word_size)

lemma checkIntegerRange_iff:
  assumes "\<bar>lo\<bar> < 2 ^ 53" "\<bar>hi\<bar> < 2 ^ 53"
  shows "checkIntegerRange v lo hi \<longleftrightarrow> int_between lo hi v"
  using assms double_of_int_compare [OF int64_bounds(1)] double_of_int_compare [OF int64_bounds(2)]
  by (cases v) (auto simp: checkIntegerRange_def checkIntegral_def int_between_def integral_compare)

lemma finite_number: "json_int v = Some i \<Longrightarrow> checkFiniteNumber v"
  using double_of_int_compare(1) [OF int64_bounds(1), of 0] double_of_int_compare(1) [OF int64_bounds(2), of 0]
  by (cases v) (auto simp: checkFiniteNumber_def split: if_splits)

lemma as_int_word: "json_int v = Some i \<Longrightarrow> asInt64 v = of_int i" "json_int v = Some i \<Longrightarrow> asUint64 v = of_int i"
  by (cases v; auto split: if_splits)+

text \<open>What a write stores when its result is not used.\<close>

definition puts :: "writer \<Rightarrow> bytes \<Rightarrow> bool" where
  "puts w bs \<longleftrightarrow>
     (\<forall>alloc b r b'. alloc_ok alloc \<longrightarrow> Buffer_wf b \<longrightarrow> w alloc b = (r, b') \<longrightarrow>
        Buffer_wf b' \<and> (b_write_failed b \<longrightarrow> b_write_failed b') \<and> b_read_pos b' = b_read_pos b \<and>
        (\<not> b_write_failed b' \<longrightarrow> r \<and> Buffer_content b' = Buffer_content b @ bs)) \<and>
     (\<forall>alloc b. alloc_total alloc \<longrightarrow> Buffer_wf b \<longrightarrow> \<not> b_write_failed b \<longrightarrow> b_write_pos b + length bs \<le> 2 ^ 63 \<longrightarrow>
        \<not> b_write_failed (snd (w alloc b)))"

text \<open>A write that fails marks the buffer.\<close>

definition marks :: "writer \<Rightarrow> bool" where
  "marks w \<longleftrightarrow> (\<forall>alloc b b'. alloc_ok alloc \<longrightarrow> Buffer_wf b \<longrightarrow> w alloc b = (False, b') \<longrightarrow> b_write_failed b')"

definition accepts :: "writer \<Rightarrow> bool \<Rightarrow> bool" where
  "accepts w c \<longleftrightarrow> (\<forall>alloc b. fst (w alloc b) \<longleftrightarrow> c)"

lemma accepts_simps [simp]: "accepts (put w) True" "accepts wreject False" "accepts wskip True"
  by (simp_all add: accepts_def put_def wreject_def wskip_def)

lemma accepts_if: "accepts (if c then wreject else put w) (\<not> c)"
  by (simp add: accepts_def put_def wreject_def)

lemma accepts_wthen: "accepts w1 a \<Longrightarrow> accepts w2 b \<Longrightarrow> accepts (wthen w1 w2) (a \<and> b)"
  by (auto simp: accepts_def wthen_def split: prod.split bool.split) (metis fst_conv)+

lemma accepts_wseq:
  assumes "\<And>x. x \<in> set xs \<Longrightarrow> accepts (w x) (P x)"
  shows "accepts (wseq (map w xs)) (\<forall>x \<in> set xs. P x)"
  using assms by (induction xs) (auto dest: accepts_wthen)

lemma int_between_uint: "int_between 0 (2 ^ 64 - 1) (JUint n)" "int_between (- (2 ^ 63)) (2 ^ 63 - 1) (JInt n)"
  using uint_lt2p [of n] sint_range_size [of n] by (auto simp: int_between_def word_size)

theorem encodePrimitive_typed: "accepts (encodePrimitive p v) (primitive_value True p v)"
proof (cases p)
  case TYPE_BOOL
  then show ?thesis by (cases v) simp_all
next
  case TYPE_STRING
  then show ?thesis by (cases v) simp_all
next
  case TYPE_INT64
  have le: "\<not> 0x7FFFFFFFFFFFFFFF < n \<longleftrightarrow> uint n \<le> 2 ^ 63 - 1" for n :: u64 by (simp add: word_less_def not_less)
  show ?thesis
  proof (cases v)
    case (JUint n)
    have "- (2 ^ 63) \<le> uint n" by (rule order_trans [OF _ unsigned_greater_eq]) simp
    then have "primitive_value True p v \<longleftrightarrow> \<not> 0x7FFFFFFFFFFFFFFF < n"
      unfolding le by (simp add: TYPE_INT64 JUint int_between_def)
    then show ?thesis using TYPE_INT64 JUint finite_number [of v] by (simp add: accepts_if)
  next
    case (JFp x)
    then show ?thesis using TYPE_INT64
      by (auto simp: accepts_if int_between_def checkFiniteNumber_def checkIntegerRangeSafe_def checkIntegral_def integral_compare)
  qed (use TYPE_INT64 finite_number [of v] int_between_uint in \<open>auto simp: checkFiniteNumber_def int_between_def\<close>)
next
  case TYPE_UINT64
  show ?thesis
  proof (cases v)
    case (JInt n)
    then show ?thesis using TYPE_UINT64 sint_range_size [of n] finite_number [of v]
      by (auto simp: int_between_def word_size)
  next
    case (JFp x)
    then show ?thesis using TYPE_UINT64
      by (auto simp: accepts_if int_between_def checkFiniteNumber_def checkIntegerRangeSafe_def checkIntegral_def integral_compare)
  qed (use TYPE_UINT64 finite_number [of v] int_between_uint in \<open>auto simp: checkFiniteNumber_def int_between_def\<close>)
qed (auto simp: checkIntegerRange_iff checkFiniteNumber_def accepts_def wreject_def put_def)

text \<open>Writing succeeds for exactly the values that have the type, also when memory is short.\<close>

lemma has_type_struct_iff:
  assumes "tr_primitive t = TYPE_CUSTOM" "findStruct ctx (tr_custom_name t) (type_package t package) = Some sd"
  shows "has_type ctx fin t package (JObject obj) \<longleftrightarrow>
    (\<forall>f \<in> set (sd_fields sd). \<exists>v. map_of obj (fd_name f) = Some v \<and>
       has_type ctx fin (fd_type f) (type_package (fd_type f) (type_package t package)) v)"
  using assms by (auto elim: has_typeE intro: has_struct)

lemma has_type_array_iff:
  assumes "tr_primitive t = TYPE_ARRAY" "tr_element_type t = Some et"
  shows "has_type ctx fin t package (JArray vs) \<longleftrightarrow> (\<forall>v \<in> set vs. has_type ctx fin et package v)"
  using assms by (auto elim: has_typeE intro: has_array)

theorem encodeToBuffer_typed: "accepts (encodeToBuffer ctx t package v) (has_type ctx True t package v)"
proof (induction ctx t package v rule: encodeToBuffer.induct)
  case (1 ctx t package v)
  consider (struct) "tr_primitive t = TYPE_CUSTOM" | (array) "tr_primitive t = TYPE_ARRAY"
    | (prim) "tr_primitive t \<noteq> TYPE_CUSTOM" "tr_primitive t \<noteq> TYPE_ARRAY" by blast
  then show ?case
  proof cases
    case struct
    show ?thesis
    proof (cases "findStruct ctx (tr_custom_name t) (type_package t package)")
      case None
      then have "\<not> has_type ctx True t package v" using struct by (auto elim: has_typeE)
      then show ?thesis using None struct by (simp add: encodeToBuffer.simps [of ctx t])
    next
      case (Some sd)
      show ?thesis
      proof (cases "\<exists>obj. v = JObject obj")
        case True
        then obtain obj where v: "v = JObject obj" by blast
        let ?w = "\<lambda>f. case map_of obj (fd_name f) of None \<Rightarrow> wreject
            | Some x \<Rightarrow> encodeToBuffer ctx (fd_type f) (type_package (fd_type f) (type_package t package)) x"
        have "accepts (?w f) (\<exists>x. map_of obj (fd_name f) = Some x \<and>
            has_type ctx True (fd_type f) (type_package (fd_type f) (type_package t package)) x)" if "f \<in> set (sd_fields sd)" for f
          using "1.IH"(1) [OF struct refl Some v that] by (cases "map_of obj (fd_name f)") simp_all
        from accepts_wseq [OF this] show ?thesis
          by (simp add: encodeToBuffer.simps [of ctx t] struct Some v encodeStruct_def has_type_struct_iff [OF struct Some])
      next
        case False
        then have "\<not> has_type ctx True t package v" using struct by (auto elim: has_typeE)
        then show ?thesis using False Some struct by (cases v) (simp_all add: encodeToBuffer.simps [of ctx t] encodeStruct_def)
      qed
    qed
  next
    case array
    then have "tr_primitive t \<noteq> TYPE_CUSTOM" by simp
    show ?thesis
    proof (cases "\<exists>et vs. tr_element_type t = Some et \<and> v = JArray vs")
      case True
      then obtain et vs where et: "tr_element_type t = Some et" and v: "v = JArray vs" by blast
      have "accepts (encodeToBuffer ctx et package x) (has_type ctx True et package x)" if "x \<in> set vs" for x
        using "1.IH"(2) [OF \<open>tr_primitive t \<noteq> TYPE_CUSTOM\<close> array et v that] .
      then have "accepts (wseq (map (encodeToBuffer ctx et package) vs)) (\<forall>x \<in> set vs. has_type ctx True et package x)"
        by (rule accepts_wseq)
      from accepts_wthen [OF accepts_simps(1) this] show ?thesis
        by (simp add: encodeToBuffer.simps [of ctx t] array et v encodeArray_def has_type_array_iff [OF array et])
    next
      case False
      then have "\<not> has_type ctx True t package v" using array by (auto elim: has_typeE)
      then show ?thesis using False array
        by (cases "tr_element_type t"; cases v) (simp_all add: encodeToBuffer.simps [of ctx t] encodeArray_def)
    qed
  next
    case prim
    then have "has_type ctx True t package v \<longleftrightarrow> primitive_value True (tr_primitive t) v" by (auto elim: has_typeE intro: has_primitive)
    then show ?thesis using prim encodePrimitive_typed by (simp add: encodeToBuffer.simps [of ctx t])
  qed
qed

subsection \<open>What is written is read back\<close>

text \<open>The value that is read: integers of up to 32 bits come back as doubles, fields a struct does not have are gone.\<close>

definition the_int :: "Value \<Rightarrow> int" where "the_int v = the (json_int v)"

fun primitive_image :: "PrimitiveType \<Rightarrow> Value \<Rightarrow> Value" where
  "primitive_image TYPE_BOOL v = v"
| "primitive_image TYPE_STRING v = v"
| "primitive_image TYPE_INT64 v = JInt (of_int (the_int v))"
| "primitive_image TYPE_UINT64 v = JUint (of_int (the_int v))"
| "primitive_image TYPE_FLOAT32 v = JFp (double_of_float (float_of_double (asNumber v)))"
| "primitive_image TYPE_FLOAT64 v = JFp (asNumber v)"
| "primitive_image _ v = JFp (double_of_int (the_int v))"

function wire_image :: "ParseContext \<Rightarrow> TypeRef \<Rightarrow> string \<Rightarrow> Value \<Rightarrow> Value" where
  "wire_image ctx t package json =
     (if tr_primitive t = TYPE_CUSTOM then
        (case findStruct ctx (tr_custom_name t) (type_package t package) of
          None \<Rightarrow> json
        | Some sd \<Rightarrow>
            (case json of
               JObject obj \<Rightarrow>
                 JObject (fold (\<lambda>f r. case map_of obj (fd_name f) of None \<Rightarrow> r
                   | Some v \<Rightarrow> obj_set (fd_name f) (wire_image ctx (fd_type f) (type_package (fd_type f) (type_package t package)) v) r)
                   (sd_fields sd) [])
             | _ \<Rightarrow> json))
      else if tr_primitive t = TYPE_ARRAY then
        (case tr_element_type t of
          None \<Rightarrow> json
        | Some et \<Rightarrow> (case json of JArray vs \<Rightarrow> JArray (map (wire_image ctx et package) vs) | _ \<Rightarrow> json))
      else primitive_image (tr_primitive t) json)"
  by pat_completeness auto
termination
  by (relation "measure (\<lambda>(_, _, _, json). size json)") (auto dest: size_member size_element simp del: Value.size)

declare wire_image.simps [simp del]

text \<open>The limits of the wire: strings with a 32-bit length, arrays within the limit of the reader.\<close>

primrec json_sizes :: "Value \<Rightarrow> bool" where
  "json_sizes JNull = True"
| "json_sizes (JBool b) = True"
| "json_sizes (JFp x) = True"
| "json_sizes (JInt n) = True"
| "json_sizes (JUint n) = True"
| "json_sizes (JString s) = fits_u32 (length s)"
| "json_sizes (JArray vs) = (length vs \<le> MAX_ARRAY_ELEMENTS \<and> list_all (\<lambda>b. b) (map json_sizes vs))"
| "json_sizes (JObject ps) = list_all (\<lambda>p. snd p) (map (map_prod (\<lambda>k. k) json_sizes) ps)"

lemma json_sizes_simps [simp]:
  "json_sizes (JArray vs) \<longleftrightarrow> length vs \<le> MAX_ARRAY_ELEMENTS \<and> list_all json_sizes vs"
  "json_sizes (JObject ps) \<longleftrightarrow> list_all (\<lambda>p. json_sizes (snd p)) ps"
  by (auto simp: list.pred_map comp_def list_all_iff)

declare json_sizes.simps(7,8) [simp del]

definition treads :: "'a reading \<Rightarrow> bytes \<Rightarrow> 'a \<Rightarrow> bool" where
  "treads p bs x \<longleftrightarrow> (\<forall>v. view_ok v \<longrightarrow> length bs \<le> v_length v - v_pos v \<longrightarrow>
     mem_get (v_data v) (v_pos v) (length bs) = bs \<longrightarrow>
     p v = Some (Some x, v\<lparr>v_pos := v_pos v + length bs\<rparr>))"

lemma treads_lift: "parses p bs x \<Longrightarrow> treads (tlift p) bs x"
  by (simp add: treads_def parses_def tlift_def)

lemma treads_bind:
  assumes "treads p bs x" "treads (f x) cs y"
  shows "treads (tbind p f) (bs @ cs) y"
  unfolding treads_def
proof (intro allI impI)
  fix v
  assume v: "view_ok v" "length (bs @ cs) \<le> v_length v - v_pos v"
    "mem_get (v_data v) (v_pos v) (length (bs @ cs)) = bs @ cs"
  then have len: "v_pos v + (length bs + length cs) \<le> length (v_data v)" by (auto simp: view_ok_def)
  note m = mem_get_appendD [OF v(3) [unfolded length_append] len]
  let ?v1 = "v\<lparr>v_pos := v_pos v + length bs\<rparr>"
  have "p v = Some (Some x, ?v1)" using assms(1) [unfolded treads_def, rule_format, of v] v m(1) by simp
  moreover have "view_ok ?v1" "length cs \<le> v_length ?v1 - v_pos ?v1" using v by (auto simp: view_ok_def)
  then have "f x ?v1 = Some (Some y, ?v1\<lparr>v_pos := v_pos ?v1 + length cs\<rparr>)"
    using assms(2) [unfolded treads_def, rule_format, of ?v1] m(2) by simp
  ultimately show "tbind p f v = Some (Some y, v\<lparr>v_pos := v_pos v + length (bs @ cs)\<rparr>)"
    by (simp add: tbind_def add.assoc)
qed

lemma treads_ret: "treads (tlift (rret x)) [] x"
  by (rule treads_lift) simp

lemma treads_bind_ret: "treads p bs x \<Longrightarrow> treads (tbind p (\<lambda>x. tlift (rret (f x)))) bs (f x)"
  using treads_bind [of p bs x _ "[]", OF _ treads_ret] by simp

lemma puts_wskip: "puts wskip []"
  by (auto simp: puts_def wskip_def)

lemma putsD:
  assumes "puts w bs" "alloc_ok alloc" "Buffer_wf b" "w alloc b = (r, b')"
  shows "Buffer_wf b'" "b_write_failed b \<Longrightarrow> b_write_failed b'" "b_read_pos b' = b_read_pos b"
    "\<not> b_write_failed b' \<Longrightarrow> r" "\<not> b_write_failed b' \<Longrightarrow> Buffer_content b' = Buffer_content b @ bs"
  using assms(1) [unfolded puts_def, THEN conjunct1, rule_format, OF assms(2-4)] by auto

lemma puts_total:
  "puts w bs \<Longrightarrow> alloc_total alloc \<Longrightarrow> Buffer_wf b \<Longrightarrow> \<not> b_write_failed b \<Longrightarrow> b_write_pos b + length bs \<le> 2 ^ 63 \<Longrightarrow>
     \<not> b_write_failed (snd (w alloc b))"
  by (auto simp: puts_def)

lemma puts_wthen:
  assumes "puts w1 bs" "puts w2 cs"
  shows "puts (wthen w1 w2) (bs @ cs)"
  unfolding puts_def
proof (intro conjI allI impI)
  fix alloc b r b'
  assume a: "alloc_ok alloc" "Buffer_wf b" "wthen w1 w2 alloc b = (r, b')"
  obtain r1 b1 where 1: "w1 alloc b = (r1, b1)" by force
  note p1 = putsD [OF assms(1) a(1,2) 1]
  show "Buffer_wf b'" "b_write_failed b \<Longrightarrow> b_write_failed b'" "b_read_pos b' = b_read_pos b"
    "\<not> b_write_failed b' \<Longrightarrow> r" "\<not> b_write_failed b' \<Longrightarrow> Buffer_content b' = Buffer_content b @ bs @ cs"
    using p1 a(3) 1 putsD [OF assms(2) a(1) p1(1), of r b'] by (auto simp: wthen_def split: bool.splits)
next
  fix alloc b
  assume a: "alloc_total alloc" "Buffer_wf b" "\<not> b_write_failed b" "b_write_pos b + length (bs @ cs) \<le> 2 ^ 63"
  have al: "alloc_ok alloc" using a(1) by (simp add: alloc_total_def)
  obtain r1 b1 where 1: "w1 alloc b = (r1, b1)" by force
  have f1: "\<not> b_write_failed b1" using puts_total [OF assms(1) a(1-3)] a(4) 1 by simp
  note p1 = putsD [OF assms(1) al a(2) 1]
  have "b_write_pos b1 = b_write_pos b + length bs" using p1(1,5) f1 a(2) by (metis length_Buffer_content length_append)
  then show "\<not> b_write_failed (snd (wthen w1 w2 alloc b))"
    using puts_total [OF assms(2) a(1) p1(1) f1] a(4) p1(4) f1 1 by (simp add: wthen_def)
qed

lemma puts_put: "emits w bs \<Longrightarrow> marks w \<Longrightarrow> puts (put w) bs"
  unfolding puts_def
proof (intro conjI allI impI)
  assume e: "emits w bs" and m: "marks w"
  then have em: "appends w bs" "completes w (length bs)" by (simp_all add: emits_def)
  {
    fix alloc b r b'
    assume a: "alloc_ok alloc" "Buffer_wf b" "put w alloc b = (r, b')"
    obtain ok where w: "w alloc b = (ok, b')" using a(3) by (metis put_def prod.collapse prod.inject)
    note p = appendsD [OF em(1) a(1,2) w]
    show "Buffer_wf b'" "b_write_failed b \<Longrightarrow> b_write_failed b'" "b_read_pos b' = b_read_pos b" by (rule p(1), erule p(3), rule p(2))
    show r using a(3) by (simp add: put_def)
    show "Buffer_content b' = Buffer_content b @ bs" if "\<not> b_write_failed b'"
      using p(4) w m [unfolded marks_def, rule_format, OF a(1,2)] that by (cases ok) auto
  }
  fix alloc b
  assume a: "alloc_total alloc" "Buffer_wf b" "\<not> b_write_failed b" "b_write_pos b + length bs \<le> 2 ^ 63"
  obtain r b' where eq: "w alloc b = (r, b')" by force
  have r: r using completesD [OF em(2) a] eq by simp
  have "alloc_ok alloc" using a(1) by (simp add: alloc_total_def)
  from appendsD(5) [OF em(1) this a(2) eq r] a(3) eq show "\<not> b_write_failed (snd (put w alloc b))" by (simp add: put_def)
qed

lemma marks_stores: "marks (Buffer_stores bs)"
  unfolding marks_def
proof (intro allI impI)
  fix alloc b b' assume a: "alloc_ok alloc" "Buffer_wf b" and w: "Buffer_stores bs alloc b = (False, b')"
  then have "Buffer_ensureCapacity alloc (length bs) b = (False, b')" by (auto simp: Buffer_stores_def split: prod.splits bool.splits)
  from Buffer_ensureCapacity_realloc(2) [OF a this] show "b_write_failed b'" by simp
qed

lemma marks_writes: "marks (writeBool c)" "marks (writeUint8 x8)" "marks (writeUint16 x16)" "marks (writeUint32 x32)" "marks (writeUint64 x64)"
  by (simp_all add: writeBool_def writeUint8_def writeUint16_def writeUint32_def writeUint64_def marks_stores)

lemma marks_writeString: "marks (writeString s)"
  unfolding marks_def writeString_def using writeBytes_atomic by fastforce

text \<open>A writer and a reader that agree on the bytes.\<close>

definition agree :: "writer \<Rightarrow> 'a reading \<Rightarrow> 'a \<Rightarrow> bool" where
  "agree w p x \<longleftrightarrow> (\<exists>bs. puts w bs \<and> treads p bs x)"

lemma agree_codec: "emits w bs \<Longrightarrow> parses p bs x \<Longrightarrow> marks w \<Longrightarrow> agree (put w) (tlift (rbind p (\<lambda>x. rret (f x)))) (f x)"
  unfolding agree_def by (intro exI conjI) (erule (1) puts_put, erule treads_lift [OF parses_rbind_rret])

lemma int8_as_uint8: "writeInt8 = writeUint8" "tryReadInt8 = tryReadUint8"
  by (auto simp: fun_eq_iff writeInt8_def writeUint8_def tryReadInt8_def tryReadUint8_def view_read_def readInt8_def
      split: prod.split option.split)

lemmas signed_as_unsigned = int8_as_uint8
  writeInt16_def [abs_def] writeInt32_def [abs_def] writeInt64_def [abs_def] writeFloat32_def [abs_def] writeFloat64_def [abs_def]
  tryReadInt16_def [unfolded readInt16_def, folded tryReadUint16_def] tryReadInt32_def [unfolded readInt32_def, folded tryReadUint32_def]
  tryReadInt64_def [unfolded readInt64_def, folded tryReadUint64_def]
  tryReadFloat32_def [unfolded readFloat32_def, folded tryReadUint32_def] tryReadFloat64_def [unfolded readFloat64_def, folded tryReadUint64_def]

lemma int_betweenE: "int_between lo hi v \<Longrightarrow> json_int v = Some (the_int v) \<and> lo \<le> the_int v \<and> the_int v \<le> hi"
  by (auto simp: int_between_def the_int_def split: option.splits)

lemma ucast_of_int: "LENGTH('a) \<le> 64 \<Longrightarrow> (ucast (of_int i :: u64) :: 'a::len word) = of_int i"
  by (rule bit_word_eqI) (auto simp: bit_ucast_iff bit_word_of_int_iff)

lemma sint_of_int_range: "- (2 ^ (LENGTH('a) - 1)) \<le> i \<Longrightarrow> i \<le> 2 ^ (LENGTH('a) - 1) - 1 \<Longrightarrow> sint (of_int i :: 'a::len word) = i"
  by (simp add: signed_of_int signed_take_bit_int_eq_self)

lemma uint_of_int_range: "0 \<le> i \<Longrightarrow> i \<le> 2 ^ LENGTH('a) - 1 \<Longrightarrow> uint (of_int i :: 'a::len word) = i"
  by (simp add: unsigned_of_int take_bit_int_eq_self)

lemma agree_primitive:
  assumes "primitive_value True p v" "json_sizes v"
  shows "agree (encodePrimitive p v) (tlift (decodePrimitive p)) (primitive_image p v)"
proof -
  note codec = agree_codec [OF u8.wr_emits [OF TrueI] u8.rd_parses [OF TrueI] marks_writes(2)] agree_codec [OF u16.wr_emits [OF TrueI] u16.rd_parses [OF TrueI] marks_writes(3)]
    agree_codec [OF u32.wr_emits [OF TrueI] u32.rd_parses [OF TrueI] marks_writes(4)] agree_codec [OF u64.wr_emits [OF TrueI] u64.rd_parses [OF TrueI] marks_writes(5)]
  note r = checkIntegerRange_iff ucast_of_int signed_as_unsigned
  show ?thesis
  proof (cases p)
    case TYPE_BOOL
    then show ?thesis using assms agree_codec [OF bool.wr_emits [OF TrueI] bool.rd_parses [OF TrueI] marks_writes(1), of _ JBool] by auto
  next
    case TYPE_STRING
    then show ?thesis using assms agree_codec [OF str.wr_emits str.rd_parses marks_writeString, of _ JString] by auto
  next
    case TYPE_INT8
    then have i: "int_between (- (2 ^ 7)) (2 ^ 7 - 1) v" using assms by simp
    then show ?thesis using codec(1) [of "of_int (the_int v)" "\<lambda>x. JFp (double_of_int (sint x))"] int_betweenE [OF i]
      by (simp add: TYPE_INT8 r as_int_word sint_of_int_range)
  next
    case TYPE_UINT8
    then have i: "int_between 0 (2 ^ 8 - 1) v" using assms by simp
    then show ?thesis using codec(1) [of "of_int (the_int v)" "\<lambda>x. JFp (double_of_int (uint x))"] int_betweenE [OF i]
      by (simp add: TYPE_UINT8 r as_int_word uint_of_int_range)
  next
    case TYPE_INT16
    then have i: "int_between (- (2 ^ 15)) (2 ^ 15 - 1) v" using assms by simp
    then show ?thesis using codec(2) [of "of_int (the_int v)" "\<lambda>x. JFp (double_of_int (sint x))"] int_betweenE [OF i]
      by (simp add: TYPE_INT16 r as_int_word sint_of_int_range)
  next
    case TYPE_UINT16
    then have i: "int_between 0 (2 ^ 16 - 1) v" using assms by simp
    then show ?thesis using codec(2) [of "of_int (the_int v)" "\<lambda>x. JFp (double_of_int (uint x))"] int_betweenE [OF i]
      by (simp add: TYPE_UINT16 r as_int_word uint_of_int_range)
  next
    case TYPE_INT32
    then have i: "int_between (- (2 ^ 31)) (2 ^ 31 - 1) v" using assms by simp
    then show ?thesis using codec(3) [of "of_int (the_int v)" "\<lambda>x. JFp (double_of_int (sint x))"] int_betweenE [OF i]
      by (simp add: TYPE_INT32 r as_int_word sint_of_int_range)
  next
    case TYPE_UINT32
    then have i: "int_between 0 (2 ^ 32 - 1) v" using assms by simp
    then show ?thesis using codec(3) [of "of_int (the_int v)" "\<lambda>x. JFp (double_of_int (uint x))"] int_betweenE [OF i]
      by (simp add: TYPE_UINT32 r as_int_word uint_of_int_range)
  next
    case TYPE_INT64
    have "encodePrimitive p v = put (writeInt64 (asInt64 v))"
      using assms(1) encodePrimitive_typed [of p v] by (cases v) (auto simp: TYPE_INT64 accepts_def wreject_def split: if_splits)
    then show ?thesis using codec(4) [of "of_int (the_int v)" JInt] int_betweenE [of "- (2 ^ 63)" "2 ^ 63 - 1" v] assms
      by (simp add: TYPE_INT64 r as_int_word)
  next
    case TYPE_UINT64
    have "encodePrimitive p v = put (writeUint64 (asUint64 v))"
      using assms(1) encodePrimitive_typed [of p v] by (cases v) (auto simp: TYPE_UINT64 accepts_def wreject_def split: if_splits)
    then show ?thesis using codec(4) [of "of_int (the_int v)" JUint] int_betweenE [of 0 "2 ^ 64 - 1" v] assms
      by (simp add: TYPE_UINT64 r as_int_word)
  next
    case TYPE_FLOAT32
    then show ?thesis using codec(3) [of "float_of_double (asNumber v)" "\<lambda>x. JFp (double_of_float x)"] assms
      by (simp add: checkFiniteNumber_def signed_as_unsigned)
  next
    case TYPE_FLOAT64
    then show ?thesis using codec(4) [of "asNumber v" JFp] assms by (simp add: checkFiniteNumber_def signed_as_unsigned)
  qed (use assms in simp_all)
qed

lemma agree_bind: "agree w1 p x \<Longrightarrow> agree w2 (f x) y \<Longrightarrow> agree (wthen w1 w2) (tbind p f) y"
  unfolding agree_def by (elim exE conjE) (intro exI conjI, erule (1) puts_wthen, erule (1) treads_bind)

lemma agree_bind_ret: "agree w p x \<Longrightarrow> agree w (tbind p (\<lambda>x. tlift (rret (f x)))) (f x)"
  unfolding agree_def by (elim exE conjE) (intro exI conjI, assumption, erule treads_bind_ret)

lemma agree_skip: "agree wskip (tlift (rret x)) x"
  unfolding agree_def using puts_wskip treads_ret by fast

lemma decode_cases:
  "tr_primitive t = TYPE_CUSTOM \<Longrightarrow> findStruct ctx (tr_custom_name t) (type_package t package) = Some sd \<Longrightarrow>
     decode ctx t package = decodeStruct (decode ctx) sd (type_package t package)"
  "tr_primitive t = TYPE_ARRAY \<Longrightarrow> tr_element_type t = Some et \<Longrightarrow> decode ctx t package = decodeArray (decode ctx) et package"
  "tr_primitive t \<noteq> TYPE_CUSTOM \<Longrightarrow> tr_primitive t \<noteq> TYPE_ARRAY \<Longrightarrow> decode ctx t package = tlift (decodePrimitive (tr_primitive t))"
  by (simp_all add: fun_eq_iff decode.simps [of ctx t])

lemma agree_fields:
  assumes "\<And>f. f \<in> set fds \<Longrightarrow> \<exists>v. map_of obj (fd_name f) = Some v \<and>
     agree (enc (fd_type f) (type_package (fd_type f) package) v) (rd (fd_type f) (type_package (fd_type f) package))
       (img (fd_type f) (type_package (fd_type f) package) v)"
  shows "agree (wseq (map (\<lambda>f. case map_of obj (fd_name f) of None \<Rightarrow> wreject
       | Some v \<Rightarrow> enc (fd_type f) (type_package (fd_type f) package) v) fds)) (decode_fields rd package fds r)
     (fold (\<lambda>f r. case map_of obj (fd_name f) of None \<Rightarrow> r
       | Some v \<Rightarrow> obj_set (fd_name f) (img (fd_type f) (type_package (fd_type f) package) v) r) fds r)"
  using assms
proof (induction fds arbitrary: r)
  case (Cons f fds)
  obtain v where "map_of obj (fd_name f) = Some v" "agree (enc (fd_type f) (type_package (fd_type f) package) v)
      (rd (fd_type f) (type_package (fd_type f) package)) (img (fd_type f) (type_package (fd_type f) package) v)"
    using Cons.prems [of f] by auto
  with Cons show ?case by (auto intro!: agree_bind)
qed (simp add: agree_skip)

lemma agree_elements:
  assumes "\<And>v. v \<in> set vs \<Longrightarrow> agree (enc v) rd (img v)"
  shows "agree (wseq (map enc vs)) (decode_elements (length vs) rd arr) (arr @ map img vs)"
  using assms
proof (induction vs arbitrary: arr)
  case (Cons v vs)
  then show ?case using Cons.IH [of "arr @ [img v]"] by (auto intro!: agree_bind)
qed (simp add: agree_skip)

theorem agree_typed:
  "has_type ctx True t package v \<Longrightarrow> json_sizes v \<Longrightarrow>
     agree (encodeToBuffer ctx t package v) (decode ctx t package) (wire_image ctx t package v)"
proof (induction t package v rule: has_type.induct)
  case (has_primitive t v package)
  then show ?case using agree_primitive by (simp add: encodeToBuffer.simps [of ctx t] wire_image.simps [of ctx t] decode_cases)
next
  case (has_struct t package sd obj)
  let ?pkg = "type_package t package"
  have "agree (wseq (map (\<lambda>f. case map_of obj (fd_name f) of None \<Rightarrow> wreject
       | Some v \<Rightarrow> encodeToBuffer ctx (fd_type f) (type_package (fd_type f) ?pkg) v) (sd_fields sd)))
     (decode_fields (decode ctx) ?pkg (sd_fields sd) [])
     (fold (\<lambda>f r. case map_of obj (fd_name f) of None \<Rightarrow> r
       | Some v \<Rightarrow> obj_set (fd_name f) (wire_image ctx (fd_type f) (type_package (fd_type f) ?pkg) v) r) (sd_fields sd) [])"
  proof (rule agree_fields)
    fix f assume "f \<in> set (sd_fields sd)"
    then obtain v where v: "map_of obj (fd_name f) = Some v"
      "json_sizes v \<Longrightarrow> agree (encodeToBuffer ctx (fd_type f) (type_package (fd_type f) ?pkg) v)
         (decode ctx (fd_type f) (type_package (fd_type f) ?pkg)) (wire_image ctx (fd_type f) (type_package (fd_type f) ?pkg) v)"
      using has_struct(3) by blast
    moreover have "json_sizes v" using map_of_SomeD [OF v(1)] has_struct.prems by (auto simp: list_all_iff)
    ultimately show "\<exists>v. map_of obj (fd_name f) = Some v \<and> agree (encodeToBuffer ctx (fd_type f) (type_package (fd_type f) ?pkg) v)
         (decode ctx (fd_type f) (type_package (fd_type f) ?pkg)) (wire_image ctx (fd_type f) (type_package (fd_type f) ?pkg) v)"
      by blast
  qed
  then show ?case using has_struct(1,2)
    by (simp add: encodeToBuffer.simps [of ctx t] wire_image.simps [of ctx t] decode_cases encodeStruct_def decodeStruct_def agree_bind_ret)
next
  case (has_array t et vs package)
  have "agree (encodeToBuffer ctx et package v) (decode ctx et package) (wire_image ctx et package v)" if "v \<in> set vs" for v
    using has_array that by (auto simp: list_all_iff)
  then have "agree (wseq (map (encodeToBuffer ctx et package) vs)) (decode_elements (length vs) (decode ctx et package) [])
      ([] @ map (wire_image ctx et package) vs)" by (rule agree_elements)
  from agree_bind_ret [OF this, of JArray]
  have el: "agree (wseq (map (encodeToBuffer ctx et package) vs)) (tbind (decode_elements (length vs) (decode ctx et package) [])
      (\<lambda>arr. tlift (rret (JArray arr)))) (JArray (map (wire_image ctx et package) vs))"
    by simp
  have len: "length vs \<le> MAX_ARRAY_ELEMENTS" using has_array.prems by simp
  then have n: "unat (of_nat (length vs) :: u32) = length vs" by (simp add: MAX_ARRAY_ELEMENTS_def unat_of_nat)
  have "agree (put (writeUint32 (of_nat (length vs)))) (tlift tryReadUint32) (of_nat (length vs))"
    unfolding agree_def using puts_put [OF u32.wr_emits [OF TrueI] marks_writes(4)] treads_lift [OF u32.rd_parses [OF TrueI]] by fast
  then have "agree (encodeArray (encodeToBuffer ctx) (JArray vs) et package) (decodeArray (decode ctx) et package)
      (JArray (map (wire_image ctx et package) vs))"
    unfolding encodeArray_def decodeArray_def using len n el by (auto intro!: agree_bind)
  then show ?case using has_array(1,2) by (simp add: encodeToBuffer.simps [of ctx t] wire_image.simps [of ctx t] decode_cases)
qed

subsection \<open>What is read has the type\<close>

definition distinct_fields :: "ParseContext \<Rightarrow> bool" where
  "distinct_fields ctx \<longleftrightarrow> (\<forall>name package sd. findStruct ctx name package = Some sd \<longrightarrow> distinct (map fd_name (sd_fields sd)))"

lemma tbind_SomeE:
  assumes "tbind p f v = Some (Some y, v')"
  obtains x u where "p v = Some (Some x, u)" "f x u = Some (Some y, v')"
  using assms by (auto simp: tbind_def bind_eq_Some_conv split: option.splits)

lemma decode_elements_typed:
  assumes "\<And>v x v'. sub v = Some (Some x, v') \<Longrightarrow> P x" "decode_elements n sub arr v = Some (Some vs, v')" "\<forall>x \<in> set arr. P x"
  shows "\<forall>x \<in> set vs. P x"
  using assms(2,3)
proof (induction n arbitrary: arr v)
  case (Suc n)
  from Suc.prems(1) obtain x u where "sub v = Some (Some x, u)" "decode_elements n sub (arr @ [x]) u = Some (Some vs, v')"
    by (auto elim: tbind_SomeE)
  then show ?case using Suc.IH [of "arr @ [x]" u] Suc.prems(2) assms(1) by auto
qed (auto simp: tlift_def rret_def)

lemma decode_fields_typed:
  assumes "\<And>t package v x v'. sub t package v = Some (Some x, v') \<Longrightarrow> P t package x"
    "decode_fields sub package fds obj v = Some (Some obj', v')" "distinct (map fd_name fds)"
  shows "(\<forall>f \<in> set fds. \<exists>x. map_of obj' (fd_name f) = Some x \<and> P (fd_type f) (type_package (fd_type f) package) x) \<and>
    (\<forall>k. k \<notin> fd_name ` set fds \<longrightarrow> map_of obj' k = map_of obj k)"
  using assms(2,3)
proof (induction fds arbitrary: obj v)
  case (Cons f fds)
  from Cons.prems(1) obtain x u where x: "sub (fd_type f) (type_package (fd_type f) package) v = Some (Some x, u)"
    and r: "decode_fields sub package fds (obj_set (fd_name f) x obj) u = Some (Some obj', v')"
    by (auto elim: tbind_SomeE)
  from Cons.IH [OF r] Cons.prems(2) assms(1) [OF x] show ?case by (auto simp: obj_set_def map_of_al_upd)
qed (auto simp: tlift_def rret_def)

lemma sint_between: "LENGTH('a) \<le> 32 \<Longrightarrow> int_between (- (2 ^ (LENGTH('a) - 1))) (2 ^ (LENGTH('a) - 1) - 1) (JFp (double_of_int (sint (x :: 'a::len word))))"
proof -
  assume "LENGTH('a) \<le> 32"
  then have "(2::int) ^ (LENGTH('a) - 1) \<le> 2 ^ 31" by (intro power_increasing) simp_all
  moreover have r: "- (2 ^ (LENGTH('a) - 1)) \<le> sint x" "sint x \<le> 2 ^ (LENGTH('a) - 1) - 1"
    using sint_range_size [of x] by (simp_all add: word_size)
  ultimately have "\<bar>sint x\<bar> < 2 ^ 53" by simp
  from double_of_int_exact [OF this] r show ?thesis by (simp add: int_between_def)
qed

lemma uint_between: "LENGTH('a) \<le> 32 \<Longrightarrow> int_between 0 (2 ^ LENGTH('a) - 1) (JFp (double_of_int (uint (x :: 'a::len word))))"
proof -
  assume "LENGTH('a) \<le> 32"
  then have "(2::int) ^ LENGTH('a) \<le> 2 ^ 32" by (intro power_increasing) simp_all
  then have "uint x < 2 ^ 32" using less_le_trans [OF uint_lt2p [of x]] by blast
  then have "\<bar>uint x\<bar> < 2 ^ 53" by simp
  from double_of_int_exact [OF this] uint_lt2p [of x] show ?thesis by (simp add: int_between_def)
qed

lemma rbind_rret_SomeE: "rbind p (\<lambda>x. rret (f x)) v = (Some y, v') \<Longrightarrow> \<exists>x. y = f x"
  by (auto simp: rbind_def rret_def split: prod.splits option.splits)

lemma decodePrimitive_typed: "decodePrimitive p v = (Some x, v') \<Longrightarrow> primitive_value False p x"
proof (cases p)
  case TYPE_INT8
  then show "decodePrimitive p v = (Some x, v') \<Longrightarrow> ?thesis" using sint_between [where ?'a = 8] by (auto dest!: rbind_rret_SomeE)
next
  case TYPE_UINT8
  then show "decodePrimitive p v = (Some x, v') \<Longrightarrow> ?thesis" using uint_between [where ?'a = 8] by (auto dest!: rbind_rret_SomeE)
next
  case TYPE_INT16
  then show "decodePrimitive p v = (Some x, v') \<Longrightarrow> ?thesis" using sint_between [where ?'a = 16] by (auto dest!: rbind_rret_SomeE)
next
  case TYPE_UINT16
  then show "decodePrimitive p v = (Some x, v') \<Longrightarrow> ?thesis" using uint_between [where ?'a = 16] by (auto dest!: rbind_rret_SomeE)
next
  case TYPE_INT32
  then show "decodePrimitive p v = (Some x, v') \<Longrightarrow> ?thesis" using sint_between [where ?'a = 32] by (auto dest!: rbind_rret_SomeE)
next
  case TYPE_UINT32
  then show "decodePrimitive p v = (Some x, v') \<Longrightarrow> ?thesis" using uint_between [where ?'a = 32] by (auto dest!: rbind_rret_SomeE)
next
  case TYPE_INT64
  then show "decodePrimitive p v = (Some x, v') \<Longrightarrow> ?thesis" using int_between_uint(2) by (auto dest!: rbind_rret_SomeE)
next
  case TYPE_UINT64
  then show "decodePrimitive p v = (Some x, v') \<Longrightarrow> ?thesis" using int_between_uint(1) by (auto dest!: rbind_rret_SomeE)
qed (auto dest!: rbind_rret_SomeE simp: rfail_def)

theorem decode_typed:
  assumes "decode ctx t package v = Some (Some x, v')" "distinct_fields ctx"
  shows "has_type ctx False t package x"
proof -
  have "distinct_fields ctx \<longrightarrow> (\<forall>x v'. y = (Some x, v') \<longrightarrow> has_type ctx False t package x)" if "decode ctx t package v = Some y" for ctx t package v y
    using that
  proof (induction ctx t package v y rule: decode.raw_induct [rotated, consumes 1, case_names 1])
    case (1 sub ctx t package v y)
    have IH: "has_type ctx False t package x" if "distinct_fields ctx" "sub ctx t package v = Some (Some x, v')" for t package v x v'
      using 1(1) [OF that(2)] that(1) by blast
    show ?case
    proof (intro impI allI)
      fix x v' assume d: "distinct_fields ctx" and y: "y = (Some x, v')"
      consider (struct) "tr_primitive t = TYPE_CUSTOM" | (array) "tr_primitive t = TYPE_ARRAY"
        | (prim) "tr_primitive t \<noteq> TYPE_CUSTOM" "tr_primitive t \<noteq> TYPE_ARRAY" by blast
      then show "has_type ctx False t package x"
      proof cases
        case struct
        with 1(2) y obtain sd where sd: "findStruct ctx (tr_custom_name t) (type_package t package) = Some sd"
          and dec: "decodeStruct (sub ctx) sd (type_package t package) v = Some (Some x, v')"
          by (auto simp: tlift_def rfail_def split: option.splits)
        then obtain obj u where obj: "decode_fields (sub ctx) (type_package t package) (sd_fields sd) [] v = Some (Some obj, u)"
          and x: "x = JObject obj" by (auto simp: decodeStruct_def tlift_def rret_def elim!: tbind_SomeE)
        have "distinct (map fd_name (sd_fields sd))" using d sd by (auto simp: distinct_fields_def)
        from decode_fields_typed [where P = "has_type ctx False", OF IH [OF d] obj this]
        show ?thesis unfolding x using struct sd by (intro has_struct) auto
      next
        case array
        with 1(2) y obtain et where et: "tr_element_type t = Some et" and dec: "decodeArray (sub ctx) et package v = Some (Some x, v')"
          by (auto simp: tlift_def rfail_def split: option.splits)
        then obtain n vs w u where vs: "decode_elements n (sub ctx et package) [] w = Some (Some vs, u)" and x: "x = JArray vs"
          by (auto simp: decodeArray_def tlift_def rret_def rfail_def elim!: tbind_SomeE split: if_splits)
        from decode_elements_typed [where P = "has_type ctx False et package", OF IH [OF d] vs]
        show ?thesis unfolding x using array et by (intro has_array) auto
      next
        case prim
        then show ?thesis using 1(2) y by (auto simp: tlift_def intro!: has_primitive dest: decodePrimitive_typed)
      qed
    qed
  qed
  with assms show ?thesis by blast
qed

subsection \<open>Reading returns\<close>

text \<open>A struct has a rank above the structs it contains by value; an array has its length in front.\<close>

definition by_value_ranked :: "ParseContext \<Rightarrow> (string \<times> string \<Rightarrow> nat) \<Rightarrow> bool" where
  "by_value_ranked ctx rank \<longleftrightarrow> (\<forall>package name sd. findStruct ctx name package = Some sd \<longrightarrow>
     (\<forall>f \<in> set (sd_fields sd). tr_primitive (fd_type f) = TYPE_CUSTOM \<longrightarrow>
        rank (type_package (fd_type f) package, tr_custom_name (fd_type f)) < rank (package, name)))"

definition type_rank :: "(string \<times> string \<Rightarrow> nat) \<Rightarrow> TypeRef \<Rightarrow> string \<Rightarrow> nat" where
  "type_rank rank t package = (if tr_primitive t = TYPE_CUSTOM then Suc (rank (type_package t package, tr_custom_name t)) else 0)"

definition returns :: "'a reading \<Rightarrow> BufferView \<Rightarrow> bool" where
  "returns p v \<longleftrightarrow> (\<exists>r pos. p v = Some (r, v\<lparr>v_pos := pos\<rparr>) \<and> v_pos v \<le> pos \<and> pos \<le> v_length v)"

lemma returns_lift: "reader_safe p \<Longrightarrow> view_ok v \<Longrightarrow> returns (tlift p) v"
proof -
  assume a: "reader_safe p" "view_ok v"
  obtain r v' where p: "p v = (r, v')" by force
  from reader_safeD [OF a p] have "v' = v\<lparr>v_pos := v_pos v'\<rparr>" "v_pos v \<le> v_pos v'" "v_pos v' \<le> v_length v"
    by (auto simp: view_ok_def intro!: BufferView.equality)
  then show ?thesis unfolding returns_def tlift_def p by metis
qed

lemma returns_bind:
  assumes "returns p v" "view_ok v"
    "\<And>x pos. p v = Some (Some x, v\<lparr>v_pos := pos\<rparr>) \<Longrightarrow> v_pos v \<le> pos \<Longrightarrow> pos \<le> v_length v \<Longrightarrow> returns (f x) (v\<lparr>v_pos := pos\<rparr>)"
  shows "returns (tbind p f) v"
proof -
  obtain r pos where r: "p v = Some (r, v\<lparr>v_pos := pos\<rparr>)" "v_pos v \<le> pos" "pos \<le> v_length v"
    using assms(1) by (auto simp: returns_def)
  show ?thesis
  proof (cases r)
    case (Some x)
    have "returns (f x) (v\<lparr>v_pos := pos\<rparr>)" using assms(3) [of x pos] r Some by simp
    then obtain s pos' where "f x (v\<lparr>v_pos := pos\<rparr>) = Some (s, v\<lparr>v_pos := pos'\<rparr>)" "pos \<le> pos'" "pos' \<le> v_length v"
      by (auto simp: returns_def)
    then show ?thesis using r Some by (auto simp: returns_def tbind_def intro!: exI [of _ pos'])
  qed (use r in \<open>auto simp: returns_def tbind_def\<close>)
qed

lemma view_ok_pos: "view_ok v \<Longrightarrow> pos \<le> v_length v \<Longrightarrow> view_ok (v\<lparr>v_pos := pos\<rparr>)"
  by (simp add: view_ok_def)

lemma returns_fields:
  assumes "\<And>f v. f \<in> set fds \<Longrightarrow> view_ok v \<Longrightarrow> v_length v - v_pos v \<le> n \<Longrightarrow> returns (sub (fd_type f) (type_package (fd_type f) package)) v"
  shows "view_ok v \<Longrightarrow> v_length v - v_pos v \<le> n \<Longrightarrow> returns (decode_fields sub package fds obj) v"
  using assms
proof (induction fds arbitrary: obj v)
  case Nil
  then show ?case by (simp add: returns_lift)
next
  case (Cons f fds)
  show ?case unfolding decode_fields.simps
    by (rule returns_bind [OF Cons.prems(3) Cons.prems(1)])
       (use Cons in \<open>auto intro!: Cons.IH view_ok_pos\<close>)
qed

lemma returns_elements:
  assumes "\<And>v. view_ok v \<Longrightarrow> v_length v - v_pos v \<le> n \<Longrightarrow> returns sub v"
  shows "view_ok v \<Longrightarrow> v_length v - v_pos v \<le> n \<Longrightarrow> returns (decode_elements k sub arr) v"
proof (induction k arbitrary: arr v)
  case 0
  then show ?case by (simp add: returns_lift)
next
  case (Suc k)
  show ?case unfolding decode_elements.simps
    by (rule returns_bind [OF assms Suc.prems(1)]) (use Suc in \<open>auto intro!: Suc.IH view_ok_pos\<close>)
qed

lemma decodePrimitive_safe: "reader_safe (decodePrimitive p)"
  by (cases p) (auto simp: signed_as_unsigned intro!: safe_rbind u8.rd_safe u16.rd_safe u32.rd_safe u64.rd_safe bool.rd_safe str.rd_safe)

lemma read_count_consumes: "view_ok v \<Longrightarrow> tryReadUint32 v = (Some n, v\<lparr>v_pos := pos\<rparr>) \<Longrightarrow> pos = v_pos v + 4 \<and> 4 \<le> v_length v - v_pos v"
  by (auto simp: tryReadUint32_def view_read_def readUint32_def canRead_def view_ok_def split: if_splits) (metis BufferView.ext_inject BufferView.surjective BufferView.update_convs(3))+

lemma type_package_idem [simp]: "type_package t (type_package t package) = type_package t package"
  by (simp add: type_package_def)

theorem decode_returns:
  assumes "by_value_ranked ctx rank"
  shows "view_ok v \<Longrightarrow> returns (decode ctx t package) v"
proof (induction "(v_length v - v_pos v, type_rank rank t package)" arbitrary: t package v
    rule: wf_induct_rule [OF wf_lex_prod [OF wf_less_than wf_less_than]])
  case (1 t package v)
  have IH: "returns (decode ctx t' package') v'"
    if "view_ok v'" "v_length v' - v_pos v' < v_length v - v_pos v \<or>
      v_length v' - v_pos v' = v_length v - v_pos v \<and> type_rank rank t' package' < type_rank rank t package" for t' package' v'
    using 1(1) [of v' t' package'] that by auto
  consider (struct) "tr_primitive t = TYPE_CUSTOM" | (array) "tr_primitive t = TYPE_ARRAY"
    | (prim) "tr_primitive t \<noteq> TYPE_CUSTOM" "tr_primitive t \<noteq> TYPE_ARRAY" by blast
  then show ?case
  proof cases
    case struct
    show ?thesis
    proof (cases "findStruct ctx (tr_custom_name t) (type_package t package)")
      case None
      then have "decode ctx t package = tlift rfail" using struct by (simp add: fun_eq_iff decode.simps [of ctx t])
      then show ?thesis using 1(2) by (simp add: returns_lift)
    next
      case (Some sd)
      have "type_rank rank (fd_type f) (type_package (fd_type f) (type_package t package)) < type_rank rank t package" if "f \<in> set (sd_fields sd)" for f
        using assms [unfolded by_value_ranked_def, rule_format, OF Some that] struct type_package_idem [of "fd_type f"] by (simp add: type_rank_def)
      then have "returns (decode_fields (decode ctx) (type_package t package) (sd_fields sd) []) v"
        using 1(2) by (intro returns_fields [where n = "v_length v - v_pos v"] IH) (auto simp: le_less)
      then show ?thesis unfolding decode_cases(1) [OF struct Some] decodeStruct_def
        by (rule returns_bind [OF _ 1(2)]) (use 1(2) in \<open>auto intro!: returns_lift view_ok_pos\<close>)
    qed
  next
    case array
    show ?thesis
    proof (cases "tr_element_type t")
      case None
      then have "decode ctx t package = tlift rfail" using array by (simp add: fun_eq_iff decode.simps [of ctx t])
      then show ?thesis using 1(2) by (simp add: returns_lift)
    next
      case (Some et)
      show ?thesis unfolding decode_cases(2) [OF array Some] decodeArray_def
      proof (rule returns_bind [OF returns_lift [OF u32.rd_safe 1(2)] 1(2)])
        fix n pos assume n: "tlift tryReadUint32 v = Some (Some n, v\<lparr>v_pos := pos\<rparr>)" and pos: "v_pos v \<le> pos" "pos \<le> v_length v"
        let ?v = "v\<lparr>v_pos := pos\<rparr>"
        have ok: "view_ok ?v" using 1(2) pos by (simp add: view_ok_pos)
        have p4: "pos = v_pos v + 4" "4 \<le> v_length v - v_pos v" using read_count_consumes [OF 1(2), of n pos] n by (simp_all add: tlift_def)
        have el: "returns (decode_elements (unat n) (decode ctx et package) []) ?v"
          by (rule returns_elements [where n = "v_length v - v_pos v - 4"]) (use ok p4 in \<open>auto intro!: IH\<close>)
        show "returns (if MAX_ARRAY_ELEMENTS < unat n then tlift rfail
            else tbind (decode_elements (unat n) (decode ctx et package) []) (\<lambda>arr. tlift (rret (JArray arr)))) ?v"
          using ok by (auto intro!: returns_lift returns_bind [OF el] view_ok_pos simp: view_ok_pos)
      qed
    qed
  next
    case prim
    then show ?thesis using 1(2) by (simp add: decode_cases returns_lift decodePrimitive_safe)
  qed
qed

subsection \<open>Accepted files\<close>

text \<open>The checks of the compiler give what reading relies on. The names the lexer makes have no dot.\<close>

definition plain_names :: "Packages \<Rightarrow> bool" where
  "plain_names packages \<longleftrightarrow> (\<forall>p a. om_lookup packages p = Some a \<longrightarrow> (\<forall>s \<in> set (af_structs a). CHR ''.'' \<notin> set (sd_name s)))"

lemma package_part_qualify: "CHR ''.'' \<notin> set name \<Longrightarrow> package_part (qualify pkg name) = pkg"
proof -
  assume "CHR ''.'' \<notin> set name"
  then have "dropWhile (\<lambda>c. c \<noteq> CHR ''.'') (rev name @ CHR ''.'' # rev pkg) = CHR ''.'' # rev pkg"
    by (subst dropWhile_append2) auto
  then show ?thesis by (simp add: package_part_def qualify_def)
qed

lemma qualify_parts: "CHR ''.'' \<notin> set n \<Longrightarrow> CHR ''.'' \<notin> set n' \<Longrightarrow> qualify p n = qualify p' n' \<Longrightarrow> p = p' \<and> n = n'"
  using package_part_qualify [of n p] package_part_qualify [of n' p'] by (auto simp: qualify_def)

lemma om_lookup_fold: "om_lookup (fold (\<lambda>(k, v). om_update k v) xs m) k = (case map_of (rev xs) k of None \<Rightarrow> om_lookup m k | Some v \<Rightarrow> Some v)"
  by (induction xs arbitrary: m) (auto simp: om_lookup_update map_add_def split: option.splits)

definition struct_list :: "Packages \<Rightarrow> (string \<times> StructDef) list" where
  "struct_list packages = concat (map (\<lambda>(pkg, ast). map (\<lambda>s. (qualify pkg (sd_name s), s)) (af_structs ast)) (om_list packages))"

lemma all_structs_list: "all_structs packages = fold (\<lambda>(k, v). om_update k v) (struct_list packages) om_empty"
proof -
  have "fold (\<lambda>(pkg, ast) m. fold (\<lambda>s. om_update (qualify pkg (sd_name s)) s) (af_structs ast) m) ps m =
      fold (\<lambda>(k, v). om_update k v) (concat (map (\<lambda>(pkg, ast). map (\<lambda>s. (qualify pkg (sd_name s), s)) (af_structs ast)) ps)) m" for ps m
    by (induction ps arbitrary: m) (auto simp: fold_map comp_def)
  then show ?thesis by (simp add: all_structs_def struct_list_def)
qed

lemma all_structs_lookup:
  assumes names: "plain_names packages" and uniq: "\<And>p a. om_lookup packages p = Some a \<Longrightarrow> distinct (map sd_name (af_structs a))"
    and a: "om_lookup packages pkg = Some ast" "s \<in> set (af_structs ast)"
  shows "om_lookup (all_structs packages) (qualify pkg (sd_name s)) = Some s"
proof -
  let ?k = "qualify pkg (sd_name s)" and ?xs = "struct_list packages"
  have mem: "(?k, s) \<in> set ?xs" using a by (force simp: struct_list_def in_om_list_iff)
  have "s' = s" if m: "(?k, s') \<in> set ?xs" for s'
  proof -
    obtain p b where b: "om_lookup packages p = Some b" "s' \<in> set (af_structs b)" "?k = qualify p (sd_name s')"
      using m by (auto simp: struct_list_def in_om_list_iff)
    have "pkg = p \<and> sd_name s = sd_name s'" using names a b by (intro qualify_parts) (auto simp: plain_names_def)
    with b a uniq [OF a(1)] show ?thesis by (auto simp: distinct_map dest: inj_onD)
  qed
  moreover have "\<exists>s'. map_of (rev ?xs) ?k = Some s' \<and> (?k, s') \<in> set ?xs"
    using mem by (metis map_of_SomeD set_rev weak_map_of_SomeI)
  ultimately show ?thesis by (auto simp: all_structs_list om_lookup_fold)
qed

lemma findStruct_Some:
  "findStruct ctx name package = Some sd \<Longrightarrow>
     \<exists>ast. om_lookup (pc_loaded_packages ctx) package = Some ast \<and> sd \<in> set (af_structs ast) \<and> sd_name sd = name"
  by (auto simp: findStruct_def find_Some_iff split: option.splits)

lemma findStruct_exists:
  "om_lookup (pc_loaded_packages ctx) package = Some ast \<Longrightarrow> s \<in> set (af_structs ast) \<Longrightarrow> findStruct ctx (sd_name s) package \<noteq> None"
  by (auto simp: findStruct_def find_None_iff)

theorem ranked_if_acyclic:
  assumes names: "plain_names (pc_loaded_packages ctx)"
    and uniq: "\<And>p a. om_lookup (pc_loaded_packages ctx) p = Some a \<Longrightarrow> distinct (map sd_name (af_structs a))"
    and rank: "\<And>n d. d \<in> set (qualifiedDeps (all_structs (pc_loaded_packages ctx)) n) \<Longrightarrow> (rank d :: nat) < rank n"
  shows "by_value_ranked ctx (\<lambda>(pkg, name). case findStruct ctx name pkg of None \<Rightarrow> 0 | Some _ \<Rightarrow> Suc (rank (qualify pkg name)))"
  unfolding by_value_ranked_def
proof (intro allI impI ballI)
  fix package name sd f
  assume sd: "findStruct ctx name package = Some sd" and f: "f \<in> set (sd_fields sd)" "tr_primitive (fd_type f) = TYPE_CUSTOM"
  let ?all = "all_structs (pc_loaded_packages ctx)" and ?t = "fd_type f"
  let ?q = "qualify (type_package ?t package) (tr_custom_name ?t)"
  obtain ast where ast: "om_lookup (pc_loaded_packages ctx) package = Some ast" "sd \<in> set (af_structs ast)" "sd_name sd = name"
    using findStruct_Some [OF sd] by blast
  have self: "om_lookup ?all (qualify package name) = Some sd"
    using all_structs_lookup [OF names uniq ast(1,2)] ast(3) by simp
  have part: "package_part (qualify package name) = package"
    using names ast by (intro package_part_qualify) (auto simp: plain_names_def)
  have "rank ?q < rank (qualify package name)" if m: "findStruct ctx (tr_custom_name ?t) (type_package ?t package) = Some sd'" for sd'
  proof -
    obtain ast' where "om_lookup (pc_loaded_packages ctx) (type_package ?t package) = Some ast'" "sd' \<in> set (af_structs ast')" "sd_name sd' = tr_custom_name ?t"
      using findStruct_Some [OF m] by blast
    from all_structs_lookup [OF names uniq this(1,2)] this(3) have "om_lookup ?all ?q = Some sd'" by simp
    then have "?q \<in> set (qualifiedDeps ?all (qualify package name))"
      using f by (force simp: qualifiedDeps_def self part type_package_def Let_def)
    then show ?thesis by (rule rank)
  qed
  then show "(case (type_package ?t package, tr_custom_name ?t) of (pkg, name) \<Rightarrow> case findStruct ctx name pkg of None \<Rightarrow> 0 | Some _ \<Rightarrow> Suc (rank (qualify pkg name)))
      < (case (package, name) of (pkg, name) \<Rightarrow> case findStruct ctx name pkg of None \<Rightarrow> 0 | Some _ \<Rightarrow> Suc (rank (qualify pkg name)))"
    by (auto simp: sd split: option.split)
qed

lemma valid_struct_names: "file_valid packages a \<Longrightarrow> distinct (map sd_name (af_structs a))"
  by (auto simp: file_valid_def names_ok_def decl_items_def comp_def)

lemma valid_distinct_fields:
  assumes "\<And>p a. om_lookup (pc_loaded_packages ctx) p = Some a \<Longrightarrow> file_valid (pc_loaded_packages ctx) a"
  shows "distinct_fields ctx"
  using assms findStruct_Some by (fastforce simp: distinct_fields_def file_valid_def fields_valid_def)

text \<open>The two directions on buffers.\<close>

theorem buffer_roundtrip:
  assumes "has_type ctx True t package v" "json_sizes v" "alloc_ok alloc" "Buffer_wf b"
  shows "\<exists>b'. encodeToBuffer ctx t package v alloc b = (True, b') \<and> (\<not> b_write_failed b' \<longrightarrow>
     take (b_write_pos b) (Buffer_content b') = Buffer_content b \<and>
     decodeFromBuffer ctx t package (b'\<lparr>b_read_pos := b_write_pos b\<rparr>) =
       Some (Some (wire_image ctx t package v), b'\<lparr>b_read_pos := b_write_pos b'\<rparr>))"
proof -
  obtain bs where bs: "puts (encodeToBuffer ctx t package v) bs" "treads (decode ctx t package) bs (wire_image ctx t package v)"
    using agree_typed [OF assms(1,2)] by (auto simp: agree_def)
  obtain r b' where e: "encodeToBuffer ctx t package v alloc b = (r, b')" by force
  have r using encodeToBuffer_typed [of ctx t package v] assms(1) e by (auto simp: accepts_def) (metis fst_conv)
  note p = putsD [OF bs(1) assms(3,4) e]
  have "decodeFromBuffer ctx t package (b'\<lparr>b_read_pos := b_write_pos b\<rparr>) =
       Some (Some (wire_image ctx t package v), b'\<lparr>b_read_pos := b_write_pos b'\<rparr>)"
    and "take (b_write_pos b) (Buffer_content b') = Buffer_content b" if "\<not> b_write_failed b'"
  proof -
    have c: "Buffer_content b' = Buffer_content b @ bs" using p(5) that by simp
    have pos: "b_write_pos b' = b_write_pos b + length bs" using c p(1) assms(4) by (metis length_Buffer_content length_append)
    show "take (b_write_pos b) (Buffer_content b') = Buffer_content b" using c assms(4) by simp
    let ?v = "Buffer_view (b'\<lparr>b_read_pos := b_write_pos b\<rparr>)"
    have "view_ok ?v" using p(1) pos by (simp add: view_ok_def Buffer_view_def Buffer_wf_def)
    moreover have "mem_get (v_data ?v) (v_pos ?v) (length bs) = bs"
    proof -
      have "drop (b_write_pos b) (Buffer_content b') = bs" using c assms(4) by simp
      then show ?thesis by (simp add: mem_get_def Buffer_view_def Buffer_content_def pos drop_take)
    qed
    ultimately have "decode ctx t package ?v = Some (Some (wire_image ctx t package v), ?v\<lparr>v_pos := v_pos ?v + length bs\<rparr>)"
      using bs(2) pos by (auto simp: treads_def Buffer_view_def)
    then show "decodeFromBuffer ctx t package (b'\<lparr>b_read_pos := b_write_pos b\<rparr>) =
       Some (Some (wire_image ctx t package v), b'\<lparr>b_read_pos := b_write_pos b'\<rparr>)"
      by (simp add: decodeFromBuffer_def reading_buffer_def Buffer_view_def pos)
  qed
  with e \<open>r\<close> show ?thesis by auto
qed

theorem buffer_decode:
  assumes "by_value_ranked ctx rank" "distinct_fields ctx" "Buffer_wf b"
  shows "\<exists>r pos. decodeFromBuffer ctx t package b = Some (r, b\<lparr>b_read_pos := pos\<rparr>) \<and> b_read_pos b \<le> pos \<and> pos \<le> b_write_pos b \<and>
     (\<forall>x. r = Some x \<longrightarrow> has_type ctx False t package x)"
proof -
  have "view_ok (Buffer_view b)" using assms(3) by (simp add: view_ok_def Buffer_view_def Buffer_wf_def)
  from decode_returns [OF assms(1) this, of t package] obtain r pos where
    "decode ctx t package (Buffer_view b) = Some (r, Buffer_view b\<lparr>v_pos := pos\<rparr>)" "b_read_pos b \<le> pos" "pos \<le> b_write_pos b"
    by (auto simp: returns_def Buffer_view_def)
  then show ?thesis using decode_typed [OF _ assms(2)]
    by (intro exI [of _ r] exI [of _ pos]) (auto simp: decodeFromBuffer_def reading_buffer_def)
qed

end
