(* ===== verification/TypeResolver.thy ===== *)
theory TypeResolver
  imports TypeCodec
begin

section \<open>Types and values on the command line\<close>

text \<open>
  tools/omni_cli/type_resolver.cpp: the type a type name stands for, and the scalar value an argument stands for. Shown
  here: the name of a type, with arrays nested up to the limit, is resolved to that type; and a scalar
  argument that is accepted gives a value of its type, as far as the range of narrow integers goes.
\<close>

definition startsLikeNumber :: "string \<Rightarrow> bool" where
  "startsLikeNumber input \<longleftrightarrow> input \<noteq> [] \<and> (is_digit (hd input) \<or> hd input = CHR ''-'')"

fun primitiveTypeName :: "PrimitiveType \<Rightarrow> string" where
  "primitiveTypeName TYPE_BOOL = ''bool''"
| "primitiveTypeName TYPE_INT8 = ''int8''"
| "primitiveTypeName TYPE_UINT8 = ''uint8''"
| "primitiveTypeName TYPE_INT16 = ''int16''"
| "primitiveTypeName TYPE_UINT16 = ''uint16''"
| "primitiveTypeName TYPE_INT32 = ''int32''"
| "primitiveTypeName TYPE_UINT32 = ''uint32''"
| "primitiveTypeName TYPE_INT64 = ''int64''"
| "primitiveTypeName TYPE_UINT64 = ''uint64''"
| "primitiveTypeName TYPE_FLOAT32 = ''float32''"
| "primitiveTypeName TYPE_FLOAT64 = ''float64''"
| "primitiveTypeName TYPE_STRING = ''string''"
| "primitiveTypeName TYPE_BYTES = ''bytes''"
| "primitiveTypeName TYPE_VOID = ''void''"
| "primitiveTypeName _ = ''unknown''"

definition primitive_names :: "(string \<times> PrimitiveType) list" where
  "primitive_names =
     [(''bool'', TYPE_BOOL), (''int8'', TYPE_INT8), (''int8_t'', TYPE_INT8), (''uint8'', TYPE_UINT8), (''uint8_t'', TYPE_UINT8),
      (''int16'', TYPE_INT16), (''int16_t'', TYPE_INT16), (''uint16'', TYPE_UINT16), (''uint16_t'', TYPE_UINT16),
      (''int32'', TYPE_INT32), (''int32_t'', TYPE_INT32), (''uint32'', TYPE_UINT32), (''uint32_t'', TYPE_UINT32),
      (''int64'', TYPE_INT64), (''int64_t'', TYPE_INT64), (''uint64'', TYPE_UINT64), (''uint64_t'', TYPE_UINT64),
      (''float'', TYPE_FLOAT32), (''float32'', TYPE_FLOAT32), (''double'', TYPE_FLOAT64), (''float64'', TYPE_FLOAT64),
      (''string'', TYPE_STRING), (''std::string'', TYPE_STRING), (''bytes'', TYPE_BYTES), (''std::vector<uint8_t>'', TYPE_BYTES),
      (''void'', TYPE_VOID)]"

definition fillPrimitiveTypeRef :: "string \<Rightarrow> TypeRef option" where
  "fillPrimitiveTypeRef type_name = map_option (\<lambda>p. TypeRef p [] [] None) (map_of primitive_names type_name)"

text \<open>The text between a prefix and \<open>>\<close>, without the blanks around it, when there is any.\<close>

definition trim_blanks :: "string \<Rightarrow> string" where
  "trim_blanks s = rev (dropWhile (\<lambda>c. c = CHR '' '') (rev (dropWhile (\<lambda>c. c = CHR '' '') s)))"

definition unwrap_with :: "string \<Rightarrow> string \<Rightarrow> string option" where
  "unwrap_with pre type_name =
     (if length type_name \<le> length pre + 1 then None
      else if take (length pre) type_name \<noteq> pre then None
      else if last type_name \<noteq> CHR ''>'' then None
      else
        let inner = trim_blanks (butlast (drop (length pre) type_name))
        in if inner = [] then None else Some inner)"

definition unwrapArrayTypeName :: "string \<Rightarrow> string option" where
  "unwrapArrayTypeName type_name =
     (case unwrap_with ''std::vector<'' type_name of Some e \<Rightarrow> Some e | None \<Rightarrow> unwrap_with ''array<'' type_name)"

text \<open>\<open>type_name.find("::")\<close> and the parts before and behind it.\<close>

fun split_scope :: "string \<Rightarrow> (string \<times> string) option" where
  "split_scope (a # b # s) =
     (if a = CHR '':'' \<and> b = CHR '':'' then Some ([], s) else map_option (\<lambda>(x, y). (a # x, y)) (split_scope (b # s)))"
| "split_scope _ = None"

definition find_struct_ref :: "ParseContext \<Rightarrow> string \<Rightarrow> string \<Rightarrow> TypeRef option" where
  "find_struct_ref ctx type_name package =
     (let (search_package, search_type) = (case split_scope type_name of None \<Rightarrow> (package, type_name) | Some p \<Rightarrow> p) in
      case om_lookup (pc_loaded_packages ctx) search_package of
        None \<Rightarrow> None
      | Some ast \<Rightarrow>
          if \<exists>s \<in> set (af_structs ast). sd_name s = search_type
          then Some (TypeRef TYPE_CUSTOM search_type (if search_package = package then [] else search_package) None)
          else None)"

text \<open>\<open>findTypeRefImpl\<close>, with the depth that is left.\<close>

primrec findTypeRefImpl :: "nat \<Rightarrow> ParseContext \<Rightarrow> string \<Rightarrow> string \<Rightarrow> TypeRef option" where
  "findTypeRefImpl 0 ctx type_name package = None"
| "findTypeRefImpl (Suc levels) ctx type_name package =
     (case fillPrimitiveTypeRef type_name of
        Some t \<Rightarrow> Some t
      | None \<Rightarrow>
          case unwrapArrayTypeName type_name of
            Some element_name \<Rightarrow> map_option (\<lambda>e. TypeRef TYPE_ARRAY [] [] (Some e)) (findTypeRefImpl levels ctx element_name package)
          | None \<Rightarrow> find_struct_ref ctx type_name package)"

definition findTypeRef :: "ParseContext option \<Rightarrow> string \<Rightarrow> string \<Rightarrow> TypeRef option" where
  "findTypeRef parse_ctx type_name package =
     (case parse_ctx of None \<Rightarrow> None | Some ctx \<Rightarrow> findTypeRefImpl 33 ctx type_name package)"

definition isScalarCliType :: "TypeRef \<Rightarrow> bool" where
  "isScalarCliType t \<longleftrightarrow> tr_primitive t \<in> {TYPE_BOOL, TYPE_INT8, TYPE_UINT8, TYPE_INT16, TYPE_UINT16, TYPE_INT32, TYPE_UINT32,
     TYPE_INT64, TYPE_UINT64, TYPE_FLOAT32, TYPE_FLOAT64, TYPE_STRING}"

subsection \<open>Numbers as the C library reads them\<close>

text \<open>\<open>strtoll\<close> and \<open>strtoull\<close> in base 10 that use up the whole text without a range error.\<close>

definition all_digits :: "string \<Rightarrow> bool" where
  "all_digits s \<longleftrightarrow> s \<noteq> [] \<and> list_all is_digit s"

definition strtoll_whole :: "string \<Rightarrow> u64 option" where
  "strtoll_whole s =
     (let neg = (s \<noteq> [] \<and> hd s = CHR ''-''); ds = (if neg then tl s else s) in
      if \<not> all_digits ds then None
      else
        let i = (if neg then - int (dec_value ds) else int (dec_value ds)) in
        if - (2 ^ 63) \<le> i \<and> i < 2 ^ 63 then Some (of_int i) else None)"

definition strtoull_whole :: "string \<Rightarrow> u64 option" where
  "strtoull_whole s = (if all_digits s \<and> dec_value s < 2 ^ 64 then Some (of_nat (dec_value s)) else None)"

text \<open>
  \<open>strtod\<close> that uses up the whole text: decimal or hexadecimal digits with an optional point, and an optional
  exponent. What it calls infinity or not a number has no finite value and is refused by the caller.
\<close>

definition exponent_whole :: "char set \<Rightarrow> string \<Rightarrow> int option" where
  "exponent_whole es s =
     (case s of
        [] \<Rightarrow> Some 0
      | c # s \<Rightarrow>
          if c \<notin> es then None
          else
            let neg = (s \<noteq> [] \<and> hd s = CHR ''-''); s = (if s \<noteq> [] \<and> hd s \<in> {CHR ''+'', CHR ''-''} then tl s else s)
            in if all_digits s then Some (if neg then - int (dec_value s) else int (dec_value s)) else None)"

definition with_point_whole :: "(char \<Rightarrow> bool) \<Rightarrow> string \<Rightarrow> string \<times> string \<times> string" where
  "with_point_whole digit s =
     (let whole = takeWhile digit s; s = dropWhile digit s in
      if s \<noteq> [] \<and> hd s = CHR ''.'' then (whole, takeWhile digit (tl s), dropWhile digit (tl s)) else (whole, [], s))"

definition hex_value_of :: "string \<Rightarrow> nat" where
  "hex_value_of s = foldl (\<lambda>v c. v * 16 + (case hexValue c of None \<Rightarrow> 0 | Some d \<Rightarrow> d)) 0 s"

definition strtod_whole :: "string \<Rightarrow> u64 option" where
  "strtod_whole s =
     (let neg = (s \<noteq> [] \<and> hd s = CHR ''-''); s = (if neg then tl s else s) in
      if take 2 s = ''0x'' \<or> take 2 s = ''0X'' then
        let (whole, frac, s) = with_point_whole (\<lambda>c. hexValue c \<noteq> None) (drop 2 s) in
        if whole = [] \<and> frac = [] then None
        else
          map_option (\<lambda>e. let k = e - 4 * int (length frac) in
              double_round neg (hex_value_of (whole @ frac) * 2 ^ nat k) (2 ^ nat (- k)))
            (exponent_whole {CHR ''p'', CHR ''P''} s)
      else
        let (whole, frac, s) = with_point_whole is_digit s in
        if whole = [] \<and> frac = [] then None
        else
          map_option (\<lambda>e. double_of_decimal neg (dec_value (whole @ frac)) (e - int (length frac)))
            (exponent_whole {CHR ''e'', CHR ''E''} s))"

definition parseScalarCliValue :: "string option \<Rightarrow> TypeRef \<Rightarrow> Value option" where
  "parseScalarCliValue text_arg t =
     (case text_arg of
        None \<Rightarrow> None
      | Some input \<Rightarrow>
          if \<not> isScalarCliType t then None
          else if tr_primitive t = TYPE_BOOL then
            if input = ''true'' \<or> input = ''1'' then Some (JBool True)
            else if input = ''false'' \<or> input = ''0'' then Some (JBool False) else None
          else if tr_primitive t \<in> {TYPE_INT8, TYPE_INT16, TYPE_INT32, TYPE_INT64} then
            if \<not> startsLikeNumber input then None else map_option JInt (strtoll_whole input)
          else if tr_primitive t \<in> {TYPE_UINT8, TYPE_UINT16, TYPE_UINT32, TYPE_UINT64} then
            if \<not> startsLikeNumber input \<or> hd input = CHR ''-'' then None else map_option JUint (strtoull_whole input)
          else if tr_primitive t \<in> {TYPE_FLOAT32, TYPE_FLOAT64} then
            if \<not> startsLikeNumber input then None
            else (case strtod_whole input of None \<Rightarrow> None | Some x \<Rightarrow> if double_isfinite x then Some (JFp x) else None)
          else Some (JString input))"

subsection \<open>Names of types are resolved\<close>

fun type_text :: "TypeRef \<Rightarrow> string" where
  "type_text (TypeRef TYPE_ARRAY n p (Some e)) = ''array<'' @ type_text e @ ''>''"
| "type_text (TypeRef TYPE_CUSTOM n p e) = (if p = [] then n else p @ ''::'' @ n)"
| "type_text (TypeRef q n p e) = primitiveTypeName q"

definition word_text :: "string \<Rightarrow> bool" where
  "word_text s \<longleftrightarrow> s \<noteq> [] \<and> list_all is_word_char s"

fun resolvable :: "ParseContext \<Rightarrow> string \<Rightarrow> TypeRef \<Rightarrow> bool" where
  "resolvable ctx package (TypeRef TYPE_ARRAY n p (Some e)) \<longleftrightarrow> n = [] \<and> p = [] \<and> resolvable ctx package e"
| "resolvable ctx package (TypeRef TYPE_ARRAY n p None) \<longleftrightarrow> False"
| "resolvable ctx package (TypeRef TYPE_CUSTOM n p e) \<longleftrightarrow>
     e = None \<and> word_text n \<and> n \<notin> fst ` set primitive_names \<and> (p = [] \<or> word_text p \<and> p \<noteq> ''std'' \<and> p \<noteq> package) \<and>
     findStruct ctx n (if p = [] then package else p) \<noteq> None"
| "resolvable ctx package (TypeRef q n p e) \<longleftrightarrow> n = [] \<and> p = [] \<and> e = None"

fun array_depth :: "TypeRef \<Rightarrow> nat" where
  "array_depth (TypeRef q n p None) = 1"
| "array_depth (TypeRef q n p (Some e)) = Suc (array_depth e)"

lemma word_text_chars: "word_text s \<Longrightarrow> c \<in> set s \<Longrightarrow> c \<noteq> CHR '' '' \<and> c \<noteq> CHR '':'' \<and> c \<noteq> CHR ''<'' \<and> c \<noteq> CHR ''>''"
  by (auto simp: word_text_def list_all_iff is_word_char_def c_isalnum_def c_isalpha_def is_digit_def)

lemma split_scope_word: "CHR '':'' \<notin> set s \<Longrightarrow> split_scope s = None"
  by (induction s rule: split_scope.induct) auto

lemma split_scope_qualified: "CHR '':'' \<notin> set p \<Longrightarrow> split_scope (p @ '':'' @ '':'' @ n) = Some (p, n)"
proof (induction p)
  case (Cons a p)
  then show ?case by (cases p) auto
qed simp

lemma type_text_ends:
  assumes "resolvable ctx package t"
  shows "type_text t \<noteq> [] \<and> hd (type_text t) \<noteq> CHR '' '' \<and> last (type_text t) \<noteq> CHR '' ''"
proof (cases t)
  case (TypeRef q n p e)
  then show ?thesis
    using assms word_text_chars [of n "hd n"] word_text_chars [of n "last n"] word_text_chars [of p "hd p"]
    by (cases q; cases e) (auto simp: word_text_def hd_append)
qed

lemma trim_blanks_id: "s \<noteq> [] \<Longrightarrow> hd s \<noteq> CHR '' '' \<Longrightarrow> last s \<noteq> CHR '' '' \<Longrightarrow> trim_blanks s = s"
  by (simp add: trim_blanks_def dropWhile_eq_self_iff [THEN iffD2] hd_rev)

lemma primitive_scopes: "x \<in> fst ` set primitive_names \<Longrightarrow> split_scope x = Some (p, n) \<Longrightarrow> p = ''std''"
  by (auto simp: primitive_names_def)

lemma unwrap_array: "s \<noteq> [] \<Longrightarrow> hd s \<noteq> CHR '' '' \<Longrightarrow> last s \<noteq> CHR '' '' \<Longrightarrow> unwrapArrayTypeName (''array<'' @ s @ ''>'') = Some s"
  by (auto simp: unwrapArrayTypeName_def unwrap_with_def trim_blanks_id butlast_append)

lemma unwrap_other: "last s \<noteq> CHR ''>'' \<Longrightarrow> unwrapArrayTypeName s = None"
  by (simp add: unwrapArrayTypeName_def unwrap_with_def)

theorem findTypeRef_text:
  "resolvable ctx package t \<Longrightarrow> array_depth t \<le> levels \<Longrightarrow> findTypeRefImpl levels ctx (type_text t) package = Some t"
proof (induction ctx package t arbitrary: levels rule: resolvable.induct)
  case (1 ctx package n p e)
  then obtain l where l: "levels = Suc l" by (cases levels) auto
  have "fillPrimitiveTypeRef (''array<'' @ type_text e @ ''>'') = None" by (simp add: fillPrimitiveTypeRef_def primitive_names_def)
  then show ?case using 1 type_text_ends [of ctx package e] by (simp add: l unwrap_array del: append.simps)
next
  case (3 ctx package n p e)
  then obtain l where l: "levels = Suc l" by (cases levels) auto
  have scope: "split_scope (type_text (TypeRef TYPE_CUSTOM n p e)) = (if p = [] then None else Some (p, n))"
    using 3 word_text_chars split_scope_word [of n] split_scope_qualified [of p n] by auto
  moreover have "type_text (TypeRef TYPE_CUSTOM n p e) \<notin> fst ` set primitive_names"
    using primitive_scopes [of "type_text (TypeRef TYPE_CUSTOM n p e)" p n] scope 3(1) by (cases "p = []") auto
  then have "fillPrimitiveTypeRef (type_text (TypeRef TYPE_CUSTOM n p e)) = None"
    by (simp add: fillPrimitiveTypeRef_def map_of_eq_None_iff)
  moreover have "unwrapArrayTypeName (type_text (TypeRef TYPE_CUSTOM n p e)) = None"
    using 3 word_text_chars [of n "last n"] by (intro unwrap_other) (auto simp: word_text_def)
  moreover obtain ast sd where "om_lookup (pc_loaded_packages ctx) (if p = [] then package else p) = Some ast"
    "sd \<in> set (af_structs ast)" "sd_name sd = n"
    using 3(1) findStruct_Some [of ctx n "if p = [] then package else p"] by auto
  ultimately show ?case using 3(1) by (cases "p = []") (auto simp: l find_struct_ref_def)
qed (auto simp: fillPrimitiveTypeRef_def primitive_names_def gr0_conv_Suc Suc_le_eq)

subsection \<open>Scalar arguments\<close>

text \<open>An accepted argument is a number of the right kind; whether a narrow integer holds it is decided when it is written.\<close>

theorem parseScalarCliValue_typed:
  assumes "parseScalarCliValue arg t = Some v"
  shows "if tr_primitive t \<in> {TYPE_INT8, TYPE_INT16, TYPE_INT32} then has_type ctx True (TypeRef TYPE_INT64 [] [] None) package v
    else if tr_primitive t \<in> {TYPE_UINT8, TYPE_UINT16, TYPE_UINT32} then has_type ctx True (TypeRef TYPE_UINT64 [] [] None) package v
    else has_type ctx True t package v"
proof -
  obtain input where arg: "arg = Some input" using assms by (cases arg) (simp_all add: parseScalarCliValue_def)
  have p: "has_type ctx True u package v \<longleftrightarrow> primitive_value True (tr_primitive u) v"
    if "tr_primitive u \<noteq> TYPE_CUSTOM" "tr_primitive u \<noteq> TYPE_ARRAY" for u
    using that by (auto elim: has_typeE intro: has_primitive)
  note d = parseScalarCliValue_def isScalarCliType_def arg
  show ?thesis
    using assms by (cases "tr_primitive t") (auto simp: d p int_between_uint [simplified] split: if_splits option.splits)
qed

end
