(* ===== verification/Spec2Isabelle.thy ===== *)
theory Spec2Isabelle
  imports
    ShmRing
    SMEvents
    ReplyTable
    TopicRuntime
    ConnectionManager
    IdlMain
    TypeResolver
begin

text \<open>
  OmniBinder is a service bus for C++ programs: services register with a \<^emph>\<open>service manager\<close>, clients look
  them up and call them over TCP or over shared memory, and topics connect publishers with
  subscribers. This development models its core, definition by definition, from the sources under
  \<^verbatim>\<open>src/\<close>, and proves what makes it correct.

  \<^bold>\<open>Parts and theories.\<close>

  \<^item> \<open>Prelude\<close>, \<open>OrdMap\<close>: machine integers and their little-endian bytes, the loops that sweep over a
    table (locales \<open>simulation\<close>, \<open>sweep\<close>, \<open>collecting_sweep\<close>), and \<open>std::map\<close>/\<open>std::set\<close> as ordered maps.
  \<^item> \<open>WireBuffer\<close>, \<open>WireCodec\<close> (\<^verbatim>\<open>src/src/core/buffer.cpp\<close>, \<^verbatim>\<open>buffer_view.cpp\<close>, \<^verbatim>\<open>buffer_read_utils.h\<close>): the
    growable buffer with read and write cursor and a failure flag. Memory is a parameter: an
    \<open>allocator\<close> that may refuse, with \<open>alloc_ok\<close>/\<open>alloc_total\<close> as its contract. \<open>wire_codec\<close> is the
    interface of an encoder and a decoder, interpreted for every scalar and string.
  \<^item> \<open>OmniTypes\<close> (\<^verbatim>\<open>types.h\<close>): metadata records, limits, identity keys, session-timeout negotiation.
  \<^item> \<open>OmniMessage\<close>, \<open>MessageCodec\<close> (\<^verbatim>\<open>message.h\<close>, \<^verbatim>\<open>message.cpp\<close>): the 16-byte header, framing, and the
    payload codecs, each an interpretation of a codec locale.
  \<^item> \<open>MessageReader\<close>, \<open>TcpConnection\<close> (\<^verbatim>\<open>message_reader.cpp\<close>, \<^verbatim>\<open>tcp_connection.cpp\<close>, \<^verbatim>\<open>platform_common.cpp\<close>):
    reading messages from a transport. The sockets of the kernel are a record of operations;
    \<open>tcp_kernel\<close> states what is relied on (bytes taken are sent in order, bytes delivered are those
    in flight), and \<open>net_ops\<close> is a concrete network that satisfies it.
  \<^item> \<open>ShmRing\<close> (\<^verbatim>\<open>shm_ring.cpp\<close>): the single-producer single-consumer ring in shared memory, at 32-bit
    width, with its layout and names. Loads and stores of the shared cursors are single steps.
  \<^item> \<open>ServiceRegistry\<close> (\<^verbatim>\<open>service_registry.cpp\<close>): instances by name and instance key, and the index of
    each connection.
  \<^item> \<open>TopicManager\<close>, \<open>TopicClose\<close>, \<open>TopicLimits\<close> (\<^verbatim>\<open>topic_manager.cpp\<close>): entries keyed by service and
    topic, reference counts, connection indexes, counters; its histories as a step relation.
  \<^item> \<open>EventLoop\<close> (\<^verbatim>\<open>event_loop.cpp\<close>): descriptors, timers, posted functions and one round of the loop. The
    polling back end is a record of operations, and the owner of the loop is a record \<open>LoopHost\<close> that
    says how the loop sits in the whole state and what its callbacks do.
  \<^item> \<open>TcpEndpoint\<close> (\<^verbatim>\<open>tcp_server_endpoint.cpp\<close>): the listening socket, its accept loop, dispatch of events.
  \<^item> \<open>WatchNotifier\<close> (\<^verbatim>\<open>service_watch_notifier.cpp\<close>): groups of service filters with their indexes.
  \<^item> \<open>SMState\<close>, \<open>SMRequests\<close>, \<open>SMDiag\<close>, \<open>SMApp\<close> (\<^verbatim>\<open>service_manager_app.cpp\<close>, \<^verbatim>\<open>sm_registry.cpp\<close>, \<^verbatim>\<open>sm_topic.cpp\<close>,
    \<^verbatim>\<open>sm_diag.cpp\<close>): the service manager, which joins all of these. A \<open>ClientConnection*\<close> is the
    descriptor it is filed under; using one that was deleted raises the flag \<open>sm_dangling\<close>.
  \<^item> \<open>SMClosing\<close>, \<open>SMTables\<close>, \<open>SMCloseInv\<close>, \<open>SMSafety\<close>, \<open>SMSessions\<close>, \<open>SMEvents\<close>: its proofs. The locale
    \<open>sending_frame\<close> states what a relation between states needs so that every operation that sends keeps
    it, \<open>closing_frame\<close> extends it to closing; the invariant is one interpretation, the shrinking of
    the connection table another. \<open>SMEvents\<close> has the histories (\<open>sm_reachable\<close>).
  \<^item> \<open>ReplyTable\<close> (\<^verbatim>\<open>pending_reply_table.cpp\<close>, \<^verbatim>\<open>rpc_runtime.cpp\<close>, \<^verbatim>\<open>runtime_rpc.cpp\<close>): the slots of outstanding calls
    and the loop that waits for a reply. The caller's event loop is a record \<open>WaitHost\<close>; \<open>polling\<close> states what is
    relied on, and is interpreted on a simulated inbox.
  \<^item> \<open>TopicRuntime\<close> (\<^verbatim>\<open>topic_runtime.cpp\<close>): what a client or service knows of topics, by hash and by name:
    subscriptions with selectors and callbacks, publications, local subscribers; refined to tables by name.
  \<^item> \<open>TransportSelector\<close>, \<open>ConnectionManager\<close> (\<^verbatim>\<open>transport_selector.cpp\<close>, \<^verbatim>\<open>connection_manager.cpp\<close>): the direct connections
    of a runtime. Connections are objects with addresses that \<open>new\<close> may hand out again; using a freed one raises
    \<open>cm_dangling\<close>. The callbacks are functions on the whole state, asked to keep the invariant \<open>cm_ok\<close>; the locale
    \<open>descriptors\<close> says what is relied on from the system, \<open>conn_env\<close> adds the event loop's back end and \<open>new\<close>, and
    both are interpreted on a system that hands out fresh descriptors. The virtual operations of a shared-memory
    client connection are a record.
  \<^item> \<open>IdlLexer\<close>, \<open>IdlParser\<close>, \<open>IdlLoad\<close>, \<open>IdlGrammar\<close> (\<^verbatim>\<open>tools/omni_idlc/lexer.cpp\<close>, \<^verbatim>\<open>parser.cpp\<close>, \<^verbatim>\<open>ast.h\<close>): the interface
    compiler's lexer and recursive-descent parser with imports. The file system is a record of operations.
    \<open>IdlLoad\<close> is about imported files, \<open>IdlGrammar\<close> about the grammar the parser follows.
  \<^item> \<open>IdlValidator\<close>, \<open>IdlSound\<close>, \<open>IdlAccepted\<close> (\<^verbatim>\<open>semantic_validator.cpp\<close>): semantic validation. \<open>IdlSound\<close> has the
    depth-first searches, once as locales \<open>dfs\<close> and \<open>dfs_order\<close>, interpreted for the structs of a file and
    of all packages; \<open>IdlAccepted\<close> what an accepted file satisfies.
  \<^item> \<open>IdlMain\<close> (\<^verbatim>\<open>tools/omni_idlc/main.cpp\<close>): arguments, front end, the list of files to generate.
  \<^item> \<open>Floating\<close>, \<open>Json\<close>, \<open>TypeCodec\<close>, \<open>TypeResolver\<close> (\<^verbatim>\<open>tools/omni_cli/simple_json.cpp\<close>, \<^verbatim>\<open>type_codec.cpp\<close>, \<^verbatim>\<open>type_resolver.cpp\<close>):
    the command line tool's JSON values, their text, and their bytes as a type of an interface file says. A
    \<open>double\<close> is its bit pattern; \<open>Floating\<close> has the conversions. \<open>has_type\<close> is the typing relation.

  \<^bold>\<open>What is shown.\<close> Messages survive the wire, frame by frame and in order, over any split of the byte
  stream (C1--C4); every payload is read back as written, decoders are safe on hostile bytes and a
  failed write leaves no partial data (C5--C7); the ring refines a FIFO queue, is safe against a
  corrupted peer and its bounded send ends (C8--C12); TCP sends report the truth and end (C13);
  negotiation agrees with its specification (C14); the registry refines an abstract directory
  (C15, C16); the topic table keeps its invariant and limits in every history, matches publishers with
  subscribers exactly, and cleans up after closed connections (C17--C19). The service manager keeps its
  tables consistent in every history, cleans up completely when a connection closes, handles hostile
  messages safely, enforces its deadlines and lets no connection publish for another (C20--C23, C26); the
  event loop wakes in time (C24) and watches are told exactly what they asked for (C25). Waiting for a
  reply ends and tells the truth, and replies reach only the call that waits for them (C27, C28). The
  topics of a runtime are those its operations promise (C29). Its connection manager uses no freed
  connection, leaks none, watches exactly the connected ones, never hands out a connection to another
  endpoint, and delivers the messages that arrive in order (C30--C32). The interface compiler reads back what was
  written, loads imports within its limits, orders structs so that they compile, and accepts only sound
  packages (C33--C37). The command line tool reads back the JSON it prints, and its codec keeps to the types
  of an accepted file and reads back what it wrote (C38--C40).

  \<^bold>\<open>Loops and fuel.\<close> Loops over containers are folds. The send loops, which may wait, are
  \<open>partial_function (option)\<close>; that they return is proved for a clock that advances while they sleep. The
  wait for a reply is of the same kind.
  The read and accept loops of the service manager and the read loop of the connection manager are
  \<open>partial_function (option)\<close> too: a peer may send forever; C32 has that the latter returns. \<open>closeClient\<close> and \<open>sendMessage\<close> call each other; the fuel is the number of open connections,
  which \<open>closeClient_fuel_stable\<close> and \<open>closeClient_unfold\<close> show to be enough. The parser of imported files is unrolled \<open>IDLC_MAX_IMPORT_DEPTH\<close> times, which
  is where the code stops, and the walk over imports as often as its counter \<open>traversal\<close> allows; \<open>parse_unfold\<close> and
  \<open>collectVisiblePackages_unfold\<close> show that both satisfy the recursion of the code. The searches over structs count their depth down.

  \<^bold>\<open>Not modelled.\<close> The polling back ends and other system calls (parameters); of the runtime of clients and
  services all but connections, topics and waiting for replies: threads, call dispatch, reconnection; the shared-memory
  handshake and the connections on top of the ring;
  the text the IDL compiler generates; the commands of the command line tool;
  logging; the Windows layer; socket options. The event loop runs on one thread: \<open>post\<close> from other
  threads is a step between rounds. Counters of type \<open>size_t\<close> that count elements in memory are
  natural numbers, and times in milliseconds are integers.
\<close>

section \<open>Messages on a connection\<close>

text \<open>An allocator that always has memory, for the concrete instances below.\<close>

definition plain_alloc :: allocator where
  "plain_alloc n = Some (replicate n 0)"

lemma plain_alloc_total [simp]: "alloc_total plain_alloc"
  by (simp add: alloc_total_def alloc_ok_def plain_alloc_def)

lemma sendable_new [simp]: "sendable (Message_new t seq)"
  by (simp add: sendable_def frame_ok_def Message_new_def Buffer_size_def Buffer_empty_def
      Buffer_wf_def)

lemma frame_ok_new [simp]: "frame_ok (Message_new t seq)"
  using sendable_new [of t seq] by (simp add: sendable_def)

lemma magic_new [simp]: "h_magic (m_header (Message_new t seq)) = OMNI_MAGIC"
  by (simp add: Message_new_def)

lemma wf_default [simp]: "Buffer_wf (m_payload Message_default)"
  by (simp add: Message_default_def)

definition sample_msg :: Message where
  "sample_msg = Message_new MSG_HEARTBEAT 7"

definition sample_tcp :: TcpConnection where
  "sample_tcp = TcpConnection_default\<lparr>tc_fd := 5, tc_state := CONNECTED\<rparr>"

text \<open>A peer whose frame arrives in two pieces, with nothing to read in between.\<close>

definition sample_net :: net where
  "sample_net = \<lparr>net_rx = [RxData (take 5 (frame_bytes sample_msg)), RxBlock,
     RxData (drop 5 (frame_bytes sample_msg))], net_room = [3, 0, 2], net_tx = [], net_errno = 0,
     net_clock = 0\<rparr>"

text \<open>
  \<^bold>\<open>C1\<close>. Messages sent over TCP arrive intact and in order, however the kernel cuts the bytes. Let
  the bytes buffered, in flight and still to be sent be the frames of the messages \<open>ms\<close>. One call of
  \<open>readNextMessage\<close> then either returns 1 with the first message (header and payload) and leaves a
  stream of the remaining ones; or it has received on this connection for as long as \<open>recv\<close> returned
  bytes, and its result is that of the last \<open>recv\<close>: 0 when there was nothing to read, negative when
  the connection failed. It then keeps every byte, and the buffered ones, those it began with and
  those it received, hold no complete frame. In particular it never reports corruption.
\<close>

theorem tcp_messages_in_order:
  assumes "tcp_kernel ops sent inflight" "alloc_total alloc"
    and "Buffer_wf (m_payload out)" "recv_ok b" "\<forall>m \<in> set ms. sendable m"
    and "Buffer_content b @ inflight k @ unsent = concat (map frame_bytes ms)"
  shows "case readNextMessage (tcp_connection ops) alloc (b, out, c, k) of (r, b', out', c', k') \<Rightarrow>
     (r = 1 \<and> (\<exists>m ms'. ms = m # ms' \<and> received m out' \<and> recv_ok b' \<and>
        Buffer_content b' @ inflight k' @ unsent = concat (map frame_bytes ms'))) \<or>
     (r \<le> 0 \<and> recv_ok b' \<and>
        Buffer_content b' @ inflight k' @ unsent = concat (map frame_bytes ms) \<and>
        (ms = [] \<or> length (Buffer_content b') < length (frame_bytes (hd ms))) \<and>
        (\<exists>bs k1 n. recv_run (tcp_connection ops) (c, k) bs (c, k1) \<and>
           Buffer_content b' = Buffer_content b @ bs \<and> 0 < n \<and>
           tcp_recv ops n (c, k1) = (r, [], c', k')))"
  using tcp_kernel.message_stream [OF assms(1-3,5,4,6), of c]
  by (auto simp: stream_result_def tcp_recv_ended split: prod.splits)

theorem tcp_messages_in_order_witness:
  "case readNextMessage (tcp_connection net_ops) plain_alloc (Buffer_empty, Message_default, sample_tcp, sample_net) of (r, b', out', c', k') \<Rightarrow>
     (r = 1 \<and> (\<exists>m ms'. [sample_msg] = m # ms' \<and> received m out' \<and> recv_ok b' \<and>
        Buffer_content b' @ rx_bytes (net_rx k') @ [] = concat (map frame_bytes ms'))) \<or>
     (r \<le> 0 \<and> recv_ok b' \<and>
        Buffer_content b' @ rx_bytes (net_rx k') @ [] = concat (map frame_bytes [sample_msg]) \<and>
        ([sample_msg] = [] \<or> length (Buffer_content b') < length (frame_bytes (hd [sample_msg]))) \<and>
        (\<exists>bs k1 n. recv_run (tcp_connection net_ops) (sample_tcp, sample_net) bs (sample_tcp, k1) \<and>
           Buffer_content b' = Buffer_content Buffer_empty @ bs \<and> 0 < n \<and>
           tcp_recv net_ops n (sample_tcp, k1) = (r, [], c', k')))"
  by (rule tcp_messages_in_order [OF net.tcp_kernel_axioms plain_alloc_total])
    (simp_all add: sample_net_def sample_msg_def)

text \<open>
  \<^bold>\<open>C2\<close>. A message within the size limit survives the wire: \<open>serialize\<close> succeeds and appends one
  frame, and on any bytes that start with that frame \<open>tryExtractFrame\<close> waits until the frame is
  complete and then returns its header and its exact size, whatever follows; the payload is what
  lies behind the header.
\<close>

theorem serialize_extract_roundtrip:
  assumes "frame_ok m" "h_magic (m_header m) = OMNI_MAGIC" "alloc_total alloc"
    and "avail \<le> MESSAGE_HEADER_SIZE + Buffer_size (m_payload m) + length rest"
  shows "\<exists>b. Message_serialize m alloc Buffer_empty = (True, b) \<and>
     length (Buffer_content b) = MESSAGE_HEADER_SIZE + Buffer_size (m_payload m) \<and>
     drop MESSAGE_HEADER_SIZE (Buffer_content b) = Buffer_content (m_payload m) \<and>
     tryExtractFrame (Buffer_content b @ rest) avail =
       (if avail < length (Buffer_content b) then NeedMore
        else Complete ((m_header m)\<lparr>h_length := of_nat (Buffer_size (m_payload m))\<rparr>)
               (length (Buffer_content b)))"
proof -
  note len = length_frame_bytes [OF assms(1)]
  obtain b where b: "Message_serialize m alloc Buffer_empty = (True, b)" "Buffer_content b = frame_bytes m"
    using serialize_frame [OF assms(3,1)] by blast
  have "tryExtractFrame (frame_bytes m @ rest) avail = (if avail < length (frame_bytes m)
      then NeedMore else Complete (frame_header m) (length (frame_bytes m)))"
    using assms(4) len by (intro extract_frame [OF assms(1,2)]) simp_all
  with b len show ?thesis by (simp add: frame_bytes_def frame_header_def)
qed

theorem serialize_extract_roundtrip_witness:
  "\<exists>b. Message_serialize sample_msg plain_alloc Buffer_empty = (True, b) \<and>
     length (Buffer_content b) = MESSAGE_HEADER_SIZE + Buffer_size (m_payload sample_msg) \<and>
     drop MESSAGE_HEADER_SIZE (Buffer_content b) = Buffer_content (m_payload sample_msg) \<and>
     tryExtractFrame (Buffer_content b @ [1, 2]) 16 =
       (if 16 < length (Buffer_content b) then NeedMore
        else Complete ((m_header sample_msg)\<lparr>h_length := of_nat (Buffer_size (m_payload sample_msg))\<rparr>)
               (length (Buffer_content b)))"
  by (rule serialize_extract_roundtrip) (simp_all add: sample_msg_def MESSAGE_HEADER_SIZE_def)

text \<open>
  \<^bold>\<open>C3\<close>. The allocation-free path agrees with the copying one: with memory available,
  \<open>serializeInPlace\<close> turns the payload buffer into exactly the bytes \<open>serialize\<close> writes.
\<close>

theorem serializeInPlace_is_serialize:
  assumes "alloc_total alloc" "frame_ok m" "b_read_pos (m_payload m) \<le> MESSAGE_HEADER_SIZE"
  shows "\<exists>m' b. Message_serializeInPlace alloc m = (True, m') \<and>
     Message_serialize m alloc Buffer_empty = (True, b) \<and>
     Buffer_content (m_payload m') = Buffer_content b"
proof -
  have al: "alloc_ok alloc" using assms(1) by (simp add: alloc_total_def)
  obtain m' where m': "Message_serializeInPlace alloc m = (True, m')"
    using serializeInPlace_total [OF assms(1,2)] by (cases "Message_serializeInPlace alloc m") auto
  obtain b where "Message_serialize m alloc Buffer_empty = (True, b)" "Buffer_content b = frame_bytes m"
    using serialize_frame [OF assms(1,2)] by blast
  with serializeInPlace_spec [OF al assms(2,3) m'] m' show ?thesis by auto
qed

theorem serializeInPlace_is_serialize_witness:
  "\<exists>m' b. Message_serializeInPlace plain_alloc sample_msg = (True, m') \<and>
     Message_serialize sample_msg plain_alloc Buffer_empty = (True, b) \<and>
     Buffer_content (m_payload m') = Buffer_content b"
  by (rule serializeInPlace_is_serialize)
    (simp_all add: sample_msg_def, simp add: Message_new_def Buffer_empty_def)

text \<open>
  \<^bold>\<open>C4\<close>. On arbitrary bytes, a frame that \<open>tryExtractFrame\<close> reports lies inside the available bytes
  and within \<open>MAX_MESSAGE_SIZE\<close>, carries the magic number, and its header is the one the bytes encode.
\<close>

theorem extracted_frame_in_bounds:
  assumes "tryExtractFrame data avail = Complete h n" "avail \<le> length data"
  shows "n \<le> avail \<and> n \<le> MAX_MESSAGE_SIZE \<and> n = MESSAGE_HEADER_SIZE + unat (h_length h) \<and>
     h_magic h = OMNI_MAGIC \<and> take MESSAGE_HEADER_SIZE data = header_bytes h"
  using extract_sound [OF assms] by simp

theorem extracted_frame_in_bounds_witness:
  "\<exists>n. n \<le> 16 \<and> n \<le> MAX_MESSAGE_SIZE \<and> n = MESSAGE_HEADER_SIZE + unat (h_length (m_header sample_msg)) \<and>
     h_magic (m_header sample_msg) = OMNI_MAGIC \<and>
     take MESSAGE_HEADER_SIZE (header_bytes (m_header sample_msg)) = header_bytes (m_header sample_msg)"
proof -
  have "tryExtractFrame (header_bytes (m_header sample_msg)) 16 = Complete (m_header sample_msg) 16"
    using parseHeader_header_bytes [of 16 "m_header sample_msg" "[]"]
    by (simp add: tryExtractFrame_def Message_validateHeader_def sample_msg_def Message_new_def MESSAGE_HEADER_SIZE_def)
  then show ?thesis
    using extracted_frame_in_bounds [of "header_bytes (m_header sample_msg)" 16 "m_header sample_msg" 16]
    by (auto simp: MESSAGE_HEADER_SIZE_def)
qed

section \<open>Encodings\<close>

text \<open>Instances of the transmitted records.\<close>

definition sample_info :: ServiceInfo where
  "sample_info = \<lparr>si_name = ''calc'', si_host = ''10.0.0.2'', si_port = 9000, si_host_id = ''h1'',
     si_instance_id = ''a'', si_shm_config = \<lparr>req_ring_capacity = 4096, resp_ring_capacity = 4096\<rparr>,
     si_interfaces = [\<lparr>ii_interface_id = 1, ii_name = ''Calc'',
       ii_methods = [\<lparr>mi_method_id = 3, mi_idl_hash = 4, mi_name = ''add'', mi_param_types = ''int,int'',
                      mi_return_type = ''int''\<rparr>]\<rparr>]\<rparr>"

definition sample_runtime :: RuntimeInfo where
  "sample_runtime = RuntimeInfo_default\<lparr>ri_pid := 42, ri_process_name := ''calcd'',
     ri_services := [''calc'', ''log''], ri_runtime_id := ''r1'', ri_host_id := ''h1''\<rparr>"

definition sample_hello :: SessionHello where
  "sample_hello = \<lparr>sh_version = 1, sh_runtime_id = ''r1'', sh_incarnation_id = 2,
     sh_heartbeat_interval_ms = 3000, sh_requested_timeout_ms = 0, sh_capabilities = 1,
     sh_host_id = ''h1'', sh_process_name = ''calcd'', sh_pid = 42\<rparr>"

lemmas codec_ok_defs = service_ok_def interface_ok_def method_ok_def runtime_ok_def hello_ok_def
  selector_ok_def identity_ok_def str_ok_def fits_u32_def fits_u16_def UINT32_MAX_def

text \<open>The encodings of the sample records are far below the limit of the address space.\<close>

lemmas enc_size_defs = enc_service_def enc_interface_def enc_method_def enc_runtime_def enc_hello_def
  enc_selector_def enc_identity_def enc_topics_def

text \<open>What was appended to a buffer is read back, and the reader stops exactly behind it.\<close>

definition reads_back :: "('a \<Rightarrow> allocator \<Rightarrow> Buffer \<Rightarrow> bool \<times> Buffer) \<Rightarrow> 'a parser \<Rightarrow> 'a \<Rightarrow> allocator \<Rightarrow> Buffer \<Rightarrow> bool" where
  "reads_back write read x alloc b \<longleftrightarrow>
     (\<exists>b'. write x alloc b = (True, b') \<and>
        read ((view_of (Buffer_content b'))\<lparr>v_pos := b_write_pos b\<rparr>) =
          (Some x, (view_of (Buffer_content b'))\<lparr>v_pos := b_write_pos b'\<rparr>))"

text \<open>
  \<^bold>\<open>C5\<close>. Payload round trips, whatever is in the buffer already: service metadata (interfaces and methods
  included), runtime metadata, both messages of the session handshake, and subscription selectors of
  all three granularities are read back as written, and the reader stops exactly behind them.
\<close>

theorem payload_roundtrips:
  assumes "alloc_total alloc" "Buffer_wf b" "\<not> b_write_failed b"
  shows "(service_ok info \<and> b_write_pos b + length (enc_service info) \<le> 2 ^ 63 \<longrightarrow>
      reads_back serializeServiceInfo deserializeServiceInfo info alloc b) \<and>
    (runtime_ok rt \<and> b_write_pos b + length (enc_runtime rt) \<le> 2 ^ 63 \<longrightarrow>
      reads_back serializeRuntimeInfo deserializeRuntimeInfo rt alloc b) \<and>
    (hello_ok hello \<and> b_write_pos b + length (enc_hello hello) \<le> 2 ^ 63 \<longrightarrow>
      reads_back serializeSessionHello deserializeSessionHello hello alloc b) \<and>
    (b_write_pos b + length (enc_ack ack) \<le> 2 ^ 63 \<longrightarrow>
      reads_back serializeSessionHelloAck deserializeSessionHelloAck ack alloc b) \<and>
    (selector_ok sel \<and> b_write_pos b + length (enc_selector sel) \<le> 2 ^ 63 \<longrightarrow>
      reads_back writeTopicSubscriptionSelector readTopicSubscriptionSelector sel alloc b)"
  using service.roundtrip [OF _ assms, of info] runtime.roundtrip [OF _ assms, of rt] hello.roundtrip [OF _ assms, of hello]
    ack.roundtrip [OF TrueI assms, of ack] selector.roundtrip [OF _ assms, of sel]
  unfolding reads_back_def by blast

theorem payload_roundtrips_witness:
  "reads_back serializeServiceInfo deserializeServiceInfo sample_info plain_alloc Buffer_empty \<and>
   reads_back serializeRuntimeInfo deserializeRuntimeInfo sample_runtime plain_alloc Buffer_empty \<and>
   reads_back serializeSessionHello deserializeSessionHello sample_hello plain_alloc Buffer_empty"
proof -
  have "service_ok sample_info" "b_write_pos Buffer_empty + length (enc_service sample_info) \<le> 2 ^ 63"
    by (simp_all add: sample_info_def codec_ok_defs enc_size_defs)
  moreover have "runtime_ok sample_runtime" "b_write_pos Buffer_empty + length (enc_runtime sample_runtime) \<le> 2 ^ 63"
    by (simp_all add: sample_runtime_def RuntimeInfo_default_def codec_ok_defs enc_size_defs)
  moreover have "hello_ok sample_hello" "b_write_pos Buffer_empty + length (enc_hello sample_hello) \<le> 2 ^ 63"
    by (simp_all add: sample_hello_def codec_ok_defs enc_size_defs)
  ultimately show ?thesis
    using payload_roundtrips [OF plain_alloc_total, of Buffer_empty sample_info sample_runtime sample_hello] by simp
qed

text \<open>
  Service identities: a valid identity is read back from its payload; and on any payload a
  successful read has consumed it to the last byte and yields an identity within the limits.
\<close>

theorem serviceIdentity_payload:
  assumes "identity_ok i" "alloc_total alloc"
  shows "(\<exists>b. writeServiceIdentityPayload i alloc Buffer_empty = (True, b) \<and>
      fst (readServiceIdentityPayload (view_of (Buffer_content b))) = Some i) \<and>
    (\<forall>payload j v. readServiceIdentityPayload (view_of payload) = (Some j, v) \<longrightarrow>
      v_pos v = length payload \<and> identity_ok j)"
proof (intro conjI allI impI)
  have "length (enc_identity i) \<le> 2 ^ 63"
    using assms(1) by (simp add: enc_identity_def identity_ok_def MAX_SERVICE_NAME_LENGTH_def)
  from identity.payload_roundtrip [OF assms this]
  show "\<exists>b. writeServiceIdentityPayload i alloc Buffer_empty = (True, b) \<and>
      fst (readServiceIdentityPayload (view_of (Buffer_content b))) = Some i" .
next
  fix payload j v
  assume r: "readServiceIdentityPayload (view_of payload) = (Some j, v)"
  have ok: "view_ok (view_of payload)" by (simp add: view_ok_def view_of_def)
  show "v_pos v = length payload"
    using identity.rd_reads_all [unfolded reads_all_def, rule_format, OF ok r]
      reader_safeD(2) [OF identity.rd_safe ok r] by (simp add: view_of_def)
  show "identity_ok j"
    using r by (auto simp: readServiceIdentityPayload_def rbind_def rguard_def rret_def rfail_def
        rremaining_def identity_ok_def split: prod.splits option.splits if_splits)
qed

theorem serviceIdentity_payload_witness:
  "(\<exists>b. writeServiceIdentityPayload \<lparr>id_name = ''calc'', id_host_id = ''h1'', id_instance_id = ''a''\<rparr>
        plain_alloc Buffer_empty = (True, b) \<and>
      fst (readServiceIdentityPayload (view_of (Buffer_content b))) =
        Some \<lparr>id_name = ''calc'', id_host_id = ''h1'', id_instance_id = ''a''\<rparr>)"
  using serviceIdentity_payload [of "\<lparr>id_name = ''calc'', id_host_id = ''h1'', id_instance_id = ''a''\<rparr>" plain_alloc]
  by (simp add: identity_ok_def MAX_SERVICE_NAME_LENGTH_def)

text \<open>
  \<^bold>\<open>C6\<close>. Every decoder of the protocol is safe on hostile input: on any view of any bytes it leaves
  the cursor between where it was and the end of the view, leaves the view otherwise alone, and its
  result does not depend on memory beyond the limit.
\<close>

theorem decoders_safe:
  "reader_safe deserializeServiceInfo \<and> reader_safe deserializeInterfaceInfo \<and>
   reader_safe deserializeRuntimeInfo \<and> reader_safe deserializeSessionHello \<and>
   reader_safe deserializeSessionHelloAck \<and> reader_safe readTopicSubscriptionSelector \<and>
   reader_safe readServiceIdentityPayload \<and> reader_safe deserializePublishedTopicsReply"
  by (intro conjI service.rd_safe iface.rd_safe runtime.rd_safe hello.rd_safe ack.rd_safe
      selector.rd_safe identity.rd_safe topics.rd_safe)

text \<open>
  \<^bold>\<open>C7\<close>. Length-prefixed writes are atomic under memory exhaustion: \<open>writeBytes\<close> appends prefix and
  data, or leaves the contents as they were and marks the buffer failed; it never leaves a prefix
  without its data.
\<close>

theorem writeBytes_all_or_nothing:
  assumes "alloc_ok alloc" "Buffer_wf b" "writeBytes src alloc b = (ok, b')"
  shows "Buffer_wf b' \<and> b_read_pos b' = b_read_pos b \<and>
    (if ok then Buffer_content b' = Buffer_content b @ le32 (of_nat (length src)) @ src \<and> \<not> b_write_failed b'
     else Buffer_content b' = Buffer_content b \<and> b_write_failed b')"
  using writeBytes_atomic [OF assms] by (simp add: enc_bytes_def)

text \<open>An allocator that has no memory.\<close>

theorem writeBytes_all_or_nothing_witness:
  "\<exists>b'. writeBytes [1, 2, 3] (\<lambda>_. None) Buffer_empty = (False, b') \<and> b_write_failed b' \<and> Buffer_content b' = []"
proof -
  obtain ok b' where w: "writeBytes [1, 2, 3] (\<lambda>_. None) Buffer_empty = (ok, b')" by force
  have "\<not> ok" using w
    by (auto simp: writeBytes_def Buffer_ensureCapacity_def Buffer_grow_def Buffer_empty_def Buffer_fail_def
        UINT32_MAX_def SIZE_MAX_def DEFAULT_BUFFER_SIZE_def Let_def split: option.splits if_splits prod.splits)
  with writeBytes_all_or_nothing [OF _ _ w] w show ?thesis by (auto simp: alloc_ok_def)
qed

section \<open>Shared-memory rings\<close>

text \<open>An empty ring of 128 bytes whose cursors are near the end, so that the next frame wraps.\<close>

definition sample_ring :: shm_ring where
  "sample_ring = (\<lparr>rh_write_pos = 120, rh_read_pos = 120, rh_capacity = 128, rh_reserved = 0\<rparr>,
                  replicate 128 0)"

lemma sample_ring_holds [simp]: "ring_holds 128 [] sample_ring"
  by (simp add: ring_holds_def sample_ring_def SHM_MIN_RING_CAPACITY_def wrap_def circ_def)

text \<open>
  \<^bold>\<open>C8\<close>. The ring is a FIFO channel: under any interleaving of sends and receives of acceptable
  frames, what is received followed by what the ring still holds is exactly what it held before
  followed by what the sender was told it accepted. No frame is lost, duplicated, altered or
  reordered, also when frames wrap around the end of the data area.
\<close>

theorem ring_is_fifo:
  assumes "ring_holds cap fs ring" "\<forall>f. Send f \<in> set ops \<longrightarrow> frame_fits cap f"
    and "run_ops (ring_send cap) (ring_recv cap) ops ring = (accepted, got, ring')"
  shows "\<exists>rest. ring_holds cap rest ring' \<and> fs @ accepted = got @ rest"
  by (rule ring.fifo [OF assms])

theorem ring_is_fifo_witness:
  "\<exists>accepted got ring' rest. run_ops (ring_send 128) (ring_recv 128)
      [Send [1, 2, 3, 4, 5], Send [7], Recv, Send [8, 9], Recv] sample_ring = (accepted, got, ring') \<and>
     ring_holds 128 rest ring' \<and> [] @ accepted = got @ rest"
proof -
  obtain accepted got ring' where r: "run_ops (ring_send 128) (ring_recv 128)
      [Send [1, 2, 3, 4, 5], Send [7], Recv, Send [8, 9], Recv] sample_ring = (accepted, got, ring')"
    by (metis prod_cases3)
  have fits: "\<forall>f. Send f \<in> set [Send [1, 2, 3, 4, 5], Send [7], Recv, Send [8, 9], Recv] \<longrightarrow> frame_fits 128 f"
    by (auto simp: frame_fits_def MAX_MESSAGE_SIZE_def)
  from ring_is_fifo [OF sample_ring_holds fits r] r show ?thesis by blast
qed

text \<open>
  \<^bold>\<open>C9\<close>. The two operations of the ring, on every branch. A send of an acceptable frame succeeds exactly
  when prefix and data fit into the free space (one byte always stays free), appends the frame, and
  notifies the consumer exactly when the ring was empty; otherwise it changes nothing and reports 0. A
  receive returns the oldest frame, whole, and removes it; with a buffer that is too small it returns
  an error and leaves the frame in place; on an empty ring it returns 0.
\<close>

theorem ring_operations:
  assumes "ring_holds cap fs ring" "frame_fits cap f"
  shows "(\<exists>ring'. shmRingSendFrame cap f (of_nat (length f)) fd ring =
      (if length (frames_bytes fs) + (4 + length f) < unat cap
       then (4 + of_nat (length f), fs = [] \<and> 0 \<le> fd, ring') else (0, False, ring)) \<and>
      (length (frames_bytes fs) + (4 + length f) < unat cap \<longrightarrow> ring_holds cap (fs @ [f]) ring')) \<and>
    (case fs of
      [] \<Rightarrow> shmRingRecvFrame cap out_size ring = (0, 0, [], ring)
    | g # fs' \<Rightarrow>
        if out_size < length g then shmRingRecvFrame cap out_size ring = (-1, 0, [], ring)
        else \<exists>ring'. shmRingRecvFrame cap out_size ring = (int (length g), length g, g, ring') \<and>
               ring_holds cap fs' ring')"
  using send_frame_queue [OF assms, of fd] recv_frame_queue [OF assms(1), of out_size] by blast

theorem ring_operations_witness:
  "\<exists>ring'. shmRingSendFrame 128 [1, 2, 3, 4, 5] 5 9 sample_ring = (9, True, ring') \<and>
     ring_holds 128 [[1, 2, 3, 4, 5]] ring' \<and> shmRingRecvFrame 128 100 sample_ring = (0, 0, [], sample_ring)"
  using ring_operations [OF sample_ring_holds, of "[1, 2, 3, 4, 5]" 9 100]
  by (simp add: frame_fits_def MAX_MESSAGE_SIZE_def)

text \<open>
  \<^bold>\<open>C10\<close>. A corrupt or hostile peer cannot make the receiver leave its own bounds: whatever the shared
  header and data contain, a receive leaves the read cursor inside the ring, does not touch the
  write cursor or the data, and never returns more than the caller's buffer holds.
\<close>

theorem ring_recv_hostile:
  assumes "shmRingRecvFrame cap out_size (h, data) = (ret, n, out, h', data')" "rh_read_pos h < cap"
  shows "rh_read_pos h' < cap \<and> rh_write_pos h' = rh_write_pos h \<and> data' = data \<and>
     (0 < ret \<longrightarrow> n \<le> out_size \<and> length out = n)"
  using recv_in_range [OF assms] by simp

text \<open>A ring whose write cursor and length prefix are nonsense.\<close>

theorem ring_recv_hostile_witness:
  "\<exists>ret n out h' data'. shmRingRecvFrame 128 100
       (\<lparr>rh_write_pos = 0xFFFFFFFF, rh_read_pos = 5, rh_capacity = 128, rh_reserved = 0\<rparr>, replicate 128 255)
       = (ret, n, out, h', data') \<and> rh_read_pos h' < 128 \<and> rh_write_pos h' = 0xFFFFFFFF"
proof -
  obtain ret n out h' data' where r: "shmRingRecvFrame 128 100
       (\<lparr>rh_write_pos = 0xFFFFFFFF, rh_read_pos = 5, rh_capacity = 128, rh_reserved = 0\<rparr>, replicate 128 255)
       = (ret, n, out, h', data')" by (metis prod_cases5)
  from ring_recv_hostile [OF r] r show ?thesis by auto
qed

text \<open>
  \<^bold>\<open>C11\<close>. The bounded send ends and is truthful. While the consumer only takes frames and the clock
  advances with each sleep, \<open>shmRingSendFrameWithinTimeout\<close> returns: 0 with the frame at the end of
  the queue, or -2 with the queue as the consumer left it, and then the timeout has passed or was 0.
\<close>

theorem ring_timed_send_returns:
  assumes "shared_ring now sleep getr putr" "ring_holds cap fs (getr w)" "frame_fits cap f"
  shows "\<exists>r w' k. shmRingSendFrameWithinTimeout now sleep getr putr cap f (of_nat (length f)) fd timeout_ms w
        = Some (r, w') \<and>
     (r = 0 \<and> ring_holds cap (drop k fs @ [f]) (getr w') \<or>
      r = -2 \<and> ring_holds cap (drop k fs) (getr w') \<and> (timeout_ms = 0 \<or> uint timeout_ms \<le> now w' - now w))"
proof -
  obtain h data where g: "getr w = (h, data)" by force
  have d: "\<not> (rh_capacity h \<noteq> cap \<or> cap \<le> rh_write_pos h \<or> cap \<le> rh_read_pos h)"
    "\<not> (cap = 0 \<or> cap - 1 < 4 + of_nat (length f))"
    using assms(2,3) timed_send_guards [of cap fs h data f] by (simp_all add: g)
  show ?thesis
    using shared_ring.loop_result [OF assms(1,3,2), of fd timeout_ms "now w"] d
    by (auto simp: shmRingSendFrameWithinTimeout_def g)
qed

theorem ring_timed_send_returns_witness:
  "\<exists>r w' k. shmRingSendFrameWithinTimeout rw_clock rw_sleep rw_ring (\<lambda>ring w. w\<lparr>rw_ring := ring\<rparr>) 128
        [1, 2] (of_nat (length ([1, 2] :: bytes))) 9 50
        \<lparr>rw_ring = sample_ring, rw_clock = 0, rw_cap = 128\<rparr> = Some (r, w') \<and>
     (r = 0 \<and> ring_holds 128 (drop k [] @ [[1, 2]]) (rw_ring w') \<or>
      r = -2 \<and> ring_holds 128 (drop k []) (rw_ring w') \<and>
        ((50::u32) = 0 \<or> uint (50::u32) \<le> rw_clock w' - rw_clock \<lparr>rw_ring = sample_ring, rw_clock = 0, rw_cap = 128\<rparr>))"
  by (rule ring_timed_send_returns [OF rw.shared_ring_axioms])
    (simp_all add: frame_fits_def MAX_MESSAGE_SIZE_def)

text \<open>
  \<^bold>\<open>C12\<close>. The layout of a mapping: one that \<open>shmInitLayout\<close> prepared is accepted by
  \<open>shmValidateMappedLayout\<close> with the same capacities; and for any mapping whatsoever that is
  accepted, both rings and their headers lie inside it, do not overlap, and have their cursors in
  range.
\<close>

theorem shm_layout:
  "(length addr = mapped_size \<longrightarrow> 64 \<le> unat req \<longrightarrow> 64 \<le> unat resp \<longrightarrow>
      calculateShmSize (unat req) (unat resp) \<le> mapped_size \<longrightarrow>
      shmValidateMappedLayout (shmInitLayout req resp mapped_size addr) mapped_size = Some (req, resp)) \<and>
   (shmValidateMappedLayout mem msize = Some (req', resp') \<longrightarrow>
      shmRequestDataOffset + unat req' \<le> shmResponseRingOffset (unat req') \<and>
      shmResponseDataOffset (unat req') + unat resp' \<le> msize \<and>
      rh_capacity (ring_header_at mem shmRequestRingOffset) = req' \<and>
      rh_read_pos (ring_header_at mem shmRequestRingOffset) < req' \<and>
      rh_write_pos (ring_header_at mem shmRequestRingOffset) < req' \<and>
      rh_capacity (ring_header_at mem (shmResponseRingOffset (unat req'))) = resp' \<and>
      rh_read_pos (ring_header_at mem (shmResponseRingOffset (unat req'))) < resp' \<and>
      rh_write_pos (ring_header_at mem (shmResponseRingOffset (unat req'))) < resp')"
  using init_validates [of addr mapped_size req resp] validated_in_bounds [of mem msize req' resp']
  by blast

theorem shm_layout_witness:
  "shmValidateMappedLayout (shmInitLayout 64 64 300 (replicate 300 7)) 300 = Some (64, 64)"
proof -
  have "calculateShmSize 64 64 \<le> 300"
    by (simp add: calculateShmSize_def shmNormalizeRingCapacity_def shmIsValidRingCapacity_def
        SHM_MIN_RING_CAPACITY_def UINT32_MAX_def layout_defs shmAlignUp_def Let_def)
  then show ?thesis using shm_layout [of "replicate 300 7" 300 64 64 "[]" 0 0 0] by simp
qed

section \<open>Sending over TCP\<close>



section \<open>Sessions and identities\<close>

text \<open>
  \<^bold>\<open>C14\<close>. Session timeout negotiation: the machine-word computation agrees with its specification in
  unbounded arithmetic: the requested timeout, or a default of ten seconds, raised to three missed
  heartbeats, capped by the server's limit if there is one, saturated at \<open>2 ^ 32 - 1\<close>, never 0.
\<close>

theorem session_timeout_negotiation:
  "unat (negotiateSessionTimeout interval requested limit) =
     (let wanted = (if unat requested = 0 then max (3 * unat interval) 10000
                    else max (unat requested) (3 * unat interval));
          capped = (if unat limit = 0 then wanted else min wanted (unat limit))
      in max 1 (min capped (2 ^ 32 - 1)))"
  using negotiateSessionTimeout_spec [of interval requested limit] by (simp add: session_timeout_spec_def)

section \<open>The service registry\<close>

text \<open>
  \<^bold>\<open>C15\<close>. The registry refines a directory: after any sequence of registrations, unregistrations and
  closed connections, starting from the empty registry, the two indexes are consistent
  (\<open>registry_ok\<close>) and the entries are those of the abstract directory, in which a registration
  replaces one \<open>(name, instance)\<close>, an unregistration removes one, and a closed connection removes
  exactly those it serves.
\<close>

theorem registry_refines_directory:
  "registry_ok (fold registry_step ops ServiceRegistry_init) \<and>
   directory_of (fold registry_step ops ServiceRegistry_init) = fold directory_step ops (\<lambda>_. None)"
proof -
  have "directory_of ServiceRegistry_init = (\<lambda>_. None)"
    by (auto simp: directory_of_def findEntry_def ServiceRegistry_init_def)
  then show ?thesis
    using registry.inv_run [OF registry_ok_init] registry.abs_run [OF registry_ok_init] by simp
qed

definition sample_registry :: ServiceRegistry where
  "sample_registry = snd (addService sample_info 7 ServiceRegistry_init)"

lemma sample_registry_ok [simp]: "registry_ok sample_registry"
  by (simp add: sample_registry_def addService_ok registry_ok_init)

lemma sample_registry_entry:
  "\<exists>e. findEntry ''calc'' ''a'' sample_registry = Some e \<and> se_info e = sample_info \<and> se_control_fd e = 7"
proof -
  obtain h d reg where a: "addService sample_info 7 ServiceRegistry_init = ((h, d), reg)" by (metis prod.exhaust)
  have "acceptable sample_info" by (simp add: acceptable_def sample_info_def MAX_SERVICE_NAME_LENGTH_def)
  moreover have "findEntry (si_name sample_info) (si_instance_id sample_info) ServiceRegistry_init = None"
    by (simp add: findEntry_def ServiceRegistry_init_def)
  ultimately show ?thesis
    using addService_new(3) [OF _ _ a, of "''calc''" "''a''"] by (simp add: sample_registry_def a) (simp add: sample_info_def)
qed

text \<open>
  \<^bold>\<open>C16\<close>. Registering again the same \<open>(name, instance)\<close> is a takeover: the handle stays, metadata and
  connection are replaced, a different old connection is reported as displaced, and no other entry
  changes. A registration outside the name limits changes nothing and returns the invalid handle.
\<close>

theorem addService_behaviour:
  assumes "registry_ok reg" "addService info fd reg = ((handle, displaced), reg')"
  shows "registry_ok reg' \<and>
    (if \<not> acceptable info then handle = INVALID_HANDLE \<and> displaced = -1 \<and> reg' = reg
     else
       handle \<noteq> INVALID_HANDLE \<and>
       (\<forall>n k. findEntry n k reg' = (if n = si_name info \<and> k = si_instance_id info
          then Some \<lparr>se_info = info, se_handle = handle, se_control_fd = fd\<rparr> else findEntry n k reg)) \<and>
       (case findEntry (si_name info) (si_instance_id info) reg of
          None \<Rightarrow> displaced = -1
        | Some old \<Rightarrow> handle = se_handle old \<and>
            displaced = (if se_control_fd old \<noteq> fd then se_control_fd old else -1)))"
proof (cases "acceptable info")
  case False
  with addService_reject [OF False, of fd reg] assms show ?thesis by simp
next
  case True
  show ?thesis
  proof (cases "findEntry (si_name info) (si_instance_id info) reg")
    case None
    from addService_new [OF True None assms(2)] assms(1) True None show ?thesis by simp
  next
    case (Some old)
    have "se_handle old \<noteq> INVALID_HANDLE"
      using registry_okD(4) [OF assms(1)] Some by (auto simp: findEntry_inst_lookup entry_ok_def)
    with addService_takeover [OF True Some assms(2)] assms(1) True Some show ?thesis by simp
  qed
qed

theorem addService_behaviour_witness:
  "\<exists>handle reg'. addService sample_info 8 sample_registry = ((handle, 7), reg') \<and> registry_ok reg'"
proof -
  obtain handle displaced reg' where a: "addService sample_info 8 sample_registry = ((handle, displaced), reg')"
    by (metis prod.exhaust)
  have "acceptable sample_info" by (simp add: acceptable_def sample_info_def MAX_SERVICE_NAME_LENGTH_def)
  with addService_behaviour [OF sample_registry_ok a] sample_registry_entry a show ?thesis
    by (auto simp: sample_info_def)
qed

text \<open>
  Lookup and removal. A lookup by name fails exactly when no instance of the name is registered, and
  otherwise returns the instance with the least instance key. Closing a connection removes exactly the
  instances it serves and reports each of them once, in the order of their registration.
\<close>

theorem registry_find_and_remove:
  assumes "registry_ok reg" "removeByFd fd reg = (removed, reg')"
  shows "(findService name reg = None \<longleftrightarrow> (\<forall>k. findEntry name k reg = None)) \<and>
    (\<forall>e. findService name reg = Some e \<longrightarrow>
      (\<exists>k. findEntry name k reg = Some e \<and> (\<forall>k' e'. findEntry name k' reg = Some e' \<longrightarrow> k \<le> k'))) \<and>
    registry_ok reg' \<and>
    (\<forall>n k. findEntry n k reg' = (case findEntry n k reg of None \<Rightarrow> None
        | Some e \<Rightarrow> if se_control_fd e = fd then None else Some e)) \<and>
    map (\<lambda>i. \<lparr>ref_name = id_name i, ref_instance_key = id_instance_id i\<rparr>) removed = fd_refs fd reg"
  using findService_None [OF assms(1)] findService_least [of name reg] removeByFd_spec [OF assms] by blast

theorem registry_find_and_remove_witness:
  "\<exists>removed reg'. removeByFd 7 sample_registry = (removed, reg') \<and> registry_ok reg' \<and>
     findEntry ''calc'' ''a'' reg' = None \<and> findService ''calc'' sample_registry \<noteq> None"
proof -
  obtain removed reg' where r: "removeByFd 7 sample_registry = (removed, reg')" by force
  with registry_find_and_remove [OF sample_registry_ok r, of "''calc''"] sample_registry_entry show ?thesis by auto
qed

section \<open>The topic table\<close>


definition sample_topics :: TopicManager where
  "sample_topics = snd (addSubscriberFilter ''state'' (Filter_service ''calc'') 9
     (snd (registerPublisher ''state'' sample_info 7 42 TopicManager_init)))"

lemma sample_topics_reachable [simp]: "topic_reachable sample_topics"
  unfolding sample_topics_def
  by (rule topic_reachable.step, rule topic_reachable.step, rule topic_reachable.init)
    (rule topic_step.intros, rule prod.collapse [symmetric])+


text \<open>
  \<^bold>\<open>C18\<close>. Publishers and subscribers find each other. The connections told about a publisher of a
  topic are those with a subscription to the topic whose filter matches it, each once, in ascending
  order; the publishers returned to a subscriber are exactly those its filter matches.
\<close>

theorem topic_matching:
  assumes "topic_reachable tm"
  shows "set (getMatchingSubscribers topic info tm) =
      {fd. \<exists>s k f. sub_at tm s topic fd k = Some f \<and> filter_matches f info} \<and>
    sorted (getMatchingSubscribers topic info tm) \<and> distinct (getMatchingSubscribers topic info tm) \<and>
    set (getMatchingPublishers topic f tm) =
      {\<lparr>pv_info = ps_info slot, pv_idl_hash = ps_idl_hash slot\<rparr> | s k slot.
         pub_at tm s topic k = Some slot \<and> filter_matches f (ps_info slot)}"
proof -
  have wf: "topic_wf UNIV UNIV tm" using topic_reachable_inv [OF assms] by (simp add: topic_inv_def)
  show ?thesis using getMatchingSubscribers_spec [OF wf] getMatchingPublishers_spec [OF wf] by blast
qed

lemma sample_topics_views:
  "pub_at sample_topics ''calc'' ''state'' ''a'' = Some (slot_of sample_info 7 42)"
  "sub_at sample_topics ''calc'' ''state'' 9 (filter_key (Filter_service ''calc'')) = Some (Filter_service ''calc'')"
proof -
  obtain ok tm1 where 1: "registerPublisher ''state'' sample_info 7 42 TopicManager_init = (ok, tm1)" by force
  obtain ok' tm2 where 2: "addSubscriberFilter ''state'' (Filter_service ''calc'') 9 tm1 = (ok', tm2)" by force
  have ok: ok using 1
    by (auto simp: registerPublisher_def sample_info_def TopicManager_init_def Let_def service_load_def
        MAX_TOPIC_NAME_LENGTH_def MAX_SERVICE_NAME_LENGTH_def MAX_TOPICS_GLOBAL_def MAX_PUBLISHED_TOPICS_def
        MAX_PUBLISHED_TOPICS_BYTES_def add_entry_def split: if_splits option.splits)
  have svc: "tf_publisher_service (Filter_service ''calc'') = ''calc''" by (simp add: Filter_service_def)
  note wf1 = topic_wf_init(1) [of UNIV UNIV]
  have s1: "topic_wf UNIV UNIV tm1" "sub_at tm1 = sub_at TopicManager_init"
    "pub_at tm1 ''calc'' ''state'' ''a'' = Some (slot_of sample_info 7 42)"
    using registerPublisher_spec [OF wf1 1] ok by (simp_all add: sample_info_def)
  have none: "sub_places tm1 = {}"
    using s1(2) by (simp add: sub_places_def sub_view_def sub_at_def TopicManager_init_def case_prod_unfold)
  then have "total_subscriptions tm1 = 0" "om_lookup (fd_subscription_counts tm1) 9 = None"
    using subscription_counters [OF s1(1)] by (simp_all add: counted_def)
  moreover obtain e where e: "om_lookup (topics tm1) (entryKey ''calc'' ''state'') = Some e"
    using s1(3) by (auto simp: pub_at_def split: option.splits)
  moreover have "om_size (te_subscribers e) = 0" using subscribers_card [OF s1(1) e] none by simp
  moreover from this have "om_lookup (te_subscribers e) 9 = None" by (simp add: om_size_0_iff om_is_empty_iff)
  ultimately have ok': ok' using 2
    by (auto simp: addSubscriberFilter_def Filter_service_def Filter_default_def Let_def topic_name_invalid_def
        MAX_TOPIC_NAME_LENGTH_def MAX_SERVICE_NAME_LENGTH_def MAX_TOPIC_SUBSCRIPTIONS_PER_CONNECTION_def
        MAX_TOPIC_SUBSCRIPTIONS_GLOBAL_def MAX_SUBSCRIBERS_PER_TOPIC_def split: if_splits)
  show "pub_at sample_topics ''calc'' ''state'' ''a'' = Some (slot_of sample_info 7 42)"
    "sub_at sample_topics ''calc'' ''state'' 9 (filter_key (Filter_service ''calc'')) = Some (Filter_service ''calc'')"
    using addSubscriberFilter_spec [OF s1(1) UNIV_I 2] ok' s1(3) svc
    by (simp_all add: sample_topics_def 1 2)
qed

theorem topic_matching_witness:
  "9 \<in> set (getMatchingSubscribers ''state'' sample_info sample_topics) \<and>
   getMatchingPublishers ''state'' (Filter_service ''calc'') sample_topics \<noteq> []"
proof -
  have m: "filter_matches (Filter_service ''calc'') sample_info"
    by (simp add: filter_matches_def Filter_service_def Filter_default_def sample_info_def)
  have i: "ps_info (slot_of sample_info 7 42) = sample_info" by (simp add: slot_of_def)
  have "set (getMatchingPublishers ''state'' (Filter_service ''calc'') sample_topics) =
      {\<lparr>pv_info = ps_info slot, pv_idl_hash = ps_idl_hash slot\<rparr> | s k slot.
         pub_at sample_topics s ''state'' k = Some slot \<and> filter_matches (Filter_service ''calc'') (ps_info slot)}"
    using topic_matching [OF sample_topics_reachable] by blast
  moreover have "\<exists>s k slot. pub_at sample_topics s ''state'' k = Some slot \<and> filter_matches (Filter_service ''calc'') (ps_info slot)"
    using sample_topics_views(1) m i by metis
  ultimately have "set (getMatchingPublishers ''state'' (Filter_service ''calc'') sample_topics) \<noteq> {}" by auto
  then show ?thesis
    using topic_matching [OF sample_topics_reachable, of "''state''" sample_info Filter_default] sample_topics_views(2) m
    by auto
qed

text \<open>
  A subscription that is accepted adds exactly itself and was not there before; one that is
  refused (a bad name, a duplicate, a limit) changes nothing; and unsubscribing with the same filter
  takes it away again, with every other subscription and every publication as it was.
\<close>

theorem subscribe_unsubscribe:
  assumes "topic_reachable tm" "addSubscriberFilter topic f fd tm = (ok, tm1)"
    and "removeSubscriberFilter topic f fd tm1 = (ok2, tm2)"
  shows "if ok
    then sub_at tm (tf_publisher_service f) topic fd (filter_key f) = None \<and>
      sub_at tm1 (tf_publisher_service f) topic fd (filter_key f) = Some f \<and> ok2 \<and>
      sub_at tm2 = sub_at tm \<and> pub_at tm1 = pub_at tm \<and> pub_at tm2 = pub_at tm
    else tm1 = tm"
proof (cases ok)
  case False
  have "topic_wf UNIV UNIV tm" using topic_reachable_inv [OF assms(1)] by (simp add: topic_inv_def)
  with False addSubscriberFilter_spec [OF _ UNIV_I assms(2)] show ?thesis by auto
next
  case True
  have "topic_wf UNIV UNIV tm" using topic_reachable_inv [OF assms(1)] by (simp add: topic_inv_def)
  note a = addSubscriberFilter_spec [OF this UNIV_I assms(2)]
  then have wf1: "topic_wf UNIV UNIV tm1" by blast
  note r = removeSubscriberFilter_spec [OF wf1 UNIV_I assms(3)]
  have new: "sub_at tm (tf_publisher_service f) topic fd (filter_key f) = None"
    and sub1: "sub_at tm1 s t fd' k = (if s = tf_publisher_service f \<and> t = topic \<and> fd' = fd \<and> k = filter_key f
           then Some f else sub_at tm s t fd' k)"
    and sub2: "sub_at tm2 s t fd' k = (if s = tf_publisher_service f \<and> t = topic \<and> fd' = fd \<and> k = filter_key f
       then None else sub_at tm1 s t fd' k)" for s t fd' k
    using a r True by simp_all
  have "sub_at tm2 = sub_at tm" by (intro ext) (simp add: sub2 sub1 new)
  with a r True new sub1 show ?thesis by simp
qed

text \<open>
  \<^bold>\<open>C19\<close>. A closed connection leaves nothing behind and takes nothing else along: its publications and
  subscriptions are gone, all others are as before, and the topics reported are those it published.
\<close>

theorem topics_close_exact:
  assumes "topic_reachable tm" "topics_removeByFd fd tm = (removed, tm')"
  shows "(\<forall>s t k. pub_at tm' s t k = (case pub_at tm s t k of None \<Rightarrow> None
        | Some slot \<Rightarrow> if ps_fd slot = fd then None else Some slot)) \<and>
    (\<forall>s t fd' k. sub_at tm' s t fd' k = (if fd' = fd then None else sub_at tm s t fd' k)) \<and>
    set removed = {t. \<exists>s k slot. pub_at tm s t k = Some slot \<and> ps_fd slot = fd}"
proof -
  have "topic_wf UNIV UNIV tm" using topic_reachable_inv [OF assms(1)] by (simp add: topic_inv_def)
  from topics_removeByFd_spec [OF this assms(2)] show ?thesis by (auto simp: drop_if_def split: option.splits)
qed

theorem topics_close_exact_witness:
  "\<exists>removed tm'. topics_removeByFd 7 sample_topics = (removed, tm') \<and> ''state'' \<in> set removed \<and>
     pub_at tm' ''calc'' ''state'' ''a'' = None \<and>
     sub_at tm' ''calc'' ''state'' 9 (filter_key (Filter_service ''calc'')) = Some (Filter_service ''calc'')"
proof -
  obtain removed tm' where r: "topics_removeByFd 7 sample_topics = (removed, tm')" by force
  have "ps_fd (slot_of sample_info 7 42) = 7" by (simp add: slot_of_def)
  with topics_close_exact [OF sample_topics_reachable r] sample_topics_views r show ?thesis by auto
qed

lemma topics_fit_all:
  "(\<And>t. t \<in> set ts \<Longrightarrow> \<not> topic_name_invalid t) \<Longrightarrow> a + sum_list (map length ts) \<le> MAX_PUBLISHED_TOPICS_BYTES \<Longrightarrow>
   topics_fit a ts"
proof (induction ts arbitrary: a)
  case (Cons t ts)
  have "topics_fit (a + length t) ts" using Cons.prems by (intro Cons.IH) simp_all
  moreover have "topic_accepted a t"
    using Cons.prems(1) [of t] Cons.prems(2) by (auto simp: topic_accepted_def topic_name_invalid_def)
  ultimately show ?case by simp
qed simp

lemma published_topics_ok:
  assumes "topic_reachable tm"
  shows "topics_ok (True, getPublishedTopics service tm)"
proof -
  have wf: "topic_wf UNIV UNIV tm" using topic_reachable_inv [OF assms] by (simp add: topic_inv_def)
  have "length (getPublishedTopics service tm) \<le> MAX_PUBLISHED_TOPICS"
    "sum_list (map length (getPublishedTopics service tm)) \<le> MAX_PUBLISHED_TOPICS_BYTES"
    using topic_reachable_limits [OF assms] by (simp_all add: topic_limits_def content_limits_def)
  moreover have "\<not> topic_name_invalid t" if "t \<in> set (getPublishedTopics service tm)" for t
    using that topic_wfD(1) [OF wf] unfolding getPublishedTopics_spec(1) [OF wf]
    by (fastforce simp: pub_at_def entry_shape_def entryKey_inj split: option.splits)
  ultimately show ?thesis by (simp add: topics_ok_def topics_fit_all)
qed

text \<open>
  The published-topics reply. A list within the protocol limits (at most 4096 topics, 512 KiB of
  names, no empty name) is read back as it was; a list outside them is refused and nothing is written.
  The service manager is never in that position: in every history the topics of a service are within
  the limits, so every query is answered and the client reads the same list.
\<close>

theorem published_topics_reply:
  assumes "topic_reachable tm" "alloc_total alloc"
  shows "(if topics_ok (found, ts)
     then \<exists>b. serializePublishedTopicsReply (found, ts) alloc Buffer_empty = (True, b) \<and>
            fst (deserializePublishedTopicsReply (view_of (Buffer_content b))) = Some (found, ts)
     else serializePublishedTopicsReply (found, ts) alloc b0 = (False, b0)) \<and>
    topics_ok (True, getPublishedTopics service tm)"
proof (cases "topics_ok (found, ts)")
  case True
  from topics.payload_roundtrip [OF True assms(2)] enc_topics_size [OF True] True published_topics_ok [OF assms(1)]
  show ?thesis by simp
next
  case False
  then show ?thesis
    using published_topics_ok [OF assms(1)] by (auto simp: topics_ok_def serializePublishedTopicsReply_def)
qed

theorem published_topics_reply_witness:
  "\<exists>b. serializePublishedTopicsReply (True, [''state'', ''alarm'']) plain_alloc Buffer_empty = (True, b) \<and>
     fst (deserializePublishedTopicsReply (view_of (Buffer_content b))) = Some (True, [''state'', ''alarm'']) \<and>
     topics_ok (True, getPublishedTopics ''calc'' sample_topics)"
  using published_topics_reply [OF sample_topics_reachable plain_alloc_total, of True "[''state'', ''alarm'']" Buffer_empty "''calc''"]
  by (simp add: topics_ok_def topic_accepted_def MAX_PUBLISHED_TOPICS_def MAX_TOPIC_NAME_LENGTH_def
      MAX_PUBLISHED_TOPICS_BYTES_def)

section \<open>The service manager\<close>

text \<open>A host with one client waiting at its listening socket, for the concrete instances below.\<close>

definition net_listen :: "net ListenOps" where
  "net_listen = \<lparr>k_setReuseAddr = (\<lambda>fd k. (True, k)), k_setNonBlocking = (\<lambda>fd k. (True, k)),
     k_bindSocket = (\<lambda>fd host port k. (True, k)), k_listenSocket = (\<lambda>fd k. (True, k)),
     k_getSocketPort = (\<lambda>fd k. 9900),
     k_acceptSocket = (\<lambda>fd k. if net_errno k = 0 then (7, k\<lparr>net_errno := 11\<rparr>) else (INVALID_SOCKET_FD, k))\<rparr>"

definition sample_env :: "(net, nat) SmEnv" where
  "sample_env = \<lparr>env_ops = net_ops, env_lops = net_listen, env_alloc = plain_alloc,
     env_backend = \<lparr>be_addFd = (\<lambda>fd ev b. (True, b)), be_modifyFd = (\<lambda>fd ev b. (True, b)), be_removeFd = (\<lambda>fd b. b)\<rparr>\<rparr>"

definition sample_start :: "bool \<times> (net, nat) ServiceManagerApp" where
  "sample_start = sm_init sample_env True 4 ''0.0.0.0'' 9900 (ServiceManagerApp_init 1 2 (Some 0) sample_net 0)"

definition sample_event :: "(net, nat) ServiceManagerApp option" where
  "sample_event = onEndpointEvent sample_env 3 EVENT_READ (snd sample_start)"

lemma sample_start_ok: "sample_start = (True, snd sample_start)"
  by (simp add: sample_start_def sm_init_def endpoint_start_def sample_env_def net_ops_def net_listen_def
      TcpServerEndpoint_init_def INVALID_SOCKET_FD_def Let_def)

lemma sample_start_fields:
  "sm_server (snd sample_start) = Some \<lparr>listen_fd = 3, listen_port = 9900, listen_host = ''0.0.0.0'', ep_clients = om_empty\<rparr>"
  "sm_clients (snd sample_start) = om_empty" "sm_kernel (snd sample_start) = sample_net" "sm_dangling (snd sample_start) = False"
  by (simp_all add: sample_start_def sm_init_def endpoint_start_def sample_env_def net_ops_def net_listen_def
      TcpServerEndpoint_init_def INVALID_SOCKET_FD_def Let_def pollFds_def om_keys_def registerEndpointFd_def ServiceManagerApp_init_def)

lemma sample_accept:
  "accept_loop (env_ops sample_env) (env_lops sample_env) [] s sample_net =
     Some ([7], s\<lparr>ep_clients := om_update 7 (TcpConnection_default\<lparr>tc_fd := 7, tc_state := CONNECTED\<rparr>) (ep_clients s)\<rparr>,
       sample_net\<lparr>net_errno := 11\<rparr>)"
  by (simp add: accept_loop.simps sample_env_def net_listen_def net_ops_def sample_net_def TcpConnection_accepted_def
      INVALID_SOCKET_FD_def Let_def)

lemma sample_event_ok: "sample_event = Some (the sample_event)" "live 7 (the sample_event)" "\<not> sm_dangling (the sample_event)"
proof -
  note d = sample_event_def onEndpointEvent_def onPollEvent_def sm_endpoint_def sample_start_fields sample_accept
  show "sample_event = Some (the sample_event)" by (simp add: d)
  show "\<not> sm_dangling (the sample_event)"
    by (simp add: d onClientAccepted_def live_def armHelloDeadline_def with_conn_def registerEndpointFd_def put_conn_def
        sm_now_def sm_addTimer_def sm_cancelTimer_def Let_def case_prod_unfold)
  show "live 7 (the sample_event)"
    by (simp add: d onClientAccepted_def live_def armHelloDeadline_def with_conn_def registerEndpointFd_def put_conn_def
        sm_now_def sm_addTimer_def sm_cancelTimer_def Let_def case_prod_unfold)
qed

lemma sample_reachable: "sm_reachable sample_env (the sample_event)"
proof (rule sm_reachable.event)
  show "sm_reachable sample_env (snd sample_start)"
    using sample_start_ok unfolding sample_start_def by (rule sm_reachable.start)
  show "onEndpointEvent sample_env 3 EVENT_READ (snd sample_start) = Some (the sample_event)"
    using sample_event_ok(1) by (simp only: sample_event_def)
qed (simp add: sample_start_fields)

lemma sample_event_holds: "\<not> holds (the sample_event) r fd"
proof -
  have "tables (the sample_event) = tables (snd sample_start)"
    by (simp add: sample_event_def onEndpointEvent_def onPollEvent_def sm_endpoint_def sample_start_fields sample_accept
        onClientAccepted_def live_def armHelloDeadline_def with_conn_def registerEndpointFd_def put_conn_def sm_now_def
        sm_addTimer_def sm_cancelTimer_def Let_def case_prod_unfold tables_def)
  moreover have "tables (snd sample_start) = tables (ServiceManagerApp_init 1 2 (Some (0::nat)) sample_net 0)"
    by (simp add: sample_start_def sm_init_def endpoint_start_def sample_env_def net_ops_def net_listen_def
        TcpServerEndpoint_init_def INVALID_SOCKET_FD_def Let_def pollFds_def om_keys_def registerEndpointFd_def tables_def)
  ultimately show ?thesis
    using tables_holds [of "the sample_event" "ServiceManagerApp_init 1 2 (Some 0) sample_net 0"] holds_init by metis
qed

lemma sample_event_sm_ok: "sm_ok (the sample_event)"
  by (rule upto_ok [OF sm_reachable_ok [OF sample_reachable] sample_event_ok(3)])





text \<open>
  \<^bold>\<open>C22\<close>. Handling a message is memory safe. Whatever the message contains and whichever sends fail
  meanwhile, a handler run on an open connection keeps the invariant and uses no deleted connection.
  The two exceptions are subscribing to services and the hello of a runtime, which go on with their
  connection after a send that may have closed it; even they keep the invariant as long as the
  connection survives.
\<close>

theorem handlers_memory_safe:
  assumes "sm_ok sm" "live fd sm"
  shows "(type \<notin> {MSG_SUBSCRIBE_SERVICE_WATCH, MSG_RUNTIME_HELLO} \<longrightarrow>
       sm_ok (dispatch e type fd msg sm) \<and> \<not> sm_dangling (dispatch e type fd msg sm)) \<and>
    (live fd (dispatch e type fd msg sm) \<longrightarrow>
       sm_ok (dispatch e type fd msg sm) \<and> \<not> sm_dangling (dispatch e type fd msg sm))"
proof -
  have safe: "\<not> sm_dangling s" if "sm_ok s" for s :: "('a, 'b) ServiceManagerApp"
    using sm_okD(6) [OF that] by (simp add: SMTables.connected_def)
  show ?thesis
    using dispatch_ok [OF assms, of type e msg] semi_okD(1) [OF dispatch_semi [OF assms, of e type msg]] safe by blast
qed

theorem handlers_memory_safe_witness:
  "sm_ok (dispatch sample_env MSG_LOOKUP 7 sample_msg (the sample_event)) \<and>
   \<not> sm_dangling (dispatch sample_env MSG_LOOKUP 7 sample_msg (the sample_event))"
  using handlers_memory_safe [OF sample_event_sm_ok sample_event_ok(2), of MSG_LOOKUP sample_env sample_msg]
  by (simp only: insert_iff empty_iff MessageType.distinct simp_thms)

text \<open>
  \<^bold>\<open>C23\<close>. A session that keeps sending heartbeats stays, one that stops is closed. A heartbeat before the
  hello, or one that does not name the connection's incarnation, closes the connection. Any other one,
  unless sending the acknowledgement closes the connection, leaves it with a timer armed for the
  negotiated timeout from now, whose expiry closes the connection, while the expiry of every other
  deadline of the connection (those armed before, for the session or the hello) has no effect. And an
  expired hello deadline closes the connection exactly while no hello has arrived.
\<close>

theorem session_deadlines:
  assumes "om_lookup (sm_clients sm) fd = Some c"
  shows "(let sm' = handleControlHeartbeat e fd msg sm in
       if cc_hello_received c \<and> fst (tryReadUint32 (payload_view msg)) = Some (cc_incarnation_id c) then
         live fd sm' \<longrightarrow>
         (\<exists>c'. om_lookup (sm_clients sm') fd = Some c' \<and> cc_session_generation c' = cc_session_generation c + 1 \<and>
            cc_last_heartbeat_ms c' = fst (sm_now e sm) \<and>
            (\<exists>t \<in> set (live_timers (timers (sm_loop sm'))).
               t_id t = cc_deadline_timer_id c' \<and> t_callback t = SessionDeadline fd (cc_session_generation c') \<and>
               t_expire_ms t = fst (sm_now e (snd (sm_now e sm))) +
                 uint (if 0 < cc_session_timeout_ms c then cc_session_timeout_ms c else DEFAULT_HEARTBEAT_TIMEOUT)) \<and>
            \<not> live fd (run_functor e (SessionDeadline fd (cc_session_generation c')) sm') \<and>
            (\<forall>g. g \<noteq> cc_session_generation c' \<longrightarrow>
               run_functor e (SessionDeadline fd g) sm' = sm' \<and> run_functor e (HelloDeadline fd g) sm' = sm'))
       else sm' = closeClient e fd True sm) \<and>
    run_functor e (HelloDeadline fd (cc_session_generation c)) sm =
      (if cc_hello_received c then sm else closeClient e fd True sm)"
proof -
  have stale: "run_functor e (SessionDeadline fd g) s = s \<and> run_functor e (HelloDeadline fd g) s = s"
    if "om_lookup (sm_clients s) fd = Some d" "g \<noteq> cc_session_generation d" for s d g
    using that by (simp add: onHelloDeadline_def onSessionDeadline_def)
  have fire: "\<not> live fd (run_functor e (SessionDeadline fd (cc_session_generation d)) s)"
    if "om_lookup (sm_clients s) fd = Some d" for s d
    using that closeClient_dead by (simp add: onSessionDeadline_def)
  have hello: "run_functor e (HelloDeadline fd (cc_session_generation c)) sm =
      (if cc_hello_received c then sm else closeClient e fd True sm)"
    using assms by (simp add: onHelloDeadline_def)
  show ?thesis
  proof (cases "cc_hello_received c \<and> fst (tryReadUint32 (payload_view msg)) = Some (cc_incarnation_id c)")
    case True
    then have ok: "cc_hello_received c" "fst (tryReadUint32 (payload_view msg)) = Some (cc_incarnation_id c)" by auto
    show ?thesis unfolding Let_def if_P [OF True]
      using heartbeat_arms [OF assms ok refl, of e] stale fire hello by meson
  next
    case False
    then have "handleControlHeartbeat e fd msg sm = closeClient e fd True sm"
      using assms by (auto simp: handleControlHeartbeat_def with_conn_def split: option.splits)
    with hello show ?thesis unfolding Let_def if_not_P [OF False] by blast
  qed
qed

text \<open>A connection after its hello, on which a heartbeat arrives.\<close>

definition sample_peer :: ClientConnection where
  "sample_peer = (ClientConnection_init plain_alloc)\<lparr>cc_fd := 7, cc_hello_received := True, cc_incarnation_id := 5,
     cc_session_timeout_ms := 900, cc_send_buffer := Buffer_empty\<rparr>"

definition sample_session :: "(net, nat) ServiceManagerApp" where
  "sample_session = (ServiceManagerApp_init 1 2 (Some 0) sample_net 0)
     \<lparr>sm_clients := om_update 7 sample_peer om_empty,
      sm_server := Some (TcpServerEndpoint_init\<lparr>ep_clients := om_update 7 sample_tcp om_empty\<rparr>)\<rparr>"

definition sample_heartbeat :: Message where
  "sample_heartbeat = (Message_new MSG_CONTROL_HEARTBEAT 3)\<lparr>m_payload :=
     \<lparr>b_data = le32 5, b_capacity = 4, b_write_pos = 4, b_read_pos = 0, b_write_failed = False\<rparr>\<rparr>"

lemma net_send_loop_ok: "fst (tcp_send_loop net_ops fd data n k) \<noteq> None"
proof (induction "net_ops" fd data n k rule: tcp_send_loop.induct)
  case (1 fd data n k)
  obtain r k' where s: "k_socketSend net_ops fd (drop n data) k = (r, k')" by force
  have "r < 0 \<Longrightarrow> isWouldBlock (k_getSocketError net_ops k')"
    using s by (auto simp: net_ops_def net_send_def isWouldBlock_def split: list.splits if_splits)
  with 1 s show ?case by (subst tcp_send_loop.simps) (auto split: if_splits)
qed

lemma net_reply_live:
  assumes "map_option (\<lambda>c. cc_send_offset c < Buffer_size (cc_send_buffer c)) (om_lookup (sm_clients sm) fd) = Some False"
    and "sm_server sm = Some s" "om_lookup (ep_clients s) fd = Some tc" "tc_state tc = CONNECTED"
  shows "live fd (reply sample_env fd msg sm)"
proof -
  obtain c where c: "om_lookup (sm_clients sm) fd = Some c" "\<not> cc_send_offset c < Buffer_size (cc_send_buffer c)"
    using assms(1) by auto
  obtain ok out where ser: "Message_serialize msg (env_alloc sample_env) Buffer_empty = (ok, out)" by force
  obtain sent k where r: "tcp_send_loop net_ops (tc_fd tc) (Buffer_content out) 0 (sm_kernel sm) = (Some sent, k)"
    using net_send_loop_ok [of "tc_fd tc" "Buffer_content out" 0 "sm_kernel sm"]
    by (cases "tcp_send_loop net_ops (tc_fd tc) (Buffer_content out) 0 (sm_kernel sm)") auto
  have "env_ops sample_env = net_ops" by (simp add: sample_env_def)
  then obtain n sm1 where "transport_send sample_env fd (Buffer_content out) sm = (n, sm1)" "0 \<le> n" "sm_clients sm1 = sm_clients sm"
    using assms(2-4) r by (cases "Buffer_content out") (auto simp: transport_send_def tcp_send_def)
  then show ?thesis
    using c ser
    by (auto simp: sendMessage_def with_conn_def Let_def live_def enableClientWriteEvents_def sm_modifyFd_def put_conn_def
        om_lookup_update split: bool.splits)
qed

theorem session_deadlines_witness:
  "let sm' = handleControlHeartbeat sample_env 7 sample_heartbeat sample_session in
   \<exists>c'. om_lookup (sm_clients sm') 7 = Some c' \<and> cc_session_generation c' = 1 \<and>
     (\<exists>t \<in> set (live_timers (timers (sm_loop sm'))). t_callback t = SessionDeadline 7 1 \<and> t_expire_ms t = 900) \<and>
     \<not> live 7 (run_functor sample_env (SessionDeadline 7 1) sm')"
proof -
  have c: "om_lookup (sm_clients sample_session) 7 = Some sample_peer" by (simp add: sample_session_def)
  have p: "cc_hello_received sample_peer" "cc_incarnation_id sample_peer = 5" "cc_session_timeout_ms sample_peer = 900"
    "cc_session_generation sample_peer = 0" "cc_deadline_timer_id sample_peer = 0"
    by (simp_all add: sample_peer_def ClientConnection_init_def)
  have m: "fst (tryReadUint32 (payload_view sample_heartbeat)) = Some 5"
    by (simp add: sample_heartbeat_def payload_view_def Buffer_content_def view_of_def tryReadUint32_def view_read_def
        readUint32_le [where x = 5] mem_get_def)
  have now: "sm_now sample_env sm = (net_clock (sm_kernel sm), sm)" for sm
    by (simp add: sm_now_def sample_env_def net_ops_def)
  have live: "live 7 (handleControlHeartbeat sample_env 7 sample_heartbeat sample_session)"
    unfolding handleControlHeartbeat_def with_conn_def sendControlHeartbeatAck_def
    by (simp add: c p m now armSessionDeadline_def with_conn_def sm_addTimer_def sm_cancelTimer_def Let_def case_prod_unfold)
      (rule net_reply_live [where tc = sample_tcp and s = "TcpServerEndpoint_init\<lparr>ep_clients := om_update 7 sample_tcp om_empty\<rparr>"],
        simp_all add: put_conn_def sample_session_def sample_tcp_def sample_peer_def
        ClientConnection_init_def Buffer_empty_def Buffer_size_def)
  have k: "net_clock (sm_kernel sample_session) = 0" by (simp add: sample_session_def ServiceManagerApp_init_def sample_net_def)
  from session_deadlines [OF c, of sample_env sample_heartbeat] live p m
  show ?thesis by (auto simp: Let_def now k)
qed

text \<open>
  \<^bold>\<open>C24\<close>. A round of the event loop wakes up in time and fires exactly what is due. The time \<open>t\<close> it hands
  to the back end's \<open>poll\<close> is none when a timer is due, otherwise never beyond the next live timer nor
  beyond what the caller allows, and unlimited only if there is no live timer and the caller allows it.
  When \<open>poll\<close> fails, the round ends there. Otherwise it dispatches the events and then fires the callbacks
  of the timers that are due by then, in order: a repeating timer is armed again from now, the others
  that were due are gone and the rest stays; then it runs the posted functions, or remembers that there
  are some.
\<close>

theorem loop_timers:
  assumes "-1 \<le> requested" "\<forall>w. host_set h (host_loop h w) w = w" "el_backend (host_loop h w) \<noteq> None"
  shows "let w0 = (if process_functors \<and> functor_wakeup_pending (host_loop h w)
                   then processPendingFunctors h (loop_update h (\<lambda>l. l\<lparr>functor_wakeup_pending := False\<rparr>) w) else w);
             now = host_now h w0; ts = timers (host_loop h w0)
         in \<exists>t. (t = 0 \<longleftrightarrow> requested = 0 \<or> (\<exists>x \<in> set ts. due now x)) \<and>
              (t = -1 \<longleftrightarrow> requested = -1 \<and> live_timers ts = []) \<and>
              (0 \<le> requested \<longrightarrow> 0 \<le> t \<and> t \<le> requested) \<and>
              (\<forall>x \<in> set (live_timers ts). 0 \<le> t \<and> t \<le> max 0 (t_expire_ms x - now)) \<and>
              pollOnceInternal wakeup_fd h requested process_functors w =
                (case host_poll h t w0 of
                   (None, w1) \<Rightarrow> w1
                 | (Some events, w1) \<Rightarrow>
                     let w2 = fold (dispatch_event wakeup_fd h) events w1;
                         l = host_loop h w2; now = host_now h w2;
                         w3 = fold (host_call h) (map t_callback (filter (due now) (timers l)))
                           (host_set h (l\<lparr>timers :=
                              map (\<lambda>x. if t_expire_ms x \<le> now then x\<lparr>t_expire_ms := now + uint (t_interval_ms x)\<rparr> else x)
                                (filter (\<lambda>x. \<not> t_cancelled x \<and> (now < t_expire_ms x \<or> t_repeat x \<and> 0 < t_interval_ms x))
                                  (timers l))\<rparr>) w2)
                     in if process_functors then processPendingFunctors h w3
                        else if pending_functors (host_loop h w3) \<noteq> []
                        then loop_update h (\<lambda>l. l\<lparr>functor_wakeup_pending := True\<rparr>) w3 else w3)"
proof -
  define w0 where "w0 = (if process_functors \<and> functor_wakeup_pending (host_loop h w)
                   then processPendingFunctors h (loop_update h (\<lambda>l. l\<lparr>functor_wakeup_pending := False\<rparr>) w) else w)"
  let ?t = "calculateTimeout (host_now h w0) requested (host_loop h w0)"
  have round: "pollOnceInternal wakeup_fd h requested process_functors w =
      (case host_poll h ?t w0 of (None, w1) \<Rightarrow> w1
       | (Some events, w1) \<Rightarrow>
           let w3 = processTimers h (fold (dispatch_event wakeup_fd h) events w1) in
           if process_functors then processPendingFunctors h w3
           else if pending_functors (host_loop h w3) \<noteq> []
           then loop_update h (\<lambda>l. l\<lparr>functor_wakeup_pending := True\<rparr>) w3 else w3)"
    unfolding pollOnceInternal_def if_not_P [OF assms(3)] Let_def w0_def [symmetric] by (rule refl)
  note fired = processTimers_spec [OF spec [OF assms(2)], unfolded Let_def]
  note t = timeout_bounds [OF assms(1), of "host_now h w0" "host_loop h w0"]
  note b = t [THEN conjunct1] t [THEN conjunct2, THEN conjunct1] t [THEN conjunct2, THEN conjunct2, THEN conjunct1]
    t [THEN conjunct2, THEN conjunct2, THEN conjunct2]
  show ?thesis
    unfolding w0_def [symmetric] Let_def round fired by (intro exI [of _ ?t] conjI b refl)
qed

definition sample_loop :: "(unit, unit, unit) EventLoop" where
  "sample_loop = snd (addTimer 0 9 () False (EventLoop_init (Some ())))"

text \<open>A host that counts fired timers, at a time when the timer of \<open>sample_loop\<close> is due.\<close>

definition counting_host :: "(unit, unit, unit, nat \<times> (unit, unit, unit) EventLoop) LoopHost" where
  "counting_host = \<lparr>host_loop = snd, host_set = (\<lambda>l (n, _). (n, l)), host_now = (\<lambda>_. 9), host_poll = (\<lambda>t w. (Some [], w)),
     host_event = (\<lambda>_ _ _ w. w), host_call = (\<lambda>_ (n, l). (Suc n, l))\<rparr>"

theorem loop_timers_witness:
  "fst (pollOnceInternal 4 counting_host (-1) False (0, sample_loop)) = 1 \<and>
   timers (snd (pollOnceInternal 4 counting_host (-1) False (0, sample_loop))) = []"
proof -
  have l: "timers sample_loop = [\<lparr>t_id = 1, t_expire_ms = 9, t_interval_ms = 0, t_repeat = False, t_cancelled = False,
      t_callback = ()\<rparr>]" "pending_functors sample_loop = []" "el_backend sample_loop = Some ()"
    by (simp_all add: sample_loop_def addTimer_def wakeup_def EventLoop_init_def Let_def)
  have 1: "(-1 :: int) \<le> -1" by simp
  have 2: "\<forall>w. host_set counting_host (host_loop counting_host w) w = w" by (auto simp: counting_host_def)
  have 3: "el_backend (host_loop counting_host (0, sample_loop)) \<noteq> None" by (simp add: counting_host_def l)
  from loop_timers [OF 1 2 3, of False 4] show ?thesis
    by (auto simp: Let_def counting_host_def l due_def)
qed

text \<open>
  \<^bold>\<open>C25\<close>. Service watches: after any sequence of subscriptions, withdrawals and closed connections the
  groups that are told about an instance are exactly those in force with a filter that matches it,
  each once. A group is in force from the accepted subscription until it is withdrawn or its
  connection closes.
\<close>

theorem watch_matching:
  "(g \<in> set (matching i (fold watch_step ops WatchNotifier_init)) \<longleftrightarrow>
      fold watch_abs ops (\<lambda>_. None) (wg_subscriber_fd g, wg_watch_id g) = Some (wg_filters g) \<and>
      (\<exists>f \<in> set (wg_filters g). watch_matches f i)) \<and>
   distinct (map (\<lambda>g. (wg_subscriber_fd g, wg_watch_id g)) (matching i (fold watch_step ops WatchNotifier_init)))"
proof -
  note h = watch_history [of ops]
  have "om_lookup (groups (fold watch_step ops WatchNotifier_init)) key = Some g \<longleftrightarrow>
      key = (wg_subscriber_fd g, wg_watch_id g) \<and> fold watch_abs ops (\<lambda>_. None) key = Some (wg_filters g)" for key
    using h(2) [of key] watch_okD(3) [OF h(1)] by (cases key) (auto simp: map_option_case split: option.splits)
  then show ?thesis using matching_spec [OF h(1)] by auto
qed

text \<open>
  \<^bold>\<open>C26\<close>. No connection can publish in the name of an instance it does not serve, whatever host or
  instance its request claims: every publication in the topic table after a publish request was
  there before or belongs to the requesting connection, which is the registered owner of exactly
  that instance of the service.
\<close>

theorem publish_no_impersonation:
  assumes "sm_ok sm" "live fd sm"
  shows "(\<forall>s t k fd'. holds (handlePublishTopic e fd msg sm) (RefPublisher s t k) fd' \<longrightarrow>
      holds sm (RefPublisher s t k) fd' \<or> fd' = fd \<and> holds sm (RefService s k) fd) \<and>
    sm_ok (handlePublishTopic e fd msg sm)"
  using publish_refs [OF assms] handlePublishTopic_ok [OF assms] by blast

theorem publish_no_impersonation_witness:
  "\<not> holds (handlePublishTopic sample_env 7 sample_msg (the sample_event)) (RefPublisher ''calc'' ''state'' ''a'') 7 \<and>
   sm_ok (handlePublishTopic sample_env 7 sample_msg (the sample_event))"
  using publish_no_impersonation [OF sample_event_sm_ok sample_event_ok(2), of sample_env sample_msg]
    sample_event_holds by blast

section \<open>Waiting for replies\<close>




text \<open>
  \<^bold>\<open>C28\<close>. The reply table is a table of slots that are idle, waiting, failed or replied, and each operation
  does to them what it promises: only a slot that waits takes a reply, and the first one stays; a
  reply is taken out once; losing the connection fails the slots that wait and drops the replies; and
  no operation touches another slot. Losing the service manager leaves the data plane alone. A
  sequence number is never 0.
\<close>

theorem reply_slots:
  "pendingReply seq t = (case slot_view t seq of Replied m \<Rightarrow> Some m | _ \<Rightarrow> None) \<and>
   slot_view (replies_beginWait seq t) x =
     (if x = seq then (case slot_view t seq of Replied m \<Rightarrow> Replied m | _ \<Rightarrow> Waiting) else slot_view t x) \<and>
   fst (consumeReplyIfWaiting seq msg t) = (slot_view t seq \<notin> {Idle, Failed}) \<and>
   slot_view (snd (snd (consumeReplyIfWaiting seq msg t))) x =
     (if x = seq \<and> slot_view t seq = Waiting then Replied msg else slot_view t x) \<and>
   takeReply seq t = (case slot_view t seq of Replied m \<Rightarrow> (Some m, eraseWait seq t) | _ \<Rightarrow> (None, t)) \<and>
   slot_view (eraseWait seq t) x = (if x = seq then Idle else slot_view t x) \<and>
   slot_view (replies_clear t) x = (case slot_view t x of Idle \<Rightarrow> Idle | Replied _ \<Rightarrow> Idle | _ \<Rightarrow> Failed) \<and>
   rt_rpc (clearReplies w) = rt_rpc w \<and>
   fst (nextSequence r) \<noteq> 0 \<and> sequence_counter (snd (nextSequence r)) = fst (nextSequence r)"
proof -
  have "takeReply seq t = (case slot_view t seq of Replied m \<Rightarrow> (Some m, eraseWait seq t) | _ \<Rightarrow> (None, t))"
    by (simp add: takeReply_view eraseWait_def split: SlotView.split)
  moreover have "fst (nextSequence r) \<noteq> 0 \<and> sequence_counter (snd (nextSequence r)) = fst (nextSequence r)"
    by (simp add: nextSequence_def Let_def)
  moreover have "rt_rpc (clearReplies w) = rt_rpc w" by (simp add: clearReplies_def)
  ultimately show ?thesis
    using pendingReply_view view_beginWait view_consume view_eraseWait view_clear [unfolded cleared_def] by blast
qed

section \<open>Topics of a runtime\<close>

text \<open>
  \<^bold>\<open>C29\<close>. The topic tables of a runtime refine their specification. After any sequence of operations on
  topics whose names have different hashes, the tables stand for exactly the subscriptions,
  publications and subscribers the operations promise. A message is delivered to exactly the callbacks
  whose selector matches its publisher; what is announced again to a new service manager is exactly
  every subscription with a callback and every published topic.
\<close>

theorem topic_runtime_refines:
  assumes "hashes_differ N" "\<forall>x \<in> set xs. op_names x \<subseteq> N"
  shows "let tr = fold topic_op xs TopicRuntime_init; a = fold topic_spec xs Topics_init in
    topics_abs N tr = a \<and>
    (\<forall>n \<in> N. set (dispatchFrom service host_id instance_id (fnv1a_32 n) data tr) =
      {(cb, host_id, instance_id, fnv1a_32 n, data) |cb. \<exists>k s. at_subs a n k = Some s \<and>
         selector_matches (su_selector s) service host_id instance_id \<and> su_has_source_callback s \<and> su_source_callback s = Some cb}) \<and>
    set (subscriptionRecords tr) =
      {(n, su_selector s, su_expected_idl_hash s) |n k s. at_subs a n k = Some s \<and> su_has_source_callback s} \<and>
    (\<forall>n owner h. at_pub a n = Some (owner, h) \<longleftrightarrow>
      om_lookup (publishedTopicOwners tr) n = Some owner \<and> om_lookup (publishedTopicHashes tr) n = Some h)"
proof -
  have h: "runtime_topics_ok N (fold topic_op xs TopicRuntime_init)"
    "topics_abs N (fold topic_op xs TopicRuntime_init) = fold topic_spec xs Topics_init"
    using history_refines [OF assms] by blast+
  show ?thesis unfolding Let_def h(2) [symmetric]
    using dispatchFrom_exact [OF h(1)] subscriptionRecords_exact [OF assms(1) h(1)] published_exact [OF assms(1) h(1)] by blast
qed

definition sample_selector :: SubscriptionSelector where
  "sample_selector = \<lparr>sl_publisher_service = ''calc'', sl_host_id = [], sl_instance_id = [], sl_instance_level = False\<rparr>"

definition sample_ops :: "(nat, nat) TopicOp list" where
  "sample_ops = [AddTcp 5 9, Remember ''moved'' sample_selector (Some 1) 0, Publish ''speed'' ''calc'' 7, DropTcpFd 9]"

theorem topic_runtime_refines_witness:
  "set (dispatchFrom ''calc'' ''h'' ''a'' (fnv1a_32 ''moved'') [] (fold topic_op sample_ops TopicRuntime_init)) =
     {(1, ''h'', ''a'', fnv1a_32 ''moved'', [])}"
proof -
  have "fnv1a_32 ''moved'' \<noteq> fnv1a_32 ''speed''" by code_simp
  then have N: "hashes_differ {''moved'', ''speed''}" by (auto simp: hashes_differ_def inj_on_def)
  have ops: "\<forall>x \<in> set sample_ops. op_names x \<subseteq> {''moved'', ''speed''}" by (simp add: sample_ops_def)
  have "at_subs (fold topic_spec sample_ops Topics_init) ''moved'' k = Some s \<longleftrightarrow>
      k = selector_key sample_selector \<and> s = (Subscription_new sample_selector)\<lparr>su_source_callback := Some 1, su_has_source_callback := True\<rparr>" for k s
    by (auto simp: sample_ops_def edit_sub_def Let_def Topics_init_def Subscription_new_def split: if_splits)
  moreover have "selector_matches sample_selector ''calc'' ''h'' ''a''" by (simp add: selector_matches_def sample_selector_def)
  ultimately show ?thesis
    using topic_runtime_refines [OF N ops, of "''calc''" "''h''" "''a''" "[]"] by (simp add: Let_def Subscription_new_def)
qed

section \<open>Connections of a runtime\<close>

text \<open>A runtime whose connections are closed as the runtime closes them, on one that collects messages.\<close>

definition sample_shm :: ShmConfig where
  "sample_shm = \<lparr>req_ring_capacity = 0, resp_ring_capacity = 0\<rparr>"

definition sample_kernel :: "rx_event list \<Rightarrow> sim" where
  "sample_kernel rx = \<lparr>sim_net = \<lparr>net_rx = rx, net_room = [], net_tx = [], net_errno = 0, net_clock = 0\<rparr>,
     sim_open = [0, 1, 2], sim_shm = False\<rparr>"

definition sample_manager :: "rx_event list \<Rightarrow>
    (int list, sim, string, nat, unit, (string \<times> Message) list) cm_state" where
  "sample_manager rx = \<lparr>cm_loop = EventLoop_init (Some ()), cm_local_host_id = ''h'', cm_connections = om_empty,
     cm_objects = om_empty, cm_kernel = sample_kernel rx, cm_dangling = False, \<dots> = []\<rparr>"

definition sample_connect ::
    "(int list, sim, string, nat, unit, (string \<times> Message) list) cm_state
     \<Rightarrow> nat option \<times> (int list, sim, string, nat, unit, (string \<times> Message) list) cm_state" where
  "sample_connect = getOrCreateConnectionByKey (sim_env plain_alloc) ''calc'' ''calc'' ''10.0.0.2'' 9000 ''h2'' sample_shm ''a''"

definition sample_cm_callbacks ::
    "(int list, sim, string, nat, unit, (string \<times> Message) list) cm_state CmCallbacks" where
  "sample_cm_callbacks =
     \<lparr>message_cb = Some (\<lambda>key m w. Some (Message_default, ConnectionManager.ConnectionManager.more_update (\<lambda>xs. xs @ [(key, m)]) w)),
      disconnect_cb = Some (\<lambda>key w. Some (removeConnection (sim_env plain_alloc) key w))\<rparr>"


lemma sample_fresh: "fresh_manager (sim_env plain_alloc) (\<lambda>k. set (sim_open k)) (sample_manager rx)"
  by (simp add: fresh_manager_def sample_manager_def loop_watches_def EventLoop_init_def)

lemma sample_connect_simp:
  "sample_connect (sample_manager rx) =
     (Some 1, (sample_manager rx)\<lparr>cm_loop := loop_addFd (ce_backend (sim_env plain_alloc)) 3 EVENT_READ ''calc'' (EventLoop_init (Some ())),
       cm_connections := om_update ''calc'' 1 om_empty,
       cm_objects := om_update 1 (ServiceConnection_init\<lparr>sc_connection_key := ''calc'', sc_remote_host := ''10.0.0.2'',
         sc_remote_port := 9000, sc_remote_host_id := ''h2'', sc_remote_instance_id := ''a'', sc_connected := True,
         sc_transport := Some (Tcp \<lparr>tc_fd = 3, tc_state = CONNECTED, tc_remote_host = ''10.0.0.2'', tc_remote_port = 9000\<rparr>)\<rparr>) om_empty,
       cm_kernel := (sample_kernel rx)\<lparr>sim_net := (sim_net (sample_kernel rx))\<lparr>net_clock := 1\<rparr>, sim_open := [3, 0, 1, 2]\<rparr>\<rparr>)"
  by (simp add: sample_connect_def sample_manager_def getOrCreateConnectionByKey_def create_connection_def
      createClientConnection_def chooseTransportPolicy_def connect_tcp_def tcp_connect_def TcpConnection_default_def
      completePendingConnect_def tcp_checkConnectComplete_def sim_sockets_def sim_with_def fresh_fd_def sample_kernel_def
      INVALID_SOCKET_FD_def om_keys_def transport_fd_def cm_put_def sim_env_def ServiceConnection_init_def Let_def)



text \<open>
  On a back end that refuses descriptors, \<open>getOrCreateConnectionByKey\<close> nevertheless returns a
  connection, connected and filed under its key, whose data nobody waits for.
\<close>

lemma refused_descriptor_unwatched:
  "let e = (sim_env plain_alloc)\<lparr>ce_backend := \<lparr>be_addFd = (\<lambda>fd ev b. (False, b)), be_modifyFd = (\<lambda>fd ev b. (True, b)),
         be_removeFd = (\<lambda>fd b. b)\<rparr>\<rparr>;
       (r, w) = getOrCreateConnectionByKey e ''calc'' ''calc'' ''10.0.0.2'' 9000 ''h2'' sample_shm ''a'' (sample_manager [])
   in r = Some 1 \<and> om_lookup (cm_connections w) ''calc'' = Some 1 \<and>
      map_option sc_connected (om_lookup (cm_objects w) 1) = Some True \<and> (\<forall>f. loop_watches (cm_loop w) f = None)"
  by (simp add: sample_manager_def getOrCreateConnectionByKey_def create_connection_def
      createClientConnection_def chooseTransportPolicy_def connect_tcp_def tcp_connect_def TcpConnection_default_def
      completePendingConnect_def tcp_checkConnectComplete_def sim_sockets_def sim_with_def fresh_fd_def sample_kernel_def
      INVALID_SOCKET_FD_def om_keys_def transport_fd_def cm_put_def sim_env_def ServiceConnection_init_def Let_def
      loop_watches_def loop_addFd_def EventLoop_init_def om_lookup_update om_lookup_erase)

text \<open>
  \<^bold>\<open>C31\<close>. \<open>getOrCreateConnectionByKey\<close> never hands out a connection to another endpoint. A connection that
  is connected to the host, port, board and instance asked for is returned and nothing changes; what it
  returns otherwise is a new one, connected to exactly that endpoint, with no session yet, over shared
  memory only if both sides are on the same board; when connecting fails, nothing is left under the key.
  Connections under other keys stay, and the invariant behind C30 holds again. The event loop need not
  have accepted the descriptor of the new connection.
\<close>

theorem getOrCreate_behaviour:
  assumes "conn_env e opened held" "cm_ok e opened held w"
    and "getOrCreateConnectionByKey e key name host port host_id shm inst w = (r, w')"
  shows "cm_ok e opened held w' \<and>
    (\<forall>p. reusable key host port host_id inst w p \<longrightarrow> r = Some p \<and> w' = w) \<and>
    (\<forall>p. r = Some p \<longrightarrow> reusable key host port host_id inst w' p \<and>
       (reusable key host port host_id inst w p \<or>
        (\<exists>c. om_lookup (cm_objects w') p = Some c \<and> \<not> sc_session_ready c \<and>
             (\<forall>s. sc_transport c = Some (Shm s) \<longrightarrow> host_id \<noteq> [] \<and> cm_local_host_id w = host_id)))) \<and>
    (r = None \<longrightarrow> om_lookup (cm_connections w') key = None) \<and>
    (\<forall>key'. key' \<noteq> key \<longrightarrow> om_lookup (cm_connections w') key' = om_lookup (cm_connections w) key')"
proof -
  note r = conn_env.getOrCreate_result [OF assms]
  have shm: "host_id \<noteq> [] \<and> cm_local_host_id w = host_id" if "chooseTransportPolicy (cm_local_host_id w) host_id = PREFER_SHM"
    using that by (simp add: chooseTransportPolicy_def split: if_splits)
  show ?thesis using r(1-3,5,6) r(4) shm by blast
qed

theorem getOrCreate_behaviour_witness:
  "let w = snd (sample_connect (sample_manager [])) in
   reusable ''calc'' ''10.0.0.2'' 9000 ''h2'' ''a'' w 1 \<and> sample_connect w = (Some 1, w)"
proof -
  let ?o = "\<lambda>k. set (sim_open k)"
  have ok: "cm_ok (sim_env plain_alloc) ?o set (sample_manager [])" by (rule fresh_manager_ok [OF sample_fresh])
  obtain w where w: "sample_connect (sample_manager []) = (Some 1, w)" using sample_connect_simp by blast
  from getOrCreate_behaviour [OF sim.conn_env_axioms ok w [unfolded sample_connect_def]]
  have 1: "cm_ok (sim_env plain_alloc) ?o set w" "reusable ''calc'' ''10.0.0.2'' 9000 ''h2'' ''a'' w 1" by simp_all
  obtain r w' where 2: "sample_connect w = (r, w')" by force
  from getOrCreate_behaviour [OF sim.conn_env_axioms 1(1) 2 [unfolded sample_connect_def]] 1(2) 2 w
  show ?thesis by (simp add: Let_def)
qed

text \<open>
  \<^bold>\<open>C32\<close>. Data on a TCP connection reaches the message callback. Let the bytes in the receive buffer, in
  the socket and not yet sent be the frames of \<open>ms\<close>, and let the callback append to a list. Then
  \<open>onConnectionData\<close> returns (\<^const>\<open>delivered\<close>). It has received on the connection's socket for as long
  as that gave bytes; of the bytes buffered before and received, the complete frames, and nothing
  else, are the messages by which the list has grown, in order and under the key of the connection,
  and the rest is in the buffer. The last receive reported that there was nothing to read, and the
  connection stays as it is; or that the connection failed, and \<open>failConnection\<close> has been run on it.
\<close>

theorem data_delivered:
  assumes "tcp_kernel (net_sockets (ce_net e)) sent inflight" "alloc_total (ce_alloc e)" "collecting seen cbs"
    and "om_lookup (cm_connections w) key = Some p" "om_lookup (cm_objects w) p = Some c" "sc_connection_key c = key"
    and "sc_transport c = Some (Tcp tc)" "recv_ok (sc_recv_buffer c)" "\<forall>m \<in> set ms. sendable m"
    and "Buffer_content (sc_recv_buffer c) @ inflight (cm_kernel w) @ unsent = concat (map frame_bytes ms)"
  shows "\<exists>w'. onConnectionData e cbs key w = Some w' \<and> delivered e cbs inflight seen p c tc ms unsent w w'"
  using data_loop_delivers [OF assms(1-8) _ assms(9,10), of Message_default] assms(4-7)
  by (simp add: onConnectionData_def Message_default_def)

definition sample_conn :: "int list ServiceConnection" where
  "sample_conn = ServiceConnection_init\<lparr>sc_connection_key := ''calc'', sc_remote_host := ''10.0.0.2'',
      sc_remote_port := 9000, sc_remote_host_id := ''h2'', sc_remote_instance_id := ''a'', sc_connected := True,
      sc_transport := Some (Tcp \<lparr>tc_fd = 3, tc_state = CONNECTED, tc_remote_host = ''10.0.0.2'', tc_remote_port = 9000\<rparr>)\<rparr>"

theorem data_delivered_witness:
  "let w = snd (sample_connect (sample_manager [RxData (frame_bytes sample_msg), RxBlock])) in
   \<exists>w'. onConnectionData (sim_env plain_alloc) sample_cm_callbacks ''calc'' w = Some w' \<and>
     delivered (sim_env plain_alloc) sample_cm_callbacks (\<lambda>k. rx_bytes (net_rx (sim_net k))) (\<lambda>xs. xs) 1 sample_conn
       \<lparr>tc_fd = 3, tc_state = CONNECTED, tc_remote_host = ''10.0.0.2'', tc_remote_port = 9000\<rparr> [sample_msg] [] w w'"
proof -
  let ?e = "sim_env plain_alloc"
  let ?w = "snd (sample_connect (sample_manager [RxData (frame_bytes sample_msg), RxBlock]))"
  let ?tc = "\<lparr>tc_fd = 3, tc_state = CONNECTED, tc_remote_host = ''10.0.0.2'', tc_remote_port = 9000\<rparr>"
  have k: "tcp_kernel (net_sockets (ce_net ?e)) (\<lambda>k. net_tx (sim_net k)) (\<lambda>k. rx_bytes (net_rx (sim_net k)))"
    using sim_tcp.tcp_kernel_axioms by simp
  have al: "alloc_total (ce_alloc ?e)" by simp
  have co: "collecting (\<lambda>xs. xs) sample_cm_callbacks"
    by (auto simp: collecting_def sample_cm_callbacks_def Message_default_def removeConnection_def cm_release_def cm_delete_def
        cm_unwatch_def Let_def split: option.splits)
  have w: "om_lookup (cm_connections ?w) ''calc'' = Some 1" "om_lookup (cm_objects ?w) 1 = Some sample_conn"
    "rx_bytes (net_rx (sim_net (cm_kernel ?w))) = frame_bytes sample_msg"
    by (simp_all add: sample_connect_simp sample_kernel_def sample_conn_def)
  have "\<exists>w'. onConnectionData ?e sample_cm_callbacks ''calc'' ?w = Some w' \<and>
      delivered ?e sample_cm_callbacks (\<lambda>k. rx_bytes (net_rx (sim_net k))) (\<lambda>xs. xs) 1 sample_conn ?tc [sample_msg] [] ?w w'"
    by (rule data_delivered [OF k al co w(1,2)]) (simp_all add: w(3) sample_conn_def ServiceConnection_init_def, simp add: sample_msg_def)
  then show ?thesis by (simp add: Let_def)
qed

section \<open>The interface compiler\<close>

text \<open>
  \<^bold>\<open>C33\<close>. The lexer reads laid-out sources back. For every sequence of well-formed tokens, with any blanks and
  comments around them that keep words apart, it gives exactly those tokens and the end of the file,
  each with the line and column of its first character.
\<close>

theorem idl_lexer_roundtrip:
  assumes "layout_ok xs final"
  shows "lex_all (Lexer_new (layout_text xs final)) = layout_tokens xs final (1, 1)"
  unfolding Lexer_new_at by (rule lex_layout [OF assms])

theorem idl_lexer_roundtrip_witness:
  "lex_all (Lexer_new (layout_text [([LineComment ''a file''], (TOK_PACKAGE, ''package'')),
       ([BlockComment ''*''], (TOK_IDENTIFIER, ''demo'')), ([], (TOK_SEMICOLON, '';''))] [])) =
     layout_tokens [([LineComment ''a file''], (TOK_PACKAGE, ''package'')),
       ([BlockComment ''*''], (TOK_IDENTIFIER, ''demo'')), ([], (TOK_SEMICOLON, '';''))] [] (1, 1)"
  by (rule idl_lexer_roundtrip)
     (simp add: newline_def lexeme_ok_def is_word_def word_type_def idl_keywords_def glue_ok_def blanks_text_def
        lexeme_text_def is_word_char_def c_isalnum_def c_isalpha_def is_digit_def punctuation_def)

text \<open>
  \<^bold>\<open>C34\<close>. The parser gives back what was written. For every file of a package and any sequence of well-formed
  struct, topic and service declarations, however it is laid out, parsing succeeds with exactly the
  declarations of the file in their order, and files them, and nothing else, under the package. And every such file can
  be written.
\<close>

theorem idl_parser_roundtrip:
  assumes "list_all decl_ok ds" "ident pkg"
    and "layout_ok xs final" "map snd xs = file_lexemes pkg ds"
    and "length (layout_text xs final) \<le> IDLC_MAX_SOURCE_BYTES_PER_FILE"
    and "Parser_new (Lexer_new (layout_text xs final)) ParseContext_init path 0 = (p, c)"
  shows "(\<exists>q ctx'. parse fs p c = (True, file_ast path pkg ds, q, ctx') \<and>
      pc_loaded_packages ctx' = om_update pkg (file_ast path pkg ds) om_empty) \<and>
    layout_ok (spaced (file_lexemes pkg ds)) [Space (CHR '' '')]"
proof -
  have total: "pc_total_source_bytes ParseContext_init + length (layout_text xs final) \<le> IDLC_MAX_TOTAL_SOURCE_BYTES"
    using assms(5) by (simp add: ParseContext_init_def IDLC_MAX_SOURCE_BYTES_PER_FILE_def IDLC_MAX_TOTAL_SOURCE_BYTES_def)
  show ?thesis
    using parse_layout [OF assms(3,4,1,2,5) total _ assms(6), of fs] spaced_ok [OF file_lexemes_ok [OF assms(2,1)]]
    by (simp add: ParseContext_init_def)
qed

text \<open>A package with two structs, the first containing the second, a topic and a service.\<close>

definition sample_decls :: "Decl list" where
  "sample_decls =
     [DStruct \<lparr>sd_name = ''Line'', sd_fields = [\<lparr>fd_type = TypeRef TYPE_CUSTOM ''Point'' [] None, fd_name = ''start''\<rparr>]\<rparr>,
      DStruct \<lparr>sd_name = ''Point'', sd_fields = [\<lparr>fd_type = TypeRef TYPE_INT32 [] [] None, fd_name = ''x''\<rparr>]\<rparr>,
      DTopic \<lparr>td_name = ''Moved'', td_fields = [\<lparr>fd_type = TypeRef TYPE_CUSTOM ''Line'' [] None, fd_name = ''to''\<rparr>]\<rparr>,
      DService ''Board'' [Publishes ''Moved'']]"

lemmas idl_eval = ident_def is_word_def word_type_def idl_keywords_def is_word_char_def c_isalnum_def c_isalpha_def
  is_digit_def field_ok_def IDLC_MAX_TYPE_NESTING_def

lemma sample_decls_ok: "list_all decl_ok sample_decls" "ident ''demo''"
  by (simp_all add: sample_decls_def idl_eval)

lemma sample_file:
  "layout_ok (spaced (file_lexemes ''demo'' sample_decls)) [Space (CHR '' '')]"
  "map snd (spaced (file_lexemes ''demo'' sample_decls)) = file_lexemes ''demo'' sample_decls"
  "length (layout_text (spaced (file_lexemes ''demo'' sample_decls)) [Space (CHR '' '')]) \<le> IDLC_MAX_SOURCE_BYTES_PER_FILE"
proof -
  show "layout_ok (spaced (file_lexemes ''demo'' sample_decls)) [Space (CHR '' '')]"
    by (rule spaced_ok [OF file_lexemes_ok [OF sample_decls_ok(2,1)]])
  show "map snd (spaced (file_lexemes ''demo'' sample_decls)) = file_lexemes ''demo'' sample_decls"
    by (simp add: spaced_def file_lexemes_def comp_def)
  show "length (layout_text (spaced (file_lexemes ''demo'' sample_decls)) [Space (CHR '' '')]) \<le> IDLC_MAX_SOURCE_BYTES_PER_FILE"
    by (subst print_spaced) (simp_all add: file_lexemes_def sample_decls_def block_lexemes_def field_lexemes_def kw_def
        tokenTypeToString_def token_of_def print_tokens_def lexeme_text_def IDLC_MAX_SOURCE_BYTES_PER_FILE_def)
qed

theorem idl_parser_roundtrip_witness:
  "\<exists>p c q ctx'. Parser_new (Lexer_new (layout_text (spaced (file_lexemes ''demo'' sample_decls)) [Space (CHR '' '')]))
       ParseContext_init ''demo.bidl'' 0 = (p, c) \<and>
     parse (flat_files Map.empty) p c = (True, file_ast ''demo.bidl'' ''demo'' sample_decls, q, ctx')"
proof -
  obtain p c where n: "Parser_new (Lexer_new (layout_text (spaced (file_lexemes ''demo'' sample_decls)) [Space (CHR '' '')]))
       ParseContext_init ''demo.bidl'' 0 = (p, c)" by (metis surj_pair)
  from idl_parser_roundtrip [OF sample_decls_ok sample_file n, of "flat_files Map.empty"] n show ?thesis by blast
qed

text \<open>
  \<^bold>\<open>C35\<close>. Loading files is bounded and leaves the context in order, whatever the files contain. Starting from the
  main file, the parser ends; it fails exactly with an error message; at most 256 files and 64 MiB
  are loaded; no file is left marked as in progress; every loaded
  package is filed under its name, and whatever it imports is loaded as well.
\<close>

theorem idl_loading:
  assumes "files_ok fs" "path \<noteq> []" "Parser_new (Lexer_new source) ParseContext_init path 0 = (p, ctx)"
    and "parse fs p ctx = (ok, ast, p', ctx')"
  shows "ok = (\<not> pr_has_error p') \<and> pc_processing_files ctx' = om_empty \<and>
    pc_total_source_bytes ctx' \<le> IDLC_MAX_TOTAL_SOURCE_BYTES \<and> length (pc_all_files ctx') \<le> IDLC_MAX_IMPORT_FILES \<and>
    (\<forall>pkg a. om_lookup (pc_loaded_packages ctx') pkg = Some a \<longrightarrow> af_package_name a = pkg \<and> pkg \<noteq> [] \<and>
       (\<forall>i \<in> set (af_imported_packages a). i = [] \<or> om_lookup (pc_loaded_packages ctx') i \<noteq> None))"
proof -
  have "loaded_ok ctx (ok, ast, p', ctx')" "ctx_ok ctx" "pc_processing_files ctx = om_empty"
    using parse_main [OF assms(1-3)] assms(4) by simp_all
  then have "ok = (\<not> pr_has_error p')" "pc_processing_files ctx' = om_empty" "ctx_ok ctx'"
    by (simp_all add: loaded_ok_def extends_def)
  then show ?thesis unfolding ctx_ok_def packages_closed_def by simp
qed

theorem idl_loading_witness:
  "\<exists>p ctx ok ast p' ctx'. Parser_new (Lexer_new ''package demo; import '') ParseContext_init ''demo.bidl'' 0 = (p, ctx) \<and>
     parse (flat_files Map.empty) p ctx = (ok, ast, p', ctx') \<and> ok = (\<not> pr_has_error p') \<and> pc_processing_files ctx' = om_empty"
proof -
  obtain p ctx where n: "Parser_new (Lexer_new ''package demo; import '') ParseContext_init ''demo.bidl'' 0 = (p, ctx)"
    by (metis surj_pair)
  obtain ok ast p' ctx' where r: "parse (flat_files Map.empty) p ctx = (ok, ast, p', ctx')" by (metis prod_cases4)
  have "files_ok (flat_files Map.empty)" by (simp add: files_ok_def flat_files_def)
  from idl_loading [OF this _ n r] n r show ?thesis by auto
qed

text \<open>The sample package as a tree, and as the validator leaves it.\<close>

definition sample_ast :: AstFile where
  "sample_ast = file_ast ''demo.bidl'' ''demo'' sample_decls"

lemmas sample_defs = file_ast_def AstFile_init_def sample_decls_def sample_ast_def methods_of_def publishes_of_def

lemma sample_ast_fields:
  "af_package_name sample_ast = ''demo''" "af_package_count sample_ast = 1" "af_package_before sample_ast"
  "af_imports_before_declarations sample_ast" "af_imported_packages sample_ast = []"
  "af_structs sample_ast = [\<lparr>sd_name = ''Line'', sd_fields = [\<lparr>fd_type = TypeRef TYPE_CUSTOM ''Point'' [] None, fd_name = ''start''\<rparr>]\<rparr>,
     \<lparr>sd_name = ''Point'', sd_fields = [\<lparr>fd_type = TypeRef TYPE_INT32 [] [] None, fd_name = ''x''\<rparr>]\<rparr>]"
  "af_topics sample_ast = [\<lparr>td_name = ''Moved'', td_fields = [\<lparr>fd_type = TypeRef TYPE_CUSTOM ''Line'' [] None, fd_name = ''to''\<rparr>]\<rparr>]"
  "af_services sample_ast = [\<lparr>sv_name = ''Board'', sv_methods = [], sv_publishes = [''Moved'']\<rparr>]"
  by (simp_all add: sample_defs)


abbreviation sample_sorted :: AstFile where
  "sample_sorted \<equiv> sample_ast\<lparr>af_structs := rev (af_structs sample_ast)\<rparr>"

lemmas visit_numerals = visitLocalStruct.simps(2) [where levels = "pred_numeral v" for v, folded numeral_eq_Suc]
  visitQualified.simps(2) [where levels = "pred_numeral v" for v, folded numeral_eq_Suc]


lemmas validator_eval = sample_ast_fields visit_numerals om_lookup_update IDLC_MAX_SEMANTIC_TRAVERSAL_def IDLC_MAX_STRUCT_DEPENDENCY_DEPTH_def
  IDLC_MAX_TYPE_NESTING_def

lemma sample_order: "orderStructs sample_ast 4 = Inr (sample_sorted, 7)"
proof -
  have [simp]: "[0..<2] = [0, Suc 0]" by (simp add: upt_rec)
  show ?thesis by (simp add: orderStructs_def validator_eval local_index_def localDeps_def)
qed

text \<open>
  \<^bold>\<open>C36\<close>. Structs are put in an order C++ can compile. When \<open>orderStructs\<close> succeeds, it only permutes the
  structs of the file, and a struct that is the type of a field stands before the struct with that field.
\<close>

theorem idl_struct_order:
  assumes "orderStructs ast t = Inr (ast', t')" "distinct (map sd_name (af_structs ast))"
  shows "mset (af_structs ast') = mset (af_structs ast) \<and>
    (\<forall>i < length (af_structs ast'). \<forall>f \<in> set (sd_fields (af_structs ast' ! i)). \<forall>name \<in> set (map sd_name (af_structs ast)).
       by_value ast f name \<longrightarrow> (\<exists>j < i. sd_name (af_structs ast' ! j) = name))"
  using orderStructs_mset [OF assms(1)] orderStructs_sorted [OF assms] by blast


theorem idl_struct_order_witness:
  "\<exists>j < 1. sd_name (af_structs sample_sorted ! j) = ''Point''"
  using idl_struct_order [OF sample_order]
  by (auto simp: sample_ast_fields by_value_def dest: spec [where x = "Suc 0"])

text \<open>The validator on the sample package.\<close>

lemma sample_visible: "buildVisibleDeclarations sample_ast (om_update ''demo'' sample_ast om_empty) 0 =
   Inr (om_update ''demo.Board'' DECL_SERVICE (om_update ''demo.Moved'' DECL_TOPIC (om_update ''demo.Point'' DECL_STRUCT (om_update ''demo.Line'' DECL_STRUCT om_empty))), 1)"
  by (simp add: buildVisibleDeclarations_def collectVisiblePackages_unfold [of "''demo''"] collect_with_def validator_eval os_insert_def om_keys_def om_list_update
     collectDeclarations_def addDeclaration_def qualify_def isLanguageKeyword_def)
lemma sample_file_valid: "validateFile sample_ast (om_update ''demo'' sample_ast om_empty) 0 = Inr (sample_sorted, 7)"
proof -
  have "validateFile sample_ast (om_update ''demo'' sample_ast om_empty) 0 = orderStructs sample_ast 4"
    by (simp add: validateFile_def sample_visible sample_ast_fields validateFields_def validateFieldNames_def isLanguageKeyword_def isReservedStructMember_def
      validateService_def validatePublished_def qualifiedName_def qualify_def os_insert_def IDLC_MAX_SEMANTIC_TRAVERSAL_def IDLC_MAX_TYPE_NESTING_def om_lookup_update)
       (simp add: eval_nat_numeral)
  with sample_order show ?thesis by simp
qed
lemma sample_cycles: "validateCycles (om_update ''demo'' sample_sorted om_empty) 7 = Inr 10"
  by (simp add: validateCycles_def all_structs_def validator_eval om_list_update om_keys_def qualify_def qualifiedDeps_def
     package_part_def state_of_def)

lemma sample_semantics:
  assumes "pc_loaded_packages ctx = om_update ''demo'' sample_ast om_empty"
  shows "validateSemantics sample_ast ctx = Inr (sample_sorted, ctx\<lparr>pc_loaded_packages := om_update ''demo'' sample_sorted om_empty\<rparr>)"
proof -
  have [simp]: "om_update ''demo'' a (om_update ''demo'' b om_empty) = om_update ''demo'' a om_empty" for a b :: AstFile
    unfolding om_list_inject [symmetric] by (simp add: om_list_update)
  show ?thesis
    using sample_file_valid sample_cycles assms
    by (simp add: validateSemantics_def sample_ast_fields(1) om_keys_def om_list_update om_lookup_update)
qed

text \<open>
  \<^bold>\<open>C37\<close>. What the compiler accepts is sound. If the front end succeeds on a file, then every loaded package
  declares its name once and first, its declarations have different names that are no keywords, its
  fields, parameters and results have types that exist and are structs of packages reached through
  imports, its published topics are topics; the structs of every file come after the structs they
  contain; and no struct contains itself by value, not even through other packages.
\<close>

theorem idl_accepted:
  assumes "files_ok fs" "path \<noteq> []" "front_end fs path = Inr (ast, ctx)"
  shows "(\<forall>p a. om_lookup (pc_loaded_packages ctx) p = Some a \<longrightarrow>
      af_package_name a = p \<and> file_valid (pc_loaded_packages ctx) a \<and> structs_sorted a) \<and>
    (\<exists>rank :: string \<Rightarrow> nat. \<forall>n. \<forall>d \<in> set (qualifiedDeps (all_structs (pc_loaded_packages ctx)) n). rank d < rank n) \<and>
    pc_processing_files ctx = om_empty \<and> length (pc_all_files ctx) \<le> IDLC_MAX_IMPORT_FILES"
  using front_end_ok [OF assms] by blast


definition sample_source :: string where
  "sample_source = layout_text (spaced (file_lexemes ''demo'' sample_decls)) [Space (CHR '' '')]"

definition sample_files :: IdlFiles where
  "sample_files = flat_files [''demo.bidl'' \<mapsto> sample_source]"

lemma sample_front_end:
  "\<exists>ctx. front_end sample_files ''demo.bidl'' = Inr (sample_sorted, ctx) \<and> pc_loaded_packages ctx = om_update ''demo'' sample_sorted om_empty"
proof -
  obtain p c where n: "Parser_new (Lexer_new sample_source) ParseContext_init ''demo.bidl'' 0 = (p, c)" by (metis surj_pair)
  have "pc_total_source_bytes ParseContext_init + length sample_source \<le> IDLC_MAX_TOTAL_SOURCE_BYTES"
    using sample_file(3) by (simp add: sample_source_def ParseContext_init_def IDLC_MAX_SOURCE_BYTES_PER_FILE_def IDLC_MAX_TOTAL_SOURCE_BYTES_def)
  then obtain q ctx where r: "parse sample_files p c = (True, sample_ast, q, ctx)"
    "pc_loaded_packages ctx = om_update ''demo'' sample_ast om_empty"
    using parse_layout [OF sample_file(1,2) sample_decls_ok sample_file(3), of ParseContext_init "''demo.bidl''" 0 p c sample_files] n
    by (auto simp: sample_source_def sample_ast_def ParseContext_init_def)
  have "fs_open sample_files ''demo.bidl'' = Some (int (length sample_source), sample_source)"
    by (simp add: sample_files_def flat_files_def)
  moreover have "int (length sample_source) \<le> int IDLC_MAX_SOURCE_BYTES_PER_FILE" using sample_file(3) by (simp add: sample_source_def)
  ultimately show ?thesis
    using n r(1) sample_semantics [OF r(2)] by (simp add: front_end_def Let_def)
qed

theorem idl_accepted_witness:
  "\<exists>ctx. front_end sample_files ''demo.bidl'' = Inr (sample_sorted, ctx) \<and> pc_processing_files ctx = om_empty"
proof -
  obtain ctx where r: "front_end sample_files ''demo.bidl'' = Inr (sample_sorted, ctx)" using sample_front_end by blast
  have "files_ok sample_files" by (simp add: files_ok_def sample_files_def flat_files_def)
  from idl_accepted [OF this _ r] r show ?thesis by auto
qed

section \<open>The command line tool\<close>

definition two_63 :: u64 where "two_63 = 0x43E0000000000000"
definition infinity64 :: u64 where "infinity64 = 0x7FF0000000000000"


text \<open>What the round trip of JSON has to leave out: \<open>2^63\<close> is printed with the wrong sign, and infinity as no JSON at all.\<close>

lemma json_prints_two_63: "json_print pretty indent (JFp two_63) = dec_int (- (2 ^ 63))"
  by (simp add: two_63_def prints_integral_def double_isfinite_def double_mag_def DOUBLE_INF_def double_integral_def double_trunc_def
      double_fraction_def fp_fraction_def fp_shift_def fp_significand_def Let_def double_negative_def double_less_int_def int_less_double_def)

lemma json_prints_infinity:
  "json_print pretty indent (JFp infinity64) = ''inf'' \<and> json_parse ''inf'' = Inl ''Invalid JSON value''"
proof
  show "json_print pretty indent (JFp infinity64) = ''inf''"
    by (simp add: infinity64_def prints_integral_def double_isfinite_def double_mag_def DOUBLE_INF_def double_print_def double_negative_def)
  have k: "kMaxJsonDepth = Suc 63" by (simp add: kMaxJsonDepth_def)
  show "json_parse ''inf'' = Inl ''Invalid JSON value''" unfolding json_parse_def k parseValue.simps by (simp add: is_digit_def c_isspace_def)
qed















end
